(* ===== verification/Prelude.thy ===== *)
theory Prelude
  imports Main "HOL-Library.Word"
begin

text \<open>
  Shared vocabulary of the development: the failure values every operation of the library
  may end with, the sequencing combinator \<open>bindE\<close> over \<open>failure + 'a\<close>, and the generic facts
  on words, lists and maps that the component theories use.

  A C function of the repository is modelled as a function that takes the program state and
  returns \<open>Inl f\<close> when the process does not come back from the call, and \<open>Inr (r, st)\<close> when it
  returns \<open>r\<close> in the state \<open>st\<close>.
\<close>

type_synonym addr = "64 word"
type_synonym size_t = "64 word"
type_synonym byte = "8 word"
type_synonym tid = nat

text \<open>
  How a call can fail to return.  \<open>Fatal\<close> is \<open>ownedc_diagnostics_fatal\<close> (the reason, the object
  pointer, the source location it prints before \<open>exit(1)\<close>); \<open>Aborted\<close> is \<open>abort()\<close> after the
  message; \<open>Exited\<close> is a plain \<open>exit\<close>; \<open>Undefined\<close> is an access C gives no meaning to (a read of
  memory that was returned to the allocator, a write past a block, a double release of a block);
  \<open>Diverged\<close> is a loop that does not end; \<open>Blocked\<close> is a wait that no one ends.
\<close>

datatype failure =
    Fatal string addr "string option" int
  | Aborted string
  | Exited int
  | Undefined string
  | Diverged
  | Blocked

subsection \<open>Collections of facts\<close>

named_theorems op_defs \<open>definitions of the modelled C functions\<close>
named_theorems rt_simps \<open>what an operation leaves unchanged\<close>
named_theorems inv_intros \<open>preservation of the invariants\<close>

subsection \<open>Sequencing\<close>

definition bindE :: "'e + 'a \<Rightarrow> ('a \<Rightarrow> 'e + 'b) \<Rightarrow> 'e + 'b" where
  "bindE m f = (case m of Inl e \<Rightarrow> Inl e | Inr x \<Rightarrow> f x)"

lemma bindE_simps [simp]:
  "bindE (Inl e) f = Inl e"
  "bindE (Inr x) f = f x"
  by (simp_all add: bindE_def)

lemma bindE_eq_Inr: "bindE m f = Inr y \<longleftrightarrow> (\<exists>x. m = Inr x \<and> f x = Inr y)"
  by (cases m) simp_all

lemma bindE_eq_Inl: "bindE m f = Inl e \<longleftrightarrow> m = Inl e \<or> (\<exists>x. m = Inr x \<and> f x = Inl e)"
  by (cases m) simp_all

lemma bindE_InrE [elim]:
  assumes "bindE m f = Inr y"
  obtains x where "m = Inr x" and "f x = Inr y"
  using assms by (auto simp: bindE_eq_Inr)

lemma bindE_assoc: "bindE (bindE m f) g = bindE m (\<lambda>x. bindE (f x) g)"
  by (cases m) simp_all

lemma bindE_cong [fundef_cong]:
  assumes "m = m'" and "\<And>x. m' = Inr x \<Longrightarrow> f x = f' x"
  shows "bindE m f = bindE m' f'"
  using assms by (cases m') simp_all

lemma bindE_if: "bindE (if c then a else b) f = (if c then bindE a f else bindE b f)"
  by simp

text \<open>A step that may fail, repeated over a list: the \<open>for\<close> loops of the source.\<close>

fun foldE :: "('a \<Rightarrow> 's \<Rightarrow> 'e + 's) \<Rightarrow> 'a list \<Rightarrow> 's \<Rightarrow> 'e + 's" where
  "foldE f [] s = Inr s"
| "foldE f (x # xs) s = bindE (f x s) (foldE f xs)"

lemma foldE_append: "foldE f (xs @ ys) s = bindE (foldE f xs s) (foldE f ys)"
proof (induction xs arbitrary: s)
  case Nil
  show ?case by simp
next
  case (Cons x xs)
  then show ?case by (cases "f x s") simp_all
qed

lemma foldE_invariant:
  assumes "foldE f xs s = Inr s'" and "P s"
    and "\<And>x s s'. x \<in> set xs \<Longrightarrow> P s \<Longrightarrow> f x s = Inr s' \<Longrightarrow> P s'"
  shows "P s'"
  using assms
proof (induction xs arbitrary: s)
  case Nil
  then show ?case by simp
next
  case (Cons x xs)
  from Cons.prems(1) obtain s1 where s1: "f x s = Inr s1" and r: "foldE f xs s1 = Inr s'"
    by auto
  have "P s1" using Cons.prems(2,3) s1 by force
  with r Cons.IH Cons.prems(3) show ?case by (meson list.set_intros(2))
qed

subsection \<open>Words\<close>

lemma word_diff_add [simp]: "(p :: 'a :: len word) - k + k = p" "p + k - k = p"
  by simp_all

lemma unat_add_no_overflow:
  fixes a b :: "'a :: len word"
  assumes "unat a + unat b < 2 ^ LENGTH('a)"
  shows "unat (a + b) = unat a + unat b"
  using assms by (simp add: unat_word_ariths)

lemma unat_mult_no_overflow:
  fixes a b :: "'a :: len word"
  assumes "unat a * unat b < 2 ^ LENGTH('a)"
  shows "unat (a * b) = unat a * unat b"
  using assms by (simp add: unat_word_ariths)

lemma unat_lt_2p64: "unat (w :: 64 word) < 18446744073709551616"
proof -
  have "unat w < 2 ^ LENGTH(64)" by (rule unsigned_less)
  then show ?thesis by simp
qed

subsection \<open>Characters\<close>

text \<open>The character classes of \<open>ctype.h\<close> in the C locale.\<close>

definition isspace :: "char \<Rightarrow> bool" where
  "isspace c \<longleftrightarrow> (of_char c :: nat) = 32 \<or> 9 \<le> (of_char c :: nat) \<and> (of_char c :: nat) \<le> 13"

definition isalnum :: "char \<Rightarrow> bool" where
  "isalnum c \<longleftrightarrow> (let n = (of_char c :: nat) in
     48 \<le> n \<and> n \<le> 57 \<or> 65 \<le> n \<and> n \<le> 90 \<or> 97 \<le> n \<and> n \<le> 122)"

definition isdigit :: "char \<Rightarrow> bool" where
  "isdigit c \<longleftrightarrow> 48 \<le> (of_char c :: nat) \<and> (of_char c :: nat) \<le> 57"

subsection \<open>Lists\<close>

lemma nth_filter_ne_distinct:
  assumes "distinct (filter (\<lambda>a. a \<noteq> z) xs)" and "i < length xs" and "j < length xs"
    and "xs ! i = xs ! j" and "xs ! i \<noteq> z"
  shows "i = j"
  using assms
proof (induction xs arbitrary: i j)
  case Nil
  then show ?case by simp
next
  case (Cons x xs)
  show ?case
  proof (cases i)
    case 0
    show ?thesis
    proof (cases j)
      case (Suc j')
      with 0 Cons.prems have "x \<in> set xs" "x \<noteq> z" by auto
      with Cons.prems(1) show ?thesis by auto
    qed (simp add: 0)
  next
    case (Suc i')
    show ?thesis
    proof (cases j)
      case 0
      with Suc Cons.prems have "x \<in> set xs" "x \<noteq> z" by (auto simp: in_set_conv_nth)
      with Cons.prems(1) show ?thesis by auto
    next
      case (Suc j')
      with \<open>i = Suc i'\<close> Cons show ?thesis by (auto split: if_splits)
    qed
  qed
qed

lemma distinct_filter_update:
  assumes "distinct (filter (\<lambda>a. a \<noteq> z) xs)" and "y \<notin> set xs"
  shows "distinct (filter (\<lambda>a. a \<noteq> z) (xs[i := y]))"
  using assms
proof (induction xs arbitrary: i)
  case Nil
  then show ?case by simp
next
  case (Cons x xs)
  show ?case
  proof (cases i)
    case 0
    with Cons.prems show ?thesis by (auto split: if_splits)
  next
    case (Suc i')
    have "x = z \<or> x \<notin> set (filter (\<lambda>a. a \<noteq> z) (xs[i' := y]))"
      using Cons.prems set_update_subset_insert [of xs i' y] by (auto split: if_splits)
    with Suc Cons show ?thesis by (auto split: if_splits)
  qed
qed

end
