(* ===== verification/Memory.thy ===== *)
theory Memory
  imports Prelude
begin

text \<open>
  The data of the library and the memory it lives in.

  Allocation metadata (\<open>alloc_meta_t\<close> of \<open>src/runtime.c\<close>) sits in front of every user object;
  the state keeps it in \<open>hdr\<close>, a partial map from the address of a header to its image.  An
  address outside the domain of \<open>hdr\<close> is memory the program may not read as a header (never
  mapped, or returned to the allocator); foreign memory that can be read but was not written by
  the library is a header image whose magic number differs from \<open>OWNEDC_MAGIC\<close>.  What the user
  object holds is \<open>payload\<close>, keyed by the user pointer.

  The C allocator is not part of the repository.  It is modelled by its contract: the list
  \<open>replies\<close> holds the answers the allocator is going to give, an answer is only accepted when it
  is a non-null, 16-byte aligned address whose block does not overlap a block still allocated, and
  everything else (the list being empty included) is the failure answer \<open>NULL\<close>.  Every behaviour of
  a correct \<open>malloc\<close>/\<open>realloc\<close> is the run of some reply list.
\<close>

subsection \<open>Ownership states and allocation headers\<close>

datatype ownership_state = INVALID | OWNED | BORROWED | SHARED | RELEASED | FREED

fun state_code :: "ownership_state \<Rightarrow> int" where
  "state_code INVALID = 0"
| "state_code OWNED = 1"
| "state_code BORROWED = 2"
| "state_code SHARED = 3"
| "state_code RELEASED = 4"
| "state_code FREED = 5"

lemma state_code_inj: "state_code a = state_code b \<longleftrightarrow> a = b"
  by (cases a; cases b) simp_all

instantiation ownership_state :: linorder
begin

definition less_eq_ownership_state :: "ownership_state \<Rightarrow> ownership_state \<Rightarrow> bool" where
  "less_eq_ownership_state a b = (state_code a \<le> state_code b)"

definition less_ownership_state :: "ownership_state \<Rightarrow> ownership_state \<Rightarrow> bool" where
  "less_ownership_state a b = (state_code a < state_code b)"

instance
  by intro_classes
    (auto simp: less_eq_ownership_state_def less_ownership_state_def state_code_inj)

end

record alloc_meta =
  m_magic :: "64 word"
  m_size :: size_t
  m_state :: ownership_state
  m_borrow_count :: int
  m_owner_thread :: tid
  m_alloc_file :: string
  m_alloc_line :: int
  m_free_file :: "string option"
  m_free_line :: int
  m_prev :: addr
  m_next :: addr

definition OWNEDC_MAGIC :: "64 word" where
  "OWNEDC_MAGIC = 0x05E5CE1005E5CE10"

definition NUM_SHARDS :: nat where
  "NUM_SHARDS = 64"

definition QUARANTINE_SIZE :: nat where
  "QUARANTINE_SIZE = 1024"

text \<open>\<open>sizeof(alloc_meta_t)\<close> on an LP64 target, with the padding after the two \<open>int\<close> lines.\<close>

definition sizeof_meta :: size_t where
  "sizeof_meta = 80"

definition INT_MAX :: int where
  "INT_MAX = 2147483647"

definition user_ptr :: "addr \<Rightarrow> addr" where
  "user_ptr meta = meta + sizeof_meta"

definition meta_of :: "addr \<Rightarrow> addr" where
  "meta_of p = p - sizeof_meta"

lemma user_ptr_meta_of [simp]: "user_ptr (meta_of p) = p"
  by (simp add: user_ptr_def meta_of_def)

lemma meta_of_user_ptr [simp]: "meta_of (user_ptr a) = a"
  by (simp add: user_ptr_def meta_of_def)

lemma meta_of_eq_iff [simp]: "meta_of p = meta_of q \<longleftrightarrow> p = q"
  by (simp add: meta_of_def)

lemma user_ptr_eq_iff [simp]: "user_ptr a = user_ptr b \<longleftrightarrow> a = b"
  by (simp add: user_ptr_def)

lemma meta_of_eq_conv: "meta_of p = a \<longleftrightarrow> p = user_ptr a"
  by auto

subsection \<open>Objects of the library that live in tracked memory\<close>

record safe_vector =
  vec_data :: addr
  vec_length :: size_t
  vec_capacity :: size_t

record owned_array =
  arr_data :: addr
  arr_capacity :: size_t

record safe_string =
  str_data :: addr
  str_length :: size_t
  str_capacity :: size_t

record safe_region =
  reg_current_chunk :: addr
  reg_chunk_size :: size_t

record region_chunk =
  ck_used :: size_t
  ck_capacity :: size_t
  ck_next :: addr

record arena =
  ar_head :: addr
  ar_current :: addr
  ar_default_block_size :: size_t

record arena_block =
  ab_next :: addr
  ab_size :: size_t
  ab_used :: size_t

record owned_rc =
  rc_ptr :: addr
  rc_ref_count :: size_t
  rc_children :: "addr list"
  rc_child_count :: nat
  rc_gc_ref :: size_t
  rc_gc_marked :: bool
  rc_gc_next :: addr

record channel =
  ch_head :: addr
  ch_tail :: addr

record channel_node =
  cn_data :: addr
  cn_next :: addr

record owned_future =
  fu_task :: nat
  fu_arg :: addr
  fu_result :: addr
  fu_is_ready :: bool
  fu_thread :: "tid option"

datatype json_node =
    JNull
  | JBool int
  | JNumber string
  | JString addr
  | JArray addr size_t size_t
  | JObject addr addr size_t size_t

record safe_file =
  file_handle :: addr
  file_is_closed :: bool

record safe_socket =
  sock_fd :: int
  sock_is_closed :: bool

record safe_mutex =
  mx_raw :: addr
  mx_is_locked :: bool

datatype cleanup_policy = THREAD_CLEANUP_JOIN | THREAD_CLEANUP_DETACH

record safe_thread =
  th_handle :: tid
  th_policy :: cleanup_policy
  th_is_active :: bool

text \<open>The context of a client of \<open>examples/owned_http_server.c\<close>.\<close>

record client_context =
  client_socket :: int

text \<open>
  What a user object holds: a byte pattern written by \<open>memset\<close>, individual bytes, individual
  pointer slots (in both, \<open>None\<close> is a value nobody has written), or one of the structs.
\<close>

datatype payload =
    Filled byte
  | Bytes "nat \<Rightarrow> byte option"
  | Slots "nat \<Rightarrow> addr option"
  | Vec safe_vector
  | OArr owned_array
  | Str safe_string
  | Region safe_region
  | RChunk region_chunk
  | Arena arena
  | ABlock arena_block
  | Rc owned_rc
  | Chan channel
  | ChNode channel_node
  | Fut owned_future
  | File safe_file
  | Sock safe_socket
  | Mutex safe_mutex
  | Thread safe_thread
  | JNode json_node
  | Client client_context

text \<open>A pointer slot whose eight bytes all hold the pattern \<open>b\<close>.\<close>

definition word_of_pattern :: "byte \<Rightarrow> addr" where
  "word_of_pattern b = ucast b * 0x0101010101010101"

fun slot_view :: "payload \<Rightarrow> nat \<Rightarrow> addr option" where
  "slot_view (Filled b) = (\<lambda>_. Some (word_of_pattern b))"
| "slot_view (Slots f) = f"
| "slot_view _ = (\<lambda>_. None)"

fun byte_view :: "payload \<Rightarrow> nat \<Rightarrow> byte option" where
  "byte_view (Filled b) = (\<lambda>_. Some b)"
| "byte_view (Bytes f) = f"
| "byte_view _ = (\<lambda>_. None)"

text \<open>
  What is left of an object when its block is resized from \<open>old\<close> to \<open>new\<close> bytes: the common prefix
  is kept and what is added holds no value.
\<close>

fun resize_payload :: "nat \<Rightarrow> nat \<Rightarrow> payload \<Rightarrow> payload" where
  "resize_payload old new (Filled b) =
     (if new \<le> old then Filled b else Bytes (\<lambda>i. if i < old then Some b else None))"
| "resize_payload old new (Bytes f) = Bytes (\<lambda>i. if i < min old new then f i else None)"
| "resize_payload old new (Slots f) =
     Slots (\<lambda>i. if 8 * (i + 1) \<le> min old new then f i else None)"
| "resize_payload old new p = p"

subsection \<open>The state of the runtime\<close>

datatype event =
    EvLeak addr size_t string int
  | EvLeakTotal nat
  | EvRelease addr
  | EvDump addr size_t int int
  | EvBorrow addr size_t int
  | EvNoBorrows
  | EvStats nat nat
  | EvInspect addr size_t int int tid string int "(string option \<times> int) option"
  | EvUntracked addr
  | EvJson addr size_t int tid int

record rt =
  chunks :: "(addr \<times> nat) list"
  replies :: "addr list"
  hdr :: "addr \<Rightarrow> alloc_meta option"
  payload :: "addr \<Rightarrow> payload option"
  registry_heads :: "addr list"
  atexit_registered :: bool
  quarantine :: "addr list"
  quarantine_tail :: nat
  global_malloc :: addr
  global_free :: addr
  global_realloc :: addr
  out :: "event list"

text \<open>The static initialisers of \<open>runtime.c\<close>, with nothing allocated yet.\<close>

definition rt_init :: "addr list \<Rightarrow> addr \<Rightarrow> addr \<Rightarrow> addr \<Rightarrow> rt" where
  "rt_init rs mf ff rf =
     \<lparr>chunks = [], replies = rs, hdr = (\<lambda>_. None), payload = (\<lambda>_. None),
      registry_heads = replicate NUM_SHARDS 0, atexit_registered = False,
      quarantine = replicate QUARANTINE_SIZE 0, quarantine_tail = 0,
      global_malloc = mf, global_free = ff, global_realloc = rf, out = []\<rparr>"

subsection \<open>The C allocator\<close>

text \<open>Two blocks overlap unless one ends before the other starts; an empty block occupies a byte.\<close>

definition apart :: "addr \<Rightarrow> nat \<Rightarrow> addr \<Rightarrow> nat \<Rightarrow> bool" where
  "apart a n b k \<longleftrightarrow> unat a + max 1 n \<le> unat b \<or> unat b + max 1 k \<le> unat a"

definition chunk_ok :: "(addr \<times> nat) list \<Rightarrow> addr \<Rightarrow> nat \<Rightarrow> bool" where
  "chunk_ok cs a n \<longleftrightarrow>
     a \<noteq> 0 \<and> unat a mod 16 = 0 \<and> unat a + n < 2 ^ 64 \<and>
     list_all (\<lambda>(b, k). apart a n b k) cs"

definition sys_malloc :: "size_t \<Rightarrow> 'x rt_scheme \<Rightarrow> addr \<times> 'x rt_scheme" where
  "sys_malloc n st =
     (case replies st of
        [] \<Rightarrow> (0, st)
      | r # rs \<Rightarrow>
          if chunk_ok (chunks st) r (unat n)
          then (r, st\<lparr>replies := rs, chunks := (r, unat n) # chunks st\<rparr>)
          else (0, st\<lparr>replies := rs\<rparr>))"

definition without_chunk :: "addr \<Rightarrow> (addr \<times> nat) list \<Rightarrow> (addr \<times> nat) list" where
  "without_chunk a cs = filter (\<lambda>c. fst c \<noteq> a) cs"

text \<open>Releasing a block unmaps its header and its object; releasing anything else is undefined.\<close>

definition sys_free :: "addr \<Rightarrow> 'x rt_scheme \<Rightarrow> failure + 'x rt_scheme" where
  "sys_free a st =
     (if a \<in> fst ` set (chunks st)
      then Inr (st\<lparr>chunks := without_chunk a (chunks st),
                   hdr := (hdr st)(a := None),
                   payload := (payload st)(user_ptr a := None),
                   out := out st @ [EvRelease a]\<rparr>)
      else Inl (Undefined ''free of memory that is not allocated''))"

text \<open>
  Resizing moves the bytes of the block (header and object) to the answer, which may be the old
  address.  On failure the old block is untouched.
\<close>

definition sys_realloc :: "addr \<Rightarrow> size_t \<Rightarrow> 'x rt_scheme \<Rightarrow> failure + (addr \<times> 'x rt_scheme)" where
  "sys_realloc a n st =
     (case map_of (chunks st) a of
        None \<Rightarrow> Inl (Undefined ''realloc of memory that is not allocated'')
      | Some len \<Rightarrow>
          (case replies st of
             [] \<Rightarrow> Inr (0, st)
           | r # rs \<Rightarrow>
               if chunk_ok (without_chunk a (chunks st)) r (unat n)
               then Inr (r, st\<lparr>replies := rs,
                     chunks := (r, unat n) # without_chunk a (chunks st),
                     hdr := ((hdr st)(a := None))
                              (r := if 80 \<le> unat n then hdr st a else None),
                     payload := ((payload st)(user_ptr a := None))
                              (user_ptr r :=
                                 map_option (resize_payload (len - 80) (unat n - 80))
                                   (payload st (user_ptr a)))\<rparr>)
               else Inr (0, st\<lparr>replies := rs\<rparr>)))"

subsection \<open>Reading and writing objects\<close>

definition usable :: "'x rt_scheme \<Rightarrow> addr \<Rightarrow> nat" where
  "usable st p = (case hdr st (meta_of p) of None \<Rightarrow> 0 | Some m \<Rightarrow> unat (m_size m))"

definition put :: "addr \<Rightarrow> payload \<Rightarrow> 'x rt_scheme \<Rightarrow> 'x rt_scheme" where
  "put p x st = st\<lparr>payload := (payload st)(p \<mapsto> x)\<rparr>"

definition load_slot :: "'x rt_scheme \<Rightarrow> addr \<Rightarrow> nat \<Rightarrow> failure + addr" where
  "load_slot st p i =
     (case payload st p of
        None \<Rightarrow> Inl (Undefined ''read of unmapped memory'')
      | Some x \<Rightarrow>
          if usable st p < 8 * (i + 1) then Inl (Undefined ''read past the block'')
          else (case slot_view x i of
                  None \<Rightarrow> Inl (Undefined ''read of a value nobody wrote'')
                | Some v \<Rightarrow> Inr v))"

definition store_slot :: "addr \<Rightarrow> nat \<Rightarrow> addr \<Rightarrow> 'x rt_scheme \<Rightarrow> failure + 'x rt_scheme" where
  "store_slot p i v st =
     (case payload st p of
        None \<Rightarrow> Inl (Undefined ''write to unmapped memory'')
      | Some x \<Rightarrow>
          if usable st p < 8 * (i + 1) then Inl (Undefined ''write past the block'')
          else Inr (put p (Slots ((slot_view x)(i \<mapsto> v))) st))"

definition load_byte :: "'x rt_scheme \<Rightarrow> addr \<Rightarrow> nat \<Rightarrow> failure + byte" where
  "load_byte st p i =
     (case payload st p of
        None \<Rightarrow> Inl (Undefined ''read of unmapped memory'')
      | Some x \<Rightarrow>
          if usable st p \<le> i then Inl (Undefined ''read past the block'')
          else (case byte_view x i of
                  None \<Rightarrow> Inl (Undefined ''read of a value nobody wrote'')
                | Some v \<Rightarrow> Inr v))"

definition store_byte :: "addr \<Rightarrow> nat \<Rightarrow> byte \<Rightarrow> 'x rt_scheme \<Rightarrow> failure + 'x rt_scheme" where
  "store_byte p i v st =
     (case payload st p of
        None \<Rightarrow> Inl (Undefined ''write to unmapped memory'')
      | Some x \<Rightarrow>
          if usable st p \<le> i then Inl (Undefined ''write past the block'')
          else Inr (put p (Bytes ((byte_view x)(i \<mapsto> v))) st))"

subsection \<open>Facts about blocks\<close>

lemma apart_sym: "apart a n b k \<longleftrightarrow> apart b k a n"
  by (auto simp: apart_def)

lemma not_apart_self [simp]: "\<not> apart a n a k"
  by (auto simp: apart_def)

fun chunks_inv :: "(addr \<times> nat) list \<Rightarrow> bool" where
  "chunks_inv [] = True"
| "chunks_inv ((a, n) # cs) = (chunk_ok cs a n \<and> chunks_inv cs)"

lemma chunk_ok_notin: "chunk_ok cs a n \<Longrightarrow> a \<notin> fst ` set cs"
  by (fastforce simp: chunk_ok_def list_all_iff)

lemma chunk_ok_filter: "chunk_ok cs a n \<Longrightarrow> chunk_ok (filter P cs) a n"
  by (auto simp: chunk_ok_def list_all_iff)

lemma chunks_inv_without [simp]: "chunks_inv cs \<Longrightarrow> chunks_inv (without_chunk a cs)"
  unfolding without_chunk_def
  by (induction cs rule: chunks_inv.induct) (auto intro: chunk_ok_filter)

lemma chunks_inv_distinct: "chunks_inv cs \<Longrightarrow> distinct (map fst cs)"
  by (induction cs rule: chunks_inv.induct) (auto dest: chunk_ok_notin)

lemma set_without_chunk [simp]: "set (without_chunk a cs) = {c \<in> set cs. fst c \<noteq> a}"
  by (auto simp: without_chunk_def)

lemma chunks_inv_map_of: "chunks_inv cs \<Longrightarrow> map_of cs a = Some n \<longleftrightarrow> (a, n) \<in> set cs"
  by (simp add: chunks_inv_distinct)

lemma chunks_inv_apart:
  assumes "chunks_inv cs" and "(a, n) \<in> set cs" and "(b, k) \<in> set cs" and "a \<noteq> b"
  shows "apart a n b k"
  using assms
  by (induction cs rule: chunks_inv.induct)
    (auto simp: chunk_ok_def list_all_iff apart_sym)

lemma chunks_inv_ok:
  assumes "chunks_inv cs" and "(a, n) \<in> set cs"
  shows "a \<noteq> 0" and "unat a + n < 2 ^ 64" and "unat a mod 16 = 0"
  using assms
  by (induction cs rule: chunks_inv.induct) (auto simp: chunk_ok_def)

lemma sys_malloc_cases:
  assumes "sys_malloc n st = (r, st')"
  obtains (null) rs where "r = 0" and "st' = st\<lparr>replies := rs\<rparr>"
  | (block) rs where "r \<noteq> 0" and "chunk_ok (chunks st) r (unat n)"
      and "st' = st\<lparr>replies := rs, chunks := (r, unat n) # chunks st\<rparr>"
proof (cases "replies st")
  case Nil
  with assms have "r = 0" "st' = st\<lparr>replies := []\<rparr>"
    by (auto simp: sys_malloc_def)
  then show ?thesis by (rule null)
next
  case (Cons x rs)
  show ?thesis
  proof (cases "chunk_ok (chunks st) x (unat n)")
    case True
    with assms Cons show ?thesis
      by (intro block [of rs]) (auto simp: sys_malloc_def chunk_ok_def)
  next
    case False
    with assms Cons show ?thesis
      by (intro null [of rs]) (auto simp: sys_malloc_def)
  qed
qed

lemma put_simps [simp]:
  "chunks (put p x st) = chunks st" "replies (put p x st) = replies st"
  "hdr (put p x st) = hdr st" "registry_heads (put p x st) = registry_heads st"
  "quarantine (put p x st) = quarantine st" "quarantine_tail (put p x st) = quarantine_tail st"
  "payload (put p x st) = (payload st)(p \<mapsto> x)" "out (put p x st) = out st"
  "rt.more (put p x st) = rt.more st" "atexit_registered (put p x st) = atexit_registered st"
  by (simp_all add: put_def)

lemma usable_put [simp]: "usable (put p x st) q = usable st q"
  by (simp add: usable_def)

end
