(* ===== verification/Registry.thy ===== *)
theory Registry
  imports Memory
begin

text \<open>
  The registry of \<open>src/runtime.c\<close>: 64 doubly-linked lists threaded through the allocation
  headers (\<open>prev\<close>, \<open>next\<close>), one per shard, with \<open>registry_heads\<close> as their heads.  The
  pointer-level \<open>insert_meta\<close> and \<open>remove_meta\<close> are shown to refine insertion into and removal from
  an abstract list per shard, and the \<open>while (curr)\<close> traversals are shown to end and to visit
  exactly that list.
\<close>

subsection \<open>The code\<close>

definition get_shard_idx :: "addr \<Rightarrow> nat" where
  "get_shard_idx p = unat (drop_bit 4 p) mod NUM_SHARDS"

definition get_meta :: "'x rt_scheme \<Rightarrow> addr \<Rightarrow> failure + alloc_meta option" where
  "get_meta st p =
     (if p = 0 then Inr None
      else case hdr st (meta_of p) of
             None \<Rightarrow> Inl (Undefined ''read of an unmapped header'')
           | Some m \<Rightarrow> Inr (if m_magic m = OWNEDC_MAGIC then Some m else None))"

definition upd_hdr :: "addr \<Rightarrow> (alloc_meta \<Rightarrow> alloc_meta) \<Rightarrow> 'x rt_scheme \<Rightarrow> failure + 'x rt_scheme" where
  "upd_hdr a f st =
     (case hdr st a of
        None \<Rightarrow> Inl (Undefined ''access to an unmapped header'')
      | Some m \<Rightarrow> Inr (st\<lparr>hdr := (hdr st)(a \<mapsto> f m)\<rparr>))"

definition insert_meta :: "addr \<Rightarrow> 'x rt_scheme \<Rightarrow> failure + 'x rt_scheme" where
  "insert_meta meta st =
     (let idx = get_shard_idx (user_ptr meta);
          head = registry_heads st ! idx
      in bindE (upd_hdr meta (\<lambda>m. m\<lparr>m_prev := 0, m_next := head\<rparr>) st) (\<lambda>st.
         bindE (if head \<noteq> 0 then upd_hdr head (\<lambda>m. m\<lparr>m_prev := meta\<rparr>) st else Inr st) (\<lambda>st.
         Inr (st\<lparr>registry_heads := (registry_heads st)[idx := meta]\<rparr>))))"

definition remove_meta :: "addr \<Rightarrow> 'x rt_scheme \<Rightarrow> failure + 'x rt_scheme" where
  "remove_meta meta st =
     (let idx = get_shard_idx (user_ptr meta) in
      case hdr st meta of
        None \<Rightarrow> Inl (Undefined ''access to an unmapped header'')
      | Some m \<Rightarrow>
          bindE (if m_prev m \<noteq> 0 then upd_hdr (m_prev m) (\<lambda>x. x\<lparr>m_next := m_next m\<rparr>) st
                 else if registry_heads st ! idx = meta
                 then Inr (st\<lparr>registry_heads := (registry_heads st)[idx := m_next m]\<rparr>)
                 else Inr st) (\<lambda>st.
          bindE (if m_next m \<noteq> 0 then upd_hdr (m_next m) (\<lambda>x. x\<lparr>m_prev := m_prev m\<rparr>) st
                 else Inr st) (\<lambda>st.
          upd_hdr meta (\<lambda>x. x\<lparr>m_prev := 0, m_next := 0\<rparr>) st)))"

text \<open>
  The traversal \<open>curr = registry_heads[i]; while (curr) { body; curr = curr->next; }\<close>, shared by
  \<open>check_leaks\<close>, the dumps and \<open>ownership_stats\<close>.  \<open>None\<close> is a traversal that does not end or that
  leaves the mapped headers; \<open>for_shards\<close> is the surrounding loop over the shards.
\<close>

partial_function (option) walk_shard ::
    "(addr \<Rightarrow> alloc_meta \<Rightarrow> 's \<Rightarrow> 's) \<Rightarrow> (addr \<Rightarrow> alloc_meta option) \<Rightarrow> addr \<Rightarrow> 's \<Rightarrow> 's option" where
  "walk_shard body h cur s =
     (if cur = 0 then Some s
      else case h cur of
             None \<Rightarrow> None
           | Some m \<Rightarrow> walk_shard body h (m_next m) (body cur m s))"

fun for_shards ::
    "(addr \<Rightarrow> alloc_meta \<Rightarrow> 's \<Rightarrow> 's) \<Rightarrow> (addr \<Rightarrow> alloc_meta option) \<Rightarrow> addr list \<Rightarrow> 's \<Rightarrow> 's option" where
  "for_shards body h [] s = Some s"
| "for_shards body h (x # xs) s =
     (case walk_shard body h x s of None \<Rightarrow> None | Some s' \<Rightarrow> for_shards body h xs s')"

subsection \<open>Doubly-linked segments\<close>

text \<open>
  \<open>dseg h p x as q y\<close>: from \<open>x\<close>, whose predecessor is \<open>p\<close>, the headers \<open>as\<close> are linked both ways; the
  last of them is \<open>q\<close> (\<open>p\<close> if there is none) and its successor is \<open>y\<close>.
\<close>

fun dseg :: "(addr \<Rightarrow> alloc_meta option) \<Rightarrow> addr \<Rightarrow> addr \<Rightarrow> addr list \<Rightarrow> addr \<Rightarrow> addr \<Rightarrow> bool" where
  "dseg h p x [] q y \<longleftrightarrow> x = y \<and> p = q"
| "dseg h p x (a # as) q y \<longleftrightarrow>
     x = a \<and> a \<noteq> 0 \<and> (\<exists>m. h a = Some m \<and> m_prev m = p \<and> dseg h a (m_next m) as q y)"

definition dll :: "(addr \<Rightarrow> alloc_meta option) \<Rightarrow> addr \<Rightarrow> addr list \<Rightarrow> bool" where
  "dll h x as \<longleftrightarrow> (\<exists>q. dseg h 0 x as q 0)"

lemma dseg_append [simp]:
  "dseg h p x (as @ bs) q y \<longleftrightarrow> (\<exists>q' x'. dseg h p x as q' x' \<and> dseg h q' x' bs q y)"
  by (induction as arbitrary: p x) auto

lemma dseg_upd [simp]: "a \<notin> set as \<Longrightarrow> dseg (h(a := v)) p x as q y = dseg h p x as q y"
  by (induction as arbitrary: p x) auto

lemma dseg_last: "dseg h p x as q y \<Longrightarrow> q = (if as = [] then p else last as)"
  by (induction as arbitrary: p x) (auto split: if_splits)

lemma dseg_first: "dseg h p x as q y \<Longrightarrow> x = (if as = [] then y else hd as)"
  by (cases as) auto

lemma dseg_nonnull: "dseg h p x as q y \<Longrightarrow> 0 \<notin> set as"
  by (induction as arbitrary: p x) auto

lemma dseg_mapped: "dseg h p x as q y \<Longrightarrow> a \<in> set as \<Longrightarrow> \<exists>m. h a = Some m"
  by (induction as arbitrary: p x) auto

lemma dll_Nil [simp]: "dll h x [] \<longleftrightarrow> x = 0"
  by (auto simp: dll_def)

lemma dll_nonnull: "dll h x as \<Longrightarrow> 0 \<notin> set as"
  by (auto simp: dll_def dest: dseg_nonnull)

lemma dll_mapped: "dll h x as \<Longrightarrow> a \<in> set as \<Longrightarrow> \<exists>m. h a = Some m"
  by (auto simp: dll_def dest: dseg_mapped)

lemma dll_head: "dll h x as \<Longrightarrow> x = (if as = [] then 0 else hd as)"
  by (auto simp: dll_def dest: dseg_first)

text \<open>Headers may change in any field but their links.\<close>

lemma dseg_links_cong:
  assumes "\<And>a. a \<in> set as \<Longrightarrow>
      map_option (\<lambda>m. (m_prev m, m_next m)) (h' a) = map_option (\<lambda>m. (m_prev m, m_next m)) (h a)"
  shows "dseg h' p x as q y = dseg h p x as q y"
  using assms
proof (induction as arbitrary: p x)
  case Nil
  then show ?case by simp
next
  case (Cons a as)
  from Cons.prems [of a] have
    "map_option (\<lambda>m. (m_prev m, m_next m)) (h' a) = map_option (\<lambda>m. (m_prev m, m_next m)) (h a)"
    by simp
  with Cons show ?case by (cases "h a"; cases "h' a") auto
qed

lemma dll_upd_field:
  assumes "h a = Some m" and "m_prev m' = m_prev m" and "m_next m' = m_next m"
  shows "dll (h(a \<mapsto> m')) x as = dll h x as"
  unfolding dll_def using assms by (subst dseg_links_cong [where h = h]) auto

lemma dll_upd_notin [simp]: "a \<notin> set as \<Longrightarrow> dll (h(a := v)) x as = dll h x as"
  by (simp add: dll_def)

text \<open>Relinking the end of a segment, or its start.\<close>

lemma dseg_relink_last:
  assumes "dseg h p x (as @ [l]) q y" and "l \<notin> set as" and "h l = Some m"
  shows "dseg (h(l \<mapsto> m\<lparr>m_next := y'\<rparr>)) p x (as @ [l]) l y'"
  using assms by auto

lemma dseg_relink_first:
  assumes "dseg h p b (b # bs) q y" and "b \<notin> set bs" and "h b = Some m"
  shows "dseg (h(b \<mapsto> m\<lparr>m_prev := p'\<rparr>)) p' b (b # bs) q y"
  using assms by auto

lemma dll_Cons_insert:
  assumes "dll h x as" and "a \<notin> set as" and "distinct as" and "a \<noteq> 0" and "h a = Some m"
  shows "dll (let h1 = h(a \<mapsto> m\<lparr>m_prev := 0, m_next := x\<rparr>)
              in if x \<noteq> 0 then h1(x \<mapsto> (the (h1 x))\<lparr>m_prev := a\<rparr>) else h1) a (a # as)"
proof (cases as)
  case Nil
  with assms show ?thesis by (auto simp: dll_def)
next
  case (Cons b bs)
  from assms Cons obtain q mb where b: "x = b" "b \<noteq> 0" "h b = Some mb" "m_prev mb = 0"
    and rest: "dseg h b (m_next mb) bs q 0"
    by (auto simp: dll_def)
  with assms Cons show ?thesis by (auto simp: dll_def Let_def intro!: exI [of _ q])
qed

subsection \<open>The abstract registry\<close>

text \<open>\<open>L i\<close> is the list of the headers of shard \<open>i\<close>, most recent first.\<close>

definition shard_of :: "addr \<Rightarrow> nat" where
  "shard_of a = get_shard_idx (user_ptr a)"

lemma shard_of_less [simp]: "shard_of a < NUM_SHARDS"
  by (simp add: shard_of_def get_shard_idx_def NUM_SHARDS_def)

definition reg_rep ::
    "(addr \<Rightarrow> alloc_meta option) \<Rightarrow> addr list \<Rightarrow> (nat \<Rightarrow> addr list) \<Rightarrow> bool" where
  "reg_rep h hs L \<longleftrightarrow>
     length hs = NUM_SHARDS \<and>
     (\<forall>i < NUM_SHARDS. dll h (hs ! i) (L i) \<and> distinct (L i) \<and>
        (\<forall>a \<in> set (L i). shard_of a = i))"

definition registered :: "(nat \<Rightarrow> addr list) \<Rightarrow> addr \<Rightarrow> bool" where
  "registered L a \<longleftrightarrow> a \<in> set (L (shard_of a))"

lemma reg_repD:
  assumes "reg_rep h hs L" and "i < NUM_SHARDS"
  shows "dll h (hs ! i) (L i)" and "distinct (L i)" and "\<And>a. a \<in> set (L i) \<Longrightarrow> shard_of a = i"
  using assms by (auto simp: reg_rep_def)

lemma reg_rep_registered:
  "reg_rep h hs L \<Longrightarrow> i < NUM_SHARDS \<Longrightarrow> a \<in> set (L i) \<longleftrightarrow> registered L a \<and> shard_of a = i"
  by (auto simp: registered_def dest: reg_repD(3))

lemma reg_rep_mapped: "reg_rep h hs L \<Longrightarrow> registered L a \<Longrightarrow> a \<noteq> 0 \<and> (\<exists>m. h a = Some m)"
  unfolding registered_def
  by (metis dll_mapped dll_nonnull reg_repD(1) shard_of_less)

lemma reg_rep_upd_field:
  assumes "reg_rep h hs L" and "h a = Some m" and "m_prev m' = m_prev m" and "m_next m' = m_next m"
  shows "reg_rep (h(a \<mapsto> m')) hs L"
  using assms by (auto simp: reg_rep_def dll_upd_field)

lemma reg_rep_upd_other:
  assumes "reg_rep h hs L" and "\<not> registered L a"
  shows "reg_rep (h(a := v)) hs L"
proof -
  have "a \<notin> set (L i)" if "i < NUM_SHARDS" for i
    using assms that by (auto simp: reg_rep_registered)
  with assms(1) show ?thesis by (auto simp: reg_rep_def)
qed

text \<open>What the list operations may change: the links of headers, and nothing else.\<close>

definition bare :: "alloc_meta \<Rightarrow> alloc_meta" where
  "bare m = m\<lparr>m_prev := 0, m_next := 0\<rparr>"

definition bare_hdr :: "(addr \<Rightarrow> alloc_meta option) \<Rightarrow> addr \<Rightarrow> alloc_meta option" where
  "bare_hdr h a = map_option bare (h a)"

lemma bare_fields [simp]:
  "m_magic (bare m) = m_magic m" "m_size (bare m) = m_size m" "m_state (bare m) = m_state m"
  "m_borrow_count (bare m) = m_borrow_count m" "m_owner_thread (bare m) = m_owner_thread m"
  "m_alloc_file (bare m) = m_alloc_file m" "m_alloc_line (bare m) = m_alloc_line m"
  "m_free_file (bare m) = m_free_file m" "m_free_line (bare m) = m_free_line m"
  "bare (m\<lparr>m_prev := p\<rparr>) = bare m" "bare (m\<lparr>m_next := p\<rparr>) = bare m" "bare (bare m) = bare m"
  by (simp_all add: bare_def)

lemma bare_hdr_upd [simp]: "h a = Some m \<Longrightarrow> bare m' = bare m \<Longrightarrow> bare_hdr (h(a \<mapsto> m')) = bare_hdr h"
  by (auto simp: bare_hdr_def fun_eq_iff)

lemma bare_hdr_eqD:
  assumes "bare_hdr h' = bare_hdr h" and "h a = Some m"
  obtains m' where "h' a = Some m'" and "bare m' = bare m"
proof -
  from assms(1) have "bare_hdr h' a = bare_hdr h a" by simp
  with assms(2) that show ?thesis by (auto simp: bare_hdr_def)
qed

subsection \<open>Refinement\<close>

lemma insert_meta_refines:
  assumes "reg_rep (hdr st) (registry_heads st) L" and "hdr st meta = Some m" and "meta \<noteq> 0"
    and "\<not> registered L meta"
  obtains h hs where "insert_meta meta st = Inr (st\<lparr>hdr := h, registry_heads := hs\<rparr>)"
    and "reg_rep h hs (L(shard_of meta := meta # L (shard_of meta)))"
    and "bare_hdr h = bare_hdr (hdr st)"
proof -
  let ?i = "shard_of meta" and ?h = "hdr st"
  let ?x = "registry_heads st ! ?i"
  define h1 where "h1 = ?h(meta \<mapsto> m\<lparr>m_prev := 0, m_next := ?x\<rparr>)"
  define h2 where "h2 = (if ?x \<noteq> 0 then h1(?x \<mapsto> (the (h1 ?x))\<lparr>m_prev := meta\<rparr>) else h1)"
  have d: "dll ?h ?x (L ?i)" "distinct (L ?i)" using reg_repD(1,2) [OF assms(1)] by simp_all
  have len: "length (registry_heads st) = NUM_SHARDS" using assms(1) by (simp add: reg_rep_def)
  have nm: "meta \<notin> set (L ?i)" using assms(4) by (simp add: registered_def)
  have x: "?x \<in> set (L ?i)" if "?x \<noteq> 0" using dll_head [OF d(1)] that by (auto split: if_splits)
  have xs: "\<exists>mx. h1 ?x = Some mx" if "?x \<noteq> 0"
    using dll_mapped [OF d(1) x [OF that]] by (auto simp: h1_def)
  have new: "dll h2 meta (meta # L ?i)"
    using dll_Cons_insert [OF d(1) nm d(2) assms(3,2)] unfolding h2_def h1_def Let_def by simp
  have old: "dll h2 (registry_heads st ! j) (L j)" if "j < NUM_SHARDS" "j \<noteq> ?i" for j
  proof -
    have "meta \<notin> set (L j)" using assms(1) that by (auto dest: reg_repD(3))
    moreover have "?x \<notin> set (L j)" if "?x \<noteq> 0"
      using x [OF that] reg_repD(3) [OF assms(1)] \<open>j < NUM_SHARDS\<close> \<open>j \<noteq> ?i\<close>
      by (metis shard_of_less)
    ultimately show ?thesis
      using reg_repD(1) [OF assms(1) that(1)] by (simp add: h2_def h1_def)
  qed
  have "insert_meta meta st =
      Inr (st\<lparr>hdr := h2, registry_heads := (registry_heads st)[?i := meta]\<rparr>)"
    using assms(2) xs
    by (cases "?x = 0")
      (auto simp: insert_meta_def upd_hdr_def h1_def h2_def Let_def shard_of_def)
  moreover have "reg_rep h2 ((registry_heads st)[?i := meta]) (L(?i := meta # L ?i))"
    using new old len nm d(2) assms(1)
    by (auto simp: reg_rep_def nth_list_update)
  moreover have "bare_hdr h2 = bare_hdr ?h"
  proof -
    have b1: "bare_hdr h1 = bare_hdr ?h"
      using assms(2) unfolding h1_def by (auto simp: bare_hdr_def bare_def fun_eq_iff)
    show ?thesis
    proof (cases "?x = 0")
      case False
      then obtain mx where "h1 ?x = Some mx" using xs by auto
      with False b1 show ?thesis by (simp add: h2_def)
    qed (simp add: h2_def b1)
  qed
  ultimately show ?thesis by (rule that)
qed


text \<open>Unlinking an inner, first or last header of a shard.\<close>

definition unlink :: "addr \<Rightarrow> alloc_meta \<Rightarrow> (addr \<Rightarrow> alloc_meta option) \<Rightarrow> addr \<Rightarrow> alloc_meta option" where
  "unlink a m h =
     (let h1 = (if m_prev m \<noteq> 0 then h(m_prev m \<mapsto> (the (h (m_prev m)))\<lparr>m_next := m_next m\<rparr>) else h);
          h2 = (if m_next m \<noteq> 0 then h1(m_next m \<mapsto> (the (h1 (m_next m)))\<lparr>m_prev := m_prev m\<rparr>) else h1)
      in h2(a \<mapsto> (the (h2 a))\<lparr>m_prev := 0, m_next := 0\<rparr>))"

lemma dll_unlink:
  assumes d: "dll h x (as @ a # bs)" and dist: "distinct (as @ a # bs)" and a: "h a = Some m"
  shows "dll (unlink a m h) (if m_prev m \<noteq> 0 then x else m_next m) (as @ bs)"
proof -
  from d a obtain q where pre: "dseg h 0 x as (m_prev m) a" and post: "dseg h a (m_next m) bs q 0"
    by (auto simp: dll_def)
  have prev: "m_prev m = (if as = [] then 0 else last as)" using dseg_last [OF pre] .
  have nxt: "m_next m = (if bs = [] then 0 else hd bs)" using dseg_first [OF post] .
  define h1 where "h1 = (if m_prev m \<noteq> 0
      then h(m_prev m \<mapsto> (the (h (m_prev m)))\<lparr>m_next := m_next m\<rparr>) else h)"
  define h2 where "h2 = (if m_next m \<noteq> 0
      then h1(m_next m \<mapsto> (the (h1 (m_next m)))\<lparr>m_prev := m_prev m\<rparr>) else h1)"
  have pre1: "dseg h1 0 (if m_prev m \<noteq> 0 then x else m_next m) as (m_prev m) (m_next m)"
  proof (cases as rule: rev_cases)
    case Nil
    with pre prev show ?thesis by (simp add: h1_def)
  next
    case (snoc cs c)
    with pre dist obtain mc where c: "c \<noteq> 0" "h c = Some mc" "m_prev m = c" "c \<notin> set cs"
      using prev by auto
    with pre snoc show ?thesis
      using dseg_relink_last [of h 0 x cs c "m_prev m" a mc "m_next m"] by (simp add: h1_def)
  qed
  have "m_prev m \<in> set as" if "m_prev m \<noteq> 0" using prev that by (auto split: if_splits)
  then have "m_prev m \<notin> set bs" if "m_prev m \<noteq> 0" using dist that by auto
  then have post1: "dseg h1 a (m_next m) bs q 0" using post by (simp add: h1_def)
  have nx: "m_next m \<notin> set as" using nxt dist dseg_nonnull [OF pre] by (auto split: if_splits)
  have pre2: "dseg h2 0 (if m_prev m \<noteq> 0 then x else m_next m) as (m_prev m) (m_next m)"
    using pre1 nx by (cases "m_next m = 0") (simp_all only: h2_def if_True if_False not_False_eq_True
        not_True_eq_False simp_thms dseg_upd not_not)
  have post2: "dseg h2 (m_prev m) (m_next m) bs q 0 \<or> bs = [] \<and> m_next m = 0"
  proof (cases bs)
    case (Cons b bs')
    with post1 dist obtain mb where b: "b \<noteq> 0" "h1 b = Some mb" "m_next m = b" "b \<notin> set bs'"
      using nxt by auto
    with post1 Cons show ?thesis
      using dseg_relink_first [of h1 a b bs' q 0 mb "m_prev m"] by (simp add: h2_def)
  qed (use nxt in simp)
  have "dll h2 (if m_prev m \<noteq> 0 then x else m_next m) (as @ bs)"
  proof -
    have "\<exists>q. dseg h2 (m_prev m) (m_next m) bs q 0" using post2 by auto
    with pre2 show ?thesis unfolding dll_def dseg_append by blast
  qed
  moreover have "unlink a m h = h2(a \<mapsto> (the (h2 a))\<lparr>m_prev := 0, m_next := 0\<rparr>)"
    by (simp add: unlink_def h1_def h2_def Let_def)
  ultimately show ?thesis using dist by simp
qed

lemma bare_hdr_unlink:
  assumes "h a = Some m" and "m_prev m \<noteq> 0 \<Longrightarrow> \<exists>p. h (m_prev m) = Some p"
    and "m_next m \<noteq> 0 \<Longrightarrow> \<exists>n. h (m_next m) = Some n"
  shows "bare_hdr (unlink a m h) = bare_hdr h"
proof -
  define h1 where "h1 = (if m_prev m \<noteq> 0
      then h(m_prev m \<mapsto> (the (h (m_prev m)))\<lparr>m_next := m_next m\<rparr>) else h)"
  define h2 where "h2 = (if m_next m \<noteq> 0
      then h1(m_next m \<mapsto> (the (h1 (m_next m)))\<lparr>m_prev := m_prev m\<rparr>) else h1)"
  have b1: "bare_hdr h1 = bare_hdr h" using assms(2) by (auto simp: h1_def)
  have "m_next m \<noteq> 0 \<Longrightarrow> \<exists>n. h1 (m_next m) = Some n"
    using assms(3) by (auto simp: h1_def)
  then have b2: "bare_hdr h2 = bare_hdr h" using b1 by (auto simp: h2_def)
  obtain m2 where "h2 a = Some m2" using bare_hdr_eqD [OF b2 assms(1)] by blast
  then have "bare_hdr (h2(a \<mapsto> (the (h2 a))\<lparr>m_prev := 0, m_next := 0\<rparr>)) = bare_hdr h2"
    by simp
  moreover have "unlink a m h = h2(a \<mapsto> (the (h2 a))\<lparr>m_prev := 0, m_next := 0\<rparr>)"
    by (simp add: unlink_def h1_def h2_def Let_def)
  ultimately show ?thesis using b2 by simp
qed

lemma remove_meta_refines:
  assumes rep: "reg_rep (hdr st) (registry_heads st) L" and reg: "registered L meta"
  obtains h hs m where "remove_meta meta st = Inr (st\<lparr>hdr := h, registry_heads := hs\<rparr>)"
    and "reg_rep h hs (L(shard_of meta := remove1 meta (L (shard_of meta))))"
    and "bare_hdr h = bare_hdr (hdr st)"
    and "h meta = Some m" and "m_prev m = 0" and "m_next m = 0"
proof -
  let ?i = "shard_of meta" and ?h = "hdr st" and ?hs = "registry_heads st"
  from reg obtain as bs where L: "L ?i = as @ meta # bs"
    unfolding registered_def by (meson split_list)
  have d: "dll ?h (?hs ! ?i) (as @ meta # bs)" and dist: "distinct (as @ meta # bs)"
    using reg_repD(1,2) [OF rep, of ?i] L by simp_all
  have len: "length ?hs = NUM_SHARDS" using rep by (simp add: reg_rep_def)
  obtain m where m: "?h meta = Some m" using dll_mapped [OF d, of meta] by auto
  from d m obtain q where pre: "dseg ?h 0 (?hs ! ?i) as (m_prev m) meta"
    and post: "dseg ?h meta (m_next m) bs q 0" and ma: "meta \<noteq> 0"
    by (auto simp: dll_def)
  have prev: "m_prev m = (if as = [] then 0 else last as)" using dseg_last [OF pre] .
  have nxt: "m_next m = (if bs = [] then 0 else hd bs)" using dseg_first [OF post] .
  have pm: "\<exists>p. ?h (m_prev m) = Some p" if "m_prev m \<noteq> 0"
    using prev that dll_mapped [OF d, of "m_prev m"] by (auto split: if_splits)
  have nm: "\<exists>n. ?h (m_next m) = Some n" if "m_next m \<noteq> 0"
    using nxt that dll_mapped [OF d, of "m_next m"] by (auto split: if_splits)
  have hd: "m_prev m = 0 \<Longrightarrow> ?hs ! ?i = meta"
    using prev dseg_nonnull [OF pre] dseg_first [OF pre]
    by (metis last_in_set)
  have pin: "m_prev m \<in> set as" if "m_prev m \<noteq> 0" using prev that by (auto split: if_splits)
  have nin: "m_next m \<in> set bs" if "m_next m \<noteq> 0" using nxt that by (auto split: if_splits)
  have neq: "m_prev m \<noteq> meta" "m_next m \<noteq> meta" "m_prev m \<noteq> 0 \<Longrightarrow> m_prev m \<noteq> m_next m"
    using pin nin dist ma by auto
  define h where "h = unlink meta m ?h"
  define hs where "hs = (if m_prev m \<noteq> 0 then ?hs else ?hs[?i := m_next m])"
  have "remove_meta meta st = Inr (st\<lparr>hdr := h, registry_heads := hs\<rparr>)"
    using m pm nm hd neq
    by (cases "m_prev m = 0"; cases "m_next m = 0")
      (auto simp: remove_meta_def upd_hdr_def h_def hs_def unlink_def Let_def shard_of_def)
  moreover have "reg_rep h hs (L(?i := remove1 meta (L ?i)))"
  proof -
    have r: "remove1 meta (L ?i) = as @ bs" using L dist by (simp add: remove1_append)
    have here: "dll h (hs ! ?i) (as @ bs)"
      using dll_unlink [OF d dist m] len by (cases "m_prev m = 0") (simp_all add: h_def hs_def)
    have there: "dll h (hs ! j) (L j)" if "j < NUM_SHARDS" "j \<noteq> ?i" for j
    proof -
      have notin: "a \<notin> set (L j)" if "a \<in> set (L ?i)" for a
        using that \<open>j < NUM_SHARDS\<close> \<open>j \<noteq> ?i\<close> reg_repD(3) [OF rep] by (metis shard_of_less)
      have "meta \<notin> set (L j)" "m_prev m \<noteq> 0 \<Longrightarrow> m_prev m \<notin> set (L j)"
        "m_next m \<noteq> 0 \<Longrightarrow> m_next m \<notin> set (L j)"
        using prev nxt by (auto intro!: notin simp: L split: if_splits)
      then show ?thesis
        using reg_repD(1) [OF rep that(1)] that by (simp add: h_def hs_def unlink_def Let_def)
    qed
    have "a \<in> set (L ?i)" if "a \<in> set (as @ bs)" for a using that L by auto
    then show ?thesis
      using here there r dist len rep unfolding reg_rep_def by (auto simp: hs_def)
  qed
  moreover have "bare_hdr h = bare_hdr ?h" unfolding h_def by (rule bare_hdr_unlink [OF m pm nm])
  moreover have "h meta = Some ((the (h meta))\<lparr>m_prev := 0, m_next := 0\<rparr>)"
    by (simp add: h_def unlink_def Let_def)
  ultimately show ?thesis by (rule that) simp_all
qed

subsection \<open>Traversals\<close>

text \<open>On a well-formed registry every traversal ends and visits the abstract lists in order.\<close>

lemma walk_shard_dseg:
  "dseg h p x as q 0 \<Longrightarrow>
   walk_shard body h x s = Some (fold (\<lambda>a. body a (the (h a))) as s)"
proof (induction as arbitrary: p x s)
  case Nil
  then show ?case by (simp add: walk_shard.simps)
next
  case (Cons a as)
  then show ?case by (subst walk_shard.simps) auto
qed

lemma walk_shard_dll:
  "dll h x as \<Longrightarrow> walk_shard body h x s = Some (fold (\<lambda>a. body a (the (h a))) as s)"
  by (auto simp: dll_def walk_shard_dseg)

definition shard_order :: "(nat \<Rightarrow> addr list) \<Rightarrow> addr list" where
  "shard_order L = concat (map L [0..<NUM_SHARDS])"

lemma for_shards_lists:
  "list_all2 (dll h) xs Ls \<Longrightarrow>
   for_shards body h xs s = Some (fold (\<lambda>a. body a (the (h a))) (concat Ls) s)"
  by (induction xs Ls arbitrary: s rule: list_all2_induct) (auto simp: walk_shard_dll)

lemma for_shards_rep:
  assumes "reg_rep h hs L"
  shows "for_shards body h hs s = Some (fold (\<lambda>a. body a (the (h a))) (shard_order L) s)"
  unfolding shard_order_def
  by (rule for_shards_lists)
    (use assms in \<open>auto simp: reg_rep_def list_all2_conv_all_nth\<close>)

lemma set_shard_order: "reg_rep h hs L \<Longrightarrow> set (shard_order L) = {a. registered L a}"
  by (auto simp: shard_order_def reg_rep_registered)

lemma distinct_shard_order:
  assumes "reg_rep h hs L"
  shows "distinct (shard_order L)"
proof -
  have "distinct (concat (map L [0..<n]))" if "n \<le> NUM_SHARDS" for n
    using that
  proof (induction n)
    case (Suc n)
    then show ?case using assms reg_repD(2) [OF assms, of n] by (auto simp: reg_rep_registered)
  qed simp
  then show ?thesis by (simp add: shard_order_def)
qed

end
