(* ===== verification/Runtime.thy ===== *)
theory Runtime
  imports Registry
begin

text \<open>
  The ownership runtime of \<open>src/runtime.c\<close>: allocation, resizing and release with the quarantine
  ring, the ownership operations (claim, borrow, release, share) and the diagnostics.  \<open>self\<close> is
  \<open>pthread_self()\<close> of the caller.  Every function is one definition with the guards, the early
  returns and the order of effects of the C body; each runs to its end without interleaving.
\<close>

subsection \<open>Allocation\<close>

definition ownedc_set_allocators :: "addr \<Rightarrow> addr \<Rightarrow> addr \<Rightarrow> 'x rt_scheme \<Rightarrow> 'x rt_scheme" where
  "ownedc_set_allocators m_fn f_fn r_fn st =
     st\<lparr>global_malloc := (if m_fn \<noteq> 0 then m_fn else global_malloc st),
        global_free := (if f_fn \<noteq> 0 then f_fn else global_free st),
        global_realloc := (if r_fn \<noteq> 0 then r_fn else global_realloc st)\<rparr>"

definition file_or_unknown :: "string option \<Rightarrow> string" where
  "file_or_unknown fl = (case fl of None \<Rightarrow> ''<unknown>'' | Some f \<Rightarrow> f)"

definition new_meta :: "tid \<Rightarrow> size_t \<Rightarrow> string option \<Rightarrow> int \<Rightarrow> alloc_meta" where
  "new_meta self sz fl line =
     \<lparr>m_magic = OWNEDC_MAGIC, m_size = sz, m_state = OWNED, m_borrow_count = 0,
      m_owner_thread = self, m_alloc_file = file_or_unknown fl, m_alloc_line = line,
      m_free_file = None, m_free_line = 0, m_prev = 0, m_next = 0\<rparr>"

text \<open>
  \<open>sizeof(alloc_meta_t) + size\<close> wraps around; a block that is too short for what is written into it
  is a write past the block.
\<close>

definition owner_malloc_internal ::
    "tid \<Rightarrow> size_t \<Rightarrow> string option \<Rightarrow> int \<Rightarrow> 'x rt_scheme \<Rightarrow> failure + (addr \<times> 'x rt_scheme)" where
  "owner_malloc_internal self sz fl line st =
     (let st = (if atexit_registered st then st else st\<lparr>atexit_registered := True\<rparr>);
          (meta, st) = sys_malloc (sizeof_meta + sz) st
      in if meta = 0 then Inr (0, st)
         else if unat (sizeof_meta + sz) < unat sizeof_meta + unat sz
         then Inl (Undefined ''write past the block'')
         else bindE (insert_meta meta (st\<lparr>hdr := (hdr st)(meta \<mapsto> new_meta self sz fl line)\<rparr>))
           (\<lambda>st. Inr (user_ptr meta, put (user_ptr meta) (Filled 0xAA) st)))"

definition owner_malloc :: "tid \<Rightarrow> size_t \<Rightarrow> 'x rt_scheme \<Rightarrow> failure + (addr \<times> 'x rt_scheme)" where
  "owner_malloc self sz st = owner_malloc_internal self sz None 0 st"

definition owner_calloc ::
    "tid \<Rightarrow> size_t \<Rightarrow> size_t \<Rightarrow> 'x rt_scheme \<Rightarrow> failure + (addr \<times> 'x rt_scheme)" where
  "owner_calloc self num sz st =
     bindE (owner_malloc_internal self (num * sz) None 0 st) (\<lambda>(ptr, st).
       Inr (ptr, if ptr \<noteq> 0 then put ptr (Filled 0) st else st))"

subsection \<open>Release\<close>

text \<open>The ring of freed blocks: the oldest is handed back to the allocator when its slot is reused.\<close>

definition quarantine_push :: "addr \<Rightarrow> 'x rt_scheme \<Rightarrow> failure + 'x rt_scheme" where
  "quarantine_push meta st =
     (let old = quarantine st ! quarantine_tail st in
      bindE (if old \<noteq> 0 then sys_free old st else Inr st) (\<lambda>st.
      Inr (st\<lparr>quarantine := (quarantine st)[quarantine_tail st := meta],
              quarantine_tail := (quarantine_tail st + 1) mod QUARANTINE_SIZE\<rparr>)))"

definition owner_free_internal ::
    "tid \<Rightarrow> addr \<Rightarrow> string option \<Rightarrow> int \<Rightarrow> 'x rt_scheme \<Rightarrow> failure + 'x rt_scheme" where
  "owner_free_internal self ptr fl line st =
     (if ptr = 0 then Inr st
      else bindE (get_meta st ptr) (\<lambda>mo.
        case mo of
          None \<Rightarrow> Inl (Fatal ''Invalid free (Untracked pointer)'' ptr fl line)
        | Some m \<Rightarrow>
            if m_state m = FREED then Inl (Fatal ''Double-free'' ptr fl line)
            else if m_borrow_count m > 0 then Inl (Fatal ''Freeing borrowed object'' ptr fl line)
            else if m_state m \<noteq> SHARED \<and> m_owner_thread m \<noteq> self
            then Inl (Fatal ''Thread Ownership Violation (Free)'' ptr fl line)
            else
              bindE (upd_hdr (meta_of ptr)
                  (\<lambda>m. m\<lparr>m_state := FREED, m_free_file := Some (file_or_unknown fl),
                         m_free_line := line\<rparr>) st) (\<lambda>st.
              bindE (remove_meta (meta_of ptr) (put ptr (Filled 0xEF) st)) (\<lambda>st.
              quarantine_push (meta_of ptr) st))))"

definition owner_free :: "tid \<Rightarrow> addr \<Rightarrow> 'x rt_scheme \<Rightarrow> failure + 'x rt_scheme" where
  "owner_free self ptr st = owner_free_internal self ptr None 0 st"

text \<open>The cleanup handler of the \<open>OWNED\<close> attribute, on the value of the variable.\<close>

definition owner_free_cleanup :: "tid \<Rightarrow> addr \<Rightarrow> 'x rt_scheme \<Rightarrow> failure + 'x rt_scheme" where
  "owner_free_cleanup self actual_ptr st =
     (if actual_ptr \<noteq> 0 then owner_free self actual_ptr st else Inr st)"

subsection \<open>Resizing\<close>

definition owner_realloc_internal ::
    "tid \<Rightarrow> addr \<Rightarrow> size_t \<Rightarrow> string option \<Rightarrow> int \<Rightarrow> 'x rt_scheme
      \<Rightarrow> failure + (addr \<times> 'x rt_scheme)" where
  "owner_realloc_internal self ptr sz fl line st =
     (if ptr = 0 then owner_malloc_internal self sz fl line st
      else if sz = 0 then
        bindE (owner_free_internal self ptr fl line st) (\<lambda>st. Inr (0, st))
      else bindE (get_meta st ptr) (\<lambda>mo.
        case mo of
          None \<Rightarrow> Inl (Fatal ''Invalid Realloc (Untracked pointer)'' ptr fl line)
        | Some m \<Rightarrow>
            if m_state m = FREED
            then Inl (Fatal ''Use-after-free (Realloc on freed pointer)'' ptr fl line)
            else if m_state m \<noteq> SHARED \<and> m_owner_thread m \<noteq> self
            then Inl (Fatal ''Thread Ownership Violation (Realloc)'' ptr fl line)
            else
              bindE (remove_meta (meta_of ptr) st) (\<lambda>st.
              bindE (sys_realloc (meta_of ptr) (sizeof_meta + sz) st) (\<lambda>(new, st).
                if new = 0 then bindE (insert_meta (meta_of ptr) st) (\<lambda>st. Inr (0, st))
                else if unat (sizeof_meta + sz) < unat sizeof_meta + unat sz
                then Inl (Undefined ''write past the block'')
                else bindE (upd_hdr new (\<lambda>m. m\<lparr>m_size := sz\<rparr>) st) (\<lambda>st.
                     bindE (insert_meta new st) (\<lambda>st. Inr (user_ptr new, st)))))))"

definition owner_realloc ::
    "tid \<Rightarrow> addr \<Rightarrow> size_t \<Rightarrow> 'x rt_scheme \<Rightarrow> failure + (addr \<times> 'x rt_scheme)" where
  "owner_realloc self ptr sz st = owner_realloc_internal self ptr sz None 0 st"

definition owner_malloc_usable_size :: "addr \<Rightarrow> 'x rt_scheme \<Rightarrow> failure + size_t" where
  "owner_malloc_usable_size ptr st =
     (if ptr = 0 then Inr 0
      else bindE (get_meta st ptr) (\<lambda>mo. Inr (case mo of None \<Rightarrow> 0 | Some m \<Rightarrow> m_size m)))"

subsection \<open>Ownership operations\<close>

definition ownership_transfer :: "addr \<Rightarrow> addr \<Rightarrow> 'x rt_scheme \<Rightarrow> failure + 'x rt_scheme" where
  "ownership_transfer from_ptr to_ptr st = Inr st"

definition ownership_claim :: "tid \<Rightarrow> addr \<Rightarrow> 'x rt_scheme \<Rightarrow> failure + 'x rt_scheme" where
  "ownership_claim self ptr st =
     (if ptr = 0 then Inr st
      else bindE (get_meta st ptr) (\<lambda>mo.
        case mo of
          None \<Rightarrow> Inl (Fatal ''Invalid claim (Untracked pointer)'' ptr None 0)
        | Some m \<Rightarrow>
            upd_hdr (meta_of ptr) (\<lambda>m. m\<lparr>m_owner_thread := self, m_state := OWNED\<rparr>) st))"

definition ownership_borrow :: "tid \<Rightarrow> addr \<Rightarrow> 'x rt_scheme \<Rightarrow> failure + 'x rt_scheme" where
  "ownership_borrow self ptr st =
     (if ptr = 0 then Inr st
      else bindE (get_meta st ptr) (\<lambda>mo.
        case mo of
          None \<Rightarrow> Inl (Fatal ''Invalid borrow (Untracked pointer)'' ptr None 0)
        | Some m \<Rightarrow>
            if m_state m = FREED
            then Inl (Fatal ''Use-after-free (Borrow on freed pointer)'' ptr None 0)
            else if m_state m \<noteq> SHARED \<and> m_owner_thread m \<noteq> self
            then Inl (Fatal ''Thread Ownership Violation (Borrow)'' ptr None 0)
            else if m_borrow_count m = INT_MAX then Inl (Undefined ''signed overflow'')
            else upd_hdr (meta_of ptr)
                   (\<lambda>m. m\<lparr>m_borrow_count := m_borrow_count m + 1,
                          m_state := (if m_state m \<noteq> SHARED then BORROWED else m_state m)\<rparr>) st))"

definition ownership_release :: "addr \<Rightarrow> 'x rt_scheme \<Rightarrow> failure + 'x rt_scheme" where
  "ownership_release ptr st =
     (if ptr = 0 then Inr st
      else bindE (get_meta st ptr) (\<lambda>mo.
        case mo of
          None \<Rightarrow> Inl (Fatal ''Invalid release (Untracked pointer)'' ptr None 0)
        | Some m \<Rightarrow>
            if m_borrow_count m > 0
            then upd_hdr (meta_of ptr)
                   (\<lambda>m. m\<lparr>m_borrow_count := m_borrow_count m - 1,
                          m_state := (if m_borrow_count m - 1 = 0 \<and> m_state m = BORROWED
                                      then OWNED else m_state m)\<rparr>) st
            else Inl (Fatal ''Release without borrow'' ptr None 0)))"

definition ownership_share :: "tid \<Rightarrow> addr \<Rightarrow> 'x rt_scheme \<Rightarrow> failure + 'x rt_scheme" where
  "ownership_share self ptr st =
     (if ptr = 0 then Inr st
      else bindE (get_meta st ptr) (\<lambda>mo.
        case mo of
          None \<Rightarrow> Inl (Fatal ''Invalid share (Untracked pointer)'' ptr None 0)
        | Some m \<Rightarrow>
            if m_owner_thread m \<noteq> self
            then Inl (Fatal ''Thread Ownership Violation (Share must be called by owner)'' ptr None 0)
            else upd_hdr (meta_of ptr) (\<lambda>m. m\<lparr>m_state := SHARED\<rparr>) st))"

subsection \<open>Diagnostics\<close>

definition emit :: "event list \<Rightarrow> 'x rt_scheme \<Rightarrow> 'x rt_scheme" where
  "emit es st = st\<lparr>out := out st @ es\<rparr>"

definition leak_body :: "addr \<Rightarrow> alloc_meta \<Rightarrow> nat \<times> event list \<Rightarrow> nat \<times> event list" where
  "leak_body cur m s =
     (if m_state m = OWNED \<or> m_state m = SHARED
      then (fst s + 1,
            snd s @ [EvLeak (user_ptr cur) (m_size m) (m_alloc_file m) (m_alloc_line m)])
      else s)"

definition quarantine_clear :: "'x rt_scheme \<Rightarrow> failure + 'x rt_scheme" where
  "quarantine_clear st =
     foldE (\<lambda>i st. if quarantine st ! i \<noteq> 0
                   then bindE (sys_free (quarantine st ! i) st)
                          (\<lambda>st. Inr (st\<lparr>quarantine := (quarantine st)[i := 0]\<rparr>))
                   else Inr st)
       [0..<QUARANTINE_SIZE] st"

text \<open>The \<open>atexit\<close> handler; \<open>Some 1\<close> is its call of \<open>exit(1)\<close>.\<close>

definition check_leaks :: "'x rt_scheme \<Rightarrow> failure + (int option \<times> 'x rt_scheme)" where
  "check_leaks st =
     (case for_shards leak_body (hdr st) (registry_heads st) (0, []) of
        None \<Rightarrow> Inl Diverged
      | Some (leaked_count, evs) \<Rightarrow>
          bindE (quarantine_clear (emit evs st)) (\<lambda>st.
            if leaked_count > 0 then Inr (Some 1, emit [EvLeakTotal leaked_count] st)
            else Inr (None, st)))"

definition ownership_inspect :: "addr \<Rightarrow> 'x rt_scheme \<Rightarrow> failure + 'x rt_scheme" where
  "ownership_inspect ptr st =
     bindE (get_meta st ptr) (\<lambda>mo.
       Inr (case mo of
              None \<Rightarrow> emit [EvUntracked ptr] st
            | Some m \<Rightarrow>
                emit [EvInspect ptr (m_size m) (state_code (m_state m)) (m_borrow_count m)
                        (m_owner_thread m) (m_alloc_file m) (m_alloc_line m)
                        (if m_state m = FREED then Some (m_free_file m, m_free_line m)
                         else None)] st))"

definition ownership_dump :: "'x rt_scheme \<Rightarrow> failure + 'x rt_scheme" where
  "ownership_dump st =
     (case for_shards
             (\<lambda>cur m evs. evs @ [EvDump (user_ptr cur) (m_size m) (state_code (m_state m))
                                   (m_borrow_count m)])
             (hdr st) (registry_heads st) [] of
        None \<Rightarrow> Inl Diverged
      | Some evs \<Rightarrow> Inr (emit evs st))"

definition ownership_dump_borrows :: "'x rt_scheme \<Rightarrow> failure + 'x rt_scheme" where
  "ownership_dump_borrows st =
     (case for_shards
             (\<lambda>cur m (evs, found). if m_borrow_count m > 0
                then (evs @ [EvBorrow (user_ptr cur) (m_size m) (m_borrow_count m)], found + 1)
                else (evs, found))
             (hdr st) (registry_heads st) ([], 0::nat) of
        None \<Rightarrow> Inl Diverged
      | Some (evs, found) \<Rightarrow>
          Inr (emit (if found = 0 then evs @ [EvNoBorrows] else evs) st))"

definition stats_body :: "addr \<Rightarrow> alloc_meta \<Rightarrow> nat \<times> nat \<Rightarrow> nat \<times> nat" where
  "stats_body cur m s =
     (if m_state m = OWNED \<or> m_state m = SHARED \<or> m_state m = BORROWED then (fst s + 1, snd s)
      else if m_state m = FREED then (fst s, snd s + 1)
      else s)"

definition ownership_stats :: "'x rt_scheme \<Rightarrow> failure + 'x rt_scheme" where
  "ownership_stats st =
     (case for_shards stats_body (hdr st) (registry_heads st) (0, 0) of
        None \<Rightarrow> Inl Diverged
      | Some (active, freed) \<Rightarrow>
          Inr (emit [EvStats active
                 (fold (\<lambda>i n. if quarantine st ! i \<noteq> 0 then n + 1 else n)
                    [0..<QUARANTINE_SIZE] freed)] st))"

text \<open>The pieces the JSON dump writes to its fl, in order; \<open>None\<close> when \<open>fopen\<close> failed.\<close>

datatype json_piece =
    JOpen
  | JComma
  | JEntry addr size_t int tid int
  | JClose

definition json_body :: "addr \<Rightarrow> alloc_meta \<Rightarrow> bool \<times> json_piece list \<Rightarrow> bool \<times> json_piece list" where
  "json_body cur m s =
     (if m_state m \<noteq> FREED
      then (False, snd s @ (if fst s then [] else [JComma]) @
              [JEntry (user_ptr cur) (m_size m) (state_code (m_state m)) (m_owner_thread m)
                 (m_borrow_count m)])
      else s)"

definition ownership_dump_json :: "bool \<Rightarrow> 'x rt_scheme \<Rightarrow> failure + json_piece list option" where
  "ownership_dump_json opened st =
     (if \<not> opened then Inr None
      else case for_shards json_body (hdr st) (registry_heads st) (True, [JOpen]) of
             None \<Rightarrow> Inl Diverged
           | Some (_, ps) \<Rightarrow> Inr (Some (ps @ [JClose])))"

lemmas runtime_op_defs = owner_malloc_def owner_calloc_def owner_free_def owner_realloc_def

end
