(* ===== verification/RuntimeInv.thy ===== *)
theory RuntimeInv
  imports Runtime
begin

text \<open>
  The invariant of the runtime and its preservation by every operation.  \<open>rt_rep st L\<close> says that the
  state \<open>st\<close> represents the abstract registry \<open>L\<close>: the links agree with \<open>L\<close>; the registered headers
  are exactly those that are not freed; the freed headers are exactly the entries of the
  quarantine ring, each once; and every header of the library owns an allocator block of its
  recorded size, disjoint from all others.
\<close>

definition live_meta :: "alloc_meta \<Rightarrow> bool" where
  "live_meta m \<longleftrightarrow>
     m_magic m = OWNEDC_MAGIC \<and> m_state m \<in> {OWNED, BORROWED, SHARED} \<and>
     0 \<le> m_borrow_count m \<and> m_borrow_count m \<le> INT_MAX \<and>
     (m_state m = BORROWED \<longrightarrow> 0 < m_borrow_count m)"

definition dead_meta :: "alloc_meta \<Rightarrow> bool" where
  "dead_meta m \<longleftrightarrow> m_magic m = OWNEDC_MAGIC \<and> m_state m = FREED \<and> m_borrow_count m = 0"

definition owns_block :: "(addr \<times> nat) list \<Rightarrow> (addr \<Rightarrow> payload option) \<Rightarrow> addr \<Rightarrow> alloc_meta \<Rightarrow> bool" where
  "owns_block cs pl a m \<longleftrightarrow> (a, 80 + unat (m_size m)) \<in> set cs \<and> pl (user_ptr a) \<noteq> None"

definition blocks_inv ::
    "(addr \<Rightarrow> alloc_meta option) \<Rightarrow> addr set \<Rightarrow> addr list \<Rightarrow> (addr \<times> nat) list
      \<Rightarrow> (addr \<Rightarrow> payload option) \<Rightarrow> bool" where
  "blocks_inv h R q cs pl \<longleftrightarrow>
     (\<forall>a \<in> R. \<exists>m. h a = Some m \<and> live_meta m) \<and>
     length q = QUARANTINE_SIZE \<and>
     distinct (filter (\<lambda>a. a \<noteq> 0) q) \<and>
     (\<forall>a \<in> set q. a \<noteq> 0 \<longrightarrow> (\<exists>m. h a = Some m \<and> dead_meta m)) \<and>
     (\<forall>a m. h a = Some m \<longrightarrow> m_magic m = OWNEDC_MAGIC \<longrightarrow>
        (a \<in> R \<or> a \<in> set q) \<and> owns_block cs pl a m) \<and>
     chunks_inv cs"

definition rt_rep :: "'x rt_scheme \<Rightarrow> (nat \<Rightarrow> addr list) \<Rightarrow> bool" where
  "rt_rep st L \<longleftrightarrow>
     reg_rep (hdr st) (registry_heads st) L \<and>
     blocks_inv (bare_hdr (hdr st)) {a. registered L a} (quarantine st) (chunks st) (payload st) \<and>
     quarantine_tail st < QUARANTINE_SIZE"

definition rt_inv :: "'x rt_scheme \<Rightarrow> bool" where
  "rt_inv st \<longleftrightarrow> (\<exists>L. rt_rep st L)"

subsection \<open>The block invariant under the updates the code makes\<close>

lemma meta_kinds_disjoint: "live_meta m \<Longrightarrow> dead_meta m \<Longrightarrow> False"
  by (auto simp: live_meta_def dead_meta_def)

lemma live_meta_bare [simp]: "live_meta (bare m) = live_meta m"
  by (simp add: live_meta_def)

lemma dead_meta_bare [simp]: "dead_meta (bare m) = dead_meta m"
  by (simp add: dead_meta_def)

lemma owns_block_bare [simp]: "owns_block cs pl a (bare m) = owns_block cs pl a m"
  by (simp add: owns_block_def)

lemma bare_hdr_fun_upd [simp]: "bare_hdr (h(a := v)) = (bare_hdr h)(a := map_option bare v)"
  by (auto simp: bare_hdr_def)

lemma blocks_invD:
  assumes "blocks_inv h R q cs pl"
  shows "\<And>a. a \<in> R \<Longrightarrow> \<exists>m. h a = Some m \<and> live_meta m"
    and "length q = QUARANTINE_SIZE" and "distinct (filter (\<lambda>a. a \<noteq> 0) q)"
    and "\<And>a. a \<in> set q \<Longrightarrow> a \<noteq> 0 \<Longrightarrow> \<exists>m. h a = Some m \<and> dead_meta m"
    and "\<And>a m. h a = Some m \<Longrightarrow> m_magic m = OWNEDC_MAGIC \<Longrightarrow> a \<in> R \<or> a \<in> set q"
    and "\<And>a m. h a = Some m \<Longrightarrow> m_magic m = OWNEDC_MAGIC \<Longrightarrow> owns_block cs pl a m"
    and "chunks_inv cs"
  using assms unfolding blocks_inv_def by blast+

lemma blocks_inv_nonnull:
  assumes "blocks_inv h R q cs pl" and "h a = Some m" and "m_magic m = OWNEDC_MAGIC"
  shows "a \<noteq> 0"
  using blocks_invD(6,7) [OF assms(1)] assms(2,3) chunks_inv_ok(1)
  unfolding owns_block_def by blast

lemma blocks_inv_registered_not_quarantined:
  assumes "blocks_inv h R q cs pl" and "a \<in> R"
  shows "a \<notin> set q"
proof
  assume q: "a \<in> set q"
  obtain m where m: "h a = Some m" "live_meta m" using blocks_invD(1) [OF assms] by blast
  then have "a \<noteq> 0" using blocks_inv_nonnull [OF assms(1)] by (simp add: live_meta_def)
  with q m meta_kinds_disjoint show False using blocks_invD(4) [OF assms(1)] by fastforce
qed

text \<open>A header of the library is registered unless it is freed.\<close>

lemma blocks_inv_registered:
  assumes "blocks_inv h R q cs pl" and "h a = Some m" and "m_magic m = OWNEDC_MAGIC"
  shows "a \<in> R \<longleftrightarrow> m_state m \<noteq> FREED"
proof -
  have nn: "a \<noteq> 0" using blocks_inv_nonnull [OF assms] .
  consider "a \<in> R" | "a \<in> set q" using blocks_invD(5) [OF assms] by blast
  then show ?thesis
  proof cases
    case 1
    then obtain m' where "h a = Some m'" "live_meta m'" using blocks_invD(1) [OF assms(1)] by blast
    with 1 assms(2) show ?thesis by (auto simp: live_meta_def)
  next
    case 2
    then obtain m' where "h a = Some m'" "dead_meta m'"
      using blocks_invD(4) [OF assms(1)] nn by blast
    with 2 assms(1,2) show ?thesis
      using blocks_inv_registered_not_quarantined by (auto simp: dead_meta_def)
  qed
qed

lemma blocks_inv_update:
  assumes "blocks_inv h R q cs pl" and "a \<in> R" and "h a = Some m"
    and "live_meta m'" and "m_size m' = m_size m"
  shows "blocks_inv (h(a \<mapsto> m')) R q cs pl"
proof -
  have nq: "a \<notin> set q" using blocks_inv_registered_not_quarantined [OF assms(1,2)] .
  obtain mm where "h a = Some mm" "live_meta mm" using blocks_invD(1) [OF assms(1,2)] by blast
  then have "m_magic m = OWNEDC_MAGIC" using assms(3) by (simp add: live_meta_def)
  then have "owns_block cs pl a m'"
    using blocks_invD(6) [OF assms(1,3)] assms(5) by (simp add: owns_block_def)
  with assms nq show ?thesis by (fastforce simp: blocks_inv_def)
qed

lemma blocks_inv_payload:
  assumes "blocks_inv h R q cs pl" and "\<And>p. pl p \<noteq> None \<Longrightarrow> pl' p \<noteq> None"
  shows "blocks_inv h R q cs pl'"
  using assms by (fastforce simp: blocks_inv_def owns_block_def)

lemma blocks_inv_new:
  assumes "blocks_inv h R q cs pl" and "chunk_ok cs a n" and "n = 80 + unat (m_size m)"
    and "live_meta m"
  shows "blocks_inv (h(a \<mapsto> m)) (insert a R) q ((a, n) # cs) (pl(user_ptr a \<mapsto> x))"
proof -
  have nin: "(a, k) \<notin> set cs" for k using chunk_ok_notin [OF assms(2)] by force
  have notm: "h a = Some m' \<Longrightarrow> m_magic m' \<noteq> OWNEDC_MAGIC" for m'
    using blocks_invD(6) [OF assms(1)] nin unfolding owns_block_def by blast
  have "a \<noteq> 0" using assms(2) by (simp add: chunk_ok_def)
  then have nq: "a \<notin> set q"
    using blocks_invD(4) [OF assms(1)] notm by (auto simp: dead_meta_def)
  show ?thesis
    unfolding blocks_inv_def
  proof (intro conjI ballI allI impI)
    fix b assume "b \<in> insert a R"
    then show "\<exists>ma. (h(a \<mapsto> m)) b = Some ma \<and> live_meta ma"
      using assms(4) blocks_invD(1) [OF assms(1)] by auto
  next
    fix b assume "b \<in> set q" "b \<noteq> 0"
    then show "\<exists>ma. (h(a \<mapsto> m)) b = Some ma \<and> dead_meta ma"
      using nq blocks_invD(4) [OF assms(1)] by auto
  next
    fix b mb assume "(h(a \<mapsto> m)) b = Some mb" "m_magic mb = OWNEDC_MAGIC"
    then show "b \<in> insert a R \<or> b \<in> set q"
      using blocks_invD(5) [OF assms(1)] by (auto split: if_splits)
  next
    fix b mb assume "(h(a \<mapsto> m)) b = Some mb" "m_magic mb = OWNEDC_MAGIC"
    then show "owns_block ((a, n) # cs) (pl(user_ptr a \<mapsto> x)) b mb"
      using blocks_invD(6) [OF assms(1)] assms(3) by (auto simp: owns_block_def split: if_splits)
  qed (use blocks_invD [OF assms(1)] assms(2) in auto)
qed

text \<open>A slot of the ring whose block is handed back.\<close>

lemma blocks_inv_evict:
  assumes "blocks_inv h R q cs pl" and "i < QUARANTINE_SIZE" and "q ! i \<noteq> 0"
  shows "blocks_inv (h(q ! i := None)) R (q[i := 0]) (without_chunk (q ! i) cs)
           (pl(user_ptr (q ! i) := None))"
    and "q ! i \<in> fst ` set cs"
proof -
  let ?o = "q ! i"
  have len: "length q = QUARANTINE_SIZE" using blocks_invD(2) [OF assms(1)] .
  have oq: "?o \<in> set q" using assms(2) len by simp
  then obtain m where m: "h ?o = Some m" "dead_meta m"
    using blocks_invD(4) [OF assms(1)] assms(3) by blast
  have oR: "?o \<notin> R" using blocks_inv_registered_not_quarantined [OF assms(1)] oq by blast
  have sub: "set (q[i := 0]) \<subseteq> insert 0 (set q)" by (rule set_update_subset_insert)
  have gone: "?o \<notin> set (q[i := 0])"
  proof
    assume "?o \<in> set (q[i := 0])"
    then obtain j where "j < length q" "q[i := 0] ! j = ?o"
      by (metis in_set_conv_nth length_list_update)
    then have "j \<noteq> i" using assms by auto
    with \<open>q[i := 0] ! j = ?o\<close> have "q ! j = ?o" by simp
    then have "j = i"
      using nth_filter_ne_distinct [OF blocks_invD(3) [OF assms(1)], of j i] \<open>j < length q\<close> assms len
      by auto
    with \<open>j \<noteq> i\<close> show False ..
  qed
  have keep: "b \<in> set (q[i := 0])" if "b \<in> set q" "b \<noteq> ?o" for b
    using that by (metis in_set_conv_nth length_list_update nth_list_update_neq)
  have own: "owns_block (without_chunk ?o cs) (pl(user_ptr ?o := None)) b mb"
    if "h b = Some mb" "m_magic mb = OWNEDC_MAGIC" "b \<noteq> ?o" for b mb
    using blocks_invD(6) [OF assms(1) that(1,2)] that(3) by (auto simp: owns_block_def)
  have d: "distinct (filter (\<lambda>a. a \<noteq> 0) (q[i := 0]))"
    using blocks_invD(3) [OF assms(1)]
  proof (induction q arbitrary: i)
    case (Cons x xs)
    then show ?case
      using set_update_subset_insert [of xs _ 0] by (cases i) (auto split: if_splits)
  qed simp
  show "blocks_inv (h(?o := None)) R (q[i := 0]) (without_chunk ?o cs) (pl(user_ptr ?o := None))"
    unfolding blocks_inv_def
  proof (intro conjI ballI allI impI)
    fix b assume b: "b \<in> R"
    with oR have "b \<noteq> ?o" by auto
    then show "\<exists>m. (h(?o := None)) b = Some m \<and> live_meta m"
      using blocks_invD(1) [OF assms(1) b] by simp
  next
    fix b assume b: "b \<in> set (q[i := 0])" "b \<noteq> 0"
    with gone have "b \<noteq> ?o" by auto
    moreover have "b \<in> set q" using b sub by auto
    ultimately show "\<exists>m. (h(?o := None)) b = Some m \<and> dead_meta m"
      using blocks_invD(4) [OF assms(1)] b(2) by simp
  next
    fix b mb assume "(h(?o := None)) b = Some mb" "m_magic mb = OWNEDC_MAGIC"
    then show "b \<in> R \<or> b \<in> set (q[i := 0])"
      using blocks_invD(5) [OF assms(1)] keep by (auto split: if_splits)
  next
    fix b mb assume "(h(?o := None)) b = Some mb" "m_magic mb = OWNEDC_MAGIC"
    then show "owns_block (without_chunk ?o cs) (pl(user_ptr ?o := None)) b mb"
      by (intro own) (auto split: if_splits)
  qed (use d len blocks_invD(7) [OF assms(1)] in auto)
  show "?o \<in> fst ` set cs"
    using blocks_invD(6) [OF assms(1) m(1)] m(2) by (force simp: owns_block_def dead_meta_def)
qed

text \<open>A live block that is retired into an empty slot of the ring.\<close>

lemma blocks_inv_retire:
  assumes "blocks_inv h R q cs pl" and "a \<in> R" and "h a = Some m" and "m_borrow_count m = 0"
    and "i < QUARANTINE_SIZE" and "q ! i = 0"
    and "dead_meta m'" and "m_size m' = m_size m"
  shows "blocks_inv (h(a \<mapsto> m')) (R - {a}) (q[i := a]) cs pl"
proof -
  have nq: "a \<notin> set q" using blocks_inv_registered_not_quarantined [OF assms(1,2)] .
  have len: "length q = QUARANTINE_SIZE" using blocks_invD(2) [OF assms(1)] .
  obtain mm where "h a = Some mm" "live_meta mm" using blocks_invD(1) [OF assms(1,2)] by blast
  then have mag: "m_magic m = OWNEDC_MAGIC" using assms(3) by (simp add: live_meta_def)
  have keep: "b \<in> set (q[i := a])" if "b \<in> set q" "b \<noteq> 0" for b
    using that assms(6) by (metis in_set_conv_nth length_list_update nth_list_update_neq)
  have ain: "a \<in> set (q[i := a])" using assms(5) len by (simp add: set_update_memI)
  have sub: "set (q[i := a]) \<subseteq> insert a (set q)" by (rule set_update_subset_insert)
  show ?thesis
    unfolding blocks_inv_def
  proof (intro conjI ballI allI impI)
    fix b assume "b \<in> R - {a}"
    then show "\<exists>m. (h(a \<mapsto> m')) b = Some m \<and> live_meta m"
      using blocks_invD(1) [OF assms(1)] by auto
  next
    fix b assume "b \<in> set (q[i := a])" "b \<noteq> 0"
    then show "\<exists>m. (h(a \<mapsto> m')) b = Some m \<and> dead_meta m"
      using sub assms(7) blocks_invD(4) [OF assms(1)] by auto
  next
    fix b mb assume b: "(h(a \<mapsto> m')) b = Some mb" "m_magic mb = OWNEDC_MAGIC"
    show "b \<in> R - {a} \<or> b \<in> set (q[i := a])"
    proof (cases "b = a")
      case False
      with b have "h b = Some mb" by simp
      then have "b \<noteq> 0" using blocks_inv_nonnull [OF assms(1)] b(2) by blast
      with \<open>h b = Some mb\<close> b(2) show ?thesis using blocks_invD(5) [OF assms(1)] keep False by blast
    qed (use ain in simp)
  next
    fix b mb assume "(h(a \<mapsto> m')) b = Some mb" "m_magic mb = OWNEDC_MAGIC"
    then show "owns_block cs pl b mb"
      using blocks_invD(6) [OF assms(1)] assms(3,8) mag by (auto simp: owns_block_def split: if_splits)
  qed (use distinct_filter_update [OF blocks_invD(3) [OF assms(1)] nq] len
        blocks_invD(7) [OF assms(1)] in auto)
qed

text \<open>A live block that the allocator moves.\<close>

lemma blocks_inv_move:
  assumes "blocks_inv h R q cs pl" and "a \<in> R" and "h a = Some m"
    and "chunk_ok (without_chunk a cs) b n" and "n = 80 + unat (m_size m')" and "live_meta m'"
  shows "blocks_inv ((h(a := None))(b \<mapsto> m')) (insert b (R - {a})) q
           ((b, n) # without_chunk a cs) ((pl(user_ptr a := None))(user_ptr b \<mapsto> x))"
proof (rule blocks_inv_new [OF _ assms(4,5,6)])
  have nq: "a \<notin> set q" using blocks_inv_registered_not_quarantined [OF assms(1,2)] .
  show "blocks_inv (h(a := None)) (R - {a}) q (without_chunk a cs) (pl(user_ptr a := None))"
    unfolding blocks_inv_def
  proof (intro conjI ballI allI impI)
    fix c assume "c \<in> R - {a}"
    then show "\<exists>m. (h(a := None)) c = Some m \<and> live_meta m"
      using blocks_invD(1) [OF assms(1)] by auto
  next
    fix c assume "c \<in> set q" "c \<noteq> 0"
    then show "\<exists>m. (h(a := None)) c = Some m \<and> dead_meta m"
      using nq blocks_invD(4) [OF assms(1)] by auto
  next
    fix c mc assume "(h(a := None)) c = Some mc" "m_magic mc = OWNEDC_MAGIC"
    then show "c \<in> R - {a} \<or> c \<in> set q" using blocks_invD(5) [OF assms(1)] by (auto split: if_splits)
  next
    fix c mc assume "(h(a := None)) c = Some mc" "m_magic mc = OWNEDC_MAGIC"
    then show "owns_block (without_chunk a cs) (pl(user_ptr a := None)) c mc"
      using blocks_invD(6) [OF assms(1)] by (auto simp: owns_block_def split: if_splits)
  qed (use blocks_invD [OF assms(1)] in auto)
qed


subsection \<open>Reading headers\<close>

lemma get_meta_Some:
  "get_meta st p = Inr (Some m) \<longleftrightarrow>
     p \<noteq> 0 \<and> hdr st (meta_of p) = Some m \<and> m_magic m = OWNEDC_MAGIC"
  by (auto simp: get_meta_def split: option.splits if_splits)

lemma get_meta_None:
  "get_meta st p = Inr None \<longleftrightarrow>
     p = 0 \<or> (\<exists>m. hdr st (meta_of p) = Some m \<and> m_magic m \<noteq> OWNEDC_MAGIC)"
  by (auto simp: get_meta_def split: option.splits if_splits)

lemma get_meta_Inl: "get_meta st p = Inl e \<Longrightarrow> e = Undefined ''read of an unmapped header''"
  by (auto simp: get_meta_def split: option.splits if_splits)

lemma rt_rep_meta:
  assumes "rt_rep st L" and "get_meta st p = Inr (Some m)"
  shows "hdr st (meta_of p) = Some m" and "m_magic m = OWNEDC_MAGIC"
    and "registered L (meta_of p) \<longleftrightarrow> m_state m \<noteq> FREED"
    and "m_state m \<noteq> FREED \<Longrightarrow> live_meta m"
    and "m_state m = FREED \<Longrightarrow> dead_meta m"
proof -
  let ?h = "bare_hdr (hdr st)" and ?R = "{a. registered L a}"
  have b: "blocks_inv ?h ?R (quarantine st) (chunks st) (payload st)"
    using assms(1) by (simp add: rt_rep_def)
  show h: "hdr st (meta_of p) = Some m" and mag: "m_magic m = OWNEDC_MAGIC"
    using assms(2) by (simp_all add: get_meta_Some)
  then have hb: "?h (meta_of p) = Some (bare m)" by (simp add: bare_hdr_def)
  show r: "registered L (meta_of p) \<longleftrightarrow> m_state m \<noteq> FREED"
    using blocks_inv_registered [OF b hb] mag by simp
  show "m_state m \<noteq> FREED \<Longrightarrow> live_meta m"
    using r blocks_invD(1) [OF b, of "meta_of p"] hb by auto
  show "m_state m = FREED \<Longrightarrow> dead_meta m"
    using r blocks_invD(4,5) [OF b] hb mag blocks_inv_nonnull [OF b hb] by fastforce
qed

lemma rt_rep_len: "rt_rep st L \<Longrightarrow> length (registry_heads st) = NUM_SHARDS"
  by (simp add: rt_rep_def reg_rep_def)

lemma rt_rep_blocks:
  "rt_rep st L \<Longrightarrow>
   blocks_inv (bare_hdr (hdr st)) {a. registered L a} (quarantine st) (chunks st) (payload st)"
  by (simp add: rt_rep_def)

text \<open>The operations that rewrite one live header in place.\<close>

lemma rt_rep_update:
  assumes "rt_rep st L" and "registered L a" and "hdr st a = Some m"
    and "live_meta m'" and "m_size m' = m_size m" and "m_prev m' = m_prev m" and "m_next m' = m_next m"
  shows "rt_rep (st\<lparr>hdr := (hdr st)(a \<mapsto> m')\<rparr>) L"
proof -
  have "bare_hdr (hdr st) a = Some (bare m)" using assms(3) by (simp add: bare_hdr_def)
  then have "blocks_inv ((bare_hdr (hdr st))(a \<mapsto> bare m')) {a. registered L a} (quarantine st)
      (chunks st) (payload st)"
    using blocks_inv_update [OF rt_rep_blocks [OF assms(1)]] assms by simp
  with assms show ?thesis by (auto simp: rt_rep_def intro: reg_rep_upd_field)
qed

lemma rt_rep_put:
  assumes "rt_rep st L"
  shows "rt_rep (put p x st) L"
  using assms by (auto simp: rt_rep_def intro: blocks_inv_payload)

lemma rt_rep_emit [simp]: "rt_rep (emit es st) L = rt_rep st L"
  by (simp add: rt_rep_def emit_def)

subsection \<open>Registered sets\<close>

lemma registered_insert [simp]:
  "registered (L(shard_of a := a # L (shard_of a))) b \<longleftrightarrow> b = a \<or> registered L b"
  by (auto simp: registered_def)

lemma registered_remove:
  "distinct (L (shard_of a)) \<Longrightarrow>
   registered (L(shard_of a := remove1 a (L (shard_of a)))) b \<longleftrightarrow> b \<noteq> a \<and> registered L b"
  by (auto simp: registered_def)

lemma rt_rep_registered_remove:
  "rt_rep st L \<Longrightarrow>
   registered (L(shard_of a := remove1 a (L (shard_of a)))) b \<longleftrightarrow> b \<noteq> a \<and> registered L b"
  unfolding rt_rep_def by (rule registered_remove) (auto dest: reg_repD(2) [OF _ shard_of_less])

subsection \<open>The object view\<close>

text \<open>What a client can know of an object: its header, links aside.\<close>

definition obj_at :: "'x rt_scheme \<Rightarrow> addr \<Rightarrow> alloc_meta option" where
  "obj_at st p =
     (if p = 0 then None
      else case hdr st (meta_of p) of
             None \<Rightarrow> None
           | Some m \<Rightarrow> if m_magic m = OWNEDC_MAGIC then Some (bare m) else None)"

definition live :: "'x rt_scheme \<Rightarrow> addr \<Rightarrow> bool" where
  "live st p \<longleftrightarrow> (case obj_at st p of None \<Rightarrow> False | Some m \<Rightarrow> m_state m \<noteq> FREED)"

lemma obj_at_0 [simp]: "obj_at st 0 = None"
  by (simp add: obj_at_def)

lemma live_0 [simp]: "\<not> live st 0"
  by (simp add: live_def)

lemma obj_at_Some:
  "obj_at st p = Some m \<longleftrightarrow> (\<exists>m'. get_meta st p = Inr (Some m') \<and> m = bare m')"
  by (auto simp: obj_at_def get_meta_Some split: option.splits if_splits)

lemma obj_at_get_meta: "get_meta st p = Inr (Some m) \<Longrightarrow> obj_at st p = Some (bare m)"
  by (auto simp: obj_at_Some)

lemma obj_at_bare_hdr:
  "obj_at st p =
     (if p = 0 then None
      else case bare_hdr (hdr st) (meta_of p) of
             None \<Rightarrow> None
           | Some m \<Rightarrow> if m_magic m = OWNEDC_MAGIC then Some m else None)"
  by (auto simp: obj_at_def bare_hdr_def split: option.splits)

lemma liveE:
  assumes "live st p"
  obtains m where "get_meta st p = Inr (Some m)" and "m_state m \<noteq> FREED" and "p \<noteq> 0"
  using assms by (auto simp: live_def obj_at_def get_meta_Some split: option.splits if_splits)

lemma live_iff: "live st p \<longleftrightarrow> (\<exists>m. get_meta st p = Inr (Some m) \<and> m_state m \<noteq> FREED)"
  by (auto simp: live_def obj_at_def get_meta_Some split: option.splits if_splits)

lemma live_registered: "rt_rep st L \<Longrightarrow> live st p \<longleftrightarrow> p \<noteq> 0 \<and> registered L (meta_of p)"
proof
  assume a: "rt_rep st L" "live st p"
  then show "p \<noteq> 0 \<and> registered L (meta_of p)" by (auto simp: rt_rep_meta(3) elim!: liveE)
next
  assume a: "rt_rep st L" and r: "p \<noteq> 0 \<and> registered L (meta_of p)"
  then obtain m where "hdr st (meta_of p) = Some m" "live_meta m"
    using blocks_invD(1) [OF rt_rep_blocks [OF a], of "meta_of p"]
    by (auto simp: bare_hdr_def)
  with r show "live st p" by (auto simp: live_iff get_meta_Some live_meta_def)
qed

end
