(* ===== verification/RuntimeOps.thy ===== *)
theory RuntimeOps
  imports RuntimeInv
begin

text \<open>
  What each operation of the runtime does on a represented state: every branch of the code, the
  object view after it, and the abstract registry it leaves.
\<close>

subsection \<open>Allocation\<close>

lemma unat_user_ptr: "unat a + 80 < 2 ^ 64 \<Longrightarrow> unat (user_ptr a) = unat a + 80"
  unfolding user_ptr_def by (subst unat_add_no_overflow) (simp_all add: sizeof_meta_def)

lemma chunk_ok_user_ptr: "chunk_ok cs a (80 + n) \<Longrightarrow> user_ptr a \<noteq> 0"
  using unat_user_ptr [of a] by (auto simp: chunk_ok_def)

lemma owner_malloc_internal_alt:
  "owner_malloc_internal self sz fl line st =
     (case sys_malloc (sizeof_meta + sz) (st\<lparr>atexit_registered := True\<rparr>) of (meta, st) \<Rightarrow>
        if meta = 0 then Inr (0, st)
        else if unat (sizeof_meta + sz) < unat sizeof_meta + unat sz
        then Inl (Undefined ''write past the block'')
        else bindE (insert_meta meta (st\<lparr>hdr := (hdr st)(meta \<mapsto> new_meta self sz fl line)\<rparr>))
          (\<lambda>st. Inr (user_ptr meta, put (user_ptr meta) (Filled 0xAA) st)))"
proof -
  have "(if atexit_registered st then st else st\<lparr>atexit_registered := True\<rparr>) =
      st\<lparr>atexit_registered := True\<rparr>" by simp
  then show ?thesis by (simp only: owner_malloc_internal_def Let_def)
qed

lemma owner_malloc_internal_cases:
  assumes rep: "rt_rep st L" and no: "unat sz + 80 < 2 ^ 64"
  obtains (null) rs ae where
    "owner_malloc_internal self sz fl line st =
       Inr (0, st\<lparr>atexit_registered := ae, replies := rs\<rparr>)"
  | (ok) a rs ae h hs where
    "chunk_ok (chunks st) a (80 + unat sz)"
    and "owner_malloc_internal self sz fl line st =
       Inr (user_ptr a, put (user_ptr a) (Filled 0xAA)
         (st\<lparr>atexit_registered := ae, replies := rs, chunks := (a, 80 + unat sz) # chunks st,
             hdr := h, registry_heads := hs\<rparr>))"
    and "reg_rep h hs (L(shard_of a := a # L (shard_of a)))"
    and "bare_hdr h = (bare_hdr (hdr st))(a \<mapsto> bare (new_meta self sz fl line))"
proof -
  let ?st0 = "st\<lparr>atexit_registered := True\<rparr>"
  have n: "unat (sizeof_meta + sz) = 80 + unat sz"
    using no by (subst unat_add_no_overflow) (simp_all add: sizeof_meta_def)
  obtain a st1 where m: "sys_malloc (sizeof_meta + sz) ?st0 = (a, st1)" by fastforce
  from m show ?thesis
  proof (cases rule: sys_malloc_cases)
    case (null rs)
    then show ?thesis
      using m by (intro that(1) [where rs = rs and ae = True])
        (simp add: owner_malloc_internal_alt)
  next
    case (block rs)
    let ?st1 = "st\<lparr>atexit_registered := True, replies := rs,
                  chunks := (a, 80 + unat sz) # chunks st\<rparr>"
    let ?m = "new_meta self sz fl line"
    let ?st2 = "?st1\<lparr>hdr := (hdr st)(a \<mapsto> ?m)\<rparr>"
    have st1: "st1 = ?st1" using block n by simp
    have ok: "chunk_ok (chunks st) a (80 + unat sz)" using block(2) n by simp
    have nr: "\<not> registered L a"
    proof
      assume "registered L a"
      then obtain x where "bare_hdr (hdr st) a = Some x" "live_meta x"
        using blocks_invD(1) [OF rt_rep_blocks [OF rep], of a] by auto
      then have "(a, 80 + unat (m_size x)) \<in> set (chunks st)"
        using blocks_invD(6) [OF rt_rep_blocks [OF rep]] by (auto simp: owns_block_def live_meta_def)
      with chunk_ok_notin [OF ok] show False by force
    qed
    have "reg_rep (hdr ?st2) (registry_heads ?st2) L"
      using rep nr by (simp add: rt_rep_def reg_rep_upd_other)
    moreover have "hdr ?st2 a = Some ?m" by simp
    ultimately obtain h hs where
      ins: "insert_meta a ?st2 = Inr (?st2\<lparr>hdr := h, registry_heads := hs\<rparr>)"
      and rr: "reg_rep h hs (L(shard_of a := a # L (shard_of a)))"
      and bh: "bare_hdr h = bare_hdr (hdr ?st2)"
      using block(1) nr by (rule insert_meta_refines)
    have "owner_malloc_internal self sz fl line st =
        Inr (user_ptr a, put (user_ptr a) (Filled 0xAA) (?st2\<lparr>hdr := h, registry_heads := hs\<rparr>))"
      using m st1 block(1) n ins
      by (simp add: owner_malloc_internal_alt sizeof_meta_def)
    then show ?thesis using that(2) [OF ok _ rr, where rs = rs and ae = True] bh by simp
  qed
qed

lemma live_new_meta: "live_meta (new_meta self sz fl line)"
  by (simp add: live_meta_def new_meta_def INT_MAX_def)

lemma new_meta_size [simp]: "m_size (new_meta self sz fl line) = sz"
  by (simp add: new_meta_def)

text \<open>Allocation keeps the invariant, and what it returns is new and disjoint from every block.\<close>

lemma owner_malloc_internal_rep:
  assumes rep: "rt_rep st L" and no: "unat sz + 80 < 2 ^ 64"
    and res: "owner_malloc_internal self sz fl line st = Inr (p, st')"
  shows "p = 0 \<Longrightarrow> rt_rep st' L"
    and "p \<noteq> 0 \<Longrightarrow> rt_rep st' (L(shard_of (meta_of p) := meta_of p # L (shard_of (meta_of p))))"
proof -
  note rep' = rep [unfolded rt_rep_def]
  show "rt_rep st' L" if "p = 0"
    using rep no
  proof (cases rule: owner_malloc_internal_cases [where self = self and fl = fl and line = line])
    case (null rs ae)
    with res rep' show ?thesis by (auto simp: rt_rep_def)
  next
    case (ok a rs ae h hs)
    have "user_ptr a \<noteq> 0" using chunk_ok_user_ptr [OF ok(1)] .
    with ok(2) res that show ?thesis by simp
  qed
  show "rt_rep st' (L(shard_of (meta_of p) := meta_of p # L (shard_of (meta_of p))))" if "p \<noteq> 0"
    using rep no
  proof (cases rule: owner_malloc_internal_cases [where self = self and fl = fl and line = line])
    case (null rs ae)
    with res that show ?thesis by simp
  next
    case (ok a rs ae h hs)
    with res have p: "meta_of p = a" and st': "st' = put (user_ptr a) (Filled 0xAA)
         (st\<lparr>atexit_registered := ae, replies := rs, chunks := (a, 80 + unat sz) # chunks st,
             hdr := h, registry_heads := hs\<rparr>)"
      by auto
    have "blocks_inv ((bare_hdr (hdr st))(a \<mapsto> bare (new_meta self sz fl line)))
        (insert a {a. registered L a}) (quarantine st) ((a, 80 + unat sz) # chunks st)
        ((payload st)(user_ptr a \<mapsto> Filled 0xAA))"
      by (rule blocks_inv_new [OF rt_rep_blocks [OF rep] ok(1)]) (simp_all add: live_new_meta)
    moreover have "insert a {a. registered L a} =
        {b. registered (L(shard_of a := a # L (shard_of a))) b}"
      by auto
    ultimately show ?thesis
      using ok(3,4) rep' unfolding p st' by (simp add: rt_rep_def)
  qed
qed


text \<open>The object view after an allocation: one new object, everything else as before.\<close>

lemma owner_malloc_internal_view:
  assumes rep: "rt_rep st L" and no: "unat sz + 80 < 2 ^ 64"
    and res: "owner_malloc_internal self sz fl line st = Inr (p, st')"
  shows "obj_at st' = (if p = 0 then obj_at st
           else (obj_at st)(p \<mapsto> bare (new_meta self sz fl line)))"
    and "payload st' = (if p = 0 then payload st else (payload st)(p \<mapsto> Filled 0xAA))"
    and "chunks st' = (if p = 0 then chunks st else (meta_of p, 80 + unat sz) # chunks st)"
    and "p \<noteq> 0 \<Longrightarrow> chunk_ok (chunks st) (meta_of p) (80 + unat sz)"
    and "quarantine st' = quarantine st" and "quarantine_tail st' = quarantine_tail st"
    and "out st' = out st" and "rt.more st' = rt.more st"
proof -
  have "obj_at st' = (if p = 0 then obj_at st
           else (obj_at st)(p \<mapsto> bare (new_meta self sz fl line))) \<and>
    payload st' = (if p = 0 then payload st else (payload st)(p \<mapsto> Filled 0xAA)) \<and>
    chunks st' = (if p = 0 then chunks st else (meta_of p, 80 + unat sz) # chunks st) \<and>
    (p \<noteq> 0 \<longrightarrow> chunk_ok (chunks st) (meta_of p) (80 + unat sz)) \<and>
    quarantine st' = quarantine st \<and> quarantine_tail st' = quarantine_tail st \<and>
    out st' = out st \<and> rt.more st' = rt.more st"
    using rep no
  proof (cases rule: owner_malloc_internal_cases [where self = self and fl = fl and line = line])
    case (null rs ae)
    with res show ?thesis by (auto simp: fun_eq_iff obj_at_def)
  next
    case (ok a rs ae h hs)
    have nz: "user_ptr a \<noteq> 0" using chunk_ok_user_ptr [OF ok(1)] .
    with ok res show ?thesis
      by (auto simp: fun_eq_iff obj_at_bare_hdr new_meta_def meta_of_eq_conv)
  qed
  then show "obj_at st' = (if p = 0 then obj_at st
           else (obj_at st)(p \<mapsto> bare (new_meta self sz fl line)))"
    and "payload st' = (if p = 0 then payload st else (payload st)(p \<mapsto> Filled 0xAA))"
    and "chunks st' = (if p = 0 then chunks st else (meta_of p, 80 + unat sz) # chunks st)"
    and "p \<noteq> 0 \<Longrightarrow> chunk_ok (chunks st) (meta_of p) (80 + unat sz)"
    and "quarantine st' = quarantine st" and "quarantine_tail st' = quarantine_tail st"
    and "out st' = out st" and "rt.more st' = rt.more st"
    by simp_all
qed

text \<open>A request whose block size wraps around either fails or overruns the block it got.\<close>

lemma owner_malloc_internal_wraps:
  assumes "2 ^ 64 \<le> unat sz + 80"
    and "owner_malloc_internal self sz fl line st = Inr (p, st')"
  shows "p = 0"
proof -
  have "unat (sizeof_meta + sz) < 80 + unat sz"
    using assms(1) unat_lt_2p64 [of "sizeof_meta + sz"] by simp
  then show ?thesis
    using assms(2) by (auto simp: owner_malloc_internal_alt sizeof_meta_def split: prod.splits if_splits)
qed

lemma owner_malloc_internal_returns:
  assumes "rt_rep st L" and "unat sz + 80 < 2 ^ 64"
  obtains p st' where "owner_malloc_internal self sz fl line st = Inr (p, st')"
  using assms
  by (cases rule: owner_malloc_internal_cases [where self = self and fl = fl and line = line]) auto

subsection \<open>Release\<close>

definition freed_meta :: "string option \<Rightarrow> int \<Rightarrow> alloc_meta \<Rightarrow> alloc_meta" where
  "freed_meta fl line m =
     m\<lparr>m_state := FREED, m_free_file := Some (file_or_unknown fl), m_free_line := line\<rparr>"

lemma freed_meta_fields [simp]:
  "m_magic (freed_meta fl line m) = m_magic m" "m_size (freed_meta fl line m) = m_size m"
  "m_state (freed_meta fl line m) = FREED"
  "m_borrow_count (freed_meta fl line m) = m_borrow_count m"
  "m_prev (freed_meta fl line m) = m_prev m" "m_next (freed_meta fl line m) = m_next m"
  "m_owner_thread (freed_meta fl line m) = m_owner_thread m"
  by (simp_all add: freed_meta_def)

lemma bare_freed_meta [simp]: "bare (freed_meta fl line (bare m)) = bare (freed_meta fl line m)"
  by (simp add: freed_meta_def bare_def)

text \<open>The guards of \<open>owner_free\<close> as one predicate.\<close>

definition free_ok :: "tid \<Rightarrow> alloc_meta \<Rightarrow> bool" where
  "free_ok self m \<longleftrightarrow>
     m_state m \<noteq> FREED \<and> \<not> m_borrow_count m > 0 \<and> (m_state m = SHARED \<or> m_owner_thread m = self)"

lemma free_ok_bare [simp]: "free_ok self (bare m) = free_ok self m"
  by (simp add: free_ok_def)

lemma owner_free_internal_ok:
  assumes rep: "rt_rep st L" and m: "get_meta st p = Inr (Some m)" and ok: "free_ok self m"
  defines "old \<equiv> quarantine st ! quarantine_tail st"
  obtains h hs where
    "owner_free_internal self p fl line st = Inr (st\<lparr>hdr := h, registry_heads := hs,
       quarantine := (quarantine st)[quarantine_tail st := meta_of p],
       quarantine_tail := (quarantine_tail st + 1) mod QUARANTINE_SIZE,
       chunks := (if old \<noteq> 0 then without_chunk old (chunks st) else chunks st),
       payload := (if old \<noteq> 0 then (payload st)(p \<mapsto> Filled 0xEF, user_ptr old := None)
                   else (payload st)(p \<mapsto> Filled 0xEF)),
       out := (if old \<noteq> 0 then out st @ [EvRelease old] else out st)\<rparr>)"
    and "reg_rep h hs (L(shard_of (meta_of p) := remove1 (meta_of p) (L (shard_of (meta_of p)))))"
    and "bare_hdr h = (if old \<noteq> 0 then (bare_hdr (hdr st))(old := None) else bare_hdr (hdr st))
                        (meta_of p \<mapsto> bare (freed_meta fl line m))"
    and "old \<noteq> meta_of p"
proof -
  let ?a = "meta_of p" and ?t = "quarantine_tail st"
  let ?L = "L(shard_of ?a := remove1 ?a (L (shard_of ?a)))"
  note mm = rt_rep_meta [OF rep m]
  have p0: "p \<noteq> 0" using m by (simp add: get_meta_Some)
  have reg: "registered L ?a" using mm(3) ok by (simp add: free_ok_def)
  have t: "?t < QUARANTINE_SIZE" using rep by (simp add: rt_rep_def)
  note B = rt_rep_blocks [OF rep]
  have oq: "old \<in> set (quarantine st)" using t blocks_invD(2) [OF B] by (simp add: old_def)
  have aq: "?a \<notin> set (quarantine st)"
    using blocks_inv_registered_not_quarantined [OF B] reg by simp
  have oa: "old \<noteq> ?a" using oq aq by auto
  let ?st1 = "put p (Filled 0xEF) (st\<lparr>hdr := (hdr st)(?a \<mapsto> freed_meta fl line m)\<rparr>)"
  have "reg_rep (hdr ?st1) (registry_heads ?st1) L"
    using rep mm(1) by (simp add: rt_rep_def reg_rep_upd_field)
  from this reg obtain h1 hs m1 where
    rem: "remove_meta ?a ?st1 = Inr (?st1\<lparr>hdr := h1, registry_heads := hs\<rparr>)"
    and rr: "reg_rep h1 hs ?L" and bh: "bare_hdr h1 = bare_hdr (hdr ?st1)"
    by (rule remove_meta_refines)
  have upd: "upd_hdr ?a (\<lambda>m. m\<lparr>m_state := FREED, m_free_file := Some (file_or_unknown fl),
      m_free_line := line\<rparr>) st = Inr (st\<lparr>hdr := (hdr st)(?a \<mapsto> freed_meta fl line m)\<rparr>)"
    using mm(1) by (simp add: upd_hdr_def freed_meta_def)
  have run: "owner_free_internal self p fl line st =
      quarantine_push ?a (?st1\<lparr>hdr := h1, registry_heads := hs\<rparr>)"
    using p0 m ok rem upd by (auto simp: owner_free_internal_def free_ok_def)
  show ?thesis
  proof (cases "old = 0")
    case True
    then show ?thesis
      using run rr bh oa
      by (intro that [where h = h1 and hs = hs]) (simp_all add: quarantine_push_def old_def put_def)
  next
    case False
    have inch: "old \<in> fst ` set (chunks st)"
      using blocks_inv_evict(2) [OF B t] False by (simp add: old_def)
    have "\<not> registered L old"
      using blocks_inv_registered_not_quarantined [OF B] oq by blast
    then have "\<not> registered ?L old" by (simp add: rt_rep_registered_remove [OF rep])
    then have rr': "reg_rep (h1(old := None)) hs ?L" by (rule reg_rep_upd_other [OF rr])
    have q: "quarantine_push ?a (?st1\<lparr>hdr := h1, registry_heads := hs\<rparr>) =
      Inr (st\<lparr>hdr := h1(old := None), registry_heads := hs,
         quarantine := (quarantine st)[?t := ?a],
         quarantine_tail := (?t + 1) mod QUARANTINE_SIZE,
         chunks := without_chunk old (chunks st),
         payload := (payload st)(p \<mapsto> Filled 0xEF, user_ptr old := None),
         out := out st @ [EvRelease old]\<rparr>)"
      using False inch by (simp add: quarantine_push_def sys_free_def old_def Let_def put_def)
    have "bare_hdr (h1(old := None)) =
        ((bare_hdr (hdr st))(old := None))(?a \<mapsto> bare (freed_meta fl line m))"
      using bh oa by (auto simp: fun_eq_iff)
    with run q rr' False oa show ?thesis by (intro that) auto
  qed
qed

text \<open>Release keeps the invariant, and the object view changes as the specification says.\<close>

lemma owner_free_internal_rep:
  assumes rep: "rt_rep st L" and m: "get_meta st p = Inr (Some m)" and ok: "free_ok self m"
    and res: "owner_free_internal self p fl line st = Inr st'"
  shows "rt_rep st' (L(shard_of (meta_of p) := remove1 (meta_of p) (L (shard_of (meta_of p)))))"
proof -
  let ?a = "meta_of p" and ?t = "quarantine_tail st"
  define old where "old = quarantine st ! ?t"
  note B = rt_rep_blocks [OF rep]
  note mm = rt_rep_meta [OF rep m]
  have t: "?t < QUARANTINE_SIZE" using rep by (simp add: rt_rep_def)
  have len: "length (quarantine st) = QUARANTINE_SIZE" using blocks_invD(2) [OF B] .
  have st: "m_state m \<noteq> FREED" using ok by (simp add: free_ok_def)
  have reg: "?a \<in> {a. registered L a}" using mm(3) st by simp
  have mb: "m_borrow_count m = 0" using mm(4) [OF st] ok by (simp add: live_meta_def free_ok_def)
  have dead: "dead_meta (bare (freed_meta fl line m))"
    using mb mm(2) by (simp add: dead_meta_def)
  obtain h hs where run: "owner_free_internal self p fl line st = Inr (st\<lparr>hdr := h, registry_heads := hs,
       quarantine := (quarantine st)[?t := ?a],
       quarantine_tail := (?t + 1) mod QUARANTINE_SIZE,
       chunks := (if old \<noteq> 0 then without_chunk old (chunks st) else chunks st),
       payload := (if old \<noteq> 0 then (payload st)(p \<mapsto> Filled 0xEF, user_ptr old := None)
                   else (payload st)(p \<mapsto> Filled 0xEF)),
       out := (if old \<noteq> 0 then out st @ [EvRelease old] else out st)\<rparr>)"
    and rr: "reg_rep h hs (L(shard_of ?a := remove1 ?a (L (shard_of ?a))))"
    and bh: "bare_hdr h = (if old \<noteq> 0 then (bare_hdr (hdr st))(old := None) else bare_hdr (hdr st))
                        (?a \<mapsto> bare (freed_meta fl line m))"
    and oa: "old \<noteq> ?a"
    unfolding old_def by (rule owner_free_internal_ok [OF rep m ok])
  have hb: "bare_hdr (hdr st) ?a = Some (bare m)" using mm(1) by (simp add: bare_hdr_def)
  have R: "{a. registered L a} - {?a} =
      {b. registered (L(shard_of ?a := remove1 ?a (L (shard_of ?a)))) b}"
    by (auto simp: rt_rep_registered_remove [OF rep])
  have ring: "(?t + 1) mod QUARANTINE_SIZE < QUARANTINE_SIZE" by (simp add: QUARANTINE_SIZE_def)
  have "blocks_inv (bare_hdr (hdr st')) ({a. registered L a} - {?a}) (quarantine st')
      (chunks st') (payload st')"
  proof (cases "old = 0")
    case True
    have "blocks_inv ((bare_hdr (hdr st))(?a \<mapsto> bare (freed_meta fl line m)))
        ({a. registered L a} - {?a}) ((quarantine st)[?t := ?a]) (chunks st) (payload st)"
      using blocks_inv_retire [OF B reg hb _ t _ dead] mb True by (simp add: old_def)
    then show ?thesis
      using run res bh True by (auto intro: blocks_inv_payload)
  next
    case False
    have E: "blocks_inv ((bare_hdr (hdr st))(old := None)) {a. registered L a}
        ((quarantine st)[?t := 0]) (without_chunk old (chunks st))
        ((payload st)(user_ptr old := None))"
      using blocks_inv_evict(1) [OF B t] False by (simp add: old_def)
    have "blocks_inv (((bare_hdr (hdr st))(old := None))(?a \<mapsto> bare (freed_meta fl line m)))
        ({a. registered L a} - {?a}) ((quarantine st)[?t := 0, ?t := ?a])
        (without_chunk old (chunks st)) ((payload st)(user_ptr old := None))"
      using blocks_inv_retire [OF E reg _ _ t _ dead] hb oa mb len t by simp
    then show ?thesis
      using run res bh False by (auto intro: blocks_inv_payload split: if_splits)
  qed
  then show ?thesis using run res rr R ring by (auto simp: rt_rep_def)
qed

lemma owner_free_internal_view:
  assumes rep: "rt_rep st L" and m: "get_meta st p = Inr (Some m)" and ok: "free_ok self m"
    and res: "owner_free_internal self p fl line st = Inr st'"
  defines "old \<equiv> quarantine st ! quarantine_tail st"
  shows "obj_at st' = (\<lambda>x. if x = p then Some (bare (freed_meta fl line m))
                           else if old \<noteq> 0 \<and> x = user_ptr old then None else obj_at st x)"
    and "payload st' = (\<lambda>x. if old \<noteq> 0 \<and> x = user_ptr old then None
                           else if x = p then Some (Filled 0xEF) else payload st x)"
    and "quarantine st' = (quarantine st)[quarantine_tail st := meta_of p]"
    and "quarantine_tail st' = (quarantine_tail st + 1) mod QUARANTINE_SIZE"
    and "rt.more st' = rt.more st" and "replies st' = replies st"
    and "old \<noteq> meta_of p"
proof -
  have p0: "p \<noteq> 0" and mag: "m_magic m = OWNEDC_MAGIC" using m by (auto simp: get_meta_Some)
  obtain h hs where run: "owner_free_internal self p fl line st = Inr (st\<lparr>hdr := h,
       registry_heads := hs, quarantine := (quarantine st)[quarantine_tail st := meta_of p],
       quarantine_tail := (quarantine_tail st + 1) mod QUARANTINE_SIZE,
       chunks := (if old \<noteq> 0 then without_chunk old (chunks st) else chunks st),
       payload := (if old \<noteq> 0 then (payload st)(p \<mapsto> Filled 0xEF, user_ptr old := None)
                   else (payload st)(p \<mapsto> Filled 0xEF)),
       out := (if old \<noteq> 0 then out st @ [EvRelease old] else out st)\<rparr>)"
    and bh: "bare_hdr h = (if old \<noteq> 0 then (bare_hdr (hdr st))(old := None) else bare_hdr (hdr st))
                        (meta_of p \<mapsto> bare (freed_meta fl line m))"
    and oa: "old \<noteq> meta_of p"
    unfolding old_def by (rule owner_free_internal_ok [OF rep m ok])
  note st' = res [unfolded run, simplified, symmetric]
  have po: "p \<noteq> user_ptr old" using oa by auto
  show "old \<noteq> meta_of p" by (rule oa)
  show "obj_at st' = (\<lambda>x. if x = p then Some (bare (freed_meta fl line m))
      else if old \<noteq> 0 \<and> x = user_ptr old then None else obj_at st x)"
    using p0 mag bh po by (auto simp: st' obj_at_bare_hdr fun_eq_iff meta_of_eq_conv)
  show "payload st' = (\<lambda>x. if old \<noteq> 0 \<and> x = user_ptr old then None
      else if x = p then Some (Filled 0xEF) else payload st x)"
    by (simp add: st' fun_eq_iff)
  show "quarantine st' = (quarantine st)[quarantine_tail st := meta_of p]"
    and "quarantine_tail st' = (quarantine_tail st + 1) mod QUARANTINE_SIZE"
    and "rt.more st' = rt.more st" and "replies st' = replies st"
    by (simp_all add: st')
qed

end
