(* ===== verification/RuntimeResize.thy ===== *)
theory RuntimeResize
  imports RuntimeOps
begin

text \<open>
  Resizing (\<open>owner_realloc\<close>) and the in-place ownership operations: their results, and that they
  keep the invariant.
\<close>

subsection \<open>Resizing\<close>

definition realloc_ok :: "tid \<Rightarrow> alloc_meta \<Rightarrow> bool" where
  "realloc_ok self m \<longleftrightarrow> m_state m \<noteq> FREED \<and> (m_state m = SHARED \<or> m_owner_thread m = self)"

lemma owner_realloc_internal_cases:
  assumes rep: "rt_rep st L" and m: "get_meta st p = Inr (Some m)" and ok: "realloc_ok self m"
    and sz: "sz \<noteq> 0"
  defines "a \<equiv> meta_of p"
  obtains (fail) rs h hs where
    "owner_realloc_internal self p sz fl line st =
       Inr (0, st\<lparr>hdr := h, registry_heads := hs, replies := rs\<rparr>)"
    and "reg_rep h hs (L(shard_of a := a # remove1 a (L (shard_of a))))"
    and "bare_hdr h = bare_hdr (hdr st)"
  | (wraps) "2 ^ 64 \<le> unat sz + 80"
    and "owner_realloc_internal self p sz fl line st = Inl (Undefined ''write past the block'')"
  | (moved) b rs h hs where
    "unat sz + 80 < 2 ^ 64"
    and "chunk_ok (without_chunk a (chunks st)) b (80 + unat sz)"
    and "owner_realloc_internal self p sz fl line st =
       Inr (user_ptr b, st\<lparr>hdr := h, registry_heads := hs, replies := rs,
         chunks := (b, 80 + unat sz) # without_chunk a (chunks st),
         payload := ((payload st)(p := None))
           (user_ptr b := map_option (resize_payload (unat (m_size m)) (unat sz)) (payload st p))\<rparr>)"
    and "reg_rep h hs
       ((L(shard_of a := remove1 a (L (shard_of a))))
          (shard_of b := b # (L(shard_of a := remove1 a (L (shard_of a)))) (shard_of b)))"
    and "bare_hdr h = ((bare_hdr (hdr st))(a := None))(b \<mapsto> bare (m\<lparr>m_size := sz\<rparr>))"
proof -
  let ?L = "L(shard_of a := remove1 a (L (shard_of a)))"
  note B = rt_rep_blocks [OF rep]
  note mm = rt_rep_meta [OF rep m, folded a_def]
  have p0: "p \<noteq> 0" using m by (simp add: get_meta_Some)
  have p: "user_ptr a = p" by (simp add: a_def)
  have reg: "registered L a" using mm(3) ok by (simp add: realloc_ok_def)
  have hb: "bare_hdr (hdr st) a = Some (bare m)" using mm(1) by (simp add: bare_hdr_def)
  have own: "(a, 80 + unat (m_size m)) \<in> set (chunks st)"
    using blocks_invD(6) [OF B hb] mm(2) by (simp add: owns_block_def)
  have len: "map_of (chunks st) a = Some (80 + unat (m_size m))"
    using own chunks_inv_map_of [OF blocks_invD(7) [OF B]] by blast
  let ?n = "unat (sizeof_meta + sz)"
  have u: "unat sizeof_meta = 80" by (simp add: sizeof_meta_def)
  have n: "?n = 80 + unat sz" if "unat sz + 80 < 2 ^ 64"
    using that by (subst unat_add_no_overflow) (simp_all add: sizeof_meta_def)
  have nw: "?n < 80 + unat sz" if "2 ^ 64 \<le> unat sz + 80"
    using that unat_lt_2p64 [of "sizeof_meta + sz"] by simp
  have a0: "a \<noteq> 0" using blocks_inv_nonnull [OF B hb] mm(2) by simp
  have "reg_rep (hdr st) (registry_heads st) L" using rep by (simp add: rt_rep_def)
  from this reg obtain h1 hs1 m1 where
    rem: "remove_meta a st = Inr (st\<lparr>hdr := h1, registry_heads := hs1\<rparr>)"
    and rr1: "reg_rep h1 hs1 ?L" and bh1: "bare_hdr h1 = bare_hdr (hdr st)"
    and m1: "h1 a = Some m1"
    by (rule remove_meta_refines)
  let ?st1 = "st\<lparr>hdr := h1, registry_heads := hs1\<rparr>"
  have nra: "\<not> registered ?L a" by (simp add: rt_rep_registered_remove [OF rep])
  have bm1: "bare m1 = bare m" using bh1 m1 hb by (metis bare_hdr_def option.inject option.map(2))
  have run: "owner_realloc_internal self p sz fl line st =
      bindE (sys_realloc a (sizeof_meta + sz) ?st1) (\<lambda>(new, st).
        if new = 0 then bindE (insert_meta (meta_of p) st) (\<lambda>st. Inr (0, st))
        else if ?n < unat sizeof_meta + unat sz then Inl (Undefined ''write past the block'')
        else bindE (upd_hdr new (\<lambda>m. m\<lparr>m_size := sz\<rparr>) st) (\<lambda>st.
             bindE (insert_meta new st) (\<lambda>st. Inr (user_ptr new, st))))"
    using p0 sz m ok rem
    by (auto simp: owner_realloc_internal_def realloc_ok_def simp flip: a_def)
  have failed: ?thesis
    if "sys_realloc a (sizeof_meta + sz) ?st1 = Inr (0, ?st1\<lparr>replies := rs\<rparr>)" for rs
  proof -
    let ?st2 = "?st1\<lparr>replies := rs\<rparr>"
    have "reg_rep (hdr ?st2) (registry_heads ?st2) ?L" "hdr ?st2 a = Some m1"
      using rr1 m1 by simp_all
    from this a0 nra obtain h hs where
      "insert_meta a ?st2 = Inr (?st2\<lparr>hdr := h, registry_heads := hs\<rparr>)"
      and "reg_rep h hs (?L(shard_of a := a # ?L (shard_of a)))"
      and "bare_hdr h = bare_hdr (hdr ?st2)"
      by (rule insert_meta_refines)
    with run that bh1 a_def show ?thesis by (intro fail [where h = h and hs = hs and rs = rs]) simp_all
  qed
  show ?thesis
  proof (cases "replies st")
    case Nil
    then have "sys_realloc a (sizeof_meta + sz) ?st1 = Inr (0, ?st1\<lparr>replies := []\<rparr>)"
      using len by (simp add: sys_realloc_def)
    then show ?thesis by (rule failed)
  next
    case (Cons b rs)
    show ?thesis
    proof (cases "chunk_ok (without_chunk a (chunks st)) b ?n")
      case False
      then have "sys_realloc a (sizeof_meta + sz) ?st1 = Inr (0, ?st1\<lparr>replies := rs\<rparr>)"
        using len Cons by (simp add: sys_realloc_def)
      then show ?thesis by (rule failed)
    next
      case okn: True
      show ?thesis
      proof (cases "unat sz + 80 < 2 ^ 64")
        case False
        have "b \<noteq> 0" using okn by (simp add: chunk_ok_def)
        with False run nw len Cons okn u show ?thesis
          by (intro wraps) (simp_all add: sys_realloc_def)
      next
      case small: True
      have True: "chunk_ok (without_chunk a (chunks st)) b (80 + unat sz)"
        using okn n [OF small] by simp
      let ?pl = "((payload st)(p := None))
           (user_ptr b := map_option (resize_payload (unat (m_size m)) (unat sz)) (payload st p))"
      let ?cs = "(b, 80 + unat sz) # without_chunk a (chunks st)"
      let ?st2 = "st\<lparr>hdr := (h1(a := None))(b \<mapsto> m1\<lparr>m_size := sz\<rparr>), registry_heads := hs1,
          replies := rs, chunks := ?cs, payload := ?pl\<rparr>"
      have b0: "b \<noteq> 0" using True by (simp add: chunk_ok_def)
      have nrb: "\<not> registered ?L b"
      proof
        assume "registered ?L b"
        then have "b \<noteq> a" "registered L b" by (simp_all add: rt_rep_registered_remove [OF rep])
        then obtain x where "bare_hdr (hdr st) b = Some x" "live_meta x"
          using blocks_invD(1) [OF B, of b] by auto
        then have "(b, 80 + unat (m_size x)) \<in> set (chunks st)"
          using blocks_invD(6) [OF B] by (auto simp: owns_block_def live_meta_def)
        with chunk_ok_notin [OF True] \<open>b \<noteq> a\<close> show False by force
      qed
      have s1: "sys_realloc a (sizeof_meta + sz) ?st1 =
          Inr (b, ?st1\<lparr>replies := rs, chunks := ?cs, hdr := (h1(a := None))(b \<mapsto> m1),
                  payload := ?pl\<rparr>)"
        using len Cons n [OF small] True m1 by (simp add: sys_realloc_def p)
      have s2: "upd_hdr b (\<lambda>m. m\<lparr>m_size := sz\<rparr>)
          (?st1\<lparr>replies := rs, chunks := ?cs, hdr := (h1(a := None))(b \<mapsto> m1), payload := ?pl\<rparr>) =
          Inr ?st2"
        by (simp add: upd_hdr_def)
      have "reg_rep (hdr ?st2) (registry_heads ?st2) ?L"
        using rr1 nra nrb by (simp add: reg_rep_upd_other)
      moreover have "hdr ?st2 b = Some (m1\<lparr>m_size := sz\<rparr>)" by simp
      ultimately obtain h hs where
        ins: "insert_meta b ?st2 = Inr (?st2\<lparr>hdr := h, registry_heads := hs\<rparr>)"
        and rr: "reg_rep h hs (?L(shard_of b := b # ?L (shard_of b)))"
        and bh: "bare_hdr h = bare_hdr (hdr ?st2)"
        using b0 nrb by (rule insert_meta_refines)
      have "bare (m1\<lparr>m_size := sz\<rparr>) = bare (m\<lparr>m_size := sz\<rparr>)"
        using bm1 by (cases m1; cases m) (simp add: bare_def)
      then have bh': "bare_hdr h = ((bare_hdr (hdr st))(a := None))(b \<mapsto> bare (m\<lparr>m_size := sz\<rparr>))"
        using bh bh1 by simp
      have "owner_realloc_internal self p sz fl line st =
          Inr (user_ptr b, ?st2\<lparr>hdr := h, registry_heads := hs\<rparr>)"
        using run s1 s2 ins b0 n [OF small] u by simp
      then show ?thesis using True small rr bh'
        by (intro moved [where b = b and h = h and hs = hs and rs = rs]) simp_all
      qed
    qed
  qed
qed


text \<open>Resizing keeps the invariant, whether it moved the object, failed or was refused.\<close>

lemma owner_realloc_internal_rep:
  assumes rep: "rt_rep st L" and m: "get_meta st p = Inr (Some m)" and ok: "realloc_ok self m"
    and sz: "sz \<noteq> 0" and res: "owner_realloc_internal self p sz fl line st = Inr (q, st')"
  shows "rt_inv st'"
  using rep m ok sz
proof (cases rule: owner_realloc_internal_cases [where fl = fl and line = line])
  case (fail rs h hs)
  let ?a = "meta_of p"
  have reg: "registered L ?a" using rt_rep_meta(3) [OF rep m] ok by (simp add: realloc_ok_def)
  have d: "distinct (L (shard_of ?a))"
    using rep by (auto simp: rt_rep_def dest: reg_repD(2) [OF _ shard_of_less])
  let ?L' = "L(shard_of ?a := ?a # remove1 ?a (L (shard_of ?a)))"
  have "registered ?L' = registered L" using reg d by (auto simp: registered_def fun_eq_iff)
  then have "rt_rep st' ?L'" using res fail rep by (auto simp: rt_rep_def)
  then show ?thesis by (auto simp: rt_inv_def)
next
  case wraps
  with res show ?thesis by simp
next
  case (moved b rs h hs)
  let ?a = "meta_of p"
  let ?L = "L(shard_of ?a := remove1 ?a (L (shard_of ?a)))"
  let ?L' = "?L(shard_of b := b # ?L (shard_of b))"
  note B = rt_rep_blocks [OF rep]
  have st: "m_state m \<noteq> FREED" using ok by (simp add: realloc_ok_def)
  have reg: "?a \<in> {a. registered L a}" using rt_rep_meta(3) [OF rep m] st by simp
  have h: "bare_hdr (hdr st) ?a = Some (bare m)" "m_magic m = OWNEDC_MAGIC"
    using rt_rep_meta(1,2) [OF rep m] by (simp_all add: bare_hdr_def)
  have lv: "live_meta (bare (m\<lparr>m_size := sz\<rparr>))"
    using rt_rep_meta(4) [OF rep m st] by (simp add: live_meta_def)
  obtain x where x: "payload st p = Some x"
    using blocks_invD(6) [OF B h(1)] h(2) by (auto simp: owns_block_def)
  have "blocks_inv (bare_hdr h) (insert b ({a. registered L a} - {?a})) (quarantine st)
      ((b, 80 + unat sz) # without_chunk ?a (chunks st))
      (((payload st)(user_ptr ?a := None))
         (user_ptr b \<mapsto> resize_payload (unat (m_size m)) (unat sz) x))"
    using blocks_inv_move [OF B reg h(1) moved(2) _ lv] moved(5) by simp
  moreover have "insert b ({a. registered L a} - {?a}) = {c. registered ?L' c}"
    unfolding set_eq_iff mem_Collect_eq registered_insert rt_rep_registered_remove [OF rep] by blast
  ultimately have "rt_rep st' ?L'"
    using res moved rep x by (auto simp: rt_rep_def)
  then show ?thesis by (auto simp: rt_inv_def)
qed

text \<open>The object view after resizing.\<close>

lemma owner_realloc_internal_view:
  assumes rep: "rt_rep st L" and m: "get_meta st p = Inr (Some m)" and ok: "realloc_ok self m"
    and sz: "sz \<noteq> 0" and res: "owner_realloc_internal self p sz fl line st = Inr (q, st')"
  shows "obj_at st' = (if q = 0 then obj_at st
           else ((obj_at st)(p := None))(q \<mapsto> bare (m\<lparr>m_size := sz\<rparr>)))"
    and "payload st' = (if q = 0 then payload st
           else ((payload st)(p := None))
             (q := map_option (resize_payload (unat (m_size m)) (unat sz)) (payload st p)))"
    and "chunks st' = (if q = 0 then chunks st
           else (meta_of q, 80 + unat sz) # without_chunk (meta_of p) (chunks st))"
    and "quarantine st' = quarantine st" and "quarantine_tail st' = quarantine_tail st"
    and "rt.more st' = rt.more st" and "out st' = out st"
    and "q \<noteq> 0 \<Longrightarrow> unat sz + 80 < 2 ^ 64"
    and "q \<noteq> 0 \<Longrightarrow> chunk_ok (without_chunk (meta_of p) (chunks st)) (meta_of q) (80 + unat sz)"
proof -
  have p0: "p \<noteq> 0" and mag: "m_magic m = OWNEDC_MAGIC" using m by (auto simp: get_meta_Some)
  have "obj_at st' = (if q = 0 then obj_at st
           else ((obj_at st)(p := None))(q \<mapsto> bare (m\<lparr>m_size := sz\<rparr>))) \<and>
    payload st' = (if q = 0 then payload st
           else ((payload st)(p := None))
             (q := map_option (resize_payload (unat (m_size m)) (unat sz)) (payload st p))) \<and>
    chunks st' = (if q = 0 then chunks st
           else (meta_of q, 80 + unat sz) # without_chunk (meta_of p) (chunks st)) \<and>
    quarantine st' = quarantine st \<and> quarantine_tail st' = quarantine_tail st \<and>
    rt.more st' = rt.more st \<and> out st' = out st \<and>
    (q \<noteq> 0 \<longrightarrow> unat sz + 80 < 2 ^ 64 \<and>
       chunk_ok (without_chunk (meta_of p) (chunks st)) (meta_of q) (80 + unat sz))"
    using rep m ok sz
  proof (cases rule: owner_realloc_internal_cases [where fl = fl and line = line])
    case (fail rs h hs)
    with res show ?thesis by (auto simp: fun_eq_iff obj_at_bare_hdr)
  next
    case wraps
    with res show ?thesis by simp
  next
    case (moved b rs h hs)
    have nz: "user_ptr b \<noteq> 0" using chunk_ok_user_ptr [OF moved(2)] .
    note r = res [unfolded moved(3), simplified]
    note st' = r [THEN conjunct2, symmetric] and q = r [THEN conjunct1, symmetric]
    have "obj_at st' = ((obj_at st)(p := None))(q \<mapsto> bare (m\<lparr>m_size := sz\<rparr>))"
      using nz moved(5) mag by (auto simp: st' q fun_eq_iff obj_at_bare_hdr meta_of_eq_conv)
    with nz moved(1,2) show ?thesis by (simp add: st' q)
  qed
  then show "obj_at st' = (if q = 0 then obj_at st
           else ((obj_at st)(p := None))(q \<mapsto> bare (m\<lparr>m_size := sz\<rparr>)))"
    and "payload st' = (if q = 0 then payload st
           else ((payload st)(p := None))
             (q := map_option (resize_payload (unat (m_size m)) (unat sz)) (payload st p)))"
    and "chunks st' = (if q = 0 then chunks st
           else (meta_of q, 80 + unat sz) # without_chunk (meta_of p) (chunks st))"
    and "quarantine st' = quarantine st" and "quarantine_tail st' = quarantine_tail st"
    and "rt.more st' = rt.more st" and "out st' = out st"
    and "q \<noteq> 0 \<Longrightarrow> unat sz + 80 < 2 ^ 64"
    and "q \<noteq> 0 \<Longrightarrow> chunk_ok (without_chunk (meta_of p) (chunks st)) (meta_of q) (80 + unat sz)"
    by simp_all
qed

subsection \<open>Operations in place\<close>

lemma upd_hdr_Some: "hdr st a = Some m \<Longrightarrow> upd_hdr a f st = Inr (st\<lparr>hdr := (hdr st)(a \<mapsto> f m)\<rparr>)"
  by (simp add: upd_hdr_def)

lemma get_metaD: "get_meta st p = Inr (Some m) \<Longrightarrow> p \<noteq> 0 \<and> hdr st (meta_of p) = Some m"
  by (simp add: get_meta_Some)

definition borrowed_meta :: "alloc_meta \<Rightarrow> alloc_meta" where
  "borrowed_meta m = m\<lparr>m_borrow_count := m_borrow_count m + 1,
                       m_state := (if m_state m \<noteq> SHARED then BORROWED else m_state m)\<rparr>"

definition released_meta :: "alloc_meta \<Rightarrow> alloc_meta" where
  "released_meta m = m\<lparr>m_borrow_count := m_borrow_count m - 1,
     m_state := (if m_borrow_count m - 1 = 0 \<and> m_state m = BORROWED then OWNED else m_state m)\<rparr>"

definition claimed_meta :: "tid \<Rightarrow> alloc_meta \<Rightarrow> alloc_meta" where
  "claimed_meta self m = m\<lparr>m_owner_thread := self, m_state := OWNED\<rparr>"

definition shared_meta :: "alloc_meta \<Rightarrow> alloc_meta" where
  "shared_meta m = m\<lparr>m_state := SHARED\<rparr>"

lemmas changed_meta_defs = borrowed_meta_def released_meta_def claimed_meta_def shared_meta_def

definition hdr_set :: "addr \<Rightarrow> alloc_meta \<Rightarrow> 'x rt_scheme \<Rightarrow> 'x rt_scheme" where
  "hdr_set p m st = st\<lparr>hdr := (hdr st)(meta_of p \<mapsto> m)\<rparr>"

lemma hdr_set_simps [simp]:
  "chunks (hdr_set p m st) = chunks st" "replies (hdr_set p m st) = replies st"
  "payload (hdr_set p m st) = payload st" "registry_heads (hdr_set p m st) = registry_heads st"
  "quarantine (hdr_set p m st) = quarantine st"
  "quarantine_tail (hdr_set p m st) = quarantine_tail st"
  "out (hdr_set p m st) = out st" "rt.more (hdr_set p m st) = rt.more st"
  by (simp_all add: hdr_set_def)

text \<open>Each operation on a tracked pointer: its errors in the order of the guards, then its effect.\<close>

lemma ownership_claim_tracked:
  "get_meta st p = Inr (Some m) \<Longrightarrow>
   ownership_claim self p st = Inr (hdr_set p (claimed_meta self m) st)"
  using get_metaD [of st p m]
  by (simp add: ownership_claim_def upd_hdr_Some claimed_meta_def hdr_set_def)

lemma ownership_borrow_tracked:
  "get_meta st p = Inr (Some m) \<Longrightarrow>
   ownership_borrow self p st =
     (if m_state m = FREED then Inl (Fatal ''Use-after-free (Borrow on freed pointer)'' p None 0)
      else if m_state m \<noteq> SHARED \<and> m_owner_thread m \<noteq> self
      then Inl (Fatal ''Thread Ownership Violation (Borrow)'' p None 0)
      else if m_borrow_count m = INT_MAX then Inl (Undefined ''signed overflow'')
      else Inr (hdr_set p (borrowed_meta m) st))"
  using get_metaD [of st p m]
  by (simp add: ownership_borrow_def upd_hdr_Some borrowed_meta_def hdr_set_def)

lemma ownership_release_tracked:
  "get_meta st p = Inr (Some m) \<Longrightarrow>
   ownership_release p st =
     (if m_borrow_count m > 0 then Inr (hdr_set p (released_meta m) st)
      else Inl (Fatal ''Release without borrow'' p None 0))"
  using get_metaD [of st p m]
  by (simp add: ownership_release_def upd_hdr_Some released_meta_def hdr_set_def)

lemma ownership_share_tracked:
  "get_meta st p = Inr (Some m) \<Longrightarrow>
   ownership_share self p st =
     (if m_owner_thread m \<noteq> self
      then Inl (Fatal ''Thread Ownership Violation (Share must be called by owner)'' p None 0)
      else Inr (hdr_set p (shared_meta m) st))"
  using get_metaD [of st p m]
  by (simp add: ownership_share_def upd_hdr_Some shared_meta_def hdr_set_def)

lemmas ownership_tracked =
  ownership_claim_tracked ownership_borrow_tracked ownership_release_tracked ownership_share_tracked

lemma hdr_set_rep:
  assumes "rt_rep st L" and "get_meta st p = Inr (Some m)" and "m_state m \<noteq> FREED"
    and "live_meta m'" and "m_size m' = m_size m" and "m_prev m' = m_prev m" and "m_next m' = m_next m"
  shows "rt_rep (hdr_set p m' st) L"
  unfolding hdr_set_def using assms rt_rep_meta [OF assms(1,2)]
  by (intro rt_rep_update) auto

lemma hdr_set_view:
  assumes "get_meta st p = Inr (Some m)" and "m_magic m' = OWNEDC_MAGIC"
  shows "obj_at (hdr_set p m' st) = (obj_at st)(p \<mapsto> bare m')"
  using assms by (auto simp: hdr_set_def obj_at_def get_meta_Some fun_eq_iff)

lemma live_meta_changed:
  assumes "live_meta m"
  shows "m_borrow_count m < INT_MAX \<Longrightarrow> live_meta (borrowed_meta m)"
    and "0 < m_borrow_count m \<Longrightarrow> live_meta (released_meta m)"
    and "live_meta (claimed_meta self m)" and "live_meta (shared_meta m)"
  using assms by (auto simp: changed_meta_defs live_meta_def)

lemma changed_meta_fields [simp]:
  "m_size (borrowed_meta m) = m_size m" "m_prev (borrowed_meta m) = m_prev m"
  "m_next (borrowed_meta m) = m_next m" "m_magic (borrowed_meta m) = m_magic m"
  "m_size (released_meta m) = m_size m" "m_prev (released_meta m) = m_prev m"
  "m_next (released_meta m) = m_next m" "m_magic (released_meta m) = m_magic m"
  "m_size (claimed_meta self m) = m_size m" "m_prev (claimed_meta self m) = m_prev m"
  "m_next (claimed_meta self m) = m_next m" "m_magic (claimed_meta self m) = m_magic m"
  "m_size (shared_meta m) = m_size m" "m_prev (shared_meta m) = m_prev m"
  "m_next (shared_meta m) = m_next m" "m_magic (shared_meta m) = m_magic m"
  by (simp_all add: changed_meta_defs)

lemma bare_changed_meta:
  "bare (borrowed_meta (bare m)) = bare (borrowed_meta m)"
  "bare (released_meta (bare m)) = bare (released_meta m)"
  "bare (claimed_meta self (bare m)) = bare (claimed_meta self m)"
  "bare (shared_meta (bare m)) = bare (shared_meta m)"
  by (simp_all add: changed_meta_defs bare_def)

end
