(* ===== verification/Quarantine.thy ===== *)
theory Quarantine
  imports RuntimeResize
begin

text \<open>
  The quarantine of freed blocks.  The contract is the locale \<open>bounded_fifo\<close>: a queue that keeps
  the last \<open>cap\<close> entries and gives the oldest one up when it is full.  The ring buffer of
  \<open>runtime.c\<close> (an array of \<open>QUARANTINE_SIZE\<close> slots and a tail index) is shown to meet it.
\<close>

locale bounded_fifo =
  fixes contents :: "'q \<Rightarrow> 'a list"
    and invar :: "'q \<Rightarrow> bool"
    and push :: "'a \<Rightarrow> 'q \<Rightarrow> 'q"
    and evicts :: "'q \<Rightarrow> 'a option"
    and valid :: "'a \<Rightarrow> bool"
    and cap :: nat
  assumes cap_pos: "0 < cap"
    and contents_le: "invar q \<Longrightarrow> length (contents q) \<le> cap"
    and invar_push: "invar q \<Longrightarrow> valid x \<Longrightarrow> invar (push x q)"
    and contents_push: "invar q \<Longrightarrow> valid x \<Longrightarrow>
      contents (push x q) =
        (if length (contents q) < cap then contents q else tl (contents q)) @ [x]"
    and evicts_eq: "invar q \<Longrightarrow>
      evicts q = (if length (contents q) < cap then None else Some (hd (contents q)))"
begin

fun push_all :: "'a list \<Rightarrow> 'q \<Rightarrow> 'q" where
  "push_all [] q = q"
| "push_all (x # xs) q = push_all xs (push x q)"

lemma invar_push_all: "invar q \<Longrightarrow> list_all valid xs \<Longrightarrow> invar (push_all xs q)"
  by (induction xs arbitrary: q) (auto intro: invar_push)

text \<open>The contents are the last \<open>cap\<close> entries of everything that was pushed.\<close>

lemma contents_push_all:
  "invar q \<Longrightarrow> list_all valid xs \<Longrightarrow>
   contents (push_all xs q) =
     drop (length (contents q) + length xs - cap) (contents q @ xs)"
proof (induction xs arbitrary: q)
  case Nil
  then show ?case using contents_le [of q] by simp
next
  case (Cons x xs)
  then have ih: "contents (push_all xs (push x q)) =
      drop (length (contents (push x q)) + length xs - cap) (contents (push x q) @ xs)"
    by (simp add: invar_push)
  show ?case
  proof (cases "length (contents q) < cap")
    case True
    with Cons.prems ih show ?thesis by (simp add: contents_push)
  next
    case False
    then have full: "length (contents q) = cap" using contents_le [of q] Cons.prems by simp
    then obtain y ys where y: "contents q = y # ys" using cap_pos by (cases "contents q") auto
    with full have "cap = Suc (length ys)" by simp
    with Cons.prems ih y show ?thesis by (simp add: contents_push)
  qed
qed

text \<open>An entry survives fewer than \<open>cap\<close> later ones.\<close>

lemma in_window:
  assumes "invar q" and "valid x" and "list_all valid xs" and "length xs < cap"
  shows "x \<in> set (contents (push_all xs (push x q)))"
proof -
  have "contents (push_all (x # xs) q) =
      drop (length (contents q) + length (x # xs) - cap) (contents q @ x # xs)"
    using assms by (intro contents_push_all) simp_all
  moreover have "length (contents q) + length (x # xs) - cap \<le> length (contents q)"
    using assms(4) by simp
  ultimately show ?thesis by simp
qed

end

subsection \<open>The ring buffer\<close>

type_synonym ring = "addr list \<times> nat"

lemma filter_ne_id [simp]: "z \<notin> set xs \<Longrightarrow> filter (\<lambda>a. a \<noteq> z) xs = xs"
  by (induction xs) auto

definition ring_of :: "'x rt_scheme \<Rightarrow> ring" where
  "ring_of st = (quarantine st, quarantine_tail st)"

fun ring_push :: "addr \<Rightarrow> ring \<Rightarrow> ring" where
  "ring_push a (q, t) = (q[t := a], (t + 1) mod QUARANTINE_SIZE)"

fun ring_evicts :: "ring \<Rightarrow> addr option" where
  "ring_evicts (q, t) = (if q ! t \<noteq> 0 then Some (q ! t) else None)"

text \<open>Oldest entry first.\<close>

fun ring_contents :: "ring \<Rightarrow> addr list" where
  "ring_contents (q, t) = filter (\<lambda>a. a \<noteq> 0) (drop t q @ take t q)"

text \<open>Until the ring has wrapped once the slots from the tail on are empty; afterwards none is.\<close>

fun ring_inv :: "ring \<Rightarrow> bool" where
  "ring_inv (q, t) \<longleftrightarrow>
     length q = QUARANTINE_SIZE \<and> t < QUARANTINE_SIZE \<and>
     0 \<notin> set (take t q) \<and> (set (drop t q) \<subseteq> {0} \<or> 0 \<notin> set (drop t q))"

lemma ring_contents_partial:
  assumes "ring_inv (q, t)" and "set (drop t q) \<subseteq> {0}"
  shows "ring_contents (q, t) = take t q"
proof -
  have "filter (\<lambda>a. a \<noteq> 0) (drop t q) = []" using assms(2) by (auto simp: filter_empty_conv)
  moreover have "filter (\<lambda>a. a \<noteq> 0) (take t q) = take t q"
    using assms(1) by (auto simp: filter_id_conv)
  ultimately show ?thesis by simp
qed

lemma ring_contents_full:
  assumes "ring_inv (q, t)" and "0 \<notin> set (drop t q)"
  shows "ring_contents (q, t) = drop t q @ take t q"
  using assms by (auto simp: filter_id_conv)

lemma ring_split: "t < length q \<Longrightarrow> drop t q = q ! t # drop (t + 1) q"
  by (simp add: Cons_nth_drop_Suc)

lemma ring_full_iff:
  assumes "ring_inv (q, t)"
  shows "length (ring_contents (q, t)) < QUARANTINE_SIZE \<longleftrightarrow> q ! t = 0"
proof (cases "set (drop t q) \<subseteq> {0}")
  case True
  then have "q ! t = 0" using assms ring_split [of t q] by simp
  then show ?thesis using assms ring_contents_partial [OF assms True] by simp
next
  case False
  then have f: "0 \<notin> set (drop t q)" using assms by simp
  then have "q ! t \<noteq> 0" using assms ring_split [of t q] by auto
  then show ?thesis using assms ring_contents_full [OF assms f] by simp
qed

lemma ring_inv_push:
  assumes "ring_inv (q, t)" and "a \<noteq> 0"
  shows "ring_inv (ring_push a (q, t))"
    and "ring_contents (ring_push a (q, t)) =
      (if q ! t = 0 then ring_contents (q, t) else tl (ring_contents (q, t))) @ [a]"
proof -
  have len: "length q = QUARANTINE_SIZE" "t < QUARANTINE_SIZE" using assms(1) by auto
  have tk: "take (Suc t) (q[t := a]) = take t q @ [a]"
    using len by (simp add: take_Suc_conv_app_nth)
  have dr: "drop (Suc t) (q[t := a]) = drop (Suc t) q" by simp
  have sp: "drop t q = q ! t # drop (Suc t) q" using len ring_split [of t q] by simp
  have "ring_inv (ring_push a (q, t)) \<and> ring_contents (ring_push a (q, t)) =
      (if q ! t = 0 then ring_contents (q, t) else tl (ring_contents (q, t))) @ [a]"
  proof (cases "Suc t = QUARANTINE_SIZE")
    case True
    then have all: "q[t := a] = take t q @ [a]" using tk len by (metis length_list_update take_all_iff le_refl)
    have d1: "drop (Suc t) q = []" using True len by simp
    have push: "ring_push a (q, t) = (take t q @ [a], 0)" using True all by simp
    show ?thesis
      unfolding push using assms len sp d1 True
      by (auto simp: filter_id_conv)
  next
    case False
    then have push: "ring_push a (q, t) = (q[t := a], Suc t)" using len by simp
    show ?thesis
      unfolding push using assms len sp tk dr False
      by (auto simp: filter_id_conv filter_empty_conv)
  qed
  then show "ring_inv (ring_push a (q, t))"
    and "ring_contents (ring_push a (q, t)) =
      (if q ! t = 0 then ring_contents (q, t) else tl (ring_contents (q, t))) @ [a]"
    by (rule conjunct1, rule conjunct2)
qed

interpretation quarantine_ring:
  bounded_fifo ring_contents ring_inv ring_push ring_evicts "\<lambda>a. a \<noteq> 0" QUARANTINE_SIZE
proof
  show "0 < QUARANTINE_SIZE" by (simp add: QUARANTINE_SIZE_def)
  fix q :: ring and x :: addr
  assume inv: "ring_inv q"
  obtain c t where q: "q = (c, t)" by fastforce
  show le: "length (ring_contents q) \<le> QUARANTINE_SIZE"
    using inv length_filter_le [of "\<lambda>a. a \<noteq> 0" "drop t c @ take t c"] by (simp add: q)
  show "ring_evicts q = (if length (ring_contents q) < QUARANTINE_SIZE then None
      else Some (hd (ring_contents q)))"
  proof (cases "c ! t = 0")
    case False
    then have "0 \<notin> set (drop t c)" using inv ring_split [of t c] by (auto simp: q)
    then have "hd (ring_contents q) = c ! t"
      using inv ring_contents_full [of c t] ring_split [of t c] by (simp add: q)
    with False inv ring_full_iff [of c t] show ?thesis by (simp add: q)
  qed (use inv ring_full_iff [of c t] in \<open>simp add: q\<close>)
  assume "x \<noteq> 0"
  then show "ring_inv (ring_push x q)" using ring_inv_push(1) inv unfolding q by blast
  show "ring_contents (ring_push x q) =
      (if length (ring_contents q) < QUARANTINE_SIZE then ring_contents q
       else tl (ring_contents q)) @ [x]"
    using ring_inv_push(2) ring_full_iff inv \<open>x \<noteq> 0\<close> unfolding q by (simp only:)
qed

lemma ring_inv_init: "ring_inv (replicate QUARANTINE_SIZE 0, 0)"
  by (simp add: QUARANTINE_SIZE_def)

lemma ring_contents_quarantine: "set (ring_contents (q, t)) = set q - {0}"
proof -
  have "set q = set (take t q) \<union> set (drop t q)"
    by (metis append_take_drop_id set_append)
  then show ?thesis by auto
qed

end
