(* ===== verification/Calls.thy ===== *)
theory Calls
  imports Quarantine
begin

text \<open>
  Runs of the public API of \<open>ownedc.h\<close>: a call is one of its state-changing functions, executed by
  some thread.  The invariant of the runtime holds in every state that calls can reach, as long
  as \<open>ownership_claim\<close> and \<open>ownership_share\<close> are not applied to a freed pointer (the two functions
  have no check of their own for it).
\<close>

datatype call =
    CMalloc size_t
  | CCalloc size_t size_t
  | CRealloc addr size_t
  | CFree addr
  | CClaim addr
  | CBorrow addr
  | CRelease addr
  | CShare addr
  | CTransfer addr addr

definition void :: "failure + 's \<Rightarrow> failure + (addr \<times> 's)" where
  "void m = bindE m (\<lambda>st. Inr (0, st))"

fun exec :: "tid \<Rightarrow> call \<Rightarrow> 'x rt_scheme \<Rightarrow> failure + (addr \<times> 'x rt_scheme)" where
  "exec self (CMalloc n) st = owner_malloc self n st"
| "exec self (CCalloc k n) st = owner_calloc self k n st"
| "exec self (CRealloc p n) st = owner_realloc self p n st"
| "exec self (CFree p) st = void (owner_free self p st)"
| "exec self (CClaim p) st = void (ownership_claim self p st)"
| "exec self (CBorrow p) st = void (ownership_borrow self p st)"
| "exec self (CRelease p) st = void (ownership_release p st)"
| "exec self (CShare p) st = void (ownership_share self p st)"
| "exec self (CTransfer p q) st = void (ownership_transfer p q st)"

definition obeys :: "'x rt_scheme \<Rightarrow> call \<Rightarrow> bool" where
  "obeys st c \<longleftrightarrow>
     (case c of CClaim p \<Rightarrow> (p = 0 \<or> live st p) | CShare p \<Rightarrow> (p = 0 \<or> live st p) | _ \<Rightarrow> True)"

text \<open>A run: the calls in order, each by its thread; it stops at the first failure.\<close>

fun run :: "(tid \<times> call) list \<Rightarrow> 'x rt_scheme \<Rightarrow> failure + 'x rt_scheme" where
  "run [] st = Inr st"
| "run ((self, c) # cs) st = bindE (exec self c st) (\<lambda>(r, st). run cs st)"

fun obeys_all :: "(tid \<times> call) list \<Rightarrow> 'x rt_scheme \<Rightarrow> bool" where
  "obeys_all [] st = True"
| "obeys_all ((self, c) # cs) st \<longleftrightarrow>
     obeys st c \<and> (case exec self c st of Inl _ \<Rightarrow> True | Inr (r, st') \<Rightarrow> obeys_all cs st')"

definition rt_wf :: "'x rt_scheme \<Rightarrow> bool" where
  "rt_wf st \<longleftrightarrow> rt_inv st \<and> ring_inv (ring_of st)"

text \<open>The blocks a call sends to the quarantine.\<close>

fun retires :: "call \<Rightarrow> addr list" where
  "retires (CFree p) = (if p \<noteq> 0 then [meta_of p] else [])"
| "retires (CRealloc p n) = (if p \<noteq> 0 \<and> n = 0 then [meta_of p] else [])"
| "retires _ = []"

subsection \<open>Which guards a call that returns has passed\<close>

lemma owner_free_internal_InrD:
  assumes "owner_free_internal self p fl line st = Inr st'"
  obtains (null) "p = 0" "st' = st"
  | (freed) m where "p \<noteq> 0" "get_meta st p = Inr (Some m)" "free_ok self m"
  using assms
  by (auto simp: owner_free_internal_def free_ok_def bindE_eq_Inr
      split: if_splits option.splits)

lemma owner_realloc_internal_InrD:
  assumes "owner_realloc_internal self p sz fl line st = Inr (q, st')"
  obtains (malloc) "p = 0" "owner_malloc_internal self sz fl line st = Inr (q, st')"
  | (release) "p \<noteq> 0" "sz = 0" "q = 0" "owner_free_internal self p fl line st = Inr st'"
  | (resize) m where "p \<noteq> 0" "sz \<noteq> 0" "get_meta st p = Inr (Some m)" "realloc_ok self m"
  using assms
  by (auto simp: owner_realloc_internal_def realloc_ok_def bindE_eq_Inr
      split: if_splits option.splits)

lemma owner_malloc_internal_Inr_wraps:
  assumes "2 ^ 64 \<le> unat sz + 80" and "owner_malloc_internal self sz fl line st = Inr (p, st')"
  obtains rs where "p = 0" and "st' = st\<lparr>atexit_registered := True, replies := rs\<rparr>"
proof -
  obtain a st1 where m: "sys_malloc (sizeof_meta + sz) (st\<lparr>atexit_registered := True\<rparr>) = (a, st1)"
    by fastforce
  have "unat (sizeof_meta + sz) < 80 + unat sz"
    using assms(1) unat_lt_2p64 [of "sizeof_meta + sz"] by simp
  then have "a = 0 \<and> p = 0 \<and> st' = st1"
    using assms(2) m by (auto simp: owner_malloc_internal_alt sizeof_meta_def split: if_splits)
  with m that show ?thesis by (auto elim!: sys_malloc_cases)
qed

lemma rt_wf_same:
  assumes "rt_wf st"
  shows "rt_wf (st\<lparr>atexit_registered := ae, replies := rs\<rparr>)"
proof -
  obtain L where "rt_rep st L" using assms by (auto simp: rt_wf_def rt_inv_def)
  then have "rt_rep (st\<lparr>atexit_registered := ae, replies := rs\<rparr>) L" by (simp add: rt_rep_def)
  with assms show ?thesis by (auto simp: rt_wf_def rt_inv_def ring_of_def)
qed

subsection \<open>Preservation, function by function\<close>

lemma owner_malloc_internal_wf:
  assumes "rt_wf st" and "owner_malloc_internal self sz fl line st = Inr (p, st')"
  shows "rt_wf st' \<and> ring_of st' = ring_of st"
proof (cases "unat sz + 80 < 2 ^ 64")
  case False
  then have "2 ^ 64 \<le> unat sz + 80" by simp
  from this assms(2) obtain rs where "st' = st\<lparr>atexit_registered := True, replies := rs\<rparr>"
    by (rule owner_malloc_internal_Inr_wraps)
  with rt_wf_same [OF assms(1)] show ?thesis by (simp add: ring_of_def)
next
  case True
  obtain L where L: "rt_rep st L" using assms(1) by (auto simp: rt_wf_def rt_inv_def)
  have "rt_inv st'"
    using owner_malloc_internal_rep [OF L True assms(2)] by (cases "p = 0") (auto simp: rt_inv_def)
  then show ?thesis
    using assms(1) owner_malloc_internal_view(5,6) [OF L True assms(2)]
    by (simp add: rt_wf_def ring_of_def)
qed

lemma rt_wf_put: "rt_wf st \<Longrightarrow> rt_wf (put p x st)"
  by (auto simp: rt_wf_def rt_inv_def ring_of_def intro: rt_rep_put)

lemma ring_of_put [simp]: "ring_of (put p x st) = ring_of st"
  by (simp add: ring_of_def)

lemma owner_calloc_wf:
  assumes "rt_wf st" and "owner_calloc self k n st = Inr (p, st')"
  shows "rt_wf st' \<and> ring_of st' = ring_of st"
proof -
  obtain st1 where m: "owner_malloc_internal self (k * n) None 0 st = Inr (p, st1)"
    and st': "st' = (if p \<noteq> 0 then put p (Filled 0) st1 else st1)"
    using assms(2) by (auto simp: owner_calloc_def bindE_eq_Inr)
  show ?thesis
    using owner_malloc_internal_wf [OF assms(1) m] st' by (auto intro: rt_wf_put)
qed

lemma owner_free_internal_wf:
  assumes "rt_wf st" and "owner_free_internal self p fl line st = Inr st'"
  shows "rt_wf st' \<and> ring_of st' = (if p = 0 then ring_of st else ring_push (meta_of p) (ring_of st))"
  using assms(2)
proof (cases rule: owner_free_internal_InrD)
  case null
  with assms(1) show ?thesis by simp
next
  case (freed m)
  obtain L where L: "rt_rep st L" using assms(1) by (auto simp: rt_wf_def rt_inv_def)
  have r: "ring_of st' = ring_push (meta_of p) (ring_of st)"
    using owner_free_internal_view(3,4) [OF L freed(2,3) assms(2)] by (simp add: ring_of_def)
  have "hdr st (meta_of p) = Some m" "m_magic m = OWNEDC_MAGIC"
    using freed by (auto simp: get_meta_Some)
  then have "meta_of p \<noteq> 0"
    using blocks_inv_nonnull [OF rt_rep_blocks [OF L], of "meta_of p" "bare m"]
    by (auto simp: bare_hdr_def)
  then have "ring_inv (ring_of st')"
    using assms(1) quarantine_ring.invar_push by (simp add: r rt_wf_def)
  then show ?thesis
    using owner_free_internal_rep [OF L freed(2,3) assms(2)] freed(1) r
    by (auto simp: rt_wf_def rt_inv_def)
qed

lemma owner_realloc_internal_wf:
  assumes "rt_wf st" and "owner_realloc_internal self p sz fl line st = Inr (q, st')"
  shows "rt_wf st' \<and>
    ring_of st' = (if p \<noteq> 0 \<and> sz = 0 then ring_push (meta_of p) (ring_of st) else ring_of st)"
  using assms(2)
proof (cases rule: owner_realloc_internal_InrD)
  case malloc
  from owner_malloc_internal_wf [OF assms(1) malloc(2)] malloc(1) show ?thesis by simp
next
  case release
  with owner_free_internal_wf [OF assms(1)] show ?thesis by simp
next
  case (resize m)
  obtain L where L: "rt_rep st L" using assms(1) by (auto simp: rt_wf_def rt_inv_def)
  show ?thesis
    using owner_realloc_internal_rep [OF L resize(3,4,2) assms(2)] assms(1) resize(1,2)
      owner_realloc_internal_view(4,5) [OF L resize(3,4,2) assms(2)]
    by (simp add: rt_wf_def ring_of_def)
qed

lemma hdr_set_wf:
  assumes "rt_wf st" and "get_meta st p = Inr (Some m)" and "m_state m \<noteq> FREED"
    and "live_meta m \<Longrightarrow> live_meta m'" and "m_size m' = m_size m"
    and "m_prev m' = m_prev m" and "m_next m' = m_next m"
  shows "rt_wf (hdr_set p m' st) \<and> ring_of (hdr_set p m' st) = ring_of st"
proof -
  obtain L where L: "rt_rep st L" using assms(1) by (auto simp: rt_wf_def rt_inv_def)
  have "rt_rep (hdr_set p m' st) L"
    using assms rt_rep_meta(4) [OF L assms(2)] by (intro hdr_set_rep [OF L]) auto
  with assms(1) show ?thesis by (auto simp: rt_wf_def rt_inv_def ring_of_def)
qed

lemma obeys_state:
  assumes "p = 0 \<or> live st p" and "get_meta st p = Inr (Some m)"
  shows "m_state m \<noteq> FREED"
  using assms by (auto simp: get_meta_Some live_iff)

lemma ownership_claim_wf:
  assumes "rt_wf st" and "p = 0 \<or> live st p" and "ownership_claim self p st = Inr st'"
  shows "rt_wf st' \<and> ring_of st' = ring_of st"
proof (cases "p = 0")
  case True
  with assms show ?thesis by (simp add: ownership_claim_def)
next
  case False
  with assms(3) obtain m where m: "get_meta st p = Inr (Some m)"
    by (auto simp: ownership_claim_def bindE_eq_Inr split: option.splits)
  with assms(3) show ?thesis
    using hdr_set_wf [OF assms(1) m obeys_state [OF assms(2) m], of "claimed_meta self m"]
    by (simp add: ownership_claim_tracked live_meta_changed)
qed

lemma ownership_share_wf:
  assumes "rt_wf st" and "p = 0 \<or> live st p" and "ownership_share self p st = Inr st'"
  shows "rt_wf st' \<and> ring_of st' = ring_of st"
proof (cases "p = 0")
  case True
  with assms show ?thesis by (simp add: ownership_share_def)
next
  case False
  with assms(3) obtain m where m: "get_meta st p = Inr (Some m)"
    by (auto simp: ownership_share_def bindE_eq_Inr split: option.splits)
  with assms(3) show ?thesis
    using hdr_set_wf [OF assms(1) m obeys_state [OF assms(2) m], of "shared_meta m"]
    by (simp add: ownership_share_tracked live_meta_changed split: if_splits)
qed

lemma ownership_borrow_wf:
  assumes "rt_wf st" and "ownership_borrow self p st = Inr st'"
  shows "rt_wf st' \<and> ring_of st' = ring_of st"
proof (cases "p = 0")
  case True
  with assms show ?thesis by (simp add: ownership_borrow_def)
next
  case False
  with assms(2) obtain m where m: "get_meta st p = Inr (Some m)"
    by (auto simp: ownership_borrow_def bindE_eq_Inr split: option.splits)
  with assms(2) have st: "m_state m \<noteq> FREED" "m_borrow_count m \<noteq> INT_MAX"
    and st': "st' = hdr_set p (borrowed_meta m) st"
    by (auto simp: ownership_borrow_tracked split: if_splits)
  have "live_meta m \<Longrightarrow> live_meta (borrowed_meta m)"
    using st(2) by (intro live_meta_changed(1)) (auto simp: live_meta_def)
  then show ?thesis using hdr_set_wf [OF assms(1) m st(1), of "borrowed_meta m"] st' by simp
qed

lemma ownership_release_wf:
  assumes "rt_wf st" and "ownership_release p st = Inr st'"
  shows "rt_wf st' \<and> ring_of st' = ring_of st"
proof (cases "p = 0")
  case True
  with assms show ?thesis by (simp add: ownership_release_def)
next
  case False
  obtain L where L: "rt_rep st L" using assms(1) by (auto simp: rt_wf_def rt_inv_def)
  from False assms(2) obtain m where m: "get_meta st p = Inr (Some m)"
    by (auto simp: ownership_release_def bindE_eq_Inr split: option.splits)
  with assms(2) have c: "m_borrow_count m > 0" and st': "st' = hdr_set p (released_meta m) st"
    by (auto simp: ownership_release_tracked split: if_splits)
  have "m_state m \<noteq> FREED" using rt_rep_meta(5) [OF L m] c by (auto simp: dead_meta_def)
  then show ?thesis
    using hdr_set_wf [OF assms(1) m, of "released_meta m"] st' c live_meta_changed(2) by simp
qed

lemma void_Inr: "void m = Inr (r, st') \<longleftrightarrow> r = 0 \<and> m = Inr st'"
  by (cases m) (auto simp: void_def)

text \<open>One call: the invariant is kept, and the ring takes exactly what the call retires.\<close>

lemma exec_wf:
  assumes "rt_wf st" and "obeys st c" and "exec self c st = Inr (r, st')"
  shows "rt_wf st' \<and> ring_of st' = quarantine_ring.push_all (retires c) (ring_of st)"
proof (cases c)
  case (CMalloc n)
  with assms(3) have "owner_malloc_internal self n None 0 st = Inr (r, st')"
    by (simp add: owner_malloc_def)
  from owner_malloc_internal_wf [OF assms(1) this] CMalloc show ?thesis by simp
next
  case (CCalloc k n)
  with assms(3) have "owner_calloc self k n st = Inr (r, st')" by simp
  from owner_calloc_wf [OF assms(1) this] CCalloc show ?thesis by simp
next
  case (CRealloc p n)
  with assms(3) have "owner_realloc_internal self p n None 0 st = Inr (r, st')"
    by (simp add: owner_realloc_def)
  from owner_realloc_internal_wf [OF assms(1) this] CRealloc show ?thesis by auto
next
  case (CFree p)
  with assms(3) have "owner_free_internal self p None 0 st = Inr st'"
    by (simp add: owner_free_def void_Inr)
  from owner_free_internal_wf [OF assms(1) this] CFree show ?thesis by auto
qed (use assms in \<open>auto simp: obeys_def void_Inr ownership_transfer_def
      dest: ownership_claim_wf ownership_borrow_wf ownership_release_wf ownership_share_wf\<close>)

lemma run_wf:
  assumes "rt_wf st" and "obeys_all cs st" and "run cs st = Inr st'"
  shows "rt_wf st' \<and> ring_of st' =
     quarantine_ring.push_all (concat (map (retires \<circ> snd) cs)) (ring_of st)"
  using assms
proof (induction cs arbitrary: st)
  case Nil
  then show ?case by simp
next
  case (Cons sc cs)
  obtain self c where sc: "sc = (self, c)" by fastforce
  from Cons.prems(3) sc obtain r st1 where e: "exec self c st = Inr (r, st1)"
    and rest: "run cs st1 = Inr st'"
    by (auto simp: bindE_eq_Inr)
  have push: "quarantine_ring.push_all (xs @ ys) q =
      quarantine_ring.push_all ys (quarantine_ring.push_all xs q)" for xs ys q
    by (induction xs arbitrary: q) auto
  have one: "rt_wf st1 \<and> ring_of st1 = quarantine_ring.push_all (retires c) (ring_of st)"
    using exec_wf [OF Cons.prems(1) _ e] Cons.prems(2) sc by simp
  have "obeys_all cs st1" using Cons.prems(2) sc e by simp
  with Cons.IH [OF _ _ rest] one show ?case by (simp add: sc push)
qed

subsection \<open>The initial state\<close>

lemma rt_wf_init: "rt_wf (rt_init rs mf ff rf)"
proof -
  have "rt_rep (rt_init rs mf ff rf) (\<lambda>_. [])"
    by (simp add: rt_rep_def rt_init_def reg_rep_def blocks_inv_def registered_def bare_hdr_def
        QUARANTINE_SIZE_def)
  then show ?thesis
    using ring_inv_init by (auto simp: rt_wf_def rt_inv_def ring_of_def rt_init_def)
qed

inductive reachable :: "rt \<Rightarrow> bool" where
  start: "reachable (rt_init rs mf ff rf)"
| step: "reachable st \<Longrightarrow> obeys st c \<Longrightarrow> exec self c st = Inr (r, st') \<Longrightarrow> reachable st'"

lemma reachable_wf: "reachable st \<Longrightarrow> rt_wf st"
  by (induction rule: reachable.induct) (auto intro: rt_wf_init dest: exec_wf)

end
