(* ===== verification/Safety.thy ===== *)
theory Safety
  imports Calls
begin

text \<open>
  The safety guarantees of the runtime: the invariant of reachable states, disjointness of live
  objects, the decision tables of release and resizing, the quarantine window in which every
  double free is caught, and the ownership protocol of borrow, share and claim.
\<close>

subsection \<open>Evaluation and examples\<close>

lemmas rt_eval =
  rt_init_def owner_malloc_def owner_malloc_internal_alt owner_calloc_def owner_realloc_def
  owner_realloc_internal_def sys_malloc_def sys_realloc_def chunk_ok_def apart_def insert_meta_def
  upd_hdr_def user_ptr_def meta_of_def sizeof_meta_def get_shard_idx_def NUM_SHARDS_def
  new_meta_def owner_free_def owner_free_internal_def get_meta_def remove_meta_def
  quarantine_push_def void_def put_def QUARANTINE_SIZE_def ownership_claim_def
  ownership_borrow_def ownership_release_def ownership_share_def sys_free_def without_chunk_def
  Let_def OWNEDC_MAGIC_def obeys_def live_def obj_at_def bare_def file_or_unknown_def INT_MAX_def

definition example_start :: rt where
  "example_start = rt_init [0x1000, 0x2000, 0x3000] 1 2 3"

lemma reachable_run:
  "reachable st \<Longrightarrow> obeys_all cs st \<Longrightarrow> run cs st = Inr st' \<Longrightarrow> reachable st'"
proof (induction cs arbitrary: st)
  case Nil
  then show ?case by simp
next
  case (Cons sc cs)
  then show ?case
    by (cases sc) (auto simp: bindE_eq_Inr intro: reachable.step split: sum.splits)
qed

lemma reachable_example:
  "obeys_all cs example_start \<Longrightarrow> run cs example_start = Inr st \<Longrightarrow> reachable st"
  unfolding example_start_def by (rule reachable_run [OF reachable.start])

lemma reachable_rep: "reachable st \<Longrightarrow> \<exists>L. rt_rep st L"
  using reachable_wf by (auto simp: rt_wf_def rt_inv_def)

subsection \<open>Memory\<close>

lemma live_block:
  assumes "rt_rep st L" and "get_meta st p = Inr (Some m)"
  shows "(meta_of p, 80 + unat (m_size m)) \<in> set (chunks st)"
    and "unat p = unat (meta_of p) + 80" and "unat p + unat (m_size m) < 2 ^ 64"
    and "usable st p = unat (m_size m)"
proof -
  note B = rt_rep_blocks [OF assms(1)]
  have h: "bare_hdr (hdr st) (meta_of p) = Some (bare m)"
    using assms(2) by (simp add: get_meta_Some bare_hdr_def)
  show own: "(meta_of p, 80 + unat (m_size m)) \<in> set (chunks st)"
    using blocks_invD(6) [OF B h] assms(2) by (simp add: get_meta_Some owns_block_def)
  have le: "unat (meta_of p) + (80 + unat (m_size m)) < 2 ^ 64"
    using chunks_inv_ok(2) [OF blocks_invD(7) [OF B] own] .
  show p: "unat p = unat (meta_of p) + 80"
    using unat_user_ptr [of "meta_of p"] le by simp
  show "unat p + unat (m_size m) < 2 ^ 64" using p le by simp
  show "usable st p = unat (m_size m)" using assms(2) by (simp add: usable_def get_meta_Some)
qed

lemma disjoint_objects:
  assumes "rt_rep st L" and "get_meta st p = Inr (Some m)" and "get_meta st q = Inr (Some k)"
    and "p \<noteq> q"
  shows "unat p + unat (m_size m) + 80 \<le> unat q \<or> unat q + unat (m_size k) + 80 \<le> unat p"
  using chunks_inv_apart [OF blocks_invD(7) [OF rt_rep_blocks [OF assms(1)]]
      live_block(1) [OF assms(1,2)] live_block(1) [OF assms(1,3)]]
    live_block(2) [OF assms(1,2)] live_block(2) [OF assms(1,3)] assms(4)
  by (auto simp: apart_def)


lemma example_two:
  "\<exists>st. reachable st \<and> live st 0x1050 \<and> live st 0x2050 \<and> usable st 0x1050 = 16"
proof -
  let ?cs = "[(1, CMalloc 16), (2, CMalloc 32)] :: (tid \<times> call) list"
  have "obeys_all ?cs example_start" by (simp add: example_start_def rt_eval)
  moreover have "\<exists>st. run ?cs example_start = Inr st \<and> live st 0x1050 \<and> live st 0x2050 \<and>
      usable st 0x1050 = 16"
    by (simp add: example_start_def rt_eval usable_def)
  ultimately show ?thesis using reachable_example by blast
qed


text \<open>C7: in every reachable state two different objects that the runtime tracks (live or in
  quarantine) occupy disjoint memory, headers included, and no object wraps around the end of the
  address space.\<close>

theorem live_objects_disjoint:
  assumes "reachable st" and "get_meta st p = Inr (Some m)" and "get_meta st q = Inr (Some k)"
    and "p \<noteq> q"
  shows "unat p + unat (m_size m) < 2 ^ 64 \<and>
    (unat p + unat (m_size m) + 80 \<le> unat q \<or> unat q + unat (m_size k) + 80 \<le> unat p)"
proof -
  obtain L where L: "rt_rep st L" using reachable_rep [OF assms(1)] by blast
  show ?thesis using live_block(3) [OF L assms(2)] disjoint_objects [OF L assms(2-4)] ..
qed

theorem live_objects_disjoint_witness:
  "\<exists>st m k. reachable st \<and> get_meta st 0x1050 = Inr (Some m) \<and> get_meta st 0x2050 = Inr (Some k) \<and>
     (unat (0x1050 :: addr) + unat (m_size m) + 80 \<le> unat (0x2050 :: addr) \<or>
      unat (0x2050 :: addr) + unat (m_size k) + 80 \<le> unat (0x1050 :: addr))"
proof -
  obtain st where st: "reachable st" "live st 0x1050" "live st 0x2050" using example_two by blast
  then obtain m k where "get_meta st 0x1050 = Inr (Some m)" "get_meta st 0x2050 = Inr (Some k)"
    by (auto elim!: liveE)
  with st live_objects_disjoint [OF st(1) this] show ?thesis by auto
qed

subsection \<open>Allocation\<close>

text \<open>C8: an allocation in a reachable state whose block size does not wrap returns; a non-null
  result is an object nobody else has, owned by the caller, not borrowed, with the requested size
  and filled with the 0xAA pattern, its memory is disjoint from every tracked object, and all other
  objects are unchanged.\<close>

theorem malloc_fresh:
  assumes "reachable st" and "unat sz + 80 < 2 ^ 64"
  shows "\<exists>p st'. owner_malloc_internal self sz fl line st = Inr (p, st') \<and> rt_wf st' \<and>
    (p = 0 \<longrightarrow> obj_at st' = obj_at st \<and> payload st' = payload st) \<and>
    (p \<noteq> 0 \<longrightarrow> obj_at st p = None \<and>
       obj_at st' = (obj_at st)(p \<mapsto> bare (new_meta self sz fl line)) \<and>
       payload st' = (payload st)(p \<mapsto> Filled 0xAA) \<and>
       (\<forall>q m. get_meta st q = Inr (Some m) \<longrightarrow>
          unat q + unat (m_size m) \<le> unat p \<or> unat p + unat sz \<le> unat q))"
proof -
  obtain L where L: "rt_rep st L" using reachable_rep [OF assms(1)] by blast
  obtain p st' where r: "owner_malloc_internal self sz fl line st = Inr (p, st')"
    using owner_malloc_internal_returns [OF L assms(2)] .
  note v = owner_malloc_internal_view [OF L assms(2) r]
  have wf: "rt_wf st'" using owner_malloc_internal_wf [OF reachable_wf [OF assms(1)] r] by blast
  have sep: "unat q + unat (m_size m) \<le> unat p \<or> unat p + unat sz \<le> unat q"
    if "p \<noteq> 0" "get_meta st q = Inr (Some m)" for q m
  proof -
    have ok: "chunk_ok (chunks st) (meta_of p) (80 + unat sz)" using v(4) that(1) .
    then have "unat p = unat (meta_of p) + 80"
      using unat_user_ptr [of "meta_of p"] by (simp add: chunk_ok_def)
    moreover have "apart (meta_of p) (80 + unat sz) (meta_of q) (80 + unat (m_size m))"
      using ok live_block(1) [OF L that(2)] by (auto simp: chunk_ok_def list_all_iff)
    ultimately show ?thesis using live_block(2) [OF L that(2)] by (auto simp: apart_def)
  qed
  have "obj_at st p = None" if "p \<noteq> 0"
  proof (rule ccontr)
    assume "obj_at st p \<noteq> None"
    then obtain m where "get_meta st p = Inr (Some m)" by (auto simp: obj_at_Some)
    with v(4) [OF that] live_block(1) [OF L this] chunk_ok_notin show False by force
  qed
  with r wf v(1,2) sep show ?thesis by (intro exI [of _ p] exI [of _ st']) auto
qed

theorem malloc_fresh_witness:
  "\<exists>p st'. owner_malloc_internal 7 16 None 0 example_start = Inr (p, st') \<and> rt_wf st' \<and>
     p = 0x1050 \<and> live st' p"
proof -
  have r: "reachable example_start" unfolding example_start_def by (rule reachable.start)
  have "\<exists>p st'. owner_malloc_internal 7 16 None 0 example_start = Inr (p, st') \<and> rt_wf st'"
    using malloc_fresh [OF r, of 16 7 None 0] by auto
  moreover have "\<exists>st'. owner_malloc_internal 7 16 None 0 example_start = Inr (0x1050, st') \<and>
      live st' 0x1050"
    by (simp add: example_start_def rt_eval)
  ultimately show ?thesis by auto
qed

text \<open>A request so large that the size of its block wraps around never yields an object: either
  the allocator refuses, or the wrapped (too short) block it grants is overrun, which is undefined
  behaviour; \<open>owner_malloc\<close> has no check of its own.\<close>

theorem malloc_size_wrap:
  assumes "2 ^ 64 \<le> unat sz + 80"
  shows "(\<exists>st'. owner_malloc self sz st = Inr (0, st')) \<or>
    owner_malloc self sz st = Inl (Undefined ''write past the block'')"
proof -
  have n: "unat (sizeof_meta + sz) < 80 + unat sz"
    using assms unat_lt_2p64 [of "sizeof_meta + sz"] by simp
  obtain a st1 where m: "sys_malloc (sizeof_meta + sz) (st\<lparr>atexit_registered := True\<rparr>) = (a, st1)"
    by fastforce
  show "(\<exists>st'. owner_malloc self sz st = Inr (0, st')) \<or>
      owner_malloc self sz st = Inl (Undefined ''write past the block'')"
    using m n by (cases "a = 0") (simp_all add: owner_malloc_def owner_malloc_internal_alt sizeof_meta_def)
qed

theorem malloc_size_wrap_witness:
  "(2 :: nat) ^ 64 \<le> unat (0xFFFFFFFFFFFFFFB0 :: size_t) + 80 \<and>
   owner_malloc 1 0xFFFFFFFFFFFFFFB0 example_start = Inl (Undefined ''write past the block'')"
proof -
  have h: "(2 :: nat) ^ 64 \<le> unat (0xFFFFFFFFFFFFFFB0 :: size_t) + 80" by simp
  have "owner_malloc 1 0xFFFFFFFFFFFFFFB0 example_start = Inl (Undefined ''write past the block'')
      \<or> (\<exists>st'. owner_malloc 1 0xFFFFFFFFFFFFFFB0 example_start = Inr (0, st'))"
    using malloc_size_wrap [OF h, of 1 example_start] by blast
  moreover have "\<not> (\<exists>st'. owner_malloc 1 0xFFFFFFFFFFFFFFB0 example_start = Inr (0, st'))"
    by (simp add: example_start_def rt_eval)
  ultimately show ?thesis using h by blast
qed

text \<open>\<open>owner_calloc\<close> multiplies without an overflow check: a request for 2^61 + 1 elements of 8
  bytes succeeds with an object of 8 bytes.\<close>

theorem calloc_overflow:
  "\<exists>st'. owner_calloc self 0x2000000000000001 8 example_start = Inr (0x1050, st') \<and>
     usable st' 0x1050 = 8 \<and> live st' 0x1050"
  by (simp add: example_start_def rt_eval usable_def)

subsection \<open>Release\<close>

lemma owner_free_internal_errors:
  assumes "p \<noteq> 0" and "get_meta st p = Inr mo"
  shows "mo = None \<Longrightarrow> owner_free_internal self p fl line st =
      Inl (Fatal ''Invalid free (Untracked pointer)'' p fl line)"
    and "mo = Some m \<Longrightarrow> m_state m = FREED \<Longrightarrow> owner_free_internal self p fl line st =
      Inl (Fatal ''Double-free'' p fl line)"
    and "mo = Some m \<Longrightarrow> m_state m \<noteq> FREED \<Longrightarrow> m_borrow_count m > 0 \<Longrightarrow>
      owner_free_internal self p fl line st = Inl (Fatal ''Freeing borrowed object'' p fl line)"
    and "mo = Some m \<Longrightarrow> m_state m \<noteq> FREED \<Longrightarrow> \<not> m_borrow_count m > 0 \<Longrightarrow>
      m_state m \<noteq> SHARED \<Longrightarrow> m_owner_thread m \<noteq> self \<Longrightarrow>
      owner_free_internal self p fl line st =
      Inl (Fatal ''Thread Ownership Violation (Free)'' p fl line)"
  using assms by (simp_all add: owner_free_internal_def)

text \<open>C3: the decision table of \<open>owner_free\<close> on a tracked pointer, in the order of its checks: an
  object already freed, still borrowed, or owned by another thread and not shared is refused with
  the matching report; otherwise the call returns, the object is freed and poisoned, and at most
  one other object, the oldest of a full quarantine, disappears.\<close>

theorem free_decision:
  assumes "reachable st" and "get_meta st p = Inr (Some m)"
  shows "if m_state m = FREED
         then owner_free_internal self p fl line st = Inl (Fatal ''Double-free'' p fl line)
         else if m_borrow_count m > 0
         then owner_free_internal self p fl line st = Inl (Fatal ''Freeing borrowed object'' p fl line)
         else if m_state m \<noteq> SHARED \<and> m_owner_thread m \<noteq> self
         then owner_free_internal self p fl line st =
                Inl (Fatal ''Thread Ownership Violation (Free)'' p fl line)
         else \<exists>st'. owner_free_internal self p fl line st = Inr st' \<and> rt_wf st' \<and>
                payload st' p = Some (Filled 0xEF) \<and>
                obj_at st' = (\<lambda>x. if x = p then Some (bare (freed_meta fl line m))
                   else if ring_evicts (ring_of st) = Some (meta_of x) then None else obj_at st x)"
proof -
  obtain L where L: "rt_rep st L" using reachable_rep [OF assms(1)] by blast
  have p0: "p \<noteq> 0" using assms(2) by (simp add: get_meta_Some)
  note err = owner_free_internal_errors [OF p0 assms(2)]
  show ?thesis
  proof (cases "free_ok self m")
    case True
    then obtain st' where r: "owner_free_internal self p fl line st = Inr st'"
      using owner_free_internal_ok [OF L assms(2), where self = self and fl = fl and line = line]
      by blast
    note v = owner_free_internal_view [OF L assms(2) True r]
    have "rt_wf st'" using owner_free_internal_wf [OF reachable_wf [OF assms(1)] r] by blast
    moreover have "payload st' p = Some (Filled 0xEF)" using v(2,7) by auto
    moreover have "obj_at st' = (\<lambda>x. if x = p then Some (bare (freed_meta fl line m))
        else if ring_evicts (ring_of st) = Some (meta_of x) then None else obj_at st x)"
      unfolding v(1) ring_of_def by (auto simp: fun_eq_iff meta_of_eq_conv)
    ultimately show ?thesis using r True by (auto simp: free_ok_def)
  next
    case False
    then show ?thesis using err by (auto simp: free_ok_def)
  qed
qed

theorem free_decision_witness:
  "\<exists>st m. reachable st \<and> get_meta st 0x1050 = Inr (Some m) \<and>
     owner_free_internal 9 0x1050 None 0 st =
       Inl (Fatal ''Thread Ownership Violation (Free)'' 0x1050 None 0)"
proof -
  let ?cs = "[(1, CMalloc 16)] :: (tid \<times> call) list"
  have o: "obeys_all ?cs example_start" by (simp add: example_start_def rt_eval)
  obtain st where st: "run ?cs example_start = Inr st"
    and m: "get_meta st 0x1050 = Inr (Some (new_meta 1 16 None 0))"
    by (simp add: example_start_def rt_eval)
  have r: "reachable st" by (rule reachable_example [OF o st])
  have "owner_free_internal 9 0x1050 None 0 st =
      Inl (Fatal ''Thread Ownership Violation (Free)'' 0x1050 None 0)"
    using free_decision [OF r m, of 9 None 0] by (simp add: new_meta_def)
  with r m show ?thesis by blast
qed

text \<open>A block in the ring is a freed object.\<close>

lemma quarantined_freed:
  assumes "rt_wf st" and "meta_of p \<in> set (ring_contents (ring_of st))" and "p \<noteq> 0"
  obtains m where "get_meta st p = Inr (Some m)" and "m_state m = FREED" and "dead_meta m"
proof -
  obtain L where L: "rt_rep st L" using assms(1) by (auto simp: rt_wf_def rt_inv_def)
  have "meta_of p \<in> set (quarantine st)" "meta_of p \<noteq> 0"
    using assms(2) unfolding ring_of_def ring_contents_quarantine by auto
  then obtain x where "bare_hdr (hdr st) (meta_of p) = Some x" "dead_meta x"
    using blocks_invD(4) [OF rt_rep_blocks [OF L]] by blast
  then obtain m where "hdr st (meta_of p) = Some m" "dead_meta m"
    by (auto simp: bare_hdr_def)
  with assms(3) that show ?thesis by (auto simp: get_meta_Some dead_meta_def)
qed

lemma owner_free_internal_nonnull:
  assumes "rt_wf st" and "owner_free_internal self p fl line st = Inr st'" and "p \<noteq> 0"
  shows "meta_of p \<noteq> 0"
  using assms(2)
proof (cases rule: owner_free_internal_InrD)
  case null
  with assms(3) show ?thesis by simp
next
  case (freed m)
  obtain L where L: "rt_rep st L" using assms(1) by (auto simp: rt_wf_def rt_inv_def)
  show ?thesis using freed(2) blocks_inv_nonnull [OF rt_rep_blocks [OF L], of "meta_of p" "bare m"]
    by (auto simp: bare_hdr_def get_meta_Some)
qed

lemma exec_retires_nonnull:
  assumes "rt_wf st" and "exec self c st = Inr (r, st')"
  shows "list_all (\<lambda>a. a \<noteq> 0) (retires c)"
proof (cases c)
  case (CFree p)
  then have "owner_free_internal self p None 0 st = Inr st'"
    using assms(2) by (simp add: owner_free_def void_Inr)
  then show ?thesis using CFree owner_free_internal_nonnull [OF assms(1)] by auto
next
  case (CRealloc p n)
  have "owner_free_internal self p None 0 st = Inr st'" if "p \<noteq> 0" "n = 0"
    using assms(2) CRealloc that
    by (auto simp: owner_realloc_def owner_realloc_internal_def bindE_eq_Inr)
  then show ?thesis using CRealloc owner_free_internal_nonnull [OF assms(1)] by auto
qed simp_all

lemma run_retires_nonnull:
  "rt_wf st \<Longrightarrow> obeys_all cs st \<Longrightarrow> run cs st = Inr st' \<Longrightarrow>
   list_all (\<lambda>a. a \<noteq> 0) (concat (map (retires \<circ> snd) cs))"
proof (induction cs arbitrary: st)
  case Nil
  then show ?case by simp
next
  case (Cons sc cs)
  obtain self c where sc: "sc = (self, c)" by fastforce
  from Cons.prems(3) sc obtain r st1 where e: "exec self c st = Inr (r, st1)"
    and rest: "run cs st1 = Inr st'"
    by (auto simp: bindE_eq_Inr)
  have "rt_wf st1" "obeys_all cs st1"
    using exec_wf [OF Cons.prems(1) _ e] Cons.prems(2) sc e by simp_all
  with Cons.IH rest exec_retires_nonnull [OF Cons.prems(1) e] show ?case by (simp add: sc)
qed

text \<open>C2: after an object was freed, and however the program goes on (any calls by any threads that
  do not claim or share freed pointers), a second free, a borrow or a resize of the same pointer is
  caught as long as fewer than 1024 other blocks were retired in between.\<close>

theorem double_free_window:
  assumes "reachable st" and "p \<noteq> 0" and "exec t (CFree p) st = Inr (r, st1)"
    and "obeys_all cs st1" and "run cs st1 = Inr st2"
    and "length (concat (map (retires \<circ> snd) cs)) < QUARANTINE_SIZE"
  shows "owner_free_internal u p fl line st2 = Inl (Fatal ''Double-free'' p fl line) \<and>
    ownership_borrow u p st2 = Inl (Fatal ''Use-after-free (Borrow on freed pointer)'' p None 0) \<and>
    (sz \<noteq> 0 \<longrightarrow> owner_realloc_internal u p sz fl line st2 =
       Inl (Fatal ''Use-after-free (Realloc on freed pointer)'' p fl line))"
proof -
  have wf: "rt_wf st" using reachable_wf [OF assms(1)] .
  have o: "obeys st (CFree p)" by (simp add: obeys_def)
  have wf1: "rt_wf st1" and r1: "ring_of st1 = ring_push (meta_of p) (ring_of st)"
    using exec_wf [OF wf o assms(3)] assms(2) by simp_all
  have nz: "meta_of p \<noteq> 0" using exec_retires_nonnull [OF wf assms(3)] assms(2) by simp
  have wf2: "rt_wf st2"
    and r2: "ring_of st2 = quarantine_ring.push_all (concat (map (retires \<circ> snd) cs))
      (ring_push (meta_of p) (ring_of st))"
    using run_wf [OF wf1 assms(4,5)] r1 by simp_all
  have "meta_of p \<in> set (ring_contents (ring_of st2))"
    unfolding r2 using wf nz assms(6) run_retires_nonnull [OF wf1 assms(4,5)]
    by (intro quarantine_ring.in_window) (simp_all add: rt_wf_def)
  then obtain m where "get_meta st2 p = Inr (Some m)" "m_state m = FREED"
    using quarantined_freed [OF wf2] assms(2) by blast
  with assms(2) show ?thesis
    by (simp add: owner_free_internal_def ownership_borrow_tracked owner_realloc_internal_def)
qed

theorem double_free_window_witness:
  "\<exists>st1 st2. exec 1 (CFree 0x1050) (snd (projr (exec 1 (CMalloc 16) example_start))) = Inr (0, st1) \<and>
     run [(1, CMalloc 32)] st1 = Inr st2 \<and>
     owner_free_internal 1 0x1050 None 0 st2 = Inl (Fatal ''Double-free'' 0x1050 None 0)"
proof -
  let ?c0 = "[(1, CMalloc 16)] :: (tid \<times> call) list"
  let ?c1 = "[(1, CMalloc 32)] :: (tid \<times> call) list"
  have o: "obeys_all ?c0 example_start" by (simp add: example_start_def rt_eval)
  obtain st where st: "run ?c0 example_start = Inr st"
    and ex: "\<exists>st1. exec 1 (CFree 0x1050) st = Inr (0, st1) \<and> obeys_all ?c1 st1 \<and>
      (\<exists>st2. run ?c1 st1 = Inr st2)"
    by (simp add: example_start_def rt_eval)
  then obtain st1 st2 where f: "exec 1 (CFree 0x1050) st = Inr (0, st1)"
    and o1: "obeys_all ?c1 st1" and st2: "run ?c1 st1 = Inr st2" by blast
  have "reachable st" by (rule reachable_example [OF o st])
  from double_free_window [OF this _ f o1 st2, of 1 None 0]
  have "owner_free_internal 1 0x1050 None 0 st2 = Inl (Fatal ''Double-free'' 0x1050 None 0)"
    by (simp add: QUARANTINE_SIZE_def)
  moreover have "st = snd (projr (exec 1 (CMalloc 16) example_start))"
    using st by (auto simp: bindE_eq_Inr)
  ultimately show ?thesis using f st2 by blast
qed

text \<open>The guard is missing in \<open>ownership_claim\<close>: claiming a freed pointer makes it live again, so
  the next free of the same pointer goes unreported and the block enters the quarantine twice (it
  will be handed back to the C allocator twice).\<close>

theorem claim_defeats_double_free:
  "\<exists>st. run [(1, CMalloc 16), (1, CFree 0x1050), (1, CClaim 0x1050), (1, CFree 0x1050)]
          example_start = Inr st \<and>
     take 2 (quarantine st) = [0x1000, 0x1000] \<and> \<not> rt_wf st"
proof -
  obtain st where "run [(1, CMalloc 16), (1, CFree 0x1050), (1, CClaim 0x1050), (1, CFree 0x1050)]
      example_start = Inr st"
    and q: "quarantine st = (replicate 1024 0)[0 := 0x1000, 1 := 0x1000]"
    by (simp add: example_start_def rt_eval)
  moreover have t: "take 2 (quarantine st) = [0x1000, 0x1000]"
    by (simp add: q take_update_swap numeral_2_eq_2)
  moreover have "\<not> rt_wf st"
  proof
    assume "rt_wf st"
    then have "distinct (filter (\<lambda>a. a \<noteq> 0) (quarantine st))"
      by (auto simp: rt_wf_def rt_inv_def dest!: rt_rep_blocks blocks_invD(3))
    moreover have "quarantine st = take 2 (quarantine st) @ drop 2 (quarantine st)" by simp
    ultimately have "distinct (filter (\<lambda>a. a \<noteq> 0) (take 2 (quarantine st) @ drop 2 (quarantine st)))"
      by simp
    then show False unfolding t by simp
  qed
  ultimately show ?thesis by blast
qed

subsection \<open>Resizing\<close>

text \<open>What a client reads from an object that was resized: the common prefix.\<close>

lemma byte_view_resize:
  "i < min a b \<Longrightarrow> byte_view (resize_payload a b x) i = byte_view x i"
  by (cases x) auto

lemma slot_view_resize:
  "8 * (i + 1) \<le> min a b \<Longrightarrow> (\<And>v. x \<noteq> Filled v) \<Longrightarrow>
   slot_view (resize_payload a b x) i = slot_view x i"
  by (cases x) auto

text \<open>C9: \<open>owner_realloc\<close> on a live object by its owner, for a size that is not zero and does not wrap,
  returns: either NULL, with every object unchanged, or the new address of the object, with the same
  header but for the size, the bytes of the common prefix kept, memory disjoint from all other
  objects, the old address unknown (unless the object did not move) and nothing else changed.\<close>

theorem realloc_preserves:
  assumes "reachable st" and "get_meta st p = Inr (Some m)" and "m_state m \<noteq> FREED"
    and "m_state m = SHARED \<or> m_owner_thread m = self" and "sz \<noteq> 0" and "unat sz + 80 < 2 ^ 64"
  shows "\<exists>q st'. owner_realloc_internal self p sz fl line st = Inr (q, st') \<and> rt_wf st' \<and>
    (q = 0 \<longrightarrow> obj_at st' = obj_at st \<and> payload st' = payload st) \<and>
    (q \<noteq> 0 \<longrightarrow> obj_at st' = ((obj_at st)(p := None))(q \<mapsto> bare (m\<lparr>m_size := sz\<rparr>)) \<and>
       (\<exists>x x'. payload st p = Some x \<and> payload st' = ((payload st)(p := None))(q \<mapsto> x') \<and>
          (\<forall>i < min (unat (m_size m)) (unat sz). byte_view x' i = byte_view x i)) \<and>
       (\<forall>r k. r \<noteq> p \<longrightarrow> get_meta st r = Inr (Some k) \<longrightarrow>
          unat r + unat (m_size k) \<le> unat q \<or> unat q + unat sz \<le> unat r))"
proof -
  obtain L where L: "rt_rep st L" using reachable_rep [OF assms(1)] by blast
  have ok: "realloc_ok self m" using assms(3,4) by (simp add: realloc_ok_def)
  obtain q st' where r: "owner_realloc_internal self p sz fl line st = Inr (q, st')"
    using owner_realloc_internal_cases [OF L assms(2) ok assms(5), where fl = fl and line = line]
      assms(6) by (metis linorder_not_less)
  note v = owner_realloc_internal_view [OF L assms(2) ok assms(5) r]
  have wf: "rt_wf st'" using owner_realloc_internal_wf [OF reachable_wf [OF assms(1)] r] by blast
  have h: "bare_hdr (hdr st) (meta_of p) = Some (bare m)"
    using assms(2) by (simp add: get_meta_Some bare_hdr_def)
  obtain x where x: "payload st p = Some x"
    using blocks_invD(6) [OF rt_rep_blocks [OF L] h] assms(2) by (auto simp: get_meta_Some owns_block_def)
  have sep: "unat r + unat (m_size k) \<le> unat q \<or> unat q + unat sz \<le> unat r"
    if "q \<noteq> 0" "r \<noteq> p" "get_meta st r = Inr (Some k)" for r k
  proof -
    have c: "chunk_ok (without_chunk (meta_of p) (chunks st)) (meta_of q) (80 + unat sz)"
      using v(9) that(1) .
    then have "unat q = unat (meta_of q) + 80"
      using unat_user_ptr [of "meta_of q"] by (simp add: chunk_ok_def)
    moreover have "apart (meta_of q) (80 + unat sz) (meta_of r) (80 + unat (m_size k))"
      using c live_block(1) [OF L that(3)] that(2) by (auto simp: chunk_ok_def list_all_iff)
    ultimately show ?thesis using live_block(2) [OF L that(3)] by (auto simp: apart_def)
  qed
  have keep: "\<exists>x x'. payload st p = Some x \<and> payload st' = ((payload st)(p := None))(q \<mapsto> x') \<and>
      (\<forall>i < min (unat (m_size m)) (unat sz). byte_view x' i = byte_view x i)" if "q \<noteq> 0"
    using x that byte_view_resize
    by (intro exI [of _ x] exI [of _ "resize_payload (unat (m_size m)) (unat sz) x"])
      (simp add: v(2))
  show ?thesis using r wf v(1,2) sep keep by (intro exI [of _ q] exI [of _ st']) auto
qed

theorem realloc_preserves_witness:
  "\<exists>st q st'. reachable st \<and> live st 0x1050 \<and>
     owner_realloc_internal 1 0x1050 64 None 0 st = Inr (q, st') \<and> rt_wf st' \<and> q = 0x2050"
proof -
  let ?cs = "[(1, CMalloc 16)] :: (tid \<times> call) list"
  have o: "obeys_all ?cs example_start" by (simp add: example_start_def rt_eval)
  obtain st where st: "run ?cs example_start = Inr st"
    and m: "get_meta st 0x1050 = Inr (Some (new_meta 1 16 None 0))" and lv: "live st 0x1050"
    and mv: "\<exists>st'. owner_realloc_internal 1 0x1050 64 None 0 st = Inr (0x2050, st')"
    by (simp add: example_start_def rt_eval)
  have r: "reachable st" by (rule reachable_example [OF o st])
  have "\<exists>q st'. owner_realloc_internal 1 0x1050 64 None 0 st = Inr (q, st') \<and> rt_wf st'"
    using realloc_preserves [OF r m, of 1 64 None 0] by (auto simp: new_meta_def)
  with r lv mv show ?thesis by fastforce
qed

subsection \<open>The ownership protocol\<close>

lemma hdr_set_hdr_set [simp]: "hdr_set p m' (hdr_set p m st) = hdr_set p m' st"
  by (simp add: hdr_set_def)

lemma hdr_set_same: "hdr st (meta_of p) = Some m \<Longrightarrow> hdr_set p m st = st"
  by (simp add: hdr_set_def fun_upd_idem)

lemma get_meta_hdr_set [simp]:
  "get_meta (hdr_set p m st) p =
     (if p = 0 then Inr None else Inr (if m_magic m = OWNEDC_MAGIC then Some m else None))"
  by (simp add: get_meta_def hdr_set_def)

lemma released_borrowed:
  "0 \<le> m_borrow_count m \<Longrightarrow> m_state m = SHARED \<or> (m_state m = BORROWED \<longleftrightarrow> 0 < m_borrow_count m) \<Longrightarrow>
   m_state m \<in> {OWNED, BORROWED, SHARED} \<Longrightarrow> released_meta (borrowed_meta m) = m"
  by (cases m) (auto simp: changed_meta_defs)



text \<open>Borrowing protects an object from being freed but not from being resized: the owner can
  move a borrowed object to another address, and the borrowed pointer is unmapped.\<close>

theorem borrowed_object_moves:
  "\<exists>st1 st2. run [(1, CMalloc 16), (1, CBorrow 0x1050)] example_start = Inr st1 \<and> reachable st1 \<and>
     owner_realloc 1 0x1050 64 st1 = Inr (0x2050, st2) \<and> obj_at st2 0x1050 = None \<and>
     payload st2 0x1050 = None \<and>
     ownership_release 0x1050 st2 = Inl (Undefined ''read of an unmapped header'')"
proof -
  let ?cs = "[(1, CMalloc 16), (1, CBorrow 0x1050)] :: (tid \<times> call) list"
  have o: "obeys_all ?cs example_start" by (simp add: example_start_def rt_eval)
  obtain st1 where st1: "run ?cs example_start = Inr st1"
    and ex: "\<exists>st2. owner_realloc 1 0x1050 64 st1 = Inr (0x2050, st2) \<and> obj_at st2 0x1050 = None \<and>
     payload st2 0x1050 = None \<and>
     ownership_release 0x1050 st2 = Inl (Undefined ''read of an unmapped header'')"
    by (simp add: example_start_def rt_eval)
  have "reachable st1" by (rule reachable_example [OF o st1])
  with st1 ex show ?thesis by blast
qed



end
