(* ===== verification/Diagnostics.thy ===== *)
theory Diagnostics
  imports Safety
begin

text \<open>
  What the diagnostics report: the leak check that runs at exit, the statistics, the dump of the
  borrowed objects and the JSON dump, each compared with the objects the runtime tracks.
\<close>

subsection \<open>The objects in the order of the shards\<close>

definition objects :: "(nat \<Rightarrow> addr list) \<Rightarrow> addr list" where
  "objects L = map user_ptr (shard_order L)"

lemma registered_object:
  assumes "rt_rep st L" and "registered L a"
  shows "user_ptr a \<noteq> 0" and "\<exists>m. hdr st a = Some m \<and> live_meta m \<and> obj_at st (user_ptr a) = Some (bare m)"
proof -
  obtain m where m: "hdr st a = Some m" "live_meta m"
    using blocks_invD(1) [OF rt_rep_blocks [OF assms(1)], of a] assms(2) by (auto simp: bare_hdr_def)
  have "bare_hdr (hdr st) a = Some (bare m)" using m by (simp add: bare_hdr_def)
  then have "(a, 80 + unat (m_size m)) \<in> set (chunks st)"
    using blocks_invD(6) [OF rt_rep_blocks [OF assms(1)], of a "bare m"] m
    by (simp add: owns_block_def live_meta_def)
  from chunks_inv_ok(2) [OF blocks_invD(7) [OF rt_rep_blocks [OF assms(1)]] this]
  have "unat (user_ptr a) = unat a + 80" by (simp add: unat_user_ptr)
  then show nz: "user_ptr a \<noteq> 0" by (metis add_is_0 unsigned_0 zero_neq_numeral)
  then show "\<exists>m. hdr st a = Some m \<and> live_meta m \<and> obj_at st (user_ptr a) = Some (bare m)"
    using m by (auto simp: obj_at_def live_meta_def)
qed

lemma objects_live:
  assumes "rt_rep st L"
  shows "set (objects L) = {p. live st p}" and "distinct (objects L)"
proof -
  have R: "reg_rep (hdr st) (registry_heads st) L" using assms by (simp add: rt_rep_def)
  have "p \<in> set (objects L) \<longleftrightarrow> p \<noteq> 0 \<and> registered L (meta_of p)" for p
    using registered_object(1) [OF assms]
    by (auto simp: objects_def set_shard_order [OF R] image_iff intro: exI [of _ "meta_of p"])
  then show "set (objects L) = {p. live st p}" using live_registered [OF assms] by blast
  show "distinct (objects L)"
    using distinct_shard_order [OF R] by (simp add: objects_def distinct_map inj_on_def)
qed

text \<open>The walk over the registry as a fold over the live objects.\<close>

definition obj :: "'x rt_scheme \<Rightarrow> addr \<Rightarrow> alloc_meta" where
  "obj st p = the (obj_at st p)"

lemma fold_objects:
  assumes "rt_rep st L"
    and "\<And>a m s. body a (bare m) s = body a m s"
  shows "for_shards body (hdr st) (registry_heads st) s =
     Some (fold (\<lambda>p. body (meta_of p) (obj st p)) (objects L) s)"
proof -
  have R: "reg_rep (hdr st) (registry_heads st) L" using assms(1) by (simp add: rt_rep_def)
  have b: "body a (the (hdr st a)) = body a (obj st (user_ptr a))" if "registered L a" for a
    using registered_object(2) [OF assms(1) that] assms(2) by (auto simp: obj_def fun_eq_iff)
  have "fold (\<lambda>a. body a (the (hdr st a))) (shard_order L) s =
      fold (\<lambda>a. body a (obj st (user_ptr a))) (shard_order L) s"
    using b set_shard_order [OF R] by (intro fold_cong) auto
  then show ?thesis by (simp add: for_shards_rep [OF R] objects_def fold_map comp_def)
qed

lemma bare_leak_body [simp]: "leak_body a (bare m) s = leak_body a m s"
  by (simp add: leak_body_def bare_def)

lemma bare_stats_body [simp]: "stats_body a (bare m) s = stats_body a m s"
  by (simp add: stats_body_def bare_def)

lemma bare_json_body [simp]: "json_body a (bare m) s = json_body a m s"
  by (simp add: json_body_def bare_def)

subsection \<open>Emptying the quarantine\<close>

lemma quarantine_slot_clear:
  assumes "rt_rep st L" and "i < QUARANTINE_SIZE" and "quarantine st ! i \<noteq> 0"
  defines "o1 \<equiv> quarantine st ! i"
  shows "sys_free o1 st = Inr (st\<lparr>chunks := without_chunk o1 (chunks st), hdr := (hdr st)(o1 := None),
           payload := (payload st)(user_ptr o1 := None), out := out st @ [EvRelease o1]\<rparr>)"
    and "\<not> registered L o1"
    and "rt_rep (st\<lparr>chunks := without_chunk o1 (chunks st), hdr := (hdr st)(o1 := None),
           payload := (payload st)(user_ptr o1 := None), out := out st @ [EvRelease o1],
           quarantine := (quarantine st)[i := 0]\<rparr>) L"
proof -
  note B = rt_rep_blocks [OF assms(1)]
  note e = blocks_inv_evict [OF B assms(2,3)]
  show "sys_free o1 st = Inr (st\<lparr>chunks := without_chunk o1 (chunks st), hdr := (hdr st)(o1 := None),
      payload := (payload st)(user_ptr o1 := None), out := out st @ [EvRelease o1]\<rparr>)"
    using e(2) by (simp add: sys_free_def o1_def)
  have "o1 \<in> set (quarantine st)" using assms(2) blocks_invD(2) [OF B] by (simp add: o1_def)
  then show nr: "\<not> registered L o1"
    using blocks_inv_registered_not_quarantined [OF B] by blast
  show "rt_rep (st\<lparr>chunks := without_chunk o1 (chunks st), hdr := (hdr st)(o1 := None),
      payload := (payload st)(user_ptr o1 := None), out := out st @ [EvRelease o1],
      quarantine := (quarantine st)[i := 0]\<rparr>) L"
    using assms(1) e(1) nr reg_rep_upd_other [of "hdr st" "registry_heads st" L o1]
    by (auto simp: rt_rep_def o1_def)
qed


lemma quarantine_clear_upto:
  assumes "rt_rep st L" and "n \<le> QUARANTINE_SIZE"
  shows "\<exists>st'. foldE (\<lambda>i st. if quarantine st ! i \<noteq> 0
                   then bindE (sys_free (quarantine st ! i) st)
                          (\<lambda>st. Inr (st\<lparr>quarantine := (quarantine st)[i := 0]\<rparr>))
                   else Inr st) [0..<n] st = Inr st' \<and>
     rt_rep st' L \<and> quarantine st' = replicate n 0 @ drop n (quarantine st) \<and>
     out st' = out st @ map EvRelease (filter (\<lambda>a. a \<noteq> 0) (take n (quarantine st))) \<and>
     (\<forall>a. registered L a \<longrightarrow> hdr st' a = hdr st a)"
  using assms(2)
proof (induction n)
  case 0
  from assms(1) show ?case by simp
next
  case (Suc n)
  let ?f = "\<lambda>i st. if quarantine st ! i \<noteq> 0
                   then bindE (sys_free (quarantine st ! i) st)
                          (\<lambda>st. Inr (st\<lparr>quarantine := (quarantine st)[i := 0]\<rparr>))
                   else Inr st"
  obtain st1 where r: "foldE ?f [0..<n] st = Inr st1" and L1: "rt_rep st1 L"
    and q1: "quarantine st1 = replicate n 0 @ drop n (quarantine st)"
    and o1: "out st1 = out st @ map EvRelease (filter (\<lambda>a. a \<noteq> 0) (take n (quarantine st)))"
    and h1: "\<forall>a. registered L a \<longrightarrow> hdr st1 a = hdr st a"
    using Suc by auto
  have n: "n < length (quarantine st)"
    using Suc.prems blocks_invD(2) [OF rt_rep_blocks [OF assms(1)]] by simp
  then have d: "drop n (quarantine st) = quarantine st ! n # drop (Suc n) (quarantine st)"
    by (simp add: Cons_nth_drop_Suc)
  have nth: "quarantine st1 ! n = quarantine st ! n" using n by (simp add: q1 nth_append)
  have upd: "(quarantine st1)[n := 0] = replicate (Suc n) 0 @ drop (Suc n) (quarantine st)"
    by (simp add: q1 d list_update_append replicate_app_Cons_same)
  have tk: "take (Suc n) (quarantine st) = take n (quarantine st) @ [quarantine st ! n]"
    using n by (simp add: take_Suc_conv_app_nth)
  show ?case
  proof (cases "quarantine st ! n = 0")
    case True
    then have "quarantine st1 = replicate (Suc n) 0 @ drop (Suc n) (quarantine st)"
      using q1 d by (simp add: replicate_app_Cons_same)
    with True r L1 o1 h1 nth show ?thesis by (simp add: foldE_append tk)
  next
    case False
    note c = quarantine_slot_clear [OF L1, of n]
    show ?thesis
      using c Suc.prems False r o1 h1 nth upd by (auto simp: foldE_append tk)
  qed
qed

lemma quarantine_clear_result:
  assumes "rt_rep st L"
  obtains st' where "quarantine_clear st = Inr st'" and "rt_rep st' L"
    and "quarantine st' = replicate QUARANTINE_SIZE 0"
    and "out st' = out st @ map EvRelease (filter (\<lambda>a. a \<noteq> 0) (quarantine st))"
    and "\<forall>p. live st p \<longrightarrow> obj_at st' p = obj_at st p"
    and "live st' = live st"
proof -
  have len: "length (quarantine st) = QUARANTINE_SIZE"
    using blocks_invD(2) [OF rt_rep_blocks [OF assms]] .
  obtain st' where st': "quarantine_clear st = Inr st'" "rt_rep st' L"
    "quarantine st' = replicate QUARANTINE_SIZE 0"
    "out st' = out st @ map EvRelease (filter (\<lambda>a. a \<noteq> 0) (quarantine st))"
    and h: "\<And>a. registered L a \<Longrightarrow> hdr st' a = hdr st a"
    using quarantine_clear_upto [OF assms order.refl] len unfolding quarantine_clear_def by auto
  have "obj_at st' p = obj_at st p" if "live st p" for p
    using h that live_registered [OF assms] by (simp add: obj_at_def)
  moreover have "live st' = live st"
    using live_registered [OF assms] live_registered [OF st'(2)] by (simp add: fun_eq_iff)
  ultimately show ?thesis using that st' by blast
qed

subsection \<open>The leak check\<close>

definition leaked :: "'x rt_scheme \<Rightarrow> addr \<Rightarrow> bool" where
  "leaked st p \<longleftrightarrow> (case obj_at st p of None \<Rightarrow> False | Some m \<Rightarrow> m_state m = OWNED \<or> m_state m = SHARED)"

definition leak_event :: "'x rt_scheme \<Rightarrow> addr \<Rightarrow> event" where
  "leak_event st p = EvLeak p (m_size (obj st p)) (m_alloc_file (obj st p)) (m_alloc_line (obj st p))"

lemma leaked_live: "leaked st p \<Longrightarrow> live st p"
  by (auto simp: leaked_def live_def split: option.splits)

lemma leaked_obj: "live st p \<Longrightarrow> leaked st p \<longleftrightarrow> m_state (obj st p) = OWNED \<or> m_state (obj st p) = SHARED"
  by (auto simp: leaked_def live_def obj_def split: option.splits)

lemma fold_leak:
  assumes "\<And>p. p \<in> set ps \<Longrightarrow> live st p"
  shows "fold (\<lambda>p. leak_body (meta_of p) (obj st p)) ps (n, evs) =
     (n + length (filter (leaked st) ps), evs @ map (leak_event st) (filter (leaked st) ps))"
  using assms
  by (induction ps arbitrary: n evs) (auto simp: leak_body_def leaked_obj leak_event_def)

lemma emit_view [simp]:
  "obj_at (emit es st) = obj_at st" "live (emit es st) = live st"
  "quarantine (emit es st) = quarantine st" "out (emit es st) = out st @ es"
  by (simp_all add: emit_def obj_at_def live_def fun_eq_iff)

lemma check_leaks_rep:
  assumes L: "rt_rep st L"
  defines "ps \<equiv> filter (leaked st) (objects L)"
  obtains st' where "check_leaks st = Inr (if ps = [] then None else Some 1, st')"
    and "out st' = out st @ map (leak_event st) ps @
      map EvRelease (filter (\<lambda>a. a \<noteq> 0) (quarantine st)) @
      (if ps = [] then [] else [EvLeakTotal (length ps)])"
    and "quarantine st' = replicate QUARANTINE_SIZE 0" and "rt_inv st'"
    and "\<forall>p. live st' p = live st p \<and> (live st p \<longrightarrow> obj_at st' p = obj_at st p)"
proof -
  have walk: "for_shards leak_body (hdr st) (registry_heads st) (0, []) =
      Some (length ps, map (leak_event st) ps)"
    using fold_objects [OF L, of leak_body "(0, [])"] fold_leak [of "objects L" st 0 "[]"]
      objects_live(1) [OF L] by (simp add: ps_def)
  let ?evs = "map (leak_event st) ps"
  have "rt_rep (emit ?evs st) L" using L by simp
  then obtain st1 where c: "quarantine_clear (emit ?evs st) = Inr st1" and L1: "rt_rep st1 L"
    and q: "quarantine st1 = replicate QUARANTINE_SIZE 0"
    and o: "out st1 = out (emit ?evs st) @
       map EvRelease (filter (\<lambda>a. a \<noteq> 0) (quarantine (emit ?evs st)))"
    and ob: "\<forall>p. live (emit ?evs st) p \<longrightarrow> obj_at st1 p = obj_at (emit ?evs st) p"
    and lv: "live st1 = live (emit ?evs st)"
    by (rule quarantine_clear_result)
  let ?st' = "if ps = [] then st1 else emit [EvLeakTotal (length ps)] st1"
  have "check_leaks st = Inr (if ps = [] then None else Some 1, ?st')"
    by (simp add: check_leaks_def walk c)
  moreover have "rt_inv ?st'" using L1 by (auto simp: rt_inv_def)
  ultimately show ?thesis using that [of ?st'] q o ob lv by simp
qed

lemma set_leaked: "rt_rep st L \<Longrightarrow> set (filter (leaked st) (objects L)) = {p. leaked st p}"
  using objects_live(1) [of st L] leaked_live by auto

text \<open>C12: the leak check that runs at exit reports every live object that is owned or shared exactly
  once, with its size and the place of its allocation; then it hands every quarantined block back to
  the allocator, each once, and asks for \<open>exit(1)\<close>, with the total, if and only if something leaked.
  It never fails and leaves the live objects alone.\<close>

theorem check_leaks_exact:
  assumes "reachable st"
  shows "\<exists>ps st'. distinct ps \<and> set ps = {p. leaked st p} \<and>
    check_leaks st = Inr (if ps = [] then None else Some 1, st') \<and>
    out st' = out st @ map (leak_event st) ps @
      map EvRelease (filter (\<lambda>a. a \<noteq> 0) (quarantine st)) @
      (if ps = [] then [] else [EvLeakTotal (length ps)]) \<and>
    distinct (filter (\<lambda>a. a \<noteq> 0) (quarantine st)) \<and>
    quarantine st' = replicate QUARANTINE_SIZE 0 \<and> rt_inv st' \<and>
    (\<forall>p. live st' p = live st p \<and> (live st p \<longrightarrow> obj_at st' p = obj_at st p))"
proof -
  obtain L where L: "rt_rep st L" using reachable_rep [OF assms] by blast
  have "distinct (filter (leaked st) (objects L))" using objects_live(2) [OF L] by simp
  moreover have "distinct (filter (\<lambda>a. a \<noteq> 0) (quarantine st))"
    using blocks_invD(3) [OF rt_rep_blocks [OF L]] .
  ultimately show ?thesis
    using set_leaked [OF L] by (rule_tac check_leaks_rep [OF L]) blast
qed

theorem check_leaks_exact_witness:
  "\<exists>st st'. reachable st \<and> leaked st 0x1050 \<and> check_leaks st = Inr (Some 1, st')"
proof -
  let ?cs = "[(1, CMalloc 16)] :: (tid \<times> call) list"
  have o: "obeys_all ?cs example_start" by (simp add: example_start_def rt_eval)
  obtain st where st: "run ?cs example_start = Inr st" and l: "leaked st 0x1050"
    by (simp add: example_start_def rt_eval leaked_def)
  have r: "reachable st" by (rule reachable_example [OF o st])
  show ?thesis using check_leaks_exact [OF r] r l by fastforce
qed

subsection \<open>Statistics and dumps\<close>

lemma fold_count: "fold (\<lambda>i n. if f i \<noteq> 0 then n + 1 else n) is (k :: nat) =
    k + length (filter (\<lambda>i. f i \<noteq> 0) is)"
  by (induction "is" arbitrary: k) auto

lemma length_filter_nth: "length (filter (\<lambda>i. P (xs ! i)) [0..<length xs]) = length (filter P xs)"
  using filter_map [of P "(!) xs" "[0..<length xs]"] map_nth [of xs]
  by (metis (no_types, lifting) comp_apply filter_cong length_map)

lemma fold_stats:
  "(\<And>p. p \<in> set ps \<Longrightarrow> live_meta (obj st p)) \<Longrightarrow>
   fold (\<lambda>p. stats_body (meta_of p) (obj st p)) ps (n, k) = (n + length ps, k)"
proof (induction ps arbitrary: n)
  case Nil
  show ?case by simp
next
  case (Cons p ps)
  then have "live_meta (obj st p)" by simp
  then have "stats_body (meta_of p) (obj st p) (n, k) = (Suc n, k)"
    by (auto simp: stats_body_def live_meta_def)
  with Cons show ?case by simp
qed

lemma object_meta:
  assumes "rt_rep st L" and "p \<in> set (objects L)"
  shows "live_meta (obj st p)" and "obj_at st p = Some (obj st p)"
  using assms objects_live(1) [OF assms(1)] rt_rep_meta(4) [OF assms(1)]
  by (auto simp: obj_def obj_at_get_meta elim!: liveE)

lemma ownership_stats_rep:
  assumes L: "rt_rep st L"
  shows "ownership_stats st =
    Inr (emit [EvStats (length (objects L)) (length (filter (\<lambda>a. a \<noteq> 0) (quarantine st)))] st)"
proof -
  have "for_shards stats_body (hdr st) (registry_heads st) (0, 0) = Some (length (objects L), 0)"
    using fold_objects [OF L, of stats_body] fold_stats [of "objects L" st 0 0] object_meta [OF L]
    by simp
  moreover have "fold (\<lambda>i n. if quarantine st ! i \<noteq> 0 then n + 1 else n) [0..<QUARANTINE_SIZE] 0 =
      length (filter (\<lambda>a. a \<noteq> 0) (quarantine st))"
    using blocks_invD(2) [OF rt_rep_blocks [OF L]] fold_count [of "(!) (quarantine st)"]
      length_filter_nth [of "\<lambda>a. a \<noteq> 0" "quarantine st"] by simp
  ultimately show ?thesis by (simp add: ownership_stats_def)
qed

text \<open>The freed objects are the entries of the ring, each once.\<close>

lemma freed_objects:
  assumes "rt_rep st L"
  shows "(\<lambda>a. user_ptr a) ` set (filter (\<lambda>a. a \<noteq> 0) (quarantine st)) =
    {p. \<exists>m. obj_at st p = Some m \<and> m_state m = FREED}"
proof (intro set_eqI iffI)
  note B = rt_rep_blocks [OF assms]
  fix p assume "p \<in> (\<lambda>a. user_ptr a) ` set (filter (\<lambda>a. a \<noteq> 0) (quarantine st))"
  then obtain a where a: "p = user_ptr a" "a \<in> set (quarantine st)" "a \<noteq> 0" by auto
  then obtain m where m: "bare_hdr (hdr st) a = Some m" "dead_meta m" using blocks_invD(4) [OF B] by blast
  have "(a, 80 + unat (m_size m)) \<in> set (chunks st)"
    using blocks_invD(6) [OF B m(1)] m(2) by (simp add: owns_block_def dead_meta_def)
  from chunks_inv_ok(2) [OF blocks_invD(7) [OF B] this]
  have "unat (user_ptr a) = unat a + 80" by (simp add: unat_user_ptr)
  then have "p \<noteq> 0" unfolding a(1) by (metis add_is_0 unsigned_0 zero_neq_numeral)
  with m a show "p \<in> {p. \<exists>m. obj_at st p = Some m \<and> m_state m = FREED}"
    by (auto simp: obj_at_bare_hdr dead_meta_def)
next
  note B = rt_rep_blocks [OF assms]
  fix p assume "p \<in> {p. \<exists>m. obj_at st p = Some m \<and> m_state m = FREED}"
  then obtain m where m: "get_meta st p = Inr (Some m)" "m_state m = FREED" by (auto simp: obj_at_Some)
  then have h: "bare_hdr (hdr st) (meta_of p) = Some (bare m)" "m_magic m = OWNEDC_MAGIC"
    by (auto simp: get_meta_Some bare_hdr_def)
  have "\<not> registered L (meta_of p)" using rt_rep_meta(3) [OF assms m(1)] m(2) by simp
  then have "meta_of p \<in> set (quarantine st)" using blocks_invD(5) [OF B h(1)] h(2) by auto
  moreover have "meta_of p \<noteq> 0" using blocks_inv_nonnull [OF B h(1)] h(2) by auto
  ultimately show "p \<in> (\<lambda>a. user_ptr a) ` set (filter (\<lambda>a. a \<noteq> 0) (quarantine st))"
    by (auto intro: image_eqI [of _ _ "meta_of p"])
qed

text \<open>\<open>ownership_stats\<close> prints the number of live objects and the number of freed objects that are
  still in quarantine, and changes nothing else.\<close>

theorem ownership_stats_exact:
  assumes "reachable st"
  shows "ownership_stats st = Inr (emit [EvStats (card {p. live st p})
    (card {p. \<exists>m. obj_at st p = Some m \<and> m_state m = FREED})] st)"
proof -
  obtain L where L: "rt_rep st L" using reachable_rep [OF assms] by blast
  have "card {p. live st p} = length (objects L)"
    using objects_live [OF L] distinct_card by metis
  moreover have "card {p. \<exists>m. obj_at st p = Some m \<and> m_state m = FREED} =
      length (filter (\<lambda>a. a \<noteq> 0) (quarantine st))"
    unfolding freed_objects [OF L, symmetric]
    using distinct_card [OF blocks_invD(3) [OF rt_rep_blocks [OF L]]]
    by (subst card_image) (simp_all add: inj_on_def)
  ultimately show ?thesis using ownership_stats_rep [OF L] by simp
qed

theorem ownership_stats_exact_witness:
  "\<exists>st st'. reachable st \<and> live st 0x1050 \<and> ownership_stats st = Inr st' \<and>
     out st' = out st @ [EvStats (card {p. live st p}) (card {p. \<exists>m. obj_at st p = Some m \<and> m_state m = FREED})]"
proof -
  obtain st where st: "reachable st" "live st 0x1050" using example_two by blast
  from ownership_stats_exact [OF this(1)] st show ?thesis by fastforce
qed

text \<open>An object that is still borrowed when the program ends is not reported: the leak check
  says nothing and asks for no error exit, although the object was never freed.\<close>

theorem borrowed_leak_missed:
  "\<exists>st st'. run [(1, CMalloc 16), (1, CBorrow 0x1050)] example_start = Inr st \<and> live st 0x1050 \<and>
     check_leaks st = Inr (None, st') \<and> live st' 0x1050 \<and> out st' = []"
proof -
  let ?cs = "[(1, CMalloc 16), (1, CBorrow 0x1050)] :: (tid \<times> call) list"
  have o: "obeys_all ?cs example_start" by (simp add: example_start_def rt_eval)
  obtain st m where st: "run ?cs example_start = Inr st" and h: "hdr st = [0x1000 \<mapsto> m]"
    and lv: "live st 0x1050" and b: "m_state m = BORROWED" and ot: "out st = []"
    and q: "quarantine st = replicate 1024 0"
    by (simp add: example_start_def rt_eval)
  obtain L where L: "rt_rep st L"
    using reachable_rep [OF reachable_example [OF o st]] by blast
  have "\<not> leaked st p" for p
    using b by (auto simp: leaked_def obj_at_def h bare_def split: option.splits if_splits)
  then have none: "filter (leaked st) (objects L) = []" by simp
  from lv show ?thesis
    by (rule_tac check_leaks_rep [OF L]) (use st none ot q in auto)
qed

subsection \<open>The JSON dump\<close>

text \<open>A document: the opening, the entries separated by commas, the end.\<close>

fun json_entries :: "json_piece list \<Rightarrow> json_piece list" where
  "json_entries [] = []"
| "json_entries [x] = [x]"
| "json_entries (x # xs) = x # JComma # json_entries xs"

definition json_entry :: "'x rt_scheme \<Rightarrow> addr \<Rightarrow> json_piece" where
  "json_entry st p = JEntry p (m_size (obj st p)) (state_code (m_state (obj st p)))
     (m_owner_thread (obj st p)) (m_borrow_count (obj st p))"

lemma json_entries_snoc:
  "json_entries (xs @ [x]) = (if xs = [] then [x] else json_entries xs @ [JComma, x])"
  by (induction xs rule: json_entries.induct) auto

lemma fold_json:
  assumes "\<And>p. p \<in> set ps \<Longrightarrow> live_meta (obj st p)"
  shows "fold (\<lambda>p. json_body (meta_of p) (obj st p)) ps (es = [], JOpen # json_entries es) =
     (es = [] \<and> ps = [], JOpen # json_entries (es @ map (json_entry st) ps))"
  using assms
proof (induction ps arbitrary: es)
  case Nil
  show ?case by simp
next
  case (Cons p ps)
  then have "live_meta (obj st p)" by simp
  then have "json_body (meta_of p) (obj st p) (es = [], JOpen # json_entries es) =
      (es @ [json_entry st p] = [], JOpen # json_entries (es @ [json_entry st p]))"
    by (auto simp: json_body_def json_entry_def json_entries_snoc live_meta_def)
  with Cons.IH [of "es @ [json_entry st p]"] Cons.prems show ?case by simp
qed

text \<open>The JSON dump is well formed (an opening, entries with one comma between two of them, an
  end) and lists every live object exactly once, with its size, state, owner and borrow count.\<close>

theorem dump_json_exact:
  assumes "reachable st"
  shows "\<exists>ps. distinct ps \<and> set ps = {p. live st p} \<and>
    ownership_dump_json True st =
      Inr (Some (JOpen # json_entries (map (json_entry st) ps) @ [JClose]))"
proof -
  obtain L where L: "rt_rep st L" using reachable_rep [OF assms] by blast
  have "for_shards json_body (hdr st) (registry_heads st) (True, [JOpen]) =
      Some (objects L = [], JOpen # json_entries (map (json_entry st) (objects L)))"
    using fold_objects [OF L, of json_body "(True, [JOpen])"] fold_json [of "objects L" st "[]"]
      object_meta(1) [OF L] by simp
  then show ?thesis
    using objects_live [OF L] by (intro exI [of _ "objects L"]) (simp add: ownership_dump_json_def)
qed

theorem dump_json_exact_witness:
  "\<exists>st ps. reachable st \<and> 0x1050 \<in> set ps \<and>
     ownership_dump_json True st =
      Inr (Some (JOpen # json_entries (map (json_entry st) ps) @ [JClose]))"
  using example_two dump_json_exact by blast

end
