(* ===== verification/Heap.thy ===== *)
theory Heap
  imports Diagnostics
begin

text \<open>
  The interface between the runtime and the library components that allocate through it: the live
  objects as a map from user pointers to a header and a payload, and what allocation, resizing,
  release and writing do to that map.  The components prove their lemmas from the laws of the locale
  \<open>owner_heap\<close>; the runtime of \<open>src/runtime.c\<close> satisfies them (\<open>heap\<close>).
\<close>

subsection \<open>The interface\<close>

type_synonym cells = "addr \<Rightarrow> (alloc_meta \<times> payload) option"

definition fresh_meta :: "tid \<Rightarrow> size_t \<Rightarrow> alloc_meta" where
  "fresh_meta self n = bare (new_meta self n None 0)"

locale owner_heap =
  fixes invar :: "'s \<Rightarrow> bool"
    and cells :: "'s \<Rightarrow> addr \<Rightarrow> (alloc_meta \<times> payload) option"
    and statics :: "'s \<Rightarrow> 'e"
    and alloc :: "tid \<Rightarrow> size_t \<Rightarrow> 's \<Rightarrow> failure + (addr \<times> 's)"
    and resize :: "tid \<Rightarrow> addr \<Rightarrow> size_t \<Rightarrow> 's \<Rightarrow> failure + (addr \<times> 's)"
    and release :: "tid \<Rightarrow> addr \<Rightarrow> 's \<Rightarrow> failure + 's"
    and store :: "addr \<Rightarrow> payload \<Rightarrow> 's \<Rightarrow> 's"
  assumes alloc_returns: "invar s \<Longrightarrow> unat n + 80 < 2 ^ 64 \<Longrightarrow> \<exists>p s'. alloc self n s = Inr (p, s')"
    and alloc_result: "invar s \<Longrightarrow> alloc self n s = Inr (p, s') \<Longrightarrow>
      invar s' \<and> statics s' = statics s \<and>
      (p = 0 \<longrightarrow> cells s' = cells s) \<and>
      (p \<noteq> 0 \<longrightarrow> unat n + 80 < 2 ^ 64 \<and> cells s p = None \<and>
         cells s' = (cells s)(p \<mapsto> (fresh_meta self n, Filled 0xAA)))"
    and release_result: "invar s \<Longrightarrow> cells s p = Some (m, x) \<Longrightarrow> free_ok self m \<Longrightarrow>
      \<exists>s'. release self p s = Inr s' \<and> invar s' \<and> statics s' = statics s \<and>
        cells s' = (cells s)(p := None)"
    and resize_result: "invar s \<Longrightarrow> cells s p = Some (m, x) \<Longrightarrow> realloc_ok self m \<Longrightarrow> n \<noteq> 0 \<Longrightarrow>
      unat n + 80 < 2 ^ 64 \<Longrightarrow>
      \<exists>q s'. resize self p n s = Inr (q, s') \<and> invar s' \<and> statics s' = statics s \<and>
        (q = 0 \<longrightarrow> cells s' = cells s) \<and>
        (q \<noteq> 0 \<longrightarrow> (q = p \<or> cells s q = None) \<and>
           cells s' = ((cells s)(p := None))
             (q \<mapsto> (m\<lparr>m_size := n\<rparr>, resize_payload (unat (m_size m)) (unat n) x)))"
    and store_result: "invar s \<Longrightarrow> cells s p = Some (m, y) \<Longrightarrow>
      invar (store p x s) \<and> statics (store p x s) = statics s \<and>
      cells (store p x s) = (cells s)(p \<mapsto> (m, x))"
    and cells_nonnull: "cells s p = Some c \<Longrightarrow> p \<noteq> 0"
begin

text \<open>Releasing a list of different objects one after the other removes exactly those.\<close>

lemma release_all:
  assumes "invar s" and "distinct ps"
    and "\<And>p. p \<in> set ps \<Longrightarrow> \<exists>m x. cells s p = Some (m, x) \<and> free_ok self m"
  shows "\<exists>s'. foldE (release self) ps s = Inr s' \<and> invar s' \<and> statics s' = statics s \<and>
    cells s' = cells s |` (- set ps)"
  using assms
proof (induction ps arbitrary: s)
  case Nil
  then show ?case by (simp add: restrict_map_def fun_eq_iff)
next
  case (Cons p ps)
  obtain m x where p: "cells s p = Some (m, x)" "free_ok self m"
    using Cons.prems(3) [of p] by auto
  obtain s1 where s1: "release self p s = Inr s1" "invar s1" "statics s1 = statics s"
    "cells s1 = (cells s)(p := None)"
    using release_result [OF Cons.prems(1) p] by blast
  have "\<exists>m x. cells s1 q = Some (m, x) \<and> free_ok self m" if "q \<in> set ps" for q
  proof -
    have "q \<noteq> p" using that Cons.prems(2) by auto
    then show ?thesis using Cons.prems(3) [of q] that s1(4) by auto
  qed
  with Cons.IH [OF s1(2)] Cons.prems(2) obtain s' where
    "foldE (release self) ps s1 = Inr s'" "invar s'" "statics s' = statics s1"
    "cells s' = cells s1 |` (- set ps)" by auto
  with s1 show ?case by (auto simp: restrict_map_def fun_eq_iff)
qed

text \<open>An allocation that yields an object, and one that does not.\<close>

lemma alloc_cases:
  assumes "invar s" and "unat n + 80 < 2 ^ 64"
  obtains (null) s' where "alloc self n s = Inr (0, s')" and "invar s'" and "statics s' = statics s"
      and "cells s' = cells s"
  | (object) p s' where "alloc self n s = Inr (p, s')" and "p \<noteq> 0" and "invar s'"
      and "statics s' = statics s" and "cells s p = None"
      and "cells s' = (cells s)(p \<mapsto> (fresh_meta self n, Filled 0xAA))"
proof -
  obtain p s' where a: "alloc self n s = Inr (p, s')" using alloc_returns [OF assms] by blast
  from alloc_result [OF assms(1) a] show ?thesis
    by (cases "p = 0") (use a that in auto)
qed

lemma release_obtain:
  assumes "invar s" and "cells s p = Some (m, x)" and "free_ok self m"
  obtains s' where "release self p s = Inr s'" and "invar s'" and "statics s' = statics s"
    and "cells s' = (cells s)(p := None)"
  using release_result [OF assms] by blast

lemma resize_cases:
  assumes "invar s" and "cells s p = Some (m, x)" and "realloc_ok self m" and "n \<noteq> 0"
    and "unat n + 80 < 2 ^ 64"
  obtains (null) s' where "resize self p n s = Inr (0, s')" and "invar s'"
      and "statics s' = statics s" and "cells s' = cells s"
  | (object) q s' where "resize self p n s = Inr (q, s')" and "q \<noteq> 0" and "invar s'"
      and "statics s' = statics s" and "q = p \<or> cells s q = None"
      and "cells s' = ((cells s)(p := None))
             (q \<mapsto> (m\<lparr>m_size := n\<rparr>, resize_payload (unat (m_size m)) (unat n) x))"
proof -
  obtain q s' where r: "resize self p n s = Inr (q, s')" "invar s'" "statics s' = statics s"
    "q = 0 \<Longrightarrow> cells s' = cells s"
    "q \<noteq> 0 \<Longrightarrow> (q = p \<or> cells s q = None) \<and> cells s' = ((cells s)(p := None))
       (q \<mapsto> (m\<lparr>m_size := n\<rparr>, resize_payload (unat (m_size m)) (unat n) x))"
    using resize_result [OF assms] by blast
  then show ?thesis by (cases "q = 0") (use that in auto)
qed

end

subsection \<open>The runtime provides it\<close>

definition cell_at :: "'x rt_scheme \<Rightarrow> addr \<Rightarrow> (alloc_meta \<times> payload) option" where
  "cell_at st p = (if live st p then Some (the (obj_at st p), the (payload st p)) else None)"

lemma cell_at_Some:
  "cell_at st p = Some (m, x) \<longleftrightarrow>
     obj_at st p = Some m \<and> m_state m \<noteq> FREED \<and> x = the (payload st p)"
  by (auto simp: cell_at_def live_def split: option.splits)

lemma cell_at_None: "cell_at st p = None \<longleftrightarrow> \<not> live st p"
  by (simp add: cell_at_def)

lemma cell_at_eqI:
  assumes "\<And>p. obj_at st' p = obj_at st p" and "\<And>p. live st p \<Longrightarrow> payload st' p = payload st p"
  shows "cell_at st' = cell_at st"
  using assms by (simp add: fun_eq_iff cell_at_def live_def)

lemma rt_wf_rep: "rt_wf st \<Longrightarrow> \<exists>L. rt_rep st L"
  by (simp add: rt_wf_def rt_inv_def)

lemma rep_payload:
  assumes "rt_rep st L" and "get_meta st p = Inr (Some m)"
  obtains x where "payload st p = Some x"
proof -
  have "bare_hdr (hdr st) (meta_of p) = Some (bare m)"
    using assms(2) by (simp add: get_meta_Some bare_hdr_def)
  then show ?thesis
    using blocks_invD(6) [OF rt_rep_blocks [OF assms(1)], of "meta_of p" "bare m"] assms(2) that
    by (auto simp: get_meta_Some owns_block_def)
qed

text \<open>What a header says of an object in the map, and what reading and writing its payload do.\<close>

lemma cell_at_meta:
  assumes "cell_at st p = Some (m, x)"
  obtains m' where "get_meta st p = Inr (Some m')" and "m = bare m'" and "m_state m' \<noteq> FREED"
  using assms by (auto simp: cell_at_Some obj_at_Some)

lemma cell_at_get_meta:
  "get_meta st p = Inr (Some m) \<Longrightarrow> m_state m \<noteq> FREED \<Longrightarrow>
   cell_at st p = Some (bare m, the (payload st p))"
  by (simp add: cell_at_Some obj_at_get_meta bare_def)

lemma cell_usable: "cell_at st p = Some (m, x) \<Longrightarrow> usable st p = unat (m_size m)"
  by (auto simp: usable_def get_meta_Some elim!: cell_at_meta)

lemma cell_payload:
  assumes "rt_wf st" and "cell_at st p = Some (m, x)"
  shows "payload st p = Some x"
proof -
  obtain L where "rt_rep st L" using rt_wf_rep [OF assms(1)] by blast
  moreover obtain m' where "get_meta st p = Inr (Some m')" using assms(2) by (rule cell_at_meta)
  ultimately obtain y where "payload st p = Some y" by (rule rep_payload)
  with assms(2) show ?thesis by (simp add: cell_at_Some)
qed

lemma live_put [simp]: "live (put q x st) p = live st p" "obj_at (put q x st) p = obj_at st p"
  by (simp_all add: live_def obj_at_def)

lemma cell_at_put:
  "cell_at st p = Some (m, y) \<Longrightarrow> cell_at (put p x st) = (cell_at st)(p \<mapsto> (m, x))"
  by (auto simp: fun_eq_iff cell_at_def live_def obj_at_def split: if_splits)

lemma bare_realloc_ok [simp]: "realloc_ok self (bare m) = realloc_ok self m"
  by (simp add: realloc_ok_def)

lemma owner_malloc_cells:
  assumes "rt_wf st" and "owner_malloc self n st = Inr (p, st')"
  shows "rt_wf st' \<and> rt.more st' = rt.more st \<and> (p = 0 \<longrightarrow> cell_at st' = cell_at st) \<and>
    (p \<noteq> 0 \<longrightarrow> unat n + 80 < 2 ^ 64 \<and> cell_at st p = None \<and>
       cell_at st' = (cell_at st)(p \<mapsto> (fresh_meta self n, Filled 0xAA)))"
proof -
  have r: "owner_malloc_internal self n None 0 st = Inr (p, st')"
    using assms(2) by (simp add: owner_malloc_def)
  obtain L where L: "rt_rep st L" using rt_wf_rep [OF assms(1)] by blast
  have wf: "rt_wf st'" using owner_malloc_internal_wf [OF assms(1) r] by blast
  show ?thesis
  proof (cases "unat n + 80 < 2 ^ 64")
    case False
    then have w: "2 ^ 64 \<le> unat n + 80" by simp
    from w r obtain rs where "p = 0" "st' = st\<lparr>atexit_registered := True, replies := rs\<rparr>"
      by (rule owner_malloc_internal_Inr_wraps)
    with wf show ?thesis by (simp add: cell_at_def live_def obj_at_def fun_eq_iff)
  next
    case True
    note v = owner_malloc_internal_view [OF L True r]
    show ?thesis
    proof (cases "p = 0")
      case True
      then show ?thesis using wf v by (auto intro: cell_at_eqI)
    next
      case False
      have "\<not> live st p"
      proof
        assume "live st p"
        then obtain m where "get_meta st p = Inr (Some m)" by (auto elim: liveE)
        with v(4) [OF False] live_block(1) [OF L this] chunk_ok_notin show False by force
      qed
      then show ?thesis using wf v False True
        by (auto simp: cell_at_def live_def fun_eq_iff fresh_meta_def new_meta_def bare_def)
    qed
  qed
qed

lemma owner_free_cells:
  assumes "rt_wf st" and "cell_at st p = Some (m, x)" and "free_ok self m"
  shows "\<exists>st'. owner_free self p st = Inr st' \<and> rt_wf st' \<and> rt.more st' = rt.more st \<and>
    cell_at st' = (cell_at st)(p := None)"
proof -
  obtain L where L: "rt_rep st L" using rt_wf_rep [OF assms(1)] by blast
  obtain m' where m': "get_meta st p = Inr (Some m')" "m = bare m'"
    using assms(2) by (rule cell_at_meta)
  have ok: "free_ok self m'" using assms(3) m'(2) by simp
  obtain st' where r: "owner_free_internal self p None 0 st = Inr st'"
    using owner_free_internal_ok [OF L m'(1) ok] by blast
  note v = owner_free_internal_view [OF L m'(1) ok r]
  let ?old = "quarantine st ! quarantine_tail st"
  have dead: "\<not> live st (user_ptr ?old)" if "?old \<noteq> 0"
  proof
    assume l: "live st (user_ptr ?old)"
    have "?old \<in> set (quarantine st)"
      using L blocks_invD(2) [OF rt_rep_blocks [OF L]] by (simp add: rt_rep_def)
    then have "\<not> registered L ?old"
      using blocks_inv_registered_not_quarantined [OF rt_rep_blocks [OF L]] by blast
    with l live_registered [OF L] show False by simp
  qed
  have "cell_at st' = (cell_at st)(p := None)"
    using v(1,2) dead by (auto simp: fun_eq_iff cell_at_def live_def freed_meta_def bare_def)
  moreover have "rt_wf st'" using owner_free_internal_wf [OF assms(1) r] by blast
  ultimately show ?thesis using r v(5) by (simp add: owner_free_def)
qed

lemma owner_realloc_cells:
  assumes "rt_wf st" and "cell_at st p = Some (m, x)" and "realloc_ok self m" and "n \<noteq> 0"
    and "unat n + 80 < 2 ^ 64"
  shows "\<exists>q st'. owner_realloc self p n st = Inr (q, st') \<and> rt_wf st' \<and> rt.more st' = rt.more st \<and>
    (q = 0 \<longrightarrow> cell_at st' = cell_at st) \<and>
    (q \<noteq> 0 \<longrightarrow> (q = p \<or> cell_at st q = None) \<and>
       cell_at st' = ((cell_at st)(p := None))
         (q \<mapsto> (m\<lparr>m_size := n\<rparr>, resize_payload (unat (m_size m)) (unat n) x)))"
proof -
  obtain L where L: "rt_rep st L" using rt_wf_rep [OF assms(1)] by blast
  obtain m' where m': "get_meta st p = Inr (Some m')" "m = bare m'" "m_state m' \<noteq> FREED"
    using assms(2) by (rule cell_at_meta)
  have ok: "realloc_ok self m'" using assms(3) m'(2) by simp
  obtain q st' where r: "owner_realloc_internal self p n None 0 st = Inr (q, st')"
    using owner_realloc_internal_cases [OF L m'(1) ok assms(4), where fl = None and line = 0] assms(5)
    by (metis linorder_not_less)
  note v = owner_realloc_internal_view [OF L m'(1) ok assms(4) r]
  have wf: "rt_wf st'" using owner_realloc_internal_wf [OF assms(1) r] by blast
  have x: "payload st p = Some x" by (rule cell_payload [OF assms(1,2)])
  have sz: "m_size (bare m') = m_size m'" by (simp add: bare_def)
  have free: "q = p \<or> \<not> live st q" if "q \<noteq> 0"
  proof (rule ccontr)
    assume c: "\<not> (q = p \<or> \<not> live st q)"
    then obtain k where "get_meta st q = Inr (Some k)" by (auto elim: liveE)
    from live_block(1) [OF L this] c have "meta_of q \<in> fst ` set (without_chunk (meta_of p) (chunks st))"
      by force
    with chunk_ok_notin [OF v(9) [OF that]] show False by blast
  qed
  have "cell_at st' = ((cell_at st)(p := None))
      (q \<mapsto> (m\<lparr>m_size := n\<rparr>, resize_payload (unat (m_size m)) (unat n) x))" if "q \<noteq> 0"
    using v(1,2) that x m'(2,3) sz by (auto simp: fun_eq_iff cell_at_def live_def bare_def)
  moreover have "cell_at st' = cell_at st" if "q = 0"
    using v(1,2) that by (auto intro: cell_at_eqI)
  ultimately show ?thesis
    using r wf v(6) free by (auto simp: owner_realloc_def cell_at_None)
qed

lemma owner_malloc_returns:
  "rt_wf st \<Longrightarrow> unat n + 80 < 2 ^ 64 \<Longrightarrow> \<exists>p st'. owner_malloc self n st = Inr (p, st')"
  unfolding owner_malloc_def using rt_wf_rep owner_malloc_internal_returns by metis

lemma put_cells:
  "rt_wf st \<Longrightarrow> cell_at st p = Some (m, y) \<Longrightarrow>
   rt_wf (put p x st) \<and> rt.more (put p x st) = rt.more st \<and>
   cell_at (put p x st) = (cell_at st)(p \<mapsto> (m, x))"
  using rt_wf_put [of st p x] cell_at_put [of st p m y x] by simp

lemma cell_at_nonnull: "cell_at st p = Some c \<Longrightarrow> p \<noteq> 0"
  by (auto simp: cell_at_def split: if_splits)

interpretation heap: owner_heap rt_wf cell_at rt.more owner_malloc owner_realloc owner_free put
  by unfold_locales
    (rule owner_malloc_returns owner_malloc_cells owner_free_cells owner_realloc_cells put_cells
      cell_at_nonnull; assumption)+

lemma calloc_cases:
  assumes "rt_wf st" and "unat k * unat n + 80 < 2 ^ 64"
  obtains (null) st' where "owner_calloc self k n st = Inr (0, st')" and "rt_wf st'"
      and "rt.more st' = rt.more st" and "cell_at st' = cell_at st"
  | (object) p st' where "owner_calloc self k n st = Inr (p, st')" and "p \<noteq> 0" and "rt_wf st'"
      and "rt.more st' = rt.more st" and "cell_at st p = None"
      and "cell_at st' = (cell_at st)(p \<mapsto> (fresh_meta self (k * n), Filled 0))"
proof -
  have u: "unat (k * n) = unat k * unat n" using assms(2) by (intro unat_mult_no_overflow) simp
  then have n: "unat (k * n) + 80 < 2 ^ 64" using assms(2) by simp
  from assms(1) n show ?thesis
  proof (cases rule: heap.alloc_cases [where self = self])
    case (null st')
    with null(1) show ?thesis using that(1) by (simp add: owner_calloc_def owner_malloc_def)
  next
    case (object p st')
    have c: "cell_at st' p = Some (fresh_meta self (k * n), Filled 0xAA)" using object(6) by simp
    note s = heap.store_result [OF object(3) c, of "Filled 0"]
    have "owner_calloc self k n st = Inr (p, put p (Filled 0) st')"
      using object(1,2) by (simp add: owner_calloc_def owner_malloc_def)
    with s object show ?thesis by (intro that(2) [of p "put p (Filled 0) st'"]) auto
  qed
qed

text \<open>The result of a loop: not coming back is a failure of its own.\<close>

definition returned :: "(failure + 's) option \<Rightarrow> failure + 's" where
  "returned r = (case r of None \<Rightarrow> Inl Diverged | Some x \<Rightarrow> x)"

subsection \<open>Structs, slots and bytes of live objects\<close>

text \<open>Reading a struct of a given type from an object; a freed object holds none.\<close>

definition field :: "(payload \<Rightarrow> 'a option) \<Rightarrow> 'x rt_scheme \<Rightarrow> addr \<Rightarrow> failure + 'a" where
  "field sel st p =
     (case payload st p of
        None \<Rightarrow> Inl (Undefined ''read of unmapped memory'')
      | Some x \<Rightarrow> (case sel x of None \<Rightarrow> Inl (Undefined ''not an object of this type'') | Some v \<Rightarrow> Inr v))"

lemma field_cell:
  "rt_wf st \<Longrightarrow> cell_at st p = Some (m, x) \<Longrightarrow> sel x = Some v \<Longrightarrow> field sel st p = Inr v"
  by (simp add: field_def cell_payload)

lemma load_slot_cell:
  "rt_wf st \<Longrightarrow> cell_at st p = Some (m, x) \<Longrightarrow> 8 * (i + 1) \<le> unat (m_size m) \<Longrightarrow>
   slot_view x i = Some v \<Longrightarrow> load_slot st p i = Inr v"
  by (simp add: load_slot_def cell_payload cell_usable)

lemma store_slot_cell:
  "rt_wf st \<Longrightarrow> cell_at st p = Some (m, x) \<Longrightarrow> 8 * (i + 1) \<le> unat (m_size m) \<Longrightarrow>
   store_slot p i v st = Inr (put p (Slots ((slot_view x)(i \<mapsto> v))) st)"
  by (simp add: store_slot_def cell_payload cell_usable)

lemma store_slot_overrun:
  "rt_wf st \<Longrightarrow> cell_at st p = Some (m, x) \<Longrightarrow> unat (m_size m) < 8 * (i + 1) \<Longrightarrow>
   store_slot p i v st = Inl (Undefined ''write past the block'')"
  by (simp add: store_slot_def cell_payload cell_usable)

lemma load_byte_cell:
  "rt_wf st \<Longrightarrow> cell_at st p = Some (m, x) \<Longrightarrow> i < unat (m_size m) \<Longrightarrow>
   byte_view x i = Some v \<Longrightarrow> load_byte st p i = Inr v"
  by (simp add: load_byte_def cell_payload cell_usable)

lemma store_byte_cell:
  "rt_wf st \<Longrightarrow> cell_at st p = Some (m, x) \<Longrightarrow> i < unat (m_size m) \<Longrightarrow>
   store_byte p i v st = Inr (put p (Bytes ((byte_view x)(i \<mapsto> v))) st)"
  by (simp add: store_byte_def cell_payload cell_usable)

lemma free_ok_realloc_ok: "free_ok self m \<Longrightarrow> realloc_ok self m"
  by (simp add: free_ok_def realloc_ok_def)

lemma fresh_meta_simps [simp]: "free_ok self (fresh_meta self n)" "m_size (fresh_meta self n) = n"
  by (simp_all add: fresh_meta_def free_ok_def new_meta_def bare_def)

lemma free_ok_resized [simp]: "free_ok self (m\<lparr>m_size := n\<rparr>) = free_ok self m"
  by (simp add: free_ok_def)

lemma unat_of_nat_lt: "n < 2 ^ 64 \<Longrightarrow> unat (of_nat n :: size_t) = n"
  by (simp add: unat_of_nat)

lemma store_slot_wf: "rt_wf st \<Longrightarrow> store_slot p i v st = Inr st' \<Longrightarrow> rt_wf st'"
  by (auto simp: store_slot_def rt_wf_put split: option.splits if_splits)

lemma owner_free_wf: "rt_wf st \<Longrightarrow> owner_free self p st = Inr st' \<Longrightarrow> rt_wf st'"
  unfolding owner_free_def using owner_free_internal_wf by blast

text \<open>A struct assigned to memory the program owns; nothing is mapped at the null pointer.\<close>

definition write_struct :: "addr \<Rightarrow> payload \<Rightarrow> 'x rt_scheme \<Rightarrow> failure + 'x rt_scheme" where
  "write_struct p x st =
     (if p = 0 \<or> payload st p = None then Inl (Undefined ''write to unmapped memory'') else Inr (put p x st))"

lemma write_struct_cell:
  assumes "rt_wf st" and "cell_at st p = Some (m, y)"
  shows "write_struct p x st = Inr (put p x st)" and "rt_wf (put p x st)"
    and "cell_at (put p x st) = (cell_at st)(p \<mapsto> (m, x))"
  using cell_payload [OF assms] cell_at_nonnull [OF assms(2)] heap.store_result [OF assms, of x]
  by (simp_all add: write_struct_def)

text \<open>The slots of a pointer buffer that somebody stored to.\<close>

fun slots_of :: "payload \<Rightarrow> nat \<Rightarrow> addr option" where
  "slots_of (Slots f) = f"
| "slots_of _ = (\<lambda>_. None)"

lemma slots_of_view: "slots_of x i = Some v \<Longrightarrow> slot_view x i = Some v"
  by (cases x) auto

lemma slots_of_resize: "8 * (i + 1) \<le> min a b \<Longrightarrow> slots_of (resize_payload a b x) i = slots_of x i"
  by (cases x) auto

text \<open>Nothing outside a set of addresses changed: what was there still is.\<close>

definition keeps :: "addr set \<Rightarrow> 'x rt_scheme \<Rightarrow> 'x rt_scheme \<Rightarrow> bool" where
  "keeps F st st' \<longleftrightarrow> rt.more st' = rt.more st \<and>
     (\<forall>q c. q \<notin> F \<longrightarrow> cell_at st q = Some c \<longrightarrow> cell_at st' q = Some c)"

lemma keeps_refl [simp]: "keeps F st st"
  by (simp add: keeps_def)

lemma keeps_trans: "keeps F st st1 \<Longrightarrow> keeps F st1 st2 \<Longrightarrow> keeps F st st2"
  by (simp add: keeps_def)

lemma keeps_mono: "keeps F st st' \<Longrightarrow> F \<subseteq> G \<Longrightarrow> keeps G st st'"
  by (auto simp: keeps_def)

text \<open>The objects \<open>A\<close> were replaced by the objects \<open>B\<close>, and the rest of the heap is the same.\<close>

definition moves :: "addr set \<Rightarrow> addr set \<Rightarrow> 'x rt_scheme \<Rightarrow> 'x rt_scheme \<Rightarrow> bool" where
  "moves A B st st' \<longleftrightarrow> rt.more st' = rt.more st \<and> cell_at st' |` (- B) = cell_at st |` (- A)"

lemma moves_refl [simp]: "moves A A st st"
  by (simp add: moves_def)

lemma moves_trans: "moves A B st st1 \<Longrightarrow> moves B C st1 st2 \<Longrightarrow> moves A C st st2"
  by (simp add: moves_def)

lemma moves_frame: "moves A B st st' \<Longrightarrow> moves (A \<union> F) (B \<union> F) st st'"
  unfolding moves_def by (metis Compl_Un restrict_restrict)

lemma moves_same: "moves {} {} st st' \<longleftrightarrow> rt.more st' = rt.more st \<and> cell_at st' = cell_at st"
  by (simp add: moves_def restrict_map_def)

text \<open>What was there outside \<open>A\<close> still is, and it is none of the new objects.\<close>

lemma moves_cell:
  assumes "moves A B st st'" and "cell_at st q = Some c" and "q \<notin> A"
  shows "cell_at st' q = Some c" and "q \<notin> B"
proof -
  have "(cell_at st' |` (- B)) q = (cell_at st |` (- A)) q" using assms(1) by (simp add: moves_def)
  with assms(2,3) show "cell_at st' q = Some c" "q \<notin> B"
    by (auto simp: restrict_map_def split: if_splits)
qed

lemma moves_keeps: "moves A B st st' \<Longrightarrow> keeps A st st'"
  unfolding keeps_def using moves_cell(1) [of A B st st'] moves_def [of A B st st'] by blast

subsection \<open>Runs for the examples\<close>

lemma example_start_wf: "rt_wf example_start"
  unfolding example_start_def by (rule rt_wf_init)

definition roomy_start :: rt where
  "roomy_start = rt_init [0x1000, 0x2000, 0x3000, 0x4000, 0x5000, 0x6000, 0x7000, 0x8000] 1 2 3"

lemma roomy_start_wf: "rt_wf roomy_start"
  unfolding roomy_start_def by (rule rt_wf_init)

end
