(* ===== verification/Vector.thy ===== *)
theory Vector
  imports Heap
begin

text \<open>
  The growable pointer vector of \<open>src/collections.c\<close> and the typed wrappers that
  \<open>OWNEDC_DEFINE_VECTOR\<close> of \<open>include/ownedc_generics.h\<close> generates around it.  A vector is two
  tracked objects, the struct and its buffer; \<open>vec_rep\<close> relates them to the list they hold.
\<close>

fun vec_of :: "payload \<Rightarrow> safe_vector option" where
  "vec_of (Vec v) = Some v"
| "vec_of _ = None"

definition safe_vector_create ::
    "tid \<Rightarrow> size_t \<Rightarrow> 'x rt_scheme \<Rightarrow> failure + (addr \<times> 'x rt_scheme)" where
  "safe_vector_create self initial_capacity st =
     (let initial_capacity = (if initial_capacity = 0 then 4 else initial_capacity) in
      bindE (owner_malloc self 24 st) (\<lambda>(vec, st).
        if vec = 0 then Inr (0, st)
        else bindE (owner_malloc self (initial_capacity * 8) st) (\<lambda>(data, st).
          if data = 0 then bindE (owner_free self vec st) (\<lambda>st. Inr (0, st))
          else Inr (vec, put vec (Vec \<lparr>vec_data = data, vec_length = 0,
                                        vec_capacity = initial_capacity\<rparr>) st))))"

definition safe_vector_push :: "tid \<Rightarrow> addr \<Rightarrow> addr \<Rightarrow> 'x rt_scheme \<Rightarrow> failure + 'x rt_scheme" where
  "safe_vector_push self vec item st =
     (if vec = 0 then Inr st
      else bindE (field vec_of st vec) (\<lambda>v.
        bindE (if vec_length v \<ge> vec_capacity v
               then let new_cap = vec_capacity v * 2 in
                 bindE (owner_realloc self (vec_data v) (new_cap * 8) st) (\<lambda>(new_data, st).
                   if new_data = 0
                   then Inl (Fatal ''Failed to reallocate safe_vector'' vec
                               (Some ''src/collections.c'') 31)
                   else let v = v\<lparr>vec_data := new_data, vec_capacity := new_cap\<rparr>
                        in Inr (v, put vec (Vec v) st))
               else Inr (v, st)) (\<lambda>(v, st).
        bindE (store_slot (vec_data v) (unat (vec_length v)) item st) (\<lambda>st.
        Inr (put vec (Vec (v\<lparr>vec_length := vec_length v + 1\<rparr>)) st)))))"

definition safe_vector_get :: "addr \<Rightarrow> size_t \<Rightarrow> 'x rt_scheme \<Rightarrow> failure + addr" where
  "safe_vector_get vec index st =
     (if vec = 0 then Inr 0
      else bindE (field vec_of st vec) (\<lambda>v.
        if index \<ge> vec_length v
        then Inl (Fatal ''Out-of-bounds safe_vector access'' vec (Some ''src/collections.c'') 45)
        else load_slot st (vec_data v) (unat index)))"

definition safe_vector_length :: "addr \<Rightarrow> 'x rt_scheme \<Rightarrow> failure + size_t" where
  "safe_vector_length vec st =
     (if vec = 0 then Inr 0 else bindE (field vec_of st vec) (\<lambda>v. Inr (vec_length v)))"

definition safe_vector_free :: "tid \<Rightarrow> addr \<Rightarrow> 'x rt_scheme \<Rightarrow> failure + 'x rt_scheme" where
  "safe_vector_free self vec st =
     (if vec = 0 then Inr st
      else bindE (field vec_of st vec) (\<lambda>v.
        bindE (if vec_data v \<noteq> 0 then owner_free self (vec_data v) st else Inr st)
          (owner_free self vec)))"

text \<open>One round of the loop that shifts the elements left.\<close>

definition shift_left :: "addr \<Rightarrow> nat \<Rightarrow> 'x rt_scheme \<Rightarrow> failure + 'x rt_scheme" where
  "shift_left data i st = bindE (load_slot st data (i + 1)) (\<lambda>x. store_slot data i x st)"

definition safe_vector_remove :: "addr \<Rightarrow> size_t \<Rightarrow> 'x rt_scheme \<Rightarrow> failure + 'x rt_scheme" where
  "safe_vector_remove vec index st =
     (if vec = 0 then Inl (Aborted ''Null vector access.'')
      else bindE (field vec_of st vec) (\<lambda>v.
        if vec_data v = 0 then Inl (Aborted ''Null vector access.'')
        else if index \<ge> vec_length v then Inl (Aborted ''Vector bounds violation!'')
        else bindE (foldE (shift_left (vec_data v)) [unat index ..< unat (vec_length v - 1)] st)
          (\<lambda>st. Inr (put vec (Vec (v\<lparr>vec_length := vec_length v - 1\<rparr>)) st))))"

subsection \<open>Typed wrappers\<close>

text \<open>\<open>Name_new\<close> and \<open>Name_free\<close>; the wrapper struct is the pointer it holds.\<close>

definition vector_new :: "tid \<Rightarrow> 'x rt_scheme \<Rightarrow> failure + (addr \<times> 'x rt_scheme)" where
  "vector_new self st = safe_vector_create self 16 st"

definition vector_free :: "tid \<Rightarrow> addr \<Rightarrow> 'x rt_scheme \<Rightarrow> failure + (addr \<times> 'x rt_scheme)" where
  "vector_free self inner st =
     (if inner \<noteq> 0 then bindE (safe_vector_free self inner st) (\<lambda>st. Inr (0, st)) else Inr (inner, st))"

subsection \<open>What a vector represents\<close>

definition vec_rep :: "tid \<Rightarrow> 'x rt_scheme \<Rightarrow> addr \<Rightarrow> addr \<Rightarrow> nat \<Rightarrow> addr list \<Rightarrow> bool" where
  "vec_rep self st vec data cap xs \<longleftrightarrow> data \<noteq> vec \<and>
     (\<exists>m v md y. cell_at st vec = Some (m, Vec v) \<and> free_ok self m \<and>
        vec_data v = data \<and> cell_at st data = Some (md, y) \<and> free_ok self md \<and>
        unat (vec_length v) = length xs \<and> unat (vec_capacity v) = cap \<and>
        length xs \<le> cap \<and> 0 < cap \<and> unat (m_size md) = 8 * cap \<and>
        (\<forall>i < length xs. slots_of y i = Some (xs ! i)))"

lemma vec_repE:
  assumes "vec_rep self st vec data cap xs"
  obtains m v md y where "cell_at st vec = Some (m, Vec v)" "free_ok self m" "vec_data v = data"
    "cell_at st data = Some (md, y)" "free_ok self md" "unat (vec_length v) = length xs"
    "unat (vec_capacity v) = cap" "length xs \<le> cap" "0 < cap" "unat (m_size md) = 8 * cap"
    "\<And>i. i < length xs \<Longrightarrow> slots_of y i = Some (xs ! i)" "data \<noteq> vec" "vec \<noteq> 0" "data \<noteq> 0"
  using assms cell_at_nonnull unfolding vec_rep_def by metis

lemma safe_vector_create_rep:
  assumes "rt_wf st" and "unat cap * 8 + 80 < 2 ^ 64"
  shows "\<exists>vec st'. safe_vector_create self cap st = Inr (vec, st') \<and> rt_wf st' \<and> keeps {} st st' \<and>
    (if vec = 0 then cell_at st' = cell_at st
     else cell_at st vec = None \<and>
       (\<exists>data. vec_rep self st' vec data (if cap = 0 then 4 else unat cap) [] \<and>
          cell_at st data = None \<and> cell_at st' |` (- {vec, data}) = cell_at st))"
proof -
  let ?cap = "if cap = 0 then 4 else cap"
  have c: "unat (?cap * 8) = unat ?cap * 8"
    using assms(2) unat_mult_no_overflow [of ?cap 8] by (auto split: if_splits)
  have n: "unat (?cap * 8) + 80 < 2 ^ 64" using assms(2) c by (auto split: if_splits)
  have n24: "unat (24 :: size_t) + 80 < 2 ^ 64" by simp
  from assms(1) n24 show ?thesis
  proof (cases rule: heap.alloc_cases [where self = self])
    case (null s')
    then show ?thesis by (simp add: safe_vector_create_def keeps_def)
  next
    case vec: (object vec s1)
    from vec(3) n show ?thesis
    proof (cases rule: heap.alloc_cases [where self = self])
      case (null s2)
      have "cell_at s2 vec = Some (fresh_meta self 24, Filled 0xAA)" using null vec by simp
      then obtain s3 where "owner_free self vec s2 = Inr s3" "rt_wf s3" "rt.more s3 = rt.more s2"
        "cell_at s3 = (cell_at s2)(vec := None)"
        by (rule heap.release_obtain [OF null(2) _ fresh_meta_simps(1)])
      with null vec show ?thesis
        by (auto simp: safe_vector_create_def keeps_def fun_upd_idem)
    next
      case (object data s2)
      have v: "data \<noteq> vec" using object(5) vec(6) by auto
      then have cv: "cell_at s2 vec = Some (fresh_meta self 24, Filled 0xAA)"
        using object vec by simp
      let ?v = "\<lparr>vec_data = data, vec_length = 0, vec_capacity = ?cap\<rparr>"
      note p = heap.store_result [OF object(3) cv, of "Vec ?v"]
      have "vec_rep self (put vec (Vec ?v) s2) vec data (unat ?cap) []"
        using p object(6) v c unfolding vec_rep_def by (auto simp: unat_gt_0)
      then show ?thesis
        using p object vec v
        by (auto simp: safe_vector_create_def keeps_def restrict_map_def fun_eq_iff)
    qed
  qed
qed

lemma unat_suc: "unat (a :: size_t) < unat (b :: size_t) \<Longrightarrow> unat (a + 1) = unat a + 1"
  using unat_lt_2p64 [of b] unat_add_no_overflow [of a 1] by simp

text \<open>Appending to a buffer that has room.\<close>

lemma vec_store_rep:
  assumes "rt_wf st" and "cell_at st vec = Some (m, Vec v0)" and "free_ok self m"
    and "cell_at st (vec_data v) = Some (md, y)" and "free_ok self md" and "vec_data v \<noteq> vec"
    and "unat (vec_length v) = length xs" and "length xs < unat (vec_capacity v)"
    and "unat (m_size md) = 8 * unat (vec_capacity v)"
    and "\<And>i. i < length xs \<Longrightarrow> slots_of y i = Some (xs ! i)"
  shows "\<exists>st'. bindE (store_slot (vec_data v) (unat (vec_length v)) x st)
      (\<lambda>st. Inr (put vec (Vec (v\<lparr>vec_length := vec_length v + 1\<rparr>)) st)) = Inr st' \<and> rt_wf st' \<and>
    vec_rep self st' vec (vec_data v) (unat (vec_capacity v)) (xs @ [x]) \<and>
    moves {vec, vec_data v} {vec, vec_data v} st st'"
proof -
  let ?i = "unat (vec_length v)"
  let ?y = "Slots ((slot_view y)(?i \<mapsto> x))"
  let ?v = "v\<lparr>vec_length := vec_length v + 1\<rparr>"
  have s: "store_slot (vec_data v) ?i x st = Inr (put (vec_data v) ?y st)"
    using assms by (intro store_slot_cell) auto
  note p = heap.store_result [OF assms(1,4), of ?y]
  have c: "cell_at (put (vec_data v) ?y st) vec = Some (m, Vec v0)" using p assms(2,6) by simp
  note q = heap.store_result [OF conjunct1 [OF p] c, of "Vec ?v"]
  have "unat (vec_length v + 1) = length xs + 1"
    using unat_suc [of "vec_length v" "vec_capacity v"] assms(7,8) by simp
  then have "vec_rep self (put vec (Vec ?v) (put (vec_data v) ?y st)) vec (vec_data v)
      (unat (vec_capacity v)) (xs @ [x])"
    using p q assms(3,5-10) unfolding vec_rep_def
    by (auto simp: nth_append less_Suc_eq intro: slots_of_view)
  then show ?thesis using s p q by (auto simp: moves_def restrict_map_def fun_eq_iff)
qed

lemma safe_vector_push_rep:
  assumes "rt_wf st" and "vec_rep self st vec data cap xs" and "cap * 16 + 80 < 2 ^ 64"
  shows "(\<exists>st' data'. safe_vector_push self vec x st = Inr st' \<and> rt_wf st' \<and>
      vec_rep self st' vec data' (if length xs < cap then cap else 2 * cap) (xs @ [x]) \<and>
      moves {vec, data} {vec, data'} st st') \<or>
    length xs = cap \<and> safe_vector_push self vec x st =
      Inl (Fatal ''Failed to reallocate safe_vector'' vec (Some ''src/collections.c'') 31)"
  using assms(2)
proof (rule vec_repE, goal_cases)
  case (1 m v md y)
  have f: "field vec_of st vec = Inr v" by (rule field_cell [OF assms(1) 1(1)]) simp
  show ?case
  proof (cases "length xs < cap")
    case True
    then have nl: "\<not> vec_length v \<ge> vec_capacity v" using 1 by (simp add: word_le_nat_alt)
    have "data \<noteq> vec" "vec \<noteq> 0" using 1 by auto
    with vec_store_rep [OF assms(1) 1(1,2), of v md y xs x] 1 True nl f show ?thesis
      by (auto simp: safe_vector_push_def)
  next
    case False
    then have ge: "vec_capacity v \<le> vec_length v" and l: "length xs = cap"
      using 1 by (simp_all add: word_le_nat_alt)
    let ?cap = "vec_capacity v * 2"
    have c2: "unat ?cap = 2 * cap" using unat_mult_no_overflow [of "vec_capacity v" 2] assms(3) 1 by simp
    have c8: "unat (?cap * 8) = 16 * cap" using unat_mult_no_overflow [of ?cap 8] assms(3) c2 by simp
    have nz: "?cap * 8 \<noteq> 0" using c8 1(9) by (metis mult_is_0 neq0_conv unsigned_0 zero_neq_numeral)
    have n: "unat (?cap * 8) + 80 < 2 ^ 64" using c8 assms(3) by simp
    from assms(1) 1(4) free_ok_realloc_ok [OF 1(5)] nz n show ?thesis
    proof (cases rule: heap.resize_cases)
      case (null s')
      then show ?thesis using f ge l 1 by (simp add: safe_vector_push_def)
    next
      case (object q s')
      have qv: "q \<noteq> vec" using object(5) 1 by auto
      let ?v = "v\<lparr>vec_data := q, vec_capacity := ?cap\<rparr>"
      have cv: "cell_at s' vec = Some (m, Vec v)" using object(6) 1 qv by simp
      note p = heap.store_result [OF object(3) cv, of "Vec ?v"]
      let ?z = "resize_payload (unat (m_size md)) (unat (?cap * 8)) y"
      have cd: "cell_at (put vec (Vec ?v) s') q = Some (md\<lparr>m_size := ?cap * 8\<rparr>, ?z)"
        using p object(6) qv by simp
      have z: "slots_of ?z i = Some (xs ! i)" if "i < length xs" for i
        using that 1 c8 by (subst slots_of_resize) auto
      have "\<exists>st'. bindE (store_slot (vec_data ?v) (unat (vec_length ?v)) x (put vec (Vec ?v) s'))
          (\<lambda>st. Inr (put vec (Vec (?v\<lparr>vec_length := vec_length ?v + 1\<rparr>)) st)) = Inr st' \<and> rt_wf st' \<and>
        vec_rep self st' vec (vec_data ?v) (unat (vec_capacity ?v)) (xs @ [x]) \<and>
        moves {vec, vec_data ?v} {vec, vec_data ?v} (put vec (Vec ?v) s') st'"
        by (rule vec_store_rep [where m = m and md = "md\<lparr>m_size := ?cap * 8\<rparr>" and y = ?z])
          (use p cd 1 qv l z c2 c8 in auto)
      then obtain st' where
        st': "bindE (store_slot q (unat (vec_length v)) x (put vec (Vec ?v) s'))
          (\<lambda>st. Inr (put vec (Vec (?v\<lparr>vec_length := vec_length v + 1\<rparr>)) st)) = Inr st'" "rt_wf st'"
        "vec_rep self st' vec q (2 * cap) (xs @ [x])" "moves {vec, q} {vec, q} (put vec (Vec ?v) s') st'"
        using c2 by auto
      have "safe_vector_push self vec x st = Inr st'"
        using f ge 1 object st'(1) by (simp add: safe_vector_push_def Let_def)
      moreover have "moves {vec, data} {vec, q} st (put vec (Vec ?v) s')"
        using object(4-6) p 1 qv by (auto simp: moves_def restrict_map_def fun_eq_iff)
      from moves_trans [OF this st'(4)] have "moves {vec, data} {vec, q} st st'" .
      ultimately show ?thesis using st' l by auto
    qed
  qed
qed

lemma safe_vector_get_rep:
  assumes "rt_wf st" and "vec_rep self st vec data cap xs"
  shows "safe_vector_get vec i st =
     (if unat i < length xs then Inr (xs ! unat i)
      else Inl (Fatal ''Out-of-bounds safe_vector access'' vec (Some ''src/collections.c'') 45))"
  using assms(2)
proof (rule vec_repE, goal_cases)
  case (1 m v md y)
  have f: "field vec_of st vec = Inr v" by (rule field_cell [OF assms(1) 1(1)]) simp
  have "load_slot st data (unat i) = Inr (xs ! unat i)" if "unat i < length xs"
    using that 1 by (intro load_slot_cell [OF assms(1) 1(4)]) (auto intro: slots_of_view)
  with f 1 show ?case by (auto simp: safe_vector_get_def word_le_nat_alt)
qed

lemma safe_vector_length_rep:
  assumes "rt_wf st" and "vec_rep self st vec data cap xs"
  shows "safe_vector_length vec st = Inr (of_nat (length xs))"
  using assms(2)
proof (rule vec_repE, goal_cases)
  case (1 m v md y)
  have f: "field vec_of st vec = Inr v" by (rule field_cell [OF assms(1) 1(1)]) simp
  have "vec_length v = of_nat (length xs)" by (simp flip: 1(6))
  with f 1 show ?case by (simp add: safe_vector_length_def)
qed

lemma shift_left_upto:
  assumes "rt_wf st" and "cell_at st data = Some (md, y)" and "8 * n \<le> unat (m_size md)"
    and "\<And>i. i < n \<Longrightarrow> slots_of y i = Some (xs ! i)" and "k + j < n"
  shows "\<exists>st' y'. foldE (shift_left data) [k..<k + j] st = Inr st' \<and> rt_wf st' \<and>
    rt.more st' = rt.more st \<and> cell_at st' = (cell_at st)(data \<mapsto> (md, y')) \<and>
    (\<forall>i < n. slots_of y' i = Some (xs ! (if k \<le> i \<and> i < k + j then i + 1 else i)))"
  using assms(5)
proof (induction j)
  case 0
  then show ?case using assms by (intro exI [of _ st] exI [of _ y]) auto
next
  case (Suc j)
  then have "k + j < n" by simp
  from Suc.IH [OF this]
  obtain s1 y1 where s1: "foldE (shift_left data) [k..<k + j] st = Inr s1" "rt_wf s1"
    "rt.more s1 = rt.more st" "cell_at s1 = (cell_at st)(data \<mapsto> (md, y1))"
    and y1: "\<And>i. i < n \<Longrightarrow> slots_of y1 i = Some (xs ! (if k \<le> i \<and> i < k + j then i + 1 else i))"
    by blast
  have c: "cell_at s1 data = Some (md, y1)" using s1(4) by simp
  let ?y = "Slots ((slot_view y1)(k + j \<mapsto> xs ! (k + j + 1)))"
  have "load_slot s1 data (k + j + 1) = Inr (xs ! (k + j + 1))"
    using Suc.prems assms(3) y1 [of "k + j + 1"]
    by (intro load_slot_cell [OF s1(2) c]) (auto intro: slots_of_view)
  moreover have "store_slot data (k + j) v s1 = Inr (put data (Slots ((slot_view y1)(k + j \<mapsto> v))) s1)" for v
    using Suc.prems assms(3) by (intro store_slot_cell [OF s1(2) c]) auto
  ultimately have "foldE (shift_left data) [k..<k + Suc j] st = Inr (put data ?y s1)"
    using s1(1) by (simp add: foldE_append shift_left_def)
  moreover note heap.store_result [OF s1(2) c, of ?y]
  moreover have "slots_of ?y i = Some (xs ! (if k \<le> i \<and> i < k + Suc j then i + 1 else i))" if "i < n" for i
    using y1 [OF that] slots_of_view [OF y1 [OF that]] by auto
  ultimately show ?case
    using s1 by (intro exI [of _ "put data ?y s1"] exI [of _ ?y]) auto
qed

lemma safe_vector_remove_rep:
  assumes "rt_wf st" and "vec_rep self st vec data cap xs"
  shows "if unat i < length xs
    then \<exists>st'. safe_vector_remove vec i st = Inr st' \<and> rt_wf st' \<and>
      vec_rep self st' vec data cap (take (unat i) xs @ drop (unat i + 1) xs) \<and> keeps {vec, data} st st'
    else safe_vector_remove vec i st = Inl (Aborted ''Vector bounds violation!'')"
  using assms(2)
proof (rule vec_repE, goal_cases)
  case (1 m v md y)
  have f: "field vec_of st vec = Inr v" by (rule field_cell [OF assms(1) 1(1)]) simp
  show ?case
  proof (cases "unat i < length xs")
    case False
    with f 1 show ?thesis by (simp add: safe_vector_remove_def word_le_nat_alt)
  next
    case True
    let ?n = "length xs" and ?k = "unat i"
    let ?v = "v\<lparr>vec_length := vec_length v - 1\<rparr>"
    let ?ys = "take ?k xs @ drop (Suc ?k) xs"
    have l1: "unat (vec_length v - 1) = ?n - 1"
      using 1(6) True by (simp add: unat_sub word_le_nat_alt)
    have k: "?k + (?n - 1 - ?k) = ?n - 1" "?k + (?n - 1 - ?k) < ?n" using True by auto
    obtain s1 y1 where s1: "foldE (shift_left data) [?k..<?n - 1] st = Inr s1" "rt_wf s1"
      "rt.more s1 = rt.more st" "cell_at s1 = (cell_at st)(data \<mapsto> (md, y1))"
      and y1: "\<And>j. j < ?n \<Longrightarrow> slots_of y1 j = Some (xs ! (if ?k \<le> j \<and> j < ?n - 1 then j + 1 else j))"
      using shift_left_upto [OF assms(1) 1(4) _ 1(11) k(2)] 1 unfolding k(1) by auto
    have cv: "cell_at s1 vec = Some (m, Vec v)" using s1(4) 1 by simp
    note p = heap.store_result [OF s1(2) cv, of "Vec ?v"]
    have nth: "?ys ! j = xs ! (if ?k \<le> j then Suc j else j)" if "j < ?n - 1" for j
      using that True by (auto simp: nth_append min_def)
    have "vec_rep self (put vec (Vec ?v) s1) vec data cap ?ys"
      using p s1(4) 1 l1 y1 True unfolding vec_rep_def by (auto simp: nth)
    moreover have "safe_vector_remove vec i st = Inr (put vec (Vec ?v) s1)"
      using f 1 True l1 s1(1) by (simp add: safe_vector_remove_def word_le_nat_alt)
    moreover have "keeps {vec, data} st (put vec (Vec ?v) s1)" using p s1 by (auto simp: keeps_def)
    ultimately show ?thesis using True p by auto
  qed
qed

lemma safe_vector_free_rep:
  assumes "rt_wf st" and "vec_rep self st vec data cap xs"
  shows "\<exists>st'. safe_vector_free self vec st = Inr st' \<and> rt_wf st' \<and> rt.more st' = rt.more st \<and>
    cell_at st' = cell_at st |` (- {vec, data})"
  using assms(2)
proof (rule vec_repE, goal_cases)
  case (1 m v md y)
  have f: "field vec_of st vec = Inr v" by (rule field_cell [OF assms(1) 1(1)]) simp
  obtain s1 where s1: "owner_free self data st = Inr s1" "rt_wf s1" "rt.more s1 = rt.more st"
    "cell_at s1 = (cell_at st)(data := None)"
    by (rule heap.release_obtain [OF assms(1) 1(4,5)])
  have "cell_at s1 vec = Some (m, Vec v)" using s1(4) 1 by simp
  then obtain s2 where s2: "owner_free self vec s1 = Inr s2" "rt_wf s2" "rt.more s2 = rt.more s1"
    "cell_at s2 = (cell_at s1)(vec := None)"
    by (rule heap.release_obtain [OF s1(2) _ 1(2)])
  with s1 f 1 show ?case
    by (auto simp: safe_vector_free_def restrict_map_def fun_eq_iff)
qed

subsection \<open>Vectors are lists\<close>

datatype vec_op = VPush addr | VGet size_t | VRemove size_t

fun vec_exec :: "tid \<Rightarrow> addr \<Rightarrow> vec_op \<Rightarrow> 'x rt_scheme \<Rightarrow> failure + (addr \<times> 'x rt_scheme)" where
  "vec_exec self vec (VPush x) st = void (safe_vector_push self vec x st)"
| "vec_exec self vec (VGet i) st = bindE (safe_vector_get vec i st) (\<lambda>x. Inr (x, st))"
| "vec_exec self vec (VRemove i) st = void (safe_vector_remove vec i st)"

text \<open>The specification: \<open>None\<close> is an index out of bounds.\<close>

fun list_exec :: "vec_op \<Rightarrow> addr list \<Rightarrow> (addr \<times> addr list) option" where
  "list_exec (VPush x) xs = Some (0, xs @ [x])"
| "list_exec (VGet i) xs = (if unat i < length xs then Some (xs ! unat i, xs) else None)"
| "list_exec (VRemove i) xs =
     (if unat i < length xs then Some (0, take (unat i) xs @ drop (unat i + 1) xs) else None)"

fun bounds_error :: "addr \<Rightarrow> vec_op \<Rightarrow> failure" where
  "bounds_error vec (VRemove i) = Aborted ''Vector bounds violation!''"
| "bounds_error vec _ = Fatal ''Out-of-bounds safe_vector access'' vec (Some ''src/collections.c'') 45"

text \<open>C13: a vector refines the list it represents: each operation returns what the list operation
  returns and leaves a vector that represents the resulting list (reallocating its buffer when it is
  full), every other object stays as it is, and an index out of bounds is reported instead of
  being accessed; the only other outcome is the report that a full buffer could not grow.\<close>

theorem vector_refines_list:
  assumes "rt_wf st" and "vec_rep self st vec data cap xs" and "cap * 16 + 80 < 2 ^ 64"
  shows "case list_exec oper xs of
      None \<Rightarrow> vec_exec self vec oper st = Inl (bounds_error vec oper)
    | Some (r, ys) \<Rightarrow>
        (\<exists>st' data' cap'. vec_exec self vec oper st = Inr (r, st') \<and> rt_wf st' \<and>
           vec_rep self st' vec data' cap' ys \<and> keeps {vec, data} st st') \<or>
        length xs = cap \<and> (\<exists>x. oper = VPush x) \<and> vec_exec self vec oper st =
          Inl (Fatal ''Failed to reallocate safe_vector'' vec (Some ''src/collections.c'') 31)"
proof (cases oper)
  case (VPush x)
  with safe_vector_push_rep [OF assms, of x] show ?thesis by (auto simp: void_def dest: moves_keeps)
next
  case (VGet i)
  with safe_vector_get_rep [OF assms(1,2), of i] assms(1,2) show ?thesis by auto
next
  case (VRemove i)
  show ?thesis
  proof (cases "unat i < length xs")
    case True
    then obtain st' where "safe_vector_remove vec i st = Inr st'" "rt_wf st'" "keeps {vec, data} st st'"
      "vec_rep self st' vec data cap (take (unat i) xs @ drop (unat i + 1) xs)"
      using safe_vector_remove_rep [OF assms(1,2), of i] by auto
    then have "vec_exec self vec oper st = Inr (0, st')" using VRemove by (simp add: void_def)
    with True VRemove \<open>rt_wf st'\<close> \<open>keeps {vec, data} st st'\<close>
      \<open>vec_rep self st' vec data cap (take (unat i) xs @ drop (unat i + 1) xs)\<close>
    show ?thesis by (simp only: list_exec.simps if_True option.case prod.case) blast
  next
    case False
    with VRemove safe_vector_remove_rep [OF assms(1,2), of i] show ?thesis by (simp add: void_def)
  qed
qed

text \<open>The life of a vector: creation returns NULL and leaves no object behind, or makes exactly two
  new objects that represent the empty list; freeing a vector removes exactly its two objects.\<close>

theorem vector_lifecycle:
  assumes "rt_wf st" and "unat cap * 8 + 80 < 2 ^ 64"
  shows "(\<exists>vec st'. safe_vector_create self cap st = Inr (vec, st') \<and> rt_wf st' \<and>
      (if vec = 0 then cell_at st' = cell_at st
       else \<exists>data. vec_rep self st' vec data (if cap = 0 then 4 else unat cap) [] \<and>
         safe_vector_length vec st' = Inr 0 \<and>
         cell_at st vec = None \<and> cell_at st data = None \<and>
         cell_at st' |` (- {vec, data}) = cell_at st)) \<and>
    (\<forall>vec data k xs. vec_rep self st vec data k xs \<longrightarrow>
       (\<exists>st'. safe_vector_free self vec st = Inr st' \<and> rt_wf st' \<and>
          cell_at st' = cell_at st |` (- {vec, data})))"
proof (intro conjI allI impI)
  from safe_vector_create_rep [OF assms, of self]
  obtain vec st' where c: "safe_vector_create self cap st = Inr (vec, st')" "rt_wf st'"
    "if vec = 0 then cell_at st' = cell_at st
     else cell_at st vec = None \<and>
       (\<exists>data. vec_rep self st' vec data (if cap = 0 then 4 else unat cap) [] \<and>
          cell_at st data = None \<and> cell_at st' |` (- {vec, data}) = cell_at st)" by auto
  show "\<exists>vec st'. safe_vector_create self cap st = Inr (vec, st') \<and> rt_wf st' \<and>
      (if vec = 0 then cell_at st' = cell_at st
       else \<exists>data. vec_rep self st' vec data (if cap = 0 then 4 else unat cap) [] \<and>
         safe_vector_length vec st' = Inr 0 \<and>
         cell_at st vec = None \<and> cell_at st data = None \<and>
         cell_at st' |` (- {vec, data}) = cell_at st)"
    using c safe_vector_length_rep [OF c(2), of self vec _ _ "[]"]
    by (intro exI [of _ vec] exI [of _ st']) (auto split: if_splits)
qed (use safe_vector_free_rep [OF assms(1)] in blast)

theorem vector_lifecycle_witness:
  "\<exists>st' data. safe_vector_create 1 2 example_start = Inr (0x1050, st') \<and> rt_wf st' \<and>
     vec_rep 1 st' 0x1050 data 2 []"
proof -
  have "\<exists>st'. safe_vector_create 1 2 example_start = Inr (0x1050, st')"
    by (simp add: safe_vector_create_def example_start_def rt_eval)
  then show ?thesis
    using vector_lifecycle [OF example_start_wf, of 2 1] by auto
qed

theorem vector_refines_list_witness:
  "\<exists>(st :: rt) data st' data' cap'. vec_rep 2 st 0x1050 data 2 [] \<and>
     vec_exec 2 0x1050 (VPush 7) st = Inr (0, st') \<and> vec_rep 2 st' 0x1050 data' cap' [7]"
proof -
  have "\<exists>st'. safe_vector_create 2 2 example_start = Inr (0x1050, st')"
    by (simp add: safe_vector_create_def example_start_def rt_eval)
  moreover have n: "unat (2 :: size_t) * 8 + 80 < 2 ^ 64" by simp
  ultimately obtain st :: rt and data where st: "rt_wf st" "vec_rep 2 st 0x1050 data 2 []"
    using safe_vector_create_rep [OF example_start_wf n, of 2] by auto
  have "\<exists>st' data' cap'. vec_exec 2 0x1050 (VPush 7) st = Inr (0, st') \<and>
      vec_rep 2 st' 0x1050 data' cap' [7]"
    using vector_refines_list [OF st, of "VPush 7"] by auto
  with st(2) show ?thesis by blast
qed

text \<open>The creation of a vector does not check that its byte size fits: a capacity of 2^61 + 1 gets
  a buffer of one element, and the second push, within the capacity, writes past the buffer.\<close>

theorem vector_capacity_overflow:
  "\<exists>st1 st2. safe_vector_create 1 0x2000000000000001 example_start = Inr (0x1050, st1) \<and>
     safe_vector_push 1 0x1050 7 st1 = Inr st2 \<and>
     safe_vector_push 1 0x1050 8 st2 = Inl (Undefined ''write past the block'')"
  by (simp add: safe_vector_create_def safe_vector_push_def example_start_def rt_eval field_def
      store_slot_def usable_def word_le_nat_alt)

end
