(* ===== verification/OArray.thy ===== *)
theory OArray
  imports Heap
begin

text \<open>
  The owning pointer array of \<open>src/ownedc_array.c\<close>: storing over a pointer frees it, and freeing the
  array frees everything it holds.
\<close>

fun arr_of :: "payload \<Rightarrow> owned_array option" where
  "arr_of (OArr a) = Some a"
| "arr_of _ = None"

definition owned_array_new ::
    "tid \<Rightarrow> size_t \<Rightarrow> 'x rt_scheme \<Rightarrow> failure + (addr \<times> 'x rt_scheme)" where
  "owned_array_new self capacity st =
     bindE (owner_malloc self 16 st) (\<lambda>(arr, st).
       if arr = 0 then Inr (0, st)
       else if capacity > 0
       then bindE (owner_calloc self capacity 8 st) (\<lambda>(data, st).
              if data = 0 then bindE (owner_free self arr st) (\<lambda>st. Inr (0, st))
              else Inr (arr, put arr (OArr \<lparr>arr_data = data, arr_capacity = capacity\<rparr>) st))
       else Inr (arr, put arr (OArr \<lparr>arr_data = 0, arr_capacity = capacity\<rparr>) st))"

definition owned_array_set ::
    "tid \<Rightarrow> addr \<Rightarrow> size_t \<Rightarrow> addr \<Rightarrow> 'x rt_scheme \<Rightarrow> failure + 'x rt_scheme" where
  "owned_array_set self arr index ptr st =
     (if arr = 0 then Inr st
      else bindE (field arr_of st arr) (\<lambda>a.
        if index \<ge> arr_capacity a then Inl (Aborted ''Array bounds violation!'')
        else bindE (load_slot st (arr_data a) (unat index)) (\<lambda>old.
          bindE (if old \<noteq> 0 \<and> old \<noteq> ptr then owner_free self old st else Inr st)
            (store_slot (arr_data a) (unat index) ptr))))"

definition owned_array_get :: "addr \<Rightarrow> size_t \<Rightarrow> 'x rt_scheme \<Rightarrow> failure + addr" where
  "owned_array_get arr index st =
     (if arr = 0 then Inr 0
      else bindE (field arr_of st arr) (\<lambda>a.
        if index \<ge> arr_capacity a then Inl (Aborted ''Array bounds violation!'')
        else load_slot st (arr_data a) (unat index)))"

text \<open>One round of the deep free.\<close>

definition free_slot :: "tid \<Rightarrow> addr \<Rightarrow> nat \<Rightarrow> 'x rt_scheme \<Rightarrow> failure + 'x rt_scheme" where
  "free_slot self data i st =
     bindE (load_slot st data i) (\<lambda>x.
       if x \<noteq> 0 then bindE (owner_free self x st) (store_slot data i 0) else Inr st)"

definition owned_array_free :: "tid \<Rightarrow> addr \<Rightarrow> 'x rt_scheme \<Rightarrow> failure + 'x rt_scheme" where
  "owned_array_free self arr st =
     (if arr = 0 then Inr st
      else bindE (field arr_of st arr) (\<lambda>a.
        bindE (if arr_data a \<noteq> 0
               then bindE (foldE (free_slot self (arr_data a)) [0..<unat (arr_capacity a)] st) (\<lambda>st.
                    bindE (owner_free self (arr_data a) st) (\<lambda>st.
                    Inr (put arr (OArr (a\<lparr>arr_data := 0\<rparr>)) st)))
               else Inr st)
          (owner_free self arr)))"

text \<open>The cleanup handler of \<open>OWNED_ARRAY\<close>, on the value of the variable.\<close>

definition cleanup_owned_array_free :: "tid \<Rightarrow> addr \<Rightarrow> 'x rt_scheme \<Rightarrow> failure + 'x rt_scheme" where
  "cleanup_owned_array_free self arr st = (if arr \<noteq> 0 then owned_array_free self arr st else Inr st)"

subsection \<open>What an array represents\<close>

definition arr_rep :: "tid \<Rightarrow> 'x rt_scheme \<Rightarrow> addr \<Rightarrow> addr \<Rightarrow> addr list \<Rightarrow> bool" where
  "arr_rep self st arr data xs \<longleftrightarrow> data \<noteq> arr \<and>
     (\<exists>m a md y. cell_at st arr = Some (m, OArr a) \<and> free_ok self m \<and>
        arr_data a = data \<and> cell_at st data = Some (md, y) \<and> free_ok self md \<and>
        unat (arr_capacity a) = length xs \<and> unat (m_size md) = 8 * length xs \<and>
        (\<forall>i < length xs. slot_view y i = Some (xs ! i)))"

lemma arr_repE:
  assumes "arr_rep self st arr data xs"
  obtains m a md y where "cell_at st arr = Some (m, OArr a)" "free_ok self m" "arr_data a = data"
    "cell_at st data = Some (md, y)" "free_ok self md" "unat (arr_capacity a) = length xs"
    "unat (m_size md) = 8 * length xs"
    "\<And>i. i < length xs \<Longrightarrow> slot_view y i = Some (xs ! i)" "data \<noteq> arr" "arr \<noteq> 0" "data \<noteq> 0"
  using assms cell_at_nonnull unfolding arr_rep_def by metis

text \<open>The elements an array owns: live objects of the caller, each once, none of them the array.\<close>

definition owns_elements :: "tid \<Rightarrow> 'x rt_scheme \<Rightarrow> addr \<Rightarrow> addr \<Rightarrow> addr list \<Rightarrow> bool" where
  "owns_elements self st arr data xs \<longleftrightarrow>
     distinct (filter (\<lambda>x. x \<noteq> 0) xs) \<and> arr \<notin> set xs \<and> data \<notin> set xs \<and>
     (\<forall>x \<in> set xs. x \<noteq> 0 \<longrightarrow> (\<exists>m y. cell_at st x = Some (m, y) \<and> free_ok self m))"

lemma owned_array_get_rep:
  assumes "rt_wf st" and "arr_rep self st arr data xs"
  shows "owned_array_get arr i st =
    (if unat i < length xs then Inr (xs ! unat i) else Inl (Aborted ''Array bounds violation!''))"
  using assms(2)
proof (rule arr_repE, goal_cases)
  case (1 m a md y)
  have f: "field arr_of st arr = Inr a" by (rule field_cell [OF assms(1) 1(1)]) simp
  have "load_slot st data (unat i) = Inr (xs ! unat i)" if "unat i < length xs"
    using that 1 by (intro load_slot_cell [OF assms(1) 1(4)]) auto
  with f 1 show ?case by (auto simp: owned_array_get_def word_le_nat_alt)
qed

lemma distinct_filter_nth:
  assumes "distinct (filter P xs)" and "i < length xs" and "j < length xs" and "P (xs ! i)"
    and "xs ! i = xs ! j"
  shows "i = j"
  using assms
proof (induction xs arbitrary: i j)
  case (Cons x xs)
  then show ?case
    by (cases i; cases j) (auto simp: in_set_conv_nth split: if_splits)
qed simp

text \<open>Storing one slot of the buffer, in a state where the buffer is as it was.\<close>

lemma arr_store:
  assumes "rt_wf st" and "cell_at st data = Some (md, y)" and "unat (m_size md) = 8 * length xs"
    and "i < length xs" and "\<And>j. j < length xs \<Longrightarrow> slot_view y j = Some (xs ! j)"
  obtains y' st' where "store_slot data i v st = Inr st'" and "rt_wf st'" and "rt.more st' = rt.more st"
    and "cell_at st' = (cell_at st)(data \<mapsto> (md, y'))"
    and "\<And>j. j < length xs \<Longrightarrow> slot_view y' j = Some (xs[i := v] ! j)"
proof -
  let ?y = "Slots ((slot_view y)(i \<mapsto> v))"
  have "store_slot data i v st = Inr (put data ?y st)"
    using assms by (intro store_slot_cell) auto
  moreover note heap.store_result [OF assms(1,2), of ?y]
  ultimately show ?thesis
    using that [of "put data ?y st" ?y] assms(4,5) by (auto simp: nth_list_update)
qed

lemma owned_array_set_rep:
  assumes "rt_wf st" and "arr_rep self st arr data xs" and "owns_elements self st arr data xs"
    and "unat i < length xs"
  defines "old \<equiv> xs ! unat i"
  shows "\<exists>st'. owned_array_set self arr i p st = Inr st' \<and> rt_wf st' \<and> rt.more st' = rt.more st \<and>
    arr_rep self st' arr data (xs[unat i := p]) \<and>
    (\<forall>q. q \<noteq> data \<longrightarrow> cell_at st' q = (if q = old \<and> old \<noteq> 0 \<and> old \<noteq> p then None else cell_at st q))"
  using assms(2)
proof (rule arr_repE, goal_cases)
  case (1 m a md y)
  let ?i = "unat i"
  have f: "field arr_of st arr = Inr a" by (rule field_cell [OF assms(1) 1(1)]) simp
  have ld: "load_slot st data ?i = Inr old"
    using assms(4) 1 unfolding old_def by (intro load_slot_cell [OF assms(1) 1(4)]) auto
  have nb: "\<not> arr_capacity a \<le> i" using assms(4) 1 by (simp add: word_le_nat_alt)
  have oin: "old \<in> set xs" using assms(4) by (simp add: old_def)
  then have ne: "old \<noteq> data" "old \<noteq> arr" using assms(3) by (auto simp: owns_elements_def)
  obtain s1 where s1: "(if old \<noteq> 0 \<and> old \<noteq> p then owner_free self old st else Inr st) = Inr s1"
    "rt_wf s1" "rt.more s1 = rt.more st"
    "cell_at s1 = (if old \<noteq> 0 \<and> old \<noteq> p then (cell_at st)(old := None) else cell_at st)"
  proof (cases "old \<noteq> 0 \<and> old \<noteq> p")
    case True
    then obtain mo x where "cell_at st old = Some (mo, x)" "free_ok self mo"
      using assms(3) oin unfolding owns_elements_def by blast
    then obtain s1 where "owner_free self old st = Inr s1" "rt_wf s1" "rt.more s1 = rt.more st"
      "cell_at s1 = (cell_at st)(old := None)"
      by (rule heap.release_obtain [OF assms(1)])
    with True that show ?thesis by simp
  next
    case False
    with that [of st] assms(1) show ?thesis by auto
  qed
  have cd: "cell_at s1 data = Some (md, y)" using s1(4) 1 ne by simp
  obtain y' s2 where s2: "store_slot data ?i p s1 = Inr s2" "rt_wf s2" "rt.more s2 = rt.more s1"
    "cell_at s2 = (cell_at s1)(data \<mapsto> (md, y'))"
    and y': "\<And>j. j < length xs \<Longrightarrow> slot_view y' j = Some (xs[?i := p] ! j)"
    by (rule arr_store [where v = p, OF s1(2) cd 1(7) assms(4) 1(8)]) blast+
  have "owned_array_set self arr i p st = Inr s2"
    using f ld nb s1(1) s2(1) 1(3,10) by (simp add: owned_array_set_def)
  moreover have "arr_rep self s2 arr data (xs[?i := p])"
    using s1(4) s2(4) y' 1 ne unfolding arr_rep_def by auto
  ultimately show ?case
    using s1 s2 by (intro exI [of _ s2]) auto
qed

lemma owned_array_bounds:
  assumes "rt_wf st" and "arr_rep self st arr data xs" and "\<not> unat i < length xs"
  shows "owned_array_set self arr i p st = Inl (Aborted ''Array bounds violation!'')"
  using assms(2)
proof (rule arr_repE, goal_cases)
  case (1 m a md y)
  have "field arr_of st arr = Inr a" by (rule field_cell [OF assms(1) 1(1)]) simp
  with 1 assms(3) show ?case by (simp add: owned_array_set_def word_le_nat_alt)
qed

text \<open>Storing keeps the invariant of the runtime whatever it frees.\<close>

lemma owned_array_set_wf: "rt_wf st \<Longrightarrow> owned_array_set self arr i p st = Inr st' \<Longrightarrow> rt_wf st'"
  by (auto simp: owned_array_set_def bindE_eq_Inr split: if_splits
      intro: store_slot_wf dest: owner_free_wf)

subsection \<open>The deep free\<close>

lemma free_slots_upto:
  assumes "rt_wf st" and "cell_at st data = Some (md, y)" and "unat (m_size md) = 8 * length xs"
    and "\<And>i. i < length xs \<Longrightarrow> slot_view y i = Some (xs ! i)"
    and "owns_elements self st arr data xs" and "k \<le> length xs"
  shows "\<exists>st' y'. foldE (free_slot self data) [0..<k] st = Inr st' \<and> rt_wf st' \<and>
    rt.more st' = rt.more st \<and>
    cell_at st' = (cell_at st |` (- (set (take k xs) - {0})))(data \<mapsto> (md, y')) \<and>
    (\<forall>i < length xs. slot_view y' i = Some (if i < k then 0 else xs ! i))"
  using assms(6)
proof (induction k)
  case 0
  then show ?case using assms
    by (intro exI [of _ st] exI [of _ y]) (auto simp: restrict_map_def fun_eq_iff)
next
  case (Suc k)
  then have "k \<le> length xs" and k: "k < length xs" by simp_all
  from Suc.IH [OF this(1)] obtain s1 y1 where
    s1: "foldE (free_slot self data) [0..<k] st = Inr s1" "rt_wf s1" "rt.more s1 = rt.more st"
    "cell_at s1 = (cell_at st |` (- (set (take k xs) - {0})))(data \<mapsto> (md, y1))"
    and y1: "\<And>i. i < length xs \<Longrightarrow> slot_view y1 i = Some (if i < k then 0 else xs ! i)"
    by blast
  let ?x = "xs ! k"
  let ?zs = "map (\<lambda>i. if i < k then 0 else xs ! i) [0..<length xs]"
  have c: "cell_at s1 data = Some (md, y1)" using s1(4) by simp
  have ld: "load_slot s1 data k = Inr ?x"
    using y1 [OF k] assms(3) k by (intro load_slot_cell [OF s1(2) c]) auto
  have tk: "set (take (Suc k) xs) = insert ?x (set (take k xs))"
    using k by (simp add: take_Suc_conv_app_nth)
  show ?case
  proof (cases "?x = 0")
    case True
    then have "foldE (free_slot self data) [0..<Suc k] st = Inr s1"
      using s1(1) ld by (simp add: foldE_append free_slot_def)
    moreover have "set (take (Suc k) xs) - {0} = set (take k xs) - {0}" using tk True by auto
    moreover have "slot_view y1 i = Some (if i < Suc k then 0 else xs ! i)" if "i < length xs" for i
      using y1 [OF that] True by (auto simp: less_Suc_eq)
    ultimately show ?thesis using s1 by (intro exI [of _ s1] exI [of _ y1]) simp
  next
    case False
    have xin: "?x \<in> set xs" using k by simp
    then obtain m x where mx: "cell_at st ?x = Some (m, x)" "free_ok self m"
      using assms(5) False unfolding owns_elements_def by blast
    have nd: "?x \<noteq> data" using assms(5) xin by (auto simp: owns_elements_def)
    have "?x \<notin> set (take k xs)"
    proof
      assume "?x \<in> set (take k xs)"
      then obtain j where "j < k" "xs ! j = ?x" using k by (auto simp: in_set_conv_nth)
      then show False
        using distinct_filter_nth [of "\<lambda>x. x \<noteq> 0" xs j k] assms(5) k False
        by (auto simp: owns_elements_def)
    qed
    then have cx: "cell_at s1 ?x = Some (m, x)" using s1(4) mx nd by (simp add: restrict_map_def)
    obtain s2 where s2: "owner_free self ?x s1 = Inr s2" "rt_wf s2" "rt.more s2 = rt.more s1"
      "cell_at s2 = (cell_at s1)(?x := None)"
      by (rule heap.release_obtain [OF s1(2) cx mx(2)])
    have c2: "cell_at s2 data = Some (md, y1)" using s2(4) c nd by simp
    obtain y' s3 where s3: "store_slot data k 0 s2 = Inr s3" "rt_wf s3" "rt.more s3 = rt.more s2"
      "cell_at s3 = (cell_at s2)(data \<mapsto> (md, y'))"
      and y': "\<And>j. j < length ?zs \<Longrightarrow> slot_view y' j = Some (?zs[k := 0] ! j)"
      by (rule arr_store [where v = 0 and xs = ?zs, OF s2(2) c2]) (use k assms(3) y1 in auto)
    have "foldE (free_slot self data) [0..<Suc k] st = Inr s3"
      using s1(1) ld s2(1) s3(1) False by (simp add: foldE_append free_slot_def)
    moreover have "cell_at s3 = (cell_at st |` (- (set (take (Suc k) xs) - {0})))(data \<mapsto> (md, y'))"
      using s1(4) s2(4) s3(4) tk nd False by (auto simp: restrict_map_def fun_eq_iff)
    moreover have "slot_view y' i = Some (if i < Suc k then 0 else xs ! i)" if "i < length xs" for i
      using y' [of i] that by (auto simp: nth_list_update less_Suc_eq)
    ultimately show ?thesis using s1 s2 s3 by (intro exI [of _ s3] exI [of _ y']) simp
  qed
qed

lemma owned_array_free_rep:
  assumes "rt_wf st" and "arr_rep self st arr data xs" and "owns_elements self st arr data xs"
  shows "\<exists>st'. owned_array_free self arr st = Inr st' \<and> rt_wf st' \<and> rt.more st' = rt.more st \<and>
    cell_at st' = cell_at st |` (- ({arr, data} \<union> set xs))"
  using assms(2)
proof (rule arr_repE, goal_cases)
  case (1 m a md y)
  have f: "field arr_of st arr = Inr a" by (rule field_cell [OF assms(1) 1(1)]) simp
  obtain s1 y1 where s1: "foldE (free_slot self data) [0..<length xs] st = Inr s1" "rt_wf s1" "rt.more s1 = rt.more st"
    "cell_at s1 = (cell_at st |` (- (set xs - {0})))(data \<mapsto> (md, y1))"
    using free_slots_upto [OF assms(1) 1(4,7,8) assms(3) order.refl] by auto
  have "cell_at s1 data = Some (md, y1)" using s1(4) by simp
  then obtain s2 where s2: "owner_free self data s1 = Inr s2" "rt_wf s2" "rt.more s2 = rt.more s1"
    "cell_at s2 = (cell_at s1)(data := None)"
    by (rule heap.release_obtain [OF s1(2) _ 1(5)])
  have "arr \<notin> set xs" using assms(3) by (simp add: owns_elements_def)
  then have c: "cell_at s2 arr = Some (m, OArr a)" using s2(4) s1(4) 1 by (simp add: restrict_map_def)
  note p = heap.store_result [OF s2(2) c, of "OArr (a\<lparr>arr_data := 0\<rparr>)"]
  have "cell_at (put arr (OArr (a\<lparr>arr_data := 0\<rparr>)) s2) arr = Some (m, OArr (a\<lparr>arr_data := 0\<rparr>))"
    using p by simp
  then obtain s4 where s4: "owner_free self arr (put arr (OArr (a\<lparr>arr_data := 0\<rparr>)) s2) = Inr s4"
    "rt_wf s4" "rt.more s4 = rt.more (put arr (OArr (a\<lparr>arr_data := 0\<rparr>)) s2)" "cell_at s4 = (cell_at (put arr (OArr (a\<lparr>arr_data := 0\<rparr>)) s2))(arr := None)"
    by (rule heap.release_obtain [OF conjunct1 [OF p] _ 1(2)]) blast
  have "cell_at st 0 = None" using cell_at_nonnull [of st 0] by (cases "cell_at st 0") auto
  then have "cell_at s4 = cell_at st |` (- ({arr, data} \<union> set xs))"
    using s4(4) p s2(4) s1(4) by (auto simp: restrict_map_def fun_eq_iff)
  moreover have "owned_array_free self arr st = Inr s4"
    using f s1(1) s2(1) s4(1) 1(3,6,10,11) by (simp add: owned_array_free_def)
  moreover have "rt.more s4 = rt.more st" using s1(3) s2(3) s4(3) p by simp
  ultimately show ?case using s4(2) by blast
qed

text \<open>C15: freeing an array whose elements are different live objects of the caller (or NULL) releases
  the array, its buffer and every element, each exactly once, and nothing else.\<close>

theorem owned_array_deep_free:
  assumes "rt_wf st" and "arr_rep self st arr data xs" and "owns_elements self st arr data xs"
  shows "\<exists>st'. owned_array_free self arr st = Inr st' \<and> rt_wf st' \<and>
    cell_at st' = cell_at st |` (- ({arr, data} \<union> set xs))"
  using owned_array_free_rep [OF assms] by blast

subsection \<open>Creation\<close>

lemma word_of_pattern_0 [simp]: "word_of_pattern 0 = 0"
  by (simp add: word_of_pattern_def)

lemma owned_array_new_rep:
  assumes "rt_wf st" and "unat cap * 8 + 80 < 2 ^ 64" and "cap > 0"
  shows "\<exists>arr st'. owned_array_new self cap st = Inr (arr, st') \<and> rt_wf st' \<and>
    (if arr = 0 then cell_at st' = cell_at st
     else \<exists>data. arr_rep self st' arr data (replicate (unat cap) 0) \<and>
       cell_at st arr = None \<and> cell_at st data = None \<and> cell_at st' |` (- {arr, data}) = cell_at st)"
proof -
  have n16: "unat (16 :: size_t) + 80 < 2 ^ 64" by simp
  from assms(1) n16 show ?thesis
  proof (cases rule: heap.alloc_cases [where self = self])
    case (null s')
    then show ?thesis by (simp add: owned_array_new_def)
  next
    case arr: (object arr s1)
    have n: "unat cap * unat (8 :: size_t) + 80 < 2 ^ 64" using assms(2) by simp
    from arr(3) n show ?thesis
    proof (cases rule: calloc_cases [where self = self])
      case (null s2)
      have "cell_at s2 arr = Some (fresh_meta self 16, Filled 0xAA)" using null arr by simp
      then obtain s3 where "owner_free self arr s2 = Inr s3" "rt_wf s3" "rt.more s3 = rt.more s2"
        "cell_at s3 = (cell_at s2)(arr := None)"
        by (rule heap.release_obtain [OF null(2) _ fresh_meta_simps(1)])
      with null arr assms(3) show ?thesis by (auto simp: owned_array_new_def fun_upd_idem)
    next
      case (object data s2)
      have v: "data \<noteq> arr" using object(5) arr(6) by auto
      then have c: "cell_at s2 arr = Some (fresh_meta self 16, Filled 0xAA)" using object arr by simp
      let ?a = "\<lparr>arr_data = data, arr_capacity = cap\<rparr>"
      note p = heap.store_result [OF object(3) c, of "OArr ?a"]
      have "unat (cap * 8) = unat cap * 8" using assms(2) unat_mult_no_overflow [of cap 8] by simp
      then have "arr_rep self (put arr (OArr ?a) s2) arr data (replicate (unat cap) 0)"
        using p object(6) v unfolding arr_rep_def by auto
      then show ?thesis
        using p object arr v assms(3)
        by (auto simp: owned_array_new_def restrict_map_def fun_eq_iff)
    qed
  qed
qed

text \<open>An array of one slot that holds an object of its own.\<close>

definition example_array :: "failure + rt" where
  "example_array =
     bindE (owned_array_new 2 1 example_start) (\<lambda>(arr, st).
     bindE (owner_malloc 2 16 st) (\<lambda>(p, st). owned_array_set 2 arr 0 p st))"

lemma example_array_ok:
  obtains st where "example_array = Inr st" and "rt_wf st" and "arr_rep 2 st 0x1050 0x2050 [0x3050]"
    and "owns_elements 2 st 0x1050 0x2050 [0x3050]"
proof -
  have d: "word_of_pattern 0 = 0" by (simp add: word_of_pattern_def)
  obtain st1 where s1: "owned_array_new 2 1 example_start = Inr (0x1050, st1)"
    and c: "\<exists>st2. owner_malloc 2 16 st1 = Inr (0x3050, st2) \<and>
      (\<exists>st. owned_array_set 2 0x1050 0 0x3050 st2 = Inr st \<and>
        arr_rep 2 st 0x1050 0x2050 [0x3050] \<and> owns_elements 2 st 0x1050 0x2050 [0x3050])"
    by (simp add: owned_array_new_def owned_array_set_def example_start_def rt_eval field_def
        load_slot_def store_slot_def usable_def d arr_rep_def owns_elements_def cell_at_def
        free_ok_def word_le_nat_alt)
  then obtain st2 st where st: "owner_malloc 2 16 st1 = Inr (0x3050, st2)"
    "owned_array_set 2 0x1050 0 0x3050 st2 = Inr st"
    "arr_rep 2 st 0x1050 0x2050 [0x3050]" "owns_elements 2 st 0x1050 0x2050 [0x3050]" by blast
  have n: "unat (1 :: size_t) * 8 + 80 < 2 ^ 64" by simp
  have w1: "rt_wf st1"
    using owned_array_new_rep [OF example_start_wf n, of 2] s1 by auto
  have w2: "rt_wf st2" using owner_malloc_cells [OF w1 st(1)] by blast
  have "rt_wf st" using owned_array_set_wf [OF w2 st(2)] .
  with st s1 that show ?thesis by (simp add: example_array_def)
qed

theorem owned_array_deep_free_witness:
  "\<exists>st st'. example_array = Inr st \<and> live st 0x3050 \<and> owned_array_free 2 0x1050 st = Inr st' \<and>
     cell_at st' 0x3050 = None \<and> cell_at st' 0x1050 = None"
proof -
  obtain st where st: "example_array = Inr st" "rt_wf st" "arr_rep 2 st 0x1050 0x2050 [0x3050]"
    "owns_elements 2 st 0x1050 0x2050 [0x3050]" by (rule example_array_ok)
  have "live st 0x3050" using st(4) by (auto simp: owns_elements_def cell_at_Some live_def)
  with owned_array_deep_free [OF st(2-4)] st(1) show ?thesis by auto
qed

text \<open>An owned array of live elements: a read in bounds returns the element, an access out of
  bounds aborts, and storing a pointer frees the element that was there (unless it is NULL or the
  same pointer) and changes nothing but that slot.\<close>

theorem owned_array_access:
  assumes "rt_wf st" and "arr_rep self st arr data xs" and "owns_elements self st arr data xs"
  shows "owned_array_get arr i st =
      (if unat i < length xs then Inr (xs ! unat i) else Inl (Aborted ''Array bounds violation!'')) \<and>
    (if unat i < length xs
     then \<exists>st'. owned_array_set self arr i p st = Inr st' \<and> rt_wf st' \<and>
       arr_rep self st' arr data (xs[unat i := p]) \<and>
       (\<forall>q. q \<noteq> data \<longrightarrow> cell_at st' q =
          (if q = xs ! unat i \<and> q \<noteq> 0 \<and> q \<noteq> p then None else cell_at st q))
     else owned_array_set self arr i p st = Inl (Aborted ''Array bounds violation!''))"
proof (cases "unat i < length xs")
  case True
  from owned_array_set_rep [OF assms True, of p] obtain st' where
    "owned_array_set self arr i p st = Inr st'" "rt_wf st'" "arr_rep self st' arr data (xs[unat i := p])"
    "\<forall>q. q \<noteq> data \<longrightarrow> cell_at st' q =
       (if q = xs ! unat i \<and> xs ! unat i \<noteq> 0 \<and> xs ! unat i \<noteq> p then None else cell_at st q)" by blast
  then have "\<exists>st'. owned_array_set self arr i p st = Inr st' \<and> rt_wf st' \<and>
      arr_rep self st' arr data (xs[unat i := p]) \<and>
      (\<forall>q. q \<noteq> data \<longrightarrow> cell_at st' q =
         (if q = xs ! unat i \<and> q \<noteq> 0 \<and> q \<noteq> p then None else cell_at st q))"
    by (intro exI [of _ st']) auto
  then show ?thesis using True owned_array_get_rep [OF assms(1,2), of i] by simp
next
  case False
  then show ?thesis
    using owned_array_get_rep [OF assms(1,2), of i] owned_array_bounds [OF assms(1,2) False] by simp
qed

theorem owned_array_access_witness:
  "\<exists>st st'. example_array = Inr st \<and> owned_array_set 2 0x1050 0 0 st = Inr st' \<and>
     cell_at st' 0x3050 = None \<and> owned_array_get 0x1050 7 st = Inl (Aborted ''Array bounds violation!'')"
proof -
  obtain st where st: "example_array = Inr st" "rt_wf st" "arr_rep 2 st 0x1050 0x2050 [0x3050]"
    "owns_elements 2 st 0x1050 0x2050 [0x3050]" by (rule example_array_ok)
  show ?thesis using owned_array_access [OF st(2-4), of 0 0] owned_array_access [OF st(2-4), of 7 0] st(1)
    by auto
qed

end
