(* ===== verification/SString.thy ===== *)
theory SString
  imports Heap
begin

text \<open>
  The growable C string of \<open>src/ownedc_string.c\<close>.  A \<open>const char*\<close> argument is either memory that is
  not tracked (a literal, \<open>Lit\<close>) or the start of a tracked object (\<open>At\<close>), so that the string functions
  see the aliasing the code sees; \<open>strlen\<close> and \<open>memcpy\<close> read it byte by byte.
\<close>

subsection \<open>C strings\<close>

datatype cstr = Lit "byte list" | At addr

definition cstr_null :: "cstr \<Rightarrow> bool" where
  "cstr_null c = (case c of Lit _ \<Rightarrow> False | At p \<Rightarrow> p = 0)"

definition cstr_byte :: "'x rt_scheme \<Rightarrow> cstr \<Rightarrow> nat \<Rightarrow> failure + byte" where
  "cstr_byte st c i =
     (case c of
        Lit bs \<Rightarrow>
          if i < length bs then Inr (bs ! i)
          else if i = length bs then Inr 0 else Inl (Undefined ''read past the literal'')
      | At p \<Rightarrow> load_byte st p i)"

definition cstr_bound :: "'x rt_scheme \<Rightarrow> cstr \<Rightarrow> nat" where
  "cstr_bound st c = (case c of Lit bs \<Rightarrow> length bs + 1 | At p \<Rightarrow> usable st p)"

lemma cstr_byte_bound: "cstr_byte st c i = Inr b \<Longrightarrow> i < cstr_bound st c"
  by (auto simp: cstr_byte_def cstr_bound_def load_byte_def
      split: cstr.splits if_splits option.splits)

text \<open>\<open>strlen\<close>: the scan stops at the first NUL, or with a read past the memory.\<close>

function strlen_from :: "'x rt_scheme \<Rightarrow> cstr \<Rightarrow> nat \<Rightarrow> failure + nat" where
  "strlen_from st c i =
     bindE (cstr_byte st c i) (\<lambda>b. if b = 0 then Inr i else strlen_from st c (i + 1))"
  by pat_completeness auto
termination
  by (relation "measure (\<lambda>(st, c, i). cstr_bound st c - i)") (auto dest: cstr_byte_bound)

declare strlen_from.simps [simp del]

definition memcpy :: "addr \<Rightarrow> nat \<Rightarrow> cstr \<Rightarrow> nat \<Rightarrow> 'x rt_scheme \<Rightarrow> failure + 'x rt_scheme" where
  "memcpy dst off c n st =
     foldE (\<lambda>i st. bindE (cstr_byte st c i) (\<lambda>b. store_byte dst (off + i) b st)) [0..<n] st"

subsection \<open>The string functions\<close>

fun str_of :: "payload \<Rightarrow> safe_string option" where
  "str_of (Str s) = Some s"
| "str_of _ = None"

definition safe_string_grow :: "tid \<Rightarrow> addr \<Rightarrow> size_t \<Rightarrow> 'x rt_scheme \<Rightarrow> failure + 'x rt_scheme" where
  "safe_string_grow self str min_capacity st =
     bindE (field str_of st str) (\<lambda>s.
       if str_capacity s \<ge> min_capacity then Inr st
       else let new_capacity = (if str_capacity s = 0 then 16 else str_capacity s * 2);
                new_capacity = (if new_capacity < min_capacity then min_capacity else new_capacity)
         in bindE (owner_realloc self (str_data s) new_capacity st) (\<lambda>(new_data, st).
              if new_data = 0 then Inl (Aborted ''Out of memory in safe_string_grow'')
              else Inr (put str (Str (s\<lparr>str_data := new_data, str_capacity := new_capacity\<rparr>)) st)))"

definition safe_string_new ::
    "tid \<Rightarrow> cstr \<Rightarrow> 'x rt_scheme \<Rightarrow> failure + (addr \<times> 'x rt_scheme)" where
  "safe_string_new self initial_cstr st =
     bindE (owner_malloc self 24 st) (\<lambda>(str, st).
       if str = 0 then Inr (0, st)
       else let st = put str (Str \<lparr>str_data = 0, str_length = 0, str_capacity = 0\<rparr>) st in
         if \<not> cstr_null initial_cstr
         then bindE (strlen_from st initial_cstr 0) (\<lambda>len.
              bindE (safe_string_grow self str (of_nat len + 1) st) (\<lambda>st.
              bindE (field str_of st str) (\<lambda>s.
              bindE (memcpy (str_data s) 0 initial_cstr len st) (\<lambda>st.
              bindE (store_byte (str_data s) len 0 st) (\<lambda>st.
              Inr (str, put str (Str (s\<lparr>str_length := of_nat len\<rparr>)) st))))))
         else bindE (safe_string_grow self str 16 st) (\<lambda>st.
              bindE (field str_of st str) (\<lambda>s.
              bindE (store_byte (str_data s) 0 0 st) (\<lambda>st. Inr (str, st)))))"

definition safe_string_cstr :: "addr \<Rightarrow> 'x rt_scheme \<Rightarrow> failure + cstr" where
  "safe_string_cstr str st =
     (if str = 0 then Inr (Lit [])
      else bindE (field str_of st str) (\<lambda>s.
        Inr (if str_data s = 0 then Lit [] else At (str_data s))))"

definition safe_string_append :: "tid \<Rightarrow> addr \<Rightarrow> cstr \<Rightarrow> 'x rt_scheme \<Rightarrow> failure + 'x rt_scheme" where
  "safe_string_append self str suffix st =
     (if str = 0 \<or> cstr_null suffix then Inr st
      else bindE (strlen_from st suffix 0) (\<lambda>suffix_len.
        if suffix_len = 0 then Inr st
        else bindE (field str_of st str) (\<lambda>s.
             bindE (safe_string_grow self str (str_length s + of_nat suffix_len + 1) st) (\<lambda>st.
             bindE (field str_of st str) (\<lambda>s.
             bindE (memcpy (str_data s) (unat (str_length s)) suffix suffix_len st) (\<lambda>st.
             let s = s\<lparr>str_length := str_length s + of_nat suffix_len\<rparr> in
             store_byte (str_data s) (unat (str_length s)) 0 (put str (Str s) st)))))))"

definition safe_string_append_safe :: "tid \<Rightarrow> addr \<Rightarrow> addr \<Rightarrow> 'x rt_scheme \<Rightarrow> failure + 'x rt_scheme" where
  "safe_string_append_safe self str suffix st =
     (if str = 0 \<or> suffix = 0 then Inr st
      else bindE (safe_string_cstr suffix st) (\<lambda>c. safe_string_append self str c st))"

definition safe_string_push_char :: "tid \<Rightarrow> addr \<Rightarrow> byte \<Rightarrow> 'x rt_scheme \<Rightarrow> failure + 'x rt_scheme" where
  "safe_string_push_char self str c st =
     (if str = 0 then Inr st
      else bindE (field str_of st str) (\<lambda>s.
        bindE (safe_string_grow self str (str_length s + 2) st) (\<lambda>st.
        bindE (field str_of st str) (\<lambda>s.
        bindE (store_byte (str_data s) (unat (str_length s)) c st) (\<lambda>st.
        let s = s\<lparr>str_length := str_length s + 1\<rparr> in
        store_byte (str_data s) (unat (str_length s)) 0 (put str (Str s) st))))))"

definition safe_string_char_at :: "addr \<Rightarrow> size_t \<Rightarrow> 'x rt_scheme \<Rightarrow> failure + byte" where
  "safe_string_char_at str index st =
     (if str = 0 then Inl (Aborted ''Null string access.'')
      else bindE (field str_of st str) (\<lambda>s.
        if str_data s = 0 then Inl (Aborted ''Null string access.'')
        else if index \<ge> str_length s then Inl (Aborted ''String bounds violation!'')
        else load_byte st (str_data s) (unat index)))"

definition safe_string_truncate :: "addr \<Rightarrow> size_t \<Rightarrow> 'x rt_scheme \<Rightarrow> failure + 'x rt_scheme" where
  "safe_string_truncate str new_length st =
     (if str = 0 then Inr st
      else bindE (field str_of st str) (\<lambda>s.
        if new_length > str_length s
        then Inl (Aborted ''Cannot truncate to length greater than current.'')
        else let st = put str (Str (s\<lparr>str_length := new_length\<rparr>)) st in
          if str_data s \<noteq> 0 then store_byte (str_data s) (unat new_length) 0 st else Inr st))"

definition safe_string_free :: "tid \<Rightarrow> addr \<Rightarrow> 'x rt_scheme \<Rightarrow> failure + 'x rt_scheme" where
  "safe_string_free self str st =
     (if str = 0 then Inr st
      else bindE (field str_of st str) (\<lambda>s.
        bindE (if str_data s \<noteq> 0
               then bindE (owner_free self (str_data s) st) (\<lambda>st.
                      Inr (put str (Str (s\<lparr>str_data := 0\<rparr>)) st))
               else Inr st)
          (owner_free self str)))"

text \<open>The cleanup handler of \<open>OWNED_STRING\<close>, on the value of the variable.\<close>

definition cleanup_safe_string_free :: "tid \<Rightarrow> addr \<Rightarrow> 'x rt_scheme \<Rightarrow> failure + 'x rt_scheme" where
  "cleanup_safe_string_free self str st = (if str \<noteq> 0 then safe_string_free self str st else Inr st)"

subsection \<open>What a string represents\<close>

definition str_rep :: "tid \<Rightarrow> 'x rt_scheme \<Rightarrow> addr \<Rightarrow> addr \<Rightarrow> nat \<Rightarrow> byte list \<Rightarrow> bool" where
  "str_rep self st str data cap bs \<longleftrightarrow> data \<noteq> str \<and>
     (\<exists>m s md y. cell_at st str = Some (m, Str s) \<and> free_ok self m \<and> str_data s = data \<and>
        cell_at st data = Some (md, y) \<and> free_ok self md \<and> unat (m_size md) = cap \<and>
        unat (str_capacity s) = cap \<and> unat (str_length s) = length bs \<and> length bs < cap \<and>
        (\<forall>i < length bs. byte_view y i = Some (bs ! i)) \<and> byte_view y (length bs) = Some 0)"

lemma str_repE:
  assumes "str_rep self st str data cap bs"
  obtains m s md y where "cell_at st str = Some (m, Str s)" "free_ok self m" "str_data s = data"
    "cell_at st data = Some (md, y)" "free_ok self md" "unat (m_size md) = cap"
    "unat (str_capacity s) = cap" "unat (str_length s) = length bs" "length bs < cap"
    "\<And>i. i < length bs \<Longrightarrow> byte_view y i = Some (bs ! i)" "byte_view y (length bs) = Some 0"
    "data \<noteq> str" "str \<noteq> 0" "data \<noteq> 0"
  using assms cell_at_nonnull unfolding str_rep_def by metis

text \<open>A C string holds the bytes \<open>bs\<close>: none of them NUL, then a NUL.\<close>

definition holds :: "'x rt_scheme \<Rightarrow> cstr \<Rightarrow> byte list \<Rightarrow> bool" where
  "holds st c bs \<longleftrightarrow> (\<forall>i < length bs. cstr_byte st c i = Inr (bs ! i)) \<and>
     cstr_byte st c (length bs) = Inr 0 \<and> 0 \<notin> set bs"

lemma strlen_holds:
  assumes "holds st c bs"
  shows "strlen_from st c 0 = Inr (length bs)"
proof -
  have "strlen_from st c (length bs - k) = Inr (length bs)" if "k \<le> length bs" for k
    using that
  proof (induction k)
    case 0
    then show ?case using assms by (simp add: strlen_from.simps holds_def)
  next
    case (Suc k)
    let ?i = "length bs - Suc k"
    have i: "?i < length bs" "?i + 1 = length bs - k" using Suc.prems by auto
    then have "bs ! ?i \<noteq> 0" using assms nth_mem by (metis holds_def)
    with i Suc show ?case using assms by (subst strlen_from.simps) (simp add: holds_def)
  qed
  from this [of "length bs"] show ?thesis by simp
qed

lemma holds_Lit: "0 \<notin> set bs \<Longrightarrow> holds st (Lit bs) bs"
  by (simp add: holds_def cstr_byte_def)

lemma holds_At:
  assumes "rt_wf st" and "str_rep self st str data cap bs" and "0 \<notin> set bs"
  shows "holds st (At data) bs"
  using assms(2)
proof (rule str_repE, goal_cases)
  case (1 m s md y)
  then show ?case
    using assms(1,3) load_byte_cell [OF assms(1) 1(4)] by (simp add: holds_def cstr_byte_def)
qed

subsection \<open>Growing\<close>

lemma owner_realloc_null: "owner_realloc self 0 n st = owner_malloc self n st"
  by (simp add: owner_realloc_def owner_realloc_internal_def owner_malloc_def)

text \<open>The capacity after growing to \<open>want\<close> bytes.\<close>

definition grown :: "nat \<Rightarrow> nat \<Rightarrow> nat" where
  "grown cap want = (if want \<le> cap then cap else max (2 * cap) want)"

lemma grown_ge: "want \<le> grown cap want" "cap \<le> grown cap want"
  by (auto simp: grown_def)

lemma safe_string_grow_rep:
  assumes "rt_wf st" and "str_rep self st str data cap bs"
    and "2 * cap + 80 < 2 ^ 64" and "unat want + 80 < 2 ^ 64"
  shows "(\<exists>st' data'. safe_string_grow self str want st = Inr st' \<and> rt_wf st' \<and>
      str_rep self st' str data' (grown cap (unat want)) bs \<and> keeps {str, data} st st' \<and>
      moves {str, data} {str, data'} st st' \<and> (data' = data \<or> cell_at st data' = None)) \<or>
    cap < unat want \<and> safe_string_grow self str want st = Inl (Aborted ''Out of memory in safe_string_grow'')"
  using assms(2)
proof (rule str_repE, goal_cases)
  case (1 m s md y)
  have f: "field str_of st str = Inr s" by (rule field_cell [OF assms(1) 1(1)]) simp
  show ?case
  proof (cases "unat want \<le> cap")
    case True
    then have "safe_string_grow self str want st = Inr st"
      using f 1 by (simp add: safe_string_grow_def word_le_nat_alt)
    with True assms(1,2) show ?thesis by (auto simp: grown_def)
  next
    case False
    let ?new = "if str_capacity s * 2 < want then want else str_capacity s * 2"
    have c0: "str_capacity s \<noteq> 0" using 1(7,9) by (simp add: unat_gt_0 [symmetric])
    have c2: "unat (str_capacity s * 2) = 2 * cap"
      using unat_mult_no_overflow [of "str_capacity s" 2] assms(3) 1(7) by simp
    then have n: "unat ?new = grown cap (unat want)" using False by (simp add: grown_def word_less_nat_alt)
    then have "0 < unat ?new" using grown_ge(2) [of cap "unat want"] 1(9) by linarith
    then have nz: "?new \<noteq> 0" unfolding unat_gt_0 .
    have n80: "unat ?new + 80 < 2 ^ 64" unfolding n using assms(3,4) by (simp add: grown_def)
    have nle: "\<not> want \<le> str_capacity s" using False 1(7) by (simp add: word_le_nat_alt)
    from assms(1) 1(4) free_ok_realloc_ok [OF 1(5)] nz n80 show ?thesis
    proof (cases rule: heap.resize_cases)
      case (null s')
      then show ?thesis
        using f c0 nle False 1 by (simp add: safe_string_grow_def Let_def)
    next
      case (object q s')
      have qv: "q \<noteq> str" using object(5) 1 by auto
      let ?s = "s\<lparr>str_data := q, str_capacity := ?new\<rparr>"
      have cs: "cell_at s' str = Some (m, Str s)" using object(6) 1 qv by simp
      note p = heap.store_result [OF object(3) cs, of "Str ?s"]
      let ?z = "resize_payload (unat (m_size md)) (unat ?new) y"
      have cd: "cell_at (put str (Str ?s) s') q = Some (md\<lparr>m_size := ?new\<rparr>, ?z)"
        using p object(6) qv by simp
      have z: "byte_view ?z i = byte_view y i" if "i \<le> length bs" for i
        using that 1(6,9) grown_ge(2) [of cap "unat want"] by (intro byte_view_resize) (simp add: n)
      have "str_rep self (put str (Str ?s) s') str q (grown cap (unat want)) bs"
        using p cd 1 qv z n grown_ge(2) [of cap "unat want"] unfolding str_rep_def by simp
      moreover have "safe_string_grow self str want st = Inr (put str (Str ?s) s')"
        using f c0 nle object(1,2) 1(3) by (simp add: safe_string_grow_def Let_def)
      moreover have m: "moves {str, data} {str, q} st (put str (Str ?s) s')"
        using p object(4-6) by (auto simp: moves_def restrict_map_def fun_eq_iff)
      ultimately show ?thesis using p object(5) moves_keeps [OF m] by blast
    qed
  qed
qed

lemma safe_string_grow_cases:
  assumes "rt_wf st" and "str_rep self st str data cap bs"
    and "2 * cap + 80 < 2 ^ 64" and "unat want + 80 < 2 ^ 64"
  obtains (oom) "cap < unat want"
      and "safe_string_grow self str want st = Inl (Aborted ''Out of memory in safe_string_grow'')"
  | (ok) st' data' where "safe_string_grow self str want st = Inr st'" and "rt_wf st'"
      and "str_rep self st' str data' (grown cap (unat want)) bs" and "keeps {str, data} st st'"
      and "data' = data \<or> cell_at st data' = None" and "moves {str, data} {str, data'} st st'"
  using safe_string_grow_rep [OF assms] by blast

subsection \<open>Writing bytes\<close>

lemma byte_store:
  assumes "rt_wf st" and "cell_at st data = Some (md, y)" and "i < unat (m_size md)"
  shows "\<exists>st' y'. store_byte data i b st = Inr st' \<and> rt_wf st' \<and> rt.more st' = rt.more st \<and>
    cell_at st' = (cell_at st)(data \<mapsto> (md, y')) \<and> byte_view y' = (byte_view y)(i \<mapsto> b)"
  using heap.store_result [OF assms(1,2), of "Bytes ((byte_view y)(i \<mapsto> b))"]
    store_byte_cell [OF assms, of b] by (intro exI [of _ "put data (Bytes ((byte_view y)(i \<mapsto> b))) st"]) auto

text \<open>Copying bytes that stay as they are while the object \<open>data\<close> is written.\<close>

lemma memcpy_bytes:
  assumes "rt_wf st" and "cell_at st data = Some (md, y)" and "off + n \<le> unat (m_size md)"
    and "n \<le> length suf"
    and "\<And>st' i. rt_wf st' \<Longrightarrow> keeps {data} st st' \<Longrightarrow> i < length suf \<Longrightarrow> cstr_byte st' c i = Inr (suf ! i)"
  shows "\<exists>st' y'. memcpy data off c n st = Inr st' \<and> rt_wf st' \<and> rt.more st' = rt.more st \<and>
    cell_at st' = (cell_at st)(data \<mapsto> (md, y')) \<and>
    byte_view y' = (\<lambda>i. if off \<le> i \<and> i < off + n then Some (suf ! (i - off)) else byte_view y i)"
  using assms(3,4) unfolding memcpy_def
proof (induction n)
  case 0
  then show ?case using assms(1,2) by (intro exI [of _ st] exI [of _ y]) (auto simp: fun_eq_iff)
next
  case (Suc n)
  let ?f = "\<lambda>i st. bindE (cstr_byte st c i) (\<lambda>b. store_byte data (off + i) b st)"
  have "off + n \<le> unat (m_size md)" "n \<le> length suf" using Suc.prems by simp_all
  from Suc.IH [OF this] obtain s1 y1 where s1: "foldE ?f [0..<n] st = Inr s1" "rt_wf s1"
    "rt.more s1 = rt.more st" "cell_at s1 = (cell_at st)(data \<mapsto> (md, y1))"
    "byte_view y1 = (\<lambda>i. if off \<le> i \<and> i < off + n then Some (suf ! (i - off)) else byte_view y i)"
    by blast
  have "keeps {data} st s1" using s1(3,4) by (auto simp: keeps_def)
  then have b: "cstr_byte s1 c n = Inr (suf ! n)"
    using assms(5) [OF s1(2)] Suc.prems(2) by simp
  have c1: "cell_at s1 data = Some (md, y1)" using s1(4) by simp
  obtain s2 y2 where s2: "store_byte data (off + n) (suf ! n) s1 = Inr s2" "rt_wf s2"
    "rt.more s2 = rt.more s1" "cell_at s2 = (cell_at s1)(data \<mapsto> (md, y2))"
    "byte_view y2 = (byte_view y1)(off + n \<mapsto> suf ! n)"
    using byte_store [OF s1(2) c1, of "off + n" "suf ! n"] Suc.prems(1) by auto
  then show ?case
    using s1 b by (intro exI [of _ s2] exI [of _ y2]) (auto simp: foldE_append fun_eq_iff)
qed

lemma memcpy_rep:
  assumes "rt_wf st" and "cell_at st data = Some (md, y)" and "off + n \<le> unat (m_size md)"
    and "n \<le> length suf" and "\<And>st'. rt_wf st' \<Longrightarrow> keeps {data} st st' \<Longrightarrow> holds st' c suf"
  shows "\<exists>st' y'. memcpy data off c n st = Inr st' \<and> rt_wf st' \<and> rt.more st' = rt.more st \<and>
    cell_at st' = (cell_at st)(data \<mapsto> (md, y')) \<and>
    byte_view y' = (\<lambda>i. if off \<le> i \<and> i < off + n then Some (suf ! (i - off)) else byte_view y i)"
  using assms(5) by (intro memcpy_bytes [OF assms(1-4)]) (simp add: holds_def)

subsection \<open>Operations\<close>

lemma safe_string_append_rep:
  assumes "rt_wf st" and "str_rep self st str data cap bs" and "\<not> cstr_null c"
    and hold: "\<And>st'. rt_wf st' \<Longrightarrow> keeps {str, data} st st' \<Longrightarrow> holds st' c suf"
    and "2 * cap + 80 < 2 ^ 64" and "length bs + length suf + 81 < 2 ^ 64"
  shows "(\<exists>st' data' cap'. safe_string_append self str c st = Inr st' \<and> rt_wf st' \<and>
      str_rep self st' str data' cap' (bs @ suf) \<and> cap' \<le> max cap (2 * (length bs + length suf + 1)) \<and>
      moves {str, data} {str, data'} st st') \<or>
    (\<exists>want. unat want = length bs + length suf + 1 \<and> cap < unat want \<and>
       safe_string_grow self str want st = Inl (Aborted ''Out of memory in safe_string_grow'')) \<and>
    safe_string_append self str c st = Inl (Aborted ''Out of memory in safe_string_grow'')"
proof -
  have sl: "strlen_from st c 0 = Inr (length suf)"
    using strlen_holds [OF hold [OF assms(1) keeps_refl]] .
  have str0: "str \<noteq> 0" using assms(2) by (rule str_repE)
  show ?thesis
  proof (cases "suf = []")
    case True
    with sl str0 assms(1-3) show ?thesis
      by (intro disjI1 exI [of _ st] exI [of _ data] exI [of _ cap]) (simp add: safe_string_append_def)
  next
    case False
    obtain m s md y where r: "cell_at st str = Some (m, Str s)" "unat (str_length s) = length bs"
      using assms(2) by (rule str_repE)
    have f: "field str_of st str = Inr s" by (rule field_cell [OF assms(1) r(1)]) simp
    let ?want = "str_length s + of_nat (length suf) + 1"
    have w1: "unat (str_length s + of_nat (length suf)) = length bs + length suf"
      using unat_add_no_overflow [of "str_length s" "of_nat (length suf)"] assms(6) r(2)
      by (simp add: unat_of_nat_lt)
    then have want: "unat ?want = length bs + length suf + 1"
      using unat_add_no_overflow [of "str_length s + of_nat (length suf)" 1] assms(6) by simp
    have w80: "unat ?want + 80 < 2 ^ 64" unfolding want using assms(6) by simp
    from assms(1,2,5) w80 show ?thesis
    proof (cases rule: safe_string_grow_cases)
      case oom
      then have "safe_string_append self str c st = Inl (Aborted ''Out of memory in safe_string_grow'')"
        using f sl str0 assms(3) False by (simp add: safe_string_append_def)
      with oom want show ?thesis by blast
    next
      case (ok s1 data1)
      note g = ok(1) and wf1 = ok(2) and k1 = ok(4) and d1 = ok(5)
      from ok(3) show ?thesis
      proof (rule str_repE, goal_cases)
        case (1 m2 t md2 y2)
        have f1: "field str_of s1 str = Inr t" by (rule field_cell [OF wf1 1(1)]) simp
        have h1: "holds st' c suf" if w: "rt_wf st'" and k: "keeps {data1} s1 st'" for st'
        proof (rule hold [OF w])
          show "keeps {str, data} st st'"
            using k1 k d1 unfolding keeps_def by (metis insert_iff option.distinct(1) singletonD)
        qed
        have room: "length bs + length suf < unat (m_size md2)"
          using grown_ge(1) [of "unat ?want" cap] unfolding want 1(6) by simp
        obtain s2 y3 where s2: "memcpy data1 (length bs) c (length suf) s1 = Inr s2" "rt_wf s2"
          "rt.more s2 = rt.more s1" "cell_at s2 = (cell_at s1)(data1 \<mapsto> (md2, y3))"
          "byte_view y3 = (\<lambda>i. if length bs \<le> i \<and> i < length bs + length suf
             then Some (suf ! (i - length bs)) else byte_view y2 i)"
          using memcpy_rep [OF wf1 1(4) _ order.refl h1, of "length bs"] room by auto
        let ?t = "t\<lparr>str_length := str_length t + of_nat (length suf)\<rparr>"
        have lt: "unat (str_length t + of_nat (length suf)) = length bs + length suf"
          using unat_add_no_overflow [of "str_length t" "of_nat (length suf)"] assms(6) 1(8)
          by (simp add: unat_of_nat_lt)
        have cs: "cell_at s2 str = Some (m2, Str t)" using s2(4) 1 by simp
        note p = heap.store_result [OF s2(2) cs, of "Str ?t"]
        have cd: "cell_at (put str (Str ?t) s2) data1 = Some (md2, y3)" using p s2(4) 1 by simp
        obtain s3 y4 where s3: "store_byte data1 (length bs + length suf) 0 (put str (Str ?t) s2) = Inr s3"
          "rt_wf s3" "rt.more s3 = rt.more (put str (Str ?t) s2)"
          "cell_at s3 = (cell_at (put str (Str ?t) s2))(data1 \<mapsto> (md2, y4))"
          "byte_view y4 = (byte_view y3)(length bs + length suf \<mapsto> 0)"
          using byte_store [OF conjunct1 [OF p] cd room] by blast
        have "safe_string_append self str c st = Inr s3"
          using f sl str0 assms(3) False g f1 1(3,8) s2(1) s3(1) lt
          by (simp add: safe_string_append_def Let_def)
        moreover have "str_rep self s3 str data1 (grown cap (unat ?want)) (bs @ suf)"
          using s3(4,5) p s2(4,5) 1 lt room unfolding str_rep_def by (auto simp: nth_append)
        moreover have "moves {str, data1} {str, data1} s1 s3"
          using s2(3,4) s3(3,4) p by (auto simp: moves_def restrict_map_def fun_eq_iff)
        then have "moves {str, data} {str, data1} st s3" using ok(6) by (rule moves_trans [rotated])
        moreover have "grown cap (unat ?want) \<le> max cap (2 * (length bs + length suf + 1))"
          unfolding want by (auto simp: grown_def)
        ultimately show ?case using s3(2) by blast
      qed
    qed
  qed
qed

lemma safe_string_push_char_rep:
  assumes "rt_wf st" and "str_rep self st str data cap bs"
    and "2 * cap + 80 < 2 ^ 64" and "length bs + 82 < 2 ^ 64"
  shows "(\<exists>st' data' cap'. safe_string_push_char self str c st = Inr st' \<and> rt_wf st' \<and>
      str_rep self st' str data' cap' (bs @ [c]) \<and> cap' \<le> max cap (2 * (length bs + 2)) \<and>
      moves {str, data} {str, data'} st st') \<or>
    (\<exists>want. unat want = length bs + 2 \<and> cap < unat want \<and>
       safe_string_grow self str want st = Inl (Aborted ''Out of memory in safe_string_grow'')) \<and>
    safe_string_push_char self str c st = Inl (Aborted ''Out of memory in safe_string_grow'')"
proof -
  have str0: "str \<noteq> 0" using assms(2) by (rule str_repE)
  obtain m s where r: "cell_at st str = Some (m, Str s)" "unat (str_length s) = length bs"
    using assms(2) by (rule str_repE)
  have f: "field str_of st str = Inr s" by (rule field_cell [OF assms(1) r(1)]) simp
  let ?want = "str_length s + 2"
  have want: "unat ?want = length bs + 2"
    using unat_add_no_overflow [of "str_length s" 2] assms(4) r(2) by simp
  have w80: "unat ?want + 80 < 2 ^ 64" unfolding want using assms(4) by simp
  from assms(1-3) w80 show ?thesis
  proof (cases rule: safe_string_grow_cases)
    case oom
    moreover from this(2) have "safe_string_push_char self str c st = Inl (Aborted ''Out of memory in safe_string_grow'')"
      using f str0 by (simp add: safe_string_push_char_def)
    ultimately show ?thesis using want by blast
  next
    case (ok s1 data1)
    from ok(3) show ?thesis
    proof (rule str_repE, goal_cases)
      case (1 m2 t md2 y2)
      have f1: "field str_of s1 str = Inr t" by (rule field_cell [OF ok(2) 1(1)]) simp
      have room: "length bs + 1 < unat (m_size md2)"
        using grown_ge(1) [of "unat ?want" cap] unfolding want 1(6) by simp
      then have "length bs < unat (m_size md2)" by simp
      from byte_store [OF ok(2) 1(4) this, of c] obtain s2 y3 where
        s2: "store_byte data1 (length bs) c s1 = Inr s2" "rt_wf s2" "rt.more s2 = rt.more s1"
        "cell_at s2 = (cell_at s1)(data1 \<mapsto> (md2, y3))" "byte_view y3 = (byte_view y2)(length bs \<mapsto> c)"
        by blast
      let ?t = "t\<lparr>str_length := str_length t + 1\<rparr>"
      have lt: "unat (str_length t + 1) = length bs + 1"
        using unat_add_no_overflow [of "str_length t" 1] assms(4) 1(8) by simp
      have cs: "cell_at s2 str = Some (m2, Str t)" using s2(4) 1 by simp
      note p = heap.store_result [OF s2(2) cs, of "Str ?t"]
      have cd: "cell_at (put str (Str ?t) s2) data1 = Some (md2, y3)" using p s2(4) 1 by simp
      obtain s3 y4 where s3: "store_byte data1 (length bs + 1) 0 (put str (Str ?t) s2) = Inr s3"
        "rt_wf s3" "rt.more s3 = rt.more (put str (Str ?t) s2)"
        "cell_at s3 = (cell_at (put str (Str ?t) s2))(data1 \<mapsto> (md2, y4))"
        "byte_view y4 = (byte_view y3)(length bs + 1 \<mapsto> 0)"
        using byte_store [OF conjunct1 [OF p] cd room] by blast
      have "safe_string_push_char self str c st = Inr s3"
        using f str0 ok(1) f1 1(3,8) s2(1) s3(1) lt by (simp add: safe_string_push_char_def Let_def)
      moreover have "str_rep self s3 str data1 (grown cap (unat ?want)) (bs @ [c])"
        using s3(4,5) p s2(4,5) 1 lt room unfolding str_rep_def by (auto simp: nth_append less_Suc_eq)
      moreover have "moves {str, data1} {str, data1} s1 s3"
        using s2(3,4) s3(3,4) p by (auto simp: moves_def restrict_map_def fun_eq_iff)
      then have "moves {str, data} {str, data1} st s3" using ok(6) by (rule moves_trans [rotated])
      moreover have "grown cap (unat ?want) \<le> max cap (2 * (length bs + 2))"
        unfolding want by (auto simp: grown_def)
      ultimately show ?case using s3(2) by blast
    qed
  qed
qed

lemma safe_string_char_at_rep:
  assumes "rt_wf st" and "str_rep self st str data cap bs"
  shows "safe_string_char_at str i st =
    (if unat i < length bs then Inr (bs ! unat i) else Inl (Aborted ''String bounds violation!''))"
  using assms(2)
proof (rule str_repE, goal_cases)
  case (1 m s md y)
  have f: "field str_of st str = Inr s" by (rule field_cell [OF assms(1) 1(1)]) simp
  have "load_byte st data (unat i) = Inr (bs ! unat i)" if "unat i < length bs"
    using that 1 by (intro load_byte_cell [OF assms(1) 1(4)]) auto
  with f 1 show ?case by (auto simp: safe_string_char_at_def word_le_nat_alt)
qed

lemma safe_string_truncate_rep:
  assumes "rt_wf st" and "str_rep self st str data cap bs"
  shows "if unat n \<le> length bs
    then \<exists>st'. safe_string_truncate str n st = Inr st' \<and> rt_wf st' \<and>
      str_rep self st' str data cap (take (unat n) bs) \<and> keeps {str, data} st st'
    else safe_string_truncate str n st = Inl (Aborted ''Cannot truncate to length greater than current.'')"
  using assms(2)
proof (rule str_repE, goal_cases)
  case (1 m s md y)
  have f: "field str_of st str = Inr s" by (rule field_cell [OF assms(1) 1(1)]) simp
  show ?case
  proof (cases "unat n \<le> length bs")
    case False
    with f 1 show ?thesis by (simp add: safe_string_truncate_def word_less_nat_alt)
  next
    case True
    let ?s = "s\<lparr>str_length := n\<rparr>"
    note p = heap.store_result [OF assms(1) 1(1), of "Str ?s"]
    have cd: "cell_at (put str (Str ?s) st) data = Some (md, y)" using p 1 by simp
    have "unat n < unat (m_size md)" using True 1 by simp
    from byte_store [OF conjunct1 [OF p] cd this, of 0] obtain s2 y2 where
      s2: "store_byte data (unat n) 0 (put str (Str ?s) st) = Inr s2" "rt_wf s2"
      "rt.more s2 = rt.more (put str (Str ?s) st)"
      "cell_at s2 = (cell_at (put str (Str ?s) st))(data \<mapsto> (md, y2))"
      "byte_view y2 = (byte_view y)(unat n \<mapsto> 0)" by blast
    have "safe_string_truncate str n st = Inr s2"
      using f 1 True s2(1) by (simp add: safe_string_truncate_def word_less_nat_alt Let_def)
    moreover have "str_rep self s2 str data cap (take (unat n) bs)"
      using s2(4,5) p 1 True unfolding str_rep_def by auto
    moreover have "keeps {str, data} st s2" using s2 p by (auto simp: keeps_def)
    ultimately show ?thesis using s2(2) True by auto
  qed
qed

lemma safe_string_free_rep:
  assumes "rt_wf st" and "str_rep self st str data cap bs"
  shows "\<exists>st'. safe_string_free self str st = Inr st' \<and> rt_wf st' \<and> rt.more st' = rt.more st \<and>
    cell_at st' = cell_at st |` (- {str, data})"
  using assms(2)
proof (rule str_repE, goal_cases)
  case (1 m s md y)
  have f: "field str_of st str = Inr s" by (rule field_cell [OF assms(1) 1(1)]) simp
  obtain s1 where s1: "owner_free self data st = Inr s1" "rt_wf s1" "rt.more s1 = rt.more st"
    "cell_at s1 = (cell_at st)(data := None)"
    by (rule heap.release_obtain [OF assms(1) 1(4,5)])
  have c: "cell_at s1 str = Some (m, Str s)" using s1(4) 1 by simp
  let ?s = "s\<lparr>str_data := 0\<rparr>"
  note p = heap.store_result [OF s1(2) c, of "Str ?s"]
  have "cell_at (put str (Str ?s) s1) str = Some (m, Str ?s)" using p by simp
  then obtain s2 where s2: "owner_free self str (put str (Str ?s) s1) = Inr s2" "rt_wf s2"
    "rt.more s2 = rt.more (put str (Str ?s) s1)" "cell_at s2 = (cell_at (put str (Str ?s) s1))(str := None)"
    by (rule heap.release_obtain [OF conjunct1 [OF p] _ 1(2)])
  with s1 f 1 p show ?case
    by (auto simp: safe_string_free_def restrict_map_def fun_eq_iff)
qed

subsection \<open>Creation\<close>

text \<open>The first growth of a string whose struct is still empty.\<close>

lemma safe_string_grow_first:
  assumes "rt_wf st" and "cell_at st str = Some (m, Str s)" and "str_data s = 0"
    and "str_capacity s = 0" and "want \<noteq> 0" and "unat want + 96 < 2 ^ 64"
  shows "(\<exists>st' data md cap. safe_string_grow self str want st = Inr st' \<and> rt_wf st' \<and>
      rt.more st' = rt.more st \<and> data \<noteq> 0 \<and> cell_at st data = None \<and> free_ok self md \<and>
      m_size md = cap \<and> unat want \<le> unat cap \<and> unat cap \<le> max 16 (unat want) \<and>
      cell_at st' = (cell_at st)(data \<mapsto> (md, Filled 0xAA),
        str \<mapsto> (m, Str (s\<lparr>str_data := data, str_capacity := cap\<rparr>)))) \<or>
    safe_string_grow self str want st = Inl (Aborted ''Out of memory in safe_string_grow'')"
proof -
  let ?new = "if 16 < want then want else 16"
  have f: "field str_of st str = Inr s" by (rule field_cell [OF assms(1,2)]) simp
  have nle: "\<not> want \<le> 0" using assms(5) by simp
  have n: "unat ?new + 80 < 2 ^ 64" using assms(6) by simp
  have g: "safe_string_grow self str want st =
      bindE (owner_malloc self ?new st) (\<lambda>(new_data, st).
        if new_data = 0 then Inl (Aborted ''Out of memory in safe_string_grow'')
        else Inr (put str (Str (s\<lparr>str_data := new_data, str_capacity := ?new\<rparr>)) st))"
    using f nle assms(3,4) by (simp add: safe_string_grow_def owner_realloc_null Let_def)
  from assms(1) n show ?thesis
  proof (cases rule: heap.alloc_cases [where self = self])
    case (null s')
    then show ?thesis by (simp add: g)
  next
    case (object data s')
    have "data \<noteq> str" using object(5) assms(2) by auto
    then have c: "cell_at s' str = Some (m, Str s)" using object(6) assms(2) by simp
    note p = heap.store_result [OF object(3) c, of "Str (s\<lparr>str_data := data, str_capacity := ?new\<rparr>)"]
    have "unat want \<le> unat ?new" "unat ?new \<le> max 16 (unat want)" by (simp_all add: word_less_nat_alt)
    with p object show ?thesis
      by (intro disjI1 exI [of _ "put str (Str (s\<lparr>str_data := data, str_capacity := ?new\<rparr>)) s'"]
          exI [of _ data] exI [of _ "fresh_meta self ?new"] exI [of _ ?new]) (simp add: g)
  qed
qed

lemma safe_string_new_rep:
  assumes "rt_wf st" and "\<not> cstr_null c"
    and hold: "\<And>st'. rt_wf st' \<Longrightarrow> keeps {} st st' \<Longrightarrow> holds st' c bs"
    and "length bs + 97 < 2 ^ 64"
  shows "(\<exists>str st'. safe_string_new self c st = Inr (str, st') \<and> rt_wf st' \<and> rt.more st' = rt.more st \<and>
      (if str = 0 then cell_at st' = cell_at st
       else \<exists>data cap. str_rep self st' str data cap bs \<and> cap \<le> max 16 (length bs + 1) \<and>
         cell_at st str = None \<and> cell_at st data = None \<and> cell_at st' |` (- {str, data}) = cell_at st)) \<or>
    (\<exists>str s1 want. owner_malloc self 24 st = Inr (str, s1) \<and> str \<noteq> 0 \<and> unat want = length bs + 1 \<and>
       safe_string_grow self str want (put str (Str \<lparr>str_data = 0, str_length = 0, str_capacity = 0\<rparr>) s1) =
         Inl (Aborted ''Out of memory in safe_string_grow'')) \<and>
    safe_string_new self c st = Inl (Aborted ''Out of memory in safe_string_grow'')"
proof -
  have n24: "unat (24 :: size_t) + 80 < 2 ^ 64" by simp
  from assms(1) n24 show ?thesis
  proof (cases rule: heap.alloc_cases [where self = self])
    case (null s')
    then show ?thesis by (simp add: safe_string_new_def)
  next
    case (object str s1)
    let ?s = "\<lparr>str_data = 0, str_length = 0, str_capacity = 0\<rparr>"
    let ?m = "fresh_meta self 24"
    have c1: "cell_at s1 str = Some (?m, Filled 0xAA)" using object(6) by simp
    note p = heap.store_result [OF object(3) c1, of "Str ?s"]
    let ?s1 = "put str (Str ?s) s1"
    have cs: "cell_at ?s1 str = Some (?m, Str ?s)" using p by simp
    have k1: "keeps {} st ?s1" using p object by (auto simp: keeps_def)
    have wf1: "rt_wf ?s1" using p by blast
    have sl: "strlen_from ?s1 c 0 = Inr (length bs)" by (rule strlen_holds [OF hold [OF wf1 k1]])
    let ?want = "of_nat (length bs) + 1 :: size_t"
    have want: "unat ?want = length bs + 1"
      using unat_add_no_overflow [of "of_nat (length bs) :: size_t" 1] assms(4)
      by (simp add: unat_of_nat_lt)
    have want0: "?want \<noteq> 0" using want by (simp add: unat_gt_0 [symmetric])
    have w96: "unat ?want + 96 < 2 ^ 64" unfolding want using assms(4) by simp
    have z: "str_data ?s = 0" "str_capacity ?s = 0" by simp_all
    from safe_string_grow_first [OF wf1 cs z want0 w96, of self] show ?thesis
    proof (elim disjE exE conjE)
      assume "safe_string_grow self str ?want ?s1 = Inl (Aborted ''Out of memory in safe_string_grow'')"
      moreover from this have "safe_string_new self c st = Inl (Aborted ''Out of memory in safe_string_grow'')"
        using object(1,2) assms(2) sl by (simp add: safe_string_new_def Let_def)
      ultimately show ?thesis using object(1,2) want by blast
    next
      fix s2 data md cap
      let ?t = "?s\<lparr>str_data := data, str_capacity := cap\<rparr>"
      assume g: "safe_string_grow self str ?want ?s1 = Inr s2" "rt_wf s2" "rt.more s2 = rt.more ?s1"
        and d: "data \<noteq> 0" "cell_at ?s1 data = None" and md: "free_ok self md" "m_size md = cap"
        and ge: "unat ?want \<le> unat cap" "unat cap \<le> max 16 (unat ?want)"
        and c2: "cell_at s2 = (cell_at ?s1)(data \<mapsto> (md, Filled 0xAA), str \<mapsto> (?m, Str ?t))"
      have ds: "data \<noteq> str" using d(2) cs by auto
      have cd: "cell_at s2 data = Some (md, Filled 0xAA)" using c2 ds by simp
      have f2: "field str_of s2 str = Inr ?t"
        by (rule field_cell [OF g(2), of str ?m "Str ?t"]) (use c2 ds in auto)
      have room: "length bs < unat (m_size md)" using ge(1) want md(2) by simp
      have up: "unat cap \<le> max 16 (length bs + 1)" using ge(2) unfolding want .
      have h2: "holds st' c bs" if w: "rt_wf st'" and k: "keeps {data} s2 st'" for st'
      proof (rule hold [OF w])
        have "cell_at st data = None" using d(2) ds p object(6) by (auto split: if_splits)
        then have "q \<noteq> data \<and> cell_at s2 q = Some x" if "cell_at st q = Some x" for q x
          using that c2 p object(5,6) by auto
        then show "keeps {} st st'"
          using k p object(4) g(3) unfolding keeps_def by (metis singletonD)
      qed
      obtain s3 y3 where s3: "memcpy data 0 c (length bs) s2 = Inr s3" "rt_wf s3"
        "rt.more s3 = rt.more s2" "cell_at s3 = (cell_at s2)(data \<mapsto> (md, y3))"
        "byte_view y3 = (\<lambda>i. if 0 \<le> i \<and> i < 0 + length bs then Some (bs ! (i - 0))
           else byte_view (Filled 0xAA) i)"
        using memcpy_rep [OF g(2) cd _ order.refl h2, of 0] room by auto
      have cd3: "cell_at s3 data = Some (md, y3)" using s3(4) by simp
      from byte_store [OF s3(2) cd3 room, of 0] obtain s4 y4 where
        s4: "store_byte data (length bs) 0 s3 = Inr s4" "rt_wf s4" "rt.more s4 = rt.more s3"
        "cell_at s4 = (cell_at s3)(data \<mapsto> (md, y4))" "byte_view y4 = (byte_view y3)(length bs \<mapsto> 0)"
        by blast
      let ?u = "?t\<lparr>str_length := of_nat (length bs)\<rparr>"
      have cs4: "cell_at s4 str = Some (?m, Str ?t)" using s4(4) s3(4) c2 ds by simp
      note q = heap.store_result [OF s4(2) cs4, of "Str ?u"]
      have "safe_string_new self c st = Inr (str, put str (Str ?u) s4)"
        using object(1,2) assms(2) sl g(1) f2 s3(1) s4(1) by (simp add: safe_string_new_def Let_def)
      moreover have "str_rep self (put str (Str ?u) s4) str data (unat cap) bs"
        using q s4(4,5) s3(4,5) c2 ds md room assms(4)
        unfolding str_rep_def by (simp add: unat_of_nat_lt)
      moreover have "cell_at st data = None" using d(2) ds p object(6) by (auto split: if_splits)
      moreover have "cell_at (put str (Str ?u) s4) |` (- {str, data}) = cell_at st"
        using q s4(4) s3(4) c2 p object(5,6) \<open>cell_at st data = None\<close>
        by (auto simp: restrict_map_def fun_eq_iff)
      moreover have "rt.more (put str (Str ?u) s4) = rt.more st"
        using q s4(3) s3(3) g(3) p object(4) by simp
      ultimately show ?thesis using conjunct1 [OF q] object(2,5) up
        by (intro disjI1 exI [of _ str] exI [of _ "put str (Str ?u) s4"]) (simp, blast)
    qed
  qed
qed

subsection \<open>Strings are byte lists\<close>

datatype str_op = SAppend "byte list" | SPush byte | STruncate size_t

fun str_exec :: "tid \<Rightarrow> addr \<Rightarrow> str_op \<Rightarrow> 'x rt_scheme \<Rightarrow> failure + 'x rt_scheme" where
  "str_exec self str (SAppend suf) st = safe_string_append self str (Lit suf) st"
| "str_exec self str (SPush c) st = safe_string_push_char self str c st"
| "str_exec self str (STruncate n) st = safe_string_truncate str n st"

fun bytes_exec :: "str_op \<Rightarrow> byte list \<Rightarrow> byte list option" where
  "bytes_exec (SAppend suf) bs = Some (bs @ suf)"
| "bytes_exec (SPush c) bs = Some (bs @ [c])"
| "bytes_exec (STruncate n) bs = (if unat n \<le> length bs then Some (take (unat n) bs) else None)"

fun op_bytes :: "str_op \<Rightarrow> byte list" where
  "op_bytes (SAppend suf) = suf"
| "op_bytes _ = []"


text \<open>A string made from a C string represents its bytes, reading it back with
  \<open>safe_string_cstr\<close> and \<open>strlen\<close> gives the same bytes, and appending one string to a different one
  appends exactly those bytes and leaves the source as it was.\<close>

theorem string_append_other:
  assumes "rt_wf st" and "str_rep self st a da ca xs" and "str_rep self st b db cb ys"
    and "{a, da} \<inter> {b, db} = {}" and "0 \<notin> set ys"
    and "2 * ca + 80 < 2 ^ 64" and "length xs + length ys + 81 < 2 ^ 64"
  shows "safe_string_cstr b st = Inr (At db) \<and> strlen_from st (At db) 0 = Inr (length ys) \<and>
    ((\<exists>st' d c. safe_string_append_safe self a b st = Inr st' \<and> rt_wf st' \<and>
        str_rep self st' a d c (xs @ ys) \<and> str_rep self st' b db cb ys \<and> keeps {a, da} st st') \<or>
     safe_string_append_safe self a b st = Inl (Aborted ''Out of memory in safe_string_grow''))"
proof -
  have keep: "str_rep self st' b db cb ys" if "keeps {a, da} st st'" for st'
    using assms(3,4) that unfolding str_rep_def keeps_def by fastforce
  have h: "holds st' (At db) ys" if "rt_wf st'" "keeps {a, da} st st'" for st'
    by (rule holds_At [OF that(1) keep [OF that(2)] assms(5)])
  obtain m s where r: "cell_at st b = Some (m, Str s)" "str_data s = db" "b \<noteq> 0" "db \<noteq> 0"
    using assms(3) by (rule str_repE)
  have f: "field str_of st b = Inr s" by (rule field_cell [OF assms(1) r(1)]) simp
  have c: "safe_string_cstr b st = Inr (At db)" using f r by (simp add: safe_string_cstr_def)
  have a0: "a \<noteq> 0" using assms(2) by (rule str_repE)
  have d: "\<not> cstr_null (At db)" using r(4) by (simp add: cstr_null_def)
  have s: "safe_string_append_safe self a b st = safe_string_append self a (At db) st"
    using a0 r(3) c by (simp add: safe_string_append_safe_def)
  have l: "strlen_from st (At db) 0 = Inr (length ys)" using strlen_holds [OF h [OF assms(1) keeps_refl]] .
  from safe_string_append_rep [OF assms(1,2) d h assms(6,7)] show ?thesis
    unfolding s using c l keep moves_keeps [of "{a, da}"] by blast
qed

definition example_text :: "byte list" where
  "example_text = [104, 101, 108, 108, 111]"

lemma example_string:
  obtains st :: rt and data cap where "safe_string_new 2 (Lit example_text) example_start = Inr (0x1050, st)"
    and "rt_wf st" and "str_rep 2 st 0x1050 data cap example_text" and "cap = 16"
proof -
  have "0 \<notin> set example_text" by (simp add: example_text_def)
  then have h: "holds st (Lit example_text) example_text" for st :: rt by (rule holds_Lit)
  have n: "length example_text + 97 < 2 ^ 64" by (simp add: example_text_def)
  have ex: "\<exists>st. safe_string_new 2 (Lit example_text) example_start = Inr (0x1050, st) \<and>
      field str_of st 0x1050 = Inr \<lparr>str_data = 0x2050, str_length = 5, str_capacity = 16\<rparr>"
    by (simp add: safe_string_new_def safe_string_grow_def memcpy_def strlen_from.simps cstr_byte_def
        cstr_null_def example_text_def example_start_def rt_eval field_def store_byte_def usable_def
        word_le_nat_alt word_less_nat_alt upt_rec)
  then obtain st where st: "safe_string_new 2 (Lit example_text) example_start = Inr (0x1050, st)"
    "field str_of st 0x1050 = Inr \<lparr>str_data = 0x2050, str_length = 5, str_capacity = 16\<rparr>" by blast
  have "\<not> cstr_null (Lit example_text)" by (simp add: cstr_null_def)
  from safe_string_new_rep [OF example_start_wf this h n, of 2] st(1)
  obtain data cap where w: "rt_wf st" and r: "str_rep 2 st 0x1050 data cap example_text" by auto
  from r obtain m s where s: "cell_at st 0x1050 = Some (m, Str s)" "unat (str_capacity s) = cap"
    by (rule str_repE)
  have "field str_of st 0x1050 = Inr s" by (rule field_cell [OF w s(1)]) simp
  then have "cap = 16" using st(2) s(2) by auto
  with st(1) w r that show ?thesis by blast
qed

theorem string_append_other_witness:
  "\<exists>(st :: rt) st' d. strlen_from st (At d) 0 = Inr (length example_text) \<and>
     (safe_string_append_safe 2 0x1050 0x3050 st = Inr st' \<or>
      safe_string_append_safe 2 0x1050 0x3050 st = Inl (Aborted ''Out of memory in safe_string_grow''))"
proof -
  have z: "0 \<notin> set example_text" by (simp add: example_text_def)
  then have h: "holds st (Lit example_text) example_text" for st :: rt by (rule holds_Lit)
  have n: "length example_text + 97 < 2 ^ 64" by (simp add: example_text_def)
  have nn: "\<not> cstr_null (Lit example_text)" by (simp add: cstr_null_def)
  obtain st1 st2 s1 where st: "safe_string_new 2 (Lit example_text) roomy_start = Inr (0x1050, st1)"
    "safe_string_new 2 (Lit example_text) st1 = Inr (0x3050, st2)"
    "field str_of st2 0x1050 = Inr s1" "unat (str_capacity s1) = 16"
    by (simp add: safe_string_new_def safe_string_grow_def memcpy_def strlen_from.simps cstr_byte_def
        cstr_null_def example_text_def roomy_start_def rt_eval field_def store_byte_def usable_def
        word_le_nat_alt word_less_nat_alt upt_rec)
  from safe_string_new_rep [OF roomy_start_wf nn h n, of 2] st(1)
  obtain da ca where w1: "rt_wf st1" and a: "str_rep 2 st1 0x1050 da ca example_text" by auto
  from safe_string_new_rep [OF w1 nn h n, of 2] st(2)
  obtain db cb where w2: "rt_wf st2" and b: "str_rep 2 st2 0x3050 db cb example_text"
    and fr: "cell_at st1 0x3050 = None" "cell_at st1 db = None"
      "cell_at st2 |` (- {0x3050, db}) = cell_at st1" by auto
  have same: "cell_at st2 q = Some x" if "cell_at st1 q = Some x" for q x
    using that fun_cong [OF fr(3), of q] by (auto simp: restrict_map_def split: if_splits)
  from a have a2: "str_rep 2 st2 0x1050 da ca example_text"
    unfolding str_rep_def using same by blast
  have dj: "{0x1050, da} \<inter> {0x3050, db} = {}"
    using a fr(1,2) by (auto elim!: str_repE)
  from a2 obtain m s where s: "cell_at st2 0x1050 = Some (m, Str s)" "unat (str_capacity s) = ca"
    by (rule str_repE)
  have "field str_of st2 0x1050 = Inr s" by (rule field_cell [OF w2 s(1)]) simp
  then have "2 * ca + 80 < 2 ^ 64" using st(3,4) s(2) by auto
  moreover have "length example_text + length example_text + 81 < 2 ^ 64" by (simp add: example_text_def)
  ultimately show ?thesis
    using string_append_other [OF w2 a2 b dj z] by blast
qed


text \<open>Appending a string to itself works while the buffer has room and reads released memory as
  soon as the buffer has to move: \<open>safe_string_append_safe(s, s)\<close> copies from the old buffer after
  \<open>owner_realloc\<close> has released it.\<close>

theorem string_append_self:
  "\<exists>st1 st2 st3. safe_string_new 2 (Lit example_text) example_start = Inr (0x1050, st1) \<and>
     safe_string_append_safe 2 0x1050 0x1050 st1 = Inr st2 \<and>
     safe_string_char_at 0x1050 9 st2 = Inr 111 \<and>
     safe_string_append_safe 2 0x1050 0x1050 st2 = Inl (Undefined ''read of unmapped memory'')"
  by (simp add: safe_string_new_def safe_string_grow_def memcpy_def strlen_from.simps cstr_byte_def
      cstr_null_def example_text_def example_start_def rt_eval field_def store_byte_def load_byte_def
      usable_def word_le_nat_alt word_less_nat_alt upt_rec safe_string_append_safe_def
      safe_string_append_def safe_string_cstr_def safe_string_char_at_def)

end
