(* ===== verification/Bump.thy ===== *)
theory Bump
  imports Heap
begin

text \<open>
  What the two bump allocators, \<open>src/region.c\<close> and \<open>src/ownedc_arena.c\<close>, share: the rounding of sizes,
  the linked chunks, the loop that frees them, and the contract \<open>bump_allocator\<close> from which the
  disjointness of everything they hand out follows.
\<close>

subsection \<open>Rounding to eight bytes\<close>

definition align8 :: "size_t \<Rightarrow> size_t" where
  "align8 n = and (n + 7) (not 7)"

lemma and_not_mask: "and w (not (mask n)) = push_bit n (drop_bit n w)" for w :: "'a :: len word"
  by (rule bit_word_eqI) (auto simp: bit_and_iff bit_not_iff bit_mask_iff bit_push_bit_iff bit_drop_bit_eq)

lemma not_7: "not 7 = (not (mask 3) :: size_t)"
  by (simp add: mask_eq_exp_minus_1)

lemma unat_and_not7: "unat (and w (not 7) :: size_t) = unat w div 8 * 8"
proof -
  have t: "take_bit 64 (unat w) = unat w"
    using unat_lt_2p64 [of w] by (simp add: take_bit_eq_mod)
  have "unat (and w (not 7) :: size_t) = take_bit 64 (push_bit 3 (drop_bit 3 (unat w)))"
    unfolding not_7 and_not_mask by (simp only: unsigned_push_bit_eq unsigned_drop_bit_eq) (simp add: t)
  also have "\<dots> = unat w div 8 * 8"
    using unat_lt_2p64 [of w] by (simp add: push_bit_eq_mult drop_bit_eq_div take_bit_eq_mod)
  finally show ?thesis .
qed

lemma unat_align8:
  assumes "unat n + 7 < 2 ^ 64"
  shows "unat (align8 n) = (unat n + 7) div 8 * 8"
  using unat_add_no_overflow [of n 7] assms by (simp only: align8_def unat_and_not7) simp

lemma align8_bounds:
  assumes "unat n + 7 < 2 ^ 64"
  shows "unat n \<le> unat (align8 n)" and "unat (align8 n) < unat n + 8" and "unat (align8 n) mod 8 = 0"
  unfolding unat_align8 [OF assms] by presburger+

text \<open>Requests the arithmetic of the allocators can take.\<close>

definition bump_fits :: "size_t \<Rightarrow> bool" where
  "bump_fits n \<longleftrightarrow> unat n + 8 < 2 ^ 63"

subsection \<open>The contract\<close>

text \<open>
  \<open>taken\<close> is the set of byte addresses an allocator has handed out.  A successful request takes bytes
  nobody has; a failed one (\<open>NULL\<close>) takes none.
\<close>

definition span :: "addr \<Rightarrow> size_t \<Rightarrow> nat set" where
  "span p n = {unat p ..< unat p + unat n}"

locale bump_allocator =
  fixes invar :: "'s \<Rightarrow> bool"
    and taken :: "'s \<Rightarrow> nat set"
    and request :: "size_t \<Rightarrow> 's \<Rightarrow> failure + (addr \<times> 's)"
    and fits :: "size_t \<Rightarrow> bool"
  assumes grant: "invar s \<Longrightarrow> fits n \<Longrightarrow> request n s = Inr (p, s') \<Longrightarrow>
      invar s' \<and> taken s \<subseteq> taken s' \<and>
      (p \<noteq> 0 \<longrightarrow> unat p mod 8 = 0 \<and> span p n \<subseteq> taken s' - taken s)"
    and total: "invar s \<Longrightarrow> fits n \<Longrightarrow> \<exists>p s'. request n s = Inr (p, s')"
begin

fun requests :: "size_t list \<Rightarrow> 's \<Rightarrow> failure + ((addr \<times> size_t) list \<times> 's)" where
  "requests [] s = Inr ([], s)"
| "requests (n # ns) s =
     bindE (request n s) (\<lambda>(p, s1).
     bindE (requests ns s1) (\<lambda>(gs, s2). Inr ((p, n) # gs, s2)))"

lemma requests_sound:
  assumes "invar s" and "list_all fits ns"
  shows "\<exists>gs s'. requests ns s = Inr (gs, s') \<and> invar s' \<and> taken s \<subseteq> taken s' \<and>
    map snd gs = ns \<and>
    (\<forall>(p, n) \<in> set gs. p \<noteq> 0 \<longrightarrow> unat p mod 8 = 0 \<and> span p n \<subseteq> taken s' - taken s) \<and>
    sorted_wrt (\<lambda>(p, n) (q, k). p \<noteq> 0 \<longrightarrow> q \<noteq> 0 \<longrightarrow> span p n \<inter> span q k = {}) gs"
  using assms
proof (induction ns arbitrary: s)
  case Nil
  then show ?case by simp
next
  case (Cons n ns)
  then obtain p s1 where r: "request n s = Inr (p, s1)" using total [of s n] by auto
  have g: "invar s1" "taken s \<subseteq> taken s1"
    "p \<noteq> 0 \<Longrightarrow> unat p mod 8 = 0 \<and> span p n \<subseteq> taken s1 - taken s"
    using grant [OF Cons.prems(1) _ r] Cons.prems(2) by auto
  obtain gs s2 where rs: "requests ns s1 = Inr (gs, s2)" "invar s2" "taken s1 \<subseteq> taken s2" "map snd gs = ns"
    and own': "\<forall>(q, k) \<in> set gs. q \<noteq> 0 \<longrightarrow> unat q mod 8 = 0 \<and> span q k \<subseteq> taken s2 - taken s1"
    and dj: "sorted_wrt (\<lambda>(p, n) (q, k). p \<noteq> 0 \<longrightarrow> q \<noteq> 0 \<longrightarrow> span p n \<inter> span q k = {}) gs"
    using Cons.IH [OF g(1)] Cons.prems(2) by (simp only: list.pred_inject) blast
  have own: "unat q mod 8 = 0 \<and> span q k \<subseteq> taken s2 - taken s1"
    if "(q, k) \<in> set gs" "q \<noteq> 0" for q k
    using own' that by blast
  have one: "unat q mod 8 = 0 \<and> span q k \<subseteq> taken s2 - taken s"
    if "(q, k) \<in> set ((p, n) # gs)" "q \<noteq> 0" for q k
    using that g(2,3) rs(3) own by (cases "(q, k) \<in> set gs") (blast, fastforce)
  have "span p n \<inter> span q k = {}" if "(q, k) \<in> set gs" "p \<noteq> 0" "q \<noteq> 0" for q k
    using own [OF that(1,3)] g(3) [OF that(2)] by blast
  then have "sorted_wrt (\<lambda>(p, n) (q, k). p \<noteq> 0 \<longrightarrow> q \<noteq> 0 \<longrightarrow> span p n \<inter> span q k = {}) ((p, n) # gs)"
    using dj by (simp only: sorted_wrt.simps) blast
  moreover have "requests (n # ns) s = Inr ((p, n) # gs, s2)" using r rs(1) by simp
  ultimately show ?case using one rs(2-4) g(2) by (intro exI conjI) (assumption, assumption, blast, simp, blast)
qed

end

subsection \<open>Linked chunks\<close>

text \<open>
  A chunk is a header of 24 bytes (the bytes used, the capacity, the link) and the data.  \<open>sel\<close> reads
  the header of the allocator at hand; \<open>chain\<close> follows the links.
\<close>

type_synonym chunk_sel = "payload \<Rightarrow> (size_t \<times> size_t \<times> addr) option"
type_synonym chunk_list = "(addr \<times> nat \<times> nat) list"

definition chunk_cell ::
    "chunk_sel \<Rightarrow> tid \<Rightarrow> 'x rt_scheme \<Rightarrow> addr \<Rightarrow> nat \<Rightarrow> nat \<Rightarrow> addr \<Rightarrow> bool" where
  "chunk_cell sel self st a used cap nx \<longleftrightarrow>
     (\<exists>m x u c. cell_at st a = Some (m, x) \<and> free_ok self m \<and> sel x = Some (u, c, nx) \<and>
        unat u = used \<and> unat c = cap \<and> used \<le> cap \<and> cap \<le> 2 ^ 63 \<and> used mod 8 = 0 \<and>
        unat (m_size m) = 24 + cap)"

fun chain :: "chunk_sel \<Rightarrow> tid \<Rightarrow> 'x rt_scheme \<Rightarrow> addr \<Rightarrow> chunk_list \<Rightarrow> bool" where
  "chain sel self st a [] = (a = 0)"
| "chain sel self st a ((b, used, cap) # cs) =
     (b = a \<and> a \<noteq> 0 \<and> (\<exists>nx. chunk_cell sel self st a used cap nx \<and> chain sel self st nx cs))"

definition taken_of :: "chunk_list \<Rightarrow> nat set" where
  "taken_of cs = (\<Union>(a, used, cap) \<in> set cs. {unat a + 24 ..< unat a + 24 + used})"

lemma chain_unique: "chain sel self st a cs \<Longrightarrow> chain sel self st a cs' \<Longrightarrow> cs = cs'"
proof (induction cs arbitrary: a cs')
  case Nil
  then show ?case by (cases cs') auto
next
  case (Cons c cs)
  then obtain b u k where c: "c = (b, u, k)" by (cases c) auto
  with Cons.prems obtain nx where nx: "chunk_cell sel self st a u k nx" "chain sel self st nx cs" "a \<noteq> 0"
    by auto
  with Cons.prems(2) obtain u' k' nx' cs2 where cs': "cs' = (a, u', k') # cs2"
    "chunk_cell sel self st a u' k' nx'" "chain sel self st nx' cs2"
    by (cases cs') auto
  with nx have "nx' = nx" "u' = u" "k' = k" by (auto simp: chunk_cell_def)
  with Cons.IH [OF nx(2)] cs' c Cons.prems(1) show ?case by auto
qed

lemma chain_ConsE:
  assumes "chain sel self st x ((a, used, cap) # cs)"
  obtains nx where "chunk_cell sel self st a used cap nx" and "chain sel self st nx cs" and "x = a"
    and "a \<noteq> 0"
proof -
  from assms have ax: "x = a" and a0: "a \<noteq> 0"
    and ex: "\<exists>nx. chunk_cell sel self st a used cap nx \<and> chain sel self st nx cs" by simp_all
  from ex obtain nx where "chunk_cell sel self st a used cap nx" "chain sel self st nx cs" by (elim exE conjE)
  from that [OF this ax a0] show ?thesis .
qed

lemma chunk_cellE:
  assumes "chunk_cell sel self st a used cap nx"
  obtains m x u c where "cell_at st a = Some (m, x)" and "free_ok self m" and "sel x = Some (u, c, nx)"
    and "unat u = used" and "unat c = cap" and "used \<le> cap" and "cap \<le> 2 ^ 63" and "used mod 8 = 0"
    and "unat (m_size m) = 24 + cap"
  using assms unfolding chunk_cell_def by (elim exE conjE) (rule that)

lemma chain_cell:
  "chain sel self st a cs \<Longrightarrow> (b, u, k) \<in> set cs \<Longrightarrow> \<exists>nx. chunk_cell sel self st b u k nx"
  by (induction sel self st a cs rule: chain.induct) auto

lemma chain_same:
  "chain sel self st a cs \<Longrightarrow> (\<And>b. b \<in> fst ` set cs \<Longrightarrow> cell_at st' b = cell_at st b) \<Longrightarrow>
   chain sel self st' a cs"
  by (induction cs arbitrary: a) (fastforce simp: chunk_cell_def)+

text \<open>Chunks occupy disjoint memory, aligned to eight bytes.\<close>

lemma cells_apart:
  assumes "rt_wf st" and "cell_at st p = Some (m, x)" and "cell_at st q = Some (k, y)" and "p \<noteq> q"
  shows "unat p + unat (m_size m) \<le> unat q \<or> unat q + unat (m_size k) \<le> unat p"
proof -
  obtain L where L: "rt_rep st L" using rt_wf_rep [OF assms(1)] by blast
  obtain m' where m': "get_meta st p = Inr (Some m')" "m = bare m'"
    using assms(2) by (rule cell_at_meta)
  obtain k' where k': "get_meta st q = Inr (Some k')" "k = bare k'"
    using assms(3) by (rule cell_at_meta)
  from disjoint_objects [OF L m'(1) k'(1) assms(4)] m'(2) k'(2) show ?thesis by (auto simp: bare_def)
qed

lemma cell_place:
  assumes "rt_wf st" and "cell_at st p = Some (m, x)"
  shows "unat p mod 16 = 0" and "unat p + unat (m_size m) < 2 ^ 64"
proof -
  obtain L where L: "rt_rep st L" using rt_wf_rep [OF assms(1)] by blast
  obtain m' where m': "get_meta st p = Inr (Some m')" "m = bare m'" using assms(2) by (rule cell_at_meta)
  note b = live_block [OF L m'(1)]
  have "unat (meta_of p) mod 16 = 0"
    using chunks_inv_ok(3) [OF blocks_invD(7) [OF rt_rep_blocks [OF L]] b(1)] .
  with b(2) show "unat p mod 16 = 0" by presburger
  show "unat p + unat (m_size m) < 2 ^ 64" using b(3) m'(2) by (simp add: bare_def)
qed

lemma chunk_taken:
  assumes "rt_wf st" and "chunk_cell sel self st a u k nx" and "cell_at st b = Some (m, y)" and "a \<noteq> b"
  shows "{unat a + 24 ..< unat a + 24 + u} \<inter> {unat b ..< unat b + unat (m_size m)} = {}"
proof -
  obtain m' x' where m': "cell_at st a = Some (m', x')" "u \<le> k" "unat (m_size m') = 24 + k"
    using assms(2) by (auto simp: chunk_cell_def)
  from cells_apart [OF assms(1) m'(1) assms(3,4)] m'(2,3) show ?thesis by auto
qed

lemma taken_apart:
  assumes "rt_wf st" and "chain sel self st a cs" and "cell_at st b = Some (m, y)" and "b \<notin> fst ` set cs"
  shows "taken_of cs \<inter> {unat b ..< unat b + unat (m_size m)} = {}"
proof -
  have "{unat c + 24 ..< unat c + 24 + u} \<inter> {unat b ..< unat b + unat (m_size m)} = {}"
    if c: "(c, u, k) \<in> set cs" for c u k
  proof -
    obtain nx where "chunk_cell sel self st c u k nx" using chain_cell [OF assms(2) c] by blast
    moreover have "c \<noteq> b" using assms(4) c by force
    ultimately show ?thesis using chunk_taken [OF assms(1) _ assms(3)] by blast
  qed
  then show ?thesis unfolding taken_of_def by fastforce
qed

text \<open>Extending the used part of one chunk of a list of chunks takes bytes nobody has.\<close>

lemma taken_of_Cons: "taken_of ((a, u, c) # cs) = {unat a + 24 ..< unat a + 24 + u} \<union> taken_of cs"
  by (simp add: taken_of_def)

lemma taken_of_append: "taken_of (cs @ ds) = taken_of cs \<union> taken_of ds"
  by (auto simp: taken_of_def)

lemma span_in_chunk:
  assumes wf: "rt_wf st" and cell: "chunk_cell sel self st a (u + sz) c nx" and n: "unat n \<le> sz"
    and u: "u mod 8 = 0"
    and p: "p = a + 24 + of_nat u" and rest: "\<And>x. x \<in> T \<Longrightarrow> x < unat a \<or> unat a + 24 + c \<le> x"
  shows "unat p mod 8 = 0" and "span p n \<subseteq> {unat a + 24 ..< unat a + 24 + (u + sz)}"
    and "span p n \<inter> ({unat a + 24 ..< unat a + 24 + u} \<union> T) = {}" and "p \<noteq> 0"
proof -
  obtain m x where m: "cell_at st a = Some (m, x)" "u + sz \<le> c" "unat (m_size m) = 24 + c"
    using cell by (auto simp: chunk_cell_def)
  have pl: "unat a mod 16 = 0" "unat a + (24 + c) < 2 ^ 64"
    using cell_place [OF wf m(1)] m(3) by simp_all
  have uu: "unat (of_nat u :: size_t) = u" using pl(2) m(2) by (intro unat_of_nat_lt) simp
  have a24: "unat (a + 24) = unat a + 24" using unat_add_no_overflow [of a 24] pl(2) by simp
  have up: "unat p = unat a + 24 + u"
    using unat_add_no_overflow [of "a + 24" "of_nat u"] a24 uu pl(2) m(2) unfolding p by simp
  show "unat p mod 8 = 0" unfolding up using pl(1) u by presburger
  show "span p n \<subseteq> {unat a + 24 ..< unat a + 24 + (u + sz)}" using n by (auto simp: span_def up)
  have "x \<notin> T" if "x \<in> span p n" for x
    using rest [of x] that n m(2) by (auto simp: span_def up)
  then show "span p n \<inter> ({unat a + 24 ..< unat a + 24 + u} \<union> T) = {}"
    by (auto simp: span_def up)
  show "p \<noteq> 0" using up by auto
qed

lemma taken_outside:
  assumes "rt_wf st" and "chain sel self st x cs" and "chunk_cell sel self st a u c nx" and "a \<notin> fst ` set cs"
    and "y \<in> taken_of cs"
  shows "y < unat a \<or> unat a + 24 + c \<le> y"
proof -
  obtain m z where m: "cell_at st a = Some (m, z)" "unat (m_size m) = 24 + c"
    using assms(3) by (auto simp: chunk_cell_def)
  from taken_apart [OF assms(1,2) m(1) assms(4)] assms(5) m(2) show ?thesis by auto
qed

subsection \<open>Freeing the chunks\<close>

text \<open>The \<open>while\<close> loop of \<open>safe_region_free\<close> and \<open>ownedc_arena_destroy\<close>: read the link, free, go on.\<close>

partial_function (option) free_chain ::
    "chunk_sel \<Rightarrow> tid \<Rightarrow> addr \<Rightarrow> 'x rt_scheme \<Rightarrow> (failure + 'x rt_scheme) option" where
  "free_chain sel self a st =
     (if a = 0 then Some (Inr st)
      else case field sel st a of
             Inl e \<Rightarrow> Some (Inl e)
           | Inr (u, c, nx) \<Rightarrow>
               (case owner_free self a st of
                  Inl e \<Rightarrow> Some (Inl e)
                | Inr st' \<Rightarrow> free_chain sel self nx st'))"

lemma free_chain_rep:
  assumes "rt_wf st" and "chain sel self st a cs" and "distinct (map fst cs)"
  shows "\<exists>st'. free_chain sel self a st = Some (Inr st') \<and> rt_wf st' \<and> rt.more st' = rt.more st \<and>
    cell_at st' = cell_at st |` (- fst ` set cs)"
  using assms
proof (induction cs arbitrary: a st)
  case Nil
  then show ?case by (simp add: free_chain.simps restrict_map_def fun_eq_iff)
next
  case (Cons c cs)
  then obtain u k nx where c: "c = (a, u, k)" and a: "a \<noteq> 0" "chunk_cell sel self st a u k nx"
    and ch: "chain sel self st nx cs" by (cases c) auto
  obtain m x w v where cell: "cell_at st a = Some (m, x)" "free_ok self m" "sel x = Some (w, v, nx)"
    using a(2) by (auto simp: chunk_cell_def)
  have f: "field sel st a = Inr (w, v, nx)" by (rule field_cell [where sel = sel, OF Cons.prems(1) cell(1)]) (rule cell(3))
  obtain s1 where s1: "owner_free self a st = Inr s1" "rt_wf s1" "rt.more s1 = rt.more st"
    "cell_at s1 = (cell_at st)(a := None)"
    by (rule heap.release_obtain [OF Cons.prems(1) cell(1,2)])
  have "chain sel self s1 nx cs"
    using Cons.prems(3) c s1(4) by (intro chain_same [OF ch]) auto
  with Cons.IH [OF s1(2)] Cons.prems(3) c obtain s2 where
    "free_chain sel self nx s1 = Some (Inr s2)" "rt_wf s2" "rt.more s2 = rt.more s1"
    "cell_at s2 = cell_at s1 |` (- fst ` set cs)" by auto
  with f s1 a(1) c show ?case
    by (subst free_chain.simps) (auto simp: restrict_map_def fun_eq_iff)
qed

end
