(* ===== verification/Region.thy ===== *)
theory Region
  imports Bump
begin

text \<open>
  The region allocator of \<open>src/region.c\<close>: a list of chunks, the newest first; memory is taken from the
  newest and everything is released at once.
\<close>

fun region_of :: "payload \<Rightarrow> safe_region option" where
  "region_of (Region r) = Some r"
| "region_of _ = None"

fun region_view :: "payload \<Rightarrow> (size_t \<times> size_t \<times> addr) option" where
  "region_view (RChunk c) = Some (ck_used c, ck_capacity c, ck_next c)"
| "region_view _ = None"

definition safe_region_create ::
    "tid \<Rightarrow> size_t \<Rightarrow> 'x rt_scheme \<Rightarrow> failure + (addr \<times> 'x rt_scheme)" where
  "safe_region_create self chunk_size st =
     (let chunk_size = (if chunk_size = 0 then 4096 else chunk_size) in
      bindE (owner_malloc self 16 st) (\<lambda>(region, st).
        if region = 0 then Inr (0, st)
        else bindE (owner_malloc self (24 + chunk_size) st) (\<lambda>(first_chunk, st).
          if first_chunk = 0 then bindE (owner_free self region st) (\<lambda>st. Inr (0, st))
          else Inr (region,
            put region (Region \<lparr>reg_current_chunk = first_chunk, reg_chunk_size = chunk_size\<rparr>)
              (put first_chunk (RChunk \<lparr>ck_used = 0, ck_capacity = chunk_size, ck_next = 0\<rparr>) st)))))"

text \<open>Taking \<open>size\<close> bytes from a chunk.\<close>

definition region_bump :: "addr \<Rightarrow> size_t \<Rightarrow> 'x rt_scheme \<Rightarrow> failure + (addr \<times> 'x rt_scheme)" where
  "region_bump chunk sz st =
     bindE (field region_view st chunk) (\<lambda>(used, cap, nx).
       Inr (chunk + 24 + used,
            put chunk (RChunk \<lparr>ck_used = used + sz, ck_capacity = cap, ck_next = nx\<rparr>) st))"

definition safe_region_alloc ::
    "tid \<Rightarrow> addr \<Rightarrow> size_t \<Rightarrow> 'x rt_scheme \<Rightarrow> failure + (addr \<times> 'x rt_scheme)" where
  "safe_region_alloc self region sz st =
     (if region = 0 \<or> sz = 0 then Inr (0, st)
      else let sz = align8 sz in
        bindE (field region_of st region) (\<lambda>r.
        bindE (field region_view st (reg_current_chunk r)) (\<lambda>(used, cap, nx).
          if used + sz > cap
          then let new_cap = (if sz > reg_chunk_size r then sz else reg_chunk_size r) in
            bindE (owner_malloc self (24 + new_cap) st) (\<lambda>(new_chunk, st).
              if new_chunk = 0 then Inr (0, st)
              else region_bump new_chunk sz
                (put region (Region (r\<lparr>reg_current_chunk := new_chunk\<rparr>))
                  (put new_chunk (RChunk \<lparr>ck_used = 0, ck_capacity = new_cap,
                                          ck_next = reg_current_chunk r\<rparr>) st)))
          else region_bump (reg_current_chunk r) sz st)))"

definition safe_region_free :: "tid \<Rightarrow> addr \<Rightarrow> 'x rt_scheme \<Rightarrow> failure + 'x rt_scheme" where
  "safe_region_free self region st =
     (if region = 0 then Inr st
      else bindE (field region_of st region) (\<lambda>r.
        bindE (returned (free_chain region_view self (reg_current_chunk r) st)) (owner_free self region)))"

subsection \<open>What a region represents\<close>

definition region_rep :: "tid \<Rightarrow> 'x rt_scheme \<Rightarrow> addr \<Rightarrow> chunk_list \<Rightarrow> bool" where
  "region_rep self st region cs \<longleftrightarrow>
     (\<exists>m r. cell_at st region = Some (m, Region r) \<and> free_ok self m \<and>
        chain region_view self st (reg_current_chunk r) cs \<and> cs \<noteq> [] \<and> distinct (map fst cs) \<and>
        region \<notin> fst ` set cs \<and> 0 < unat (reg_chunk_size r) \<and> unat (reg_chunk_size r) \<le> 2 ^ 63)"

lemma region_repE:
  assumes "region_rep self st region cs"
  obtains m r where "cell_at st region = Some (m, Region r)" "free_ok self m"
    "chain region_view self st (reg_current_chunk r) cs" "cs \<noteq> []" "distinct (map fst cs)"
    "region \<notin> fst ` set cs" "0 < unat (reg_chunk_size r)" "unat (reg_chunk_size r) \<le> 2 ^ 63"
    "region \<noteq> 0"
  using assms by (auto simp: region_rep_def dest: cell_at_nonnull)

lemma region_rep_unique: "region_rep self st region cs \<Longrightarrow> region_rep self st region cs' \<Longrightarrow> cs = cs'"
  unfolding region_rep_def using chain_unique by fastforce

lemma region_bump_rep:
  assumes wf: "rt_wf st" and rep: "region_rep self st region ((a, used, cap) # cs)"
    and sz: "used + unat sz \<le> cap" "unat sz mod 8 = 0"
  shows "\<exists>st'. region_bump a sz st = Inr (a + 24 + of_nat used, st') \<and> rt_wf st' \<and>
    rt.more st' = rt.more st \<and> region_rep self st' region ((a, used + unat sz, cap) # cs) \<and>
    moves {a} {a} st st'"
  using rep
proof (rule region_repE, goal_cases)
  case (1 m r)
  from 1(3) obtain nx where nx: "chunk_cell region_view self st a used cap nx"
    "chain region_view self st nx cs" "reg_current_chunk r = a" "a \<noteq> 0"
    by (rule chain_ConsE)
  obtain mc x u c where cell: "cell_at st a = Some (mc, x)" "free_ok self mc"
    "region_view x = Some (u, c, nx)" "unat u = used" "unat c = cap" "used \<le> cap" "cap \<le> 2 ^ 63"
    "used mod 8 = 0" "unat (m_size mc) = 24 + cap"
    using nx(1) by (rule chunk_cellE)
  have f: "field region_view st a = Inr (u, c, nx)"
    by (rule field_cell [where sel = region_view, OF wf cell(1)]) (rule cell(3))
  let ?c = "RChunk \<lparr>ck_used = u + sz, ck_capacity = c, ck_next = nx\<rparr>"
  note p = heap.store_result [OF wf cell(1), of ?c]
  have us: "unat (u + sz) = used + unat sz"
    using unat_add_no_overflow [of u sz] cell(4,7) sz(1) by simp
  have u8: "(used + unat sz) mod 8 = 0" using cell(8) sz(2) by presburger
  have "chunk_cell region_view self (put a ?c st) a (used + unat sz) cap nx"
    unfolding chunk_cell_def using p cell us u8 sz(1) by auto
  moreover have "chain region_view self (put a ?c st) nx cs"
    using 1(5) p by (intro chain_same [OF nx(2)]) auto
  ultimately have "region_rep self (put a ?c st) region ((a, used + unat sz, cap) # cs)"
    using 1 nx p unfolding region_rep_def by auto
  moreover have "region_bump a sz st = Inr (a + 24 + of_nat used, put a ?c st)"
    using f by (simp add: region_bump_def flip: cell(4))
  moreover have "moves {a} {a} st (put a ?c st)" using p by (auto simp: moves_def restrict_map_def fun_eq_iff)
  ultimately show ?case using p by auto
qed

text \<open>What a request does: NULL and no change, the next bytes of the newest chunk, or the first bytes
  of a new chunk.\<close>

lemma safe_region_alloc_rep:
  assumes wf: "rt_wf st" and rep: "region_rep self st region ((a, used, cap) # cs)"
    and n: "n \<noteq> 0" "bump_fits n"
  defines "sz \<equiv> align8 n"
  obtains (bump) st' where "used + unat sz \<le> cap"
      and "safe_region_alloc self region n st = Inr (a + 24 + of_nat used, st')" and "rt_wf st'"
      and "region_rep self st' region ((a, used + unat sz, cap) # cs)" and "moves {a} {a} st st'"
  | (oom) st' where "safe_region_alloc self region n st = Inr (0, st')" and "rt_wf st'"
      and "cell_at st' = cell_at st" and "rt.more st' = rt.more st"
  | (new) b k st' where "safe_region_alloc self region n st = Inr (b + 24, st')" and "rt_wf st'"
      and "region_rep self st' region ((b, unat sz, k) # (a, used, cap) # cs)"
      and "cell_at st b = None" and "b \<noteq> 0" and "moves {region} {region, b} st st'"
proof -
  have nn: "unat n + 7 < 2 ^ 64" using n(2) by (simp add: bump_fits_def)
  have szb: "unat sz < unat n + 8" "unat sz mod 8 = 0" "unat n \<le> unat sz"
    using align8_bounds [OF nn] by (simp_all add: sz_def)
  have sz63: "unat sz < 2 ^ 63" using szb(1) n(2) by (simp add: bump_fits_def)
  obtain m r where r: "cell_at st region = Some (m, Region r)" "free_ok self m"
    "chain region_view self st (reg_current_chunk r) ((a, used, cap) # cs)"
    "region \<notin> fst ` set ((a, used, cap) # cs)" "distinct (map fst ((a, used, cap) # cs))"
    "0 < unat (reg_chunk_size r)" "unat (reg_chunk_size r) \<le> 2 ^ 63" "region \<noteq> 0"
    using rep by (rule region_repE)
  then have a: "reg_current_chunk r = a" "a \<noteq> 0" by auto
  obtain nx mc x u c where cell: "cell_at st a = Some (mc, x)"
    "region_view x = Some (u, c, nx)" "unat u = used" "unat c = cap" "used \<le> cap" "cap \<le> 2 ^ 63"
    using r(3) by (auto simp: chunk_cell_def)
  have fr: "field region_of st region = Inr r" by (rule field_cell [OF wf r(1)]) simp
  have f: "field region_view st a = Inr (u, c, nx)"
    by (rule field_cell [where sel = region_view, OF wf cell(1)]) (rule cell(2))
  have us: "unat (u + sz) = used + unat sz"
    using unat_add_no_overflow [of u sz] cell(3,5,6) sz63 by simp
  have gt: "u + sz > c \<longleftrightarrow> cap < used + unat sz" using us cell(4) by (simp add: word_less_nat_alt)
  let ?new = "if sz > reg_chunk_size r then sz else reg_chunk_size r"
  have run: "safe_region_alloc self region n st =
      (if u + sz > c then
         bindE (owner_malloc self (24 + ?new) st) (\<lambda>(new_chunk, st).
           if new_chunk = 0 then Inr (0, st)
           else region_bump new_chunk sz
             (put region (Region (r\<lparr>reg_current_chunk := new_chunk\<rparr>))
               (put new_chunk (RChunk \<lparr>ck_used = 0, ck_capacity = ?new, ck_next = a\<rparr>) st)))
       else region_bump a sz st)"
    using n(1) r(8) fr f a by (simp add: safe_region_alloc_def Let_def sz_def cong: if_cong)
  show thesis
  proof (cases "cap < used + unat sz")
    case False
    then have le: "used + unat sz \<le> cap" by simp
    from region_bump_rep [OF wf rep le szb(2)] bump [OF le] run gt False show ?thesis by auto
  next
    case True
    have nb: "unat ?new \<le> 2 ^ 63" "unat sz \<le> unat ?new" using sz63 r(7) by (auto simp: word_less_nat_alt)
    have n24: "unat (24 + ?new) = 24 + unat ?new"
      using unat_add_no_overflow [of 24 ?new] nb(1) by simp
    have n80: "unat (24 + ?new) + 80 < 2 ^ 64" unfolding n24 using nb(1) by simp
    from wf n80 show ?thesis
    proof (cases rule: heap.alloc_cases [where self = self])
      case (null s')
      then show ?thesis using oom [of s'] run gt True by simp
    next
      case (object b s')
      have b: "b \<noteq> region" "b \<notin> fst ` set ((a, used, cap) # cs)"
      proof -
        show "b \<noteq> region" using object(5) r(1) by auto
        show "b \<notin> fst ` set ((a, used, cap) # cs)"
          using chain_cell [OF r(3)] object(5) by (fastforce simp: chunk_cell_def)
      qed
      let ?c = "RChunk \<lparr>ck_used = 0, ck_capacity = ?new, ck_next = a\<rparr>"
      let ?r = "r\<lparr>reg_current_chunk := b\<rparr>"
      have cb: "cell_at s' b = Some (fresh_meta self (24 + ?new), Filled 0xAA)" using object(6) by simp
      note p = heap.store_result [OF object(3) cb, of ?c]
      have cr: "cell_at (put b ?c s') region = Some (m, Region r)" using p object(6) r(1) b by simp
      note q = heap.store_result [OF conjunct1 [OF p] cr, of "Region ?r"]
      let ?s = "put region (Region ?r) (put b ?c s')"
      have cells: "cell_at ?s = (cell_at st)(b \<mapsto> (fresh_meta self (24 + ?new), ?c), region \<mapsto> (m, Region ?r))"
        using p q object(6) by simp
      have same: "cell_at ?s d = cell_at st d" if "d \<in> fst ` set ((a, used, cap) # cs)" for d
        using that b(2) r(4) cells by (metis fun_upd_other)
      have "chain region_view self ?s a ((a, used, cap) # cs)"
        using same by (intro chain_same [OF r(3) [unfolded a]])
      moreover have "chunk_cell region_view self ?s b 0 (unat ?new) a"
        using cells b(1) n24 nb(1) object(2) unfolding chunk_cell_def by simp
      ultimately have "region_rep self ?s region ((b, 0, unat ?new) # (a, used, cap) # cs)"
        using cells r b object(2) unfolding region_rep_def by auto
      from region_bump_rep [OF conjunct1 [OF q] this _ szb(2)] nb(2)
      obtain st' where st': "region_bump b sz ?s = Inr (b + 24, st')" "rt_wf st'"
        "rt.more st' = rt.more ?s" "moves {b} {b} ?s st'"
        "region_rep self st' region ((b, unat sz, unat ?new) # (a, used, cap) # cs)" by auto
      have "moves {region} {region, b} st ?s"
      proof -
        have "rt.more ?s = rt.more st" using p q object(4) by simp
        moreover have "cell_at ?s |` (- {region, b}) = cell_at st |` (- {region})"
          unfolding cells using object(5) by (auto simp: restrict_map_def fun_eq_iff)
        ultimately show ?thesis by (simp add: moves_def)
      qed
      moreover have "moves {region, b} {region, b} ?s st'"
        using moves_frame [OF st'(4), of "{region}"] by (simp add: insert_commute)
      ultimately have "moves {region} {region, b} st st'" by (rule moves_trans)
      moreover have "safe_region_alloc self region n st = Inr (b + 24, st')"
        using run gt True object(1,2) st'(1) by simp
      ultimately show ?thesis using new [of b st' "unat ?new"] st' object(2,5) by simp
    qed
  qed
qed

subsection \<open>Regions are bump allocators\<close>

definition region_ok :: "tid \<Rightarrow> addr \<Rightarrow> 'x rt_scheme \<Rightarrow> bool" where
  "region_ok self region st \<longleftrightarrow> rt_wf st \<and> (\<exists>cs. region_rep self st region cs)"

definition region_taken :: "tid \<Rightarrow> addr \<Rightarrow> 'x rt_scheme \<Rightarrow> nat set" where
  "region_taken self region st = (\<Union>cs \<in> {cs. region_rep self st region cs}. taken_of cs)"

lemma region_taken_rep: "region_rep self st region cs \<Longrightarrow> region_taken self region st = taken_of cs"
  unfolding region_taken_def using region_rep_unique by blast

lemma region_head:
  assumes "region_ok self region st"
  obtains a u c cs where "region_rep self st region ((a, u, c) # cs)" and "rt_wf st"
proof -
  obtain cs where cs: "region_rep self st region cs" "rt_wf st" using assms by (auto simp: region_ok_def)
  then have "cs \<noteq> []" by (auto simp: region_rep_def)
  with cs that show ?thesis by (cases cs) auto
qed

lemma region_rep_same:
  assumes "region_rep self st region cs" and "cell_at st' = cell_at st"
  shows "region_rep self st' region cs"
  using assms chain_same unfolding region_rep_def by (metis (no_types, lifting))

text \<open>The newest chunk of a region, and the bytes the other chunks hold.\<close>

lemma region_head_cell:
  assumes "rt_wf st" and "region_rep self st region ((a, u, c) # cs)"
  obtains nx where "chunk_cell region_view self st a u c nx"
    and "\<And>y. y \<in> taken_of cs \<Longrightarrow> y < unat a \<or> unat a + 24 + c \<le> y"
  using assms(2)
proof (rule region_repE, goal_cases)
  case (1 m r)
  obtain nx where nx: "chunk_cell region_view self st a u c nx" "chain region_view self st nx cs"
    using 1(4) by (rule chain_ConsE)
  have "a \<notin> fst ` set cs" using 1(6) by simp
  from taken_outside [OF assms(1) nx(2,1) this] 1(1) [OF nx(1)] show ?case by blast
qed

lemma region_grant:
  assumes "region_ok self region st" and "bump_fits n" and "safe_region_alloc self region n st = Inr (p, st')"
  shows "region_ok self region st' \<and> region_taken self region st \<subseteq> region_taken self region st' \<and>
    (p \<noteq> 0 \<longrightarrow> unat p mod 8 = 0 \<and> span p n \<subseteq> region_taken self region st' - region_taken self region st)"
proof -
  obtain a u c cs where rep: "region_rep self st region ((a, u, c) # cs)" and wf: "rt_wf st"
    using assms(1) by (rule region_head)
  note T = region_taken_rep [OF rep]
  show ?thesis
  proof (cases "n = 0")
    case True
    then have "p = 0" "st' = st" using assms(3) by (auto simp: safe_region_alloc_def)
    then show ?thesis using assms(1) by simp
  next
    case False
    have nn: "unat n + 7 < 2 ^ 64" using assms(2) by (simp add: bump_fits_def)
    note sz = align8_bounds [OF nn]
    from wf rep False assms(2) show ?thesis
    proof (cases rule: safe_region_alloc_rep)
      case (bump st2)
      have p: "p = a + 24 + of_nat u" "st2 = st'" using bump(2) assms(3) by auto
      note rep2 = bump(4) [unfolded p]
      obtain nx0 where "chunk_cell region_view self st a u c nx0" using region_head_cell [OF wf rep] .
      then have u8: "u mod 8 = 0" by (auto simp: chunk_cell_def)
      obtain nx where nx: "chunk_cell region_view self st' a (u + unat (align8 n)) c nx"
        and out: "\<And>y. y \<in> taken_of cs \<Longrightarrow> y < unat a \<or> unat a + 24 + c \<le> y"
        using region_head_cell [OF bump(3) [unfolded p] rep2] by blast
      note s = span_in_chunk [where T = "taken_of cs", OF bump(3) [unfolded p] nx sz(1) u8 p(1) out]
      show ?thesis
        using s bump(3) rep2 unfolding T region_taken_rep [OF rep2] taken_of_Cons p(2)
        by (auto simp: region_ok_def)
    next
      case (oom st2)
      then have p: "p = 0" "st' = st2" using assms(3) by auto
      have rep2: "region_rep self st' region ((a, u, c) # cs)"
        using region_rep_same [OF rep] oom(3) p by simp
      show ?thesis using p oom(2) rep2 unfolding T region_taken_rep [OF rep2] by (auto simp: region_ok_def)
    next
      case (new b k st2)
      have p: "p = b + 24" "st2 = st'" using new(1) assms(3) by auto
      note rep2 = new(3) [unfolded p]
      obtain nx where nx: "chunk_cell region_view self st' b (unat (align8 n)) k nx"
        and out: "\<And>y. y \<in> taken_of ((a, u, c) # cs) \<Longrightarrow> y < unat b \<or> unat b + 24 + k \<le> y"
        using region_head_cell [OF new(2) [unfolded p] rep2] by blast
      have p0: "p = b + 24 + of_nat 0" using p by simp
      have nx0: "chunk_cell region_view self st' b (0 + unat (align8 n)) k nx" using nx by simp
      note s = span_in_chunk [where T = "taken_of ((a, u, c) # cs)", OF new(2) [unfolded p] nx0 sz(1) _ p0 out, simplified]
      show ?thesis
        using s new(2) rep2 unfolding T region_taken_rep [OF rep2] taken_of_Cons [of b] p(2)
        by (auto simp: region_ok_def)
    qed
  qed
qed

lemma region_total:
  assumes "region_ok self region st" and "bump_fits n"
  shows "\<exists>p st'. safe_region_alloc self region n st = Inr (p, st')"
proof -
  obtain a u c cs where rep: "region_rep self st region ((a, u, c) # cs)" and wf: "rt_wf st"
    using assms(1) by (rule region_head)
  show ?thesis
  proof (cases "n = 0")
    case True
    then show ?thesis by (simp add: safe_region_alloc_def)
  next
    case False
    from wf rep False assms(2) show ?thesis by (cases rule: safe_region_alloc_rep) blast+
  qed
qed

interpretation region: bump_allocator "region_ok self region" "region_taken self region"
  "safe_region_alloc self region" bump_fits for self region
  by unfold_locales (rule region_grant region_total; assumption)+

subsection \<open>Life of a region\<close>

lemma safe_region_create_rep:
  assumes "rt_wf st" and "unat n \<le> 2 ^ 63"
  shows "\<exists>region st'. safe_region_create self n st = Inr (region, st') \<and> rt_wf st' \<and>
    rt.more st' = rt.more st \<and>
    (if region = 0 then cell_at st' = cell_at st
     else \<exists>a c. region_rep self st' region [(a, 0, c)] \<and> cell_at st region = None \<and>
       cell_at st a = None \<and> cell_at st' |` (- {region, a}) = cell_at st)"
proof -
  let ?n = "if n = 0 then 4096 else n"
  have nb: "unat ?n \<le> 2 ^ 63" "0 < unat ?n" using assms(2) by (auto simp: unat_gt_0)
  have n24: "unat (24 + ?n) = 24 + unat ?n" using unat_add_no_overflow [of 24 ?n] nb(1) by simp
  have n80: "unat (24 + ?n) + 80 < 2 ^ 64" unfolding n24 using nb(1) by simp
  have n16: "unat (16 :: size_t) + 80 < 2 ^ 64" by simp
  from assms(1) n16 show ?thesis
  proof (cases rule: heap.alloc_cases [where self = self])
    case (null s')
    then show ?thesis by (simp add: safe_region_create_def)
  next
    case reg: (object region s1)
    from reg(3) n80 show ?thesis
    proof (cases rule: heap.alloc_cases [where self = self])
      case (null s2)
      have "cell_at s2 region = Some (fresh_meta self 16, Filled 0xAA)" using null reg by simp
      then obtain s3 where "owner_free self region s2 = Inr s3" "rt_wf s3" "rt.more s3 = rt.more s2"
        "cell_at s3 = (cell_at s2)(region := None)"
        by (rule heap.release_obtain [OF null(2) _ fresh_meta_simps(1)])
      with null reg show ?thesis by (auto simp: safe_region_create_def fun_upd_idem)
    next
      case (object a s2)
      have ne: "a \<noteq> region" using object(5) reg(6) by auto
      let ?c = "RChunk \<lparr>ck_used = 0, ck_capacity = ?n, ck_next = 0\<rparr>"
      let ?r = "Region \<lparr>reg_current_chunk = a, reg_chunk_size = ?n\<rparr>"
      have ca: "cell_at s2 a = Some (fresh_meta self (24 + ?n), Filled 0xAA)" using object(6) by simp
      note p = heap.store_result [OF object(3) ca, of ?c]
      have cr: "cell_at (put a ?c s2) region = Some (fresh_meta self 16, Filled 0xAA)"
        using p object(6) reg(6) ne by simp
      note q = heap.store_result [OF conjunct1 [OF p] cr, of ?r]
      have cells: "cell_at (put region ?r (put a ?c s2)) =
          (cell_at st)(a \<mapsto> (fresh_meta self (24 + ?n), ?c), region \<mapsto> (fresh_meta self 16, ?r))"
        using p q object(6) reg(6) ne by (auto simp: fun_eq_iff)
      have "chunk_cell region_view self (put region ?r (put a ?c s2)) a 0 (unat ?n) 0"
        using cells ne n24 nb(1) unfolding chunk_cell_def by simp
      then have rep: "region_rep self (put region ?r (put a ?c s2)) region [(a, 0, unat ?n)]"
        using cells ne nb object(2) unfolding region_rep_def by simp
      define s3 where "s3 = put region ?r (put a ?c s2)"
      have "cell_at s3 |` (- {region, a}) = cell_at st"
        using cells object(5) reg(5,6) unfolding s3_def
        by (auto simp: restrict_map_def fun_eq_iff split: if_splits)
      moreover have "cell_at st a = None" using object(5) reg(6) ne by simp
      moreover have "safe_region_create self n st = Inr (region, s3)"
        using reg(1,2) object(1,2) by (simp add: safe_region_create_def Let_def s3_def)
      moreover have "rt_wf s3" "rt.more s3 = rt.more st"
        using p q reg(4) object(4) unfolding s3_def by auto
      ultimately show ?thesis
        using reg(2,5) rep [folded s3_def] by (intro exI [of _ region] exI [of _ s3]) auto
    qed
  qed
qed

lemma safe_region_free_rep:
  assumes "rt_wf st" and "region_rep self st region cs"
  shows "\<exists>st'. safe_region_free self region st = Inr st' \<and> rt_wf st' \<and> rt.more st' = rt.more st \<and>
    cell_at st' = cell_at st |` (- insert region (fst ` set cs))"
  using assms(2)
proof (rule region_repE, goal_cases)
  case (1 m r)
  have f: "field region_of st region = Inr r" by (rule field_cell [OF assms(1) 1(1)]) simp
  obtain s1 where s1: "free_chain region_view self (reg_current_chunk r) st = Some (Inr s1)" "rt_wf s1"
    "rt.more s1 = rt.more st" "cell_at s1 = cell_at st |` (- fst ` set cs)"
    using free_chain_rep [OF assms(1) 1(3,5)] by blast
  have "cell_at s1 region = Some (m, Region r)" using s1(4) 1(1,6) by simp
  then obtain s2 where s2: "owner_free self region s1 = Inr s2" "rt_wf s2" "rt.more s2 = rt.more s1"
    "cell_at s2 = (cell_at s1)(region := None)"
    by (rule heap.release_obtain [OF s1(2) _ 1(2)])
  have "safe_region_free self region st = Inr s2"
    using f s1(1) s2(1) 1(9) by (simp add: safe_region_free_def returned_def)
  moreover have "cell_at s2 = cell_at st |` (- insert region (fst ` set cs))"
    using s2(4) s1(4) by (auto simp: restrict_map_def fun_eq_iff)
  ultimately show ?case using s1 s2 by auto
qed

text \<open>C16: whatever sequence of sizes is requested from a region (each less than 2^63 - 8 bytes), every
  request returns, and the non-null results are 8-byte aligned, pairwise disjoint, and disjoint from
  everything the region handed out before.\<close>

theorem region_allocations_disjoint:
  assumes "region_ok self reg st" and "list_all bump_fits ns"
  shows "\<exists>gs st'. region.requests self reg ns st = Inr (gs, st') \<and> region_ok self reg st' \<and>
    map snd gs = ns \<and>
    (\<forall>(p, n) \<in> set gs. p \<noteq> 0 \<longrightarrow> unat p mod 8 = 0 \<and>
       span p n \<subseteq> region_taken self reg st' - region_taken self reg st) \<and>
    sorted_wrt (\<lambda>(p, n) (q, k). p \<noteq> 0 \<longrightarrow> q \<noteq> 0 \<longrightarrow> span p n \<inter> span q k = {}) gs"
  using region.requests_sound [OF assms] by blast

text \<open>A region is created empty or not at all (leaving no object behind), and freeing it removes
  the region and all its chunks, and nothing else; the loop over the chunks ends.\<close>

theorem region_lifecycle:
  assumes "rt_wf st" and "unat n \<le> 2 ^ 63"
  shows "(\<exists>reg st'. safe_region_create self n st = Inr (reg, st') \<and> rt_wf st' \<and>
      (if reg = 0 then cell_at st' = cell_at st
       else region_ok self reg st' \<and> region_taken self reg st' = {} \<and> cell_at st reg = None)) \<and>
    (\<forall>reg cs. region_rep self st reg cs \<longrightarrow>
       (\<exists>st'. safe_region_free self reg st = Inr st' \<and> rt_wf st' \<and>
          cell_at st' = cell_at st |` (- insert reg (fst ` set cs))))"
proof (intro conjI allI impI)
  obtain reg st' where c: "safe_region_create self n st = Inr (reg, st')" "rt_wf st'"
    "if reg = 0 then cell_at st' = cell_at st
     else \<exists>a c. region_rep self st' reg [(a, 0, c)] \<and> cell_at st reg = None \<and>
       cell_at st a = None \<and> cell_at st' |` (- {reg, a}) = cell_at st"
    using safe_region_create_rep [OF assms, of self] by blast
  have "region_ok self reg st' \<and> region_taken self reg st' = {} \<and> cell_at st reg = None" if nz: "reg \<noteq> 0"
  proof -
    obtain a k where rep: "region_rep self st' reg [(a, 0, k)]" "cell_at st reg = None"
      using c(3) nz by auto
    then show ?thesis
      using c(2) region_taken_rep [OF rep(1)] by (auto simp: region_ok_def taken_of_def)
  qed
  with c show "\<exists>reg st'. safe_region_create self n st = Inr (reg, st') \<and> rt_wf st' \<and>
      (if reg = 0 then cell_at st' = cell_at st
       else region_ok self reg st' \<and> region_taken self reg st' = {} \<and> cell_at st reg = None)"
    by (intro exI [of _ reg] exI [of _ st']) auto
qed (use safe_region_free_rep [OF assms(1)] in blast)

lemma example_region:
  obtains st where "safe_region_create 2 64 roomy_start = Inr (0x1050, st)" and "region_ok 2 0x1050 st"
proof -
  have ex: "\<exists>st. safe_region_create 2 64 roomy_start = Inr (0x1050, st)"
    by (simp add: safe_region_create_def roomy_start_def rt_eval)
  have n: "unat (64 :: size_t) \<le> 2 ^ 63" by simp
  from ex obtain st where st: "safe_region_create 2 64 roomy_start = Inr (0x1050, st)" by blast
  with safe_region_create_rep [OF roomy_start_wf n, of 2]
  obtain a c where "rt_wf st" "region_rep 2 st 0x1050 [(a, 0, c)]" by auto
  then have "region_ok 2 0x1050 st" unfolding region_ok_def by blast
  with st that show ?thesis by blast
qed

theorem region_allocations_disjoint_witness:
  "\<exists>st gs st'. safe_region_create 2 64 roomy_start = Inr (0x1050, st) \<and>
     region.requests 2 0x1050 [10, 60, 3] st = Inr (gs, st') \<and> length gs = 3 \<and>
     sorted_wrt (\<lambda>(p, n) (q, k). p \<noteq> 0 \<longrightarrow> q \<noteq> 0 \<longrightarrow> span p n \<inter> span q k = {}) gs"
proof -
  obtain st where st: "safe_region_create 2 64 roomy_start = Inr (0x1050, st)" "region_ok 2 0x1050 st"
    by (rule example_region)
  have f: "list_all bump_fits [10, 60, 3]" by (simp add: bump_fits_def)
  obtain gs st' where g: "region.requests 2 0x1050 [10, 60, 3] st = Inr (gs, st')" "map snd gs = [10, 60, 3]"
    "sorted_wrt (\<lambda>(p, n) (q, k). p \<noteq> 0 \<longrightarrow> q \<noteq> 0 \<longrightarrow> span p n \<inter> span q k = {}) gs"
    using region_allocations_disjoint [OF st(2) f] by (elim exE conjE)
  have "length gs = 3" using arg_cong [OF g(2), of length] by simp
  with st(1) g show ?thesis by blast
qed

theorem region_lifecycle_witness:
  "\<exists>st'. safe_region_create 2 64 roomy_start = Inr (0x1050, st') \<and> region_taken 2 0x1050 st' = {}"
proof -
  have n: "unat (64 :: size_t) \<le> 2 ^ 63" by simp
  obtain st where st: "safe_region_create 2 64 roomy_start = Inr (0x1050, st)"
    by (rule example_region)
  from region_lifecycle [OF roomy_start_wf n, of 2] st show ?thesis by auto
qed

text \<open>The rounding to eight bytes wraps for the largest sizes: a request for 2^64 - 1 bytes returns
  a non-null pointer without taking a single byte, so that the next request gets the same memory.\<close>

theorem region_size_wrap:
  "\<exists>st1 st2 st3. safe_region_create 2 64 roomy_start = Inr (0x1050, st1) \<and>
     safe_region_alloc 2 0x1050 0xFFFFFFFFFFFFFFFF st1 = Inr (0x2068, st2) \<and>
     safe_region_alloc 2 0x1050 8 st2 = Inr (0x2068, st3)"
proof -
  have a: "align8 0xFFFFFFFFFFFFFFFF = 0" "align8 8 = 8" by (simp_all add: align8_def)
  show ?thesis
    by (simp add: safe_region_create_def safe_region_alloc_def region_bump_def roomy_start_def rt_eval
        field_def a word_less_nat_alt)
qed

end
