(* ===== verification/Arena.thy ===== *)
theory Arena
  imports Bump
begin

text \<open>
  The arena of \<open>src/ownedc_arena.c\<close>: a list of blocks, the oldest first; memory is taken from the last
  one.  It satisfies the same contract as the region allocator.
\<close>

fun arena_of :: "payload \<Rightarrow> arena option" where
  "arena_of (Arena a) = Some a"
| "arena_of _ = None"

fun arena_view :: "payload \<Rightarrow> (size_t \<times> size_t \<times> addr) option" where
  "arena_view (ABlock b) = Some (ab_used b, ab_size b, ab_next b)"
| "arena_view _ = None"

definition allocate_block :: "tid \<Rightarrow> size_t \<Rightarrow> 'x rt_scheme \<Rightarrow> failure + (addr \<times> 'x rt_scheme)" where
  "allocate_block self sz st =
     bindE (owner_malloc self (24 + sz) st) (\<lambda>(block, st).
       if block = 0 then Inr (0, st)
       else Inr (block, put block (ABlock \<lparr>ab_next = 0, ab_size = sz, ab_used = 0\<rparr>) st))"

text \<open>The result of \<open>allocate_block\<close> is stored without a check.\<close>

definition ownedc_arena_create ::
    "tid \<Rightarrow> size_t \<Rightarrow> 'x rt_scheme \<Rightarrow> failure + (addr \<times> 'x rt_scheme)" where
  "ownedc_arena_create self block_size st =
     (let block_size = (if block_size < 1024 then 1024 else block_size) in
      bindE (owner_malloc self 24 st) (\<lambda>(arena, st).
        if arena = 0 then Inr (0, st)
        else bindE (allocate_block self block_size st) (\<lambda>(initial, st).
          Inr (arena, put arena (Arena \<lparr>ar_head = initial, ar_current = initial,
                                        ar_default_block_size = block_size\<rparr>) st))))"

definition arena_bump :: "addr \<Rightarrow> size_t \<Rightarrow> 'x rt_scheme \<Rightarrow> failure + (addr \<times> 'x rt_scheme)" where
  "arena_bump block sz st =
     bindE (field arena_view st block) (\<lambda>(used, cap, nx).
       Inr (block + 24 + used,
            put block (ABlock \<lparr>ab_next = nx, ab_size = cap, ab_used = used + sz\<rparr>) st))"

definition ownedc_arena_alloc ::
    "tid \<Rightarrow> addr \<Rightarrow> size_t \<Rightarrow> 'x rt_scheme \<Rightarrow> failure + (addr \<times> 'x rt_scheme)" where
  "ownedc_arena_alloc self arena sz st =
     (if arena = 0 then Inr (0, st)
      else bindE (field arena_of st arena) (\<lambda>a.
        if ar_current a = 0 then Inr (0, st)
        else let aligned_size = align8 sz in
          bindE (field arena_view st (ar_current a)) (\<lambda>(used, cap, nx).
            if used + aligned_size \<le> cap then arena_bump (ar_current a) aligned_size st
            else let new_size = (if aligned_size > ar_default_block_size a then aligned_size
                                 else ar_default_block_size a)
              in bindE (allocate_block self new_size st) (\<lambda>(new_block, st).
                   if new_block = 0 then Inr (0, st)
                   else arena_bump new_block aligned_size
                     (put arena (Arena (a\<lparr>ar_current := new_block\<rparr>))
                       (put (ar_current a) (ABlock \<lparr>ab_next = new_block, ab_size = cap, ab_used = used\<rparr>)
                         st))))))"

definition ownedc_arena_destroy :: "tid \<Rightarrow> addr \<Rightarrow> 'x rt_scheme \<Rightarrow> failure + 'x rt_scheme" where
  "ownedc_arena_destroy self arena st =
     (if arena = 0 then Inr st
      else bindE (field arena_of st arena) (\<lambda>a.
        bindE (returned (free_chain arena_view self (ar_head a) st)) (owner_free self arena)))"

subsection \<open>What an arena represents\<close>

definition arena_rep :: "tid \<Rightarrow> 'x rt_scheme \<Rightarrow> addr \<Rightarrow> chunk_list \<Rightarrow> bool" where
  "arena_rep self st arena cs \<longleftrightarrow>
     (\<exists>m r. cell_at st arena = Some (m, Arena r) \<and> free_ok self m \<and>
        chain arena_view self st (ar_head r) cs \<and>
        ar_current r = (if cs = [] then 0 else fst (last cs)) \<and> distinct (map fst cs) \<and>
        arena \<notin> fst ` set cs \<and> unat (ar_default_block_size r) \<le> 2 ^ 63)"

lemma arena_repE:
  assumes "arena_rep self st arena cs"
  obtains m r where "cell_at st arena = Some (m, Arena r)" "free_ok self m"
    "chain arena_view self st (ar_head r) cs"
    "ar_current r = (if cs = [] then 0 else fst (last cs))" "distinct (map fst cs)"
    "arena \<notin> fst ` set cs" "unat (ar_default_block_size r) \<le> 2 ^ 63" "arena \<noteq> 0"
  using assms by (auto simp: arena_rep_def dest: cell_at_nonnull)

lemma arena_rep_unique: "arena_rep self st arena cs \<Longrightarrow> arena_rep self st arena cs' \<Longrightarrow> cs = cs'"
  unfolding arena_rep_def using chain_unique by fastforce

text \<open>Replacing the end of a chain.\<close>

lemma chain_replace_end:
  assumes "chain sel self st x (ds @ (a, u, c) # es)"
    and "\<And>b. b \<in> fst ` set ds \<Longrightarrow> cell_at st' b = cell_at st b" and "chain sel self st' a es'"
  shows "chain sel self st' x (ds @ es')"
  using assms(1,2)
proof (induction ds arbitrary: x)
  case Nil
  then have "x = a" by simp
  with assms(3) show ?case by simp
next
  case (Cons d ds)
  obtain b v k where d: "d = (b, v, k)" by (cases d) auto
  from Cons.prems(1) obtain nx where nx: "chunk_cell sel self st b v k nx"
    "chain sel self st nx (ds @ (a, u, c) # es)" "x = b" "b \<noteq> 0"
    unfolding d append_Cons by (rule chain_ConsE)
  have "chunk_cell sel self st' b v k nx" using nx(1) Cons.prems(2) [of b] d by (simp add: chunk_cell_def)
  moreover have "chain sel self st' nx (ds @ es')" using Cons.IH [OF nx(2)] Cons.prems(2) d by simp
  ultimately show ?case using nx(3,4) d by auto
qed

lemma chain_end:
  assumes "chain sel self st x (ds @ [(a, u, c)])"
  shows "chunk_cell sel self st a u c 0" and "a \<noteq> 0"
proof -
  have "chunk_cell sel self st a u c 0 \<and> a \<noteq> 0"
    using assms
  proof (induction ds arbitrary: x)
    case Nil
    then show ?case by auto
  next
    case (Cons d ds)
    obtain b v k where d: "d = (b, v, k)" by (cases d) auto
    from Cons.prems(1) obtain nx where "chain sel self st nx (ds @ [(a, u, c)])"
      unfolding d append_Cons by (rule chain_ConsE)
    then show ?case by (rule Cons.IH)
  qed
  then show "chunk_cell sel self st a u c 0" and "a \<noteq> 0" by simp_all
qed

lemma arena_bump_rep:
  assumes wf: "rt_wf st" and rep: "arena_rep self st arena (ds @ [(a, used, cap)])"
    and sz: "used + unat sz \<le> cap" "unat sz mod 8 = 0"
  shows "\<exists>st'. arena_bump a sz st = Inr (a + 24 + of_nat used, st') \<and> rt_wf st' \<and>
    rt.more st' = rt.more st \<and> arena_rep self st' arena (ds @ [(a, used + unat sz, cap)]) \<and>
    keeps {arena, a} st st'"
  using rep
proof (rule arena_repE, goal_cases)
  case (1 m r)
  obtain mc x u c where cell: "cell_at st a = Some (mc, x)" "free_ok self mc"
    "arena_view x = Some (u, c, 0)" "unat u = used" "unat c = cap" "used \<le> cap" "cap \<le> 2 ^ 63"
    "used mod 8 = 0" "unat (m_size mc) = 24 + cap"
    using chain_end(1) [OF 1(3)] by (rule chunk_cellE)
  have f: "field arena_view st a = Inr (u, c, 0)"
    by (rule field_cell [where sel = arena_view, OF wf cell(1)]) (rule cell(3))
  let ?c = "ABlock \<lparr>ab_next = 0, ab_size = c, ab_used = u + sz\<rparr>"
  note p = heap.store_result [OF wf cell(1), of ?c]
  have us: "unat (u + sz) = used + unat sz"
    using unat_add_no_overflow [of u sz] cell(4,7) sz(1) by simp
  have u8: "(used + unat sz) mod 8 = 0" using cell(8) sz(2) by presburger
  have "chunk_cell arena_view self (put a ?c st) a (used + unat sz) cap 0"
    unfolding chunk_cell_def using p cell us u8 sz(1) by auto
  then have "chain arena_view self (put a ?c st) a [(a, used + unat sz, cap)]"
    using chain_end(2) [OF 1(3)] by simp
  then have "chain arena_view self (put a ?c st) (ar_head r) (ds @ [(a, used + unat sz, cap)])"
    using 1(5) p by (intro chain_replace_end [OF 1(3)]) auto
  then have "arena_rep self (put a ?c st) arena (ds @ [(a, used + unat sz, cap)])"
    using 1 p unfolding arena_rep_def by auto
  moreover have "arena_bump a sz st = Inr (a + 24 + of_nat used, put a ?c st)"
    using f by (simp add: arena_bump_def flip: cell(4))
  moreover have "keeps {arena, a} st (put a ?c st)" using p by (auto simp: keeps_def)
  ultimately show ?case using p by auto
qed

lemma allocate_block_cases:
  assumes "rt_wf st" and "unat sz \<le> 2 ^ 63"
  obtains (null) st' where "allocate_block self sz st = Inr (0, st')" and "rt_wf st'"
      and "cell_at st' = cell_at st" and "rt.more st' = rt.more st"
  | (block) b st' where "allocate_block self sz st = Inr (b, st')" and "b \<noteq> 0" and "rt_wf st'"
      and "rt.more st' = rt.more st" and "cell_at st b = None"
      and "cell_at st' = (cell_at st)(b \<mapsto> (fresh_meta self (24 + sz),
             ABlock \<lparr>ab_next = 0, ab_size = sz, ab_used = 0\<rparr>))"
proof -
  have n24: "unat (24 + sz) = 24 + unat sz" using unat_add_no_overflow [of 24 sz] assms(2) by simp
  have n80: "unat (24 + sz) + 80 < 2 ^ 64" unfolding n24 using assms(2) by simp
  from assms(1) n80 show thesis
  proof (cases rule: heap.alloc_cases [where self = self])
    case (null s')
    then show ?thesis using that(1) by (simp add: allocate_block_def)
  next
    case (object b s')
    have c: "cell_at s' b = Some (fresh_meta self (24 + sz), Filled 0xAA)" using object(6) by simp
    note p = heap.store_result [OF object(3) c, of "ABlock \<lparr>ab_next = 0, ab_size = sz, ab_used = 0\<rparr>"]
    from p object show ?thesis
      by (intro that(2) [of b "put b (ABlock \<lparr>ab_next = 0, ab_size = sz, ab_used = 0\<rparr>) s'"])
        (simp_all add: allocate_block_def)
  qed
qed

lemma ownedc_arena_alloc_rep:
  assumes wf: "rt_wf st" and rep: "arena_rep self st arena (ds @ [(a, used, cap)])" and n: "bump_fits n"
  defines "sz \<equiv> align8 n"
  obtains (bump) st' where "used + unat sz \<le> cap"
      and "ownedc_arena_alloc self arena n st = Inr (a + 24 + of_nat used, st')" and "rt_wf st'"
      and "arena_rep self st' arena (ds @ [(a, used + unat sz, cap)])" and "rt.more st' = rt.more st"
  | (oom) st' where "ownedc_arena_alloc self arena n st = Inr (0, st')" and "rt_wf st'"
      and "cell_at st' = cell_at st" and "rt.more st' = rt.more st"
  | (new) b k st' where "ownedc_arena_alloc self arena n st = Inr (b + 24, st')" and "rt_wf st'"
      and "arena_rep self st' arena ((ds @ [(a, used, cap)]) @ [(b, unat sz, k)])"
      and "rt.more st' = rt.more st"
proof -
  have nn: "unat n + 7 < 2 ^ 64" using n by (simp add: bump_fits_def)
  have szb: "unat sz < unat n + 8" "unat sz mod 8 = 0" using align8_bounds [OF nn] by (simp_all add: sz_def)
  have sz63: "unat sz < 2 ^ 63" using szb(1) n by (simp add: bump_fits_def)
  obtain m r where r: "cell_at st arena = Some (m, Arena r)" "free_ok self m"
    "chain arena_view self st (ar_head r) (ds @ [(a, used, cap)])"
    "ar_current r = (if ds @ [(a, used, cap)] = [] then 0 else fst (last (ds @ [(a, used, cap)])))"
    "distinct (map fst (ds @ [(a, used, cap)]))" "arena \<notin> fst ` set (ds @ [(a, used, cap)])"
    "unat (ar_default_block_size r) \<le> 2 ^ 63" "arena \<noteq> 0"
    using rep by (rule arena_repE)
  have cur: "ar_current r = a" "a \<noteq> 0" using r(4) chain_end(2) [OF r(3)] by simp_all
  obtain mc x u c where cell: "cell_at st a = Some (mc, x)" "free_ok self mc"
    "arena_view x = Some (u, c, 0)" "unat u = used" "unat c = cap" "used \<le> cap" "cap \<le> 2 ^ 63"
    "used mod 8 = 0" "unat (m_size mc) = 24 + cap"
    using chain_end(1) [OF r(3)] by (rule chunk_cellE)
  have fr: "field arena_of st arena = Inr r" by (rule field_cell [OF wf r(1)]) simp
  have f: "field arena_view st a = Inr (u, c, 0)"
    by (rule field_cell [where sel = arena_view, OF wf cell(1)]) (rule cell(3))
  have us: "unat (u + sz) = used + unat sz"
    using unat_add_no_overflow [of u sz] cell(4,6,7) sz63 by simp
  have le: "u + sz \<le> c \<longleftrightarrow> used + unat sz \<le> cap" using us cell(5) by (simp add: word_le_nat_alt)
  let ?new = "if sz > ar_default_block_size r then sz else ar_default_block_size r"
  define old where "old b = ABlock \<lparr>ab_next = b, ab_size = c, ab_used = u\<rparr>" for b
  have run: "ownedc_arena_alloc self arena n st =
      (if u + sz \<le> c then arena_bump a sz st
       else bindE (allocate_block self ?new st) (\<lambda>(b, st).
         if b = 0 then Inr (0, st)
         else arena_bump b sz (put arena (Arena (r\<lparr>ar_current := b\<rparr>)) (put a (old b) st))))"
    using r(8) fr f cur by (simp add: ownedc_arena_alloc_def Let_def sz_def old_def cong: if_cong)
  show thesis
  proof (cases "used + unat sz \<le> cap")
    case True
    from arena_bump_rep [OF wf rep True szb(2)] bump [OF True] run le True show ?thesis by auto
  next
    case False
    have nb: "unat ?new \<le> 2 ^ 63" "unat sz \<le> unat ?new" using sz63 r(7) by (auto simp: word_less_nat_alt)
    have n24: "unat (24 + ?new) = 24 + unat ?new" using unat_add_no_overflow [of 24 ?new] nb(1) by simp
    from wf nb(1) show ?thesis
    proof (cases rule: allocate_block_cases [where self = self])
      case (null s')
      then show ?thesis using oom [of s'] run le False by simp
    next
      case (block b s')
      let ?b = "ABlock \<lparr>ab_next = 0, ab_size = ?new, ab_used = 0\<rparr>"
      have b: "b \<noteq> arena" "b \<notin> fst ` set (ds @ [(a, used, cap)])" "b \<noteq> a"
      proof -
        show "b \<noteq> arena" using block(5) r(1) by auto
        show "b \<notin> fst ` set (ds @ [(a, used, cap)])"
          using chain_cell [OF r(3)] block(5) by (fastforce simp: chunk_cell_def)
        then show "b \<noteq> a" by simp
      qed
      have ca: "cell_at s' a = Some (mc, x)" using block(6) cell(1) b(3) by simp
      note p = heap.store_result [OF block(3) ca, of "old b"]
      have cr: "cell_at (put a (old b) s') arena = Some (m, Arena r)"
        using p block(6) r(1,6) b(1) by auto
      note q = heap.store_result [OF conjunct1 [OF p] cr, of "Arena (r\<lparr>ar_current := b\<rparr>)"]
      define s2 where "s2 = put arena (Arena (r\<lparr>ar_current := b\<rparr>)) (put a (old b) s')"
      have cells: "cell_at s2 = (cell_at st)(b \<mapsto> (fresh_meta self (24 + ?new), ?b), a \<mapsto> (mc, old b),
          arena \<mapsto> (m, Arena (r\<lparr>ar_current := b\<rparr>)))"
        using p q block(6) unfolding s2_def by simp
      have aa: "a \<noteq> arena" using r(6) by auto
      have "chunk_cell arena_view self s2 b 0 (unat ?new) 0"
        using cells b aa n24 nb(1) unfolding chunk_cell_def by simp
      moreover have "chunk_cell arena_view self s2 a used cap b"
        using cells b aa cell unfolding chunk_cell_def by (simp add: old_def)
      ultimately have "chain arena_view self s2 a [(a, used, cap), (b, 0, unat ?new)]"
        using cur(2) block(2) by auto
      moreover have "cell_at s2 d = cell_at st d" if "d \<in> fst ` set ds" for d
      proof -
        have "d \<noteq> b" "d \<noteq> a" "d \<noteq> arena" using that b(2) r(5,6) by auto
        then show ?thesis by (simp add: cells)
      qed
      ultimately have ch: "chain arena_view self s2 (ar_head r) ((ds @ [(a, used, cap)]) @ [(b, 0, unat ?new)])"
        using chain_replace_end [OF r(3), of s2] by simp
      have wf2: "rt_wf s2" and more2: "rt.more s2 = rt.more st"
        using p q block(4) unfolding s2_def by auto
      have "arena_rep self s2 arena ((ds @ [(a, used, cap)]) @ [(b, 0, unat ?new)])"
        unfolding arena_rep_def using ch cells r b by simp
      from arena_bump_rep [OF wf2 this _ szb(2)] nb(2)
      obtain st' where st': "arena_bump b sz s2 = Inr (b + 24, st')" "rt_wf st'" "rt.more st' = rt.more s2"
        "arena_rep self st' arena ((ds @ [(a, used, cap)]) @ [(b, unat sz, unat ?new)])" by auto
      have "ownedc_arena_alloc self arena n st = Inr (b + 24, st')"
        using run le False block(1,2) st'(1) unfolding s2_def by simp
      then show ?thesis using new [of b st' "unat ?new"] st' more2 by simp
    qed
  qed
qed

subsection \<open>Arenas are bump allocators\<close>

definition arena_ok :: "tid \<Rightarrow> addr \<Rightarrow> 'x rt_scheme \<Rightarrow> bool" where
  "arena_ok self arena st \<longleftrightarrow> rt_wf st \<and> (\<exists>cs. arena_rep self st arena cs)"

definition arena_taken :: "tid \<Rightarrow> addr \<Rightarrow> 'x rt_scheme \<Rightarrow> nat set" where
  "arena_taken self arena st = (\<Union>cs \<in> {cs. arena_rep self st arena cs}. taken_of cs)"

lemma arena_taken_rep: "arena_rep self st arena cs \<Longrightarrow> arena_taken self arena st = taken_of cs"
  unfolding arena_taken_def using arena_rep_unique by blast

lemma arena_rep_same:
  assumes "arena_rep self st arena cs" and "cell_at st' = cell_at st"
  shows "arena_rep self st' arena cs"
  using assms chain_same unfolding arena_rep_def by (metis (no_types, lifting))

lemma arena_empty:
  assumes "rt_wf st" and "arena_rep self st arena []"
  shows "ownedc_arena_alloc self arena n st = Inr (0, st)"
  using assms(2)
proof (rule arena_repE, goal_cases)
  case (1 m r)
  have "field arena_of st arena = Inr r" by (rule field_cell [OF assms(1) 1(1)]) simp
  with 1 show ?case by (simp add: ownedc_arena_alloc_def)
qed

lemma arena_last:
  assumes "arena_ok self arena st"
  obtains (empty) "arena_rep self st arena []" and "rt_wf st"
  | (block) ds a u c where "arena_rep self st arena (ds @ [(a, u, c)])" and "rt_wf st"
proof -
  obtain cs where cs: "arena_rep self st arena cs" "rt_wf st" using assms by (auto simp: arena_ok_def)
  with that show ?thesis by (cases cs rule: rev_cases) auto
qed

lemma arena_last_cell:
  assumes "rt_wf st" and "arena_rep self st arena (ds @ [(a, u, c)])"
  obtains "chunk_cell arena_view self st a u c 0"
    and "\<And>y. y \<in> taken_of ds \<Longrightarrow> y < unat a \<or> unat a + 24 + c \<le> y"
  using assms(2)
proof (rule arena_repE, goal_cases)
  case (1 m r)
  have c: "chunk_cell arena_view self st a u c 0" by (rule chain_end(1) [OF 1(4)])
  have "y < unat a \<or> unat a + 24 + c \<le> y" if y: "y \<in> taken_of ds" for y
  proof -
    obtain b v k where b: "(b, v, k) \<in> set ds" "y \<in> {unat b + 24 ..< unat b + 24 + v}"
      using y by (auto simp: taken_of_def)
    obtain nx where nx: "chunk_cell arena_view self st b v k nx" using chain_cell [OF 1(4)] b(1) by fastforce
    obtain ma xa where ma: "cell_at st a = Some (ma, xa)" "unat (m_size ma) = 24 + c"
      using c by (auto simp: chunk_cell_def)
    have "b \<noteq> a" using 1(6) b(1) by force
    from chunk_taken [OF assms(1) nx ma(1) this] b(2) ma(2) show ?thesis by auto
  qed
  with c 1(1) show ?case by blast
qed

lemma arena_grant:
  assumes "arena_ok self arena st" and "bump_fits n" and "ownedc_arena_alloc self arena n st = Inr (p, st')"
  shows "arena_ok self arena st' \<and> arena_taken self arena st \<subseteq> arena_taken self arena st' \<and>
    (p \<noteq> 0 \<longrightarrow> unat p mod 8 = 0 \<and> span p n \<subseteq> arena_taken self arena st' - arena_taken self arena st)"
  using assms(1)
proof (cases rule: arena_last)
  case empty
  from arena_empty [OF empty(2,1)] assms(1,3) show ?thesis by simp
next
  case (block ds a u c)
  note rep = block(1) and wf = block(2) and T = arena_taken_rep [OF block(1)]
  have nn: "unat n + 7 < 2 ^ 64" using assms(2) by (simp add: bump_fits_def)
  note sz = align8_bounds [OF nn]
  from wf rep assms(2) show ?thesis
  proof (cases rule: ownedc_arena_alloc_rep)
    case (bump st2)
    have p: "p = a + 24 + of_nat u" "st2 = st'" using bump(2) assms(3) by auto
    note rep2 = bump(4) [unfolded p]
    have "chunk_cell arena_view self st a u c 0" using arena_last_cell [OF wf rep] .
    then have u8: "u mod 8 = 0" by (auto simp: chunk_cell_def)
    have nx: "chunk_cell arena_view self st' a (u + unat (align8 n)) c 0"
      and out: "\<And>y. y \<in> taken_of ds \<Longrightarrow> y < unat a \<or> unat a + 24 + c \<le> y"
      using arena_last_cell [OF bump(3) [unfolded p] rep2] by blast+
    note s = span_in_chunk [where T = "taken_of ds", OF bump(3) [unfolded p] nx sz(1) u8 p(1) out]
    show ?thesis
      using s bump(3) rep2 unfolding T arena_taken_rep [OF rep2] taken_of_append taken_of_Cons p(2)
      by (auto simp: arena_ok_def taken_of_def)
  next
    case (oom st2)
    then have p: "p = 0" "st' = st2" using assms(3) by auto
    have rep2: "arena_rep self st' arena (ds @ [(a, u, c)])"
      using arena_rep_same [OF rep] oom(3) p by simp
    show ?thesis using p oom(2) rep2 unfolding T arena_taken_rep [OF rep2] by (auto simp: arena_ok_def)
  next
    case (new b k st2)
    have p: "p = b + 24" "st2 = st'" using new(1) assms(3) by auto
    note rep2 = new(3) [unfolded p]
    have nx: "chunk_cell arena_view self st' b (0 + unat (align8 n)) k 0"
      and out: "\<And>y. y \<in> taken_of (ds @ [(a, u, c)]) \<Longrightarrow> y < unat b \<or> unat b + 24 + k \<le> y"
      using arena_last_cell [OF new(2) [unfolded p] rep2] by auto
    have p0: "p = b + 24 + of_nat 0" using p by simp
    note s = span_in_chunk [where T = "taken_of (ds @ [(a, u, c)])",
        OF new(2) [unfolded p] nx sz(1) _ p0 out, simplified]
    show ?thesis
      using s new(2) rep2 unfolding T arena_taken_rep [OF rep2] p(2)
      by (auto simp: arena_ok_def taken_of_append taken_of_Cons)
  qed
qed

lemma arena_total:
  assumes "arena_ok self arena st" and "bump_fits n"
  shows "\<exists>p st'. ownedc_arena_alloc self arena n st = Inr (p, st')"
  using assms(1)
proof (cases rule: arena_last)
  case empty
  from arena_empty [OF empty(2,1)] show ?thesis by blast
next
  case (block ds a u c)
  from block(2,1) assms(2) show ?thesis by (cases rule: ownedc_arena_alloc_rep) blast+
qed

interpretation arena: bump_allocator "arena_ok self arena" "arena_taken self arena"
  "ownedc_arena_alloc self arena" bump_fits for self arena
  by unfold_locales (rule arena_grant arena_total; assumption)+

subsection \<open>Life of an arena\<close>

lemma ownedc_arena_create_rep:
  assumes "rt_wf st" and "unat n \<le> 2 ^ 63"
  shows "\<exists>arena st'. ownedc_arena_create self n st = Inr (arena, st') \<and> rt_wf st' \<and>
    (if arena = 0 then cell_at st' = cell_at st
     else \<exists>cs. arena_rep self st' arena cs \<and> taken_of cs = {} \<and> length cs \<le> 1 \<and>
       cell_at st' |` (- insert arena (fst ` set cs)) = cell_at st)"
proof -
  let ?n = "if n < 1024 then 1024 else n"
  have nb: "unat ?n \<le> 2 ^ 63" using assms(2) by auto
  have n24': "unat (24 + ?n) = 24 + unat ?n" using unat_add_no_overflow [of 24 ?n] nb by simp
  have n24: "unat (24 :: size_t) + 80 < 2 ^ 64" by simp
  from assms(1) n24 show ?thesis
  proof (cases rule: heap.alloc_cases [where self = self])
    case (null s')
    then show ?thesis by (simp add: ownedc_arena_create_def)
  next
    case ar: (object arena s1)
    have step: "ownedc_arena_create self n st = bindE (allocate_block self ?n s1) (\<lambda>(initial, st).
        Inr (arena, put arena (Arena \<lparr>ar_head = initial, ar_current = initial,
          ar_default_block_size = ?n\<rparr>) st))"
      using ar(1,2) by (simp add: ownedc_arena_create_def Let_def)
    from ar(3) nb show ?thesis
    proof (cases rule: allocate_block_cases [where self = self])
      case (null s2)
      let ?r = "\<lparr>ar_head = 0, ar_current = 0, ar_default_block_size = ?n\<rparr>"
      have c: "cell_at s2 arena = Some (fresh_meta self 24, Filled 0xAA)" using null(3) ar(6) by simp
      note p = heap.store_result [OF null(2) c, of "Arena ?r"]
      have rep: "arena_rep self (put arena (Arena ?r) s2) arena []"
        using p nb unfolding arena_rep_def by simp
      have "cell_at (put arena (Arena ?r) s2) |` (- {arena}) = cell_at st"
        using p null(3) ar(5,6) by (auto simp: restrict_map_def fun_eq_iff)
      with rep step null(1) p ar(2) show ?thesis
        by (intro exI [of _ arena] exI [of _ "put arena (Arena ?r) s2"])
          (auto simp: taken_of_def intro!: exI [of _ "[]"])
    next
      case (block b s2)
      let ?r = "\<lparr>ar_head = b, ar_current = b, ar_default_block_size = ?n\<rparr>"
      have ne: "b \<noteq> arena" using block(5) ar(6) by auto
      have c: "cell_at s2 arena = Some (fresh_meta self 24, Filled 0xAA)" using block(6) ar(6) ne by simp
      note p = heap.store_result [OF block(3) c, of "Arena ?r"]
      define s3 where "s3 = put arena (Arena ?r) s2"
      have cells: "cell_at s3 = (cell_at st)(b \<mapsto> (fresh_meta self (24 + ?n),
          ABlock \<lparr>ab_next = 0, ab_size = ?n, ab_used = 0\<rparr>), arena \<mapsto> (fresh_meta self 24, Arena ?r))"
        using p block(6) ar(6) ne unfolding s3_def by (auto simp: fun_eq_iff)
      have "chunk_cell arena_view self s3 b 0 (unat ?n) 0"
        using cells ne n24' nb unfolding chunk_cell_def by simp
      then have rep: "arena_rep self s3 arena [(b, 0, unat ?n)]"
        using cells ne nb block(2) unfolding arena_rep_def by simp
      have "cell_at st b = None" using block(5) ar(6) ne by simp
      then have "cell_at s3 |` (- insert arena (fst ` set [(b, 0, unat ?n)])) = cell_at st"
        using cells ar(5) by (auto simp: restrict_map_def fun_eq_iff)
      then have "\<exists>cs. arena_rep self s3 arena cs \<and> taken_of cs = {} \<and> length cs \<le> 1 \<and>
          cell_at s3 |` (- insert arena (fst ` set cs)) = cell_at st"
        using rep by (intro exI [of _ "[(b, 0, unat ?n)]"]) (auto simp: taken_of_def)
      moreover have "ownedc_arena_create self n st = Inr (arena, s3)"
        using step block(1) unfolding s3_def by simp
      moreover have "rt_wf s3" using p unfolding s3_def by blast
      ultimately show ?thesis using ar(2) by (intro exI [of _ arena] exI [of _ s3]) auto
    qed
  qed
qed

lemma ownedc_arena_destroy_rep:
  assumes "rt_wf st" and "arena_rep self st arena cs"
  shows "\<exists>st'. ownedc_arena_destroy self arena st = Inr st' \<and> rt_wf st' \<and>
    cell_at st' = cell_at st |` (- insert arena (fst ` set cs))"
  using assms(2)
proof (rule arena_repE, goal_cases)
  case (1 m r)
  have f: "field arena_of st arena = Inr r" by (rule field_cell [OF assms(1) 1(1)]) simp
  obtain s1 where s1: "free_chain arena_view self (ar_head r) st = Some (Inr s1)" "rt_wf s1"
    "rt.more s1 = rt.more st" "cell_at s1 = cell_at st |` (- fst ` set cs)"
    using free_chain_rep [OF assms(1) 1(3,5)] by blast
  have "cell_at s1 arena = Some (m, Arena r)" using s1(4) 1(1,6) by simp
  then obtain s2 where s2: "owner_free self arena s1 = Inr s2" "rt_wf s2" "rt.more s2 = rt.more s1"
    "cell_at s2 = (cell_at s1)(arena := None)"
    by (rule heap.release_obtain [OF s1(2) _ 1(2)])
  have "ownedc_arena_destroy self arena st = Inr s2"
    using f s1(1) s2(1) 1(8) by (simp add: ownedc_arena_destroy_def returned_def)
  moreover have "cell_at s2 = cell_at st |` (- insert arena (fst ` set cs))"
    using s2(4) s1(4) by (auto simp: restrict_map_def fun_eq_iff)
  ultimately show ?case using s1 s2 by auto
qed



text \<open>When the first block of an arena cannot be allocated, creation still returns a non-null
  arena, from which every request returns NULL.\<close>

theorem arena_without_block:
  "\<exists>st. ownedc_arena_create 2 4096 (rt_init [0x1000] 1 2 3) = Inr (0x1050, st) \<and>
     (\<forall>n. ownedc_arena_alloc 2 0x1050 n st = Inr (0, st))"
  by (simp add: ownedc_arena_create_def allocate_block_def ownedc_arena_alloc_def rt_eval field_def)

end
