(* ===== verification/RefCount.thy ===== *)
theory RefCount
  imports Heap
begin

text \<open>
  The reference-counted wrappers of \<open>src/ownedc_rc.c\<close> and the global list the cycle collector works on.
  The static variable \<open>gc_head\<close> is one more field of the state.  \<open>rcs\<close> relates the wrappers in the list
  to their contents, \<open>linked\<close> the list itself to the links.
\<close>

record gc_rt = rt +
  gc_head :: addr

fun rc_of :: "payload \<Rightarrow> owned_rc option" where
  "rc_of (Rc r) = Some r"
| "rc_of _ = None"

definition MAX_RC_CHILDREN :: nat where
  "MAX_RC_CHILDREN = 4"

text \<open>Assigning fields of a wrapper.\<close>

definition upd_rc :: "addr \<Rightarrow> (owned_rc \<Rightarrow> owned_rc) \<Rightarrow> 'x rt_scheme \<Rightarrow> failure + 'x rt_scheme" where
  "upd_rc a g st = bindE (field rc_of st a) (\<lambda>r. Inr (put a (Rc (g r)) st))"

subsection \<open>The functions\<close>

definition register_in_gc :: "addr \<Rightarrow> 'x gc_rt_scheme \<Rightarrow> failure + 'x gc_rt_scheme" where
  "register_in_gc rc st =
     bindE (upd_rc rc (\<lambda>r. r\<lparr>rc_gc_next := gc_head st\<rparr>) st) (\<lambda>st. Inr (st\<lparr>gc_head := rc\<rparr>))"

text \<open>
  \<open>curr\<close> of \<open>unregister_from_gc\<close> points to \<open>gc_head\<close> (\<open>None\<close>) or to the \<open>gc_next\<close> field of a wrapper.
\<close>

definition read_link :: "addr option \<Rightarrow> 'x gc_rt_scheme \<Rightarrow> failure + addr" where
  "read_link pos st =
     (case pos of None \<Rightarrow> Inr (gc_head st)
      | Some p \<Rightarrow> bindE (field rc_of st p) (\<lambda>r. Inr (rc_gc_next r)))"

definition write_link :: "addr option \<Rightarrow> addr \<Rightarrow> 'x gc_rt_scheme \<Rightarrow> failure + 'x gc_rt_scheme" where
  "write_link pos a st =
     (case pos of None \<Rightarrow> Inr (st\<lparr>gc_head := a\<rparr>)
      | Some p \<Rightarrow> upd_rc p (\<lambda>r. r\<lparr>rc_gc_next := a\<rparr>) st)"

partial_function (option) unregister_loop ::
    "addr \<Rightarrow> addr option \<Rightarrow> 'x gc_rt_scheme \<Rightarrow> (failure + 'x gc_rt_scheme) option" where
  "unregister_loop rc pos st =
     (case read_link pos st of
        Inl e \<Rightarrow> Some (Inl e)
      | Inr cur \<Rightarrow>
          if cur = 0 then Some (Inr st)
          else if cur = rc
          then Some (bindE (field rc_of st rc) (\<lambda>r. write_link pos (rc_gc_next r) st))
          else unregister_loop rc (Some cur) st)"

definition unregister_from_gc :: "addr \<Rightarrow> 'x gc_rt_scheme \<Rightarrow> failure + 'x gc_rt_scheme" where
  "unregister_from_gc rc st =
     returned (unregister_loop rc None st)"

text \<open>The children of a new wrapper are not initialised.\<close>

definition owned_rc_new ::
    "tid \<Rightarrow> addr \<Rightarrow> 'x gc_rt_scheme \<Rightarrow> failure + (addr \<times> 'x gc_rt_scheme)" where
  "owned_rc_new self ptr st =
     bindE (owner_malloc self 80 st) (\<lambda>(rc, st).
       if rc = 0
       then bindE (if ptr \<noteq> 0 then owner_free self ptr st else Inr st) (\<lambda>st. Inr (0, st))
       else bindE (register_in_gc rc
              (put rc (Rc \<lparr>rc_ptr = ptr, rc_ref_count = 1,
                           rc_children = replicate MAX_RC_CHILDREN (word_of_pattern 0xAA),
                           rc_child_count = 0, rc_gc_ref = 0, rc_gc_marked = False,
                           rc_gc_next = word_of_pattern 0xAA\<rparr>) st))
            (\<lambda>st. Inr (rc, st)))"

definition owned_rc_clone :: "addr \<Rightarrow> 'x gc_rt_scheme \<Rightarrow> failure + (addr \<times> 'x gc_rt_scheme)" where
  "owned_rc_clone rc st =
     (if rc = 0 then Inr (0, st)
      else bindE (upd_rc rc (\<lambda>r. r\<lparr>rc_ref_count := rc_ref_count r + 1\<rparr>) st) (\<lambda>st. Inr (rc, st)))"

definition owned_rc_drop :: "tid \<Rightarrow> addr \<Rightarrow> 'x gc_rt_scheme \<Rightarrow> failure + 'x gc_rt_scheme" where
  "owned_rc_drop self rc st =
     (if rc = 0 then Inr st
      else bindE (field rc_of st rc) (\<lambda>r.
        if rc_ref_count r > 0
        then bindE (upd_rc rc (\<lambda>r. r\<lparr>rc_ref_count := rc_ref_count r - 1\<rparr>) st) (\<lambda>st.
             if rc_ref_count r - 1 = 0
             then bindE (unregister_from_gc rc st) (\<lambda>st.
                  bindE (field rc_of st rc) (\<lambda>r.
                  bindE (if rc_ptr r \<noteq> 0
                         then bindE (owner_free self (rc_ptr r) st)
                                (upd_rc rc (\<lambda>r. r\<lparr>rc_ptr := 0\<rparr>))
                         else Inr st)
                    (owner_free self rc)))
             else Inr st)
        else Inr st))"

definition owned_rc_get :: "addr \<Rightarrow> 'x gc_rt_scheme \<Rightarrow> failure + addr" where
  "owned_rc_get rc st =
     (if rc = 0 then Inr 0 else bindE (field rc_of st rc) (\<lambda>r. Inr (rc_ptr r)))"

definition owned_rc_register_child ::
    "addr \<Rightarrow> addr \<Rightarrow> 'x gc_rt_scheme \<Rightarrow> failure + 'x gc_rt_scheme" where
  "owned_rc_register_child parent child st =
     (if parent = 0 \<or> child = 0 then Inr st
      else bindE (field rc_of st parent) (\<lambda>r.
        if rc_child_count r < MAX_RC_CHILDREN
        then upd_rc parent (\<lambda>r. r\<lparr>rc_children := (rc_children r)[rc_child_count r := child],
                                 rc_child_count := rc_child_count r + 1\<rparr>) st
        else Inr st))"

text \<open>The cleanup handler of \<open>OWNED_RC\<close>, on the value of the variable.\<close>

definition cleanup_owned_rc_drop :: "tid \<Rightarrow> addr \<Rightarrow> 'x gc_rt_scheme \<Rightarrow> failure + 'x gc_rt_scheme" where
  "cleanup_owned_rc_drop self rc st = (if rc \<noteq> 0 then owned_rc_drop self rc st else Inr st)"

subsection \<open>The wrappers and their list\<close>

fun linked :: "(addr \<Rightarrow> owned_rc) \<Rightarrow> addr \<Rightarrow> addr list \<Rightarrow> bool" where
  "linked R x [] = (x = 0)"
| "linked R x (a # as) = (x = a \<and> a \<noteq> 0 \<and> linked R (rc_gc_next (R a)) as)"

text \<open>The wrappers \<open>as\<close> hold \<open>R\<close>; everything else is as in \<open>C\<close>.\<close>

definition rcs :: "tid \<Rightarrow> cells \<Rightarrow> 'x rt_scheme \<Rightarrow> addr list \<Rightarrow> (addr \<Rightarrow> owned_rc) \<Rightarrow> bool" where
  "rcs self C st as R \<longleftrightarrow> rt_wf st \<and>
     (\<forall>a \<in> set as. \<exists>m. cell_at st a = Some (m, Rc (R a)) \<and> free_ok self m) \<and>
     (\<forall>q. q \<notin> set as \<longrightarrow> cell_at st q = C q)"

definition gc_inv :: "tid \<Rightarrow> cells \<Rightarrow> 'x gc_rt_scheme \<Rightarrow> addr list \<Rightarrow> (addr \<Rightarrow> owned_rc) \<Rightarrow> bool" where
  "gc_inv self C st as R \<longleftrightarrow> rcs self C st as R \<and> distinct as \<and> linked R (gc_head st) as"

lemma linked_append:
  "linked R x (as @ b # bs) \<Longrightarrow>
   (as = [] \<longrightarrow> x = b) \<and> (as \<noteq> [] \<longrightarrow> rc_gc_next (R (last as)) = b) \<and> b \<noteq> 0 \<and>
   linked R (rc_gc_next (R b)) bs"
proof (induction as arbitrary: x)
  case Nil
  then show ?case by simp
next
  case (Cons a as)
  then have "linked R (rc_gc_next (R a)) (as @ b # bs)" by simp
  from Cons.IH [OF this] show ?case by simp
qed

lemma linked_cong:
  "linked R x as \<Longrightarrow> (\<And>a. a \<in> set as \<Longrightarrow> rc_gc_next (R' a) = rc_gc_next (R a)) \<Longrightarrow> linked R' x as"
  by (induction as arbitrary: x) auto

lemma linked_nonnull: "linked R x as \<Longrightarrow> a \<in> set as \<Longrightarrow> a \<noteq> 0"
  by (induction as arbitrary: x) auto

lemma gc_head_more: "rt.more s = rt.more t \<Longrightarrow> gc_head s = gc_head t"
  by (cases s; cases t) simp

lemma gc_head_simps [simp]:
  "cell_at (st\<lparr>gc_head := a\<rparr>) = cell_at st" "rt_wf (st\<lparr>gc_head := a\<rparr>) = rt_wf st"
  "field sel (st\<lparr>gc_head := a\<rparr>) p = field sel st p"
  by (simp_all add: fun_eq_iff cell_at_def live_def obj_at_def rt_wf_def rt_inv_def rt_rep_def
      ring_of_def field_def)

lemma put_gc_head [simp]: "gc_head (put p x st) = gc_head st"
  by (rule gc_head_more) simp

lemma rcs_field:
  assumes "rcs self C st as R" and "a \<in> set as"
  shows "field rc_of st a = Inr (R a)"
proof -
  obtain m where "cell_at st a = Some (m, Rc (R a))" "rt_wf st" using assms by (auto simp: rcs_def)
  then show ?thesis using field_cell [of st a m "Rc (R a)" rc_of] by simp
qed

lemma rcs_upd:
  assumes "rcs self C st as R" and "a \<in> set as"
  shows "upd_rc a g st = Inr (put a (Rc (g (R a))) st)"
    and "rcs self C (put a (Rc (g (R a))) st) as (R(a := g (R a)))"
proof -
  show "upd_rc a g st = Inr (put a (Rc (g (R a))) st)"
    using rcs_field [OF assms] by (simp add: upd_rc_def)
  obtain m where m: "cell_at st a = Some (m, Rc (R a))" "rt_wf st" "free_ok self m"
    using assms by (auto simp: rcs_def)
  from heap.store_result [OF m(2,1), of "Rc (g (R a))"] assms m(3)
  show "rcs self C (put a (Rc (g (R a))) st) as (R(a := g (R a)))"
    by (auto simp: rcs_def)
qed

subsection \<open>Leaving the list\<close>

definition relink :: "addr list \<Rightarrow> addr \<Rightarrow> (addr \<Rightarrow> owned_rc) \<Rightarrow> addr \<Rightarrow> owned_rc" where
  "relink pre a R =
     (if pre = [] then R
      else R(last pre := (R (last pre))\<lparr>rc_gc_next := rc_gc_next (R a)\<rparr>))"

lemma relink_fields:
  "rc_ptr (relink pre a R b) = rc_ptr (R b)" "rc_ref_count (relink pre a R b) = rc_ref_count (R b)"
  "rc_children (relink pre a R b) = rc_children (R b)"
  "rc_child_count (relink pre a R b) = rc_child_count (R b)"
  "rc_gc_ref (relink pre a R b) = rc_gc_ref (R b)"
  "rc_gc_marked (relink pre a R b) = rc_gc_marked (R b)"
  by (simp_all add: relink_def)

lemma linked_relink:
  assumes "linked R x (pre @ a # zs)" and "distinct (pre @ a # zs)"
  shows "linked (relink pre a R) (if pre = [] then rc_gc_next (R a) else x) (pre @ zs)"
  using assms
proof (induction pre arbitrary: x)
  case Nil
  then show ?case by (simp add: relink_def)
next
  case (Cons p pre)
  then have l: "linked R (rc_gc_next (R p)) (pre @ a # zs)" and x: "x = p" "p \<noteq> 0" by simp_all
  show ?case
  proof (cases "pre = []")
    case True
    have "linked R (rc_gc_next (R a)) zs" using l True by simp
    then have "linked (relink [p] a R) (rc_gc_next (R a)) zs"
      by (rule linked_cong) (use Cons.prems(2) True in \<open>auto simp: relink_def\<close>)
    then show ?thesis using True x by (simp add: relink_def fun_upd_def)
  next
    case False
    have p: "p \<noteq> last pre" using False Cons.prems(2) by auto
    have "relink (p # pre) a R = relink pre a R" using False by (simp add: relink_def)
    moreover have "relink pre a R p = R p" using p by (simp add: relink_def)
    ultimately show ?thesis using Cons.IH [OF l] Cons.prems(2) False x by simp
  qed
qed

lemma unregister_loop_rep:
  assumes "gc_inv self C st (xs @ ys @ a # zs) R"
  defines "pos \<equiv> (if xs = [] then None else Some (last xs))"
  defines "pre \<equiv> xs @ ys"
  shows "unregister_loop a pos st =
    Some (write_link (if pre = [] then None else Some (last pre)) (rc_gc_next (R a)) st)"
  using assms(1) unfolding pos_def pre_def
proof (induction ys arbitrary: xs)
  case Nil
  then have inv: "rcs self C st (xs @ a # zs) R" "linked R (gc_head st) (xs @ a # zs)"
    by (simp_all add: gc_inv_def)
  have f: "field rc_of st b = Inr (R b)" if "b \<in> set (xs @ a # zs)" for b
    using rcs_field [OF inv(1) that] .
  note l = linked_append [OF inv(2)]
  have "read_link (if xs = [] then None else Some (last xs)) st = Inr a" "a \<noteq> 0"
    using l f [of "last xs"] by (auto simp: read_link_def)
  then show ?case using f [of a] by (subst unregister_loop.simps) simp
next
  case (Cons y ys)
  then have inv: "rcs self C st (xs @ y # ys @ a # zs) R" "linked R (gc_head st) (xs @ y # ys @ a # zs)"
    and d: "distinct (xs @ y # ys @ a # zs)" by (simp_all add: gc_inv_def)
  have f: "field rc_of st b = Inr (R b)" if "b \<in> set (xs @ y # ys @ a # zs)" for b
    using rcs_field [OF inv(1) that] .
  note l = linked_append [OF inv(2)]
  have "read_link (if xs = [] then None else Some (last xs)) st = Inr y" "y \<noteq> 0"
    using l f [of "last xs"] by (auto simp: read_link_def)
  moreover have "y \<noteq> a" using d by auto
  ultimately have "unregister_loop a (if xs = [] then None else Some (last xs)) st =
      unregister_loop a (Some y) st"
    by (subst unregister_loop.simps) simp
  with Cons.IH [of "xs @ [y]"] Cons.prems show ?case by simp
qed

lemma unregister_from_gc_rep:
  assumes "gc_inv self C st (pre @ a # zs) R"
  obtains st' where "unregister_from_gc a st = Inr st'"
    and "rcs self C st' (pre @ a # zs) (relink pre a R)"
    and "linked (relink pre a R) (gc_head st') (pre @ zs)"
proof -
  let ?pos = "if pre = [] then None else Some (last pre)"
  have inv: "rcs self C st (pre @ a # zs) R" "linked R (gc_head st) (pre @ a # zs)"
    "distinct (pre @ a # zs)" using assms by (simp_all add: gc_inv_def)
  have u: "unregister_from_gc a st = write_link ?pos (rc_gc_next (R a)) st"
    using unregister_loop_rep [of self C st "[]" pre a zs R] assms by (simp add: unregister_from_gc_def returned_def)
  note l = linked_relink [OF inv(2,3)]
  show thesis
  proof (cases "pre = []")
    case True
    then show ?thesis
      using that [of "st\<lparr>gc_head := rc_gc_next (R a)\<rparr>"] u l inv(1)
      by (simp add: write_link_def relink_def rcs_def)
  next
    case False
    then have "last pre \<in> set (pre @ a # zs)" by simp
    note w = rcs_upd [OF inv(1) this, of "\<lambda>r. r\<lparr>rc_gc_next := rc_gc_next (R a)\<rparr>"]
    show ?thesis
      using that w u l False by (simp add: write_link_def relink_def)
  qed
qed

subsection \<open>Counting\<close>

text \<open>What a wrapper guards: nothing, or an object of the caller outside the list.\<close>

definition guards :: "tid \<Rightarrow> cells \<Rightarrow> addr list \<Rightarrow> addr \<Rightarrow> bool" where
  "guards self C as p \<longleftrightarrow> p = 0 \<or> p \<notin> set as \<and> (\<exists>m x. C p = Some (m, x) \<and> free_ok self m)"

lemma owned_rc_new_rep:
  assumes "gc_inv self C st as R" and "guards self C as p"
  shows "\<exists>rc st'. owned_rc_new self p st = Inr (rc, st') \<and>
    (if rc = 0 then gc_inv self (C(p := None)) st' as R
     else \<exists>r. gc_inv self C st' (rc # as) (R(rc := r)) \<and> rc_ptr r = p \<and> rc_ref_count r = 1 \<and>
       rc_child_count r = 0 \<and> length (rc_children r) = MAX_RC_CHILDREN \<and> C rc = None \<and> rc \<notin> set as)"
proof -
  have wf: "rt_wf st" and inv: "rcs self C st as R" "distinct as" "linked R (gc_head st) as"
    using assms(1) by (auto simp: gc_inv_def rcs_def)
  have c0: "C 0 = None"
    using inv(1) linked_nonnull [OF inv(3)] cell_at_nonnull [of st 0] unfolding rcs_def
    by (metis option.exhaust)
  have n80: "unat (80 :: size_t) + 80 < 2 ^ 64" by simp
  from wf n80 show ?thesis
  proof (cases rule: heap.alloc_cases [where self = self])
    case (null s1)
    have h1: "gc_head s1 = gc_head st" using gc_head_more [OF null(3)] .
    show ?thesis
    proof (cases "p = 0")
      case True
      with null h1 inv c0 show ?thesis
        by (auto simp: owned_rc_new_def gc_inv_def rcs_def fun_upd_idem)
    next
      case False
      then obtain m x where p: "p \<notin> set as" "C p = Some (m, x)" "free_ok self m"
        using assms(2) by (auto simp: guards_def)
      have "cell_at s1 p = Some (m, x)" using p inv(1) null(4) by (simp add: rcs_def)
      then obtain s2 where s2: "owner_free self p s1 = Inr s2" "rt_wf s2" "rt.more s2 = rt.more s1"
        "cell_at s2 = (cell_at s1)(p := None)"
        by (rule heap.release_obtain [OF null(2) _ p(3)])
      have "gc_inv self (C(p := None)) s2 as R"
        using inv s2 null(4) p(1) h1 gc_head_more [OF s2(3)] by (auto simp: gc_inv_def rcs_def)
      with null(1) s2(1) False show ?thesis by (simp add: owned_rc_new_def)
    qed
  next
    case (object rc s1)
    let ?r = "\<lparr>rc_ptr = p, rc_ref_count = 1,
       rc_children = replicate MAX_RC_CHILDREN (word_of_pattern 0xAA), rc_child_count = 0,
       rc_gc_ref = 0, rc_gc_marked = False, rc_gc_next = word_of_pattern 0xAA\<rparr>"
    have rc0: "rc \<notin> set as" using object(5) inv(1) by (auto simp: rcs_def)
    then have rc: "rc \<notin> set as" "C rc = None" using object(5) inv(1) by (simp_all add: rcs_def)
    have c: "cell_at s1 rc = Some (fresh_meta self 80, Filled 0xAA)" using object(6) by simp
    note s = heap.store_result [OF object(3) c, of "Rc ?r"]
    let ?s = "put rc (Rc ?r) s1"
    have cells: "cell_at ?s = (cell_at st)(rc \<mapsto> (fresh_meta self 80, Rc ?r))" using s object(6) by simp
    have h: "gc_head ?s = gc_head st" using gc_head_more [OF object(4)] by simp
    have "rcs self C ?s (rc # as) (R(rc := ?r))"
      using inv(1) rc cells conjunct1 [OF s] by (auto simp: rcs_def)
    from rcs_upd [OF this, of rc "\<lambda>r. r\<lparr>rc_gc_next := gc_head st\<rparr>"]
    obtain s3 where s3: "upd_rc rc (\<lambda>r. r\<lparr>rc_gc_next := gc_head st\<rparr>) ?s = Inr s3"
      "rcs self C s3 (rc # as) (R(rc := ?r\<lparr>rc_gc_next := gc_head st\<rparr>))" by auto
    have "linked (R(rc := ?r\<lparr>rc_gc_next := gc_head st\<rparr>)) (gc_head st) as"
      using rc(1) by (intro linked_cong [OF inv(3)]) auto
    then have "gc_inv self C (s3\<lparr>gc_head := rc\<rparr>) (rc # as) (R(rc := ?r\<lparr>rc_gc_next := gc_head st\<rparr>))"
      using s3(2) inv(2) rc(1) object(2) by (simp add: gc_inv_def rcs_def)
    moreover have "owned_rc_new self p st = Inr (rc, s3\<lparr>gc_head := rc\<rparr>)"
      using object(1,2) s3(1) h by (simp add: owned_rc_new_def register_in_gc_def)
    ultimately show ?thesis using object(2) rc
      by (intro exI [of _ rc] exI [of _ "s3\<lparr>gc_head := rc\<rparr>"]) auto
  qed
qed

lemma gc_inv_upd:
  assumes "gc_inv self C st as R" and "a \<in> set as" and "rc_gc_next (g (R a)) = rc_gc_next (R a)"
  obtains st' where "upd_rc a g st = Inr st'" and "gc_inv self C st' as (R(a := g (R a)))"
proof -
  have inv: "rcs self C st as R" "distinct as" "linked R (gc_head st) as"
    using assms(1) by (auto simp: gc_inv_def)
  note u = rcs_upd [OF inv(1) assms(2), of g]
  have "linked (R(a := g (R a))) (gc_head st) as"
    using assms(3) by (intro linked_cong [OF inv(3)]) auto
  then show thesis using that u inv(2) by (simp add: gc_inv_def)
qed

text \<open>Dropping a reference that is not the last, and dropping the last one.\<close>

lemma owned_rc_drop_more:
  assumes "gc_inv self C st as R" and "a \<in> set as" and "1 < unat (rc_ref_count (R a))"
  shows "\<exists>st'. owned_rc_drop self a st = Inr st' \<and>
    gc_inv self C st' as (R(a := (R a)\<lparr>rc_ref_count := rc_ref_count (R a) - 1\<rparr>))"
proof -
  have inv: "rcs self C st as R" "linked R (gc_head st) as" using assms(1) by (auto simp: gc_inv_def)
  have "a \<noteq> 0" using linked_nonnull [OF inv(2) assms(2)] .
  moreover have "rc_ref_count (R a) > 0" using assms(3) by (simp add: word_less_nat_alt)
  moreover have "rc_ref_count (R a) - 1 \<noteq> 0" using assms(3) by auto
  moreover obtain st' where "upd_rc a (\<lambda>r. r\<lparr>rc_ref_count := rc_ref_count r - 1\<rparr>) st = Inr st'"
    "gc_inv self C st' as (R(a := (R a)\<lparr>rc_ref_count := rc_ref_count (R a) - 1\<rparr>))"
    by (rule gc_inv_upd [OF assms(1,2), of "\<lambda>r. r\<lparr>rc_ref_count := rc_ref_count r - 1\<rparr>"]) simp_all
  ultimately show ?thesis using rcs_field [OF inv(1) assms(2)] by (simp add: owned_rc_drop_def)
qed

lemma owned_rc_drop_last:
  assumes "gc_inv self C st (pre @ a # zs) R" and "rc_ref_count (R a) = 1"
    and "guards self C (pre @ a # zs) (rc_ptr (R a))"
  shows "\<exists>st'. owned_rc_drop self a st = Inr st' \<and>
    gc_inv self (C(a := None, rc_ptr (R a) := None)) st' (pre @ zs)
      (relink pre a (R(a := (R a)\<lparr>rc_ref_count := 0\<rparr>)))"
proof -
  let ?as = "pre @ a # zs" and ?R = "R(a := (R a)\<lparr>rc_ref_count := 0\<rparr>)" and ?p = "rc_ptr (R a)"
  have inv: "rcs self C st ?as R" "linked R (gc_head st) ?as" "distinct ?as"
    using assms(1) by (auto simp: gc_inv_def)
  have a: "a \<in> set ?as" "a \<noteq> 0" using linked_nonnull [OF inv(2), of a] by auto
  obtain s1 where s1: "upd_rc a (\<lambda>r. r\<lparr>rc_ref_count := rc_ref_count r - 1\<rparr>) st = Inr s1"
    "gc_inv self C s1 ?as ?R"
    using gc_inv_upd [OF assms(1) a(1), of "\<lambda>r. r\<lparr>rc_ref_count := rc_ref_count r - 1\<rparr>"] assms(2) by auto
  obtain s2 where s2: "unregister_from_gc a s1 = Inr s2" "rcs self C s2 ?as (relink pre a ?R)"
    "linked (relink pre a ?R) (gc_head s2) (pre @ zs)"
    by (rule unregister_from_gc_rep [OF s1(2)])
  have pa: "rc_ptr (relink pre a ?R a) = ?p" by (simp add: relink_fields)
  have f2: "field rc_of s2 a = Inr (relink pre a ?R a)" by (rule rcs_field [OF s2(2) a(1)])
  have wf2: "rt_wf s2" using s2(2) by (simp add: rcs_def)
  have c0: "C 0 = None"
    using inv(1,2) linked_nonnull [OF inv(2), of 0] cell_at_nonnull [of st 0]
    unfolding rcs_def by (metis option.exhaust)
  obtain s3 where s3: "(if ?p \<noteq> 0 then bindE (owner_free self ?p s2) (upd_rc a (\<lambda>r. r\<lparr>rc_ptr := 0\<rparr>))
      else Inr s2) = Inr s3" "rt_wf s3" "rt.more s3 = rt.more s2"
    "\<exists>m x. cell_at s3 a = Some (m, x) \<and> free_ok self m"
    "\<And>q. q \<noteq> a \<Longrightarrow> cell_at s3 q = (if q = ?p then None else cell_at s2 q)"
  proof (cases "?p = 0")
    case True
    have "cell_at s2 0 = None" using cell_at_nonnull [of s2 0] by (cases "cell_at s2 0") auto
    with True s2(2) a(1) show ?thesis by (intro that [of s2]) (auto simp: rcs_def)
  next
    case False
    then obtain m x where p: "?p \<notin> set ?as" "C ?p = Some (m, x)" "free_ok self m"
      using assms(3) by (auto simp: guards_def)
    have "cell_at s2 ?p = Some (m, x)" using p s2(2) by (simp add: rcs_def)
    then obtain t where t: "owner_free self ?p s2 = Inr t" "rt_wf t" "rt.more t = rt.more s2"
      "cell_at t = (cell_at s2)(?p := None)"
      by (rule heap.release_obtain [OF wf2 _ p(3)])
    have "rcs self (C(?p := None)) t ?as (relink pre a ?R)"
      using s2(2) t p(1) by (auto simp: rcs_def)
    note u = rcs_upd [OF this a(1), of "\<lambda>r. r\<lparr>rc_ptr := 0\<rparr>"]
    obtain ma where ma: "cell_at t a = Some (ma, Rc (relink pre a ?R a))" "free_ok self ma"
      using s2(2) t(4) a(1) p(1) unfolding rcs_def by auto
    note w = heap.store_result [OF t(2) ma(1), of "Rc (relink pre a ?R a\<lparr>rc_ptr := 0\<rparr>)"]
    show ?thesis
      by (rule that [of "put a (Rc (relink pre a ?R a\<lparr>rc_ptr := 0\<rparr>)) t"])
        (use False t u(1) w ma(2) in auto)
  qed
  then obtain m x where "cell_at s3 a = Some (m, x)" "free_ok self m" by blast
  then obtain s4 where s4: "owner_free self a s3 = Inr s4" "rt_wf s4" "rt.more s4 = rt.more s3"
    "cell_at s4 = (cell_at s3)(a := None)"
    by (rule heap.release_obtain [OF s3(2)])
  have "owned_rc_drop self a st = Inr s4"
    using rcs_field [OF inv(1) a(1)] a(2) assms(2) s1(1) s2(1) f2 s3(1) s4(1) pa
    by (cases "?p = 0") (simp_all add: owned_rc_drop_def)
  moreover have "rcs self (C(a := None, ?p := None)) s4 (pre @ zs) (relink pre a ?R)"
    using s2(2) s3(5) s4(2,4) inv(3) assms(3) c0 linked_nonnull [OF inv(2)]
    by (auto simp: rcs_def guards_def)
  moreover have "gc_head s4 = gc_head s2" using gc_head_more s3(3) s4(3) by metis
  ultimately show ?thesis using s2(3) inv(3) by (auto simp: gc_inv_def)
qed

lemma owned_rc_clone_rep:
  assumes "gc_inv self C st as R" and "a \<in> set as"
  obtains st' where "owned_rc_clone a st = Inr (a, st')"
    and "gc_inv self C st' as (R(a := (R a)\<lparr>rc_ref_count := rc_ref_count (R a) + 1\<rparr>))"
proof -
  let ?g = "\<lambda>r. r\<lparr>rc_ref_count := rc_ref_count r + 1\<rparr>"
  have "a \<noteq> 0" using assms linked_nonnull [of R "gc_head st" as a] by (simp add: gc_inv_def)
  moreover obtain s where "upd_rc a ?g st = Inr s" "gc_inv self C s as (R(a := ?g (R a)))"
    by (rule gc_inv_upd [OF assms, of ?g]) simp_all
  ultimately show thesis using that by (simp add: owned_rc_clone_def)
qed

lemma owned_rc_register_child_rep:
  assumes "gc_inv self C st as R" and "a \<in> set as" and "c \<noteq> 0"
  obtains st' where "owned_rc_register_child a c st = Inr st'"
    and "gc_inv self C st' as (if rc_child_count (R a) < MAX_RC_CHILDREN
       then R(a := (R a)\<lparr>rc_children := (rc_children (R a))[rc_child_count (R a) := c],
                          rc_child_count := rc_child_count (R a) + 1\<rparr>) else R)"
proof -
  let ?g = "\<lambda>r. r\<lparr>rc_children := (rc_children r)[rc_child_count r := c],
      rc_child_count := rc_child_count r + 1\<rparr>"
  have "a \<noteq> 0" using assms linked_nonnull [of R "gc_head st" as a] by (simp add: gc_inv_def)
  moreover have "field rc_of st a = Inr (R a)"
    using assms(1,2) rcs_field [of self C st as R a] by (simp add: gc_inv_def)
  moreover obtain s where "upd_rc a ?g st = Inr s" "gc_inv self C s as (R(a := ?g (R a)))"
    by (rule gc_inv_upd [OF assms(1,2), of ?g]) simp_all
  ultimately show thesis
    using that assms(1,3) by (cases "rc_child_count (R a) < MAX_RC_CHILDREN")
      (simp_all add: owned_rc_register_child_def)
qed

text \<open>A number of clones, a number of drops.\<close>

definition clones :: "addr \<Rightarrow> nat \<Rightarrow> 'x gc_rt_scheme \<Rightarrow> failure + 'x gc_rt_scheme" where
  "clones a n = foldE (\<lambda>_ st. bindE (owned_rc_clone a st) (\<lambda>(_, st). Inr st)) [0..<n]"

definition drops :: "tid \<Rightarrow> addr \<Rightarrow> nat \<Rightarrow> 'x gc_rt_scheme \<Rightarrow> failure + 'x gc_rt_scheme" where
  "drops self a n = foldE (\<lambda>_. owned_rc_drop self a) [0..<n]"

lemma clones_rep:
  assumes "gc_inv self C st as R" and "a \<in> set as"
  shows "\<exists>st'. clones a n st = Inr st' \<and>
    gc_inv self C st' as (R(a := (R a)\<lparr>rc_ref_count := rc_ref_count (R a) + of_nat n\<rparr>))"
proof (induction n)
  case 0
  then show ?case using assms(1) by (simp add: clones_def)
next
  case (Suc n)
  then obtain s where s: "clones a n st = Inr s"
    "gc_inv self C s as (R(a := (R a)\<lparr>rc_ref_count := rc_ref_count (R a) + of_nat n\<rparr>))" by blast
  obtain s' where s': "owned_rc_clone a s = Inr (a, s')"
    "gc_inv self C s' as (R(a := (R a)\<lparr>rc_ref_count := rc_ref_count (R a) + of_nat n + 1\<rparr>))"
    by (rule owned_rc_clone_rep [OF s(2) assms(2)]) simp
  have "clones a (Suc n) st = Inr s'" using s(1) s'(1) by (simp add: clones_def foldE_append)
  moreover have "rc_ref_count (R a) + of_nat (Suc n) = rc_ref_count (R a) + of_nat n + 1" by simp
  ultimately show ?case using s'(2) by (simp only: simp_thms ex_simps) blast
qed

lemma drops_rep:
  assumes "gc_inv self C st as R" and "a \<in> set as" and "n < unat (rc_ref_count (R a))"
  shows "\<exists>st'. drops self a n st = Inr st' \<and>
    gc_inv self C st' as (R(a := (R a)\<lparr>rc_ref_count := rc_ref_count (R a) - of_nat n\<rparr>))"
  using assms(3)
proof (induction n)
  case 0
  then show ?case using assms(1) by (simp add: drops_def)
next
  case (Suc n)
  then obtain s where s: "drops self a n st = Inr s"
    "gc_inv self C s as (R(a := (R a)\<lparr>rc_ref_count := rc_ref_count (R a) - of_nat n\<rparr>))"
    using Suc_lessD by blast
  have n: "unat (of_nat n :: size_t) = n"
    using Suc.prems unat_lt_2p64 [of "rc_ref_count (R a)"] by (intro unat_of_nat_lt) simp
  have "1 < unat (rc_ref_count (R a) - of_nat n)"
    using Suc.prems n by (simp add: unat_sub word_le_nat_alt)
  with owned_rc_drop_more [OF s(2) assms(2)] obtain s' where s': "owned_rc_drop self a s = Inr s'"
    "gc_inv self C s' as (R(a := (R a)\<lparr>rc_ref_count := rc_ref_count (R a) - of_nat n - 1\<rparr>))" by auto
  have "drops self a (Suc n) st = Inr s'" using s(1) s'(1) by (simp add: drops_def foldE_append)
  moreover have "rc_ref_count (R a) - of_nat (Suc n) = rc_ref_count (R a) - of_nat n - 1" by simp
  ultimately show ?case using s'(2) by (simp only: simp_thms ex_simps) blast
qed

lemma drops_add: "drops self a (m + n) st = bindE (drops self a m st) (drops self a n)"
proof (induction n)
  case 0
  show ?case by (cases "drops self a m st") (simp_all add: drops_def)
next
  case (Suc n)
  have S: "drops self a (Suc k) t = bindE (drops self a k t) (owned_rc_drop self a)" for k t
  proof (cases "drops self a k t")
    case (Inr u)
    then show ?thesis by (cases "owned_rc_drop self a u") (simp_all add: drops_def foldE_append)
  qed (simp add: drops_def foldE_append)
  show ?case by (cases "drops self a m st") (simp_all add: S Suc)
qed

text \<open>C19: Reference counting: after \<open>n\<close> clones of a wrapper whose count is 1, the wrapper and the object it guards
  survive the first \<open>n\<close> drops unchanged and disappear at the next one, which takes the wrapper out of
  the collector's list; every other object and the other wrappers stay.  The bound on \<open>n\<close> is the range of the
  counter.
\<close>

theorem rc_clones_balance:
  assumes "gc_inv self C st (pre @ a # zs) R" and "rc_ref_count (R a) = 1"
    and "guards self C (pre @ a # zs) (rc_ptr (R a))" and "n + 1 < 2 ^ 64"
  shows "(\<forall>k \<le> n. \<exists>st'. bindE (clones a n st) (drops self a k) = Inr st' \<and>
      gc_inv self C st' (pre @ a # zs) (R(a := (R a)\<lparr>rc_ref_count := of_nat (n - k) + 1\<rparr>)) \<and>
      owned_rc_get a st' = Inr (rc_ptr (R a))) \<and>
    (\<exists>st' R'. bindE (clones a n st) (drops self a (n + 1)) = Inr st' \<and>
      gc_inv self (C(a := None, rc_ptr (R a) := None)) st' (pre @ zs) R' \<and>
      (\<forall>b. b \<noteq> a \<longrightarrow> R' b = (R b)\<lparr>rc_gc_next := rc_gc_next (R' b)\<rparr>))"
proof -
  let ?as = "pre @ a # zs"
  have a: "a \<in> set ?as" by simp
  from clones_rep [OF assms(1) a, of n] obtain s where s: "clones a n st = Inr s"
    "gc_inv self C s ?as (R(a := (R a)\<lparr>rc_ref_count := 1 + of_nat n\<rparr>))" using assms(2) by auto
  have u: "unat (1 + of_nat n :: size_t) = n + 1"
    using unat_of_nat_lt [of "n + 1"] assms(4) by (simp add: add.commute)
  have first: "\<exists>st'. drops self a k s = Inr st' \<and>
      gc_inv self C st' ?as (R(a := (R a)\<lparr>rc_ref_count := of_nat (n - k) + 1\<rparr>))" if "k \<le> n" for k
    using drops_rep [OF s(2) a, of k] u that by (simp add: of_nat_diff algebra_simps)
  moreover have "owned_rc_get a st' = Inr (rc_ptr (R a))"
    if "gc_inv self C st' ?as (R(a := (R a)\<lparr>rc_ref_count := c\<rparr>))" for st' c
    using that rcs_field [of self C st' ?as _ a] linked_nonnull [of _ "gc_head st'" ?as a]
    by (fastforce simp: gc_inv_def owned_rc_get_def)
  moreover obtain t where t: "drops self a n s = Inr t"
    "gc_inv self C t ?as (R(a := (R a)\<lparr>rc_ref_count := 1\<rparr>))" using first [of n] by auto
  from owned_rc_drop_last [OF t(2)] assms(3) obtain t' where t': "owned_rc_drop self a t = Inr t'"
    "gc_inv self (C(a := None, rc_ptr (R a) := None)) t' (pre @ zs)
       (relink pre a (R(a := (R a)\<lparr>rc_ref_count := 0\<rparr>)))" by auto
  have "drops self a (n + 1) s = Inr t'" using t(1) t'(1) drops_add [of self a n 1 s] by (simp add: drops_def)
  moreover have "relink pre a (R(a := (R a)\<lparr>rc_ref_count := 0\<rparr>)) b =
      (R b)\<lparr>rc_gc_next := rc_gc_next (relink pre a (R(a := (R a)\<lparr>rc_ref_count := 0\<rparr>)) b)\<rparr>" if "b \<noteq> a" for b
    using that by (simp add: relink_def)
  ultimately show ?thesis using s(1) t'(2) unfolding s(1) bindE_simps by blast
qed

subsection \<open>A concrete list\<close>

definition gc_start :: gc_rt where
  "gc_start = rt.extend roomy_start (gc_rt.fields 0)"

lemma gc_start_inv: "gc_inv self (\<lambda>q. None) gc_start [] R"
proof -
  have "rt_wf gc_start"
    using roomy_start_wf by (auto simp: gc_start_def rt.defs gc_rt.defs rt_wf_def rt_inv_def rt_rep_def ring_of_def)
  moreover have "cell_at gc_start q = None" for q
    by (simp add: gc_start_def rt.defs gc_rt.defs roomy_start_def cell_at_def live_def obj_at_def rt_init_def)
  moreover have "gc_head gc_start = 0" by (simp add: gc_start_def rt.defs gc_rt.defs)
  ultimately show ?thesis by (simp add: gc_inv_def rcs_def)
qed

lemma gc_start_new:
  obtains st :: gc_rt and r where "owned_rc_new 2 0 gc_start = Inr (0x1050, st)"
    and "gc_inv 2 (\<lambda>q. None) st [0x1050] (\<lambda>_. r)"
    and "rc_ptr r = 0" and "rc_ref_count r = 1" and "rc_child_count r = 0"
    and "length (rc_children r) = MAX_RC_CHILDREN"
proof -
  have ev: "\<exists>st. owned_rc_new 2 0 gc_start = Inr (0x1050, st)"
    by (simp add: owned_rc_new_def register_in_gc_def upd_rc_def gc_start_def rt.defs gc_rt.defs
        roomy_start_def rt_eval field_def)
  have g: "guards 2 (\<lambda>q. None) [] 0" by (simp add: guards_def)
  from owned_rc_new_rep [OF gc_start_inv g, of "\<lambda>_. undefined"] ev
  obtain st r where *: "owned_rc_new 2 0 gc_start = Inr (0x1050, st)"
    "gc_inv 2 (\<lambda>q. None) st [0x1050] ((\<lambda>_. undefined)(0x1050 := r))"
    "rc_ptr r = 0" "rc_ref_count r = 1" "rc_child_count r = 0" "length (rc_children r) = MAX_RC_CHILDREN"
    by auto
  from *(2) have "gc_inv 2 (\<lambda>q. None) st [0x1050] (\<lambda>_. r)" by (simp add: gc_inv_def rcs_def)
  with that * show thesis by blast
qed

theorem rc_clones_balance_witness:
  "\<exists>st st' R. owned_rc_new 2 0 gc_start = Inr (0x1050, st) \<and>
    bindE (clones 0x1050 3 st) (drops 2 0x1050 4) = Inr st' \<and> gc_inv 2 (\<lambda>q. None) st' [] R"
proof -
  obtain st :: gc_rt and r where st: "owned_rc_new 2 0 gc_start = Inr (0x1050, st)"
    "gc_inv 2 (\<lambda>q. None) st ([] @ 0x1050 # []) (\<lambda>_. r)" "rc_ptr r = 0" "rc_ref_count r = 1"
    by (rule gc_start_new) simp
  have h: "rc_ref_count r = 1" "(3 :: nat) + 1 < 2 ^ 64"
    "guards 2 (\<lambda>q. None) ([] @ 0x1050 # []) (rc_ptr r)"
    using st by (simp_all add: guards_def)
  have c: "(\<lambda>q. None)(0x1050 := None, rc_ptr r := None) = (\<lambda>q. None)"
    by (simp add: fun_eq_iff)
  from rc_clones_balance [OF st(2) h(1,3,2)] obtain st' R' where
    "bindE (clones 0x1050 3 st) (drops 2 0x1050 (3 + 1)) = Inr st'" "gc_inv 2 (\<lambda>q. None) st' ([] @ []) R'"
    unfolding c by blast
  then show ?thesis using st(1) by auto
qed

end
