(* ===== verification/Collect.thy ===== *)
theory Collect
  imports RefCount
begin

text \<open>
  The cycle collector of \<open>src/ownedc_rc.c\<close>: trial deletion over the list of wrappers, marking from the
  wrappers that keep an outside reference, and the sweep that frees every wrapper left unmarked.
\<close>

definition child_at :: "owned_rc \<Rightarrow> nat \<Rightarrow> failure + addr" where
  "child_at r i =
     (if i < length (rc_children r) then Inr (rc_children r ! i)
      else Inl (Undefined ''children[] out of bounds''))"

text \<open>A loop \<open>while (curr) { body; curr = curr->gc_next; }\<close>.\<close>

partial_function (option) gc_walk ::
    "(addr \<Rightarrow> 'x gc_rt_scheme \<Rightarrow> failure + 'x gc_rt_scheme) \<Rightarrow> addr \<Rightarrow> 'x gc_rt_scheme \<Rightarrow>
     (failure + 'x gc_rt_scheme) option" where
  "gc_walk body cur st =
     (if cur = 0 then Some (Inr st)
      else case bindE (body cur st) (\<lambda>st. bindE (field rc_of st cur) (\<lambda>r. Inr (rc_gc_next r, st))) of
          Inl e \<Rightarrow> Some (Inl e)
        | Inr p \<Rightarrow> gc_walk body (fst p) (snd p))"

definition gc_copy_count :: "addr \<Rightarrow> 'x gc_rt_scheme \<Rightarrow> failure + 'x gc_rt_scheme" where
  "gc_copy_count rc = upd_rc rc (\<lambda>r. r\<lparr>rc_gc_ref := rc_ref_count r, rc_gc_marked := False\<rparr>)"

definition gc_uncount_child :: "addr \<Rightarrow> nat \<Rightarrow> 'x gc_rt_scheme \<Rightarrow> failure + 'x gc_rt_scheme" where
  "gc_uncount_child rc i st =
     bindE (field rc_of st rc) (\<lambda>r. bindE (child_at r i) (\<lambda>c. bindE (field rc_of st c) (\<lambda>rc'.
       if rc_gc_ref rc' > 0 then upd_rc c (\<lambda>r. r\<lparr>rc_gc_ref := rc_gc_ref r - 1\<rparr>) st else Inr st)))"

definition gc_uncount :: "addr \<Rightarrow> 'x gc_rt_scheme \<Rightarrow> failure + 'x gc_rt_scheme" where
  "gc_uncount rc st =
     bindE (field rc_of st rc) (\<lambda>r. foldE (gc_uncount_child rc) [0..<rc_child_count r] st)"

text \<open>The loop of \<open>mark_alive\<close> over the children, from \<open>i\<close> on, with the recursive calls in it.\<close>

partial_function (option) mark_children ::
    "addr \<Rightarrow> nat \<Rightarrow> 'x gc_rt_scheme \<Rightarrow> (failure + 'x gc_rt_scheme) option" where
  "mark_children rc i st =
     (case field rc_of st rc of Inl e \<Rightarrow> Some (Inl e)
      | Inr r \<Rightarrow>
          if i < rc_child_count r
          then (case bindE (child_at r i) (\<lambda>c. bindE (field rc_of st c) (\<lambda>rc'. Inr (c, rc'))) of
                  Inl e \<Rightarrow> Some (Inl e)
                | Inr q \<Rightarrow>
                    Option.bind
                      (if rc_gc_marked (snd q) then Some (Inr st)
                       else mark_children (fst q) 0 (put (fst q) (Rc ((snd q)\<lparr>rc_gc_marked := True\<rparr>)) st))
                      (\<lambda>res. case res of Inl e \<Rightarrow> Some (Inl e)
                             | Inr st' \<Rightarrow> mark_children rc (i + 1) st'))
          else Some (Inr st))"

definition mark_alive :: "addr \<Rightarrow> 'x gc_rt_scheme \<Rightarrow> failure + 'x gc_rt_scheme" where
  "mark_alive rc st =
     bindE (field rc_of st rc) (\<lambda>r.
       if rc_gc_marked r then Inr st
       else bindE (upd_rc rc (\<lambda>r. r\<lparr>rc_gc_marked := True\<rparr>) st) (\<lambda>st.
            returned (mark_children rc 0 st)))"

definition gc_mark_root :: "addr \<Rightarrow> 'x gc_rt_scheme \<Rightarrow> failure + 'x gc_rt_scheme" where
  "gc_mark_root rc st =
     bindE (field rc_of st rc) (\<lambda>r. if rc_gc_ref r > 0 then mark_alive rc st else Inr st)"

text \<open>The last loop reads the link before the wrapper may go away.\<close>

definition gc_sweep_one ::
    "tid \<Rightarrow> addr \<Rightarrow> 32 word \<Rightarrow> 'x gc_rt_scheme \<Rightarrow> failure + (32 word \<times> 'x gc_rt_scheme)" where
  "gc_sweep_one self rc n st =
     bindE (field rc_of st rc) (\<lambda>r.
       if rc_gc_marked r then Inr (n, st)
       else bindE (upd_rc rc (\<lambda>r. r\<lparr>rc_ref_count := 1\<rparr>) st) (\<lambda>st.
            bindE (owned_rc_drop self rc st) (\<lambda>st. Inr (n + 1, st))))"

partial_function (option) gc_sweep ::
    "tid \<Rightarrow> addr \<Rightarrow> 32 word \<Rightarrow> 'x gc_rt_scheme \<Rightarrow> (failure + (32 word \<times> 'x gc_rt_scheme)) option" where
  "gc_sweep self cur n st =
     (if cur = 0 then Some (Inr (n, st))
      else case bindE (field rc_of st cur) (\<lambda>r.
                bindE (gc_sweep_one self cur n st) (\<lambda>p. Inr (rc_gc_next r, p))) of
          Inl e \<Rightarrow> Some (Inl e)
        | Inr q \<Rightarrow> gc_sweep self (fst q) (fst (snd q)) (snd (snd q)))"

definition owned_rc_collect_cycles ::
    "tid \<Rightarrow> 'x gc_rt_scheme \<Rightarrow> failure + (32 word \<times> 'x gc_rt_scheme)" where
  "owned_rc_collect_cycles self st =
     bindE (returned (gc_walk gc_copy_count (gc_head st) st)) (\<lambda>st.
     bindE (returned (gc_walk gc_uncount (gc_head st) st)) (\<lambda>st.
     bindE (returned (gc_walk gc_mark_root (gc_head st) st)) (\<lambda>st.
     returned (gc_sweep self (gc_head st) 0 st))))"

subsection \<open>The graph of wrappers\<close>

definition kids :: "(addr \<Rightarrow> owned_rc) \<Rightarrow> addr \<Rightarrow> addr list" where
  "kids R a = take (rc_child_count (R a)) (rc_children (R a))"

text \<open>How many registered references to \<open>b\<close> the wrappers \<open>as\<close> hold.\<close>

definition inner_refs :: "(addr \<Rightarrow> owned_rc) \<Rightarrow> addr list \<Rightarrow> addr \<Rightarrow> nat" where
  "inner_refs R as b = count_list (concat (map (kids R) as)) b"

text \<open>
  A wrapper is alive when it has a reference that no wrapper accounts for, or when it is a child of a
  wrapper that is alive.
\<close>

inductive alive :: "(addr \<Rightarrow> owned_rc) \<Rightarrow> addr list \<Rightarrow> addr \<Rightarrow> bool" for R as where
  root: "a \<in> set as \<Longrightarrow> inner_refs R as a < unat (rc_ref_count (R a)) \<Longrightarrow> alive R as a"
| child: "alive R as p \<Longrightarrow> c \<in> set (kids R p) \<Longrightarrow> alive R as c"

definition rc_graph :: "tid \<Rightarrow> cells \<Rightarrow> addr list \<Rightarrow> (addr \<Rightarrow> owned_rc) \<Rightarrow> bool" where
  "rc_graph self C as R \<longleftrightarrow>
     (\<forall>a \<in> set as. length (rc_children (R a)) = MAX_RC_CHILDREN \<and>
        rc_child_count (R a) \<le> MAX_RC_CHILDREN \<and> set (kids R a) \<subseteq> set as \<and>
        guards self C as (rc_ptr (R a))) \<and>
     (\<forall>a \<in> set as. \<forall>b \<in> set as. rc_ptr (R a) = rc_ptr (R b) \<and> rc_ptr (R a) \<noteq> 0 \<longrightarrow> a = b)"

text \<open>The two fields the collector works with.\<close>

definition coloured :: "(addr \<Rightarrow> owned_rc) \<Rightarrow> (addr \<Rightarrow> size_t) \<Rightarrow> addr set \<Rightarrow> addr \<Rightarrow> owned_rc" where
  "coloured R f M a = (R a)\<lparr>rc_gc_ref := f a, rc_gc_marked := a \<in> M\<rparr>"

lemma coloured_fields [simp]:
  "rc_ptr (coloured R f M a) = rc_ptr (R a)" "rc_ref_count (coloured R f M a) = rc_ref_count (R a)"
  "rc_children (coloured R f M a) = rc_children (R a)"
  "rc_child_count (coloured R f M a) = rc_child_count (R a)"
  "rc_gc_next (coloured R f M a) = rc_gc_next (R a)"
  "rc_gc_ref (coloured R f M a) = f a" "rc_gc_marked (coloured R f M a) \<longleftrightarrow> a \<in> M"
  "kids (coloured R f M) = kids R"
  by (simp_all add: coloured_def kids_def fun_eq_iff)

lemma coloured_start: "coloured R (\<lambda>a. rc_gc_ref (R a)) {a. rc_gc_marked (R a)} = R"
  by (simp add: coloured_def fun_eq_iff)

lemma coloured_upd:
  "(coloured R f M)(a := (coloured R f M a)\<lparr>rc_gc_ref := v, rc_gc_marked := False\<rparr>) =
   coloured R (f(a := v)) (M - {a})"
  "(coloured R f M)(a := (coloured R f M a)\<lparr>rc_gc_ref := v\<rparr>) = coloured R (f(a := v)) M"
  "(coloured R f M)(a := (coloured R f M a)\<lparr>rc_gc_marked := True\<rparr>) = coloured R f (insert a M)"
  by (auto simp: coloured_def fun_eq_iff)

lemma gc_inv_field: "gc_inv self C st as R \<Longrightarrow> a \<in> set as \<Longrightarrow> field rc_of st a = Inr (R a)"
  by (rule rcs_field) (auto simp: gc_inv_def)

text \<open>A walk over the list, by an invariant that follows the wrappers visited.\<close>

lemma gc_walk_from:
  assumes step: "\<And>xs a ys f M st. \<lbrakk>as = xs @ a # ys; I xs f M; gc_inv self C st as (coloured R f M)\<rbrakk> \<Longrightarrow>
      \<exists>st' f' M'. body a st = Inr st' \<and> gc_inv self C st' as (coloured R f' M') \<and> I (xs @ [a]) f' M'"
    and "as = xs @ ys" and "I xs f M" and "gc_inv self C st as (coloured R f M)" and "linked R x ys"
  shows "\<exists>st' f' M'. gc_walk body x st = Some (Inr st') \<and> gc_inv self C st' as (coloured R f' M') \<and> I as f' M'"
  using assms(2-)
proof (induction ys arbitrary: x xs f M st)
  case Nil
  then show ?case by (subst gc_walk.simps) auto
next
  case (Cons a ys)
  have x: "x = a" "a \<noteq> 0" "linked R (rc_gc_next (R a)) ys" using Cons.prems(4) by simp_all
  from step [OF Cons.prems(1-3)] obtain s f' M' where
    s: "body a st = Inr s" "gc_inv self C s as (coloured R f' M')" "I (xs @ [a]) f' M'" by blast
  have "field rc_of s a = Inr (coloured R f' M' a)"
    using gc_inv_field [OF s(2)] Cons.prems(1) by simp
  then have "gc_walk body x st = gc_walk body (rc_gc_next (R a)) s"
    using s(1) x by (subst gc_walk.simps) simp
  with Cons.IH [OF _ s(3,2) x(3)] Cons.prems(1) show ?case by simp
qed

lemma gc_walk_rep:
  assumes "\<And>xs a ys f M st. \<lbrakk>as = xs @ a # ys; I xs f M; gc_inv self C st as (coloured R f M)\<rbrakk> \<Longrightarrow>
      \<exists>st' f' M'. body a st = Inr st' \<and> gc_inv self C st' as (coloured R f' M') \<and> I (xs @ [a]) f' M'"
    and "I [] f M" and "gc_inv self C st as (coloured R f M)"
  obtains st' f' M' where "gc_walk body (gc_head st) st = Some (Inr st')"
    and "gc_inv self C st' as (coloured R f' M')" and "I as f' M'"
proof -
  have "linked (coloured R f M) (gc_head st) as" using assms(3) by (simp add: gc_inv_def)
  then have l: "linked R (gc_head st) as" by (rule linked_cong) simp
  have "as = [] @ as" by simp
  have "\<exists>st' f' M'. gc_walk body (gc_head st) st = Some (Inr st') \<and>
      gc_inv self C st' as (coloured R f' M') \<and> I as f' M'"
    by (rule gc_walk_from [where I = I, OF _ \<open>as = [] @ as\<close> assms(2,3) l]) (rule assms(1))
  with that show thesis by blast
qed

subsection \<open>Trial deletion\<close>

lemma gc_copy_phase:
  assumes "gc_inv self C st as R"
  obtains st' f M where "gc_walk gc_copy_count (gc_head st) st = Some (Inr st')"
    and "gc_inv self C st' as (coloured R f M)"
    and "\<forall>a \<in> set as. f a = rc_ref_count (R a) \<and> a \<notin> M"
proof -
  have c: "gc_inv self C st as (coloured R (\<lambda>a. rc_gc_ref (R a)) {a. rc_gc_marked (R a)})"
    using assms by (simp add: coloured_start)
  show thesis
  proof (rule gc_walk_rep [where body = gc_copy_count and R = R and
        I = "\<lambda>xs f M. \<forall>a \<in> set xs. f a = rc_ref_count (R a) \<and> a \<notin> M", OF _ _ c])
    fix xs a ys f M and s :: "'a gc_rt_scheme"
    assume a: "as = xs @ a # ys" "\<forall>a \<in> set xs. f a = rc_ref_count (R a) \<and> a \<notin> M"
      "gc_inv self C s as (coloured R f M)"
    let ?g = "\<lambda>r. r\<lparr>rc_gc_ref := rc_ref_count r, rc_gc_marked := False\<rparr>"
    have "a \<in> set as" using a(1) by simp
    then obtain s' where "upd_rc a ?g s = Inr s'"
      "gc_inv self C s' as ((coloured R f M)(a := ?g (coloured R f M a)))"
      by (rule gc_inv_upd [OF a(3), of _ ?g]) simp_all
    then show "\<exists>s' f' M'. gc_copy_count a s = Inr s' \<and> gc_inv self C s' as (coloured R f' M') \<and>
        (\<forall>a \<in> set (xs @ [a]). f' a = rc_ref_count (R a) \<and> a \<notin> M')"
      using a(2) by (intro exI [of _ s'] exI [of _ "f(a := rc_ref_count (R a))"] exI [of _ "M - {a}"])
        (auto simp: gc_copy_count_def coloured_upd)
  qed (use that in auto)
qed

lemma gc_uncount_child_rep:
  assumes "gc_inv self C st as (coloured R f M)" and "a \<in> set as" and "rc_graph self C as R"
    and "i < rc_child_count (R a)"
  obtains st' f' where "gc_uncount_child a i st = Inr st'"
    and "gc_inv self C st' as (coloured R f' M)"
    and "\<forall>b. unat (f' b) = unat (f b) - (if b = kids R a ! i then 1 else 0)"
proof -
  let ?c = "kids R a ! i"
  have len: "length (rc_children (R a)) = MAX_RC_CHILDREN" "rc_child_count (R a) \<le> MAX_RC_CHILDREN"
    "set (kids R a) \<subseteq> set as" using assms(2,3) by (auto simp: rc_graph_def)
  have "?c \<in> set (kids R a)" using assms(4) len by (intro nth_mem) (simp add: kids_def)
  then have c: "?c \<in> set as" using len(3) by blast
  have ch: "child_at (coloured R f M a) i = Inr ?c" using assms(4) len by (simp add: child_at_def kids_def)
  note fld = gc_inv_field [OF assms(1)]
  let ?g = "\<lambda>r. r\<lparr>rc_gc_ref := rc_gc_ref r - 1\<rparr>"
  obtain s where s: "upd_rc ?c ?g st = Inr s"
    "gc_inv self C s as ((coloured R f M)(?c := ?g (coloured R f M ?c)))"
    by (rule gc_inv_upd [OF assms(1) c, of ?g]) simp_all
  show thesis
  proof (cases "f ?c > 0")
    case True
    then have "unat (f ?c - 1) = unat (f ?c) - 1"
      by (metis unat_minus_one word_not_simps(1))
    then show ?thesis
      using that [of s "f(?c := f ?c - 1)"] s True fld [OF assms(2)] fld [OF c] ch
      by (simp add: gc_uncount_child_def coloured_upd)
  next
    case False
    then have "unat (f ?c) = 0" by (simp add: word_less_nat_alt)
    then show ?thesis
      using that [of st f] assms(1) False fld [OF assms(2)] fld [OF c] ch
      by (simp add: gc_uncount_child_def)
  qed
qed

lemma gc_uncount_loop:
  assumes "gc_inv self C st as (coloured R f M)" and "a \<in> set as" and "rc_graph self C as R"
    and "n \<le> rc_child_count (R a)"
  shows "\<exists>st' f'. foldE (gc_uncount_child a) [0..<n] st = Inr st' \<and>
    gc_inv self C st' as (coloured R f' M) \<and>
    (\<forall>b. unat (f' b) = unat (f b) - count_list (take n (kids R a)) b)"
  using assms(4)
proof (induction n)
  case 0
  then show ?case using assms(1) by (intro exI [of _ st] exI [of _ f]) simp
next
  case (Suc n)
  then obtain s f' where s: "foldE (gc_uncount_child a) [0..<n] st = Inr s"
    "gc_inv self C s as (coloured R f' M)"
    "\<forall>b. unat (f' b) = unat (f b) - count_list (take n (kids R a)) b" by auto
  have n: "n < rc_child_count (R a)" using Suc.prems by simp
  obtain s' f'' where s': "gc_uncount_child a n s = Inr s'" "gc_inv self C s' as (coloured R f'' M)"
    "\<forall>b. unat (f'' b) = unat (f' b) - (if b = kids R a ! n then 1 else 0)"
    by (rule gc_uncount_child_rep [OF s(2) assms(2,3) n])
  have "rc_child_count (R a) \<le> length (rc_children (R a))" using assms(2,3) by (auto simp: rc_graph_def)
  then have "n < length (kids R a)" using n by (simp add: kids_def)
  then have "take (Suc n) (kids R a) = take n (kids R a) @ [kids R a ! n]" by (rule take_Suc_conv_app_nth)
  with s s' show ?case
    by (intro exI [of _ s'] exI [of _ f'']) (simp add: foldE_append)
qed

lemma gc_uncount_phase:
  assumes "gc_inv self C st as (coloured R f M)" and "rc_graph self C as R"
  obtains st' f' where "gc_walk gc_uncount (gc_head st) st = Some (Inr st')"
    and "gc_inv self C st' as (coloured R f' M)"
    and "\<forall>b. unat (f' b) = unat (f b) - inner_refs R as b"
proof (rule gc_walk_rep [where body = gc_uncount and R = R and
    I = "\<lambda>xs f' M'. M' = M \<and> (\<forall>b. unat (f' b) = unat (f b) - inner_refs R xs b)", OF _ _ assms(1)])
  fix xs a ys f0 M0 and s :: "'a gc_rt_scheme"
  assume a: "as = xs @ a # ys" "M0 = M \<and> (\<forall>b. unat (f0 b) = unat (f b) - inner_refs R xs b)"
    "gc_inv self C s as (coloured R f0 M0)"
  then have "a \<in> set as" by simp
  from gc_uncount_loop [OF a(3) this assms(2) order_refl] obtain s' f' where
    s': "foldE (gc_uncount_child a) [0..<rc_child_count (R a)] s = Inr s'"
    "gc_inv self C s' as (coloured R f' M0)"
    "\<forall>b. unat (f' b) = unat (f0 b) - count_list (take (rc_child_count (R a)) (kids R a)) b" by blast
  have "take (rc_child_count (R a)) (kids R a) = kids R a" by (simp add: kids_def)
  with s' a gc_inv_field [OF a(3) \<open>a \<in> set as\<close>]
  show "\<exists>s' f' M'. gc_uncount a s = Inr s' \<and> gc_inv self C s' as (coloured R f' M') \<and>
      M' = M \<and> (\<forall>b. unat (f' b) = unat (f b) - inner_refs R (xs @ [a]) b)"
    by (intro exI [of _ s'] exI [of _ f'] exI [of _ M]) (simp add: gc_uncount_def inner_refs_def)
qed (use that in \<open>auto simp: inner_refs_def\<close>)

subsection \<open>Marking\<close>

inductive_set below :: "(addr \<Rightarrow> owned_rc) \<Rightarrow> addr set \<Rightarrow> addr set" for R A where
  start: "a \<in> A \<Longrightarrow> a \<in> below R A"
| step: "p \<in> below R A \<Longrightarrow> c \<in> set (kids R p) \<Longrightarrow> c \<in> below R A"

lemma below_mono: "A \<subseteq> below R B \<Longrightarrow> below R A \<subseteq> below R B"
proof
  fix x assume A: "A \<subseteq> below R B" and "x \<in> below R A"
  from this(2) show "x \<in> below R B" by (induction) (use A in \<open>auto intro: below.step\<close>)
qed

text \<open>
  Marking from the \<open>i\<close>-th child on ends; it marks these children, only what lies below them, and with every
  wrapper it marks all the children of that wrapper.
\<close>

definition marks_to :: "(addr \<Rightarrow> owned_rc) \<Rightarrow> addr set \<Rightarrow> addr set \<Rightarrow> addr set \<Rightarrow> bool" where
  "marks_to R A M M' \<longleftrightarrow> M \<subseteq> M' \<and> A \<subseteq> M' \<and> M' \<subseteq> M \<union> below R A \<and>
     (\<forall>x \<in> M' - M. set (kids R x) \<subseteq> M')"

lemma marks_to_trans:
  assumes "marks_to R A M M1" and "marks_to R B M1 M2"
  shows "marks_to R (A \<union> B) M M2"
proof -
  have "below R A \<subseteq> below R (A \<union> B)" "below R B \<subseteq> below R (A \<union> B)"
    by (rule below_mono; auto intro: below.start)+
  then show ?thesis using assms unfolding marks_to_def by blast
qed

lemma marks_to_enter:
  assumes "marks_to R (set (kids R c)) (insert c M) M'" and "c \<notin> M"
  shows "marks_to R {c} M M'"
proof -
  have c: "c \<in> below R {c}" by (rule below.start) simp
  have "below R (set (kids R c)) \<subseteq> below R {c}"
    by (rule below_mono) (auto intro: below.step [OF c])
  with assms c show ?thesis unfolding marks_to_def by blast
qed

lemma mark_children_rep:
  assumes "rc_graph self C as R" and "gc_inv self C st as (coloured R f M)" and "a \<in> set as"
  shows "\<exists>st' M'. mark_children a i st = Some (Inr st') \<and> gc_inv self C st' as (coloured R f M') \<and>
    marks_to R (set (drop i (kids R a))) M M'"
  using assms(2,3)
proof (induction "(card (set as - M), rc_child_count (R a) - i)" arbitrary: a i M st
    rule: wf_induct_rule [OF wf_lex_prod [OF wf_measure wf_measure], of id id])
  case (1 a i M st)
  note fld = gc_inv_field [OF 1(2)]
  have len: "length (rc_children (R a)) = MAX_RC_CHILDREN" "rc_child_count (R a) \<le> MAX_RC_CHILDREN"
    "set (kids R a) \<subseteq> set as" using assms(1) 1(3) by (auto simp: rc_graph_def)
  then have lk: "length (kids R a) = rc_child_count (R a)" by (simp add: kids_def)
  show ?case
  proof (cases "i < rc_child_count (R a)")
    case False
    then have "mark_children a i st = Some (Inr st)"
      using fld [OF 1(3)] by (subst mark_children.simps) simp
    with False lk 1(2) show ?thesis by (auto simp: marks_to_def)
  next
    case True
    let ?c = "kids R a ! i"
    have cs: "drop i (kids R a) = ?c # drop (Suc i) (kids R a)" using True lk by (simp add: Cons_nth_drop_Suc)
    have c: "?c \<in> set as" using True lk len(3) nth_mem [of i "kids R a"] by auto
    have ch: "child_at (coloured R f M a) i = Inr ?c" using True len by (simp add: child_at_def kids_def)
    define visit where "visit = (if ?c \<in> M then Some (Inr st) else
       mark_children ?c 0 (put ?c (Rc ((coloured R f M ?c)\<lparr>rc_gc_marked := True\<rparr>)) st))"
    have unfold: "mark_children a i st = Option.bind visit (\<lambda>res. case res of Inl e \<Rightarrow> Some (Inl e)
        | Inr st' \<Rightarrow> mark_children a (i + 1) st')"
      using True ch fld [OF 1(3)] fld [OF c] unfolding visit_def by (subst mark_children.simps) simp
    have "\<exists>s M1. visit = Some (Inr s) \<and> gc_inv self C s as (coloured R f M1) \<and> marks_to R {?c} M M1"
    proof (cases "?c \<in> M")
      case True
      then show ?thesis using 1(2) by (intro exI [of _ st] exI [of _ M]) (auto simp: visit_def marks_to_def)
    next
      case False
      let ?g = "\<lambda>r. r\<lparr>rc_gc_marked := True\<rparr>"
      have i: "gc_inv self C (put ?c (Rc (?g (coloured R f M ?c))) st) as (coloured R f (insert ?c M))"
        using gc_inv_upd [OF 1(2) c, of ?g] rcs_upd(1) [of self C st as "coloured R f M", OF _ c, of ?g] 1(2)
        by (auto simp: gc_inv_def coloured_upd)
      have "card (set as - insert ?c M) < card (set as - M)"
        using c False by (intro psubset_card_mono) auto
      then have "((card (set as - insert ?c M), rc_child_count (R ?c) - 0),
          card (set as - M), rc_child_count (R a) - i) \<in> measure id <*lex*> measure id" by simp
      from 1(1) [OF this i c] obtain s M1 where
        "mark_children ?c 0 (put ?c (Rc (?g (coloured R f M ?c))) st) = Some (Inr s)"
        "gc_inv self C s as (coloured R f M1)" "marks_to R (set (kids R ?c)) (insert ?c M) M1" by auto
      then show ?thesis using False marks_to_enter [OF _ False] by (auto simp: visit_def)
    qed
    then obtain s M1 where s: "visit = Some (Inr s)" "gc_inv self C s as (coloured R f M1)"
      "marks_to R {?c} M M1" by blast
    have "card (set as - M1) \<le> card (set as - M)"
      using s(3) by (intro card_mono) (auto simp: marks_to_def)
    then have "((card (set as - M1), rc_child_count (R a) - (i + 1)),
        card (set as - M), rc_child_count (R a) - i) \<in> measure id <*lex*> measure id"
      using True by auto
    from 1(1) [OF this s(2) 1(3)] obtain s' M2 where
      "mark_children a (i + 1) s = Some (Inr s')" "gc_inv self C s' as (coloured R f M2)"
      "marks_to R (set (drop (i + 1) (kids R a))) M1 M2" by blast
    with marks_to_trans [OF s(3)] unfold s(1) cs show ?thesis by auto
  qed
qed

lemma mark_alive_rep:
  assumes "rc_graph self C as R" and "gc_inv self C st as (coloured R f M)" and "a \<in> set as"
  shows "\<exists>st' M'. mark_alive a st = Inr st' \<and> gc_inv self C st' as (coloured R f M') \<and>
    marks_to R {a} M M'"
proof (cases "a \<in> M")
  case True
  with gc_inv_field [OF assms(2,3)] assms(2) show ?thesis
    by (intro exI [of _ st] exI [of _ M]) (auto simp: mark_alive_def marks_to_def)
next
  case False
  let ?g = "\<lambda>r. r\<lparr>rc_gc_marked := True\<rparr>"
  obtain s where s: "upd_rc a ?g st = Inr s"
    "gc_inv self C s as ((coloured R f M)(a := ?g (coloured R f M a)))"
    by (rule gc_inv_upd [OF assms(2,3), of ?g]) simp_all
  then have i: "gc_inv self C s as (coloured R f (insert a M))" by (simp add: coloured_upd)
  from mark_children_rep [OF assms(1) i assms(3), of 0] obtain s' M' where
    "mark_children a 0 s = Some (Inr s')" "gc_inv self C s' as (coloured R f M')"
    "marks_to R (set (kids R a)) (insert a M) M'" by auto
  with False s(1) gc_inv_field [OF assms(2,3)] marks_to_enter [OF _ False] show ?thesis
    by (intro exI [of _ s'] exI [of _ M']) (simp add: mark_alive_def returned_def)
qed

lemma gc_mark_phase:
  assumes "rc_graph self C as R" and "gc_inv self C st as (coloured R f M)" and "M \<inter> set as = {}"
    and "\<And>b. b \<in> set as \<Longrightarrow> f b > 0 \<longleftrightarrow> inner_refs R as b < unat (rc_ref_count (R b))"
  obtains st' M' where "gc_walk gc_mark_root (gc_head st) st = Some (Inr st')"
    and "gc_inv self C st' as (coloured R f M')" and "\<forall>a \<in> set as. a \<in> M' \<longleftrightarrow> alive R as a"
proof -
  let ?roots = "\<lambda>xs. {a \<in> set xs. f a > 0}"
  obtain st' f' M' where r: "gc_walk gc_mark_root (gc_head st) st = Some (Inr st')"
    "gc_inv self C st' as (coloured R f' M')" "f' = f \<and> marks_to R (?roots as) M M'"
  proof (rule gc_walk_rep [where body = gc_mark_root and R = R and
        I = "\<lambda>xs f' M'. f' = f \<and> marks_to R (?roots xs) M M'", OF _ _ assms(2)])
    fix xs a ys f0 M0 and s :: "'a gc_rt_scheme"
    assume a: "as = xs @ a # ys" "f0 = f \<and> marks_to R (?roots xs) M M0"
      "gc_inv self C s as (coloured R f0 M0)"
    then have i: "a \<in> set as" "gc_inv self C s as (coloured R f M0)" by simp_all
    from mark_alive_rep [OF assms(1) i(2,1)] obtain s' M' where
      s': "mark_alive a s = Inr s'" "gc_inv self C s' as (coloured R f M')" "marks_to R {a} M0 M'" by blast
    show "\<exists>s' f' M'. gc_mark_root a s = Inr s' \<and> gc_inv self C s' as (coloured R f' M') \<and>
        f' = f \<and> marks_to R (?roots (xs @ [a])) M M'"
    proof (cases "f a > 0")
      case True
      have "?roots (xs @ [a]) = ?roots xs \<union> {a}" using True by auto
      with True s' a marks_to_trans [of R "?roots xs" M M0 "{a}" M'] gc_inv_field [OF i(2,1)]
      show ?thesis by (intro exI [of _ s'] exI [of _ f] exI [of _ M']) (simp add: gc_mark_root_def)
    next
      case False
      then have "?roots (xs @ [a]) = ?roots xs" by auto
      with False a gc_inv_field [OF i(2,1)] i(2)
      show ?thesis by (intro exI [of _ s] exI [of _ f] exI [of _ M0]) (simp add: gc_mark_root_def)
    qed
  qed (auto simp: marks_to_def)
  have alive: "a \<in> M'" if "alive R as a" for a
    using that
  proof induction
    case (root a)
    then show ?case using r(3) assms(4) by (auto simp: marks_to_def)
  next
    case (child p c)
    moreover have "p \<in> set as" using child(1) by (induction) (use assms(1) in \<open>auto simp: rc_graph_def\<close>)
    ultimately show ?case using r(3) assms(3) by (auto simp: marks_to_def)
  qed
  have "alive R as a" if "a \<in> below R (?roots as)" for a
    using that by induction (use assms(4) in \<open>auto intro: alive.intros\<close>)
  then have "a \<in> M' \<longleftrightarrow> alive R as a" if "a \<in> set as" for a
    using that alive r(3) assms(3) by (auto simp: marks_to_def)
  with that r show thesis by blast
qed

subsection \<open>Sweeping\<close>

definition without :: "addr set \<Rightarrow> cells \<Rightarrow> cells" where
  "without D C q = (if q \<in> D then None else C q)"

text \<open>A wrapper and the object it guards.\<close>

definition holdings :: "(addr \<Rightarrow> owned_rc) \<Rightarrow> addr set \<Rightarrow> addr set" where
  "holdings R D = D \<union> (\<lambda>a. rc_ptr (R a)) ` D"

lemma gc_sweep_drop:
  assumes "gc_inv self C st (keep @ a # zs) R" and "\<not> rc_gc_marked (R a)"
    and "guards self C (keep @ a # zs) (rc_ptr (R a))"
  obtains st' R' where "gc_sweep_one self a n st = Inr (n + 1, st')"
    and "gc_inv self (C(a := None, rc_ptr (R a) := None)) st' (keep @ zs) R'"
    and "\<And>b. b \<noteq> a \<Longrightarrow> R' b = (R b)\<lparr>rc_gc_next := rc_gc_next (R' b)\<rparr>"
    and "\<And>b. b \<notin> set keep \<Longrightarrow> b \<noteq> a \<Longrightarrow> R' b = R b"
proof -
  let ?g = "\<lambda>r. r\<lparr>rc_ref_count := 1\<rparr>"
  have a: "a \<in> set (keep @ a # zs)" by simp
  obtain s1 where s1: "upd_rc a ?g st = Inr s1" "gc_inv self C s1 (keep @ a # zs) (R(a := ?g (R a)))"
    by (rule gc_inv_upd [OF assms(1) a, of ?g]) simp_all
  let ?R = "R(a := ?g (R a))"
  have "rc_ref_count (?R a) = 1" "guards self C (keep @ a # zs) (rc_ptr (?R a))" using assms(3) by simp_all
  from owned_rc_drop_last [OF s1(2) this] obtain s2 where s2: "owned_rc_drop self a s1 = Inr s2"
    "gc_inv self (C(a := None, rc_ptr (?R a) := None)) s2 (keep @ zs)
       (relink keep a (?R(a := (?R a)\<lparr>rc_ref_count := 0\<rparr>)))" by blast
  show thesis
    by (rule that [OF _ s2(2) [simplified]])
      (use gc_inv_field [OF assms(1) a] assms(2) s1(1) s2(1) in \<open>auto simp: gc_sweep_one_def relink_def\<close>)
qed

lemma gc_sweep_rep:
  assumes "gc_inv self C st (keep @ todo) R" and "linked R x todo"
    and "\<And>a. a \<in> set todo \<Longrightarrow> guards self C (keep @ todo) (rc_ptr (R a))"
    and "\<And>a b. \<lbrakk>a \<in> set todo; b \<in> set todo; rc_ptr (R a) = rc_ptr (R b); rc_ptr (R a) \<noteq> 0\<rbrakk> \<Longrightarrow> a = b"
  defines "gone \<equiv> filter (\<lambda>a. \<not> rc_gc_marked (R a)) todo"
  shows "\<exists>st' R'. gc_sweep self x n st = Some (Inr (n + of_nat (length gone), st')) \<and>
    gc_inv self (without (holdings R (set gone)) C) st' (keep @ filter (\<lambda>a. rc_gc_marked (R a)) todo) R' \<and>
    (\<forall>b. b \<notin> set gone \<longrightarrow> R' b = (R b)\<lparr>rc_gc_next := rc_gc_next (R' b)\<rparr>)"
  using assms(1-4) unfolding gone_def
proof (induction todo arbitrary: x n C R st keep)
  case Nil
  have "without (holdings R {}) C = C" by (simp add: fun_eq_iff without_def holdings_def)
  with Nil show ?case by (intro exI [of _ st] exI [of _ R]) (simp add: gc_sweep.simps)
next
  case (Cons a zs)
  have x: "x = a" "a \<noteq> 0" "linked R (rc_gc_next (R a)) zs" using Cons.prems(2) by simp_all
  have d: "a \<notin> set keep" "a \<notin> set zs" "set keep \<inter> set zs = {}"
    using Cons.prems(1) by (auto simp: gc_inv_def)
  have f: "field rc_of st a = Inr (R a)" using gc_inv_field [OF Cons.prems(1)] by simp
  show ?case
  proof (cases "rc_gc_marked (R a)")
    case True
    have "gc_sweep self x n st = gc_sweep self (rc_gc_next (R a)) n st"
      using True f x by (subst gc_sweep.simps) (simp add: gc_sweep_one_def)
    moreover have "gc_inv self C st ((keep @ [a]) @ zs) R" using Cons.prems(1) by simp
    note Cons.IH [OF this x(3), of n]
    moreover have "guards self C ((keep @ [a]) @ zs) (rc_ptr (R b))" if "b \<in> set zs" for b
      using Cons.prems(3) [of b] that by simp
    moreover have "b = c" if "b \<in> set zs" "c \<in> set zs" "rc_ptr (R b) = rc_ptr (R c)" "rc_ptr (R b) \<noteq> 0" for b c
      using Cons.prems(4) [of b c] that by simp
    ultimately show ?thesis using True by simp
  next
    case False
    let ?p = "rc_ptr (R a)" and ?C = "C(a := None, rc_ptr (R a) := None)"
    obtain s R' where s: "gc_sweep_one self a n st = Inr (n + 1, s)" "gc_inv self ?C s (keep @ zs) R'"
      "\<And>b. b \<noteq> a \<Longrightarrow> R' b = (R b)\<lparr>rc_gc_next := rc_gc_next (R' b)\<rparr>"
      "\<And>b. b \<notin> set keep \<Longrightarrow> b \<noteq> a \<Longrightarrow> R' b = R b"
      by (rule gc_sweep_drop [OF Cons.prems(1) False, of n]) (use Cons.prems(3) in auto)
    have zs: "R' b = R b" if b: "b \<in> set zs" for b
    proof (rule s(4))
      show "b \<notin> set keep" using b d(3) by blast
      show "b \<noteq> a" using b d(2) by blast
    qed
    have l: "linked R' (rc_gc_next (R a)) zs" by (rule linked_cong [OF x(3)]) (simp add: zs)
    have g: "guards self ?C (keep @ zs) (rc_ptr (R' b))" if b: "b \<in> set zs" for b
    proof (cases "rc_ptr (R b) = 0")
      case True
      then show ?thesis using zs b by (simp add: guards_def)
    next
      case False
      then have "rc_ptr (R b) \<noteq> ?p" using Cons.prems(4) [of b a] b d by auto
      then show ?thesis using Cons.prems(3) [of b] b zs False by (auto simp: guards_def)
    qed
    have inj: "b = c" if "b \<in> set zs" "c \<in> set zs" "rc_ptr (R' b) = rc_ptr (R' c)" "rc_ptr (R' b) \<noteq> 0" for b c
      using that zs Cons.prems(4) [of b c] by simp
    have filter_eq: "filter (\<lambda>b. rc_gc_marked (R' b)) zs = filter (\<lambda>b. rc_gc_marked (R b)) zs"
      "filter (\<lambda>b. \<not> rc_gc_marked (R' b)) zs = filter (\<lambda>b. \<not> rc_gc_marked (R b)) zs"
      by (rule filter_cong; simp add: zs)+
    let ?gone = "filter (\<lambda>b. \<not> rc_gc_marked (R b)) zs"
    obtain s' R'' where s': "gc_sweep self (rc_gc_next (R a)) (n + 1) s =
        Some (Inr (n + 1 + of_nat (length ?gone), s'))"
      "gc_inv self (without (holdings R' (set ?gone)) ?C) s' (keep @ filter (\<lambda>a. rc_gc_marked (R a)) zs) R''"
      "\<forall>b. b \<notin> set ?gone \<longrightarrow> R'' b = (R' b)\<lparr>rc_gc_next := rc_gc_next (R'' b)\<rparr>"
      using Cons.IH [OF s(2) l g inj, of "n + 1"] unfolding filter_eq by blast
    have "holdings R' (set ?gone) = holdings R (set ?gone)" using zs by (auto simp: holdings_def)
    then have c: "without (holdings R' (set ?gone)) ?C = without (holdings R (set (a # ?gone))) C"
      by (auto simp: fun_eq_iff without_def holdings_def)
    have "gc_sweep self x n st = gc_sweep self (rc_gc_next (R a)) (n + 1) s"
      using s(1) f x by (subst gc_sweep.simps) simp
    moreover have "R'' b = (R b)\<lparr>rc_gc_next := rc_gc_next (R'' b)\<rparr>" if "b \<noteq> a" "b \<notin> set ?gone" for b
    proof -
      have "R'' b = (R' b)\<lparr>rc_gc_next := rc_gc_next (R'' b)\<rparr>" using s'(3) that(2) by blast
      also have "\<dots> = ((R b)\<lparr>rc_gc_next := rc_gc_next (R' b)\<rparr>)\<lparr>rc_gc_next := rc_gc_next (R'' b)\<rparr>"
        using s(3) [OF that(1)] by metis
      finally show ?thesis by simp
    qed
    ultimately show ?thesis using s'(1,2) c False
      by (intro exI [of _ s'] exI [of _ R'']) (simp add: add.assoc)
  qed
qed

subsection \<open>The collector\<close>

lemma alive_in: "rc_graph self C as R \<Longrightarrow> alive R as a \<Longrightarrow> a \<in> set as"
  by (rotate_tac, induction rule: alive.induct) (auto simp: rc_graph_def)

lemma rc_graph_keep:
  assumes "rc_graph self C as R" and D: "\<And>b. b \<in> D \<longleftrightarrow> b \<in> set as \<and> \<not> alive R as b"
    and same: "\<And>b. b \<notin> D \<Longrightarrow> rc_ptr (R' b) = rc_ptr (R b) \<and> rc_children (R' b) = rc_children (R b) \<and>
      rc_child_count (R' b) = rc_child_count (R b)"
  shows "rc_graph self (without (holdings R D) C) (filter (alive R as) as) R'"
proof -
  have ptr: "rc_ptr (R a) \<notin> holdings R D" if "a \<in> set as" "alive R as a" "rc_ptr (R a) \<noteq> 0" for a
  proof -
    have "rc_ptr (R a) \<notin> set as" using assms(1) that by (auto simp: rc_graph_def guards_def)
    moreover have "a = b" if "b \<in> D" "rc_ptr (R a) = rc_ptr (R b)" for b
      using assms(1) that D \<open>a \<in> set as\<close> \<open>rc_ptr (R a) \<noteq> 0\<close> unfolding rc_graph_def by blast
    ultimately show ?thesis using D that unfolding holdings_def by blast
  qed
  have a: "length (rc_children (R' a)) = MAX_RC_CHILDREN \<and> rc_child_count (R' a) \<le> MAX_RC_CHILDREN \<and>
      set (kids R' a) \<subseteq> set (filter (alive R as) as) \<and>
      guards self (without (holdings R D) C) (filter (alive R as) as) (rc_ptr (R' a))"
    if "a \<in> set as" "alive R as a" for a
  proof -
    have s: "rc_ptr (R' a) = rc_ptr (R a)" "rc_children (R' a) = rc_children (R a)"
      "rc_child_count (R' a) = rc_child_count (R a)" "kids R' a = kids R a"
      using same [of a] D that by (auto simp: kids_def)
    have "set (kids R a) \<subseteq> set (filter (alive R as) as)"
      using alive.child [OF that(2)] alive_in [OF assms(1)] by auto
    moreover have "guards self (without (holdings R D) C) (filter (alive R as) as) (rc_ptr (R a))"
      using assms(1) that ptr [OF that] by (auto simp: rc_graph_def guards_def without_def)
    ultimately show ?thesis using assms(1) that(1) s by (auto simp: rc_graph_def)
  qed
  have "a = b" if "a \<in> set (filter (alive R as) as)" "b \<in> set (filter (alive R as) as)"
    "rc_ptr (R' a) = rc_ptr (R' b)" "rc_ptr (R' a) \<noteq> 0" for a b
    using assms(1) that same [of a] same [of b] D unfolding rc_graph_def by auto
  with a show ?thesis unfolding rc_graph_def by auto
qed

lemma collect_cycles_rep:
  assumes "gc_inv self C st as R" and "rc_graph self C as R"
  shows "\<exists>st' R'.
    owned_rc_collect_cycles self st = Inr (of_nat (length (filter (\<lambda>a. \<not> alive R as a) as)), st') \<and>
    gc_inv self (without (holdings R {a \<in> set as. \<not> alive R as a}) C) st' (filter (alive R as) as) R' \<and>
    rc_graph self (without (holdings R {a \<in> set as. \<not> alive R as a}) C) (filter (alive R as) as) R' \<and>
    (\<forall>a. alive R as a \<longrightarrow> rc_ptr (R' a) = rc_ptr (R a) \<and> rc_ref_count (R' a) = rc_ref_count (R a) \<and>
       kids R' a = kids R a)"
proof -
  let ?D = "{a \<in> set as. \<not> alive R as a}"
  obtain s1 f1 M1 where s1: "gc_walk gc_copy_count (gc_head st) st = Some (Inr s1)"
    "gc_inv self C s1 as (coloured R f1 M1)" "\<forall>a \<in> set as. f1 a = rc_ref_count (R a) \<and> a \<notin> M1"
    by (rule gc_copy_phase [OF assms(1)])
  obtain s2 f2 where s2: "gc_walk gc_uncount (gc_head s1) s1 = Some (Inr s2)"
    "gc_inv self C s2 as (coloured R f2 M1)" "\<forall>b. unat (f2 b) = unat (f1 b) - inner_refs R as b"
    by (rule gc_uncount_phase [OF s1(2) assms(2)])
  have m: "M1 \<inter> set as = {}" using s1(3) by blast
  have root: "f2 b > 0 \<longleftrightarrow> inner_refs R as b < unat (rc_ref_count (R b))" if "b \<in> set as" for b
    using s1(3) s2(3) that by (simp add: word_less_nat_alt)
  obtain s3 M3 where s3: "gc_walk gc_mark_root (gc_head s2) s2 = Some (Inr s3)"
    "gc_inv self C s3 as (coloured R f2 M3)" "\<forall>a \<in> set as. a \<in> M3 \<longleftrightarrow> alive R as a"
    by (rule gc_mark_phase [OF assms(2) s2(2) m root])
  let ?R = "coloured R f2 M3"
  have l: "linked ?R (gc_head s3) as" using s3(2) by (simp add: gc_inv_def)
  have i3: "gc_inv self C s3 ([] @ as) ?R" using s3(2) by simp
  have g: "guards self C ([] @ as) (rc_ptr (?R a))" if "a \<in> set as" for a
    using assms(2) that by (simp add: rc_graph_def)
  have inj: "a = b" if "a \<in> set as" "b \<in> set as" "rc_ptr (?R a) = rc_ptr (?R b)" "rc_ptr (?R a) \<noteq> 0" for a b
    using assms(2) that unfolding rc_graph_def by (metis coloured_fields(1))
  have gone: "filter (\<lambda>a. \<not> rc_gc_marked (?R a)) as = filter (\<lambda>a. \<not> alive R as a) as"
    and kept: "filter (\<lambda>a. rc_gc_marked (?R a)) as = filter (alive R as) as"
    using s3(3) by (auto intro: filter_cong)
  have "holdings ?R (set (filter (\<lambda>a. \<not> alive R as a) as)) = holdings R ?D" by (simp add: holdings_def)
  then obtain s4 R' where s4: "gc_sweep self (gc_head s3) 0 s3 =
      Some (Inr (of_nat (length (filter (\<lambda>a. \<not> alive R as a) as)), s4))"
    "gc_inv self (without (holdings R ?D) C) s4 (filter (alive R as) as) R'"
    "\<forall>b. b \<notin> ?D \<longrightarrow> R' b = (?R b)\<lparr>rc_gc_next := rc_gc_next (R' b)\<rparr>"
    using gc_sweep_rep [OF i3 l g inj, of 0] unfolding gone kept by auto
  have same: "rc_ptr (R' b) = rc_ptr (R b) \<and> rc_children (R' b) = rc_children (R b) \<and>
      rc_child_count (R' b) = rc_child_count (R b) \<and> rc_ref_count (R' b) = rc_ref_count (R b)" if "b \<notin> ?D" for b
  proof -
    have "R' b = (?R b)\<lparr>rc_gc_next := rc_gc_next (R' b)\<rparr>" using s4(3) that by blast
    then show ?thesis
      by (metis coloured_fields(1-4) owned_rc.select_convs(1-4) owned_rc.surjective owned_rc.update_convs(7))
  qed
  have graph: "rc_graph self (without (holdings R ?D) C) (filter (alive R as) as) R'"
    by (rule rc_graph_keep [OF assms(2)]) (use same in auto)
  have "owned_rc_collect_cycles self st = Inr (of_nat (length (filter (\<lambda>a. \<not> alive R as a) as)), s4)"
    using s1(1) s2(1) s3(1) s4(1) by (simp add: owned_rc_collect_cycles_def returned_def)
  moreover have "rc_ptr (R' a) = rc_ptr (R a) \<and> rc_ref_count (R' a) = rc_ref_count (R a) \<and> kids R' a = kids R a"
    if "alive R as a" for a using same [of a] that by (simp add: kids_def)
  ultimately show ?thesis using s4(2) graph by blast
qed

text \<open>C18: \<open>owned_rc_collect_cycles\<close> is exact on every graph of wrappers: it ends, frees the wrappers that no chain of
  registered references from an outside reference reaches, together with the objects they guard, and returns
  their number; every other object, and every wrapper that is alive with its object, count and
  children, stays, and the survivors are again a well-formed graph in a well-formed list.
\<close>

theorem collect_cycles_exact:
  assumes "gc_inv self C st as R" and "rc_graph self C as R"
  shows "\<exists>st' R'.
    owned_rc_collect_cycles self st = Inr (of_nat (length (filter (\<lambda>a. \<not> alive R as a) as)), st') \<and>
    gc_inv self (without (holdings R {a \<in> set as. \<not> alive R as a}) C) st' (filter (alive R as) as) R' \<and>
    rc_graph self (without (holdings R {a \<in> set as. \<not> alive R as a}) C) (filter (alive R as) as) R' \<and>
    (\<forall>a. alive R as a \<longrightarrow> rc_ptr (R' a) = rc_ptr (R a) \<and> rc_ref_count (R' a) = rc_ref_count (R a) \<and>
       kids R' a = kids R a)"
  using collect_cycles_rep [OF assms] .

text \<open>Two wrappers that refer to each other and to nothing else.\<close>

lemma two_cycle:
  obtains s1 s2 s3 s4 :: gc_rt and R where "owned_rc_new 2 0 gc_start = Inr (0x1050, s1)"
    and "owned_rc_new 2 0 s1 = Inr (0x2050, s2)" and "owned_rc_register_child 0x1050 0x2050 s2 = Inr s3"
    and "owned_rc_register_child 0x2050 0x1050 s3 = Inr s4"
    and "gc_inv 2 (\<lambda>q. None) s4 [0x2050, 0x1050] R" and "rc_graph 2 (\<lambda>q. None) [0x2050, 0x1050] R"
    and "kids R 0x1050 = [0x2050]" and "kids R 0x2050 = [0x1050]"
    and "rc_ref_count (R 0x1050) = 1" and "rc_ref_count (R 0x2050) = 1"
proof -
  obtain s1 :: gc_rt and r where s1: "owned_rc_new 2 0 gc_start = Inr (0x1050, s1)"
    "gc_inv 2 (\<lambda>q. None) s1 [0x1050] (\<lambda>_. r)" "rc_ptr r = 0" "rc_ref_count r = 1" "rc_child_count r = 0"
    "length (rc_children r) = MAX_RC_CHILDREN" by (rule gc_start_new)
  have ev: "bindE (owned_rc_new 2 0 gc_start) (\<lambda>(_, s). bindE (owned_rc_new 2 0 s) (\<lambda>(b, _). Inr b)) = Inr 0x2050"
    by (simp add: owned_rc_new_def register_in_gc_def upd_rc_def gc_start_def rt.defs gc_rt.defs
        roomy_start_def rt_eval field_def)
  have g: "guards 2 (\<lambda>q. None) [0x1050] 0" by (simp add: guards_def)
  from owned_rc_new_rep [OF s1(2) g] ev s1(1) obtain s2 r2 where s2: "owned_rc_new 2 0 s1 = Inr (0x2050, s2)"
    "gc_inv 2 (\<lambda>q. None) s2 [0x2050, 0x1050] ((\<lambda>_. r)(0x2050 := r2))" "rc_ptr r2 = 0" "rc_ref_count r2 = 1"
    "rc_child_count r2 = 0" "length (rc_children r2) = MAX_RC_CHILDREN" by auto
  have in1: "0x1050 \<in> set [0x2050 :: addr, 0x1050]" and in2: "0x2050 \<in> set [0x2050 :: addr, 0x1050]"
    and nz: "(0x2050 :: addr) \<noteq> 0" "(0x1050 :: addr) \<noteq> 0" by simp_all
  define R1 :: "addr \<Rightarrow> owned_rc" where "R1 =
    (\<lambda>_. r)(0x2050 := r2, 0x1050 := r\<lparr>rc_children := (rc_children r)[0 := 0x2050], rc_child_count := 1\<rparr>)"
  obtain s3 where s3: "owned_rc_register_child 0x1050 0x2050 s2 = Inr s3"
    "gc_inv 2 (\<lambda>q. None) s3 [0x2050, 0x1050] R1"
    by (rule owned_rc_register_child_rep [OF s2(2) in1 nz(1)])
      (use s1(5) in \<open>simp_all add: MAX_RC_CHILDREN_def R1_def\<close>)
  define R2 where "R2 = R1(0x2050 := r2\<lparr>rc_children := (rc_children r2)[0 := 0x1050], rc_child_count := 1\<rparr>)"
  obtain s4 where s4: "owned_rc_register_child 0x2050 0x1050 s3 = Inr s4"
    "gc_inv 2 (\<lambda>q. None) s4 [0x2050, 0x1050] R2"
    by (rule owned_rc_register_child_rep [OF s3(2) in2 nz(2)])
      (use s2(5) in \<open>simp_all add: MAX_RC_CHILDREN_def R2_def R1_def\<close>)
  have k: "take (Suc 0) (xs[0 := y]) = [y]" if "length xs = MAX_RC_CHILDREN" for xs :: "addr list" and y
    using that by (cases xs) (simp_all add: MAX_RC_CHILDREN_def)
  have ks: "kids R2 0x1050 = [0x2050]" "kids R2 0x2050 = [0x1050]"
    using s1(6) s2(6) k by (simp_all add: kids_def R2_def R1_def)
  have "rc_graph 2 (\<lambda>q. None) [0x2050, 0x1050] R2"
    using s1 s2 ks by (simp add: rc_graph_def guards_def R2_def R1_def MAX_RC_CHILDREN_def)
  then show thesis
    using that [OF s1(1) s2(1) s3(1) s4] ks s1(4) s2(4) by (simp add: R2_def R1_def)
qed

theorem collect_cycles_exact_witness:
  "\<exists>s1 s2 s3 s4 st' R. owned_rc_new 2 0 gc_start = Inr (0x1050, s1) \<and> owned_rc_new 2 0 s1 = Inr (0x2050, s2) \<and>
    owned_rc_register_child 0x1050 0x2050 s2 = Inr s3 \<and> owned_rc_register_child 0x2050 0x1050 s3 = Inr s4 \<and>
    owned_rc_collect_cycles 2 s4 = Inr (2, st') \<and> gc_inv 2 (\<lambda>q. None) st' [] R"
proof -
  obtain s1 s2 s3 s4 R where s: "owned_rc_new 2 0 gc_start = Inr (0x1050, s1)"
    "owned_rc_new 2 0 s1 = Inr (0x2050, s2)" "owned_rc_register_child 0x1050 0x2050 s2 = Inr s3"
    "owned_rc_register_child 0x2050 0x1050 s3 = Inr s4"
    "gc_inv 2 (\<lambda>q. None) s4 [0x2050, 0x1050] R" "rc_graph 2 (\<lambda>q. None) [0x2050, 0x1050] R"
    "kids R 0x1050 = [0x2050]" "kids R 0x2050 = [0x1050]"
    "rc_ref_count (R 0x1050) = 1" "rc_ref_count (R 0x2050) = 1" by (rule two_cycle)
  have dead: "\<not> alive R [0x2050, 0x1050] a" for a
  proof
    assume "alive R [0x2050, 0x1050] a"
    then show False by induction (use s(7-10) in \<open>auto simp: inner_refs_def\<close>)
  qed
  have "without D (\<lambda>q. None) = (\<lambda>q. None)" for D by (simp add: without_def fun_eq_iff)
  with collect_cycles_exact [OF s(5,6)] obtain st' R' where
    "owned_rc_collect_cycles 2 s4 = Inr (2, st')" "gc_inv 2 (\<lambda>q. None) st' [] R'" by (auto simp: dead)
  with s(1-4) show ?thesis by blast
qed

text \<open>A child that is dropped stays in the \<open>children\<close> array of its parent, so that the next collection reads, and
  counts down a field of, a wrapper that was freed.
\<close>

theorem collect_after_child_drop:
  "bindE (owned_rc_new 2 0 gc_start) (\<lambda>(a, s). bindE (owned_rc_new 2 0 s) (\<lambda>(b, s).
     bindE (owned_rc_register_child a b s) (\<lambda>s. bindE (owned_rc_drop 2 b s) (\<lambda>s.
     owned_rc_collect_cycles 2 s)))) = Inl (Undefined ''not an object of this type'')"
  by (simp add: owned_rc_new_def register_in_gc_def upd_rc_def gc_start_def rt.defs gc_rt.defs
      owned_rc_register_child_def owned_rc_drop_def unregister_from_gc_def unregister_loop.simps read_link_def
      write_link_def owned_rc_collect_cycles_def gc_walk.simps gc_copy_count_def gc_uncount_def
      gc_uncount_child_def child_at_def MAX_RC_CHILDREN_def returned_def
      roomy_start_def rt_eval field_def)

end
