(* ===== verification/Handover.thy ===== *)
theory Handover
  imports Heap
begin

text \<open>
  Handing objects from thread to thread: what sharing, claiming and borrowing do to the map of live objects, and the
  contract of a channel that moves the ownership of the objects sent through it (\<open>handover_channel\<close>).  The
  abstract state is the queue of objects in transit and the owner of every object outside it.
\<close>

subsection \<open>Sharing, claiming and borrowing\<close>

lemma cell_at_hdr_set:
  assumes "get_meta st p = Inr (Some m)" and "cell_at st p = Some (bare m, x)" and "m_state m' \<noteq> FREED"
    and "m_magic m' = m_magic m"
  shows "cell_at (hdr_set p m' st) = (cell_at st)(p \<mapsto> (bare m', x))"
proof
  fix q
  have p: "p \<noteq> 0" "hdr st (meta_of p) = Some m" "m_magic m = OWNEDC_MAGIC"
    using assms(1) by (simp_all add: get_meta_Some)
  show "cell_at (hdr_set p m' st) q = ((cell_at st)(p \<mapsto> (bare m', x))) q"
  proof (cases "q = p")
    case True
    have "get_meta (hdr_set p m' st) p = Inr (Some m')"
      using p assms(4) by (simp add: get_meta_Some hdr_set_def)
    from cell_at_get_meta [OF this assms(3)] assms(2) True show ?thesis by (simp add: cell_at_Some)
  next
    case False
    then have "meta_of q \<noteq> meta_of p" by (simp add: meta_of_def)
    then have "obj_at (hdr_set p m' st) q = obj_at st q" by (simp add: obj_at_def hdr_set_def)
    then show ?thesis using False by (simp add: cell_at_def live_def)
  qed
qed

lemma bare_changed: "bare (shared_meta m) = shared_meta (bare m)" "bare (claimed_meta t m) = claimed_meta t (bare m)"
  by (cases m; simp add: shared_meta_def claimed_meta_def bare_def)+

lemma ownership_share_cells:
  assumes "rt_wf st" and "cell_at st p = Some (m, x)" and "m_owner_thread m = self"
  obtains st' where "ownership_share self p st = Inr st'" and "rt_wf st'" and "rt.more st' = rt.more st"
    and "cell_at st' = (cell_at st)(p \<mapsto> (shared_meta m, x))"
proof -
  obtain k where k: "get_meta st p = Inr (Some k)" "m = bare k" "m_state k \<noteq> FREED"
    using assms(2) by (rule cell_at_meta)
  have s: "ownership_share self p st = Inr (hdr_set p (shared_meta k) st)"
    using assms(3) k(2) by (simp add: ownership_share_tracked [OF k(1)] bare_def)
  have "live st p" using assms(2) by (auto simp: cell_at_def split: if_splits)
  then have "rt_wf (hdr_set p (shared_meta k) st)" using ownership_share_wf [OF assms(1) _ s] by simp
  moreover have "cell_at (hdr_set p (shared_meta k) st) = (cell_at st)(p \<mapsto> (bare (shared_meta k), x))"
    using assms(2) k by (intro cell_at_hdr_set) (simp_all add: shared_meta_def)
  ultimately show thesis using that [OF s] k(2) by (simp add: bare_changed)
qed

lemma ownership_claim_cells:
  assumes "rt_wf st" and "cell_at st p = Some (m, x)"
  obtains st' where "ownership_claim self p st = Inr st'" and "rt_wf st'" and "rt.more st' = rt.more st"
    and "cell_at st' = (cell_at st)(p \<mapsto> (claimed_meta self m, x))"
proof -
  obtain k where k: "get_meta st p = Inr (Some k)" "m = bare k" "m_state k \<noteq> FREED"
    using assms(2) by (rule cell_at_meta)
  note s = ownership_claim_tracked [OF k(1), of self]
  have "live st p" using assms(2) by (auto simp: cell_at_def split: if_splits)
  then have "rt_wf (hdr_set p (claimed_meta self k) st)" using ownership_claim_wf [OF assms(1) _ s] by simp
  moreover have "cell_at (hdr_set p (claimed_meta self k) st) = (cell_at st)(p \<mapsto> (bare (claimed_meta self k), x))"
    using assms(2) k by (intro cell_at_hdr_set) (simp_all add: claimed_meta_def)
  ultimately show thesis using that [OF s] k(2) by (simp add: bare_changed)
qed

lemma bare_borrowed: "bare (borrowed_meta m) = borrowed_meta (bare m)" "bare (released_meta m) = released_meta (bare m)"
  by (cases m; simp add: borrowed_meta_def released_meta_def bare_def)+

lemma ownership_borrow_cells:
  assumes "rt_wf st" and "cell_at st p = Some (m, x)" and "m_state m = SHARED \<or> m_owner_thread m = self"
    and "m_borrow_count m < INT_MAX"
  obtains st' where "ownership_borrow self p st = Inr st'" and "rt_wf st'" and "rt.more st' = rt.more st"
    and "cell_at st' = (cell_at st)(p \<mapsto> (borrowed_meta m, x))"
proof -
  obtain k where k: "get_meta st p = Inr (Some k)" "m = bare k" "m_state k \<noteq> FREED"
    using assms(2) by (rule cell_at_meta)
  have s: "ownership_borrow self p st = Inr (hdr_set p (borrowed_meta k) st)"
    using assms(3,4) k by (auto simp: ownership_borrow_tracked [OF k(1)])
  have "live st p" using assms(2) by (auto simp: cell_at_def split: if_splits)
  then have "rt_wf (hdr_set p (borrowed_meta k) st)" using ownership_borrow_wf [OF assms(1) s] by simp
  moreover have "cell_at (hdr_set p (borrowed_meta k) st) = (cell_at st)(p \<mapsto> (bare (borrowed_meta k), x))"
    using assms(2) k by (intro cell_at_hdr_set) (simp_all add: borrowed_meta_def)
  ultimately show thesis using that [OF s] k(2) by (simp add: bare_borrowed)
qed

lemma ownership_release_cells:
  assumes "rt_wf st" and "cell_at st p = Some (m, x)" and "m_borrow_count m > 0"
  obtains st' where "ownership_release p st = Inr st'" and "rt_wf st'" and "rt.more st' = rt.more st"
    and "cell_at st' = (cell_at st)(p \<mapsto> (released_meta m, x))"
proof -
  obtain k where k: "get_meta st p = Inr (Some k)" "m = bare k" "m_state k \<noteq> FREED"
    using assms(2) by (rule cell_at_meta)
  have s: "ownership_release p st = Inr (hdr_set p (released_meta k) st)"
    using assms(3) k by (auto simp: ownership_release_tracked [OF k(1)])
  then have "rt_wf (hdr_set p (released_meta k) st)" using ownership_release_wf [OF assms(1) s] by simp
  moreover have "cell_at (hdr_set p (released_meta k) st) = (cell_at st)(p \<mapsto> (bare (released_meta k), x))"
    using assms(2) k by (intro cell_at_hdr_set) (simp_all add: released_meta_def)
  ultimately show thesis using that [OF s] k(2) by (simp add: bare_borrowed)
qed

lemma free_ok_claimed [simp]: "free_ok self (claimed_meta self m) \<longleftrightarrow> \<not> m_borrow_count m > 0"
  by (simp add: free_ok_def claimed_meta_def)

subsection \<open>The contract of a channel\<close>

datatype chan_op = Send tid addr | Recv tid

record handover =
  in_transit :: "addr list"
  owned_by :: "addr \<Rightarrow> tid option"

text \<open>
  The owner of an object may send it; whoever receives gets the object that has waited longest and owns it.
  \<open>None\<close>: the sender does not own the object, or there is nothing to receive.
\<close>

fun hand :: "chan_op \<Rightarrow> handover \<Rightarrow> (addr list \<times> handover) option" where
  "hand (Send t p) a =
     (if owned_by a p = Some t
      then Some ([], \<lparr>in_transit = in_transit a @ [p], owned_by = (owned_by a)(p := None)\<rparr>) else None)"
| "hand (Recv t) a =
     (case in_transit a of [] \<Rightarrow> None
      | p # q \<Rightarrow> Some ([p], \<lparr>in_transit = q, owned_by = (owned_by a)(p \<mapsto> t)\<rparr>))"

fun hand_all :: "chan_op list \<Rightarrow> handover \<Rightarrow> (addr list \<times> handover) option" where
  "hand_all [] a = Some ([], a)"
| "hand_all (c # cs) a =
     (case hand c a of None \<Rightarrow> None
      | Some (ps, a) \<Rightarrow> (case hand_all cs a of None \<Rightarrow> None | Some (qs, a) \<Rightarrow> Some (ps @ qs, a)))"

fun sent :: "chan_op list \<Rightarrow> addr list" where
  "sent [] = []"
| "sent (Send t p # cs) = p # sent cs"
| "sent (Recv t # cs) = sent cs"

lemma hand_all_fifo: "hand_all cs a = Some (rs, a') \<Longrightarrow> in_transit a @ sent cs = rs @ in_transit a'"
proof (induction cs arbitrary: a rs)
  case Nil
  then show ?case by simp
next
  case (Cons c cs)
  then obtain ps b qs where "hand c a = Some (ps, b)" "hand_all cs b = Some (qs, a')" "rs = ps @ qs"
    by (auto split: option.splits)
  with Cons.IH [of b qs] show ?case by (cases c) (auto split: if_splits list.splits)
qed

text \<open>
  An implementation performs the steps of the contract, unless it runs out of memory, and makes a
  receiver wait when there is nothing to receive.
\<close>

locale handover_channel =
  fixes rep :: "handover \<Rightarrow> 's \<Rightarrow> bool"
    and send :: "tid \<Rightarrow> addr \<Rightarrow> 's \<Rightarrow> failure + 's"
    and recv :: "tid \<Rightarrow> 's \<Rightarrow> failure + (addr \<times> 's)"
    and nomem :: failure
  assumes send_law: "rep a s \<Longrightarrow> owned_by a p = Some t \<Longrightarrow> send t p s = Inl nomem \<or>
      (\<exists>s'. send t p s = Inr s' \<and>
         rep \<lparr>in_transit = in_transit a @ [p], owned_by = (owned_by a)(p := None)\<rparr> s')"
    and recv_law: "rep a s \<Longrightarrow> in_transit a = p # q \<Longrightarrow>
      \<exists>s'. recv t s = Inr (p, s') \<and> rep \<lparr>in_transit = q, owned_by = (owned_by a)(p \<mapsto> t)\<rparr> s'"
    and recv_empty: "rep a s \<Longrightarrow> in_transit a = [] \<Longrightarrow> recv t s = Inl Blocked"
begin

fun step :: "chan_op \<Rightarrow> 's \<Rightarrow> failure + (addr list \<times> 's)" where
  "step (Send t p) s = bindE (send t p s) (\<lambda>s. Inr ([], s))"
| "step (Recv t) s = bindE (recv t s) (\<lambda>(p, s). Inr ([p], s))"

fun steps :: "chan_op list \<Rightarrow> 's \<Rightarrow> failure + (addr list \<times> 's)" where
  "steps [] s = Inr ([], s)"
| "steps (c # cs) s =
     bindE (step c s) (\<lambda>(ps, s). bindE (steps cs s) (\<lambda>(qs, s). Inr (ps @ qs, s)))"

lemma step_hand:
  assumes "rep a s" and "hand c a = Some (ps, a')"
  shows "step c s = Inl nomem \<or> (\<exists>s'. step c s = Inr (ps, s') \<and> rep a' s')"
proof (cases c)
  case (Send t p)
  then have "owned_by a p = Some t" using assms(2) by (simp split: if_splits)
  from send_law [OF assms(1) this] Send assms(2) show ?thesis by (auto split: if_splits)
next
  case (Recv t)
  then obtain p q where q: "in_transit a = p # q" using assms(2) by (auto split: list.splits)
  from recv_law [OF assms(1) q, of t] Recv assms(2) q show ?thesis by auto
qed

lemma steps_hand:
  assumes "rep a s" and "hand_all cs a = Some (rs, a')"
  shows "steps cs s = Inl nomem \<or> (\<exists>s'. steps cs s = Inr (rs, s') \<and> rep a' s')"
  using assms
proof (induction cs arbitrary: a s rs)
  case Nil
  then show ?case by simp
next
  case (Cons c cs)
  then obtain ps b qs where b: "hand c a = Some (ps, b)" "hand_all cs b = Some (qs, a')" "rs = ps @ qs"
    by (auto split: option.splits)
  from step_hand [OF Cons.prems(1) b(1)] show ?case
  proof
    assume "step c s = Inl nomem"
    then show ?thesis by simp
  next
    assume "\<exists>s'. step c s = Inr (ps, s') \<and> rep b s'"
    then obtain s' where s': "step c s = Inr (ps, s')" "rep b s'" by blast
    from Cons.IH [OF s'(2) b(2)] s'(1) b(3) show ?thesis by auto
  qed
qed

end

end
