(* ===== verification/Channel.thy ===== *)
theory Channel
  imports Handover
begin

text \<open>
  The channel of \<open>src/ownedc_channel.c\<close>: a linked queue of nodes behind a lock.  A call runs while it holds the
  lock, so that a run of several threads is a sequence of calls; waiting on the condition variable with an
  empty queue is \<open>Blocked\<close>.  The channel satisfies the contract \<open>handover_channel\<close>.
\<close>

fun chan_of :: "payload \<Rightarrow> channel option" where
  "chan_of (Chan c) = Some c"
| "chan_of _ = None"

fun node_of :: "payload \<Rightarrow> channel_node option" where
  "node_of (ChNode n) = Some n"
| "node_of _ = None"

subsection \<open>The functions\<close>

definition ownedc_channel_create :: "tid \<Rightarrow> 'x rt_scheme \<Rightarrow> failure + (addr \<times> 'x rt_scheme)" where
  "ownedc_channel_create self st =
     bindE (owner_malloc self 104 st) (\<lambda>(ch, st).
       if ch = 0 then Inr (0, st)
       else bindE (write_struct ch (Chan \<lparr>ch_head = 0, ch_tail = 0\<rparr>) st) (\<lambda>st. Inr (ch, st)))"

definition channel_append :: "addr \<Rightarrow> addr \<Rightarrow> 'x rt_scheme \<Rightarrow> failure + 'x rt_scheme" where
  "channel_append ch node st =
     bindE (field chan_of st ch) (\<lambda>c.
       if ch_tail c \<noteq> 0
       then bindE (field node_of st (ch_tail c)) (\<lambda>n.
            bindE (write_struct (ch_tail c) (ChNode (n\<lparr>cn_next := node\<rparr>)) st) (\<lambda>st.
            write_struct ch (Chan (c\<lparr>ch_tail := node\<rparr>)) st))
       else write_struct ch (Chan (c\<lparr>ch_head := node, ch_tail := node\<rparr>)) st)"

definition ownedc_channel_send ::
    "tid \<Rightarrow> addr \<Rightarrow> addr \<Rightarrow> 'x rt_scheme \<Rightarrow> failure + 'x rt_scheme" where
  "ownedc_channel_send self ch ptr st =
     (if ch = 0 \<or> ptr = 0 then Inr st
      else bindE (ownership_share self ptr st) (\<lambda>st.
           bindE (owner_malloc self 16 st) (\<lambda>(node, st).
           bindE (write_struct node (ChNode \<lparr>cn_data = ptr, cn_next = 0\<rparr>) st) (\<lambda>st.
           channel_append ch node st))))"

definition ownedc_channel_recv ::
    "tid \<Rightarrow> addr \<Rightarrow> 'x rt_scheme \<Rightarrow> failure + (addr \<times> 'x rt_scheme)" where
  "ownedc_channel_recv self ch st =
     (if ch = 0 then Inr (0, st)
      else bindE (field chan_of st ch) (\<lambda>c.
        if ch_head c = 0 then Inl Blocked
        else let node = ch_head c in
          bindE (field node_of st node) (\<lambda>n.
          bindE (write_struct ch (Chan \<lparr>ch_head = cn_next n,
                   ch_tail = (if cn_next n = 0 then 0 else ch_tail c)\<rparr>) st) (\<lambda>st.
          let ptr = cn_data n in
          bindE (ownership_claim self node st) (\<lambda>st.
          bindE (owner_free self node st) (\<lambda>st.
          bindE (if ptr \<noteq> 0 then ownership_claim self ptr st else Inr st) (\<lambda>st.
          Inr (ptr, st))))))))"

partial_function (option) free_nodes ::
    "tid \<Rightarrow> addr \<Rightarrow> 'x rt_scheme \<Rightarrow> (failure + 'x rt_scheme) option" where
  "free_nodes self cur st =
     (if cur = 0 then Some (Inr st)
      else case bindE (field node_of st cur) (\<lambda>n.
                bindE (owner_free self cur st) (\<lambda>st. Inr (cn_next n, st))) of
          Inl e \<Rightarrow> Some (Inl e)
        | Inr q \<Rightarrow> free_nodes self (fst q) (snd q))"

definition ownedc_channel_free :: "tid \<Rightarrow> addr \<Rightarrow> 'x rt_scheme \<Rightarrow> failure + 'x rt_scheme" where
  "ownedc_channel_free self ch st =
     (if ch = 0 then Inr st
      else bindE (field chan_of st ch) (\<lambda>c.
           bindE (returned (free_nodes self (ch_head c) st)) (\<lambda>st.
           owner_free self ch st)))"

subsection \<open>The queue in memory\<close>

text \<open>The nodes from \<open>x\<close> on, with the object each of them holds, up to the link \<open>y\<close>.\<close>

fun nodes :: "(addr \<Rightarrow> (alloc_meta \<times> payload) option) \<Rightarrow> addr \<Rightarrow> (addr \<times> addr) list \<Rightarrow> addr \<Rightarrow> bool" where
  "nodes C x [] y = (x = y)"
| "nodes C x ((a, d) # ns) y =
     (x = a \<and> (\<exists>m nx. C a = Some (m, ChNode \<lparr>cn_data = d, cn_next = nx\<rparr>) \<and> \<not> m_borrow_count m > 0 \<and>
        nodes C nx ns y))"

definition last_node :: "(addr \<times> addr) list \<Rightarrow> addr" where
  "last_node ns = (if ns = [] then 0 else fst (last ns))"

definition queue_at :: "'x rt_scheme \<Rightarrow> addr \<Rightarrow> (addr \<times> addr) list \<Rightarrow> bool" where
  "queue_at st ch ns \<longleftrightarrow> rt_wf st \<and> distinct (map fst ns) \<and> ch \<notin> fst ` set ns \<and>
     (\<exists>m x. cell_at st ch = Some (m, Chan \<lparr>ch_head = x, ch_tail = last_node ns\<rparr>) \<and>
        nodes (cell_at st) x ns 0)"

lemma nodes_same:
  "nodes C x ns y \<Longrightarrow> (\<And>a. a \<in> fst ` set ns \<Longrightarrow> C' a = C a) \<Longrightarrow> nodes C' x ns y"
proof (induction ns arbitrary: x)
  case Nil
  then show ?case by simp
next
  case (Cons n ns)
  obtain a d where n: "n = (a, d)" by (cases n)
  from Cons.prems(1) n obtain m nx where *: "x = a" "C a = Some (m, ChNode \<lparr>cn_data = d, cn_next = nx\<rparr>)"
    "\<not> m_borrow_count m > 0" "nodes C nx ns y" by auto
  have "nodes C' nx ns y" by (rule Cons.IH [OF *(4)]) (simp add: Cons.prems(2))
  moreover have "C' a = C a" using Cons.prems(2) n by simp
  ultimately show ?case using * n by simp
qed

lemma nodes_cell:
  "nodes C x ns y \<Longrightarrow> (a, d) \<in> set ns \<Longrightarrow>
   \<exists>m nx. C a = Some (m, ChNode \<lparr>cn_data = d, cn_next = nx\<rparr>) \<and> \<not> m_borrow_count m > 0"
  by (induction ns arbitrary: x) auto

text \<open>A new node at the end.\<close>

lemma nodes_snoc:
  "\<lbrakk>nodes C x (ns @ [(b, e)]) 0; distinct (map fst (ns @ [(b, e)])); a \<notin> fst ` set (ns @ [(b, e)]);
    C b = Some (m, n); C' = C(b \<mapsto> (m, ChNode \<lparr>cn_data = e, cn_next = a\<rparr>)); C'' a = Some (k, ChNode \<lparr>cn_data = d, cn_next = 0\<rparr>);
    \<not> m_borrow_count k > 0; \<And>q. q \<noteq> a \<Longrightarrow> q \<in> fst ` set (ns @ [(b, e)]) \<Longrightarrow> C'' q = C' q\<rbrakk> \<Longrightarrow>
   nodes C'' x (ns @ [(b, e), (a, d)]) 0"
proof (induction ns arbitrary: x)
  case Nil
  then show ?case by auto
next
  case (Cons h ns)
  obtain c f where h: "h = (c, f)" by (cases h)
  from Cons.prems(1) h obtain j nx where *: "x = c" "C c = Some (j, ChNode \<lparr>cn_data = f, cn_next = nx\<rparr>)"
    "\<not> m_borrow_count j > 0" "nodes C nx (ns @ [(b, e)]) 0" by auto
  have "nodes C'' nx (ns @ [(b, e), (a, d)]) 0"
    by (rule Cons.IH [OF *(4)]) (use Cons.prems in auto)
  moreover have "C'' c = C c" using Cons.prems(2,3,5,8) h by auto
  ultimately show ?case using * h by simp
qed

lemma put_more [simp]: "rt.more (put p x st) = rt.more st"
  by (simp add: put_def)

lemma channel_append_rep:
  assumes q: "queue_at st ch ns" and a: "cell_at st a = Some (k, ChNode \<lparr>cn_data = d, cn_next = 0\<rparr>)"
    "\<not> m_borrow_count k > 0" "a \<noteq> ch" "a \<notin> fst ` set ns"
  shows "\<exists>st'. channel_append ch a st = Inr st' \<and> queue_at st' ch (ns @ [(a, d)]) \<and> rt.more st' = rt.more st \<and>
    map_option fst (cell_at st' ch) = map_option fst (cell_at st ch) \<and>
    (\<forall>q. q \<noteq> ch \<and> q \<notin> fst ` set ns \<longrightarrow> cell_at st' q = cell_at st q)"
proof -
  obtain m x where wf: "rt_wf st" and ch: "cell_at st ch = Some (m, Chan \<lparr>ch_head = x, ch_tail = last_node ns\<rparr>)"
    and ns: "nodes (cell_at st) x ns 0" "distinct (map fst ns)" "ch \<notin> fst ` set ns"
    using q by (auto simp: queue_at_def)
  have f: "field chan_of st ch = Inr \<lparr>ch_head = x, ch_tail = last_node ns\<rparr>"
    by (rule field_cell [OF wf ch]) simp
  show ?thesis
  proof (cases ns rule: rev_cases)
    case Nil
    let ?c = "Chan \<lparr>ch_head = a, ch_tail = a\<rparr>"
    have w: "write_struct ch ?c st = Inr (put ch ?c st)" "rt_wf (put ch ?c st)"
      "cell_at (put ch ?c st) = (cell_at st)(ch \<mapsto> (m, ?c))"
      by (rule write_struct_cell [OF wf ch, of ?c])+
    have "channel_append ch a st = Inr (put ch ?c st)"
      using w(1) f Nil by (simp add: channel_append_def last_node_def)
    moreover have "queue_at (put ch ?c st) ch (ns @ [(a, d)])"
      using w(2,3) Nil a by (simp add: queue_at_def last_node_def)
    moreover have "map_option fst (cell_at (put ch ?c st) ch) = map_option fst (cell_at st ch)" using w(3) ch by simp
    moreover have "\<forall>q. q \<noteq> ch \<and> q \<notin> fst ` set ns \<longrightarrow> cell_at (put ch ?c st) q = cell_at st q"
      using w(3) by simp
    ultimately show ?thesis by (intro exI conjI) simp_all
  next
    case (snoc ms be)
    obtain b e where be: "be = (b, e)" by (cases be)
    have inb: "(b, e) \<in> set ns" using snoc be by simp
    from nodes_cell [OF ns(1) inb] obtain j nx where
      b: "cell_at st b = Some (j, ChNode \<lparr>cn_data = e, cn_next = nx\<rparr>)" by blast
    have bch: "b \<noteq> ch" "b \<noteq> a" using inb ns(3) a(4) by force+
    have t: "last_node ns = b" using snoc be by (simp add: last_node_def)
    let ?n = "ChNode \<lparr>cn_data = e, cn_next = a\<rparr>" and ?c = "Chan \<lparr>ch_head = x, ch_tail = a\<rparr>"
    have w: "write_struct b ?n st = Inr (put b ?n st)" "rt_wf (put b ?n st)"
      "cell_at (put b ?n st) = (cell_at st)(b \<mapsto> (j, ?n))" by (rule write_struct_cell [OF wf b, of ?n])+
    have ch1: "cell_at (put b ?n st) ch = Some (m, Chan \<lparr>ch_head = x, ch_tail = last_node ns\<rparr>)" using ch w(3) bch by simp
    let ?s = "put ch ?c (put b ?n st)"
    have v: "write_struct ch ?c (put b ?n st) = Inr ?s" "rt_wf ?s"
      "cell_at ?s = (cell_at (put b ?n st))(ch \<mapsto> (m, ?c))" by (rule write_struct_cell [OF w(2) ch1, of ?c])+
    have "channel_append ch a st = Inr ?s"
      using f t b w(1) v(1) cell_at_nonnull [OF b] field_cell [OF wf b, of node_of]
      by (simp add: channel_append_def)
    moreover have cells: "cell_at ?s = (cell_at st)(b \<mapsto> (j, ?n), ch \<mapsto> (m, ?c))" using w(3) v(3) by simp
    have "nodes (cell_at ?s) x (ms @ [(b, e), (a, d)]) 0"
    proof (rule nodes_snoc)
      show "nodes (cell_at st) x (ms @ [(b, e)]) 0" using ns(1) snoc be by simp
      show "distinct (map fst (ms @ [(b, e)]))" using ns(2) snoc be by simp
      show "a \<notin> fst ` set (ms @ [(b, e)])" using a(4) snoc be by simp
      show "cell_at ?s a = Some (k, ChNode \<lparr>cn_data = d, cn_next = 0\<rparr>)" using a bch cells by simp
      show "cell_at ?s q = ((cell_at st)(b \<mapsto> (j, ?n))) q" if "q \<in> fst ` set (ms @ [(b, e)])" for q
        using that ns(3) snoc be cells by auto
    qed (use b a(2) in \<open>auto simp: fun_eq_iff\<close>)
    then have "queue_at ?s ch (ns @ [(a, d)])"
      using v(2) cells a(3,4) ns(2,3) snoc be by (auto simp: queue_at_def last_node_def)
    moreover have "map_option fst (cell_at ?s ch) = map_option fst (cell_at st ch)" using cells ch by simp
    moreover have "\<forall>q. q \<noteq> ch \<and> q \<notin> fst ` set ns \<longrightarrow> cell_at ?s q = cell_at st q"
      using cells inb by force
    ultimately show ?thesis by (intro exI conjI) simp_all
  qed
qed

text \<open>The contract's state in memory; \<open>X\<close> is the contents of the objects, which the channel never changes.\<close>

definition owned_cell :: "tid \<Rightarrow> alloc_meta \<Rightarrow> bool" where
  "owned_cell t m \<longleftrightarrow> m_owner_thread m = t \<and> m_state m = OWNED \<and> \<not> m_borrow_count m > 0"

definition shared_cell :: "alloc_meta \<Rightarrow> bool" where
  "shared_cell m \<longleftrightarrow> m_state m = SHARED \<and> \<not> m_borrow_count m > 0"

definition size_at :: "'x rt_scheme \<Rightarrow> addr \<Rightarrow> size_t option" where
  "size_at st p = map_option (m_size \<circ> fst) (cell_at st p)"

definition channel_holds ::
    "addr \<Rightarrow> (addr \<Rightarrow> payload) \<Rightarrow> (addr \<times> addr) list \<Rightarrow> handover \<Rightarrow> 'x rt_scheme \<Rightarrow> bool" where
  "channel_holds ch X ns a st \<longleftrightarrow> queue_at st ch ns \<and> map snd ns = in_transit a \<and> distinct (in_transit a) \<and>
     (\<forall>p t. owned_by a p = Some t \<longrightarrow> p \<noteq> ch \<and> p \<notin> fst ` set ns \<and>
        (\<exists>m. cell_at st p = Some (m, X p) \<and> owned_cell t m)) \<and>
     (\<forall>p \<in> set (in_transit a). owned_by a p = None \<and> p \<noteq> ch \<and> p \<notin> fst ` set ns \<and>
        (\<exists>m. cell_at st p = Some (m, X p) \<and> shared_cell m))"

definition channel_rep :: "addr \<Rightarrow> (addr \<Rightarrow> payload) \<Rightarrow> handover \<Rightarrow> 'x rt_scheme \<Rightarrow> bool" where
  "channel_rep ch X a st \<longleftrightarrow> (\<exists>ns. channel_holds ch X ns a st)"

lemma channel_holdsI:
  assumes "queue_at st ch ns" and "map snd ns = qs" and "distinct qs"
    and "\<And>p t. ow p = Some t \<Longrightarrow> p \<noteq> ch \<and> p \<notin> fst ` set ns \<and> (\<exists>m. cell_at st p = Some (m, X p) \<and> owned_cell t m)"
    and "\<And>p. p \<in> set qs \<Longrightarrow> ow p = None \<and> p \<noteq> ch \<and> p \<notin> fst ` set ns \<and>
      (\<exists>m. cell_at st p = Some (m, X p) \<and> shared_cell m)"
  shows "channel_holds ch X ns \<lparr>in_transit = qs, owned_by = ow\<rparr> st"
  unfolding channel_holds_def using assms by simp

lemmas channel_repI = channel_rep_def [THEN iffD2, OF exI, OF channel_holdsI]

lemma channel_holdsE:
  assumes "channel_holds ch X ns a st"
  obtains mc x where "rt_wf st" and "map snd ns = in_transit a" and "distinct (in_transit a)"
    and "cell_at st ch = Some (mc, Chan \<lparr>ch_head = x, ch_tail = last_node ns\<rparr>)"
    and "nodes (cell_at st) x ns 0" and "distinct (map fst ns)" and "ch \<notin> fst ` set ns"
    and "\<forall>p t. owned_by a p = Some t \<longrightarrow> p \<noteq> ch \<and> p \<notin> fst ` set ns \<and>
        (\<exists>m. cell_at st p = Some (m, X p) \<and> owned_cell t m)"
    and "\<forall>p. p \<in> set (in_transit a) \<longrightarrow> owned_by a p = None \<and> p \<noteq> ch \<and> p \<notin> fst ` set ns \<and>
        (\<exists>m. cell_at st p = Some (m, X p) \<and> shared_cell m)"
proof -
  note d = assms [unfolded channel_holds_def]
  note q = conjunct1 [OF d] and * = d [THEN conjunct2, THEN conjunct1] d [THEN conjunct2, THEN conjunct2]
  from q obtain mc x where "rt_wf st" "distinct (map fst ns)" "ch \<notin> fst ` set ns"
    "cell_at st ch = Some (mc, Chan \<lparr>ch_head = x, ch_tail = last_node ns\<rparr>)" "nodes (cell_at st) x ns 0"
    unfolding queue_at_def by (elim exE conjE)
  with * show thesis by (intro that [of mc x]) simp_all
qed

lemma channel_send_holds:
  assumes "channel_holds ch X ns a st" and "owned_by a p = Some t"
  shows "ownedc_channel_send t ch p st = Inl (Undefined ''write to unmapped memory'') \<and>
      (\<exists>s1 s2. ownership_share t p st = Inr s1 \<and> owner_malloc t 16 s1 = Inr (0, s2)) \<or>
    (\<exists>n st'. ownedc_channel_send t ch p st = Inr st' \<and>
       channel_holds ch X (ns @ [(n, p)]) \<lparr>in_transit = in_transit a @ [p], owned_by = (owned_by a)(p := None)\<rparr> st' \<and>
       moves (insert ch (insert p (fst ` set ns))) (insert ch (insert p (insert n (fst ` set ns)))) st st' \<and>
       map_option fst (cell_at st' ch) = map_option fst (cell_at st ch) \<and> size_at st' p = size_at st p)"
proof -
  obtain mc x where wf: "rt_wf st" and q: "map snd ns = in_transit a" "distinct (in_transit a)"
    and c: "cell_at st ch = Some (mc, Chan \<lparr>ch_head = x, ch_tail = last_node ns\<rparr>)"
    and ns: "nodes (cell_at st) x ns 0" "distinct (map fst ns)" "ch \<notin> fst ` set ns"
    and own0: "\<forall>p t. owned_by a p = Some t \<longrightarrow> p \<noteq> ch \<and> p \<notin> fst ` set ns \<and>
        (\<exists>m. cell_at st p = Some (m, X p) \<and> owned_cell t m)"
    and tr0: "\<forall>p. p \<in> set (in_transit a) \<longrightarrow> owned_by a p = None \<and> p \<noteq> ch \<and> p \<notin> fst ` set ns \<and>
        (\<exists>m. cell_at st p = Some (m, X p) \<and> shared_cell m)"
    by (rule channel_holdsE [OF assms(1)])
  note own = own0 [rule_format] and tr = tr0 [rule_format]
  obtain m where p: "p \<noteq> ch" "p \<notin> fst ` set ns" "cell_at st p = Some (m, X p)" "owned_cell t m"
    using own [OF assms(2)] by blast
  have nz: "ch \<noteq> 0" "p \<noteq> 0" using cell_at_nonnull [OF c] cell_at_nonnull [OF p(3)] by auto
  have "m_owner_thread m = t" using p(4) by (simp add: owned_cell_def)
  then obtain s1 where s1: "ownership_share t p st = Inr s1" "rt_wf s1" "rt.more s1 = rt.more st"
    "cell_at s1 = (cell_at st)(p \<mapsto> (shared_meta m, X p))"
    by (rule ownership_share_cells [OF wf p(3)])
  have n16: "unat (16 :: size_t) + 80 < 2 ^ 64" by simp
  from s1(2) n16 show ?thesis
  proof (cases rule: heap.alloc_cases [where self = t])
    case (null s2)
    then show ?thesis using s1(1) nz by (simp add: ownedc_channel_send_def write_struct_def)
  next
    case (object n s2)
    let ?n = "ChNode \<lparr>cn_data = p, cn_next = 0\<rparr>"
    have cn: "cell_at s2 n = Some (fresh_meta t 16, Filled 0xAA)" using object(6) by simp
    have w: "write_struct n ?n s2 = Inr (put n ?n s2)" "rt_wf (put n ?n s2)"
      "cell_at (put n ?n s2) = (cell_at s2)(n \<mapsto> (fresh_meta t 16, ?n))"
      by (rule write_struct_cell [OF object(3) cn, of ?n])+
    have mo2: "rt.more (put n ?n s2) = rt.more st" using object(4) s1(3) by simp
    let ?s = "put n ?n s2"
    have cells: "cell_at ?s = (cell_at st)(p \<mapsto> (shared_meta m, X p), n \<mapsto> (fresh_meta t 16, ?n))"
      using w(3) object(6) s1(4) by simp
    have dead: "cell_at st n = None" "n \<noteq> p" using object(5) s1(4) by (auto split: if_splits)
    have n: "n \<noteq> ch" using dead c by auto
    have n2: "n \<notin> fst ` set ns"
    proof
      assume "n \<in> fst ` set ns"
      then obtain d where "(n, d) \<in> set ns" by auto
      from nodes_cell [OF ns(1) this] dead(1) show False by simp
    qed
    have "nodes (cell_at ?s) x ns 0" by (rule nodes_same [OF ns(1)]) (use cells n2 p(2) in auto)
    then have "queue_at ?s ch ns" using w(2) cells c n p(1) ns(2,3) by (simp add: queue_at_def)
    moreover have "cell_at ?s n = Some (fresh_meta t 16, ?n)" "\<not> m_borrow_count (fresh_meta t 16) > 0"
      using cells by (simp_all add: fresh_meta_def new_meta_def bare_def)
    ultimately obtain s3 where s3: "channel_append ch n ?s = Inr s3" "queue_at s3 ch (ns @ [(n, p)])"
      "rt.more s3 = rt.more ?s"
      "map_option fst (cell_at s3 ch) = map_option fst (cell_at ?s ch)"
      "\<And>q. q \<noteq> ch \<Longrightarrow> q \<notin> fst ` set ns \<Longrightarrow> cell_at s3 q = cell_at ?s q"
      using channel_append_rep [of ?s ch ns n] n n2 by blast
    have keep: "cell_at s3 q = cell_at st q" if "q \<noteq> ch" "q \<notin> fst ` set ns" "q \<noteq> p" "q \<noteq> n" for q
      using s3(5) that cells by simp
    have notn: "r \<noteq> n" if "cell_at st r = Some k" for r k using that dead by auto
    have sh: "cell_at s3 p = Some (shared_meta m, X p)" using s3(5) [OF p(1,2)] cells dead(2) by simp
    have "ownedc_channel_send t ch p st = Inr s3"
      using nz s1(1) object(1) w(1) s3(1) by (simp add: ownedc_channel_send_def)
    moreover have "size_at s3 p = size_at st p" using sh p(3) by (simp add: size_at_def shared_meta_def)
    moreover have "map_option fst (cell_at s3 ch) = map_option fst (cell_at st ch)"
      using s3(4) cells p(1) n by simp
    moreover have "moves (insert ch (insert p (fst ` set ns))) (insert ch (insert p (insert n (fst ` set ns)))) st s3"
      using keep dead(1) mo2 s3(3) by (auto simp: moves_def restrict_map_def fun_eq_iff)
    moreover have "channel_holds ch X (ns @ [(n, p)]) \<lparr>in_transit = in_transit a @ [p], owned_by = (owned_by a)(p := None)\<rparr> s3"
    proof (rule channel_holdsI [OF s3(2)])
      show "map snd (ns @ [(n, p)]) = in_transit a @ [p]" using q(1) by simp
      show "distinct (in_transit a @ [p])" using q(2) tr [of p] assms(2) by auto
    next
      fix r u assume "((owned_by a)(p := None)) r = Some u"
      then have r: "r \<noteq> p" "owned_by a r = Some u" by (simp_all split: if_splits)
      from own [OF r(2)] keep [of r] r(1) notn [of r]
      show "r \<noteq> ch \<and> r \<notin> fst ` set (ns @ [(n, p)]) \<and> (\<exists>m. cell_at s3 r = Some (m, X r) \<and> owned_cell u m)" by auto
    next
      fix r assume r: "r \<in> set (in_transit a @ [p])"
      show "((owned_by a)(p := None)) r = None \<and> r \<noteq> ch \<and> r \<notin> fst ` set (ns @ [(n, p)]) \<and>
        (\<exists>m. cell_at s3 r = Some (m, X r) \<and> shared_cell m)"
      proof (cases "r = p")
        case True
        then show ?thesis using sh p dead(2) by (simp add: shared_cell_def shared_meta_def owned_cell_def)
      next
        case False
        then show ?thesis using r tr [of r] keep [of r] notn [of r] by auto
      qed
    qed
    ultimately show ?thesis by blast
  qed
qed

lemma channel_send_rep:
  assumes "channel_rep ch X a st" and "owned_by a p = Some t"
  shows "ownedc_channel_send t ch p st = Inl (Undefined ''write to unmapped memory'') \<or>
    (\<exists>st'. ownedc_channel_send t ch p st = Inr st' \<and>
       channel_rep ch X \<lparr>in_transit = in_transit a @ [p], owned_by = (owned_by a)(p := None)\<rparr> st')"
  using assms channel_send_holds unfolding channel_rep_def by metis

lemma channel_recv_empty:
  assumes "channel_rep ch X a st" and "in_transit a = []"
  shows "ownedc_channel_recv t ch st = Inl Blocked"
proof -
  obtain ns where h: "channel_holds ch X ns a st" using assms(1) unfolding channel_rep_def ..
  obtain mc x where wf: "rt_wf st" and q: "map snd ns = in_transit a"
    and c: "cell_at st ch = Some (mc, Chan \<lparr>ch_head = x, ch_tail = last_node ns\<rparr>)"
    and ns: "nodes (cell_at st) x ns 0" by (rule channel_holdsE [OF h])
  have "x = 0" using ns q assms(2) by simp
  then show ?thesis using field_cell [OF wf c, of chan_of] cell_at_nonnull [OF c]
    by (simp add: ownedc_channel_recv_def)
qed

lemma channel_recv_holds:
  assumes "channel_holds ch X ns a st" and "in_transit a = p # qs"
  shows "\<exists>n ms st'. ns = (n, p) # ms \<and> ownedc_channel_recv t ch st = Inr (p, st') \<and>
    channel_holds ch X ms \<lparr>in_transit = qs, owned_by = (owned_by a)(p \<mapsto> t)\<rparr> st' \<and>
    moves (insert ch (insert p (fst ` set ns))) (insert ch (insert p (fst ` set ms))) st st' \<and>
    map_option fst (cell_at st' ch) = map_option fst (cell_at st ch) \<and> size_at st' p = size_at st p"
proof -
  obtain mc x where wf: "rt_wf st" and q: "map snd ns = in_transit a" "distinct (in_transit a)"
    and c: "cell_at st ch = Some (mc, Chan \<lparr>ch_head = x, ch_tail = last_node ns\<rparr>)"
    and ns: "nodes (cell_at st) x ns 0" "distinct (map fst ns)" "ch \<notin> fst ` set ns"
    and own0: "\<forall>p t. owned_by a p = Some t \<longrightarrow> p \<noteq> ch \<and> p \<notin> fst ` set ns \<and>
        (\<exists>m. cell_at st p = Some (m, X p) \<and> owned_cell t m)"
    and tr0: "\<forall>p. p \<in> set (in_transit a) \<longrightarrow> owned_by a p = None \<and> p \<noteq> ch \<and> p \<notin> fst ` set ns \<and>
        (\<exists>m. cell_at st p = Some (m, X p) \<and> shared_cell m)"
    by (rule channel_holdsE [OF assms(1)])
  note own = own0 [rule_format] and tr = tr0 [rule_format]
  obtain n ms where nm: "ns = (n, p) # ms" "map snd ms = qs" using q(1) assms(2) by auto
  from ns(1) nm(1) obtain mn nx where n: "x = n" "cell_at st n = Some (mn, ChNode \<lparr>cn_data = p, cn_next = nx\<rparr>)"
    "\<not> m_borrow_count mn > 0" "nodes (cell_at st) nx ms 0" by auto
  have nch: "n \<noteq> ch" "n \<notin> fst ` set ms" "ch \<notin> fst ` set ms" "distinct (map fst ms)"
    using nm(1) ns(2,3) by auto
  obtain mp where p: "p \<noteq> ch" "p \<noteq> n" "p \<notin> fst ` set ms" "cell_at st p = Some (mp, X p)" "shared_cell mp"
    using tr [of p] assms(2) nm(1) by auto
  let ?c = "Chan \<lparr>ch_head = nx, ch_tail = (if nx = 0 then 0 else last_node ns)\<rparr>"
  have w: "write_struct ch ?c st = Inr (put ch ?c st)" "rt_wf (put ch ?c st)"
    "cell_at (put ch ?c st) = (cell_at st)(ch \<mapsto> (mc, ?c))"
    by (rule write_struct_cell [OF wf c, of ?c])+
  have "cell_at (put ch ?c st) n = Some (mn, ChNode \<lparr>cn_data = p, cn_next = nx\<rparr>)" using w(3) n(2) nch(1) by simp
  then obtain s2 where s2: "ownership_claim t n (put ch ?c st) = Inr s2" "rt_wf s2" "rt.more s2 = rt.more (put ch ?c st)"
    "cell_at s2 = (cell_at (put ch ?c st))(n \<mapsto> (claimed_meta t mn, ChNode \<lparr>cn_data = p, cn_next = nx\<rparr>))"
    by (rule ownership_claim_cells [OF w(2)]) blast
  have "cell_at s2 n = Some (claimed_meta t mn, ChNode \<lparr>cn_data = p, cn_next = nx\<rparr>)" "free_ok t (claimed_meta t mn)"
    using s2(4) n(3) by simp_all
  then obtain s3 where s3: "owner_free t n s2 = Inr s3" "rt_wf s3" "rt.more s3 = rt.more s2" "cell_at s3 = (cell_at s2)(n := None)"
    by (rule heap.release_obtain [OF s2(2)]) blast
  have "cell_at s3 p = Some (mp, X p)" using s3(4) s2(4) w(3) p by simp
  then obtain s4 where s4: "ownership_claim t p s3 = Inr s4" "rt_wf s4" "rt.more s4 = rt.more s3"
    "cell_at s4 = (cell_at s3)(p \<mapsto> (claimed_meta t mp, X p))"
    by (rule ownership_claim_cells [OF s3(2)]) blast
  have cells: "cell_at s4 = (cell_at st)(ch \<mapsto> (mc, ?c), n := None, p \<mapsto> (claimed_meta t mp, X p))"
    using s4(4) s3(4) s2(4) w(3) by (auto simp: fun_eq_iff)
  have "ownedc_channel_recv t ch st = Inr (p, s4)"
    using field_cell [OF wf c, of chan_of] field_cell [OF wf n(2), of node_of] cell_at_nonnull [OF c]
      cell_at_nonnull [OF n(2)] cell_at_nonnull [OF p(4)] n(1) w(1) s2(1) s3(1) s4(1)
    by (cases "nx = 0") (simp_all add: ownedc_channel_recv_def Let_def)
  moreover have "nx = 0 \<longleftrightarrow> ms = []"
    using n(4) cell_at_nonnull [of st nx] by (cases ms) (auto split: prod.splits)
  then have tl: "(if nx = 0 then 0 else last_node ns) = last_node ms" using nm(1) by (simp add: last_node_def)
  have "nodes (cell_at s4) nx ms 0" by (rule nodes_same [OF n(4)]) (use cells nch p(3) in auto)
  then have qa: "queue_at s4 ch ms"
    using s4(2) cells nch p(1,3) tl by (auto simp: queue_at_def)
  have "moves (insert ch (insert p (fst ` set ns))) (insert ch (insert p (fst ` set ms))) st s4"
    using cells nm(1) s2(3) s3(3) s4(3) by (auto simp: moves_def restrict_map_def fun_eq_iff)
  moreover have "size_at s4 p = size_at st p" using cells p(4) by (simp add: size_at_def claimed_meta_def)
  moreover have "map_option fst (cell_at s4 ch) = map_option fst (cell_at st ch)"
    using cells c p(1) nch(1) by simp
  moreover have "channel_holds ch X ms \<lparr>in_transit = qs, owned_by = (owned_by a)(p \<mapsto> t)\<rparr> s4"
  proof (rule channel_holdsI [OF qa nm(2)])
    show "distinct qs" using q(2) assms(2) by simp
  next
    fix r u assume r: "((owned_by a)(p \<mapsto> t)) r = Some u"
    show "r \<noteq> ch \<and> r \<notin> fst ` set ms \<and> (\<exists>m. cell_at s4 r = Some (m, X r) \<and> owned_cell u m)"
    proof (cases "r = p")
      case True
      then show ?thesis using r cells p by (simp add: owned_cell_def claimed_meta_def shared_cell_def)
    next
      case False
      then show ?thesis using r own [of r u] cells nm(1) by auto
    qed
  next
    fix r assume r: "r \<in> set qs"
    then have "r \<noteq> p" using q(2) assms(2) by auto
    then show "((owned_by a)(p \<mapsto> t)) r = None \<and> r \<noteq> ch \<and> r \<notin> fst ` set ms \<and>
      (\<exists>m. cell_at s4 r = Some (m, X r) \<and> shared_cell m)"
      using tr [of r] r assms(2) cells nm(1) by auto
  qed
  ultimately show ?thesis using nm(1) by blast
qed

lemma channel_recv_rep:
  assumes "channel_rep ch X a st" and "in_transit a = p # qs"
  shows "\<exists>st'. ownedc_channel_recv t ch st = Inr (p, st') \<and>
    channel_rep ch X \<lparr>in_transit = qs, owned_by = (owned_by a)(p \<mapsto> t)\<rparr> st'"
  using assms channel_recv_holds unfolding channel_rep_def by metis

interpretation channel: handover_channel "channel_rep ch X" "\<lambda>t p. ownedc_channel_send t ch p"
    "\<lambda>t. ownedc_channel_recv t ch" "Undefined ''write to unmapped memory''" for ch X
  by unfold_locales (rule channel_send_rep channel_recv_rep channel_recv_empty; assumption)+


subsection \<open>Creating and freeing\<close>

lemma ownedc_channel_create_rep:
  assumes "rt_wf st"
  shows "\<exists>ch st'. ownedc_channel_create t st = Inr (ch, st') \<and> rt_wf st' \<and>
    (ch \<noteq> 0 \<longrightarrow> channel_rep ch X \<lparr>in_transit = [], owned_by = (\<lambda>_. None)\<rparr> st')"
proof -
  have n: "unat (104 :: size_t) + 80 < 2 ^ 64" by simp
  from assms n show ?thesis
  proof (cases rule: heap.alloc_cases [where self = t])
    case (null s)
    then show ?thesis by (simp add: ownedc_channel_create_def)
  next
    case (object ch s)
    let ?c = "Chan \<lparr>ch_head = 0, ch_tail = 0\<rparr>"
    have c: "cell_at s ch = Some (fresh_meta t 104, Filled 0xAA)" using object(6) by simp
    note w = write_struct_cell [OF object(3) c, of ?c]
    have "queue_at (put ch ?c s) ch []" using w by (simp add: queue_at_def last_node_def)
    then have "channel_rep ch X \<lparr>in_transit = [], owned_by = (\<lambda>_. None)\<rparr> (put ch ?c s)"
      by (rule channel_repI) simp_all
    then show ?thesis using object(1,2) w by (simp add: ownedc_channel_create_def)
  qed
qed

text \<open>A thread that allocates an object beside the channel owns it.\<close>

lemma channel_holds_malloc:
  assumes "channel_holds ch X ns a st" and "owner_malloc t n st = Inr (p, st')" and "p \<noteq> 0"
  shows "channel_holds ch (X(p := Filled 0xAA)) ns (a\<lparr>owned_by := (owned_by a)(p \<mapsto> t)\<rparr>) st'"
proof -
  obtain mc x where wf: "rt_wf st" and q: "map snd ns = in_transit a" "distinct (in_transit a)"
    and c: "cell_at st ch = Some (mc, Chan \<lparr>ch_head = x, ch_tail = last_node ns\<rparr>)"
    and ns: "nodes (cell_at st) x ns 0" "distinct (map fst ns)" "ch \<notin> fst ` set ns"
    and own0: "\<forall>p t. owned_by a p = Some t \<longrightarrow> p \<noteq> ch \<and> p \<notin> fst ` set ns \<and>
        (\<exists>m. cell_at st p = Some (m, X p) \<and> owned_cell t m)"
    and tr0: "\<forall>p. p \<in> set (in_transit a) \<longrightarrow> owned_by a p = None \<and> p \<noteq> ch \<and> p \<notin> fst ` set ns \<and>
        (\<exists>m. cell_at st p = Some (m, X p) \<and> shared_cell m)"
    by (rule channel_holdsE [OF assms(1)])
  note own = own0 [rule_format] and tr = tr0 [rule_format]
  have p: "cell_at st p = None" "cell_at st' = (cell_at st)(p \<mapsto> (fresh_meta t n, Filled 0xAA))" "rt_wf st'"
    using heap.alloc_result [OF wf assms(2)] assms(3) by auto
  have pns: "p \<notin> fst ` set ns"
  proof
    assume "p \<in> fst ` set ns"
    then obtain d where "(p, d) \<in> set ns" by auto
    from nodes_cell [OF ns(1) this] p(1) show False by simp
  qed
  have pch: "p \<noteq> ch" using p(1) c by auto
  have np: "r \<noteq> p" if "cell_at st r = Some k" for r k using that p(1) by auto
  have "nodes (cell_at st') x ns 0" by (rule nodes_same [OF ns(1)]) (use p(2) pns in auto)
  then have qa: "queue_at st' ch ns" using p(2,3) c pch ns(2,3) by (auto simp: queue_at_def)
  have f: "owned_cell t (fresh_meta t n)" by (simp add: owned_cell_def fresh_meta_def new_meta_def bare_def)
  have "channel_holds ch (X(p := Filled 0xAA)) ns \<lparr>in_transit = in_transit a, owned_by = (owned_by a)(p \<mapsto> t)\<rparr> st'"
  proof (rule channel_holdsI [OF qa q])
    fix r u assume r: "((owned_by a)(p \<mapsto> t)) r = Some u"
    show "r \<noteq> ch \<and> r \<notin> fst ` set ns \<and> (\<exists>m. cell_at st' r = Some (m, (X(p := Filled 0xAA)) r) \<and> owned_cell u m)"
      using r own [of r u] p(2) pns pch f by (cases "r = p") auto
  next
    fix r assume r: "r \<in> set (in_transit a)"
    then have "r \<noteq> p" using tr [of r] np by blast
    then show "((owned_by a)(p \<mapsto> t)) r = None \<and> r \<noteq> ch \<and> r \<notin> fst ` set ns \<and>
      (\<exists>m. cell_at st' r = Some (m, (X(p := Filled 0xAA)) r) \<and> shared_cell m)"
      using tr [of r] r p(2) by simp
  qed
  then show ?thesis by (cases a) simp
qed

lemma channel_rep_malloc:
  assumes "channel_rep ch X a st" and "owner_malloc t n st = Inr (p, st')" and "p \<noteq> 0"
  shows "channel_rep ch (X(p := Filled 0xAA)) (a\<lparr>owned_by := (owned_by a)(p \<mapsto> t)\<rparr>) st'"
  using assms channel_holds_malloc unfolding channel_rep_def by metis

lemma free_nodes_rep:
  assumes "rt_wf st" and "nodes (cell_at st) x ns 0" and "distinct (map fst ns)"
    and "\<And>a. a \<in> fst ` set ns \<Longrightarrow> \<exists>m y. cell_at st a = Some (m, y) \<and> free_ok self m"
  shows "\<exists>st'. free_nodes self x st = Some (Inr st') \<and> rt_wf st' \<and> cell_at st' = cell_at st |` (- fst ` set ns)"
  using assms
proof (induction ns arbitrary: x st)
  case Nil
  then show ?case by (simp add: free_nodes.simps restrict_map_def fun_eq_iff)
next
  case (Cons n ns)
  obtain a d where n: "n = (a, d)" by (cases n)
  from Cons.prems(2) n obtain m nx where a: "x = a" "cell_at st a = Some (m, ChNode \<lparr>cn_data = d, cn_next = nx\<rparr>)"
    "nodes (cell_at st) nx ns 0" by auto
  have ok: "free_ok self m" using Cons.prems(4) [of a] a(2) n by simp
  obtain s where s: "owner_free self a st = Inr s" "rt_wf s" "cell_at s = (cell_at st)(a := None)"
    by (rule heap.release_obtain [OF Cons.prems(1) a(2) ok])
  have an: "a \<notin> fst ` set ns" using Cons.prems(3) n by simp
  have "nodes (cell_at s) nx ns 0" by (rule nodes_same [OF a(3)]) (use s(3) an in auto)
  note IH = Cons.IH [OF s(2) this]
  have "\<exists>m y. cell_at s b = Some (m, y) \<and> free_ok self m" if "b \<in> fst ` set ns" for b
  proof -
    have "b \<noteq> a" using that an by blast
    then show ?thesis using Cons.prems(4) [of b] that s(3) by simp
  qed
  with IH Cons.prems(3) obtain s' where s': "free_nodes self nx s = Some (Inr s')" "rt_wf s'"
    "cell_at s' = cell_at s |` (- fst ` set ns)" by auto
  have "free_nodes self x st = free_nodes self nx s"
    using a(1) s(1) field_cell [OF Cons.prems(1) a(2), of node_of] cell_at_nonnull [OF a(2)]
    by (subst free_nodes.simps) simp
  then show ?case using s' s(3) n by (auto simp: restrict_map_def fun_eq_iff)
qed

text \<open>A channel of thread 2 and an object of thread 3 beside it.\<close>

lemma channel_example:
  obtains s1 s2 :: rt where "ownedc_channel_create 2 roomy_start = Inr (0x1050, s1)"
    and "owner_malloc 3 16 s1 = Inr (0x2050, s2)"
    and "channel_rep 0x1050 (\<lambda>_. Filled 0xAA) \<lparr>in_transit = [], owned_by = [0x2050 \<mapsto> 3]\<rparr> s2"
    and "\<exists>s3. ownedc_channel_send 3 0x1050 0x2050 s2 = Inr s3 \<and>
      ownedc_channel_free 2 0x1050 s3 = Inl (Fatal ''Thread Ownership Violation (Free)'' 0x3050 None 0)"
proof -
  have "\<exists>s1 s2. ownedc_channel_create 2 roomy_start = Inr (0x1050, s1) \<and> owner_malloc 3 16 s1 = Inr (0x2050, s2) \<and>
      (\<exists>s3. ownedc_channel_send 3 0x1050 0x2050 s2 = Inr s3 \<and>
      ownedc_channel_free 2 0x1050 s3 = Inl (Fatal ''Thread Ownership Violation (Free)'' 0x3050 None 0))"
    by (simp add: ownedc_channel_create_def ownedc_channel_send_def channel_append_def write_struct_def
        ownedc_channel_free_def free_nodes.simps returned_def roomy_start_def rt_eval field_def)
  then obtain s1 s2 where s: "ownedc_channel_create 2 roomy_start = Inr (0x1050, s1)"
    "owner_malloc 3 16 s1 = Inr (0x2050, s2)"
    "\<exists>s3. ownedc_channel_send 3 0x1050 0x2050 s2 = Inr s3 \<and>
      ownedc_channel_free 2 0x1050 s3 = Inl (Fatal ''Thread Ownership Violation (Free)'' 0x3050 None 0)" by blast
  from ownedc_channel_create_rep [OF roomy_start_wf, of 2 "\<lambda>_. Filled 0xAA"] s(1)
  have "channel_rep 0x1050 (\<lambda>_. Filled 0xAA) \<lparr>in_transit = [], owned_by = (\<lambda>_. None)\<rparr> s1" by auto
  from channel_rep_malloc [OF this s(2)]
  have "channel_rep 0x1050 (\<lambda>_. Filled 0xAA) \<lparr>in_transit = [], owned_by = [0x2050 \<mapsto> 3]\<rparr> s2" by (simp add: fun_upd_def)
  with that s show thesis by blast
qed


text \<open>Freeing a channel returns the channel and all its nodes and nothing else when the caller may free
  them; with a message left that another thread sent, the call ends the process with a thread ownership
  violation instead, since the node belongs to the sender.
\<close>

theorem channel_free_outcome:
  assumes "queue_at st ch ns" and "cell_at st ch = Some (m, y)" and "free_ok self m"
  shows "((\<forall>a \<in> fst ` set ns. \<exists>k z. cell_at st a = Some (k, z) \<and> free_ok self k) \<longrightarrow>
      (\<exists>st'. ownedc_channel_free self ch st = Inr st' \<and> rt_wf st' \<and>
         cell_at st' = cell_at st |` (- insert ch (fst ` set ns)))) \<and>
    (\<forall>a d ms k z. ns = (a, d) # ms \<longrightarrow> cell_at st a = Some (k, z) \<longrightarrow> m_state k = OWNED \<longrightarrow>
       m_owner_thread k \<noteq> self \<longrightarrow>
       ownedc_channel_free self ch st = Inl (Fatal ''Thread Ownership Violation (Free)'' a None 0))"
proof (intro conjI impI allI)
  obtain x where wf: "rt_wf st" and c: "cell_at st ch = Some (m, Chan \<lparr>ch_head = x, ch_tail = last_node ns\<rparr>)"
    and ns: "nodes (cell_at st) x ns 0" "distinct (map fst ns)" "ch \<notin> fst ` set ns"
    using assms(1,2) by (auto simp: queue_at_def)
  have f: "field chan_of st ch = Inr \<lparr>ch_head = x, ch_tail = last_node ns\<rparr>" "ch \<noteq> 0"
    using field_cell [OF wf c, of chan_of] cell_at_nonnull [OF c] by simp_all
  {
    assume "\<forall>a \<in> fst ` set ns. \<exists>k z. cell_at st a = Some (k, z) \<and> free_ok self k"
    then obtain s where s: "free_nodes self x st = Some (Inr s)" "rt_wf s" "cell_at s = cell_at st |` (- fst ` set ns)"
      using free_nodes_rep [OF wf ns(1,2), of self] by blast
    have "cell_at s ch = Some (m, Chan \<lparr>ch_head = x, ch_tail = last_node ns\<rparr>)" using c s(3) ns(3) by simp
    then obtain s' where "owner_free self ch s = Inr s'" "rt_wf s'" "cell_at s' = (cell_at s)(ch := None)"
      by (rule heap.release_obtain [OF s(2) _ assms(3)])
    then show "\<exists>st'. ownedc_channel_free self ch st = Inr st' \<and> rt_wf st' \<and>
        cell_at st' = cell_at st |` (- insert ch (fst ` set ns))"
      using f s by (auto simp: ownedc_channel_free_def returned_def restrict_map_def fun_eq_iff)
  }
  fix a d ms k z
  assume a: "ns = (a, d) # ms" "cell_at st a = Some (k, z)" "m_state k = OWNED" "m_owner_thread k \<noteq> self"
  from ns(1) a(1,2) obtain nx where n: "x = a" "cell_at st a = Some (k, ChNode \<lparr>cn_data = d, cn_next = nx\<rparr>)"
    "\<not> m_borrow_count k > 0" by auto
  obtain k' where k': "get_meta st a = Inr (Some k')" "k = bare k'" using a(2) by (rule cell_at_meta)
  have "owner_free self a st = Inl (Fatal ''Thread Ownership Violation (Free)'' a None 0)"
    using k' a(3,4) n(3) cell_at_nonnull [OF a(2)] by (simp add: owner_free_def owner_free_internal_def bare_def)
  then show "ownedc_channel_free self ch st = Inl (Fatal ''Thread Ownership Violation (Free)'' a None 0)"
    using f n(1) field_cell [OF wf n(2), of node_of] cell_at_nonnull [OF a(2)]
    by (simp add: ownedc_channel_free_def returned_def free_nodes.simps)
qed

theorem channel_free_outcome_witness:
  "\<exists>s1 st' :: rt. ownedc_channel_create 2 roomy_start = Inr (0x1050, s1) \<and>
    ownedc_channel_free 2 0x1050 s1 = Inr st' \<and> cell_at st' 0x1050 = None"
proof -
  have "\<exists>s1 :: rt. ownedc_channel_create 2 roomy_start = Inr (0x1050, s1) \<and>
      (\<exists>m y. cell_at s1 0x1050 = Some (m, y) \<and> free_ok 2 m \<and> y = Chan \<lparr>ch_head = 0, ch_tail = 0\<rparr>)"
    by (simp add: ownedc_channel_create_def write_struct_def roomy_start_def rt_eval cell_at_Some obj_at_def
        free_ok_def bare_def)
  then obtain s1 :: rt and m where s: "ownedc_channel_create 2 roomy_start = Inr (0x1050, s1)"
    "cell_at s1 0x1050 = Some (m, Chan \<lparr>ch_head = 0, ch_tail = 0\<rparr>)" "free_ok 2 m" by blast
  have "rt_wf s1" using ownedc_channel_create_rep [OF roomy_start_wf, of 2] s(1) by auto
  then have "queue_at s1 0x1050 []" using s(2) by (simp add: queue_at_def last_node_def)
  from channel_free_outcome [OF this s(2,3)] obtain st' where "ownedc_channel_free 2 0x1050 s1 = Inr st'"
    "cell_at st' = cell_at s1 |` (- {0x1050})" by auto
  with s(1) show ?thesis by auto
qed

text \<open>A send that finds no memory for its node writes through the null pointer; the object stays shared.\<close>

theorem channel_send_no_memory:
  "\<exists>s1 s2 :: rt. ownedc_channel_create 2 (rt_init [0x1000, 0x2000] 1 2 3) = Inr (0x1050, s1) \<and>
    owner_malloc 2 16 s1 = Inr (0x2050, s2) \<and>
    ownedc_channel_send 2 0x1050 0x2050 s2 = Inl (Undefined ''write to unmapped memory'')"
  by (simp add: ownedc_channel_create_def ownedc_channel_send_def write_struct_def rt_eval field_def)

end
