(* ===== verification/Future.thy ===== *)
theory Future
  imports Handover
begin

text \<open>
  The futures of \<open>src/ownedc_future.c\<close>.  The state holds the outcomes \<open>pthread_create\<close> will have, the
  worker threads that were created and have not reached their end, and the threads that can be joined.  A
  worker runs in two steps: the task, and the part under the lock of the future.  The task is
  a parameter: the function pointer of the source, as an index into the tasks of the program.
\<close>

record fut_rt = rt +
  next_threads :: "tid option list"
  started :: "(tid \<times> addr) list"
  computed :: "(tid \<times> addr \<times> addr) list"
  finished :: "tid list"

type_synonym 'x task = "tid \<Rightarrow> addr \<Rightarrow> 'x fut_rt_scheme \<Rightarrow> failure + (addr \<times> 'x fut_rt_scheme)"

fun fut_of :: "payload \<Rightarrow> owned_future option" where
  "fut_of (Fut f) = Some f"
| "fut_of _ = None"

text \<open>\<open>pthread_create\<close>: the new thread, or failure.\<close>

definition pthread_create :: "addr \<Rightarrow> 'x fut_rt_scheme \<Rightarrow> tid option \<times> 'x fut_rt_scheme" where
  "pthread_create f st =
     (case next_threads st of
        Some t # ts \<Rightarrow> (Some t, st\<lparr>next_threads := ts, started := started st @ [(t, f)]\<rparr>)
      | None # ts \<Rightarrow> (None, st\<lparr>next_threads := ts\<rparr>)
      | [] \<Rightarrow> (None, st))"

text \<open>The result of \<open>pthread_create\<close> is not looked at; when it fails the field \<open>thread\<close> keeps an indeterminate value (\<open>None\<close>).\<close>

definition owned_future_spawn ::
    "tid \<Rightarrow> nat \<Rightarrow> addr \<Rightarrow> 'x fut_rt_scheme \<Rightarrow> failure + (addr \<times> 'x fut_rt_scheme)" where
  "owned_future_spawn self task arg st =
     bindE (owner_malloc self 128 st) (\<lambda>(f, st).
       if f = 0 then Inr (0, st)
       else case pthread_create f st of (t, st) \<Rightarrow>
         bindE (write_struct f (Fut \<lparr>fu_task = task, fu_arg = arg, fu_result = 0, fu_is_ready = False,
            fu_thread = t\<rparr>) st)
          (\<lambda>st. Inr (f, st)))"

definition worker_task ::
    "(nat \<Rightarrow> 'x task) \<Rightarrow> tid \<Rightarrow> addr \<Rightarrow> 'x fut_rt_scheme \<Rightarrow> failure + 'x fut_rt_scheme" where
  "worker_task tasks self f st =
     bindE (field fut_of st f) (\<lambda>fu.
     bindE (if fu_arg fu \<noteq> 0 then ownership_claim self (fu_arg fu) st else Inr st) (\<lambda>st.
     bindE (tasks (fu_task fu) self (fu_arg fu) st) (\<lambda>(res, st).
     Inr (st\<lparr>started := remove1 (self, f) (started st), computed := (self, f, res) # computed st\<rparr>))))"

definition worker_publish :: "tid \<Rightarrow> addr \<Rightarrow> addr \<Rightarrow> 'x fut_rt_scheme \<Rightarrow> failure + 'x fut_rt_scheme" where
  "worker_publish self f res st =
     bindE (field fut_of st f) (\<lambda>fu.
     bindE (write_struct f (Fut (fu\<lparr>fu_result := res, fu_is_ready := True\<rparr>)) st) (\<lambda>st.
     Inr (st\<lparr>computed := remove1 (self, f, res) (computed st), finished := self # finished st\<rparr>)))"

definition pthread_join :: "tid option \<Rightarrow> 'x fut_rt_scheme \<Rightarrow> failure + 'x fut_rt_scheme" where
  "pthread_join t st =
     (case t of None \<Rightarrow> Inl (Undefined ''join of an indeterminate thread'')
      | Some t \<Rightarrow>
          if t \<in> set (finished st) then Inr (st\<lparr>finished := remove1 t (finished st)\<rparr>) else Inl Blocked)"

definition owned_future_await ::
    "tid \<Rightarrow> addr \<Rightarrow> 'x fut_rt_scheme \<Rightarrow> failure + (addr \<times> 'x fut_rt_scheme)" where
  "owned_future_await self f st =
     (if f = 0 then Inr (0, st)
      else bindE (field fut_of st f) (\<lambda>fu.
        if \<not> fu_is_ready fu then Inl Blocked
        else bindE (pthread_join (fu_thread fu) st) (\<lambda>st.
             bindE (owner_free self f st) (\<lambda>st.
             bindE (if fu_result fu \<noteq> 0 then ownership_claim self (fu_result fu) st else Inr st) (\<lambda>st.
             Inr (fu_result fu, st))))))"

subsection \<open>The futures in memory\<close>

definition futs :: "'x rt_scheme \<Rightarrow> addr \<Rightarrow> owned_future option" where
  "futs st p = Option.bind (cell_at st p) (\<lambda>(m, x). fut_of x)"

lemma futs_Some: "futs st p = Some u \<longleftrightarrow> (\<exists>m. cell_at st p = Some (m, Fut u))"
proof -
  have "fut_of x = Some u \<longleftrightarrow> x = Fut u" for x by (cases x) auto
  then show ?thesis by (auto simp: futs_def bind_eq_Some_conv)
qed

lemma fut_more_simps [simp]:
  "cell_at (st\<lparr>next_threads := a\<rparr>) = cell_at st" "rt_wf (st\<lparr>next_threads := a\<rparr>) = rt_wf st"
  "cell_at (st\<lparr>started := b\<rparr>) = cell_at st" "rt_wf (st\<lparr>started := b\<rparr>) = rt_wf st"
  "cell_at (st\<lparr>computed := c\<rparr>) = cell_at st" "rt_wf (st\<lparr>computed := c\<rparr>) = rt_wf st"
  "cell_at (st\<lparr>finished := d\<rparr>) = cell_at st" "rt_wf (st\<lparr>finished := d\<rparr>) = rt_wf st"
  by (simp_all add: fun_eq_iff cell_at_def live_def obj_at_def rt_wf_def rt_inv_def rt_rep_def ring_of_def)

lemma futs_more_simps [simp]:
  "futs (st\<lparr>next_threads := a\<rparr>) = futs st" "futs (st\<lparr>started := b\<rparr>) = futs st"
  "futs (st\<lparr>computed := c\<rparr>) = futs st" "futs (st\<lparr>finished := d\<rparr>) = futs st"
  by (simp_all add: fun_eq_iff futs_def)

lemma fut_more_eq:
  assumes "rt.more s = rt.more t"
  shows "next_threads s = next_threads t" and "started s = started t" and "computed s = computed t"
    and "finished s = finished t"
  using assms by (cases s; cases t; simp)+

lemma futs_field:
  assumes "rt_wf st" and "futs st f = Some u"
  shows "field fut_of st f = Inr u" and "f \<noteq> 0"
  using assms by (auto simp: futs_Some dest: field_cell [of st f _ _ fut_of u] cell_at_nonnull)

lemma futs_upd:
  "cell_at st' = (cell_at st)(p \<mapsto> (m, x)) \<Longrightarrow> futs st' = (futs st)(p := fut_of x)"
  "cell_at st' = (cell_at st)(p := None) \<Longrightarrow> futs st' = (futs st)(p := None)"
  by (auto simp: futs_def fun_eq_iff)

lemma futs_write:
  assumes "rt_wf st" and "cell_at st f = Some (m, y)"
  shows "\<exists>st'. write_struct f (Fut u) st = Inr st' \<and> rt_wf st' \<and> rt.more st' = rt.more st \<and>
    futs st' = (futs st)(f \<mapsto> u)"
  using write_struct_cell [OF assms, of "Fut u"] futs_upd(1) [of "put f (Fut u) st" st f m "Fut u"] by simp

lemma futs_claim:
  assumes "rt_wf st" and "p = 0 \<or> live st p"
    and "(if p \<noteq> 0 then ownership_claim self p st else Inr st) = Inr st'"
  shows "rt_wf st' \<and> rt.more st' = rt.more st \<and> futs st' = futs st"
proof (cases "p = 0")
  case True
  then show ?thesis using assms by simp
next
  case False
  then obtain m x where c: "cell_at st p = Some (m, x)" using assms(2) by (auto simp: cell_at_def)
  obtain s where s: "ownership_claim self p st = Inr s" "rt_wf s" "rt.more s = rt.more st"
    "cell_at s = (cell_at st)(p \<mapsto> (claimed_meta self m, x))" by (rule ownership_claim_cells [OF assms(1) c])
  have "futs s = futs st" using futs_upd(1) [OF s(4)] c by (auto simp: fun_eq_iff futs_def)
  then show ?thesis using s False assms(3) by simp
qed

lemma owner_free_Inr:
  assumes "rt_wf st" and "cell_at st p = Some (m, x)" and "owner_free self p st = Inr st'"
  shows "rt_wf st' \<and> rt.more st' = rt.more st \<and> cell_at st' = (cell_at st)(p := None)"
proof -
  obtain k where k: "get_meta st p = Inr (Some k)" "m = bare k" using assms(2) by (rule cell_at_meta)
  have "free_ok self k"
    using assms(3) k(1) cell_at_nonnull [OF assms(2)]
    by (auto simp: free_ok_def owner_free_def owner_free_internal_def split: if_splits)
  then have "free_ok self m" using k(2) by simp
  from heap.release_result [OF assms(1,2) this] assms(3) show ?thesis by auto
qed

subsection \<open>The machine\<close>

text \<open>What the machine relies on: a task does not touch the futures or the threads.\<close>

definition task_ok :: "'x task \<Rightarrow> bool" where
  "task_ok f \<longleftrightarrow> (\<forall>t a st r st'. rt_wf st \<longrightarrow> f t a st = Inr (r, st') \<longrightarrow>
     rt_wf st' \<and> rt.more st' = rt.more st \<and> futs st' = futs st)"

text \<open>
  Any interleaving of spawning, the two parts of the workers, awaiting and whatever else the program does
  with its own objects.  Claims are for live objects, as the callers have to see to.
\<close>

inductive fut_step :: "(nat \<Rightarrow> 'x task) \<Rightarrow> 'x fut_rt_scheme \<Rightarrow> 'x fut_rt_scheme \<Rightarrow> bool" for tasks where
  spawn: "owned_future_spawn self k arg st = Inr (f, st') \<Longrightarrow> fut_step tasks st st'"
| run: "\<lbrakk>(t, f) \<in> set (started st); futs st f = Some u; fu_arg u = 0 \<or> live st (fu_arg u);
     worker_task tasks t f st = Inr st'\<rbrakk> \<Longrightarrow> fut_step tasks st st'"
| publish: "\<lbrakk>(t, f, r) \<in> set (computed st); worker_publish t f r st = Inr st'\<rbrakk> \<Longrightarrow> fut_step tasks st st'"
| await: "\<lbrakk>futs st f = Some u; fu_result u = 0 \<or> live st (fu_result u) \<and> fu_result u \<noteq> f;
     owned_future_await self f st = Inr (r, st')\<rbrakk> \<Longrightarrow> fut_step tasks st st'"
| other: "\<lbrakk>rt_wf st'; rt.more st' = rt.more st; futs st' = futs st\<rbrakk> \<Longrightarrow> fut_step tasks st st'"

inductive fut_reach :: "(nat \<Rightarrow> 'x task) \<Rightarrow> 'x fut_rt_scheme \<Rightarrow> bool" for tasks where
  init: "\<lbrakk>rt_wf st; futs st = (\<lambda>_. None); started st = []; computed st = []; finished st = [];
     distinct (filter (\<lambda>t. t \<noteq> None) (next_threads st))\<rbrakk> \<Longrightarrow> fut_reach tasks st"
| step: "fut_reach tasks st \<Longrightarrow> fut_step tasks st st' \<Longrightarrow> fut_reach tasks st'"

text \<open>
  The invariant, on the threads to come, started, done with their task and finished, and the futures: no
  thread is in two places; the futures that wait for a thread are those that thread is working on; a future
  that is ready has a thread to join, and no other future has the same.
\<close>

definition coming :: "tid option list \<Rightarrow> tid list" where
  "coming ts = map the (filter (\<lambda>t. t \<noteq> None) ts)"

definition working :: "(tid \<times> addr) list \<Rightarrow> (tid \<times> addr \<times> addr) list \<Rightarrow> (tid \<times> addr) list" where
  "working sd cp = sd @ map (\<lambda>(t, f, r). (t, f)) cp"

definition good_threads ::
    "tid option list \<Rightarrow> (tid \<times> addr) list \<Rightarrow> (tid \<times> addr \<times> addr) list \<Rightarrow> tid list \<Rightarrow>
     (addr \<Rightarrow> owned_future option) \<Rightarrow> bool" where
  "good_threads nt sd cp fin F \<longleftrightarrow>
     distinct (coming nt @ map fst (working sd cp) @ fin) \<and>
     (\<forall>t f. (t, f) \<in> set (working sd cp) \<longleftrightarrow>
        (\<exists>u. F f = Some u \<and> fu_thread u = Some t \<and> \<not> fu_is_ready u)) \<and>
     (\<forall>f u. F f = Some u \<and> fu_is_ready u \<longrightarrow> (\<exists>t \<in> set fin. fu_thread u = Some t)) \<and>
     (\<forall>f g u v. F f = Some u \<and> F g = Some v \<and> fu_is_ready u \<and> fu_is_ready v \<and>
        fu_thread u = fu_thread v \<longrightarrow> f = g)"

lemma coming_simps [simp]: "coming [] = []" "coming (None # ts) = coming ts" "coming (Some t # ts) = t # coming ts"
  by (simp_all add: coming_def)

lemma working_simps [simp]:
  "map fst (working sd cp) = map fst sd @ map fst cp"
  "fst ` set (working sd cp) = fst ` set sd \<union> fst ` set cp"
  "(t, f) \<in> set (working sd cp) \<longleftrightarrow> (t, f) \<in> set sd \<or> (\<exists>r. (t, f, r) \<in> set cp)"
  by (auto simp: working_def split_beta image_iff) force+

lemma good_threadsI:
  assumes "distinct (coming nt @ map fst (working sd cp) @ fin)"
    and "\<And>t f. (t, f) \<in> set (working sd cp) \<longleftrightarrow> (\<exists>u. F f = Some u \<and> fu_thread u = Some t \<and> \<not> fu_is_ready u)"
    and "\<And>f u. F f = Some u \<Longrightarrow> fu_is_ready u \<Longrightarrow> \<exists>t \<in> set fin. fu_thread u = Some t"
    and "\<And>f g u v. \<lbrakk>F f = Some u; F g = Some v; fu_is_ready u; fu_is_ready v; fu_thread u = fu_thread v\<rbrakk> \<Longrightarrow> f = g"
  shows "good_threads nt sd cp fin F"
  unfolding good_threads_def using assms by blast

lemma good_spawn:
  assumes "good_threads (Some t # nt) sd cp fin F" and "F f = None" and "\<not> fu_is_ready u" and "fu_thread u = Some t"
  shows "good_threads nt (sd @ [(t, f)]) cp fin (F(f \<mapsto> u))"
proof -
  have d: "distinct (coming nt @ map fst (working sd cp) @ fin)" "t \<notin> set (coming nt) \<union> fst ` set (working sd cp) \<union> set fin"
    using assms(1) by (auto simp: good_threads_def)
  have w: "set (working (sd @ [(t, f)]) cp) = insert (t, f) (set (working sd cp))" by (auto simp: working_def)
  have "distinct (coming nt @ map fst (working (sd @ [(t, f)]) cp) @ fin)"
    using d by auto
  then show ?thesis using assms w unfolding good_threads_def by auto
qed

lemma good_spawn_failed:
  assumes "good_threads nt sd cp fin F" and "F f = None" and "\<not> fu_is_ready u" and "fu_thread u = None"
  shows "good_threads nt sd cp fin (F(f \<mapsto> u))"
  using assms unfolding good_threads_def by auto

lemma good_run:
  assumes "good_threads nt sd cp fin F" and "(t, f) \<in> set sd"
  shows "good_threads nt (remove1 (t, f) sd) ((t, f, r) # cp) fin F"
proof -
  have d: "distinct (coming nt @ map fst (working sd cp) @ fin)" using assms(1) by (simp add: good_threads_def)
  obtain xs ys where sd: "sd = xs @ (t, f) # ys" "(t, f) \<notin> set xs" using split_list_first [OF assms(2)] by blast
  then have r: "remove1 (t, f) sd = xs @ ys" by (simp add: remove1_append)
  have w: "set (working (remove1 (t, f) sd) ((t, f, r) # cp)) = set (working sd cp)" using r sd by (auto simp: working_def)
  have "distinct (coming nt @ map fst (working (remove1 (t, f) sd) ((t, f, r) # cp)) @ fin)"
    using d r sd by auto
  with assms(1) w show ?thesis unfolding good_threads_def by blast
qed

lemma good_publish:
  assumes "good_threads nt sd cp fin F" and "(t, f, r) \<in> set cp" and "F f = Some u"
  shows "good_threads nt sd (remove1 (t, f, r) cp) (t # fin) (F(f \<mapsto> u\<lparr>fu_result := r, fu_is_ready := True\<rparr>))"
proof -
  have d: "distinct (coming nt @ map fst (working sd cp) @ fin)"
    and iff: "\<And>t f. (t, f) \<in> set (working sd cp) \<longleftrightarrow> (\<exists>u. F f = Some u \<and> fu_thread u = Some t \<and> \<not> fu_is_ready u)"
    and fin: "\<And>f u. F f = Some u \<Longrightarrow> fu_is_ready u \<Longrightarrow> \<exists>t \<in> set fin. fu_thread u = Some t"
    and inj: "\<And>f g u v. F f = Some u \<Longrightarrow> F g = Some v \<Longrightarrow> fu_is_ready u \<Longrightarrow> fu_is_ready v \<Longrightarrow>
        fu_thread u = fu_thread v \<Longrightarrow> f = g"
    using assms(1) unfolding good_threads_def by blast+
  obtain xs ys where cp: "cp = xs @ (t, f, r) # ys" "(t, f, r) \<notin> set xs" using split_list_first [OF assms(2)] by blast
  then have rm: "remove1 (t, f, r) cp = xs @ ys" by (simp add: remove1_append)
  have tf: "(t, f) \<in> set (working sd cp)" using assms(2) by (force simp: working_def)
  then have u: "fu_thread u = Some t" "\<not> fu_is_ready u" using iff assms(3) by auto
  have only: "t \<notin> fst ` set (working sd (xs @ ys))" "t \<notin> set fin" using d cp by auto
  have w: "set (working sd cp) = insert (t, f) (set (working sd (xs @ ys)))" using cp by (auto simp: working_def)
  have wk: "(s, g) \<in> set (working sd (xs @ ys)) \<longleftrightarrow> (s, g) \<in> set (working sd cp) \<and> g \<noteq> f" for s g
  proof
    assume a: "(s, g) \<in> set (working sd (xs @ ys))"
    then have st: "s \<noteq> t" using only(1) by force
    have "g \<noteq> f"
    proof
      assume "g = f"
      then have "fu_thread u = Some s" using a w iff [of s f] assms(3) by auto
      with u(1) st show False by simp
    qed
    with a w show "(s, g) \<in> set (working sd cp) \<and> g \<noteq> f" by simp
  next
    assume "(s, g) \<in> set (working sd cp) \<and> g \<noteq> f"
    with w show "(s, g) \<in> set (working sd (xs @ ys))" by auto
  qed
  have "distinct (coming nt @ map fst (working sd (xs @ ys)) @ t # fin)"
    using d cp by auto
  moreover have nt: "fu_thread v \<noteq> Some t" if "F g = Some v" "fu_is_ready v" for g v using fin [OF that] only(2) by auto
  let ?F = "F(f \<mapsto> u\<lparr>fu_result := r, fu_is_ready := True\<rparr>)"
  have "(s, g) \<in> set (working sd (xs @ ys)) \<longleftrightarrow> (\<exists>v. ?F g = Some v \<and> fu_thread v = Some s \<and> \<not> fu_is_ready v)" for s g
    unfolding wk iff by auto
  moreover have "\<exists>s \<in> set (t # fin). fu_thread v = Some s" if "?F g = Some v" "fu_is_ready v" for g v
    using that fin [of g v] u(1) by (auto split: if_splits)
  moreover have "g = h" if *: "?F g = Some v" "?F h = Some w" "fu_is_ready v" "fu_is_ready w" "fu_thread v = fu_thread w" for g h v w
  proof (cases "g = f"; cases "h = f")
    assume "g = f" "h \<noteq> f"
    then show ?thesis using * u(1) nt [of h w] by auto
  next
    assume "g \<noteq> f" "h = f"
    then show ?thesis using * u(1) nt [of g v] by auto
  qed (use * inj in auto)
  ultimately show ?thesis unfolding rm by (rule good_threadsI)
qed

lemma good_await:
  assumes "good_threads nt sd cp fin F" and "F f = Some u" and "fu_is_ready u" and "fu_thread u = Some t"
  shows "good_threads nt sd cp (remove1 t fin) (F(f := None))"
proof -
  have d: "distinct (coming nt @ map fst (working sd cp) @ fin)"
    and iff: "\<And>t f. (t, f) \<in> set (working sd cp) \<longleftrightarrow> (\<exists>u. F f = Some u \<and> fu_thread u = Some t \<and> \<not> fu_is_ready u)"
    and fin: "\<And>f u. F f = Some u \<Longrightarrow> fu_is_ready u \<Longrightarrow> \<exists>t \<in> set fin. fu_thread u = Some t"
    and inj: "\<And>f g u v. F f = Some u \<Longrightarrow> F g = Some v \<Longrightarrow> fu_is_ready u \<Longrightarrow> fu_is_ready v \<Longrightarrow>
        fu_thread u = fu_thread v \<Longrightarrow> f = g"
    using assms(1) unfolding good_threads_def by blast+
  have "distinct fin" using d by simp
  then have rm: "set (remove1 t fin) = set fin - {t}" "distinct (remove1 t fin)" by simp_all
  have d': "distinct (coming nt @ map fst (working sd cp) @ remove1 t fin)" using d rm by auto
  have nt: "fu_thread v \<noteq> Some t" if "F g = Some v" "fu_is_ready v" "g \<noteq> f" for g v
    using inj [OF that(1) assms(2) that(2) assms(3)] assms(4) that(3) by auto
  have fin': "\<exists>s \<in> set (remove1 t fin). fu_thread v = Some s" if "(F(f := None)) g = Some v" "fu_is_ready v" for g v
    using that fin [of g v] nt [of g v] rm(1) by (auto split: if_splits)
  show ?thesis
  proof (rule good_threadsI [OF d'])
    show "(s, g) \<in> set (working sd cp) \<longleftrightarrow> (\<exists>v. (F(f := None)) g = Some v \<and> fu_thread v = Some s \<and> \<not> fu_is_ready v)" for s g
      unfolding iff using assms(2,3) by auto
    show "\<exists>s \<in> set (remove1 t fin). fu_thread v = Some s" if "(F(f := None)) g = Some v" "fu_is_ready v" for g v
      using fin' [OF that] .
    show "g = h" if "(F(f := None)) g = Some v" "(F(f := None)) h = Some w" "fu_is_ready v" "fu_is_ready w"
      "fu_thread v = fu_thread w" for g h v w
      using that inj [of g v h w] by (auto split: if_splits)
  qed
qed

definition fut_inv :: "'x fut_rt_scheme \<Rightarrow> bool" where
  "fut_inv st \<longleftrightarrow> rt_wf st \<and>
     good_threads (next_threads st) (started st) (computed st) (finished st) (futs st)"

lemma fut_inv_spawn:
  assumes "fut_inv st" and "owned_future_spawn self k arg st = Inr (f, st')"
  shows "fut_inv st' \<and> (f \<noteq> 0 \<longrightarrow> (\<exists>u. futs st' f = Some u \<and> fu_task u = k \<and> fu_arg u = arg \<and> \<not> fu_is_ready u \<and>
    fu_thread u = (case next_threads st of [] \<Rightarrow> None | t # _ \<Rightarrow> t))) \<and>
    (\<forall>g v. futs st g = Some v \<longrightarrow> futs st' g = Some v)"
proof -
  have wf: "rt_wf st" and g: "good_threads (next_threads st) (started st) (computed st) (finished st) (futs st)"
    using assms(1) by (auto simp: fut_inv_def)
  have n: "unat (128 :: size_t) + 80 < 2 ^ 64" by simp
  from wf n show ?thesis
  proof (cases rule: heap.alloc_cases [where self = self])
    case (null s)
    then have "st' = s" "f = 0" using assms(2) by (auto simp: owned_future_spawn_def)
    moreover have "futs s = futs st" using null(4) by (simp add: fun_eq_iff futs_def)
    ultimately show ?thesis using null fut_more_eq [OF null(3)] g by (simp add: fut_inv_def)
  next
    case (object p s)
    note m = fut_more_eq [OF object(4)]
    have c: "cell_at s p = Some (fresh_meta self 128, Filled 0xAA)" using object(6) by simp
    have fs: "futs s = futs st" "futs st p = None"
      using object(5,6) by (auto simp: fun_eq_iff futs_def)
    define tc where "tc = pthread_create p s"
    have c2: "cell_at (snd tc) = cell_at s" "rt_wf (snd tc)" "futs (snd tc) = futs s"
      using object(3) by (auto simp: tc_def pthread_create_def split: list.split option.split)
    let ?u = "\<lparr>fu_task = k, fu_arg = arg, fu_result = 0, fu_is_ready = False, fu_thread = fst tc\<rparr>"
    have "cell_at (snd tc) p = Some (fresh_meta self 128, Filled 0xAA)" using c c2 by simp
    from futs_write [OF c2(2) this, of ?u] obtain s2 where s2: "write_struct p (Fut ?u) (snd tc) = Inr s2"
      "rt_wf s2" "rt.more s2 = rt.more (snd tc)" "futs s2 = (futs st)(p \<mapsto> ?u)" using c2(3) fs(1) by auto
    note m2 = fut_more_eq [OF s2(3)]
    have r: "f = p" "st' = s2"
      using assms(2) object(1,2) s2(1) by (auto simp: owned_future_spawn_def tc_def split_beta)
    have "good_threads (next_threads s2) (started s2) (computed s2) (finished s2) (futs s2)"
    proof (cases "next_threads st")
      case Nil
      then show ?thesis using good_spawn_failed [OF g fs(2), of ?u] m m2 s2(4) by (simp add: tc_def pthread_create_def)
    next
      case (Cons t ts)
      show ?thesis
      proof (cases t)
        case None
        have g': "good_threads ts (started st) (computed st) (finished st) (futs st)"
          using g unfolding Cons None good_threads_def coming_simps .
        show ?thesis using good_spawn_failed [OF g' fs(2), of ?u] m m2 s2(4) Cons None
          by (simp add: tc_def pthread_create_def)
      next
        case (Some x)
        have g': "good_threads (Some x # ts) (started st) (computed st) (finished st) (futs st)"
          using g Cons Some by simp
        show ?thesis using good_spawn [OF g' fs(2), of ?u] m m2 s2(4) Cons Some
          by (simp add: tc_def pthread_create_def)
      qed
    qed
    moreover have "fst tc = (case next_threads st of [] \<Rightarrow> None | t # _ \<Rightarrow> t)"
      using m(1) by (auto simp: tc_def pthread_create_def split: list.split option.split)
    ultimately show ?thesis using r s2(2,4) fs(2) by (auto simp: fut_inv_def)
  qed
qed

lemma worker_task_rep:
  assumes "rt_wf st" and "futs st f = Some u" and "fu_arg u = 0 \<or> live st (fu_arg u)"
    and "task_ok (tasks (fu_task u))" and "worker_task tasks t f st = Inr st'"
  obtains r where "rt_wf st'" and "futs st' = futs st" and "next_threads st' = next_threads st"
    and "started st' = remove1 (t, f) (started st)" and "computed st' = (t, f, r) # computed st"
    and "finished st' = finished st"
proof -
  obtain s1 r s2 where s1: "(if fu_arg u \<noteq> 0 then ownership_claim t (fu_arg u) st else Inr st) = Inr s1"
    and s2: "tasks (fu_task u) t (fu_arg u) s1 = Inr (r, s2)"
    and st': "st' = s2\<lparr>started := remove1 (t, f) (started s2), computed := (t, f, r) # computed s2\<rparr>"
    using assms(5) futs_field(1) [OF assms(1,2)] by (auto simp: worker_task_def bindE_eq_Inr)
  have c: "rt_wf s1" "rt.more s1 = rt.more st" "futs s1 = futs st" using futs_claim [OF assms(1,3) s1] by auto
  then have d: "rt_wf s2" "rt.more s2 = rt.more st" "futs s2 = futs st"
    using assms(4) s2 unfolding task_ok_def by metis+
  show thesis using that [of r] st' d fut_more_eq [OF d(2)] by simp
qed

lemma worker_publish_rep:
  assumes "rt_wf st" and "futs st f = Some u"
  obtains st' where "worker_publish t f r st = Inr st'" and "rt_wf st'"
    and "futs st' = (futs st)(f \<mapsto> u\<lparr>fu_result := r, fu_is_ready := True\<rparr>)"
    and "next_threads st' = next_threads st" and "started st' = started st"
    and "computed st' = remove1 (t, f, r) (computed st)" and "finished st' = t # finished st"
proof -
  obtain m where "cell_at st f = Some (m, Fut u)" using assms(2) by (auto simp: futs_Some)
  from futs_write [OF assms(1) this, of "u\<lparr>fu_result := r, fu_is_ready := True\<rparr>"] obtain s where
    s: "write_struct f (Fut (u\<lparr>fu_result := r, fu_is_ready := True\<rparr>)) st = Inr s" "rt_wf s"
    "rt.more s = rt.more st" "futs s = (futs st)(f \<mapsto> u\<lparr>fu_result := r, fu_is_ready := True\<rparr>)" by blast
  show thesis
    using that [of "s\<lparr>computed := remove1 (t, f, r) (computed s), finished := t # finished s\<rparr>"] s
      fut_more_eq [OF s(3)] futs_field(1) [OF assms] by (simp add: worker_publish_def)
qed

lemma owned_future_await_rep:
  assumes "rt_wf st" and "futs st f = Some u" and "fu_result u = 0 \<or> live st (fu_result u) \<and> fu_result u \<noteq> f"
    and "owned_future_await self f st = Inr (r, st')"
  obtains t where "fu_is_ready u" and "fu_thread u = Some t" and "t \<in> set (finished st)" and "r = fu_result u"
    and "rt_wf st'" and "futs st' = (futs st)(f := None)" and "next_threads st' = next_threads st"
    and "started st' = started st" and "computed st' = computed st" and "finished st' = remove1 t (finished st)"
proof -
  note fld = futs_field [OF assms(1,2)]
  obtain m where cm: "cell_at st f = Some (m, Fut u)" using assms(2) by (auto simp: futs_Some)
  obtain s1 s2 where rd: "fu_is_ready u" and s1: "pthread_join (fu_thread u) st = Inr s1"
    and s2: "owner_free self f s1 = Inr s2"
    and s3: "(if fu_result u \<noteq> 0 then ownership_claim self (fu_result u) s2 else Inr s2) = Inr st'"
    and r: "r = fu_result u"
    using assms(4) fld by (auto simp: owned_future_await_def bindE_eq_Inr split: if_splits)
  obtain t where t: "fu_thread u = Some t" "t \<in> set (finished st)"
    "s1 = st\<lparr>finished := remove1 t (finished st)\<rparr>"
    using s1 by (auto simp: pthread_join_def split: option.splits if_splits)
  have w1: "rt_wf s1" "cell_at s1 f = Some (m, Fut u)" using assms(1) cm t(3) by simp_all
  have f2: "rt_wf s2" "rt.more s2 = rt.more s1" "cell_at s2 = (cell_at s1)(f := None)"
    using owner_free_Inr [OF w1 s2] by auto
  have "fu_result u = 0 \<or> live s2 (fu_result u)"
  proof (cases "fu_result u = 0")
    case False
    then obtain c where "cell_at st (fu_result u) = Some c" using assms(3) by (auto simp: cell_at_def)
    then have "cell_at s2 (fu_result u) = Some c" using f2(3) t(3) assms(3) False by simp
    then show ?thesis by (auto simp: cell_at_def split: if_splits)
  qed simp
  from futs_claim [OF f2(1) this s3] have "rt_wf st'" "rt.more st' = rt.more s2" "futs st' = futs s2" by auto
  moreover have "futs s2 = (futs st)(f := None)" using futs_upd(2) [OF f2(3)] t(3) by simp
  moreover have "rt.more st' = rt.more s1" using calculation f2(2) by simp
  ultimately show thesis using that rd t r fut_more_eq [of st' s1] by simp
qed

lemma fut_inv_step:
  assumes "fut_step tasks st st'" and "fut_inv st" and "\<And>k. task_ok (tasks k)"
  shows "fut_inv st'"
  using assms(1)
proof cases
  case (spawn self k arg f)
  then show ?thesis using fut_inv_spawn [OF assms(2)] by blast
next
  case (run t f u)
  have wf: "rt_wf st" using assms(2) by (simp add: fut_inv_def)
  show ?thesis
    by (rule worker_task_rep [OF wf run(2,3) assms(3) run(4)])
      (use assms(2) good_run run(1) in \<open>auto simp: fut_inv_def\<close>)
next
  case (publish t f r)
  have wf: "rt_wf st" and g: "good_threads (next_threads st) (started st) (computed st) (finished st) (futs st)"
    using assms(2) by (simp_all add: fut_inv_def)
  obtain u where u: "futs st f = Some u"
    using g publish(1) unfolding good_threads_def by (metis working_simps(3))
  show ?thesis
    by (rule worker_publish_rep [OF wf u, of t r])
      (use publish good_publish [OF g publish(1) u] in \<open>auto simp: fut_inv_def\<close>)
next
  case (await f u self r)
  have wf: "rt_wf st" and g: "good_threads (next_threads st) (started st) (computed st) (finished st) (futs st)"
    using assms(2) by (simp_all add: fut_inv_def)
  show ?thesis
    by (rule owned_future_await_rep [OF wf await])
      (use good_await [OF g await(1)] in \<open>auto simp: fut_inv_def\<close>)
next
  case other
  then show ?thesis using assms(2) fut_more_eq [OF other(2)] by (simp add: fut_inv_def)
qed

lemma fut_reach_inv:
  assumes "fut_reach tasks st" and "\<And>k. task_ok (tasks k)"
  shows "fut_inv st"
  using assms(1)
proof induction
  case (init st)
  have "distinct (coming (next_threads st))"
    using init(6) by (auto simp: coming_def distinct_map inj_on_def)
  then have "good_threads (next_threads st) [] [] [] (\<lambda>_. None)"
    by (intro good_threadsI) (simp_all add: working_def)
  then show ?case using init by (simp add: fut_inv_def)
next
  case (step st st')
  then show ?case using fut_inv_step [OF step(2) _ assms(2)] by blast
qed

lemma owned_future_await_ready:
  assumes "rt_wf st" and "cell_at st f = Some (m, Fut u)" and "free_ok self m" and "fu_is_ready u"
    and "fu_thread u = Some t" and "t \<in> set (finished st)"
    and "fu_result u = 0 \<or> live st (fu_result u) \<and> fu_result u \<noteq> f"
  shows "\<exists>st'. owned_future_await self f st = Inr (fu_result u, st') \<and> cell_at st' f = None \<and>
    (fu_result u \<noteq> 0 \<longrightarrow> (\<exists>k x. cell_at st (fu_result u) = Some (k, x) \<and>
       cell_at st' (fu_result u) = Some (claimed_meta self k, x)))"
proof -
  let ?s = "st\<lparr>finished := remove1 t (finished st)\<rparr>"
  have c: "cell_at ?s f = Some (m, Fut u)" "rt_wf ?s" using assms(1,2) by simp_all
  obtain s2 where s2: "owner_free self f ?s = Inr s2" "rt_wf s2" "cell_at s2 = (cell_at ?s)(f := None)"
    by (rule heap.release_obtain [OF c(2,1) assms(3)])
  have f: "field fut_of st f = Inr u" "f \<noteq> 0" using assms(1,2) futs_field [of st f u] by (auto simp: futs_Some)
  show ?thesis
  proof (cases "fu_result u = 0")
    case True
    then show ?thesis using f assms(4-6) s2 by (simp add: owned_future_await_def pthread_join_def)
  next
    case False
    then obtain k x where k: "cell_at st (fu_result u) = Some (k, x)" "fu_result u \<noteq> f"
      using assms(7) by (auto simp: cell_at_def)
    then have "cell_at s2 (fu_result u) = Some (k, x)" using s2(3) by simp
    then obtain s3 where "ownership_claim self (fu_result u) s2 = Inr s3"
      "cell_at s3 = (cell_at s2)(fu_result u \<mapsto> (claimed_meta self k, x))"
      by (rule ownership_claim_cells [OF s2(2)]) blast
    then show ?thesis using f assms(4-6) s2 k False by (auto simp: owned_future_await_def pthread_join_def)
  qed
qed


text \<open>A future whose thread could not be created is returned all the same and is never ready: whatever happens
  afterwards, awaiting it blocks.
\<close>

theorem future_without_thread:
  assumes "fut_reach tasks st" and "\<And>k. task_ok (tasks k)" and "futs st f = Some u" and "fu_thread u = None"
    and "(fut_step tasks)\<^sup>*\<^sup>* st st'"
  shows "owned_future_await self f st' = Inl Blocked"
proof -
  have "fut_reach tasks st' \<and> futs st' f = Some u"
    using assms(5)
  proof induction
    case base
    then show ?case using assms(1,3) by simp
  next
    case (step y z)
    have reach: "fut_reach tasks z" using step fut_reach.step by blast
    have "fut_reach tasks y" using step by blast
    then have inv: "fut_inv y" by (rule fut_reach_inv) (rule assms(2))
    then have wf: "rt_wf y" and g: "good_threads (next_threads y) (started y) (computed y) (finished y) (futs y)"
      by (simp_all add: fut_inv_def)
    have busy: "g \<noteq> f" if "(t, g) \<in> set (working (started y) (computed y))" for t g
      using that g step(3) assms(4) unfolding good_threads_def by fastforce
    from step(2) have "futs z f = Some u"
    proof cases
      case (spawn self k arg h)
      then show ?thesis using fut_inv_spawn [OF inv] step(3) by blast
    next
      case (run t h v)
      show ?thesis by (rule worker_task_rep [OF wf run(2,3) assms(2) run(4)]) (use step(3) in auto)
    next
      case (publish t h r)
      have h: "h \<noteq> f" using busy publish(1) by auto
      obtain v where v: "futs y h = Some v"
        using g publish(1) unfolding good_threads_def by (metis working_simps(3))
      show ?thesis by (rule worker_publish_rep [OF wf v, of t r]) (use h step(3) publish in auto)
    next
      case (await h v self r)
      obtain t where "fu_thread v = Some t" "futs z = (futs y)(h := None)"
        by (rule owned_future_await_rep [OF wf await])
      then show ?thesis using step(3) assms(4) await(1) by auto
    next
      case other
      then show ?thesis using step(3) by simp
    qed
    with reach show ?case by blast
  qed
  then have r: "fut_reach tasks st'" "futs st' f = Some u" by auto
  from fut_reach_inv [OF r(1) assms(2)] have inv: "rt_wf st'"
    "good_threads (next_threads st') (started st') (computed st') (finished st') (futs st')"
    by (auto simp: fut_inv_def)
  then have "\<not> fu_is_ready u" using r(2) assms(4) unfolding good_threads_def by fastforce
  then show ?thesis using futs_field [OF inv(1) r(2)] by (simp add: owned_future_await_def)
qed

subsection \<open>A concrete machine\<close>

text \<open>Tasks that return their argument; the next thread is \<open>7\<close>, then creation fails.\<close>

definition echo_tasks :: "nat \<Rightarrow> unit task" where
  "echo_tasks k t a st = Inr (a, st)"

definition fut_start :: fut_rt where
  "fut_start = rt.extend roomy_start (fut_rt.fields [Some 7, None] [] [] [])"

lemma echo_tasks_ok: "task_ok (echo_tasks k)"
  by (simp add: task_ok_def echo_tasks_def)

lemma fut_start_reach: "fut_reach echo_tasks fut_start"
proof (rule fut_reach.init)
  show "rt_wf fut_start"
    using roomy_start_wf by (auto simp: fut_start_def rt.defs fut_rt.defs rt_wf_def rt_inv_def rt_rep_def ring_of_def)
  have "cell_at fut_start q = None" for q
    by (simp add: fut_start_def rt.defs fut_rt.defs roomy_start_def cell_at_def live_def obj_at_def rt_init_def)
  then show "futs fut_start = (\<lambda>_. None)" by (simp add: futs_def fun_eq_iff)
qed (simp_all add: fut_start_def rt.defs fut_rt.defs)

lemmas fut_eval = owned_future_spawn_def worker_task_def worker_publish_def
  owned_future_await_def pthread_create_def pthread_join_def write_struct_def echo_tasks_def fut_start_def
  rt.defs fut_rt.defs roomy_start_def rt_eval field_def

lemma fut_start_spawn:
  obtains s1 s2 where "owned_future_spawn 2 0 0 fut_start = Inr (0x1050, s1)"
    and "owned_future_spawn 2 0 0 s1 = Inr (0x2050, s2)" and "next_threads s1 = [None]"
  by (simp add: fut_eval)


theorem future_without_thread_witness:
  "\<exists>s1 s2. owned_future_spawn 2 0 0 fut_start = Inr (0x1050, s1) \<and>
    owned_future_spawn 2 0 0 s1 = Inr (0x2050, s2) \<and> owned_future_await 2 0x2050 s2 = Inl Blocked"
proof -
  obtain s1 s2 where s: "owned_future_spawn 2 0 0 fut_start = Inr (0x1050, s1)"
    "owned_future_spawn 2 0 0 s1 = Inr (0x2050, s2)" "next_threads s1 = [None]" by (rule fut_start_spawn)
  have r1: "fut_reach echo_tasks s1" by (rule fut_reach.step [OF fut_start_reach fut_step.spawn [OF s(1)]])
  have r2: "fut_reach echo_tasks s2" by (rule fut_reach.step [OF r1 fut_step.spawn [OF s(2)]])
  have "fut_inv s1" using fut_reach_inv [OF r1 echo_tasks_ok] .
  from fut_inv_spawn [OF this s(2)] obtain u where u: "futs s2 0x2050 = Some u" "fu_thread u = None"
    using s(3) by auto
  show ?thesis
    using future_without_thread [OF r2 echo_tasks_ok u rtranclp.rtrancl_refl] s by blast
qed

end
