(* ===== verification/Resources.thy ===== *)
theory Resources
  imports Handover
begin

text \<open>
  The wrappers for files, sockets, locks and threads (\<open>src/ownedc_file.c\<close>, \<open>src/ownedc_socket.c\<close>,
  \<open>src/ownedc_mutex.c\<close>, \<open>src/ownedc_thread.c\<close> and the cleanup handlers in their headers).  The operating system is
  part of the state: what is open, locked or running, and the answers it will give.
\<close>

datatype thread_status = Running | Done | Detached

record os_rt = rt +
  open_files :: "addr \<rightharpoonup> string \<times> string"
  fopen_replies :: "addr list"
  open_socks :: "int \<rightharpoonup> int \<times> int \<times> int"
  socket_replies :: "int list"
  lock_owner :: "addr \<rightharpoonup> tid"
  os_threads :: "tid \<rightharpoonup> thread_status"
  create_replies :: "tid option list"

fun file_of :: "payload \<Rightarrow> safe_file option" where
  "file_of (File f) = Some f"
| "file_of _ = None"

fun sock_of :: "payload \<Rightarrow> safe_socket option" where
  "sock_of (Sock s) = Some s"
| "sock_of _ = None"

fun mutex_of :: "payload \<Rightarrow> safe_mutex option" where
  "mutex_of (Mutex m) = Some m"
| "mutex_of _ = None"

fun thread_of :: "payload \<Rightarrow> safe_thread option" where
  "thread_of (Thread t) = Some t"
| "thread_of _ = None"

subsection \<open>The operating system\<close>

text \<open>A stream that is open already is never handed out again; closing one that is not open is undefined.\<close>

definition fopen :: "string \<Rightarrow> string \<Rightarrow> 'x os_rt_scheme \<Rightarrow> addr \<times> 'x os_rt_scheme" where
  "fopen name mode st =
     (case fopen_replies st of [] \<Rightarrow> (0, st)
      | h # hs \<Rightarrow>
          if h = 0 \<or> open_files st h \<noteq> None then (0, st\<lparr>fopen_replies := hs\<rparr>)
          else (h, st\<lparr>fopen_replies := hs, open_files := (open_files st)(h \<mapsto> (name, mode))\<rparr>))"

definition fclose :: "addr \<Rightarrow> 'x os_rt_scheme \<Rightarrow> failure + 'x os_rt_scheme" where
  "fclose h st =
     (if open_files st h = None then Inl (Undefined ''fclose of a closed stream'')
      else Inr (st\<lparr>open_files := (open_files st)(h := None)\<rparr>))"

definition socket :: "int \<Rightarrow> int \<Rightarrow> int \<Rightarrow> 'x os_rt_scheme \<Rightarrow> int \<times> 'x os_rt_scheme" where
  "socket domain ty protocol st =
     (case socket_replies st of [] \<Rightarrow> (-1, st)
      | d # ds \<Rightarrow>
          if d < 0 \<or> open_socks st d \<noteq> None then (-1, st\<lparr>socket_replies := ds\<rparr>)
          else (d, st\<lparr>socket_replies := ds, open_socks := (open_socks st)(d \<mapsto> (domain, ty, protocol))\<rparr>))"

text \<open>\<open>close\<close> of a descriptor that is not open only returns an error.\<close>

definition close_fd :: "int \<Rightarrow> 'x os_rt_scheme \<Rightarrow> 'x os_rt_scheme" where
  "close_fd d st = st\<lparr>open_socks := (open_socks st)(d := None)\<rparr>"

definition pthread_mutex_lock :: "tid \<Rightarrow> addr \<Rightarrow> 'x os_rt_scheme \<Rightarrow> failure + 'x os_rt_scheme" where
  "pthread_mutex_lock self m st =
     (if lock_owner st m = None then Inr (st\<lparr>lock_owner := (lock_owner st)(m \<mapsto> self)\<rparr>) else Inl Blocked)"

definition pthread_mutex_unlock :: "tid \<Rightarrow> addr \<Rightarrow> 'x os_rt_scheme \<Rightarrow> failure + 'x os_rt_scheme" where
  "pthread_mutex_unlock self m st =
     (if lock_owner st m = Some self then Inr (st\<lparr>lock_owner := (lock_owner st)(m := None)\<rparr>)
      else Inl (Undefined ''unlock of a mutex the thread does not hold''))"

definition os_create :: "'x os_rt_scheme \<Rightarrow> tid option \<times> 'x os_rt_scheme" where
  "os_create st =
     (case create_replies st of
        Some t # ts \<Rightarrow>
          if os_threads st t = None
          then (Some t, st\<lparr>create_replies := ts, os_threads := (os_threads st)(t \<mapsto> Running)\<rparr>)
          else (None, st\<lparr>create_replies := ts\<rparr>)
      | None # ts \<Rightarrow> (None, st\<lparr>create_replies := ts\<rparr>)
      | [] \<Rightarrow> (None, st))"

definition os_join :: "tid \<Rightarrow> 'x os_rt_scheme \<Rightarrow> failure + 'x os_rt_scheme" where
  "os_join t st =
     (case os_threads st t of
        Some Done \<Rightarrow> Inr (st\<lparr>os_threads := (os_threads st)(t := None)\<rparr>)
      | Some Running \<Rightarrow> Inl Blocked
      | _ \<Rightarrow> Inl (Undefined ''join of a thread that is not joinable''))"

definition os_detach :: "tid \<Rightarrow> 'x os_rt_scheme \<Rightarrow> failure + 'x os_rt_scheme" where
  "os_detach t st =
     (case os_threads st t of
        Some Done \<Rightarrow> Inr (st\<lparr>os_threads := (os_threads st)(t := None)\<rparr>)
      | Some Running \<Rightarrow> Inr (st\<lparr>os_threads := (os_threads st)(t \<mapsto> Detached)\<rparr>)
      | _ \<Rightarrow> Inl (Undefined ''detach of a thread that is not joinable''))"

subsection \<open>Files\<close>

definition safe_fopen ::
    "tid \<Rightarrow> string \<Rightarrow> string \<Rightarrow> 'x os_rt_scheme \<Rightarrow> failure + (addr \<times> 'x os_rt_scheme)" where
  "safe_fopen self filename mode st =
     (case fopen filename mode st of (raw_file, st) \<Rightarrow>
      if raw_file = 0 then Inr (0, st)
      else bindE (owner_malloc self 16 st) (\<lambda>(safe_file, st).
        if safe_file = 0 then bindE (fclose raw_file st) (\<lambda>st. Inr (0, st))
        else bindE (write_struct safe_file (File \<lparr>file_handle = raw_file, file_is_closed = False\<rparr>) st)
               (\<lambda>st. Inr (safe_file, st))))"

definition safe_fclose :: "tid \<Rightarrow> addr \<Rightarrow> 'x os_rt_scheme \<Rightarrow> failure + 'x os_rt_scheme" where
  "safe_fclose self f st =
     (if f = 0 then Inr st
      else bindE (field file_of st f) (\<lambda>r.
           bindE (if \<not> file_is_closed r
                  then bindE (if file_handle r \<noteq> 0 then fclose (file_handle r) st else Inr st)
                         (write_struct f (File (r\<lparr>file_is_closed := True\<rparr>)))
                  else Inr st)
             (owner_free self f)))"

definition safe_file_get :: "addr \<Rightarrow> 'x os_rt_scheme \<Rightarrow> failure + addr" where
  "safe_file_get f st =
     (if f = 0 then Inr 0
      else bindE (field file_of st f) (\<lambda>r. Inr (if file_is_closed r then 0 else file_handle r)))"

definition cleanup_safe_file :: "tid \<Rightarrow> addr \<Rightarrow> 'x os_rt_scheme \<Rightarrow> failure + 'x os_rt_scheme" where
  "cleanup_safe_file self f st = (if f \<noteq> 0 then safe_fclose self f st else Inr st)"

subsection \<open>Sockets\<close>

definition safe_socket_new :: "tid \<Rightarrow> int \<Rightarrow> 'x os_rt_scheme \<Rightarrow> failure + (addr \<times> 'x os_rt_scheme)" where
  "safe_socket_new self raw_fd st =
     (if raw_fd < 0 then Inr (0, st)
      else bindE (owner_malloc self 8 st) (\<lambda>(sock, st).
        if sock = 0 then Inr (0, st)
        else bindE (write_struct sock (Sock \<lparr>sock_fd = raw_fd, sock_is_closed = False\<rparr>) st)
               (\<lambda>st. Inr (sock, st))))"

definition safe_socket_create ::
    "tid \<Rightarrow> int \<Rightarrow> int \<Rightarrow> int \<Rightarrow> 'x os_rt_scheme \<Rightarrow> failure + (addr \<times> 'x os_rt_scheme)" where
  "safe_socket_create self domain ty protocol st =
     (case socket domain ty protocol st of (raw_fd, st) \<Rightarrow>
      if raw_fd < 0 then Inr (0, st)
      else bindE (safe_socket_new self raw_fd st) (\<lambda>(sock, st).
        if sock = 0 then Inr (0, close_fd raw_fd st) else Inr (sock, st)))"

definition safe_socket_close :: "tid \<Rightarrow> addr \<Rightarrow> 'x os_rt_scheme \<Rightarrow> failure + 'x os_rt_scheme" where
  "safe_socket_close self sock st =
     (if sock = 0 then Inr st
      else bindE (field sock_of st sock) (\<lambda>r.
           bindE (if \<not> sock_is_closed r
                  then write_struct sock (Sock (r\<lparr>sock_is_closed := True\<rparr>))
                         (if sock_fd r \<ge> 0 then close_fd (sock_fd r) st else st)
                  else Inr st)
             (owner_free self sock)))"

definition safe_socket_get :: "addr \<Rightarrow> 'x os_rt_scheme \<Rightarrow> failure + int" where
  "safe_socket_get sock st =
     (if sock = 0 then Inr (-1)
      else bindE (field sock_of st sock) (\<lambda>r. Inr (if sock_is_closed r then -1 else sock_fd r)))"

definition cleanup_safe_socket :: "tid \<Rightarrow> addr \<Rightarrow> 'x os_rt_scheme \<Rightarrow> failure + 'x os_rt_scheme" where
  "cleanup_safe_socket self sock st = (if sock \<noteq> 0 then safe_socket_close self sock st else Inr st)"

subsection \<open>Locks\<close>

definition safe_mutex_new :: "tid \<Rightarrow> addr \<Rightarrow> 'x os_rt_scheme \<Rightarrow> failure + (addr \<times> 'x os_rt_scheme)" where
  "safe_mutex_new self raw_mutex st =
     (if raw_mutex = 0 then Inr (0, st)
      else bindE (owner_malloc self 16 st) (\<lambda>(sm, st).
        if sm = 0 then Inr (0, st)
        else bindE (write_struct sm (Mutex \<lparr>mx_raw = raw_mutex, mx_is_locked = False\<rparr>) st)
               (\<lambda>st. Inr (sm, st))))"

definition safe_mutex_lock :: "tid \<Rightarrow> addr \<Rightarrow> 'x os_rt_scheme \<Rightarrow> failure + (addr \<times> 'x os_rt_scheme)" where
  "safe_mutex_lock self sm st =
     (if sm = 0 then Inr (0, st)
      else bindE (field mutex_of st sm) (\<lambda>r.
           bindE (pthread_mutex_lock self (mx_raw r) st) (\<lambda>st.
           bindE (write_struct sm (Mutex (r\<lparr>mx_is_locked := True\<rparr>)) st) (\<lambda>st. Inr (sm, st)))))"

definition safe_mutex_unlock :: "tid \<Rightarrow> addr \<Rightarrow> 'x os_rt_scheme \<Rightarrow> failure + 'x os_rt_scheme" where
  "safe_mutex_unlock self sm st =
     (if sm = 0 then Inr st
      else bindE (field mutex_of st sm) (\<lambda>r.
        if mx_is_locked r
        then bindE (pthread_mutex_unlock self (mx_raw r) st)
               (write_struct sm (Mutex (r\<lparr>mx_is_locked := False\<rparr>)))
        else Inr st))"

definition safe_mutex_free :: "tid \<Rightarrow> addr \<Rightarrow> 'x os_rt_scheme \<Rightarrow> failure + 'x os_rt_scheme" where
  "safe_mutex_free self sm st = (if sm = 0 then Inr st else owner_free self sm st)"

definition cleanup_safe_mutex_unlock :: "tid \<Rightarrow> addr \<Rightarrow> 'x os_rt_scheme \<Rightarrow> failure + 'x os_rt_scheme" where
  "cleanup_safe_mutex_unlock self sm st =
     (if sm \<noteq> 0 then bindE (safe_mutex_unlock self sm st) (safe_mutex_free self sm) else Inr st)"

subsection \<open>Threads\<close>

text \<open>The handle is indeterminate until \<open>pthread_create\<close> has stored the thread; the wrapper is freed when that fails.\<close>

definition safe_thread_spawn :: "tid \<Rightarrow> 'x os_rt_scheme \<Rightarrow> failure + (addr \<times> 'x os_rt_scheme)" where
  "safe_thread_spawn self st =
     bindE (owner_malloc self 16 st) (\<lambda>(thread, st).
       if thread = 0 then Inr (0, st)
       else case os_create st of
           (None, st) \<Rightarrow> bindE (owner_free self thread st) (\<lambda>st. Inr (0, st))
         | (Some t, st) \<Rightarrow>
             bindE (write_struct thread (Thread \<lparr>th_handle = t, th_policy = THREAD_CLEANUP_JOIN,
                      th_is_active = True\<rparr>) st) (\<lambda>st. Inr (thread, st)))"

definition safe_thread_set_policy ::
    "addr \<Rightarrow> cleanup_policy \<Rightarrow> 'x os_rt_scheme \<Rightarrow> failure + 'x os_rt_scheme" where
  "safe_thread_set_policy thread policy st =
     (if thread = 0 then Inr st
      else bindE (field thread_of st thread) (\<lambda>r.
           write_struct thread (Thread (r\<lparr>th_policy := policy\<rparr>)) st))"

definition safe_thread_cleanup :: "tid \<Rightarrow> addr \<Rightarrow> 'x os_rt_scheme \<Rightarrow> failure + 'x os_rt_scheme" where
  "safe_thread_cleanup self thread st =
     (if thread = 0 then Inr st
      else bindE (field thread_of st thread) (\<lambda>r.
           bindE (if th_is_active r
                  then bindE (case th_policy r of
                              THREAD_CLEANUP_JOIN \<Rightarrow> os_join (th_handle r) st
                            | THREAD_CLEANUP_DETACH \<Rightarrow> os_detach (th_handle r) st)
                         (write_struct thread (Thread (r\<lparr>th_is_active := False\<rparr>)))
                  else Inr st)
             (owner_free self thread)))"

definition cleanup_safe_thread :: "tid \<Rightarrow> addr \<Rightarrow> 'x os_rt_scheme \<Rightarrow> failure + 'x os_rt_scheme" where
  "cleanup_safe_thread self thread st = (if thread \<noteq> 0 then safe_thread_cleanup self thread st else Inr st)"

subsection \<open>Scopes\<close>

text \<open>
  What a wrapper with a cleanup handler promises: acquiring yields a wrapper of a new handle or nothing at all, the
  handler gives the handle and the wrapper back.  Nested scopes then leave nothing behind.
\<close>

locale raii_resource =
  fixes acquire :: "'s \<Rightarrow> failure + (addr \<times> 's)"
    and cleanup :: "addr \<Rightarrow> 's \<Rightarrow> failure + 's"
    and held :: "'s \<Rightarrow> 'h set"
    and wraps :: "'s \<Rightarrow> addr \<Rightarrow> 'h \<Rightarrow> bool"
    and cells :: "'s \<Rightarrow> addr \<Rightarrow> 'c option"
    and invar :: "'s \<Rightarrow> bool"
  assumes acquire_law: "invar s \<Longrightarrow> \<exists>w s'. acquire s = Inr (w, s') \<and> invar s' \<and>
      (if w = 0 then held s' = held s \<and> cells s' = cells s
       else \<exists>h c. wraps s' w h \<and> h \<notin> held s \<and> held s' = insert h (held s) \<and> cells s w = None \<and>
         cells s' = (cells s)(w \<mapsto> c))"
    and cleanup_law: "invar s \<Longrightarrow> wraps s w h \<Longrightarrow> \<exists>s'. cleanup w s = Inr s' \<and> invar s' \<and>
      held s' = held s - {h} \<and> cells s' = (cells s)(w := None)"
    and cleanup_null: "cleanup 0 s = Inr s"
    and wraps_same: "wraps s w h \<Longrightarrow> invar s' \<Longrightarrow> held s' = held s \<Longrightarrow> cells s' = cells s \<Longrightarrow> wraps s' w h"
begin

fun scopes :: "nat \<Rightarrow> 's \<Rightarrow> failure + 's" where
  "scopes 0 s = Inr s"
| "scopes (Suc n) s = bindE (acquire s) (\<lambda>(w, s). bindE (scopes n s) (cleanup w))"

lemma scopes_balanced:
  "invar s \<Longrightarrow> \<exists>s'. scopes n s = Inr s' \<and> invar s' \<and> held s' = held s \<and> cells s' = cells s"
proof (induction n arbitrary: s)
  case 0
  then show ?case by simp
next
  case (Suc n)
  obtain w s1 where s1: "acquire s = Inr (w, s1)" "invar s1"
    "if w = 0 then held s1 = held s \<and> cells s1 = cells s
     else \<exists>h c. wraps s1 w h \<and> h \<notin> held s \<and> held s1 = insert h (held s) \<and> cells s w = None \<and>
       cells s1 = (cells s)(w \<mapsto> c)"
    using acquire_law [OF Suc.prems] by blast
  obtain s2 where s2: "scopes n s1 = Inr s2" "invar s2" "held s2 = held s1" "cells s2 = cells s1"
    using Suc.IH [OF s1(2)] by blast
  show ?case
  proof (cases "w = 0")
    case True
    then show ?thesis using s1 s2 cleanup_null by simp
  next
    case False
    then obtain h c where h: "wraps s1 w h" "h \<notin> held s" "held s1 = insert h (held s)" "cells s w = None"
      "cells s1 = (cells s)(w \<mapsto> c)" using s1(3) by auto
    have "wraps s2 w h" using wraps_same [OF h(1) s2(2,3,4)] .
    then obtain s3 where "cleanup w s2 = Inr s3" "invar s3" "held s3 = held s2 - {h}" "cells s3 = (cells s2)(w := None)"
      using cleanup_law [OF s2(2)] by blast
    then show ?thesis using s1(1) s2 h by (auto simp: fun_eq_iff)
  qed
qed

end

lemma os_simps [simp]:
  "cell_at (st\<lparr>open_files := a\<rparr>) = cell_at st" "rt_wf (st\<lparr>open_files := a\<rparr>) = rt_wf st"
  "cell_at (st\<lparr>fopen_replies := b\<rparr>) = cell_at st" "rt_wf (st\<lparr>fopen_replies := b\<rparr>) = rt_wf st"
  "cell_at (st\<lparr>open_socks := c\<rparr>) = cell_at st" "rt_wf (st\<lparr>open_socks := c\<rparr>) = rt_wf st"
  "cell_at (st\<lparr>socket_replies := d\<rparr>) = cell_at st" "rt_wf (st\<lparr>socket_replies := d\<rparr>) = rt_wf st"
  "cell_at (st\<lparr>lock_owner := e\<rparr>) = cell_at st" "rt_wf (st\<lparr>lock_owner := e\<rparr>) = rt_wf st"
  "cell_at (st\<lparr>os_threads := f\<rparr>) = cell_at st" "rt_wf (st\<lparr>os_threads := f\<rparr>) = rt_wf st"
  "cell_at (st\<lparr>create_replies := g\<rparr>) = cell_at st" "rt_wf (st\<lparr>create_replies := g\<rparr>) = rt_wf st"
  by (simp_all add: fun_eq_iff cell_at_def live_def obj_at_def rt_wf_def rt_inv_def rt_rep_def ring_of_def)

lemma os_more_eq:
  assumes "rt.more s = rt.more t"
  shows "open_files s = open_files t" and "open_socks s = open_socks t" and "lock_owner s = lock_owner t"
    and "os_threads s = os_threads t" and "fopen_replies s = fopen_replies t"
    and "socket_replies s = socket_replies t" and "create_replies s = create_replies t"
  using assms by (cases s; cases t; simp)+

lemma write_struct_more:
  assumes "rt_wf st" and "cell_at st p = Some (m, y)"
  obtains st' where "write_struct p x st = Inr st'" and "rt_wf st'" and "rt.more st' = rt.more st"
    and "cell_at st' = (cell_at st)(p \<mapsto> (m, x))"
  using that [of "put p x st"] write_struct_cell [OF assms, of x] by simp

text \<open>Giving a wrapper back: the last write to it and its release.\<close>

lemma write_and_free:
  assumes "rt_wf st" and "cell_at st p = Some (m, y)" and "free_ok self m"
  obtains st' where "bindE (write_struct p x st) (owner_free self p) = Inr st'" and "rt_wf st'"
    and "rt.more st' = rt.more st" and "cell_at st' = (cell_at st)(p := None)"
proof -
  obtain s where s: "write_struct p x st = Inr s" "rt_wf s" "rt.more s = rt.more st"
    "cell_at s = (cell_at st)(p \<mapsto> (m, x))" by (rule write_struct_more [OF assms(1,2)])
  have "cell_at s p = Some (m, x)" using s(4) by simp
  then obtain s' where "owner_free self p s = Inr s'" "rt_wf s'" "rt.more s' = rt.more s"
    "cell_at s' = (cell_at s)(p := None)" by (rule heap.release_obtain [OF s(2) _ assms(3)])
  with that s show thesis by auto
qed

definition file_wraps :: "tid \<Rightarrow> 'x os_rt_scheme \<Rightarrow> addr \<Rightarrow> addr \<Rightarrow> bool" where
  "file_wraps self st w h \<longleftrightarrow> h \<noteq> 0 \<and> h \<in> dom (open_files st) \<and>
     (\<exists>m. cell_at st w = Some (m, File \<lparr>file_handle = h, file_is_closed = False\<rparr>) \<and> free_ok self m)"

definition sock_wraps :: "tid \<Rightarrow> 'x os_rt_scheme \<Rightarrow> addr \<Rightarrow> int \<Rightarrow> bool" where
  "sock_wraps self st w d \<longleftrightarrow> 0 \<le> d \<and> d \<in> dom (open_socks st) \<and>
     (\<exists>m. cell_at st w = Some (m, Sock \<lparr>sock_fd = d, sock_is_closed = False\<rparr>) \<and> free_ok self m)"

lemma safe_fopen_rep:
  assumes "rt_wf st"
  shows "\<exists>w st'. safe_fopen self name mode st = Inr (w, st') \<and> rt_wf st' \<and>
    (if w = 0 then dom (open_files st') = dom (open_files st) \<and> cell_at st' = cell_at st
     else \<exists>h c. file_wraps self st' w h \<and> h \<notin> dom (open_files st) \<and>
       dom (open_files st') = insert h (dom (open_files st)) \<and> cell_at st w = None \<and>
       cell_at st' = (cell_at st)(w \<mapsto> c))"
proof -
  obtain h s where f: "fopen name mode st = (h, s)" by (cases "fopen name mode st")
  have s: "rt_wf s" "cell_at s = cell_at st" using f assms by (auto simp: fopen_def split: list.splits if_splits)
  show ?thesis
  proof (cases "h = 0")
    case True
    then have "open_files s = open_files st" using f by (auto simp: fopen_def split: list.splits if_splits)
    then show ?thesis using True f s by (simp add: safe_fopen_def)
  next
    case False
    then have h: "h \<notin> dom (open_files st)" "open_files s = (open_files st)(h \<mapsto> (name, mode))"
      using f by (auto simp: fopen_def split: list.splits if_splits)
    have n: "unat (16 :: size_t) + 80 < 2 ^ 64" by simp
    from s(1) n show ?thesis
    proof (cases rule: heap.alloc_cases [where self = self])
      case (null s1)
      have "open_files s1 = open_files s" by (rule os_more_eq [OF null(3)])
      then show ?thesis using null f False s h by (auto simp: safe_fopen_def fclose_def)
    next
      case (object w s1)
      let ?x = "File \<lparr>file_handle = h, file_is_closed = False\<rparr>"
      have "cell_at s1 w = Some (fresh_meta self 16, Filled 0xAA)" using object(6) by simp
      then obtain s2 where s2: "write_struct w ?x s1 = Inr s2" "rt_wf s2" "rt.more s2 = rt.more s1"
        "cell_at s2 = (cell_at s1)(w \<mapsto> (fresh_meta self 16, ?x))" by (rule write_struct_more [OF object(3)])
      have o: "open_files s2 = (open_files st)(h \<mapsto> (name, mode))"
        using os_more_eq(1) [OF s2(3)] os_more_eq(1) [OF object(4)] h(2) by simp
      have "cell_at s2 = (cell_at st)(w \<mapsto> (fresh_meta self 16, ?x))" using s2(4) object(6) s(2) by simp
      moreover have "file_wraps self s2 w h" using calculation o False by (simp add: file_wraps_def)
      moreover have "safe_fopen self name mode st = Inr (w, s2)"
        using f False object(1,2) s2(1) by (simp add: safe_fopen_def)
      ultimately show ?thesis using s2(2) object(2,5) s(2) o h(1) by auto
    qed
  qed
qed

lemma cleanup_safe_file_rep:
  assumes "rt_wf st" and "file_wraps self st w h"
  shows "\<exists>st'. cleanup_safe_file self w st = Inr st' \<and> rt_wf st' \<and>
    dom (open_files st') = dom (open_files st) - {h} \<and> cell_at st' = (cell_at st)(w := None)"
proof -
  obtain m where h: "h \<noteq> 0" "h \<in> dom (open_files st)" "free_ok self m"
    and c: "cell_at st w = Some (m, File \<lparr>file_handle = h, file_is_closed = False\<rparr>)"
    using assms(2) by (auto simp: file_wraps_def)
  let ?s = "st\<lparr>open_files := (open_files st)(h := None)\<rparr>"
  have "cell_at ?s w = Some (m, File \<lparr>file_handle = h, file_is_closed = False\<rparr>)" "rt_wf ?s" using c assms(1) by simp_all
  from this(2,1) obtain s' where s': "bindE (write_struct w (File \<lparr>file_handle = h, file_is_closed = True\<rparr>) ?s) (owner_free self w) = Inr s'"
    "rt_wf s'" "rt.more s' = rt.more ?s" "cell_at s' = (cell_at ?s)(w := None)"
    by (rule write_and_free [OF _ _ h(3)])
  have "cleanup_safe_file self w st = Inr s'"
    using s'(1) h(1,2) field_cell [OF assms(1) c, of file_of] cell_at_nonnull [OF c]
    by (auto simp: cleanup_safe_file_def safe_fclose_def fclose_def)
  then show ?thesis using s' os_more_eq(1) [OF s'(3)] by auto
qed

lemma safe_socket_create_rep:
  assumes "rt_wf st"
  shows "\<exists>w st'. safe_socket_create self a b c st = Inr (w, st') \<and> rt_wf st' \<and>
    (if w = 0 then dom (open_socks st') = dom (open_socks st) \<and> cell_at st' = cell_at st
     else \<exists>d e. sock_wraps self st' w d \<and> d \<notin> dom (open_socks st) \<and>
       dom (open_socks st') = insert d (dom (open_socks st)) \<and> cell_at st w = None \<and>
       cell_at st' = (cell_at st)(w \<mapsto> e))"
proof -
  obtain d s where f: "socket a b c st = (d, s)" by (cases "socket a b c st")
  have s: "rt_wf s" "cell_at s = cell_at st" using f assms by (auto simp: socket_def split: list.splits if_splits)
  show ?thesis
  proof (cases "d < 0")
    case True
    then have "open_socks s = open_socks st" using f by (auto simp: socket_def split: list.splits if_splits)
    then show ?thesis using True f s by (simp add: safe_socket_create_def)
  next
    case False
    then have h: "d \<notin> dom (open_socks st)" "open_socks s = (open_socks st)(d \<mapsto> (a, b, c))"
      using f by (auto simp: socket_def split: list.splits if_splits)
    have n: "unat (8 :: size_t) + 80 < 2 ^ 64" by simp
    from s(1) n show ?thesis
    proof (cases rule: heap.alloc_cases [where self = self])
      case (null s1)
      have "open_socks s1 = open_socks s" by (rule os_more_eq [OF null(3)])
      then show ?thesis using null f False s h
        by (auto simp: safe_socket_create_def safe_socket_new_def close_fd_def)
    next
      case (object w s1)
      let ?x = "Sock \<lparr>sock_fd = d, sock_is_closed = False\<rparr>"
      have "cell_at s1 w = Some (fresh_meta self 8, Filled 0xAA)" using object(6) by simp
      then obtain s2 where s2: "write_struct w ?x s1 = Inr s2" "rt_wf s2" "rt.more s2 = rt.more s1"
        "cell_at s2 = (cell_at s1)(w \<mapsto> (fresh_meta self 8, ?x))" by (rule write_struct_more [OF object(3)])
      have o: "open_socks s2 = (open_socks st)(d \<mapsto> (a, b, c))"
        using os_more_eq(2) [OF s2(3)] os_more_eq(2) [OF object(4)] h(2) by simp
      have "cell_at s2 = (cell_at st)(w \<mapsto> (fresh_meta self 8, ?x))" using s2(4) object(6) s(2) by simp
      moreover have "sock_wraps self s2 w d" using calculation o False by (simp add: sock_wraps_def)
      moreover have "safe_socket_create self a b c st = Inr (w, s2)"
        using f False object(1,2) s2(1) by (simp add: safe_socket_create_def safe_socket_new_def)
      ultimately show ?thesis using s2(2) object(2,5) s(2) o h(1) by auto
    qed
  qed
qed

lemma cleanup_safe_socket_rep:
  assumes "rt_wf st" and "sock_wraps self st w d"
  shows "\<exists>st'. cleanup_safe_socket self w st = Inr st' \<and> rt_wf st' \<and>
    dom (open_socks st') = dom (open_socks st) - {d} \<and> cell_at st' = (cell_at st)(w := None)"
proof -
  obtain m where h: "0 \<le> d" "free_ok self m"
    and c: "cell_at st w = Some (m, Sock \<lparr>sock_fd = d, sock_is_closed = False\<rparr>)"
    using assms(2) by (auto simp: sock_wraps_def)
  have "cell_at (close_fd d st) w = Some (m, Sock \<lparr>sock_fd = d, sock_is_closed = False\<rparr>)" "rt_wf (close_fd d st)"
    using c assms(1) by (simp_all add: close_fd_def)
  from this(2,1) obtain s' where s': "bindE (write_struct w (Sock \<lparr>sock_fd = d, sock_is_closed = True\<rparr>) (close_fd d st)) (owner_free self w) = Inr s'"
    "rt_wf s'" "rt.more s' = rt.more (close_fd d st)" "cell_at s' = (cell_at (close_fd d st))(w := None)"
    by (rule write_and_free [OF _ _ h(2)])
  have "cleanup_safe_socket self w st = Inr s'"
    using s'(1) h(1) field_cell [OF assms(1) c, of sock_of] cell_at_nonnull [OF c]
    by (simp add: cleanup_safe_socket_def safe_socket_close_def)
  then show ?thesis using s' os_more_eq(2) [OF s'(3)] by (auto simp: close_fd_def)
qed

interpretation files: raii_resource "safe_fopen self name mode" "cleanup_safe_file self"
    "\<lambda>st. dom (open_files st)" "file_wraps self" cell_at rt_wf for self name mode
proof unfold_locales
  show "cleanup_safe_file self 0 s = Inr s" for s by (simp add: cleanup_safe_file_def)
qed (rule safe_fopen_rep cleanup_safe_file_rep; assumption | simp add: file_wraps_def)+

interpretation socks: raii_resource "safe_socket_create self a b c" "cleanup_safe_socket self"
    "\<lambda>st. dom (open_socks st)" "sock_wraps self" cell_at rt_wf for self a b c
proof unfold_locales
  show "cleanup_safe_socket self 0 s = Inr s" for s by (simp add: cleanup_safe_socket_def)
qed (rule safe_socket_create_rep cleanup_safe_socket_rep; assumption | simp add: sock_wraps_def)+

text \<open>C30: Files and sockets in scopes: any number of nested scopes that open a file (a socket) and leave it to the
  cleanup handler ends, whether the system or the allocator refuse some of the requests or not, with exactly the
  streams, descriptors and objects there were before.
\<close>

theorem scopes_leave_nothing:
  assumes "rt_wf st"
  shows "(\<exists>st'. files.scopes self name mode n st = Inr st' \<and>
      dom (open_files st') = dom (open_files st) \<and> cell_at st' = cell_at st) \<and>
    (\<exists>st'. socks.scopes self a b c n st = Inr st' \<and>
      dom (open_socks st') = dom (open_socks st) \<and> cell_at st' = cell_at st)"
  using files.scopes_balanced [OF assms] socks.scopes_balanced [OF assms] by blast

text \<open>Locks: a wrapper of a free mutex locks it, unlocking twice unlocks once, the cleanup handler unlocks what is
  locked and frees the wrapper, and locking a mutex that is held blocks; unlocking through a wrapper that
  another thread has locked is undefined.
\<close>

theorem mutex_protocol:
  assumes "rt_wf st" and "cell_at st w = Some (m, Mutex \<lparr>mx_raw = raw, mx_is_locked = False\<rparr>)" and "free_ok self m"
  shows "(lock_owner st raw = None \<longrightarrow>
      (\<exists>s1 s2. safe_mutex_lock self w st = Inr (w, s1) \<and> lock_owner s1 = (lock_owner st)(raw \<mapsto> self) \<and>
         safe_mutex_unlock self w s1 = Inr s2 \<and> lock_owner s2 = lock_owner st \<and>
         safe_mutex_unlock self w s2 = Inr s2 \<and>
         (\<exists>s3. cleanup_safe_mutex_unlock self w s1 = Inr s3 \<and> lock_owner s3 = lock_owner st \<and>
            cell_at s3 = (cell_at st)(w := None)) \<and>
         (\<forall>t. t \<noteq> self \<longrightarrow>
            safe_mutex_unlock t w s1 = Inl (Undefined ''unlock of a mutex the thread does not hold'')))) \<and>
    (lock_owner st raw \<noteq> None \<longrightarrow> safe_mutex_lock self w st = Inl Blocked)"
proof (intro conjI impI)
  let ?u = "Mutex \<lparr>mx_raw = raw, mx_is_locked = False\<rparr>" and ?l = "Mutex \<lparr>mx_raw = raw, mx_is_locked = True\<rparr>"
  have w: "w \<noteq> 0" "field mutex_of st w = Inr \<lparr>mx_raw = raw, mx_is_locked = False\<rparr>"
    using cell_at_nonnull [OF assms(2)] field_cell [OF assms(1,2), of mutex_of] by simp_all
  {
    assume free: "lock_owner st raw = None"
    let ?s = "st\<lparr>lock_owner := (lock_owner st)(raw \<mapsto> self)\<rparr>"
    have "rt_wf ?s" "cell_at ?s w = Some (m, ?u)" using assms(1,2) by simp_all
    then obtain s1 where s1: "write_struct w ?l ?s = Inr s1" "rt_wf s1" "rt.more s1 = rt.more ?s"
      "cell_at s1 = (cell_at ?s)(w \<mapsto> (m, ?l))" by (rule write_struct_more)
    have o1: "lock_owner s1 = (lock_owner st)(raw \<mapsto> self)" using os_more_eq(3) [OF s1(3)] by simp
    have c1: "cell_at s1 w = Some (m, ?l)" using s1(4) by simp
    have f1: "field mutex_of s1 w = Inr \<lparr>mx_raw = raw, mx_is_locked = True\<rparr>" by (rule field_cell [OF s1(2) c1]) simp
    have l: "safe_mutex_lock self w st = Inr (w, s1)"
      using w s1(1) free by (simp add: safe_mutex_lock_def pthread_mutex_lock_def)
    let ?t = "s1\<lparr>lock_owner := (lock_owner s1)(raw := None)\<rparr>"
    have "rt_wf ?t" "cell_at ?t w = Some (m, ?l)" using s1(2) c1 by simp_all
    then obtain s2 where s2: "write_struct w ?u ?t = Inr s2" "rt_wf s2" "rt.more s2 = rt.more ?t"
      "cell_at s2 = (cell_at ?t)(w \<mapsto> (m, ?u))" by (rule write_struct_more)
    have o2: "lock_owner s2 = lock_owner st" using os_more_eq(3) [OF s2(3)] o1 free by auto
    have c2: "cell_at s2 w = Some (m, ?u)" using s2(4) by simp
    have u: "safe_mutex_unlock self w s1 = Inr s2"
      using w f1 o1 s2(1) by (simp add: safe_mutex_unlock_def pthread_mutex_unlock_def)
    have u2: "safe_mutex_unlock self w s2 = Inr s2"
      using w field_cell [OF s2(2) c2, of mutex_of] by (simp add: safe_mutex_unlock_def)
    obtain s3 where s3: "owner_free self w s2 = Inr s3" "rt.more s3 = rt.more s2" "cell_at s3 = (cell_at s2)(w := None)"
      by (rule heap.release_obtain [OF s2(2) c2 assms(3)])
    have "cleanup_safe_mutex_unlock self w s1 = Inr s3"
      using w u s3(1) by (simp add: cleanup_safe_mutex_unlock_def safe_mutex_free_def)
    moreover have "lock_owner s3 = lock_owner st" using os_more_eq(3) [OF s3(2)] o2 by simp
    moreover have "cell_at s3 = (cell_at st)(w := None)" using s3(3) s2(4) s1(4) by simp
    moreover have "safe_mutex_unlock t w s1 = Inl (Undefined ''unlock of a mutex the thread does not hold'')"
      if "t \<noteq> self" for t
      using that w f1 o1 by (simp add: safe_mutex_unlock_def pthread_mutex_unlock_def)
    ultimately show "\<exists>s1 s2. safe_mutex_lock self w st = Inr (w, s1) \<and> lock_owner s1 = (lock_owner st)(raw \<mapsto> self) \<and>
         safe_mutex_unlock self w s1 = Inr s2 \<and> lock_owner s2 = lock_owner st \<and>
         safe_mutex_unlock self w s2 = Inr s2 \<and>
         (\<exists>s3. cleanup_safe_mutex_unlock self w s1 = Inr s3 \<and> lock_owner s3 = lock_owner st \<and>
            cell_at s3 = (cell_at st)(w := None)) \<and>
         (\<forall>t. t \<noteq> self \<longrightarrow>
            safe_mutex_unlock t w s1 = Inl (Undefined ''unlock of a mutex the thread does not hold''))"
      using l o1 u o2 u2 by blast
  }
  assume "lock_owner st raw \<noteq> None"
  then show "safe_mutex_lock self w st = Inl Blocked"
    using w by (auto simp: safe_mutex_lock_def pthread_mutex_lock_def)
qed

text \<open>Threads: spawning returns a wrapper of a new running thread, or null with nothing left behind; its cleanup
  waits for a running thread and reaps a finished one, unless the policy was changed to detach, and frees the wrapper.
\<close>

theorem thread_lifecycle:
  assumes "rt_wf st"
  shows "\<exists>w s1. safe_thread_spawn self st = Inr (w, s1) \<and> rt_wf s1 \<and>
    (if w = 0 then os_threads s1 = os_threads st \<and> cell_at s1 = cell_at st
     else \<exists>t. os_threads st t = None \<and> os_threads s1 = (os_threads st)(t \<mapsto> Running) \<and>
       cleanup_safe_thread self w s1 = Inl Blocked \<and>
       (\<exists>s2. cleanup_safe_thread self w (s1\<lparr>os_threads := (os_threads s1)(t \<mapsto> Done)\<rparr>) = Inr s2 \<and>
          os_threads s2 = os_threads st \<and> cell_at s2 = cell_at st) \<and>
       (\<exists>s2 s3. safe_thread_set_policy w THREAD_CLEANUP_DETACH s1 = Inr s2 \<and>
          cleanup_safe_thread self w s2 = Inr s3 \<and>
          os_threads s3 = (os_threads st)(t \<mapsto> Detached) \<and> cell_at s3 = cell_at st))"
proof -
  have n: "unat (16 :: size_t) + 80 < 2 ^ 64" by simp
  from assms n show ?thesis
  proof (cases rule: heap.alloc_cases [where self = self])
    case (null s)
    then show ?thesis using os_more_eq(4) [OF null(3)] by (simp add: safe_thread_spawn_def)
  next
    case (object w s)
    obtain r s0 where cr: "os_create s = (r, s0)" by (cases "os_create s")
    have s0: "rt_wf s0" "cell_at s0 = cell_at s" using cr object(3) by (auto simp: os_create_def split: list.splits option.splits if_splits)
    have c0: "cell_at s0 w = Some (fresh_meta self 16, Filled 0xAA)" using s0(2) object(6) by simp
    have ot: "os_threads s = os_threads st" by (rule os_more_eq [OF object(4)])
    have orig: "(cell_at s)(w := None) = cell_at st" using object(5,6) by auto
    show ?thesis
    proof (cases r)
      case None
      then have "os_threads s0 = os_threads st" using cr ot by (auto simp: os_create_def split: list.splits option.splits if_splits)
      moreover obtain s1 where s1: "owner_free self w s0 = Inr s1" "rt_wf s1" "rt.more s1 = rt.more s0"
        "cell_at s1 = (cell_at s0)(w := None)" 
        by (rule heap.release_obtain [OF s0(1) c0 fresh_meta_simps(1)])
      ultimately show ?thesis using None cr object(1,2) s0(2) orig os_more_eq(4) [OF s1(3)]
        by (simp add: safe_thread_spawn_def)
    next
      case (Some t)
      then have t: "os_threads st t = None" "os_threads s0 = (os_threads st)(t \<mapsto> Running)"
        using cr ot by (auto simp: os_create_def split: list.splits option.splits if_splits)
      let ?x = "\<lambda>p a. Thread \<lparr>th_handle = t, th_policy = p, th_is_active = a\<rparr>"
      obtain s1 where s1: "write_struct w (?x THREAD_CLEANUP_JOIN True) s0 = Inr s1" "rt_wf s1" "rt.more s1 = rt.more s0"
        "cell_at s1 = (cell_at s0)(w \<mapsto> (fresh_meta self 16, ?x THREAD_CLEANUP_JOIN True))"
        by (rule write_struct_more [OF s0(1) c0])
      have o1: "os_threads s1 = (os_threads st)(t \<mapsto> Running)" using os_more_eq(4) [OF s1(3)] t(2) by simp
      have c1: "cell_at s1 w = Some (fresh_meta self 16, ?x THREAD_CLEANUP_JOIN True)" using s1(4) by simp
      have f1: "field thread_of s1 w = Inr \<lparr>th_handle = t, th_policy = THREAD_CLEANUP_JOIN, th_is_active = True\<rparr>"
        by (rule field_cell [OF s1(2) c1]) simp
      have sp: "safe_thread_spawn self st = Inr (w, s1)"
        using cr object(1,2) Some s1(1) by (simp add: safe_thread_spawn_def)
      have bl: "cleanup_safe_thread self w s1 = Inl Blocked"
        using f1 o1 object(2) by (simp add: cleanup_safe_thread_def safe_thread_cleanup_def os_join_def)
      let ?d = "s1\<lparr>os_threads := (os_threads s1)(t \<mapsto> Done)\<rparr>" and ?r = "s1\<lparr>os_threads := (os_threads s1)(t := None)\<rparr>"
      have e: "rt_wf ?r" "cell_at ?r w = Some (fresh_meta self 16, ?x THREAD_CLEANUP_JOIN True)" using s1(2) c1 by simp_all
      obtain j where j: "bindE (write_struct w (?x THREAD_CLEANUP_JOIN False) ?r) (owner_free self w) = Inr j"
        "rt.more j = rt.more ?r" "cell_at j = (cell_at ?r)(w := None)" 
        by (rule write_and_free [OF e fresh_meta_simps(1)])
      have fd: "field thread_of ?d w = Inr \<lparr>th_handle = t, th_policy = THREAD_CLEANUP_JOIN, th_is_active = True\<rparr>"
        using s1(2) c1 by (intro field_cell [of ?d w "fresh_meta self 16" "?x THREAD_CLEANUP_JOIN True"]) simp_all
      have jn: "cleanup_safe_thread self w ?d = Inr j" "os_threads j = os_threads st" "cell_at j = cell_at st"
        using fd j(1) object(2) os_more_eq(4) [OF j(2)] o1 t(1) j(3) s1(4) s0(2) orig
        by (auto simp: cleanup_safe_thread_def safe_thread_cleanup_def os_join_def)
      obtain s2 where s2: "write_struct w (?x THREAD_CLEANUP_DETACH True) s1 = Inr s2" "rt_wf s2" "rt.more s2 = rt.more s1"
        "cell_at s2 = (cell_at s1)(w \<mapsto> (fresh_meta self 16, ?x THREAD_CLEANUP_DETACH True))"
        by (rule write_struct_more [OF s1(2) c1])
      have c2: "cell_at s2 w = Some (fresh_meta self 16, ?x THREAD_CLEANUP_DETACH True)" using s2(4) by simp
      have f2: "field thread_of s2 w = Inr \<lparr>th_handle = t, th_policy = THREAD_CLEANUP_DETACH, th_is_active = True\<rparr>"
        by (rule field_cell [OF s2(2) c2]) simp
      have o2: "os_threads s2 = (os_threads st)(t \<mapsto> Running)" using os_more_eq(4) [OF s2(3)] o1 by simp
      let ?g = "s2\<lparr>os_threads := (os_threads s2)(t \<mapsto> Detached)\<rparr>"
      have g: "rt_wf ?g" "cell_at ?g w = Some (fresh_meta self 16, ?x THREAD_CLEANUP_DETACH True)" using s2(2) c2 by simp_all
      obtain k where k: "bindE (write_struct w (?x THREAD_CLEANUP_DETACH False) ?g) (owner_free self w) = Inr k"
        "rt.more k = rt.more ?g" "cell_at k = (cell_at ?g)(w := None)" 
        by (rule write_and_free [OF g fresh_meta_simps(1)])
      have dt: "safe_thread_set_policy w THREAD_CLEANUP_DETACH s1 = Inr s2" "cleanup_safe_thread self w s2 = Inr k"
        "os_threads k = (os_threads st)(t \<mapsto> Detached)" "cell_at k = cell_at st"
        using f1 f2 s2(1) k(1) object(2) os_more_eq(4) [OF k(2)] o2 k(3) s2(4) s1(4) s0(2) orig
        by (auto simp: safe_thread_set_policy_def cleanup_safe_thread_def safe_thread_cleanup_def os_detach_def)
      show ?thesis using sp s1(2) object(2) t(1) o1 bl jn dt by auto
    qed
  qed
qed

subsection \<open>Concrete runs\<close>

definition os_start :: os_rt where
  "os_start = rt.extend roomy_start
     (os_rt.fields Map.empty [0x900] Map.empty [5] Map.empty Map.empty [Some 7])"

lemma os_start_wf: "rt_wf os_start"
  using roomy_start_wf by (auto simp: os_start_def rt.defs os_rt.defs rt_wf_def rt_inv_def rt_rep_def ring_of_def)

lemmas os_eval = os_start_def rt.defs os_rt.defs roomy_start_def rt_eval field_def write_struct_def

theorem scopes_leave_nothing_witness:
  "\<exists>st'. files.scopes 2 ''log'' ''w'' 3 os_start = Inr st' \<and> dom (open_files st') = dom (open_files os_start)"
  using scopes_leave_nothing [OF os_start_wf] by blast

theorem mutex_protocol_witness:
  "\<exists>s0 s1. safe_mutex_new 2 0x500 os_start = Inr (0x1050, s0) \<and> safe_mutex_lock 2 0x1050 s0 = Inr (0x1050, s1) \<and>
    lock_owner s1 = [0x500 \<mapsto> 2]"
proof -
  have "\<exists>s0. safe_mutex_new 2 0x500 os_start = Inr (0x1050, s0) \<and> lock_owner s0 = Map.empty"
    by (simp add: safe_mutex_new_def os_eval)
  then obtain s0 where s0: "safe_mutex_new 2 0x500 os_start = Inr (0x1050, s0)" "lock_owner s0 = Map.empty" by blast
  have n: "unat (16 :: size_t) + 80 < 2 ^ 64" by simp
  from os_start_wf n have "rt_wf s0 \<and> cell_at s0 0x1050 =
      Some (fresh_meta 2 16, Mutex \<lparr>mx_raw = 0x500, mx_is_locked = False\<rparr>)"
  proof (cases rule: heap.alloc_cases [where self = 2])
    case (null s)
    then show ?thesis using s0(1) by (simp add: safe_mutex_new_def)
  next
    case (object w s)
    have "cell_at s w = Some (fresh_meta 2 16, Filled 0xAA)" using object(6) by simp
    from write_struct_cell [OF object(3) this, of "Mutex \<lparr>mx_raw = 0x500, mx_is_locked = False\<rparr>"]
    show ?thesis using s0(1) object(1,2) by (auto simp: safe_mutex_new_def)
  qed
  then have c: "rt_wf s0" "cell_at s0 0x1050 = Some (fresh_meta 2 16, Mutex \<lparr>mx_raw = 0x500, mx_is_locked = False\<rparr>)"
    "free_ok 2 (fresh_meta 2 16)" by simp_all
  from mutex_protocol [OF c] s0 show ?thesis by auto
qed

theorem thread_lifecycle_witness:
  "\<exists>w s1. safe_thread_spawn 2 os_start = Inr (w, s1) \<and> rt_wf s1"
  using thread_lifecycle [OF os_start_wf, of 2] by blast

text \<open>
  Closing a file or a socket, or cleaning up a thread, early frees the wrapper; the cleanup handler of the
  variable then reads the freed wrapper.
\<close>

theorem early_close_then_cleanup:
  "bindE (safe_fopen 2 name mode os_start) (\<lambda>(w, s). bindE (safe_fclose 2 w s) (cleanup_safe_file 2 w)) =
     Inl (Undefined ''not an object of this type'') \<and>
   bindE (safe_socket_create 2 a b c os_start) (\<lambda>(w, s). bindE (safe_socket_close 2 w s) (cleanup_safe_socket 2 w)) =
     Inl (Undefined ''not an object of this type'') \<and>
   bindE (safe_thread_spawn 2 os_start) (\<lambda>(w, s). bindE (safe_thread_set_policy w THREAD_CLEANUP_DETACH s) (\<lambda>s.
     bindE (safe_thread_cleanup 2 w s) (cleanup_safe_thread 2 w))) =
     Inl (Undefined ''not an object of this type'')"
proof (intro conjI)
  show "bindE (safe_fopen 2 name mode os_start) (\<lambda>(w, s). bindE (safe_fclose 2 w s) (cleanup_safe_file 2 w)) =
     Inl (Undefined ''not an object of this type'')"
    by (simp add: safe_fopen_def fopen_def safe_fclose_def fclose_def cleanup_safe_file_def os_eval)
  show "bindE (safe_socket_create 2 a b c os_start) (\<lambda>(w, s). bindE (safe_socket_close 2 w s) (cleanup_safe_socket 2 w)) =
     Inl (Undefined ''not an object of this type'')"
    by (simp add: safe_socket_create_def safe_socket_new_def socket_def safe_socket_close_def close_fd_def
        cleanup_safe_socket_def os_eval)
  show "bindE (safe_thread_spawn 2 os_start) (\<lambda>(w, s). bindE (safe_thread_set_policy w THREAD_CLEANUP_DETACH s) (\<lambda>s.
     bindE (safe_thread_cleanup 2 w s) (cleanup_safe_thread 2 w))) =
     Inl (Undefined ''not an object of this type'')"
    by (simp add: safe_thread_spawn_def os_create_def safe_thread_set_policy_def safe_thread_cleanup_def
        os_detach_def cleanup_safe_thread_def os_eval)
qed

end
