(* ===== verification/Lint.thy ===== *)
theory Lint
  imports Prelude "HOL-Library.Sublist"
begin

text \<open>
  The source checker of \<open>tools/ownedc_lint.c\<close>: it reads a C file line by line, strips comments and the contents of
  string literals, and follows the variables that hold allocations through each function.  Strings
  are lists of characters without the terminating zero; a pointer into a line is an index, and \<open>char\<close>
  functions are those of the C locale.  The messages are values of \<open>lint_msg\<close>; the path they all begin with is left out.
\<close>

definition MAX_LINE_LEN :: nat where "MAX_LINE_LEN = 4096"
definition MAX_VARS :: nat where "MAX_VARS = 1024"
definition MAX_VAR_NAME :: nat where "MAX_VAR_NAME = 128"

datatype var_state = STATE_OWNED | STATE_FREED | STATE_RETURNED

record tracked_var =
  tv_name :: string
  tv_state :: var_state
  line_allocated :: nat
  is_raii :: bool

datatype lint_msg =
    NotOpened
  | Linting
  | RawUse string nat nat
  | ManualFree nat nat
  | DoubleFree nat string string
  | BorrowAfterFree nat string string
  | Leak nat string nat string
  | Summary nat nat

text \<open>The static variables of the checker, the local variables of \<open>lint_file\<close>, and what was printed.\<close>

record lint =
  tracked_vars :: "tracked_var list"
  current_func :: string
  prev_line :: string
  line_no :: nat
  nesting_level :: int
  in_function :: bool
  in_block_comment :: bool
  local_errors :: nat
  local_warnings :: nat
  printed :: "lint_msg list"

subsection \<open>Characters and strings\<close>

definition is_ident :: "char \<Rightarrow> bool" where
  "is_ident c \<longleftrightarrow> isalnum c \<or> c = CHR ''_''"

fun is_prefix :: "string \<Rightarrow> string \<Rightarrow> bool" where
  "is_prefix [] s = True"
| "is_prefix (c # w) [] = False"
| "is_prefix (c # w) (d # s) = (c = d \<and> is_prefix w s)"

text \<open>\<open>strstr\<close> and \<open>strchr\<close>, as the index of the first match.\<close>

fun strstr :: "string \<Rightarrow> string \<Rightarrow> nat option" where
  "strstr [] w = (if w = [] then Some 0 else None)"
| "strstr (c # s) w = (if is_prefix w (c # s) then Some 0 else map_option Suc (strstr s w))"

fun strchr :: "string \<Rightarrow> char \<Rightarrow> nat option" where
  "strchr [] c = None"
| "strchr (d # s) c = (if d = c then Some 0 else map_option Suc (strchr s c))"

definition extract_identifier :: "string \<Rightarrow> string" where
  "extract_identifier start = take (MAX_VAR_NAME - 1) (takeWhile is_ident (dropWhile isspace start))"

subsection \<open>The table of variables\<close>

text \<open>The first entry with the name, changed; \<open>None\<close> when there is none.\<close>

fun update_first :: "string \<Rightarrow> (tracked_var \<Rightarrow> tracked_var) \<Rightarrow> tracked_var list \<Rightarrow> tracked_var list option" where
  "update_first name f [] = None"
| "update_first name f (v # vs) =
     (if tv_name v = name then Some (f v # vs) else map_option (Cons v) (update_first name f vs))"

fun find_var :: "string \<Rightarrow> tracked_var list \<Rightarrow> tracked_var option" where
  "find_var name [] = None"
| "find_var name (v # vs) = (if tv_name v = name then Some v else find_var name vs)"

definition add_tracked_var :: "string \<Rightarrow> nat \<Rightarrow> bool \<Rightarrow> lint \<Rightarrow> lint" where
  "add_tracked_var name line raii st =
     (if length (tracked_vars st) \<ge> MAX_VARS then st
      else case update_first name
             (\<lambda>v. v\<lparr>tv_state := STATE_OWNED, line_allocated := line, is_raii := raii\<rparr>) (tracked_vars st) of
          Some vs \<Rightarrow> st\<lparr>tracked_vars := vs\<rparr>
        | None \<Rightarrow> st\<lparr>tracked_vars := tracked_vars st @
            [\<lparr>tv_name = take (MAX_VAR_NAME - 1) name, tv_state = STATE_OWNED, line_allocated = line,
              is_raii = raii\<rparr>]\<rparr>)"

definition report_error :: "lint_msg \<Rightarrow> lint \<Rightarrow> lint" where
  "report_error m st = st\<lparr>printed := printed st @ [m], local_errors := local_errors st + 1\<rparr>"

definition report_warning :: "lint_msg \<Rightarrow> lint \<Rightarrow> lint" where
  "report_warning m st = st\<lparr>printed := printed st @ [m], local_warnings := local_warnings st + 1\<rparr>"

definition mark_freed :: "string \<Rightarrow> lint \<Rightarrow> lint" where
  "mark_freed name st =
     (case find_var name (tracked_vars st) of None \<Rightarrow> st
      | Some v \<Rightarrow>
          if tv_state v = STATE_FREED then report_error (DoubleFree (line_no st) name (current_func st)) st
          else st\<lparr>tracked_vars :=
                 the (update_first name (\<lambda>v. v\<lparr>tv_state := STATE_FREED\<rparr>) (tracked_vars st))\<rparr>)"

definition check_borrow :: "string \<Rightarrow> lint \<Rightarrow> lint" where
  "check_borrow name st =
     (case find_var name (tracked_vars st) of None \<Rightarrow> st
      | Some v \<Rightarrow>
          if tv_state v = STATE_FREED then report_error (BorrowAfterFree (line_no st) name (current_func st)) st
          else st)"

definition mark_returned :: "string \<Rightarrow> lint \<Rightarrow> lint" where
  "mark_returned name st =
     st\<lparr>tracked_vars := map (\<lambda>v. if tv_name v = name then v\<lparr>tv_state := STATE_RETURNED\<rparr> else v) (tracked_vars st)\<rparr>"

subsection \<open>Words\<close>

definition is_word :: "string \<Rightarrow> nat \<Rightarrow> string \<Rightarrow> bool" where
  "is_word line p word \<longleftrightarrow>
     is_prefix word (drop p line) \<and> (p > 0 \<longrightarrow> \<not> is_ident (line ! (p - 1))) \<and>
     (p + length word < length line \<longrightarrow> \<not> is_ident (line ! (p + length word)))"

definition preceded_by :: "string \<Rightarrow> nat \<Rightarrow> string \<Rightarrow> bool" where
  "preceded_by line p w \<longleftrightarrow> p \<ge> length w \<and> is_prefix w (drop (p - length w) line)"

definition is_raw_alloc_free :: "string \<Rightarrow> nat \<Rightarrow> string \<Rightarrow> bool" where
  "is_raw_alloc_free line p word \<longleftrightarrow>
     is_word line p word \<and> \<not> preceded_by line p ''owner_'' \<and> \<not> preceded_by line p ''OWNEDC_DEFAULT_'' \<and>
     \<not> preceded_by line p ''global_'' \<and> \<not> preceded_by line p ''openssl_'' \<and> \<not> preceded_by line p ''cJSON_''"

text \<open>Comments and string contents; \<open>in_string\<close> begins as false on every line.\<close>

fun strip :: "bool \<Rightarrow> bool \<Rightarrow> string \<Rightarrow> string \<times> bool" where
  "strip in_block in_string [] = ([], in_block)"
| "strip True in_string [c] = strip True in_string []"
| "strip True in_string (c # d # s) =
     (if c = CHR ''*'' \<and> d = CHR ''/'' then strip False in_string s else strip True in_string (d # s))"
| "strip False True [c] = (if c = CHR 0x22 then ([c], False) else ([], False))"
| "strip False True (c # d # s) =
     (if c = CHR 0x5C then strip False True s
      else if c = CHR 0x22 then (case strip False False (d # s) of (t, b) \<Rightarrow> (c # t, b))
      else strip False True (d # s))"
| "strip False False [c] = ([c], False)"
| "strip False False (c # d # s) =
     (if c = CHR ''/'' \<and> d = CHR ''*'' then strip True False s
      else if c = CHR ''/'' \<and> d = CHR ''/'' then ([], False)
      else case strip False (c = CHR 0x22) (d # s) of (t, b) \<Rightarrow> (c # t, b))"

definition preprocess_line :: "string \<Rightarrow> bool \<Rightarrow> string \<times> bool" where
  "preprocess_line line in_block = strip in_block False line"

subsection \<open>A line\<close>

text \<open>The scan for raw allocation functions, character by character.\<close>

definition scan_at :: "string \<Rightarrow> nat \<Rightarrow> lint \<Rightarrow> lint" where
  "scan_at line p st =
     (if is_word line p ''malloc''
      then (if is_raw_alloc_free line p ''malloc'' then report_warning (RawUse ''malloc'' (line_no st) (p + 1)) st else st)
      else if is_word line p ''calloc''
      then (if is_raw_alloc_free line p ''calloc'' then report_warning (RawUse ''calloc'' (line_no st) (p + 1)) st else st)
      else if is_word line p ''realloc''
      then (if is_raw_alloc_free line p ''realloc'' then report_warning (RawUse ''realloc'' (line_no st) (p + 1)) st else st)
      else if is_word line p ''free''
      then (if is_raw_alloc_free line p ''free'' then report_error (RawUse ''free'' (line_no st) (p + 1)) st else st)
      else st)"

definition scan_raw :: "string \<Rightarrow> lint \<Rightarrow> lint" where
  "scan_raw line st = fold (scan_at line) [0..<length line] st"

fun braces :: "string \<Rightarrow> int \<Rightarrow> int" where
  "braces [] n = n"
| "braces (c # s) n =
     braces s (if c = CHR ''{'' then n + 1 else if c = CHR ''}'' then n - 1 else n)"

text \<open>The loops that walk back from \<open>p\<close> while the character satisfies \<open>f\<close>, but not past the beginning.\<close>

fun walk_back :: "(char \<Rightarrow> bool) \<Rightarrow> string \<Rightarrow> nat \<Rightarrow> nat" where
  "walk_back f line 0 = 0"
| "walk_back f line (Suc p) = (if f (line ! Suc p) then walk_back f line p else Suc p)"

definition substring :: "string \<Rightarrow> nat \<Rightarrow> nat \<Rightarrow> string" where
  "substring line start len = take len (drop start line)"

text \<open>The identifier that ends at \<open>p\<close> or before the white space there: its start and its length.\<close>

definition ident_before :: "string \<Rightarrow> nat \<Rightarrow> nat \<times> int" where
  "ident_before line p =
     (let fin = walk_back isspace line p;
          b = walk_back is_ident line fin;
          start = (if is_ident (line ! b) then b else b + 1)
      in (start, int fin - int start + 1))"

text \<open>With the parenthesis in the first column, \<open>paren - 1\<close> lies before the line.\<close>

definition function_name :: "string \<Rightarrow> string \<Rightarrow> failure + string" where
  "function_name clean prev =
     (case (case strchr clean CHR ''('' of Some i \<Rightarrow> Some (clean, i)
            | None \<Rightarrow> map_option (Pair prev) (strchr prev CHR ''('')) of
        None \<Rightarrow> Inr ''function''
      | Some (base_line, 0) \<Rightarrow> Inl (Undefined ''read before the beginning of the line'')
      | Some (base_line, Suc p) \<Rightarrow>
          (case ident_before base_line p of (start, len) \<Rightarrow>
             Inr (if 0 < len \<and> len < 255 then substring base_line start (nat len) else ''function'')))"

definition enter_function :: "string \<Rightarrow> lint \<Rightarrow> failure + lint" where
  "enter_function clean_line st =
     bindE (function_name clean_line (prev_line st)) (\<lambda>name.
       Inr (st\<lparr>in_function := True, tracked_vars := [], current_func := name\<rparr>))"

definition find_alloc :: "string \<Rightarrow> nat option" where
  "find_alloc line =
     (case strstr line ''owner_malloc'' of Some i \<Rightarrow> Some i
      | None \<Rightarrow> (case strstr line ''owner_calloc'' of Some i \<Rightarrow> Some i
                | None \<Rightarrow> strstr line ''owner_realloc''))"

text \<open>The variable on the left of the last \<open>=\<close> before the call.\<close>

definition assigned_var :: "string \<Rightarrow> nat \<Rightarrow> string option" where
  "assigned_var line alloc =
     (case walk_back (\<lambda>c. c \<noteq> CHR ''='') line alloc of
        0 \<Rightarrow> None
      | Suc e \<Rightarrow>
          (case ident_before line e of (start, len) \<Rightarrow>
             if 0 < len \<and> len < int MAX_VAR_NAME then Some (substring line start (nat len)) else None))"

definition check_alloc :: "string \<Rightarrow> lint \<Rightarrow> lint" where
  "check_alloc line st =
     (case find_alloc line of None \<Rightarrow> st
      | Some alloc \<Rightarrow>
          let raii = (strstr line ''OWNED'' \<noteq> None);
              st = (if raii then st else report_warning (ManualFree (line_no st) (alloc + 1)) st)
          in case assigned_var line alloc of None \<Rightarrow> st
             | Some name \<Rightarrow> add_tracked_var name (line_no st) raii st)"

lemma strstr_bound: "strstr s w = Some i \<Longrightarrow> i + length w \<le> length s"
proof (induction s arbitrary: i)
  case Nil
  then show ?case by (simp split: if_splits)
next
  case (Cons c s)
  have p: "is_prefix w s \<Longrightarrow> length w \<le> length s" for w s :: string
    by (induction w s rule: is_prefix.induct) auto
  show ?case
  proof (cases "is_prefix w (c # s)")
    case True
    then show ?thesis using Cons.prems p [of w "c # s"] by simp
  next
    case False
    then obtain j where "strstr s w = Some j" "i = Suc j" using Cons.prems by auto
    with Cons.IH show ?thesis by simp
  qed
qed

text \<open>The arguments of the calls of \<open>fn\<close> in the line, as the loops over \<open>owner_free\<close> and \<open>ownership_borrow\<close> find them.\<close>

function (sequential) call_args :: "string \<Rightarrow> string \<Rightarrow> string list" where
  "call_args fn s =
     (if fn = [] then []
      else case strstr s fn of None \<Rightarrow> []
      | Some i \<Rightarrow>
          (case dropWhile (\<lambda>c. c \<noteq> CHR ''('') (drop (i + length fn) s) of
             [] \<Rightarrow> []
           | _ # r \<Rightarrow>
               let name = extract_identifier r
               in (if name \<noteq> [] then [name] else []) @ call_args fn r))"
  by pat_completeness auto
termination
proof (relation "measure (\<lambda>(fn, s). length s)", goal_cases)
  case 1
  then show ?case by simp
next
  case (2 fn s i c r)
  have "length (dropWhile (\<lambda>c. c \<noteq> CHR ''('') (drop (i + length fn) s)) \<le> length (drop (i + length fn) s)"
    by (rule length_dropWhile_le)
  then show ?case using 2 strstr_bound [OF 2(2)] by simp
qed

declare call_args.simps [simp del]

definition check_return :: "string \<Rightarrow> lint \<Rightarrow> lint" where
  "check_return line st =
     (case strstr line ''return'' of None \<Rightarrow> st
      | Some r \<Rightarrow>
          if is_word line r ''return''
          then let name = extract_identifier (dropWhile isspace (drop (r + 6) line))
               in if name \<noteq> [] then mark_returned name st else st
          else st)"

definition function_line :: "string \<Rightarrow> lint \<Rightarrow> lint" where
  "function_line line st =
     check_return line
      (fold check_borrow (call_args ''ownership_borrow'' line)
       (fold mark_freed (call_args ''owner_free'' line) (check_alloc line st)))"

definition report_leak :: "tracked_var \<Rightarrow> lint \<Rightarrow> lint" where
  "report_leak v st =
     (if tv_state v = STATE_OWNED \<and> \<not> is_raii v
      then report_error (Leak (line_no st) (tv_name v) (line_allocated v) (current_func st)) st else st)"

definition exit_function :: "lint \<Rightarrow> lint" where
  "exit_function st =
     (fold report_leak (tracked_vars st) st)\<lparr>in_function := False, tracked_vars := [], current_func := []\<rparr>"

definition finish_line :: "string \<Rightarrow> lint \<Rightarrow> lint" where
  "finish_line clean_line st =
     (let st = (if in_function st then function_line clean_line st else st);
          st = (if in_function st \<and> nesting_level st = 0 then exit_function st else st)
      in if clean_line \<noteq> [] \<and> last clean_line \<noteq> CHR 0x0A then st\<lparr>prev_line := clean_line\<rparr> else st)"

definition lint_line :: "string \<Rightarrow> lint \<Rightarrow> failure + lint" where
  "lint_line raw_line st =
     (case preprocess_line raw_line (in_block_comment st) of (clean_line, in_block) \<Rightarrow>
      let st = scan_raw clean_line (st\<lparr>line_no := line_no st + 1, in_block_comment := in_block\<rparr>);
          braces_before = nesting_level st;
          st = st\<lparr>nesting_level := braces clean_line (nesting_level st)\<rparr>
      in bindE (if braces_before = 0 \<and> nesting_level st > 0 \<and> \<not> in_function st
                then enter_function clean_line st else Inr st) (\<lambda>st.
         Inr (finish_line clean_line st)))"

subsection \<open>Files\<close>

text \<open>\<open>fgets\<close>: a line with its end, but at most 4095 characters; what follows a zero character is not seen.\<close>

function fgets_lines :: "string \<Rightarrow> string list" where
  "fgets_lines s =
     (if s = [] then []
      else let l = take (MAX_LINE_LEN - 1) s;
               piece = takeWhile (\<lambda>c. c \<noteq> CHR 0x0A) l @ take 1 (dropWhile (\<lambda>c. c \<noteq> CHR 0x0A) l)
           in takeWhile (\<lambda>c. c \<noteq> CHR 0x00) piece # fgets_lines (drop (length piece) s))"
  by pat_completeness auto
termination
proof (relation "measure length", goal_cases)
  case 1
  then show ?case by simp
next
  case (2 s l piece)
  have l: "l \<noteq> []" using 2 by (simp add: MAX_LINE_LEN_def)
  have "takeWhile (\<lambda>c. c \<noteq> CHR 0x0A) l @ dropWhile (\<lambda>c. c \<noteq> CHR 0x0A) l = l" by simp
  then have "piece \<noteq> []" using l 2(3) by (metis append_is_Nil_conv take_eq_Nil zero_neq_one)
  then show ?case using 2 by simp
qed

declare fgets_lines.simps [simp del]

definition lint_file :: "(string \<Rightarrow> string option) \<Rightarrow> string \<Rightarrow> lint \<Rightarrow> failure + (nat \<times> nat \<times> lint)" where
  "lint_file files filepath st =
     (case files filepath of
        None \<Rightarrow> Inr (1, 0, st\<lparr>printed := printed st @ [NotOpened]\<rparr>)
      | Some content \<Rightarrow>
          bindE (foldE lint_line (fgets_lines content)
            (st\<lparr>printed := printed st @ [Linting], prev_line := [], line_no := 0, nesting_level := 0,
                in_function := False, in_block_comment := False, local_errors := 0, local_warnings := 0\<rparr>)) (\<lambda>st.
          Inr (local_errors st, local_warnings st,
               st\<lparr>printed := printed st @ [Summary (local_errors st) (local_warnings st)]\<rparr>)))"

text \<open>The exit status, the totals and the state after all files.\<close>

fun lint_files ::
    "(string \<Rightarrow> string option) \<Rightarrow> string list \<Rightarrow> nat \<times> nat \<times> lint \<Rightarrow> failure + (nat \<times> nat \<times> lint)" where
  "lint_files files [] r = Inr r"
| "lint_files files (p # ps) (e, w, st) =
     bindE (lint_file files p st) (\<lambda>(e', w', st). lint_files files ps (e + e', w + w', st))"

definition lint_init :: lint where
  "lint_init = \<lparr>tracked_vars = [], current_func = [], prev_line = [], line_no = 0, nesting_level = 0,
     in_function = False, in_block_comment = False, local_errors = 0, local_warnings = 0, printed = []\<rparr>"

definition lint_main :: "(string \<Rightarrow> string option) \<Rightarrow> string list \<Rightarrow> failure + (nat \<times> lint_msg list)" where
  "lint_main files argv =
     (if length argv < 2 then Inr (1, [])
      else bindE (lint_files files (tl argv) (0, 0, lint_init)) (\<lambda>(e, w, st).
        Inr (if e > 0 then 1 else 0, printed st)))"

subsection \<open>Stripping\<close>

lemma strip_first: "c \<noteq> CHR ''/'' \<Longrightarrow> \<exists>t. fst (strip False False (c # s)) = c # t"
  by (cases s) (auto split: prod.splits)

lemma strip_again: "strip False (q \<and> \<not> b) (fst (strip b q s)) = (fst (strip b q s), False)"
  if "b \<longrightarrow> \<not> q" for b q s
  using that
proof (induction b q s rule: strip.induct)
  case (5 c d s)
  then show ?case by (cases "fst (strip False False (d # s))") (auto split: prod.splits)
next
  case (7 c d s)
  show ?case
  proof (cases "c = CHR ''/'' \<and> (d = CHR ''*'' \<or> d = CHR ''/'')")
    case True
    then show ?thesis using 7 by auto
  next
    case False
    let ?t = "fst (strip False (c = CHR 0x22) (d # s))"
    have out: "fst (strip False False (c # d # s)) = c # ?t" using False by (auto split: prod.splits)
    have IH: "strip False (c = CHR 0x22) ?t = (?t, False)" using 7 False by auto
    have "strip False False (c # ?t) = (c # ?t, False)"
    proof (cases ?t)
      case (Cons e u)
      have "\<not> (c = CHR ''/'' \<and> (e = CHR ''*'' \<or> e = CHR ''/''))"
      proof
        assume c: "c = CHR ''/'' \<and> (e = CHR ''*'' \<or> e = CHR ''/'')"
        then have d: "d \<noteq> CHR ''/''" "d \<noteq> CHR ''*''" using False by auto
        from strip_first [OF d(1), of s] Cons c have "e = d" by auto
        with c d show False by simp
      qed
      then show ?thesis using Cons IH by auto
    qed simp
    then show ?thesis by (simp only: out simp_thms)
  qed
qed (auto split: prod.splits)

lemma strip_subseq: "subseq (fst (strip b q s)) s"
proof (induction b q s rule: strip.induct)
  case (5 c d s)
  then show ?case by (auto split: prod.splits intro: list_emb_Cons)
next
  case (7 c d s)
  then show ?case by (auto split: prod.splits intro: list_emb_Cons)
qed (auto split: prod.splits intro: list_emb_Cons)

lemma strip_plain: "CHR ''/'' \<notin> set s \<Longrightarrow> CHR 0x22 \<notin> set s \<Longrightarrow> strip False False s = (s, False)"
  by (induction s rule: induct_list012) auto

text \<open>\<open>preprocess_line\<close> only deletes characters, leaves a line without slashes and quotes as it is, and leaves nothing
  to delete: applied to its own result it changes nothing, so that no comment and no string contents survive it.
\<close>

theorem preprocess_idempotent:
  "subseq (fst (preprocess_line line b)) line \<and>
   (CHR ''/'' \<notin> set line \<and> CHR 0x22 \<notin> set line \<longrightarrow> preprocess_line line False = (line, False)) \<and>
   preprocess_line (fst (preprocess_line line b)) False = (fst (preprocess_line line b), False)"
  using strip_again [of b False line] strip_subseq [of b False line] strip_plain [of line]
  by (auto simp: preprocess_line_def)

subsection \<open>Raw allocation functions\<close>

lemma is_prefix_append: "is_prefix w s \<longleftrightarrow> (\<exists>t. s = w @ t)"
  by (induction w s rule: is_prefix.induct) auto

lemma preceded_by_last:
  assumes "preceded_by line p w" and "w \<noteq> []"
  shows "p > 0 \<and> line ! (p - 1) = last w"
proof -
  obtain t where t: "drop (p - length w) line = w @ t" and l: "length w \<le> p"
    using assms(1) by (auto simp: preceded_by_def is_prefix_append)
  have "0 < length w" using assms(2) by simp
  then have "line ! (p - length w + (length w - 1)) = (w @ t) ! (length w - 1)"
    using t by (metis nth_drop drop_all linorder_le_cases nle_le append_is_Nil_conv assms(2))
  moreover have "p - length w + (length w - 1) = p - 1" using l \<open>0 < length w\<close> by arith
  moreover have "0 < p" using l \<open>0 < length w\<close> by linarith
  ultimately show ?thesis using \<open>0 < length w\<close> assms(2) by (simp add: nth_append last_conv_nth)
qed

text \<open>The tests of the prefix find nothing that the test for a whole word has not excluded.\<close>

lemma is_raw_alloc_free_eq: "is_raw_alloc_free line p w = is_word line p w"
proof -
  have "\<not> preceded_by line p v" if "is_word line p w" "v \<noteq> []" "last v = CHR ''_''" for v
  proof
    assume "preceded_by line p v"
    from preceded_by_last [OF this that(2)] that show False by (simp add: is_word_def is_ident_def)
  qed
  then show ?thesis by (auto simp: is_raw_alloc_free_def)
qed

definition raw_hits :: "string \<Rightarrow> nat \<Rightarrow> string list" where
  "raw_hits line p = filter (is_word line p) [''malloc'', ''calloc'', ''realloc'', ''free'']"

lemma raw_hits_cases:
  "raw_hits line p = (if is_word line p ''malloc'' then [''malloc'']
     else if is_word line p ''calloc'' then [''calloc'']
     else if is_word line p ''realloc'' then [''realloc'']
     else if is_word line p ''free'' then [''free''] else [])"
proof -
  have h: "drop p line = c # t \<Longrightarrow> is_word line p (d # w) \<Longrightarrow> c = d" for c d t w
    by (auto simp: is_word_def)
  have n: "drop p line = [] \<Longrightarrow> \<not> is_word line p (d # w)" for d w by (auto simp: is_word_def)
  show ?thesis
  proof (cases "drop p line")
    case Nil
    then show ?thesis using n by (simp add: raw_hits_def)
  next
    case (Cons c t)
    then show ?thesis using h [OF Cons] unfolding raw_hits_def by auto
  qed
qed

lemma scan_at_eq:
  "scan_at line p st =
     (case raw_hits line p of [] \<Rightarrow> st
      | w # _ \<Rightarrow> if w = ''free'' then report_error (RawUse w (line_no st) (p + 1)) st
               else report_warning (RawUse w (line_no st) (p + 1)) st)"
  unfolding scan_at_def raw_hits_cases is_raw_alloc_free_eq by simp

lemma raw_hits_length: "raw_hits line p = [] \<or> (\<exists>w. raw_hits line p = [w])"
  unfolding raw_hits_cases by auto

lemma scan_at_effect:
  "printed (scan_at line p st) = printed st @ map (\<lambda>w. RawUse w (line_no st) (p + 1)) (raw_hits line p)"
  "line_no (scan_at line p st) = line_no st"
  "local_errors (scan_at line p st) = local_errors st + count_list (raw_hits line p) ''free''"
  "local_warnings (scan_at line p st) + count_list (raw_hits line p) ''free'' =
     local_warnings st + length (raw_hits line p)"
  using raw_hits_length [of line p]
  by (auto simp: scan_at_eq report_error_def report_warning_def)

text \<open>The scan for raw allocation functions reports, in the order of the line, exactly the places where
  \<open>malloc\<close>, \<open>calloc\<close>, \<open>realloc\<close> or \<open>free\<close> stands as a whole identifier, the first three as warnings and \<open>free\<close> as an error.
\<close>

theorem raw_scan_exact:
  "printed (scan_raw line st) = printed st @
     concat (map (\<lambda>p. map (\<lambda>w. RawUse w (line_no st) (p + 1)) (raw_hits line p)) [0..<length line]) \<and>
   local_errors (scan_raw line st) =
     local_errors st + count_list (concat (map (raw_hits line) [0..<length line])) ''free'' \<and>
   local_warnings (scan_raw line st) + count_list (concat (map (raw_hits line) [0..<length line])) ''free'' =
     local_warnings st + length (concat (map (raw_hits line) [0..<length line]))"
proof -
  have "line_no (fold (scan_at line) ps st) = line_no st \<and>
    printed (fold (scan_at line) ps st) = printed st @
     concat (map (\<lambda>p. map (\<lambda>w. RawUse w (line_no st) (p + 1)) (raw_hits line p)) ps) \<and>
   local_errors (fold (scan_at line) ps st) =
     local_errors st + count_list (concat (map (raw_hits line) ps)) ''free'' \<and>
   local_warnings (fold (scan_at line) ps st) + count_list (concat (map (raw_hits line) ps)) ''free'' =
     local_warnings st + length (concat (map (raw_hits line) ps))" for ps
  proof (induction ps arbitrary: st)
    case (Cons p ps)
    show ?case using Cons.IH [of "scan_at line p st"] scan_at_effect [of line p st] by simp
  qed simp
  then show ?thesis by (simp add: scan_raw_def)
qed

subsection \<open>The ownership of variables\<close>

text \<open>What a function does with its variables, as the checker sees it, and the ownership that follows.\<close>

datatype lint_event =
    Allocates string nat bool
  | Frees string
  | Borrows string
  | Returns string

type_synonym ownership = "string \<rightharpoonup> var_state \<times> nat \<times> bool"

definition set_state :: "string \<Rightarrow> var_state \<Rightarrow> ownership \<Rightarrow> ownership" where
  "set_state x s T = (case T x of None \<Rightarrow> T | Some (_, l, r) \<Rightarrow> T(x \<mapsto> (s, l, r)))"

definition is_freed :: "string \<Rightarrow> ownership \<Rightarrow> bool" where
  "is_freed x T \<longleftrightarrow> (\<exists>l r. T x = Some (STATE_FREED, l, r))"

fun own_step :: "lint_event \<Rightarrow> ownership \<Rightarrow> ownership" where
  "own_step (Allocates x l r) T = T(x \<mapsto> (STATE_OWNED, l, r))"
| "own_step (Frees x) T = set_state x STATE_FREED T"
| "own_step (Borrows x) T = T"
| "own_step (Returns x) T = set_state x STATE_RETURNED T"

fun own_errors :: "nat \<Rightarrow> string \<Rightarrow> lint_event \<Rightarrow> ownership \<Rightarrow> lint_msg list" where
  "own_errors n fn (Allocates x l r) T = []"
| "own_errors n fn (Frees x) T = (if is_freed x T then [DoubleFree n x fn] else [])"
| "own_errors n fn (Borrows x) T = (if is_freed x T then [BorrowAfterFree n x fn] else [])"
| "own_errors n fn (Returns x) T = []"

fun own_run :: "string \<Rightarrow> (nat \<times> lint_event) list \<Rightarrow> ownership \<Rightarrow> lint_msg list \<times> ownership" where
  "own_run fn [] T = ([], T)"
| "own_run fn ((n, e) # es) T =
     (case own_run fn es (own_step e T) of (ms, T') \<Rightarrow> (own_errors n fn e T @ ms, T'))"

text \<open>The same events in the checker.\<close>

fun check_event :: "lint_event \<Rightarrow> lint \<Rightarrow> lint" where
  "check_event (Allocates x l r) st = add_tracked_var x l r st"
| "check_event (Frees x) st = mark_freed x st"
| "check_event (Borrows x) st = check_borrow x st"
| "check_event (Returns x) st = mark_returned x st"

definition own_of :: "tracked_var \<Rightarrow> var_state \<times> nat \<times> bool" where
  "own_of v = (tv_state v, line_allocated v, is_raii v)"

definition table :: "lint \<Rightarrow> ownership" where
  "table st x = map_option own_of (find_var x (tracked_vars st))"

definition table_ok :: "lint \<Rightarrow> bool" where
  "table_ok st \<longleftrightarrow> distinct (map tv_name (tracked_vars st))"

lemma find_var_None: "find_var x vs = None \<longleftrightarrow> x \<notin> tv_name ` set vs"
  by (induction vs) auto

lemma update_first_found: "x \<in> tv_name ` set vs \<Longrightarrow> \<exists>us. update_first x f vs = Some us"
  by (induction vs) auto

lemma update_first_absent: "x \<notin> tv_name ` set vs \<Longrightarrow> update_first x f vs = None"
  by (induction vs) auto

lemma update_first_Some:
  assumes "update_first x f vs = Some us" and "\<And>v. tv_name (f v) = tv_name v"
  shows "map tv_name us = map tv_name vs" and "find_var y us = (if y = x then map_option f (find_var x vs) else find_var y vs)"
  using assms by (induction vs arbitrary: us) (auto split: if_splits)

lemma find_var_append: "find_var x (vs @ us) = (case find_var x vs of None \<Rightarrow> find_var x us | Some v \<Rightarrow> Some v)"
  by (induction vs) auto

lemma find_var_map:
  assumes "\<And>v. tv_name (g v) = tv_name v"
  shows "find_var x (map g vs) = map_option g (find_var x vs)"
  by (induction vs) (auto simp: assms)

lemma find_var_name: "find_var x vs = Some v \<Longrightarrow> tv_name v = x"
  by (induction vs) (auto split: if_splits)

definition short :: "lint_event \<Rightarrow> bool" where
  "short e \<longleftrightarrow> (\<forall>x l r. e = Allocates x l r \<longrightarrow> length x < MAX_VAR_NAME)"

lemma check_event_alloc:
  assumes "table_ok st" and "length x < MAX_VAR_NAME" and "length (tracked_vars st) < MAX_VARS"
  shows "table (add_tracked_var x l r st) = (table st)(x \<mapsto> (STATE_OWNED, l, r)) \<and>
    table_ok (add_tracked_var x l r st) \<and> printed (add_tracked_var x l r st) = printed st \<and>
    line_no (add_tracked_var x l r st) = line_no st \<and> current_func (add_tracked_var x l r st) = current_func st \<and>
    length (tracked_vars (add_tracked_var x l r st)) \<le> length (tracked_vars st) + 1"
proof (cases "find_var x (tracked_vars st)")
  case None
  then have n: "x \<notin> tv_name ` set (tracked_vars st)" by (simp add: find_var_None)
  then have u: "update_first x f (tracked_vars st) = None" for f by (rule update_first_absent)
  have t: "take (MAX_VAR_NAME - 1) x = x" using assms(2) by simp
  show ?thesis using assms(1,3) n None u t
    by (auto simp: add_tracked_var_def table_def table_ok_def find_var_append fun_eq_iff own_of_def split: option.splits)
next
  case (Some v)
  let ?f = "\<lambda>v. v\<lparr>tv_state := STATE_OWNED, line_allocated := l, is_raii := r\<rparr>"
  have "x \<in> tv_name ` set (tracked_vars st)" using Some find_var_None [of x "tracked_vars st"] by auto
  then obtain us where us: "update_first x ?f (tracked_vars st) = Some us" using update_first_found by blast
  note w = update_first_Some [OF us, simplified]
  have "length us = length (tracked_vars st)" using w(1) by (metis length_map)
  then show ?thesis using assms(1,3) us w Some
    by (auto simp: add_tracked_var_def table_def table_ok_def fun_eq_iff own_of_def)
qed

lemma table_set_state:
  assumes "\<And>y. find_var y vs = (if y = x then map_option (\<lambda>v. v\<lparr>tv_state := s\<rparr>) (find_var x (tracked_vars st)) else find_var y (tracked_vars st))"
  shows "table (st\<lparr>tracked_vars := vs\<rparr>) = set_state x s (table st)"
proof (cases "find_var x (tracked_vars st)")
  case None
  then show ?thesis using assms by (auto simp: table_def set_state_def fun_eq_iff)
next
  case (Some v)
  then show ?thesis using assms by (auto simp: table_def set_state_def fun_eq_iff own_of_def)
qed

lemma is_freed_table: "is_freed x (table st) \<longleftrightarrow> (\<exists>v. find_var x (tracked_vars st) = Some v \<and> tv_state v = STATE_FREED)"
  by (auto simp: is_freed_def table_def own_of_def)

lemma check_event_free:
  assumes "table_ok st"
  shows "table (mark_freed x st) = set_state x STATE_FREED (table st) \<and> table_ok (mark_freed x st) \<and>
    printed (mark_freed x st) = printed st @ (if is_freed x (table st) then [DoubleFree (line_no st) x (current_func st)] else []) \<and>
    line_no (mark_freed x st) = line_no st \<and> current_func (mark_freed x st) = current_func st \<and>
    length (tracked_vars (mark_freed x st)) = length (tracked_vars st)"
proof (cases "find_var x (tracked_vars st)")
  case None
  then show ?thesis using assms
    by (auto simp: mark_freed_def is_freed_table set_state_def table_def)
next
  case (Some v)
  show ?thesis
  proof (cases "tv_state v = STATE_FREED")
    case True
    then have "set_state x STATE_FREED (table st) = table st" using Some
      by (auto simp: set_state_def table_def own_of_def fun_eq_iff)
    then show ?thesis using Some True assms
      by (auto simp: mark_freed_def is_freed_table report_error_def table_def table_ok_def fun_eq_iff)
  next
    case False
    let ?f = "\<lambda>v. v\<lparr>tv_state := STATE_FREED\<rparr>"
    have "x \<in> tv_name ` set (tracked_vars st)" using Some find_var_None [of x "tracked_vars st"] by auto
    then obtain us where us: "update_first x ?f (tracked_vars st) = Some us" using update_first_found by blast
    note w = update_first_Some [OF us, simplified]
    have l: "length us = length (tracked_vars st)" using w(1) by (metis length_map)
    have "table (st\<lparr>tracked_vars := us\<rparr>) = set_state x STATE_FREED (table st)"
      by (rule table_set_state) (rule w(2))
    then show ?thesis using Some False assms us w(1) l
      by (simp add: mark_freed_def is_freed_table table_ok_def)
  qed
qed

lemma check_event_return:
  assumes "table_ok st"
  shows "table (mark_returned x st) = set_state x STATE_RETURNED (table st) \<and> table_ok (mark_returned x st)"
proof -
  let ?g = "\<lambda>v. if tv_name v = x then v\<lparr>tv_state := STATE_RETURNED\<rparr> else v"
  have g: "tv_name (?g v) = tv_name v" for v by simp
  have "find_var y (map ?g (tracked_vars st)) =
      (if y = x then map_option (\<lambda>v. v\<lparr>tv_state := STATE_RETURNED\<rparr>) (find_var x (tracked_vars st))
       else find_var y (tracked_vars st))" for y
    unfolding find_var_map [of ?g, OF g] by (cases "find_var y (tracked_vars st)") (auto dest: find_var_name)
  note t = table_set_state [OF this]
  have "map tv_name (map ?g (tracked_vars st)) = map tv_name (tracked_vars st)" by simp
  with t assms show ?thesis by (simp add: mark_returned_def table_ok_def del: map_map)
qed

lemma check_event_effect:
  assumes "table_ok st" and "short e" and "length (tracked_vars st) < MAX_VARS"
  shows "table (check_event e st) = own_step e (table st) \<and> table_ok (check_event e st) \<and>
    printed (check_event e st) = printed st @ own_errors (line_no st) (current_func st) e (table st) \<and>
    line_no (check_event e st) = line_no st \<and> current_func (check_event e st) = current_func st \<and>
    length (tracked_vars (check_event e st)) \<le> length (tracked_vars st) + 1"
proof (cases e)
  case (Allocates x l r)
  then show ?thesis using check_event_alloc [OF assms(1) _ assms(3), of x l r] assms(2) by (simp add: short_def)
next
  case (Frees x)
  then show ?thesis using check_event_free [OF assms(1), of x] by simp
next
  case (Borrows x)
  then show ?thesis using assms(1)
    by (auto simp: check_borrow_def report_error_def is_freed_table table_def table_ok_def fun_eq_iff split: option.splits)
next
  case (Returns x)
  then show ?thesis using check_event_return [OF assms(1), of x] by (simp add: mark_returned_def)
qed

lemma check_events_effect:
  assumes "table_ok st" and "list_all short es" and "length (tracked_vars st) + length es \<le> MAX_VARS"
  shows "table (fold check_event es st) = snd (own_run (current_func st) (map (Pair (line_no st)) es) (table st)) \<and>
    table_ok (fold check_event es st) \<and>
    printed (fold check_event es st) =
      printed st @ fst (own_run (current_func st) (map (Pair (line_no st)) es) (table st)) \<and>
    line_no (fold check_event es st) = line_no st \<and> current_func (fold check_event es st) = current_func st \<and>
    length (tracked_vars (fold check_event es st)) \<le> length (tracked_vars st) + length es"
  using assms
proof (induction es arbitrary: st)
  case (Cons e es)
  have l: "length (tracked_vars st) < MAX_VARS" and se: "short e" using Cons.prems(2,3) by simp_all
  note e = check_event_effect [OF Cons.prems(1) se l]
  have "length (tracked_vars (check_event e st)) + length es \<le> MAX_VARS" using e Cons.prems(3) by simp
  with e Cons.IH [of "check_event e st"] Cons.prems(2) show ?case by (simp add: split_beta)
qed simp

text \<open>The events of a line.\<close>

definition line_events :: "string \<Rightarrow> nat \<Rightarrow> lint_event list" where
  "line_events line n =
     (case find_alloc line of None \<Rightarrow> []
      | Some a \<Rightarrow> (case assigned_var line a of None \<Rightarrow> []
                 | Some x \<Rightarrow> [Allocates x n (strstr line ''OWNED'' \<noteq> None)])) @
     map Frees (call_args ''owner_free'' line) @
     map Borrows (call_args ''ownership_borrow'' line) @
     (case strstr line ''return'' of None \<Rightarrow> []
      | Some r \<Rightarrow>
          let x = extract_identifier (dropWhile isspace (drop (r + 6) line))
          in if is_word line r ''return'' \<and> x \<noteq> [] then [Returns x] else [])"

definition manual_warning :: "string \<Rightarrow> nat \<Rightarrow> lint_msg list" where
  "manual_warning line n =
     (case find_alloc line of None \<Rightarrow> []
      | Some a \<Rightarrow> if strstr line ''OWNED'' \<noteq> None then [] else [ManualFree n (a + 1)])"

lemma fold_events_map: "fold f (map g xs) = fold (\<lambda>x. f (g x)) xs"
  by (simp add: fold_map o_def)

lemma function_line_events:
  "\<exists>w. function_line line st =
     fold check_event (line_events line (line_no st))
       (st\<lparr>printed := printed st @ manual_warning line (line_no st), local_warnings := w\<rparr>)"
proof -
  have a: "\<exists>w. check_alloc line st =
     fold check_event (case find_alloc line of None \<Rightarrow> []
        | Some a \<Rightarrow> (case assigned_var line a of None \<Rightarrow> []
                   | Some x \<Rightarrow> [Allocates x (line_no st) (strstr line ''OWNED'' \<noteq> None)]))
       (st\<lparr>printed := printed st @ manual_warning line (line_no st), local_warnings := w\<rparr>)"
  proof (cases "find_alloc line")
    case None
    then show ?thesis by (intro exI [of _ "local_warnings st"]) (simp add: check_alloc_def manual_warning_def)
  next
    case (Some i)
    show ?thesis
    proof (cases "strstr line ''OWNED''")
      case None
      with Some show ?thesis
        by (intro exI [of _ "local_warnings st + 1"])
          (cases "assigned_var line i"; simp add: check_alloc_def manual_warning_def report_warning_def)
    next
      case (Some j)
      with \<open>find_alloc line = Some i\<close> show ?thesis
        by (intro exI [of _ "local_warnings st"])
          (cases "assigned_var line i"; simp add: check_alloc_def manual_warning_def)
    qed
  qed
  have r: "check_return line u = fold check_event
     (case strstr line ''return'' of None \<Rightarrow> []
      | Some r \<Rightarrow>
          let x = extract_identifier (dropWhile isspace (drop (r + 6) line))
          in if is_word line r ''return'' \<and> x \<noteq> [] then [Returns x] else []) u" for u
    by (auto simp: check_return_def Let_def split: option.splits)
  have ff: "fold mark_freed xs = fold check_event (map Frees xs)" "fold check_borrow xs = fold check_event (map Borrows xs)" for xs
  proof -
    have "(\<lambda>x. check_event (Frees x)) = mark_freed" "(\<lambda>x. check_event (Borrows x)) = check_borrow"
      by (intro ext; simp)+
    then show "fold mark_freed xs = fold check_event (map Frees xs)" "fold check_borrow xs = fold check_event (map Borrows xs)"
      by (simp_all add: fold_events_map)
  qed
  from a show ?thesis unfolding function_line_def line_events_def r ff by (auto simp: fold_append)
qed

lemma extract_identifier_short: "length (extract_identifier s) < MAX_VAR_NAME"
  by (simp add: extract_identifier_def MAX_VAR_NAME_def)

lemma line_events_short: "list_all short (line_events line n)"
proof -
  have "length x < MAX_VAR_NAME" if "assigned_var line a = Some x" for a x
    using that by (auto simp: assigned_var_def substring_def split: nat.splits prod.splits if_splits)
  then have "list_all short (case find_alloc line of None \<Rightarrow> []
      | Some a \<Rightarrow> (case assigned_var line a of None \<Rightarrow> [] | Some x \<Rightarrow> [Allocates x n (strstr line ''OWNED'' \<noteq> None)]))"
    by (simp add: short_def split: option.split)
  moreover have "short (Frees x)" "short (Borrows x)" "short (Returns x)" for x by (simp_all add: short_def)
  ultimately show ?thesis
    unfolding line_events_def by (auto simp: list_all_iff Let_def split: option.split)
qed

lemma function_line_effect:
  assumes "table_ok st" and "length (tracked_vars st) + length (line_events line (line_no st)) \<le> MAX_VARS"
  shows "table (function_line line st) =
      snd (own_run (current_func st) (map (Pair (line_no st)) (line_events line (line_no st))) (table st)) \<and>
    printed (function_line line st) = printed st @ manual_warning line (line_no st) @
      fst (own_run (current_func st) (map (Pair (line_no st)) (line_events line (line_no st))) (table st)) \<and>
    table_ok (function_line line st) \<and> line_no (function_line line st) = line_no st \<and>
    current_func (function_line line st) = current_func st \<and>
    length (tracked_vars (function_line line st)) \<le> length (tracked_vars st) + length (line_events line (line_no st))"
proof -
  obtain w where w: "function_line line st = fold check_event (line_events line (line_no st))
       (st\<lparr>printed := printed st @ manual_warning line (line_no st), local_warnings := w\<rparr>)"
    using function_line_events by blast
  have t: "table (st\<lparr>printed := p, local_warnings := k\<rparr>) = table st" for p k by (simp add: table_def fun_eq_iff)
  show ?thesis
    using check_events_effect [OF _ line_events_short [of line "line_no st"],
        of "st\<lparr>printed := printed st @ manual_warning line (line_no st), local_warnings := w\<rparr>"] assms
    unfolding w by (simp add: t table_ok_def)
qed

text \<open>The lines of a function body.\<close>

fun function_body :: "string list \<Rightarrow> lint \<Rightarrow> lint" where
  "function_body [] st = st"
| "function_body (l # ls) st = function_body ls (function_line l (st\<lparr>line_no := line_no st + 1\<rparr>))"

fun body_events :: "string list \<Rightarrow> nat \<Rightarrow> (nat \<times> lint_event) list" where
  "body_events [] n = []"
| "body_events (l # ls) n = map (Pair (n + 1)) (line_events l (n + 1)) @ body_events ls (n + 1)"

fun is_manual :: "lint_msg \<Rightarrow> bool" where
  "is_manual (ManualFree n c) = True"
| "is_manual _ = False"

lemma own_run_append:
  "own_run fn (es @ fs) T =
     (fst (own_run fn es T) @ fst (own_run fn fs (snd (own_run fn es T))), snd (own_run fn fs (snd (own_run fn es T))))"
  by (induction fn es T rule: own_run.induct) (auto split: prod.splits)

lemma own_errors_not_manual: "filter (\<lambda>m. \<not> is_manual m) (fst (own_run fn es T)) = fst (own_run fn es T)"
proof (induction fn es T rule: own_run.induct)
  case (2 fn n e es T)
  have "filter (\<lambda>m. \<not> is_manual m) (own_errors n fn e T) = own_errors n fn e T" by (cases e) simp_all
  with 2 show ?case by (simp add: split_beta)
qed simp

lemma function_body_effect:
  assumes "table_ok st" and "length (tracked_vars st) + length (body_events ls (line_no st)) \<le> MAX_VARS"
  shows "table (function_body ls st) = snd (own_run (current_func st) (body_events ls (line_no st)) (table st)) \<and>
    filter (\<lambda>m. \<not> is_manual m) (printed (function_body ls st)) =
      filter (\<lambda>m. \<not> is_manual m) (printed st) @
      fst (own_run (current_func st) (body_events ls (line_no st)) (table st)) \<and>
    table_ok (function_body ls st)"
  using assms
proof (induction ls arbitrary: st)
  case (Cons l ls)
  let ?s = "st\<lparr>line_no := line_no st + 1\<rparr>"
  have t: "table ?s = table st" "table_ok ?s" using Cons.prems(1) by (simp_all add: table_def fun_eq_iff table_ok_def)
  have b: "length (tracked_vars ?s) + length (line_events l (line_no ?s)) \<le> MAX_VARS" using Cons.prems(2) by simp
  note e = function_line_effect [OF t(2) b]
  have "filter (\<lambda>m. \<not> is_manual m) (manual_warning l n) = []" for n
    by (auto simp: manual_warning_def split: option.splits)
  moreover have "length (tracked_vars (function_line l ?s)) + length (body_events ls (line_no (function_line l ?s))) \<le> MAX_VARS"
    using e Cons.prems(2) by simp
  ultimately show ?case using Cons.IH [of "function_line l ?s"] e t
    by (simp add: own_run_append own_errors_not_manual)
qed simp


subsection \<open>What is reported\<close>

lemma own_run_table: "snd (own_run fn es T) = fold own_step (map snd es) T"
  by (induction fn es T rule: own_run.induct) (auto split: prod.splits)

lemma tracked_iff: "fold own_step es Map.empty x \<noteq> None \<longleftrightarrow> (\<exists>l r. Allocates x l r \<in> set es)"
proof (induction es rule: rev_induct)
  case (snoc e es)
  show ?case
    by (cases e) (use snoc in \<open>auto simp: set_state_def split: option.splits\<close>)
qed simp

text \<open>A variable is freed when its last change was a free.\<close>

lemma freed_iff:
  "is_freed x (fold own_step es Map.empty) \<longleftrightarrow>
     (\<exists>as bs. es = as @ Frees x # bs \<and> (\<exists>l r. Allocates x l r \<in> set as) \<and>
        (\<forall>e \<in> set bs. e \<noteq> Returns x \<and> (\<forall>l r. e \<noteq> Allocates x l r)))" (is "_ \<longleftrightarrow> ?h es")
proof (induction es rule: rev_induct)
  case Nil
  show ?case by (simp add: is_freed_def)
next
  case (snoc e es)
  let ?T = "fold own_step es Map.empty"
  have keep: "?h (es @ [e]) \<longleftrightarrow> ?h es" if ne: "e \<noteq> Frees x" "e \<noteq> Returns x" "\<And>l r. e \<noteq> Allocates x l r"
  proof
    assume "?h (es @ [e])"
    then obtain as bs where h: "es @ [e] = as @ Frees x # bs" "\<exists>l r. Allocates x l r \<in> set as"
      "\<forall>e \<in> set bs. e \<noteq> Returns x \<and> (\<forall>l r. e \<noteq> Allocates x l r)" by blast
    then obtain cs where "bs = cs @ [e]" using ne(1) by (cases bs rule: rev_cases) auto
    with h show "?h es" by auto
  next
    assume "?h es"
    then obtain as bs where "es = as @ Frees x # bs" "\<exists>l r. Allocates x l r \<in> set as"
      "\<forall>e \<in> set bs. e \<noteq> Returns x \<and> (\<forall>l r. e \<noteq> Allocates x l r)" by blast
    with ne show "?h (es @ [e])" by (intro exI [of _ as] exI [of _ "bs @ [e]"]) simp
  qed
  have lost: "\<not> ?h (es @ [e])" if "e = Returns x \<or> (\<exists>l r. e = Allocates x l r)"
  proof
    assume "?h (es @ [e])"
    then obtain as bs where h: "es @ [e] = as @ Frees x # bs" "\<forall>e \<in> set bs. e \<noteq> Returns x \<and> (\<forall>l r. e \<noteq> Allocates x l r)" by blast
    then have "e = Frees x \<or> e \<in> set bs" by (cases bs rule: rev_cases) auto
    with h(2) that show False by auto
  qed
  have same: "is_freed x (own_step e ?T) \<longleftrightarrow> is_freed x ?T" if "e \<noteq> Frees x" "e \<noteq> Returns x" "\<And>l r. e \<noteq> Allocates x l r"
    by (cases e) (use that in \<open>auto simp: is_freed_def set_state_def split: option.splits\<close>)
  consider "e = Frees x" | "e = Returns x \<or> (\<exists>l r. e = Allocates x l r)"
    | "e \<noteq> Frees x" "e \<noteq> Returns x" "\<And>l r. e \<noteq> Allocates x l r" by blast
  then show ?case
  proof cases
    case 1
    have "is_freed x (own_step e ?T) \<longleftrightarrow> ?T x \<noteq> None" using 1 by (auto simp: is_freed_def set_state_def split: option.splits)
    moreover have "?h (es @ [e]) \<longleftrightarrow> (\<exists>l r. Allocates x l r \<in> set es)"
    proof
      assume "?h (es @ [e])"
      then obtain as bs where h: "es @ [e] = as @ Frees x # bs" "\<exists>l r. Allocates x l r \<in> set as" by blast
      then have "set as \<subseteq> set es" by (cases bs rule: rev_cases) auto
      with h(2) show "\<exists>l r. Allocates x l r \<in> set es" by blast
    next
      assume "\<exists>l r. Allocates x l r \<in> set es"
      with 1 show "?h (es @ [e])" by (intro exI [of _ es] exI [of _ "[]"]) simp
    qed
    ultimately show ?thesis using tracked_iff [of es x] by simp
  next
    case 2
    then have "\<not> is_freed x (own_step e ?T)" by (auto simp: is_freed_def set_state_def split: option.splits)
    then show ?thesis using lost [OF 2] by simp
  next
    case 3
    then show ?thesis using same [OF 3] keep [OF 3] snoc by simp
  qed
qed

lemma freed_numbered_iff:
  "is_freed x (fold own_step (map snd ps) Map.empty) \<longleftrightarrow>
    (\<exists>as bs m k l r. ps = as @ (m, Frees x) # bs \<and> (k, Allocates x l r) \<in> set as \<and>
      (\<forall>(i, e) \<in> set bs. e \<noteq> Returns x \<and> (\<forall>l r. e \<noteq> Allocates x l r)))"
  unfolding freed_iff
proof
  assume "\<exists>as bs. map snd ps = as @ Frees x # bs \<and> (\<exists>l r. Allocates x l r \<in> set as) \<and>
    (\<forall>e \<in> set bs. e \<noteq> Returns x \<and> (\<forall>l r. e \<noteq> Allocates x l r))"
  then obtain as bs l r where h: "map snd ps = as @ Frees x # bs" "Allocates x l r \<in> set as"
    "\<forall>e \<in> set bs. e \<noteq> Returns x \<and> (\<forall>l r. e \<noteq> Allocates x l r)" by blast
  from h(1) obtain p1 p2 where p: "ps = p1 @ p2" "as = map snd p1" "Frees x # bs = map snd p2"
    by (metis map_eq_append_conv)
  then obtain m p3 where q: "p2 = (m, Frees x) # p3" "bs = map snd p3" by (cases p2) auto
  from h(2) p(2) obtain k where "(k, Allocates x l r) \<in> set p1" by auto
  moreover have "\<forall>(i, e) \<in> set p3. e \<noteq> Returns x \<and> (\<forall>l r. e \<noteq> Allocates x l r)" using h(3) q(2) by (simp add: split_beta)
  ultimately show "\<exists>as bs m k l r. ps = as @ (m, Frees x) # bs \<and> (k, Allocates x l r) \<in> set as \<and>
      (\<forall>(i, e) \<in> set bs. e \<noteq> Returns x \<and> (\<forall>l r. e \<noteq> Allocates x l r))"
    using p(1) q(1) by blast
next
  assume "\<exists>as bs m k l r. ps = as @ (m, Frees x) # bs \<and> (k, Allocates x l r) \<in> set as \<and>
      (\<forall>(i, e) \<in> set bs. e \<noteq> Returns x \<and> (\<forall>l r. e \<noteq> Allocates x l r))"
  then obtain as bs m k l r where h: "ps = as @ (m, Frees x) # bs" "(k, Allocates x l r) \<in> set as"
    "\<forall>(i, e) \<in> set bs. e \<noteq> Returns x \<and> (\<forall>l r. e \<noteq> Allocates x l r)" by blast
  have "Allocates x l r \<in> set (map snd as)" using h(2) by force
  moreover have "\<forall>e \<in> set (map snd bs). e \<noteq> Returns x \<and> (\<forall>l r. e \<noteq> Allocates x l r)" using h(3) by auto
  ultimately show "\<exists>as bs. map snd ps = as @ Frees x # bs \<and> (\<exists>l r. Allocates x l r \<in> set as) \<and>
    (\<forall>e \<in> set bs. e \<noteq> Returns x \<and> (\<forall>l r. e \<noteq> Allocates x l r))"
    using h(1) by (intro exI [of _ "map snd as"] exI [of _ "map snd bs"]) auto
qed

lemma double_free_in_run:
  "DoubleFree n x fn \<in> set (fst (own_run fn es T)) \<longleftrightarrow>
     (\<exists>as cs. es = as @ (n, Frees x) # cs \<and> is_freed x (snd (own_run fn as T)))"
proof (induction fn es T rule: own_run.induct)
  case (2 fn m e es T)
  have e: "DoubleFree n x fn \<in> set (own_errors m fn e T) \<longleftrightarrow> (m, e) = (n, Frees x) \<and> is_freed x T" by (cases e) auto
  have "(\<exists>as cs. (m, e) # es = as @ (n, Frees x) # cs \<and> is_freed x (snd (own_run fn as T))) \<longleftrightarrow>
      (m, e) = (n, Frees x) \<and> is_freed x T \<or>
      (\<exists>as cs. es = as @ (n, Frees x) # cs \<and> is_freed x (snd (own_run fn as (own_step e T))))" (is "?l \<longleftrightarrow> ?r")
  proof
    assume ?l
    then obtain as cs where as: "(m, e) # es = as @ (n, Frees x) # cs" "is_freed x (snd (own_run fn as T))" by blast
    show ?r
    proof (cases as)
      case Nil
      then show ?thesis using as by simp
    next
      case (Cons a bs)
      then show ?thesis using as by (auto simp: split_beta)
    qed
  next
    assume ?r
    then show ?l
    proof
      assume "(m, e) = (n, Frees x) \<and> is_freed x T"
      then show ?l by (intro exI [of _ "[]"] exI [of _ es]) simp
    next
      assume "\<exists>as cs. es = as @ (n, Frees x) # cs \<and> is_freed x (snd (own_run fn as (own_step e T)))"
      then obtain as cs where "es = as @ (n, Frees x) # cs" "is_freed x (snd (own_run fn as (own_step e T)))" by blast
      then show ?l by (intro exI [of _ "(m, e) # as"] exI [of _ cs]) (simp add: split_beta)
    qed
  qed
  with 2 e show ?case by (simp add: split_beta)
qed simp

text \<open>A double free of \<open>x\<close> is reported on line \<open>n\<close> of a function if and only if \<open>x\<close> was allocated in it, freed
  later, freed on line \<open>n\<close> again, and neither reallocated nor returned in between.
\<close>

theorem lint_double_free_iff:
  assumes "tracked_vars st = []" and "length (body_events ls (line_no st)) \<le> MAX_VARS"
    and "DoubleFree n x (current_func st) \<notin> set (printed st)"
  shows "DoubleFree n x (current_func st) \<in> set (printed (function_body ls st)) \<longleftrightarrow>
    (\<exists>as bs cs m k l r. body_events ls (line_no st) = as @ (m, Frees x) # bs @ (n, Frees x) # cs \<and>
       (k, Allocates x l r) \<in> set as \<and>
       (\<forall>(i, e) \<in> set bs. e \<noteq> Returns x \<and> (\<forall>l r. e \<noteq> Allocates x l r)))"
proof -
  let ?es = "body_events ls (line_no st)" and ?fn = "current_func st"
  have t: "table st = Map.empty" "table_ok st" using assms(1) by (simp_all add: table_def fun_eq_iff table_ok_def)
  have f: "\<not> is_manual (DoubleFree n x ?fn)" by simp
  have "DoubleFree n x ?fn \<in> set (printed (function_body ls st)) \<longleftrightarrow>
      DoubleFree n x ?fn \<in> set (filter (\<lambda>m. \<not> is_manual m) (printed (function_body ls st)))" by simp
  also have "\<dots> \<longleftrightarrow> DoubleFree n x ?fn \<in> set (fst (own_run ?fn ?es Map.empty))"
    using function_body_effect [OF t(2), of ls] assms t(1) by simp
  also have "\<dots> \<longleftrightarrow> (\<exists>ps cs. ?es = ps @ (n, Frees x) # cs \<and> is_freed x (fold own_step (map snd ps) Map.empty))"
    by (simp add: double_free_in_run own_run_table)
  also have "\<dots> \<longleftrightarrow> (\<exists>as bs cs m k l r. ?es = as @ (m, Frees x) # bs @ (n, Frees x) # cs \<and>
       (k, Allocates x l r) \<in> set as \<and> (\<forall>(i, e) \<in> set bs. e \<noteq> Returns x \<and> (\<forall>l r. e \<noteq> Allocates x l r)))"
  proof -
    note fi = freed_numbered_iff [of x]
    show ?thesis
    proof
      assume "\<exists>ps cs. ?es = ps @ (n, Frees x) # cs \<and> is_freed x (fold own_step (map snd ps) Map.empty)"
      then obtain ps cs where ps: "?es = ps @ (n, Frees x) # cs" "is_freed x (fold own_step (map snd ps) Map.empty)" by blast
      from ps(2) [unfolded fi] obtain as bs m k l r where *: "ps = as @ (m, Frees x) # bs" "(k, Allocates x l r) \<in> set as"
        "\<forall>(i, e) \<in> set bs. e \<noteq> Returns x \<and> (\<forall>l r. e \<noteq> Allocates x l r)" by (elim exE conjE)
      have "?es = as @ (m, Frees x) # bs @ (n, Frees x) # cs" using ps(1) *(1) by simp
      with *(2,3) show "\<exists>as bs cs m k l r. ?es = as @ (m, Frees x) # bs @ (n, Frees x) # cs \<and>
       (k, Allocates x l r) \<in> set as \<and> (\<forall>(i, e) \<in> set bs. e \<noteq> Returns x \<and> (\<forall>l r. e \<noteq> Allocates x l r))"
        by (intro exI conjI)
    next
      assume "\<exists>as bs cs m k l r. ?es = as @ (m, Frees x) # bs @ (n, Frees x) # cs \<and>
       (k, Allocates x l r) \<in> set as \<and> (\<forall>(i, e) \<in> set bs. e \<noteq> Returns x \<and> (\<forall>l r. e \<noteq> Allocates x l r))"
      then obtain as bs cs m k l r where *: "?es = as @ (m, Frees x) # bs @ (n, Frees x) # cs"
        "(k, Allocates x l r) \<in> set as" "\<forall>(i, e) \<in> set bs. e \<noteq> Returns x \<and> (\<forall>l r. e \<noteq> Allocates x l r)"
        by (elim exE conjE)
      have "is_freed x (fold own_step (map snd (as @ (m, Frees x) # bs)) Map.empty)"
        unfolding fi using *(2,3) by (intro exI conjI) (rule refl)
      moreover have "?es = (as @ (m, Frees x) # bs) @ (n, Frees x) # cs" using *(1) by simp
      ultimately show "\<exists>ps cs. ?es = ps @ (n, Frees x) # cs \<and> is_freed x (fold own_step (map snd ps) Map.empty)"
        by (intro exI conjI)
    qed
  qed
  finally show ?thesis .
qed

lemma fold_report_leak:
  "printed (fold report_leak vs st) = printed st @
     map (\<lambda>v. Leak (line_no st) (tv_name v) (line_allocated v) (current_func st))
       (filter (\<lambda>v. tv_state v = STATE_OWNED \<and> \<not> is_raii v) vs)"
  by (induction vs arbitrary: st) (auto simp: report_leak_def report_error_def)

text \<open>At the end of a function a leak is reported for exactly the variables that are still owned and not under
  the \<open>OWNED\<close> macro, with the line of their allocation, and the table is emptied for the next function.
\<close>

theorem lint_leaks_exact:
  assumes "table_ok st"
  shows "printed (exit_function st) = printed st @
      map (\<lambda>v. Leak (line_no st) (tv_name v) (line_allocated v) (current_func st))
        (filter (\<lambda>v. tv_state v = STATE_OWNED \<and> \<not> is_raii v) (tracked_vars st)) \<and>
    (\<forall>x l. Leak (line_no st) x l (current_func st) \<in> set (drop (length (printed st)) (printed (exit_function st))) \<longleftrightarrow>
       table st x = Some (STATE_OWNED, l, False)) \<and>
    tracked_vars (exit_function st) = [] \<and> \<not> in_function (exit_function st)"
proof -
  have p: "printed (exit_function st) = printed st @
      map (\<lambda>v. Leak (line_no st) (tv_name v) (line_allocated v) (current_func st))
        (filter (\<lambda>v. tv_state v = STATE_OWNED \<and> \<not> is_raii v) (tracked_vars st))"
    by (simp add: exit_function_def fold_report_leak)
  have find: "find_var x vs = Some v \<longleftrightarrow> v \<in> set vs \<and> tv_name v = x" if "distinct (map tv_name vs)" for x v vs
    using that by (induction vs) (auto split: if_splits)
  have "table st x = Some (STATE_OWNED, l, False) \<longleftrightarrow>
      (\<exists>v \<in> set (tracked_vars st). tv_name v = x \<and> tv_state v = STATE_OWNED \<and> line_allocated v = l \<and> \<not> is_raii v)" for x l
    using assms find [of "tracked_vars st" x] by (auto simp: table_def table_ok_def own_of_def)
  then show ?thesis using p by (auto simp: exit_function_def)
qed

subsection \<open>The exit status\<close>

fun is_error :: "lint_msg \<Rightarrow> bool" where
  "is_error NotOpened = True"
| "is_error (RawUse w n c) = (w = ''free'')"
| "is_error (DoubleFree n x f) = True"
| "is_error (BorrowAfterFree n x f) = True"
| "is_error (Leak n x l f) = True"
| "is_error _ = False"

definition errs :: "lint \<Rightarrow> nat" where
  "errs st = length (filter is_error (printed st))"

text \<open>Every message that is an error is counted, and nothing else.\<close>

definition counted :: "lint \<Rightarrow> lint \<Rightarrow> bool" where
  "counted st st' \<longleftrightarrow> local_errors st' + errs st = local_errors st + errs st'"

lemma counted_trans: "counted a b \<Longrightarrow> counted b c \<Longrightarrow> counted a c"
  by (simp add: counted_def)

lemma counted_same [simp]:
  "counted st st" "counted st (st\<lparr>tracked_vars := a\<rparr>) " "counted st (st\<lparr>line_no := b\<rparr>)"
  "counted st (st\<lparr>in_block_comment := c\<rparr>)" "counted st (st\<lparr>nesting_level := d\<rparr>)"
  "counted st (st\<lparr>prev_line := e\<rparr>)"
  by (simp_all add: counted_def errs_def)

lemma counted_report:
  "is_error m \<Longrightarrow> counted st (report_error m st)" "\<not> is_error m \<Longrightarrow> counted st (report_warning m st)"
  by (simp_all add: counted_def errs_def report_error_def report_warning_def)

lemma counted_fold: "(\<And>x st. counted st (f x st)) \<Longrightarrow> counted st (fold f xs st)"
proof (induction xs arbitrary: st)
  case (Cons x xs)
  from Cons.prems [of st x] Cons.IH [OF Cons.prems, of "f x st"] show ?case
    by (auto intro: counted_trans)
qed simp

lemma counted_ops:
  "counted st (scan_at line p st)" "counted st (add_tracked_var x l r st)" "counted st (mark_freed x st)"
  "counted st (check_borrow x st)" "counted st (mark_returned x st)" "counted st (report_leak v st)"
  by (auto simp: scan_at_def add_tracked_var_def mark_freed_def check_borrow_def mark_returned_def report_leak_def
      counted_report split: option.splits)

lemma counted_check_alloc: "counted st (check_alloc line st)"
proof -
  have w: "counted st (report_warning (ManualFree n c) st)" for n c by (rule counted_report) simp
  show ?thesis
  proof (cases "find_alloc line")
    case (Some a)
    define s1 where "s1 = (if strstr line ''OWNED'' \<noteq> None then st else report_warning (ManualFree (line_no st) (a + 1)) st)"
    have 1: "counted st s1" using w by (simp add: s1_def)
    have "check_alloc line st = (case assigned_var line a of None \<Rightarrow> s1
        | Some x \<Rightarrow> add_tracked_var x (line_no s1) (strstr line ''OWNED'' \<noteq> None) s1)"
      unfolding s1_def check_alloc_def Some by (simp only: Let_def option.simps)
    with 1 counted_trans [OF 1 counted_ops(2)] show ?thesis by (simp split: option.split)
  qed (simp add: check_alloc_def)
qed

lemma counted_function_line: "counted st (function_line line st)"
proof -
  have r: "counted u (check_return line u)" for u
    by (simp add: check_return_def Let_def counted_ops split: option.split)
  have f: "counted u (fold mark_freed xs u)" "counted u (fold check_borrow xs u)" for xs u
    by (rule counted_fold, rule counted_ops)+
  show ?thesis unfolding function_line_def
    by (rule counted_trans [OF counted_trans [OF counted_trans [OF counted_check_alloc f(1)] f(2)] r])
qed

lemma counted_exit: "counted st (exit_function st)"
proof -
  have "counted st (fold report_leak (tracked_vars st) st)" by (intro counted_fold counted_ops)
  then show ?thesis by (simp add: exit_function_def counted_def errs_def)
qed

lemma counted_finish: "counted st (finish_line l st)"
proof -
  define s1 where "s1 = (if in_function st then function_line l st else st)"
  define s2 where "s2 = (if in_function s1 \<and> nesting_level s1 = 0 then exit_function s1 else s1)"
  have "counted st s2"
    using counted_trans [of st s1 s2] counted_function_line [of st l] counted_exit [of s1] by (simp add: s1_def s2_def)
  moreover have "finish_line l st = (if l \<noteq> [] \<and> last l \<noteq> CHR 0x0A then s2\<lparr>prev_line := l\<rparr> else s2)"
    by (simp add: finish_line_def s1_def s2_def Let_def)
  ultimately show ?thesis using counted_trans [OF _ counted_same(6)] by simp
qed

lemma counted_lint_line:
  assumes "lint_line raw st = Inr st'"
  shows "counted st st'"
proof -
  obtain clean blk where c: "preprocess_line raw (in_block_comment st) = (clean, blk)" by force
  define s0 where "s0 = st\<lparr>line_no := line_no st + 1, in_block_comment := blk\<rparr>"
  define s1 where "s1 = scan_raw clean s0"
  define s2 where "s2 = s1\<lparr>nesting_level := braces clean (nesting_level s1)\<rparr>"
  have "counted st s0" by (simp add: s0_def counted_def errs_def)
  moreover have "counted s0 s1" unfolding s1_def scan_raw_def by (intro counted_fold counted_ops)
  ultimately have 1: "counted st s2" using counted_trans counted_same(5) unfolding s2_def by blast
  obtain s3 where s3: "(if nesting_level s1 = 0 \<and> nesting_level s2 > 0 \<and> \<not> in_function s2
      then enter_function clean s2 else Inr s2) = Inr s3" and st': "st' = finish_line clean s3"
  proof -
    have "lint_line raw st = bindE (if nesting_level s1 = 0 \<and> nesting_level s2 > 0 \<and> \<not> in_function s2
        then enter_function clean s2 else Inr s2) (\<lambda>st. Inr (finish_line clean st))"
      unfolding s0_def s1_def s2_def lint_line_def c by (simp only: Let_def prod.case)
    with assms that show thesis by (auto simp: bindE_eq_Inr)
  qed
  have "counted s2 s3" using s3 by (auto simp: enter_function_def bindE_eq_Inr counted_def errs_def split: if_splits)
  with 1 show ?thesis unfolding st' using counted_finish counted_trans by blast
qed

lemma counted_lint_lines: "foldE lint_line ls st = Inr st' \<Longrightarrow> counted st st'"
proof (induction ls arbitrary: st)
  case (Cons l ls)
  then obtain s where "lint_line l st = Inr s" "foldE lint_line ls s = Inr st'" by auto
  then show ?case using counted_lint_line Cons.IH counted_trans by blast
qed simp

lemma lint_file_errors:
  assumes "lint_file files p st = Inr (e, w, st')"
  shows "errs st' = errs st + e"
proof (cases "files p")
  case None
  then show ?thesis using assms by (auto simp: lint_file_def errs_def)
next
  case (Some content)
  define s0 where "s0 = st\<lparr>printed := printed st @ [Linting], prev_line := [], line_no := 0, nesting_level := 0,
     in_function := False, in_block_comment := False, local_errors := 0, local_warnings := 0\<rparr>"
  obtain s where s: "foldE lint_line (fgets_lines content) s0 = Inr s" "e = local_errors s"
    "st' = s\<lparr>printed := printed s @ [Summary (local_errors s) (local_warnings s)]\<rparr>"
    using assms Some by (auto simp: lint_file_def bindE_eq_Inr s0_def)
  from counted_lint_lines [OF s(1)] s(2,3) show ?thesis by (simp add: counted_def errs_def s0_def)
qed

lemma lint_files_errors:
  "lint_files files ps (e, w, st) = Inr (e', w', st') \<Longrightarrow> errs st' + e = errs st + e'"
proof (induction ps arbitrary: e w st)
  case (Cons p ps)
  then obtain f v s where "lint_file files p st = Inr (f, v, s)"
    "lint_files files ps (e + f, w + v, s) = Inr (e', w', st')" by (auto simp: bindE_eq_Inr)
  with Cons.IH lint_file_errors show ?case by fastforce
qed simp

text \<open>The exit status of the checker: when it gets through its files, it returns 1 if and only if it printed an error
  for some of them; warnings alone do not fail a build.
\<close>

theorem lint_exit_status:
  assumes "lint_main files argv = Inr (code, msgs)" and "2 \<le> length argv"
  shows "code = (if \<exists>m \<in> set msgs. is_error m then 1 else 0)"
proof -
  obtain e w st where r: "lint_files files (tl argv) (0, 0, lint_init) = Inr (e, w, st)"
    "code = (if e > 0 then 1 else 0)" "msgs = printed st"
    using assms by (auto simp: lint_main_def bindE_eq_Inr)
  have "errs st = e" using lint_files_errors [OF r(1)] by (simp add: errs_def lint_init_def)
  then have "e > 0 \<longleftrightarrow> (\<exists>m \<in> set (printed st). is_error m)" by (auto simp: errs_def filter_empty_conv)
  with r show ?thesis by simp
qed

subsection \<open>Concrete runs\<close>

definition double_free_body :: "string list" where
  "double_free_body = [''p = owner_malloc(4);'', ''owner_free(p);'', ''owner_free(p);'']"

lemma double_free_body_events:
  "body_events double_free_body 0 = [(1, Allocates ''p'' 1 False), (2, Frees ''p''), (3, Frees ''p'')]"
  by code_simp

lemma double_free_body_fits:
  "table_ok lint_init" "tracked_vars lint_init = []" "current_func lint_init = []" "printed lint_init = []"
  "line_no lint_init = 0" "length (body_events double_free_body (line_no lint_init)) \<le> MAX_VARS"
  by (simp_all add: lint_init_def table_ok_def double_free_body_events MAX_VARS_def)

theorem preprocess_idempotent_witness: "preprocess_line ''x = 1;'' False = (''x = 1;'', False)"
  using preprocess_idempotent [of "''x = 1;''" False] by simp


theorem lint_double_free_iff_witness:
  "DoubleFree 3 ''p'' [] \<in> set (printed (function_body double_free_body lint_init))"
proof -
  have n: "DoubleFree 3 ''p'' (current_func lint_init) \<notin> set (printed lint_init)" by (simp add: lint_init_def)
  have "body_events double_free_body (line_no lint_init) =
      [(1, Allocates ''p'' 1 False)] @ (2, Frees ''p'') # [] @ (3, Frees ''p'') # []"
    by (simp add: lint_init_def double_free_body_events)
  then have "\<exists>as bs cs m k l r. body_events double_free_body (line_no lint_init) =
      as @ (m, Frees ''p'') # bs @ (3, Frees ''p'') # cs \<and> (k, Allocates ''p'' l r) \<in> set as \<and>
      (\<forall>(i, e) \<in> set bs. e \<noteq> Returns ''p'' \<and> (\<forall>l r. e \<noteq> Allocates ''p'' l r))"
    by (intro exI [of _ "[(1, Allocates ''p'' 1 False)]"] exI [of _ "[]"] exI [of _ 2] exI [of _ 1] exI [of _ False])
      simp
  then show ?thesis
    using lint_double_free_iff [OF double_free_body_fits(2,6) n] double_free_body_fits(3) by simp
qed

theorem lint_leaks_exact_witness: "tracked_vars (exit_function lint_init) = []"
  using lint_leaks_exact [of lint_init] double_free_body_fits(1) by simp

theorem lint_exit_status_witness:
  "\<exists>msgs. lint_main (\<lambda>_. Some ''free(p);'') [''lint'', ''a.c''] = Inr (1, msgs) \<and> RawUse ''free'' 1 1 \<in> set msgs"
proof -
  have r: "lint_main (\<lambda>_. Some ''free(p);'') [''lint'', ''a.c''] =
      Inr (1, [Linting, RawUse ''free'' 1 1, Summary 1 0])" by code_simp
  have "(1 :: nat) = (if \<exists>m \<in> set [Linting, RawUse ''free'' 1 1, Summary 1 0]. is_error m then 1 else 0)"
    by (rule lint_exit_status [OF r]) simp
  then show ?thesis using r by auto
qed

text \<open>A parenthesis in the first column of the line that opens a function is read before the line.\<close>

theorem lint_paren_first_column:
  "lint_line ''(x) {'' lint_init = Inl (Undefined ''read before the beginning of the line'')"
  by code_simp

text \<open>A line that ends is never remembered as the previous line, so that the name of a function is lost when its brace stands on the next line.\<close>

theorem lint_name_on_previous_line:
  "map_sum id current_func (foldE lint_line [''int f(void)'' @ [CHR 0x0A], ''{'' @ [CHR 0x0A]] lint_init) = Inr ''function''"
  by code_simp

end
