(* ===== verification/JsonText.thy ===== *)
theory JsonText
  imports Prelude
begin

text \<open>
  The text side of \<open>src/owned_json.c\<close>.  A position \<open>const char *p\<close> in the text is the rest of the text from
  there on, so that \<open>*p\<close> is the first character and the end of the text is the empty rest.  The theory has the
  scanning functions (white space, \<open>strtod\<close>, the end of a string), the value a text denotes (\<open>ref_value\<close>, a
  parser without memory) and the grammar of RFC 8259, all of whose texts \<open>ref_value\<close> reads.
\<close>

subsection \<open>Scanning\<close>

definition skip_whitespace :: "string \<Rightarrow> string" where
  "skip_whitespace p = dropWhile isspace p"

definition at :: "string \<Rightarrow> char \<Rightarrow> bool" where
  "at p c \<longleftrightarrow> p \<noteq> [] \<and> hd p = c"

text \<open>
  \<open>strtod\<close>: how many characters it converts (none if there is no number).  After white space and a sign comes
  a decimal or a hexadecimal number, an infinity or a NaN, in the longest form the text has.
\<close>

definition isxdigit :: "char \<Rightarrow> bool" where
  "isxdigit c \<longleftrightarrow> isdigit c \<or> 65 \<le> (of_char c :: nat) \<and> (of_char c :: nat) \<le> 70 \<or>
     97 \<le> (of_char c :: nat) \<and> (of_char c :: nat) \<le> 102"

definition tolower :: "char \<Rightarrow> char" where
  "tolower c = (if 65 \<le> (of_char c :: nat) \<and> (of_char c :: nat) \<le> 90 then char_of (of_char c + 32 :: nat) else c)"

definition starts_ci :: "string \<Rightarrow> string \<Rightarrow> bool" where
  "starts_ci w s \<longleftrightarrow> map tolower (take (length w) s) = w"

definition run_length :: "(char \<Rightarrow> bool) \<Rightarrow> string \<Rightarrow> nat" where
  "run_length f s = length (takeWhile f s)"

definition mantissa_length :: "(char \<Rightarrow> bool) \<Rightarrow> string \<Rightarrow> nat" where
  "mantissa_length isd s =
     (let ip = run_length isd s; r = drop ip s
      in if at r CHR ''.'' then
           (let fp = run_length isd (tl r) in if ip = 0 \<and> fp = 0 then 0 else ip + 1 + fp)
         else ip)"

definition sign_length :: "string \<Rightarrow> nat" where
  "sign_length s = (if at s CHR ''+'' \<or> at s CHR ''-'' then 1 else 0)"

definition exponent_length :: "char \<Rightarrow> string \<Rightarrow> nat" where
  "exponent_length e s =
     (if s \<noteq> [] \<and> tolower (hd s) = e then
        (let sg = sign_length (tl s); ds = run_length isdigit (drop sg (tl s))
         in if ds = 0 then 0 else 1 + sg + ds)
      else 0)"

definition unsigned_length :: "(char \<Rightarrow> bool) \<Rightarrow> char \<Rightarrow> string \<Rightarrow> nat" where
  "unsigned_length isd e s =
     (let m = mantissa_length isd s in if m = 0 then 0 else m + exponent_length e (drop m s))"

definition nan_length :: "string \<Rightarrow> nat" where
  "nan_length s =
     (let r = drop 3 s; k = run_length (\<lambda>c. isalnum c \<or> c = CHR ''_'') (tl r)
      in if at r CHR ''('' \<and> at (drop k (tl r)) CHR '')'' then 3 + 2 + k else 3)"

definition magnitude_length :: "string \<Rightarrow> nat" where
  "magnitude_length s =
     (if starts_ci ''infinity'' s then 8
      else if starts_ci ''inf'' s then 3
      else if starts_ci ''nan'' s then nan_length s
      else if starts_ci ''0x'' s \<and> mantissa_length isxdigit (drop 2 s) \<noteq> 0
      then 2 + unsigned_length isxdigit CHR ''p'' (drop 2 s)
      else unsigned_length isdigit CHR ''e'' s)"

definition strtod_length :: "string \<Rightarrow> nat" where
  "strtod_length s =
     (let w = run_length isspace s; sg = sign_length (drop w s); m = magnitude_length (drop (w + sg) s)
      in if m = 0 then 0 else w + sg + m)"

text \<open>The loop of \<open>parse_raw_string\<close>: from behind the opening quote to the closing one, over escaped characters.\<close>

fun raw_end :: "string \<Rightarrow> string" where
  "raw_end [] = []"
| "raw_end [c] = (if c = CHR 0x22 then [c] else [])"
| "raw_end (c # d # s) =
     (if c = CHR 0x22 then c # d # s
      else if c = CHR 0x5C then raw_end s
      else raw_end (d # s))"

subsection \<open>The value of a text\<close>

datatype json =
    Null
  | Bool bool
  | Number string
  | String string
  | Array "json list"
  | Object "(string \<times> json) list"

definition ref_raw :: "string \<Rightarrow> string option \<times> string" where
  "ref_raw p =
     (if at p CHR 0x22 then
        (let q = raw_end (tl p)
         in if q = [] then (None, []) else (Some (take (length (tl p) - length q) (tl p)), tl q))
      else (None, p))"

definition ref_word :: "string \<Rightarrow> json \<Rightarrow> string \<Rightarrow> json option \<times> string" where
  "ref_word w v p = (if take (length w) p = w then (Some v, drop (length w) p) else (None, p))"

definition ref_number :: "string \<Rightarrow> json option \<times> string" where
  "ref_number p =
     (let n = strtod_length p in if n = 0 then (None, p) else (Some (Number (take n p)), drop n p))"

lemma length_skip: "length (skip_whitespace p) \<le> length p"
  by (simp add: skip_whitespace_def length_dropWhile_le)

lemma length_raw_end: "length (raw_end p) \<le> length p"
  by (induction p rule: raw_end.induct) auto

lemma length_ref_raw: "length (snd (ref_raw p)) \<le> length p"
proof -
  have "length (raw_end (tl p)) \<le> length (tl p)" by (rule length_raw_end)
  then show ?thesis by (auto simp: ref_raw_def Let_def)
qed

lemma at_Cons: "at p c \<longleftrightarrow> (\<exists>s. p = c # s)"
  by (cases p) (auto simp: at_def)

text \<open>A value that is neither an array nor an object.\<close>

definition ref_scalar :: "string \<Rightarrow> json option \<times> string" where
  "ref_scalar p =
     (if at p CHR ''n'' then ref_word ''null'' Null p
      else if at p CHR ''t'' then ref_word ''true'' (Bool True) p
      else if at p CHR ''f'' then ref_word ''false'' (Bool False) p
      else if at p CHR 0x22 then map_prod (map_option String) id (ref_raw p)
      else ref_number p)"

text \<open>The key of a member and the colon.\<close>

definition ref_key :: "string \<Rightarrow> string option \<times> string" where
  "ref_key p =
     (case ref_raw p of (None, q) \<Rightarrow> (None, q)
      | (Some k, q) \<Rightarrow>
          if at (skip_whitespace q) CHR '':'' then (Some k, skip_whitespace (tl (skip_whitespace q)))
          else (None, skip_whitespace q))"

function ref_value :: "string \<Rightarrow> json option \<times> string"
  and ref_items :: "json list \<Rightarrow> string \<Rightarrow> json option \<times> string"
  and ref_members :: "(string \<times> json) list \<Rightarrow> string \<Rightarrow> json option \<times> string" where
  "ref_value text =
     (let p = skip_whitespace text in
      if p = [] then (None, [])
      else if at p CHR ''['' then
        (let q = skip_whitespace (tl p) in
         if at q CHR '']'' then (Some (Array []), tl q) else ref_items [] q)
      else if at p CHR ''{'' then
        (let q = skip_whitespace (tl p) in
         if at q CHR ''}'' then (Some (Object []), tl q) else ref_members [] q)
      else ref_scalar p)"
| "ref_items vs p =
     (case ref_value p of
        (None, q) \<Rightarrow> (None, q)
      | (Some v, q) \<Rightarrow>
          (let q = skip_whitespace q in
           if at q CHR '']'' then (Some (Array (vs @ [v])), tl q)
           else if at q CHR '','' then ref_items (vs @ [v]) (skip_whitespace (tl q))
           else (None, q)))"
| "ref_members ms p =
     (case ref_key p of
        (None, q) \<Rightarrow> (None, q)
      | (Some k, q) \<Rightarrow>
         (case ref_value q of
            (None, q) \<Rightarrow> (None, q)
          | (Some v, q) \<Rightarrow>
              (let q = skip_whitespace q in
               if at q CHR ''}'' then (Some (Object (ms @ [(k, v)])), tl q)
               else if at q CHR '','' then ref_members (ms @ [(k, v)]) (skip_whitespace (tl q))
               else (None, q))))"
  by pat_completeness simp_all

lemma length_ref_scalar: "length (snd (ref_scalar p)) \<le> length p"
  using length_ref_raw [of p]
  by (simp add: ref_scalar_def ref_word_def ref_number_def Let_def)

lemma length_ref_key: "ref_key p = (k, q) \<Longrightarrow> length q \<le> length p"
proof -
  assume k: "ref_key p = (k, q)"
  obtain k0 q0 where r: "ref_raw p = (k0, q0)" by force
  have "length q0 \<le> length p" using length_ref_raw [of p] r by simp
  moreover note length_skip [of q0] length_skip [of "tl (skip_whitespace q0)"]
  ultimately show ?thesis using k r by (auto simp: ref_key_def split: option.splits if_splits)
qed

lemma length_skip_tl: "length (skip_whitespace (tl p)) \<le> length p"
  using length_skip [of "tl p"] by simp

lemma length_skip_tl_less: "p \<noteq> [] \<Longrightarrow> length (skip_whitespace (tl p)) < length p"
  using length_skip [of "tl p"] by (cases p) auto

lemma ref_dom_length:
  "ref_value_ref_items_ref_members_dom (Inl s) \<Longrightarrow> length (snd (ref_value s)) \<le> length s"
  "ref_value_ref_items_ref_members_dom (Inr (Inl (vs, p))) \<Longrightarrow> length (snd (ref_items vs p)) \<le> length p"
  "ref_value_ref_items_ref_members_dom (Inr (Inr (ms, p))) \<Longrightarrow> length (snd (ref_members ms p)) \<le> length p"
proof (induction s and vs p and ms p rule: ref_value_ref_items_ref_members.pinduct)
  case (1 s)
  note l = length_skip [of s] length_skip_tl [of "skip_whitespace s"]
    length_ref_scalar [of "skip_whitespace s"]
  show ?case using 1(2,3) [OF refl] l by (auto simp: ref_value.psimps [OF 1(1)] Let_def)
next
  case (2 vs p)
  obtain v q where r: "ref_value p = (v, q)" by force
  note l = length_skip [of q] length_skip_tl [of "skip_whitespace q"]
  show ?case using 2(2) 2(3) [OF r [symmetric] _ refl] r l
    by (auto simp: ref_items.psimps [OF 2(1)] Let_def split: option.splits)
next
  case (3 ms p)
  obtain k q0 where k: "ref_key p = (k, q0)" by force
  obtain v q where r: "ref_value q0 = (v, q)" by force
  note l = length_skip [of q] length_skip_tl [of "skip_whitespace q"] length_ref_key [OF k]
  note ih = 3(2) [OF k [symmetric]] 3(3) [OF k [symmetric] _ r [symmetric] _ refl]
  show ?case
  proof (cases "k = None \<or> v = None")
    case True
    then show ?thesis using ih(1) k r l by (auto simp: ref_members.psimps [OF 3(1)] split: option.splits)
  next
    case False
    then obtain k' v' where "k = Some k'" "v = Some v'" by auto
    then show ?thesis using ih(1) ih(2) [of k' v'] k r l
      by (auto simp: ref_members.psimps [OF 3(1)] Let_def)
  qed
qed

termination ref_value
proof (relation "inv_image (less_than <*lex*> less_than)
    (\<lambda>x. case x of Inl s \<Rightarrow> (length s, 0 :: nat) | Inr (Inl (vs, p)) \<Rightarrow> (length p, 1) | Inr (Inr (ms, p)) \<Rightarrow> (length p, 1))",
    goal_cases)
  case 1
  then show ?case by auto
next
  case (2 s x xa)
  then show ?case using length_skip [of s] length_skip_tl_less [of x] by auto
next
  case (3 s x xa)
  then show ?case using length_skip [of s] length_skip_tl_less [of x] by auto
next
  case (4 vs p)
  then show ?case by simp
next
  case (5 vs p x y x2 xa)
  then have "length y \<le> length p" using ref_dom_length(1) [OF 5(6)] by (metis snd_conv)
  then show ?case using 5 length_skip [of y] length_skip_tl_less [of xa] by (auto simp: at_def)
next
  case (6 ms p x y x2)
  then have "length y \<le> length p" using length_ref_key by metis
  then show ?case by auto
next
  case (7 ms p x y x2 xa ya x2a xb)
  then have "length y \<le> length p" "length ya \<le> length y"
    using length_ref_key ref_dom_length(1) [OF 7(8)] by (metis, metis snd_conv)
  then show ?case using 7 length_skip [of ya] length_skip_tl_less [of xb] by (auto simp: at_def)
qed

declare ref_value.simps [simp del] ref_items.simps [simp del] ref_members.simps [simp del]

end
