(* ===== verification/JsonGrammar.thy ===== *)
theory JsonGrammar
  imports JsonText
begin

text \<open>
  The grammar of RFC 8259 and the proof that the reference parser reads every text of it as the value it
  denotes.  Strings keep their escape sequences, as the parser does; the grammar allows every character after a
  backslash and every character but the quote and the backslash elsewhere, which includes what the RFC allows.
\<close>

subsection \<open>The grammar\<close>

definition ws :: "string \<Rightarrow> bool" where
  "ws w \<longleftrightarrow> set w \<subseteq> {CHR 0x20, CHR 0x09, CHR 0x0A, CHR 0x0D}"

definition digits :: "string \<Rightarrow> bool" where
  "digits s \<longleftrightarrow> s \<noteq> [] \<and> (\<forall>c \<in> set s. isdigit c)"

definition fraction :: "string \<Rightarrow> bool" where
  "fraction s \<longleftrightarrow> s = [] \<or> hd s = CHR ''.'' \<and> digits (tl s)"

definition exponent :: "string \<Rightarrow> bool" where
  "exponent s \<longleftrightarrow> s = [] \<or> (hd s = CHR ''e'' \<or> hd s = CHR ''E'') \<and> digits (drop (sign_length (tl s)) (tl s))"

inductive number :: "string \<Rightarrow> bool" where
  "sg = [] \<or> sg = ''-'' \<Longrightarrow> digits ip \<Longrightarrow> hd ip = CHR ''0'' \<longrightarrow> tl ip = [] \<Longrightarrow> fraction fr \<Longrightarrow> exponent ex \<Longrightarrow>
   number (sg @ ip @ fr @ ex)"

fun string_body :: "string \<Rightarrow> bool" where
  "string_body [] = True"
| "string_body [c] = (c \<noteq> CHR 0x22 \<and> c \<noteq> CHR 0x5C)"
| "string_body (c # d # s) =
     (if c = CHR 0x5C then string_body s else c \<noteq> CHR 0x22 \<and> string_body (d # s))"

inductive json_value :: "json \<Rightarrow> string \<Rightarrow> bool"
  and json_items :: "json list \<Rightarrow> string \<Rightarrow> bool"
  and json_members :: "(string \<times> json) list \<Rightarrow> string \<Rightarrow> bool" where
  null: "json_value Null ''null''"
| true: "json_value (Bool True) ''true''"
| false: "json_value (Bool False) ''false''"
| number: "number s \<Longrightarrow> json_value (Number s) s"
| string: "string_body s \<Longrightarrow> json_value (String s) (CHR 0x22 # s @ [CHR 0x22])"
| empty_array: "ws w \<Longrightarrow> json_value (Array []) (CHR ''['' # w @ '']'')"
| array: "json_items vs s \<Longrightarrow> json_value (Array vs) (CHR ''['' # s @ '']'')"
| empty_object: "ws w \<Longrightarrow> json_value (Object []) (CHR ''{'' # w @ ''}'')"
| object: "json_members ms s \<Longrightarrow> json_value (Object ms) (CHR ''{'' # s @ ''}'')"
| item: "ws w \<Longrightarrow> json_value v s \<Longrightarrow> ws w' \<Longrightarrow> json_items [v] (w @ s @ w')"
| items: "ws w \<Longrightarrow> json_value v s \<Longrightarrow> ws w' \<Longrightarrow> json_items vs r \<Longrightarrow> json_items (v # vs) (w @ s @ w' @ CHR '','' # r)"
| member: "ws w \<Longrightarrow> string_body k \<Longrightarrow> ws w1 \<Longrightarrow> ws w2 \<Longrightarrow> json_value v s \<Longrightarrow> ws w' \<Longrightarrow>
    json_members [(k, v)] (w @ CHR 0x22 # k @ CHR 0x22 # w1 @ CHR '':'' # w2 @ s @ w')"
| members: "ws w \<Longrightarrow> string_body k \<Longrightarrow> ws w1 \<Longrightarrow> ws w2 \<Longrightarrow> json_value v s \<Longrightarrow> ws w' \<Longrightarrow> json_members ms r \<Longrightarrow>
    json_members ((k, v) # ms) (w @ CHR 0x22 # k @ CHR 0x22 # w1 @ CHR '':'' # w2 @ s @ w' @ CHR '','' # r)"

text \<open>What can follow a value.\<close>

definition ends :: "string \<Rightarrow> bool" where
  "ends r \<longleftrightarrow> r = [] \<or> hd r \<in> {CHR 0x20, CHR 0x09, CHR 0x0A, CHR 0x0D, CHR '','', CHR '']'', CHR ''}''}"

subsection \<open>Characters\<close>

lemma skip_ws: "ws w \<Longrightarrow> skip_whitespace (w @ s) = skip_whitespace s"
  unfolding skip_whitespace_def ws_def
  by (induction w) (auto simp: isspace_def)

lemma skip_whitespace_Cons [simp]: "\<not> isspace c \<Longrightarrow> skip_whitespace (c # s) = c # s"
  by (simp add: skip_whitespace_def)

lemma skip_Nil [simp]: "skip_whitespace [] = []"
  by (simp add: skip_whitespace_def)

lemma skip_idem [simp]: "skip_whitespace (skip_whitespace p) = skip_whitespace p"
  by (simp add: skip_whitespace_def)

lemma not_space [simp]: "\<not> isspace CHR ''['' " "\<not> isspace CHR '']''" "\<not> isspace CHR ''{''" "\<not> isspace CHR ''}''"
  "\<not> isspace CHR '',''" "\<not> isspace CHR '':''" "\<not> isspace CHR 0x22" "\<not> isspace CHR ''n''" "\<not> isspace CHR ''t''"
  "\<not> isspace CHR ''f''" "\<not> isspace CHR ''-''"
  by (simp_all add: isspace_def)

lemma tolower_E [simp]: "tolower CHR ''E'' = CHR ''e''" "tolower CHR ''e'' = CHR ''e''" "tolower CHR ''.'' = CHR ''.''"
  by code_simp+

lemma digit_facts:
  assumes "isdigit c"
  shows "\<not> isspace c" and "tolower c = c" and "c \<notin> {CHR ''+'', CHR ''-'', CHR ''.'', CHR ''i'', CHR ''n''}"
    and "c \<notin> {CHR ''['', CHR '']'', CHR ''{'', CHR ''}'', CHR ''t'', CHR ''f'', CHR 0x22, CHR '',''}"
  using assms by (auto simp: isdigit_def isspace_def tolower_def)

lemma ends_facts:
  assumes "ends (c # r)"
  shows "\<not> isdigit c" and "c \<noteq> CHR ''.''" and "tolower c \<noteq> CHR ''e''" and "tolower c \<noteq> CHR ''x''"
  using assms by (auto simp: ends_def isdigit_def tolower_def)

lemma ends_ws: "ws w \<Longrightarrow> ends r \<Longrightarrow> ends (w @ r)"
  by (cases w) (auto simp: ends_def ws_def)

subsection \<open>Numbers\<close>

lemma run_length_append:
  "\<forall>c \<in> set s. f c \<Longrightarrow> r = [] \<or> \<not> f (hd r) \<Longrightarrow> run_length f (s @ r) = length s"
  by (cases r) (auto simp: run_length_def takeWhile_append takeWhile_eq_all_conv [THEN iffD2])

lemma exponent_length_append:
  assumes "exponent ex" and "ends r"
  shows "exponent_length CHR ''e'' (ex @ r) = length ex"
proof (cases ex)
  case Nil
  then show ?thesis using assms(2) by (cases r) (auto simp: exponent_length_def dest: ends_facts)
next
  case (Cons e s)
  let ?g = "sign_length s"
  have d: "digits (drop ?g s)" "tolower e = CHR ''e''" using assms(1) Cons by (auto simp: exponent_def)
  then have ne: "s \<noteq> []" by (auto simp: digits_def)
  then have g: "sign_length (s @ r) = ?g" by (cases s) (auto simp: sign_length_def at_def)
  have gl: "?g < length s" using d(1) by (auto simp: digits_def)
  have "run_length isdigit (drop ?g s @ r) = length s - ?g"
    using d(1) assms(2) by (subst run_length_append) (cases r; auto simp: digits_def dest: ends_facts)+
  then show ?thesis using Cons d(2) g gl by (simp add: exponent_length_def Let_def)
qed

lemma unsigned_length_append:
  assumes "digits ip" and "fraction fr" and "exponent ex" and "ends r"
  shows "unsigned_length isdigit CHR ''e'' (ip @ fr @ ex @ r) = length (ip @ fr @ ex)"
proof -
  have e: "ex @ r = [] \<or> \<not> isdigit (hd (ex @ r)) \<and> hd (ex @ r) \<noteq> CHR ''.''"
    using assms(3,4) by (cases ex; cases r) (auto simp: exponent_def isdigit_def dest: ends_facts)
  have f: "fr @ ex @ r = [] \<or> \<not> isdigit (hd (fr @ ex @ r))"
    using assms(2) e by (cases fr) (auto simp: fraction_def isdigit_def)
  have ip: "run_length isdigit (ip @ fr @ ex @ r) = length ip" "ip \<noteq> []"
    using assms(1) f by (auto intro: run_length_append simp: digits_def)
  have "mantissa_length isdigit (ip @ fr @ ex @ r) = length (ip @ fr)"
  proof (cases fr)
    case Nil
    then show ?thesis using ip e by (auto simp: mantissa_length_def at_def Let_def)
  next
    case (Cons c ds)
    then have "c = CHR ''.''" "digits ds" using assms(2) by (auto simp: fraction_def)
    moreover from this have "run_length isdigit (ds @ ex @ r) = length ds"
      using e by (intro run_length_append) (auto simp: digits_def)
    ultimately show ?thesis using ip Cons by (simp add: mantissa_length_def at_def)
  qed
  then show ?thesis using ip(2) exponent_length_append [OF assms(3,4)] by (simp add: unsigned_length_def)
qed

lemma starts_ci_hd: "starts_ci (a # w) (c # s) \<Longrightarrow> tolower c = a"
  by (simp add: starts_ci_def)

lemma strtod_number:
  assumes "number s" and "ends r"
  shows "strtod_length (s @ r) = length s"
  using assms(1)
proof cases
  case (1 sg ip fr ex)
  let ?t = "ip @ fr @ ex @ r"
  have ip: "ip \<noteq> []" "isdigit (hd ip)" using 1(3) by (auto simp: digits_def)
  then obtain c i where ci: "ip = c # i" "isdigit c" by (cases ip) auto
  note c = digit_facts [OF ci(2)]
  have not0x: "\<not> starts_ci ''0x'' ?t"
  proof
    assume x: "starts_ci ''0x'' ?t"
    then have "c = CHR ''0''" using starts_ci_hd [of "CHR ''0''" "''x''" c] c(2) ci(1) by simp
    then have i: "i = []" using 1(4) ci(1) by simp
    then have "fr @ ex @ r \<noteq> [] \<and> tolower (hd (fr @ ex @ r)) = CHR ''x''"
      using x ci(1) by (cases "fr @ ex @ r") (auto simp: starts_ci_def)
    then show False using 1(5,6) assms(2)
      by (cases fr; cases ex; cases r) (auto simp: fraction_def exponent_def dest: ends_facts)
  qed
  have "magnitude_length ?t = length (ip @ fr @ ex)"
    using unsigned_length_append [OF 1(3,5,6) assms(2)] not0x c starts_ci_hd [of _ _ c] ci
    by (auto simp: magnitude_length_def)
  moreover have "run_length isspace (sg @ ?t) = 0" "sign_length (sg @ ?t) = length sg"
    using 1(2) ci c by (auto simp: run_length_def sign_length_def at_def)
  ultimately show ?thesis using 1(1) ip(1) by (simp add: strtod_length_def)
qed

lemma number_hd: "number s \<Longrightarrow> \<exists>c t. s = c # t \<and> (c = CHR ''-'' \<or> isdigit c)"
  by (erule number.cases) (auto simp: digits_def neq_Nil_conv)

subsection \<open>Strings and words\<close>

lemma raw_end_body: "string_body s \<Longrightarrow> raw_end (s @ CHR 0x22 # r) = CHR 0x22 # r"
proof (induction s rule: string_body.induct)
  case 1
  show ?case by (cases r) auto
next
  case (2 c)
  then show ?case by (cases r) auto
next
  case (3 c d s)
  then show ?case by (auto split: if_splits)
qed

lemma ref_raw_body: "string_body s \<Longrightarrow> ref_raw (CHR 0x22 # s @ CHR 0x22 # r) = (Some s, r)"
  by (simp add: ref_raw_def at_def raw_end_body Let_def)

lemma json_value_hd:
  assumes "json_value v s"
  obtains c t where "s = c # t" and "\<not> isspace c" and "c \<notin> {CHR '']'', CHR ''}''}"
  using assms
proof (cases rule: json_value.cases)
  case (number)
  then obtain c t where "s = c # t" "c = CHR ''-'' \<or> isdigit c" using number_hd by blast
  then show thesis using that [of c t] digit_facts [of c] by auto
qed (use that in auto)

lemma ref_scalar_number: "number s \<Longrightarrow> ends r \<Longrightarrow> ref_scalar (s @ r) = (Some (Number s), r)"
proof -
  assume n: "number s" and r: "ends r"
  from number_hd [OF n] obtain c t where ct: "s = c # t" "c = CHR ''-'' \<or> isdigit c" by blast
  have "c \<notin> {CHR ''n'', CHR ''t'', CHR ''f'', CHR 0x22}" using ct(2) by (auto simp: isdigit_def)
  then have "\<not> at (s @ r) d" if "d \<in> {CHR ''n'', CHR ''t'', CHR ''f'', CHR 0x22}" for d
    using that ct(1) by (auto simp: at_def)
  then have "ref_scalar (s @ r) = ref_number (s @ r)" by (simp add: ref_scalar_def)
  also have "\<dots> = (Some (Number s), r)" using strtod_number [OF n r] ct by (simp add: ref_number_def)
  finally show ?thesis .
qed

text \<open>The value of a text that does not start with a bracket.\<close>

lemma ref_value_scalar:
  assumes "p = c # s" and "\<not> isspace c" and "c \<notin> {CHR ''['', CHR ''{''}" and "ws w"
  shows "ref_value (w @ p) = ref_scalar p"
  using assms by (simp add: ref_value.simps skip_ws at_def)

lemma ref_value_array:
  assumes "ws w" and "\<not> at (skip_whitespace s) CHR '']''"
  shows "ref_value (w @ CHR ''['' # s) = ref_items [] (skip_whitespace s)"
  using assms by (simp add: ref_value.simps skip_ws at_def [of "_ # _"])

lemma ref_value_object:
  assumes "ws w" and "\<not> at (skip_whitespace s) CHR ''}''"
  shows "ref_value (w @ CHR ''{'' # s) = ref_members [] (skip_whitespace s)"
  using assms by (simp add: ref_value.simps skip_ws at_def [of "_ # _"])

lemma ref_value_skip: "ref_value (skip_whitespace s) = ref_value s"
  by (simp add: ref_value.simps)

lemma ref_items_skip: "ref_items vs (skip_whitespace s) = ref_items vs s"
  by (simp add: ref_items.simps ref_value_skip)

lemma json_items_hd:
  assumes "json_items vs s"
  shows "\<not> at (skip_whitespace (s @ r)) CHR '']''"
  using assms
proof (cases rule: json_items.cases)
  case (item w v t w')
  show ?thesis by (rule json_value_hd [OF item(4)]) (use item in \<open>auto simp: skip_ws at_def\<close>)
next
  case (items w v t w' vs' r')
  show ?thesis by (rule json_value_hd [OF items(4)]) (use items in \<open>auto simp: skip_ws at_def\<close>)
qed

lemma json_members_hd: "json_members ms s \<Longrightarrow> \<not> at (skip_whitespace (s @ r)) CHR ''}''"
  by (erule json_members.cases) (auto simp: skip_ws at_def)

lemma ref_key_body:
  assumes "string_body k" and "ws w1"
  shows "ref_key (CHR 0x22 # k @ CHR 0x22 # w1 @ CHR '':'' # r) = (Some k, skip_whitespace r)"
  using assms by (simp add: ref_key_def ref_raw_body skip_ws at_def)

lemma ends_more: "ws w \<Longrightarrow> ends (w @ CHR '','' # r)" "ws w \<Longrightarrow> ends (w @ CHR '']'' # r)" "ws w \<Longrightarrow> ends (w @ CHR ''}'' # r)"
  by (rule ends_ws; simp add: ends_def)+

text \<open>The reference parser reads every text of the grammar.\<close>

lemma ref_value_grammar:
  "json_value v s \<Longrightarrow> (\<forall>w r. ws w \<longrightarrow> ends r \<longrightarrow> ref_value (w @ s @ r) = (Some v, r))"
  "json_items vs s \<Longrightarrow> (\<forall>us r. ref_items us (s @ CHR '']'' # r) = (Some (Array (us @ vs)), r))"
  "json_members ms s \<Longrightarrow> (\<forall>us r. ref_members us (skip_whitespace (s @ CHR ''}'' # r)) = (Some (Object (us @ ms)), r))"
proof (induction rule: json_value_json_items_json_members.inducts)
  case null
  show ?case by (intro allI impI, subst ref_value_scalar) (auto simp: ref_scalar_def ref_word_def at_def)
next
  case true
  show ?case by (intro allI impI, subst ref_value_scalar) (auto simp: ref_scalar_def ref_word_def at_def)
next
  case false
  show ?case by (intro allI impI, subst ref_value_scalar) (auto simp: ref_scalar_def ref_word_def at_def)
next
  case (number s)
  from number_hd [OF this] obtain c t where ct: "s = c # t" "c = CHR ''-'' \<or> isdigit c" by blast
  show ?case
  proof (intro allI impI)
    fix w r assume "ws w" "ends r"
    then show "ref_value (w @ s @ r) = (Some (Number s), r)"
      using ct digit_facts [of c] ref_scalar_number [OF number]
      by (subst ref_value_scalar [where c = c and s = "t @ r"]) auto
  qed
next
  case (string s)
  then show ?case
    by (intro allI impI, subst ref_value_scalar [where c = "CHR 0x22"]) (auto simp: ref_scalar_def at_def ref_raw_body)
next
  case (empty_array w)
  then show ?case by (auto simp: ref_value.simps skip_ws at_def)
next
  case (array vs s)
  then show ?case using json_items_hd by (simp add: ref_value_array ref_items_skip)
next
  case (empty_object w)
  then show ?case by (auto simp: ref_value.simps skip_ws at_def)
next
  case (object ms s)
  then show ?case using json_members_hd by (simp add: ref_value_object)
next
  case (item w v s w')
  have "ref_value (w @ s @ w' @ CHR '']'' # r) = (Some v, w' @ CHR '']'' # r)" for r
    using item ends_more(2) by blast
  with item show ?case by (simp add: ref_items.simps skip_ws at_def)
next
  case (items w v s w' vs q)
  have "ref_value (w @ s @ w' @ CHR '','' # r) = (Some v, w' @ CHR '','' # r)" for r
    using items ends_more(1) by blast
  with items show ?case by (subst ref_items.simps) (simp add: skip_ws at_def ref_items_skip)
next
  case (member w k w1 w2 v s w')
  have "ws []" by (simp add: ws_def)
  then have "ref_value (s @ w' @ CHR ''}'' # r) = (Some v, w' @ CHR ''}'' # r)" for r
    using member ends_more(3) by force
  with member show ?case by (simp add: ref_members.simps skip_ws ref_key_body ref_value_skip at_def)
next
  case (members w k w1 w2 v s w' ms q)
  have "ws []" by (simp add: ws_def)
  then have v: "ref_value (s @ w' @ CHR '','' # r) = (Some v, w' @ CHR '','' # r)" for r
    using members.IH(1) members.hyps(6) ends_more(1) [of w'] by (metis append_Nil members.IH(1) members(6))
  have "ref_members us (CHR 0x22 # k @ CHR 0x22 # w1 @ CHR '':'' # w2 @ s @ w' @ CHR '','' # q @ CHR ''}'' # r) =
      ref_members (us @ [(k, v)]) (skip_whitespace (q @ CHR ''}'' # r))" for us r
    using v members(2-4,6) by (subst ref_members.simps) (simp add: skip_ws ref_key_body ref_value_skip at_def)
  with members(1,9) show ?case by (simp add: skip_ws)
qed

subsection \<open>Whole texts\<close>

inductive json_text :: "json \<Rightarrow> string \<Rightarrow> bool" where
  "ws w \<Longrightarrow> json_value v s \<Longrightarrow> ws w' \<Longrightarrow> json_text v (w @ s @ w')"

text \<open>The value of a text, or the rest where reading it stopped.\<close>

definition ref_parse :: "string \<Rightarrow> json option \<times> string" where
  "ref_parse s =
     (case ref_value s of (v, q) \<Rightarrow>
        if v = None \<or> skip_whitespace q \<noteq> [] then (None, skip_whitespace q) else (v, []))"

lemma ref_parse_grammar: "json_text v s \<Longrightarrow> ref_parse s = (Some v, [])"
proof (erule json_text.cases)
  fix w t u w' assume a: "v = u" "s = w @ t @ w'" "ws w" "json_value u t" "ws w'"
  have "ends w'" using ends_ws [OF a(5), of "[]"] by (simp add: ends_def)
  then have "ref_value s = (Some v, w')" using ref_value_grammar(1) [OF a(4)] a by simp
  then show ?thesis using skip_ws [OF a(5), of "[]"] by (simp add: ref_parse_def)
qed

end
