(* ===== verification/Json.thy ===== *)
theory Json
  imports SString JsonGrammar
begin

text \<open>
  The JSON library of \<open>src/owned_json.c\<close>: the recursive descent parser that builds a tree of tracked objects,
  the release of a tree and the accessors.  The text is not part of the heap; a double is represented by the
  characters \<open>strtod\<close> converted it from.
\<close>

subsection \<open>Calls that may not come back\<close>

definition bindD :: "('e + 'a) option \<Rightarrow> ('a \<Rightarrow> ('e + 'b) option) \<Rightarrow> ('e + 'b) option" where
  "bindD m f = Option.bind m (\<lambda>r. case r of Inl e \<Rightarrow> Some (Inl e) | Inr x \<Rightarrow> f x)"

lemma bindD_simps [simp]:
  "bindD (Some (Inl e)) f = Some (Inl e)" "bindD (Some (Inr x)) f = f x" "bindD None f = None"
  by (simp_all add: bindD_def)

lemma bindD_mono [partial_function_mono]:
  assumes "mono_option B" and "\<And>y. mono_option (\<lambda>f. C y f)"
  shows "mono_option (\<lambda>f. bindD (B f) (\<lambda>y. C y f))"
  unfolding bindD_def using assms(1)
proof (rule bind_mono)
  fix r
  show "mono_option (\<lambda>f. case r of Inl e \<Rightarrow> Some (Inl e) | Inr x \<Rightarrow> C x f)"
    using assms(2) by (cases r) (auto intro: option.const_mono)
qed

primrec foldD :: "('a \<Rightarrow> 's \<Rightarrow> ('e + 's) option) \<Rightarrow> 'a list \<Rightarrow> 's \<Rightarrow> ('e + 's) option" where
  "foldD f [] s = Some (Inr s)"
| "foldD f (x # xs) s = bindD (f x s) (foldD f xs)"

lemma foldD_mono [partial_function_mono]:
  assumes "\<And>x s. mono_option (\<lambda>f. B f x s)"
  shows "mono_option (\<lambda>f. foldD (B f) xs s)"
proof (induction xs arbitrary: s)
  case Nil
  show ?case by (simp add: option.const_mono)
next
  case (Cons x xs)
  show ?case unfolding foldD.simps by (rule bindD_mono [OF assms Cons])
qed

lemma foldD_append: "foldD f (xs @ ys) s = bindD (foldD f xs s) (foldD f ys)"
proof (induction xs arbitrary: s)
  case (Cons x xs)
  show ?case
  proof (cases "f x s")
    case (Some r)
    then show ?thesis using Cons by (cases r) simp_all
  qed simp
qed simp

subsection \<open>Nodes\<close>

datatype json_type = JSON_NULL | JSON_BOOL | JSON_NUMBER | JSON_STRING | JSON_ARRAY | JSON_OBJECT

fun json_of :: "payload \<Rightarrow> json_node option" where
  "json_of (JNode n) = Some n"
| "json_of _ = None"

text \<open>A node of a type whose union is all zero.\<close>

fun zero_node :: "json_type \<Rightarrow> json_node" where
  "zero_node JSON_NULL = JNull"
| "zero_node JSON_BOOL = JBool 0"
| "zero_node JSON_NUMBER = JNumber ''0''"
| "zero_node JSON_STRING = JString 0"
| "zero_node JSON_ARRAY = JArray 0 0 0"
| "zero_node JSON_OBJECT = JObject 0 0 0 0"

definition create_node :: "tid \<Rightarrow> json_type \<Rightarrow> 'x rt_scheme \<Rightarrow> failure + (addr \<times> 'x rt_scheme)" where
  "create_node self ty st =
     bindE (owner_malloc self 40 st) (\<lambda>(node, st).
       Inr (node, if node \<noteq> 0 then put node (JNode (zero_node ty)) st else st))"

subsection \<open>Release\<close>

partial_function (option) json_free_rec ::
    "tid \<Rightarrow> addr \<Rightarrow> 'x rt_scheme \<Rightarrow> (failure + 'x rt_scheme) option" where
  "json_free_rec self node st =
     (if node = 0 then Some (Inr st)
      else bindD (Some (field json_of st node)) (\<lambda>n.
        bindD (case n of
            JString str \<Rightarrow> Some (if str \<noteq> 0 then owner_free self str st else Inr st)
          | JArray items count cap \<Rightarrow>
              if items \<noteq> 0
              then bindD (foldD (\<lambda>i st. bindD (Some (load_slot st items i)) (\<lambda>x. json_free_rec self x st))
                     [0..<unat count] st) (\<lambda>st.
                   Some (owner_free self items st))
              else Some (Inr st)
          | JObject keys vals count cap \<Rightarrow>
              if keys \<noteq> 0
              then bindD (foldD (\<lambda>i st.
                       bindD (Some (bindE (load_slot st keys i) (\<lambda>k. owner_free self k st))) (\<lambda>st.
                       bindD (Some (load_slot st vals i)) (\<lambda>x. json_free_rec self x st)))
                     [0..<unat count] st) (\<lambda>st.
                   Some (bindE (owner_free self keys st) (owner_free self vals)))
              else Some (Inr st)
          | _ \<Rightarrow> Some (Inr st)) (\<lambda>st.
        Some (owner_free self node st))))"

definition json_free :: "tid \<Rightarrow> addr \<Rightarrow> 'x rt_scheme \<Rightarrow> failure + 'x rt_scheme" where
  "json_free self node st = returned (json_free_rec self node st)"

text \<open>The cleanup handler of \<open>OWNED_JSON\<close>, on the value of the variable.\<close>

definition json_free_cleanup :: "tid \<Rightarrow> addr \<Rightarrow> 'x rt_scheme \<Rightarrow> failure + 'x rt_scheme" where
  "json_free_cleanup self node st = (if node \<noteq> 0 then json_free self node st else Inr st)"

subsection \<open>The parser\<close>

type_synonym 'x parsed = "failure + (addr \<times> string \<times> 'x rt_scheme)"

definition parse_null :: "tid \<Rightarrow> string \<Rightarrow> 'x rt_scheme \<Rightarrow> 'x parsed" where
  "parse_null self p st =
     (if take 4 p = ''null''
      then bindE (create_node self JSON_NULL st) (\<lambda>(node, st). Inr (node, drop 4 p, st))
      else Inr (0, p, st))"

definition parse_bool :: "tid \<Rightarrow> string \<Rightarrow> 'x rt_scheme \<Rightarrow> 'x parsed" where
  "parse_bool self p st =
     (if take 4 p = ''true''
      then bindE (create_node self JSON_BOOL st) (\<lambda>(node, st).
           Inr (node, drop 4 p, if node \<noteq> 0 then put node (JNode (JBool 1)) st else st))
      else if take 5 p = ''false''
      then bindE (create_node self JSON_BOOL st) (\<lambda>(node, st).
           Inr (node, drop 5 p, if node \<noteq> 0 then put node (JNode (JBool 0)) st else st))
      else Inr (0, p, st))"

definition parse_number :: "tid \<Rightarrow> string \<Rightarrow> 'x rt_scheme \<Rightarrow> 'x parsed" where
  "parse_number self p st =
     (let n = strtod_length p in
      if n = 0 then Inr (0, p, st)
      else bindE (create_node self JSON_NUMBER st) (\<lambda>(node, st).
           Inr (node, drop n p, if node \<noteq> 0 then put node (JNode (JNumber (take n p))) st else st)))"

definition parse_raw_string :: "tid \<Rightarrow> string \<Rightarrow> 'x rt_scheme \<Rightarrow> 'x parsed" where
  "parse_raw_string self p st =
     (if \<not> at p CHR 0x22 then Inr (0, p, st)
      else let start = tl p; q = raw_end start in
        if \<not> at q CHR 0x22 then Inr (0, q, st)
        else let len = length start - length q in
          bindE (owner_malloc self (of_nat len + 1) st) (\<lambda>(str, st).
          bindE (if str \<noteq> 0
                 then bindE (memcpy str 0 (Lit (map of_char start)) len st) (store_byte str len 0)
                 else Inr st) (\<lambda>st.
          Inr (str, tl q, st))))"

definition parse_string :: "tid \<Rightarrow> string \<Rightarrow> 'x rt_scheme \<Rightarrow> 'x parsed" where
  "parse_string self p st =
     bindE (parse_raw_string self p st) (\<lambda>(str, p, st).
       if str = 0 then Inr (0, p, st)
       else bindE (create_node self JSON_STRING st) (\<lambda>(node, st).
            bindE (if node \<noteq> 0 then Inr (put node (JNode (JString str)) st) else owner_free self str st) (\<lambda>st.
            Inr (node, p, st))))"

definition new_capacity :: "size_t \<Rightarrow> size_t" where
  "new_capacity cap = (if cap = 0 then 4 else cap * 2)"

text \<open>
  Adding an item to an array and a member to an object: false is the early return, after everything has been
  released.
\<close>

definition array_add :: "tid \<Rightarrow> addr \<Rightarrow> addr \<Rightarrow> 'x rt_scheme \<Rightarrow> failure + (bool \<times> 'x rt_scheme)" where
  "array_add self node item st =
     bindE (field json_of st node) (\<lambda>n.
       case n of
         JArray items count cap \<Rightarrow>
           bindE (if count \<ge> cap
                  then bindE (owner_realloc self items (new_capacity cap * 8) st) (\<lambda>(new_items, st).
                       if new_items = 0 then Inr (None, st)
                       else Inr (Some (new_items, new_capacity cap),
                                 put node (JNode (JArray new_items count (new_capacity cap))) st))
                  else Inr (Some (items, cap), st)) (\<lambda>(r, st).
           case r of
             None \<Rightarrow>
               bindE (json_free self item st) (\<lambda>st.
               bindE (json_free self node st) (\<lambda>st. Inr (False, st)))
           | Some (items, cap) \<Rightarrow>
               bindE (store_slot items (unat count) item
                        (put node (JNode (JArray items (count + 1) cap)) st)) (\<lambda>st. Inr (True, st)))
       | _ \<Rightarrow> Inl (Undefined ''not an array''))"

definition object_add ::
    "tid \<Rightarrow> addr \<Rightarrow> addr \<Rightarrow> addr \<Rightarrow> 'x rt_scheme \<Rightarrow> failure + (bool \<times> 'x rt_scheme)" where
  "object_add self node key val st =
     bindE (field json_of st node) (\<lambda>n.
       case n of
         JObject keys vals count cap \<Rightarrow>
           bindE (if count \<ge> cap
                  then bindE (owner_realloc self keys (new_capacity cap * 8) st) (\<lambda>(new_keys, st).
                       bindE (owner_realloc self vals (new_capacity cap * 8) st) (\<lambda>(new_values, st).
                       if new_keys = 0 \<or> new_values = 0
                       then bindE (owner_free self key st) (\<lambda>st.
                            bindE (json_free self val st) (\<lambda>st.
                            bindE (if new_keys \<noteq> 0 then owner_free self new_keys st else Inr st) (\<lambda>st.
                            bindE (if new_values \<noteq> 0 then owner_free self new_values st else Inr st) (\<lambda>st.
                            bindE (json_free self node st) (\<lambda>st. Inr (None, st))))))
                       else Inr (Some (new_keys, new_values, new_capacity cap),
                                 put node (JNode (JObject new_keys new_values count (new_capacity cap))) st)))
                  else Inr (Some (keys, vals, cap), st)) (\<lambda>(r, st).
           case r of
             None \<Rightarrow> Inr (False, st)
           | Some (keys, vals, cap) \<Rightarrow>
               bindE (store_slot keys (unat count) key st) (\<lambda>st.
               bindE (store_slot vals (unat count) val st) (\<lambda>st.
               Inr (True, put node (JNode (JObject keys vals (count + 1) cap)) st))))
       | _ \<Rightarrow> Inl (Undefined ''not an object''))"

text \<open>The key of a member up to the value: null if there is none, and the object is released.\<close>

definition parse_key :: "tid \<Rightarrow> addr \<Rightarrow> string \<Rightarrow> 'x rt_scheme \<Rightarrow> 'x parsed" where
  "parse_key self node p st =
     bindE (parse_raw_string self p st) (\<lambda>(key, p, st).
       if key = 0 then bindE (json_free self node st) (\<lambda>st. Inr (0, p, st))
       else let p = skip_whitespace p in
         if \<not> at p CHR '':''
         then bindE (owner_free self key st) (\<lambda>st.
              bindE (json_free self node st) (\<lambda>st. Inr (0, p, st)))
         else Inr (key, skip_whitespace (tl p), st))"

definition parse_scalar :: "tid \<Rightarrow> string \<Rightarrow> 'x rt_scheme \<Rightarrow> 'x parsed" where
  "parse_scalar self p st =
     (if at p CHR ''n'' then parse_null self p st
      else if at p CHR ''t'' \<or> at p CHR ''f'' then parse_bool self p st
      else if at p CHR 0x22 then parse_string self p st
      else parse_number self p st)"

function parse_value :: "tid \<Rightarrow> string \<Rightarrow> 'x rt_scheme \<Rightarrow> 'x parsed"
  and parse_array :: "tid \<Rightarrow> string \<Rightarrow> 'x rt_scheme \<Rightarrow> 'x parsed"
  and parse_items :: "tid \<Rightarrow> addr \<Rightarrow> string \<Rightarrow> 'x rt_scheme \<Rightarrow> 'x parsed"
  and parse_object :: "tid \<Rightarrow> string \<Rightarrow> 'x rt_scheme \<Rightarrow> 'x parsed"
  and parse_members :: "tid \<Rightarrow> addr \<Rightarrow> string \<Rightarrow> 'x rt_scheme \<Rightarrow> 'x parsed" where
  "parse_value self s st =
     (let p = skip_whitespace s in
      if p = [] then Inr (0, p, st)
      else if at p CHR ''['' then parse_array self p st
      else if at p CHR ''{'' then parse_object self p st
      else parse_scalar self p st)"
| "parse_array self p st =
     (if \<not> at p CHR ''['' then Inr (0, p, st)
      else let p = skip_whitespace (tl p) in
        bindE (create_node self JSON_ARRAY st) (\<lambda>(node, st).
          if node = 0 then Inr (0, p, st)
          else if at p CHR '']'' then Inr (node, tl p, st)
          else parse_items self node p st))"
| "parse_items self node p st =
     bindE (parse_value self p st) (\<lambda>(item, p, st).
       if item = 0 then bindE (json_free self node st) (\<lambda>st. Inr (0, p, st))
       else bindE (array_add self node item st) (\<lambda>(ok, st).
         if \<not> ok then Inr (0, p, st)
         else let p = skip_whitespace p in
           if at p CHR '']'' then Inr (node, tl p, st)
           else if at p CHR '','' then parse_items self node (skip_whitespace (tl p)) st
           else bindE (json_free self node st) (\<lambda>st. Inr (0, p, st))))"
| "parse_object self p st =
     (if \<not> at p CHR ''{'' then Inr (0, p, st)
      else let p = skip_whitespace (tl p) in
        bindE (create_node self JSON_OBJECT st) (\<lambda>(node, st).
          if node = 0 then Inr (0, p, st)
          else if at p CHR ''}'' then Inr (node, tl p, st)
          else parse_members self node p st))"
| "parse_members self node p st =
     bindE (parse_key self node p st) (\<lambda>(key, p, st).
       if key = 0 then Inr (0, p, st)
       else bindE (parse_value self p st) (\<lambda>(val, p, st).
         if val = 0
         then bindE (owner_free self key st) (\<lambda>st.
              bindE (json_free self node st) (\<lambda>st. Inr (0, p, st)))
         else bindE (object_add self node key val st) (\<lambda>(ok, st).
           if \<not> ok then Inr (0, p, st)
           else let p = skip_whitespace p in
             if at p CHR ''}'' then Inr (node, tl p, st)
             else if at p CHR '','' then parse_members self node (skip_whitespace (tl p)) st
             else bindE (json_free self node st) (\<lambda>st. Inr (0, p, st)))))"
  by pat_completeness simp_all

text \<open>
  The parser ends: no call returns a position before the one it started from, and every loop consumes a
  character.
\<close>

definition forward :: "string \<Rightarrow> 'x parsed \<Rightarrow> bool" where
  "forward p r \<longleftrightarrow> (\<forall>n q st. r = Inr (n, q, st) \<longrightarrow> length q \<le> length p)"

lemma forward_simps [simp]: "forward p (Inl e)" "forward p (Inr (n, q, st)) \<longleftrightarrow> length q \<le> length p"
  by (auto simp: forward_def)

lemma forward_bind [simp]: "forward p (bindE m f) \<longleftrightarrow> (\<forall>x. m = Inr x \<longrightarrow> forward p (f x))"
  by (cases m) auto

lemma forward_trans: "forward q r \<Longrightarrow> length q \<le> length p \<Longrightarrow> forward p r"
  unfolding forward_def using order_trans by blast

lemma forward_raw_string: "forward p (parse_raw_string self p st)"
proof -
  have "length (raw_end (tl p)) \<le> length (tl p)" by (rule length_raw_end)
  then show ?thesis by (auto simp: parse_raw_string_def Let_def)
qed

lemma forward_rawD: "parse_raw_string self p st = Inr (n, q, st') \<Longrightarrow> length q \<le> length p"
  using forward_raw_string [of p self st] by (simp add: forward_def)

lemma forward_scalar: "forward p (parse_scalar self p st)"
proof -
  have "forward p (parse_string self p st)" by (auto simp: parse_string_def dest: forward_rawD)
  then show ?thesis
    by (simp add: parse_scalar_def parse_null_def parse_bool_def parse_number_def Let_def split_beta)
qed

lemma forward_key: "forward p (parse_key self node p st)"
proof -
  have "length (skip_whitespace q) \<le> length p" "length (skip_whitespace (tl (skip_whitespace q))) \<le> length p"
    if "parse_raw_string self p st = Inr (k, q, st')" for k q and st' :: "'a rt_scheme"
    using forward_rawD [OF that] length_skip [of q] length_skip_tl [of "skip_whitespace q"] by simp_all
  then show ?thesis unfolding parse_key_def Let_def
    by (auto dest: forward_rawD)
qed

lemma forward_keyD: "parse_key self node p st = Inr (n, q, st') \<Longrightarrow> length q \<le> length p"
  using forward_key [of p self node st] by (simp add: forward_def)

lemma parse_dom_forward:
  "parse_value_parse_array_parse_items_parse_object_parse_members_dom (Inl (Inl (self, s, st))) \<Longrightarrow>
   forward s (parse_value self s st)"
  "parse_value_parse_array_parse_items_parse_object_parse_members_dom (Inl (Inr (self, s, st))) \<Longrightarrow>
   forward s (parse_array self s st)"
  "parse_value_parse_array_parse_items_parse_object_parse_members_dom (Inr (Inl (self, node, s, st))) \<Longrightarrow>
   forward s (parse_items self node s st)"
  "parse_value_parse_array_parse_items_parse_object_parse_members_dom (Inr (Inr (Inl (self, s, st)))) \<Longrightarrow>
   forward s (parse_object self s st)"
  "parse_value_parse_array_parse_items_parse_object_parse_members_dom (Inr (Inr (Inr (self, node, s, st)))) \<Longrightarrow>
   forward s (parse_members self node s st)"
proof (induction self s st and self s st and self node s st and self s st and self node s st
    rule: parse_value_parse_array_parse_items_parse_object_parse_members.pinduct)
  case (1 self s st)
  note l = length_skip [of s]
  show ?case using 1(2,3) [OF refl] l forward_scalar
    by (auto simp: parse_value.psimps [OF 1(1)] Let_def intro: forward_trans)
next
  case (2 self p st)
  note l = length_skip_tl [of p]
  show ?case using 2(2) [OF _ refl _ refl] l
    by (auto simp: parse_array.psimps [OF 2(1)] Let_def intro: forward_trans)
next
  case (3 self node p st)
  have v: "length q \<le> length p" "length (skip_whitespace q) \<le> length p"
    "length (skip_whitespace (tl (skip_whitespace q))) \<le> length p"
    if "parse_value self p st = Inr (n, q, st')" for n q st'
    using 3(2) that length_skip [of q] length_skip_tl [of "skip_whitespace q"] by simp_all
  have ih: "forward p (parse_items self node (skip_whitespace (tl (skip_whitespace q))) st2)"
    if "parse_value self p st = Inr (n, q, st1)" "n \<noteq> 0" "array_add self node n st1 = Inr (True, st2)"
      "\<not> at (skip_whitespace q) CHR '']''" "at (skip_whitespace q) CHR '',''" for n q st1 st2
    using 3(3) [OF that(1) refl refl that(2,3) refl _ refl that(4,5)] v(3) [OF that(1)]
    by (auto intro: forward_trans)
  show ?case by (auto simp: parse_items.psimps [OF 3(1)] Let_def intro: ih dest: v)
next
  case (4 self p st)
  note l = length_skip_tl [of p]
  show ?case using 4(2) [OF _ refl _ refl] l
    by (auto simp: parse_object.psimps [OF 4(1)] Let_def intro: forward_trans)
next
  case (5 self node p st)
  have v: "length q' \<le> length p" "length (skip_whitespace q') \<le> length p"
    "length (skip_whitespace (tl (skip_whitespace q'))) \<le> length p"
    if "parse_key self node p st = Inr (k, q, st1)" "k \<noteq> 0" "parse_value self q st1 = Inr (n, q', st2)" for k q st1 n q' st2
    using 5(2) [OF that(1) refl refl that(2)] that(3) forward_keyD [OF that(1)] length_skip [of q']
      length_skip_tl [of "skip_whitespace q'"] by simp_all
  have ih: "forward p (parse_members self node (skip_whitespace (tl (skip_whitespace q'))) st3)"
    if "parse_key self node p st = Inr (k, q, st1)" "k \<noteq> 0" "parse_value self q st1 = Inr (n, q', st2)" "n \<noteq> 0"
      "object_add self node k n st2 = Inr (True, st3)" "\<not> at (skip_whitespace q') CHR ''}''"
      "at (skip_whitespace q') CHR '',''" for k q st1 n q' st2 st3
    using 5(3) [OF that(1) refl refl that(2,3) refl refl that(4,5) refl _ refl that(6,7)] v(3) [OF that(1-3)]
    by (auto intro: forward_trans)
  show ?case
    by (auto simp: parse_members.psimps [OF 5(1)] Let_def intro: ih dest: v forward_keyD)
qed

termination parse_value
proof (relation "inv_image (less_than <*lex*> less_than)
    (\<lambda>x. case x of Inl (Inl (self, s, st)) \<Rightarrow> (length s, 1 :: nat) | Inl (Inr (self, s, st)) \<Rightarrow> (length s, 0)
       | Inr (Inl (self, node, s, st)) \<Rightarrow> (length s, 2) | Inr (Inr (Inl (self, s, st))) \<Rightarrow> (length s, 0)
       | Inr (Inr (Inr (self, node, s, st))) \<Rightarrow> (length s, 2))", goal_cases)
  case 1
  then show ?case by auto
next
  case (2 self s st x)
  then show ?case using length_skip [of s] by auto
next
  case (3 self s st x)
  then show ?case using length_skip [of s] by auto
next
  case (4 self p st x xa xb y)
  then show ?case using length_skip_tl_less [of p] by (auto simp: at_def)
next
  case (5 self node p st)
  then show ?case by simp
next
  case (6 self node p st x xa y xb ya xc xd yb xe)
  then have "length xb \<le> length p" using parse_dom_forward(1) [OF 6(11)] by auto
  then show ?case using 6 length_skip [of xb] length_skip_tl_less [of xe] by (auto simp: at_def)
next
  case (7 self p st x xa xb y)
  then show ?case using length_skip_tl_less [of p] by (auto simp: at_def)
next
  case (8 self node p st x xa y xb ya)
  then show ?case using forward_keyD [of self node p st xa xb ya] by auto
next
  case (9 self node p st x xa y xb ya xc xd yb xe yc xf xg yd xh)
  then have "length xb \<le> length p" "length xe \<le> length xb"
    using forward_keyD [of self node p st xa xb ya] parse_dom_forward(1) [OF 9(15)] by auto
  then show ?case using 9 length_skip [of xe] length_skip_tl_less [of xh] by (auto simp: at_def)
qed

declare parse_value.simps [simp del] parse_array.simps [simp del] parse_items.simps [simp del]
  parse_object.simps [simp del] parse_members.simps [simp del]

text \<open>The root, what is stored to \<open>error_pos\<close> (if anything), and the state.\<close>

definition json_parse ::
    "tid \<Rightarrow> string \<Rightarrow> 'x rt_scheme \<Rightarrow> failure + (addr \<times> string option \<times> 'x rt_scheme)" where
  "json_parse self json_str st =
     bindE (parse_value self json_str st) (\<lambda>(root, p, st).
       let p = skip_whitespace p in
       if root = 0 \<or> p \<noteq> []
       then bindE (if root \<noteq> 0 then json_free self root st else Inr st) (\<lambda>st. Inr (0, Some p, st))
       else Inr (root, None, st))"

subsection \<open>Access\<close>

text \<open>\<open>strcmp(a, key) == 0\<close>, from the \<open>i\<close>-th character of \<open>a\<close> on.\<close>

primrec strcmp_eq :: "'x rt_scheme \<Rightarrow> addr \<Rightarrow> string \<Rightarrow> nat \<Rightarrow> failure + bool" where
  "strcmp_eq st a [] i = bindE (load_byte st a i) (\<lambda>b. Inr (b = 0))"
| "strcmp_eq st a (c # cs) i =
     bindE (load_byte st a i) (\<lambda>b. if b = of_char c then strcmp_eq st a cs (i + 1) else Inr False)"

primrec find_key :: "'x rt_scheme \<Rightarrow> addr \<Rightarrow> addr \<Rightarrow> string \<Rightarrow> nat list \<Rightarrow> failure + addr" where
  "find_key st keys vals key [] = Inr 0"
| "find_key st keys vals key (i # is) =
     bindE (load_slot st keys i) (\<lambda>k.
     bindE (strcmp_eq st k key 0) (\<lambda>same.
       if same then load_slot st vals i else find_key st keys vals key is))"

definition json_get_object_item :: "addr \<Rightarrow> string \<Rightarrow> 'x rt_scheme \<Rightarrow> failure + addr" where
  "json_get_object_item node key st =
     (if node = 0 then Inr 0
      else bindE (field json_of st node) (\<lambda>n.
        case n of JObject keys vals count cap \<Rightarrow> find_key st keys vals key [0..<unat count]
        | _ \<Rightarrow> Inr 0))"

definition json_get_array_item :: "addr \<Rightarrow> size_t \<Rightarrow> 'x rt_scheme \<Rightarrow> failure + addr" where
  "json_get_array_item node index st =
     (if node = 0 then Inr 0
      else bindE (field json_of st node) (\<lambda>n.
        case n of JArray items count cap \<Rightarrow> if index \<ge> count then Inr 0 else load_slot st items (unat index)
        | _ \<Rightarrow> Inr 0))"

definition json_get_string :: "addr \<Rightarrow> 'x rt_scheme \<Rightarrow> failure + addr" where
  "json_get_string node st =
     (if node = 0 then Inr 0
      else bindE (field json_of st node) (\<lambda>n. Inr (case n of JString str \<Rightarrow> str | _ \<Rightarrow> 0)))"

definition json_get_number :: "addr \<Rightarrow> 'x rt_scheme \<Rightarrow> failure + string" where
  "json_get_number node st =
     (if node = 0 then Inr ''0''
      else bindE (field json_of st node) (\<lambda>n. Inr (case n of JNumber v \<Rightarrow> v | _ \<Rightarrow> ''0'')))"

definition json_get_bool :: "addr \<Rightarrow> 'x rt_scheme \<Rightarrow> failure + int" where
  "json_get_bool node st =
     (if node = 0 then Inr 0
      else bindE (field json_of st node) (\<lambda>n. Inr (case n of JBool b \<Rightarrow> b | _ \<Rightarrow> 0)))"

end
