(* ===== verification/JsonRep.thy ===== *)
theory JsonRep
  imports Json
begin

text \<open>
  Trees in the heap: \<open>jrep self C v n A\<close> says that the node \<open>n\<close> represents the value \<open>v\<close> in the live objects
  \<open>C\<close>, in exactly the objects \<open>A\<close>, all of which \<open>self\<close> can free.  Releasing such a tree releases exactly \<open>A\<close>, and
  the accessors find the parts of the value.
\<close>

subsection \<open>Representation\<close>

definition cstring :: "tid \<Rightarrow> cells \<Rightarrow> addr \<Rightarrow> string \<Rightarrow> bool" where
  "cstring self C p s \<longleftrightarrow> (\<exists>m y. C p = Some (m, y) \<and> free_ok self m \<and> length s < unat (m_size m) \<and>
     (\<forall>i \<le> length s. byte_view y i = Some ((map of_char s @ [0]) ! i)))"

definition buffer :: "tid \<Rightarrow> cells \<Rightarrow> addr \<Rightarrow> size_t \<Rightarrow> addr list \<Rightarrow> bool" where
  "buffer self C p cap xs \<longleftrightarrow> (\<exists>m y. C p = Some (m, y) \<and> free_ok self m \<and> unat (m_size m) = 8 * unat cap \<and> 4 \<le> unat cap \<and>
     length xs \<le> unat cap \<and> (\<forall>i < length xs. slots_of y i = Some (xs ! i)))"

definition node_at :: "tid \<Rightarrow> cells \<Rightarrow> addr \<Rightarrow> json_node \<Rightarrow> bool" where
  "node_at self C n x \<longleftrightarrow> (\<exists>m. C n = Some (m, JNode x) \<and> free_ok self m)"

inductive jrep :: "tid \<Rightarrow> cells \<Rightarrow> json \<Rightarrow> addr \<Rightarrow> addr set \<Rightarrow> bool"
  and jreps :: "tid \<Rightarrow> cells \<Rightarrow> json list \<Rightarrow> addr list \<Rightarrow> addr set \<Rightarrow> bool" for self C where
  null: "node_at self C n JNull \<Longrightarrow> jrep self C Null n {n}"
| bool: "node_at self C n (JBool (if b then 1 else 0)) \<Longrightarrow> jrep self C (Bool b) n {n}"
| number: "node_at self C n (JNumber s) \<Longrightarrow> jrep self C (Number s) n {n}"
| string: "node_at self C n (JString p) \<Longrightarrow> cstring self C p s \<Longrightarrow> p \<noteq> n \<Longrightarrow> p \<noteq> 0 \<Longrightarrow> jrep self C (String s) n {n, p}"
| empty_array: "node_at self C n (JArray 0 0 0) \<Longrightarrow> jrep self C (Array []) n {n}"
| array: "node_at self C n (JArray p (of_nat (length vs)) cap) \<Longrightarrow> buffer self C p cap ns \<Longrightarrow> jreps self C vs ns A \<Longrightarrow>
    p \<noteq> n \<Longrightarrow> p \<noteq> 0 \<Longrightarrow> {n, p} \<inter> A = {} \<Longrightarrow> vs \<noteq> [] \<Longrightarrow> jrep self C (Array vs) n ({n, p} \<union> A)"
| empty_object: "node_at self C n (JObject 0 0 0 0) \<Longrightarrow> jrep self C (Object []) n {n}"
| object: "node_at self C n (JObject p q (of_nat (length ms)) cap) \<Longrightarrow> buffer self C p cap ks \<Longrightarrow> buffer self C q cap ns \<Longrightarrow>
    list_all2 (cstring self C) ks (map fst ms) \<Longrightarrow> distinct ks \<Longrightarrow> jreps self C (map snd ms) ns A \<Longrightarrow>
    distinct [n, p, q] \<Longrightarrow> p \<noteq> 0 \<Longrightarrow> {n, p, q} \<inter> (set ks \<union> A) = {} \<Longrightarrow> set ks \<inter> A = {} \<Longrightarrow> ms \<noteq> [] \<Longrightarrow>
    jrep self C (Object ms) n ({n, p, q} \<union> set ks \<union> A)"
| none: "jreps self C [] [] {}"
| more: "jrep self C v n A \<Longrightarrow> jreps self C vs ns B \<Longrightarrow> A \<inter> B = {} \<Longrightarrow> jreps self C (v # vs) (n # ns) (A \<union> B)"

inductive_cases jreps_ConsE: "jreps self C (v # vs) ns A"

text \<open>Only the objects of the tree matter.\<close>

lemma cstring_cong: "cstring self C p s \<Longrightarrow> C' p = C p \<Longrightarrow> cstring self C' p s"
  by (simp add: cstring_def)

lemma buffer_cong: "buffer self C p cap xs \<Longrightarrow> C' p = C p \<Longrightarrow> buffer self C' p cap xs"
  by (simp add: buffer_def)

lemma node_at_cong: "node_at self C n x \<Longrightarrow> C' n = C n \<Longrightarrow> node_at self C' n x"
  by (simp add: node_at_def)

lemma cstrings_cong:
  "list_all2 (cstring self C) ks ss \<Longrightarrow> \<forall>a \<in> set ks. C' a = C a \<Longrightarrow> list_all2 (cstring self C') ks ss"
  by (induction rule: list_all2_induct) (auto intro: cstring_cong)

lemmas rep_congs = cstring_cong buffer_cong node_at_cong cstrings_cong

lemma jrep_cong:
  "jrep self C v n A \<Longrightarrow> \<forall>a \<in> A. C' a = C a \<Longrightarrow> jrep self C' v n A"
  "jreps self C vs ns B \<Longrightarrow> \<forall>a \<in> B. C' a = C a \<Longrightarrow> jreps self C' vs ns B"
proof (induction rule: jrep_jreps.inducts)
  case (array n p vs cap ns A)
  have "node_at self C' n (JArray p (of_nat (length vs)) cap)" "buffer self C' p cap ns" "jreps self C' vs ns A"
    using array by (auto intro: rep_congs)
  then show ?case using array by (intro jrep_jreps.array)
next
  case (object n p q ms cap ks ns A)
  have "node_at self C' n (JObject p q (of_nat (length ms)) cap)" "buffer self C' p cap ks" "buffer self C' q cap ns"
    "list_all2 (cstring self C') ks (map fst ms)" "jreps self C' (map snd ms) ns A"
    using object by (auto intro: rep_congs)
  then show ?case using object by (intro jrep_jreps.object)
qed (auto intro: jrep_jreps.intros rep_congs)

lemma node_at_dom: "node_at self C n x \<Longrightarrow> n \<in> dom C"
  by (auto simp: node_at_def)

lemma cstrings_dom: "list_all2 (cstring self C) ks ss \<Longrightarrow> set ks \<subseteq> dom C"
  by (induction rule: list_all2_induct) (auto simp: cstring_def)

lemma jrep_dom:
  "jrep self C v n A \<Longrightarrow> A \<subseteq> dom C \<and> n \<in> A"
  "jreps self C vs ns B \<Longrightarrow> B \<subseteq> dom C \<and> set ns \<subseteq> B \<and> length ns = length vs"
  by (induction rule: jrep_jreps.inducts)
    (use cstrings_dom in \<open>auto simp: node_at_dom cstring_def buffer_def\<close>)

lemma jreps_snoc:
  assumes "jreps self C vs ns A" and "jrep self C v n B" and "A \<inter> B = {}"
  shows "jreps self C (vs @ [v]) (ns @ [n]) (A \<union> B)"
  using assms
proof (induction vs arbitrary: ns A)
  case Nil
  then have "ns = []" "A = {}" by (auto elim: jreps.cases)
  then show ?case using jrep_jreps.more [OF assms(2) jrep_jreps.none] by simp
next
  case (Cons v' vs)
  from Cons.prems(1) obtain n' A' ns' A'' where
    c: "ns = n' # ns'" "A = A' \<union> A''" "jrep self C v' n' A'" "jreps self C vs ns' A''" "A' \<inter> A'' = {}"
    by (rule jreps_ConsE)
  have "jreps self C (vs @ [v]) (ns' @ [n]) (A'' \<union> B)" using Cons.IH [OF c(4) assms(2)] Cons.prems(3) c(2) by blast
  then have "jreps self C (v' # vs @ [v]) (n' # ns' @ [n]) (A' \<union> (A'' \<union> B))"
    using c Cons.prems(3) by (intro jrep_jreps.more) auto
  then show ?case using c by (simp add: Un_assoc)
qed

end
