(* ===== verification/JsonFree.thy ===== *)
theory JsonFree
  imports JsonRep
begin

text \<open>Releasing a tree, and reading it.\<close>

subsection \<open>Release\<close>

text \<open>What \<open>json_free\<close> does to a tree in the objects \<open>A\<close>, in any state that has them.\<close>

definition frees :: "tid \<Rightarrow> cells \<Rightarrow> 'x itself \<Rightarrow> addr \<Rightarrow> addr set \<Rightarrow> bool" where
  "frees self C ty n A \<longleftrightarrow> (\<forall>st :: 'x rt_scheme. rt_wf st \<longrightarrow> (\<forall>a \<in> A. cell_at st a = C a) \<longrightarrow>
     (\<exists>st'. json_free_rec self n st = Some (Inr st') \<and> rt_wf st' \<and> rt.more st' = rt.more st \<and>
        cell_at st' = cell_at st |` (- A)))"

lemma freesE:
  assumes "frees self C TYPE('x) n A" and "rt_wf (st :: 'x rt_scheme)" and "\<And>a. a \<in> A \<Longrightarrow> cell_at st a = C a"
  obtains st' where "json_free_rec self n st = Some (Inr st')" and "rt_wf st'" and "rt.more st' = rt.more st"
    and "cell_at st' = cell_at st |` (- A)"
  using assms unfolding frees_def by blast

fun frees_all :: "tid \<Rightarrow> cells \<Rightarrow> 'x itself \<Rightarrow> addr list \<Rightarrow> addr set \<Rightarrow> bool" where
  "frees_all self C ty [] A \<longleftrightarrow> A = {}"
| "frees_all self C ty (n # ns) A \<longleftrightarrow>
     (\<exists>B D. A = B \<union> D \<and> B \<inter> D = {} \<and> frees self C ty n B \<and> frees_all self C ty ns D)"

lemma restrict_fold [simp]: "(m |` (- A)) |` (- B) = m |` (- (A \<union> B))"
  by (simp add: restrict_restrict Compl_Un)

lemma restrict_del: "(m |` (- A))(p := None) = m |` (- insert p A)"
  by (auto simp: restrict_map_def fun_eq_iff)

lemma upt_step: "[k..<k + Suc n] = k # [Suc k..<Suc k + n]"
  using upt_conv_Cons [of k "k + Suc n"] by simp

text \<open>The loop over the items of an array, from the \<open>k\<close>-th on.\<close>

lemma free_items:
  fixes st :: "'x rt_scheme"
  assumes "frees_all self C TYPE('x) ns A" and "rt_wf st" and "\<And>a. a \<in> A \<Longrightarrow> cell_at st a = C a"
    and "cell_at st p = Some (m, y)" and "p \<notin> A" and "\<And>i. i < length ns \<Longrightarrow> slots_of y (k + i) = Some (ns ! i)"
    and "8 * (k + length ns) \<le> unat (m_size m)"
  shows "\<exists>st'. foldD (\<lambda>i st. bindD (Some (load_slot st p i)) (\<lambda>x. json_free_rec self x st)) [k..<k + length ns] st =
      Some (Inr st') \<and> rt_wf st' \<and> rt.more st' = rt.more st \<and> cell_at st' = cell_at st |` (- A)"
  using assms
proof (induction ns arbitrary: A k st)
  case Nil
  then show ?case by (auto simp: restrict_map_def fun_eq_iff)
next
  case (Cons n ns)
  from Cons.prems(1) obtain B D where bd: "A = B \<union> D" "B \<inter> D = {}" "frees self C TYPE('x) n B"
    "frees_all self C TYPE('x) ns D" by auto
  have ld: "load_slot st p k = Inr n"
    using Cons.prems(6) [of 0] Cons.prems(7) by (intro load_slot_cell [OF Cons.prems(2,4)] slots_of_view) auto
  obtain s1 where s1: "json_free_rec self n st = Some (Inr s1)" "rt_wf s1" "rt.more s1 = rt.more st"
    "cell_at s1 = cell_at st |` (- B)"
    by (rule freesE [OF bd(3) Cons.prems(2)]) (use Cons.prems(3) bd(1) in auto)
  have "\<And>a. a \<in> D \<Longrightarrow> cell_at s1 a = C a" "cell_at s1 p = Some (m, y)" "p \<notin> D"
    using s1(4) bd Cons.prems(3-5) by (auto simp: restrict_map_def)
  note ih = Cons.IH [OF bd(4) s1(2) this(1), of "Suc k"] this
  have ih': "\<exists>st'. foldD (\<lambda>i st. bindD (Some (load_slot st p i)) (\<lambda>x. json_free_rec self x st))
      [Suc k..<Suc k + length ns] s1 = Some (Inr st') \<and> rt_wf st' \<and> rt.more st' = rt.more s1 \<and>
      cell_at st' = cell_at s1 |` (- D)"
    using ih Cons.prems(6) [of "Suc i" for i] Cons.prems(7) by fastforce
  have "[k..<k + length (n # ns)] = k # [Suc k..<Suc k + length ns]" using upt_step [of k "length ns"] by simp
  with ih' s1 ld bd(1) show ?case by auto
qed

text \<open>The loop over the members of an object.\<close>

lemma free_members:
  fixes st :: "'x rt_scheme"
  assumes "frees_all self C TYPE('x) ns A" and "rt_wf st" and "\<And>a. a \<in> set ks \<union> A \<Longrightarrow> cell_at st a = C a"
    and "cell_at st p = Some (m, y)" and "cell_at st q = Some (m', z)"
    and "{p, q} \<inter> (set ks \<union> A) = {}" and "set ks \<inter> A = {}" and "distinct ks" and "length ks = length ns"
    and "\<And>i. i < length ks \<Longrightarrow> slots_of y (k + i) = Some (ks ! i)"
    and "\<And>i. i < length ns \<Longrightarrow> slots_of z (k + i) = Some (ns ! i)"
    and "8 * (k + length ns) \<le> unat (m_size m)" and "8 * (k + length ns) \<le> unat (m_size m')"
    and "\<And>a. a \<in> set ks \<Longrightarrow> \<exists>m x. C a = Some (m, x) \<and> free_ok self m"
  shows "\<exists>st'. foldD (\<lambda>i st. bindD (Some (bindE (load_slot st p i) (\<lambda>k. owner_free self k st))) (\<lambda>st.
        bindD (Some (load_slot st q i)) (\<lambda>x. json_free_rec self x st))) [k..<k + length ns] st =
      Some (Inr st') \<and> rt_wf st' \<and> rt.more st' = rt.more st \<and> cell_at st' = cell_at st |` (- (set ks \<union> A))"
  using assms
proof (induction ns arbitrary: A k st ks)
  case Nil
  then show ?case by (auto simp: restrict_map_def fun_eq_iff)
next
  case (Cons n ns)
  from Cons.prems(9) obtain kp ks' where ks: "ks = kp # ks'" "length ks' = length ns" by (cases ks) auto
  from Cons.prems(1) obtain B D where bd: "A = B \<union> D" "B \<inter> D = {}" "frees self C TYPE('x) n B"
    "frees_all self C TYPE('x) ns D" by auto
  have ld: "load_slot st p k = Inr kp"
    using Cons.prems(10) [of 0] Cons.prems(12) ks by (intro load_slot_cell [OF Cons.prems(2,4)] slots_of_view) auto
  obtain mk x where kc: "cell_at st kp = Some (mk, x)" "free_ok self mk"
    using Cons.prems(3,14) ks(1) by (metis UnI1 list.set_intros(1))
  obtain s1 where s1: "owner_free self kp st = Inr s1" "rt_wf s1" "rt.more s1 = rt.more st"
    "cell_at s1 = (cell_at st)(kp := None)"
    by (rule heap.release_obtain [OF Cons.prems(2) kc])
  have ne: "kp \<noteq> p" "kp \<noteq> q" "kp \<notin> A" "kp \<notin> set ks'" using Cons.prems(6-8) ks(1) by auto
  have c1: "cell_at s1 q = Some (m', z)" using s1(4) ne Cons.prems(5) by simp
  have ld2: "load_slot s1 q k = Inr n"
    using Cons.prems(11) [of 0] Cons.prems(13) by (intro load_slot_cell [OF s1(2) c1] slots_of_view) auto
  obtain s2 where s2: "json_free_rec self n s1 = Some (Inr s2)" "rt_wf s2" "rt.more s2 = rt.more s1"
    "cell_at s2 = cell_at s1 |` (- B)"
    by (rule freesE [OF bd(3) s1(2)]) (use Cons.prems(3) bd(1) ne s1(4) in auto)
  have cells: "cell_at s2 = cell_at st |` (- insert kp B)" using s1(4) s2(4) by (auto simp: restrict_map_def fun_eq_iff)
  have "\<exists>st'. foldD (\<lambda>i st. bindD (Some (bindE (load_slot st p i) (\<lambda>k. owner_free self k st))) (\<lambda>st.
        bindD (Some (load_slot st q i)) (\<lambda>x. json_free_rec self x st))) [Suc k..<Suc k + length ns] s2 =
      Some (Inr st') \<and> rt_wf st' \<and> rt.more st' = rt.more s2 \<and> cell_at st' = cell_at s2 |` (- (set ks' \<union> D))"
  proof (rule Cons.IH [OF bd(4) s2(2)])
    show "cell_at s2 a = C a" if "a \<in> set ks' \<union> D" for a
      using that ne Cons.prems(3) [of a] Cons.prems(7) bd ks(1) by (auto simp: cells restrict_map_def)
    show "cell_at s2 p = Some (m, y)" "cell_at s2 q = Some (m', z)"
      using Cons.prems(4-6) ne bd(1) by (auto simp: cells restrict_map_def)
    show "slots_of y (Suc k + i) = Some (ks' ! i)" if "i < length ks'" for i
      using Cons.prems(10) [of "Suc i"] that ks(1) by simp
    show "slots_of z (Suc k + i) = Some (ns ! i)" if "i < length ns" for i
      using Cons.prems(11) [of "Suc i"] that by simp
  qed (use Cons.prems ks bd in auto)
  then obtain s3 where s3: "foldD (\<lambda>i st. bindD (Some (bindE (load_slot st p i) (\<lambda>k. owner_free self k st))) (\<lambda>st.
        bindD (Some (load_slot st q i)) (\<lambda>x. json_free_rec self x st))) [Suc k..<Suc k + length ns] s2 =
      Some (Inr s3)" "rt_wf s3" "rt.more s3 = rt.more s2" "cell_at s3 = cell_at s2 |` (- (set ks' \<union> D))" by blast
  have "[k..<k + length (n # ns)] = k # [Suc k..<Suc k + length ns]" using upt_step [of k "length ns"] by simp
  moreover have "insert kp B \<union> (set ks' \<union> D) = set ks \<union> A" using ks bd by auto
  then have "cell_at s3 = cell_at st |` (- (set ks \<union> A))" using s3(4) cells restrict_fold by metis
  ultimately show ?case using s1(1,3) s2(1,3) s3(1-3) ld ld2 by (intro exI [of _ s3]) (simp del: upt_Suc)
qed

lemma frees_node:
  fixes C :: cells
  assumes "node_at self C n x"
    and "\<And>st :: 'x rt_scheme. rt_wf st \<Longrightarrow> (\<And>a. a \<in> A \<Longrightarrow> cell_at st a = C a) \<Longrightarrow> cell_at st n = C n \<Longrightarrow>
      \<exists>st'. json_free_rec self n st = bindD (Some (Inr st')) (\<lambda>st. Some (owner_free self n st)) \<and> rt_wf st' \<and>
        rt.more st' = rt.more st \<and> cell_at st' = cell_at st |` (- A)"
    and "n \<notin> A"
  shows "frees self C TYPE('x) n (insert n A)"
  unfolding frees_def
proof (intro allI impI)
  fix st :: "'x rt_scheme" assume st: "rt_wf st" "\<forall>a \<in> insert n A. cell_at st a = C a"
  then obtain s1 where s1: "json_free_rec self n st = bindD (Some (Inr s1)) (\<lambda>st. Some (owner_free self n st))"
    "rt_wf s1" "rt.more s1 = rt.more st" "cell_at s1 = cell_at st |` (- A)"
    using assms(2) [OF st(1)] by auto
  obtain m where m: "C n = Some (m, JNode x)" "free_ok self m" using assms(1) by (auto simp: node_at_def)
  then have "cell_at s1 n = Some (m, JNode x)" using s1(4) st(2) assms(3) by (simp add: restrict_map_def)
  then obtain s2 where s2: "owner_free self n s1 = Inr s2" "rt_wf s2" "rt.more s2 = rt.more s1"
    "cell_at s2 = (cell_at s1)(n := None)"
    by (rule heap.release_obtain [OF s1(2) _ m(2)])
  have "cell_at s2 = cell_at st |` (- insert n A)" using s1(4) s2(4) restrict_del by metis
  with s1 s2 show "\<exists>st'. json_free_rec self n st = Some (Inr st') \<and> rt_wf st' \<and> rt.more st' = rt.more st \<and>
      cell_at st' = cell_at st |` (- insert n A)" by auto
qed

lemma json_free_unfold:
  assumes "rt_wf st" and "cell_at st n = C n" and "node_at self C n x"
  shows "field json_of st n = Inr x" and "n \<noteq> 0"
proof -
  obtain m where m: "cell_at st n = Some (m, JNode x)" using assms(2,3) by (auto simp: node_at_def)
  show "field json_of st n = Inr x" by (rule field_cell [OF assms(1) m]) simp
  show "n \<noteq> 0" by (rule cell_at_nonnull [OF m])
qed

lemma frees_leaf:
  fixes C :: cells
  assumes "node_at self C n x" and "\<forall>str. x \<noteq> JString str" and "\<And>p k cap. x = JArray p k cap \<Longrightarrow> p = 0"
    and "\<And>p q k cap. x = JObject p q k cap \<Longrightarrow> p = 0"
  shows "frees self C TYPE('x) n {n}"
proof (rule frees_node [OF assms(1), where A = "{}", simplified])
  fix st :: "'x rt_scheme" assume st: "rt_wf st" "cell_at st n = C n"
  note f = json_free_unfold [OF st assms(1)]
  have "json_free_rec self n st = Some (owner_free self n st)"
    using f assms(2-4) by (subst json_free_rec.simps) (cases x; simp)
  then show "\<exists>st'. json_free_rec self n st = Some (owner_free self n st') \<and> rt_wf st' \<and> rt.more st' = rt.more st \<and>
      cell_at st' = cell_at st |` UNIV" using st(1) by (auto simp: restrict_map_def fun_eq_iff)
qed

lemma jrep_frees:
  "jrep self C v n A \<Longrightarrow> frees self C TYPE('x) n A"
  "jreps self C vs ns B \<Longrightarrow> frees_all self C TYPE('x) ns B"
proof (induction rule: jrep_jreps.inducts)
  case (string n p s)
  have "frees self C TYPE('x) n (insert n {p})"
  proof (rule frees_node [OF string(1)])
    fix st :: "'x rt_scheme" assume st: "rt_wf st" "\<And>a. a \<in> {p} \<Longrightarrow> cell_at st a = C a" "cell_at st n = C n"
    note f = json_free_unfold [OF st(1,3) string(1)]
    obtain m y where "cell_at st p = Some (m, y)" "free_ok self m" using string(2) st(2) by (auto simp: cstring_def)
    then obtain s1 where s1: "owner_free self p st = Inr s1" "rt_wf s1" "rt.more s1 = rt.more st"
      "cell_at s1 = (cell_at st)(p := None)"
      by (rule heap.release_obtain [OF st(1)])
    have "json_free_rec self n st = bindD (Some (Inr s1)) (\<lambda>st. Some (owner_free self n st))"
      using f string(4) s1(1) by (subst json_free_rec.simps) simp
    moreover have "(cell_at st)(p := None) = cell_at st |` (- {p})" by (auto simp: restrict_map_def fun_eq_iff)
    ultimately show "\<exists>st'. json_free_rec self n st = bindD (Some (Inr st')) (\<lambda>st. Some (owner_free self n st)) \<and>
        rt_wf st' \<and> rt.more st' = rt.more st \<and> cell_at st' = cell_at st |` (- {p})" using s1 by auto
  qed (use string in auto)
  then show ?case by simp
next
  case (array n p vs cap ns A)
  have "frees self C TYPE('x) n (insert n (insert p A))"
  proof (rule frees_node [OF array(1)])
    fix st :: "'x rt_scheme"
    assume st: "rt_wf st" "\<And>a. a \<in> insert p A \<Longrightarrow> cell_at st a = C a" "cell_at st n = C n"
    note f = json_free_unfold [OF st(1,3) array(1)]
    obtain m y where b: "cell_at st p = Some (m, y)" "free_ok self m" "unat (m_size m) = 8 * unat cap"
      "length ns \<le> unat cap" "\<And>i. i < length ns \<Longrightarrow> slots_of y i = Some (ns ! i)"
      using array(2) st(2) by (auto simp: buffer_def)
    have len: "length ns = length vs" using jrep_dom(2) [OF array(3)] by simp
    have "length vs < 2 ^ 64" using b(4) len unat_lt_2p64 [of cap] by simp
    then have u: "unat (of_nat (length vs) :: size_t) = length ns" using len unat_of_nat_lt by metis
    have "\<exists>st'. foldD (\<lambda>i st. bindD (Some (load_slot st p i)) (\<lambda>x. json_free_rec self x st)) [0..<0 + length ns] st =
        Some (Inr st') \<and> rt_wf st' \<and> rt.more st' = rt.more st \<and> cell_at st' = cell_at st |` (- A)"
      by (rule free_items [OF array(4) st(1) _ b(1)]) (use st(2) array b in auto)
    then obtain s1 where s1: "foldD (\<lambda>i st. bindD (Some (load_slot st p i)) (\<lambda>x. json_free_rec self x st)) [0..<length ns] st =
        Some (Inr s1)" "rt_wf s1" "rt.more s1 = rt.more st" "cell_at s1 = cell_at st |` (- A)" by auto
    have "cell_at s1 p = Some (m, y)" using s1(4) b(1) array by (auto simp: restrict_map_def)
    then obtain s2 where s2: "owner_free self p s1 = Inr s2" "rt_wf s2" "rt.more s2 = rt.more s1"
      "cell_at s2 = (cell_at s1)(p := None)"
      by (rule heap.release_obtain [OF s1(2) _ b(2)])
    have "json_free_rec self n st = bindD (Some (Inr s2)) (\<lambda>st. Some (owner_free self n st))"
      using f array(6) s1(1) s2(1) u by (subst json_free_rec.simps) simp
    moreover have "cell_at s2 = cell_at st |` (- insert p A)" using s1(4) s2(4) restrict_del by metis
    ultimately show "\<exists>st'. json_free_rec self n st = bindD (Some (Inr st')) (\<lambda>st. Some (owner_free self n st)) \<and>
        rt_wf st' \<and> rt.more st' = rt.more st \<and> cell_at st' = cell_at st |` (- insert p A)" using s1 s2 by auto
  qed (use array in auto)
  then show ?case by simp
next
  case (object n p q ms cap ks ns A)
  let ?A = "insert p (insert q (set ks \<union> A))"
  have "frees self C TYPE('x) n (insert n ?A)"
  proof (rule frees_node [OF object(1)])
    fix st :: "'x rt_scheme"
    assume st: "rt_wf st" "\<And>a. a \<in> ?A \<Longrightarrow> cell_at st a = C a" "cell_at st n = C n"
    note f = json_free_unfold [OF st(1,3) object(1)]
    obtain m y where b: "cell_at st p = Some (m, y)" "free_ok self m" "unat (m_size m) = 8 * unat cap"
      "length ks \<le> unat cap" "\<And>i. i < length ks \<Longrightarrow> slots_of y i = Some (ks ! i)"
      using object(2) st(2) by (auto simp: buffer_def)
    obtain m' z where c: "cell_at st q = Some (m', z)" "free_ok self m'" "unat (m_size m') = 8 * unat cap"
      "\<And>i. i < length ns \<Longrightarrow> slots_of z i = Some (ns ! i)"
      using object(3) st(2) by (auto simp: buffer_def)
    have len: "length ns = length ms" "length ks = length ms"
      using jrep_dom(2) [OF object(5)] list_all2_lengthD [OF object(4)] by simp_all
    have "length ms < 2 ^ 64" using b(4) len unat_lt_2p64 [of cap] by simp
    then have u: "unat (of_nat (length ms) :: size_t) = length ns" using len unat_of_nat_lt by metis
    have kc: "\<exists>m x. C a = Some (m, x) \<and> free_ok self m" if "a \<in> set ks" for a
      using object(4) that by (auto simp: list_all2_conv_all_nth in_set_conv_nth cstring_def)
    have "\<exists>st'. foldD (\<lambda>i st. bindD (Some (bindE (load_slot st p i) (\<lambda>k. owner_free self k st))) (\<lambda>st.
        bindD (Some (load_slot st q i)) (\<lambda>x. json_free_rec self x st))) [0..<0 + length ns] st =
        Some (Inr st') \<and> rt_wf st' \<and> rt.more st' = rt.more st \<and> cell_at st' = cell_at st |` (- (set ks \<union> A))"
      by (rule free_members [OF object(6) st(1) _ b(1) c(1)]) (use st(2) object(7,8,10,11) b c len kc in auto)
    then obtain s1 where s1: "foldD (\<lambda>i st. bindD (Some (bindE (load_slot st p i) (\<lambda>k. owner_free self k st))) (\<lambda>st.
        bindD (Some (load_slot st q i)) (\<lambda>x. json_free_rec self x st))) [0..<length ns] st =
        Some (Inr s1)" "rt_wf s1" "rt.more s1 = rt.more st" "cell_at s1 = cell_at st |` (- (set ks \<union> A))" by auto
    have c1: "cell_at s1 p = Some (m, y)" "cell_at s1 q = Some (m', z)"
      using s1(4) b(1) c(1) object(10) by (auto simp: restrict_map_def)
    obtain s2 where s2: "owner_free self p s1 = Inr s2" "rt_wf s2" "rt.more s2 = rt.more s1"
      "cell_at s2 = (cell_at s1)(p := None)"
      by (rule heap.release_obtain [OF s1(2) c1(1) b(2)])
    have "cell_at s2 q = Some (m', z)" using s2(4) c1(2) object(8) by auto
    then obtain s3 where s3: "owner_free self q s2 = Inr s3" "rt_wf s3" "rt.more s3 = rt.more s2"
      "cell_at s3 = (cell_at s2)(q := None)"
      by (rule heap.release_obtain [OF s2(2) _ c(2)])
    have "json_free_rec self n st = bindD (Some (Inr s3)) (\<lambda>st. Some (owner_free self n st))"
      using f object(9) s1(1) s2(1) s3(1) u by (subst json_free_rec.simps) simp
    moreover have "cell_at s3 = cell_at st |` (- ?A)" by (simp only: s1(4) s2(4) s3(4) restrict_del insert_commute [of p q])
    ultimately show "\<exists>st'. json_free_rec self n st = bindD (Some (Inr st')) (\<lambda>st. Some (owner_free self n st)) \<and>
        rt_wf st' \<and> rt.more st' = rt.more st \<and> cell_at st' = cell_at st |` (- ?A)" using s1 s2 s3 by auto
  qed (use object in auto)
  moreover have "insert n ?A = {n, p, q} \<union> set ks \<union> A" by auto
  ultimately show ?case by (simp only:)
qed (auto intro!: frees_leaf)

text \<open>Releasing a tree ends and releases exactly its objects.\<close>

lemma json_free_rep:
  assumes "rt_wf st" and "jrep self (cell_at st) v n A"
  obtains st' where "json_free self n st = Inr st'" and "rt_wf st'" and "rt.more st' = rt.more st"
    and "cell_at st' = cell_at st |` (- A)"
  by (rule freesE [OF jrep_frees(1) [OF assms(2)] assms(1)])
    (use that in \<open>auto simp: json_free_def returned_def\<close>)

subsection \<open>Access\<close>

lemma of_char_byte: "(of_char c :: byte) = of_char d \<longleftrightarrow> c = d" "(of_char c :: byte) = 0 \<longleftrightarrow> c = CHR 0x00"
proof -
  have u: "unat (of_char c :: byte) = of_char c" for c
  proof -
    have "(of_char c :: byte) = of_nat (of_char c)" by (simp add: of_nat_of_char)
    moreover have "(of_char c :: nat) < 256" by simp
    ultimately show ?thesis by (simp only: unat_of_nat) (simp add: take_bit_eq_mod)
  qed
  show "(of_char c :: byte) = of_char d \<longleftrightarrow> c = d" using u [of c] u [of d] by (metis of_char_eq_iff)
  have "(of_char CHR 0x00 :: byte) = 0" by simp
  then show "(of_char c :: byte) = 0 \<longleftrightarrow> c = CHR 0x00"
    using \<open>(of_char c :: byte) = of_char d \<longleftrightarrow> c = d\<close> u by (metis of_char_eq_iff)
qed

text \<open>A text has no NUL before its end, and neither have its parts.\<close>

fun no_nul :: "json \<Rightarrow> bool" where
  "no_nul (Object ms) \<longleftrightarrow> (\<forall>k \<in> set (map fst ms). CHR 0x00 \<notin> set k)"
| "no_nul _ \<longleftrightarrow> True"

lemma strcmp_eq_from:
  assumes "rt_wf st" and "cell_at st p = Some (m, y)" and "length s < unat (m_size m)"
    and "\<And>i. i \<le> length s \<Longrightarrow> byte_view y i = Some ((map of_char s @ [0]) ! i)"
    and "CHR 0x00 \<notin> set s" and "CHR 0x00 \<notin> set key" and "i \<le> length s"
  shows "strcmp_eq st p key i = Inr (drop i s = key)"
  using assms(6,7)
proof (induction key arbitrary: i)
  case Nil
  have ld: "load_byte st p i = Inr ((map of_char s @ [0]) ! i)"
    using Nil.prems assms(3,4) by (intro load_byte_cell [OF assms(1,2)]) auto
  show ?case
  proof (cases "i = length s")
    case False
    then have "i < length s" using Nil.prems by simp
    then have "s ! i \<noteq> CHR 0x00" using assms(5) by (metis nth_mem)
    then show ?thesis using ld \<open>i < length s\<close> by (simp add: nth_append of_char_byte)
  qed (use ld in \<open>simp add: nth_append\<close>)
next
  case (Cons c key)
  have ld: "load_byte st p i = Inr ((map of_char s @ [0]) ! i)"
    using Cons.prems assms(3,4) by (intro load_byte_cell [OF assms(1,2)]) auto
  show ?case
  proof (cases "i = length s")
    case True
    have "(of_char c :: byte) \<noteq> 0" using Cons.prems(1) by (auto simp: of_char_byte)
    then show ?thesis using ld True by (auto simp: nth_append)
  next
    case False
    then have i: "i < length s" using Cons.prems by simp
    then have d: "drop i s = s ! i # drop (Suc i) s" by (simp add: Cons_nth_drop_Suc)
    show ?thesis using ld i Cons by (simp add: nth_append of_char_byte d)
  qed
qed

lemma strcmp_eq_cstring:
  assumes "rt_wf st" and "cstring self (cell_at st) p s" and "CHR 0x00 \<notin> set s" and "CHR 0x00 \<notin> set key"
  shows "strcmp_eq st p key 0 = Inr (s = key)"
  using assms strcmp_eq_from [OF assms(1), where i = 0] by (auto simp: cstring_def)

lemma load_buffer:
  "rt_wf st \<Longrightarrow> buffer self (cell_at st) p cap xs \<Longrightarrow> i < length xs \<Longrightarrow> load_slot st p i = Inr (xs ! i)"
  by (auto simp: buffer_def intro!: load_slot_cell slots_of_view)

lemma find_key_from:
  assumes "rt_wf st" and "buffer self (cell_at st) p cap ks" and "buffer self (cell_at st) q cap ns"
    and "list_all2 (cstring self (cell_at st)) ks (map fst ms)" and "length ns = length ms"
    and "\<And>k. k \<in> set (map fst ms) \<Longrightarrow> CHR 0x00 \<notin> set k" and "CHR 0x00 \<notin> set key"
    and "i \<le> length ms"
  shows "find_key st p q key [i..<length ms] =
    Inr (case map_of (zip (drop i (map fst ms)) (drop i ns)) key of None \<Rightarrow> 0 | Some x \<Rightarrow> x)"
  using assms(8)
proof (induction "length ms - i" arbitrary: i)
  case 0
  then show ?case by simp
next
  case (Suc d)
  then have i: "i < length ms" by simp
  have len: "length ks = length ms" using list_all2_lengthD [OF assms(4)] by simp
  have "load_slot st p i = Inr (ks ! i)" "load_slot st q i = Inr (ns ! i)"
    using load_buffer assms(1-3,5) i len by metis+
  moreover have "strcmp_eq st (ks ! i) key 0 = Inr (map fst ms ! i = key)"
    using i len assms(4,6) by (intro strcmp_eq_cstring [OF assms(1) _ _ assms(7)])
      (auto simp: list_all2_conv_all_nth)
  moreover have "drop i (map fst ms) = map fst ms ! i # drop (Suc i) (map fst ms)" "drop i ns = ns ! i # drop (Suc i) ns"
    using i assms(5) by (simp_all only: Cons_nth_drop_Suc length_map)
  moreover have "[i..<length ms] = i # [Suc i..<length ms]" using i by (simp add: upt_conv_Cons)
  ultimately show ?case using Suc.hyps(1) [of "Suc i"] Suc.hyps(2) i by (simp del: drop_map)
qed

lemma jreps_nth:
  assumes "jreps self C vs ns A" and "i < length vs"
  shows "\<exists>B. B \<subseteq> A \<and> jrep self C (vs ! i) (ns ! i) B"
  using assms
proof (induction vs arbitrary: ns A i)
  case (Cons v vs)
  from Cons.prems(1) obtain n' A' ns' A'' where
    c: "ns = n' # ns'" "A = A' \<union> A''" "jrep self C v n' A'" "jreps self C vs ns' A''"
    by (rule jreps_ConsE)
  show ?case
  proof (cases i)
    case 0
    then show ?thesis using c by auto
  next
    case (Suc j)
    then show ?thesis using Cons.IH [OF c(4), of j] Cons.prems(2) c by auto
  qed
qed simp

lemma map_of_zip_jreps:
  assumes "jreps self C (map snd ms) ns A" and "map_of ms key = Some v"
  shows "\<exists>x B. map_of (zip (map fst ms) ns) key = Some x \<and> B \<subseteq> A \<and> jrep self C v x B"
  using assms
proof (induction ms arbitrary: ns A)
  case (Cons kw ms)
  from Cons.prems(1) obtain n' A' ns' A'' where
    c: "ns = n' # ns'" "A = A' \<union> A''" "jrep self C (snd kw) n' A'" "jreps self C (map snd ms) ns' A''"
    unfolding list.map by (rule jreps_ConsE)
  show ?case
  proof (cases "fst kw = key")
    case True
    then show ?thesis using Cons.prems(2) c by (cases kw) auto
  next
    case False
    then have "map_of ms key = Some v" using Cons.prems(2) by (cases kw) auto
    from Cons.IH [OF c(4) this] show ?thesis using c False by auto
  qed
qed simp

definition json_item :: "json \<Rightarrow> nat \<Rightarrow> json option" where
  "json_item v i = (case v of Array vs \<Rightarrow> if i < length vs then Some (vs ! i) else None | _ \<Rightarrow> None)"

definition json_member :: "json \<Rightarrow> string \<Rightarrow> json option" where
  "json_member v key = (case v of Object ms \<Rightarrow> map_of ms key | _ \<Rightarrow> None)"

text \<open>The pointer to a part of a value: null if there is none.\<close>

definition points :: "tid \<Rightarrow> cells \<Rightarrow> addr set \<Rightarrow> addr \<Rightarrow> json option \<Rightarrow> bool" where
  "points self C A x w \<longleftrightarrow> (case w of None \<Rightarrow> x = 0 | Some v \<Rightarrow> \<exists>B. B \<subseteq> A \<and> jrep self C v x B)"

lemma jrep_field:
  assumes "rt_wf st" and "jrep self (cell_at st) v n A"
  obtains x where "field json_of st n = Inr x" and "n \<noteq> 0" and "node_at self (cell_at st) n x"
proof -
  from assms(2) obtain x where x: "node_at self (cell_at st) n x" by cases auto
  show thesis using that x json_free_unfold [OF assms(1) refl x] by blast
qed

lemma node_at_field: "rt_wf st \<Longrightarrow> node_at self (cell_at st) n x \<Longrightarrow> field json_of st n = Inr x \<and> n \<noteq> 0"
  using json_free_unfold [of st n "cell_at st"] by simp

lemma buffer_small: "buffer self C p cap xs \<Longrightarrow> unat (of_nat (length xs) :: size_t) = length xs"
  using unat_lt_2p64 [of cap] by (intro unat_of_nat_lt) (auto simp: buffer_def)

lemma array_item_rep:
  assumes "rt_wf st" and "jrep self (cell_at st) v n A"
  shows "\<exists>x. json_get_array_item n i st = Inr x \<and> points self (cell_at st) A x (json_item v (unat i))"
  using assms(2)
proof cases
  case (array p vs cap ns B)
  have len: "length ns = length vs" using jrep_dom(2) [OF array(5)] by simp
  then have u: "unat (of_nat (length vs) :: size_t) = length vs" using buffer_small [OF array(4)] by simp
  note f = node_at_field [OF assms(1) array(3)]
  show ?thesis
  proof (cases "unat i < length vs")
    case True
    then have "json_get_array_item n i st = Inr (ns ! unat i)"
      using f load_buffer [OF assms(1) array(4), of "unat i"] len u
      by (auto simp: json_get_array_item_def word_le_nat_alt)
    moreover have "points self (cell_at st) A (ns ! unat i) (Some (vs ! unat i))"
      using jreps_nth [OF array(5) True] array(2) by (auto simp: points_def)
    ultimately show ?thesis using True array(1) by (simp add: json_item_def)
  next
    case False
    then show ?thesis using f u array(1)
      by (auto simp: json_get_array_item_def word_le_nat_alt json_item_def points_def)
  qed
qed (use node_at_field [OF assms(1)] in \<open>auto simp: json_get_array_item_def json_item_def points_def\<close>)

lemma object_item_rep:
  assumes "rt_wf st" and "jrep self (cell_at st) v n A" and "no_nul v" and "CHR 0x00 \<notin> set key"
  shows "\<exists>x. json_get_object_item n key st = Inr x \<and> points self (cell_at st) A x (json_member v key)"
  using assms(2)
proof cases
  case (object p q ms cap ks ns B)
  have len: "length ns = length ms" "length ks = length ms"
    using jrep_dom(2) [OF object(8)] list_all2_lengthD [OF object(6)] by simp_all
  then have u: "unat (of_nat (length ms) :: size_t) = length ms" using buffer_small [OF object(5)] by simp
  let ?r = "map_of (zip (map fst ms) ns) key"
  have "find_key st p q key [0..<length ms] = Inr (case ?r of None \<Rightarrow> 0 | Some x \<Rightarrow> x)"
    using find_key_from [OF assms(1) object(4-6) len(1) _ assms(4), of 0] assms(3) object(1) by auto
  then have g: "json_get_object_item n key st = Inr (case ?r of None \<Rightarrow> 0 | Some x \<Rightarrow> x)"
    using node_at_field [OF assms(1) object(3)] u by (simp add: json_get_object_item_def)
  show ?thesis
  proof (cases "map_of ms key")
    case None
    then have "?r = None" using len by (auto simp: map_of_eq_None_iff dest: in_set_zipE)
    then show ?thesis using g None object(1) by (simp add: json_member_def points_def)
  next
    case (Some w)
    from map_of_zip_jreps [OF object(8) Some] show ?thesis using g Some object(1,2)
      by (auto simp: json_member_def points_def)
  qed
qed (use node_at_field [OF assms(1)] in \<open>auto simp: json_get_object_item_def json_member_def points_def\<close>)

lemma scalar_rep:
  assumes "rt_wf st" and "jrep self (cell_at st) v n A"
  shows "\<exists>x. json_get_string n st = Inr x \<and> (case v of String s \<Rightarrow> cstring self (cell_at st) x s | _ \<Rightarrow> x = 0)"
    and "json_get_number n st = Inr (case v of Number s \<Rightarrow> s | _ \<Rightarrow> ''0'')"
    and "json_get_bool n st = Inr (case v of Bool b \<Rightarrow> if b then 1 else 0 | _ \<Rightarrow> 0)"
  using assms(2)
  by (cases; use node_at_field [OF assms(1)] in
      \<open>auto simp: json_get_string_def json_get_number_def json_get_bool_def\<close>)+

end
