(* ===== verification/Room.thy ===== *)
theory Room
  imports Heap
begin

text \<open>
  Enough memory: \<open>room k D st\<close> says that the next \<open>k\<close> answers of the C allocator are blocks for which \<open>D\<close> bytes
  are free.  Then the next \<open>k\<close> allocations of at most that size succeed, whatever is released in between.
\<close>

definition room :: "nat \<Rightarrow> nat \<Rightarrow> 'x rt_scheme \<Rightarrow> bool" where
  "room k D st \<longleftrightarrow> k \<le> length (replies st) \<and>
     (\<forall>i < k. chunk_ok (chunks st) (replies st ! i) D \<and>
        (\<forall>j < i. apart (replies st ! j) D (replies st ! i) D))"

lemma apart_smaller: "apart a n b k \<Longrightarrow> n' \<le> n \<Longrightarrow> k' \<le> k \<Longrightarrow> apart a n' b k'"
  by (auto simp: apart_def)

lemma chunk_ok_smaller: "chunk_ok cs a n \<Longrightarrow> n' \<le> n \<Longrightarrow> set cs' \<subseteq> set cs \<Longrightarrow> chunk_ok cs' a n'"
  by (fastforce simp: chunk_ok_def list_all_iff intro: apart_smaller)

lemma room_less: "room k D st \<Longrightarrow> k' \<le> k \<Longrightarrow> room k' D st"
  by (auto simp: room_def)

lemma room_cong: "replies st' = replies st \<Longrightarrow> set (chunks st') \<subseteq> set (chunks st) \<Longrightarrow> room k D st \<Longrightarrow> room k D st'"
  by (auto simp: room_def intro: chunk_ok_smaller)

lemma room_bound: "room (Suc k) D st \<Longrightarrow> D < 2 ^ 64"
  by (auto simp: room_def chunk_ok_def)

text \<open>Taking the next answer for a block of at most \<open>D\<close> bytes.\<close>

lemma room_next:
  fixes st :: "'x rt_scheme"
  assumes "room (Suc k) D st" and "n \<le> D"
  obtains r rs where "replies st = r # rs" and "r \<noteq> 0" and "chunk_ok (chunks st) r n"
    and "\<forall>st' :: 'x rt_scheme. replies st' = rs \<longrightarrow> set (chunks st') \<subseteq> insert (r, n) (set (chunks st)) \<longrightarrow> room k D st'"
proof -
  obtain r rs where rs: "replies st = r # rs" using assms(1) by (cases "replies st") (auto simp: room_def)
  have ok: "chunk_ok (chunks st) r D" using assms(1) rs by (auto simp: room_def)
  have rest: "chunk_ok (chunks st) (rs ! i) D" "apart r D (rs ! i) D" "\<forall>j < i. apart (rs ! j) D (rs ! i) D" if "i < k" for i
  proof -
    have "Suc i < Suc k" using that by simp
    then have a: "chunk_ok (chunks st) (replies st ! Suc i) D"
      "\<And>j. j < Suc i \<Longrightarrow> apart (replies st ! j) D (replies st ! Suc i) D"
      using assms(1) unfolding room_def by blast+
    show "chunk_ok (chunks st) (rs ! i) D" using a(1) rs by simp
    show "apart r D (rs ! i) D" using a(2) [of 0] rs by simp
    show "\<forall>j < i. apart (rs ! j) D (rs ! i) D" using a(2) [of "Suc j" for j] rs by auto
  qed
  have "room k D st'" if st': "replies st' = rs" "set (chunks st') \<subseteq> insert (r, n) (set (chunks st))"
    for st' :: "'x rt_scheme"
  proof -
    have "chunk_ok (chunks st') (rs ! i) D" if "i < k" for i
    proof -
      have "apart (rs ! i) D r n" using rest(2) [OF that] assms(2) by (auto simp: apart_sym intro: apart_smaller)
      then have "chunk_ok ((r, n) # chunks st) (rs ! i) D" using rest(1) [OF that] by (simp add: chunk_ok_def)
      then show ?thesis by (rule chunk_ok_smaller) (use st'(2) in auto)
    qed
    moreover have "k \<le> length rs" using assms(1) rs by (simp add: room_def)
    ultimately show ?thesis using st'(1) rest(3) by (simp add: room_def)
  qed
  moreover have "r \<noteq> 0" using ok by (simp add: chunk_ok_def)
  ultimately show thesis using that rs chunk_ok_smaller [OF ok assms(2)] by blast
qed

subsection \<open>The runtime\<close>

text \<open>The registry does not touch the blocks of the allocator.\<close>

definition same_blocks :: "'x rt_scheme \<Rightarrow> 'x rt_scheme \<Rightarrow> bool" where
  "same_blocks st st' \<longleftrightarrow> replies st' = replies st \<and> chunks st' = chunks st"

lemma upd_hdr_blocks: "upd_hdr a f st = Inr st' \<Longrightarrow> same_blocks st st'"
  by (auto simp: upd_hdr_def same_blocks_def split: option.splits)

lemma same_blocks_trans: "same_blocks st st1 \<Longrightarrow> same_blocks st1 st2 \<Longrightarrow> same_blocks st st2"
  by (simp add: same_blocks_def)

lemma insert_meta_blocks: "insert_meta a st = Inr st' \<Longrightarrow> same_blocks st st'"
  unfolding insert_meta_def Let_def
  by (auto simp: bindE_eq_Inr same_blocks_def dest!: upd_hdr_blocks split: if_splits)

lemma remove_meta_blocks: "remove_meta a st = Inr st' \<Longrightarrow> same_blocks st st'"
  unfolding remove_meta_def Let_def
  by (auto simp: bindE_eq_Inr same_blocks_def dest!: upd_hdr_blocks split: if_splits option.splits)

lemma room_blocks: "same_blocks st st' \<Longrightarrow> room k D st \<Longrightarrow> room k D st'"
  by (rule room_cong) (auto simp: same_blocks_def)

lemma room_put [simp]: "room k D (put p x st) \<longleftrightarrow> room k D st"
  by (simp add: room_def)

lemma user_ptr_nonnull: "chunk_ok cs r (80 + n) \<Longrightarrow> user_ptr r \<noteq> 0"
  by (rule chunk_ok_user_ptr)

lemma malloc_room:
  fixes st :: "'x rt_scheme"
  assumes "rt_wf st" and "room (Suc k) D st" and "unat n + 80 \<le> D"
  obtains p st' where "owner_malloc self n st = Inr (p, st')" and "p \<noteq> 0" and "room k D st'"
proof -
  have D: "D < 2 ^ 64" by (rule room_bound [OF assms(2)])
  have u: "unat (sizeof_meta + n) = 80 + unat n"
    using assms(3) D by (subst unat_add_no_overflow) (simp_all add: sizeof_meta_def)
  have "80 + unat n \<le> D" using assms(3) by simp
  then obtain r rs where r: "replies st = r # rs" "r \<noteq> 0" "chunk_ok (chunks st) r (80 + unat n)"
    and nx: "\<forall>st' :: 'x rt_scheme. replies st' = rs \<longrightarrow> set (chunks st') \<subseteq> insert (r, 80 + unat n) (set (chunks st)) \<longrightarrow> room k D st'"
    by (rule room_next [OF assms(2)])
  let ?s1 = "st\<lparr>atexit_registered := True, replies := rs, chunks := (r, 80 + unat n) # chunks st\<rparr>"
  have m: "sys_malloc (sizeof_meta + n) (st\<lparr>atexit_registered := True\<rparr>) = (r, ?s1)"
    using r u by (simp add: sys_malloc_def)
  obtain p st' where ret: "owner_malloc self n st = Inr (p, st')"
    using owner_malloc_returns [OF assms(1)] assms(3) D by fastforce
  then obtain s2 where s2: "insert_meta r (?s1\<lparr>hdr := (hdr ?s1)(r \<mapsto> new_meta self n None 0)\<rparr>) = Inr s2"
    "p = user_ptr r" "st' = put (user_ptr r) (Filled 0xAA) s2"
    using m r(2) u by (auto simp: owner_malloc_def owner_malloc_internal_alt bindE_eq_Inr sizeof_meta_def)
  have "room k D s2" using insert_meta_blocks [OF s2(1)] by (intro nx [rule_format]) (auto simp: same_blocks_def)
  then show thesis using that [OF ret] s2(2,3) user_ptr_nonnull [OF r(3)] by simp
qed

lemma room_object:
  assumes "rt_wf st" and "room (Suc k) D st" and "unat n + 80 \<le> D"
  obtains p st' where "owner_malloc self n st = Inr (p, st')" and "p \<noteq> 0" and "room k D st'" and "rt_wf st'"
    and "rt.more st' = rt.more st" and "cell_at st p = None"
    and "cell_at st' = (cell_at st)(p \<mapsto> (fresh_meta self n, Filled 0xAA))"
proof -
  obtain p st' where s: "owner_malloc self n st = Inr (p, st')" "p \<noteq> 0" "room k D st'"
    by (rule malloc_room [OF assms, of self])
  from heap.alloc_result [OF assms(1) s(1)] s show thesis by (intro that [OF s]) simp_all
qed

lemma realloc_room:
  fixes st :: "'x rt_scheme"
  assumes "rt_wf st" and "cell_at st p = Some (m, x)" and "realloc_ok self m" and "n \<noteq> 0"
    and "room (Suc k) D st" and "unat n + 80 \<le> D"
  obtains q st' where "owner_realloc self p n st = Inr (q, st')" and "q \<noteq> 0" and "room k D st'"
proof -
  have D: "D < 2 ^ 64" by (rule room_bound [OF assms(5)])
  have u: "unat (sizeof_meta + n) = 80 + unat n"
    using assms(6) D by (subst unat_add_no_overflow) (simp_all add: sizeof_meta_def)
  obtain m' where m': "get_meta st p = Inr (Some m')" "m = bare m'" "m_state m' \<noteq> FREED"
    using assms(2) by (rule cell_at_meta)
  have ok: "realloc_ok self m'" using assms(3) m'(2) by simp
  have p: "p \<noteq> 0" by (rule cell_at_nonnull [OF assms(2)])
  have "80 + unat n \<le> D" using assms(6) by simp
  then obtain r rs where r: "replies st = r # rs" "r \<noteq> 0" "chunk_ok (chunks st) r (80 + unat n)"
    and nx: "\<forall>st' :: 'x rt_scheme. replies st' = rs \<longrightarrow> set (chunks st') \<subseteq> insert (r, 80 + unat n) (set (chunks st)) \<longrightarrow> room k D st'"
    by (rule room_next [OF assms(5)])
  have "unat n + 80 < 2 ^ 64" using assms(6) D by simp
  then obtain q st' where ret: "owner_realloc self p n st = Inr (q, st')"
    using owner_realloc_cells [OF assms(1-4)] by blast
  obtain s1 new s2 where s1: "remove_meta (meta_of p) st = Inr s1"
    and s2: "sys_realloc (meta_of p) (sizeof_meta + n) s1 = Inr (new, s2)"
    and s3: "(if new = 0 then bindE (insert_meta (meta_of p) s2) (\<lambda>st. Inr (0, st))
        else if unat (sizeof_meta + n) < unat sizeof_meta + unat n then Inl (Undefined ''write past the block'')
        else bindE (upd_hdr new (\<lambda>m. m\<lparr>m_size := n\<rparr>) s2) (\<lambda>st.
             bindE (insert_meta new st) (\<lambda>st. Inr (user_ptr new, st)))) = Inr (q, st')"
    using ret p assms(4) m'(1) ok
    by (auto simp: owner_realloc_def owner_realloc_internal_def realloc_ok_def bindE_eq_Inr split: if_splits)
  have b1: "replies s1 = r # rs" "chunks s1 = chunks st" using remove_meta_blocks [OF s1] r(1) by (simp_all add: same_blocks_def)
  have "chunk_ok (without_chunk (meta_of p) (chunks st)) r (80 + unat n)"
    by (rule chunk_ok_smaller [OF r(3)]) auto
  with s2 b1 u r(2) have new: "new = r" "replies s2 = rs" "set (chunks s2) \<subseteq> insert (r, 80 + unat n) (set (chunks st))"
    by (auto simp: sys_realloc_def split: option.splits)
  with s3 r(2) u obtain s4 where "upd_hdr r (\<lambda>m. m\<lparr>m_size := n\<rparr>) s2 = Inr s4" "insert_meta r s4 = Inr st'" "q = user_ptr r"
    by (auto simp: bindE_eq_Inr sizeof_meta_def)
  then have "same_blocks s2 st'" "q \<noteq> 0"
    using same_blocks_trans [OF upd_hdr_blocks insert_meta_blocks] user_ptr_nonnull [OF r(3)] by auto
  then show thesis using that [OF ret] nx new by (simp add: same_blocks_def)
qed

lemma quarantine_push_room: "quarantine_push a st = Inr st' \<Longrightarrow> room k D st \<Longrightarrow> room k D st'"
  by (auto simp: quarantine_push_def sys_free_def Let_def bindE_eq_Inr split: if_splits intro: room_cong)

lemma free_room:
  assumes "owner_free self p st = Inr st'" and "room k D st"
  shows "room k D st'"
proof (cases "p = 0")
  case True
  then show ?thesis using assms by (simp add: owner_free_def owner_free_internal_def)
next
  case False
  obtain f s1 s2 where "upd_hdr (meta_of p) f st = Inr s1" "remove_meta (meta_of p) (put p (Filled 0xEF) s1) = Inr s2"
    "quarantine_push (meta_of p) s2 = Inr st'"
    using assms(1) False unfolding owner_free_def owner_free_internal_def
    by (auto simp: bindE_eq_Inr split: option.splits if_splits)
  then show ?thesis
    using assms(2) by (metis quarantine_push_room room_blocks room_put upd_hdr_blocks remove_meta_blocks)
qed

subsection \<open>States with room\<close>

text \<open>Answers that lie \<open>g\<close> bytes apart.\<close>

lemma room_spaced:
  assumes "replies st = map (\<lambda>i. of_nat (g * Suc i)) [0..<n]" and "chunks st = []"
    and "k \<le> n" and "D \<le> g" and "0 < D" and "g * Suc n < 2 ^ 64" and "g mod 16 = 0"
  shows "room k D st"
proof -
  have b: "g * Suc i + D < 2 ^ 64" if "i < n" for i
  proof -
    have "g * Suc i + D \<le> g * Suc (Suc i)" using assms(4) by simp
    also have "\<dots> \<le> g * Suc n" by (rule mult_le_mono2) (use that in simp)
    finally show ?thesis using assms(6) by simp
  qed
  have u: "unat (of_nat (g * Suc i) :: addr) = g * Suc i" if "i < n" for i
    using b [OF that] by (intro unat_of_nat_lt) simp
  have c: "chunk_ok [] (of_nat (g * Suc i)) D" if "i < n" for i
  proof -
    have "unat (of_nat (g * Suc i) :: addr) \<noteq> 0" using u [OF that] assms(4,5) by simp
    then have "(of_nat (g * Suc i) :: addr) \<noteq> 0" by (metis unat_0)
    moreover have "(g * Suc i) mod 16 = 0" using assms(7) by (metis dvd_eq_mod_eq_0 dvd_mult2)
    ultimately show ?thesis using u [OF that] b [OF that] unfolding chunk_ok_def
      by (simp del: of_nat_mult of_nat_Suc mult_Suc_right)
  qed
  have a: "apart (of_nat (g * Suc j)) D (of_nat (g * Suc i)) D" if "j < i" "i < n" for i j
  proof -
    have "g * Suc j + D \<le> g * Suc (Suc j)" using assms(4) by simp
    also have "\<dots> \<le> g * Suc i" by (rule mult_le_mono2) (use that in simp)
    finally show ?thesis using that u [of i] u [of j] assms(5) unfolding apart_def
      by (simp del: of_nat_mult of_nat_Suc mult_Suc_right)
  qed
  show ?thesis using assms(1-3) c a by (auto simp: room_def simp del: of_nat_mult of_nat_Suc mult_Suc_right)
qed

end
