(* ===== verification/JsonNodes.thy ===== *)
theory JsonNodes
  imports JsonFree Room
begin

text \<open>
  What the parser does with memory.  Two situations are treated at once: there is enough memory (\<open>b\<close>), or any
  allocation may fail.  \<open>parses\<close> describes the outcome of a parser function against the reference parser: a tree
  beside the objects that were there, or null and nothing left behind.  The theory has the buffers, the strings
  and the values that are neither arrays nor objects.
\<close>

subsection \<open>Memory\<close>

definition mem :: "bool \<Rightarrow> nat \<Rightarrow> nat \<Rightarrow> 'x rt_scheme \<Rightarrow> bool" where
  "mem b k D st \<longleftrightarrow> (b \<longrightarrow> room k D st)"

lemma mem_less: "mem b k D st \<Longrightarrow> k' \<le> k \<Longrightarrow> mem b k' D st"
  by (auto simp: mem_def intro: room_less)

lemma mem_put [simp]: "mem b k D (put p x st) \<longleftrightarrow> mem b k D st"
  by (simp add: mem_def)

lemma mem_free: "owner_free self p st = Inr st' \<Longrightarrow> mem b k D st \<Longrightarrow> mem b k D st'"
  by (auto simp: mem_def intro: free_room)

lemma malloc_mem:
  assumes "rt_wf st" and "mem b (Suc k) D st" and "unat n + 80 \<le> D" and "D < 2 ^ 64"
  obtains (null) st' where "owner_malloc self n st = Inr (0, st')" and "rt_wf st'" and "rt.more st' = rt.more st"
      and "cell_at st' = cell_at st" and "\<not> b"
  | (object) p st' where "owner_malloc self n st = Inr (p, st')" and "p \<noteq> 0" and "rt_wf st'"
      and "rt.more st' = rt.more st" and "cell_at st p = None"
      and "cell_at st' = (cell_at st)(p \<mapsto> (fresh_meta self n, Filled 0xAA))" and "mem b k D st'"
proof -
  have n: "unat n + 80 < 2 ^ 64" using assms(3,4) by simp
  have r: "p \<noteq> 0 \<and> room k D st'" if "owner_malloc self n st = Inr (p, st')" b for p st'
  proof -
    have "room (Suc k) D st" using assms(2) that(2) by (simp add: mem_def)
    from malloc_room [OF assms(1) this assms(3)] that(1) show ?thesis by (metis Inr_inject Pair_inject)
  qed
  from assms(1) n show thesis
  proof (cases rule: heap.alloc_cases [where self = self])
    case (null s)
    then show ?thesis using that(1) r by blast
  next
    case (object p s)
    have "mem b k D s" using r [OF object(1)] by (auto simp: mem_def)
    with object that(2) show ?thesis by blast
  qed
qed

lemma realloc_mem:
  assumes "rt_wf st" and "cell_at st p = Some (m, x)" and "free_ok self m" and "n \<noteq> 0"
    and "mem b (Suc k) D st" and "unat n + 80 \<le> D" and "D < 2 ^ 64"
  obtains (null) st' where "owner_realloc self p n st = Inr (0, st')" and "rt_wf st'"
      and "rt.more st' = rt.more st" and "cell_at st' = cell_at st" and "\<not> b"
  | (object) q st' where "owner_realloc self p n st = Inr (q, st')" and "q \<noteq> 0" and "rt_wf st'"
      and "rt.more st' = rt.more st" and "q = p \<or> cell_at st q = None"
      and "cell_at st' = ((cell_at st)(p := None))
             (q \<mapsto> (m\<lparr>m_size := n\<rparr>, resize_payload (unat (m_size m)) (unat n) x))" and "mem b k D st'"
proof -
  have n: "unat n + 80 < 2 ^ 64" using assms(6,7) by simp
  have ok: "realloc_ok self m" using assms(3) by (rule free_ok_realloc_ok)
  have r: "q \<noteq> 0 \<and> room k D st'" if "owner_realloc self p n st = Inr (q, st')" b for q st'
  proof -
    have "room (Suc k) D st" using assms(5) that(2) by (simp add: mem_def)
    from realloc_room [OF assms(1,2) ok assms(4) this assms(6)] that(1) show ?thesis
      by (metis Inr_inject Pair_inject)
  qed
  from assms(1,2) ok assms(4) n show thesis
  proof (cases rule: heap.resize_cases)
    case (null s)
    then show ?thesis using that(1) r by blast
  next
    case (object q s)
    have "mem b k D s" using r [OF object(1)] by (auto simp: mem_def)
    with object that(2) show ?thesis by blast
  qed
qed

subsection \<open>Buffers\<close>

definition growable :: "tid \<Rightarrow> cells \<Rightarrow> addr \<Rightarrow> size_t \<Rightarrow> addr list \<Rightarrow> bool" where
  "growable self C p cap xs \<longleftrightarrow> (if p = 0 then cap = 0 \<and> xs = [] else buffer self C p cap xs)"

lemma new_capacity_unat:
  assumes "16 * unat cap + 64 < 2 ^ 64"
  shows "unat (new_capacity cap) = (if cap = 0 then 4 else 2 * unat cap)"
    and "unat (new_capacity cap * 8) = 8 * unat (new_capacity cap)"
proof -
  have "unat (cap * 2) = unat cap * unat (2 :: size_t)" using assms by (intro unat_mult_no_overflow) simp
  then show c: "unat (new_capacity cap) = (if cap = 0 then 4 else 2 * unat cap)" by (simp add: new_capacity_def)
  have "unat (new_capacity cap * 8) = unat (new_capacity cap) * unat (8 :: size_t)"
    using assms c by (intro unat_mult_no_overflow) auto
  then show "unat (new_capacity cap * 8) = 8 * unat (new_capacity cap)" by simp
qed

lemma grow_buffer:
  assumes "rt_wf st" and "growable self (cell_at st) p cap xs" and "length xs = unat cap"
    and "mem b (Suc k) D st" and "16 * unat cap + 144 \<le> D" and "D < 2 ^ 64"
  obtains (null) st' where "owner_realloc self p (new_capacity cap * 8) st = Inr (0, st')" and "rt_wf st'"
      and "rt.more st' = rt.more st" and "cell_at st' = cell_at st" and "\<not> b"
  | (object) q st' c where "owner_realloc self p (new_capacity cap * 8) st = Inr (q, st')" and "q \<noteq> 0"
      and "rt_wf st'" and "rt.more st' = rt.more st" and "q = p \<or> cell_at st q = None"
      and "cell_at st' = ((cell_at st)(p := None))(q \<mapsto> c)"
      and "buffer self (cell_at st') q (new_capacity cap) xs" and "length xs < unat (new_capacity cap)"
      and "mem b k D st'"
proof -
  let ?n = "new_capacity cap * 8"
  have small: "16 * unat cap + 64 < 2 ^ 64" using assms(5,6) by simp
  note u = new_capacity_unat [OF small]
  have len: "length xs < unat (new_capacity cap)" "4 \<le> unat (new_capacity cap)" if "cap \<noteq> 0 \<longrightarrow> 4 \<le> unat cap"
    using u(1) that assms(3) by auto
  have D: "unat ?n + 80 \<le> D" using u assms(5) by auto
  have n0: "?n \<noteq> 0" using u by (metis mult_eq_0_iff unat_0 zero_neq_numeral nat_mult_eq_cancel_disj unat_eq_zero)
  show thesis
  proof (cases "p = 0")
    case True
    have c0: "cap = 0" "xs = []" using True assms(2) by (auto simp: growable_def)
    have r: "owner_realloc self p ?n st = owner_malloc self ?n st"
      using True by (simp add: owner_realloc_def owner_realloc_internal_def owner_malloc_def)
    have p0: "(cell_at st)(p := None) = cell_at st" using True cell_at_nonnull [of st 0] by (cases "cell_at st 0") auto
    from assms(1,4) D assms(6) show thesis
    proof (cases rule: malloc_mem [where self = self])
      case (null s)
      then show ?thesis using that(1) r by simp
    next
      case (object q s)
      have "buffer self (cell_at s) q (new_capacity cap) xs"
        using object(6) u c0 by (auto simp: buffer_def)
      then show ?thesis using that(2) [of q s] object r p0 len c0 by auto
    qed
  next
    case False
    then obtain m y where b: "cell_at st p = Some (m, y)" "free_ok self m" "unat (m_size m) = 8 * unat cap" "4 \<le> unat cap"
      "\<And>i. i < length xs \<Longrightarrow> slots_of y i = Some (xs ! i)"
      using assms(2) by (auto simp: growable_def buffer_def)
    from assms(1) b(1,2) n0 assms(4) D assms(6) show thesis
    proof (cases rule: realloc_mem)
      case (null s)
      then show ?thesis using that(1) by simp
    next
      case (object q s)
      have "slots_of (resize_payload (unat (m_size m)) (unat ?n) y) i = Some (xs ! i)" if "i < length xs" for i
        using b that u assms(3) by (subst slots_of_resize) auto
      then have "buffer self (cell_at s) q (new_capacity cap) xs"
        using object(6) u b assms(3) by (auto simp: buffer_def)
      then show ?thesis using that(2) [of q s] object len b(4) by auto
    qed
  qed
qed

lemma store_buffer:
  assumes "rt_wf st" and "buffer self (cell_at st) q cap xs" and "length xs < unat cap"
  obtains st' c where "store_slot q (length xs) x st = Inr st'" and "rt_wf st'" and "rt.more st' = rt.more st"
    and "cell_at st' = (cell_at st)(q \<mapsto> c)" and "buffer self (cell_at st') q cap (xs @ [x])"
    and "\<forall>b k D. mem b k D st \<longrightarrow> mem b k D st'"
proof -
  obtain m y where b: "cell_at st q = Some (m, y)" "free_ok self m" "unat (m_size m) = 8 * unat cap" "4 \<le> unat cap"
    "\<And>i. i < length xs \<Longrightarrow> slots_of y i = Some (xs ! i)"
    using assms(2) by (auto simp: buffer_def)
  let ?z = "Slots ((slot_view y)(length xs \<mapsto> x))"
  have "store_slot q (length xs) x st = Inr (put q ?z st)"
    using assms(3) b(3) by (intro store_slot_cell [OF assms(1) b(1)]) simp
  moreover note s = heap.store_result [OF assms(1) b(1), of ?z]
  moreover have "slots_of ?z i = Some ((xs @ [x]) ! i)" if "i < length (xs @ [x])" for i
    using that b(5) [of i] slots_of_view [of y i] by (auto simp: nth_append)
  ultimately show thesis using that [of "put q ?z st" "(m, ?z)"] b assms(3) by (auto simp: buffer_def)
qed

subsection \<open>Outcomes\<close>

text \<open>The tree \<open>n\<close> for \<open>v\<close> lies beside the objects \<open>C0\<close>, which are as they were.\<close>

definition tree_over :: "tid \<Rightarrow> cells \<Rightarrow> json \<Rightarrow> addr \<Rightarrow> addr set \<Rightarrow> 'x rt_scheme \<Rightarrow> bool" where
  "tree_over self C0 v n A st \<longleftrightarrow> jrep self (cell_at st) v n A \<and> A \<inter> dom C0 = {} \<and> cell_at st |` (- A) = C0"

definition parses ::
    "tid \<Rightarrow> bool \<Rightarrow> nat \<Rightarrow> nat \<Rightarrow> cells \<Rightarrow> 'x \<Rightarrow> json option \<times> string \<Rightarrow> 'x parsed \<Rightarrow> bool" where
  "parses self b s D C0 mo ref r \<longleftrightarrow> (\<exists>n q st. r = Inr (n, q, st) \<and> rt_wf st \<and> rt.more st = mo \<and>
     (n = 0 \<longrightarrow> cell_at st = C0 \<and> (b \<longrightarrow> ref = (None, q))) \<and>
     (n \<noteq> 0 \<longrightarrow> (\<exists>v A. ref = (Some v, q) \<and> tree_over self C0 v n A st) \<and> mem b (4 * length q + s + 2) D st))"

lemma parses_null:
  "rt_wf st \<Longrightarrow> rt.more st = mo \<Longrightarrow> cell_at st = C0 \<Longrightarrow> (b \<Longrightarrow> ref = (None, q)) \<Longrightarrow>
   parses self b s D C0 mo ref (Inr (0, q, st))"
  by (simp add: parses_def)

lemma parses_tree:
  "rt_wf st \<Longrightarrow> rt.more st = mo \<Longrightarrow> n \<noteq> 0 \<Longrightarrow> ref = (Some v, q) \<Longrightarrow> tree_over self C0 v n A st \<Longrightarrow>
   mem b (4 * length q + s + 2) D st \<Longrightarrow> parses self b s D C0 mo ref (Inr (n, q, st))"
  by (auto simp: parses_def)

lemma parsesE:
  assumes "parses self b s D C0 mo ref r"
  obtains (null) q st where "r = Inr (0, q, st)" and "rt_wf st" and "rt.more st = mo" and "cell_at st = C0"
      and "b \<longrightarrow> ref = (None, q)"
  | (tree) n q st v A where "r = Inr (n, q, st)" and "n \<noteq> 0" and "rt_wf st" and "rt.more st = mo"
      and "ref = (Some v, q)" and "tree_over self C0 v n A st" and "mem b (4 * length q + s + 2) D st"
proof -
  from assms obtain n q st where r: "r = Inr (n, q, st)" "rt_wf st" "rt.more st = mo"
    "n = 0 \<longrightarrow> cell_at st = C0 \<and> (b \<longrightarrow> ref = (None, q))"
    "n \<noteq> 0 \<longrightarrow> (\<exists>v A. ref = (Some v, q) \<and> tree_over self C0 v n A st) \<and> mem b (4 * length q + s + 2) D st"
    unfolding parses_def by blast
  show thesis
  proof (cases "n = 0")
    case True
    then show ?thesis using r null by blast
  next
    case False
    then show ?thesis using r tree by blast
  qed
qed

text \<open>Releasing a tree beside other objects.\<close>

lemma free_tree:
  assumes "rt_wf st" and "tree_over self C0 v n A st"
  obtains st' where "json_free self n st = Inr st'" and "rt_wf st'" and "rt.more st' = rt.more st" and "cell_at st' = C0"
  using json_free_rep [OF assms(1), of self v n A] assms(2) unfolding tree_over_def by metis

subsection \<open>Nodes and strings\<close>

lemma create_node_mem:
  assumes "rt_wf st" and "mem b (Suc k) D st" and "120 \<le> D" and "D < 2 ^ 64"
  obtains (null) st' where "create_node self ty st = Inr (0, st')" and "rt_wf st'" and "rt.more st' = rt.more st"
      and "cell_at st' = cell_at st" and "\<not> b"
  | (node) n st' where "create_node self ty st = Inr (n, st')" and "n \<noteq> 0" and "rt_wf st'"
      and "rt.more st' = rt.more st" and "cell_at st n = None"
      and "cell_at st' = (cell_at st)(n \<mapsto> (fresh_meta self 40, JNode (zero_node ty)))" and "mem b k D st'"
proof -
  have "unat (40 :: size_t) + 80 \<le> D" using assms(3) by simp
  from assms(1,2) this assms(4) show thesis
  proof (cases rule: malloc_mem [where self = self])
    case (null s)
    then show ?thesis using that(1) by (simp add: create_node_def)
  next
    case (object p s)
    have c: "cell_at s p = Some (fresh_meta self 40, Filled 0xAA)" using object(6) by simp
    note w = heap.store_result [OF object(3) c, of "JNode (zero_node ty)"]
    show ?thesis
      by (rule that(2) [of p "put p (JNode (zero_node ty)) s"]) (use object w in \<open>auto simp: create_node_def\<close>)
  qed
qed

lemma over_new:
  "cell_at st = C0(n \<mapsto> c) \<Longrightarrow> C0 n = None \<Longrightarrow> cell_at st |` (- {n}) = C0"
  by (auto simp: restrict_map_def fun_eq_iff)

lemma put_node:
  assumes "rt_wf st" and "cell_at st = C0(n \<mapsto> (m, y))" and "C0 n = None"
  shows "rt_wf (put n x st)" and "rt.more (put n x st) = rt.more st" and "cell_at (put n x st) = C0(n \<mapsto> (m, x))"
proof -
  have "cell_at st n = Some (m, y)" using assms(2) by simp
  from heap.store_result [OF assms(1) this, of x] show "rt_wf (put n x st)" "rt.more (put n x st) = rt.more st"
    "cell_at (put n x st) = C0(n \<mapsto> (m, x))" using assms(2) by simp_all
qed

text \<open>A node without children, written right after it was created.\<close>

lemma leaf_parses:
  assumes "rt_wf st" and "mem b (4 * length q + s + 3) D st" and "120 \<le> D" and "D < 2 ^ 64"
    and "\<And>n C. node_at self C n x \<Longrightarrow> jrep self C v n {n}"
  shows "parses self b s D (cell_at st) (rt.more st) (Some v, q)
    (bindE (create_node self ty st) (\<lambda>(node, st). Inr (node, q, if node \<noteq> 0 then put node (JNode x) st else st)))"
proof -
  have "mem b (Suc (4 * length q + s + 2)) D st" using assms(2) by (rule mem_less) simp
  from assms(1) this assms(3,4) show ?thesis
  proof (cases rule: create_node_mem [where self = self and ty = ty])
    case (null s')
    then show ?thesis by (auto simp: parses_def)
  next
    case (node n s')
    note w = put_node [OF node(3,6,5), of "JNode x"]
    have "node_at self (cell_at (put n (JNode x) s')) n x" using w(3) by (simp add: node_at_def)
    then have "tree_over self (cell_at st) v n {n} (put n (JNode x) s')"
      using assms(5) over_new [OF w(3) node(5)] node(5) by (auto simp: tree_over_def)
    then have "parses self b s D (cell_at st) (rt.more st) (Some v, q) (Inr (n, q, put n (JNode x) s'))"
      using node w by (intro parses_tree [where A = "{n}"]) auto
    then show ?thesis using node(1,2) by simp
  qed
qed

lemma raw_end_cases: "raw_end p = [] \<or> at (raw_end p) CHR 0x22"
  by (induction p rule: raw_end.induct) (auto simp: at_def)

lemma store_byte_mem: "store_byte p i v st = Inr st' \<Longrightarrow> mem b k D st \<Longrightarrow> mem b k D st'"
  by (auto simp: store_byte_def split: option.splits if_splits)

lemma memcpy_mem: "memcpy p off c n st = Inr st' \<Longrightarrow> mem b k D st \<Longrightarrow> mem b k D st'"
  unfolding memcpy_def by (erule foldE_invariant) (auto simp: bindE_eq_Inr intro: store_byte_mem)

lemma raw_string_mem:
  assumes "rt_wf st" and "mem b (Suc k) D st" and "length p + 81 \<le> D" and "D < 2 ^ 64"
  obtains (null) q st' where "parse_raw_string self p st = Inr (0, q, st')" and "rt_wf st'"
      and "rt.more st' = rt.more st" and "cell_at st' = cell_at st" and "b \<longrightarrow> ref_raw p = (None, q)"
  | (str) n q st' s c where "parse_raw_string self p st = Inr (n, q, st')" and "n \<noteq> 0" and "rt_wf st'"
      and "rt.more st' = rt.more st" and "ref_raw p = (Some s, q)" and "cstring self (cell_at st') n s"
      and "cell_at st n = None" and "cell_at st' = (cell_at st)(n \<mapsto> c)" and "length q + 2 \<le> length p"
      and "mem b k D st'"
proof (cases "at p CHR 0x22 \<and> at (raw_end (tl p)) CHR 0x22")
  case False
  then have "parse_raw_string self p st = Inr (0, snd (ref_raw p), st)" "fst (ref_raw p) = None"
    using raw_end_cases [of "tl p"] by (auto simp: parse_raw_string_def ref_raw_def Let_def at_def)
  then show thesis using assms(1) by (intro that(1) [of "snd (ref_raw p)" st]) (auto simp: prod_eq_iff)
next
  case True
  define start where "start = tl p"
  define q where "q = raw_end start"
  define len where "len = length start - length q"
  note defs = start_def q_def len_def
  have lq: "length q \<le> length start" unfolding q_def by (rule length_raw_end)
  have ref: "ref_raw p = (Some (take len start), tl q)" using True by (auto simp: ref_raw_def Let_def at_def defs)
  have qs: "q \<noteq> []" "p \<noteq> []" using True by (auto simp: at_def defs)
  then have shorter: "length (tl q) + 2 \<le> length p" using lq by (cases p; cases q) (auto simp: start_def)
  have len: "len < length p" "len \<le> length start" using qs by (cases p; simp add: start_def len_def)+
  have un: "unat (of_nat len + 1 :: size_t) = len + 1"
  proof -
    have "unat (of_nat len :: size_t) = len" using len(1) assms(3,4) by (intro unat_of_nat_lt) simp
    then show ?thesis using len(1) assms(3,4) by (subst unat_add_no_overflow) simp_all
  qed
  then have D: "unat (of_nat len + 1 :: size_t) + 80 \<le> D" using len(1) assms(3) by simp
  have run: "parse_raw_string self p st = bindE (owner_malloc self (of_nat len + 1) st) (\<lambda>(str, st).
      bindE (if str \<noteq> 0 then bindE (memcpy str 0 (Lit (map of_char start)) len st) (store_byte str len 0) else Inr st)
        (\<lambda>st. Inr (str, tl q, st)))" using True by (simp only: parse_raw_string_def Let_def simp_thms if_False defs)
  from assms(1,2) D assms(4) show thesis
  proof (cases rule: malloc_mem [where self = self])
    case (null s)
    then show ?thesis using that(1) [of "tl q" s] run by simp
  next
    case (object n s)
    have c: "cell_at s n = Some (fresh_meta self (of_nat len + 1), Filled 0xAA)" using object(6) by simp
    obtain s1 y where s1: "memcpy n 0 (Lit (map of_char start)) len s = Inr s1" "rt_wf s1" "rt.more s1 = rt.more s"
      "cell_at s1 = (cell_at s)(n \<mapsto> (fresh_meta self (of_nat len + 1), y))"
      "byte_view y = (\<lambda>i. if 0 \<le> i \<and> i < 0 + len then Some (map of_char start ! (i - 0)) else byte_view (Filled 0xAA) i)"
      using memcpy_bytes [OF object(3) c, of 0 len "map of_char start" "Lit (map of_char start)"] un len
      unfolding cstr_byte_def by auto
    have c1: "cell_at s1 n = Some (fresh_meta self (of_nat len + 1), y)" using s1(4) by simp
    obtain s2 z where s2: "store_byte n len 0 s1 = Inr s2" "rt_wf s2" "rt.more s2 = rt.more s1"
      "cell_at s2 = (cell_at s1)(n \<mapsto> (fresh_meta self (of_nat len + 1), z))" "byte_view z = (byte_view y)(len \<mapsto> 0)"
      using byte_store [OF s1(2) c1, of len 0] un by auto
    have "cstring self (cell_at s2) n (take len start)"
      using s2(4,5) s1(5) un len lq by (auto simp: cstring_def nth_append)
    moreover have "cell_at s2 = (cell_at st)(n \<mapsto> (fresh_meta self (of_nat len + 1), z))"
      using s2(4) s1(4) object(6) by simp
    moreover have "mem b k D s2" by (rule store_byte_mem [OF s2(1) memcpy_mem [OF s1(1) object(7)]])
    ultimately show ?thesis
      using that(2) [of n "tl q" s2 "take len start"] run object s1 s2 ref shorter by simp
  qed
qed

lemma string_parses:
  assumes "rt_wf st" and "mem b (4 * length p + s) D st" and "length p + 120 \<le> D" and "D < 2 ^ 64"
  shows "parses self b s D (cell_at st) (rt.more st) (map_prod (map_option String) id (ref_raw p)) (parse_string self p st)"
proof (cases "p = []")
  case True
  then show ?thesis using assms(1) by (auto simp: parse_string_def parse_raw_string_def at_def ref_raw_def parses_def)
next
  case False
  then have m: "mem b (Suc (4 * length p + s - 1)) D st" by (intro mem_less [OF assms(2)]) (cases p; simp)
  have "length p + 81 \<le> D" using assms(3) by simp
  from assms(1) m this assms(4) show ?thesis
  proof (cases rule: raw_string_mem [where self = self])
    case (null q s1)
    then show ?thesis by (auto simp: parse_string_def parses_def)
  next
    case (str t q s1 str c)
    have "Suc (4 * length q + s + 6) \<le> 4 * length p + s - 1" using str(9) by simp
    from mem_less [OF str(10) this] have m: "mem b (Suc (4 * length q + s + 6)) D s1" .
    have "120 \<le> D" using assms(3) by simp
    from str(3) m this assms(4) show ?thesis
    proof (cases rule: create_node_mem [where self = self and ty = JSON_STRING])
      case (null s2)
      have c: "cell_at s2 t = Some c" using null(4) str(8) by simp
      obtain mt y where "c = (mt, y)" "free_ok self mt" using str(6,8) by (auto simp: cstring_def)
      with c have "cell_at s2 t = Some (mt, y)" "free_ok self mt" by simp_all
      then obtain s3 where s3: "owner_free self t s2 = Inr s3" "rt_wf s3" "rt.more s3 = rt.more s2"
        "cell_at s3 = (cell_at s2)(t := None)" by (rule heap.release_obtain [OF null(2)])
      have "cell_at s3 = cell_at st" using s3(4) null(4) str(7,8) by auto
      then show ?thesis using str null s3 by (auto simp: parse_string_def parses_def)
    next
      case (node n s2)
      note w = put_node [OF node(3,6,5), of "JNode (JString t)"]
      let ?s3 = "put n (JNode (JString t)) s2"
      have nt: "t \<noteq> n" using node(5) str(8) by auto
      have "cstring self (cell_at ?s3) t str" using str(6) by (rule cstring_cong) (use w(3) nt in auto)
      moreover have "node_at self (cell_at ?s3) n (JString t)" using w(3) by (simp add: node_at_def)
      ultimately have "jrep self (cell_at ?s3) (String str) n {n, t}" using nt str(2) by (intro jrep_jreps.string)
      moreover have "cell_at ?s3 |` (- {n, t}) = cell_at st" "{n, t} \<inter> dom (cell_at st) = {}"
        using w(3) node(5) str(7,8) nt by (auto simp: restrict_map_def fun_eq_iff split: if_splits)
      ultimately have "tree_over self (cell_at st) (String str) n {n, t} ?s3" by (simp add: tree_over_def)
      moreover have "mem b (4 * length q + s + 2) D s2" using node(7) by (rule mem_less) simp
      ultimately have "parses self b s D (cell_at st) (rt.more st) (Some (String str), q) (Inr (n, q, ?s3))"
        using node w str(4) by (intro parses_tree [where A = "{n, t}" and v = "String str"]) auto
      then show ?thesis using str node by (simp add: parse_string_def)
    qed
  qed
qed

lemma ref_words:
  "ref_word ''null'' v p = (if take 4 p = ''null'' then (Some v, drop 4 p) else (None, p))"
  "ref_word ''true'' v p = (if take 4 p = ''true'' then (Some v, drop 4 p) else (None, p))"
  "ref_word ''false'' v p = (if take 5 p = ''false'' then (Some v, drop 5 p) else (None, p))"
  by (simp_all add: ref_word_def numeral_eq_Suc)

lemma create_null:
  "bindE (create_node self JSON_NULL st) (\<lambda>(node, st). Inr (node, q, if node \<noteq> 0 then put node (JNode JNull) st else st)) =
   bindE (create_node self JSON_NULL st) (\<lambda>(node, st). Inr (node, q, st))"
  by (cases "owner_malloc self 40 st") (auto simp: create_node_def put_def)

lemma scalar_parses:
  assumes "rt_wf st" and "mem b (4 * length p + s) D st" and "length p + 120 \<le> D" and "D < 2 ^ 64" and "p \<noteq> []"
  shows "parses self b s D (cell_at st) (rt.more st) (ref_scalar p) (parse_scalar self p st)"
proof -
  have null: "parses self b s D (cell_at st) (rt.more st) (None, p) (Inr (0, p, st))"
    using assms(1) by (intro parses_null) auto
  have D: "120 \<le> D" using assms(3) by simp
  have leaf: "parses self b s D (cell_at st) (rt.more st) (Some v, drop k p)
      (bindE (create_node self ty st) (\<lambda>(node, st). Inr (node, drop k p, if node \<noteq> 0 then put node (JNode x) st else st)))"
    if "0 < k" "\<And>n C. node_at self C n x \<Longrightarrow> jrep self C v n {n}" for k x v ty
  proof (rule leaf_parses [OF assms(1) _ D assms(4) that(2)])
    have "4 * length (drop k p) + s + 3 \<le> 4 * length p + s" using that(1) assms(5) by (cases p; cases k) auto
    with assms(2) show "mem b (4 * length (drop k p) + s + 3) D st" by (rule mem_less)
  qed
  show ?thesis
  proof (cases "at p CHR ''n''")
    case True
    have "parses self b s D (cell_at st) (rt.more st) (Some Null, drop 4 p)
        (bindE (create_node self JSON_NULL st) (\<lambda>(node, st). Inr (node, drop 4 p, st)))"
      by (subst create_null [symmetric]) (rule leaf; simp add: jrep_jreps.null)
    then show ?thesis using True null by (simp add: parse_scalar_def ref_scalar_def ref_words parse_null_def)
  next
    case n: False
    show ?thesis
    proof (cases "at p CHR ''t'' \<or> at p CHR ''f''")
      case True
      have tf: "take 4 p = ''true'' \<Longrightarrow> at p CHR ''t''" "take 5 p = ''false'' \<Longrightarrow> at p CHR ''f''"
        by (cases p; auto simp: at_def)+
      show ?thesis
        using True n null tf leaf [of 4 "JBool 1" "Bool True" JSON_BOOL] leaf [of 5 "JBool 0" "Bool False" JSON_BOOL]
          jrep_jreps.bool [of self _ _ True] jrep_jreps.bool [of self _ _ False]
        by (auto simp: parse_scalar_def ref_scalar_def ref_words parse_bool_def at_def)
    next
      case tf: False
      show ?thesis
      proof (cases "at p CHR 0x22")
        case True
        then show ?thesis using n tf string_parses [OF assms(1-4)] by (simp add: parse_scalar_def ref_scalar_def)
      next
        case False
        then show ?thesis using n tf null leaf [of "strtod_length p" "JNumber (take (strtod_length p) p)"] jrep_jreps.number
          by (auto simp: parse_scalar_def ref_scalar_def parse_number_def ref_number_def Let_def)
      qed
    qed
  qed
qed

end
