(* ===== verification/JsonArrays.thy ===== *)
theory JsonArrays
  imports JsonNodes
begin

text \<open>Adding an item to an array: the array with the item, or, when there is no memory, nothing is left of either.\<close>

lemma cell_at_zero: "cell_at st 0 = None"
  using cell_at_nonnull by (cases "cell_at st 0") auto

subsection \<open>Arrays\<close>

lemma jrep_arrayE:
  assumes "jrep self (cell_at st) (Array vs) n A"
  obtains p cap ns A0 where "node_at self (cell_at st) n (JArray p (of_nat (length vs)) cap)"
    and "growable self (cell_at st) p cap ns" and "jreps self (cell_at st) vs ns A0"
    and "A = insert n (A0 \<union> ({p} - {0}))" and "n \<notin> A0" and "p \<notin> A0" and "p \<noteq> n"
  using assms
proof cases
  case empty_array
  have "n \<noteq> 0" using empty_array(3) cell_at_nonnull by (auto simp: node_at_def)
  then show thesis
    using that [of 0 0 "[]" "{}"] empty_array by (simp add: growable_def jrep_jreps.none)
next
  case (array p cap ns A0)
  have "p \<notin> A0" "n \<notin> A0" using array by auto
  then show thesis using that [of p cap ns A0] array by (auto simp: growable_def)
qed

lemma growable_length:
  assumes "growable self C p cap ns"
  shows "length ns \<le> unat cap" and "unat (of_nat (length ns) :: size_t) = length ns"
proof -
  show l: "length ns \<le> unat cap" using assms by (auto simp: growable_def buffer_def split: if_splits)
  show "unat (of_nat (length ns) :: size_t) = length ns" using l unat_lt_2p64 [of cap] by (intro unat_of_nat_lt) simp
qed

text \<open>Making room for one more pointer.\<close>

lemma reserve_mem:
  assumes "rt_wf st" and "growable self (cell_at st) p cap ns" and "mem b (Suc k) D st"
    and "16 * length ns + 144 \<le> D" and "D < 2 ^ 64"
  obtains (null) st' where "(of_nat (length ns) :: size_t) \<ge> cap" and
      "owner_realloc self p (new_capacity cap * 8) st = Inr (0, st')" and "rt_wf st'"
      and "rt.more st' = rt.more st" and "cell_at st' = cell_at st" and "\<not> b"
  | (grown) q st' c where "(of_nat (length ns) :: size_t) \<ge> cap" and
      "owner_realloc self p (new_capacity cap * 8) st = Inr (q, st')" and "q \<noteq> 0"
      and "rt_wf st'" and "rt.more st' = rt.more st" and "q = p \<or> cell_at st q = None"
      and "cell_at st' = ((cell_at st)(p := None))(q \<mapsto> c)"
      and "buffer self (cell_at st') q (new_capacity cap) ns" and "length ns < unat (new_capacity cap)"
      and "mem b k D st'"
  | (enough) "\<not> (of_nat (length ns) :: size_t) \<ge> cap" and "p \<noteq> 0" and "buffer self (cell_at st) p cap ns"
      and "length ns < unat cap"
proof (cases "(of_nat (length ns) :: size_t) \<ge> cap")
  case True
  then have len: "length ns = unat cap" using growable_length [OF assms(2)] by (simp add: word_le_nat_alt)
  then have "16 * unat cap + 144 \<le> D" using assms(4) by simp
  from assms(1,2) len assms(3) this assms(5) show thesis
  proof (cases rule: grow_buffer)
    case (null s)
    then show ?thesis using that(1) True by blast
  next
    case (object q s c)
    then show ?thesis using that(2) True by blast
  qed
next
  case False
  then have len: "length ns < unat cap" using growable_length [OF assms(2)] by (simp add: word_le_nat_alt not_le)
  then have "p \<noteq> 0" "buffer self (cell_at st) p cap ns" using assms(2) by (auto simp: growable_def split: if_splits)
  then show thesis using that(3) False len by blast
qed

lemma array_store:
  assumes "rt_wf st" and "cell_at st n = Some (mn, y)" and "free_ok self mn" and "buffer self (cell_at st) q cap ns"
    and "length ns < unat cap" and "q \<noteq> 0" and "q \<noteq> n" and "jreps self (cell_at st) vs ns A0"
    and "jrep self (cell_at st) v x B" and "{n, q} \<inter> (A0 \<union> B) = {}" and "A0 \<inter> B = {}" and "mem b k D st"
  obtains st' where "store_slot q (unat (of_nat (length vs) :: size_t)) x
      (put n (JNode (JArray q (of_nat (length vs) + 1) cap)) st) = Inr st'" and "rt_wf st'"
    and "rt.more st' = rt.more st" and "jrep self (cell_at st') (Array (vs @ [v])) n ({n, q} \<union> (A0 \<union> B))"
    and "\<forall>a. a \<notin> {n, q} \<longrightarrow> cell_at st' a = cell_at st a" and "mem b k D st'"
proof -
  let ?node = "JArray q (of_nat (length vs) + 1) cap"
  let ?s1 = "put n (JNode ?node) st"
  note w = heap.store_result [OF assms(1,2), of "JNode ?node"]
  have len: "length ns = length vs" using jrep_dom(2) [OF assms(8)] by simp
  have u: "unat (of_nat (length vs) :: size_t) = length ns" using buffer_small [OF assms(4)] len by simp
  have wf1: "rt_wf ?s1" using w by simp
  have bf: "buffer self (cell_at ?s1) q cap ns" using assms(4) by (rule buffer_cong) (use w assms(7) in auto)
  obtain s2 c where s2: "store_slot q (length ns) x ?s1 = Inr s2" "rt_wf s2" "rt.more s2 = rt.more ?s1"
    "cell_at s2 = (cell_at ?s1)(q \<mapsto> c)" "buffer self (cell_at s2) q cap (ns @ [x])"
    "\<forall>b k D. mem b k D ?s1 \<longrightarrow> mem b k D s2"
    by (rule store_buffer [OF wf1 bf assms(5)])
  have cells: "\<forall>a. a \<notin> {n, q} \<longrightarrow> cell_at s2 a = cell_at st a" using s2(4) w by auto
  have "node_at self (cell_at s2) n (JArray q (of_nat (length (vs @ [v]))) cap)"
    using s2(4) w assms(3,7) by (auto simp: node_at_def add.commute)
  moreover have "jreps self (cell_at s2) (vs @ [v]) (ns @ [x]) (A0 \<union> B)"
  proof (rule jreps_snoc [OF _ _ assms(11)])
    show "jreps self (cell_at s2) vs ns A0" by (rule jrep_cong(2) [OF assms(8)]) (use cells assms(10) in auto)
    show "jrep self (cell_at s2) v x B" by (rule jrep_cong(1) [OF assms(9)]) (use cells assms(10) in auto)
  qed
  ultimately have "jrep self (cell_at s2) (Array (vs @ [v])) n ({n, q} \<union> (A0 \<union> B))"
    using s2(5) assms(6,7,10) by (intro jrep_jreps.array) auto
  then show thesis using that [of s2] s2 w cells u assms(12) by simp
qed

text \<open>A tree and a second one parsed after it.\<close>

lemma two_trees:
  assumes "tree_over self C0 u n A st" and "tree_over self (cell_at st) v x B st'"
  shows "jrep self (cell_at st') u n A" and "jrep self (cell_at st') v x B" and "A \<inter> B = {}"
    and "cell_at st' |` (- (A \<union> B)) = C0"
proof -
  have r: "cell_at st' |` (- B) = cell_at st" "jrep self (cell_at st) u n A" "cell_at st |` (- A) = C0"
    using assms by (simp_all add: tree_over_def)
  have "A \<subseteq> dom (cell_at st)" using jrep_dom(1) [OF r(2)] by simp
  then show d: "A \<inter> B = {}" using assms(2) by (auto simp: tree_over_def)
  have "cell_at st' a = cell_at st a" if "a \<in> A" for a
  proof -
    have "a \<notin> B" using that d by auto
    then show ?thesis by (metis ComplI r(1) restrict_in)
  qed
  then show "jrep self (cell_at st') u n A" by (intro jrep_cong(1) [OF r(2)]) simp
  show "jrep self (cell_at st') v x B" using assms(2) by (simp add: tree_over_def)
  show "cell_at st' |` (- (A \<union> B)) = C0" using r(1,3) restrict_fold [of "cell_at st'" B A] by (simp add: Un_commute)
qed

lemma tree_overI:
  "jrep self (cell_at st) v n A \<Longrightarrow> cell_at st |` (- A) = C0 \<Longrightarrow> tree_over self C0 v n A st"
  by (auto simp: tree_over_def restrict_map_def)

lemma tree_over_rest:
  "jrep self (cell_at st) v n A \<Longrightarrow> tree_over self (cell_at st |` (- A)) v n A st"
  by (simp add: tree_overI)

text \<open>Releasing two trees.\<close>

lemma free_two:
  assumes "rt_wf st" and "jrep self (cell_at st) u n A" and "jrep self (cell_at st) v x B" and "A \<inter> B = {}"
  obtains st' st'' where "json_free self x st = Inr st'" and "json_free self n st' = Inr st''" and "rt_wf st''"
    and "rt.more st'' = rt.more st" and "cell_at st'' = cell_at st |` (- (A \<union> B))"
proof -
  obtain s1 where s1: "json_free self x st = Inr s1" "rt_wf s1" "rt.more s1 = rt.more st" "cell_at s1 = cell_at st |` (- B)"
    by (rule json_free_rep [OF assms(1,3)])
  have "jrep self (cell_at s1) u n A" by (rule jrep_cong(1) [OF assms(2)]) (use s1(4) assms(4) in \<open>auto simp: restrict_map_def\<close>)
  then obtain s2 where s2: "json_free self n s1 = Inr s2" "rt_wf s2" "rt.more s2 = rt.more s1" "cell_at s2 = cell_at s1 |` (- A)"
    by (rule json_free_rep [OF s1(2)])
  have "cell_at s2 = cell_at st |` (- (A \<union> B))" using s1(4) s2(4) restrict_fold Un_commute by metis
  then show thesis using that s1 s2 by metis
qed

lemma array_add_mem:
  assumes "rt_wf st" and "jrep self (cell_at st) (Array vs) n A" and "jrep self (cell_at st) v x B" and "A \<inter> B = {}"
    and "mem b (Suc k) D st" and "16 * length vs + 144 \<le> D" and "D < 2 ^ 64"
  obtains (null) st' where "array_add self n x st = Inr (False, st')" and "rt_wf st'" and "rt.more st' = rt.more st"
      and "cell_at st' = cell_at st |` (- (A \<union> B))" and "\<not> b"
  | (added) st' A' where "array_add self n x st = Inr (True, st')" and "rt_wf st'" and "rt.more st' = rt.more st"
      and "tree_over self (cell_at st |` (- (A \<union> B))) (Array (vs @ [v])) n A' st'" and "mem b k D st'"
proof -
  obtain p cap ns A0 where a: "node_at self (cell_at st) n (JArray p (of_nat (length vs)) cap)"
    "growable self (cell_at st) p cap ns" "jreps self (cell_at st) vs ns A0"
    "A = insert n (A0 \<union> ({p} - {0}))" "n \<notin> A0" "p \<notin> A0" "p \<noteq> n"
    by (rule jrep_arrayE [OF assms(2)])
  have len: "length ns = length vs" using jrep_dom(2) [OF a(3)] by simp
  have f: "field json_of st n = Inr (JArray p (of_nat (length vs)) cap)" using node_at_field [OF assms(1) a(1)] by simp
  obtain mn where mn: "cell_at st n = Some (mn, JNode (JArray p (of_nat (length vs)) cap))" "free_ok self mn"
    using a(1) by (auto simp: node_at_def)
  have A0: "A0 \<subseteq> dom (cell_at st)" "B \<subseteq> dom (cell_at st)" "A0 \<inter> B = {}" "n \<notin> B" "p \<noteq> 0 \<longrightarrow> p \<notin> B"
    using jrep_dom(2) [OF a(3)] jrep_dom(1) [OF assms(3)] assms(4) a(4) by auto
  have D: "16 * length ns + 144 \<le> D" using assms(6) len by simp
  from assms(1) a(2) assms(5) D assms(7) show thesis
  proof (cases rule: reserve_mem)
    case (null s1)
    have "jrep self (cell_at s1) (Array vs) n A" "jrep self (cell_at s1) v x B" using assms(2,3) null(5) by simp_all
    then obtain s2 s3 where "json_free self x s1 = Inr s2" "json_free self n s2 = Inr s3" "rt_wf s3"
      "rt.more s3 = rt.more s1" "cell_at s3 = cell_at s1 |` (- (A \<union> B))"
      by (rule free_two [OF null(3) _ _ assms(4)])
    then show ?thesis using that(1) [of s3] null f len by (simp add: array_add_def)
  next
    case (grown q s1 c)
    have q: "q \<noteq> n" "q \<notin> A0 \<union> B" using grown(6) a(6,7) A0 mn(1) grown(3) by auto
    have p0: "p \<notin> B" using A0(2,5) cell_at_zero [of st] by (cases "p = 0") (auto simp: dom_def)
    let ?s2 = "put n (JNode (JArray q (of_nat (length vs)) (new_capacity cap))) s1"
    have c1: "cell_at s1 n = Some (mn, JNode (JArray p (of_nat (length vs)) cap))" using grown(7) mn(1) q(1) a(7) by simp
    note w = heap.store_result [OF grown(4) c1, of "JNode (JArray q (of_nat (length vs)) (new_capacity cap))"]
    have c2: "cell_at ?s2 = ((cell_at st)(p := None))(q \<mapsto> c, n \<mapsto> (mn, JNode (JArray q (of_nat (length vs)) (new_capacity cap))))"
      using w grown(7) by simp
    have same: "cell_at ?s2 a = cell_at st a" if "a \<notin> {n, p, q}" for a using c2 that by simp
    have "buffer self (cell_at ?s2) q (new_capacity cap) ns" using grown(8) by (rule buffer_cong) (use w q in simp)
    moreover have "jreps self (cell_at ?s2) vs ns A0" by (rule jrep_cong(2) [OF a(3)]) (intro ballI same; use q a(5,6) in auto)
    moreover have "jrep self (cell_at ?s2) v x B" by (rule jrep_cong(1) [OF assms(3)]) (intro ballI same; use q A0(4) p0 in auto)
    moreover have "mem b k D ?s2" using grown(10) by simp
    moreover have "cell_at ?s2 n = Some (mn, JNode (JArray q (of_nat (length vs)) (new_capacity cap)))" using c2 by simp
    moreover have "{n, q} \<inter> (A0 \<union> B) = {}" using q a(5) A0(4) by auto
    ultimately obtain s3 where s3: "store_slot q (unat (of_nat (length vs) :: size_t)) x
        (put n (JNode (JArray q (of_nat (length vs) + 1) (new_capacity cap))) ?s2) = Inr s3" "rt_wf s3"
      "rt.more s3 = rt.more ?s2" "jrep self (cell_at s3) (Array (vs @ [v])) n ({n, q} \<union> (A0 \<union> B))"
      "\<forall>a. a \<notin> {n, q} \<longrightarrow> cell_at s3 a = cell_at ?s2 a" "mem b k D s3"
      using w grown(3,9) q(1) mn(2) A0(3) by (elim array_store [rotated -1]) auto
    have "cell_at s3 |` (- ({n, q} \<union> (A0 \<union> B))) = cell_at st |` (- (A \<union> B))"
      using s3(5) c2 grown(6) a(4) by (auto simp: restrict_map_def fun_eq_iff cell_at_zero)
    with s3(4) have "tree_over self (cell_at st |` (- (A \<union> B))) (Array (vs @ [v])) n ({n, q} \<union> (A0 \<union> B)) s3"
      by (rule tree_overI)
    then show ?thesis using that(2) [of s3] s3 grown w f len by (simp add: array_add_def)
  next
    case enough
    have "{n, p} \<inter> (A0 \<union> B) = {}" using a(5,6) A0(4,5) enough(2) by auto
    with enough obtain s3 where s3: "store_slot p (unat (of_nat (length vs) :: size_t)) x
        (put n (JNode (JArray p (of_nat (length vs) + 1) cap)) st) = Inr s3" "rt_wf s3"
      "rt.more s3 = rt.more st" "jrep self (cell_at s3) (Array (vs @ [v])) n ({n, p} \<union> (A0 \<union> B))"
      "\<forall>a. a \<notin> {n, p} \<longrightarrow> cell_at s3 a = cell_at st a" "mem b (Suc k) D s3"
      using array_store [OF assms(1) mn enough(3,4,2) a(7,3) assms(3) _ A0(3) assms(5)] by blast
    have "cell_at s3 |` (- ({n, p} \<union> (A0 \<union> B))) = cell_at st |` (- (A \<union> B))"
      using s3(5) a(4) enough(2) by (auto simp: restrict_map_def fun_eq_iff)
    with s3(4) have "tree_over self (cell_at st |` (- (A \<union> B))) (Array (vs @ [v])) n ({n, p} \<union> (A0 \<union> B)) s3"
      by (rule tree_overI)
    moreover have "mem b k D s3" using s3(6) by (rule mem_less) simp
    ultimately show ?thesis using that(2) [of s3] s3 enough f len by (simp add: array_add_def)
  qed
qed

end
