(* ===== verification/JsonObjects.thy ===== *)
theory JsonObjects
  imports JsonArrays
begin

text \<open>
  Adding a member to an object.  With enough memory both buffers grow.  Without it the clean-up is right only for the
  first growth (\<open>length ms < 4\<close>), when the object has no buffers yet.
\<close>

lemma jrep_objectE:
  assumes "jrep self (cell_at st) (Object ms) n A"
  obtains p q cap ks ns A0 where "node_at self (cell_at st) n (JObject p q (of_nat (length ms)) cap)"
    and "growable self (cell_at st) p cap ks" and "growable self (cell_at st) q cap ns"
    and "list_all2 (cstring self (cell_at st)) ks (map fst ms)" and "distinct ks"
    and "jreps self (cell_at st) (map snd ms) ns A0" and "A = insert n (set ks \<union> A0 \<union> ({p, q} - {0}))"
    and "{n, p, q} \<inter> (set ks \<union> A0) = {}" and "p \<noteq> n" and "q \<noteq> n" and "p = 0 \<longleftrightarrow> q = 0" and "p \<noteq> 0 \<longrightarrow> p \<noteq> q"
    and "set ks \<inter> A0 = {}"
  using assms
proof cases
  case empty_object
  have "n \<noteq> 0" using empty_object(3) cell_at_nonnull by (auto simp: node_at_def)
  then show thesis
    using that [of 0 0 0 "[]" "[]" "{}"] empty_object by (simp add: growable_def jrep_jreps.none)
next
  case (object p q cap ks ns A0)
  have "q \<noteq> 0" using object(4) cell_at_zero [of st] by (cases "q = 0") (auto simp: buffer_def)
  then show thesis using that [of p q cap ks ns A0] object by (auto simp: growable_def)
qed

lemma object_store:
  assumes "rt_wf st" and "cell_at st n = Some (mn, y)" and "free_ok self mn"
    and "buffer self (cell_at st) p cap ks" and "buffer self (cell_at st) q cap ns"
    and "list_all2 (cstring self (cell_at st)) ks (map fst ms)" and "distinct ks" and "length ms < unat cap"
    and "jreps self (cell_at st) (map snd ms) ns A0" and "cstring self (cell_at st) kp key" and "jrep self (cell_at st) v x B"
    and "distinct [n, p, q]" and "p \<noteq> 0" and "{n, p, q} \<inter> (set ks \<union> A0 \<union> insert kp B) = {}"
    and "set ks \<inter> A0 = {}" and "kp \<notin> set ks \<union> A0 \<union> B" and "(set ks \<union> A0) \<inter> B = {}" and "mem b k D st"
  obtains s1 s2 where "store_slot p (unat (of_nat (length ms) :: size_t)) kp st = Inr s1"
    and "store_slot q (unat (of_nat (length ms) :: size_t)) x s1 = Inr s2"
    and "rt_wf (put n (JNode (JObject p q (of_nat (length ms) + 1) cap)) s2)"
    and "rt.more s2 = rt.more st"
    and "jrep self (cell_at (put n (JNode (JObject p q (of_nat (length ms) + 1) cap)) s2)) (Object (ms @ [(key, v)])) n
      ({n, p, q} \<union> (insert kp (set ks) \<union> (A0 \<union> B)))"
    and "\<forall>a. a \<notin> {n, p, q} \<longrightarrow> cell_at (put n (JNode (JObject p q (of_nat (length ms) + 1) cap)) s2) a = cell_at st a"
    and "mem b k D s2"
proof -
  let ?x = "JNode (JObject p q (of_nat (length ms) + 1) cap)"
  have len: "length ks = length ms" "length ns = length ms"
    using list_all2_lengthD [OF assms(6)] jrep_dom(2) [OF assms(9)] by simp_all
  have u: "unat (of_nat (length ms) :: size_t) = length ms" using buffer_small [OF assms(4)] len by simp
  have lk: "length ks < unat cap" "length ns < unat cap" using assms(8) len by simp_all
  obtain s1 c where s1: "store_slot p (length ks) kp st = Inr s1" "rt_wf s1" "rt.more s1 = rt.more st"
    "cell_at s1 = (cell_at st)(p \<mapsto> c)" "buffer self (cell_at s1) p cap (ks @ [kp])"
    "\<forall>b k D. mem b k D st \<longrightarrow> mem b k D s1"
    by (rule store_buffer [OF assms(1,4) lk(1)])
  have bq: "buffer self (cell_at s1) q cap ns" using assms(5) by (rule buffer_cong) (use s1(4) assms(12) in auto)
  obtain s2 d where s2: "store_slot q (length ns) x s1 = Inr s2" "rt_wf s2" "rt.more s2 = rt.more s1"
    "cell_at s2 = (cell_at s1)(q \<mapsto> d)" "buffer self (cell_at s2) q cap (ns @ [x])"
    "\<forall>b k D. mem b k D s1 \<longrightarrow> mem b k D s2"
    by (rule store_buffer [OF s1(2) bq lk(2)])
  have cn: "cell_at s2 n = Some (mn, y)" using s2(4) s1(4) assms(2,12) by simp
  note w = heap.store_result [OF s2(2) cn, of ?x]
  let ?C = "cell_at (put n ?x s2)"
  have cells: "?C a = cell_at st a" if "a \<notin> {n, p, q}" for a using w s2(4) s1(4) that by simp
  have "node_at self ?C n (JObject p q (of_nat (length (ms @ [(key, v)]))) cap)"
    using w assms(3) by (auto simp: node_at_def add.commute)
  moreover have "buffer self ?C p cap (ks @ [kp])" using s1(5) by (rule buffer_cong) (use w s2(4) assms(12) in auto)
  moreover have "buffer self ?C q cap (ns @ [x])" using s2(5) by (rule buffer_cong) (use w assms(12) in auto)
  moreover have "list_all2 (cstring self ?C) (ks @ [kp]) (map fst (ms @ [(key, v)]))"
  proof -
    have "list_all2 (cstring self ?C) ks (map fst ms)"
      by (rule cstrings_cong [OF assms(6)], intro ballI cells) (use assms(14) in auto)
    moreover have "cstring self ?C kp key" by (rule cstring_cong [OF assms(10)], rule cells) (use assms(14) in auto)
    ultimately show ?thesis by (simp add: list_all2_appendI)
  qed
  moreover have "jreps self ?C (map snd (ms @ [(key, v)])) (ns @ [x]) (A0 \<union> B)"
  proof -
    have "jreps self ?C (map snd ms) ns A0" by (rule jrep_cong(2) [OF assms(9)], intro ballI cells) (use assms(14) in auto)
    moreover have "jrep self ?C v x B" by (rule jrep_cong(1) [OF assms(11)], intro ballI cells) (use assms(14) in auto)
    ultimately have "jreps self ?C (map snd ms @ [v]) (ns @ [x]) (A0 \<union> B)"
      using assms(17) by (intro jreps_snoc) auto
    then show ?thesis by simp
  qed
  ultimately have "jrep self ?C (Object (ms @ [(key, v)])) n ({n, p, q} \<union> set (ks @ [kp]) \<union> (A0 \<union> B))"
    using assms(7,12-17) by (intro jrep_jreps.object) auto
  moreover have "{n, p, q} \<union> set (ks @ [kp]) \<union> (A0 \<union> B) = {n, p, q} \<union> (insert kp (set ks) \<union> (A0 \<union> B))" by auto
  ultimately have "jrep self ?C (Object (ms @ [(key, v)])) n ({n, p, q} \<union> (insert kp (set ks) \<union> (A0 \<union> B)))" by (simp only:)
  then show thesis using that [of s1 s2] s1 s2 w cells u len assms(18) by simp
qed

text \<open>The clean-up when a buffer could not grow.\<close>

lemma free_if:
  assumes "rt_wf st" and "p \<noteq> 0 \<longrightarrow> (\<exists>m y. cell_at st p = Some (m, y) \<and> free_ok self m)"
  obtains st' where "(if p \<noteq> 0 then owner_free self p st else Inr st) = Inr st'" and "rt_wf st'"
    and "rt.more st' = rt.more st" and "cell_at st' = cell_at st |` (- ({p} - {0}))"
proof (cases "p = 0")
  case True
  then show ?thesis using that [of st] assms(1) by (simp add: restrict_map_def fun_eq_iff)
next
  case False
  then obtain m y where "cell_at st p = Some (m, y)" "free_ok self m" using assms(2) by blast
  then obtain s where "owner_free self p st = Inr s" "rt_wf s" "rt.more s = rt.more st" "cell_at s = (cell_at st)(p := None)"
    by (rule heap.release_obtain [OF assms(1)])
  moreover have "(cell_at st)(p := None) = cell_at st |` (- ({p} - {0}))" using False by (auto simp: restrict_map_def fun_eq_iff)
  ultimately show ?thesis using that [of s] False by simp
qed

lemma member_cleanup:
  assumes "rt_wf st" and "jrep self (cell_at st) u n A" and "cstring self (cell_at st) kp key"
    and "jrep self (cell_at st) v x B" and "kp \<notin> A \<union> B" and "A \<inter> B = {}"
    and "nk \<noteq> 0 \<longrightarrow> (\<exists>m y. cell_at st nk = Some (m, y) \<and> free_ok self m)"
    and "nv \<noteq> 0 \<longrightarrow> (\<exists>m y. cell_at st nv = Some (m, y) \<and> free_ok self m)"
    and "nk = 0 \<or> nv = 0" and "({nk, nv} - {0}) \<inter> insert kp (A \<union> B) = {}"
  obtains st' where "bindE (owner_free self kp st) (\<lambda>st. bindE (json_free self x st) (\<lambda>st.
      bindE (if nk \<noteq> 0 then owner_free self nk st else Inr st) (\<lambda>st.
      bindE (if nv \<noteq> 0 then owner_free self nv st else Inr st) (\<lambda>st.
      bindE (json_free self n st) (\<lambda>st. Inr (None, st)))))) = Inr (None, st')"
    and "rt_wf st'" and "rt.more st' = rt.more st"
    and "cell_at st' = cell_at st |` (- (insert kp (A \<union> B) \<union> ({nk, nv} - {0})))"
proof -
  obtain mk yk where kc: "cell_at st kp = Some (mk, yk)" "free_ok self mk" using assms(3) by (auto simp: cstring_def)
  obtain s1 where s1: "owner_free self kp st = Inr s1" "rt_wf s1" "rt.more s1 = rt.more st" "cell_at s1 = (cell_at st)(kp := None)"
    by (rule heap.release_obtain [OF assms(1) kc])
  have "jrep self (cell_at s1) v x B" by (rule jrep_cong(1) [OF assms(4)]) (use s1(4) assms(5) in auto)
  then obtain s2 where s2: "json_free self x s1 = Inr s2" "rt_wf s2" "rt.more s2 = rt.more s1" "cell_at s2 = cell_at s1 |` (- B)"
    by (rule json_free_rep [OF s1(2)])
  have c2: "cell_at s2 a = cell_at st a" if "a \<notin> insert kp B" for a using s2(4) s1(4) that by (simp add: restrict_map_def)
  have nk: "nk \<noteq> 0 \<longrightarrow> (\<exists>m y. cell_at s2 nk = Some (m, y) \<and> free_ok self m)" using assms(7,10) c2 [of nk] by auto
  obtain s3 where s3: "(if nk \<noteq> 0 then owner_free self nk s2 else Inr s2) = Inr s3" "rt_wf s3"
    "rt.more s3 = rt.more s2" "cell_at s3 = cell_at s2 |` (- ({nk} - {0}))"
    by (rule free_if [OF s2(2) nk])
  have c3: "cell_at s3 a = cell_at st a" if "a \<notin> insert kp B \<union> ({nk} - {0})" for a
    using s3(4) c2 [of a] that by (auto simp: restrict_map_def)
  have nv: "nv \<noteq> 0 \<longrightarrow> (\<exists>m y. cell_at s3 nv = Some (m, y) \<and> free_ok self m)" using assms(8,9,10) c3 [of nv] by auto
  obtain s4 where s4: "(if nv \<noteq> 0 then owner_free self nv s3 else Inr s3) = Inr s4" "rt_wf s4"
    "rt.more s4 = rt.more s3" "cell_at s4 = cell_at s3 |` (- ({nv} - {0}))"
    by (rule free_if [OF s3(2) nv])
  have c4: "cell_at s4 a = cell_at st a" if "a \<notin> insert kp B \<union> ({nk, nv} - {0})" for a
    using s4(4) c3 [of a] that by (auto simp: restrict_map_def)
  have "jrep self (cell_at s4) u n A"
    by (rule jrep_cong(1) [OF assms(2)], intro ballI c4) (use assms(5,6,10) in auto)
  then obtain s5 where s5: "json_free self n s4 = Inr s5" "rt_wf s5" "rt.more s5 = rt.more s4" "cell_at s5 = cell_at s4 |` (- A)"
    by (rule json_free_rep [OF s4(2)])
  have "cell_at s5 = cell_at st |` (- (insert kp (A \<union> B) \<union> ({nk, nv} - {0})))"
    using s5(4) s4(4) s3(4) s2(4) s1(4) by (auto simp: restrict_map_def fun_eq_iff)
  moreover have "bindE (owner_free self kp st) (\<lambda>st. bindE (json_free self x st) (\<lambda>st.
      bindE (if nk \<noteq> 0 then owner_free self nk st else Inr st) (\<lambda>st.
      bindE (if nv \<noteq> 0 then owner_free self nv st else Inr st) (\<lambda>st.
      bindE (json_free self n st) (\<lambda>st. Inr (None, st)))))) = Inr (None, s5)"
    by (simp only: s1(1) s2(1) s3(1) s4(1) s5(1) bindE_simps)
  ultimately show thesis using that [of s5] s5 s4 s3 s2 s1 by simp
qed

text \<open>Growing both buffers of an object.\<close>

lemma object_add_mem:
  assumes "rt_wf st" and "jrep self (cell_at st) (Object ms) n A" and "cstring self (cell_at st) kp key"
    and "jrep self (cell_at st) v x B" and "kp \<notin> A \<union> B" and "A \<inter> B = {}"
    and "mem b (Suc (Suc k)) D st" and "16 * length ms + 144 \<le> D" and "D < 2 ^ 64" and "b \<or> length ms < 4"
  obtains (null) st' where "object_add self n kp x st = Inr (False, st')" and "rt_wf st'" and "rt.more st' = rt.more st"
      and "cell_at st' = cell_at st |` (- insert kp (A \<union> B))" and "\<not> b"
  | (added) st' A' where "object_add self n kp x st = Inr (True, st')" and "rt_wf st'" and "rt.more st' = rt.more st"
      and "tree_over self (cell_at st |` (- insert kp (A \<union> B))) (Object (ms @ [(key, v)])) n A' st'" and "mem b k D st'"
proof -
  obtain p q cap ks ns A0 where a: "node_at self (cell_at st) n (JObject p q (of_nat (length ms)) cap)"
    "growable self (cell_at st) p cap ks" "growable self (cell_at st) q cap ns"
    "list_all2 (cstring self (cell_at st)) ks (map fst ms)" "distinct ks" "jreps self (cell_at st) (map snd ms) ns A0"
    "A = insert n (set ks \<union> A0 \<union> ({p, q} - {0}))" "{n, p, q} \<inter> (set ks \<union> A0) = {}" "p \<noteq> n" "q \<noteq> n" "p = 0 \<longleftrightarrow> q = 0"
    "p \<noteq> 0 \<longrightarrow> p \<noteq> q" "set ks \<inter> A0 = {}"
    by (rule jrep_objectE [OF assms(2)])
  have len: "length ks = length ms" "length ns = length ms"
    using list_all2_lengthD [OF a(4)] jrep_dom(2) [OF a(6)] by simp_all
  have f: "field json_of st n = Inr (JObject p q (of_nat (length ms)) cap)" using node_at_field [OF assms(1) a(1)] by simp
  obtain mn where mn: "cell_at st n = Some (mn, JNode (JObject p q (of_nat (length ms)) cap))" "free_ok self mn"
    using a(1) by (auto simp: node_at_def)
  have kpd: "kp \<in> dom (cell_at st)" using assms(3) by (auto simp: cstring_def)
  have doms: "insert kp (A \<union> B) \<subseteq> dom (cell_at st)" using jrep_dom(1) [OF assms(2)] jrep_dom(1) [OF assms(4)] kpd by simp
  have zero: "0 \<notin> insert kp (A \<union> B)" using doms cell_at_zero [of st] by (auto simp: dom_def)
  have nA: "n \<in> A" "set ks \<union> A0 \<subseteq> A" "p \<noteq> 0 \<longrightarrow> p \<in> A" "q \<noteq> 0 \<longrightarrow> q \<in> A" using a(7) by auto
  have apart: "{n, p, q} \<inter> (set ks \<union> A0 \<union> insert kp B) = {}" "kp \<notin> set ks \<union> A0 \<union> B" "(set ks \<union> A0) \<inter> B = {}"
    using a(8) nA assms(5,6) zero by auto
  have D: "16 * length ks + 144 \<le> D" "16 * length ns + 144 \<le> D" using assms(8) len by simp_all
  have fails: thesis
    if g: "(of_nat (length ms) :: size_t) \<ge> cap" and nb: "\<not> b"
      and r1: "owner_realloc self p (new_capacity cap * 8) st = Inr (nk, s1)"
      and r2: "owner_realloc self q (new_capacity cap * 8) s1 = Inr (nv, s2)"
      and nz: "nk = 0 \<or> nv = 0" and wf: "rt_wf s2" and more: "rt.more s2 = rt.more st"
      and e: "nk \<noteq> 0 \<longrightarrow> nk \<notin> dom (cell_at st) - {p}" "nv \<noteq> 0 \<longrightarrow> nv \<notin> dom (cell_at st) - {q}"
      and bk: "nk \<noteq> 0 \<longrightarrow> (\<exists>m y. cell_at s2 nk = Some (m, y) \<and> free_ok self m)"
      and bv: "nv \<noteq> 0 \<longrightarrow> (\<exists>m y. cell_at s2 nv = Some (m, y) \<and> free_ok self m)"
      and c: "\<forall>a. a \<notin> {p, q, nk, nv} - {0} \<longrightarrow> cell_at s2 a = cell_at st a" for nk nv s1 s2
  proof -
    have "length ms < 4" using assms(10) nb by simp
    moreover have "length ms = unat cap"
      using g growable_length [OF a(2)] len by (simp add: word_le_nat_alt)
    ultimately have pq: "p = 0" "q = 0" "ms = []"
      using a(2,11) by (auto simp: growable_def buffer_def split: if_splits)
    have ex: "({nk, nv} - {0}) \<inter> insert kp (A \<union> B) = {}" using e doms pq zero by auto
    have same: "cell_at s2 a = cell_at st a" if "a \<in> insert kp (A \<union> B)" for a using c ex that pq zero by auto
    have "jrep self (cell_at s2) (Object ms) n A" by (rule jrep_cong(1) [OF assms(2)], intro ballI same) simp
    moreover have "cstring self (cell_at s2) kp key" by (rule cstring_cong [OF assms(3)], rule same) simp
    moreover have "jrep self (cell_at s2) v x B" by (rule jrep_cong(1) [OF assms(4)], intro ballI same) simp
    ultimately obtain s3 where s3: "bindE (owner_free self kp s2) (\<lambda>st. bindE (json_free self x st) (\<lambda>st.
        bindE (if nk \<noteq> 0 then owner_free self nk st else Inr st) (\<lambda>st.
        bindE (if nv \<noteq> 0 then owner_free self nv st else Inr st) (\<lambda>st.
        bindE (json_free self n st) (\<lambda>st. Inr (None, st)))))) =
          Inr (None :: (addr \<times> addr \<times> size_t) option, s3)"
      "rt_wf s3" "rt.more s3 = rt.more s2" "cell_at s3 = cell_at s2 |` (- (insert kp (A \<union> B) \<union> ({nk, nv} - {0})))"
      by (rule member_cleanup [OF wf _ _ _ assms(5,6) bk bv nz ex])
    have "cell_at s3 = cell_at st |` (- insert kp (A \<union> B))"
    proof
      fix a
      have "cell_at st a = None" if "a \<in> {nk, nv} - {0}"
      proof -
        have "a \<notin> dom (cell_at st)" using e that pq(1,2) by blast
        then show ?thesis by (metis domIff)
      qed
      then show "cell_at s3 a = (cell_at st |` (- insert kp (A \<union> B))) a"
        using s3(4) c pq by (cases "a \<in> {nk, nv} - {0}") (auto simp: restrict_map_def)
    qed
    moreover have "object_add self n kp x st = Inr (False, s3)"
      using f g r1 r2 nz s3(1) by (simp add: object_add_def)
    ultimately show thesis using null [of s3] s3 more nb by simp
  qed
  have finish: thesis
    if wf: "rt_wf s3" and more: "rt.more s3 = rt.more st" and cn: "cell_at s3 n = Some (mn, y)"
      and bp: "buffer self (cell_at s3) P cap' ks" and bq: "buffer self (cell_at s3) Q cap' ns"
      and room: "length ms < unat cap'" and d: "distinct [n, P, Q]" and nz: "P \<noteq> 0" "Q \<noteq> 0"
      and new: "P \<in> {p, q} \<or> cell_at st P = None" "Q \<in> {p, q} \<or> cell_at st Q = None"
      and same: "\<forall>a. a \<notin> {n, p, q, P, Q} \<longrightarrow> cell_at s3 a = cell_at st a"
      and dead: "\<forall>a \<in> {p, q} - {P, Q}. cell_at s3 a = None" and m: "mem b k D s3"
      and run: "object_add self n kp x st =
        bindE (store_slot P (unat (of_nat (length ms) :: size_t)) kp s3) (\<lambda>st.
        bindE (store_slot Q (unat (of_nat (length ms) :: size_t)) x st) (\<lambda>st.
        Inr (True, put n (JNode (JObject P Q (of_nat (length ms) + 1) cap')) st)))" for s3 y P Q cap'
  proof -
    have out: "{n, P, Q} \<inter> (set ks \<union> A0 \<union> insert kp B) = {}"
      using new apart(1) doms nA(2) nz d by (auto simp: dom_def)
    have s: "cell_at s3 a = cell_at st a" if "a \<in> set ks \<union> A0 \<union> insert kp B" for a
    proof -
      have "a \<notin> {n, p, q, P, Q}" using that out apart(1) by auto
      then show ?thesis using same by blast
    qed
    have "list_all2 (cstring self (cell_at s3)) ks (map fst ms)" by (rule cstrings_cong [OF a(4)], intro ballI s) simp
    moreover have "jreps self (cell_at s3) (map snd ms) ns A0" by (rule jrep_cong(2) [OF a(6)], intro ballI s) simp
    moreover have "cstring self (cell_at s3) kp key" by (rule cstring_cong [OF assms(3)], rule s) simp
    moreover have "jrep self (cell_at s3) v x B" by (rule jrep_cong(1) [OF assms(4)], intro ballI s) simp
    ultimately obtain s4 s5 where s5: "store_slot P (unat (of_nat (length ms) :: size_t)) kp s3 = Inr s4"
      "store_slot Q (unat (of_nat (length ms) :: size_t)) x s4 = Inr s5"
      "rt_wf (put n (JNode (JObject P Q (of_nat (length ms) + 1) cap')) s5)" "rt.more s5 = rt.more s3"
      "jrep self (cell_at (put n (JNode (JObject P Q (of_nat (length ms) + 1) cap')) s5)) (Object (ms @ [(key, v)])) n
        ({n, P, Q} \<union> (insert kp (set ks) \<union> (A0 \<union> B)))"
      "\<forall>a. a \<notin> {n, P, Q} \<longrightarrow> cell_at (put n (JNode (JObject P Q (of_nat (length ms) + 1) cap')) s5) a = cell_at s3 a"
      "mem b k D s5"
      by (rule object_store [OF wf cn mn(2) bp bq _ a(5) room _ _ _ d nz(1) out a(13) apart(2,3) m])
    let ?s6 = "put n (JNode (JObject P Q (of_nat (length ms) + 1) cap')) s5"
    let ?A = "{n, P, Q} \<union> (insert kp (set ks) \<union> (A0 \<union> B))"
    have "cell_at ?s6 |` (- ?A) = cell_at st |` (- insert kp (A \<union> B))"
    proof
      fix a
      show "(cell_at ?s6 |` (- ?A)) a = (cell_at st |` (- insert kp (A \<union> B))) a"
      proof (cases "a \<in> ?A")
        case True
        then have "a \<in> insert kp (A \<union> B) \<or> cell_at st a = None" using new nA nz by auto
        then show ?thesis using True by (auto simp: restrict_map_def)
      next
        case False
        then have "cell_at ?s6 a = cell_at s3 a" using s5(6) by auto
        moreover have "cell_at s3 a = (cell_at st |` (- insert kp (A \<union> B))) a"
          using False same dead a(7) cell_at_zero [of s3] cell_at_zero [of st]
          by (cases "a \<in> {p, q}") (auto simp: restrict_map_def)
        ultimately show ?thesis using False by (simp add: restrict_map_def)
      qed
    qed
    with s5(5) have "tree_over self (cell_at st |` (- insert kp (A \<union> B))) (Object (ms @ [(key, v)])) n ?A ?s6"
      by (rule tree_overI)
    then show thesis using added [of ?s6 ?A] s5 run more by simp
  qed
  from assms(1) a(2) assms(7) D(1) assms(9) show thesis
  proof (cases rule: reserve_mem)
    case (null s1)
    have gq: "growable self (cell_at s1) q cap ns" using a(3) null(5) by simp
    have "mem b (Suc k) D s1" using null(6) by (simp add: mem_def)
    from null(3) gq this D(2) assms(9) show ?thesis
    proof (cases rule: reserve_mem)
      case (null s2)
      then show ?thesis
        using fails [of 0 s1 0 s2] \<open>owner_realloc self p (new_capacity cap * 8) st = Inr (0, s1)\<close> len
          \<open>rt.more s1 = rt.more st\<close> \<open>cell_at s1 = cell_at st\<close> by simp
    next
      case (grown nv s2 c)
      have "\<exists>m y. cell_at s2 nv = Some (m, y) \<and> free_ok self m" using grown(8) by (auto simp: buffer_def)
      then show ?thesis
        using fails [of 0 s1 nv s2] null grown len by (auto simp: dom_def cell_at_zero)
    next
      case enough
      then show ?thesis using null(1) len by simp
    qed
  next
    case (grown nk s1 c)
    have q1: "q \<noteq> nk" using grown(3,6) a(11,12) nA(4) doms by (cases "q = 0") (auto simp: dom_def)
    have cq: "cell_at s1 q = cell_at st q" using grown(7) q1 a(11,12) cell_at_zero [of st] by auto
    have gq: "growable self (cell_at s1) q cap ns" using a(3) cq by (auto simp: growable_def intro: buffer_cong)
    from grown(4) gq grown(10) D(2) assms(9) show ?thesis
    proof (cases rule: reserve_mem)
      case (null s2)
      have "\<exists>m y. cell_at s2 nk = Some (m, y) \<and> free_ok self m" using grown(8) null(5) by (auto simp: buffer_def)
      then show ?thesis
        using fails [of nk s1 0 s2] null grown len by (auto simp: dom_def cell_at_zero)
    next
      case g2: (grown nv s2 d)
      let ?x = "JNode (JObject nk nv (of_nat (length ms)) (new_capacity cap))"
      have nv: "nv \<noteq> nk" using g2(6) q1 grown(7) by auto
      have nn: "nk \<noteq> n" "nv \<noteq> n" using grown(6) g2(6) a(9,10) mn(1) grown(7) nv by auto
      have c1: "cell_at s2 n = Some (mn, JNode (JObject p q (of_nat (length ms)) cap))"
        using g2(7) grown(7) mn(1) nn a(9,10) by simp
      note w = heap.store_result [OF g2(4) c1, of ?x]
      have eq: "cell_at (put n ?x s2) = ((cell_at st)(p := None, nk \<mapsto> c, q := None, nv \<mapsto> d, n \<mapsto> (mn, ?x)))"
        using w g2(7) grown(7) by simp
      have bk: "buffer self (cell_at (put n ?x s2)) nk (new_capacity cap) ks"
        using grown(8) by (rule buffer_cong) (use eq grown(7) nn nv q1 in simp)
      have bv: "buffer self (cell_at (put n ?x s2)) nv (new_capacity cap) ns"
        using g2(8) by (rule buffer_cong) (use w nn in simp)
      have run: "object_add self n kp x st =
        bindE (store_slot nk (unat (of_nat (length ms) :: size_t)) kp (put n ?x s2)) (\<lambda>st.
        bindE (store_slot nv (unat (of_nat (length ms) :: size_t)) x st) (\<lambda>st.
        Inr (True, put n (JNode (JObject nk nv (of_nat (length ms) + 1) (new_capacity cap))) st)))"
        using f grown(1-3) g2(2,3) len by (simp add: object_add_def)
      show ?thesis
      proof (rule finish [OF _ _ _ bk bv _ _ grown(3) g2(3) _ _ _ _ _ run])
        show "rt_wf (put n ?x s2)" "rt.more (put n ?x s2) = rt.more st" using w g2(5) grown(5) by simp_all
        show "cell_at (put n ?x s2) n = Some (mn, ?x)" using w by simp
        show "length ms < unat (new_capacity cap)" using grown(9) len by simp
        show "distinct [n, nk, nv]" using nn nv by auto
        show "nk \<in> {p, q} \<or> cell_at st nk = None" using grown(6) by auto
        show "nv \<in> {p, q} \<or> cell_at st nv = None" using g2(6) grown(7) nv by (auto split: if_splits)
        show "\<forall>a. a \<notin> {n, p, q, nk, nv} \<longrightarrow> cell_at (put n ?x s2) a = cell_at st a" using eq by auto
        show "\<forall>a \<in> {p, q} - {nk, nv}. cell_at (put n ?x s2) a = None" using eq a(9,10) by auto
        show "mem b k D (put n ?x s2)" using g2(10) by simp
      qed
    next
      case enough
      then show ?thesis using grown(1) len by simp
    qed
  next
    case enough
    have q0: "q \<noteq> 0" using enough(2) a(11) by simp
    have bv: "buffer self (cell_at st) q cap ns" using a(3) q0 by (simp add: growable_def)
    have run: "object_add self n kp x st =
      bindE (store_slot p (unat (of_nat (length ms) :: size_t)) kp st) (\<lambda>st.
      bindE (store_slot q (unat (of_nat (length ms) :: size_t)) x st) (\<lambda>st.
      Inr (True, put n (JNode (JObject p q (of_nat (length ms) + 1) cap)) st)))"
      using f enough(1) len by (simp add: object_add_def)
    show ?thesis
    proof (rule finish [OF assms(1) refl mn(1) enough(3) bv _ _ enough(2) q0 _ _ _ _ _ run])
      show "length ms < unat cap" using enough(4) len by simp
      show "distinct [n, p, q]" using a(9,10,12) enough(2) by auto
      show "mem b k D st" using assms(7) by (rule mem_less) simp
    qed auto
  qed
qed

end
