(* ===== verification/JsonParse.thy ===== *)
theory JsonParse
  imports JsonObjects "HOL-Library.Sublist"
begin

text \<open>
  The parser refines the reference parser.  With enough memory (\<open>b\<close>) it returns a tree for the value of the text, or
  null and the position where the text is wrong.  If any allocation may fail, and no object that is read has more than
  four members (\<open>narrow_value\<close>), it may also return null because of that.  Whenever it returns null, nothing it allocated is left.
\<close>

subsection \<open>Positions\<close>

lemma suffix_skip: "suffix (skip_whitespace p) p"
  by (simp add: skip_whitespace_def suffix_dropWhile)

lemma suffix_skip_tl: "suffix (skip_whitespace (tl p)) p"
  using suffix_skip [of "tl p"] suffix_tl suffix_order.trans by blast

lemma suffix_raw_end: "suffix (raw_end p) p"
  by (induction p rule: raw_end.induct) (auto intro: suffix_ConsI)

lemma suffix_ref_raw: "suffix (snd (ref_raw p)) p"
proof -
  have "suffix (tl (raw_end (tl p))) p"
    using suffix_raw_end [of "tl p"] suffix_tl suffix_order.trans by metis
  then show ?thesis by (simp add: ref_raw_def Let_def)
qed

lemma suffix_ref_scalar: "suffix (snd (ref_scalar p)) p"
  using suffix_ref_raw [of p] by (simp add: ref_scalar_def ref_word_def ref_number_def Let_def suffix_drop)

lemma suffix_ref_key: "ref_key p = (k, q) \<Longrightarrow> suffix q p"
proof -
  assume k: "ref_key p = (k, q)"
  obtain k0 q0 where r: "ref_raw p = (k0, q0)" by force
  then have s: "suffix q0 p" using suffix_ref_raw [of p] by simp
  have "suffix (skip_whitespace q0) p" "suffix (skip_whitespace (tl (skip_whitespace q0))) p"
    using s suffix_skip suffix_skip_tl suffix_order.trans by metis+
  then show ?thesis using k r s by (auto simp: ref_key_def split: option.splits if_splits)
qed

lemma suffix_ref:
  "suffix (snd (ref_value s)) s"
  "suffix (snd (ref_items vs p)) p"
  "suffix (snd (ref_members ms p)) p"
proof (induction s and vs p and ms p rule: ref_value_ref_items_ref_members.induct)
  case (1 s)
  let ?p = "skip_whitespace s"
  have t: "suffix q s" if "suffix q ?p" for q using that suffix_skip suffix_order.trans by blast
  have u: "suffix q s" if "suffix q (skip_whitespace (tl ?p))" for q
    using that suffix_skip_tl t suffix_order.trans by blast
  have "suffix (tl (skip_whitespace (tl ?p))) s" using u suffix_tl by blast
  then show ?case using 1(1,2) [OF refl] t [OF suffix_ref_scalar] u by (auto simp: ref_value.simps Let_def)
next
  case (2 vs p)
  obtain v q where r: "ref_value p = (v, q)" by force
  then have q: "suffix q p" using 2(1) by simp
  have s: "suffix (skip_whitespace q) p" using q suffix_skip suffix_order.trans by blast
  have t: "suffix a p" if "suffix a (skip_whitespace (tl (skip_whitespace q)))" for a
    using that suffix_skip_tl s suffix_order.trans by blast
  have "suffix (tl (skip_whitespace q)) p" using s suffix_tl suffix_order.trans by blast
  then show ?case using 2(2) [OF r [symmetric] _ refl] r q s t
    by (auto simp: ref_items.simps [of vs p] Let_def split: option.splits)
next
  case (3 ms p)
  obtain k q0 where k: "ref_key p = (k, q0)" by force
  obtain v q where r: "ref_value q0 = (v, q)" by force
  have q0: "suffix q0 p" by (rule suffix_ref_key [OF k])
  show ?case
  proof (cases "k = None")
    case True
    then show ?thesis using k q0 by (simp add: ref_members.simps)
  next
    case False
    then obtain k' where k': "k = Some k'" by auto
    have q: "suffix q p" using 3(1) [OF k [symmetric] k'] r q0 suffix_order.trans by (metis snd_conv)
    have s: "suffix (skip_whitespace q) p" using q suffix_skip suffix_order.trans by blast
    have t: "suffix a p" if "suffix a (skip_whitespace (tl (skip_whitespace q)))" for a
      using that suffix_skip_tl s suffix_order.trans by blast
    have "suffix (tl (skip_whitespace q)) p" using s suffix_tl suffix_order.trans by blast
    then show ?thesis using 3(2) [OF k [symmetric] k' r [symmetric] _ refl] k k' r q s t
      by (auto simp: ref_members.simps [of ms p] Let_def split: option.splits)
  qed
qed

lemma length_tl_at: "at p c \<Longrightarrow> length (tl p) + 1 = length p"
  by (cases p) (auto simp: at_def)

lemma next_position:
  assumes "at (skip_whitespace q) c" and "suffix q p"
  shows "suffix (skip_whitespace (tl (skip_whitespace q))) p" and "length (skip_whitespace (tl (skip_whitespace q))) < length p"
proof -
  have s: "suffix (skip_whitespace q) p" using assms(2) suffix_skip suffix_order.trans by blast
  then show "suffix (skip_whitespace (tl (skip_whitespace q))) p" using suffix_skip_tl suffix_order.trans by blast
  show "length (skip_whitespace (tl (skip_whitespace q))) < length p"
    using length_tl_at [OF assms(1)] length_skip [of "tl (skip_whitespace q)"] suffix_length_le [OF s] by linarith
qed

text \<open>
  The objects that are read have at most four members, so that their buffers grow only once.
\<close>

function narrow_value :: "string \<Rightarrow> bool"
  and narrow_items :: "string \<Rightarrow> bool"
  and narrow_members :: "nat \<Rightarrow> string \<Rightarrow> bool" where
  "narrow_value s =
     (let p = skip_whitespace s in
      if p = [] then True
      else if at p CHR ''['' then
        (let q = skip_whitespace (tl p) in if at q CHR '']'' then True else narrow_items q)
      else if at p CHR ''{'' then
        (let q = skip_whitespace (tl p) in if at q CHR ''}'' then True else narrow_members 0 q)
      else True)"
| "narrow_items p =
     (if narrow_value p
      then (case ref_value p of
              (None, q) \<Rightarrow> True
            | (Some v, q) \<Rightarrow>
                if at (skip_whitespace q) CHR '','' then narrow_items (skip_whitespace (tl (skip_whitespace q))) else True)
      else False)"
| "narrow_members j p =
     (case ref_key p of
        (None, q) \<Rightarrow> True
      | (Some k, q) \<Rightarrow>
          if narrow_value q
          then (case ref_value q of
                  (None, q) \<Rightarrow> True
                | (Some v, q) \<Rightarrow>
                    if j < 4
                    then (if at (skip_whitespace q) CHR '',''
                          then narrow_members (j + 1) (skip_whitespace (tl (skip_whitespace q))) else True)
                    else False)
          else False)"
  by pat_completeness simp_all

termination narrow_value
proof (relation "inv_image (less_than <*lex*> less_than)
    (\<lambda>x. case x of Inl s \<Rightarrow> (length s, 0 :: nat) | Inr (Inl p) \<Rightarrow> (length p, 1) | Inr (Inr (j, p)) \<Rightarrow> (length p, 1))",
    goal_cases)
  case 1
  then show ?case by auto
next
  case (2 s x xa)
  then show ?case using length_skip [of s] length_skip_tl_less [of x] by auto
next
  case (3 s x xa)
  then show ?case using length_skip [of s] length_skip_tl_less [of x] by auto
next
  case (4 p)
  then show ?case by simp
next
  case (5 p x y x2)
  then have "suffix y p" using suffix_ref(1) [of p] by (metis snd_conv)
  from next_position(2) [OF 5(4) this] show ?case by simp
next
  case (6 j p x y x2)
  then have "length y \<le> length p" using length_ref_key by metis
  then show ?case by auto
next
  case (7 j p x y x2 xa ya x2a)
  then have "suffix ya y" "suffix y p" using suffix_ref(1) [of y] suffix_ref_key by (metis snd_conv, metis)
  then have "suffix ya p" using suffix_order.trans by blast
  from next_position(2) [OF _ this] 7 show ?case by auto
qed

declare narrow_value.simps [simp del] narrow_items.simps [simp del] narrow_members.simps [simp del]

subsection \<open>The key of a member\<close>

lemma tree_over_cells: "tree_over self C0 v n A st \<Longrightarrow> cell_at st' = cell_at st \<Longrightarrow> tree_over self C0 v n A st'"
  by (simp add: tree_over_def)

lemma key_mem:
  assumes "rt_wf st" and "tree_over self C0 u n A st" and "mem b (Suc k) D st" and "length p + 81 \<le> D" and "D < 2 ^ 64"
  obtains (null) q st' where "parse_key self n p st = Inr (0, q, st')" and "rt_wf st'" and "rt.more st' = rt.more st"
      and "cell_at st' = C0" and "b \<longrightarrow> ref_key p = (None, q)"
  | (key) kp q st' s c where "parse_key self n p st = Inr (kp, q, st')" and "kp \<noteq> 0" and "rt_wf st'"
      and "rt.more st' = rt.more st" and "ref_key p = (Some s, q)" and "cstring self (cell_at st') kp s"
      and "cell_at st kp = None" and "cell_at st' = (cell_at st)(kp \<mapsto> c)" and "length q + 3 \<le> length p" and "mem b k D st'"
  using assms(1,3,4,5)
proof (cases rule: raw_string_mem [where self = self])
  case (null q s1)
  obtain s2 where "json_free self n s1 = Inr s2" "rt_wf s2" "rt.more s2 = rt.more s1" "cell_at s2 = C0"
    by (rule free_tree [OF null(2) tree_over_cells [OF assms(2) null(4)]])
  then show thesis using that(1) [of q s2] null by (simp add: parse_key_def ref_key_def)
next
  case (str kp q s1 s c)
  show thesis
  proof (cases "at (skip_whitespace q) CHR '':''")
    case True
    have "length (skip_whitespace (tl (skip_whitespace q))) + 3 \<le> length p"
      using True str(9) length_skip [of q] length_skip_tl_less [of "skip_whitespace q"] by (simp add: at_def)
    then show ?thesis
      using that(2) [of kp "skip_whitespace (tl (skip_whitespace q))" s1 s c] str True by (simp add: parse_key_def ref_key_def)
  next
    case False
    obtain m y where "cell_at s1 kp = Some (m, y)" "free_ok self m" using str(6) by (auto simp: cstring_def)
    then obtain s2 where s2: "owner_free self kp s1 = Inr s2" "rt_wf s2" "rt.more s2 = rt.more s1"
      "cell_at s2 = (cell_at s1)(kp := None)" by (rule heap.release_obtain [OF str(3)])
    have "cell_at s2 = cell_at st" using s2(4) str(7,8) by auto
    from tree_over_cells [OF assms(2) this] obtain s3 where
      "json_free self n s2 = Inr s3" "rt_wf s3" "rt.more s3 = rt.more s2" "cell_at s3 = C0"
      by (rule free_tree [OF s2(2)])
    then show ?thesis
      using that(1) [of "skip_whitespace q" s3] str s2 False by (simp add: parse_key_def ref_key_def)
  qed
qed

subsection \<open>One item and one member\<close>

lemma close_less:
  assumes "at (skip_whitespace q) d"
  shows "4 * length (tl (skip_whitespace q)) + k + 2 \<le> 4 * length q + k"
    and "4 * length (skip_whitespace (tl (skip_whitespace q))) + k + 1 \<le> 4 * length q + k"
proof -
  have "length (tl (skip_whitespace q)) + 1 \<le> length q"
    using length_tl_at [OF assms] length_skip [of q] by simp
  moreover have "length (skip_whitespace (tl (skip_whitespace q))) \<le> length (tl (skip_whitespace q))"
    by (rule length_skip)
  ultimately show "4 * length (tl (skip_whitespace q)) + k + 2 \<le> 4 * length q + k"
    and "4 * length (skip_whitespace (tl (skip_whitespace q))) + k + 1 \<le> 4 * length q + k" by linarith+
qed

text \<open>What follows an item or a member: the end, the next one, or an error.\<close>

lemma close_step:
  assumes "rt_wf st" and "tree_over self C0 u n A st" and "n \<noteq> 0" and "mem b (4 * length q + k) D st"
    and "at (skip_whitespace q) CHR '','' \<longrightarrow> mem b (4 * length (skip_whitespace (tl (skip_whitespace q))) + k + 1) D st \<longrightarrow>
      parses self b k D C0 (rt.more st) ref' rest"
  shows "parses self b k D C0 (rt.more st)
    (if at (skip_whitespace q) c then (Some u, tl (skip_whitespace q))
     else if at (skip_whitespace q) CHR '','' then ref' else (None, skip_whitespace q))
    (if at (skip_whitespace q) c then Inr (n, tl (skip_whitespace q), st)
     else if at (skip_whitespace q) CHR '','' then rest
     else bindE (json_free self n st) (\<lambda>st. Inr (0, skip_whitespace q, st)))"
proof -
  let ?p = "skip_whitespace q"
  consider (close) "at ?p c" | (another) "\<not> at ?p c" "at ?p CHR '',''" | (neither) "\<not> at ?p c" "\<not> at ?p CHR '',''"
    by blast
  then show ?thesis
  proof cases
    case close
    have "parses self b k D C0 (rt.more st) (Some u, tl ?p) (Inr (n, tl ?p, st))"
      by (rule parses_tree [OF assms(1) refl assms(3) refl assms(2) mem_less [OF assms(4) close_less(1) [OF close]]])
    then show ?thesis using close by simp
  next
    case another
    then show ?thesis using assms(5) mem_less [OF assms(4) close_less(2) [OF another(2)]] by simp
  next
    case neither
    obtain s where s: "json_free self n st = Inr s" "rt_wf s" "rt.more s = rt.more st" "cell_at s = C0"
      by (rule free_tree [OF assms(1,2)])
    have "parses self b k D C0 (rt.more st) (None, ?p) (Inr (0, ?p, s))" by (rule parses_null [OF s(2-4) refl])
    then show ?thesis using neither s(1) by simp
  qed
qed

lemma items_step:
  assumes wf: "rt_wf st" and tree: "tree_over self C0 (Array vs) n A st" and D: "16 * length vs + 144 \<le> D" "D < 2 ^ 64"
    and V: "parses self b k D (cell_at st) (rt.more st) (ref_value p) (parse_value self p st)"
    and continue: "\<And>v q A' st'. \<lbrakk>ref_value p = (Some v, q); at (skip_whitespace q) CHR '',''; rt_wf st'; rt.more st' = rt.more st;
      tree_over self C0 (Array (vs @ [v])) n A' st'; mem b (4 * length (skip_whitespace (tl (skip_whitespace q))) + k + 1) D st'\<rbrakk>
      \<Longrightarrow> parses self b k D C0 (rt.more st) (ref_items (vs @ [v]) (skip_whitespace (tl (skip_whitespace q))))
            (parse_items self n (skip_whitespace (tl (skip_whitespace q))) st')"
  shows "parses self b k D C0 (rt.more st) (ref_items vs p) (parse_items self n p st)"
  using V
proof (cases rule: parsesE)
  case (null q s1)
  obtain s2 where "json_free self n s1 = Inr s2" "rt_wf s2" "rt.more s2 = rt.more s1" "cell_at s2 = C0"
    by (rule free_tree [OF null(2) tree_over_cells [OF tree null(4)]])
  then show ?thesis using null by (auto simp: parse_items.simps [of self n p st] ref_items.simps [of vs p] intro!: parses_null)
next
  case (tree x q s1 v B)
  note two = two_trees [OF assms(2) tree(6)]
  have "n \<noteq> 0" using jrep_dom(1) [OF two(1)] cell_at_zero [of s1] by (auto simp: dom_def)
  have m: "mem b (Suc (4 * length q + k + 1)) D s1" using tree(7) by (rule mem_less) simp
  from tree(3) two(1-3) m D show ?thesis
  proof (cases rule: array_add_mem)
    case (null s2)
    then show ?thesis using tree two(4)
      by (auto simp: parse_items.simps [of self n p st] intro!: parses_null)
  next
    case (added s2 A')
    have over: "tree_over self C0 (Array (vs @ [v])) n A' s2" using added(4) two(4) by simp
    have more: "rt.more s2 = rt.more st" using added(3) tree(4) by simp
    let ?q = "skip_whitespace (tl (skip_whitespace q))"
    have m: "mem b (4 * length q + k) D s2" using added(5) by (rule mem_less) simp
    have "at (skip_whitespace q) CHR '','' \<longrightarrow> mem b (4 * length ?q + k + 1) D s2 \<longrightarrow>
        parses self b k D C0 (rt.more s2) (ref_items (vs @ [v]) ?q) (parse_items self n ?q s2)"
      using continue [OF tree(5) _ added(2) more over] more by simp
    note close = close_step [OF added(2) over \<open>n \<noteq> 0\<close> m this, where c = "CHR '']''"]
    show ?thesis using close tree(2) added(1) more
      by (simp add: parse_items.simps [of self n p st] ref_items.simps [of vs p] tree(1,5) Let_def)
  qed
qed

text \<open>The object, the key and the value after both have been parsed.\<close>

lemma member_trees:
  assumes "tree_over self C0 u n A st" and "cell_at st kp = None" and "cell_at s1 = (cell_at st)(kp \<mapsto> c)"
    and "cstring self (cell_at s1) kp key" and "tree_over self (cell_at s1) v x B s2"
  shows "jrep self (cell_at s2) u n A" and "jrep self (cell_at s2) v x B" and "A \<inter> B = {}" and "kp \<notin> A \<union> B"
    and "cstring self (cell_at s2) kp key" and "cell_at s2 |` (- insert kp (A \<union> B)) = C0"
proof -
  have r: "jrep self (cell_at st) u n A" "cell_at st |` (- A) = C0" using assms(1) by (simp_all add: tree_over_def)
  have kA: "kp \<notin> A" using jrep_dom(1) [OF r(1)] assms(2) by auto
  have "jrep self (cell_at s1) u n A" by (rule jrep_cong(1) [OF r(1)]) (use assms(3) kA in auto)
  note two = two_trees [OF tree_over_rest [OF this] assms(5)]
  show "jrep self (cell_at s2) u n A" "jrep self (cell_at s2) v x B" "A \<inter> B = {}" by (fact two)+
  have B: "B \<inter> dom (cell_at s1) = {}" "cell_at s2 |` (- B) = cell_at s1" using assms(5) by (simp_all add: tree_over_def)
  then have kB: "kp \<notin> B" using assms(3) by auto
  show "kp \<notin> A \<union> B" using kA kB by simp
  have "cell_at s2 kp = cell_at s1 kp" using B(2) kB by (metis ComplI restrict_in)
  then show "cstring self (cell_at s2) kp key" by (rule cstring_cong [OF assms(4)])
  have "cell_at s2 |` (- insert kp (A \<union> B)) = (cell_at s2 |` (- (A \<union> B))) |` (- {kp})"
    by (auto simp: restrict_map_def fun_eq_iff)
  also have "\<dots> = (cell_at s1 |` (- A)) |` (- {kp})" using two(4) by simp
  also have "\<dots> = C0" using assms(2,3) unfolding r(2) [symmetric] by (auto simp: restrict_map_def fun_eq_iff)
  finally show "cell_at s2 |` (- insert kp (A \<union> B)) = C0" .
qed

lemma members_step:
  assumes wf: "rt_wf st" and tree: "tree_over self C0 (Object ms) n A st"
    and D: "16 * length ms + 144 \<le> D" "length p + 81 \<le> D" "D < 2 ^ 64"
    and m: "mem b (4 * length p + k + 1) D st" 
    and narrow: "\<And>key q v q'. ref_key p = (Some key, q) \<Longrightarrow> ref_value q = (Some v, q') \<Longrightarrow> b \<or> length ms < 4"
    and V: "\<And>key q st'. \<lbrakk>ref_key p = (Some key, q); rt_wf (st' :: 'x rt_scheme); mem b (4 * length q + k) D st'\<rbrakk>
      \<Longrightarrow> parses self b k D (cell_at st') (rt.more st') (ref_value q) (parse_value self q st')"
    and continue: "\<And>key q v q' A' st'. \<lbrakk>ref_key p = (Some key, q); ref_value q = (Some v, q');
      at (skip_whitespace q') CHR '',''; rt_wf st'; rt.more st' = rt.more st;
      tree_over self C0 (Object (ms @ [(key, v)])) n A' st';
      mem b (4 * length (skip_whitespace (tl (skip_whitespace q'))) + k + 1) D st'\<rbrakk>
      \<Longrightarrow> parses self b k D C0 (rt.more st) (ref_members (ms @ [(key, v)]) (skip_whitespace (tl (skip_whitespace q'))))
            (parse_members self n (skip_whitespace (tl (skip_whitespace q'))) st')"
  shows "parses self b k D C0 (rt.more st) (ref_members ms p) (parse_members self n p (st :: 'x rt_scheme))"
proof -
  have m': "mem b (Suc (4 * length p + k)) D st" using m by simp
  show ?thesis
    using wf tree m' D(2,3)
  proof (cases rule: key_mem)
    case (null q s1)
    then show ?thesis
      by (auto simp: parse_members.simps [of self n p st] ref_members.simps [of ms p] intro!: parses_null)
  next
    case (key kp q s1 key c)
    have mq: "mem b (4 * length q + k + 9) D s1" using key(10) by (rule mem_less) (use key(9) in simp)
    then have "mem b (4 * length q + k) D s1" by (rule mem_less) simp
    from V [OF key(5,3) this] show ?thesis
    proof (cases rule: parsesE)
      case (null q' s2)
      obtain m y where "cell_at s2 kp = Some (m, y)" "free_ok self m" using key(6) null(4) by (auto simp: cstring_def)
      then obtain s3 where s3: "owner_free self kp s2 = Inr s3" "rt_wf s3" "rt.more s3 = rt.more s2"
        "cell_at s3 = (cell_at s2)(kp := None)" by (rule heap.release_obtain [OF null(2)])
      have "cell_at s3 = cell_at st" using s3(4) null(4) key(7,8) by auto
      from tree_over_cells [OF tree this] obtain s4 where
        "json_free self n s3 = Inr s4" "rt_wf s4" "rt.more s4 = rt.more s3" "cell_at s4 = C0"
        by (rule free_tree [OF s3(2)])
      then show ?thesis using key(1,2,4,5) null(1,3,5) s3
        by (auto simp: parse_members.simps [of self n p st] ref_members.simps [of ms p] intro!: parses_null)
    next
      case (tree x q' s2 v B)
      note three = member_trees [OF assms(2) key(7,8,6) tree(6)]
      have "n \<noteq> 0" using jrep_dom(1) [OF three(1)] cell_at_zero [of s2] by (auto simp: dom_def)
      have m2: "mem b (Suc (Suc (4 * length q' + k))) D s2" using tree(7) by simp
      have "b \<or> length ms < 4" by (rule narrow [OF key(5) tree(5)])
      with tree(3) three(1,5,2,4,3) m2 D(1,3) show ?thesis
      proof (cases rule: object_add_mem)
        case (null s3)
        then show ?thesis using key(1,2,4) tree(1,2,4) three(6)
          by (auto simp: parse_members.simps [of self n p st] intro!: parses_null)
      next
        case (added s3 A')
        have over: "tree_over self C0 (Object (ms @ [(key, v)])) n A' s3" using added(4) three(6) by simp
        have more: "rt.more s3 = rt.more st" using added(3) tree(4) key(4) by simp
        let ?q = "skip_whitespace (tl (skip_whitespace q'))"
        have "at (skip_whitespace q') CHR '','' \<longrightarrow> mem b (4 * length ?q + k + 1) D s3 \<longrightarrow>
            parses self b k D C0 (rt.more s3) (ref_members (ms @ [(key, v)]) ?q) (parse_members self n ?q s3)"
          using continue [OF key(5) tree(5) _ added(2) more over] more by simp
        note close = close_step [OF added(2) over \<open>n \<noteq> 0\<close> added(5) this, where c = "CHR ''}''"]
        show ?thesis using close key(2) tree(2) added(1) more
          by (simp add: parse_members.simps [of self n p st] ref_members.simps [of ms p] key(1,5) tree(1,5) Let_def)
      qed
    qed
  qed
qed

subsection \<open>The parser\<close>

lemma array_start:
  assumes "rt_wf st" and "at p CHR ''[''" and "mem b (4 * length p + k) D st" and "120 \<le> D" and "D < 2 ^ 64"
    and items: "\<And>n st'. \<lbrakk>\<not> at (skip_whitespace (tl p)) CHR '']''; rt_wf st'; rt.more st' = rt.more st;
      tree_over self (cell_at st) (Array []) n {n} st'; mem b (4 * length (skip_whitespace (tl p)) + k) D st'\<rbrakk>
      \<Longrightarrow> parses self b k D (cell_at st) (rt.more st) (ref_items [] (skip_whitespace (tl p)))
            (parse_items self n (skip_whitespace (tl p)) st')"
  shows "parses self b k D (cell_at st) (rt.more st)
    (if at (skip_whitespace (tl p)) CHR '']'' then (Some (Array []), tl (skip_whitespace (tl p)))
     else ref_items [] (skip_whitespace (tl p))) (parse_array self p st)"
proof -
  let ?q = "skip_whitespace (tl p)"
  have len: "4 * length ?q + k + 3 < 4 * length p + k" using length_tl_at [OF assms(2)] length_skip [of "tl p"] by linarith
  have "mem b (Suc (4 * length ?q + k + 2)) D st" using assms(3) by (rule mem_less) (use len in simp)
  from assms(1) this assms(4,5) show ?thesis
  proof (cases rule: create_node_mem [where self = self and ty = JSON_ARRAY])
    case (null s1)
    then show ?thesis using assms(2) by (simp add: parse_array.simps [of self p st] parses_null)
  next
    case (node n s1)
    have "node_at self (cell_at s1) n (JArray 0 0 0)" using node(6) by (simp add: node_at_def)
    then have over: "tree_over self (cell_at st) (Array []) n {n} s1"
      using over_new [OF node(6,5)] by (intro tree_overI jrep_jreps.empty_array)
    show ?thesis
    proof (cases "at ?q CHR '']''")
      case True
      have "mem b (4 * length (tl ?q) + k + 2) D s1" using node(7) by (rule mem_less) simp
      then have "parses self b k D (cell_at st) (rt.more st) (Some (Array []), tl ?q) (Inr (n, tl ?q, s1))"
        by (rule parses_tree [OF node(3,4,2) refl over])
      then show ?thesis using True node(1,2) assms(2) by (simp add: parse_array.simps [of self p st])
    next
      case False
      have "mem b (4 * length ?q + k) D s1" using node(7) by (rule mem_less) simp
      from items [OF False node(3,4) over this] show ?thesis
        using False node(1,2) assms(2) by (simp add: parse_array.simps [of self p st])
    qed
  qed
qed

lemma object_start:
  assumes "rt_wf st" and "at p CHR ''{''" and "mem b (4 * length p + k) D st" and "120 \<le> D" and "D < 2 ^ 64"
    and members: "\<And>n st'. \<lbrakk>\<not> at (skip_whitespace (tl p)) CHR ''}''; rt_wf st'; rt.more st' = rt.more st;
      tree_over self (cell_at st) (Object []) n {n} st'; mem b (4 * length (skip_whitespace (tl p)) + k + 1) D st'\<rbrakk>
      \<Longrightarrow> parses self b k D (cell_at st) (rt.more st) (ref_members [] (skip_whitespace (tl p)))
            (parse_members self n (skip_whitespace (tl p)) st')"
  shows "parses self b k D (cell_at st) (rt.more st)
    (if at (skip_whitespace (tl p)) CHR ''}'' then (Some (Object []), tl (skip_whitespace (tl p)))
     else ref_members [] (skip_whitespace (tl p))) (parse_object self p st)"
proof -
  let ?q = "skip_whitespace (tl p)"
  have len: "4 * length ?q + k + 3 < 4 * length p + k" using length_tl_at [OF assms(2)] length_skip [of "tl p"] by linarith
  have "mem b (Suc (4 * length ?q + k + 2)) D st" using assms(3) by (rule mem_less) (use len in simp)
  from assms(1) this assms(4,5) show ?thesis
  proof (cases rule: create_node_mem [where self = self and ty = JSON_OBJECT])
    case (null s1)
    then show ?thesis using assms(2) by (simp add: parse_object.simps [of self p st] parses_null)
  next
    case (node n s1)
    have "node_at self (cell_at s1) n (JObject 0 0 0 0)" using node(6) by (simp add: node_at_def)
    then have over: "tree_over self (cell_at st) (Object []) n {n} s1"
      using over_new [OF node(6,5)] by (intro tree_overI jrep_jreps.empty_object)
    show ?thesis
    proof (cases "at ?q CHR ''}''")
      case True
      have "mem b (4 * length (tl ?q) + k + 2) D s1" using node(7) by (rule mem_less) simp
      then have "parses self b k D (cell_at st) (rt.more st) (Some (Object []), tl ?q) (Inr (n, tl ?q, s1))"
        by (rule parses_tree [OF node(3,4,2) refl over])
      then show ?thesis using True node(1,2) assms(2) by (simp add: parse_object.simps [of self p st])
    next
      case False
      have "mem b (4 * length ?q + k + 1) D s1" using node(7) by (rule mem_less) simp
      from members [OF False node(3,4) over this] show ?thesis
        using False node(1,2) assms(2) by (simp add: parse_object.simps [of self p st])
    qed
  qed
qed

lemma parser_parses:
  fixes st :: "'x rt_scheme"
  assumes N: "16 * N + 144 \<le> D" "D < 2 ^ 64"
  shows "rt_wf st \<Longrightarrow> length s \<le> N \<Longrightarrow> b \<or> narrow_value s \<Longrightarrow> mem b (4 * length s + k) D st \<Longrightarrow>
      parses self b k D (cell_at st) (rt.more st) (ref_value s) (parse_value self s st)"
    and "rt_wf st \<Longrightarrow> tree_over self C0 (Array vs) n A st \<Longrightarrow> length vs + length p \<le> N \<Longrightarrow> b \<or> narrow_items p \<Longrightarrow>
      mem b (4 * length p + k) D st \<Longrightarrow>
      parses self b k D C0 (rt.more st) (ref_items vs p) (parse_items self n p st)"
    and "rt_wf st \<Longrightarrow> tree_over self C0 (Object ms) n A st \<Longrightarrow> length ms + length p \<le> N \<Longrightarrow>
      b \<or> narrow_members (length ms) p \<Longrightarrow>
      mem b (4 * length p + k + 1) D st \<Longrightarrow>
      parses self b k D C0 (rt.more st) (ref_members ms p) (parse_members self n p st)"
proof (induction s and vs p and ms p arbitrary: st and st C0 n A and st C0 n A
    rule: ref_value_ref_items_ref_members.induct)
  case (1 s)
  define p where "p = skip_whitespace s"
  have p: "suffix p s" "length p \<le> length s" unfolding p_def by (rule suffix_skip length_skip)+
  have m: "mem b (4 * length p + k) D st" using 1(6) by (rule mem_less) (use p in simp)
  have D: "120 \<le> D" "length p + 120 \<le> D" using N 1(4) p by simp_all
  have q: "length (skip_whitespace (tl p)) \<le> N" using length_skip_tl [of p] p(2) 1(4) by simp
  note nar = narrow_value.simps [of s] p_def [symmetric]
  note run = parse_value.simps [of self s st] ref_value.simps [of s] p_def [symmetric]
  consider (empty) "p = []" | (array) "p \<noteq> []" "at p CHR ''[''" | (object) "p \<noteq> []" "\<not> at p CHR ''[''" "at p CHR ''{''"
    | (scalar) "p \<noteq> []" "\<not> at p CHR ''[''" "\<not> at p CHR ''{''" by blast
  then show ?case
  proof cases
    case empty
    then show ?thesis using 1(3) by (simp add: run parses_null)
  next
    case array
    note ih = 1(1) [OF p_def array refl]
    have items: "parses self b k D (cell_at st) (rt.more st) (ref_items [] (skip_whitespace (tl p)))
        (parse_items self n (skip_whitespace (tl p)) st')"
      if "\<not> at (skip_whitespace (tl p)) CHR '']''" "rt_wf st'" "rt.more st' = rt.more st"
        "tree_over self (cell_at st) (Array []) n {n} st'" "mem b (4 * length (skip_whitespace (tl p)) + k) D st'" for n st'
      using ih [OF that(1,2,4) _ _ that(5)] q that(1,3) 1(5) array by (simp add: nar)
    have "?thesis = parses self b k D (cell_at st) (rt.more st)
        (if at (skip_whitespace (tl p)) CHR '']'' then (Some (Array []), tl (skip_whitespace (tl p)))
         else ref_items [] (skip_whitespace (tl p))) (parse_array self p st)"
      using array by (simp add: run)
    then show ?thesis using array_start [OF 1(3) array(2) m D(1) N(2)] items by blast
  next
    case object
    note ih = 1(2) [OF p_def object refl]
    have members: "parses self b k D (cell_at st) (rt.more st) (ref_members [] (skip_whitespace (tl p)))
        (parse_members self n (skip_whitespace (tl p)) st')"
      if "\<not> at (skip_whitespace (tl p)) CHR ''}''" "rt_wf st'" "rt.more st' = rt.more st"
        "tree_over self (cell_at st) (Object []) n {n} st'" "mem b (4 * length (skip_whitespace (tl p)) + k + 1) D st'" for n st'
      using ih [OF that(1,2,4) _ _ that(5)] q that(1,3) 1(5) object by (simp add: nar)
    have "?thesis = parses self b k D (cell_at st) (rt.more st)
        (if at (skip_whitespace (tl p)) CHR ''}'' then (Some (Object []), tl (skip_whitespace (tl p)))
         else ref_members [] (skip_whitespace (tl p))) (parse_object self p st)"
      using object by (simp add: run)
    then show ?thesis using object_start [OF 1(3) object(3) m D(1) N(2)] members by blast
  next
    case scalar
    then show ?thesis using scalar_parses [OF 1(3) m D(2) N(2)] by (simp add: run)
  qed
next
  case (2 vs p)
  have n: "16 * length vs + 144 \<le> D" "length p \<le> N" using 2(5) N by simp_all
  have "b \<or> narrow_value p" using 2(6) by (auto simp: narrow_items.simps [of p] split: if_splits)
  note V = 2(1) [OF 2(3) n(2) this 2(7)]
  show ?case
  proof (rule items_step [OF 2(3,4) n(1) N(2) V])
    fix v q A' st'
    let ?q = "skip_whitespace (tl (skip_whitespace q))"
    assume a: "ref_value p = (Some v, q)" "at (skip_whitespace q) CHR '',''" "rt_wf st'" "rt.more st' = rt.more st"
      "tree_over self C0 (Array (vs @ [v])) n A' st'" "mem b (4 * length ?q + k + 1) D st'"
    note next_item = next_position [OF a(2), of p]
    have q: "suffix q p" using suffix_ref(1) [of p] a(1) by simp
    have nar: "b \<or> narrow_items ?q" using 2(6) a(1,2) by (auto simp: narrow_items.simps [of p] split: if_splits)
    have ih: "length (vs @ [v]) + length ?q \<le> N \<Longrightarrow> b \<or> narrow_items ?q \<Longrightarrow> mem b (4 * length ?q + k) D st' \<Longrightarrow>
      parses self b k D C0 (rt.more st') (ref_items (vs @ [v]) ?q) (parse_items self n ?q st')"
      by (rule 2(2) [OF a(1) [symmetric] refl refl _ a(2,3,5)]) (use a(2) in \<open>auto simp: at_def\<close>)
    show "parses self b k D C0 (rt.more st) (ref_items (vs @ [v]) ?q) (parse_items self n ?q st')"
      using ih next_item [OF q] mem_less [OF a(6)] nar 2(5) a(4) by simp
  qed
next
  case (3 ms p)
  have n: "16 * length ms + 144 \<le> D" "length p + 81 \<le> D" "length p \<le> N" using 3(5) N by simp_all
  show ?case
  proof (rule members_step [OF 3(3,4) n(1,2) N(2) 3(7)])
    fix key q v q'
    assume "ref_key p = (Some key, q)" "ref_value q = (Some v, q')"
    then show "b \<or> length ms < 4" using 3(6) by (auto simp: narrow_members.simps [of _ p] split: if_splits)
  next
    fix key q and st' :: "'x rt_scheme"
    assume a: "ref_key p = (Some key, q)" "rt_wf st'" "mem b (4 * length q + k) D st'"
    have "suffix q p" "b \<or> narrow_value q"
      using suffix_ref_key [OF a(1)] 3(6) a(1) by (auto simp: narrow_members.simps [of _ p] split: if_splits)
    then show "parses self b k D (cell_at st') (rt.more st') (ref_value q) (parse_value self q st')"
      using 3(1) [OF a(1) [symmetric] refl a(2) _ _ a(3)] n(3) suffix_length_le by (metis order_trans)
  next
    fix key q v q' A' and st' :: "'x rt_scheme"
    let ?q = "skip_whitespace (tl (skip_whitespace q'))"
    assume a: "ref_key p = (Some key, q)" "ref_value q = (Some v, q')" "at (skip_whitespace q') CHR '',''" "rt_wf st'"
      "rt.more st' = rt.more st" "tree_over self C0 (Object (ms @ [(key, v)])) n A' st'" "mem b (4 * length ?q + k + 1) D st'"
    have q: "suffix q' q" "suffix q p" using suffix_ref(1) [of q] a(2) suffix_ref_key [OF a(1)] by simp_all
    note next_member = next_position [OF a(3)]
    have "b \<or> narrow_members (length (ms @ [(key, v)])) ?q"
      using 3(6) a(1-3) by (auto simp: narrow_members.simps [of _ p] split: if_splits)
    moreover have "length (ms @ [(key, v)]) + length ?q \<le> N"
      using next_member(2) [OF q(1)] suffix_length_le [OF q(2)] 3(5) by simp
    moreover have ih: "length (ms @ [(key, v)]) + length ?q \<le> N \<Longrightarrow> b \<or> narrow_members (length (ms @ [(key, v)])) ?q \<Longrightarrow>
      mem b (4 * length ?q + k + 1) D st' \<Longrightarrow>
      parses self b k D C0 (rt.more st') (ref_members (ms @ [(key, v)]) ?q) (parse_members self n ?q st')"
      by (rule 3(2) [OF a(1) [symmetric] refl a(2) [symmetric] refl refl _ a(3,4,6)]) (use a(3) in \<open>auto simp: at_def\<close>)
    ultimately show "parses self b k D C0 (rt.more st) (ref_members (ms @ [(key, v)]) ?q) (parse_members self n ?q st')"
      using a(5,7) by simp
  qed
qed

end
