(* ===== verification/JsonSpec.thy ===== *)
theory JsonSpec
  imports JsonParse
begin

text \<open>
  What the JSON library promises: the parser against the reference parser and against the grammar, with enough memory
  and with any memory, the release of trees and the accessors.
\<close>

subsection \<open>Parsing a text\<close>

definition parsed_as :: "tid \<Rightarrow> cells \<Rightarrow> json \<Rightarrow> addr \<Rightarrow> 'x rt_scheme \<Rightarrow> bool" where
  "parsed_as self C0 v root st \<longleftrightarrow>
     (\<exists>A. jrep self (cell_at st) v root A \<and> A \<inter> dom C0 = {} \<and> cell_at st |` (- A) = C0)"

lemma json_parse_mem:
  assumes "rt_wf st" and "b \<or> narrow_value s" and "mem b (4 * length s) (16 * length s + 144) st" and "16 * length s + 144 < 2 ^ 64"
  obtains (null) q st' where "json_parse self s st = Inr (0, Some q, st')" and "rt_wf st'" and "rt.more st' = rt.more st"
      and "cell_at st' = cell_at st" and "b \<longrightarrow> ref_parse s = (None, q)"
  | (tree) root v st' where "json_parse self s st = Inr (root, None, st')" and "root \<noteq> 0" and "rt_wf st'"
      and "rt.more st' = rt.more st" and "ref_parse s = (Some v, [])" and "parsed_as self (cell_at st) v root st'"
proof -
  have "mem b (4 * length s + 0) (16 * length s + 144) st" using assms(3) by simp
  from parser_parses(1) [OF order_refl assms(4,1) order_refl assms(2) this]
  have "parses self b 0 (16 * length s + 144) (cell_at st) (rt.more st) (ref_value s) (parse_value self s st)" .
  then show thesis
  proof (cases rule: parsesE)
    case (null q s1)
    then show ?thesis using that(1) [of "skip_whitespace q" s1] by (simp add: json_parse_def ref_parse_def)
  next
    case (tree n q s1 v A)
    show ?thesis
    proof (cases "skip_whitespace q = []")
      case True
      then show ?thesis using that(2) [of n s1 v] tree by (auto simp: json_parse_def ref_parse_def tree_over_def parsed_as_def)
    next
      case False
      obtain s2 where "json_free self n s1 = Inr s2" "rt_wf s2" "rt.more s2 = rt.more s1" "cell_at s2 = cell_at st"
        by (rule free_tree [OF tree(3,6)])
      then show ?thesis using that(1) [of "skip_whitespace q" s2] tree False
        by (simp add: json_parse_def ref_parse_def)
    qed
  qed
qed

lemma json_parse_room:
  assumes "rt_wf st" and "room (4 * length s) (16 * length s + 144) st"
  obtains (null) q st' where "json_parse self s st = Inr (0, Some q, st')" and "rt_wf st'" and "rt.more st' = rt.more st"
      and "cell_at st' = cell_at st" and "ref_parse s = (None, q)"
  | (tree) root v st' where "json_parse self s st = Inr (root, None, st')" and "root \<noteq> 0" and "rt_wf st'"
      and "rt.more st' = rt.more st" and "ref_parse s = (Some v, [])" and "parsed_as self (cell_at st) v root st'"
proof -
  have D: "16 * length s + 144 < 2 ^ 64"
  proof (cases s)
    case (Cons c cs)
    then have "room (Suc (4 * length cs + 3)) (16 * length s + 144) st" using assms(2) by (simp add: add.commute)
    then show ?thesis by (rule room_bound)
  qed simp
  have "True \<or> narrow_value s" "mem True (4 * length s) (16 * length s + 144) st" using assms(2) by (simp_all add: mem_def)
  from assms(1) this D show thesis
  proof (cases rule: json_parse_mem [where self = self])
    case (null q st')
    then show ?thesis using that(1) by simp
  next
    case tree
    then show ?thesis by (rule that(2))
  qed
qed

lemma json_free_parsed:
  assumes "rt_wf st" and "parsed_as self C0 v root st"
  obtains st' where "json_free_cleanup self root st = Inr st'" and "rt_wf st'" and "rt.more st' = rt.more st"
    and "cell_at st' = C0"
proof -
  obtain A where A: "jrep self (cell_at st) v root A" "cell_at st |` (- A) = C0" using assms(2) by (auto simp: parsed_as_def)
  have "root \<noteq> 0" by (rule jrep_field [OF assms(1) A(1)])
  moreover obtain st' where "json_free self root st = Inr st'" "rt_wf st'" "rt.more st' = rt.more st" "cell_at st' = C0"
    by (rule json_free_rep [OF assms(1) A(1)]) (use A(2) in simp)
  ultimately show thesis using that by (simp add: json_free_cleanup_def)
qed

subsection \<open>Evaluation\<close>

lemma bindE_weak: "m = m' \<Longrightarrow> bindE m f = bindE m' f"
  by simp

lemma bindD_weak: "m = m' \<Longrightarrow> bindD m f = bindD m' f"
  by simp

lemmas json_eval = json_parse_def parse_value.simps parse_object.simps parse_members.simps parse_array.simps
  parse_items.simps parse_key_def parse_scalar_def parse_null_def parse_bool_def parse_number_def parse_raw_string_def
  parse_string_def at_def skip_whitespace_def isspace_def create_node_def object_add_def array_add_def new_capacity_def
  field_def json_free_def json_free_rec.simps returned_def Let_def memcpy_def store_byte_def
  usable_def cstr_byte_def load_slot_def store_slot_def word_le_nat_alt word_less_nat_alt upt_rec

subsection \<open>An example\<close>

definition json_start :: rt where
  "json_start = rt_init (map (\<lambda>i. of_nat (0x1000 * Suc i)) [0..<80]) 1 2 3"

definition json_example :: string where
  "json_example = ''{\"k\": [true, 12]}''"

definition json_example_value :: json where
  "json_example_value = Object [(''k'', Array [Bool True, Number ''12''])]"

lemma json_start_wf: "rt_wf json_start"
  unfolding json_start_def by (rule rt_wf_init)

lemma json_start_room: "k \<le> 80 \<Longrightarrow> D \<le> 0x1000 \<Longrightarrow> 0 < D \<Longrightarrow> room k D json_start"
  by (rule room_spaced [where g = "0x1000" and n = 80]) (simp_all add: json_start_def rt_init_def)

lemma json_example_ref: "ref_parse json_example = (Some json_example_value, [])"
  by code_simp

lemma json_example_narrow: "narrow_value json_example"
  by code_simp

lemma json_example_room: "room (4 * length json_example) (16 * length json_example + 144) json_start"
  by (rule json_start_room) (simp_all add: json_example_def)

lemma json_example_parsed:
  obtains root st A where "json_parse 2 json_example json_start = Inr (root, None, st)" and "rt_wf st"
    and "parsed_as 2 (cell_at json_start) json_example_value root st"
  using json_start_wf json_example_room
proof (cases rule: json_parse_room [where self = 2])
  case (null q st')
  then show thesis using json_example_ref by simp
next
  case (tree root v st')
  then show thesis using json_example_ref that by simp
qed

subsection \<open>Properties\<close>

text \<open>C22: with enough memory the parser returns a tree for the value the reference parser reads, in new objects that are
  beside those that were there; if the text is not well formed it returns null, stores the position where reading
  stopped and leaves no object behind.\<close>

theorem json_parse_correct:
  assumes "rt_wf st" and "room (4 * length s) (16 * length s + 144) st"
  shows "\<exists>root e st'. json_parse self s st = Inr (root, e, st') \<and> rt_wf st' \<and>
    (case ref_parse s of
       (Some v, _) \<Rightarrow> root \<noteq> 0 \<and> e = None \<and> parsed_as self (cell_at st) v root st'
     | (None, q) \<Rightarrow> root = 0 \<and> e = Some q \<and> cell_at st' = cell_at st)"
  using assms
proof (cases rule: json_parse_room [where self = self])
  case (null q st')
  then show ?thesis by simp
next
  case (tree root v st')
  then show ?thesis by simp
qed

theorem json_parse_correct_witness:
  "\<exists>root st. json_parse 2 json_example json_start = Inr (root, None, st) \<and>
     parsed_as 2 (cell_at json_start) json_example_value root st"
  using json_parse_correct [OF json_start_wf json_example_room, of 2] json_example_ref by auto

text \<open>C23: however much memory there is, parsing a text in which no object that is read has more than four members (so that
  none grows a second time) returns: a tree for the value of the text, or null, and then every object is as it was.\<close>

theorem json_parse_any_memory:
  assumes "rt_wf st" and "narrow_value s" and "16 * length s + 144 < 2 ^ 64"
  shows "\<exists>root e st'. json_parse self s st = Inr (root, e, st') \<and> rt_wf st' \<and>
    (if root = 0 then e \<noteq> None \<and> cell_at st' = cell_at st
     else e = None \<and> (\<exists>v. ref_parse s = (Some v, []) \<and> parsed_as self (cell_at st) v root st'))"
proof -
  have "False \<or> narrow_value s" "mem False (4 * length s) (16 * length s + 144) st" using assms(2) by (simp_all add: mem_def)
  from assms(1) this assms(3) show ?thesis
  proof (cases rule: json_parse_mem [where self = self])
    case (null q st')
    then show ?thesis by simp
  next
    case (tree root v st')
    then show ?thesis by simp
  qed
qed

theorem json_parse_any_memory_witness:
  "\<exists>root e st'. json_parse 2 json_example (rt_init [0x1000, 0x2000, 0] 1 2 3) = Inr (root, e, st') \<and> rt_wf st' \<and>
    (if root = 0 then e \<noteq> None \<and> cell_at st' = cell_at (rt_init [0x1000, 0x2000, 0] 1 2 3)
     else e = None \<and> (\<exists>v. ref_parse json_example = (Some v, []) \<and>
       parsed_as 2 (cell_at (rt_init [0x1000, 0x2000, 0] 1 2 3)) v root st'))"
  by (rule json_parse_any_memory [OF rt_wf_init json_example_narrow]) (simp add: json_example_def)

text \<open>C24: every text of the grammar of RFC 8259 is parsed to a tree for its value, and releasing that tree gives the
  objects back as they were before.\<close>

theorem json_roundtrip:
  assumes "json_text v s" and "rt_wf st" and "room (4 * length s) (16 * length s + 144) st"
  shows "\<exists>root st1 st2. json_parse self s st = Inr (root, None, st1) \<and> parsed_as self (cell_at st) v root st1 \<and>
    json_free_cleanup self root st1 = Inr st2 \<and> rt_wf st2 \<and> cell_at st2 = cell_at st"
  using assms(2,3)
proof (cases rule: json_parse_room [where self = self])
  case (null q st')
  then show ?thesis using ref_parse_grammar [OF assms(1)] by simp
next
  case (tree root u st1)
  have "u = v" using tree(5) ref_parse_grammar [OF assms(1)] by simp
  moreover obtain st2 where "json_free_cleanup self root st1 = Inr st2" "rt_wf st2" "cell_at st2 = cell_at st"
    by (rule json_free_parsed [OF tree(3,6)])
  ultimately show ?thesis using tree(1,6) by blast
qed

theorem json_roundtrip_witness:
  "\<exists>root st1 st2. json_parse 2 ''[true]'' json_start = Inr (root, None, st1) \<and>
     parsed_as 2 (cell_at json_start) (Array [Bool True]) root st1 \<and>
     json_free_cleanup 2 root st1 = Inr st2 \<and> rt_wf st2 \<and> cell_at st2 = cell_at json_start"
proof -
  have w: "ws []" by (simp add: ws_def)
  have "json_items [Bool True] ''true''" using json_value_json_items_json_members.item [OF w json_value_json_items_json_members.true w] by simp
  then have "json_value (Array [Bool True]) ''[true]''" using json_value_json_items_json_members.array by fastforce
  then have "json_text (Array [Bool True]) ''[true]''" using json_text.intros [OF w _ w] by fastforce
  moreover have "room (4 * length ''[true]'') (16 * length ''[true]'' + 144) json_start" by (rule json_start_room) simp_all
  ultimately show ?thesis by (rule json_roundtrip [OF _ json_start_wf])
qed

text \<open>C25: releasing a tree (or leaving the scope of its \<open>OWNED_JSON\<close> variable) ends, releases every node,
  string and buffer of the tree exactly once, and leaves every other object as it is.\<close>

theorem json_free_exact:
  assumes "rt_wf st" and "jrep self (cell_at st) v n A"
  shows "\<exists>st'. json_free_cleanup self n st = Inr st' \<and> rt_wf st' \<and> cell_at st' = cell_at st |` (- A)"
proof -
  have "n \<noteq> 0" by (rule jrep_field [OF assms])
  moreover obtain st' where "json_free self n st = Inr st'" "rt_wf st'" "cell_at st' = cell_at st |` (- A)"
    by (rule json_free_rep [OF assms])
  ultimately show ?thesis by (simp add: json_free_cleanup_def)
qed

theorem json_free_exact_witness:
  "\<exists>root st st'. json_parse 2 json_example json_start = Inr (root, None, st) \<and>
     json_free_cleanup 2 root st = Inr st' \<and> cell_at st' = cell_at json_start"
proof -
  obtain root st where r: "json_parse 2 json_example json_start = Inr (root, None, st)" "rt_wf st"
    "parsed_as 2 (cell_at json_start) json_example_value root st" by (rule json_example_parsed)
  then obtain A where "jrep 2 (cell_at st) json_example_value root A" "cell_at st |` (- A) = cell_at json_start"
    by (auto simp: parsed_as_def)
  with json_free_exact [OF r(2) this(1)] r(1) show ?thesis by auto
qed

text \<open>C26: the accessors on a tree that represents \<open>v\<close>: the item of an array (null past its end), the first member
  of an object with the key (null if there is none), and the string, number and truth value of a node of
  that type; on a node of another type null, zero and false.  The pointers are parts of the tree that represent
  that part of \<open>v\<close>.\<close>

theorem json_access:
  assumes "rt_wf st" and "jrep self (cell_at st) v n A" and "no_nul v" and "CHR 0x00 \<notin> set key"
  shows "(\<exists>x. json_get_array_item n i st = Inr x \<and> points self (cell_at st) A x (json_item v (unat i))) \<and>
    (\<exists>x. json_get_object_item n key st = Inr x \<and> points self (cell_at st) A x (json_member v key)) \<and>
    (\<exists>x. json_get_string n st = Inr x \<and> (case v of String s \<Rightarrow> cstring self (cell_at st) x s | _ \<Rightarrow> x = 0)) \<and>
    json_get_number n st = Inr (case v of Number s \<Rightarrow> s | _ \<Rightarrow> ''0'') \<and>
    json_get_bool n st = Inr (case v of Bool b \<Rightarrow> if b then 1 else 0 | _ \<Rightarrow> 0)"
  using array_item_rep [OF assms(1,2)] object_item_rep [OF assms] scalar_rep [OF assms(1,2)] by simp

theorem json_access_witness:
  "\<exists>root st A x. json_parse 2 json_example json_start = Inr (root, None, st) \<and>
     json_get_object_item root ''k'' st = Inr x \<and>
     points 2 (cell_at st) A x (Some (Array [Bool True, Number ''12''])) \<and> json_get_number root st = Inr ''0''"
proof -
  obtain root st where r: "json_parse 2 json_example json_start = Inr (root, None, st)" "rt_wf st"
    "parsed_as 2 (cell_at json_start) json_example_value root st" by (rule json_example_parsed)
  then obtain A where A: "jrep 2 (cell_at st) json_example_value root A" by (auto simp: parsed_as_def)
  have "no_nul json_example_value" "CHR 0x00 \<notin> set ''k''"
    "json_member json_example_value ''k'' = Some (Array [Bool True, Number ''12''])"
    by (simp_all add: json_example_value_def json_member_def)
  with json_access [OF r(2) A, of "''k''" 0] r(1) show ?thesis by (auto simp: json_example_value_def)
qed

text \<open>When an object that is full gets another member and only one of its two buffers can grow, the clean-up
  reads a buffer that has been released: here the growth of the values fails for the fifth member.\<close>

theorem json_parse_use_after_free:
  "\<exists>x. json_parse 2 ''{\"\":null,\"\":null,\"\":null,\"\":null,\"\":null}''
     (rt_init [0x1000, 0x2000, 0x3000, 0x4000, 0x5000, 0x6000, 0x7000, 0x8000, 0x9000, 0xa000, 0xb000, 0xc000, 0xd000, 0xe000, 0] 1 2 3) = Inl (Undefined x)"
  by (simp add: json_eval rt_eval cong: bindE_weak bindD_weak)

end
