(* ===== verification/SmartPtr.thy ===== *)
theory SmartPtr
  imports Handover
begin

text \<open>
  The C++ wrapper of \<open>include/ownedc.hpp\<close>: \<open>owned_ptr\<close> and \<open>borrowed_ptr\<close> are the pointers they hold, their
  constructors, assignments and destructors are functions on those pointers and the runtime state.  The class \<open>T\<close>
  is a parameter: its size, its constructor and its destructor.  A program is a sequence of such operations on
  variables.
\<close>

subsection \<open>The classes\<close>

type_synonym 'x special = "addr \<Rightarrow> 'x rt_scheme \<Rightarrow> failure + 'x rt_scheme"

definition make_owned :: "'x special \<Rightarrow> tid \<Rightarrow> size_t \<Rightarrow> 'x rt_scheme \<Rightarrow> failure + (addr \<times> 'x rt_scheme)" where
  "make_owned ctor self n st =
     bindE (owner_malloc self n st) (\<lambda>(raw, st).
     bindE (if raw \<noteq> 0 then ctor raw st else Inr st) (\<lambda>st. Inr (raw, st)))"

text \<open>Moving: the new value of the pointer, and what is left in the other one.\<close>

definition move_construct :: "addr \<Rightarrow> addr \<times> addr" where
  "move_construct other = (other, 0)"

definition move_assign ::
    "tid \<Rightarrow> bool \<Rightarrow> addr \<Rightarrow> addr \<Rightarrow> 'x rt_scheme \<Rightarrow> failure + (addr \<times> addr \<times> 'x rt_scheme)" where
  "move_assign self same this other st =
     (if same then Inr (this, other, st)
      else bindE (if this \<noteq> 0 then owner_free self this st else Inr st) (\<lambda>st. Inr (other, 0, st)))"

definition destroy_owned :: "'x special \<Rightarrow> tid \<Rightarrow> addr \<Rightarrow> 'x rt_scheme \<Rightarrow> failure + 'x rt_scheme" where
  "destroy_owned dtor self p st = (if p \<noteq> 0 then bindE (dtor p st) (owner_free self p) else Inr st)"

definition release_owned :: "addr \<Rightarrow> addr \<times> addr" where
  "release_owned p = (p, 0)"

definition borrow_init :: "tid \<Rightarrow> addr \<Rightarrow> 'x rt_scheme \<Rightarrow> failure + (addr \<times> 'x rt_scheme)" where
  "borrow_init self p st = bindE (if p \<noteq> 0 then ownership_borrow self p st else Inr st) (\<lambda>st. Inr (p, st))"

definition borrow_assign ::
    "tid \<Rightarrow> bool \<Rightarrow> addr \<Rightarrow> addr \<Rightarrow> 'x rt_scheme \<Rightarrow> failure + (addr \<times> 'x rt_scheme)" where
  "borrow_assign self same this other st =
     (if same then Inr (this, st)
      else bindE (if this \<noteq> 0 then ownership_release this st else Inr st) (\<lambda>st.
           bindE (if other \<noteq> 0 then ownership_borrow self other st else Inr st) (\<lambda>st. Inr (other, st))))"

definition destroy_borrowed :: "addr \<Rightarrow> 'x rt_scheme \<Rightarrow> failure + 'x rt_scheme" where
  "destroy_borrowed p st = (if p \<noteq> 0 then ownership_release p st else Inr st)"

subsection \<open>Programs\<close>

datatype cpp_op =
    Make nat | Adopt nat | MoveNew nat nat | MoveAssign nat nat | Release nat | Destroy nat
  | Borrow nat nat | BorrowCopy nat nat | BorrowAssign nat nat | EndBorrow nat

text \<open>The variables of either class in scope, and the raw pointers that \<open>release\<close> returned.\<close>

record scope =
  owned :: "nat \<rightharpoonup> addr"
  borrowed :: "nat \<rightharpoonup> addr"
  raws :: "addr list"

definition empty_scope :: scope where
  "empty_scope = \<lparr>owned = (\<lambda>_. None), borrowed = (\<lambda>_. None), raws = []\<rparr>"

fun scoped :: "scope \<Rightarrow> cpp_op \<Rightarrow> bool" where
  "scoped sc (Make x) \<longleftrightarrow> owned sc x = None"
| "scoped sc (Adopt x) \<longleftrightarrow> owned sc x = None \<and> raws sc \<noteq> []"
| "scoped sc (MoveNew x y) \<longleftrightarrow> owned sc x = None \<and> owned sc y \<noteq> None"
| "scoped sc (MoveAssign x y) \<longleftrightarrow> owned sc x \<noteq> None \<and> owned sc y \<noteq> None"
| "scoped sc (Release x) \<longleftrightarrow> owned sc x \<noteq> None"
| "scoped sc (Destroy x) \<longleftrightarrow> owned sc x \<noteq> None"
| "scoped sc (Borrow b x) \<longleftrightarrow> borrowed sc b = None \<and> owned sc x \<noteq> None"
| "scoped sc (BorrowCopy b c) \<longleftrightarrow> borrowed sc b = None \<and> borrowed sc c \<noteq> None"
| "scoped sc (BorrowAssign b c) \<longleftrightarrow> borrowed sc b \<noteq> None \<and> borrowed sc c \<noteq> None"
| "scoped sc (EndBorrow b) \<longleftrightarrow> borrowed sc b \<noteq> None"

primrec cpp_step :: "'x special \<Rightarrow> 'x special \<Rightarrow> tid \<Rightarrow> size_t \<Rightarrow> cpp_op \<Rightarrow> scope \<Rightarrow> 'x rt_scheme \<Rightarrow>
    failure + (scope \<times> 'x rt_scheme)" where
  "cpp_step ctor dtor self n (Make x) sc st =
     bindE (make_owned ctor self n st) (\<lambda>(p, st). Inr (sc\<lparr>owned := (owned sc)(x \<mapsto> p)\<rparr>, st))"
| "cpp_step ctor dtor self n (Adopt x) sc st =
     Inr (sc\<lparr>owned := (owned sc)(x \<mapsto> hd (raws sc)), raws := tl (raws sc)\<rparr>, st)"
| "cpp_step ctor dtor self n (MoveNew x y) sc st =
     (case move_construct (the (owned sc y)) of (p, q) \<Rightarrow> Inr (sc\<lparr>owned := (owned sc)(y \<mapsto> q, x \<mapsto> p)\<rparr>, st))"
| "cpp_step ctor dtor self n (MoveAssign x y) sc st =
     bindE (move_assign self (x = y) (the (owned sc x)) (the (owned sc y)) st) (\<lambda>(p, q, st).
       Inr (sc\<lparr>owned := (owned sc)(y \<mapsto> q, x \<mapsto> p)\<rparr>, st))"
| "cpp_step ctor dtor self n (Release x) sc st =
     (case release_owned (the (owned sc x)) of (p, q) \<Rightarrow>
        Inr (sc\<lparr>owned := (owned sc)(x \<mapsto> q), raws := (if p \<noteq> 0 then p # raws sc else raws sc)\<rparr>, st))"
| "cpp_step ctor dtor self n (Destroy x) sc st =
     bindE (destroy_owned dtor self (the (owned sc x)) st) (\<lambda>st. Inr (sc\<lparr>owned := (owned sc)(x := None)\<rparr>, st))"
| "cpp_step ctor dtor self n (Borrow b x) sc st =
     bindE (borrow_init self (the (owned sc x)) st) (\<lambda>(p, st). Inr (sc\<lparr>borrowed := (borrowed sc)(b \<mapsto> p)\<rparr>, st))"
| "cpp_step ctor dtor self n (BorrowCopy b c) sc st =
     bindE (borrow_init self (the (borrowed sc c)) st) (\<lambda>(p, st). Inr (sc\<lparr>borrowed := (borrowed sc)(b \<mapsto> p)\<rparr>, st))"
| "cpp_step ctor dtor self n (BorrowAssign b c) sc st =
     bindE (borrow_assign self (b = c) (the (borrowed sc b)) (the (borrowed sc c)) st) (\<lambda>(p, st).
       Inr (sc\<lparr>borrowed := (borrowed sc)(b \<mapsto> p)\<rparr>, st))"
| "cpp_step ctor dtor self n (EndBorrow b) sc st =
     bindE (destroy_borrowed (the (borrowed sc b)) st) (\<lambda>st. Inr (sc\<lparr>borrowed := (borrowed sc)(b := None)\<rparr>, st))"

text \<open>The object an operation frees.\<close>

fun frees_ptr :: "scope \<Rightarrow> cpp_op \<Rightarrow> addr" where
  "frees_ptr sc (Destroy x) = the (owned sc x)"
| "frees_ptr sc (MoveAssign x y) = (if x = y then 0 else the (owned sc x))"
| "frees_ptr sc _ = 0"

subsection \<open>The objects the variables hold\<close>

definition held :: "scope \<Rightarrow> addr set" where
  "held sc = {p. p \<noteq> 0 \<and> Some p \<in> range (owned sc)} \<union> set (raws sc)"

definition borrows_of :: "scope \<Rightarrow> addr \<Rightarrow> nat" where
  "borrows_of sc p = card {b. borrowed sc b = Some p}"

definition owned_meta :: "tid \<Rightarrow> nat \<Rightarrow> alloc_meta \<Rightarrow> bool" where
  "owned_meta self k m \<longleftrightarrow>
     m_owner_thread m = self \<and> m_borrow_count m = int k \<and> m_state m = (if k = 0 then OWNED else BORROWED)"

text \<open>One owner for each object, and borrows of such objects only.\<close>

definition names_ok :: "scope \<Rightarrow> bool" where
  "names_ok sc \<longleftrightarrow> finite (dom (borrowed sc)) \<and> distinct (raws sc) \<and> 0 \<notin> set (raws sc) \<and>
     (\<forall>x y p. owned sc x = Some p \<longrightarrow> owned sc y = Some p \<longrightarrow> p \<noteq> 0 \<longrightarrow> x = y) \<and>
     (\<forall>x p. owned sc x = Some p \<longrightarrow> p \<notin> set (raws sc)) \<and>
     (\<forall>b p. borrowed sc b = Some p \<longrightarrow> p \<noteq> 0 \<longrightarrow> p \<in> held sc)"

text \<open>The objects \<open>H\<close>, with \<open>k p\<close> borrows each, beside the objects \<open>C0\<close> of others.\<close>

definition heap_ok :: "tid \<Rightarrow> addr set \<Rightarrow> (addr \<Rightarrow> nat) \<Rightarrow> cells \<Rightarrow> 'x rt_scheme \<Rightarrow> bool" where
  "heap_ok self H k C0 st \<longleftrightarrow> rt_wf st \<and> (\<forall>p \<in> H. \<exists>m y. cell_at st p = Some (m, y) \<and> owned_meta self (k p) m) \<and>
     H \<inter> dom C0 = {} \<and> cell_at st |` (- H) = C0"

definition smart_ok :: "tid \<Rightarrow> cells \<Rightarrow> scope \<Rightarrow> 'x rt_scheme \<Rightarrow> bool" where
  "smart_ok self C0 sc st \<longleftrightarrow> names_ok sc \<and> heap_ok self (held sc) (borrows_of sc) C0 st"

text \<open>A constructor or destructor that writes nothing but the object.\<close>

definition plain :: "'x special \<Rightarrow> bool" where
  "plain f \<longleftrightarrow> (\<forall>st p m y. rt_wf st \<longrightarrow> cell_at st p = Some (m, y) \<longrightarrow>
     (\<exists>st' z. f p st = Inr st' \<and> rt_wf st' \<and> cell_at st' = (cell_at st)(p \<mapsto> (m, z))))"

lemma plainE:
  assumes "plain f" and "rt_wf st" and "cell_at st p = Some (m, y)"
  obtains st' z where "f p st = Inr st'" and "rt_wf st'" and "cell_at st' = (cell_at st)(p \<mapsto> (m, z))"
  using assms unfolding plain_def by blast

subsection \<open>Changes of the heap\<close>

lemma heap_okE:
  assumes "heap_ok self H k C0 st" and "p \<in> H"
  obtains m y where "cell_at st p = Some (m, y)" and "owned_meta self (k p) m"
  using assms by (auto simp: heap_ok_def)

lemma heap_cong: "heap_ok self H k C0 st \<Longrightarrow> (\<And>p. p \<in> H \<Longrightarrow> k' p = k p) \<Longrightarrow> heap_ok self H k' C0 st"
  by (simp add: heap_ok_def)

lemma heap_upd:
  assumes "heap_ok self H k C0 st" and "p \<in> H" and "rt_wf st'" and "cell_at st' = (cell_at st)(p \<mapsto> (m, y))"
    and "owned_meta self j m"
  shows "heap_ok self H (k(p := j)) C0 st'"
proof -
  have "cell_at st' |` (- H) = cell_at st |` (- H)" using assms(2,4) by (auto simp: restrict_map_def fun_eq_iff)
  then show ?thesis using assms by (simp add: heap_ok_def)
qed

lemma heap_new:
  assumes "heap_ok self H k C0 st" and "p \<notin> H" and "cell_at st p = None" and "rt_wf st'"
    and "cell_at st' = (cell_at st)(p \<mapsto> (m, y))" and "owned_meta self 0 m" and "k p = 0"
  shows "heap_ok self (insert p H) k C0 st'"
proof -
  have C0: "cell_at st |` (- H) = C0" "H \<inter> dom C0 = {}" using assms(1) by (simp_all add: heap_ok_def)
  then have "C0 p = None" using assms(3) by (auto simp: restrict_map_def)
  moreover have "cell_at st' |` (- insert p H) = C0"
    using assms(3,5) unfolding C0(1) [symmetric] by (auto simp: restrict_map_def fun_eq_iff)
  ultimately show ?thesis using assms C0(2) by (auto simp: heap_ok_def dom_def)
qed

lemma heap_free:
  assumes "heap_ok self H k C0 st" and "p \<in> H" and "k p = 0"
  obtains st' where "owner_free self p st = Inr st'" and "heap_ok self (H - {p}) k C0 st'"
proof -
  obtain m y where m: "cell_at st p = Some (m, y)" "owned_meta self (k p) m" using assms(1,2) by (rule heap_okE)
  have "free_ok self m" using m(2) assms(3) by (simp add: owned_meta_def free_ok_def)
  moreover have "rt_wf st" using assms(1) by (simp add: heap_ok_def)
  ultimately obtain s where s: "owner_free self p st = Inr s" "rt_wf s" "cell_at s = (cell_at st)(p := None)"
    using m(1) heap.release_obtain by metis
  have "cell_at s |` (- (H - {p})) = cell_at st |` (- H)" using s(3) assms(2) by (auto simp: restrict_map_def fun_eq_iff)
  then have "heap_ok self (H - {p}) k C0 s" using assms(1) s by (auto simp: heap_ok_def)
  then show thesis using that s(1) by blast
qed

lemma heap_free_borrowed:
  assumes "heap_ok self H k C0 st" and "p \<in> H" and "k p > 0"
  shows "owner_free self p st = Inl (Fatal ''Freeing borrowed object'' p None 0)"
proof -
  obtain m y where m: "cell_at st p = Some (m, y)" "owned_meta self (k p) m" using assms(1,2) by (rule heap_okE)
  obtain m' where m': "get_meta st p = Inr (Some m')" "m = bare m'" "m_state m' \<noteq> FREED" using m(1) by (rule cell_at_meta)
  have "p \<noteq> 0" "m_borrow_count m' > 0" using m m' assms(3) cell_at_nonnull by (auto simp: owned_meta_def)
  then show ?thesis using m' by (simp add: owner_free_def owner_free_internal_def)
qed

lemma heap_borrow:
  assumes "heap_ok self H k C0 st" and "p \<in> H" and "int (k p) < INT_MAX"
  obtains st' where "ownership_borrow self p st = Inr st'" and "heap_ok self H (k(p := k p + 1)) C0 st'"
proof -
  obtain m y where m: "cell_at st p = Some (m, y)" "owned_meta self (k p) m" using assms(1,2) by (rule heap_okE)
  have wf: "rt_wf st" using assms(1) by (simp add: heap_ok_def)
  obtain s where s: "ownership_borrow self p st = Inr s" "rt_wf s" "rt.more s = rt.more st"
    "cell_at s = (cell_at st)(p \<mapsto> (borrowed_meta m, y))"
    by (rule ownership_borrow_cells [OF wf m(1), of self]) (use m(2) assms(3) in \<open>auto simp: owned_meta_def\<close>)
  have "owned_meta self (k p + 1) (borrowed_meta m)" using m(2) by (auto simp: owned_meta_def borrowed_meta_def)
  then show thesis using that [OF s(1)] heap_upd [OF assms(1,2) s(2,4)] by simp
qed

lemma heap_release:
  assumes "heap_ok self H k C0 st" and "p \<in> H" and "k p > 0"
  obtains st' where "ownership_release p st = Inr st'" and "heap_ok self H (k(p := k p - 1)) C0 st'"
proof -
  obtain m y where m: "cell_at st p = Some (m, y)" "owned_meta self (k p) m" using assms(1,2) by (rule heap_okE)
  have wf: "rt_wf st" using assms(1) by (simp add: heap_ok_def)
  obtain s where s: "ownership_release p st = Inr s" "rt_wf s" "rt.more s = rt.more st"
    "cell_at s = (cell_at st)(p \<mapsto> (released_meta m, y))"
    by (rule ownership_release_cells [OF wf m(1)]) (use m(2) assms(3) in \<open>auto simp: owned_meta_def\<close>)
  have "owned_meta self (k p - 1) (released_meta m)" using m(2) assms(3) by (auto simp: owned_meta_def released_meta_def)
  then show thesis using that [OF s(1)] heap_upd [OF assms(1,2) s(2,4)] by simp
qed

lemma heap_plain:
  assumes "plain f" and "heap_ok self H k C0 st" and "p \<in> H"
  obtains st' where "f p st = Inr st'" and "heap_ok self H k C0 st'"
proof -
  obtain m y where m: "cell_at st p = Some (m, y)" "owned_meta self (k p) m" using assms(2,3) by (rule heap_okE)
  have "rt_wf st" using assms(2) by (simp add: heap_ok_def)
  with assms(1) obtain s z where s: "f p st = Inr s" "rt_wf s" "cell_at s = (cell_at st)(p \<mapsto> (m, z))"
    using m(1) by (rule plainE)
  show thesis using that [OF s(1)] heap_upd [OF assms(2,3) s(2,3) m(2)] by simp
qed

subsection \<open>Changes of the variables\<close>

lemma borrows_of_simps [simp]:
  "borrows_of (sc\<lparr>owned := f\<rparr>) = borrows_of sc" "borrows_of (sc\<lparr>raws := r\<rparr>) = borrows_of sc"
  "borrows_of (sc\<lparr>owned := f, raws := r\<rparr>) = borrows_of sc"
  by (simp_all add: borrows_of_def fun_eq_iff)

lemma held_simps [simp]: "held (sc\<lparr>borrowed := f\<rparr>) = held sc"
  by (simp add: held_def)

lemma borrowers_finite: "names_ok sc \<Longrightarrow> finite {b. borrowed sc b = Some p}"
  unfolding names_ok_def by (rule finite_subset [of _ "dom (borrowed sc)"]) auto

lemma borrows_of_add:
  assumes "names_ok sc" and "borrowed sc b = None"
  shows "borrows_of (sc\<lparr>borrowed := (borrowed sc)(b \<mapsto> p)\<rparr>) = (borrows_of sc)(p := borrows_of sc p + 1)"
proof
  fix q
  have "{b'. ((borrowed sc)(b \<mapsto> p)) b' = Some q} =
      (if q = p then insert b {b'. borrowed sc b' = Some p} else {b'. borrowed sc b' = Some q})"
    using assms(2) by auto
  then show "borrows_of (sc\<lparr>borrowed := (borrowed sc)(b \<mapsto> p)\<rparr>) q = ((borrows_of sc)(p := borrows_of sc p + 1)) q"
    using borrowers_finite [OF assms(1), of p] assms(2) by (simp add: borrows_of_def)
qed

lemma borrows_of_del:
  assumes "names_ok sc" and "borrowed sc b = Some p"
  shows "borrows_of (sc\<lparr>borrowed := (borrowed sc)(b := None)\<rparr>) = (borrows_of sc)(p := borrows_of sc p - 1)"
proof
  fix q
  have "{b'. ((borrowed sc)(b := None)) b' = Some q} =
      (if q = p then {b'. borrowed sc b' = Some p} - {b} else {b'. borrowed sc b' = Some q})"
    using assms(2) by auto
  then show "borrows_of (sc\<lparr>borrowed := (borrowed sc)(b := None)\<rparr>) q = ((borrows_of sc)(p := borrows_of sc p - 1)) q"
    using borrowers_finite [OF assms(1), of p] assms(2) by (simp add: borrows_of_def)
qed

lemma borrows_of_pos:
  assumes "names_ok sc" and "borrowed sc b = Some p"
  shows "0 < borrows_of sc p"
proof -
  have "{b. borrowed sc b = Some p} \<noteq> {}" using assms(2) by auto
  then show ?thesis using borrowers_finite [OF assms(1), of p] by (simp add: borrows_of_def card_gt_0_iff)
qed

lemma borrows_of_le: "names_ok sc \<Longrightarrow> borrows_of sc p \<le> card (dom (borrowed sc))"
  unfolding borrows_of_def names_ok_def by (intro card_mono) auto

lemma borrows_of_none: "names_ok sc \<Longrightarrow> borrows_of sc p = 0 \<longleftrightarrow> (\<forall>b. borrowed sc b \<noteq> Some p)"
  using borrowers_finite [of sc p] by (auto simp: borrows_of_def)

lemma held_iff: "q \<in> held sc \<longleftrightarrow> q \<noteq> 0 \<and> (\<exists>z. owned sc z = Some q) \<or> q \<in> set (raws sc)"
  by (auto simp: held_def image_iff intro: sym)

lemma held_owned: "owned sc x = Some p \<Longrightarrow> p \<noteq> 0 \<Longrightarrow> p \<in> held sc"
  by (auto simp: held_def intro: range_eqI sym)

lemma names_new:
  assumes "names_ok sc" and "owned sc x = None" and "p = 0 \<or> p \<notin> held sc"
  shows "names_ok (sc\<lparr>owned := (owned sc)(x \<mapsto> p)\<rparr>)"
    and "held (sc\<lparr>owned := (owned sc)(x \<mapsto> p)\<rparr>) = held sc \<union> ({p} - {0})"
proof -
  show h: "held (sc\<lparr>owned := (owned sc)(x \<mapsto> p)\<rparr>) = held sc \<union> ({p} - {0})"
    using assms(2) by (auto simp: held_def image_iff split: if_splits) (metis option.distinct(1))+
  show "names_ok (sc\<lparr>owned := (owned sc)(x \<mapsto> p)\<rparr>)"
    using assms held_owned [of sc] unfolding names_ok_def h
    by (auto simp: held_def split: if_splits)
qed

lemma names_drop:
  assumes "names_ok sc" and "owned sc x = Some p" and "p = 0 \<or> borrows_of sc p = 0"
  shows "names_ok (sc\<lparr>owned := (owned sc)(x := None)\<rparr>)"
    and "held (sc\<lparr>owned := (owned sc)(x := None)\<rparr>) = held sc - ({p} - {0})"
proof -
  have u: "owned sc y = Some p \<Longrightarrow> p \<noteq> 0 \<Longrightarrow> y = x" "p \<notin> set (raws sc)" for y
    using assms(1,2) unfolding names_ok_def by blast+
  show h: "held (sc\<lparr>owned := (owned sc)(x := None)\<rparr>) = held sc - ({p} - {0})"
  proof (intro set_eqI)
    fix q
    have "q \<noteq> 0 \<Longrightarrow> (\<exists>z. ((owned sc)(x := None)) z = Some q) \<longleftrightarrow> q \<noteq> p \<and> (\<exists>z. owned sc z = Some q)"
      using u(1) assms(2) by (metis fun_upd_apply option.distinct(1) option.inject)
    then show "q \<in> held (sc\<lparr>owned := (owned sc)(x := None)\<rparr>) \<longleftrightarrow> q \<in> held sc - ({p} - {0})"
      using u(2) assms(1) by (auto simp: held_iff names_ok_def simp del: fun_upd_apply)
  qed
  have "borrowed sc b = Some q \<Longrightarrow> q \<noteq> 0 \<Longrightarrow> q \<noteq> p" for b q
    using assms(3) borrows_of_none [OF assms(1)] by auto
  then show "names_ok (sc\<lparr>owned := (owned sc)(x := None)\<rparr>)"
    using assms(1) unfolding names_ok_def h by (auto split: if_splits)
qed

lemma names_move:
  assumes "names_ok sc" and "owned sc x = None" and "owned sc y = Some p"
  shows "names_ok (sc\<lparr>owned := (owned sc)(y \<mapsto> 0, x \<mapsto> p)\<rparr>)"
    and "held (sc\<lparr>owned := (owned sc)(y \<mapsto> 0, x \<mapsto> p)\<rparr>) = held sc"
proof -
  have ne: "x \<noteq> y" using assms(2,3) by auto
  show h: "held (sc\<lparr>owned := (owned sc)(y \<mapsto> 0, x \<mapsto> p)\<rparr>) = held sc"
  proof (intro set_eqI)
    fix q
    have "q \<noteq> 0 \<Longrightarrow> (\<exists>z. ((owned sc)(y \<mapsto> 0, x \<mapsto> p)) z = Some q) \<longleftrightarrow> (\<exists>z. owned sc z = Some q)"
      using ne assms(2,3) by (metis fun_upd_apply option.distinct(1) option.inject)
    then show "q \<in> held (sc\<lparr>owned := (owned sc)(y \<mapsto> 0, x \<mapsto> p)\<rparr>) \<longleftrightarrow> q \<in> held sc"
      by (auto simp: held_iff simp del: fun_upd_apply)
  qed
  show "names_ok (sc\<lparr>owned := (owned sc)(y \<mapsto> 0, x \<mapsto> p)\<rparr>)"
    using assms ne unfolding names_ok_def h by (auto split: if_splits)
qed

lemma names_release:
  assumes "names_ok sc" and "owned sc x = Some p" and "p \<noteq> 0"
  shows "names_ok (sc\<lparr>owned := (owned sc)(x \<mapsto> 0), raws := p # raws sc\<rparr>)"
    and "held (sc\<lparr>owned := (owned sc)(x \<mapsto> 0), raws := p # raws sc\<rparr>) = held sc"
proof -
  show h: "held (sc\<lparr>owned := (owned sc)(x \<mapsto> 0), raws := p # raws sc\<rparr>) = held sc"
  proof (intro set_eqI)
    fix q
    have "q \<noteq> 0 \<Longrightarrow> (\<exists>z. ((owned sc)(x \<mapsto> 0)) z = Some q) \<or> q = p \<longleftrightarrow> (\<exists>z. owned sc z = Some q)"
      using assms(2) by (metis fun_upd_apply option.inject)
    then show "q \<in> held (sc\<lparr>owned := (owned sc)(x \<mapsto> 0), raws := p # raws sc\<rparr>) \<longleftrightarrow> q \<in> held sc"
      using assms(3) by (auto simp: held_iff simp del: fun_upd_apply)
  qed
  show "names_ok (sc\<lparr>owned := (owned sc)(x \<mapsto> 0), raws := p # raws sc\<rparr>)"
    using assms unfolding names_ok_def h by (auto split: if_splits)
qed

lemma names_adopt:
  assumes "names_ok sc" and "owned sc x = None" and "raws sc = p # rs"
  shows "names_ok (sc\<lparr>owned := (owned sc)(x \<mapsto> p), raws := rs\<rparr>)"
    and "held (sc\<lparr>owned := (owned sc)(x \<mapsto> p), raws := rs\<rparr>) = held sc"
proof -
  have p: "p \<noteq> 0" using assms(1,3) by (auto simp: names_ok_def)
  show h: "held (sc\<lparr>owned := (owned sc)(x \<mapsto> p), raws := rs\<rparr>) = held sc"
  proof (intro set_eqI)
    fix q
    have "(\<exists>z. ((owned sc)(x \<mapsto> p)) z = Some q) \<longleftrightarrow> q = p \<or> (\<exists>z. owned sc z = Some q)"
      using assms(2) by (metis fun_upd_apply option.distinct(1) option.inject)
    then show "q \<in> held (sc\<lparr>owned := (owned sc)(x \<mapsto> p), raws := rs\<rparr>) \<longleftrightarrow> q \<in> held sc"
      using assms(3) p by (auto simp: held_iff simp del: fun_upd_apply)
  qed
  show "names_ok (sc\<lparr>owned := (owned sc)(x \<mapsto> p), raws := rs\<rparr>)"
    using assms unfolding names_ok_def h by (auto split: if_splits)
qed

lemma names_borrow:
  assumes "names_ok sc" and "p = 0 \<or> p \<in> held sc"
  shows "names_ok (sc\<lparr>borrowed := (borrowed sc)(b \<mapsto> p)\<rparr>)"
  using assms by (auto simp: names_ok_def)

lemma names_unborrow: "names_ok sc \<Longrightarrow> names_ok (sc\<lparr>borrowed := (borrowed sc)(b := None)\<rparr>)"
  by (auto simp: names_ok_def split: if_splits)

subsection \<open>The operations\<close>

lemma not_held_unborrowed: "names_ok sc \<Longrightarrow> p \<notin> held sc \<Longrightarrow> p \<noteq> 0 \<Longrightarrow> borrows_of sc p = 0"
  by (subst borrows_of_none) (auto simp: names_ok_def)

lemma make_ok:
  assumes "smart_ok self C0 sc st" and "owned sc x = None" and "plain ctor" and "unat n + 80 < 2 ^ 64"
  shows "\<exists>sc' st'. cpp_step ctor dtor self n (Make x) sc st = Inr (sc', st') \<and> smart_ok self C0 sc' st'"
proof -
  have ok: "names_ok sc" "heap_ok self (held sc) (borrows_of sc) C0 st" using assms(1) by (simp_all add: smart_ok_def)
  have wf: "rt_wf st" using ok(2) by (simp add: heap_ok_def)
  from wf assms(4) show ?thesis
  proof (cases rule: heap.alloc_cases [where self = self])
    case (null s)
    have "heap_ok self (held sc) (borrows_of sc) C0 s" using ok(2) null(2,4) by (simp add: heap_ok_def)
    then show ?thesis using null(1) names_new [OF ok(1) assms(2), of 0] by (simp add: make_owned_def smart_ok_def)
  next
    case (object p s)
    have p: "p \<notin> held sc"
    proof
      assume "p \<in> held sc"
      with ok(2) obtain m y where "cell_at st p = Some (m, y)" by (rule heap_okE)
      then show False using object(5) by simp
    qed
    have "owned_meta self 0 (fresh_meta self n)" by (simp add: owned_meta_def fresh_meta_def new_meta_def)
    then have "heap_ok self (insert p (held sc)) (borrows_of sc) C0 s"
      using heap_new [OF ok(2) p object(5,3,6)] not_held_unborrowed [OF ok(1) p object(2)] by simp
    then obtain s' where s': "ctor p s = Inr s'" "heap_ok self (insert p (held sc)) (borrows_of sc) C0 s'"
      by (rule heap_plain [OF assms(3) _ insertI1])
    have "insert p (held sc) = held sc \<union> ({p} - {0})" using object(2) by auto
    then show ?thesis using object(1,2) s' names_new [OF ok(1) assms(2), of p] p by (simp add: make_owned_def smart_ok_def)
  qed
qed

text \<open>An owner gives up its object.\<close>

lemma drop_owner:
  assumes "smart_ok self C0 sc st" and "owned sc x = Some p" and "p = 0 \<or> borrows_of sc p = 0"
  obtains st' where "(if p \<noteq> 0 then owner_free self p st else Inr st) = Inr st'"
    and "smart_ok self C0 (sc\<lparr>owned := (owned sc)(x := None)\<rparr>) st'"
proof -
  have ok: "names_ok sc" "heap_ok self (held sc) (borrows_of sc) C0 st" using assms(1) by (simp_all add: smart_ok_def)
  note n = names_drop [OF ok(1) assms(2,3)]
  show thesis
  proof (cases "p = 0")
    case True
    then show ?thesis using that [of st] ok n by (simp add: smart_ok_def)
  next
    case False
    have "borrows_of sc p = 0" using False assms(3) by simp
    with ok(2) held_owned [OF assms(2) False] obtain s where
      "owner_free self p st = Inr s" "heap_ok self (held sc - {p}) (borrows_of sc) C0 s" by (rule heap_free)
    moreover have "held sc - ({p} - {0}) = held sc - {p}" using False by auto
    ultimately show ?thesis using that [of s] False n by (simp add: smart_ok_def)
  qed
qed

lemma move_ok:
  assumes "smart_ok self C0 sc st" and "owned sc x = None" and "owned sc y = Some p"
  shows "smart_ok self C0 (sc\<lparr>owned := (owned sc)(y \<mapsto> 0, x \<mapsto> p)\<rparr>) st"
  using assms(1) names_move [OF _ assms(2,3)] by (simp add: smart_ok_def)

lemma move_assign_ok:
  assumes "smart_ok self C0 sc st" and "owned sc x = Some p" and "owned sc y = Some q"
    and "x = y \<or> p = 0 \<or> borrows_of sc p = 0"
  shows "\<exists>sc' st'. cpp_step ctor dtor self n (MoveAssign x y) sc st = Inr (sc', st') \<and> smart_ok self C0 sc' st'"
proof (cases "x = y")
  case True
  have "(owned sc)(y \<mapsto> p) = owned sc" using assms(2) True by auto
  then have "sc\<lparr>owned := (owned sc)(y \<mapsto> p)\<rparr> = sc" by simp
  then show ?thesis using True assms(1-3) by (simp add: move_assign_def del: fun_upd_apply)
next
  case False
  then have "p = 0 \<or> borrows_of sc p = 0" using assms(4) by simp
  with assms(1,2) obtain s where s: "(if p \<noteq> 0 then owner_free self p st else Inr st) = Inr s"
    "smart_ok self C0 (sc\<lparr>owned := (owned sc)(x := None)\<rparr>) s" by (rule drop_owner)
  have "smart_ok self C0 (sc\<lparr>owned := (owned sc)(x := None, y \<mapsto> 0, x \<mapsto> q)\<rparr>) s"
    using move_ok [OF s(2), of x y q] False assms(3) by simp
  moreover have "(owned sc)(x := None, y \<mapsto> 0, x \<mapsto> q) = (owned sc)(y \<mapsto> 0, x \<mapsto> q)" by auto
  ultimately show ?thesis using s(1) False assms(2,3) by (simp add: move_assign_def del: fun_upd_apply)
qed

lemma destroy_ok:
  assumes "smart_ok self C0 sc st" and "owned sc x = Some p" and "p = 0 \<or> borrows_of sc p = 0" and "plain dtor"
  shows "\<exists>sc' st'. cpp_step ctor dtor self n (Destroy x) sc st = Inr (sc', st') \<and> smart_ok self C0 sc' st' \<and>
    sc' = sc\<lparr>owned := (owned sc)(x := None)\<rparr>"
proof -
  have ok: "names_ok sc" "heap_ok self (held sc) (borrows_of sc) C0 st" using assms(1) by (simp_all add: smart_ok_def)
  obtain s where s: "(if p \<noteq> 0 then dtor p st else Inr st) = Inr s" "smart_ok self C0 sc s"
  proof (cases "p = 0")
    case False
    then show ?thesis using heap_plain [OF assms(4) ok(2) held_owned [OF assms(2) False]] that ok(1)
      by (auto simp: smart_ok_def)
  qed (use that assms(1) in simp)
  obtain s' where "(if p \<noteq> 0 then owner_free self p s else Inr s) = Inr s'"
    "smart_ok self C0 (sc\<lparr>owned := (owned sc)(x := None)\<rparr>) s'" by (rule drop_owner [OF s(2) assms(2,3)])
  then show ?thesis using s(1) assms(2) by (auto simp: destroy_owned_def split: if_splits)
qed

lemma release_ok:
  assumes "smart_ok self C0 sc st" and "owned sc x = Some p"
  shows "\<exists>sc' st'. cpp_step ctor dtor self n (Release x) sc st = Inr (sc', st') \<and> smart_ok self C0 sc' st'"
proof (cases "p = 0")
  case True
  have "(owned sc)(x \<mapsto> 0) = owned sc" using assms(2) True by auto
  then have "sc\<lparr>owned := (owned sc)(x \<mapsto> 0), raws := raws sc\<rparr> = sc" by simp
  then show ?thesis using True assms by (simp add: release_owned_def del: fun_upd_apply)
next
  case False
  then show ?thesis using assms(1) names_release [OF _ assms(2) False] assms(2)
    by (simp add: release_owned_def smart_ok_def)
qed

lemma adopt_ok:
  assumes "smart_ok self C0 sc st" and "owned sc x = None" and "raws sc \<noteq> []"
  shows "\<exists>sc' st'. cpp_step ctor dtor self n (Adopt x) sc st = Inr (sc', st') \<and> smart_ok self C0 sc' st'"
proof -
  obtain p rs where "raws sc = p # rs" using assms(3) by (cases "raws sc") auto
  then show ?thesis using assms(1) names_adopt [OF _ assms(2), of p rs] by (simp add: smart_ok_def)
qed

text \<open>Beginning and ending a borrow.\<close>

lemma borrow_ok:
  assumes "smart_ok self C0 sc st" and "borrowed sc b = None" and "p = 0 \<or> p \<in> held sc"
    and "int (card (dom (borrowed sc))) < INT_MAX"
  obtains st' where "(if p \<noteq> 0 then ownership_borrow self p st else Inr st) = Inr st'"
    and "smart_ok self C0 (sc\<lparr>borrowed := (borrowed sc)(b \<mapsto> p)\<rparr>) st'"
proof -
  have ok: "names_ok sc" "heap_ok self (held sc) (borrows_of sc) C0 st" using assms(1) by (simp_all add: smart_ok_def)
  note n = names_borrow [OF ok(1) assms(3), of b] borrows_of_add [OF ok(1) assms(2), of p]
  show thesis
  proof (cases "p = 0")
    case True
    have "0 \<notin> held sc" using ok(1) by (auto simp: held_def names_ok_def)
    then have "heap_ok self (held sc) ((borrows_of sc)(p := borrows_of sc p + 1)) C0 st"
      using True by (intro heap_cong [OF ok(2)]) auto
    then show ?thesis using that [of st] True n by (simp add: smart_ok_def)
  next
    case False
    have "int (borrows_of sc p) < INT_MAX" using borrows_of_le [OF ok(1), of p] assms(4) by simp
    with ok(2) False assms(3) obtain s where "ownership_borrow self p st = Inr s"
      "heap_ok self (held sc) ((borrows_of sc)(p := borrows_of sc p + 1)) C0 s" by (metis heap_borrow)
    then show ?thesis using that [of s] False n by (simp add: smart_ok_def)
  qed
qed

lemma unborrow_ok:
  assumes "smart_ok self C0 sc st" and "borrowed sc b = Some p"
  obtains st' where "(if p \<noteq> 0 then ownership_release p st else Inr st) = Inr st'"
    and "smart_ok self C0 (sc\<lparr>borrowed := (borrowed sc)(b := None)\<rparr>) st'"
proof -
  have ok: "names_ok sc" "heap_ok self (held sc) (borrows_of sc) C0 st" using assms(1) by (simp_all add: smart_ok_def)
  note n = names_unborrow [OF ok(1), of b] borrows_of_del [OF ok(1) assms(2)]
  show thesis
  proof (cases "p = 0")
    case True
    have "0 \<notin> held sc" using ok(1) by (auto simp: held_def names_ok_def)
    then have "heap_ok self (held sc) ((borrows_of sc)(p := borrows_of sc p - 1)) C0 st"
      using True by (intro heap_cong [OF ok(2)]) auto
    then show ?thesis using that [of st] True n by (simp add: smart_ok_def)
  next
    case False
    have "p \<in> held sc" using ok(1) assms(2) False by (auto simp: names_ok_def)
    with ok(2) obtain s where "ownership_release p st = Inr s"
      "heap_ok self (held sc) ((borrows_of sc)(p := borrows_of sc p - 1)) C0 s"
      using borrows_of_pos [OF ok(1) assms(2)] by (rule heap_release)
    then show ?thesis using that [of s] False n by (simp add: smart_ok_def)
  qed
qed

text \<open>One operation: it works, or it frees an object that is borrowed.\<close>

lemma cpp_step_ok:
  assumes "smart_ok self C0 sc st" and "scoped sc op" and "plain ctor" and "plain dtor" and "unat n + 80 < 2 ^ 64"
    and "int (card (dom (borrowed sc))) < INT_MAX" and "frees_ptr sc op = 0 \<or> borrows_of sc (frees_ptr sc op) = 0"
  shows "\<exists>sc' st'. cpp_step ctor dtor self n op sc st = Inr (sc', st') \<and> smart_ok self C0 sc' st'"
proof (cases op)
  case (Make x)
  then show ?thesis using make_ok assms by simp
next
  case (Adopt x)
  then show ?thesis using adopt_ok [OF assms(1), of x] assms(2) by simp
next
  case (MoveNew x y)
  then obtain p where "owned sc x = None" "owned sc y = Some p" using assms(2) by auto
  then show ?thesis using MoveNew move_ok [OF assms(1)] by (simp add: move_construct_def)
next
  case (MoveAssign x y)
  then obtain p q where p: "owned sc x = Some p" "owned sc y = Some q" using assms(2) by auto
  have "x = y \<or> p = 0 \<or> borrows_of sc p = 0" using assms(7) MoveAssign p(1) by (auto split: if_splits)
  with assms(1) p show ?thesis unfolding MoveAssign by (rule move_assign_ok)
next
  case (Release x)
  then show ?thesis using release_ok [OF assms(1), of x] assms(2) by auto
next
  case (Destroy x)
  then obtain p where "owned sc x = Some p" using assms(2) by auto
  then show ?thesis using Destroy destroy_ok [OF assms(1) _ _ assms(4), of x p ctor n] assms(7) by auto
next
  case (Borrow b x)
  then obtain p where p: "owned sc x = Some p" "borrowed sc b = None" using assms(2) by auto
  then have "p = 0 \<or> p \<in> held sc" using held_owned by blast
  with assms(1) p(2) obtain s where "(if p \<noteq> 0 then ownership_borrow self p st else Inr st) = Inr s"
    "smart_ok self C0 (sc\<lparr>borrowed := (borrowed sc)(b \<mapsto> p)\<rparr>) s" using assms(6) by (rule borrow_ok)
  then show ?thesis using Borrow p by (simp add: borrow_init_def)
next
  case (BorrowCopy b c)
  then obtain p where p: "borrowed sc c = Some p" "borrowed sc b = None" using assms(2) by auto
  then have "p = 0 \<or> p \<in> held sc" using assms(1) unfolding smart_ok_def names_ok_def by blast
  with assms(1) p(2) obtain s where "(if p \<noteq> 0 then ownership_borrow self p st else Inr st) = Inr s"
    "smart_ok self C0 (sc\<lparr>borrowed := (borrowed sc)(b \<mapsto> p)\<rparr>) s" using assms(6) by (rule borrow_ok)
  then show ?thesis using BorrowCopy p by (simp add: borrow_init_def)
next
  case (BorrowAssign b c)
  then obtain p q where p: "borrowed sc b = Some p" "borrowed sc c = Some q" using assms(2) by auto
  show ?thesis
  proof (cases "b = c")
    case True
    have "(borrowed sc)(c \<mapsto> q) = borrowed sc" using p(2) by auto
    then have "sc\<lparr>borrowed := (borrowed sc)(c \<mapsto> q)\<rparr> = sc" by simp
    then show ?thesis using True BorrowAssign p assms(1) by (simp add: borrow_assign_def del: fun_upd_apply)
  next
    case False
    let ?sc = "sc\<lparr>borrowed := (borrowed sc)(b := None)\<rparr>"
    obtain s where s: "(if p \<noteq> 0 then ownership_release p st else Inr st) = Inr s" "smart_ok self C0 ?sc s"
      by (rule unborrow_ok [OF assms(1) p(1)])
    have q: "q = 0 \<or> q \<in> held ?sc" using assms(1) p(2) unfolding smart_ok_def names_ok_def held_simps by blast
    have fin: "finite (dom (borrowed sc))" using assms(1) by (simp add: smart_ok_def names_ok_def)
    have "card (dom (borrowed sc) - {b}) \<le> card (dom (borrowed sc))" using fin by (intro card_mono) auto
    then have c: "int (card (dom (borrowed ?sc))) < INT_MAX" using assms(6) by simp
    have b: "borrowed ?sc b = None" by simp
    obtain s' where "(if q \<noteq> 0 then ownership_borrow self q s else Inr s) = Inr s'"
      "smart_ok self C0 (?sc\<lparr>borrowed := (borrowed ?sc)(b \<mapsto> q)\<rparr>) s'"
      by (rule borrow_ok [OF s(2) b q c])
    then show ?thesis using BorrowAssign False p s(1) by (simp add: borrow_assign_def)
  qed
next
  case (EndBorrow b)
  then obtain p where p: "borrowed sc b = Some p" using assms(2) by auto
  obtain s where "(if p \<noteq> 0 then ownership_release p st else Inr st) = Inr s"
    "smart_ok self C0 (sc\<lparr>borrowed := (borrowed sc)(b := None)\<rparr>) s" by (rule unborrow_ok [OF assms(1) p])
  then show ?thesis using EndBorrow p by (simp add: destroy_borrowed_def)
qed

lemma cpp_step_borrowed:
  assumes "smart_ok self C0 sc st" and "scoped sc op" and "plain dtor"
    and "frees_ptr sc op \<noteq> 0" and "borrows_of sc (frees_ptr sc op) > 0"
  shows "cpp_step ctor dtor self n op sc st = Inl (Fatal ''Freeing borrowed object'' (frees_ptr sc op) None 0)"
proof -
  let ?p = "frees_ptr sc op"
  have ok: "heap_ok self (held sc) (borrows_of sc) C0 st" using assms(1) by (simp add: smart_ok_def)
  have h: "?p \<in> held sc" using assms(2,4) held_owned [of sc] by (cases op) (auto split: if_splits)
  obtain s where s: "dtor ?p st = Inr s" "heap_ok self (held sc) (borrows_of sc) C0 s"
    by (rule heap_plain [OF assms(3) ok h])
  have f: "owner_free self ?p st = Inl (Fatal ''Freeing borrowed object'' ?p None 0)"
    "owner_free self ?p s = Inl (Fatal ''Freeing borrowed object'' ?p None 0)"
    using heap_free_borrowed [OF ok h assms(5)] heap_free_borrowed [OF s(2) h assms(5)] by simp_all
  show ?thesis using f s(1) assms(2,4) by (cases op) (auto simp: move_assign_def destroy_owned_def split: if_splits)
qed

subsection \<open>Leaving the scope\<close>

definition cpp_run :: "'x special \<Rightarrow> 'x special \<Rightarrow> tid \<Rightarrow> size_t \<Rightarrow> cpp_op list \<Rightarrow> scope \<Rightarrow> 'x rt_scheme \<Rightarrow>
    failure + (scope \<times> 'x rt_scheme)" where
  "cpp_run ctor dtor self n ops sc st = foldE (\<lambda>op (sc, st). cpp_step ctor dtor self n op sc st) ops (sc, st)"

lemma end_borrows:
  assumes "smart_ok self C0 sc st" and "distinct bs" and "set bs = dom (borrowed sc)"
  shows "\<exists>st'. cpp_run ctor dtor self n (map EndBorrow bs) sc st = Inr (sc\<lparr>borrowed := (\<lambda>_. None)\<rparr>, st') \<and>
    smart_ok self C0 (sc\<lparr>borrowed := (\<lambda>_. None)\<rparr>) st'"
  using assms
proof (induction bs arbitrary: sc st)
  case Nil
  then have "borrowed sc = (\<lambda>_. None)" by auto
  then have "sc\<lparr>borrowed := (\<lambda>_. None)\<rparr> = sc" by simp
  then show ?case using Nil(1) by (simp add: cpp_run_def)
next
  case (Cons b bs)
  then have "b \<in> dom (borrowed sc)" by (metis list.set_intros(1))
  then obtain p where p: "borrowed sc b = Some p" by blast
  let ?sc = "sc\<lparr>borrowed := (borrowed sc)(b := None)\<rparr>"
  obtain s where s: "(if p \<noteq> 0 then ownership_release p st else Inr st) = Inr s" "smart_ok self C0 ?sc s"
    by (rule unborrow_ok [OF Cons.prems(1) p])
  have d: "distinct bs" "set bs = dom (borrowed ?sc)" using Cons.prems(2,3) by auto
  show ?case using Cons.IH [OF s(2) d] s(1) p by (simp add: cpp_run_def destroy_borrowed_def del: fun_upd_apply)
qed

lemma destroy_all:
  assumes "smart_ok self C0 sc st" and "borrowed sc = (\<lambda>_. None)" and "plain dtor" and "distinct xs"
    and "set xs = dom (owned sc)"
  shows "\<exists>st'. cpp_run ctor dtor self n (map Destroy xs) sc st = Inr (sc\<lparr>owned := (\<lambda>_. None)\<rparr>, st') \<and>
    smart_ok self C0 (sc\<lparr>owned := (\<lambda>_. None)\<rparr>) st'"
  using assms
proof (induction xs arbitrary: sc st)
  case Nil
  then have "owned sc = (\<lambda>_. None)" by auto
  then have "sc\<lparr>owned := (\<lambda>_. None)\<rparr> = sc" by simp
  then show ?case using Nil(1) by (simp add: cpp_run_def)
next
  case (Cons x xs)
  then have "x \<in> dom (owned sc)" by (metis list.set_intros(1))
  then obtain p where p: "owned sc x = Some p" by blast
  let ?sc = "sc\<lparr>owned := (owned sc)(x := None)\<rparr>"
  have "borrows_of sc p = 0" using Cons.prems(2) by (simp add: borrows_of_def)
  with destroy_ok [OF Cons.prems(1) p _ Cons.prems(3), of ctor n] obtain s where
    s: "cpp_step ctor dtor self n (Destroy x) sc st = Inr (?sc, s)" "smart_ok self C0 ?sc s" by auto
  have d: "borrowed ?sc = (\<lambda>_. None)" "distinct xs" "set xs = dom (owned ?sc)" using Cons.prems(2,4,5) by auto
  show ?case using Cons.IH [OF s(2) d(1) Cons.prems(3) d(2,3)] s(1) by (simp add: cpp_run_def del: cpp_step.simps fun_upd_apply)
qed

lemma cpp_run_append:
  "cpp_run ctor dtor self n (xs @ ys) sc st =
   bindE (cpp_run ctor dtor self n xs sc st) (\<lambda>(sc, st). cpp_run ctor dtor self n ys sc st)"
  by (simp add: cpp_run_def foldE_append split_beta)

subsection \<open>Properties\<close>

text \<open>C28: the wrapper types the use of objects.  While every object has one owner and the borrows counted in its header are
  the borrowed_ptr that refer to it, each operation keeps this, whatever the constructor and the destructor write to the
  object; only freeing an object that is borrowed stops the program, and no other report can occur.\<close>

theorem smart_pointers_sound:
  assumes "smart_ok self C0 sc st" and "scoped sc op" and "plain ctor" and "plain dtor" and "unat n + 80 < 2 ^ 64"
    and "int (card (dom (borrowed sc))) < INT_MAX"
  shows "if frees_ptr sc op \<noteq> 0 \<and> borrows_of sc (frees_ptr sc op) > 0
    then cpp_step ctor dtor self n op sc st = Inl (Fatal ''Freeing borrowed object'' (frees_ptr sc op) None 0)
    else \<exists>sc' st'. cpp_step ctor dtor self n op sc st = Inr (sc', st') \<and> smart_ok self C0 sc' st'"
  using cpp_step_ok [OF assms] cpp_step_borrowed [OF assms(1,2,4)] by simp

text \<open>At the end of a scope in which no raw pointer was released, the destructors of the borrowed_ptr and then of the
  owned_ptr free every object that was made in it and leave every other object as it was.\<close>

theorem smart_scope_exit:
  assumes "smart_ok self C0 sc st" and "raws sc = []" and "plain dtor" and "distinct bs" and "set bs = dom (borrowed sc)"
    and "distinct xs" and "set xs = dom (owned sc)"
  shows "\<exists>sc' st'. cpp_run ctor dtor self n (map EndBorrow bs @ map Destroy xs) sc st = Inr (sc', st') \<and> rt_wf st' \<and>
    cell_at st' = C0"
proof -
  let ?sc1 = "sc\<lparr>borrowed := (\<lambda>_. None)\<rparr>"
  let ?sc2 = "?sc1\<lparr>owned := (\<lambda>_. None)\<rparr>"
  obtain s1 where s1: "cpp_run ctor dtor self n (map EndBorrow bs) sc st = Inr (?sc1, s1)" "smart_ok self C0 ?sc1 s1"
    using end_borrows [OF assms(1,4,5)] by blast
  have "set xs = dom (owned ?sc1)" using assms(7) by simp
  then obtain s2 where s2: "cpp_run ctor dtor self n (map Destroy xs) ?sc1 s1 = Inr (?sc2, s2)" "smart_ok self C0 ?sc2 s2"
    using destroy_all [OF s1(2) _ assms(3,6)] by force
  have "held ?sc2 = {}" using assms(2) by (simp add: held_def)
  then have "rt_wf s2 \<and> cell_at s2 = C0" using s2(2) by (simp add: smart_ok_def heap_ok_def restrict_map_def fun_eq_iff)
  then show ?thesis using s1(1) s2(1) by (simp add: cpp_run_append)
qed

subsection \<open>Examples\<close>

text \<open>A class whose constructor clears the object and whose destructor does nothing.\<close>

definition zero_ctor :: "'x special" where
  "zero_ctor p st = Inr (put p (Filled 0) st)"

definition no_dtor :: "'x special" where
  "no_dtor p st = Inr st"

lemma example_class: "plain zero_ctor" "plain no_dtor"
proof -
  show "plain zero_ctor"
    unfolding plain_def zero_ctor_def using heap.store_result by blast
  have "\<exists>z. cell_at st = (cell_at st)(p \<mapsto> (m, z))" if "cell_at st p = Some (m, y)" for st :: "'b rt_scheme" and p m y
    using that by (intro exI [of _ y]) auto
  then show "plain (no_dtor :: 'b special)" by (auto simp: plain_def no_dtor_def)
qed

lemma empty_scope_ok: "rt_wf st \<Longrightarrow> smart_ok self (cell_at st) empty_scope st"
  by (simp add: smart_ok_def names_ok_def heap_ok_def empty_scope_def held_def restrict_map_def fun_eq_iff image_def)

theorem smart_pointers_sound_witness:
  "\<exists>sc' st'. cpp_step zero_ctor no_dtor 2 24 (Make 0) empty_scope roomy_start = Inr (sc', st') \<and>
     smart_ok 2 (cell_at roomy_start) sc' st'"
  using smart_pointers_sound [OF empty_scope_ok [OF roomy_start_wf] _ example_class, of "Make 0" 24 2]
  by (simp add: empty_scope_def INT_MAX_def del: cpp_step.simps)

theorem smart_scope_exit_witness:
  "\<exists>sc st sc' st'. cpp_run zero_ctor no_dtor 2 24 [Make 0, Borrow 0 0] empty_scope roomy_start = Inr (sc, st) \<and>
     cpp_run zero_ctor no_dtor 2 24 (map EndBorrow [0] @ map Destroy [0]) sc st = Inr (sc', st') \<and>
     cell_at st' = cell_at roomy_start"
proof -
  have "\<exists>s1. cpp_step zero_ctor no_dtor 2 24 (Make 0) empty_scope roomy_start = Inr (empty_scope\<lparr>owned := [0 \<mapsto> 0x1050]\<rparr>, s1)"
    by (simp add: make_owned_def zero_ctor_def roomy_start_def rt_eval empty_scope_def)
  then obtain s1 where s1: "cpp_step zero_ctor no_dtor 2 24 (Make 0) empty_scope roomy_start =
      Inr (empty_scope\<lparr>owned := [0 \<mapsto> 0x1050]\<rparr>, s1)" by blast
  let ?sc1 = "empty_scope\<lparr>owned := [0 \<mapsto> 0x1050]\<rparr>"
  have "scoped empty_scope (Make 0)" "unat (24 :: size_t) + 80 < 2 ^ 64" by (simp_all add: empty_scope_def)
  with s1 have ok1: "smart_ok 2 (cell_at roomy_start) ?sc1 s1"
    using make_ok [OF empty_scope_ok [OF roomy_start_wf], of 0 zero_ctor 24 no_dtor 2] example_class by auto
  have "borrowed ?sc1 0 = None" "(0x1050 :: addr) = 0 \<or> 0x1050 \<in> held ?sc1"
    "int (card (dom (borrowed ?sc1))) < INT_MAX" by (simp_all add: empty_scope_def held_def INT_MAX_def image_def)
  with ok1 obtain s2 where s2: "(if (0x1050 :: addr) \<noteq> 0 then ownership_borrow 2 0x1050 s1 else Inr s1) = Inr s2"
    "smart_ok 2 (cell_at roomy_start) (?sc1\<lparr>borrowed := (borrowed ?sc1)(0 \<mapsto> 0x1050)\<rparr>) s2" by (rule borrow_ok)
  let ?sc2 = "?sc1\<lparr>borrowed := (borrowed ?sc1)(0 \<mapsto> 0x1050)\<rparr>"
  have r: "cpp_run zero_ctor no_dtor 2 24 [Make 0, Borrow 0 0] empty_scope roomy_start = Inr (?sc2, s2)"
    using s1 s2(1) by (simp add: cpp_run_def borrow_init_def del: cpp_step.simps(1))
  have "raws ?sc2 = []" "distinct [0 :: nat]" "set [0] = dom (borrowed ?sc2)" "set [0] = dom (owned ?sc2)"
    by (simp_all add: empty_scope_def)
  with smart_scope_exit [OF s2(2) _ example_class(2), of "[0]" "[0]"] r show ?thesis by blast
qed

end
