(* ===== verification/Support.thy ===== *)
theory Support
  imports Vector SString
begin

text \<open>
  The small headers: the result type (\<open>ownedc_result.h\<close>), the replacements for the memory functions of the C
  library in the freestanding build (\<open>ownedc_env.h\<close>), the allocation functions for CHERI (\<open>ownedc_cheri.h\<close>) and the
  typed vectors (\<open>ownedc_generics.h\<close>).
\<close>

subsection \<open>Results\<close>

record owned_result =
  is_ok :: bool
  res_value :: addr
  error_code :: int

definition Ok :: "addr \<Rightarrow> owned_result" where
  "Ok v = \<lparr>is_ok = True, res_value = v, error_code = 0\<rparr>"

definition Err :: "int \<Rightarrow> owned_result" where
  "Err e = \<lparr>is_ok = False, res_value = 0, error_code = e\<rparr>"

definition owned_unwrap :: "owned_result \<Rightarrow> failure + addr" where
  "owned_unwrap res = (if \<not> is_ok res then Inl (Exited 1) else Inr (res_value res))"

text \<open>The early return of \<open>TRY_UNWRAP\<close>; \<open>k\<close> is the rest of the function, given the value that was assigned.\<close>

definition try_unwrap :: "owned_result \<Rightarrow> (addr \<Rightarrow> owned_result) \<Rightarrow> owned_result" where
  "try_unwrap res k = (if \<not> is_ok res then Err (error_code res) else k (res_value res))"

definition result_of :: "owned_result \<Rightarrow> int + addr" where
  "result_of res = (if is_ok res then Inr (res_value res) else Inl (error_code res))"

lemma result_of_simps [simp]: "result_of (Ok v) = Inr v" "result_of (Err e) = Inl e"
  by (simp_all add: result_of_def Ok_def Err_def)

lemma result_of_try: "result_of (try_unwrap res k) = bindE (result_of res) (\<lambda>v. result_of (k v))"
  by (simp add: try_unwrap_def result_of_def Err_def)

lemma owned_unwrap_result:
  "owned_unwrap res = (case result_of res of Inl e \<Rightarrow> Inl (Exited 1) | Inr v \<Rightarrow> Inr v)"
  by (simp add: owned_unwrap_def result_of_def)

text \<open>A function that tries one fallible call after the other.\<close>

fun try_all :: "(addr \<Rightarrow> owned_result) list \<Rightarrow> addr \<Rightarrow> owned_result" where
  "try_all [] v = Ok v"
| "try_all (f # fs) v = try_unwrap (f v) (try_all fs)"

lemma try_all_result: "result_of (try_all fs v) = foldE (\<lambda>f w. result_of (f w)) fs v"
  by (induction fs arbitrary: v) (simp_all add: result_of_try)

subsection \<open>The freestanding memory functions\<close>

primrec memset_loop :: "addr \<Rightarrow> nat \<Rightarrow> byte \<Rightarrow> nat \<Rightarrow> 'x rt_scheme \<Rightarrow> failure + 'x rt_scheme" where
  "memset_loop p i c 0 st = Inr st"
| "memset_loop p i c (Suc n) st = bindE (store_byte p i c st) (memset_loop p (i + 1) c n)"

definition ownedc_memset :: "addr \<Rightarrow> int \<Rightarrow> size_t \<Rightarrow> 'x rt_scheme \<Rightarrow> failure + (addr \<times> 'x rt_scheme)" where
  "ownedc_memset s c n st = bindE (memset_loop s 0 (of_int c) (unat n) st) (\<lambda>st. Inr (s, st))"

primrec memcpy_loop :: "addr \<Rightarrow> nat \<Rightarrow> cstr \<Rightarrow> nat \<Rightarrow> nat \<Rightarrow> 'x rt_scheme \<Rightarrow> failure + 'x rt_scheme" where
  "memcpy_loop d i s j 0 st = Inr st"
| "memcpy_loop d i s j (Suc n) st =
     bindE (cstr_byte st s j) (\<lambda>b. bindE (store_byte d i b st) (memcpy_loop d (i + 1) s (j + 1) n))"

definition ownedc_memcpy :: "addr \<Rightarrow> cstr \<Rightarrow> size_t \<Rightarrow> 'x rt_scheme \<Rightarrow> failure + (addr \<times> 'x rt_scheme)" where
  "ownedc_memcpy dest src n st = bindE (memcpy_loop dest 0 src 0 (unat n) st) (\<lambda>st. Inr (dest, st))"

definition ownedc_strlen :: "'x rt_scheme \<Rightarrow> cstr \<Rightarrow> failure + nat" where
  "ownedc_strlen st s = strlen_from st s 0"

lemma memcpy_loop_from:
  "memcpy_loop d (off + j) s j n st =
   foldE (\<lambda>i st. bindE (cstr_byte st s i) (\<lambda>b. store_byte d (off + i) b st)) [j..<j + n] st"
proof (induction n arbitrary: j st)
  case (Suc n)
  have u: "[j..<j + Suc n] = j # [Suc j..<Suc j + n]" by (simp add: upt_conv_Cons del: upt_Suc)
  have "memcpy_loop d (Suc (off + j)) s (Suc j) n st' =
      foldE (\<lambda>i st. bindE (cstr_byte st s i) (\<lambda>b. store_byte d (off + i) b st)) [Suc j..<Suc j + n] st'" for st' :: "'a rt_scheme"
    using Suc.IH [of "Suc j" st'] by simp
  then have "(memcpy_loop d (Suc (off + j)) s (Suc j) n :: 'a rt_scheme \<Rightarrow> _) =
      foldE (\<lambda>i st. bindE (cstr_byte st s i) (\<lambda>b. store_byte d (off + i) b st)) [Suc j..<Suc j + n]" by (rule ext)
  then show ?case unfolding u by (cases "cstr_byte st s j") (simp_all del: upt_Suc)
qed simp

lemma memset_loop_rep:
  assumes "rt_wf st" and "cell_at st p = Some (m, y)" and "i + n \<le> unat (m_size m)"
  shows "\<exists>st' z. memset_loop p i c n st = Inr st' \<and> rt_wf st' \<and> cell_at st' = (cell_at st)(p \<mapsto> (m, z)) \<and>
    byte_view z = (\<lambda>j. if i \<le> j \<and> j < i + n then Some c else byte_view y j)"
  using assms
proof (induction n arbitrary: i st y)
  case 0
  then show ?case by (intro exI [of _ st] exI [of _ y]) (auto simp: fun_eq_iff)
next
  case (Suc n)
  have "i < unat (m_size m)" using Suc.prems(3) by simp
  from byte_store [OF Suc.prems(1,2) this, of c] obtain s1 y1 where
    s1: "store_byte p i c st = Inr s1" "rt_wf s1" "cell_at s1 = (cell_at st)(p \<mapsto> (m, y1))" "byte_view y1 = (byte_view y)(i \<mapsto> c)"
    by auto
  have "cell_at s1 p = Some (m, y1)" using s1(3) by simp
  moreover have "i + 1 + n \<le> unat (m_size m)" using Suc.prems(3) by simp
  ultimately obtain st' z where
    "memset_loop p (i + 1) c n s1 = Inr st'" "rt_wf st'" "cell_at st' = (cell_at s1)(p \<mapsto> (m, z))"
    "byte_view z = (\<lambda>j. if i + 1 \<le> j \<and> j < i + 1 + n then Some c else byte_view y1 j)"
    using Suc.IH [OF s1(2)] by blast
  with s1 show ?case by (intro exI [of _ st'] exI [of _ z]) (auto simp: fun_eq_iff)
qed

subsection \<open>Allocation for CHERI\<close>

text \<open>
  \<open>bounds\<close> stands for \<open>cheri_bounds_set\<close>, an intrinsic of the compiler that gives a capability for a pointer and a
  length; \<open>nul\<close> is the null capability.
\<close>

definition owner_malloc_cheri ::
    "(addr \<Rightarrow> size_t \<Rightarrow> 'cap) \<Rightarrow> 'cap \<Rightarrow> tid \<Rightarrow> size_t \<Rightarrow> 'x rt_scheme \<Rightarrow> failure + ('cap \<times> 'x rt_scheme)" where
  "owner_malloc_cheri bounds nul self n st =
     bindE (owner_malloc self n st) (\<lambda>(ptr, st). Inr (if ptr = 0 then nul else bounds ptr n, st))"

definition owner_calloc_cheri ::
    "(addr \<Rightarrow> size_t \<Rightarrow> 'cap) \<Rightarrow> 'cap \<Rightarrow> tid \<Rightarrow> size_t \<Rightarrow> size_t \<Rightarrow> 'x rt_scheme \<Rightarrow> failure + ('cap \<times> 'x rt_scheme)" where
  "owner_calloc_cheri bounds nul self num n st =
     bindE (owner_calloc self num n st) (\<lambda>(ptr, st). Inr (if ptr = 0 then nul else bounds ptr (num * n), st))"

text \<open>Without the hardware.\<close>

definition owner_malloc_fallback :: "tid \<Rightarrow> size_t \<Rightarrow> 'x rt_scheme \<Rightarrow> failure + (addr \<times> 'x rt_scheme)" where
  "owner_malloc_fallback self n st = owner_malloc self n st"

definition owner_calloc_fallback :: "tid \<Rightarrow> size_t \<Rightarrow> size_t \<Rightarrow> 'x rt_scheme \<Rightarrow> failure + (addr \<times> 'x rt_scheme)" where
  "owner_calloc_fallback self num n st = owner_calloc self num n st"

lemma cheri_fallback:
  "owner_malloc_fallback self n st = owner_malloc_cheri (\<lambda>p n. p) 0 self n st"
  "owner_calloc_fallback self num n st = owner_calloc_cheri (\<lambda>p n. p) 0 self num n st"
  by (cases "owner_malloc self n st"; auto simp: owner_malloc_fallback_def owner_malloc_cheri_def split_beta)
    (cases "owner_calloc self num n st"; auto simp: owner_calloc_fallback_def owner_calloc_cheri_def split_beta)

text \<open>The bounds a capability gets are those of the object.\<close>

lemma cheri_bounds_exact:
  assumes "rt_wf st" and "owner_malloc_cheri Pair (0, 0) self n st = Inr ((p, k), st')" and "p \<noteq> 0"
  shows "k = n \<and> (\<exists>m y. cell_at st' p = Some (m, y) \<and> m_size m = k)"
proof -
  from assms(2,3) have r: "owner_malloc self n st = Inr (p, st')" "k = n"
    by (auto simp: owner_malloc_cheri_def bindE_eq_Inr split: if_splits)
  from heap.alloc_result [OF assms(1) r(1)] assms(3) have "cell_at st' p = Some (fresh_meta self n, Filled 0xAA)" by auto
  then show ?thesis using r(2) by (simp add: fresh_meta_def new_meta_def)
qed

subsection \<open>Typed vectors\<close>

definition vector_push :: "tid \<Rightarrow> addr \<Rightarrow> addr \<Rightarrow> 'x rt_scheme \<Rightarrow> failure + 'x rt_scheme" where
  "vector_push self inner item st = safe_vector_push self inner item st"

definition vector_get :: "addr \<Rightarrow> size_t \<Rightarrow> 'x rt_scheme \<Rightarrow> failure + addr" where
  "vector_get inner index st = safe_vector_get inner index st"

definition vector_length :: "addr \<Rightarrow> 'x rt_scheme \<Rightarrow> failure + size_t" where
  "vector_length inner st = safe_vector_length inner st"

definition vector_remove :: "addr \<Rightarrow> size_t \<Rightarrow> 'x rt_scheme \<Rightarrow> failure + 'x rt_scheme" where
  "vector_remove inner index st = safe_vector_remove inner index st"

subsection \<open>Properties\<close>

text \<open>The memory functions of the freestanding build do what those of the C library do: the copy loop is the library's
  copy, byte by byte from the front, for every source, and the fill loop writes the byte to exactly the bytes of the
  range, within the object.\<close>

theorem freestanding_memory:
  assumes "rt_wf st" and "cell_at st p = Some (m, y)" and "unat n \<le> unat (m_size m)"
  shows "ownedc_memcpy p src n st = bindE (memcpy p 0 src (unat n) st) (\<lambda>st. Inr (p, st)) \<and>
    (\<exists>st' z. ownedc_memset p c n st = Inr (p, st') \<and> rt_wf st' \<and> cell_at st' = (cell_at st)(p \<mapsto> (m, z)) \<and>
       byte_view z = (\<lambda>j. if j < unat n then Some (of_int c) else byte_view y j))"
proof -
  have "ownedc_memcpy p src n st = bindE (memcpy p 0 src (unat n) st) (\<lambda>st. Inr (p, st))"
    using memcpy_loop_from [of p 0 0 src "unat n" st] by (simp add: ownedc_memcpy_def memcpy_def)
  moreover have "0 + unat n \<le> unat (m_size m)" using assms(3) by simp
  ultimately show ?thesis using memset_loop_rep [OF assms(1,2), of 0 "unat n" "of_int c"]
    by (auto simp: ownedc_memset_def)
qed

theorem freestanding_memory_witness:
  "\<exists>(st :: rt) st' m z. cell_at st 0x1050 = Some (m, Filled 0xAA) \<and> ownedc_memset 0x1050 (- 1) 3 st = Inr (0x1050, st') \<and>
     cell_at st' 0x1050 = Some (m, z) \<and> byte_view z 2 = Some 255 \<and> byte_view z 3 = Some 0xAA"
proof -
  have e: "\<exists>s :: rt. owner_malloc 2 8 roomy_start = Inr (0x1050, s)" by (simp add: roomy_start_def rt_eval)
  then obtain s :: rt where s: "owner_malloc 2 8 roomy_start = Inr (0x1050, s)" by blast
  have c: "rt_wf s" "cell_at s 0x1050 = Some (fresh_meta 2 8, Filled 0xAA)"
    using heap.alloc_result [OF roomy_start_wf s] by simp_all
  have "unat (3 :: size_t) \<le> unat (m_size (fresh_meta 2 8))" by (simp add: fresh_meta_def new_meta_def)
  from freestanding_memory [OF c this, of "Lit []" "- 1"] obtain st' z where
    "ownedc_memset 0x1050 (- 1) 3 s = Inr (0x1050, st')" "cell_at st' = (cell_at s)(0x1050 \<mapsto> (fresh_meta 2 8, z))"
    "byte_view z = (\<lambda>j. if j < unat (3 :: size_t) then Some (of_int (- 1)) else byte_view (Filled 0xAA) j)" by blast
  then show ?thesis using c(2) by (intro exI [of _ s] exI [of _ st'] exI [of _ "fresh_meta 2 8"] exI [of _ z]) simp
qed

end
