(* ===== verification/Supply.thy ===== *)
theory Supply
  imports Region SString Handover Room
begin

text \<open>
  How many answers of the allocator the operations of strings and regions need: \<open>uses D n st st'\<close> says that a step
  from \<open>st\<close> to \<open>st'\<close> takes at most \<open>n\<close> of the blocks of \<open>D\<close> bytes there are room for, \<open>short D n st\<close> that there is
  no room for \<open>n\<close>.
\<close>

definition uses :: "nat \<Rightarrow> nat \<Rightarrow> 'x rt_scheme \<Rightarrow> 'x rt_scheme \<Rightarrow> bool" where
  "uses D n st st' \<longleftrightarrow> (\<forall>k. room (n + k) D st \<longrightarrow> room k D st')"

definition short :: "nat \<Rightarrow> nat \<Rightarrow> 'x rt_scheme \<Rightarrow> bool" where
  "short D n st \<longleftrightarrow> \<not> room n D st"

lemma uses_refl [simp]: "uses D 0 st st"
  by (simp add: uses_def)

lemma uses_trans: "uses D a st st1 \<Longrightarrow> uses D b st1 st2 \<Longrightarrow> uses D (a + b) st st2"
  by (simp add: uses_def add.assoc)

lemma uses_trans0: "uses D n st st1 \<Longrightarrow> uses D 0 st1 st2 \<Longrightarrow> uses D n st st2"
  using uses_trans [of D n st st1 0 st2] by simp

lemma uses_mono: "uses D a st st' \<Longrightarrow> a \<le> b \<Longrightarrow> uses D b st st'"
  unfolding uses_def by (meson add_le_mono1 room_less)

lemma short_after: "uses D a st st1 \<Longrightarrow> short D b st1 \<Longrightarrow> short D (a + b) st"
  by (auto simp: uses_def short_def)

lemma short_mono: "short D a st \<Longrightarrow> a \<le> b \<Longrightarrow> short D b st"
  by (auto simp: short_def dest: room_less)

lemma uses_short: "short D n st \<Longrightarrow> uses D n st st'"
  unfolding uses_def short_def using room_less le_add1 by blast

lemma uses_blocks: "same_blocks st st' \<Longrightarrow> uses D 0 st st'"
  by (simp add: uses_def room_blocks)

lemma uses_put [simp]: "uses D 0 st (put p x st)"
  by (simp add: uses_def)

lemma uses_free: "owner_free self p st = Inr st' \<Longrightarrow> uses D 0 st st'"
  by (simp add: uses_def free_room)

lemma uses_store_byte: "store_byte p i b st = Inr st' \<Longrightarrow> uses D 0 st st'"
  by (auto simp: store_byte_def split: option.splits if_splits)

lemma uses_foldE:
  assumes "foldE f xs st = Inr st'" and "\<And>x s s'. f x s = Inr s' \<Longrightarrow> uses D 0 s s'"
  shows "uses D 0 st st'"
  by (rule foldE_invariant [OF assms(1), of "uses D 0 st"]) (auto intro: uses_trans0 dest: assms(2))

lemma uses_memcpy: "memcpy p off c n st = Inr st' \<Longrightarrow> uses D 0 st st'"
  unfolding memcpy_def by (erule uses_foldE) (auto simp: bindE_eq_Inr uses_store_byte)

lemma uses_ownership:
  "ownership_borrow self p st = Inr st' \<Longrightarrow> uses D 0 st st'"
  "ownership_release p st = Inr st' \<Longrightarrow> uses D 0 st st'"
  "ownership_share self p st = Inr st' \<Longrightarrow> uses D 0 st st'"
  by (auto simp: ownership_borrow_def ownership_release_def ownership_share_def bindE_eq_Inr
      split: if_splits option.splits intro: uses_blocks upd_hdr_blocks)

subsection \<open>Allocation\<close>

lemma alloc_supply:
  assumes "rt_wf st" and "unat n + 80 \<le> D" and "D < 2 ^ 64"
  obtains (null) st' where "owner_malloc self n st = Inr (0, st')" and "rt_wf st'"
      and "rt.more st' = rt.more st" and "cell_at st' = cell_at st" and "short D 1 st"
  | (object) p st' where "owner_malloc self n st = Inr (p, st')" and "p \<noteq> 0" and "rt_wf st'"
      and "rt.more st' = rt.more st" and "cell_at st p = None"
      and "cell_at st' = (cell_at st)(p \<mapsto> (fresh_meta self n, Filled 0xAA))" and "uses D 1 st st'"
proof -
  have n: "unat n + 80 < 2 ^ 64" using assms(2,3) by simp
  have r: "\<exists>p st'. owner_malloc self n st = Inr (p, st') \<and> p \<noteq> 0 \<and> room k D st'" if k: "room (Suc k) D st" for k
    by (rule malloc_room [OF assms(1) k assms(2), of self]) blast
  from assms(1) n show thesis
  proof (cases rule: heap.alloc_cases [where self = self])
    case (null st')
    have "short D 1 st" using r [of 0] null(1) by (auto simp: short_def)
    then show thesis using that(1) null by blast
  next
    case (object p st')
    have "uses D 1 st st'" using r object(1) by (fastforce simp: uses_def)
    then show thesis using that(2) object by blast
  qed
qed

lemma resize_supply:
  assumes "rt_wf st" and "cell_at st p = Some (m, x)" and "realloc_ok self m" and "n \<noteq> 0"
    and "unat n + 80 \<le> D"
  shows "owner_realloc self p n st = Inr (0, st') \<Longrightarrow> short D 1 st"
    and "owner_realloc self p n st = Inr (q, st') \<Longrightarrow> uses D 1 st st'"
proof -
  have r: "\<exists>q st'. owner_realloc self p n st = Inr (q, st') \<and> q \<noteq> 0 \<and> room k D st'" if k: "room (Suc k) D st" for k
    by (rule realloc_room [OF assms(1-4) k assms(5)]) blast
  show "owner_realloc self p n st = Inr (0, st') \<Longrightarrow> short D 1 st" using r [of 0] by (auto simp: short_def)
  show "owner_realloc self p n st = Inr (q, st') \<Longrightarrow> uses D 1 st st'" using r by (fastforce simp: uses_def)
qed

subsection \<open>Strings\<close>

lemma grow_supply:
  assumes "rt_wf st" and "str_rep self st str data cap bs"
    and "2 * cap + 80 \<le> D" and "unat want + 80 \<le> D" and "D < 2 ^ 64"
  shows "safe_string_grow self str want st = Inl e \<Longrightarrow> short D 1 st"
    and "safe_string_grow self str want st = Inr st' \<Longrightarrow> uses D 1 st st'"
proof -
  obtain m s md y where r: "cell_at st str = Some (m, Str s)" "free_ok self m" "str_data s = data"
    "cell_at st data = Some (md, y)" "free_ok self md" "unat (m_size md) = cap"
    "unat (str_capacity s) = cap" "unat (str_length s) = length bs" "length bs < cap"
    using assms(2) by (rule str_repE)
  have f: "field str_of st str = Inr s" by (rule field_cell [OF assms(1) r(1)]) simp
  let ?new = "if str_capacity s * 2 < want then want else str_capacity s * 2"
  have c0: "str_capacity s \<noteq> 0" using r(7,9) by (simp add: unat_gt_0 [symmetric])
  have c2: "unat (str_capacity s * 2) = 2 * cap"
    using unat_mult_no_overflow [of "str_capacity s" 2] assms(3,5) r(7) by simp
  have nd: "unat ?new + 80 \<le> D" using c2 assms(3,4) by (simp split: if_split)
  have "0 < unat ?new" using c2 r(9) by (auto simp: word_less_nat_alt)
  then have nz: "?new \<noteq> 0" unfolding unat_gt_0 .
  note z = resize_supply [OF assms(1) r(4) free_ok_realloc_ok [OF r(5)] nz nd]
  have run: "safe_string_grow self str want st =
      (if want \<le> str_capacity s then Inr st
       else bindE (owner_realloc self data ?new st) (\<lambda>(new_data, st).
         if new_data = 0 then Inl (Aborted ''Out of memory in safe_string_grow'')
         else Inr (put str (Str (s\<lparr>str_data := new_data, str_capacity := ?new\<rparr>)) st)))"
    using f c0 r(3) by (simp add: safe_string_grow_def Let_def)
  have n: "unat ?new + 80 < 2 ^ 64" using nd assms(5) by simp
  show "short D 1 st" if "safe_string_grow self str want st = Inl e"
  proof -
    from assms(1) r(4) free_ok_realloc_ok [OF r(5)] nz n show ?thesis
    proof (cases rule: heap.resize_cases)
      case (null s')
      show ?thesis by (rule z(1) [OF null(1)])
    next
      case (object q s')
      then show ?thesis using that run by (simp split: if_splits)
    qed
  qed
  show "uses D 1 st st'" if e: "safe_string_grow self str want st = Inr st'"
  proof (cases "want \<le> str_capacity s")
    case True
    then show ?thesis using e run by (auto intro: uses_mono [of D 0])
  next
    case False
    then obtain q s1 where "owner_realloc self data ?new st = Inr (q, s1)"
      "st' = put str (Str (s\<lparr>str_data := q, str_capacity := ?new\<rparr>)) s1"
      using e run by (auto simp: bindE_eq_Inr split: if_splits)
    then show ?thesis using z(2) uses_trans0 uses_put by metis
  qed
qed

lemma append_cstr_supply:
  assumes "rt_wf st" and "str_rep self st str data cap bs" and n: "\<not> cstr_null c"
    and h: "\<And>s'. rt_wf s' \<Longrightarrow> keeps {str, data} st s' \<Longrightarrow> holds s' c suf"
    and "2 * cap + 80 \<le> D" and "length bs + length suf + 81 \<le> D" and "D < 2 ^ 64"
  shows "safe_string_append self str c st = Inl e \<Longrightarrow> short D 1 st"
    and "safe_string_append self str c st = Inr st' \<Longrightarrow> uses D 1 st st'"
proof -
  have str0: "str \<noteq> 0" using assms(2) by (rule str_repE)
  obtain m s where r: "cell_at st str = Some (m, Str s)" "unat (str_length s) = length bs"
    using assms(2) by (rule str_repE)
  have f: "field str_of st str = Inr s" by (rule field_cell [OF assms(1) r(1)]) simp
  have sl: "strlen_from st c 0 = Inr (length suf)" by (rule strlen_holds [OF h [OF assms(1)]]) simp
  let ?want = "str_length s + of_nat (length suf) + 1"
  have l64: "length bs + length suf + 81 < 2 ^ 64" using assms(6,7) by simp
  have w1: "unat (str_length s + of_nat (length suf)) = length bs + length suf"
    using unat_add_no_overflow [of "str_length s" "of_nat (length suf)"] l64 r(2) by (simp add: unat_of_nat_lt)
  then have "unat ?want = length bs + length suf + 1"
    using unat_add_no_overflow [of "str_length s + of_nat (length suf)" 1] l64 by simp
  then have want: "unat ?want + 80 \<le> D" using assms(6) by simp
  note g = grow_supply [OF assms(1,2,5) want assms(7)]
  have run: "safe_string_append self str c st =
      (if suf = [] then Inr st
       else bindE (safe_string_grow self str ?want st) (\<lambda>st.
            bindE (field str_of st str) (\<lambda>s.
            bindE (memcpy (str_data s) (unat (str_length s)) c (length suf) st) (\<lambda>st.
            let s = s\<lparr>str_length := str_length s + of_nat (length suf)\<rparr> in
            store_byte (str_data s) (unat (str_length s)) 0 (put str (Str s) st)))))"
    using str0 f sl n by (simp add: safe_string_append_def)
  have b: "2 * cap + 80 < 2 ^ 64" using assms(5,7) by simp
  show "short D 1 st" if e: "safe_string_append self str c st = Inl e"
  proof -
    from safe_string_append_rep [OF assms(1,2) n h b l64] e
    obtain w where w: "unat w = length bs + length suf + 1"
      "safe_string_grow self str w st = Inl (Aborted ''Out of memory in safe_string_grow'')" by auto
    have "unat w + 80 \<le> D" using w(1) assms(6) by simp
    from grow_supply(1) [OF assms(1,2,5) this assms(7) w(2)] show ?thesis .
  qed
  show "uses D 1 st st'" if e: "safe_string_append self str c st = Inr st'"
  proof (cases "suf = []")
    case True
    then show ?thesis using e run by (auto intro: uses_mono [of D 0])
  next
    case False
    then obtain s1 t s2 s3 where "safe_string_grow self str ?want st = Inr s1"
      "memcpy (str_data t) (unat (str_length t)) c (length suf) s1 = Inr s2"
      "s3 = put str (Str (t\<lparr>str_length := str_length t + of_nat (length suf)\<rparr>)) s2"
      "store_byte (str_data t) (unat (str_length t + of_nat (length suf))) 0 s3 = Inr st'"
      using e run by (auto simp: bindE_eq_Inr Let_def)
    then show ?thesis using g(2) uses_memcpy uses_put uses_store_byte uses_trans0 by metis
  qed
qed

lemma append_supply:
  assumes "rt_wf st" and "str_rep self st str data cap bs" and "0 \<notin> set suf"
    and "2 * cap + 80 \<le> D" and "length bs + length suf + 81 \<le> D" and "D < 2 ^ 64"
  shows "safe_string_append self str (Lit suf) st = Inl e \<Longrightarrow> short D 1 st"
    and "safe_string_append self str (Lit suf) st = Inr st' \<Longrightarrow> uses D 1 st st'"
  using append_cstr_supply [OF assms(1,2) _ holds_Lit [OF assms(3)] assms(4-6)] by (simp_all add: cstr_null_def)

lemma push_supply:
  assumes "rt_wf st" and "str_rep self st str data cap bs" and "2 * cap + 80 \<le> D" and "length bs + 82 \<le> D" and "D < 2 ^ 64"
  shows "safe_string_push_char self str c st = Inl e \<Longrightarrow> short D 1 st"
    and "safe_string_push_char self str c st = Inr st' \<Longrightarrow> uses D 1 st st'"
proof -
  have str0: "str \<noteq> 0" using assms(2) by (rule str_repE)
  obtain m s where r: "cell_at st str = Some (m, Str s)" "unat (str_length s) = length bs"
    using assms(2) by (rule str_repE)
  have f: "field str_of st str = Inr s" by (rule field_cell [OF assms(1) r(1)]) simp
  have b: "2 * cap + 80 < 2 ^ 64" "length bs + 82 < 2 ^ 64" using assms(3-5) by simp_all
  have "unat (str_length s + 2) = length bs + 2"
    using unat_add_no_overflow [of "str_length s" 2] b(2) r(2) by simp
  then have want: "unat (str_length s + 2) + 80 \<le> D" using assms(4) by simp
  show "short D 1 st" if e: "safe_string_push_char self str c st = Inl e"
  proof -
    from safe_string_push_char_rep [OF assms(1,2) b, of c] e
    obtain w where w: "unat w = length bs + 2"
      "safe_string_grow self str w st = Inl (Aborted ''Out of memory in safe_string_grow'')" by auto
    have "unat w + 80 \<le> D" using w(1) assms(4) by simp
    from grow_supply(1) [OF assms(1,2,3) this assms(5) w(2)] show ?thesis .
  qed
  show "uses D 1 st st'" if e: "safe_string_push_char self str c st = Inr st'"
  proof -
    obtain s1 t s2 where g: "safe_string_grow self str (str_length s + 2) st = Inr s1"
      "store_byte (str_data t) (unat (str_length t)) c s1 = Inr s2"
      "store_byte (str_data t) (unat (str_length t + 1)) 0 (put str (Str (t\<lparr>str_length := str_length t + 1\<rparr>)) s2) = Inr st'"
      using e f str0 by (auto simp: safe_string_push_char_def bindE_eq_Inr Let_def)
    have "uses D 1 st s1" by (rule grow_supply(2) [OF assms(1,2,3) want assms(5) g(1)])
    then show ?thesis using g(2,3) uses_put uses_store_byte uses_trans0 by metis
  qed
qed

lemma grow_first_supply:
  assumes "rt_wf st" and "cell_at st str = Some (m, Str \<lparr>str_data = 0, str_length = 0, str_capacity = 0\<rparr>)"
    and "want \<noteq> 0" and "unat want + 96 \<le> D" and "D < 2 ^ 64"
  shows "safe_string_grow self str want st = Inl e \<Longrightarrow> short D 1 st"
    and "safe_string_grow self str want st = Inr st' \<Longrightarrow> uses D 1 st st'"
proof -
  let ?s = "\<lparr>str_data = 0, str_length = 0, str_capacity = 0\<rparr>"
  let ?new = "if 16 < want then want else 16"
  have f: "field str_of st str = Inr ?s" by (rule field_cell [OF assms(1,2)]) simp
  have n: "unat ?new + 80 \<le> D" using assms(4) by simp
  have run: "safe_string_grow self str want st =
      bindE (owner_malloc self ?new st) (\<lambda>(new_data, st).
        if new_data = 0 then Inl (Aborted ''Out of memory in safe_string_grow'')
        else Inr (put str (Str (?s\<lparr>str_data := new_data, str_capacity := ?new\<rparr>)) st))"
    using f assms(3) by (simp add: safe_string_grow_def owner_realloc_null Let_def)
  from assms(1) n assms(5)
  have "(safe_string_grow self str want st = Inl e \<longrightarrow> short D 1 st) \<and>
    (safe_string_grow self str want st = Inr st' \<longrightarrow> uses D 1 st st')"
  proof (cases rule: alloc_supply [where self = self])
    case (null s1)
    then show ?thesis unfolding run by simp
  next
    case (object q s1)
    then show ?thesis unfolding run using uses_trans0 [OF object(7)] by auto
  qed
  then show "safe_string_grow self str want st = Inl e \<Longrightarrow> short D 1 st"
    and "safe_string_grow self str want st = Inr st' \<Longrightarrow> uses D 1 st st'" by blast+
qed

lemma new_supply:
  assumes "rt_wf st" and "0 \<notin> set bs" and "length bs + 97 \<le> D" and "104 \<le> D" and "D < 2 ^ 64"
  shows "safe_string_new self (Lit bs) st = Inl e \<Longrightarrow> short D 2 st"
    and "safe_string_new self (Lit bs) st = Inr (0, st') \<Longrightarrow> short D 2 st"
    and "safe_string_new self (Lit bs) st = Inr (str, st') \<Longrightarrow> uses D 2 st st'"
proof -
  have h: "holds s' (Lit bs) bs" for s' :: "'a rt_scheme" by (rule holds_Lit [OF assms(2)])
  have nn: "\<not> cstr_null (Lit bs)" by (simp add: cstr_null_def)
  have l: "length bs + 97 < 2 ^ 64" using assms(3,5) by simp
  have n: "unat (24 :: size_t) + 80 \<le> D" using assms(4) by simp
  let ?s = "Str \<lparr>str_data = 0, str_length = 0, str_capacity = 0\<rparr>"
  have want: "w \<noteq> 0 \<and> unat w + 96 \<le> D" if "unat w = length bs + 1" for w :: size_t
    using that assms(3) by (auto simp: unat_gt_0 [symmetric])
  note rep = safe_string_new_rep [OF assms(1) nn h l, of self]
  from assms(1) n assms(5)
  have "(safe_string_new self (Lit bs) st = Inl e \<longrightarrow> short D 2 st) \<and>
    (safe_string_new self (Lit bs) st = Inr (0, st') \<longrightarrow> short D 2 st) \<and>
    (safe_string_new self (Lit bs) st = Inr (str, st') \<longrightarrow> uses D 2 st st')"
  proof (cases rule: alloc_supply [where self = self])
    case (null s1)
    then have "safe_string_new self (Lit bs) st = Inr (0, s1)" by (simp add: safe_string_new_def)
    moreover have "short D 2 st" by (rule short_mono [OF null(5)]) simp
    ultimately show ?thesis using uses_short by blast
  next
    case (object p s1)
    have c1: "cell_at s1 p = Some (fresh_meta self 24, Filled 0xAA)" using object(6) by simp
    note q = heap.store_result [OF object(3) c1, of ?s]
    have c2: "cell_at (put p ?s s1) p = Some (fresh_meta self 24, ?s)" using q by simp
    have u1: "uses D 1 st (put p ?s s1)" using uses_trans0 [OF object(7)] by simp
    note g = grow_first_supply [OF conjunct1 [OF q] c2 conjunct1 [OF want] conjunct2 [OF want] assms(5), of _ self]
    have fail: "short D 2 st" if e: "safe_string_new self (Lit bs) st = Inl e"
    proof -
      from rep e obtain w where w: "unat w = length bs + 1"
        "safe_string_grow self p w (put p ?s s1) = Inl (Aborted ''Out of memory in safe_string_grow'')"
        using object(1) by auto
      show ?thesis using short_after [OF u1 g(1) [OF w(1) w(1) w(2)]] by (simp add: numeral_2_eq_2)
    qed
    have ok: "str = p \<and> uses D 2 st st'" if e: "safe_string_new self (Lit bs) st = Inr (str, st')" for str
    proof -
      have sl: "strlen_from (put p ?s s1) (Lit bs) 0 = Inr (length bs)" by (rule strlen_holds [OF h])
      have w: "unat (of_nat (length bs) + 1 :: size_t) = length bs + 1"
        using unat_add_no_overflow [of "of_nat (length bs) :: size_t" 1] l by (simp add: unat_of_nat_lt)
      obtain s2 t s3 s4 where s: "safe_string_grow self p (of_nat (length bs) + 1) (put p ?s s1) = Inr s2"
        "memcpy (str_data t) 0 (Lit bs) (length bs) s2 = Inr s3" "store_byte (str_data t) (length bs) 0 s3 = Inr s4"
        "str = p" "st' = put p (Str (t\<lparr>str_length := of_nat (length bs)\<rparr>)) s4"
        using e object(1,2) nn sl by (auto simp: safe_string_new_def bindE_eq_Inr Let_def)
      have "uses D 1 (put p ?s s1) s2" by (rule g(2) [OF w w s(1)])
      from uses_trans [OF u1 this] have "uses D 2 st s2" by (simp add: numeral_2_eq_2)
      then show ?thesis using s(2-5) by (metis uses_trans0 uses_memcpy uses_store_byte uses_put)
    qed
    show ?thesis using fail ok [of str] ok [of 0] object(2) by blast
  qed
  then show "safe_string_new self (Lit bs) st = Inl e \<Longrightarrow> short D 2 st"
    and "safe_string_new self (Lit bs) st = Inr (0, st') \<Longrightarrow> short D 2 st"
    and "safe_string_new self (Lit bs) st = Inr (str, st') \<Longrightarrow> uses D 2 st st'" by blast+
qed

lemma uses_string_free:
  assumes "safe_string_free self str st = Inr st'"
  shows "uses D 0 st st'"
proof (cases "str = 0")
  case True
  then show ?thesis using assms by (simp add: safe_string_free_def)
next
  case False
  then obtain s s1 where "(if str_data s \<noteq> 0
       then bindE (owner_free self (str_data s) st) (\<lambda>st. Inr (put str (Str (s\<lparr>str_data := 0\<rparr>)) st))
       else Inr st) = Inr s1" "owner_free self str s1 = Inr st'"
    using assms by (auto simp: safe_string_free_def bindE_eq_Inr)
  moreover from this(1) have "uses D 0 st s1"
    by (auto simp: bindE_eq_Inr split: if_splits intro: uses_trans0 [OF uses_free])
  ultimately show ?thesis using uses_trans0 uses_free by blast
qed

subsection \<open>Regions\<close>

lemma uses_free_chain:
  assumes "free_chain sel self a st = Some r" and "r = Inr st'"
  shows "uses D 0 st st'"
proof -
  have "\<forall>st'. r = Inr st' \<longrightarrow> uses D 0 st st'"
  proof (rule free_chain.raw_induct [OF _ assms(1), where P = "\<lambda>sel self a st r. \<forall>st'. r = Inr st' \<longrightarrow> uses D 0 st st'"])
    fix fc :: "chunk_sel \<Rightarrow> tid \<Rightarrow> addr \<Rightarrow> 'a rt_scheme \<Rightarrow> (failure + 'a rt_scheme) option" and sel self a st r
    assume IH: "\<And>sel self a st r. fc sel self a st = Some r \<Longrightarrow> \<forall>st'. r = Inr st' \<longrightarrow> uses D 0 st st'"
      and r: "(if a = 0 then Some (Inr st)
        else case field sel st a of
             Inl e \<Rightarrow> Some (Inl e)
           | Inr (u, c, nx) \<Rightarrow>
               (case owner_free self a st of Inl e \<Rightarrow> Some (Inl e) | Inr st' \<Rightarrow> fc sel self nx st')) = Some r"
    show "\<forall>st'. r = Inr st' \<longrightarrow> uses D 0 st st'"
      using r by (auto split: if_splits sum.splits prod.splits dest: IH intro: uses_trans0 [OF uses_free])
  qed
  with assms(2) show ?thesis by blast
qed

lemma uses_region_free: "safe_region_free self region st = Inr st' \<Longrightarrow> uses D 0 st st'"
  by (auto simp: safe_region_free_def bindE_eq_Inr returned_def split: if_splits option.splits
      intro: uses_trans0 [OF uses_free_chain uses_free])

text \<open>Creating a region, and its first allocation.\<close>

lemma region_create_supply:
  assumes "rt_wf st" and "n \<noteq> 0" and "unat n + 104 \<le> D" and "D < 2 ^ 64"
  shows "safe_region_create self n st = Inr (0, st') \<Longrightarrow> short D 2 st"
    and "safe_region_create self n st = Inr (region, st') \<Longrightarrow> uses D 2 st st'"
    and "safe_region_create self n st = Inr (region, st') \<Longrightarrow> region \<noteq> 0 \<Longrightarrow>
      \<exists>r. payload st' region = Some (Region r) \<and> reg_chunk_size r = n"
proof -
  have n16: "unat (16 :: size_t) + 80 \<le> D" using assms(3) by simp
  have u: "unat (24 + n) = 24 + unat n" using unat_add_no_overflow [of 24 n] assms(3,4) by simp
  have n24: "unat (24 + n) + 80 \<le> D" unfolding u using assms(3) by simp
  from assms(1) n16 assms(4)
  have "(safe_region_create self n st = Inr (0, st') \<longrightarrow> short D 2 st) \<and>
    (safe_region_create self n st = Inr (region, st') \<longrightarrow> uses D 2 st st') \<and>
    (safe_region_create self n st = Inr (region, st') \<longrightarrow> region \<noteq> 0 \<longrightarrow>
      (\<exists>r. payload st' region = Some (Region r) \<and> reg_chunk_size r = n))"
  proof (cases rule: alloc_supply [where self = self])
    case (null s1)
    then have r: "safe_region_create self n st = Inr (0, s1)" by (simp add: safe_region_create_def)
    have "short D 2 st" by (rule short_mono [OF null(5)]) simp
    with r show ?thesis using uses_short by auto
  next
    case reg: (object p s1)
    from reg(3) n24 assms(4) show ?thesis
    proof (cases rule: alloc_supply [where self = self])
      case (null s2)
      have "short D 2 st" using short_after [OF reg(7) null(5)] by (simp add: numeral_2_eq_2)
      moreover have "region = 0" if "safe_region_create self n st = Inr (region, st')"
        using that reg(1,2) null(1) assms(2) by (auto simp: safe_region_create_def bindE_eq_Inr)
      ultimately show ?thesis using uses_short by auto
    next
      case (object q s2)
      let ?r = "\<lparr>reg_current_chunk = q, reg_chunk_size = n\<rparr>"
      let ?s3 = "put p (Region ?r) (put q (RChunk \<lparr>ck_used = 0, ck_capacity = n, ck_next = 0\<rparr>) s2)"
      have r: "safe_region_create self n st = Inr (p, ?s3)"
        using reg(1,2) object(1,2) assms(2) by (simp add: safe_region_create_def Let_def)
      have "uses D 2 st s2" using uses_trans [OF reg(7) object(7)] by (simp add: numeral_2_eq_2)
      then have "uses D 2 st ?s3" by (meson uses_trans0 uses_put)
      with r reg(2) show ?thesis by auto
    qed
  qed
  then show "safe_region_create self n st = Inr (0, st') \<Longrightarrow> short D 2 st"
    and "safe_region_create self n st = Inr (region, st') \<Longrightarrow> uses D 2 st st'"
    and "safe_region_create self n st = Inr (region, st') \<Longrightarrow> region \<noteq> 0 \<Longrightarrow>
      \<exists>r. payload st' region = Some (Region r) \<and> reg_chunk_size r = n" by blast+
qed

lemma uses_region_bump: "region_bump a n st = Inr (p, st') \<Longrightarrow> uses D 0 st st'"
  by (auto simp: region_bump_def bindE_eq_Inr)

lemma offset_nonnull:
  assumes "unat a + 24 + k < 2 ^ 64"
  shows "a + 24 + of_nat k \<noteq> (0 :: addr)"
proof -
  have "unat (a + 24) = unat a + 24" using unat_add_no_overflow [of a 24] assms by simp
  then have u: "unat (a + 24 + of_nat k) = unat a + 24 + k"
    using unat_add_no_overflow [of "a + 24" "of_nat k"] assms by (simp add: unat_of_nat_lt)
  show ?thesis
  proof
    assume "a + 24 + of_nat k = 0"
    then have "unat (a + 24 + of_nat k) = unat (0 :: addr)" by (rule arg_cong)
    from trans [OF u [symmetric] this] show False by simp
  qed
qed

lemma region_alloc_supply:
  assumes "rt_wf st" and "region_rep self st region cs" and "payload st region = Some (Region r)"
    and "n \<noteq> 0" and "unat (align8 n) + 104 \<le> D" and "unat (reg_chunk_size r) + 104 \<le> D"
    and "D < 2 ^ 64" and res: "safe_region_alloc self region n st = Inr (p, st')"
  shows "uses D 1 st st'" and "p = 0 \<Longrightarrow> short D 1 st"
proof -
  obtain a u c cs1 where cs: "cs = (a, u, c) # cs1"
    using assms(2) by (cases cs) (auto simp: region_rep_def)
  obtain m r' where r': "cell_at st region = Some (m, Region r')"
    "chain region_view self st (reg_current_chunk r') cs" "region \<noteq> 0"
    using assms(2) by (rule region_repE)
  have rr: "r' = r" using cell_payload [OF assms(1) r'(1)] assms(3) by simp
  obtain nx where nx: "chunk_cell region_view self st a u c nx" "reg_current_chunk r = a"
    using r'(2) unfolding cs rr by (rule chain_ConsE)
  from nx(1) obtain mc x w v where cell: "cell_at st a = Some (mc, x)" "region_view x = Some (w, v, nx)"
    "unat w = u" "unat v = c" "u \<le> c" "unat (m_size mc) = 24 + c"
    by (rule chunk_cellE)
  have fr: "field region_of st region = Inr r" by (rule field_cell [OF assms(1) r'(1)]) (simp add: rr)
  have f: "field region_view st a = Inr (w, v, nx)"
    by (rule field_cell [where sel = region_view, OF assms(1) cell(1)]) (rule cell(2))
  let ?sz = "align8 n"
  let ?new = "if ?sz > reg_chunk_size r then ?sz else reg_chunk_size r"
  have run: "safe_region_alloc self region n st =
      (if w + ?sz > v then
         bindE (owner_malloc self (24 + ?new) st) (\<lambda>(new_chunk, st).
           if new_chunk = 0 then Inr (0, st)
           else region_bump new_chunk ?sz
             (put region (Region (r\<lparr>reg_current_chunk := new_chunk\<rparr>))
               (put new_chunk (RChunk \<lparr>ck_used = 0, ck_capacity = ?new, ck_next = a\<rparr>) st)))
       else region_bump a ?sz st)"
    using assms(4) r'(3) fr f nx(2) by (simp add: safe_region_alloc_def Let_def cong: if_cong)
  have u: "unat (24 + ?new) = 24 + unat ?new" using unat_add_no_overflow [of 24 ?new] assms(5-7) by simp
  have n: "unat (24 + ?new) + 80 \<le> D" unfolding u using assms(5,6) by simp
  have "uses D 1 st st' \<and> (p = 0 \<longrightarrow> short D 1 st)"
  proof (cases "w + ?sz > v")
    case False
    then have b: "region_bump a ?sz st = Inr (p, st')" using run res by simp
    then have "p = a + 24 + w" using f by (simp add: region_bump_def)
    moreover have "unat a + 24 + u < 2 ^ 64" using cell_place(2) [OF assms(1) cell(1)] cell(5,6) by simp
    ultimately have "p \<noteq> 0" using offset_nonnull [of a u] cell(3) by auto
    then show ?thesis using uses_mono [OF uses_region_bump [OF b]] by simp
  next
    case True
    from assms(1) n assms(7) show ?thesis
    proof (cases rule: alloc_supply [where self = self])
      case (null s1)
      then show ?thesis using run res True uses_short by auto
    next
      case (object q s1)
      let ?s = "put region (Region (r\<lparr>reg_current_chunk := q\<rparr>))
        (put q (RChunk \<lparr>ck_used = 0, ck_capacity = ?new, ck_next = a\<rparr>) s1)"
      have b: "region_bump q ?sz ?s = Inr (p, st')" using run res True object(1,2) by simp
      have qr: "q \<noteq> region" using object(5) r'(1) by auto
      have "p = q + 24 + of_nat 0" using b qr by (simp add: region_bump_def field_def)
      moreover have "cell_at s1 q = Some (fresh_meta self (24 + ?new), Filled 0xAA)" using object(6) by simp
      then have "unat q + 24 + 0 < 2 ^ 64"
        using cell_place(2) [OF object(3)] u by (metis (no_types, lifting) add.assoc add_lessD1 add_0_right fresh_meta_simps(2))
      ultimately have "p \<noteq> 0" using offset_nonnull [of q 0] by simp
      moreover have "uses D 1 st st'"
        using uses_trans0 [OF object(7)] uses_trans0 [OF uses_put uses_region_bump [OF b]] uses_trans0 uses_put by metis
      ultimately show ?thesis by simp
    qed
  qed
  then show "uses D 1 st st'" and "p = 0 \<Longrightarrow> short D 1 st" by blast+
qed

end
