(* ===== verification/Server.thy ===== *)
theory Server
  imports Supply
begin

text \<open>
  The HTTP server of \<open>examples/owned_http_server.c\<close>, a client that composes the runtime, regions and strings: the
  accepting thread allocates a context for each client and shares it, a worker borrows it, takes the temporary memory
  of the request from a region, builds the answer in a string and releases everything.  What the operating system
  does is an input: the socket that \<open>accept\<close> returns, whether \<open>pthread_create\<close> succeeds, and the bytes \<open>read\<close> delivers
  (\<open>None\<close> for an error).  A worker runs from its start to its end before the next client is accepted.
\<close>

subsection \<open>The request\<close>

definition BUFFER_SIZE :: size_t where
  "BUFFER_SIZE = 4096"

fun context_of :: "payload \<Rightarrow> client_context option" where
  "context_of (Client c) = Some c"
| "context_of _ = None"

text \<open>\<open>read(client_sock, buffer, BUFFER_SIZE - 1)\<close>: the number of bytes it stored, or -1; a null buffer is refused.\<close>

definition read_socket :: "addr \<Rightarrow> byte list option \<Rightarrow> 'x rt_scheme \<Rightarrow> failure + (int \<times> 'x rt_scheme)" where
  "read_socket buffer incoming st =
     (case incoming of
        None \<Rightarrow> Inr (-1, st)
      | Some bs \<Rightarrow>
          if buffer = 0 then Inr (-1, st)
          else let got = take (unat BUFFER_SIZE - 1) bs in
            bindE (memcpy buffer 0 (Lit got) (length got) st) (\<lambda>st. Inr (int (length got), st)))"

text \<open>\<open>strtok(buffer, "\r\n")\<close>: the offset and the length of the first token, which it ends with a NUL.\<close>

function scan_to :: "(byte \<Rightarrow> bool) \<Rightarrow> 'x rt_scheme \<Rightarrow> cstr \<Rightarrow> nat \<Rightarrow> failure + nat" where
  "scan_to stop st c i =
     bindE (cstr_byte st c i) (\<lambda>b. if stop b then Inr i else scan_to stop st c (i + 1))"
  by pat_completeness auto
termination scan_to
  by (relation "measure (\<lambda>(stop, st, c, i). cstr_bound st c - i)") (auto dest: cstr_byte_bound)

declare scan_to.simps [simp del]

definition line_end :: "byte \<Rightarrow> bool" where
  "line_end b \<longleftrightarrow> b = 13 \<or> b = 10"

definition strtok_line :: "addr \<Rightarrow> 'x rt_scheme \<Rightarrow> failure + ((nat \<times> nat) option \<times> 'x rt_scheme)" where
  "strtok_line buffer st =
     bindE (scan_to (\<lambda>b. \<not> line_end b) st (At buffer) 0) (\<lambda>i.
     bindE (load_byte st buffer i) (\<lambda>b.
       if b = 0 then Inr (None, st)
       else bindE (scan_to (\<lambda>b. b = 0 \<or> line_end b) st (At buffer) i) (\<lambda>j.
            bindE (load_byte st buffer j) (\<lambda>b.
            bindE (if b = 0 then Inr st else store_byte buffer j 0 st) (\<lambda>st.
            Inr (Some (i, j - i), st))))))"

text \<open>The \<open>n\<close> bytes of a C string from an index.\<close>

fun cstr_bytes :: "'x rt_scheme \<Rightarrow> cstr \<Rightarrow> nat \<Rightarrow> nat \<Rightarrow> failure + byte list" where
  "cstr_bytes st c i 0 = Inr []"
| "cstr_bytes st c i (Suc n) =
     bindE (cstr_byte st c i) (\<lambda>b. bindE (cstr_bytes st c (i + 1) n) (\<lambda>bs. Inr (b # bs)))"

subsection \<open>The response\<close>

definition ascii :: "string \<Rightarrow> byte list" where
  "ascii s = map of_char s"

definition crlf :: "byte list" where
  "crlf = [13, 10]"

definition status_line :: "byte list" where
  "status_line = ascii ''HTTP/1.1 200 OK'' @ crlf"

text \<open>The texts appended before and after the request line; 240, 159, 154, 128 is the rocket of the headline.\<close>

definition response_texts :: "byte list \<Rightarrow> byte list list" where
  "response_texts req_line =
     [ascii ''Content-Type: text/html'' @ crlf,
      ascii ''Connection: close'' @ crlf @ crlf,
      ascii ''<html><head><title>OwnedC Web Server</title></head>'',
      ascii (''<body style='' @ [CHR 0x22] @ ''font-family: sans-serif; text-align: center; margin-top: 50px;'' @
             [CHR 0x22] @ ''>''),
      ascii ''<h1>'' @ [240, 159, 154, 128] @ ascii '' Powered by OwnedC</h1>'',
      ascii ''<p>This multi-threaded C web server is 100% memory safe!</p>'',
      ascii ''<p>You requested: <strong>'',
      req_line,
      ascii ''</strong></p>'',
      ascii ''<p>Zero memory leaks, guaranteed RAII cleanup, and Region Arena request contexts.</p>'',
      ascii ''</body></html>'']"

definition build_response ::
    "tid \<Rightarrow> byte list \<Rightarrow> 'x rt_scheme \<Rightarrow> failure + (addr \<times> 'x rt_scheme)" where
  "build_response self req_line st =
     bindE (safe_string_new self (Lit status_line) st) (\<lambda>(response, st).
     bindE (foldE (\<lambda>text_bytes. safe_string_append self response (Lit text_bytes)) (response_texts req_line) st)
       (\<lambda>st. Inr (response, st)))"

text \<open>The bytes handed to \<open>write(client_sock, safe_string_cstr(response), response->length)\<close>.\<close>

definition sent_bytes :: "addr \<Rightarrow> 'x rt_scheme \<Rightarrow> failure + byte list" where
  "sent_bytes response st =
     bindE (safe_string_cstr response st) (\<lambda>c.
       if response = 0 then Inl (Undefined ''null dereference'')
       else bindE (field str_of st response) (\<lambda>s. cstr_bytes st c 0 (unat (str_length s))))"

text \<open>What happens to a request that was read: the bytes sent, if any.  The copy of the request line in the region is
  never written again, so that its bytes are the token's.\<close>

definition answer_request ::
    "tid \<Rightarrow> addr \<Rightarrow> addr \<Rightarrow> 'x rt_scheme \<Rightarrow> failure + (byte list option \<times> 'x rt_scheme)" where
  "answer_request self request_arena buffer st =
     bindE (strtok_line buffer st) (\<lambda>(token, st).
       case token of
         None \<Rightarrow> Inr (None, st)
       | Some (i, n) \<Rightarrow>
           bindE (safe_region_alloc self request_arena (of_nat n + 1) st) (\<lambda>(req_line, st).
             if req_line = 0 then Inl (Undefined ''write to unmapped memory'')
             else bindE (cstr_bytes st (At buffer) i n) (\<lambda>copy.
                  bindE (build_response self copy st) (\<lambda>(response, st).
                  bindE (sent_bytes response st) (\<lambda>sent.
                  bindE (cleanup_safe_string_free self response st) (\<lambda>st. Inr (Some sent, st)))))))"

text \<open>Reading the request, and answering what was read.\<close>

definition read_and_answer ::
    "tid \<Rightarrow> addr \<Rightarrow> addr \<Rightarrow> byte list option \<Rightarrow> 'x rt_scheme \<Rightarrow> failure + (byte list option \<times> 'x rt_scheme)" where
  "read_and_answer self request_arena buffer incoming st =
     bindE (read_socket buffer incoming st) (\<lambda>(bytes_read, st).
       if bytes_read > 0
       then bindE (store_byte buffer (nat bytes_read) 0 st) (answer_request self request_arena buffer)
       else Inr (None, st))"

text \<open>A worker: the socket it closes and what it sent.\<close>

definition handle_client ::
    "tid \<Rightarrow> addr \<Rightarrow> byte list option \<Rightarrow> 'x rt_scheme \<Rightarrow> failure + ((int \<times> byte list option) \<times> 'x rt_scheme)" where
  "handle_client self ctx incoming st =
     bindE (ownership_borrow self ctx st) (\<lambda>st.
     bindE (field context_of st ctx) (\<lambda>c.
     bindE (safe_region_create self 8192 st) (\<lambda>(request_arena, st).
     bindE (owner_malloc self BUFFER_SIZE st) (\<lambda>(buffer, st).
     bindE (read_and_answer self request_arena buffer incoming st) (\<lambda>(sent, st).
     bindE (safe_region_free self request_arena st) (\<lambda>st.
     bindE (ownership_release ctx st) (\<lambda>st.
     bindE (owner_free self ctx st) (\<lambda>st.
     bindE (owner_free_cleanup self buffer st) (\<lambda>st.
     Inr ((client_socket c, sent), st))))))))))"

subsection \<open>The accepting thread\<close>

text \<open>One turn of its loop: the context handed to the worker, if the worker could be started.\<close>

definition accept_client :: "tid \<Rightarrow> int \<Rightarrow> bool \<Rightarrow> 'x rt_scheme \<Rightarrow> failure + (addr option \<times> 'x rt_scheme)" where
  "accept_client self sock started st =
     bindE (owner_malloc self 4 st) (\<lambda>(ctx, st).
     bindE (write_struct ctx (Client \<lparr>client_socket = sock\<rparr>) st) (\<lambda>st.
     bindE (ownership_share self ctx st) (\<lambda>st.
       if started then Inr (Some ctx, st)
       else bindE (owner_free self ctx st) (\<lambda>st. Inr (None, st)))))"

record connection =
  conn_socket :: int
  conn_worker :: "tid option"
  conn_incoming :: "byte list option"

text \<open>The sockets that were closed, in order, with what was sent to each.\<close>

fun serve ::
    "tid \<Rightarrow> connection list \<Rightarrow> 'x rt_scheme \<Rightarrow> failure + ((int \<times> byte list option) list \<times> 'x rt_scheme)" where
  "serve self [] st = Inr ([], st)"
| "serve self (c # cs) st =
     (if conn_socket c < 0 then serve self cs st
      else bindE (accept_client self (conn_socket c) (conn_worker c \<noteq> None) st) (\<lambda>(ctx, st).
           bindE (case ctx of
                    None \<Rightarrow> Inr ((conn_socket c, None), st)
                  | Some p \<Rightarrow> handle_client (the (conn_worker c)) p (conn_incoming c) st) (\<lambda>(done, st).
           bindE (serve self cs st) (\<lambda>(rest, st). Inr (done # rest, st)))))"

subsection \<open>What it should do\<close>

text \<open>The first line of a request, and the answer to it.\<close>

definition request_line :: "byte list \<Rightarrow> byte list option" where
  "request_line bs =
     (case dropWhile line_end bs of
        [] \<Rightarrow> None
      | b # r \<Rightarrow> if b = 0 then None else Some (takeWhile (\<lambda>b. b \<noteq> 0 \<and> \<not> line_end b) (b # r)))"

definition page :: "byte list \<Rightarrow> byte list" where
  "page req_line = status_line @ concat (response_texts req_line)"

definition reply :: "byte list option \<Rightarrow> byte list option" where
  "reply incoming = (case incoming of None \<Rightarrow> None
     | Some bs \<Rightarrow> map_option page (request_line (take (unat BUFFER_SIZE - 1) bs)))"

subsection \<open>Reading the request\<close>

lemma scan_to_result:
  assumes "\<And>k. k < length xs \<Longrightarrow> cstr_byte st c k = Inr (xs ! k)"
    and "i + length (takeWhile (\<lambda>b. \<not> stop b) (drop i xs)) < length xs"
  shows "scan_to stop st c i = Inr (i + length (takeWhile (\<lambda>b. \<not> stop b) (drop i xs)))"
  using assms(2)
proof (induction "length xs - i" arbitrary: i rule: less_induct)
  case less
  then have i: "i < length xs" by simp
  then have d: "drop i xs = xs ! i # drop (i + 1) xs" by (simp add: Cons_nth_drop_Suc)
  show ?case
  proof (cases "stop (xs ! i)")
    case True
    then show ?thesis using assms(1) [OF i] by (simp add: scan_to.simps [of _ _ _ i] d)
  next
    case False
    then have t: "takeWhile (\<lambda>b. \<not> stop b) (drop i xs) = xs ! i # takeWhile (\<lambda>b. \<not> stop b) (drop (i + 1) xs)"
      by (simp add: d)
    have "scan_to stop st c (i + 1) = Inr (i + 1 + length (takeWhile (\<lambda>b. \<not> stop b) (drop (i + 1) xs)))"
      using less.prems i by (intro less.hyps) (simp_all add: t)
    then show ?thesis using assms(1) [OF i] False by (simp add: scan_to.simps [of _ _ _ i] t)
  qed
qed

lemma cstr_bytes_result:
  assumes "\<And>k. i \<le> k \<Longrightarrow> k < i + length xs \<Longrightarrow> cstr_byte st c k = Inr (xs ! (k - i))"
  shows "cstr_bytes st c i (length xs) = Inr xs"
  using assms
proof (induction xs arbitrary: i)
  case Nil
  show ?case by simp
next
  case (Cons x xs)
  have "cstr_bytes st c (i + 1) (length xs) = Inr xs"
  proof (rule Cons.IH)
    fix k assume "i + 1 \<le> k" "k < i + 1 + length xs"
    then show "cstr_byte st c k = Inr (xs ! (k - (i + 1)))" using Cons.prems [of k] by (simp add: nth_Cons')
  qed
  moreover have "cstr_byte st c i = Inr x" using Cons.prems [of i] by simp
  ultimately show ?case by simp
qed

text \<open>A buffer holds the bytes \<open>xs\<close>.\<close>

definition buf_holds :: "'x rt_scheme \<Rightarrow> addr \<Rightarrow> alloc_meta \<Rightarrow> byte list \<Rightarrow> bool" where
  "buf_holds st buffer mb xs \<longleftrightarrow> (\<exists>y. cell_at st buffer = Some (mb, y) \<and> length xs \<le> unat (m_size mb) \<and>
     (\<forall>k < length xs. byte_view y k = Some (xs ! k)))"

lemma buf_byte:
  assumes "rt_wf st" and "buf_holds st buffer mb xs" and "k < length xs"
  shows "load_byte st buffer k = Inr (xs ! k)" and "cstr_byte st (At buffer) k = Inr (xs ! k)"
  using assms load_byte_cell [OF assms(1)] by (auto simp: buf_holds_def cstr_byte_def)

lemma buf_moves: "buf_holds st buffer mb xs \<Longrightarrow> moves A B st st' \<Longrightarrow> buffer \<notin> A \<Longrightarrow> buf_holds st' buffer mb xs"
  unfolding buf_holds_def using moves_cell(1) by blast

lemma buf_cell: "buf_holds st buffer mb xs \<Longrightarrow> buf_holds st buffer mb []"
  by (auto simp: buf_holds_def)

lemma moves_upd: "rt.more st' = rt.more st \<Longrightarrow> cell_at st' = (cell_at st)(p := v) \<Longrightarrow> moves {p} {p} st st'"
  by (simp add: moves_def restrict_map_def fun_eq_iff)

text \<open>Storing a byte in a buffer.\<close>

lemma buf_store:
  assumes "rt_wf st" and "buf_holds st buffer mb xs" and "j < unat (m_size mb)" and "j \<le> length xs"
  obtains st' where "store_byte buffer j b st = Inr st'" and "rt_wf st'" and "moves {buffer} {buffer} st st'"
    and "buf_holds st' buffer mb (take j xs @ b # drop (j + 1) xs)"
proof -
  obtain y where y: "cell_at st buffer = Some (mb, y)" "length xs \<le> unat (m_size mb)"
    "\<forall>k < length xs. byte_view y k = Some (xs ! k)"
    using assms(2) by (auto simp: buf_holds_def)
  obtain st' y' where s: "store_byte buffer j b st = Inr st'" "rt_wf st'" "rt.more st' = rt.more st"
    "cell_at st' = (cell_at st)(buffer \<mapsto> (mb, y'))" "byte_view y' = (byte_view y)(j \<mapsto> b)"
    using byte_store [OF assms(1) y(1) assms(3)] by blast
  have "buf_holds st' buffer mb (take j xs @ b # drop (j + 1) xs)"
    unfolding buf_holds_def using s(4,5) y(2,3) assms(3,4)
    by (auto simp: nth_append nth_Cons' min_def)
  with s moves_upd [OF s(3,4)] that show thesis by blast
qed

lemma read_socket_rep:
  fixes bs :: "byte list"
  assumes "rt_wf st" and "buffer \<noteq> 0" and "cell_at st buffer = Some (mb, y)" and "m_size mb = BUFFER_SIZE"
  defines "got \<equiv> take (unat BUFFER_SIZE - 1) bs"
  obtains st' where "read_socket buffer (Some bs) st = Inr (int (length got), st')" and "rt_wf st'"
    and "moves {buffer} {buffer} st st'" and "buf_holds st' buffer mb got"
proof -
  have h: "\<And>st' k. k < length got \<Longrightarrow> cstr_byte st' (Lit got) k = Inr (got ! k)" by (simp add: cstr_byte_def)
  have sz: "0 + length got \<le> unat (m_size mb)" by (simp add: assms(4) got_def)
  obtain st' y' where s: "memcpy buffer 0 (Lit got) (length got) st = Inr st'" "rt_wf st'"
    "rt.more st' = rt.more st" "cell_at st' = (cell_at st)(buffer \<mapsto> (mb, y'))"
    "byte_view y' = (\<lambda>i. if 0 \<le> i \<and> i < 0 + length got then Some (got ! (i - 0)) else byte_view y i)"
    using memcpy_bytes [OF assms(1,3) sz order.refl h] by blast
  have "buf_holds st' buffer mb got" using s(4,5) sz by (auto simp: buf_holds_def)
  with s moves_upd [OF s(3,4)] assms(2) that [of st'] show thesis by (simp add: read_socket_def Let_def got_def)
qed

lemma uses_read_socket: "read_socket buffer incoming st = Inr (r, st') \<Longrightarrow> uses D 0 st st'"
  by (auto simp: read_socket_def Let_def bindE_eq_Inr uses_memcpy split: option.splits if_splits)

lemma takeWhile_end: "\<not> P z \<Longrightarrow> takeWhile P (xs @ [z]) = takeWhile P xs"
  by (induction xs) auto

lemma dropWhile_end: "\<not> P z \<Longrightarrow> dropWhile P (xs @ [z]) = dropWhile P xs @ [z]"
  by (induction xs) auto

lemma strtok_line_rep:
  assumes wf: "rt_wf st" and buf: "buf_holds st buffer mb (got @ [0])"
  shows "case request_line got of
      None \<Rightarrow> strtok_line buffer st = Inr (None, st)
    | Some tok \<Rightarrow> \<exists>i xs st'. strtok_line buffer st = Inr (Some (i, length tok), st') \<and> rt_wf st' \<and>
        moves {buffer} {buffer} st st' \<and> buf_holds st' buffer mb xs \<and> i + length tok < length xs \<and>
        length xs = length got + 1 \<and> take (length tok) (drop i xs) = tok"
proof -
  define xs where "xs = got @ [0 :: byte]"
  define i where "i = length (takeWhile line_end got)"
  have lx: "length xs = length got + 1" by (simp add: xs_def)
  note buf = buf [folded xs_def]
  note rd = buf_byte [OF wf buf]
  have l0: "\<not> line_end 0" by (simp add: line_end_def)
  have tw: "takeWhile (\<lambda>b. \<not> \<not> line_end b) (drop 0 xs) = takeWhile line_end got"
    using takeWhile_end [where P = line_end, OF l0] by (simp add: xs_def)
  have ilt: "i < length xs" using length_takeWhile_le [of line_end got] by (simp add: lx i_def)
  have s1: "scan_to (\<lambda>b. \<not> line_end b) st (At buffer) 0 = Inr i"
    using scan_to_result [of xs st "At buffer" 0 "\<lambda>b. \<not> line_end b"] rd(2) tw ilt by (simp add: i_def)
  have di: "drop i xs = dropWhile line_end got @ [0]"
    using dropWhile_end [where P = line_end and xs = got, OF l0] takeWhile_end [where P = line_end and xs = got, OF l0] dropWhile_eq_drop [of line_end xs] by (simp add: xs_def i_def)
  have bi: "load_byte st buffer i = Inr (hd (drop i xs))"
    using rd(1) [OF ilt] hd_drop_conv_nth [OF ilt] by simp
  show ?thesis
  proof (cases "dropWhile line_end got")
    case Nil
    have "request_line got = None" unfolding request_line_def Nil by simp
    moreover have "strtok_line buffer st = Inr (None, st)"
      using s1 bi unfolding di Nil by (simp add: strtok_line_def)
    ultimately show ?thesis by simp
  next
    case (Cons b r)
    show ?thesis
    proof (cases "b = 0")
      case True
      then have "request_line got = None" unfolding request_line_def Cons by simp
      moreover have "strtok_line buffer st = Inr (None, st)"
        using s1 bi True unfolding di Cons by (simp add: strtok_line_def)
      ultimately show ?thesis by simp
    next
      case False
      let ?Q = "\<lambda>b :: byte. b \<noteq> 0 \<and> \<not> line_end b"
      define tok where "tok = takeWhile ?Q (b # r)"
      have rl: "request_line got = Some tok" using Cons False by (simp add: request_line_def tok_def)
      have d: "drop i xs = b # r @ [0]" using di Cons by simp
      have tq: "takeWhile ?Q (drop i xs) = tok"
        using takeWhile_end [of ?Q 0 "b # r"] by (simp add: d tok_def)
      have "length tok \<le> length (b # r)" unfolding tok_def by (rule length_takeWhile_le)
      moreover have "length (b # r @ [0]) = length xs - i" unfolding d [symmetric] by simp
      ultimately have j: "i + length tok < length xs" using ilt by simp
      have Q: "(\<lambda>b. \<not> (b = 0 \<or> line_end b)) = ?Q" by (simp add: fun_eq_iff)
      have s2: "scan_to (\<lambda>b. b = 0 \<or> line_end b) st (At buffer) i = Inr (i + length tok)"
        using scan_to_result [of xs st "At buffer" i "\<lambda>b. b = 0 \<or> line_end b"] rd(2) j tq
        unfolding Q by simp
      have bj: "load_byte st buffer (i + length tok) = Inr (xs ! (i + length tok))" by (rule rd(1) [OF j])
      have tk: "take (length tok) (drop i xs) = tok"
        using tq takeWhile_eq_take [of ?Q "drop i xs"] by simp
      have run: "strtok_line buffer st =
          bindE (if xs ! (i + length tok) = 0 then Inr st else store_byte buffer (i + length tok) 0 st)
            (\<lambda>st. Inr (Some (i, length tok), st))"
        using s1 bi s2 bj False by (simp add: strtok_line_def d)
      show ?thesis
      proof (cases "xs ! (i + length tok) = 0")
        case True
        have "strtok_line buffer st = Inr (Some (i, length tok), st)" using run True by simp
        then show ?thesis unfolding rl option.case using wf buf j tk lx
          by (intro exI [of _ i] exI [of _ xs] exI [of _ st]) simp
      next
        case False
        have jm: "i + length tok < unat (m_size mb)" using buf j by (auto simp: buf_holds_def)
        obtain st' where st': "store_byte buffer (i + length tok) 0 st = Inr st'" "rt_wf st'"
          "moves {buffer} {buffer} st st'"
          "buf_holds st' buffer mb (take (i + length tok) xs @ 0 # drop (i + length tok + 1) xs)"
          using buf_store [OF wf buf jm less_imp_le [OF j]] by blast
        let ?ys = "take (i + length tok) xs @ 0 # drop (i + length tok + 1) xs"
        have "length ?ys = length got + 1" using j lx by simp
        moreover have "take (length tok) (drop i ?ys) = tok" using tk j by (simp add: take_drop)
        moreover have "strtok_line buffer st = Inr (Some (i, length tok), st')" using run False st'(1) by simp
        ultimately show ?thesis unfolding rl option.case using st'(2-4) j
          by (intro exI [of _ i] exI [of _ ?ys] exI [of _ st']) simp
      qed
    qed
  qed
qed

subsection \<open>Building the response\<close>

text \<open>Room for this many bytes is enough for every block a request needs.\<close>

definition BLOCK :: nat where
  "BLOCK = 32768"

definition oom :: failure where
  "oom = Aborted ''Out of memory in safe_string_grow''"

lemma append_literals:
  assumes "rt_wf st" and "str_rep self st str data cap bs" and "0 \<notin> set (concat ts)"
    and "length bs + length (concat ts) < 6000" and "cap \<le> 2 * (length bs + length (concat ts) + 1)"
  shows "(\<exists>st' data' cap'. foldE (\<lambda>t. safe_string_append self str (Lit t)) ts st = Inr st' \<and> rt_wf st' \<and>
      str_rep self st' str data' cap' (bs @ concat ts) \<and> moves {str, data} {str, data'} st st' \<and>
      uses BLOCK (length ts) st st') \<or>
    foldE (\<lambda>t. safe_string_append self str (Lit t)) ts st = Inl oom \<and> short BLOCK (length ts) st"
  using assms
proof (induction ts arbitrary: st data cap bs)
  case Nil
  then show ?case by (intro disjI1 exI [of _ st] exI [of _ data] exI [of _ cap]) simp
next
  case (Cons t ts)
  have h: "holds s (Lit t) t" for s :: "'a rt_scheme" using Cons.prems(3) by (intro holds_Lit) simp
  have n: "\<not> cstr_null (Lit t)" by (simp add: cstr_null_def)
  have b: "2 * cap + 80 < 2 ^ 64" "length bs + length t + 81 < 2 ^ 64" using Cons.prems(4,5) by simp_all
  have d: "0 \<notin> set t" "2 * cap + 80 \<le> BLOCK" "length bs + length t + 81 \<le> BLOCK" "BLOCK < 2 ^ 64"
    using Cons.prems(3-5) by (simp_all add: BLOCK_def)
  note u = append_supply [OF Cons.prems(1,2) d]
  from safe_string_append_rep [OF Cons.prems(1,2) n h b] show ?case
  proof (elim disjE exE conjE)
    fix st1 data1 cap1
    assume s1: "safe_string_append self str (Lit t) st = Inr st1" "rt_wf st1"
      "str_rep self st1 str data1 cap1 (bs @ t)" "moves {str, data} {str, data1} st st1"
      and c1: "cap1 \<le> max cap (2 * (length bs + length t + 1))"
    have "0 \<notin> set (concat ts)" "length (bs @ t) + length (concat ts) < 6000"
      "cap1 \<le> 2 * (length (bs @ t) + length (concat ts) + 1)"
      using Cons.prems(3-5) c1 by auto
    from Cons.IH [OF s1(2,3) this] show ?thesis
    proof (elim disjE exE conjE)
      fix st2 data2 cap2
      assume s2: "foldE (\<lambda>t. safe_string_append self str (Lit t)) ts st1 = Inr st2" "rt_wf st2"
        "str_rep self st2 str data2 cap2 ((bs @ t) @ concat ts)" "moves {str, data1} {str, data2} st1 st2"
        "uses BLOCK (length ts) st1 st2"
      show ?thesis using s1(1) s2(1-3) moves_trans [OF s1(4) s2(4)] uses_trans [OF u(2) [OF s1(1)] s2(5)]
        by (intro disjI1 exI [of _ st2] exI [of _ data2] exI [of _ cap2]) simp
    next
      assume "foldE (\<lambda>t. safe_string_append self str (Lit t)) ts st1 = Inl oom" "short BLOCK (length ts) st1"
      then show ?thesis using s1(1) short_after [OF u(2) [OF s1(1)]] by simp
    qed
  next
    assume e: "safe_string_append self str (Lit t) st = Inl (Aborted ''Out of memory in safe_string_grow'')"
    have "short BLOCK (length (t # ts)) st" by (rule short_mono [OF u(1) [OF e]]) simp
    with e show ?thesis by (simp add: oom_def)
  qed
qed

lemma response_texts_plain: "0 \<notin> set req_line \<Longrightarrow> 0 \<notin> set (concat (response_texts req_line))"
  by (simp add: response_texts_def ascii_def crlf_def)

lemma response_texts_length: "length (concat (response_texts req_line)) < 1000 + length req_line"
  by (simp add: response_texts_def ascii_def crlf_def)

lemma status_line_plain: "0 \<notin> set status_line" "length status_line = 17"
  by (simp_all add: status_line_def ascii_def crlf_def)

lemma append_null: "foldE (\<lambda>t. safe_string_append self 0 (Lit t)) ts st = Inr st"
  by (induction ts) (simp_all add: safe_string_append_def)

lemma moves_new:
  "rt.more st' = rt.more st \<Longrightarrow> cell_at st' |` (- B) = cell_at st \<Longrightarrow> moves {} B st st'"
  by (simp add: moves_def restrict_map_def)

lemma build_response_cases:
  assumes "rt_wf st" and "0 \<notin> set req_line" and "length req_line < 4096"
  obtains (oom) "build_response self req_line st = Inl oom" and "short BLOCK 13 st"
  | (null) st' where "build_response self req_line st = Inr (0, st')" and "short BLOCK 13 st"
  | (built) str data cap st' where "build_response self req_line st = Inr (str, st')" and "rt_wf st'"
      and "str_rep self st' str data cap (page req_line)" and "moves {} {str, data} st st'"
      and "uses BLOCK 13 st st'"
proof -
  have h: "holds s (Lit status_line) status_line" for s :: "'a rt_scheme"
    by (rule holds_Lit [OF status_line_plain(1)])
  have n: "\<not> cstr_null (Lit status_line)" by (simp add: cstr_null_def)
  have l: "length status_line + 97 < 2 ^ 64" using status_line_plain(2) by simp
  have d: "length status_line + 97 \<le> BLOCK" "104 \<le> BLOCK" "BLOCK < 2 ^ 64"
    using status_line_plain(2) by (simp_all add: BLOCK_def)
  note u = new_supply [OF assms(1) status_line_plain(1) d]
  have lt: "length (response_texts req_line) = 11" by (simp add: response_texts_def)
  from safe_string_new_rep [OF assms(1) n h l, of self] show thesis
  proof (elim disjE exE conjE)
    fix str st1
    assume s1: "safe_string_new self (Lit status_line) st = Inr (str, st1)" "rt_wf st1" "rt.more st1 = rt.more st"
      and r: "if str = 0 then cell_at st1 = cell_at st
         else \<exists>data cap. str_rep self st1 str data cap status_line \<and> cap \<le> max 16 (length status_line + 1) \<and>
           cell_at st str = None \<and> cell_at st data = None \<and> cell_at st1 |` (- {str, data}) = cell_at st"
    show thesis
    proof (cases "str = 0")
      case True
      then have "short BLOCK 13 st" using short_mono [OF u(2)] s1(1) by simp
      then show thesis using null [of st1] s1(1) True by (simp add: build_response_def append_null)
    next
      case False
      then obtain data cap where d: "str_rep self st1 str data cap status_line"
        "cap \<le> max 16 (length status_line + 1)" "cell_at st1 |` (- {str, data}) = cell_at st"
        using r by auto
      have m1: "moves {} {str, data} st st1" by (rule moves_new [OF s1(3) d(3)])
      have "length status_line + length (concat (response_texts req_line)) < 6000"
        "cap \<le> 2 * (length status_line + length (concat (response_texts req_line)) + 1)"
        using response_texts_length [of req_line] status_line_plain assms(3) d(2) by simp_all
      from append_literals [OF s1(2) d(1) response_texts_plain [OF assms(2)] this] show thesis
      proof (elim disjE exE conjE)
        fix st2 data2 cap2
        assume s2: "foldE (\<lambda>t. safe_string_append self str (Lit t)) (response_texts req_line) st1 = Inr st2"
          "rt_wf st2" "str_rep self st2 str data2 cap2 (status_line @ concat (response_texts req_line))"
          "moves {str, data} {str, data2} st1 st2" "uses BLOCK (length (response_texts req_line)) st1 st2"
        have "uses BLOCK 13 st st2" using uses_trans [OF u(3) [OF s1(1)] s2(5)] by (simp add: lt)
        then show thesis
          using built [of str st2 data2 cap2] s1(1) s2 moves_trans [OF m1 s2(4)]
          by (simp add: build_response_def page_def)
      next
        assume f: "foldE (\<lambda>t. safe_string_append self str (Lit t)) (response_texts req_line) st1 = Inl Server.oom"
          "short BLOCK (length (response_texts req_line)) st1"
        have "short BLOCK 13 st" using short_after [OF u(3) [OF s1(1)] f(2)] by (simp add: lt)
        then show thesis using oom s1(1) f(1) by (simp add: build_response_def)
      qed
    qed
  next
    assume e: "safe_string_new self (Lit status_line) st = Inl (Aborted ''Out of memory in safe_string_grow'')"
    have "short BLOCK 13 st" by (rule short_mono [OF u(1) [OF e]]) simp
    with e show thesis using oom by (simp add: build_response_def oom_def)
  qed
qed

lemma sent_bytes_rep:
  assumes "rt_wf st" and "str_rep self st str data cap bs"
  shows "sent_bytes str st = Inr bs"
  using assms(2)
proof (rule str_repE, goal_cases)
  case (1 m s md y)
  have f: "field str_of st str = Inr s" by (rule field_cell [OF assms(1) 1(1)]) simp
  have "cstr_bytes st (At data) 0 (length bs) = Inr bs"
    using load_byte_cell [OF assms(1) 1(4)] 1(6,9,10) by (intro cstr_bytes_result) (simp add: cstr_byte_def)
  then show ?case using f 1 by (simp add: sent_bytes_def safe_string_cstr_def)
qed

lemma sent_bytes_null: "sent_bytes 0 st = Inl (Undefined ''null dereference'')"
  by (simp add: sent_bytes_def safe_string_cstr_def)

subsection \<open>The temporary memory of a request\<close>

definition region_objects :: "addr \<Rightarrow> chunk_list \<Rightarrow> addr set" where
  "region_objects region cs = insert region (fst ` set cs)"

lemma region_cells: "region_rep self st region cs \<Longrightarrow> q \<in> region_objects region cs \<Longrightarrow> cell_at st q \<noteq> None"
  using chain_cell by (fastforce simp: region_rep_def region_objects_def chunk_cell_def)

lemma region_rep_moves:
  assumes "region_rep self st region cs" and "moves A B st st'" and "region_objects region cs \<inter> A = {}"
  shows "region_rep self st' region cs"
  using assms(1)
proof (rule region_repE, goal_cases)
  case (1 m r)
  have "cell_at st' q = cell_at st q" if q: "q \<in> fst ` set cs" for q
  proof -
    obtain c where "cell_at st q = Some c"
      using region_cells [OF assms(1), of q] q unfolding region_objects_def by blast
    with moves_cell(1) [OF assms(2) this] q assms(3) show ?thesis by (auto simp: region_objects_def)
  qed
  with 1 moves_cell(1) [OF assms(2) 1(1)] assms(3) chain_same [OF 1(3), of st'] show ?case
    unfolding region_rep_def by (auto simp: region_objects_def)
qed

text \<open>The region of a request and its objects; there is none when it could not be created.\<close>

definition arena_ok :: "tid \<Rightarrow> 'x rt_scheme \<Rightarrow> addr \<Rightarrow> addr set \<Rightarrow> bool" where
  "arena_ok self st arena R \<longleftrightarrow> arena = 0 \<and> R = {} \<or>
     (\<exists>cs. region_rep self st arena cs \<and> R = region_objects arena cs)"

lemma arena_cells: "arena_ok self st arena R \<Longrightarrow> q \<in> R \<Longrightarrow> cell_at st q \<noteq> None"
  unfolding arena_ok_def using region_cells by blast

lemma arena_moves: "arena_ok self st arena R \<Longrightarrow> moves A B st st' \<Longrightarrow> R \<inter> A = {} \<Longrightarrow> arena_ok self st' arena R"
  unfolding arena_ok_def using region_rep_moves by blast

text \<open>A region whose chunk size is still the one it was created with.\<close>

definition arena_sized :: "'x rt_scheme \<Rightarrow> addr \<Rightarrow> bool" where
  "arena_sized st arena \<longleftrightarrow> arena = 0 \<or> (\<exists>m r. cell_at st arena = Some (m, Region r) \<and> reg_chunk_size r = 8192)"

lemma arena_sized_moves:
  assumes "arena_sized st arena" and "arena_ok self st arena R" and "moves A B st st'" and "R \<inter> A = {}"
  shows "arena_sized st' arena"
  using assms moves_cell(1) [OF assms(3)] unfolding arena_sized_def arena_ok_def region_objects_def by blast

text \<open>A request to the region: NULL, or memory and the region with at most one more chunk.\<close>

lemma arena_alloc_cases:
  assumes "rt_wf st" and "arena_ok self st arena R" and "arena_sized st arena" and "n \<noteq> 0" and "unat n \<le> 4096"
  obtains (null) st' where "safe_region_alloc self arena n st = Inr (0, st')" and "arena = 0 \<or> short BLOCK 1 st"
  | (memory) p R' st' where "safe_region_alloc self arena n st = Inr (p, st')" and "rt_wf st'"
      and "arena_ok self st' arena R'" and "moves R R' st st'" and "p = 0 \<longrightarrow> short BLOCK 1 st"
      and "uses BLOCK 1 st st'"
proof (cases "arena = 0")
  case True
  then show thesis using null by (simp add: safe_region_alloc_def)
next
  case False
  then obtain cs where rep: "region_rep self st arena cs" and R: "R = region_objects arena cs"
    using assms(2) by (auto simp: arena_ok_def)
  obtain a u c cs1 where cs: "cs = (a, u, c) # cs1"
    using rep by (cases cs) (auto simp: region_rep_def)
  obtain m r where r: "cell_at st arena = Some (m, Region r)" "reg_chunk_size r = 8192"
    using assms(3) False by (auto simp: arena_sized_def)
  have pr: "payload st arena = Some (Region r)" by (rule cell_payload [OF assms(1) r(1)])
  have fits: "bump_fits n" using assms(5) by (simp add: bump_fits_def)
  have "unat n + 7 < 2 ^ 64" using assms(5) by simp
  note sz = align8_bounds [OF this]
  have D: "unat (align8 n) + 104 \<le> BLOCK" "unat (reg_chunk_size r) + 104 \<le> BLOCK" "BLOCK < 2 ^ 64"
    using sz(2) assms(5) r(2) by (simp_all add: BLOCK_def)
  note su = region_alloc_supply [OF assms(1) rep pr assms(4) D]
  from assms(1) rep [unfolded cs] assms(4) fits show thesis
  proof (cases rule: safe_region_alloc_rep)
    case (bump st')
    have "moves ({a} \<union> R) ({a} \<union> R) st st'" by (rule moves_frame [OF bump(5)])
    moreover have "R = region_objects arena ((a, u + unat (align8 n), c) # cs1)" "{a} \<union> R = R"
      by (auto simp: R cs region_objects_def)
    ultimately show thesis
      using memory [OF bump(2,3), of R] bump(4) su [OF bump(2)] unfolding arena_ok_def by auto
  next
    case (oom st')
    then show thesis using null su(2) by blast
  next
    case (new b k st')
    have "moves ({arena} \<union> R) ({arena, b} \<union> R) st st'" by (rule moves_frame [OF new(6)])
    moreover have "insert b R = region_objects arena ((b, unat (align8 n), k) # cs)"
      "{arena} \<union> R = R" "{arena, b} \<union> R = insert b R"
      by (auto simp: R cs region_objects_def)
    ultimately show thesis
      using memory [OF new(1,2), of "insert b R"] new(3) cs su [OF new(1)] unfolding arena_ok_def by auto
  qed
qed

lemma arena_create:
  assumes "rt_wf st"
  obtains arena R st' where "safe_region_create self 8192 st = Inr (arena, st')" and "rt_wf st'"
    and "arena_ok self st' arena R" and "moves {} R st st'" and "arena_sized st' arena"
    and "uses BLOCK 2 st st'" and "arena = 0 \<longrightarrow> short BLOCK 2 st"
proof -
  have n: "(8192 :: size_t) \<noteq> 0" "unat (8192 :: size_t) + 104 \<le> BLOCK" "BLOCK < 2 ^ 64"
    by (simp_all add: BLOCK_def)
  note su = region_create_supply [OF assms n]
  have "unat (8192 :: size_t) \<le> 2 ^ 63" by simp
  from safe_region_create_rep [OF assms this, of self]
  obtain arena st' where c: "safe_region_create self 8192 st = Inr (arena, st')" "rt_wf st'"
    "rt.more st' = rt.more st"
    "if arena = 0 then cell_at st' = cell_at st
     else \<exists>a c. region_rep self st' arena [(a, 0, c)] \<and> cell_at st arena = None \<and>
       cell_at st a = None \<and> cell_at st' |` (- {arena, a}) = cell_at st" by blast
  show thesis
  proof (cases "arena = 0")
    case True
    then have "arena_ok self st' arena {}" "moves {} {} st st'" "arena_sized st' arena" "short BLOCK 2 st"
      using c(3,4) su(1) [of self st'] c(1) by (simp_all add: arena_ok_def moves_same arena_sized_def)
    with True show thesis using that [OF c(1,2)] su(2) [OF c(1)] by blast
  next
    case False
    then obtain a k where a: "region_rep self st' arena [(a, 0, k)]" "cell_at st' |` (- {arena, a}) = cell_at st"
      using c(4) by auto
    obtain m r where r: "cell_at st' arena = Some (m, Region r)" using a(1) by (rule region_repE)
    have "reg_chunk_size r = 8192" using su(3) [OF c(1) False] cell_payload [OF c(2) r] by auto
    then have z: "arena_sized st' arena" using r by (auto simp: arena_sized_def)
    have "region_objects arena [(a, 0, k)] = {arena, a}" by (simp add: region_objects_def)
    then have "arena_ok self st' arena {arena, a}" using a(1) unfolding arena_ok_def by metis
    then show thesis using that [OF c(1,2)] moves_new [OF c(3) a(2)] z su(2) [OF c(1)] False by blast
  qed
qed

lemma arena_free:
  assumes "rt_wf st" and "arena_ok self st arena R"
  obtains st' where "safe_region_free self arena st = Inr st'" and "rt_wf st'" and "moves R {} st st'"
    and "uses BLOCK 0 st st'"
proof (cases "arena = 0")
  case True
  then have "R = {}" using assms(2) cell_at_nonnull by (fastforce simp: arena_ok_def region_rep_def)
  then show thesis using that [of st] True assms(1) by (simp add: safe_region_free_def)
next
  case False
  then obtain cs where rep: "region_rep self st arena cs" and R: "R = region_objects arena cs"
    using assms(2) by (auto simp: arena_ok_def)
  obtain st' where "safe_region_free self arena st = Inr st'" "rt_wf st'" "rt.more st' = rt.more st"
    "cell_at st' = cell_at st |` (- R)"
    using safe_region_free_rep [OF assms(1) rep] by (auto simp: R region_objects_def)
  then show thesis by (intro that [of st']) (simp_all add: moves_def restrict_map_def uses_region_free)
qed

subsection \<open>Answering\<close>

definition out_of_memory :: "failure set" where
  "out_of_memory = {oom, Undefined ''write to unmapped memory'', Undefined ''null dereference''}"

lemma request_line_plain:
  "request_line got = Some tok \<Longrightarrow> 0 \<notin> set tok \<and> length tok \<le> length got"
proof -
  assume r: "request_line got = Some tok"
  then have t: "tok = takeWhile (\<lambda>b. b \<noteq> 0 \<and> \<not> line_end b) (dropWhile line_end got)"
    by (auto simp: request_line_def split: list.splits if_splits)
  have "length tok \<le> length (dropWhile line_end got)" unfolding t by (rule length_takeWhile_le)
  also have "\<dots> \<le> length got" by (rule length_dropWhile_le)
  finally show ?thesis using t by (auto dest: set_takeWhileD)
qed

lemma uses_strtok: "strtok_line buffer st = Inr (r, st') \<Longrightarrow> uses D 0 st st'"
  by (auto simp: strtok_line_def bindE_eq_Inr uses_store_byte split: if_splits)

lemma answer_request_cases:
  assumes "rt_wf st" and "buf_holds st buffer mb (got @ [0])" and "length got < 4096"
    and "arena_ok self st arena R" and "buffer \<notin> R" and "arena_sized st arena"
  obtains (failed) e where "answer_request self arena buffer st = Inl e" and "e \<in> out_of_memory"
      and "arena = 0 \<or> short BLOCK 14 st"
  | (answered) R' st' where "answer_request self arena buffer st = Inr (map_option page (request_line got), st')"
      and "rt_wf st'" and "arena_ok self st' arena R'" and "buffer \<notin> R'"
      and "moves (insert buffer R) (insert buffer R') st st'" and "buf_holds st' buffer mb []"
      and "uses BLOCK 14 st st'"
proof (cases "request_line got")
  case None
  then have "strtok_line buffer st = Inr (None, st)" using strtok_line_rep [OF assms(1,2)] by simp
  then show thesis using answered [of st R] None assms buf_cell [OF assms(2)] uses_mono [of BLOCK 0 st st 14]
    by (simp add: answer_request_def)
next
  case (Some tok)
  have tok: "0 \<notin> set tok" "length tok < 4096" using request_line_plain [OF Some] assms(3) by auto
  from strtok_line_rep [OF assms(1,2)] Some obtain i xs s1 where
    s1: "strtok_line buffer st = Inr (Some (i, length tok), s1)" "rt_wf s1" "moves {buffer} {buffer} st s1"
      "buf_holds s1 buffer mb xs" "i + length tok < length xs" "take (length tok) (drop i xs) = tok" by auto
  have a1: "arena_ok self s1 arena R" using arena_moves [OF assms(4) s1(3)] assms(5) by simp
  have z1: "arena_sized s1 arena" using arena_sized_moves [OF assms(6,4) s1(3)] assms(5) by simp
  have u1: "uses BLOCK 0 st s1" by (rule uses_strtok [OF s1(1)])
  let ?n = "of_nat (length tok) + 1 :: size_t"
  have un: "unat ?n = length tok + 1"
    using unat_add_no_overflow [of "of_nat (length tok) :: size_t" 1] tok(2) by (simp add: unat_of_nat_lt)
  then have n0: "?n \<noteq> 0" by (simp add: unat_gt_0 [symmetric])
  have fits: "unat ?n \<le> 4096" unfolding un using tok(2) by simp
  from s1(2) a1 z1 n0 fits show thesis
  proof (cases rule: arena_alloc_cases)
    case (null s2)
    have "arena = 0 \<or> short BLOCK 14 st" using null(2) short_mono [OF short_after [OF u1]] by fastforce
    then show thesis using failed s1(1) null(1) by (simp add: answer_request_def out_of_memory_def)
  next
    case (memory p R' s2)
    have b2: "buf_holds s2 buffer mb xs" by (rule buf_moves [OF s1(4) memory(4) assms(5)])
    obtain y where "cell_at s1 buffer = Some (mb, y)" using s1(4) by (auto simp: buf_holds_def)
    from moves_cell(2) [OF memory(4) this assms(5)] have bR: "buffer \<notin> R'" .
    have ct: "cstr_bytes s2 (At buffer) i (length tok) = Inr tok"
    proof (rule cstr_bytes_result)
      fix k assume k: "i \<le> k" "k < i + length tok"
      have "tok ! (k - i) = take (length tok) (drop i xs) ! (k - i)" by (simp only: s1(6))
      also have "\<dots> = xs ! k" using k s1(5) by simp
      finally show "cstr_byte s2 (At buffer) k = Inr (tok ! (k - i))"
        using buf_byte(2) [OF memory(2) b2, of k] k s1(5) by simp
    qed
    have run: "answer_request self arena buffer st =
        (if p = 0 then Inl (Undefined ''write to unmapped memory'')
         else bindE (build_response self tok s2) (\<lambda>(response, st).
                bindE (sent_bytes response st) (\<lambda>sent.
                bindE (cleanup_safe_string_free self response st) (\<lambda>st. Inr (Some sent, st)))))"
      using s1(1) memory(1) ct by (simp add: answer_request_def)
    have u2: "uses BLOCK 1 st s2" using uses_trans [OF u1 memory(6)] by simp
    show thesis
    proof (cases "p = 0")
      case True
      have "short BLOCK 14 st" using short_mono [OF short_after [OF u1]] memory(5) True by fastforce
      then show thesis using failed run True by (simp add: out_of_memory_def)
    next
      case False
      from memory(2) tok show thesis
      proof (cases rule: build_response_cases [where self = self])
        case oom
        have "short BLOCK 14 st" using short_after [OF u2 oom(2)] by simp
        then show thesis using failed run False oom(1) by (simp add: out_of_memory_def)
      next
        case (null s3)
        have "short BLOCK 14 st" using short_after [OF u2 null(2)] by simp
        then show thesis using failed run False null(1) by (simp add: out_of_memory_def sent_bytes_null)
      next
        case (built str data cap s3)
        have str0: "str \<noteq> 0" using built(3) by (rule str_repE)
        obtain s4 where s4: "safe_string_free self str s3 = Inr s4" "rt_wf s4" "rt.more s4 = rt.more s3"
          "cell_at s4 = cell_at s3 |` (- {str, data})"
          using safe_string_free_rep [OF built(2,3)] by blast
        have m4: "moves {str, data} {} s3 s4" using s4(3,4) by (simp add: moves_def restrict_map_def)
        have m24: "moves {} {} s2 s4" by (rule moves_trans [OF built(4) m4])
        have "moves (insert buffer R) (insert buffer R) st s1" using moves_frame [OF s1(3), of R] by simp
        moreover have "moves (insert buffer R) (insert buffer R') s1 s2"
          using moves_frame [OF memory(4), of "{buffer}"] by simp
        moreover have "moves (insert buffer R') (insert buffer R') s2 s4"
          using moves_frame [OF m24, of "insert buffer R'"] by simp
        ultimately have m: "moves (insert buffer R) (insert buffer R') st s4" by (blast intro: moves_trans)
        have u4: "uses BLOCK 14 st s4" using uses_trans0 [OF uses_trans [OF u2 built(5)] uses_string_free [OF s4(1)]] by simp
        have a4: "arena_ok self s4 arena R'" using arena_moves [OF memory(3) m24] by simp
        have "answer_request self arena buffer st = Inr (Some (page tok), s4)"
          using run False built(1) sent_bytes_rep [OF built(2,3)] str0 s4(1)
          by (simp add: cleanup_safe_string_free_def)
        then show thesis
          using answered [of s4 R'] Some s4(2) a4 bR m buf_cell [OF buf_moves [OF b2 m24]] u4 by simp
      qed
    qed
  qed
qed

subsection \<open>A worker\<close>

text \<open>A context on its way to a worker: shared, and borrowed by nobody.\<close>

definition handed_over :: "alloc_meta \<Rightarrow> bool" where
  "handed_over m \<longleftrightarrow> m_state m = SHARED \<and> m_borrow_count m = 0"

lemma handed_over_borrow:
  assumes "handed_over m"
  shows "m_borrow_count (borrowed_meta m) > 0" and "free_ok self (released_meta (borrowed_meta m))"
    and "free_ok self m" and "m_borrow_count m < INT_MAX"
  using assms by (simp_all add: handed_over_def borrowed_meta_def released_meta_def free_ok_def INT_MAX_def)

lemma read_answer_cases:
  assumes "rt_wf st" and "cell_at st buffer = Some (fresh_meta self BUFFER_SIZE, y)"
    and "arena_ok self st arena R" and "buffer \<notin> R" and "arena_sized st arena"
  obtains (failed) e where "read_and_answer self arena buffer incoming st = Inl e" and "e \<in> out_of_memory"
      and "arena = 0 \<or> short BLOCK 14 st"
  | (answered) R' st' where "read_and_answer self arena buffer incoming st = Inr (reply incoming, st')"
      and "rt_wf st'" and "arena_ok self st' arena R'" and "buffer \<notin> R'"
      and "moves (insert buffer R) (insert buffer R') st st'"
      and "buf_holds st' buffer (fresh_meta self BUFFER_SIZE) []" and "uses BLOCK 14 st st'"
proof (cases incoming)
  case None
  then show thesis using answered [of st R] assms
    by (simp add: read_and_answer_def read_socket_def reply_def buf_holds_def uses_mono [of BLOCK 0 st st 14])
next
  case (Some bs)
  define got where "got = take (unat BUFFER_SIZE - 1) bs"
  have rp: "reply incoming = map_option page (request_line got)" by (simp add: reply_def Some got_def)
  have b0: "buffer \<noteq> 0" by (rule cell_at_nonnull [OF assms(2)])
  from read_socket_rep [OF assms(1) b0 assms(2), of bs, folded got_def] obtain s1 where
    s1: "read_socket buffer (Some bs) st = Inr (int (length got), s1)" "rt_wf s1" "moves {buffer} {buffer} st s1"
      "buf_holds s1 buffer (fresh_meta self BUFFER_SIZE) got" by auto
  have a1: "arena_ok self s1 arena R" using arena_moves [OF assms(3) s1(3)] assms(4) by simp
  have z1: "arena_sized s1 arena" using arena_sized_moves [OF assms(5,3) s1(3)] assms(4) by simp
  have u1: "uses BLOCK 0 st s1" by (rule uses_read_socket [OF s1(1)])
  have m1: "moves (insert buffer R) (insert buffer R) st s1" using moves_frame [OF s1(3), of R] by simp
  have len: "length got < 4096" by (simp add: got_def BUFFER_SIZE_def)
  show thesis
  proof (cases "got = []")
    case True
    then have "reply incoming = None" unfolding rp by (simp add: request_line_def)
    moreover have "read_and_answer self arena buffer incoming st = Inr (None, s1)"
      using s1(1) Some True by (simp add: read_and_answer_def)
    ultimately show thesis using answered [of s1 R] s1 a1 m1 assms(4) buf_cell [OF s1(4)] uses_mono [OF u1, of 14] by simp
  next
    case False
    have sz: "length got < unat (m_size (fresh_meta self BUFFER_SIZE))" using len by (simp add: BUFFER_SIZE_def)
    obtain s2 where s2: "store_byte buffer (length got) 0 s1 = Inr s2" "rt_wf s2"
      "moves {buffer} {buffer} s1 s2"
      "buf_holds s2 buffer (fresh_meta self BUFFER_SIZE)
         (take (length got) got @ 0 # drop (length got + 1) got)"
      by (rule buf_store [OF s1(2,4) sz order.refl])
    have b2: "buf_holds s2 buffer (fresh_meta self BUFFER_SIZE) (got @ [0])" using s2(4) by simp
    have a2: "arena_ok self s2 arena R" using arena_moves [OF a1 s2(3)] assms(4) by simp
    have z2: "arena_sized s2 arena" using arena_sized_moves [OF z1 a1 s2(3)] assms(4) by simp
    have u2: "uses BLOCK 0 st s2" using uses_trans [OF u1 uses_store_byte [OF s2(1)]] by simp
    have m2: "moves (insert buffer R) (insert buffer R) s1 s2" using moves_frame [OF s2(3), of R] by simp
    have run: "read_and_answer self arena buffer incoming st = answer_request self arena buffer s2"
      using Some s1(1) s2(1) False by (simp add: read_and_answer_def)
    from s2(2) b2 len a2 assms(4) z2 show thesis
    proof (cases rule: answer_request_cases)
      case (failed e)
      have "arena = 0 \<or> short BLOCK 14 st" using failed(3) short_after [OF u2, of 14] by auto
      then show thesis using that(1) run failed(1,2) by simp
    next
      case (answered R' s3)
      have "uses BLOCK 14 st s3" using uses_trans [OF u2 answered(7)] by simp
      have "moves (insert buffer R) (insert buffer R') st s3"
        using m1 m2 answered(5) by (blast intro: moves_trans)
      with \<open>uses BLOCK 14 st s3\<close> show thesis using that(2) [of s3 R'] run answered by (simp add: rp)
    qed
  qed
qed

lemma moves_empty: "moves {p} {} st st' \<Longrightarrow> cell_at st' = (cell_at st)(p := None) \<and> rt.more st' = rt.more st"
  by (simp add: moves_def restrict_map_def fun_eq_iff)

text \<open>The end of a worker: the region, the context and the buffer are released.\<close>

lemma worker_end:
  assumes "rt_wf st" and "arena_ok self st arena R" and "ctx \<notin> R" and "buffer \<notin> R" and "buffer \<noteq> ctx"
    and "cell_at st ctx = Some (borrowed_meta m, x)" and "handed_over m"
    and "buffer = 0 \<and> B = {} \<or> B = {buffer} \<and> (\<exists>mb y. cell_at st buffer = Some (mb, y) \<and> free_ok self mb)"
  obtains st' where "bindE (safe_region_free self arena st) (\<lambda>st.
      bindE (ownership_release ctx st) (\<lambda>st.
      bindE (owner_free self ctx st) (owner_free_cleanup self buffer))) = Inr st'"
    and "rt_wf st'" and "moves ({ctx} \<union> R \<union> B) {} st st'" and "uses BLOCK 0 st st'"
proof -
  note h = handed_over_borrow [OF assms(7)]
  obtain s1 where s1: "safe_region_free self arena st = Inr s1" "rt_wf s1" "moves R {} st s1"
    "uses BLOCK 0 st s1"
    by (rule arena_free [OF assms(1,2)])
  have c1: "cell_at s1 ctx = Some (borrowed_meta m, x)" by (rule moves_cell(1) [OF s1(3) assms(6,3)])
  obtain s2 where s2: "ownership_release ctx s1 = Inr s2" "rt_wf s2" "rt.more s2 = rt.more s1"
    "cell_at s2 = (cell_at s1)(ctx \<mapsto> (released_meta (borrowed_meta m), x))"
    by (rule ownership_release_cells [OF s1(2) c1 h(1)])
  have c2: "cell_at s2 ctx = Some (released_meta (borrowed_meta m), x)" using s2(4) by simp
  obtain s3 where s3: "owner_free self ctx s2 = Inr s3" "rt_wf s3" "rt.more s3 = rt.more s2"
    "cell_at s3 = (cell_at s2)(ctx := None)"
    by (rule heap.release_obtain [OF s2(2) c2 h(2)])
  have u3: "uses BLOCK 0 st s3"
    by (rule uses_trans0 [OF uses_trans0 [OF s1(4) uses_ownership(2) [OF s2(1)]] uses_free [OF s3(1)]])
  have m13: "moves {ctx} {} s1 s3"
    using s2(3,4) s3(3,4) by (auto simp: moves_def restrict_map_def fun_eq_iff)
  have m03: "moves ({ctx} \<union> R) {} st s3"
    using moves_trans [OF moves_frame [OF s1(3), of "{ctx}"]] m13 by (simp add: Un_commute)
  show thesis
  proof (cases "B = {}")
    case True
    then have "buffer = 0" using assms(8) by auto
    then show thesis using that [of s3] s1(1) s2(1) s3(1,2) m03 True u3 by (simp add: owner_free_cleanup_def)
  next
    case False
    then obtain mb y where B: "B = {buffer}" and mb: "cell_at st buffer = Some (mb, y)" "free_ok self mb"
      using assms(8) by auto
    have c3: "cell_at s3 buffer = Some (mb, y)"
      using moves_cell(1) [OF m03 mb(1)] assms(4,5) by simp
    obtain s4 where s4: "owner_free self buffer s3 = Inr s4" "rt_wf s4" "rt.more s4 = rt.more s3"
      "cell_at s4 = (cell_at s3)(buffer := None)"
      by (rule heap.release_obtain [OF s3(2) c3 mb(2)])
    have "moves {buffer} {} s3 s4" using s4(3,4) by (auto simp: moves_def restrict_map_def fun_eq_iff)
    then have "moves ({ctx} \<union> R \<union> B) {} st s4"
      using moves_trans [OF moves_frame [OF m03, of B]] B by simp
    then show thesis
      using that [of s4] s1(1) s2(1) s3(1) s4(1,2) cell_at_nonnull [OF mb(1)] uses_trans0 [OF u3 uses_free [OF s4(1)]]
      by (simp add: owner_free_cleanup_def)
  qed
qed

lemma handle_client_cases:
  assumes "rt_wf st" and "cell_at st ctx = Some (m, Client c)" and "handed_over m"
  obtains (failed) e where "handle_client self ctx incoming st = Inl e" and "e \<in> out_of_memory"
      and "short BLOCK 17 st"
  | (handled) sent st' where "handle_client self ctx incoming st = Inr ((client_socket c, sent), st')"
      and "sent = reply incoming \<or> sent = None \<and> short BLOCK 17 st" and "rt_wf st'" and "moves {ctx} {} st st'"
      and "uses BLOCK 17 st st'"
proof -
  note h = handed_over_borrow [OF assms(3)]
  have "m_state m = SHARED \<or> m_owner_thread m = self" using assms(3) by (simp add: handed_over_def)
  then obtain s1 where s1: "ownership_borrow self ctx st = Inr s1" "rt_wf s1" "rt.more s1 = rt.more st"
    "cell_at s1 = (cell_at st)(ctx \<mapsto> (borrowed_meta m, Client c))"
    by (rule ownership_borrow_cells [OF assms(1,2) _ h(4)])
  have m1: "moves {ctx} {ctx} st s1" by (rule moves_upd [OF s1(3,4)])
  have c1: "cell_at s1 ctx = Some (borrowed_meta m, Client c)" using s1(4) by simp
  have f: "field context_of s1 ctx = Inr c" by (rule field_cell [OF s1(2) c1]) simp
  obtain arena R s2 where s2: "safe_region_create self 8192 s1 = Inr (arena, s2)" "rt_wf s2"
    "arena_ok self s2 arena R" "moves {} R s1 s2"
    "arena_sized s2 arena" "uses BLOCK 2 s1 s2" "arena = 0 \<longrightarrow> short BLOCK 2 s1"
    by (rule arena_create [OF s1(2)])
  have u1: "uses BLOCK 0 st s1" by (rule uses_ownership(1) [OF s1(1)])
  have u2: "uses BLOCK 2 st s2" using uses_trans [OF u1 s2(6)] by (simp add: numeral_2_eq_2)
  have noarena: "short BLOCK 17 st" if "arena = 0"
  proof (rule short_mono)
    show "short BLOCK (0 + 2) st" using short_after [OF u1] s2(7) that by blast
  qed simp
  have c2: "cell_at s2 ctx = Some (borrowed_meta m, Client c)" "ctx \<notin> R"
    using moves_cell [OF s2(4) c1] by auto
  have m2: "moves {ctx} ({ctx} \<union> R) st s2"
    using moves_trans [OF m1] moves_frame [OF s2(4), of "{ctx}"] by (simp add: Un_commute)
  have run: "handle_client self ctx incoming st =
      bindE (owner_malloc self BUFFER_SIZE s2) (\<lambda>(buffer, st).
      bindE (read_and_answer self arena buffer incoming st) (\<lambda>(sent, st).
      bindE (bindE (safe_region_free self arena st) (\<lambda>st.
         bindE (ownership_release ctx st) (\<lambda>st.
         bindE (owner_free self ctx st) (owner_free_cleanup self buffer))))
        (\<lambda>st. Inr ((client_socket c, sent), st))))"
    using s1(1) f s2(1) by (simp add: handle_client_def bindE_assoc)
  have n: "unat BUFFER_SIZE + 80 \<le> BLOCK" "BLOCK < 2 ^ 64" by (simp_all add: BUFFER_SIZE_def BLOCK_def)
  from s2(2) n show thesis
  proof (cases rule: alloc_supply [where self = self])
    case (null s3)
    have m23: "moves {} {} s2 s3" using null(3,4) by (simp add: moves_same)
    have a3: "arena_ok self s3 arena R" using arena_moves [OF s2(3) m23] by simp
    have c3: "cell_at s3 ctx = Some (borrowed_meta m, Client c)" using null(4) c2(1) by simp
    have z: "0 \<notin> R" using arena_cells [OF s2(3)] cell_at_nonnull by fastforce
    have ne: "(0 :: addr) \<noteq> ctx" using cell_at_nonnull [OF assms(2)] by simp
    have B: "(0 :: addr) = 0 \<and> ({} :: addr set) = {} \<or>
        ({} :: addr set) = {0} \<and> (\<exists>mb y. cell_at s3 0 = Some (mb, y) \<and> free_ok self mb)" by simp
    obtain s4 where s4: "bindE (safe_region_free self arena s3) (\<lambda>st.
      bindE (ownership_release ctx st) (\<lambda>st.
      bindE (owner_free self ctx st) (owner_free_cleanup self 0))) = Inr s4" "rt_wf s4"
      "moves ({ctx} \<union> R \<union> {}) {} s3 s4" "uses BLOCK 0 s3 s4"
      by (rule worker_end [OF null(2) a3 c2(2) z ne c3 assms(3) B])
    have "read_and_answer self arena 0 incoming s3 = Inr (None, s3)"
      by (cases incoming) (simp_all add: read_and_answer_def read_socket_def)
    then have "handle_client self ctx incoming st = Inr ((client_socket c, None), s4)"
      using run null(1) s4(1) by simp
    moreover have "moves {ctx} {} st s4"
      using moves_trans [OF m2] moves_trans [OF moves_frame [OF m23, of "{ctx} \<union> R"]] s4(3) by simp
    moreover have "short BLOCK 17 st" by (rule short_mono [OF short_after [OF u2 null(5)]]) simp
    ultimately show thesis using handled s4(2) uses_short by blast
  next
    case (object buffer s3)
    let ?mb = "fresh_meta self BUFFER_SIZE"
    have m23: "moves {} {buffer} s2 s3"
      using object(4-6) by (auto simp: moves_def restrict_map_def fun_eq_iff)
    have a3: "arena_ok self s3 arena R" using arena_moves [OF s2(3) m23] by simp
    have b3: "cell_at s3 buffer = Some (?mb, Filled 0xAA)" using object(6) by simp
    have bR: "buffer \<notin> R" using arena_cells [OF s2(3)] object(5) by blast
    have z3: "arena_sized s3 arena" using arena_sized_moves [OF s2(5,3) m23] by simp
    have u3: "uses BLOCK 3 st s3" using uses_trans [OF u2 object(7)] by simp
    have bc: "buffer \<noteq> ctx" using object(5) c2(1) by auto
    have c3: "cell_at s3 ctx = Some (borrowed_meta m, Client c)" using object(6) c2(1) bc by simp
    from object(3) b3 a3 bR z3 show thesis
    proof (cases rule: read_answer_cases [where incoming = incoming])
      case (failed e)
      have "short BLOCK 17 st" using failed(3) noarena short_after [OF u3, of 14] by auto
      then show thesis using that(1) [of e] run object(1) failed(1,2) by simp
    next
      case (answered R' s4)
      have c4: "cell_at s4 ctx = Some (borrowed_meta m, Client c)" "ctx \<notin> R'"
        using moves_cell [OF answered(5) c3] bc c2(2) by auto
      obtain y where b4: "cell_at s4 buffer = Some (?mb, y)" using answered(6) by (auto simp: buf_holds_def)
      have B: "buffer = 0 \<and> {buffer} = {} \<or>
          {buffer} = {buffer} \<and> (\<exists>mb y. cell_at s4 buffer = Some (mb, y) \<and> free_ok self mb)"
        using b4 by auto
      obtain s5 where s5: "bindE (safe_region_free self arena s4) (\<lambda>st.
        bindE (ownership_release ctx st) (\<lambda>st.
        bindE (owner_free self ctx st) (owner_free_cleanup self buffer))) = Inr s5" "rt_wf s5"
        "moves ({ctx} \<union> R' \<union> {buffer}) {} s4 s5" "uses BLOCK 0 s4 s5"
        by (rule worker_end [OF answered(2,3) c4(2) answered(4) bc c4(1) assms(3) B])
      have "handle_client self ctx incoming st = Inr ((client_socket c, reply incoming), s5)"
        using run object(1) answered(1) s5(1) by simp
      moreover have "moves {ctx} {} st s5"
      proof -
        have "moves ({ctx} \<union> R) ({ctx} \<union> R \<union> {buffer}) s2 s3"
          using moves_frame [OF m23, of "{ctx} \<union> R"] by (simp add: Un_commute)
        moreover have "moves ({ctx} \<union> R \<union> {buffer}) ({ctx} \<union> R' \<union> {buffer}) s3 s4"
          using moves_frame [OF answered(5), of "{ctx}"] by (simp add: insert_commute)
        ultimately show ?thesis using m2 s5(3) by (blast intro: moves_trans)
      qed
      moreover have "uses BLOCK 17 st s5" using uses_trans0 [OF uses_trans [OF u3 answered(7)] s5(4)] by simp
      ultimately show thesis using handled s5(2) by blast
    qed
  qed
qed

subsection \<open>The server\<close>

lemma accept_client_cases:
  assumes "rt_wf st"
  obtains (failed) e where "accept_client self sock started st = Inl e" and "e \<in> out_of_memory"
      and "short BLOCK 1 st"
  | (refused) st' where "\<not> started" and "accept_client self sock started st = Inr (None, st')"
      and "rt_wf st'" and "moves {} {} st st'" and "uses BLOCK 1 st st'"
  | (accepted) ctx m st' where "started" and "accept_client self sock started st = Inr (Some ctx, st')"
      and "rt_wf st'" and "moves {} {ctx} st st'"
      and "cell_at st' ctx = Some (m, Client \<lparr>client_socket = sock\<rparr>)" and "handed_over m"
      and "uses BLOCK 1 st st'"
proof -
  let ?c = "Client \<lparr>client_socket = sock\<rparr>"
  have n: "unat (4 :: size_t) + 80 \<le> BLOCK" "BLOCK < 2 ^ 64" by (simp_all add: BLOCK_def)
  from assms n show thesis
  proof (cases rule: alloc_supply [where self = self])
    case (null s1)
    then show thesis using failed by (simp add: accept_client_def write_struct_def out_of_memory_def)
  next
    case (object ctx s1)
    have c1: "cell_at s1 ctx = Some (fresh_meta self 4, Filled 0xAA)" using object(6) by simp
    note w = write_struct_cell [OF object(3) c1, of ?c]
    have c2: "cell_at (put ctx ?c s1) ctx = Some (fresh_meta self 4, ?c)" using w(3) by simp
    have own: "m_owner_thread (fresh_meta self 4) = self" by (simp add: fresh_meta_def new_meta_def bare_def)
    obtain s3 where s3: "ownership_share self ctx (put ctx ?c s1) = Inr s3" "rt_wf s3"
      "rt.more s3 = rt.more (put ctx ?c s1)"
      "cell_at s3 = (cell_at (put ctx ?c s1))(ctx \<mapsto> (shared_meta (fresh_meta self 4), ?c))"
      by (rule ownership_share_cells [OF w(2) c2 own])
    have ho: "handed_over (shared_meta (fresh_meta self 4))"
      by (simp add: handed_over_def shared_meta_def fresh_meta_def new_meta_def bare_def)
    have c3: "cell_at s3 ctx = Some (shared_meta (fresh_meta self 4), ?c)" using s3(4) by simp
    have u3: "uses BLOCK 1 st s3"
      by (rule uses_trans0 [OF uses_trans0 [OF object(7) uses_put] uses_ownership(3) [OF s3(1)]])
    have m3: "moves {} {ctx} st s3"
      using object(4-6) w(3) s3(3,4) by (auto simp: moves_def restrict_map_def fun_eq_iff)
    show thesis
    proof (cases started)
      case True
      then show thesis using accepted [OF True _ s3(2) m3 c3 ho u3] object(1) w(1) s3(1)
        by (simp add: accept_client_def)
    next
      case False
      obtain s4 where s4: "owner_free self ctx s3 = Inr s4" "rt_wf s4" "rt.more s4 = rt.more s3"
        "cell_at s4 = (cell_at s3)(ctx := None)"
        by (rule heap.release_obtain [OF s3(2) c3 handed_over_borrow(3) [OF ho]])
      have "moves {ctx} {} s3 s4" using s4(3,4) by (auto simp: moves_def restrict_map_def fun_eq_iff)
      then have "moves {} {} st s4" by (rule moves_trans [OF m3])
      with uses_trans0 [OF u3 uses_free [OF s4(1)]] show thesis using refused [OF False _ s4(2)] False object(1) w(1) s3(1) s4(1)
        by (simp add: accept_client_def)
    qed
  qed
qed

text \<open>What a client should get.\<close>

definition expected :: "connection \<Rightarrow> byte list option" where
  "expected c = (if conn_worker c = None then None else reply (conn_incoming c))"

definition CLIENT_BLOCKS :: nat where
  "CLIENT_BLOCKS = 18"

text \<open>One client, from \<open>accept\<close> to the end of its worker.\<close>

lemma serve_step_cases:
  assumes "rt_wf st" and "\<not> conn_socket c < 0"
  obtains (failed) e where "serve self (c # cs) st = Inl e" and "e \<in> out_of_memory" and "short BLOCK CLIENT_BLOCKS st"
  | (served) sent st' where "serve self (c # cs) st =
        bindE (serve self cs st') (\<lambda>(rest, st). Inr ((conn_socket c, sent) # rest, st))"
      and "rt_wf st'" and "moves {} {} st st'" and "uses BLOCK CLIENT_BLOCKS st st'"
      and "sent = expected c \<or> sent = None \<and> short BLOCK CLIENT_BLOCKS st"
  using assms(1)
proof (cases rule: accept_client_cases [where self = self and sock = "conn_socket c"
      and started = "conn_worker c \<noteq> None"])
  case (failed e)
  then show thesis using that(1) [of e] assms(2) short_mono [OF failed(3)] by (simp add: CLIENT_BLOCKS_def)
next
  case (refused st')
  then show thesis using that(2) [of st' None] assms(2) uses_mono [OF refused(5), of 18]
    by (simp add: CLIENT_BLOCKS_def expected_def)
next
  case (accepted ctx m s1)
  from accepted(3,5,6) show thesis
  proof (cases rule: handle_client_cases [where self = "the (conn_worker c)" and incoming = "conn_incoming c"])
    case (failed e)
    then show thesis using that(1) [of e] assms(2) accepted(2) short_after [OF accepted(7) failed(3)]
      by (simp add: CLIENT_BLOCKS_def)
  next
    case (handled sent s2)
    have "moves {} {} st s2" using moves_trans [OF accepted(4) handled(4)] .
    moreover have "uses BLOCK CLIENT_BLOCKS st s2"
      using uses_trans [OF accepted(7) handled(5)] by (simp add: CLIENT_BLOCKS_def)
    moreover have "sent = expected c \<or> sent = None \<and> short BLOCK CLIENT_BLOCKS st"
      using handled(2) short_after [OF accepted(7), of 17] accepted(1) by (auto simp: expected_def CLIENT_BLOCKS_def)
    ultimately show thesis using that(2) [of s2 sent] handled(1,3) assms(2) accepted(1,2) by auto
  qed
qed


definition server_start :: rt where
  "server_start = rt_init (map (\<lambda>i. of_nat (0x10000 * Suc i)) [0..<60]) 1 2 3"

definition example_connections :: "connection list" where
  "example_connections =
     [\<lparr>conn_socket = 5, conn_worker = Some 2, conn_incoming = Some (ascii ''GET /'' @ crlf @ ascii ''Host'' @ crlf)\<rparr>,
      \<lparr>conn_socket = -1, conn_worker = None, conn_incoming = None\<rparr>,
      \<lparr>conn_socket = 6, conn_worker = None, conn_incoming = None\<rparr>]"

lemma example_expected:
  "map (\<lambda>c. (conn_socket c, expected c)) (filter (\<lambda>c. conn_socket c \<ge> 0) example_connections) =
     [(5, Some (page (ascii ''GET /''))), (6, None)]"
  by (simp add: example_connections_def expected_def reply_def BUFFER_SIZE_def request_line_def line_end_def
      ascii_def crlf_def)

lemma example_room: "room (CLIENT_BLOCKS * length example_connections) BLOCK server_start"
  by (rule room_spaced [where g = "0x10000" and n = 60])
    (simp_all add: server_start_def rt_init_def CLIENT_BLOCKS_def BLOCK_def example_connections_def)


end
