(* ===== verification/Adapters.thy ===== *)
theory Adapters
  imports SString Bump
begin

text \<open>
  The adapters through which other libraries allocate from the runtime: the memory methods that
  \<open>examples/sqlite_ownedc.c\<close> installs in SQLite, and the hooks of \<open>examples/real_libs_ownedc.c\<close>.  What SQLite asks of
  such methods is the locale \<open>mem_methods\<close>, with a client that allocates, resizes and releases through them.
\<close>

subsection \<open>The memory methods of SQLite\<close>

definition ownedc_xMalloc :: "tid \<Rightarrow> int \<Rightarrow> 'x rt_scheme \<Rightarrow> failure + (addr \<times> 'x rt_scheme)" where
  "ownedc_xMalloc self sz st = owner_malloc self (word_of_int sz) st"

definition ownedc_xFree :: "tid \<Rightarrow> addr \<Rightarrow> 'x rt_scheme \<Rightarrow> failure + 'x rt_scheme" where
  "ownedc_xFree self p st = owner_free self p st"

definition ownedc_xRealloc :: "tid \<Rightarrow> addr \<Rightarrow> int \<Rightarrow> 'x rt_scheme \<Rightarrow> failure + (addr \<times> 'x rt_scheme)" where
  "ownedc_xRealloc self p sz st = owner_realloc self p (word_of_int sz) st"

text \<open>The conversion to \<open>int\<close> keeps the low 32 bits.\<close>

definition ownedc_xSize :: "addr \<Rightarrow> 'x rt_scheme \<Rightarrow> failure + int" where
  "ownedc_xSize p st = bindE (owner_malloc_usable_size p st) (\<lambda>n. Inr (sint (ucast n :: 32 word)))"

definition ownedc_xRoundup :: "int \<Rightarrow> failure + int" where
  "ownedc_xRoundup sz = (if sz + 7 > INT_MAX then Inl (Undefined ''signed overflow'') else Inr (and (sz + 7) (not 7)))"

subsection \<open>The hooks of the other libraries\<close>

definition owned_xml_strdup :: "tid \<Rightarrow> cstr \<Rightarrow> 'x rt_scheme \<Rightarrow> failure + (addr \<times> 'x rt_scheme)" where
  "owned_xml_strdup self str st =
     (if cstr_null str then Inr (0, st)
      else bindE (strlen_from st str 0) (\<lambda>len.
           bindE (owner_malloc self (of_nat len + 1) st) (\<lambda>(copy, st).
           bindE (if copy \<noteq> 0 then memcpy copy 0 str (len + 1) st else Inr st) (\<lambda>st. Inr (copy, st)))))"

definition openssl_malloc ::
    "tid \<Rightarrow> size_t \<Rightarrow> string option \<Rightarrow> int \<Rightarrow> 'x rt_scheme \<Rightarrow> failure + (addr \<times> 'x rt_scheme)" where
  "openssl_malloc self num fl line st = owner_malloc_internal self num fl line st"

definition openssl_realloc ::
    "tid \<Rightarrow> addr \<Rightarrow> size_t \<Rightarrow> string option \<Rightarrow> int \<Rightarrow> 'x rt_scheme \<Rightarrow> failure + (addr \<times> 'x rt_scheme)" where
  "openssl_realloc self p num fl line st = owner_realloc_internal self p num fl line st"

definition openssl_free ::
    "tid \<Rightarrow> addr \<Rightarrow> string option \<Rightarrow> int \<Rightarrow> 'x rt_scheme \<Rightarrow> failure + 'x rt_scheme" where
  "openssl_free self p fl line st = owner_free_internal self p fl line st"

text \<open>The duplicate is NULL or a new object that holds the bytes and their NUL.\<close>

lemma owned_xml_strdup_copies:
  assumes "rt_wf st" and "0 \<notin> set bs" and "length bs + 81 < 2 ^ 64"
  shows "\<exists>p st'. owned_xml_strdup self (Lit bs) st = Inr (p, st') \<and> rt_wf st' \<and>
    (if p = 0 then cell_at st' = cell_at st
     else cell_at st p = None \<and> (\<exists>m y. cell_at st' = (cell_at st)(p \<mapsto> (m, y)) \<and> free_ok self m \<and>
       unat (m_size m) = length bs + 1 \<and> (\<forall>i \<le> length bs. byte_view y i = Some ((bs @ [0]) ! i))))"
proof -
  let ?n = "of_nat (length bs) + 1 :: size_t"
  have sl: "strlen_from st (Lit bs) 0 = Inr (length bs)" by (rule strlen_holds [OF holds_Lit [OF assms(2)]])
  have un: "unat ?n = length bs + 1"
    using unat_add_no_overflow [of "of_nat (length bs) :: size_t" 1] assms(3) by (simp add: unat_of_nat_lt)
  have n: "unat ?n + 80 < 2 ^ 64" unfolding un using assms(3) by simp
  from assms(1) n show ?thesis
  proof (cases rule: heap.alloc_cases [where self = self])
    case (null s1)
    then show ?thesis using sl by (simp add: owned_xml_strdup_def cstr_null_def)
  next
    case (object p s1)
    have c: "cell_at s1 p = Some (fresh_meta self ?n, Filled 0xAA)" using object(6) by simp
    have sz: "0 + (length bs + 1) \<le> unat (m_size (fresh_meta self ?n))" using un by simp
    have len: "length bs + 1 \<le> length (bs @ [0])" by simp
    have rd: "cstr_byte s' (Lit bs) i = Inr ((bs @ [0]) ! i)" if "i < length (bs @ [0])" for s' :: "'a rt_scheme" and i
      using that by (auto simp: cstr_byte_def nth_append)
    obtain s2 y where s2: "memcpy p 0 (Lit bs) (length bs + 1) s1 = Inr s2" "rt_wf s2" "rt.more s2 = rt.more s1"
      "cell_at s2 = (cell_at s1)(p \<mapsto> (fresh_meta self ?n, y))"
      "byte_view y = (\<lambda>i. if 0 \<le> i \<and> i < 0 + (length bs + 1) then Some ((bs @ [0]) ! (i - 0)) else byte_view (Filled 0xAA) i)"
      using memcpy_bytes [OF object(3) c sz len rd] by blast
    have "owned_xml_strdup self (Lit bs) st = Inr (p, s2)"
      using sl object(1,2) s2(1) by (simp add: owned_xml_strdup_def cstr_null_def)
    moreover have "cell_at s2 = (cell_at st)(p \<mapsto> (fresh_meta self ?n, y))" using s2(4) object(6) by simp
    moreover have "\<forall>i \<le> length bs. byte_view y i = Some ((bs @ [0]) ! i)" using s2(5) by simp
    ultimately show ?thesis using object(2,5) s2(2) un fresh_meta_simps by (intro exI [of _ p] exI [of _ s2]) fastforce
  qed
qed

subsection \<open>What SQLite asks of its memory methods\<close>

type_synonym mem_object = "nat \<times> (nat \<Rightarrow> byte option)"

datatype mem_op = Alloc int | Resize nat int | Release nat

lemma set_update_distinct:
  assumes "distinct (filter (\<lambda>p. p \<noteq> 0) hs)" and "i < length hs" and "hs ! i \<noteq> (0 :: addr)"
  shows "set (hs[i := q]) = insert q (set hs - {hs ! i})"
proof -
  have "hs ! j \<noteq> hs ! i" if "j < length hs" "j \<noteq> i" for j
    using nth_filter_ne_distinct [OF assms(1) assms(2) that(1)] assms(3) that(2) by auto
  then show ?thesis using assms(2) by (auto simp: set_conv_nth nth_list_update) metis+
qed

lemma distinct_filter_zero:
  "distinct (filter (\<lambda>p. p \<noteq> (0 :: addr)) hs) \<Longrightarrow> distinct (filter (\<lambda>p. p \<noteq> 0) (hs[i := 0]))"
proof (induction hs arbitrary: i)
  case Nil
  then show ?case by simp
next
  case (Cons x hs)
  have "set (hs[j := 0]) \<subseteq> insert 0 (set hs)" for j by (rule set_update_subset_insert)
  with Cons show ?case by (cases i) (auto split: if_splits)
qed

text \<open>A call is valid if it names a handle there is and asks for a size the methods are specified for.\<close>

definition valid :: "nat \<Rightarrow> mem_op \<Rightarrow> bool" where
  "valid k oper \<longleftrightarrow>
     (case oper of
        Alloc n \<Rightarrow> 0 < n \<and> n \<le> INT_MAX - 7
      | Resize i n \<Rightarrow> i < k \<and> 0 < n \<and> n \<le> INT_MAX
      | Release i \<Rightarrow> i < k)"

fun valid_all :: "nat \<Rightarrow> mem_op list \<Rightarrow> bool" where
  "valid_all k [] = True"
| "valid_all k (oper # ops) \<longleftrightarrow>
     valid k oper \<and> valid_all (case oper of Alloc n \<Rightarrow> k + 1 | _ \<Rightarrow> k) ops"

locale mem_methods =
  fixes invar :: "'s \<Rightarrow> bool"
    and objects :: "'s \<Rightarrow> addr \<Rightarrow> mem_object option"
    and xMalloc :: "int \<Rightarrow> 's \<Rightarrow> failure + (addr \<times> 's)"
    and xFree :: "addr \<Rightarrow> 's \<Rightarrow> failure + 's"
    and xRealloc :: "addr \<Rightarrow> int \<Rightarrow> 's \<Rightarrow> failure + (addr \<times> 's)"
    and xSize :: "addr \<Rightarrow> 's \<Rightarrow> failure + int"
    and xRoundup :: "int \<Rightarrow> failure + int"
  assumes malloc_law: "invar s \<Longrightarrow> 0 < n \<Longrightarrow> n \<le> INT_MAX \<Longrightarrow>
      \<exists>p s'. xMalloc n s = Inr (p, s') \<and> invar s' \<and> (p = 0 \<longrightarrow> objects s' = objects s) \<and>
        (p \<noteq> 0 \<longrightarrow> objects s p = None \<and> unat p mod 8 = 0 \<and> (\<exists>f. objects s' = (objects s)(p \<mapsto> (nat n, f))))"
    and free_law: "invar s \<Longrightarrow> objects s p = Some b \<Longrightarrow>
      \<exists>s'. xFree p s = Inr s' \<and> invar s' \<and> objects s' = (objects s)(p := None)"
    and realloc_law: "invar s \<Longrightarrow> objects s p = Some (k, f) \<Longrightarrow> 0 < n \<Longrightarrow> n \<le> INT_MAX \<Longrightarrow>
      \<exists>q s'. xRealloc p n s = Inr (q, s') \<and> invar s' \<and> (q = 0 \<longrightarrow> objects s' = objects s) \<and>
        (q \<noteq> 0 \<longrightarrow> (q = p \<or> objects s q = None) \<and> unat q mod 8 = 0 \<and>
          (\<exists>g. objects s' = ((objects s)(p := None))(q \<mapsto> (nat n, g)) \<and> (\<forall>i < min k (nat n). g i = f i)))"
    and size_law: "invar s \<Longrightarrow> objects s p = Some (k, f) \<Longrightarrow> xSize p s = Inr (int k)"
    and roundup_law: "0 < n \<Longrightarrow> n \<le> INT_MAX - 7 \<Longrightarrow>
      \<exists>r. xRoundup n = Inr r \<and> n \<le> r \<and> r < n + 8 \<and> r mod 8 = 0"
    and objects_nonnull: "objects s p = Some b \<Longrightarrow> p \<noteq> 0"
begin

text \<open>A client: its handles (0 for none), and its calls.  A refused resize leaves the handle.\<close>

fun call :: "mem_op \<Rightarrow> addr list \<times> 's \<Rightarrow> failure + (addr list \<times> 's)" where
  "call (Alloc n) (hs, s) =
     bindE (xRoundup n) (\<lambda>r. bindE (xMalloc r s) (\<lambda>(p, s). Inr (hs @ [p], s)))"
| "call (Resize i n) (hs, s) =
     (if hs ! i = 0 then Inr (hs, s)
      else bindE (xRealloc (hs ! i) n s) (\<lambda>(q, s). Inr (if q = 0 then hs else hs[i := q], s)))"
| "call (Release i) (hs, s) =
     (if hs ! i = 0 then Inr (hs, s)
      else bindE (xFree (hs ! i) s) (\<lambda>s. Inr (hs[i := 0], s)))"

text \<open>The handles are different objects, and the rest is what it was.\<close>

definition pool :: "(addr \<Rightarrow> mem_object option) \<Rightarrow> addr list \<times> 's \<Rightarrow> bool" where
  "pool base = (\<lambda>(hs, s). invar s \<and> distinct (filter (\<lambda>p. p \<noteq> 0) hs) \<and>
     (\<forall>p \<in> set hs. p \<noteq> 0 \<longrightarrow> base p = None \<and> objects s p \<noteq> None) \<and> objects s |` (- set hs) = base)"

lemma pool_upd:
  assumes "pool base (hs, s)" and "invar s'" and "i < length hs" and "hs ! i \<noteq> 0"
    and "q = 0 \<or> q = hs ! i \<or> objects s q = None" and "q \<noteq> 0 \<longrightarrow> x \<noteq> None"
    and "objects s' = ((objects s)(hs ! i := None))(q := x)" and "q = 0 \<longrightarrow> x = None"
  shows "pool base (hs[i := q], s')"
proof -
  let ?h = "hs ! i"
  have d: "distinct (filter (\<lambda>p. p \<noteq> 0) hs)" and h: "\<And>p. p \<in> set hs \<Longrightarrow> p \<noteq> 0 \<Longrightarrow> base p = None \<and> objects s p \<noteq> None"
    and r: "\<And>p. p \<notin> set hs \<Longrightarrow> objects s p = base p" "\<And>p. p \<in> set hs \<Longrightarrow> base p = None"
    using assms(1) by (auto simp: pool_def restrict_map_def)
  have st: "set (hs[i := q]) = insert q (set hs - {?h})"
    by (rule set_update_distinct [OF d assms(3,4)])
  have hin: "?h \<in> set hs" using assms(3) by simp
  have z: "objects s 0 = None" using objects_nonnull [of s 0] by (cases "objects s 0") auto
  have b: "base p = None" if "objects s p = None" for p using r [of p] that by (cases "p \<in> set hs") simp_all
  have qb: "base q = None" using assms(5) b [OF z] b [of q] r(2) [OF hin] by blast
  have "distinct (filter (\<lambda>p. p \<noteq> 0) (hs[i := q]))"
  proof (cases "q = 0 \<or> q = ?h")
    case True
    then show ?thesis using d distinct_filter_zero [OF d, of i] by auto
  next
    case False
    then have "q \<notin> set hs" using assms(5) h by blast
    then show ?thesis by (rule distinct_filter_update [OF d])
  qed
  moreover have "base p = None \<and> objects s' p \<noteq> None" if p: "p \<in> set (hs[i := q])" "p \<noteq> 0" for p
  proof (cases "p = q")
    case True
    then show ?thesis using qb assms(6,7) p(2) by simp
  next
    case False
    then have "p \<in> set hs" "p \<noteq> ?h" using p st by auto
    then show ?thesis using h [of p] p(2) False assms(7) by simp
  qed
  moreover have "objects s' |` (- set (hs[i := q])) = base"
  proof
    fix p
    show "(objects s' |` (- set (hs[i := q]))) p = base p"
    proof (cases "p = q \<or> p = ?h")
      case True
      then have "base p = None" using qb r(2) [OF hin] by blast
      moreover have "(objects s' |` (- set (hs[i := q]))) p = None"
        using True assms(7,8) st by (cases "p = q") simp_all
      ultimately show ?thesis by simp
    next
      case False
      then show ?thesis using r [of p] assms(7) st by (cases "p \<in> set hs") simp_all
    qed
  qed
  ultimately show ?thesis using assms(2) by (simp add: pool_def)
qed

lemma call_pool:
  assumes "pool base (hs, s)" and "valid (length hs) oper"
  shows "\<exists>hs' s'. call oper (hs, s) = Inr (hs', s') \<and> pool base (hs', s') \<and>
    length hs' = (case oper of Alloc n \<Rightarrow> length hs + 1 | _ \<Rightarrow> length hs)"
proof -
  have inv: "invar s" and d: "distinct (filter (\<lambda>p. p \<noteq> 0) hs)"
    and h: "\<And>p. p \<in> set hs \<Longrightarrow> p \<noteq> 0 \<Longrightarrow> base p = None \<and> objects s p \<noteq> None"
    and r: "objects s |` (- set hs) = base"
    using assms(1) by (simp_all add: pool_def)
  have out: "objects s p = base p" if "p \<notin> set hs" for p using fun_cong [OF r, of p] that by simp
  have ins: "base p = None" if "p \<in> set hs" for p using fun_cong [OF r, of p] that by simp
  have z: "objects s 0 = None" using objects_nonnull [of s 0] by (cases "objects s 0") auto
  show ?thesis
  proof (cases oper)
    case (Alloc n)
    then have "0 < n" "n \<le> INT_MAX - 7" using assms(2) by (simp_all add: valid_def)
    from roundup_law [OF this] obtain k where k: "xRoundup n = Inr k" "n \<le> k" "k < n + 8" "k mod 8 = 0"
      by (elim exE conjE)
    have "0 < k" "k \<le> INT_MAX" using k \<open>0 < n\<close> \<open>n \<le> INT_MAX - 7\<close> by simp_all
    from malloc_law [OF inv this] obtain p s' where m: "xMalloc k s = Inr (p, s')" "invar s'"
      "p = 0 \<longrightarrow> objects s' = objects s"
      "p \<noteq> 0 \<longrightarrow> objects s p = None \<and> unat p mod 8 = 0 \<and> (\<exists>f. objects s' = (objects s)(p \<mapsto> (nat k, f)))"
      by (elim exE conjE)
    have "pool base (hs @ [p], s')"
    proof (cases "p = 0")
      case True
      have "objects s |` (- insert 0 (set hs)) = base"
      proof
        fix p
        show "(objects s |` (- insert 0 (set hs))) p = base p"
          using out [of p] ins [of p] z by (cases "p = 0"; cases "p \<in> set hs") simp_all
      qed
      moreover have "\<forall>q \<in> set (hs @ [p]). q \<noteq> 0 \<longrightarrow> base q = None \<and> objects s q \<noteq> None" using True h by simp
      moreover have "objects s' = objects s" using m(3) True by simp
      ultimately show ?thesis using True m(2) d by (simp add: pool_def)
    next
      case False
      then obtain f where f: "objects s p = None" "objects s' = (objects s)(p \<mapsto> (nat k, f))" using m(4) by blast
      have pn: "p \<notin> set hs" using h f(1) False by blast
      have "objects s' |` (- insert p (set hs)) = base"
      proof
        fix x
        show "(objects s' |` (- insert p (set hs))) x = base x"
          using out [of x] ins [of x] f by (cases "x = p"; cases "x \<in> set hs") simp_all
      qed
      moreover have "base p = None" using out [OF pn] f(1) by simp
      then have "\<forall>q \<in> set (hs @ [p]). q \<noteq> 0 \<longrightarrow> base q = None \<and> objects s' q \<noteq> None" using h f(2) by simp
      ultimately show ?thesis using False m(2) d pn by (simp add: pool_def)
    qed
    then show ?thesis using Alloc k(1) m(1) by simp
  next
    case (Resize i n)
    then have i: "i < length hs" "0 < n" "n \<le> INT_MAX" using assms(2) by (simp_all add: valid_def)
    show ?thesis
    proof (cases "hs ! i = 0")
      case True
      then show ?thesis using Resize assms(1) by simp
    next
      case False
      then obtain k f where o: "objects s (hs ! i) = Some (k, f)" using h [of "hs ! i"] i(1) by auto
      from realloc_law [OF inv o i(2,3)] obtain q s' where q: "xRealloc (hs ! i) n s = Inr (q, s')" "invar s'"
        "q = 0 \<longrightarrow> objects s' = objects s"
        "q \<noteq> 0 \<longrightarrow> (q = hs ! i \<or> objects s q = None) \<and>
           (\<exists>g. objects s' = ((objects s)(hs ! i := None))(q \<mapsto> (nat n, g)) \<and> (\<forall>i < min k (nat n). g i = f i))"
        by (elim exE conjE) (rule that, auto)
      show ?thesis
      proof (cases "q = 0")
        case True
        then have "pool base (hs, s')" using assms(1) q(2,3) by (simp add: pool_def)
        then show ?thesis using True q(1) False Resize by simp
      next
        case False
        then obtain g where "q = hs ! i \<or> objects s q = None"
          "objects s' = ((objects s)(hs ! i := None))(q \<mapsto> (nat n, g))" using q(4) by blast
        then have "pool base (hs[i := q], s')"
          using pool_upd [OF assms(1) q(2) i(1) \<open>hs ! i \<noteq> 0\<close>, of q "Some (nat n, g)"] False by simp
        then show ?thesis using False q(1) \<open>hs ! i \<noteq> 0\<close> Resize by simp
      qed
    qed
  next
    case (Release i)
    then have i: "i < length hs" using assms(2) by (simp add: valid_def)
    show ?thesis
    proof (cases "hs ! i = 0")
      case True
      then show ?thesis using Release assms(1) by simp
    next
      case False
      then obtain b where o: "objects s (hs ! i) = Some b" using h [of "hs ! i"] i by auto
      from free_law [OF inv o] obtain s' where f: "xFree (hs ! i) s = Inr s'" "invar s'"
        "objects s' = (objects s)(hs ! i := None)" by blast
      have "objects s' = ((objects s)(hs ! i := None))(0 := None)" using f(3) z by (simp add: fun_eq_iff)
      then have "pool base (hs[i := 0], s')"
        using pool_upd [OF assms(1) f(2) i False, of 0 None] by simp
      then show ?thesis using f(1) False Release by simp
    qed
  qed
qed

text \<open>Any calls return, and when every handle is released, what is left is what was there before.\<close>

fun calls :: "mem_op list \<Rightarrow> addr list \<times> 's \<Rightarrow> failure + (addr list \<times> 's)" where
  "calls [] c = Inr c"
| "calls (oper # ops) c = bindE (call oper c) (calls ops)"

lemma calls_pool:
  "pool base (hs, s) \<Longrightarrow> valid_all (length hs) ops \<Longrightarrow>
   \<exists>hs' s'. calls ops (hs, s) = Inr (hs', s') \<and> pool base (hs', s')"
proof (induction ops arbitrary: hs s)
  case Nil
  then show ?case by simp
next
  case (Cons oper ops)
  obtain hs1 s1 where c: "call oper (hs, s) = Inr (hs1, s1)" "pool base (hs1, s1)"
    "length hs1 = (case oper of Alloc n \<Rightarrow> length hs + 1 | _ \<Rightarrow> length hs)"
    using call_pool [OF Cons.prems(1), of oper] Cons.prems(2) unfolding valid_all.simps by blast
  have "valid_all (length hs1) ops" using Cons.prems(2) c(3) by (cases oper) simp_all
  with Cons.IH [OF c(2)] c(1) show ?case by simp
qed

lemma pool_start: "invar s \<Longrightarrow> pool (objects s) ([], s)"
  by (simp add: pool_def restrict_map_def)

lemma pool_end:
  assumes "pool base (hs, s)" and "set hs \<subseteq> {0}"
  shows "objects s = base"
proof
  fix p
  have r: "(objects s |` (- set hs)) p = base p" using assms(1) by (simp add: pool_def)
  show "objects s p = base p"
  proof (cases "p \<in> set hs")
    case True
    then have "p = 0" using assms(2) by blast
    then have "objects s p = None" using objects_nonnull [of s 0] by (cases "objects s p") auto
    with r True show ?thesis by simp
  next
    case False
    with r show ?thesis by simp
  qed
qed

end

subsection \<open>The adapters keep the contract\<close>

text \<open>The objects SQLite may hold: those its thread may release, of a size an \<open>int\<close> can say.\<close>

definition sqlite_objects :: "tid \<Rightarrow> 'x rt_scheme \<Rightarrow> addr \<Rightarrow> mem_object option" where
  "sqlite_objects self st p =
     (case cell_at st p of
        None \<Rightarrow> None
      | Some (m, x) \<Rightarrow>
          if free_ok self m \<and> int (unat (m_size m)) \<le> INT_MAX then Some (unat (m_size m), byte_view x) else None)"

lemma sqlite_objects_upd:
  "cell_at st' = (cell_at st)(p \<mapsto> (m, x)) \<Longrightarrow> free_ok self m \<Longrightarrow> int (unat (m_size m)) \<le> INT_MAX \<Longrightarrow>
   sqlite_objects self st' = (sqlite_objects self st)(p \<mapsto> (unat (m_size m), byte_view x))"
  "cell_at st' = (cell_at st)(p := None) \<Longrightarrow> sqlite_objects self st' = (sqlite_objects self st)(p := None)"
  "cell_at st' = ((cell_at st)(p := None))(q \<mapsto> (m, x)) \<Longrightarrow> free_ok self m \<Longrightarrow> int (unat (m_size m)) \<le> INT_MAX \<Longrightarrow>
   sqlite_objects self st' = ((sqlite_objects self st)(p := None))(q \<mapsto> (unat (m_size m), byte_view x))"
  by (simp_all add: fun_eq_iff sqlite_objects_def)

lemma sqlite_objectsE:
  assumes "sqlite_objects self st p = Some (k, f)"
  obtains m x where "cell_at st p = Some (m, x)" and "free_ok self m" and "int k \<le> INT_MAX"
    and "unat (m_size m) = k" and "f = byte_view x"
  using assms by (auto simp: sqlite_objects_def split: option.splits prod.splits if_splits)

lemma unat_int: "0 < n \<Longrightarrow> n \<le> INT_MAX \<Longrightarrow> unat (word_of_int n :: size_t) = nat n"
  unfolding INT_MAX_def by (simp add: unat_eq_nat_uint uint_word_of_int)

lemma sint_size:
  assumes "int (unat n) \<le> INT_MAX"
  shows "sint (ucast (n :: size_t) :: 32 word) = int (unat n)"
proof -
  have n: "uint n < 2 ^ 31" using assms by (simp add: INT_MAX_def)
  then have "take_bit 32 (uint n) = uint n" by (intro take_bit_int_eq_self) simp_all
  then have u: "uint (ucast n :: 32 word) = uint n" by (simp add: unsigned_ucast_eq)
  have "sint (ucast n :: 32 word) = signed_take_bit 31 (uint (ucast n :: 32 word))" by (simp add: sint_uint)
  also have "- (2 ^ 31) \<le> uint n" by (rule order_trans [of _ 0]) simp_all
  then have "signed_take_bit 31 (uint (ucast n :: 32 word)) = uint n"
    unfolding u using n by (intro signed_take_bit_int_eq_self)
  finally show ?thesis by simp
qed

lemma and_not_7: "and k (not 7) = k div 8 * (8 :: int)"
proof -
  have "and k (not (mask 3)) = push_bit 3 (drop_bit 3 k)"
    by (rule bit_eqI) (auto simp: bit_and_iff bit_not_iff bit_mask_iff bit_push_bit_iff bit_drop_bit_eq)
  then show ?thesis by (simp add: mask_eq_exp_minus_1 push_bit_eq_mult drop_bit_eq_div)
qed

lemma ownedc_xMalloc_law:
  assumes "rt_wf st" and "0 < n" and "n \<le> INT_MAX"
  shows "\<exists>p st'. ownedc_xMalloc self n st = Inr (p, st') \<and> rt_wf st' \<and>
    (p = 0 \<longrightarrow> sqlite_objects self st' = sqlite_objects self st) \<and>
    (p \<noteq> 0 \<longrightarrow> sqlite_objects self st p = None \<and> unat p mod 8 = 0 \<and>
       (\<exists>f. sqlite_objects self st' = (sqlite_objects self st)(p \<mapsto> (nat n, f))))"
proof -
  note u = unat_int [OF assms(2,3)]
  have n: "unat (word_of_int n :: size_t) + 80 < 2 ^ 64" unfolding u using assms(3) by (simp add: INT_MAX_def)
  from assms(1) n show ?thesis
  proof (cases rule: heap.alloc_cases [where self = self])
    case (null s')
    have "sqlite_objects self s' = sqlite_objects self st" using null(4) by (simp add: sqlite_objects_def fun_eq_iff)
    with null show ?thesis by (simp add: ownedc_xMalloc_def)
  next
    case (object p s')
    have k: "int (unat (m_size (fresh_meta self (word_of_int n)))) \<le> INT_MAX" using u assms(2,3) by simp
    have "cell_at s' p = Some (fresh_meta self (word_of_int n), Filled 0xAA)" using object(6) by simp
    from cell_place(1) [OF object(3) this] have "unat p mod 8 = 0" by presburger
    moreover have "sqlite_objects self st p = None" using object(5) by (simp add: sqlite_objects_def)
    ultimately show ?thesis
      using object(1-3) sqlite_objects_upd(1) [OF object(6) fresh_meta_simps(1) k] u by (auto simp: ownedc_xMalloc_def)
  qed
qed

lemma ownedc_xFree_law:
  assumes "rt_wf st" and "sqlite_objects self st p = Some b"
  shows "\<exists>st'. ownedc_xFree self p st = Inr st' \<and> rt_wf st' \<and>
    sqlite_objects self st' = (sqlite_objects self st)(p := None)"
proof -
  obtain k f where "b = (k, f)" by fastforce
  with assms(2) obtain m x where c: "cell_at st p = Some (m, x)" "free_ok self m" by (auto elim: sqlite_objectsE)
  obtain st' where "owner_free self p st = Inr st'" "rt_wf st'" "cell_at st' = (cell_at st)(p := None)"
    by (rule heap.release_obtain [OF assms(1) c])
  then show ?thesis using sqlite_objects_upd(2) by (auto simp: ownedc_xFree_def)
qed

lemma ownedc_xRealloc_law:
  assumes "rt_wf st" and "sqlite_objects self st p = Some (k, f)" and "0 < n" and "n \<le> INT_MAX"
  shows "\<exists>q st'. ownedc_xRealloc self p n st = Inr (q, st') \<and> rt_wf st' \<and>
    (q = 0 \<longrightarrow> sqlite_objects self st' = sqlite_objects self st) \<and>
    (q \<noteq> 0 \<longrightarrow> (q = p \<or> sqlite_objects self st q = None) \<and> unat q mod 8 = 0 \<and>
       (\<exists>g. sqlite_objects self st' = ((sqlite_objects self st)(p := None))(q \<mapsto> (nat n, g)) \<and>
         (\<forall>i < min k (nat n). g i = f i)))"
proof -
  note u = unat_int [OF assms(3,4)]
  have n: "unat (word_of_int n :: size_t) + 80 < 2 ^ 64" unfolding u using assms(4) by (simp add: INT_MAX_def)
  have "0 < unat (word_of_int n :: size_t)" unfolding u using assms(3) by simp
  then have nz: "(word_of_int n :: size_t) \<noteq> 0" unfolding unat_gt_0 .
  obtain m x where c: "cell_at st p = Some (m, x)" "free_ok self m" "unat (m_size m) = k" "f = byte_view x"
    using assms(2) by (rule sqlite_objectsE)
  from assms(1) c(1) free_ok_realloc_ok [OF c(2)] nz n show ?thesis
  proof (cases rule: heap.resize_cases)
    case (null s')
    have "sqlite_objects self s' = sqlite_objects self st" using null(4) by (simp add: sqlite_objects_def fun_eq_iff)
    with null show ?thesis by (simp add: ownedc_xRealloc_def)
  next
    case (object q s')
    let ?m = "m\<lparr>m_size := word_of_int n\<rparr>"
    let ?y = "resize_payload (unat (m_size m)) (unat (word_of_int n :: size_t)) x"
    have k: "free_ok self ?m" "int (unat (m_size ?m)) \<le> INT_MAX" using c(2) u assms(3,4) by simp_all
    have "cell_at s' q = Some (?m, ?y)" using object(6) by simp
    from cell_place(1) [OF object(3) this] have al: "unat q mod 8 = 0" by presburger
    have "sqlite_objects self s' = ((sqlite_objects self st)(p := None))(q \<mapsto> (nat n, byte_view ?y))"
      using sqlite_objects_upd(3) [OF object(6) k] u by simp
    moreover have "byte_view ?y i = f i" if "i < min k (nat n)" for i
      using that c(3,4) u by (simp add: byte_view_resize)
    moreover have "q = p \<or> sqlite_objects self st q = None" using object(5) by (auto simp: sqlite_objects_def)
    ultimately show ?thesis using object(1-3) al by (auto simp: ownedc_xRealloc_def)
  qed
qed

lemma ownedc_xSize_law:
  assumes "rt_wf st" and "sqlite_objects self st p = Some (k, f)"
  shows "ownedc_xSize p st = Inr (int k)"
proof -
  obtain m x where c: "cell_at st p = Some (m, x)" "int k \<le> INT_MAX" "unat (m_size m) = k"
    using assms(2) by (rule sqlite_objectsE)
  obtain m' where m': "get_meta st p = Inr (Some m')" "m = bare m'" using c(1) by (rule cell_at_meta)
  have "m_size m' = m_size m" using m'(2) by (simp add: bare_def)
  then show ?thesis using m'(1) c cell_at_nonnull [OF c(1)] sint_size [of "m_size m"]
    by (simp add: ownedc_xSize_def owner_malloc_usable_size_def)
qed

lemma ownedc_xRoundup_law:
  "0 < n \<Longrightarrow> n \<le> INT_MAX - 7 \<Longrightarrow> \<exists>r. ownedc_xRoundup n = Inr r \<and> n \<le> r \<and> r < n + 8 \<and> r mod 8 = 0"
  unfolding ownedc_xRoundup_def and_not_7 by (simp split: if_split) presburger

interpretation sqlite: mem_methods rt_wf "sqlite_objects self" "ownedc_xMalloc self" "ownedc_xFree self"
  "ownedc_xRealloc self" ownedc_xSize ownedc_xRoundup for self
proof unfold_locales
  fix st :: "'a rt_scheme" and self p b
  assume b: "sqlite_objects self st p = Some b"
  obtain k f where "b = (k, f)" by fastforce
  with b obtain m x where "cell_at st p = Some (m, x)" by (auto elim: sqlite_objectsE)
  then show "p \<noteq> 0" by (rule cell_at_nonnull)
qed (rule ownedc_xMalloc_law ownedc_xFree_law ownedc_xRealloc_law ownedc_xSize_law ownedc_xRoundup_law; assumption)+


definition example_ops :: "mem_op list" where
  "example_ops = [Alloc 10, Alloc 100, Resize 0 50, Release 1, Release 0]"

lemma example_calls:
  obtains st where "sqlite.calls 2 example_ops ([], roomy_start) = Inr ([0, 0], st)"
  by (simp add: example_ops_def roomy_start_def ownedc_xMalloc_def ownedc_xFree_def ownedc_xRealloc_def
      ownedc_xRoundup_def and_not_7 rt_eval)


end
