(* ===== verification/Interleave.thy ===== *)
theory Interleave
  imports Heap
begin

text \<open>
  Calls that overlap.  A call of \<open>runtime.c\<close> is not one critical section: releasing an object marks its header under
  the lock of the shard, poisons and unlinks it under the lock again, and pushes it on the quarantine under a third
  lock; allocating writes the header of a block nobody else knows and then links it; resizing checks without a lock,
  unlinks, moves, and links again.  Here a call is cut at these points: \<open>enter\<close> runs its first part, \<open>resume\<close> the
  next one, and between them the parts of any calls of other threads may run.  Each part is at most one critical
  section together with work on memory that only its thread can reach.
\<close>

subsection \<open>The parts of a call\<close>

text \<open>Where a thread stands inside a call; \<open>Ready\<close> is outside of any.\<close>

datatype stage =
    Ready
  | Building addr byte
  | Marked addr
  | Unlinked addr
  | Resizing addr size_t
  | Detached addr size_t
  | Moved addr

text \<open>\<open>owner_malloc_internal\<close> up to the call of \<open>insert_meta\<close>; \<open>b\<close> is what the object is going to be filled with.\<close>

definition obtain_block ::
    "tid \<Rightarrow> size_t \<Rightarrow> byte \<Rightarrow> 'x rt_scheme \<Rightarrow> failure + (stage \<times> 'x rt_scheme)" where
  "obtain_block self sz b st =
     (let st = (if atexit_registered st then st else st\<lparr>atexit_registered := True\<rparr>);
          (meta, st) = sys_malloc (sizeof_meta + sz) st
      in if meta = 0 then Inr (Ready, st)
         else if unat (sizeof_meta + sz) < unat sizeof_meta + unat sz
         then Inl (Undefined ''write past the block'')
         else Inr (Building meta b, st\<lparr>hdr := (hdr st)(meta \<mapsto> new_meta self sz None 0)\<rparr>))"

text \<open>\<open>owner_free_internal\<close> up to the first unlock of the shard: the checks and the mark.\<close>

definition mark_freed_object ::
    "tid \<Rightarrow> addr \<Rightarrow> 'x rt_scheme \<Rightarrow> failure + (stage \<times> 'x rt_scheme)" where
  "mark_freed_object self ptr st =
     (if ptr = 0 then Inr (Ready, st)
      else bindE (get_meta st ptr) (\<lambda>mo.
        case mo of
          None \<Rightarrow> Inl (Fatal ''Invalid free (Untracked pointer)'' ptr None 0)
        | Some m \<Rightarrow>
            if m_state m = FREED then Inl (Fatal ''Double-free'' ptr None 0)
            else if m_borrow_count m > 0 then Inl (Fatal ''Freeing borrowed object'' ptr None 0)
            else if m_state m \<noteq> SHARED \<and> m_owner_thread m \<noteq> self
            then Inl (Fatal ''Thread Ownership Violation (Free)'' ptr None 0)
            else bindE (upd_hdr (meta_of ptr)
                   (\<lambda>m. m\<lparr>m_state := FREED, m_free_file := Some (file_or_unknown None),
                          m_free_line := 0\<rparr>) st) (\<lambda>st. Inr (Marked ptr, st))))"

text \<open>\<open>owner_realloc_internal\<close> up to the call of \<open>remove_meta\<close>: the checks, under no lock.\<close>

definition check_resize ::
    "tid \<Rightarrow> addr \<Rightarrow> size_t \<Rightarrow> 'x rt_scheme \<Rightarrow> failure + (stage \<times> 'x rt_scheme)" where
  "check_resize self ptr sz st =
     (if ptr = 0 then obtain_block self sz 0xAA st
      else if sz = 0 then mark_freed_object self ptr st
      else bindE (get_meta st ptr) (\<lambda>mo.
        case mo of
          None \<Rightarrow> Inl (Fatal ''Invalid Realloc (Untracked pointer)'' ptr None 0)
        | Some m \<Rightarrow>
            if m_state m = FREED
            then Inl (Fatal ''Use-after-free (Realloc on freed pointer)'' ptr None 0)
            else if m_state m \<noteq> SHARED \<and> m_owner_thread m \<noteq> self
            then Inl (Fatal ''Thread Ownership Violation (Realloc)'' ptr None 0)
            else Inr (Resizing ptr sz, st)))"

definition at_once :: "failure + 's \<Rightarrow> failure + (stage \<times> 's)" where
  "at_once m = bindE m (\<lambda>st. Inr (Ready, st))"

fun enter :: "tid \<Rightarrow> call \<Rightarrow> 'x rt_scheme \<Rightarrow> failure + (stage \<times> 'x rt_scheme)" where
  "enter self (CMalloc n) st = obtain_block self n 0xAA st"
| "enter self (CCalloc k n) st = obtain_block self (k * n) 0 st"
| "enter self (CRealloc p n) st = check_resize self p n st"
| "enter self (CFree p) st = mark_freed_object self p st"
| "enter self (CClaim p) st = at_once (ownership_claim self p st)"
| "enter self (CBorrow p) st = at_once (ownership_borrow self p st)"
| "enter self (CRelease p) st = at_once (ownership_release p st)"
| "enter self (CShare p) st = at_once (ownership_share self p st)"
| "enter self (CTransfer p q) st = at_once (ownership_transfer p q st)"

text \<open>The next part of the call a thread is in.\<close>

fun resume :: "stage \<Rightarrow> 'x rt_scheme \<Rightarrow> failure + (stage \<times> 'x rt_scheme)" where
  "resume Ready st = Inr (Ready, st)"
| "resume (Building a b) st =
     bindE (insert_meta a st) (\<lambda>st. Inr (Ready, put (user_ptr a) (Filled b) st))"
| "resume (Marked p) st =
     bindE (remove_meta (meta_of p) (put p (Filled 0xEF) st)) (\<lambda>st. Inr (Unlinked p, st))"
| "resume (Unlinked p) st =
     bindE (quarantine_push (meta_of p) st) (\<lambda>st. Inr (Ready, st))"
| "resume (Resizing p n) st =
     bindE (remove_meta (meta_of p) st) (\<lambda>st. Inr (Detached p n, st))"
| "resume (Detached p n) st =
     bindE (sys_realloc (meta_of p) (sizeof_meta + n) st) (\<lambda>(new, st).
       if new = 0 then Inr (Moved (meta_of p), st)
       else if unat (sizeof_meta + n) < unat sizeof_meta + unat n
       then Inl (Undefined ''write past the block'')
       else bindE (upd_hdr new (\<lambda>m. m\<lparr>m_size := n\<rparr>) st) (\<lambda>st. Inr (Moved new, st)))"
| "resume (Moved a) st = bindE (insert_meta a st) (\<lambda>st. Inr (Ready, st))"

text \<open>A call that nothing interrupts: its parts, one after the other.\<close>

definition finish :: "stage \<Rightarrow> 'x rt_scheme \<Rightarrow> failure + 'x rt_scheme" where
  "finish x st =
     bindE (resume x st) (\<lambda>(x, st). bindE (resume x st) (\<lambda>(x, st). bindE (resume x st) (\<lambda>(x, st). Inr st)))"

definition alone :: "tid \<Rightarrow> call \<Rightarrow> 'x rt_scheme \<Rightarrow> failure + 'x rt_scheme" where
  "alone self c st = bindE (enter self c st) (\<lambda>(x, st). finish x st)"

subsection \<open>The parts are the call\<close>

lemma put_put [simp]: "put p x (put p y st) = put p x st"
  by (simp add: put_def)

lemma bindE_Inr [simp]: "bindE m Inr = m"
  by (cases m) simp_all

lemma bindE_snd [simp]: "bindE (bindE m (\<lambda>st. Inr (x, st))) (\<lambda>(y, st). f st) = bindE m f"
  by (cases m) simp_all

lemma finish_Ready [simp]: "finish Ready st = Inr st"
  by (simp add: finish_def)

lemma finish_Unlinked: "finish (Unlinked p) st = quarantine_push (meta_of p) st"
  by (cases "quarantine_push (meta_of p) st") (simp_all add: finish_def)

lemma finish_Marked:
  "finish (Marked p) st =
     bindE (remove_meta (meta_of p) (put p (Filled 0xEF) st)) (quarantine_push (meta_of p))"
  by (cases "remove_meta (meta_of p) (put p (Filled 0xEF) st)")
    (simp_all add: finish_def bindE_assoc split: sum.split)

lemma finish_Building:
  "finish (Building a b) st = bindE (insert_meta a st) (\<lambda>st. Inr (put (user_ptr a) (Filled b) st))"
  by (cases "insert_meta a st") (simp_all add: finish_def)

lemma finish_obtain:
  "bindE (obtain_block self sz b st) (\<lambda>(x, st). finish x st) =
   bindE (owner_malloc_internal self sz None 0 st) (\<lambda>(p, st). Inr (if p \<noteq> 0 then put p (Filled b) st else st))"
proof -
  let ?st0 = "st\<lparr>atexit_registered := True\<rparr>"
  obtain a st1 where m: "sys_malloc (sizeof_meta + sz) ?st0 = (a, st1)" by fastforce
  have s: "(if atexit_registered st then st else ?st0) = ?st0" by simp
  have e: "obtain_block self sz b st = (if a = 0 then Inr (Ready, st1)
      else if unat (sizeof_meta + sz) < unat sizeof_meta + unat sz then Inl (Undefined ''write past the block'')
      else Inr (Building a b, st1\<lparr>hdr := (hdr st1)(a \<mapsto> new_meta self sz None 0)\<rparr>))"
    unfolding obtain_block_def s Let_def m by simp
  show ?thesis
  proof (cases "a = 0 \<or> unat (sizeof_meta + sz) < unat sizeof_meta + unat sz")
    case True
    then show ?thesis using m e by (auto simp: owner_malloc_internal_alt)
  next
    case False
    then have n: "80 + unat sz = unat (sizeof_meta + sz)"
      using unat_word_ariths(1) [of sizeof_meta sz]
      by (simp add: sizeof_meta_def mod_less_eq_dividend le_antisym)
    have "user_ptr a \<noteq> 0"
      using m False n chunk_ok_user_ptr [of "chunks ?st0" a "unat sz"] by (auto elim!: sys_malloc_cases)
    then show ?thesis
      using m e False by (cases "insert_meta a (st1\<lparr>hdr := (hdr st1)(a \<mapsto> new_meta self sz None 0)\<rparr>)")
        (simp_all add: owner_malloc_internal_alt finish_Building)
  qed
qed

lemma owner_malloc_filled:
  assumes "owner_malloc_internal self sz fl line st = Inr (p, st')" and "p \<noteq> 0"
  shows "put p (Filled 0xAA) st' = st'"
  using assms
  by (auto simp: owner_malloc_internal_alt bindE_eq_Inr split: prod.splits if_splits)

lemma finish_malloc:
  "bindE (obtain_block self sz 0xAA st) (\<lambda>(x, st). finish x st) =
   bindE (owner_malloc_internal self sz None 0 st) (\<lambda>(p, st). Inr st)"
  unfolding finish_obtain by (rule bindE_cong) (auto dest: owner_malloc_filled)

lemma finish_free:
  "bindE (mark_freed_object self p st) (\<lambda>(x, st). finish x st) = owner_free self p st"
  by (cases "get_meta st p")
    (auto simp: mark_freed_object_def owner_free_def owner_free_internal_def bindE_assoc finish_Marked
      split: option.split)

lemma finish_resize:
  "bindE (check_resize self p n st) (\<lambda>(x, st). finish x st) =
   bindE (owner_realloc self p n st) (\<lambda>(q, st). Inr st)"
proof (cases "p = 0 \<or> n = 0")
  case True
  then show ?thesis
    by (auto simp: check_resize_def owner_realloc_def owner_realloc_internal_def finish_malloc finish_free
        owner_free_def bindE_assoc)
next
  case False
  have f: "finish (Resizing p n) st = bindE (remove_meta (meta_of p) st) (\<lambda>st.
      bindE (sys_realloc (meta_of p) (sizeof_meta + n) st) (\<lambda>(new, st).
      if new = 0 then insert_meta (meta_of p) st
      else if unat (sizeof_meta + n) < unat sizeof_meta + unat n then Inl (Undefined ''write past the block'')
      else bindE (upd_hdr new (\<lambda>m. m\<lparr>m_size := n\<rparr>) st) (insert_meta new)))"
    by (auto simp: finish_def bindE_assoc bindE_if intro!: bindE_cong split: prod.split)
  show ?thesis
    using False
    by (cases "get_meta st p")
      (auto simp: check_resize_def owner_realloc_def owner_realloc_internal_def bindE_assoc f bindE_if
        intro!: bindE_cong split: option.split prod.split)
qed


subsection \<open>What linking and unlinking leave alone\<close>

lemma insert_meta_same:
  assumes "insert_meta a st = Inr st'"
  shows "st' = st\<lparr>hdr := hdr st', registry_heads := registry_heads st'\<rparr>"
    and "bare_hdr (hdr st') = bare_hdr (hdr st)"
  using assms
  by (auto simp: insert_meta_def Let_def upd_hdr_def bare_hdr_def fun_eq_iff split: option.splits if_splits)

lemma remove_meta_same:
  assumes "remove_meta a st = Inr st'"
  shows "st' = st\<lparr>hdr := hdr st', registry_heads := registry_heads st'\<rparr>"
    and "bare_hdr (hdr st') = bare_hdr (hdr st)"
  using assms
  by (auto simp: remove_meta_def Let_def upd_hdr_def bare_hdr_def fun_eq_iff split: option.splits if_splits)

subsection \<open>States in the middle of calls\<close>

text \<open>
  \<open>shadows c st F H B\<close>: the state \<open>c\<close>, in which calls are under way, against the state \<open>st\<close>, in which each of them has
  happened completely or not at all.  An allocation has happened once it has its block, a resize once its block has
  moved, a release only when its block is in the quarantine.  \<open>F\<close> holds the headers that are marked as freed in \<open>c\<close> and
  live in \<open>st\<close>; \<open>H\<close> those that are registered in \<open>st\<close> and not in \<open>c\<close>; \<open>B\<close> the new ones with what fills their objects.
\<close>

definition as_marked :: "addr set \<Rightarrow> (addr \<Rightarrow> alloc_meta option) \<Rightarrow> addr \<Rightarrow> alloc_meta option" where
  "as_marked F h = (\<lambda>a. if a \<in> F then map_option (freed_meta None 0) (h a) else h a)"

definition shadow_rep ::
    "'x rt_scheme \<Rightarrow> (addr \<Rightarrow> alloc_meta option) \<Rightarrow> addr list \<Rightarrow> (addr \<Rightarrow> payload option) \<Rightarrow>
      (nat \<Rightarrow> addr list) \<Rightarrow> (nat \<Rightarrow> addr list) \<Rightarrow> addr set \<Rightarrow> addr set \<Rightarrow> (addr \<times> byte) set \<Rightarrow> bool" where
  "shadow_rep st h hs pl L Lc F H B \<longleftrightarrow>
     rt_rep st L \<and> reg_rep h hs Lc \<and> bare_hdr h = as_marked F (bare_hdr (hdr st)) \<and>
     (\<forall>a. registered Lc a \<longleftrightarrow> registered L a \<and> a \<notin> H) \<and> F \<union> H \<subseteq> {a. registered L a} \<and>
     (\<forall>p. meta_of p \<notin> F \<union> fst ` B \<longrightarrow> pl p = payload st p) \<and>
     (\<forall>a \<in> F \<inter> H. pl (user_ptr a) = Some (Filled 0xEF)) \<and>
     (\<forall>x \<in> B. payload st (user_ptr (fst x)) = Some (Filled (snd x))) \<and>
     fst ` B \<subseteq> H - F"

lemma shadow_repD:
  assumes "shadow_rep st h hs pl L Lc F H B"
  shows "rt_rep st L" and "reg_rep h hs Lc" and "bare_hdr h = as_marked F (bare_hdr (hdr st))"
    and "\<And>a. registered Lc a \<longleftrightarrow> registered L a \<and> a \<notin> H" and "\<And>a. a \<in> F \<Longrightarrow> registered L a"
    and "\<And>a. a \<in> H \<Longrightarrow> registered L a"
    and "\<And>p. meta_of p \<notin> F \<Longrightarrow> meta_of p \<notin> fst ` B \<Longrightarrow> pl p = payload st p"
    and "\<And>a. a \<in> F \<Longrightarrow> a \<in> H \<Longrightarrow> pl (user_ptr a) = Some (Filled 0xEF)"
    and "\<And>x. x \<in> B \<Longrightarrow> payload st (user_ptr (fst x)) = Some (Filled (snd x))"
    and "fst ` B \<subseteq> H - F"
  using assms unfolding shadow_rep_def by blast+

definition shadows ::
    "'x rt_scheme \<Rightarrow> 'x rt_scheme \<Rightarrow> addr set \<Rightarrow> addr set \<Rightarrow> (addr \<times> byte) set \<Rightarrow> bool" where
  "shadows c st F H B \<longleftrightarrow> rt_wf st \<and>
     (\<exists>h hs pl L Lc. c = st\<lparr>hdr := h, registry_heads := hs, payload := pl\<rparr> \<and> shadow_rep st h hs pl L Lc F H B)"

lemma shadowsE:
  assumes "shadows c st F H B"
  obtains h hs pl L Lc where "c = st\<lparr>hdr := h, registry_heads := hs, payload := pl\<rparr>" and "rt_wf st"
    and "shadow_rep st h hs pl L Lc F H B"
  using assms by (auto simp: shadows_def)

lemma shadowsI:
  "c = st\<lparr>hdr := h, registry_heads := hs, payload := pl\<rparr> \<Longrightarrow> rt_wf st \<Longrightarrow>
   shadow_rep st h hs pl L Lc F H B \<Longrightarrow> shadows c st F H B"
  unfolding shadows_def by blast

lemma shadows_init: "shadows (rt_init rs mf ff rf) (rt_init rs mf ff rf) {} {} {}"
proof -
  have wf: "rt_wf (rt_init rs mf ff rf)" by (rule rt_wf_init)
  then obtain L where L: "rt_rep (rt_init rs mf ff rf) L" by (auto simp: rt_wf_def rt_inv_def)
  have "shadow_rep (rt_init rs mf ff rf) (hdr (rt_init rs mf ff rf)) (registry_heads (rt_init rs mf ff rf))
      (payload (rt_init rs mf ff rf)) L L {} {} {}"
    using L by (simp add: shadow_rep_def rt_rep_def as_marked_def)
  with wf show ?thesis by (intro shadowsI) simp_all
qed

text \<open>With no call under way the two agree on everything but the order and the links of the lists.\<close>

lemma shadows_quiet:
  assumes "shadows c st {} {} {}"
  shows "rt_wf c" and "obj_at c = obj_at st" and "payload c = payload st" and "chunks c = chunks st"
    and "ring_of c = ring_of st" and "replies c = replies st"
proof -
  obtain h hs pl L Lc where s: "c = st\<lparr>hdr := h, registry_heads := hs, payload := pl\<rparr>" "rt_wf st"
    and r: "shadow_rep st h hs pl L Lc {} {} {}"
    using assms by (rule shadowsE)
  note d = shadow_repD [OF r]
  have b: "bare_hdr h = bare_hdr (hdr st)" using d(3) by (simp add: as_marked_def)
  have p: "pl = payload st" using d(7) by (simp add: fun_eq_iff)
  have "rt_rep c Lc" using s(1) d(1,2,4) b p by (simp add: rt_rep_def)
  with s(1,2) show "rt_wf c" by (auto simp: rt_wf_def rt_inv_def ring_of_def)
  show "obj_at c = obj_at st" using s(1) b by (simp add: fun_eq_iff obj_at_bare_hdr)
  show "payload c = payload st" "chunks c = chunks st" "ring_of c = ring_of st" "replies c = replies st"
    using s(1) p by (simp_all add: ring_of_def)
qed

text \<open>What a thread reads in a header.\<close>

lemma bare_freed [simp]: "freed_meta None 0 (bare m) = bare (freed_meta None 0 m)"
  by (simp add: freed_meta_def bare_def)

lemma shadows_meta:
  assumes "shadows c st F H B" and "get_meta c p = Inr (Some k)"
  shows "\<exists>m. get_meta st p = Inr (Some m) \<and>
    bare k = (if meta_of p \<in> F then bare (freed_meta None 0 m) else bare m)"
proof -
  obtain h hs pl L Lc where s: "c = st\<lparr>hdr := h, registry_heads := hs, payload := pl\<rparr>" "rt_wf st"
    and r: "shadow_rep st h hs pl L Lc F H B"
    using assms(1) by (rule shadowsE)
  have k: "h (meta_of p) = Some k" "p \<noteq> 0" "m_magic k = OWNEDC_MAGIC"
    using assms(2) s(1) by (auto simp: get_meta_Some)
  have "bare_hdr h (meta_of p) = Some (bare k)" using k(1) by (simp add: bare_hdr_def)
  then have "as_marked F (bare_hdr (hdr st)) (meta_of p) = Some (bare k)" using shadow_repD(3) [OF r] by simp
  then obtain m where m: "hdr st (meta_of p) = Some m"
    "bare k = (if meta_of p \<in> F then bare (freed_meta None 0 m) else bare m)"
    by (auto simp: as_marked_def bare_hdr_def split: if_splits)
  have "m_magic k = m_magic m" using arg_cong [OF m(2), of m_magic] by (simp split: if_splits)
  then have "get_meta st p = Inr (Some m)" using m(1) k(2,3) by (simp add: get_meta_Some)
  with m(2) show ?thesis by blast
qed

subsection \<open>Allocating\<close>

lemma sys_malloc_over:
  "sys_malloc n st = (a, st1) \<Longrightarrow>
   sys_malloc n (st\<lparr>hdr := h, registry_heads := hs, payload := pl\<rparr>) =
     (a, st1\<lparr>hdr := h, registry_heads := hs, payload := pl\<rparr>)"
  by (auto simp: sys_malloc_def split: list.splits if_splits)

lemma shadow_rep_same:
  "shadow_rep (st\<lparr>atexit_registered := ae, replies := rs\<rparr>) h hs pl L Lc F H B = shadow_rep st h hs pl L Lc F H B"
  by (simp add: shadow_rep_def rt_rep_def)

lemma obtain_block_eq:
  assumes "sys_malloc (sizeof_meta + sz) (st\<lparr>atexit_registered := True\<rparr>) = (a, st1)"
  shows "obtain_block self sz b st = (if a = 0 then Inr (Ready, st1)
      else if unat (sizeof_meta + sz) < unat sizeof_meta + unat sz then Inl (Undefined ''write past the block'')
      else Inr (Building a b, st1\<lparr>hdr := (hdr st1)(a \<mapsto> new_meta self sz None 0)\<rparr>))"
proof -
  have s: "(if atexit_registered st then st else st\<lparr>atexit_registered := True\<rparr>) = st\<lparr>atexit_registered := True\<rparr>"
    by simp
  show ?thesis unfolding obtain_block_def s Let_def assms by simp
qed

lemma registered_live: "rt_rep st L \<Longrightarrow> registered L a \<longleftrightarrow> live st (user_ptr a)"
proof -
  assume rep: "rt_rep st L"
  have "user_ptr a \<noteq> 0" if reg: "registered L a"
  proof -
    obtain m where m: "bare_hdr (hdr st) a = Some m" "live_meta m"
      using blocks_invD(1) [OF rt_rep_blocks [OF rep], of a] reg by auto
    then have "(a, 80 + unat (m_size m)) \<in> set (chunks st)"
      using blocks_invD(6) [OF rt_rep_blocks [OF rep] m(1)] by (simp add: live_meta_def owns_block_def)
    then have "unat a + (80 + unat (m_size m)) < 2 ^ 64"
      by (rule chunks_inv_ok(2) [OF blocks_invD(7) [OF rt_rep_blocks [OF rep]]])
    then show ?thesis using unat_user_ptr [of a] by auto
  qed
  then show ?thesis using live_registered [OF rep, of "user_ptr a"] by auto
qed

lemma unregistered_new:
  assumes "rt_rep st L" and "chunk_ok (chunks st) a n"
  shows "\<not> registered L a"
proof
  assume "registered L a"
  then obtain x where x: "bare_hdr (hdr st) a = Some x" "live_meta x"
    using blocks_invD(1) [OF rt_rep_blocks [OF assms(1)], of a] by auto
  then have "(a, 80 + unat (m_size x)) \<in> set (chunks st)"
    using blocks_invD(6) [OF rt_rep_blocks [OF assms(1)] x(1)] by (auto simp: owns_block_def live_meta_def)
  with chunk_ok_notin [OF assms(2)] show False by force
qed

lemma shadows_obtain:
  assumes sh: "shadows c st F H B" and ob: "obtain_block self sz b c = Inr (x, c')"
  obtains (null) st' where "x = Ready" and "owner_malloc_internal self sz None 0 st = Inr (0, st')"
      and "shadows c' st' F H B" and "obj_at st' = obj_at st" and "payload c' = payload c"
  | (block) a st' where "x = Building a b" and "owner_malloc_internal self sz None 0 st = Inr (user_ptr a, st')"
      and "user_ptr a \<noteq> 0" and "\<not> live st (user_ptr a)"
      and "obj_at st' = (obj_at st)(user_ptr a \<mapsto> bare (new_meta self sz None 0))"
      and "shadows c' (put (user_ptr a) (Filled b) st') F (insert a H) (insert (a, b) B)"
proof -
  obtain h hs pl L Lc where c: "c = st\<lparr>hdr := h, registry_heads := hs, payload := pl\<rparr>" and wf: "rt_wf st"
    and r: "shadow_rep st h hs pl L Lc F H B"
    using sh by (rule shadowsE)
  note d = shadow_repD [OF r]
  obtain a st1 where m: "sys_malloc (sizeof_meta + sz) (st\<lparr>atexit_registered := True\<rparr>) = (a, st1)" by fastforce
  have "c\<lparr>atexit_registered := True\<rparr> =
      st\<lparr>atexit_registered := True\<rparr>\<lparr>hdr := h, registry_heads := hs, payload := pl\<rparr>"
    using c by simp
  then have mc: "sys_malloc (sizeof_meta + sz) (c\<lparr>atexit_registered := True\<rparr>) =
      (a, st1\<lparr>hdr := h, registry_heads := hs, payload := pl\<rparr>)"
    by (simp only: sys_malloc_over [OF m])
  note oc = ob [unfolded obtain_block_eq [OF mc]]
  show thesis
    using m
  proof (cases rule: sys_malloc_cases)
    case (null rs)
    have st1: "st1 = st\<lparr>atexit_registered := True, replies := rs\<rparr>" using null(2) by simp
    have "owner_malloc_internal self sz None 0 st = Inr (0, st1)"
      using m null(1) by (simp add: owner_malloc_internal_alt)
    moreover have "shadows c' st1 F H B"
    proof (rule shadowsI)
      show "c' = st1\<lparr>hdr := h, registry_heads := hs, payload := pl\<rparr>" using oc null(1) by simp
      show "rt_wf st1" unfolding st1 by (rule rt_wf_same [OF wf])
      show "shadow_rep st1 h hs pl L Lc F H B" using r by (simp add: st1 shadow_rep_same)
    qed
    moreover have "x = Ready" "payload c' = payload c" using oc null(1) c by auto
    moreover have "obj_at st1 = obj_at st" by (simp add: st1 fun_eq_iff obj_at_def)
    ultimately show ?thesis by (intro that(1))
  next
    case (block rs)
    have big: "\<not> unat (sizeof_meta + sz) < unat sizeof_meta + unat sz" using oc block(1) by auto
    then have n: "unat (sizeof_meta + sz) = 80 + unat sz"
      using unat_word_ariths(1) [of sizeof_meta sz]
      by (simp add: sizeof_meta_def mod_less_eq_dividend le_antisym)
    have no: "unat sz + 80 < 2 ^ 64" using n unat_lt_2p64 [of "sizeof_meta + sz"] by simp
    have x: "x = Building a b"
      and c': "c' = st1\<lparr>hdr := h(a \<mapsto> new_meta self sz None 0), registry_heads := hs, payload := pl\<rparr>"
      using oc block(1) big by auto
    have st1: "st1 = st\<lparr>atexit_registered := True, replies := rs, chunks := (a, 80 + unat sz) # chunks st\<rparr>"
      using block(3) n by simp
    have ok: "chunk_ok (chunks st) a (80 + unat sz)" using block(2) n by simp
    have nr: "\<not> registered L a" by (rule unregistered_new [OF d(1) ok])
    have nz: "user_ptr a \<noteq> 0" by (rule chunk_ok_user_ptr [OF ok])
    obtain p st' where res: "owner_malloc_internal self sz None 0 st = Inr (p, st')"
      using owner_malloc_internal_returns [OF d(1) no] .
    then obtain st2 where ins: "insert_meta a (st1\<lparr>hdr := (hdr st1)(a \<mapsto> new_meta self sz None 0)\<rparr>) = Inr st2"
      and p: "p = user_ptr a" and st': "st' = put p (Filled 0xAA) st2"
      using m block(1) big by (auto simp: owner_malloc_internal_alt bindE_eq_Inr)
    note same = insert_meta_same [OF ins]
    have st2: "st2 = st1\<lparr>hdr := hdr st2, registry_heads := registry_heads st2\<rparr>" using same(1) by simp
    have b2: "bare_hdr (hdr st2) = (bare_hdr (hdr st))(a \<mapsto> bare (new_meta self sz None 0))"
      using same(2) by (simp add: st1)
    have "p \<noteq> 0" using p nz by simp
    then have rep: "rt_rep st' (L(shard_of a := a # L (shard_of a)))"
      using owner_malloc_internal_rep(2) [OF d(1) no res] p by simp
    have view: "obj_at st' = (obj_at st)(user_ptr a \<mapsto> bare (new_meta self sz None 0))"
      using owner_malloc_internal_view(1) [OF d(1) no res] p nz by simp
    have wf': "rt_wf (put (user_ptr a) (Filled b) st')"
      using owner_malloc_internal_wf [OF wf res] rt_wf_put by blast
    have aF: "a \<notin> F" "a \<notin> H" using nr d(5,6) by auto
    have "shadows c' (put (user_ptr a) (Filled b) st') F (insert a H) (insert (a, b) B)"
    proof (rule shadowsI [OF _ wf'])
      have e: "put (user_ptr a) (Filled b) st' = st2\<lparr>payload := (payload st)(user_ptr a \<mapsto> Filled b)\<rparr>"
        using arg_cong [OF st2, of payload] by (simp add: st' p put_def st1)
      show "c' = (put (user_ptr a) (Filled b) st')
          \<lparr>hdr := h(a \<mapsto> new_meta self sz None 0), registry_heads := hs, payload := pl\<rparr>"
        unfolding c' e by (subst st2) simp
      have q: "p \<noteq> user_ptr a" if "meta_of p \<noteq> a" for p using that by auto
      have bp: "payload st (user_ptr (fst x)) = Some (Filled (snd x))" "fst x \<noteq> a" if "x \<in> B" for x
        using d(9) [OF that] d(10) aF that by auto
      show "shadow_rep (put (user_ptr a) (Filled b) st') (h(a \<mapsto> new_meta self sz None 0)) hs pl
          (L(shard_of a := a # L (shard_of a))) Lc F (insert a H) (insert (a, b) B)"
        unfolding shadow_rep_def
      proof (intro conjI)
        show "rt_rep (put (user_ptr a) (Filled b) st') (L(shard_of a := a # L (shard_of a)))"
          by (rule rt_rep_put [OF rep])
        show "reg_rep (h(a \<mapsto> new_meta self sz None 0)) hs Lc"
          using d(4) [of a] nr by (intro reg_rep_upd_other [OF d(2)]) simp
        show "bare_hdr (h(a \<mapsto> new_meta self sz None 0)) =
            as_marked F (bare_hdr (hdr (put (user_ptr a) (Filled b) st')))"
          using d(3) aF by (simp add: st' b2) (auto simp: as_marked_def fun_eq_iff)
        show "\<forall>b. registered Lc b \<longleftrightarrow> registered (L(shard_of a := a # L (shard_of a))) b \<and> b \<notin> insert a H"
          using d(4) nr by (auto simp del: fun_upd_apply)
        show "F \<union> insert a H \<subseteq> {b. registered (L(shard_of a := a # L (shard_of a))) b}"
          using d(5,6) by (auto simp del: fun_upd_apply)
        show "\<forall>p. meta_of p \<notin> F \<union> fst ` insert (a, b) B \<longrightarrow> pl p = payload (put (user_ptr a) (Filled b) st') p"
          using d(7) q e by auto
        show "\<forall>a' \<in> F \<inter> insert a H. pl (user_ptr a') = Some (Filled 0xEF)" using d(8) aF by auto
        show "\<forall>x \<in> insert (a, b) B. payload (put (user_ptr a) (Filled b) st') (user_ptr (fst x)) = Some (Filled (snd x))"
          using bp e by auto
        show "fst ` insert (a, b) B \<subseteq> insert a H - F" using d(10) aF by auto
      qed
    qed
    moreover have "\<not> live st (user_ptr a)" using registered_live [OF d(1)] nr by blast
    ultimately show ?thesis using x res p nz view that(2) by blast
  qed
qed

subsection \<open>Working on a known object\<close>

lemma registered_upd: "registered (L(i := xs)) a = (if shard_of a = i then a \<in> set xs else registered L a)"
  by (simp add: registered_def)

lemma registered_unlinked:
  assumes "reg_rep h hs L"
  shows "registered (L(shard_of a := remove1 a (L (shard_of a)))) b \<longleftrightarrow> registered L b \<and> b \<noteq> a"
  using registered_remove reg_repD(2) [OF assms shard_of_less] by blast

text \<open>Poisoning and unlinking a marked object, or unlinking one that is going to be resized.\<close>

lemma shadows_unlink:
  assumes sh: "shadows c st F H B" and meta: "get_meta st p = Inr (Some m)" "m_state m \<noteq> FREED"
    and "meta_of p \<notin> H" and poison: "poison = (meta_of p \<in> F)"
  obtains c' where "remove_meta (meta_of p) (if poison then put p (Filled 0xEF) c else c) = Inr c'"
    and "shadows c' st F (insert (meta_of p) H) B"
proof -
  let ?a = "meta_of p"
  obtain h hs pl L Lc where c: "c = st\<lparr>hdr := h, registry_heads := hs, payload := pl\<rparr>" and wf: "rt_wf st"
    and r: "shadow_rep st h hs pl L Lc F H B"
    using sh by (rule shadowsE)
  note d = shadow_repD [OF r]
  define pl' where "pl' = (if poison then pl(p \<mapsto> Filled 0xEF) else pl)"
  let ?c1 = "st\<lparr>hdr := h, registry_heads := hs, payload := pl'\<rparr>"
  have c1: "(if poison then put p (Filled 0xEF) c else c) = ?c1" by (simp add: c pl'_def put_def)
  have reg: "registered L ?a" using rt_rep_meta(3) [OF d(1) meta(1)] meta(2) by simp
  have "reg_rep (hdr ?c1) (registry_heads ?c1) Lc" using d(2) by simp
  moreover have "registered Lc ?a" using d(4) [of ?a] reg assms(4) by simp
  ultimately obtain h' hs' where rem: "remove_meta ?a ?c1 = Inr (?c1\<lparr>hdr := h', registry_heads := hs'\<rparr>)"
    and rr: "reg_rep h' hs' (Lc(shard_of ?a := remove1 ?a (Lc (shard_of ?a))))"
    and bh: "bare_hdr h' = bare_hdr (hdr ?c1)"
    by (rule remove_meta_refines)
  have B: "?a \<notin> fst ` B" using d(10) assms(4) by blast
  have "shadow_rep st h' hs' pl' L (Lc(shard_of ?a := remove1 ?a (Lc (shard_of ?a)))) F (insert ?a H) B"
    unfolding shadow_rep_def
  proof (intro conjI)
    show "bare_hdr h' = as_marked F (bare_hdr (hdr st))" using bh d(3) by simp
    show "\<forall>b. registered (Lc(shard_of ?a := remove1 ?a (Lc (shard_of ?a)))) b \<longleftrightarrow> registered L b \<and> b \<notin> insert ?a H"
      using d(4) registered_unlinked [OF d(2)] by blast
    show "F \<union> insert ?a H \<subseteq> {a. registered L a}" using d(5,6) reg by blast
    show "\<forall>q. meta_of q \<notin> F \<union> fst ` B \<longrightarrow> pl' q = payload st q" using d(7) poison by (auto simp: pl'_def)
    show "\<forall>a \<in> F \<inter> insert ?a H. pl' (user_ptr a) = Some (Filled 0xEF)" using d(8) poison by (auto simp: pl'_def)
    show "\<forall>x \<in> B. payload st (user_ptr (fst x)) = Some (Filled (snd x))" using d(9) by blast
    show "fst ` B \<subseteq> insert ?a H - F" using d(10) by blast
  qed (rule d(1) rr)+
  then have "shadows (?c1\<lparr>hdr := h', registry_heads := hs'\<rparr>) st F (insert ?a H) B"
    by (intro shadowsI [OF _ wf]) simp_all
  with rem c1 that show ?thesis by simp
qed

text \<open>Linking a block that only its thread knows.\<close>

lemma shadows_link:
  assumes sh: "shadows c st F H B" and "a \<in> H" and "a \<notin> F"
  shows "\<exists>c'. insert_meta a c = Inr c' \<and> (a \<notin> fst ` B \<longrightarrow> shadows c' st F (H - {a}) B) \<and>
    (\<forall>b. (a, b) \<in> B \<longrightarrow> shadows (put (user_ptr a) (Filled b) c') st F (H - {a}) {x \<in> B. fst x \<noteq> a})"
proof -
  obtain h hs pl L Lc where c: "c = st\<lparr>hdr := h, registry_heads := hs, payload := pl\<rparr>" and wf: "rt_wf st"
    and r: "shadow_rep st h hs pl L Lc F H B"
    using sh by (rule shadowsE)
  note d = shadow_repD [OF r]
  have reg: "registered L a" by (rule d(6) [OF assms(2)])
  have nrc: "\<not> registered Lc a" using d(4) [of a] assms(2) by simp
  obtain m where m: "bare_hdr (hdr st) a = Some m" "live_meta m"
    using blocks_invD(1) [OF rt_rep_blocks [OF d(1)], of a] reg by auto
  then have "bare_hdr h a = Some m" using d(3) assms(3) by (simp add: as_marked_def)
  then obtain k where k: "hdr c a = Some k" by (auto simp: bare_hdr_def c)
  have "a \<noteq> 0" using blocks_inv_nonnull [OF rt_rep_blocks [OF d(1)] m(1)] m(2) by (simp add: live_meta_def)
  moreover have "reg_rep (hdr c) (registry_heads c) Lc" using d(2) by (simp add: c)
  ultimately obtain h' hs' where ins: "insert_meta a c = Inr (c\<lparr>hdr := h', registry_heads := hs'\<rparr>)"
    and rr: "reg_rep h' hs' (Lc(shard_of a := a # Lc (shard_of a)))" and bh: "bare_hdr h' = bare_hdr (hdr c)"
    using k nrc by (metis insert_meta_refines)
  have reg': "registered (Lc(shard_of a := a # Lc (shard_of a))) b \<longleftrightarrow> registered L b \<and> b \<notin> H - {a}" for b
    using d(4) [of b] reg by (auto simp del: fun_upd_apply)
  have lnk: "shadow_rep st h' hs' pl' L (Lc(shard_of a := a # Lc (shard_of a))) F (H - {a}) B'"
    if "B' \<subseteq> B" "a \<notin> fst ` B'" "\<And>q. meta_of q \<notin> F \<Longrightarrow> meta_of q \<notin> fst ` B' \<Longrightarrow> pl' q = payload st q"
      "\<And>q. q \<noteq> user_ptr a \<Longrightarrow> pl' q = pl q" for B' pl'
    unfolding shadow_rep_def
  proof (intro conjI)
    show "bare_hdr h' = as_marked F (bare_hdr (hdr st))" using bh d(3) c by simp
    show "\<forall>b. registered (Lc(shard_of a := a # Lc (shard_of a))) b \<longleftrightarrow> registered L b \<and> b \<notin> H - {a}"
      using reg' by blast
    show "F \<union> (H - {a}) \<subseteq> {a. registered L a}" using d(5,6) by blast
    show "\<forall>q. meta_of q \<notin> F \<union> fst ` B' \<longrightarrow> pl' q = payload st q" using that(3) by blast
    show "\<forall>b \<in> F \<inter> (H - {a}). pl' (user_ptr b) = Some (Filled 0xEF)" using d(8) that(4) by auto
    show "\<forall>x \<in> B'. payload st (user_ptr (fst x)) = Some (Filled (snd x))" using d(9) that(1) by blast
    show "fst ` B' \<subseteq> H - {a} - F" using d(10) that(1,2) by blast
  qed (rule d(1) rr)+
  show ?thesis
  proof (intro exI conjI allI impI, rule ins)
    assume "a \<notin> fst ` B"
    then show "shadows (c\<lparr>hdr := h', registry_heads := hs'\<rparr>) st F (H - {a}) B"
      using d(7) by (intro shadowsI [OF _ wf lnk [of B pl]]) (auto simp: c)
  next
    fix b assume b: "(a, b) \<in> B"
    let ?B = "{x \<in> B. fst x \<noteq> a}" and ?pl = "pl(user_ptr a \<mapsto> Filled b)"
    have p: "payload st (user_ptr a) = Some (Filled b)" using d(9) [OF b] by simp
    have "?pl q = payload st q" if "meta_of q \<notin> F" "meta_of q \<notin> fst ` ?B" for q
    proof (cases "q = user_ptr a")
      case False
      then have "meta_of q \<noteq> a" by auto
      then have "meta_of q \<notin> fst ` B" using that(2) by force
      with False d(7) that(1) show ?thesis by simp
    qed (simp add: p)
    then show "shadows (put (user_ptr a) (Filled b) (c\<lparr>hdr := h', registry_heads := hs'\<rparr>)) st F (H - {a}) ?B"
      by (intro shadowsI [OF _ wf lnk [of ?B ?pl]]) (auto simp: c put_def)
  qed
qed

text \<open>Operations on one header.\<close>

lemma shadows_hdr:
  assumes sh: "shadows c st F H B" and k: "get_meta c p = Inr (Some k)" and m: "get_meta st p = Inr (Some m)"
    and "meta_of p \<notin> F" and "m_state m \<noteq> FREED" and "live_meta m \<Longrightarrow> live_meta m'"
    and "bare k' = bare m'" and "m_size m' = m_size m" and "m_prev m' = m_prev m" and "m_next m' = m_next m"
    and "m_prev k' = m_prev k" and "m_next k' = m_next k"
  shows "shadows (hdr_set p k' c) (hdr_set p m' st) F H B"
proof -
  obtain h hs pl L Lc where c: "c = st\<lparr>hdr := h, registry_heads := hs, payload := pl\<rparr>" and wf: "rt_wf st"
    and r: "shadow_rep st h hs pl L Lc F H B"
    using sh by (rule shadowsE)
  note d = shadow_repD [OF r]
  have ka: "h (meta_of p) = Some k" using get_metaD [OF k] c by simp
  show ?thesis
  proof (rule shadowsI)
    show "hdr_set p k' c = hdr_set p m' st\<lparr>hdr := h(meta_of p \<mapsto> k'), registry_heads := hs, payload := pl\<rparr>"
      by (simp add: c hdr_set_def)
    show "rt_wf (hdr_set p m' st)" using hdr_set_wf [OF wf m assms(5,6,8-10)] by blast
    show "shadow_rep (hdr_set p m' st) (h(meta_of p \<mapsto> k')) hs pl L Lc F H B"
      unfolding shadow_rep_def
    proof (intro conjI)
      show "rt_rep (hdr_set p m' st) L"
        using rt_rep_meta(4) [OF d(1) m assms(5)] assms by (intro hdr_set_rep [OF d(1) m]) auto
      show "reg_rep (h(meta_of p \<mapsto> k')) hs Lc" by (rule reg_rep_upd_field [OF d(2) ka assms(11,12)])
      show "bare_hdr (h(meta_of p \<mapsto> k')) = as_marked F (bare_hdr (hdr (hdr_set p m' st)))"
        using d(3) assms(4,7) by (auto simp: hdr_set_def as_marked_def fun_eq_iff)
    qed (use d(4-10) in auto)
  qed
qed

subsection \<open>Retiring and moving\<close>

lemma shadows_push:
  assumes sh: "shadows c st F H B" and m: "get_meta st p = Inr (Some m)" and ok: "free_ok self m"
    and aF: "meta_of p \<in> F" and aH: "meta_of p \<in> H"
  obtains c' st' where "quarantine_push (meta_of p) c = Inr c'" and "owner_free self p st = Inr st'"
    and "shadows c' st' (F - {meta_of p}) (H - {meta_of p}) B"
    and "\<And>q. q \<noteq> p \<Longrightarrow> live st q \<Longrightarrow> obj_at st' q = obj_at st q"
proof -
  let ?a = "meta_of p" and ?t = "quarantine_tail st"
  define old where "old = quarantine st ! ?t"
  obtain h hs pl L Lc where c: "c = st\<lparr>hdr := h, registry_heads := hs, payload := pl\<rparr>" and wf: "rt_wf st"
    and r: "shadow_rep st h hs pl L Lc F H B"
    using sh by (rule shadowsE)
  note d = shadow_repD [OF r]
  let ?L = "L(shard_of ?a := remove1 ?a (L (shard_of ?a)))"
  have t: "?t < QUARANTINE_SIZE" using d(1) by (simp add: rt_rep_def)
  note blk = rt_rep_blocks [OF d(1)]
  have "old \<in> set (quarantine st)" using t blocks_invD(2) [OF blk] by (simp add: old_def)
  then have oL: "\<not> registered L old" using blocks_inv_registered_not_quarantined [OF blk] by blast
  then have oFH: "old \<notin> F" "old \<notin> H" "\<not> registered Lc old" using d(4) [of old] d(5,6) by auto
  obtain h1 hs1 where run: "owner_free_internal self p None 0 st = Inr (st\<lparr>hdr := h1, registry_heads := hs1,
       quarantine := (quarantine st)[?t := ?a],
       quarantine_tail := (?t + 1) mod QUARANTINE_SIZE,
       chunks := (if old \<noteq> 0 then without_chunk old (chunks st) else chunks st),
       payload := (if old \<noteq> 0 then (payload st)(p \<mapsto> Filled 0xEF, user_ptr old := None)
                   else (payload st)(p \<mapsto> Filled 0xEF)),
       out := (if old \<noteq> 0 then out st @ [EvRelease old] else out st)\<rparr>)" (is "_ = Inr ?st'")
    and bh: "bare_hdr h1 = (if old \<noteq> 0 then (bare_hdr (hdr st))(old := None) else bare_hdr (hdr st))
                        (?a \<mapsto> bare (freed_meta None 0 m))"
    and oa: "old \<noteq> ?a"
    unfolding old_def by (rule owner_free_internal_ok [OF d(1) m ok])
  have free: "owner_free self p st = Inr ?st'" using run by (simp add: owner_free_def)
  have rep': "rt_rep ?st' ?L" by (rule owner_free_internal_rep [OF d(1) m ok run])
  have wf': "rt_wf ?st'" using owner_free_internal_wf [OF wf run] by blast
  have inch: "old \<in> fst ` set (chunks st)" if "old \<noteq> 0"
    using blocks_inv_evict(2) [OF blk t] that by (simp add: old_def)
  define h' where "h' = (if old \<noteq> 0 then h(old := None) else h)"
  define pl' where "pl' = (if old \<noteq> 0 then pl(user_ptr old := None) else pl)"
  have push: "quarantine_push ?a c = Inr (?st'\<lparr>hdr := h', registry_heads := hs, payload := pl'\<rparr>)"
    using inch by (simp add: quarantine_push_def sys_free_def c old_def h'_def pl'_def Let_def)
  have po: "p \<noteq> user_ptr old" using oa by auto
  have hm: "bare_hdr (hdr st) ?a = Some (bare m)" using get_metaD [OF m] by (simp add: bare_hdr_def)
  have "shadow_rep ?st' h' hs pl' ?L Lc (F - {?a}) (H - {?a}) B"
    unfolding shadow_rep_def
  proof (intro conjI)
    show "rt_rep ?st' ?L" by (rule rep')
    show "reg_rep h' hs Lc" using d(2) oFH(3) by (simp add: h'_def reg_rep_upd_other)
    show "bare_hdr h' = as_marked (F - {?a}) (bare_hdr (hdr ?st'))"
      using bh d(3) aF hm oa oFH(1) by (auto simp: h'_def as_marked_def fun_eq_iff)
    show "\<forall>b. registered Lc b \<longleftrightarrow> registered ?L b \<and> b \<notin> H - {?a}"
      using d(4) rt_rep_registered_remove [OF d(1), of ?a] aH by blast
    show "F - {?a} \<union> (H - {?a}) \<subseteq> {b. registered ?L b}"
      using d(5,6) rt_rep_registered_remove [OF d(1), of ?a] by blast
    have E: "pl p = Some (Filled 0xEF)" using d(8) [OF aF aH] by simp
    have "pl' q = payload ?st' q" if "meta_of q \<notin> F - {?a}" "meta_of q \<notin> fst ` B" for q
      using that E d(7) [of q] po by (cases "q = p") (auto simp: pl'_def)
    then show "\<forall>q. meta_of q \<notin> F - {?a} \<union> fst ` B \<longrightarrow> pl' q = payload ?st' q" by blast
    show "\<forall>b \<in> (F - {?a}) \<inter> (H - {?a}). pl' (user_ptr b) = Some (Filled 0xEF)"
      using d(8) oFH(1) by (auto simp: pl'_def)
    have "payload ?st' (user_ptr (fst x)) = Some (Filled (snd x))" if "x \<in> B" for x
    proof -
      have "fst x \<noteq> ?a" "fst x \<noteq> old" using d(10) that aF oFH by auto
      then show ?thesis using d(9) [OF that] by (auto simp: meta_of_eq_conv)
    qed
    then show "\<forall>x \<in> B. payload ?st' (user_ptr (fst x)) = Some (Filled (snd x))" by blast
    show "fst ` B \<subseteq> H - {?a} - (F - {?a})" using d(10) aF by blast
  qed
  then have "shadows (?st'\<lparr>hdr := h', registry_heads := hs, payload := pl'\<rparr>) ?st' (F - {?a}) (H - {?a}) B"
    by (intro shadowsI [OF refl wf'])
  moreover have "obj_at ?st' q = obj_at st q" if "q \<noteq> p" "live st q" for q
  proof -
    have "\<not> live st (user_ptr old)" using registered_live [OF d(1)] oL by blast
    then have "q \<noteq> user_ptr old" using that(2) by auto
    then show ?thesis using owner_free_internal_view(1) [OF d(1) m ok run] that(1) by (simp add: old_def)
  qed
  ultimately show thesis by (intro that [OF push free])
qed

text \<open>The allocator's part of a resize depends on its answers and its blocks only.\<close>

lemma sys_realloc_over:
  assumes "sys_realloc a n st = Inr (r, st')" and "map_of (chunks st) a = Some len"
    and "replies c = replies st" and "chunks c = chunks st"
  shows "sys_realloc a n c = Inr (r, if r = 0 then c\<lparr>replies := replies st'\<rparr>
    else c\<lparr>replies := replies st', chunks := (r, unat n) # without_chunk a (chunks st),
           hdr := ((hdr c)(a := None))(r := if 80 \<le> unat n then hdr c a else None),
           payload := ((payload c)(user_ptr a := None))
             (user_ptr r := map_option (resize_payload (len - 80) (unat n - 80)) (payload c (user_ptr a)))\<rparr>)"
    and "r \<noteq> 0 \<Longrightarrow> chunk_ok (without_chunk a (chunks st)) r (unat n)"
  using assms by (auto simp: sys_realloc_def chunk_ok_def split: list.splits if_splits)

lemma insert_meta_error: "insert_meta a st = Inl e \<Longrightarrow> e = Undefined ''access to an unmapped header''"
  by (auto simp: insert_meta_def Let_def upd_hdr_def split: option.splits if_splits)

text \<open>The atomic resize next to the one in parts, from the same answers of the allocator.\<close>

lemma owner_realloc_beside:
  assumes rep: "rt_rep st L" and m: "get_meta st p = Inr (Some m)" and ok: "realloc_ok self m" and n: "n \<noteq> 0"
    and c: "replies c = replies st" "chunks c = chunks st"
    and s: "sys_realloc (meta_of p) (sizeof_meta + n) c = Inr (new, c1)"
    and big: "new = 0 \<or> \<not> unat (sizeof_meta + n) < unat sizeof_meta + unat n"
  obtains (null) st' L' where "new = 0" and "owner_realloc self p n st = Inr (0, st')" and "rt_rep st' L'"
      and "st' = st\<lparr>hdr := hdr st', registry_heads := registry_heads st', replies := replies c1\<rparr>"
      and "bare_hdr (hdr st') = bare_hdr (hdr st)"
  | (moved) st' L' where "new \<noteq> 0" and "owner_realloc self p n st = Inr (user_ptr new, st')" and "rt_rep st' L'"
      and "unat (sizeof_meta + n) = 80 + unat n"
      and "chunk_ok (without_chunk (meta_of p) (chunks st)) new (80 + unat n)"
      and "st' = st\<lparr>hdr := hdr st', registry_heads := registry_heads st', replies := replies c1,
         chunks := (new, 80 + unat n) # without_chunk (meta_of p) (chunks st),
         payload := ((payload st)(p := None))
           (user_ptr new := map_option (resize_payload (unat (m_size m)) (unat n)) (payload st p))\<rparr>"
      and "bare_hdr (hdr st') = ((bare_hdr (hdr st))(meta_of p := None))(new \<mapsto> bare (m\<lparr>m_size := n\<rparr>))"
proof -
  let ?a = "meta_of p" and ?N = "sizeof_meta + n"
  note blk = rt_rep_blocks [OF rep]
  note mm = rt_rep_meta [OF rep m]
  have p0: "p \<noteq> 0" using m by (simp add: get_meta_Some)
  have hb: "bare_hdr (hdr st) ?a = Some (bare m)" using mm(1) by (simp add: bare_hdr_def)
  have "(?a, 80 + unat (m_size m)) \<in> set (chunks st)"
    using blocks_invD(6) [OF blk hb] mm(2) by (simp add: owns_block_def)
  then have len: "map_of (chunks c) ?a = Some (80 + unat (m_size m))"
    using chunks_inv_map_of [OF blocks_invD(7) [OF blk]] c by simp
  have reg: "registered L ?a" using mm(3) ok by (simp add: realloc_ok_def)
  have rr: "reg_rep (hdr st) (registry_heads st) L" using rep by (simp add: rt_rep_def)
  from rr reg obtain h1 hs1 where rem: "remove_meta ?a st = Inr (st\<lparr>hdr := h1, registry_heads := hs1\<rparr>)"
    by (rule remove_meta_refines)
  let ?st1 = "st\<lparr>hdr := h1, registry_heads := hs1\<rparr>"
  have e: "replies ?st1 = replies c" "chunks ?st1 = chunks c" using c by simp_all
  note sr = sys_realloc_over [OF s len e]
  let ?run = "owner_realloc_internal self p n None 0 st"
  have run: "?run = bindE (sys_realloc ?a ?N ?st1) (\<lambda>(new, st).
      if new = 0 then bindE (insert_meta ?a st) (\<lambda>st. Inr (0, st))
      else if unat ?N < unat sizeof_meta + unat n then Inl (Undefined ''write past the block'')
      else bindE (upd_hdr new (\<lambda>m. m\<lparr>m_size := n\<rparr>) st) (\<lambda>st.
           bindE (insert_meta new st) (\<lambda>st. Inr (user_ptr new, st))))"
    using p0 n m ok rem by (auto simp: owner_realloc_internal_def realloc_ok_def)
  obtain L' where L': "\<And>q st'. ?run = Inr (q, st') \<Longrightarrow> rt_rep st' (L' q st')"
    using owner_realloc_internal_rep [OF rep m ok n] unfolding rt_inv_def by metis
  show thesis
  proof (cases "new = 0")
    case True
    let ?st2 = "?st1\<lparr>replies := replies c1\<rparr>"
    have run0: "?run = bindE (insert_meta ?a ?st2) (\<lambda>st. Inr (0, st))" using run sr(1) True by simp
    from rep m ok n obtain st' where st': "?run = Inr (0, st')" "bare_hdr (hdr st') = bare_hdr (hdr st)"
    proof (cases rule: owner_realloc_internal_cases [where fl = None and line = 0])
      case (fail rs h hs)
      then show ?thesis using that [OF fail(1)] by simp
    next
      case wraps
      then show ?thesis using run0 by (auto simp: bindE_eq_Inl dest: insert_meta_error)
    next
      case (moved b rs h hs)
      then show ?thesis using run0 chunk_ok_user_ptr [OF moved(2)] by (auto simp: bindE_eq_Inr)
    qed
    have ins: "insert_meta ?a ?st2 = Inr st'" using run0 st'(1) by (cases "insert_meta ?a ?st2") auto
    have "st' = st\<lparr>hdr := hdr st', registry_heads := registry_heads st', replies := replies c1\<rparr>"
      by (rule trans [OF insert_meta_same(1) [OF ins]]) simp
    then show ?thesis
      using st' L' [OF st'(1)] by (intro that(1) [OF True, of st' "L' 0 st'"]) (simp_all add: owner_realloc_def)
  next
    case False
    have N: "unat ?N = 80 + unat n"
      using big False unat_word_ariths(1) [of sizeof_meta n]
      by (simp add: sizeof_meta_def mod_less_eq_dividend le_antisym)
    have ok': "chunk_ok (without_chunk ?a (chunks st)) new (80 + unat n)"
      using sr(2) [OF False] N c by simp
    have nz: "user_ptr new \<noteq> 0" by (rule chunk_ok_user_ptr [OF ok'])
    have "bare_hdr h1 = bare_hdr (hdr st)" using remove_meta_same(2) [OF rem] by simp
    from this mm(1) have h1a: "\<exists>k. h1 ?a = Some k" by (rule bare_hdr_eqD) blast
    let ?st2 = "?st1\<lparr>replies := replies c1, chunks := (new, 80 + unat n) # without_chunk ?a (chunks st),
         hdr := (h1(?a := None))(new := h1 ?a),
         payload := ((payload st)(p := None))
           (user_ptr new := map_option (resize_payload (unat (m_size m)) (unat n)) (payload st p))\<rparr>"
    have s2: "sys_realloc ?a ?N ?st1 = Inr (new, ?st2)" using sr(1) False N c by simp
    then obtain k where k: "h1 ?a = Some k" using h1a by blast
    have run1: "?run = bindE (insert_meta new (?st2\<lparr>hdr := (h1(?a := None))(new \<mapsto> k\<lparr>m_size := n\<rparr>)\<rparr>))
        (\<lambda>st. Inr (user_ptr new, st))"
      using run s2 False big k by (simp add: upd_hdr_def)
    from rep m ok n obtain st' where st': "?run = Inr (user_ptr new, st')"
      "bare_hdr (hdr st') = ((bare_hdr (hdr st))(?a := None))(new \<mapsto> bare (m\<lparr>m_size := n\<rparr>))"
    proof (cases rule: owner_realloc_internal_cases [where fl = None and line = 0])
      case (fail rs h hs)
      then show ?thesis using run1 nz by (auto simp: bindE_eq_Inr)
    next
      case wraps
      then show ?thesis using N unat_lt_2p64 [of ?N] by simp
    next
      case (moved b rs h hs)
      have "b = new" using trans [OF run1 [symmetric] moved(3)] by (auto simp: bindE_eq_Inr)
      then show ?thesis using that [of "st\<lparr>hdr := h, registry_heads := hs, replies := rs,
          chunks := (b, 80 + unat n) # without_chunk ?a (chunks st),
          payload := ((payload st)(p := None))
            (user_ptr b := map_option (resize_payload (unat (m_size m)) (unat n)) (payload st p))\<rparr>"]
        moved(3,5) by simp
    qed
    have ins: "insert_meta new (?st2\<lparr>hdr := (h1(?a := None))(new \<mapsto> k\<lparr>m_size := n\<rparr>)\<rparr>) = Inr st'"
      using trans [OF run1 [symmetric] st'(1)] by (auto simp: bindE_eq_Inr)
    have "st' = st\<lparr>hdr := hdr st', registry_heads := registry_heads st', replies := replies c1,
         chunks := (new, 80 + unat n) # without_chunk ?a (chunks st),
         payload := ((payload st)(p := None))
           (user_ptr new := map_option (resize_payload (unat (m_size m)) (unat n)) (payload st p))\<rparr>"
      by (rule trans [OF insert_meta_same(1) [OF ins]]) simp
    then show ?thesis
      using st' L' [OF st'(1)] N ok'
      by (intro that(2) [OF False, of st' "L' (user_ptr new) st'"]) (simp_all add: owner_realloc_def)
  qed
qed

lemma shadows_move:
  assumes sh: "shadows c st F H B" and m: "get_meta st p = Inr (Some m)" and ok: "realloc_ok self m"
    and n: "n \<noteq> 0" and a: "meta_of p \<in> H" "meta_of p \<notin> F" "meta_of p \<notin> fst ` B"
    and res: "resume (Detached p n) c = Inr (x, c')"
  obtains b q st' where "owner_realloc self p n st = Inr (q, st')" and "x = Moved b"
    and "b = (if q = 0 then meta_of p else meta_of q)"
    and "shadows c' st' F (insert b (H - {meta_of p})) B" and "b = meta_of p \<or> \<not> live st (user_ptr b)"
    and "obj_at st' = (if q = 0 then obj_at st
           else ((obj_at st)(p := None))(q \<mapsto> bare (m\<lparr>m_size := n\<rparr>)))"
proof -
  let ?a = "meta_of p" and ?N = "sizeof_meta + n"
  obtain h hs pl L Lc where c: "c = st\<lparr>hdr := h, registry_heads := hs, payload := pl\<rparr>" and wf: "rt_wf st"
    and r: "shadow_rep st h hs pl L Lc F H B"
    using sh by (rule shadowsE)
  note d = shadow_repD [OF r]
  obtain new c1 where s: "sys_realloc ?a ?N c = Inr (new, c1)"
    using res by (cases "sys_realloc ?a ?N c") auto
  have big: "new = 0 \<or> \<not> unat ?N < unat sizeof_meta + unat n" using res s by auto
  have e: "replies c = replies st" "chunks c = chunks st" by (simp_all add: c)
  have hb: "bare_hdr (hdr st) ?a = Some (bare m)" using get_metaD [OF m] by (simp add: bare_hdr_def)
  have mag: "m_magic m = OWNEDC_MAGIC" using m by (simp add: get_meta_Some)
  have own: "(?a, 80 + unat (m_size m)) \<in> set (chunks st)"
    using blocks_invD(6) [OF rt_rep_blocks [OF d(1)] hb] mag by (simp add: owns_block_def)
  then have len: "map_of (chunks c) ?a = Some (80 + unat (m_size m))"
    using chunks_inv_map_of [OF blocks_invD(7) [OF rt_rep_blocks [OF d(1)]]] e(2) by simp
  note sr = sys_realloc_over(1) [OF s len refl refl]
  have aH: "insert ?a (H - {?a}) = H" using a(1) by blast
  have nrc: "\<not> registered Lc ?a" using d(4) [of ?a] a(1) by simp
  have wfq: "rt_wf st'" if "owner_realloc self p n st = Inr (q, st')" for q st'
    using that owner_realloc_internal_wf [OF wf] unfolding owner_realloc_def by blast
  show thesis
    using d(1) m ok n e s big
  proof (cases rule: owner_realloc_beside)
    case (null st' L')
    have c1: "c1 = c\<lparr>replies := replies c1\<rparr>" using s sr null(1) by simp
    have x: "x = Moved ?a" "c' = c1" using res s null(1) by simp_all
    have reg: "registered L' b = registered L b" for b
      using registered_live [OF null(3)] registered_live [OF d(1)] null(5) by (simp add: live_def obj_at_bare_hdr)
    have ob: "obj_at st' = obj_at st" using null(5) by (simp add: fun_eq_iff obj_at_bare_hdr)
    have pe: "payload st' = payload st" using arg_cong [OF null(4), of payload] by simp
    have "shadows c' st' F (insert ?a (H - {?a})) B"
    proof (rule shadowsI [OF _ wfq [OF null(2)]])
      show "c' = st'\<lparr>hdr := h, registry_heads := hs, payload := pl\<rparr>"
        unfolding x(2) by (subst c1, subst null(4)) (simp add: c)
      show "shadow_rep st' h hs pl L' Lc F (insert ?a (H - {?a})) B"
        using null(3,5) d reg unfolding aH shadow_rep_def pe by auto
    qed
    with null(2) x(1) a(2) ob show ?thesis by (intro that [of 0 st' ?a]) simp_all
  next
    case (moved st' L')
    let ?q = "user_ptr new"
    have q0: "?q \<noteq> 0" by (rule chunk_ok_user_ptr [OF moved(5)])
    have b2: "\<not> registered L new" if "new \<noteq> ?a"
    proof
      assume "registered L new"
      then obtain y where y: "bare_hdr (hdr st) new = Some y" "live_meta y"
        using blocks_invD(1) [OF rt_rep_blocks [OF d(1)], of new] by auto
      then have "(new, 80 + unat (m_size y)) \<in> set (chunks st)"
        using blocks_invD(6) [OF rt_rep_blocks [OF d(1)] y(1)] by (auto simp: owns_block_def live_meta_def)
      then have "new \<in> fst ` set (without_chunk ?a (chunks st))" using that by force
      then show False using chunk_ok_notin [OF moved(5)] by blast
    qed
    have "new \<notin> F \<and> new \<notin> H - {?a}"
    proof (cases "new = ?a")
      case False
      from b2 [OF this] d(5) [of new] d(6) [of new] show ?thesis by blast
    qed (use a(2) in simp)
    then have nF: "new \<notin> F" "new \<notin> H - {?a}" by blast+
    have nB: "new \<notin> fst ` B"
    proof
      assume i: "new \<in> fst ` B"
      then have "new \<in> H - F" by (rule subsetD [OF d(10)])
      then have "new = ?a" using nF(2) by simp
      with i a(3) show False by simp
    qed
    have nLc: "\<not> registered Lc new" using b2 nrc d(4) [of new] by (cases "new = ?a") auto
    obtain k where k: "h ?a = Some k" "bare k = bare m"
    proof -
      have "bare_hdr h ?a = Some (bare m)" using d(3) a(2) hb by (simp add: as_marked_def)
      then show ?thesis using that by (auto simp: bare_hdr_def)
    qed
    define h' where "h' = (h(?a := None))(new \<mapsto> k\<lparr>m_size := n\<rparr>)"
    define pl' where "pl' = (pl(p := None))(?q := map_option (resize_payload (unat (m_size m)) (unat n)) (pl p))"
    have c1: "c1 = c\<lparr>replies := replies c1, chunks := (new, 80 + unat n) # without_chunk ?a (chunks st),
        hdr := (h(?a := None))(new := h ?a), payload := pl'\<rparr>"
      using s sr moved(1,4) e by (simp add: c pl'_def)
    have h1: "hdr c1 new = Some k" using arg_cong [OF c1, of hdr] k(1) by simp
    have x: "x = Moved new" "c' = c1\<lparr>hdr := h'\<rparr>"
      using res s moved(1) big h1 arg_cong [OF c1, of hdr] by (auto simp: upd_hdr_def h'_def)
    have bs: "bare (y\<lparr>m_size := n\<rparr>) = (bare y)\<lparr>m_size := n\<rparr>" for y by (simp add: bare_def)
    have bk: "bare (k\<lparr>m_size := n\<rparr>) = bare (m\<lparr>m_size := n\<rparr>)" by (simp only: bs k(2))
    have obj: "obj_at st' = ((obj_at st)(p := None))(?q \<mapsto> bare (m\<lparr>m_size := n\<rparr>))"
      using moved(6) q0 mag by (auto simp: moved(7) fun_eq_iff obj_at_bare_hdr meta_of_eq_conv)
    have reg: "registered L' b \<longleftrightarrow> b = new \<or> registered L b \<and> b \<noteq> ?a" for b
      using registered_live [OF moved(3), of b] registered_live [OF d(1), of b] obj ok
      by (auto simp: live_def realloc_ok_def)
    have P: "payload st' = ((payload st)(p := None))
        (?q := map_option (resize_payload (unat (m_size m)) (unat n)) (payload st p))"
      using arg_cong [OF moved(6), of payload] by simp
    have pp: "pl p = payload st p" using d(7) a(2,3) by simp
    have "shadows c' st' F (insert new (H - {?a})) B"
    proof (rule shadowsI [OF _ wfq [OF moved(2)]])
      show "c' = st'\<lparr>hdr := h', registry_heads := hs, payload := pl'\<rparr>"
        unfolding x(2) by (subst c1, subst moved(6)) (simp add: c)
      show "shadow_rep st' h' hs pl' L' Lc F (insert new (H - {?a})) B"
        unfolding shadow_rep_def
      proof (intro conjI)
        show "rt_rep st' L'" by (rule moved(3))
        show "reg_rep h' hs Lc" unfolding h'_def by (intro reg_rep_upd_other d(2) nrc nLc)
        show "bare_hdr h' = as_marked F (bare_hdr (hdr st'))"
          using d(3) bk nF(1) a(2) by (auto simp: moved(7) h'_def as_marked_def fun_eq_iff)
        show "\<forall>b. registered Lc b \<longleftrightarrow> registered L' b \<and> b \<notin> insert new (H - {?a})"
          using d(4) reg nLc nrc by blast
        show "F \<union> insert new (H - {?a}) \<subseteq> {b. registered L' b}" using d(5,6) reg a(2) by blast
        have "pl' q = payload st' q" if "meta_of q \<notin> F \<union> fst ` B" for q
          using d(7) [of q] that pp by (simp add: P pl'_def)
        then show "\<forall>q. meta_of q \<notin> F \<union> fst ` B \<longrightarrow> pl' q = payload st' q" by blast
        show "\<forall>b \<in> F \<inter> insert new (H - {?a}). pl' (user_ptr b) = Some (Filled 0xEF)"
          using d(8) nF(1) a(2) by (auto simp: pl'_def)
        have "payload st' (user_ptr (fst y)) = Some (Filled (snd y))" if "y \<in> B" for y
        proof -
          have "fst y \<in> fst ` B" using that by (rule imageI)
          then have "fst y \<noteq> ?a" "fst y \<noteq> new" using a(3) nB by metis+
          then show ?thesis using d(9) [OF that] by (auto simp: P meta_of_eq_conv)
        qed
        then show "\<forall>y \<in> B. payload st' (user_ptr (fst y)) = Some (Filled (snd y))" by blast
        show "fst ` B \<subseteq> insert new (H - {?a}) - F" using d(10) a(3) by blast
      qed
    qed
    moreover have "new = ?a \<or> \<not> live st (user_ptr new)" using registered_live [OF d(1)] b2 by blast
    ultimately show ?thesis using moved(2) x(1) q0 obj by (intro that [of ?q st' new]) simp_all
  qed
qed

end
