(* ===== verification/Overlap.thy ===== *)
theory Overlap
  imports Interleave
begin

text \<open>
  Programs whose calls overlap: any number of threads, each somewhere inside a call.  What they reach is what calls
  that run one at a time reach, provided that two things are left to the calls that have the object to themselves:
  resizing needs an object that is not shared, and claiming one that no other call is working on.
\<close>

subsection \<open>The headers a call works on\<close>

fun marked_of :: "stage \<Rightarrow> addr set" where
  "marked_of (Marked p) = {meta_of p}"
| "marked_of (Unlinked p) = {meta_of p}"
| "marked_of _ = {}"

fun hidden_of :: "stage \<Rightarrow> addr set" where
  "hidden_of (Building a b) = {a}"
| "hidden_of (Unlinked p) = {meta_of p}"
| "hidden_of (Detached p n) = {meta_of p}"
| "hidden_of (Moved a) = {a}"
| "hidden_of _ = {}"

fun new_of :: "stage \<Rightarrow> (addr \<times> byte) set" where
  "new_of (Building a b) = {(a, b)}"
| "new_of _ = {}"

fun work_of :: "stage \<Rightarrow> addr set" where
  "work_of (Resizing p n) = {meta_of p}"
| "work_of s = marked_of s \<union> hidden_of s"

lemma parts_of_work: "marked_of s \<subseteq> work_of s" "hidden_of s \<subseteq> work_of s" "fst ` new_of s \<subseteq> work_of s"
  by (cases s; simp)+

definition all_of :: "(stage \<Rightarrow> 'a set) \<Rightarrow> (tid \<Rightarrow> stage) \<Rightarrow> 'a set" where
  "all_of g pcs = (\<Union>t. g (pcs t))"

lemma all_of_upd:
  assumes "\<And>u. u \<noteq> t \<Longrightarrow> g (pcs u) \<inter> g (pcs t) = {}"
  shows "all_of g (pcs(t := x)) = all_of g pcs - g (pcs t) \<union> g x"
proof -
  have "all_of g (pcs(t := x)) = (\<Union>u \<in> - {t}. g (pcs u)) \<union> g x"
    by (auto simp: all_of_def split: if_splits)
  moreover have "all_of g pcs = (\<Union>u \<in> - {t}. g (pcs u)) \<union> g (pcs t)" by (auto simp: all_of_def)
  moreover have "(\<Union>u \<in> - {t}. g (pcs u)) \<inter> g (pcs t) = {}" using assms by blast
  ultimately show ?thesis by blast
qed

subsection \<open>Who may touch what\<close>

text \<open>An object that only its thread can work on.\<close>

definition exclusive :: "'x rt_scheme \<Rightarrow> tid \<Rightarrow> addr \<Rightarrow> bool" where
  "exclusive st t p \<longleftrightarrow> (\<exists>m. obj_at st p = Some m \<and> m_state m = OWNED \<and> m_owner_thread m = t \<and> m_borrow_count m = 0)"

fun holds :: "'x rt_scheme \<Rightarrow> tid \<Rightarrow> stage \<Rightarrow> bool" where
  "holds st t Ready = True"
| "holds st t (Building a b) = exclusive st t (user_ptr a)"
| "holds st t (Moved a) = exclusive st t (user_ptr a)"
| "holds st t (Marked p) = (\<exists>m. obj_at st p = Some m \<and> free_ok t m)"
| "holds st t (Unlinked p) = (\<exists>m. obj_at st p = Some m \<and> free_ok t m)"
| "holds st t (Resizing p n) = (n \<noteq> 0 \<and> exclusive st t p)"
| "holds st t (Detached p n) = (n \<noteq> 0 \<and> exclusive st t p)"

lemma exclusive_free_ok: "exclusive st t p \<Longrightarrow> \<exists>m. obj_at st p = Some m \<and> free_ok t m"
  by (auto simp: exclusive_def free_ok_def)

lemma free_ok_live: "obj_at st p = Some m \<Longrightarrow> free_ok t m \<Longrightarrow> live st p"
  by (simp add: live_def free_ok_def)

lemma holds_free_ok:
  "holds st t s \<Longrightarrow> meta_of p \<in> work_of s \<Longrightarrow> \<exists>m. obj_at st p = Some m \<and> free_ok t m"
  by (cases s) (auto intro: exclusive_free_ok simp: meta_of_eq_conv)

lemma holds_live: "holds st t s \<Longrightarrow> meta_of p \<in> work_of s \<Longrightarrow> live st p"
  using holds_free_ok free_ok_live by blast

lemma holds_exclusive:
  "holds st t s \<Longrightarrow> meta_of p \<in> work_of s \<Longrightarrow> meta_of p \<notin> marked_of s \<Longrightarrow> exclusive st t p"
  by (cases s) (auto simp: meta_of_eq_conv)

lemma holds_other:
  assumes "holds st t s" and "\<And>q. meta_of q \<in> work_of s \<Longrightarrow> live st q \<Longrightarrow> obj_at st' q = obj_at st q"
  shows "holds st' t s"
proof -
  have "obj_at st' q = obj_at st q" if "meta_of q \<in> work_of s" for q
    using assms(2) [OF that] holds_live [OF assms(1) that] by blast
  with assms(1) show ?thesis by (cases s) (auto simp: exclusive_def)
qed

subsection \<open>Configurations\<close>

text \<open>The state \<open>c\<close> with the threads at \<open>pcs\<close>, and a state \<open>st\<close> reached by whole calls.\<close>

definition follows :: "(tid \<Rightarrow> stage) \<Rightarrow> 'x rt_scheme \<Rightarrow> 'x rt_scheme \<Rightarrow> bool" where
  "follows pcs c st \<longleftrightarrow>
     shadows c st (all_of marked_of pcs) (all_of hidden_of pcs) (all_of new_of pcs) \<and>
     (\<forall>t. holds st t (pcs t)) \<and> (\<forall>t u. t \<noteq> u \<longrightarrow> work_of (pcs t) \<inter> work_of (pcs u) = {})"

lemma followsD:
  assumes "follows pcs c st"
  shows "shadows c st (all_of marked_of pcs) (all_of hidden_of pcs) (all_of new_of pcs)"
    and "holds st t (pcs t)" and "t \<noteq> u \<Longrightarrow> work_of (pcs t) \<inter> work_of (pcs u) = {}"
  using assms by (auto simp: follows_def)

text \<open>One thread moves to its next stage.\<close>

lemma follows_upd:
  assumes f: "follows pcs c st"
    and sh: "shadows c' st' (all_of marked_of pcs - marked_of (pcs t) \<union> marked_of x)
      (all_of hidden_of pcs - hidden_of (pcs t) \<union> hidden_of x) (all_of new_of pcs - new_of (pcs t) \<union> new_of x)"
    and own: "holds st' t x"
    and other: "\<And>u q. u \<noteq> t \<Longrightarrow> meta_of q \<in> work_of (pcs u) \<Longrightarrow> live st q \<Longrightarrow> obj_at st' q = obj_at st q"
    and apart: "\<And>u. u \<noteq> t \<Longrightarrow> work_of x \<inter> work_of (pcs u) = {}"
  shows "follows (pcs(t := x)) c' st'"
proof -
  note d = followsD [OF f]
  have dis: "g (pcs u) \<inter> g (pcs t) = {}" if "u \<noteq> t" "\<And>s. g s \<subseteq> work_of s" for g u
    using d(3) [OF that(1)] that(2) by blast
  have "new_of (pcs u) \<inter> new_of (pcs t) = {}" if "u \<noteq> t" for u
    using d(3) [OF that] parts_of_work(3) by blast
  then have "all_of marked_of (pcs(t := x)) = all_of marked_of pcs - marked_of (pcs t) \<union> marked_of x"
    and "all_of hidden_of (pcs(t := x)) = all_of hidden_of pcs - hidden_of (pcs t) \<union> hidden_of x"
    and "all_of new_of (pcs(t := x)) = all_of new_of pcs - new_of (pcs t) \<union> new_of x"
    using dis parts_of_work by (intro all_of_upd; blast)+
  moreover have "holds st' u ((pcs(t := x)) u)" for u
  proof (cases "u = t")
    case False
    then show ?thesis using holds_other [OF d(2) other [OF False]] by simp
  qed (use own in simp)
  moreover have "work_of ((pcs(t := x)) u) \<inter> work_of ((pcs(t := x)) v) = {}" if "u \<noteq> v" for u v
    using that d(3) [OF that] apart [of u] apart [of v] by auto
  ultimately show ?thesis using sh by (simp add: follows_def)
qed

text \<open>What another thread works on cannot be taken from it.\<close>

lemma follows_not_work:
  assumes f: "follows pcs c st" and m: "get_meta st p = Inr (Some m)" and "meta_of p \<notin> all_of marked_of pcs"
    and "m_state m = SHARED \<or> m_owner_thread m = t \<or> 0 < m_borrow_count m" and "u \<noteq> t"
  shows "meta_of p \<notin> work_of (pcs u)"
proof
  assume w: "meta_of p \<in> work_of (pcs u)"
  have "meta_of p \<notin> marked_of (pcs u)" using assms(3) by (auto simp: all_of_def)
  then have "exclusive st u p" using holds_exclusive [OF followsD(2) [OF f] w] by blast
  with assms(4,5) obj_at_get_meta [OF m] show False by (auto simp: exclusive_def)
qed

lemma follows_init: "follows (\<lambda>_. Ready) (rt_init rs mf ff rf) (rt_init rs mf ff rf)"
  using shadows_init by (simp add: follows_def all_of_def)

subsection \<open>One part of a call\<close>

text \<open>A step of the configuration against at most one call.\<close>

definition matched :: "(tid \<Rightarrow> stage) \<Rightarrow> rt \<Rightarrow> rt \<Rightarrow> bool" where
  "matched pcs c st \<longleftrightarrow> (\<exists>st'. follows pcs c st' \<and> (st' = st \<or> (\<exists>t call r. obeys st call \<and> exec t call st = Inr (r, st'))))"

lemma matched_same: "follows pcs c st \<Longrightarrow> matched pcs c st"
  by (auto simp: matched_def)

lemma matched_call: "follows pcs c st' \<Longrightarrow> obeys st call \<Longrightarrow> exec t call st = Inr (r, st') \<Longrightarrow> matched pcs c st"
  by (auto simp: matched_def)

lemma enter_obtain:
  assumes f: "follows pcs c st" and t: "pcs t = Ready" and ob: "obtain_block t sz b c = Inr (x, c')"
    and call: "obeys st call"
    and ex: "\<And>p st'. owner_malloc_internal t sz None 0 st = Inr (p, st') \<Longrightarrow>
      exec t call st = Inr (p, if p \<noteq> 0 then put p (Filled b) st' else st')"
  shows "matched (pcs(t := x)) c' st"
  using followsD(1) [OF f] ob
proof (cases rule: shadows_obtain)
  case (null st')
  have "follows (pcs(t := x)) c' st'"
    using null by (intro follows_upd [OF f]) (simp_all add: t)
  then show ?thesis using ex [OF null(2)] call by (intro matched_call) simp_all
next
  case (block a st')
  let ?st' = "put (user_ptr a) (Filled b) st'"
  have "holds ?st' t x"
    using block(1,5) by (simp add: exclusive_def new_meta_def)
  moreover have "user_ptr a \<noteq> q" if "live st q" for q using block(4) that by auto
  moreover have "a \<notin> work_of (pcs u)" for u
    using holds_live [OF followsD(2) [OF f], of "user_ptr a" u] block(4) by auto
  ultimately have "follows (pcs(t := x)) c' ?st'"
    using block(1,5,6) by (intro follows_upd [OF f]) (auto simp: t)
  then show ?thesis using ex [OF block(2)] call block(3) by (intro matched_call) simp_all
qed

lemma shadows_mark:
  assumes sh: "shadows c st F H B" and m: "get_meta st p = Inr (Some m)" and "meta_of p \<notin> F"
    and "meta_of p \<notin> H" and "m_state m \<noteq> FREED" and k: "get_meta c p = Inr (Some k)"
  shows "shadows (hdr_set p (freed_meta None 0 k) c) st (insert (meta_of p) F) H B"
proof -
  let ?a = "meta_of p"
  obtain h hs pl L Lc where c: "c = st\<lparr>hdr := h, registry_heads := hs, payload := pl\<rparr>" and wf: "rt_wf st"
    and r: "shadow_rep st h hs pl L Lc F H B"
    using sh by (rule shadowsE)
  note d = shadow_repD [OF r]
  have ka: "h ?a = Some k" using get_metaD [OF k] c by simp
  have hb: "bare_hdr (hdr st) ?a = Some (bare m)" using get_metaD [OF m] by (simp add: bare_hdr_def)
  have "bare_hdr h ?a = Some (bare m)" using d(3) hb assms(3) by (simp add: as_marked_def)
  then have bk: "bare k = bare m" using ka by (simp add: bare_hdr_def)
  have reg: "registered L ?a" using rt_rep_meta(3) [OF d(1) m] assms(5) by simp
  have "bare (freed_meta None 0 k) = bare (freed_meta None 0 m)"
    using bk bare_freed [of k] bare_freed [of m] by simp
  then have "bare_hdr (h(?a \<mapsto> freed_meta None 0 k)) = as_marked (insert ?a F) (bare_hdr (hdr st))"
    using d(3) hb by (auto simp: as_marked_def fun_eq_iff)
  moreover have "reg_rep (h(?a \<mapsto> freed_meta None 0 k)) hs Lc"
    by (rule reg_rep_upd_field [OF d(2) ka]) simp_all
  moreover have "?a \<notin> fst ` B" using d(10) assms(4) by blast
  ultimately have "shadow_rep st (h(?a \<mapsto> freed_meta None 0 k)) hs pl L Lc (insert ?a F) H B"
    using d assms(4) reg unfolding shadow_rep_def by auto
  then show ?thesis by (intro shadowsI [OF _ wf]) (simp_all add: c hdr_set_def)
qed

lemma enter_mark:
  assumes f: "follows pcs c st" and t: "pcs t = Ready" and mk: "mark_freed_object t p c = Inr (x, c')"
  shows "matched (pcs(t := x)) c' st"
proof (cases "p = 0")
  case True
  then show ?thesis using mk f t by (auto simp: mark_freed_object_def fun_upd_idem intro!: matched_same)
next
  case False
  obtain mo where mo: "get_meta c p = Inr mo"
    using mk False by (cases "get_meta c p") (simp_all add: mark_freed_object_def)
  obtain k where k: "mo = Some k"
    using mk False mo by (cases mo) (simp_all add: mark_freed_object_def)
  note gk = mo [unfolded k]
  have "free_ok t k \<and> x = Marked p \<and> c' = hdr_set p (freed_meta None 0 k) c"
    using mk False gk get_metaD [OF gk]
    by (simp add: mark_freed_object_def upd_hdr_Some free_ok_def freed_meta_def hdr_set_def split: if_splits)
  then have k: "get_meta c p = Inr (Some k)" "free_ok t k"
    and x: "x = Marked p" "c' = hdr_set p (freed_meta None 0 k) c"
    using gk by simp_all
  note d = followsD [OF f]
  obtain m where m: "get_meta st p = Inr (Some m)"
    "bare k = (if meta_of p \<in> all_of marked_of pcs then bare (freed_meta None 0 m) else bare m)"
    using shadows_meta [OF d(1) k(1)] by blast
  have nF: "meta_of p \<notin> all_of marked_of pcs"
  proof
    assume "meta_of p \<in> all_of marked_of pcs"
    then have "m_state (bare k) = FREED" using m(2) by simp
    with k(2) show False by (simp add: free_ok_def)
  qed
  have ok: "free_ok t m" using k(2) m(2) nF free_ok_bare [of t k] free_ok_bare [of t m] by simp
  have nw: "meta_of p \<notin> work_of (pcs u)" for u
    using follows_not_work [OF f m(1) nF, of t u] ok t by (cases "u = t") (auto simp: free_ok_def)
  then have nH: "meta_of p \<notin> all_of hidden_of pcs" using parts_of_work(2) by (force simp: all_of_def)
  have "follows (pcs(t := x)) c' st"
  proof (rule follows_upd [OF f])
    show "shadows c' st (all_of marked_of pcs - marked_of (pcs t) \<union> marked_of x)
        (all_of hidden_of pcs - hidden_of (pcs t) \<union> hidden_of x) (all_of new_of pcs - new_of (pcs t) \<union> new_of x)"
      using shadows_mark [OF d(1) m(1) nF nH _ k(1)] ok by (simp add: x t free_ok_def)
    show "holds st t x" using obj_at_get_meta [OF m(1)] ok by (simp add: x)
  qed (use nw in \<open>auto simp: x\<close>)
  then show ?thesis by (rule matched_same)
qed

text \<open>What a thread that reads a header which is not being freed knows of the object.\<close>

lemma follows_read:
  assumes f: "follows pcs c st" and k: "get_meta c p = Inr (Some k)" and "m_state k \<noteq> FREED"
  obtains m where "get_meta st p = Inr (Some m)" and "bare k = bare m" and "meta_of p \<notin> all_of marked_of pcs"
    and "m_state k = m_state m" and "m_owner_thread k = m_owner_thread m" and "m_borrow_count k = m_borrow_count m"
proof -
  obtain m where m: "get_meta st p = Inr (Some m)"
    "bare k = (if meta_of p \<in> all_of marked_of pcs then bare (freed_meta None 0 m) else bare m)"
    using shadows_meta [OF followsD(1) [OF f] k] by blast
  have nF: "meta_of p \<notin> all_of marked_of pcs"
  proof
    assume "meta_of p \<in> all_of marked_of pcs"
    then have "m_state (bare k) = FREED" using m(2) by simp
    with assms(3) show False by simp
  qed
  then have e: "bare k = bare m" using m(2) by simp
  show ?thesis
    using that [OF m(1) e nF] arg_cong [OF e, of m_state] arg_cong [OF e, of m_owner_thread]
      arg_cong [OF e, of m_borrow_count] by simp
qed

lemma enter_resize:
  assumes f: "follows pcs c st" and t: "pcs t = Ready" and ch: "check_resize t p n c = Inr (x, c')"
    and alone: "\<And>m. n \<noteq> 0 \<Longrightarrow> get_meta c p = Inr (Some m) \<Longrightarrow> m_state m \<noteq> SHARED \<and> m_borrow_count m = 0"
  shows "matched (pcs(t := x)) c' st"
proof (cases "p = 0 \<or> n = 0")
  case True
  have obt: "matched (pcs(t := x)) c' st" if "p = 0"
  proof (rule enter_obtain [OF f t])
    show "obtain_block t n 0xAA c = Inr (x, c')" using ch that by (simp add: check_resize_def)
    show "obeys st (CRealloc 0 n)" by (simp add: obeys_def)
    show "exec t (CRealloc 0 n) st = Inr (q, if q \<noteq> 0 then put q (Filled 0xAA) st' else st')"
      if "owner_malloc_internal t n None 0 st = Inr (q, st')" for q st'
      using that owner_malloc_filled [OF that]
      by (simp add: owner_realloc_def owner_realloc_internal_def)
  qed
  from True show ?thesis
  proof
    assume "n = 0"
    then show ?thesis using obt enter_mark [OF f t, of p x c'] ch by (cases "p = 0") (simp_all add: check_resize_def)
  qed (rule obt)
next
  case False
  then have p: "p \<noteq> 0" "n \<noteq> 0" by simp_all
  obtain mo where mo: "get_meta c p = Inr mo" using ch p by (cases "get_meta c p") (simp_all add: check_resize_def)
  obtain k where ks: "mo = Some k" using ch p mo by (cases mo) (simp_all add: check_resize_def)
  note k = mo [unfolded ks]
  have c: "m_state k \<noteq> FREED" "m_state k = SHARED \<or> m_owner_thread k = t" "x = Resizing p n" "c' = c"
    using ch p k by (auto simp: check_resize_def split: if_splits)
  from f k c(1) obtain m where m: "get_meta st p = Inr (Some m)" "bare k = bare m"
    "meta_of p \<notin> all_of marked_of pcs" "m_state k = m_state m" "m_owner_thread k = m_owner_thread m"
    "m_borrow_count k = m_borrow_count m"
    by (rule follows_read)
  note al = alone [OF p(2) k]
  have own: "m_owner_thread m = t" using c(2) al m(5) by simp
  obtain L where L: "rt_rep st L" using followsD(1) [OF f] by (auto simp: shadows_def rt_wf_def rt_inv_def)
  have "live_meta m" using rt_rep_meta(4) [OF L m(1)] c(1) m(4) by simp
  then have "m_state m = OWNED" using al m(4,6) by (auto simp: live_meta_def)
  then have ex: "exclusive st t p" using obj_at_get_meta [OF m(1)] own al m(6) by (simp add: exclusive_def)
  have "follows (pcs(t := x)) c' st"
  proof (rule follows_upd [OF f])
    show "shadows c' st (all_of marked_of pcs - marked_of (pcs t) \<union> marked_of x)
        (all_of hidden_of pcs - hidden_of (pcs t) \<union> hidden_of x) (all_of new_of pcs - new_of (pcs t) \<union> new_of x)"
      using followsD(1) [OF f] by (simp add: c(3,4) t)
    show "work_of x \<inter> work_of (pcs u) = {}" if "u \<noteq> t" for u
      using follows_not_work [OF f m(1,3) _ that] own by (simp add: c(3))
  qed (use p(2) ex in \<open>simp_all add: c(3)\<close>)
  then show ?thesis by (rule matched_same)
qed

text \<open>The operations on one header, which are one critical section.\<close>

lemma enter_hdr:
  assumes f: "follows pcs c st" and t: "pcs t = Ready"
    and k: "get_meta c p = Inr (Some k)" "m_state k \<noteq> FREED"
    and m: "get_meta st p = Inr (Some m)" "bare k = bare m" "meta_of p \<notin> all_of marked_of pcs"
    and free: "\<And>u. u \<noteq> t \<Longrightarrow> meta_of p \<notin> work_of (pcs u)"
    and g: "\<And>y. bare (g (bare y)) = bare (g y)" "\<And>y. m_size (g y) = m_size y" "\<And>y. m_prev (g y) = m_prev y"
      "\<And>y. m_next (g y) = m_next y" "\<And>y. m_magic (g y) = m_magic y" "live_meta m \<Longrightarrow> live_meta (g m)"
    and call: "obeys st call" "exec t call st = Inr (r, hdr_set p (g m) st)"
  shows "matched (pcs(t := Ready)) (hdr_set p (g k) c) st"
proof (rule matched_call [OF _ call])
  have "m_state m = m_state k" using arg_cong [OF m(2), of m_state] by simp
  then have live: "m_state m \<noteq> FREED" using k(2) by simp
  have b: "bare (g k) = bare (g m)" using g(1) [of k] g(1) [of m] m(2) by simp
  show "follows (pcs(t := Ready)) (hdr_set p (g k) c) (hdr_set p (g m) st)"
  proof (rule follows_upd [OF f])
    show "shadows (hdr_set p (g k) c) (hdr_set p (g m) st)
        (all_of marked_of pcs - marked_of (pcs t) \<union> marked_of Ready)
        (all_of hidden_of pcs - hidden_of (pcs t) \<union> hidden_of Ready)
        (all_of new_of pcs - new_of (pcs t) \<union> new_of Ready)"
      using shadows_hdr [OF followsD(1) [OF f] k(1) m(1,3) live g(6) b] g(2-4) by (simp add: t)
    show "obj_at (hdr_set p (g m) st) q = obj_at st q" if "u \<noteq> t" "meta_of q \<in> work_of (pcs u)" for u q
    proof -
      have "q \<noteq> p" using free [OF that(1)] that(2) by auto
      then show ?thesis using hdr_set_view [OF m(1), of "g m"] g(5) m(1) by (simp add: get_meta_Some)
    qed
  qed simp_all
qed

text \<open>
  What is left to the program: \<open>ownership_claim\<close> and \<open>ownership_share\<close> on objects that are not freed, as for calls one
  at a time; claiming only what no call is working on; and resizing only what is neither shared nor borrowed.
\<close>

definition disciplined :: "(tid \<Rightarrow> stage) \<Rightarrow> 'x rt_scheme \<Rightarrow> call \<Rightarrow> bool" where
  "disciplined pcs c call \<longleftrightarrow> obeys c call \<and>
     (case call of
        CClaim p \<Rightarrow> (\<forall>u. meta_of p \<notin> work_of (pcs u))
      | CRealloc p n \<Rightarrow> n = 0 \<or> (\<forall>m. get_meta c p = Inr (Some m) \<longrightarrow> m_state m \<noteq> SHARED \<and> m_borrow_count m = 0)
      | _ \<Rightarrow> True)"

lemma matched_stay: "follows pcs c st \<Longrightarrow> pcs t = Ready \<Longrightarrow> matched (pcs(t := Ready)) c st"
  by (simp add: fun_upd_idem matched_same)

lemma enter_claim:
  assumes f: "follows pcs c st" and t: "pcs t = Ready" and d: "disciplined pcs c (CClaim p)"
    and r: "ownership_claim t p c = Inr c'"
  shows "matched (pcs(t := Ready)) c' st"
proof (cases "p = 0")
  case True
  then show ?thesis using r matched_stay [OF f t] by (simp add: ownership_claim_def)
next
  case False
  then have "live c p" using d by (simp add: disciplined_def obeys_def)
  then obtain k where k: "get_meta c p = Inr (Some k)" "m_state k \<noteq> FREED" by (rule liveE)
  have c': "c' = hdr_set p (claimed_meta t k) c" using r ownership_claim_tracked [OF k(1), of t] by simp
  from f k obtain m where m: "get_meta st p = Inr (Some m)" "bare k = bare m"
    "meta_of p \<notin> all_of marked_of pcs" "m_state k = m_state m"
    by (rule follows_read)
  have "live st p" using k(2) m(1,4) by (auto simp: live_iff)
  then show ?thesis
    unfolding c' using d ownership_claim_tracked [OF m(1), of t] live_meta_changed(3)
    by (intro enter_hdr [OF f t k m(1-3), where call = "CClaim p" and r = 0])
      (auto simp: disciplined_def bare_changed_meta obeys_def void_def)
qed

lemma enter_share:
  assumes f: "follows pcs c st" and t: "pcs t = Ready" and d: "disciplined pcs c (CShare p)"
    and r: "ownership_share t p c = Inr c'"
  shows "matched (pcs(t := Ready)) c' st"
proof (cases "p = 0")
  case True
  then show ?thesis using r matched_stay [OF f t] by (simp add: ownership_share_def)
next
  case False
  then have "live c p" using d by (simp add: disciplined_def obeys_def)
  then obtain k where k: "get_meta c p = Inr (Some k)" "m_state k \<noteq> FREED" by (rule liveE)
  have c': "c' = hdr_set p (shared_meta k) c" "m_owner_thread k = t"
    using r ownership_share_tracked [OF k(1), of t] by (auto split: if_splits)
  from f k obtain m where m: "get_meta st p = Inr (Some m)" "bare k = bare m"
    "meta_of p \<notin> all_of marked_of pcs" "m_state k = m_state m" "m_owner_thread k = m_owner_thread m"
    by (rule follows_read)
  have "live st p" using k(2) m(1,4) by (auto simp: live_iff)
  then show ?thesis
    unfolding c'(1) using ownership_share_tracked [OF m(1), of t] live_meta_changed(4) m(5) c'(2)
      follows_not_work [OF f m(1,3)]
    by (intro enter_hdr [OF f t k m(1-3), where call = "CShare p" and r = 0])
      (auto simp: bare_changed_meta obeys_def void_def)
qed

lemma enter_borrow:
  assumes f: "follows pcs c st" and t: "pcs t = Ready" and r: "ownership_borrow t p c = Inr c'"
  shows "matched (pcs(t := Ready)) c' st"
proof (cases "p = 0")
  case True
  then show ?thesis using r matched_stay [OF f t] by (simp add: ownership_borrow_def)
next
  case False
  then obtain k where k: "get_meta c p = Inr (Some k)"
    using r by (auto simp: ownership_borrow_def bindE_eq_Inr split: option.splits)
  have k': "m_state k \<noteq> FREED" "m_state k = SHARED \<or> m_owner_thread k = t" "m_borrow_count k \<noteq> INT_MAX"
    and c': "c' = hdr_set p (borrowed_meta k) c"
    using r ownership_borrow_tracked [OF k, of t] by (auto split: if_splits)
  from f k k'(1) obtain m where m: "get_meta st p = Inr (Some m)" "bare k = bare m"
    "meta_of p \<notin> all_of marked_of pcs" "m_state k = m_state m" "m_owner_thread k = m_owner_thread m"
    "m_borrow_count k = m_borrow_count m"
    by (rule follows_read)
  have "live_meta (borrowed_meta m)" if "live_meta m"
    using that k'(3) m(6) by (intro live_meta_changed(1)) (auto simp: live_meta_def)
  then show ?thesis
    unfolding c' using ownership_borrow_tracked [OF m(1), of t] m(4-6) k' follows_not_work [OF f m(1,3)]
    by (intro enter_hdr [OF f t k k'(1) m(1-3), where call = "CBorrow p" and r = 0])
      (auto simp: bare_changed_meta obeys_def void_def)
qed

lemma enter_release:
  assumes f: "follows pcs c st" and t: "pcs t = Ready" and r: "ownership_release p c = Inr c'"
  shows "matched (pcs(t := Ready)) c' st"
proof (cases "p = 0")
  case True
  then show ?thesis using r matched_stay [OF f t] by (simp add: ownership_release_def)
next
  case False
  then obtain k where k: "get_meta c p = Inr (Some k)"
    using r by (auto simp: ownership_release_def bindE_eq_Inr split: option.splits)
  have k': "0 < m_borrow_count k" and c': "c' = hdr_set p (released_meta k) c"
    using r ownership_release_tracked [OF k] by (auto split: if_splits)
  obtain L where L: "rt_rep st L" using followsD(1) [OF f] by (auto simp: shadows_def rt_wf_def rt_inv_def)
  have nfk: "m_state k \<noteq> FREED"
  proof
    assume a: "m_state k = FREED"
    obtain m where m: "get_meta st p = Inr (Some m)"
      "bare k = (if meta_of p \<in> all_of marked_of pcs then bare (freed_meta None 0 m) else bare m)"
      using shadows_meta [OF followsD(1) [OF f] k] by blast
    have cnt: "0 < m_borrow_count m"
      using k' arg_cong [OF m(2), of m_borrow_count] by (simp split: if_splits)
    have "m_state m \<noteq> FREED" using rt_rep_meta(5) [OF L m(1)] cnt by (auto simp: dead_meta_def)
    moreover have "meta_of p \<notin> all_of marked_of pcs"
    proof
      assume "meta_of p \<in> all_of marked_of pcs"
      then obtain u where "meta_of p \<in> marked_of (pcs u)" by (auto simp: all_of_def)
      then have "\<exists>m. obj_at st p = Some m \<and> free_ok u m"
        using holds_free_ok [OF followsD(2) [OF f]] parts_of_work(1) by blast
      with obj_at_get_meta [OF m(1)] cnt show False by (auto simp: free_ok_def)
    qed
    ultimately show False using a arg_cong [OF m(2), of m_state] by simp
  qed
  from f k nfk obtain m where m: "get_meta st p = Inr (Some m)" "bare k = bare m"
    "meta_of p \<notin> all_of marked_of pcs" "m_state k = m_state m" "m_owner_thread k = m_owner_thread m"
    "m_borrow_count k = m_borrow_count m"
    by (rule follows_read)
  show ?thesis
    unfolding c' using ownership_release_tracked [OF m(1)] m(6) k' follows_not_work [OF f m(1,3)] live_meta_changed(2)
    by (intro enter_hdr [OF f t k nfk m(1-3), where call = "CRelease p" and r = 0])
      (auto simp: bare_changed_meta obeys_def void_def)
qed

lemma enter_matched:
  assumes f: "follows pcs c st" and t: "pcs t = Ready" and d: "disciplined pcs c call"
    and r: "enter t call c = Inr (x, c')"
  shows "matched (pcs(t := x)) c' st"
proof -
  have once: "x = Ready \<and> m = Inr c'" if "at_once m = Inr (x, c')" for m
    using that by (cases m) (auto simp: at_once_def)
  show ?thesis
  proof (cases call)
    case (CMalloc n)
    with r show ?thesis
      by (intro enter_obtain [OF f t, where call = call and sz = n and b = "0xAA"])
        (auto simp: obeys_def owner_malloc_def intro: owner_malloc_filled [symmetric])
  next
    case (CCalloc k n)
    with r show ?thesis
      by (intro enter_obtain [OF f t, where call = call and sz = "k * n" and b = 0])
        (auto simp: obeys_def owner_calloc_def)
  next
    case (CRealloc p n)
    with r d show ?thesis by (intro enter_resize [OF f t, of p n]) (auto simp: disciplined_def)
  next
    case (CFree p)
    with r show ?thesis by (intro enter_mark [OF f t, of p]) simp
  next
    case (CClaim p)
    then show ?thesis using r d once enter_claim [OF f t, of p] by fastforce
  next
    case (CBorrow p)
    then show ?thesis using r once enter_borrow [OF f t, of p] by fastforce
  next
    case (CRelease p)
    then show ?thesis using r once enter_release [OF f t, of p] by fastforce
  next
    case (CShare p)
    then show ?thesis using r d once enter_share [OF f t, of p] by fastforce
  next
    case (CTransfer p q)
    then show ?thesis using r matched_stay [OF f t] by (simp add: at_once_def ownership_transfer_def)
  qed
qed

text \<open>The later parts of a call.  None of them fails, but for a size that wraps around.\<close>

lemma shadows_hidden:
  assumes "shadows c st F H B" and "a \<in> H"
  obtains k where "hdr c a = Some k"
proof -
  obtain h hs pl L Lc where c: "c = st\<lparr>hdr := h, registry_heads := hs, payload := pl\<rparr>" and wf: "rt_wf st"
    and r: "shadow_rep st h hs pl L Lc F H B"
    using assms(1) by (rule shadowsE)
  obtain m where "bare_hdr (hdr st) a = Some m"
    using blocks_invD(1) [OF rt_rep_blocks [OF shadow_repD(1) [OF r]], of a] shadow_repD(6) [OF r assms(2)] by auto
  then have "bare_hdr h a \<noteq> None" using shadow_repD(3) [OF r] by (auto simp: as_marked_def)
  with that c show ?thesis by (auto simp: bare_hdr_def)
qed

lemma sys_realloc_returns: "map_of (chunks c) a = Some len \<Longrightarrow> \<exists>new c1. sys_realloc a n c = Inr (new, c1)"
  by (cases "replies c") (simp_all add: sys_realloc_def)

lemma resume_detached_returns:
  assumes sh: "shadows c st F H B" and m: "get_meta st p = Inr (Some m)" and "meta_of p \<in> H"
  shows "(\<exists>y. resume (Detached p n) c = Inr y) \<or> resume (Detached p n) c = Inl (Undefined ''write past the block'')"
proof -
  obtain h hs pl L Lc where c: "c = st\<lparr>hdr := h, registry_heads := hs, payload := pl\<rparr>" and wf: "rt_wf st"
    and r: "shadow_rep st h hs pl L Lc F H B"
    using sh by (rule shadowsE)
  note d = shadow_repD [OF r]
  have hb: "bare_hdr (hdr st) (meta_of p) = Some (bare m)" using get_metaD [OF m] by (simp add: bare_hdr_def)
  have "m_magic m = OWNEDC_MAGIC" using m by (simp add: get_meta_Some)
  then have "(meta_of p, 80 + unat (m_size m)) \<in> set (chunks st)"
    using blocks_invD(6) [OF rt_rep_blocks [OF d(1)] hb] by (simp add: owns_block_def)
  then have len: "map_of (chunks c) (meta_of p) = Some (80 + unat (m_size m))"
    using chunks_inv_map_of [OF blocks_invD(7) [OF rt_rep_blocks [OF d(1)]]] c by simp
  then obtain new c1 where s: "sys_realloc (meta_of p) (sizeof_meta + n) c = Inr (new, c1)"
    using sys_realloc_returns by blast
  note sr = sys_realloc_over(1) [OF s len refl refl]
  obtain k where k: "hdr c (meta_of p) = Some k" using shadows_hidden [OF sh assms(3)] .
  show ?thesis
  proof (cases "new = 0 \<or> unat (sizeof_meta + n) < unat sizeof_meta + unat n")
    case True
    then show ?thesis using s by auto
  next
    case False
    then have "80 \<le> unat (sizeof_meta + n)" by (simp add: sizeof_meta_def)
    then have "hdr c1 new = Some k"
      using arg_cong [OF trans [OF sr [symmetric] s], of "\<lambda>r. case r of Inr y \<Rightarrow> hdr (snd y) | _ \<Rightarrow> Map.empty"]
        False k by (auto simp: fun_eq_iff dest: spec [of _ new])
    then show ?thesis using s False by (simp add: upd_hdr_Some)
  qed
qed

lemma all_of_mine:
  assumes "\<And>u v. u \<noteq> v \<Longrightarrow> work_of (pcs u) \<inter> work_of (pcs v) = {}" and "\<And>s. g s \<subseteq> work_of s"
    and "a \<in> work_of (pcs t)"
  shows "a \<in> all_of g pcs \<longleftrightarrow> a \<in> g (pcs t)"
proof
  assume "a \<in> all_of g pcs"
  then obtain u where u: "a \<in> g (pcs u)" by (auto simp: all_of_def)
  then have "u = t" using assms(1) [of u t] assms(2) [of "pcs u"] assms(3) by blast
  with u show "a \<in> g (pcs t)" by simp
qed (auto simp: all_of_def)

definition goes_on :: "stage \<Rightarrow> 'x rt_scheme \<Rightarrow> bool" where
  "goes_on s c \<longleftrightarrow> (\<exists>y. resume s c = Inr y) \<or>
     (\<exists>p n. s = Detached p n) \<and> resume s c = Inl (Undefined ''write past the block'')"

lemma exclusive_meta:
  assumes "exclusive st t p"
  obtains m where "get_meta st p = Inr (Some m)" and "m_state m = OWNED" and "m_owner_thread m = t"
    and "m_borrow_count m = 0"
  using assms by (auto simp: exclusive_def obj_at_Some)

lemma resume_matched:
  assumes f: "follows pcs c st"
  shows "goes_on (pcs t) c" and "resume (pcs t) c = Inr (x, c') \<Longrightarrow> matched (pcs(t := x)) c' st"
proof -
  note d = followsD [OF f]
  note inF = all_of_mine [where pcs = pcs and t = t and g = marked_of, OF d(3) parts_of_work(1)]
  note inH = all_of_mine [where pcs = pcs and t = t and g = hidden_of, OF d(3) parts_of_work(2)]
  have nB: "a \<notin> fst ` all_of new_of pcs" if "a \<in> work_of (pcs t)" "new_of (pcs t) = {}" for a
  proof
    assume "a \<in> fst ` all_of new_of pcs"
    then obtain u where u: "a \<in> fst ` new_of (pcs u)" by (auto simp: all_of_def)
    with that(2) have "u \<noteq> t" by auto
    with u that(1) d(3) parts_of_work(3) show False by blast
  qed
  have goon: "matched (pcs(t := y)) c'' st"
    if "shadows c'' st (all_of marked_of pcs - marked_of (pcs t) \<union> marked_of y)
        (all_of hidden_of pcs - hidden_of (pcs t) \<union> hidden_of y) (all_of new_of pcs - new_of (pcs t) \<union> new_of y)"
      "holds st t y" "work_of y \<subseteq> work_of (pcs t)" for y c''
    using that(3) d(3) by (intro matched_same follows_upd [OF f that(1,2)]) blast+
  have "goes_on (pcs t) c \<and> (resume (pcs t) c = Inr (x, c') \<longrightarrow> matched (pcs(t := x)) c' st)"
  proof (cases "pcs t")
    case Ready
    then show ?thesis using matched_stay [OF f Ready] by (auto simp: goes_on_def)
  next
    case (Building a b)
    have a: "a \<in> all_of hidden_of pcs" "a \<notin> all_of marked_of pcs" using inH [of a] inF [of a] Building by simp_all
    have ab: "(a, b) \<in> all_of new_of pcs" using Building unfolding all_of_def by (metis UNIV_I UN_iff new_of.simps(1) singletonI)
    have un: "{x \<in> all_of new_of pcs. fst x \<noteq> a} = all_of new_of pcs - {(a, b)}"
    proof -
      have imp: "x = (a, b)" if i: "x \<in> all_of new_of pcs" "fst x = a" for x
      proof -
        obtain u where u: "x \<in> new_of (pcs u)" using i(1) by (auto simp: all_of_def)
        then have "a \<in> work_of (pcs u)" using parts_of_work(3) i(2) by blast
        then have "u = t" using d(3) [of u t] Building by auto
        with u Building show ?thesis by simp
      qed
      have "x \<in> all_of new_of pcs \<and> fst x \<noteq> a \<longleftrightarrow> x \<in> all_of new_of pcs \<and> x \<noteq> (a, b)" for x
        using imp [of x] by (metis fst_conv)
      then show ?thesis by (simp add: set_eq_iff)
    qed
    obtain c1 where ins: "insert_meta a c = Inr c1"
      and sh: "\<forall>b. (a, b) \<in> all_of new_of pcs \<longrightarrow> shadows (put (user_ptr a) (Filled b) c1) st (all_of marked_of pcs)
          (all_of hidden_of pcs - {a}) {x \<in> all_of new_of pcs. fst x \<noteq> a}"
      using shadows_link [OF d(1) a] by (elim exE conjE)
    from sh [rule_format, OF ab] ins show ?thesis
      using goon [of "put (user_ptr a) (Filled b) c1" Ready] un Building by (auto simp: goes_on_def)
  next
    case (Marked p)
    have a: "meta_of p \<notin> all_of hidden_of pcs" "meta_of p \<in> all_of marked_of pcs"
      using inH [of "meta_of p"] inF [of "meta_of p"] Marked by simp_all
    obtain m where m: "obj_at st p = Some m" "free_ok t m" using d(2) [of t] Marked by auto
    then obtain m' where m': "get_meta st p = Inr (Some m')" "m = bare m'" by (auto simp: obj_at_Some)
    have "m_state m' \<noteq> FREED" using m(2) m'(2) by (simp add: free_ok_def)
    from shadows_unlink [OF d(1) m'(1) this a(1), of True] a(2) obtain c1 where
      "remove_meta (meta_of p) (put p (Filled 0xEF) c) = Inr c1"
      "shadows c1 st (all_of marked_of pcs) (insert (meta_of p) (all_of hidden_of pcs)) (all_of new_of pcs)"
      by auto
    then show ?thesis using goon [of c1 "Unlinked p"] m Marked a(2)
      by (auto simp: goes_on_def insert_absorb)
  next
    case (Unlinked p)
    have a: "meta_of p \<in> all_of hidden_of pcs" "meta_of p \<in> all_of marked_of pcs"
      using inH [of "meta_of p"] inF [of "meta_of p"] Unlinked by simp_all
    obtain m where m: "obj_at st p = Some m" "free_ok t m" using d(2) [of t] Unlinked by auto
    then obtain m' where m': "get_meta st p = Inr (Some m')" "m = bare m'" by (auto simp: obj_at_Some)
    have ok: "free_ok t m'" using m(2) m'(2) by simp
    obtain c1 st1 where p: "quarantine_push (meta_of p) c = Inr c1" "owner_free t p st = Inr st1"
      "shadows c1 st1 (all_of marked_of pcs - {meta_of p}) (all_of hidden_of pcs - {meta_of p}) (all_of new_of pcs)"
      "\<And>q. q \<noteq> p \<Longrightarrow> live st q \<Longrightarrow> obj_at st1 q = obj_at st q"
      using shadows_push [OF d(1) m'(1) ok a(2,1)] by blast
    have "follows (pcs(t := Ready)) c1 st1"
    proof (rule follows_upd [OF f])
      show "obj_at st1 q = obj_at st q" if "u \<noteq> t" "meta_of q \<in> work_of (pcs u)" "live st q" for u q
      proof -
        have "q \<noteq> p" using d(3) [OF that(1)] that(2) Unlinked by auto
        then show ?thesis using p(4) that(3) by blast
      qed
    qed (use p(3) Unlinked in simp_all)
    then have "matched (pcs(t := Ready)) c1 st"
      using p(2) by (intro matched_call [where call = "CFree p" and t = t and r = 0]) (auto simp: obeys_def void_def)
    then show ?thesis using p(1) Unlinked by (auto simp: goes_on_def)
  next
    case (Resizing p n)
    have a: "meta_of p \<notin> all_of hidden_of pcs" "meta_of p \<notin> all_of marked_of pcs"
      using inH [of "meta_of p"] inF [of "meta_of p"] Resizing by simp_all
    have h: "n \<noteq> 0" "exclusive st t p" using d(2) [of t] Resizing by simp_all
    obtain m where m: "get_meta st p = Inr (Some m)" "m_state m = OWNED" using exclusive_meta [OF h(2)] .
    from shadows_unlink [OF d(1) m(1) _ a(1), of False] a(2) m(2) obtain c1 where
      "remove_meta (meta_of p) c = Inr c1"
      "shadows c1 st (all_of marked_of pcs) (insert (meta_of p) (all_of hidden_of pcs)) (all_of new_of pcs)"
      by auto
    then show ?thesis using goon [of c1 "Detached p n"] h Resizing by (auto simp: goes_on_def)
  next
    case (Detached p n)
    have a: "meta_of p \<in> all_of hidden_of pcs" "meta_of p \<notin> all_of marked_of pcs" "meta_of p \<notin> fst ` all_of new_of pcs"
      using inH [of "meta_of p"] inF [of "meta_of p"] nB [of "meta_of p"] Detached by simp_all
    have h: "n \<noteq> 0" "exclusive st t p" using d(2) [of t] Detached by simp_all
    obtain m where m: "get_meta st p = Inr (Some m)" "m_state m = OWNED" "m_owner_thread m = t"
      "m_borrow_count m = 0" using exclusive_meta [OF h(2)] .
    have g: "goes_on (pcs t) c" using resume_detached_returns [OF d(1) m(1) a(1)] Detached by (auto simp: goes_on_def)
    have "matched (pcs(t := x)) c' st" if r: "resume (Detached p n) c = Inr (x, c')"
    proof -
      have ok: "realloc_ok t m" using m(2,3) by (simp add: realloc_ok_def)
      obtain b q st1 where q: "owner_realloc t p n st = Inr (q, st1)" "x = Moved b"
        "b = (if q = 0 then meta_of p else meta_of q)"
        "shadows c' st1 (all_of marked_of pcs) (insert b (all_of hidden_of pcs - {meta_of p})) (all_of new_of pcs)"
        "b = meta_of p \<or> \<not> live st (user_ptr b)"
        "obj_at st1 = (if q = 0 then obj_at st else ((obj_at st)(p := None))(q \<mapsto> bare (m\<lparr>m_size := n\<rparr>)))"
        using shadows_move [OF d(1) m(1) ok h(1) a r] by blast
      have ex: "exclusive st1 t (user_ptr b)"
        using h(2) q(3,6) m(2-4) by (cases "q = 0") (auto simp: exclusive_def)
      have other: "meta_of p \<notin> work_of (pcs u)" "b \<notin> work_of (pcs u)" if "u \<noteq> t" for u
      proof -
        show p: "meta_of p \<notin> work_of (pcs u)" using d(3) [OF that] Detached by auto
        show "b \<notin> work_of (pcs u)" using holds_live [OF d(2), of "user_ptr b" u] q(5) p by auto
      qed
      have "follows (pcs(t := x)) c' st1"
      proof (rule follows_upd [OF f])
        show "shadows c' st1 (all_of marked_of pcs - marked_of (pcs t) \<union> marked_of x)
            (all_of hidden_of pcs - hidden_of (pcs t) \<union> hidden_of x) (all_of new_of pcs - new_of (pcs t) \<union> new_of x)"
          using q(2,4) by (simp add: Detached)
        show "obj_at st1 w = obj_at st w" if "u \<noteq> t" "meta_of w \<in> work_of (pcs u)" "live st w" for u w
        proof -
          have "w \<noteq> p" "w \<noteq> user_ptr b" using other [OF that(1)] that(2) by auto
          then show ?thesis using q(3,6) by (auto split: if_splits)
        qed
        show "work_of x \<inter> work_of (pcs u) = {}" if "u \<noteq> t" for u using other(2) [OF that] q(2) by simp
      qed (use ex q(2) in simp)
      then show ?thesis
        using q(1) by (intro matched_call [where call = "CRealloc p n" and t = t and r = q]) (auto simp: obeys_def)
    qed
    with g Detached show ?thesis by simp
  next
    case (Moved a)
    have a: "a \<in> all_of hidden_of pcs" "a \<notin> all_of marked_of pcs" "a \<notin> fst ` all_of new_of pcs"
      using inH [of a] inF [of a] nB [of a] Moved by simp_all
    obtain c1 where ins: "insert_meta a c = Inr c1"
      and "shadows c1 st (all_of marked_of pcs) (all_of hidden_of pcs - {a}) (all_of new_of pcs)"
      using shadows_link [OF d(1) a(1,2)] a(3) by (elim exE conjE) (drule (1) mp, blast)
    then show ?thesis using goon [of c1 Ready] Moved by (auto simp: goes_on_def)
  qed
  then show "goes_on (pcs t) c" and "resume (pcs t) c = Inr (x, c') \<Longrightarrow> matched (pcs(t := x)) c' st"
    by blast+
qed

subsection \<open>Programs\<close>

text \<open>What threads reach from the start when their calls overlap in any way the discipline allows.\<close>

inductive overlapped :: "(tid \<Rightarrow> stage) \<Rightarrow> rt \<Rightarrow> bool" where
  start: "overlapped (\<lambda>_. Ready) (rt_init rs mf ff rf)"
| enter: "overlapped pcs c \<Longrightarrow> pcs t = Ready \<Longrightarrow> disciplined pcs c call \<Longrightarrow> enter t call c = Inr (x, c') \<Longrightarrow>
    overlapped (pcs(t := x)) c'"
| resume: "overlapped pcs c \<Longrightarrow> resume (pcs t) c = Inr (x, c') \<Longrightarrow> overlapped (pcs(t := x)) c'"

lemma all_of_ready: "\<forall>t. pcs t = Ready \<Longrightarrow> all_of g pcs = g Ready"
  by (simp add: all_of_def)

lemma overlapped_follows: "overlapped pcs c \<Longrightarrow> \<exists>st. reachable st \<and> follows pcs c st"
proof (induction rule: overlapped.induct)
  case (start rs mf ff rf)
  then show ?case using follows_init reachable.start by blast
next
  case (enter pcs c t call x c')
  then obtain st where st: "reachable st" "follows pcs c st" by blast
  from enter_matched [OF st(2) enter.hyps(2-4)] show ?case
    using st(1) reachable.step unfolding matched_def by blast
next
  case (resume pcs c t x c')
  then obtain st where st: "reachable st" "follows pcs c st" by blast
  from resume_matched(2) [OF st(2) resume.hyps(2)] show ?case
    using st(1) reachable.step unfolding matched_def by blast
qed

text \<open>A schedule names the thread that runs next, with the call it starts or none if it goes on with its own.\<close>

fun schedule :: "(tid \<times> call option) list \<Rightarrow> (tid \<Rightarrow> stage) \<times> rt \<Rightarrow> failure + ((tid \<Rightarrow> stage) \<times> rt)" where
  "schedule [] s = Inr s"
| "schedule ((t, None) # xs) (pcs, c) = bindE (resume (pcs t) c) (\<lambda>(x, c). schedule xs (pcs(t := x), c))"
| "schedule ((t, Some call) # xs) (pcs, c) =
     (if pcs t = Ready then bindE (enter t call c) (\<lambda>(x, c). schedule xs (pcs(t := x), c)) else Inl Blocked)"

fun unguarded :: "call \<Rightarrow> bool" where
  "unguarded (CRealloc p n) = False"
| "unguarded (CClaim p) = False"
| "unguarded (CShare p) = False"
| "unguarded _ = True"

lemma schedule_overlapped:
  "overlapped pcs c \<Longrightarrow> (\<forall>x \<in> set xs. \<forall>call. snd x = Some call \<longrightarrow> unguarded call) \<Longrightarrow>
   schedule xs (pcs, c) = Inr (pcs', c') \<Longrightarrow> overlapped pcs' c'"
proof (induction xs arbitrary: pcs c)
  case (Cons y xs)
  obtain t o' where y: "y = (t, o')" by fastforce
  have plain: "\<forall>x \<in> set xs. \<forall>call. snd x = Some call \<longrightarrow> unguarded call" using Cons.prems(2) by simp
  show ?case
  proof (cases o')
    case None
    then obtain x c1 where r: "resume (pcs t) c = Inr (x, c1)" "schedule xs (pcs(t := x), c1) = Inr (pcs', c')"
      using Cons.prems(3) y by (auto simp: bindE_eq_Inr)
    show ?thesis by (rule Cons.IH [OF overlapped.resume [OF Cons.prems(1) r(1)] plain r(2)])
  next
    case (Some call)
    then obtain x c1 where r: "pcs t = Ready" "enter t call c = Inr (x, c1)"
      "schedule xs (pcs(t := x), c1) = Inr (pcs', c')"
      using Cons.prems(3) y by (auto simp: bindE_eq_Inr split: if_splits)
    have "disciplined pcs c call" using Cons.prems(2) y Some by (cases call) (auto simp: disciplined_def obeys_def)
    from Cons.IH [OF overlapped.enter [OF Cons.prems(1) r(1) this r(2)] plain r(3)] show ?thesis .
  qed
qed simp

lemma overlapped_schedule:
  assumes "schedule xs (\<lambda>_. Ready, example_start) = Inr (pcs, c)"
    and "\<forall>x \<in> set xs. \<forall>call. snd x = Some call \<longrightarrow> unguarded call"
  shows "overlapped pcs c"
proof -
  have "overlapped (\<lambda>_. Ready) example_start" unfolding example_start_def by (rule overlapped.start)
  from this assms(2,1) show ?thesis by (rule schedule_overlapped)
qed

lemmas schedule_eval = example_start_def rt_eval obtain_block_def mark_freed_object_def at_once_def





text \<open>The discipline is needed: a thread resizes a shared object, and between its checks and its lock another one
  releases the object; the block that moved is then in the quarantine under its old address, and giving it back at the
  end of the program is undefined.\<close>

definition shared_race :: "failure + rt" where
  "shared_race =
     bindE (run [(1, CMalloc 16), (1, CShare 0x1050)] example_start) (\<lambda>st.
     bindE (enter 1 (CRealloc 0x1050 32) st) (\<lambda>(resizing, st).
     bindE (alone 2 (CFree 0x1050) st) (\<lambda>st.
     finish resizing st)))"

lemma shared_race_dangles:
  "\<exists>st. shared_race = Inr st \<and> quarantine st ! 0 = 0x1000 \<and> 0x1000 \<notin> fst ` set (chunks st) \<and>
     quarantine_clear st = Inl (Undefined ''free of memory that is not allocated'')"
proof -
  have "\<exists>st. shared_race = Inr st \<and> quarantine st ! 0 = 0x1000 \<and> 0x1000 \<notin> fst ` set (chunks st)"
    by (simp add: shared_race_def example_start_def rt_eval alone_def finish_def mark_freed_object_def check_resize_def at_once_def)
  then obtain st where st: "shared_race = Inr st" "quarantine st ! 0 = 0x1000" "0x1000 \<notin> fst ` set (chunks st)"
    by blast
  have "[0..<QUARANTINE_SIZE] = 0 # [Suc 0..<QUARANTINE_SIZE]"
    by (rule upt_conv_Cons) (simp add: QUARANTINE_SIZE_def)
  then have "quarantine_clear st = Inl (Undefined ''free of memory that is not allocated'')"
    using st(2,3) by (simp add: quarantine_clear_def sys_free_def)
  with st show ?thesis by blast
qed

end
