(* ===== verification/Scalars.thy ===== *)
theory Scalars
  imports Supply
begin

text \<open>
  Values of type \<open>int\<close> in tracked memory, as the programs under \<open>examples/\<close> write and read them: four bytes, the
  lowest first.
\<close>

subsection \<open>Integers in memory\<close>

text \<open>The bytes of an \<open>int\<close>, the lowest first.\<close>

definition int_byte :: "int \<Rightarrow> nat \<Rightarrow> byte" where
  "int_byte v i = of_int (v div 256 ^ i)"

definition store_int :: "addr \<Rightarrow> int \<Rightarrow> 'x rt_scheme \<Rightarrow> failure + 'x rt_scheme" where
  "store_int p v st =
     (if p = 0 then Inl (Undefined ''write to unmapped memory'')
      else foldE (\<lambda>i. store_byte p i (int_byte v i)) [0, 1, 2, 3] st)"

definition load_int :: "'x rt_scheme \<Rightarrow> addr \<Rightarrow> failure + int" where
  "load_int st p =
     (if p = 0 then Inl (Undefined ''read of unmapped memory'')
      else bindE (load_byte st p 0) (\<lambda>b0. bindE (load_byte st p 1) (\<lambda>b1.
           bindE (load_byte st p 2) (\<lambda>b2. bindE (load_byte st p 3) (\<lambda>b3.
           Inr (signed_take_bit 31 (uint b0 + 256 * uint b1 + 256 ^ 2 * uint b2 + 256 ^ 3 * uint b3)))))))"

definition int_payload :: "int \<Rightarrow> payload" where
  "int_payload v = Bytes ((\<lambda>_. Some 0xAA)(0 \<mapsto> int_byte v 0, 1 \<mapsto> int_byte v 1, 2 \<mapsto> int_byte v 2, 3 \<mapsto> int_byte v 3))"

lemma uint_int_byte: "uint (int_byte v i) = v div 256 ^ i mod 256"
  by (simp add: int_byte_def unsigned_of_int take_bit_eq_mod)

lemma int_bytes: "v mod 256 + 256 * (v div 256 mod 256) + 256 ^ 2 * (v div 256 ^ 2 mod 256) +
    256 ^ 3 * (v div 256 ^ 3 mod 256) = v mod 2 ^ 32" for v :: int
proof -
  have m: "w mod (256 * n) = 256 * (w div 256 mod n) + w mod 256" if "0 < n" for w n :: int
    using that zmod_zmult2_eq [of n w 256] by simp
  have d: "v div 256 div 256 = v div 256 ^ 2" "v div 256 ^ 2 div 256 = v div 256 ^ 3"
    by (simp_all add: zdiv_zmult2_eq [symmetric])
  have "v mod 2 ^ 32 = v mod (256 * 256 ^ 3)" by simp
  also have "\<dots> = 256 * (v div 256 mod 256 ^ 3) + v mod 256" by (rule m) simp
  also have "v div 256 mod 256 ^ 3 = v div 256 mod (256 * 256 ^ 2)" by simp
  also have "\<dots> = 256 * (v div 256 ^ 2 mod 256 ^ 2) + v div 256 mod 256" using m [of "256 ^ 2" "v div 256"] by (simp only: d) simp
  also have "v div 256 ^ 2 mod 256 ^ 2 = v div 256 ^ 2 mod (256 * 256)" by simp
  also have "\<dots> = 256 * (v div 256 ^ 3 mod 256) + v div 256 ^ 2 mod 256"
    using m [of 256 "v div 256 ^ 2"] by (simp only: d)
  finally have "v mod 2 ^ 32 = 256 * (256 * (256 * (v div 256 ^ 3 mod 256) + v div 256 ^ 2 mod 256) +
    v div 256 mod 256) + v mod 256" .
  moreover have "a + 256 * b + 256 ^ 2 * c + 256 ^ 3 * e = 256 * (256 * (256 * e + c) + b) + a" for a b c e :: int
    by simp
  ultimately show ?thesis by (simp only:)
qed

lemma store_int_cell:
  assumes "rt_wf st" and "cell_at st p = Some (m, Filled 0xAA)" and "4 \<le> unat (m_size m)"
  shows "store_int p v st = Inr (put p (int_payload v) st)"
proof -
  note nz = cell_at_nonnull [OF assms(2)]
  let ?f = "\<lambda>_ :: nat. Some (0xAA :: byte)"
  let ?b = "int_byte v"
  have 1: "store_byte p i b (put p x st) = Inr (put p (Bytes ((byte_view x)(i \<mapsto> b))) (put p x st))"
    if "i < 4" for i b x
  proof -
    note c = heap.store_result [OF assms(1,2), of x]
    show ?thesis by (rule store_byte_cell [of _ _ m x]) (use c that assms(3) in auto)
  qed
  have 0: "store_byte p 0 b st = Inr (put p (Bytes (?f(0 \<mapsto> b))) st)" for b
    using store_byte_cell [OF assms(1,2), of 0 b] assms(3) by simp
  have pp: "put p x (put p y st) = put p x st" for x y by (simp add: put_def)
  show ?thesis using nz by (simp add: store_int_def 0 1 pp int_payload_def)
qed

lemma load_int_cell:
  assumes "rt_wf st" and "cell_at st p = Some (m, int_payload v)" and "4 \<le> unat (m_size m)"
    and "- (2 ^ 31) \<le> v" and "v < 2 ^ 31"
  shows "load_int st p = Inr v"
proof -
  have l: "load_byte st p i = Inr (int_byte v i)" if "i < 4" for i
    by (rule load_byte_cell [OF assms(1,2)])
      (use that assms(3) in \<open>auto simp: int_payload_def numeral_eq_Suc less_Suc_eq\<close>)
  have "signed_take_bit 31 (v mod 2 ^ 32) = v"
    using signed_take_bit_take_bit [of 31 32 v] signed_take_bit_int_eq_self [of 31 v] assms(4,5)
    by (simp add: take_bit_eq_mod)
  moreover have "load_int st p = Inr (signed_take_bit 31 (uint (int_byte v 0) + 256 * uint (int_byte v 1) +
      256 ^ 2 * uint (int_byte v 2) + 256 ^ 3 * uint (int_byte v 3)))"
    using cell_at_nonnull [OF assms(2)] by (simp add: load_int_def l)
  ultimately show ?thesis using int_bytes [of v] by (simp only: uint_int_byte power_0 div_by_1 power_one_right)
qed

end
