(* ===== verification/Pipeline.thy ===== *)
theory Pipeline
  imports Channel Scalars
begin

text \<open>
  The program \<open>examples/demo_channel.c\<close>: a thread that sends the numbers 0, 10, 20, 30, 40 and -1 through a channel,
  and the main thread, which receives, prints and frees them until it sees -1 and then frees the channel.  The two
  threads take their steps in any order; a step is a call of the library with the accesses to the message around it.
\<close>

subsection \<open>The program\<close>

definition messages :: "int list" where
  "messages = [0 * 10, 1 * 10, 2 * 10, 3 * 10, 4 * 10, -1]"

text \<open>Where \<open>producer_thread\<close> is: before the allocation of message \<open>i\<close>, before sending it, at its end.\<close>

datatype producer = PMake nat | PSend nat addr | PDone

text \<open>Where \<open>main\<close> is: before receiving, before freeing the message with this value, waiting for the thread, at its end.\<close>

datatype consumer = CRecv | CFree addr int | CJoin | CDone

fun producer_thread :: "tid \<Rightarrow> addr \<Rightarrow> producer \<Rightarrow> 'x rt_scheme \<Rightarrow> failure + (producer \<times> 'x rt_scheme)" where
  "producer_thread self ch (PMake i) st =
     bindE (owner_malloc self 4 st) (\<lambda>(msg, st).
     bindE (store_int msg (messages ! i) st) (\<lambda>st. Inr (PSend i msg, st)))"
| "producer_thread self ch (PSend i msg) st =
     bindE (ownedc_channel_send self ch msg st) (\<lambda>st. Inr (if i < 5 then PMake (i + 1) else PDone, st))"
| "producer_thread self ch PDone st = Inl Blocked"

fun consumer_main ::
    "tid \<Rightarrow> addr \<Rightarrow> producer \<Rightarrow> consumer \<Rightarrow> int list \<Rightarrow> 'x rt_scheme \<Rightarrow>
     failure + (consumer \<times> int list \<times> 'x rt_scheme)" where
  "consumer_main self ch pr CRecv printed st =
     bindE (ownedc_channel_recv self ch st) (\<lambda>(msg, st).
     bindE (load_int st msg) (\<lambda>val. Inr (CFree msg val, printed @ [val], st)))"
| "consumer_main self ch pr (CFree msg val) printed st =
     bindE (owner_free self msg st) (\<lambda>st. Inr (if val = -1 then CJoin else CRecv, printed, st))"
| "consumer_main self ch pr CJoin printed st =
     (if pr \<noteq> PDone then Inl Blocked
      else bindE (ownedc_channel_free self ch st) (\<lambda>st. Inr (CDone, printed, st)))"
| "consumer_main self ch pr CDone printed st = Inl Blocked"

text \<open>One of the two threads takes a step; a thread that has to wait, or that has ended, takes none.\<close>

type_synonym 'x pipeline = "producer \<times> consumer \<times> int list \<times> 'x rt_scheme"

definition unless_blocked :: "'s \<Rightarrow> failure + 's \<Rightarrow> failure + 's" where
  "unless_blocked s r = (if r = Inl Blocked then Inr s else r)"

fun turn :: "tid \<Rightarrow> tid \<Rightarrow> addr \<Rightarrow> bool \<Rightarrow> 'x pipeline \<Rightarrow> failure + 'x pipeline" where
  "turn t self ch True (pr, cons, printed, st) =
     bindE (producer_thread t ch pr st) (\<lambda>(pr, st). Inr (pr, cons, printed, st))"
| "turn t self ch False (pr, cons, printed, st) =
     bindE (consumer_main self ch pr cons printed st) (\<lambda>(cons, printed, st). Inr (pr, cons, printed, st))"

definition turns :: "tid \<Rightarrow> tid \<Rightarrow> addr \<Rightarrow> bool list \<Rightarrow> 'x pipeline \<Rightarrow> failure + 'x pipeline" where
  "turns t self ch = foldE (\<lambda>b s. unless_blocked s (turn t self ch b s))"

text \<open>The program: the channel, the thread, and a schedule of the two.\<close>

definition demo_channel :: "tid \<Rightarrow> tid \<Rightarrow> bool list \<Rightarrow> 'x rt_scheme \<Rightarrow> failure + 'x pipeline" where
  "demo_channel t self sched st =
     bindE (ownedc_channel_create self st) (\<lambda>(ch, st). turns t self ch sched (PMake 0, CRecv, [], st))"

subsection \<open>A channel, its messages and their owners\<close>

text \<open>The object of the owner changes its contents, or goes.\<close>

lemma channel_holds_put:
  assumes "channel_holds ch X ns a st" and "owned_by a p = Some t"
  shows "channel_holds ch (X(p := y)) ns a (put p y st)"
proof -
  obtain mc x where c: "rt_wf st" "map snd ns = in_transit a" "distinct (in_transit a)"
    "cell_at st ch = Some (mc, Chan \<lparr>ch_head = x, ch_tail = last_node ns\<rparr>)"
    "nodes (cell_at st) x ns 0" "distinct (map fst ns)" "ch \<notin> fst ` set ns"
    and own0: "\<forall>p t. owned_by a p = Some t \<longrightarrow> p \<noteq> ch \<and> p \<notin> fst ` set ns \<and>
        (\<exists>m. cell_at st p = Some (m, X p) \<and> owned_cell t m)"
    and tr0: "\<forall>p. p \<in> set (in_transit a) \<longrightarrow> owned_by a p = None \<and> p \<noteq> ch \<and> p \<notin> fst ` set ns \<and>
        (\<exists>m. cell_at st p = Some (m, X p) \<and> shared_cell m)"
    by (rule channel_holdsE [OF assms(1)])
  note own = own0 [rule_format] and tr = tr0 [rule_format]
  obtain m where p: "p \<noteq> ch" "p \<notin> fst ` set ns" "cell_at st p = Some (m, X p)" "owned_cell t m"
    using own [OF assms(2)] by blast
  note w = heap.store_result [OF c(1) p(3), of y]
  have n: "nodes (cell_at (put p y st)) x ns 0" by (rule nodes_same [OF c(5)]) (use w p(2) in auto)
  have q: "queue_at (put p y st) ch ns" using w n c(4,6,7) p(1) by (simp add: queue_at_def)
  have "channel_holds ch (X(p := y)) ns \<lparr>in_transit = in_transit a, owned_by = owned_by a\<rparr> (put p y st)"
  proof (rule channel_holdsI [OF q c(2,3)])
    fix r u assume "owned_by a r = Some u"
    from own [OF this] p w show "r \<noteq> ch \<and> r \<notin> fst ` set ns \<and>
      (\<exists>m. cell_at (put p y st) r = Some (m, (X(p := y)) r) \<and> owned_cell u m)" by (cases "r = p") auto
  next
    fix r assume "r \<in> set (in_transit a)"
    from tr [OF this] assms(2) w show "owned_by a r = None \<and> r \<noteq> ch \<and> r \<notin> fst ` set ns \<and>
      (\<exists>m. cell_at (put p y st) r = Some (m, (X(p := y)) r) \<and> shared_cell m)" by (cases "r = p") auto
  qed
  then show ?thesis by (cases a) simp
qed

lemma channel_holds_free:
  assumes "channel_holds ch X ns a st" and "owned_by a p = Some t"
  obtains st' where "owner_free t p st = Inr st'" and "rt.more st' = rt.more st"
    and "cell_at st' = (cell_at st)(p := None)"
    and "channel_holds ch X ns (a\<lparr>owned_by := (owned_by a)(p := None)\<rparr>) st'"
proof -
  obtain mc x where c: "rt_wf st" "map snd ns = in_transit a" "distinct (in_transit a)"
    "cell_at st ch = Some (mc, Chan \<lparr>ch_head = x, ch_tail = last_node ns\<rparr>)"
    "nodes (cell_at st) x ns 0" "distinct (map fst ns)" "ch \<notin> fst ` set ns"
    and own0: "\<forall>p t. owned_by a p = Some t \<longrightarrow> p \<noteq> ch \<and> p \<notin> fst ` set ns \<and>
        (\<exists>m. cell_at st p = Some (m, X p) \<and> owned_cell t m)"
    and tr0: "\<forall>p. p \<in> set (in_transit a) \<longrightarrow> owned_by a p = None \<and> p \<noteq> ch \<and> p \<notin> fst ` set ns \<and>
        (\<exists>m. cell_at st p = Some (m, X p) \<and> shared_cell m)"
    by (rule channel_holdsE [OF assms(1)])
  note own = own0 [rule_format] and tr = tr0 [rule_format]
  obtain m where p: "p \<noteq> ch" "p \<notin> fst ` set ns" "cell_at st p = Some (m, X p)" "owned_cell t m"
    using own [OF assms(2)] by blast
  have "free_ok t m" using p(4) by (auto simp: free_ok_def owned_cell_def)
  then obtain st' where w: "owner_free t p st = Inr st'" "rt_wf st'" "rt.more st' = rt.more st"
    "cell_at st' = (cell_at st)(p := None)" by (rule heap.release_obtain [OF c(1) p(3)])
  have n: "nodes (cell_at st') x ns 0" by (rule nodes_same [OF c(5)]) (use w(4) p(2) in auto)
  have q: "queue_at st' ch ns" using w(2,4) n c(4,6,7) p(1) by (simp add: queue_at_def)
  have "channel_holds ch X ns \<lparr>in_transit = in_transit a, owned_by = (owned_by a)(p := None)\<rparr> st'"
  proof (rule channel_holdsI [OF q c(2,3)])
    fix r u assume "((owned_by a)(p := None)) r = Some u"
    then have r: "r \<noteq> p" "owned_by a r = Some u" by (simp_all split: if_splits)
    from own [OF r(2)] r(1) w(4) show "r \<noteq> ch \<and> r \<notin> fst ` set ns \<and>
      (\<exists>m. cell_at st' r = Some (m, X r) \<and> owned_cell u m)" by auto
  next
    fix r assume "r \<in> set (in_transit a)"
    from tr [OF this] assms(2) w(4) show "((owned_by a)(p := None)) r = None \<and> r \<noteq> ch \<and> r \<notin> fst ` set ns \<and>
      (\<exists>m. cell_at st' r = Some (m, X r) \<and> shared_cell m)" by (cases "r = p") auto
  qed
  then have "channel_holds ch X ns (a\<lparr>owned_by := (owned_by a)(p := None)\<rparr>) st'" by (cases a) simp
  then show thesis using that w by blast
qed

text \<open>A send succeeds when there is room for its node.\<close>

lemma room_write_struct: "write_struct p x st = Inr st' \<Longrightarrow> room k D st \<Longrightarrow> room k D st'"
  by (auto simp: write_struct_def split: if_splits)

lemma channel_append_room: "channel_append ch n st = Inr st' \<Longrightarrow> room k D st \<Longrightarrow> room k D st'"
  by (auto simp: channel_append_def bindE_eq_Inr split: if_splits dest!: room_write_struct)

lemma channel_send_room:
  assumes "channel_holds ch X ns a st" and "owned_by a p = Some t" and "room (Suc k) D st" and "96 \<le> D"
  shows "\<exists>st'. ownedc_channel_send t ch p st = Inr st' \<and> room k D st'"
proof -
  obtain mc x where c: "rt_wf st" "cell_at st ch = Some (mc, Chan \<lparr>ch_head = x, ch_tail = last_node ns\<rparr>)"
    and own0: "\<forall>p t. owned_by a p = Some t \<longrightarrow> p \<noteq> ch \<and> p \<notin> fst ` set ns \<and>
        (\<exists>m. cell_at st p = Some (m, X p) \<and> owned_cell t m)"
    by (rule channel_holdsE [OF assms(1)])
  obtain m where p: "cell_at st p = Some (m, X p)" "owned_cell t m" using own0 assms(2) by blast
  have nz: "ch \<noteq> 0" "p \<noteq> 0" using cell_at_nonnull c(2) p(1) by blast+
  have "m_owner_thread m = t" using p(2) by (simp add: owned_cell_def)
  then obtain s1 where s1: "ownership_share t p st = Inr s1" "rt_wf s1"
    by (rule ownership_share_cells [OF c(1) p(1)])
  have r1: "room (Suc k) D s1" using uses_ownership(3) [OF s1(1), of D] assms(3) by (simp add: uses_def)
  have D: "unat (16 :: size_t) + 80 \<le> D" using assms(4) by simp
  obtain n s2 where s2: "owner_malloc t 16 s1 = Inr (n, s2)" "n \<noteq> 0" "room k D s2" "rt_wf s2"
    "cell_at s2 = (cell_at s1)(n \<mapsto> (fresh_meta t 16, Filled 0xAA))"
    by (rule room_object [OF s1(2) r1 D, of t])
  have w2: "rt_wf s2" "cell_at s2 n = Some (fresh_meta t 16, Filled 0xAA)" using s2(4,5) by simp_all
  let ?x = "ChNode \<lparr>cn_data = p, cn_next = 0\<rparr>"
  have e: "ownedc_channel_send t ch p st = channel_append ch n (put n ?x s2)"
    using nz s1(1) s2(1) write_struct_cell(1) [OF w2, of ?x] by (simp add: ownedc_channel_send_def)
  from channel_send_holds [OF assms(1,2)] show ?thesis
  proof
    assume "ownedc_channel_send t ch p st = Inl (Undefined ''write to unmapped memory'') \<and>
      (\<exists>s1 s2. ownership_share t p st = Inr s1 \<and> owner_malloc t 16 s1 = Inr (0, s2))"
    then show ?thesis using s1(1) s2(1,2) by auto
  next
    assume "\<exists>n st'. ownedc_channel_send t ch p st = Inr st' \<and>
       channel_holds ch X (ns @ [(n, p)]) \<lparr>in_transit = in_transit a @ [p], owned_by = (owned_by a)(p := None)\<rparr> st' \<and>
       moves (insert ch (insert p (fst ` set ns))) (insert ch (insert p (insert n (fst ` set ns)))) st st' \<and>
       map_option fst (cell_at st' ch) = map_option fst (cell_at st ch) \<and> size_at st' p = size_at st p"
    then obtain st' where "ownedc_channel_send t ch p st = Inr st'" by blast
    moreover from this have "room k D st'" using channel_append_room [of ch n "put n ?x s2" st' k D] s2(3) e by simp
    ultimately show ?thesis by blast
  qed
qed

lemma channel_recv_room:
  assumes "ownedc_channel_recv t ch st = Inr (p, st')" and "room k D st"
  shows "room k D st'"
proof (cases "ch = 0")
  case True
  then show ?thesis using assms by (simp add: ownedc_channel_recv_def)
next
  case False
  obtain c n s1 s2 s3 where s: "write_struct ch c st = Inr s1" "ownership_claim t n s1 = Inr s2" "owner_free t n s2 = Inr s3"
    "ownership_claim t p s3 = Inr st' \<or> s3 = st'"
    using assms(1) False by (auto simp: ownedc_channel_recv_def bindE_eq_Inr Let_def split: if_splits)
  have claim: "room k D s'" if "ownership_claim t q s = Inr s'" "room k D s" for q and s s' :: "'a rt_scheme"
    using that by (auto simp: ownership_claim_def bindE_eq_Inr split: if_splits option.splits
        intro: room_blocks [OF upd_hdr_blocks])
  have "room k D s3" by (rule free_room [OF s(3) claim [OF s(2) room_write_struct [OF s(1) assms(2)]]])
  with s(4) claim [of p s3 st'] show ?thesis by auto
qed

text \<open>
  \<open>carries\<close>: beside what was there at the start, in \<open>st0\<close>, there are the channel, which \<open>self\<close> may free, the nodes
  \<open>ns\<close>, and the messages, which are integers, in the channel or with one of the threads.
\<close>

definition carries ::
    "tid \<Rightarrow> addr \<Rightarrow> (addr \<Rightarrow> payload) \<Rightarrow> (addr \<times> addr) list \<Rightarrow> handover \<Rightarrow> 'x rt_scheme \<Rightarrow> 'x rt_scheme \<Rightarrow> bool" where
  "carries self ch X ns a st0 st \<longleftrightarrow> channel_holds ch X ns a st \<and>
     moves {} (insert ch (fst ` set ns \<union> set (in_transit a) \<union> dom (owned_by a))) st0 st \<and>
     (\<exists>m. map_option fst (cell_at st ch) = Some m \<and> free_ok self m) \<and>
     (\<forall>p \<in> set (in_transit a) \<union> dom (owned_by a). size_at st p = Some 4)"

lemma carriesD:
  assumes "carries self ch X ns a st0 st"
  shows "channel_holds ch X ns a st"
    and "moves {} (insert ch (fst ` set ns \<union> set (in_transit a) \<union> dom (owned_by a))) st0 st"
    and "\<exists>m. map_option fst (cell_at st ch) = Some m \<and> free_ok self m"
    and "p \<in> set (in_transit a) \<or> owned_by a p = Some t \<Longrightarrow> size_at st p = Some 4"
    and "rt_wf st" and "map snd ns = in_transit a"
    and "owned_by a p = Some t \<Longrightarrow> \<exists>m. cell_at st p = Some (m, X p) \<and> owned_cell t m"
    and "owned_by a p = Some t \<Longrightarrow> p \<notin> set (in_transit a) \<and> p \<noteq> ch"
proof -
  show h: "channel_holds ch X ns a st"
    and "moves {} (insert ch (fst ` set ns \<union> set (in_transit a) \<union> dom (owned_by a))) st0 st"
    and "\<exists>m. map_option fst (cell_at st ch) = Some m \<and> free_ok self m"
    and "p \<in> set (in_transit a) \<or> owned_by a p = Some t \<Longrightarrow> size_at st p = Some 4"
    using assms by (auto simp: carries_def)
  show "rt_wf st" "map snd ns = in_transit a" by (rule channel_holdsE [OF h], assumption)+
  show "\<exists>m. cell_at st p = Some (m, X p) \<and> owned_cell t m" if "owned_by a p = Some t"
    by (rule channel_holdsE [OF h]) (use that in blast)
  show "p \<notin> set (in_transit a) \<and> p \<noteq> ch" if "owned_by a p = Some t"
    by (rule channel_holdsE [OF h]) (use that in force)
qed

lemma moves_size:
  assumes "moves A B st st'" and "size_at st q = Some n" and "q \<notin> A"
  shows "size_at st' q = Some n"
proof -
  from assms(2) obtain c where c: "cell_at st q = Some c" "m_size (fst c) = n" by (auto simp: size_at_def)
  with moves_cell(1) [OF assms(1) c(1) assms(3)] show ?thesis by (simp add: size_at_def)
qed

lemma carries_make:
  assumes "carries self ch X ns a st0 st" and "room (Suc k) D st" and "84 \<le> D"
  shows "\<exists>p s1 st'. owner_malloc t 4 st = Inr (p, s1) \<and> store_int p v s1 = Inr st' \<and> owned_by a p = None \<and>
    p \<notin> set (in_transit a) \<and>
    carries self ch (X(p := int_payload v)) ns (a\<lparr>owned_by := (owned_by a)(p \<mapsto> t)\<rparr>) st0 st' \<and> room k D st'"
proof -
  note c = carriesD [OF assms(1)]
  have D: "unat (4 :: size_t) + 80 \<le> D" using assms(3) by simp
  obtain p s1 where s1: "owner_malloc t 4 st = Inr (p, s1)" "p \<noteq> 0" "room k D s1"
    and w1: "rt_wf s1" "rt.more s1 = rt.more st" "cell_at st p = None"
    "cell_at s1 = (cell_at st)(p \<mapsto> (fresh_meta t 4, Filled 0xAA))"
    by (rule room_object [OF c(5) assms(2) D, of t])
  have p1: "cell_at s1 p = Some (fresh_meta t 4, Filled 0xAA)" using w1(4) by simp
  have v: "store_int p v s1 = Inr (put p (int_payload v) s1)" by (rule store_int_cell [OF w1(1) p1]) simp
  let ?s = "put p (int_payload v) s1" and ?a = "a\<lparr>owned_by := (owned_by a)(p \<mapsto> t)\<rparr>"
  note w = heap.store_result [OF w1(1) p1, of "int_payload v"]
  have cells: "cell_at ?s = (cell_at st)(p \<mapsto> (fresh_meta t 4, int_payload v))" using w w1(4) by simp
  have fresh: "owned_by a p = None" "p \<notin> set (in_transit a)" "p \<noteq> ch"
  proof -
    show "owned_by a p = None" using c(7) [of p] w1(3) by (cases "owned_by a p") auto
    show "p \<notin> set (in_transit a)" using c(4) [of p] w1(3) by (auto simp: size_at_def)
    show "p \<noteq> ch" using c(3) w1(3) by auto
  qed
  have "channel_holds ch (X(p := int_payload v)) ns ?a ?s"
    using channel_holds_put [OF channel_holds_malloc [OF c(1) s1(1,2)], of p t "int_payload v"] by simp
  moreover have "moves {} {p} st ?s" using cells w1(2,3) by (simp add: moves_def fun_eq_iff restrict_map_def put_def)
  from moves_trans [OF c(2) moves_frame [OF this, of "insert ch (fst ` set ns \<union> set (in_transit a) \<union> dom (owned_by a))",
      simplified]]
  have "moves {} (insert ch (fst ` set ns \<union> set (in_transit ?a) \<union> dom (owned_by ?a))) st0 ?s"
    by (simp add: insert_commute)
  moreover have "\<exists>m. map_option fst (cell_at ?s ch) = Some m \<and> free_ok self m" using c(3) cells fresh(3) by simp
  moreover have "\<forall>q \<in> set (in_transit ?a) \<union> dom (owned_by ?a). size_at ?s q = Some 4"
  proof
    fix q assume "q \<in> set (in_transit ?a) \<union> dom (owned_by ?a)"
    then have "q = p \<or> size_at st q = Some 4" using c(4) [of q] by (auto split: if_splits)
    then show "size_at ?s q = Some 4" using cells by (auto simp: size_at_def)
  qed
  ultimately have "carries self ch (X(p := int_payload v)) ns ?a st0 ?s" by (simp only: carries_def)
  then show ?thesis using s1 v fresh by auto
qed

lemma carries_send:
  assumes "carries self ch X ns a st0 st" and "owned_by a p = Some t" and "room (Suc k) D st" and "96 \<le> D"
  shows "\<exists>ms st'. ownedc_channel_send t ch p st = Inr st' \<and>
    carries self ch X ms \<lparr>in_transit = in_transit a @ [p], owned_by = (owned_by a)(p := None)\<rparr> st0 st' \<and> room k D st'"
proof -
  note c = carriesD [OF assms(1)]
  let ?a = "\<lparr>in_transit = in_transit a @ [p], owned_by = (owned_by a)(p := None)\<rparr>"
  obtain st' where r: "ownedc_channel_send t ch p st = Inr st'" "room k D st'"
    using channel_send_room [OF c(1) assms(2-4)] by blast
  with channel_send_holds [OF c(1) assms(2)] obtain n where n:
    "channel_holds ch X (ns @ [(n, p)]) ?a st'"
    "moves (insert ch (insert p (fst ` set ns))) (insert ch (insert p (insert n (fst ` set ns)))) st st'"
    "map_option fst (cell_at st' ch) = map_option fst (cell_at st ch)" "size_at st' p = size_at st p"
    by (elim disjE exE conjE) simp_all
  let ?F = "set (in_transit a) \<union> dom (owned_by a)"
  have p: "p \<in> dom (owned_by a)" using assms(2) by blast
  have A: "insert ch (insert p (fst ` set ns)) \<union> ?F = insert ch (fst ` set ns \<union> set (in_transit a) \<union> dom (owned_by a))"
    using p by blast
  have B: "insert ch (insert p (insert n (fst ` set ns))) \<union> ?F =
      insert ch (fst ` set (ns @ [(n, p)]) \<union> set (in_transit ?a) \<union> dom (owned_by ?a))"
    using p by auto
  have "moves {} (insert ch (fst ` set (ns @ [(n, p)]) \<union> set (in_transit ?a) \<union> dom (owned_by ?a))) st0 st'"
    by (rule moves_trans [OF c(2)], rule moves_frame [OF n(2), of ?F, unfolded A B])
  moreover have "size_at st' q = Some 4" if q: "q \<in> set (in_transit ?a) \<union> dom (owned_by ?a)" for q
  proof (cases "q = p")
    case True
    then show ?thesis using n(4) c(4) [of p t] assms(2) by simp
  next
    case False
    then have "q \<in> ?F" using q by (auto split: if_splits)
    moreover from this have "q \<notin> insert ch (insert p (fst ` set ns))"
      using False by (intro notI) (rule channel_holdsE [OF c(1)], force)
    ultimately show ?thesis using moves_size [OF n(2)] c(4) [of q] by blast
  qed
  ultimately have "carries self ch X (ns @ [(n, p)]) ?a st0 st'" using n(1,3) c(3) by (simp add: carries_def)
  with r show ?thesis by blast
qed

lemma carries_recv:
  assumes "carries self ch X ns a st0 st" and "in_transit a = p # qs" and "room k D st"
  shows "\<exists>ms st'. ownedc_channel_recv t ch st = Inr (p, st') \<and>
    carries self ch X ms \<lparr>in_transit = qs, owned_by = (owned_by a)(p \<mapsto> t)\<rparr> st0 st' \<and> room k D st'"
proof -
  note c = carriesD [OF assms(1)]
  let ?a = "\<lparr>in_transit = qs, owned_by = (owned_by a)(p \<mapsto> t)\<rparr>"
  obtain n ms st' where n: "ns = (n, p) # ms" "ownedc_channel_recv t ch st = Inr (p, st')"
    "channel_holds ch X ms ?a st'" "moves (insert ch (insert p (fst ` set ns))) (insert ch (insert p (fst ` set ms))) st st'"
    "map_option fst (cell_at st' ch) = map_option fst (cell_at st ch)" "size_at st' p = size_at st p"
    using channel_recv_holds [OF c(1) assms(2), of t] by blast
  let ?F = "set qs \<union> dom (owned_by a)"
  have A: "insert ch (insert p (fst ` set ns)) \<union> ?F = insert ch (fst ` set ns \<union> set (in_transit a) \<union> dom (owned_by a))"
    using assms(2) by auto
  have B: "insert ch (insert p (fst ` set ms)) \<union> ?F =
      insert ch (fst ` set ms \<union> set (in_transit ?a) \<union> dom (owned_by ?a))"
    by auto
  have "moves {} (insert ch (fst ` set ms \<union> set (in_transit ?a) \<union> dom (owned_by ?a))) st0 st'"
    by (rule moves_trans [OF c(2)], rule moves_frame [OF n(4), of ?F, unfolded A B])
  moreover have "size_at st' q = Some 4" if q: "q \<in> set (in_transit ?a) \<union> dom (owned_by ?a)" for q
  proof (cases "q = p")
    case True
    then show ?thesis using n(6) c(4) [of p] assms(2) by simp
  next
    case False
    then have f: "q \<in> set (in_transit a) \<union> dom (owned_by a)" using q assms(2) by (auto split: if_splits)
    moreover from this have "q \<notin> insert ch (insert p (fst ` set ns))"
      using False by (intro notI) (rule channel_holdsE [OF c(1)], force)
    ultimately show ?thesis using moves_size [OF n(4)] c(4) [of q] by blast
  qed
  ultimately have "carries self ch X ms ?a st0 st'" using n(3,5) c(3) by (simp add: carries_def)
  then show ?thesis using n(2) channel_recv_room [OF n(2) assms(3)] by blast
qed

lemma carries_free:
  assumes "carries self ch X ns a st0 st" and "owned_by a p = Some t" and "room k D st"
  shows "\<exists>st'. owner_free t p st = Inr st' \<and>
    carries self ch X ns (a\<lparr>owned_by := (owned_by a)(p := None)\<rparr>) st0 st' \<and> room k D st'"
proof -
  note c = carriesD [OF assms(1)]
  let ?a = "a\<lparr>owned_by := (owned_by a)(p := None)\<rparr>"
  obtain st' where s: "owner_free t p st = Inr st'" "rt.more st' = rt.more st" "cell_at st' = (cell_at st)(p := None)"
    "channel_holds ch X ns ?a st'"
    by (rule channel_holds_free [OF c(1) assms(2)])
  have p: "p \<in> dom (owned_by a)" "p \<noteq> ch" "p \<notin> set (in_transit a)" "p \<notin> fst ` set ns"
    using c(8) [OF assms(2)] assms(2) by (blast, blast, blast) (rule channel_holdsE [OF c(1)], use assms(2) in blast)
  let ?B = "insert ch (fst ` set ns \<union> set (in_transit ?a) \<union> dom (owned_by ?a))"
  have B: "insert ch (fst ` set ns \<union> set (in_transit a) \<union> dom (owned_by a)) = {p} \<union> ?B" using p(1) by auto
  have "moves {p} {} st st'" using s(2,3) by (auto simp: moves_def restrict_map_def fun_eq_iff)
  from moves_frame [OF this, of ?B]
  have "moves (insert ch (fst ` set ns \<union> set (in_transit a) \<union> dom (owned_by a))) ?B st st'"
    unfolding B by simp
  with c(2) have "moves {} ?B st0 st'" by (rule moves_trans)
  moreover have "size_at st' q = Some 4" if q: "q \<in> set (in_transit ?a) \<union> dom (owned_by ?a)" for q
  proof -
    have "q \<noteq> p" "q \<in> set (in_transit a) \<union> dom (owned_by a)" using q p(3) by (auto split: if_splits)
    then show ?thesis using c(4) [of q] s(3) by (auto simp: size_at_def)
  qed
  ultimately have "carries self ch X ns ?a st0 st'" using s(3,4) c(3) p(2) by (simp add: carries_def)
  then show ?thesis using s(1) free_room [OF s(1) assms(3)] by blast
qed

lemma carries_close:
  assumes "carries self ch X ns \<lparr>in_transit = [], owned_by = Map.empty\<rparr> st0 st"
  shows "\<exists>st'. ownedc_channel_free self ch st = Inr st' \<and> rt_wf st' \<and> moves {} {} st0 st'"
proof -
  note c = carriesD [OF assms]
  have ns: "ns = []" using c(6) by simp
  obtain mc x where x: "cell_at st ch = Some (mc, Chan \<lparr>ch_head = x, ch_tail = last_node ns\<rparr>)" "nodes (cell_at st) x ns 0"
    by (rule channel_holdsE [OF c(1)])
  have x0: "x = 0" using x(2) ns by simp
  have "free_ok self mc" using c(3) x(1) by simp
  then obtain st' where s: "owner_free self ch st = Inr st'" "rt_wf st'" "rt.more st' = rt.more st"
    "cell_at st' = (cell_at st)(ch := None)" by (rule heap.release_obtain [OF c(5) x(1)])
  have "ownedc_channel_free self ch st = Inr st'"
    using field_cell [OF c(5) x(1), of chan_of] cell_at_nonnull [OF x(1)] s(1) x0
    by (simp add: ownedc_channel_free_def free_nodes.simps returned_def)
  note run = this
  have "moves {ch} {} st st'" using s(3,4) by (auto simp: moves_def restrict_map_def fun_eq_iff)
  moreover have "moves {} {ch} st0 st" using c(2) ns by simp
  ultimately have "moves {} {} st0 st'" using moves_trans by blast
  with run show ?thesis using s(2) by blast
qed

lemma carries_create:
  assumes "rt_wf st" and "room (Suc k) D st" and "184 \<le> D"
  shows "\<exists>ch st'. ownedc_channel_create self st = Inr (ch, st') \<and>
    carries self ch X [] \<lparr>in_transit = [], owned_by = Map.empty\<rparr> st st' \<and> room k D st'"
proof -
  have D: "unat (104 :: size_t) + 80 \<le> D" using assms(3) by simp
  obtain ch s where s: "owner_malloc self 104 st = Inr (ch, s)" "ch \<noteq> 0" "room k D s"
    and w: "rt_wf s" "rt.more s = rt.more st" "cell_at st ch = None"
    "cell_at s = (cell_at st)(ch \<mapsto> (fresh_meta self 104, Filled 0xAA))"
    by (rule room_object [OF assms(1,2) D, of self])
  let ?c = "Chan \<lparr>ch_head = 0, ch_tail = 0\<rparr>"
  have c: "cell_at s ch = Some (fresh_meta self 104, Filled 0xAA)" using w(4) by simp
  note p = write_struct_cell [OF w(1) c, of ?c]
  have cells: "cell_at (put ch ?c s) = (cell_at st)(ch \<mapsto> (fresh_meta self 104, ?c))" using p(3) w(4) by simp
  have "queue_at (put ch ?c s) ch []" using p(2) cells by (simp add: queue_at_def last_node_def)
  then have "channel_holds ch X [] \<lparr>in_transit = [], owned_by = Map.empty\<rparr> (put ch ?c s)"
    by (rule channel_holdsI) simp_all
  moreover have "moves {} {ch} st (put ch ?c s)"
    using cells w(2,3) by (simp add: moves_def restrict_map_def fun_eq_iff put_def)
  ultimately have "carries self ch X [] \<lparr>in_transit = [], owned_by = Map.empty\<rparr> st (put ch ?c s)"
    using cells by (simp add: carries_def)
  moreover have "ownedc_channel_create self st = Inr (ch, put ch ?c s)"
    using s(1,2) p(1) by (simp add: ownedc_channel_create_def)
  ultimately show ?thesis using s(3) by auto
qed

subsection \<open>The two threads\<close>

fun held_by :: "tid \<Rightarrow> producer \<Rightarrow> (addr \<times> tid) list" where
  "held_by t (PSend i p) = [(p, t)]"
| "held_by t _ = []"

fun used_by :: "tid \<Rightarrow> consumer \<Rightarrow> (addr \<times> tid) list" where
  "used_by t (CFree p v) = [(p, t)]"
| "used_by t _ = []"

fun made :: "producer \<Rightarrow> nat" where
  "made (PMake i) = i"
| "made (PSend i p) = i"
| "made PDone = 6"

text \<open>The blocks the producer still needs, and the steps that are left.\<close>

fun needs :: "producer \<Rightarrow> nat" where
  "needs (PMake i) = 12 - 2 * i"
| "needs (PSend i p) = 11 - 2 * i"
| "needs PDone = 0"

fun steps_left :: "consumer \<Rightarrow> int list \<Rightarrow> nat" where
  "steps_left CRecv printed = 13 - 2 * length printed"
| "steps_left (CFree p v) printed = 14 - 2 * length printed"
| "steps_left CJoin printed = 1"
| "steps_left CDone printed = 0"

fun pipeline_left :: "'x pipeline \<Rightarrow> nat" where
  "pipeline_left (pr, cons, printed, st) = needs pr + steps_left cons printed"

fun producer_ok :: "(addr \<Rightarrow> payload) \<Rightarrow> producer \<Rightarrow> bool" where
  "producer_ok X (PMake i) = (i < 6)"
| "producer_ok X (PSend i p) = (i < 6 \<and> X p = int_payload (messages ! i))"
| "producer_ok X PDone = True"

fun consumer_ok :: "consumer \<Rightarrow> int list \<Rightarrow> bool" where
  "consumer_ok CRecv printed = (length printed < 6)"
| "consumer_ok (CFree p v) printed = (printed \<noteq> [] \<and> v = last printed)"
| "consumer_ok CJoin printed = (length printed = 6)"
| "consumer_ok CDone printed = False"

definition pipeline_open ::
    "tid \<Rightarrow> tid \<Rightarrow> addr \<Rightarrow> (addr \<Rightarrow> payload) \<Rightarrow> (addr \<times> addr) list \<Rightarrow> addr list \<Rightarrow> int list \<Rightarrow>
     'x rt_scheme \<Rightarrow> 'x pipeline \<Rightarrow> bool" where
  "pipeline_open t self ch X ns qs vals st0 = (\<lambda>(pr, cons, printed, st).
     carries self ch X ns \<lparr>in_transit = qs, owned_by = map_of (held_by t pr @ used_by self cons)\<rparr> st0 st \<and>
     distinct (map fst (held_by t pr @ used_by self cons)) \<and>
     list_all2 (\<lambda>p v. X p = int_payload v) qs vals \<and> printed @ vals = take (made pr) messages \<and>
     producer_ok X pr \<and> consumer_ok cons printed \<and> room (needs pr) 184 st)"

definition pipeline_inv :: "tid \<Rightarrow> tid \<Rightarrow> addr \<Rightarrow> 'x rt_scheme \<Rightarrow> 'x pipeline \<Rightarrow> bool" where
  "pipeline_inv t self ch st0 s \<longleftrightarrow> (\<exists>X ns qs vals. pipeline_open t self ch X ns qs vals st0 s) \<or>
     (\<exists>st. s = (PDone, CDone, messages, st) \<and> rt_wf st \<and> moves {} {} st0 st)"

lemma length_messages [simp]: "length messages = 6"
  by (simp add: messages_def)

lemma take_messages:
  assumes "printed @ vals = take n messages"
  shows "printed = take (length printed) messages" and "length printed + length vals = min 6 n"
    and "v \<in> set vals \<Longrightarrow> - (2 ^ 31) \<le> v \<and> v < 2 ^ 31"
proof -
  have "printed = take (length printed) (take n messages)" using assms by (metis append_eq_conv_conj)
  moreover have l: "length printed + length vals = min 6 n" using arg_cong [OF assms, of length] by simp
  ultimately show "printed = take (length printed) messages" by simp
  show "length printed + length vals = min 6 n" by (rule l)
  show "- (2 ^ 31) \<le> v \<and> v < 2 ^ 31" if "v \<in> set vals"
  proof -
    have "v \<in> set messages" using that assms by (metis Un_iff set_append in_set_takeD)
    then show ?thesis by (auto simp: messages_def)
  qed
qed

lemma last_message:
  assumes "printed = take (length printed) messages" and "printed \<noteq> []"
  shows "last printed = -1 \<longleftrightarrow> length printed = 6" and "length printed \<le> 6"
proof -
  have l: "length printed \<le> 6" using arg_cong [OF assms(1), of length] by simp
  moreover have "length printed \<noteq> 0" using assms(2) by simp
  ultimately have "length printed \<in> {1, 2, 3, 4, 5, 6}" by (simp only: insert_iff empty_iff) linarith
  moreover have "last (take n messages) = -1 \<longleftrightarrow> n = 6" if "n \<in> {1, 2, 3, 4, 5, 6}" for n
    using that by (auto simp: messages_def)
  ultimately show "last printed = -1 \<longleftrightarrow> length printed = 6" using assms(1) by metis
  show "length printed \<le> 6" by (rule l)
qed

lemma producer_turn:
  assumes "pipeline_open t self ch X ns qs vals st0 s"
  shows "turn t self ch True s = Inl Blocked \<and> fst s = PDone \<or>
    (\<exists>s'. turn t self ch True s = Inr s' \<and> pipeline_inv t self ch st0 s' \<and> pipeline_left s' < pipeline_left s)"
proof -
  obtain pr cons printed st where s: "s = (pr, cons, printed, st)" by (cases s)
  let ?U = "used_by self cons"
  have o: "carries self ch X ns \<lparr>in_transit = qs, owned_by = map_of (held_by t pr @ ?U)\<rparr> st0 st"
    "distinct (map fst (held_by t pr @ ?U))" "list_all2 (\<lambda>p v. X p = int_payload v) qs vals"
    "printed @ vals = take (made pr) messages" "producer_ok X pr" "consumer_ok cons printed" "room (needs pr) 184 st"
    using assms by (simp_all add: pipeline_open_def s)
  show ?thesis
  proof (cases pr)
    case (PMake i)
    have i: "i < 6" "needs pr = Suc (11 - 2 * i)" using o(5) PMake by simp_all
    have c: "carries self ch X ns \<lparr>in_transit = qs, owned_by = map_of ?U\<rparr> st0 st" using o(1) PMake by simp
    from o(7) i(2) have "room (Suc (11 - 2 * i)) 184 st" by simp
    from carries_make [OF c this, of t "messages ! i"] obtain p s1 st' where p: "owner_malloc t 4 st = Inr (p, s1)"
      "store_int p (messages ! i) s1 = Inr st'" "map_of ?U p = None" "p \<notin> set qs"
      "carries self ch (X(p := int_payload (messages ! i))) ns \<lparr>in_transit = qs, owned_by = (map_of ?U)(p \<mapsto> t)\<rparr> st0 st'"
      "room (11 - 2 * i) 184 st'" by auto
    let ?s = "(PSend i p, cons, printed, st')"
    have "list_all2 (\<lambda>q v. (X(p := int_payload (messages ! i))) q = int_payload v) qs vals"
      using o(3) p(4) by (auto simp: list_all2_conv_all_nth)
    then have "pipeline_open t self ch (X(p := int_payload (messages ! i))) ns qs vals st0 ?s"
      using o(2,4,6) p i PMake by (simp add: pipeline_open_def map_of_eq_None_iff)
    moreover have "turn t self ch True s = Inr ?s" using p(1,2) s PMake by simp
    moreover have "pipeline_left ?s < pipeline_left s" using s PMake i by simp
    ultimately show ?thesis unfolding pipeline_inv_def by blast
  next
    case (PSend i p)
    have i: "i < 6" "needs pr = Suc (10 - 2 * i)" "X p = int_payload (messages ! i)" using o(5) PSend by auto
    have np: "map_of ?U p = None" using o(2) PSend by (simp add: map_of_eq_None_iff)
    have c: "carries self ch X ns \<lparr>in_transit = qs, owned_by = (map_of ?U)(p \<mapsto> t)\<rparr> st0 st" using o(1) PSend by simp
    from o(7) i(2) have "room (Suc (10 - 2 * i)) 184 st" by simp
    from carries_send [OF c _ this, of p t] obtain ms st' where p: "ownedc_channel_send t ch p st = Inr st'"
      "carries self ch X ms \<lparr>in_transit = qs @ [p], owned_by = (map_of ?U)(p := None)\<rparr> st0 st'" "room (10 - 2 * i) 184 st'"
      by auto
    have e: "(map_of ?U)(p := None) = map_of ?U" using np by auto
    let ?pr = "if i < 5 then PMake (i + 1) else PDone"
    let ?s = "(?pr, cons, printed, st')"
    have pr: "held_by t ?pr = []" "made ?pr = Suc i" "needs ?pr = 10 - 2 * i" "producer_ok X ?pr" using i(1) by auto
    have "printed @ vals @ [messages ! i] = take (Suc i) messages"
      using o(4) PSend i(1) by (simp add: take_Suc_conv_app_nth)
    moreover have "list_all2 (\<lambda>q v. X q = int_payload v) (qs @ [p]) (vals @ [messages ! i])"
      using o(3) i(3) by (simp add: list_all2_appendI)
    ultimately have "pipeline_open t self ch X ms (qs @ [p]) (vals @ [messages ! i]) st0 ?s"
      using o(2,6) p(2,3) e pr PSend by (simp only: pipeline_open_def prod.case append_Nil) simp
    moreover have "turn t self ch True s = Inr ?s" using p(1) s PSend by simp
    moreover have "pipeline_left ?s < pipeline_left s" using s i pr(3) by simp
    ultimately show ?thesis unfolding pipeline_inv_def by blast
  next
    case PDone
    then show ?thesis using s by simp
  qed
qed

lemma consumer_turn:
  assumes "pipeline_open t self ch X ns qs vals st0 s"
  shows "turn t self ch False s = Inl Blocked \<and> fst s \<noteq> PDone \<or>
    (\<exists>s'. turn t self ch False s = Inr s' \<and> pipeline_inv t self ch st0 s' \<and> pipeline_left s' < pipeline_left s)"
proof -
  obtain pr cons printed st where s: "s = (pr, cons, printed, st)" by (cases s)
  let ?H = "held_by t pr"
  have o: "carries self ch X ns \<lparr>in_transit = qs, owned_by = map_of (?H @ used_by self cons)\<rparr> st0 st"
    "distinct (map fst (?H @ used_by self cons))" "list_all2 (\<lambda>p v. X p = int_payload v) qs vals"
    "printed @ vals = take (made pr) messages" "producer_ok X pr" "consumer_ok cons printed" "room (needs pr) 184 st"
    using assms by (simp_all add: pipeline_open_def s)
  note m = take_messages [OF o(4)]
  show ?thesis
  proof (cases cons)
    case CRecv
    show ?thesis
    proof (cases qs)
      case Nil
      then have "vals = []" using o(3) by simp
      then have "pr \<noteq> PDone" using m(2) o(6) CRecv by auto
      moreover have "channel_rep ch X \<lparr>in_transit = qs, owned_by = map_of (?H @ used_by self cons)\<rparr> st"
        using carriesD(1) [OF o(1)] unfolding channel_rep_def by blast
      from channel_recv_empty [OF this, of self] Nil have "ownedc_channel_recv self ch st = Inl Blocked" by simp
      then have "turn t self ch False s = Inl Blocked" using s CRecv by simp
      ultimately show ?thesis using s by simp
    next
      case (Cons p qs')
      then obtain v vals' where v: "vals = v # vals'" "X p = int_payload v" "list_all2 (\<lambda>p v. X p = int_payload v) qs' vals'"
        using o(3) by (cases vals) auto
      have np: "map_of ?H p = None"
        using carriesD(8) [OF o(1), of p] CRecv Cons by (cases "map_of ?H p") auto
      have c0: "carries self ch X ns \<lparr>in_transit = p # qs', owned_by = map_of ?H\<rparr> st0 st" using o(1) CRecv Cons by simp
      from carries_recv [OF c0 _ o(7), of p qs' self] obtain ms st' where r: "ownedc_channel_recv self ch st = Inr (p, st')"
        "carries self ch X ms \<lparr>in_transit = qs', owned_by = (map_of ?H)(p \<mapsto> self)\<rparr> st0 st'" "room (needs pr) 184 st'"
        by auto
      note c' = carriesD [OF r(2), simplified]
      have e: "(map_of ?H)(p \<mapsto> self) = map_of (?H @ used_by self (CFree p v))"
        using np by (cases pr) (auto simp: fun_eq_iff split: if_splits)
      obtain k where k: "cell_at st' p = Some (k, int_payload v)" using c'(7) [of p self] v(2) by auto
      have "m_size k = 4" using c'(4) [of p self] k by (simp add: size_at_def)
      then have l: "load_int st' p = Inr v" using m(3) [of v] v(1) by (intro load_int_cell [OF c'(5) k]) simp_all
      let ?s = "(pr, CFree p v, printed @ [v], st')"
      have "distinct (map fst (?H @ used_by self (CFree p v)))" using o(2) CRecv np by (cases pr) auto
      then have "pipeline_open t self ch X ms qs' vals' st0 ?s"
        using o(4,5) v r(2,3) by (simp only: pipeline_open_def prod.case e) simp
      moreover have "turn t self ch False s = Inr ?s" using r(1) l s CRecv by simp
      moreover have "pipeline_left ?s < pipeline_left s" using s CRecv o(6) by simp
      ultimately show ?thesis unfolding pipeline_inv_def by blast
    qed
  next
    case (CFree p v)
    have np: "map_of ?H p = None" using o(2) CFree by (cases pr) auto
    have own: "map_of (?H @ used_by self cons) p = Some self" using np CFree by (simp add: map_add_def)
    from carries_free [OF o(1) _ o(7), of p self] own obtain st' where r: "owner_free self p st = Inr st'"
      "carries self ch X ns \<lparr>in_transit = qs, owned_by = (map_of (?H @ used_by self cons))(p := None)\<rparr> st0 st'"
      "room (needs pr) 184 st'" by auto
    have e: "(map_of (?H @ used_by self cons))(p := None) = map_of ?H" using CFree np by (cases pr) (auto simp: fun_eq_iff)
    let ?c = "if v = -1 then CJoin else CRecv"
    let ?s = "(pr, ?c, printed, st')"
    have last: "v = -1 \<longleftrightarrow> length printed = 6" "length printed \<le> 6"
      using last_message [OF m(1)] o(6) CFree by auto
    have c: "used_by self ?c = []" "consumer_ok ?c printed" "steps_left ?c printed < steps_left cons printed"
      using last CFree by auto
    have "pipeline_open t self ch X ns qs vals st0 ?s"
      using o(2-5) r(2,3) e c by (simp only: pipeline_open_def prod.case append_Nil2) simp
    moreover have "turn t self ch False s = Inr ?s" using r(1) s CFree by simp
    moreover have "pipeline_left ?s < pipeline_left s" using s c(3) by simp
    ultimately show ?thesis unfolding pipeline_inv_def by blast
  next
    case CJoin
    show ?thesis
    proof (cases "pr = PDone")
      case True
      have "length printed + length vals \<le> 6" unfolding m(2) by simp
      then have "vals = []" using o(6) CJoin by simp
      then have q: "qs = []" "printed = messages" using o(3,4) True by auto
      have "carries self ch X ns \<lparr>in_transit = [], owned_by = Map.empty\<rparr> st0 st" using o(1) q(1) True CJoin by simp
      from carries_close [OF this] obtain st' where r: "ownedc_channel_free self ch st = Inr st'" "rt_wf st'" "moves {} {} st0 st'"
        by blast
      let ?s = "(PDone, CDone, messages, st')"
      have "pipeline_inv t self ch st0 ?s" using r(2,3) by (simp add: pipeline_inv_def)
      moreover have "turn t self ch False s = Inr ?s" using r(1) s CJoin True q(2) by simp
      moreover have "pipeline_left ?s < pipeline_left s" using s CJoin by simp
      ultimately show ?thesis by blast
    next
      case False
      then show ?thesis using s CJoin by simp
    qed
  next
    case CDone
    then show ?thesis using o(6) by simp
  qed
qed

subsection \<open>Every schedule\<close>

lemma open_left: "pipeline_open t self ch X ns qs vals st0 s \<Longrightarrow> 0 < pipeline_left s"
proof -
  assume a: "pipeline_open t self ch X ns qs vals st0 s"
  obtain pr cons printed st where s: "s = (pr, cons, printed, st)" by (cases s)
  have o: "printed @ vals = take (made pr) messages" "consumer_ok cons printed"
    using a by (simp_all add: pipeline_open_def s)
  have "length printed \<le> 6" using take_messages(2) [OF o(1)] by simp
  then show ?thesis using o(2) s by (cases cons) auto
qed

lemma turn_kept:
  assumes "pipeline_inv t self ch st0 s"
  shows "\<exists>s'. unless_blocked s (turn t self ch b s) = Inr s' \<and> pipeline_inv t self ch st0 s' \<and>
    (if turn t self ch b s = Inl Blocked then s' = s else pipeline_left s' < pipeline_left s)"
proof (cases "\<exists>X ns qs vals. pipeline_open t self ch X ns qs vals st0 s")
  case True
  then obtain X ns qs vals where o: "pipeline_open t self ch X ns qs vals st0 s" by blast
  have "turn t self ch b s = Inl Blocked \<or> (\<exists>s'. turn t self ch b s = Inr s' \<and> pipeline_inv t self ch st0 s' \<and>
      pipeline_left s' < pipeline_left s)"
    using producer_turn [OF o] consumer_turn [OF o] by (cases b; simp; blast)
  then show ?thesis
  proof
    assume "turn t self ch b s = Inl Blocked"
    then show ?thesis using assms by (simp add: unless_blocked_def)
  next
    assume "\<exists>s'. turn t self ch b s = Inr s' \<and> pipeline_inv t self ch st0 s' \<and> pipeline_left s' < pipeline_left s"
    then show ?thesis by (elim exE) (simp add: unless_blocked_def)
  qed
next
  case False
  then obtain st where "s = (PDone, CDone, messages, st)" using assms by (auto simp: pipeline_inv_def)
  then show ?thesis using assms by (cases b) (auto simp: unless_blocked_def)
qed

lemma turns_kept:
  assumes "pipeline_inv t self ch st0 s"
  shows "\<exists>s'. turns t self ch bs s = Inr s' \<and> pipeline_inv t self ch st0 s' \<and> pipeline_left s' \<le> pipeline_left s \<and>
    (b \<in> set bs \<longrightarrow> turn t self ch b s \<noteq> Inl Blocked \<longrightarrow> pipeline_left s' < pipeline_left s)"
  using assms
proof (induction bs arbitrary: s)
  case Nil
  then show ?case by (simp add: turns_def)
next
  case (Cons c bs)
  obtain s1 where s1: "unless_blocked s (turn t self ch c s) = Inr s1" "pipeline_inv t self ch st0 s1"
    "if turn t self ch c s = Inl Blocked then s1 = s else pipeline_left s1 < pipeline_left s"
    using turn_kept [OF Cons.prems] by blast
  obtain s' where s': "turns t self ch bs s1 = Inr s'" "pipeline_inv t self ch st0 s'" "pipeline_left s' \<le> pipeline_left s1"
    "b \<in> set bs \<longrightarrow> turn t self ch b s1 \<noteq> Inl Blocked \<longrightarrow> pipeline_left s' < pipeline_left s1"
    using Cons.IH [OF s1(2)] by blast
  have "turns t self ch (c # bs) s = Inr s'" using s1(1) s'(1) by (simp add: turns_def)
  then show ?case using s1(3) s'(2-4) by (auto split: if_splits)
qed

text \<open>A round in which both threads get a turn brings the program nearer to its end.\<close>

lemma round_left:
  assumes "pipeline_inv t self ch st0 s" and "True \<in> set bs" and "False \<in> set bs"
  shows "\<exists>s'. turns t self ch bs s = Inr s' \<and> pipeline_inv t self ch st0 s' \<and> pipeline_left s' \<le> pipeline_left s - 1"
proof (cases "\<exists>b. turn t self ch b s \<noteq> Inl Blocked")
  case True
  then obtain b where b: "turn t self ch b s \<noteq> Inl Blocked" by blast
  have "b \<in> set bs" using assms(2,3) by (cases b) auto
  with turns_kept [OF assms(1), of bs b] b obtain s' where "turns t self ch bs s = Inr s'"
    "pipeline_inv t self ch st0 s'" "pipeline_left s' < pipeline_left s" by blast
  then show ?thesis by (intro exI [of _ s']) auto
next
  case False
  have "\<not> pipeline_open t self ch X ns qs vals st0 s" for X ns qs vals
    using False producer_turn [of t self ch X ns qs vals st0 s] consumer_turn [of t self ch X ns qs vals st0 s] by auto
  then obtain st where s: "s = (PDone, CDone, messages, st)" using assms(1) by (auto simp: pipeline_inv_def)
  obtain s' where "turns t self ch bs s = Inr s'" "pipeline_inv t self ch st0 s'" "pipeline_left s' \<le> pipeline_left s"
    using turns_kept [OF assms(1)] by blast
  then show ?thesis using s by auto
qed

lemma rounds_left:
  assumes "pipeline_inv t self ch st0 s" and "\<forall>r \<in> set rs. True \<in> set r \<and> False \<in> set r"
  shows "\<exists>s'. turns t self ch (concat rs) s = Inr s' \<and> pipeline_inv t self ch st0 s' \<and>
    pipeline_left s' \<le> pipeline_left s - length rs"
  using assms
proof (induction rs arbitrary: s)
  case Nil
  then show ?case by (simp add: turns_def)
next
  case (Cons r rs)
  then have r: "True \<in> set r" "False \<in> set r" by simp_all
  obtain s1 where s1: "turns t self ch r s = Inr s1" "pipeline_inv t self ch st0 s1" "pipeline_left s1 \<le> pipeline_left s - 1"
    using round_left [OF Cons.prems(1) r] by blast
  obtain s' where s': "turns t self ch (concat rs) s1 = Inr s'" "pipeline_inv t self ch st0 s'"
    "pipeline_left s' \<le> pipeline_left s1 - length rs"
    using Cons.IH [OF s1(2)] Cons.prems(2) by auto
  have "turns t self ch (concat (r # rs)) s = Inr s'" using s1(1) s'(1) by (simp add: turns_def foldE_append)
  then show ?case using s'(2,3) s1(3) by auto
qed

lemma pipeline_start:
  assumes "rt_wf st" and "room 13 184 st"
  shows "\<exists>ch s1. ownedc_channel_create self st = Inr (ch, s1) \<and> pipeline_inv t self ch st (PMake 0, CRecv, [], s1)"
proof -
  have r: "room (Suc 12) 184 st" using assms(2) by simp
  obtain ch s1 where c: "ownedc_channel_create self st = Inr (ch, s1)"
    "carries self ch (\<lambda>_. Filled 0) [] \<lparr>in_transit = [], owned_by = Map.empty\<rparr> st s1" "room 12 184 s1"
    using carries_create [OF assms(1) r, of self "\<lambda>_. Filled 0"] by auto
  then have "pipeline_open t self ch (\<lambda>_. Filled 0) [] [] [] st (PMake 0, CRecv, [], s1)"
    by (simp add: pipeline_open_def)
  then show ?thesis using c(1) unfolding pipeline_inv_def by blast
qed

text \<open>C31: the channel program, in every schedule of its two threads: with enough memory it never fails, what it has
  printed is at any time the beginning of the messages, in order, once it has ended it has printed all of them and left
  nothing in the heap, and it has ended after 25 rounds in which both threads had a turn, so that it never deadlocks.\<close>

theorem demo_channel_sound:
  assumes "rt_wf st" and "room 13 184 st"
  shows "\<exists>pr cons printed st'. demo_channel t self sched st = Inr (pr, cons, printed, st') \<and>
    printed = take (length printed) messages \<and>
    (cons = CDone \<longrightarrow> printed = messages \<and> rt_wf st' \<and> cell_at st' = cell_at st) \<and>
    (\<forall>rs. sched = concat rs \<longrightarrow> 25 \<le> length rs \<longrightarrow> (\<forall>r \<in> set rs. True \<in> set r \<and> False \<in> set r) \<longrightarrow> cons = CDone)"
proof -
  obtain ch s1 where c: "ownedc_channel_create self st = Inr (ch, s1)"
    and i: "pipeline_inv t self ch st (PMake 0, CRecv, [], s1)"
    using pipeline_start [OF assms] by blast
  obtain s' where s': "turns t self ch sched (PMake 0, CRecv, [], s1) = Inr s'" "pipeline_inv t self ch st s'"
    using turns_kept [OF i] by blast
  obtain pr cons printed st' where e: "s' = (pr, cons, printed, st')" by (cases s')
  have run: "demo_channel t self sched st = Inr (pr, cons, printed, st')" using c s'(1) e by (simp add: demo_channel_def)
  have "printed = take (length printed) messages \<and> (cons = CDone \<longrightarrow> printed = messages \<and> rt_wf st' \<and> cell_at st' = cell_at st)"
    using s'(2) e take_messages(1) by (auto simp: pipeline_inv_def pipeline_open_def moves_same)
  moreover have "cons = CDone"
    if rs: "sched = concat rs" "25 \<le> length rs" "\<forall>r \<in> set rs. True \<in> set r \<and> False \<in> set r" for rs
  proof -
    have "pipeline_left s' = 0" using rounds_left [OF i rs(3)] rs(1,2) s'(1) by auto
    then have "\<not> pipeline_open t self ch X ns qs vals st s'" for X ns qs vals using open_left by fastforce
    then show ?thesis using s'(2) e by (auto simp: pipeline_inv_def)
  qed
  ultimately show ?thesis using run by blast
qed

definition pipeline_state :: rt where
  "pipeline_state = rt_init (map (\<lambda>i. of_nat (0x1000 * Suc i)) [0..<16]) 1 2 3"

lemma pipeline_state_room: "rt_wf pipeline_state" "room 13 184 pipeline_state"
proof -
  show "rt_wf pipeline_state" unfolding pipeline_state_def by (rule rt_wf_init)
  show "room 13 184 pipeline_state"
    by (rule room_spaced [where g = "0x1000" and n = 16]) (simp_all add: pipeline_state_def rt_init_def)
qed

theorem demo_channel_sound_witness:
  "\<exists>pr st'. demo_channel 2 1 (concat (replicate 25 [True, False, False])) pipeline_state =
    Inr (pr, CDone, [0, 10, 20, 30, 40, -1], st') \<and> cell_at st' = cell_at pipeline_state"
proof -
  let ?rs = "replicate 25 [True, False, False]"
  have "\<forall>r \<in> set ?rs. True \<in> set r \<and> False \<in> set r" "25 \<le> length ?rs" by simp_all
  with demo_channel_sound [OF pipeline_state_room, of 2 1 "concat ?rs"] show ?thesis
    by (auto simp: messages_def)
qed

end
