(* ===== verification/Kernel.thy ===== *)
theory Kernel
  imports Scalars
begin

text \<open>
  The program \<open>examples/demo_kernel.c\<close>: a static buffer of 64 KB as the heap of a kernel, with an allocator that only
  counts upwards, given to the runtime with \<open>ownedc_set_allocators\<close>.
\<close>

subsection \<open>The allocator\<close>

definition KERNEL_HEAP_SIZE :: size_t where
  "KERNEL_HEAP_SIZE = 1024 * 64"

text \<open>\<open>kernel_heap\<close> is the address of the buffer, \<open>heap_offset\<close> the bytes that are taken.\<close>

definition kernel_malloc :: "addr \<Rightarrow> size_t \<Rightarrow> size_t \<Rightarrow> addr \<times> size_t" where
  "kernel_malloc kernel_heap sz heap_offset =
     (if heap_offset + sz > KERNEL_HEAP_SIZE then (0, heap_offset)
      else (kernel_heap + heap_offset, heap_offset + sz))"

definition kernel_free :: "addr \<Rightarrow> size_t \<Rightarrow> size_t" where
  "kernel_free ptr heap_offset = heap_offset"

definition kernel_realloc :: "addr \<Rightarrow> addr \<Rightarrow> size_t \<Rightarrow> size_t \<Rightarrow> addr \<times> size_t" where
  "kernel_realloc kernel_heap ptr sz heap_offset =
     (if ptr = 0 then kernel_malloc kernel_heap sz heap_offset
      else if sz = 0 then (0, kernel_free ptr heap_offset)
      else kernel_malloc kernel_heap sz heap_offset)"

text \<open>A run of requests, with the pointers it got; a release gets none.\<close>

datatype kernel_request = KMalloc size_t | KFree addr | KRealloc addr size_t

fun kernel_call :: "addr \<Rightarrow> kernel_request \<Rightarrow> size_t \<Rightarrow> (addr \<times> size_t) \<times> size_t" where
  "kernel_call base (KMalloc n) off = (let (p, off) = kernel_malloc base n off in ((p, n), off))"
| "kernel_call base (KFree p) off = ((0, 0), kernel_free p off)"
| "kernel_call base (KRealloc p n) off = (let (q, off) = kernel_realloc base p n off in ((q, n), off))"

fun kernel_calls :: "addr \<Rightarrow> kernel_request list \<Rightarrow> size_t \<Rightarrow> (addr \<times> size_t) list \<times> size_t" where
  "kernel_calls base [] off = ([], off)"
| "kernel_calls base (c # cs) off =
     (let (g, off) = kernel_call base c off; (gs, off) = kernel_calls base cs off in (g # gs, off))"

fun request_size :: "kernel_request \<Rightarrow> nat" where
  "request_size (KMalloc n) = unat n"
| "request_size (KFree p) = 0"
| "request_size (KRealloc p n) = unat n"

subsection \<open>What it hands out\<close>

lemma unat_heap_size [simp]: "unat KERNEL_HEAP_SIZE = 65536"
  by (simp add: KERNEL_HEAP_SIZE_def)

text \<open>The requests whose sum with the offset does not wrap.\<close>

definition kernel_fits :: "nat \<Rightarrow> bool" where
  "kernel_fits n \<longleftrightarrow> n + 65536 < 2 ^ 64"

lemma kernel_malloc_cases:
  assumes "unat off \<le> 65536" and "kernel_fits (unat n)" and "unat base + 65536 < 2 ^ 64"
  shows "kernel_malloc base n off =
    (if 65536 < unat off + unat n then (0, off) else (base + off, off + n))"
    and "unat off + unat n \<le> 65536 \<Longrightarrow> unat (off + n) = unat off + unat n"
    and "unat (base + off) = unat base + unat off"
proof -
  have s: "unat (off + n) = unat off + unat n"
    using assms(1,2) by (intro unat_add_no_overflow) (simp add: kernel_fits_def)
  show "unat off + unat n \<le> 65536 \<Longrightarrow> unat (off + n) = unat off + unat n" by (rule s)
  show "kernel_malloc base n off =
    (if 65536 < unat off + unat n then (0, off) else (base + off, off + n))"
    using s by (simp add: kernel_malloc_def word_less_nat_alt)
  show "unat (base + off) = unat base + unat off"
    using assms(1,3) by (intro unat_add_no_overflow) simp
qed

text \<open>One call: what it hands out lies between the old and the new offset.\<close>

lemma kernel_call_grant:
  assumes "unat off \<le> 65536" and "kernel_fits (request_size c)" and "unat base + 65536 < 2 ^ 64"
    and "kernel_call base c off = ((p, n), off')"
  shows "unat off \<le> unat off' \<and> unat off' \<le> 65536 \<and>
    (p \<noteq> 0 \<longrightarrow> unat p = unat base + unat off \<and> unat off' = unat off + unat n)"
proof (cases c)
  case (KMalloc k)
  then show ?thesis using assms kernel_malloc_cases [of off k base] by (auto split: if_splits)
next
  case (KFree q)
  then show ?thesis using assms by (simp add: kernel_free_def)
next
  case (KRealloc q k)
  then show ?thesis
    using assms kernel_malloc_cases [of off k base] by (auto simp: kernel_realloc_def kernel_free_def split: if_splits)
qed

lemma kernel_calls_grants:
  assumes "unat off \<le> 65536" and "\<forall>c \<in> set cs. kernel_fits (request_size c)" and "unat base + 65536 < 2 ^ 64"
    and "kernel_calls base cs off = (gs, off')"
  shows "unat off \<le> unat off' \<and> unat off' \<le> 65536 \<and>
    (\<forall>(p, n) \<in> set gs. p \<noteq> 0 \<longrightarrow> span p n \<subseteq> {unat base + unat off ..< unat base + unat off'}) \<and>
    sorted_wrt (\<lambda>(p, n) (q, k). p \<noteq> 0 \<longrightarrow> q \<noteq> 0 \<longrightarrow> span p n \<inter> span q k = {}) gs"
  using assms
proof (induction cs arbitrary: off gs)
  case Nil
  then show ?case by simp
next
  case (Cons c cs)
  obtain p n off1 where c: "kernel_call base c off = ((p, n), off1)" by (metis prod.exhaust)
  obtain hs where h: "kernel_calls base cs off1 = (hs, off')" "gs = (p, n) # hs"
    using Cons.prems(4) c by (auto split: prod.splits)
  have g: "unat off \<le> unat off1" "unat off1 \<le> 65536"
    "p \<noteq> 0 \<Longrightarrow> unat p = unat base + unat off \<and> unat off1 = unat off + unat n"
    using kernel_call_grant [OF Cons.prems(1) _ Cons.prems(3) c] Cons.prems(2) by auto
  have ih: "unat off1 \<le> unat off'" "unat off' \<le> 65536"
    "\<forall>(p, n) \<in> set hs. p \<noteq> 0 \<longrightarrow> span p n \<subseteq> {unat base + unat off1 ..< unat base + unat off'}"
    "sorted_wrt (\<lambda>(p, n) (q, k). p \<noteq> 0 \<longrightarrow> q \<noteq> 0 \<longrightarrow> span p n \<inter> span q k = {}) hs"
    using Cons.IH [OF g(2) _ Cons.prems(3) h(1)] Cons.prems(2) by auto
  have here: "span p n = {unat base + unat off ..< unat base + unat off1}" if "p \<noteq> 0"
    using g(3) [OF that] by (simp add: span_def add.assoc)
  have "span p n \<inter> span q k = {}" if "p \<noteq> 0" "q \<noteq> 0" "(q, k) \<in> set hs" for q k
    using ih(3) that here [OF that(1)] by fastforce
  then have "sorted_wrt (\<lambda>(p, n) (q, k). p \<noteq> 0 \<longrightarrow> q \<noteq> 0 \<longrightarrow> span p n \<inter> span q k = {}) gs"
    using ih(4) h(2) by auto
  moreover have "\<forall>(q, k) \<in> set gs. q \<noteq> 0 \<longrightarrow> span q k \<subseteq> {unat base + unat off ..< unat base + unat off'}"
  proof (intro ballI, clarify)
    fix q k x assume q: "(q, k) \<in> set gs" "q \<noteq> 0" "x \<in> span q k"
    show "x \<in> {unat base + unat off ..< unat base + unat off'}"
    proof (cases "(q, k) = (p, n)")
      case True
      then show ?thesis using q here ih(1) by auto
    next
      case False
      then have "(q, k) \<in> set hs" using q(1) h(2) by auto
      then have "span q k \<subseteq> {unat base + unat off1 ..< unat base + unat off'}" using ih(3) q(2) by blast
      then show ?thesis using q(3) g(1) by (auto dest: subsetD)
    qed
  qed
  ultimately show ?case using g(1) ih(1,2) by auto
qed

text \<open>C32: the kernel's allocator: whatever is requested, resized and released, in any order, the blocks it hands out lie
  in its buffer and do not overlap, provided that no request is within 64 KB of 2^64.\<close>

theorem kernel_heap_sound:
  assumes "\<forall>c \<in> set cs. kernel_fits (request_size c)" and "unat kernel_heap + 65536 < 2 ^ 64"
    and "kernel_calls kernel_heap cs 0 = (gs, heap_offset)"
  shows "(\<forall>(p, n) \<in> set gs. p \<noteq> 0 \<longrightarrow> span p n \<subseteq> {unat kernel_heap ..< unat kernel_heap + 65536}) \<and>
    sorted_wrt (\<lambda>(p, n) (q, k). p \<noteq> 0 \<longrightarrow> q \<noteq> 0 \<longrightarrow> span p n \<inter> span q k = {}) gs"
proof -
  have o: "unat (0 :: size_t) \<le> 65536" by simp
  note g = kernel_calls_grants [OF o assms]
  have "span p n \<subseteq> {unat kernel_heap ..< unat kernel_heap + 65536}" if "(p, n) \<in> set gs" "p \<noteq> 0" for p n
  proof -
    have "span p n \<subseteq> {unat kernel_heap + unat (0 :: size_t) ..< unat kernel_heap + unat heap_offset}" using g that by blast
    then show ?thesis using g by auto
  qed
  with g show ?thesis by blast
qed

text \<open>A request near 2^64 is granted, takes the offset back, and the next block is one that was handed out before.\<close>

lemma kernel_heap_wraps:
  "kernel_calls 0x10000 [KMalloc 64, KMalloc (- 64), KMalloc 64] 0 =
    ([(0x10000, 64), (0x10040, - 64), (0x10000, 64)], 64)"
  by (simp add: kernel_malloc_def KERNEL_HEAP_SIZE_def)

text \<open>Sizes are not rounded: after an odd one the next block, and the header in it, is not aligned.\<close>

lemma kernel_heap_misaligned:
  "kernel_calls 0x10000 [KMalloc 84, KMalloc 84] 0 = ([(0x10000, 84), (0x10054, 84)], 168)"
  by (simp add: kernel_malloc_def KERNEL_HEAP_SIZE_def)

theorem kernel_heap_sound_witness:
  "fst (kernel_calls 0x10000 [KMalloc 100, KRealloc 0x10000 200, KFree 0x10000, KMalloc 65536, KMalloc 50] 0) =
      [(0x10000, 100), (0x10064, 200), (0, 0), (0, 65536), (0x1012C, 50)] \<and>
   span 0x10064 200 \<inter> span 0x1012C 50 = {}"
proof -
  let ?cs = "[KMalloc 100, KRealloc 0x10000 200, KFree 0x10000, KMalloc 65536, KMalloc 50]"
  let ?gs = "[(0x10000, 100), (0x10064, 200), (0, 0), (0, 65536), (0x1012C, 50)] :: (addr \<times> size_t) list"
  have r: "kernel_calls 0x10000 ?cs 0 = (?gs, 350)"
    by (simp add: kernel_malloc_def kernel_realloc_def kernel_free_def KERNEL_HEAP_SIZE_def)
  have "\<forall>c \<in> set ?cs. kernel_fits (request_size c)" "unat (0x10000 :: addr) + 65536 < 2 ^ 64"
    by (simp_all add: kernel_fits_def)
  from kernel_heap_sound [OF this r] r show ?thesis by simp
qed

subsection \<open>The runtime on top of it\<close>

text \<open>\<open>owner_malloc\<close> when \<open>global_malloc\<close> is \<open>kernel_malloc\<close>: its one request is answered by the kernel's allocator.\<close>

definition kernel_owner_malloc ::
    "tid \<Rightarrow> addr \<Rightarrow> size_t \<Rightarrow> size_t \<times> 'x rt_scheme \<Rightarrow> failure + (addr \<times> size_t \<times> 'x rt_scheme)" where
  "kernel_owner_malloc self kernel_heap n = (\<lambda>(heap_offset, st).
     let (a, heap_offset) = kernel_malloc kernel_heap (sizeof_meta + n) heap_offset
     in bindE (owner_malloc self n (st\<lparr>replies := [a]\<rparr>)) (\<lambda>(p, st). Inr (p, heap_offset, st)))"

fun kernel_owner_mallocs ::
    "tid \<Rightarrow> addr \<Rightarrow> size_t list \<Rightarrow> size_t \<times> 'x rt_scheme \<Rightarrow> failure + (addr list \<times> size_t \<times> 'x rt_scheme)" where
  "kernel_owner_mallocs self base [] s = Inr ([], s)"
| "kernel_owner_mallocs self base (n # ns) s =
     bindE (kernel_owner_malloc self base n s) (\<lambda>(p, s).
     bindE (kernel_owner_mallocs self base ns s) (\<lambda>(ps, s). Inr (p # ps, s)))"

text \<open>The program: the addresses of the three functions are given to the runtime, and the object is released at the end of
  its scope.\<close>

definition kernel_main ::
    "tid \<Rightarrow> addr \<Rightarrow> addr \<times> addr \<times> addr \<Rightarrow> size_t \<times> 'x rt_scheme \<Rightarrow> failure + (size_t \<times> 'x rt_scheme)" where
  "kernel_main self kernel_heap fs s =
     (let (m, f, r) = fs; (heap_offset, st) = s;
          st = ownedc_set_allocators m f r st
      in bindE (kernel_owner_malloc self kernel_heap 4 (heap_offset, st)) (\<lambda>(x, heap_offset, st).
         bindE (store_int x 42 st) (\<lambda>st.
         bindE (owner_free_cleanup self x st) (\<lambda>st. Inr (heap_offset, st)))))"

text \<open>The blocks of the runtime lie in the part of the buffer that is taken.\<close>

definition kernel_rep :: "addr \<Rightarrow> size_t \<Rightarrow> 'x rt_scheme \<Rightarrow> bool" where
  "kernel_rep base off st \<longleftrightarrow> rt_wf st \<and> base \<noteq> 0 \<and> unat base + 65536 < 2 ^ 64 \<and> unat base mod 16 = 0 \<and>
     unat off \<le> 65536 \<and> unat off mod 16 = 0 \<and>
     (\<forall>(a, n) \<in> set (chunks st). 0 < n \<and> unat a + n \<le> unat base + unat off)"

lemma rt_wf_settings [simp]:
  "rt_wf (st\<lparr>replies := rs\<rparr>) = rt_wf st" "rt_wf (ownedc_set_allocators m f r st) = rt_wf st"
  "cell_at (st\<lparr>replies := rs\<rparr>) = cell_at st" "cell_at (ownedc_set_allocators m f r st) = cell_at st"
  "chunks (ownedc_set_allocators m f r st) = chunks st"
  by (simp_all add: rt_wf_def rt_inv_def rt_rep_def ring_of_def cell_at_def live_def obj_at_def get_meta_def
      ownedc_set_allocators_def fun_eq_iff)

lemma malloc_answer:
  assumes "rt_wf st" and "replies st = [a]" and "chunk_ok (chunks st) a (80 + unat n)" and "80 + unat n < 2 ^ 64"
  shows "\<exists>st'. owner_malloc self n st = Inr (user_ptr a, st') \<and> user_ptr a \<noteq> 0 \<and>
    chunks st' = (a, 80 + unat n) # chunks st"
proof -
  have u: "unat (sizeof_meta + n) = 80 + unat n"
    using assms(4) by (subst unat_add_no_overflow) (simp_all add: sizeof_meta_def)
  have a: "a \<noteq> 0" using assms(3) by (simp add: chunk_ok_def)
  let ?s1 = "st\<lparr>atexit_registered := True, replies := [], chunks := (a, 80 + unat n) # chunks st\<rparr>"
  have m: "sys_malloc (sizeof_meta + n) (st\<lparr>atexit_registered := True\<rparr>) = (a, ?s1)"
    using assms(2,3) u by (simp add: sys_malloc_def)
  obtain p st' where ret: "owner_malloc self n st = Inr (p, st')"
    using owner_malloc_returns [OF assms(1)] assms(4) by (metis add.commute)
  then obtain s2 where s2: "insert_meta a (?s1\<lparr>hdr := (hdr ?s1)(a \<mapsto> new_meta self n None 0)\<rparr>) = Inr s2"
    "p = user_ptr a" "st' = put (user_ptr a) (Filled 0xAA) s2"
    using m a u by (auto simp: owner_malloc_def owner_malloc_internal_alt bindE_eq_Inr sizeof_meta_def)
  have "chunks s2 = (a, 80 + unat n) # chunks st" using insert_meta_blocks [OF s2(1)] by (simp add: same_blocks_def)
  then show ?thesis using ret s2(2,3) user_ptr_nonnull [OF assms(3)] by simp
qed

lemma malloc_refused:
  assumes "replies st = [0]"
  shows "owner_malloc self n st = Inr (0, st\<lparr>atexit_registered := True, replies := []\<rparr>)"
  using assms by (simp add: owner_malloc_def owner_malloc_internal_alt sys_malloc_def chunk_ok_def)

text \<open>One allocation of an object of \<open>n\<close> bytes, with its header; some sizes keep the buffer aligned.\<close>

lemma kernel_owner_malloc_rep:
  assumes "kernel_rep base off st" and "kernel_fits (80 + unat n)"
  shows "\<exists>p off' st'. kernel_owner_malloc self base n (off, st) = Inr (p, off', st') \<and>
    ((80 + unat n) mod 16 = 0 \<longrightarrow> kernel_rep base off' st') \<and> rt_wf st' \<and> rt.more st' = rt.more st \<and>
    (if unat off + (80 + unat n) \<le> 65536
     then unat p = unat base + unat off + 80 \<and> unat off' = unat off + (80 + unat n) \<and> cell_at st p = None \<and>
       cell_at st' = (cell_at st)(p \<mapsto> (fresh_meta self n, Filled 0xAA))
     else p = 0 \<and> off' = off \<and> cell_at st' = cell_at st)"
proof -
  have k: "rt_wf st" "base \<noteq> 0" "unat base + 65536 < 2 ^ 64" "unat base mod 16 = 0" "unat off \<le> 65536" "unat off mod 16 = 0"
    and ch: "\<And>b m. (b, m) \<in> set (chunks st) \<Longrightarrow> 0 < m \<and> unat b + m \<le> unat base + unat off"
    using assms(1) by (auto simp: kernel_rep_def)
  have b: "80 + unat n < 2 ^ 64" using assms(2) by (simp add: kernel_fits_def)
  have u: "unat (sizeof_meta + n) = 80 + unat n"
    using b by (subst unat_add_no_overflow) (simp_all add: sizeof_meta_def)
  have f: "kernel_fits (unat (sizeof_meta + n))" using assms(2) u by simp
  note m = kernel_malloc_cases [OF k(5) f k(3), unfolded u]
  show ?thesis
  proof (cases "unat off + (80 + unat n) \<le> 65536")
    case True
    let ?a = "base + off" and ?st = "st\<lparr>replies := [base + off]\<rparr>"
    have a: "unat ?a = unat base + unat off" by (rule m(3))
    have nz: "?a \<noteq> 0"
    proof
      assume "?a = 0"
      then have "unat base = 0" using a by simp
      then show False using k(2) by (simp add: unat_eq_zero)
    qed
    have "chunk_ok (chunks ?st) ?a (80 + unat n)"
      using nz a k(3,4,6) True ch by (fastforce simp: chunk_ok_def apart_def list_all_iff mod_add_eq [symmetric])
    from malloc_answer [of ?st, OF _ _ this b, of self] k(1) obtain st' where s: "owner_malloc self n ?st = Inr (user_ptr ?a, st')"
      "user_ptr ?a \<noteq> 0" "chunks st' = (?a, 80 + unat n) # chunks st" by auto
    have wf: "rt_wf ?st" using k(1) by simp
    have h: "rt_wf st'" "rt.more st' = rt.more st" "cell_at st (user_ptr ?a) = None"
      "cell_at st' = (cell_at st)(user_ptr ?a \<mapsto> (fresh_meta self n, Filled 0xAA))"
      using heap.alloc_result [OF wf s(1)] s(2) by simp_all
    have o: "unat (off + (sizeof_meta + n)) = unat off + (80 + unat n)" by (rule m(2) [OF True])
    have p: "unat (user_ptr ?a) = unat base + unat off + 80"
      using a k(3) True unat_add_no_overflow [of ?a sizeof_meta] by (simp add: user_ptr_def sizeof_meta_def)
    have "kernel_owner_malloc self base n (off, st) = Inr (user_ptr ?a, off + (sizeof_meta + n), st')"
      using m(1) True s(1) by (simp add: kernel_owner_malloc_def)
    moreover have "kernel_rep base (off + (sizeof_meta + n)) st'" if z: "(80 + unat n) mod 16 = 0"
    proof -
      have "(unat off + (80 + unat n)) mod 16 = 0" using k(6) z by (metis add_0 mod_add_left_eq)
      then show ?thesis using h(1) k(2-4) o True s(3) a ch by (fastforce simp: kernel_rep_def)
    qed
    ultimately show ?thesis using True h o p by auto
  next
    case False
    let ?st = "st\<lparr>replies := [0]\<rparr>"
    have s: "owner_malloc self n ?st = Inr (0, ?st\<lparr>atexit_registered := True, replies := []\<rparr>)" (is "_ = Inr (0, ?s)")
      by (rule malloc_refused) simp
    have wf: "rt_wf ?st" using k(1) by simp
    have h: "rt_wf ?s" "rt.more ?s = rt.more st" "cell_at ?s = cell_at st"
      using heap.alloc_result [OF wf s] by simp_all
    have "kernel_owner_malloc self base n (off, st) = Inr (0, off, ?s)"
      using m(1) False s by (simp add: kernel_owner_malloc_def)
    moreover have "kernel_rep base off ?s" using k h(1) ch by (auto simp: kernel_rep_def)
    ultimately show ?thesis using False h by auto
  qed
qed

text \<open>Where the objects go: one after the other, as long as there is space.\<close>

fun bump_places :: "nat \<Rightarrow> nat list \<Rightarrow> nat option list" where
  "bump_places off [] = []"
| "bump_places off (n # ns) =
     (if off + (80 + n) \<le> 65536 then Some (off + 80) # bump_places (off + (80 + n)) ns
      else None # bump_places off ns)"


lemma kernel_rep_init:
  assumes "base \<noteq> 0" and "unat base + 65536 < 2 ^ 64" and "unat base mod 16 = 0"
  shows "kernel_rep base 0 (rt_init rs m f r)"
  using assms rt_wf_init [of rs m f r] by (simp add: kernel_rep_def rt_init_def)


text \<open>\<open>kernel_main\<close>: with 84 bytes left in the buffer the program writes its object, releases it at the end of the
  scope and leaves the live objects as they were, its bytes taken for good; with less it writes through a null pointer.\<close>

theorem kernel_main_outcome:
  assumes "kernel_rep kernel_heap heap_offset st"
  shows "if unat heap_offset + 84 \<le> 65536
    then \<exists>off' st'. kernel_main self kernel_heap fs (heap_offset, st) = Inr (off', st') \<and>
      unat off' = unat heap_offset + 84 \<and> rt_wf st' \<and> cell_at st' = cell_at st
    else kernel_main self kernel_heap fs (heap_offset, st) = Inl (Undefined ''write to unmapped memory'')"
proof -
  obtain m f r where fs: "fs = (m, f, r)" by (cases fs)
  let ?st = "ownedc_set_allocators m f r st"
  have k: "kernel_rep kernel_heap heap_offset ?st" using assms by (simp add: kernel_rep_def)
  have n: "kernel_fits (80 + unat (4 :: size_t))" by (simp add: kernel_fits_def)
  have four: "80 + unat (4 :: size_t) = 84" by simp
  obtain x off1 s1 where s1: "kernel_owner_malloc self kernel_heap 4 (heap_offset, ?st) = Inr (x, off1, s1)" "rt_wf s1"
    "if unat heap_offset + 84 \<le> 65536
     then unat x = unat kernel_heap + unat heap_offset + 80 \<and> unat off1 = unat heap_offset + 84 \<and>
       cell_at st x = None \<and> cell_at s1 = (cell_at st)(x \<mapsto> (fresh_meta self 4, Filled 0xAA))
     else x = 0 \<and> off1 = heap_offset \<and> cell_at s1 = cell_at st"
    using kernel_owner_malloc_rep [OF k n, of self, unfolded four rt_wf_settings] by blast
  show ?thesis
  proof (cases "unat heap_offset + 84 \<le> 65536")
    case True
    then have c: "cell_at s1 = (cell_at st)(x \<mapsto> (fresh_meta self 4, Filled 0xAA))" "cell_at st x = None"
      "unat off1 = unat heap_offset + 84" "x \<noteq> 0"
      using s1(3) by auto
    have x: "cell_at s1 x = Some (fresh_meta self 4, Filled 0xAA)" using c(1) by simp
    have v: "store_int x 42 s1 = Inr (put x (int_payload 42) s1)" by (rule store_int_cell [OF s1(2) x]) simp
    note p = heap.store_result [OF s1(2) x, of "int_payload 42"]
    have y: "cell_at (put x (int_payload 42) s1) x = Some (fresh_meta self 4, int_payload 42)" using p by simp
    have ok: "free_ok self (fresh_meta self 4)" by simp
    obtain st' where fr: "owner_free self x (put x (int_payload 42) s1) = Inr st'" "rt_wf st'"
      "cell_at st' = (cell_at (put x (int_payload 42) s1))(x := None)"
      by (rule heap.release_obtain [OF conjunct1 [OF p] y ok])
    have "cell_at st' = cell_at st" using fr(3) p c(1,2) by (auto simp: fun_eq_iff)
    with True fr s1(1) v c(3,4) fs show ?thesis by (simp add: kernel_main_def owner_free_cleanup_def)
  next
    case False
    then show ?thesis using s1(1,3) fs by (simp add: kernel_main_def store_int_def)
  qed
qed

theorem kernel_main_outcome_witness:
  "\<exists>off' st'. kernel_main 1 0x10000 (4, 5, 6) (0, rt_init [] 1 2 3 :: rt) = Inr (off', st') \<and> unat off' = 84"
proof -
  have k: "kernel_rep 0x10000 0 (rt_init [] 1 2 3 :: rt)" by (rule kernel_rep_init) simp_all
  from kernel_main_outcome [OF k, of 1 "(4, 5, 6)"] show ?thesis by auto
qed

end
