(* ===== verification/Demos.thy ===== *)
theory Demos
  imports Resources Scalars Support
begin

text \<open>
  Programs under \<open>examples/\<close> that show one part of the library each, as compositions of its operations:
  \<open>demo_mutex.c\<close>, \<open>demo_result.c\<close>, \<open>demo_socket.c\<close>, \<open>demo_file.c\<close>, \<open>demo_raii.c\<close> and \<open>demo_threads.c\<close>.  What a
  program prints is a list of values; variables with a cleanup handler are cleaned up on every path out of their scope.
\<close>

subsection \<open>Locks: \<open>demo_mutex.c\<close>\<close>

text \<open>The state is \<open>shared_counter\<close> and the rest; \<open>shared_mutex\<close> is the address of the mutex.\<close>

definition process_critical_section ::
    "tid \<Rightarrow> addr \<Rightarrow> bool \<Rightarrow> int \<times> 'x os_rt_scheme \<Rightarrow> failure + (int \<times> 'x os_rt_scheme)" where
  "process_critical_section self shared_mutex simulate_error = (\<lambda>(shared_counter, st).
     bindE (safe_mutex_new self shared_mutex st) (\<lambda>(sm, st).
     bindE (safe_mutex_lock self sm st) (\<lambda>(lock, st).
       if simulate_error
       then bindE (cleanup_safe_mutex_unlock self lock st) (\<lambda>st. Inr (shared_counter, st))
       else if shared_counter = INT_MAX then Inl (Undefined ''signed overflow'')
       else bindE (cleanup_safe_mutex_unlock self lock st) (\<lambda>st. Inr (shared_counter + 1, st)))))"

definition demo_mutex :: "tid \<Rightarrow> addr \<Rightarrow> int \<times> 'x os_rt_scheme \<Rightarrow> failure + (int \<times> 'x os_rt_scheme)" where
  "demo_mutex self shared_mutex s =
     bindE (process_critical_section self shared_mutex False s) (\<lambda>s.
     bindE (process_critical_section self shared_mutex True s) (\<lambda>s.
     process_critical_section self shared_mutex False s))"

text \<open>One task, whether there is memory for the wrapper or not.\<close>

lemma critical_section_rep:
  fixes st :: "'x os_rt_scheme"
  assumes "rt_wf st" and "lock_owner st raw = None" and "c < INT_MAX"
  shows "\<exists>st'. process_critical_section self raw e (c, st) = Inr (if e then c else c + 1, st') \<and> rt_wf st' \<and>
    lock_owner st' = lock_owner st \<and> cell_at st' = cell_at st"
proof (cases "raw = 0")
  case True
  then show ?thesis using assms
    by (simp add: process_critical_section_def safe_mutex_new_def safe_mutex_lock_def cleanup_safe_mutex_unlock_def)
next
  case False
  have n: "unat (16 :: size_t) + 80 < 2 ^ 64" by simp
  from assms(1) n show ?thesis
  proof (cases rule: heap.alloc_cases [where self = self])
    case (null s)
    have "lock_owner s = lock_owner st" by (rule os_more_eq [OF null(3)])
    then show ?thesis using null assms(3) False
      by (simp add: process_critical_section_def safe_mutex_new_def safe_mutex_lock_def cleanup_safe_mutex_unlock_def)
  next
    case (object w s)
    let ?u = "Mutex \<lparr>mx_raw = raw, mx_is_locked = False\<rparr>" and ?l = "Mutex \<lparr>mx_raw = raw, mx_is_locked = True\<rparr>"
    have c: "cell_at s w = Some (fresh_meta self 16, Filled 0xAA)" using object(6) by simp
    obtain s1 where s1: "write_struct w ?u s = Inr s1" "rt_wf s1" "rt.more s1 = rt.more s"
      "cell_at s1 = (cell_at s)(w \<mapsto> (fresh_meta self 16, ?u))" by (rule write_struct_more [OF object(3) c])
    have o1: "lock_owner s1 = lock_owner st" using os_more_eq(3) [OF s1(3)] os_more_eq(3) [OF object(4)] by simp
    have c1: "cell_at s1 w = Some (fresh_meta self 16, ?u)" using s1(4) by simp
    have f1: "field mutex_of s1 w = Inr \<lparr>mx_raw = raw, mx_is_locked = False\<rparr>" by (rule field_cell [OF s1(2) c1]) simp
    let ?s = "s1\<lparr>lock_owner := (lock_owner s1)(raw \<mapsto> self)\<rparr>"
    have "rt_wf ?s" "cell_at ?s w = Some (fresh_meta self 16, ?u)" using s1(2) c1 by simp_all
    then obtain s2 where s2: "write_struct w ?l ?s = Inr s2" "rt_wf s2" "rt.more s2 = rt.more ?s"
      "cell_at s2 = (cell_at ?s)(w \<mapsto> (fresh_meta self 16, ?l))" by (rule write_struct_more)
    have o2: "lock_owner s2 = (lock_owner st)(raw \<mapsto> self)" using os_more_eq(3) [OF s2(3)] o1 by simp
    have c2: "cell_at s2 w = Some (fresh_meta self 16, ?l)" using s2(4) by simp
    have f2: "field mutex_of s2 w = Inr \<lparr>mx_raw = raw, mx_is_locked = True\<rparr>" by (rule field_cell [OF s2(2) c2]) simp
    let ?t = "s2\<lparr>lock_owner := (lock_owner s2)(raw := None)\<rparr>"
    have "rt_wf ?t" "cell_at ?t w = Some (fresh_meta self 16, ?l)" using s2(2) c2 by simp_all
    then obtain s3 where s3: "bindE (write_struct w ?u ?t) (owner_free self w) = Inr s3" "rt_wf s3"
      "rt.more s3 = rt.more ?t" "cell_at s3 = (cell_at ?t)(w := None)"
      by (rule write_and_free [OF _ _ fresh_meta_simps(1)])
    have "lock_owner s3 = lock_owner st" using os_more_eq(3) [OF s3(3)] o2 assms(2) by auto
    moreover have "cell_at s3 = cell_at st" using s3(4) s2(4) s1(4) object(5,6) by (auto simp: fun_eq_iff)
    moreover have "safe_mutex_free self w = (owner_free self w :: 'x os_rt_scheme \<Rightarrow> _)"
      using object(2) by (simp add: fun_eq_iff safe_mutex_free_def)
    then have "cleanup_safe_mutex_unlock self w s2 = Inr s3"
      using object(2) f2 o2 s3(1)
      by (simp add: cleanup_safe_mutex_unlock_def safe_mutex_unlock_def pthread_mutex_unlock_def)
    moreover have "safe_mutex_lock self w s1 = Inr (w, s2)"
      using object(2) f1 o1 assms(2) s2(1) by (simp add: safe_mutex_lock_def pthread_mutex_lock_def)
    moreover have "safe_mutex_new self raw st = Inr (w, s1)"
      using False object(1,2) s1(1) by (simp add: safe_mutex_new_def)
    ultimately show ?thesis using s3(2) assms(3) by (simp add: process_critical_section_def)
  qed
qed

text \<open>C39: critical sections with an early return: any sequence of tasks, some of which fail and return early, ends with
  the mutex free, the wrappers gone and the counter increased by the number of the tasks that did not fail, whatever
  the allocator does.\<close>

theorem critical_sections_balanced:
  assumes "rt_wf st" and "lock_owner st shared_mutex = None" and "c + int (length es) \<le> INT_MAX"
  shows "\<exists>st'. foldE (process_critical_section self shared_mutex) es (c, st) =
      Inr (c + int (length (filter Not es)), st') \<and> rt_wf st' \<and> lock_owner st' = lock_owner st \<and> cell_at st' = cell_at st"
  using assms
proof (induction es arbitrary: c st)
  case Nil
  then show ?case by simp
next
  case (Cons e es)
  have "c < INT_MAX" using Cons.prems(3) by simp
  from critical_section_rep [OF Cons.prems(1,2) this, of self e] obtain s1 where s1:
    "process_critical_section self shared_mutex e (c, st) = Inr (if e then c else c + 1, s1)" "rt_wf s1"
    "lock_owner s1 = lock_owner st" "cell_at s1 = cell_at st" by blast
  have l: "lock_owner s1 shared_mutex = None" using s1(3) Cons.prems(2) by simp
  have b: "(if e then c else c + 1) + int (length es) \<le> INT_MAX" using Cons.prems(3) by simp
  from Cons.IH [OF s1(2) l b] obtain st' where
    "foldE (process_critical_section self shared_mutex) es (if e then c else c + 1, s1) =
      Inr ((if e then c else c + 1) + int (length (filter Not es)), st')" "rt_wf st'" "lock_owner st' = lock_owner s1"
    "cell_at st' = cell_at s1" by blast
  with s1 show ?case by auto
qed

lemma demo_mutex_foldE: "demo_mutex self m s = foldE (process_critical_section self m) [False, True, False] s"
proof -
  have "bindE r (foldE f []) = r" for r :: "failure + int \<times> 'a os_rt_scheme" and f :: "bool \<Rightarrow> _"
    by (cases r) simp_all
  then show ?thesis by (auto simp: demo_mutex_def intro!: bindE_cong)
qed

theorem critical_sections_balanced_witness:
  "\<exists>st' :: os_rt. demo_mutex 1 0x77 (0, os_start) = Inr (2, st') \<and> lock_owner st' 0x77 = None"
proof -
  have l: "lock_owner os_start 0x77 = None" by (simp add: os_start_def rt.extend_def os_rt.fields_def)
  have b: "0 + int (length [False, True, False]) \<le> INT_MAX" by (simp add: INT_MAX_def)
  from critical_sections_balanced [OF os_start_wf l b, of 1] l show ?thesis
    unfolding demo_mutex_foldE by auto
qed

subsection \<open>Results: \<open>demo_result.c\<close>\<close>

text \<open>\<open>None\<close> is the null pointer.\<close>

definition parse_integer ::
    "tid \<Rightarrow> string option \<Rightarrow> 'x rt_scheme \<Rightarrow> failure + (owned_result \<times> 'x rt_scheme)" where
  "parse_integer self input st =
     (case input of
        None \<Rightarrow> Inr (Err 1, st)
      | Some [] \<Rightarrow> Inr (Err 1, st)
      | Some (c # cs) \<Rightarrow>
          if c = CHR ''X'' then Inr (Err 2, st)
          else bindE (owner_malloc self 4 st) (\<lambda>(val, st).
               bindE (store_int val 42 st) (\<lambda>st. Inr (Ok val, st))))"

definition process_data ::
    "tid \<Rightarrow> string option \<Rightarrow> 'x rt_scheme \<Rightarrow> failure + (owned_result \<times> int list \<times> 'x rt_scheme)" where
  "process_data self input st =
     bindE (parse_integer self input st) (\<lambda>(res, st).
       if \<not> is_ok res then Inr (Err (error_code res), [], st)
       else let val = res_value res
            in bindE (load_int st val) (\<lambda>v. Inr (Ok val, [v], st)))"

definition demo_result :: "tid \<Rightarrow> 'x rt_scheme \<Rightarrow> failure + (int list \<times> 'x rt_scheme)" where
  "demo_result self st =
     bindE (process_data self (Some ''ValidString'') st) (\<lambda>(res1, out1, st).
     bindE (if is_ok res1
            then let final_val = res_value res1
                 in bindE (load_int st final_val) (\<lambda>v.
                    bindE (owner_free self final_val st) (\<lambda>st. Inr ([v], st)))
            else Inr ([], st)) (\<lambda>(out2, st).
     bindE (process_data self (Some ''X-Invalid'') st) (\<lambda>(res2, out3, st).
     Inr (out1 @ out2 @ out3 @ (if \<not> is_ok res2 then [error_code res2] else []), st))))"

text \<open>Errors of a nested call: the function that tries another one returns its error code and has changed nothing, or
  an object of its own that holds the result, or it has written through the null pointer of a failed allocation.\<close>

theorem process_data_outcome:
  assumes "rt_wf st"
  shows "case input of
      None \<Rightarrow> process_data self input st = Inr (Err 1, [], st)
    | Some [] \<Rightarrow> process_data self input st = Inr (Err 1, [], st)
    | Some (c # cs) \<Rightarrow>
        if c = CHR ''X'' then process_data self input st = Inr (Err 2, [], st)
        else process_data self input st = Inl (Undefined ''write to unmapped memory'') \<or>
          (\<exists>p st'. process_data self input st = Inr (Ok p, [42], st') \<and> rt_wf st' \<and> cell_at st p = None \<and>
             cell_at st' = (cell_at st)(p \<mapsto> (fresh_meta self 4, int_payload 42)))"
proof (cases input)
  case None
  then show ?thesis by (simp add: process_data_def parse_integer_def Err_def)
next
  case (Some cs)
  show ?thesis
  proof (cases "cs = [] \<or> hd cs = CHR ''X''")
    case True
    with Some show ?thesis by (cases cs) (simp_all add: process_data_def parse_integer_def Err_def)
  next
    case False
    then obtain d ds where cs: "cs = d # ds" "d \<noteq> CHR ''X''" by (cases cs) auto
    have "process_data self input st = Inl (Undefined ''write to unmapped memory'') \<or>
          (\<exists>p st'. process_data self input st = Inr (Ok p, [42], st') \<and> rt_wf st' \<and> cell_at st p = None \<and>
             cell_at st' = (cell_at st)(p \<mapsto> (fresh_meta self 4, int_payload 42)))"
    proof -
      have n: "unat (4 :: size_t) + 80 < 2 ^ 64" by simp
      from assms n show ?thesis
      proof (cases rule: heap.alloc_cases [where self = self])
        case (null s)
        then show ?thesis using Some cs by (simp add: process_data_def parse_integer_def store_int_def)
      next
        case (object p s)
        have c: "cell_at s p = Some (fresh_meta self 4, Filled 0xAA)" using object(6) by simp
        have v: "store_int p 42 s = Inr (put p (int_payload 42) s)" by (rule store_int_cell [OF object(3) c]) simp
        note w = heap.store_result [OF object(3) c, of "int_payload 42"]
        have "load_int (put p (int_payload 42) s) p = Inr 42"
          by (rule load_int_cell [of _ _ "fresh_meta self 4"]) (use w in simp_all)
        then show ?thesis using object v w Some cs
          by (simp add: process_data_def parse_integer_def Ok_def)
      qed
    qed
    with Some cs show ?thesis by simp
  qed
qed

text \<open>With memory the program prints 42 twice and the error code 2, and its object is gone.\<close>

theorem process_data_outcome_witness:
  "\<exists>p st' :: rt. process_data 1 (Some ''ValidString'') roomy_start = Inr (Ok p, [42], st')"
proof -
  have "\<exists>p st' :: rt. owner_malloc 1 4 roomy_start = Inr (p, st') \<and> p \<noteq> 0"
    by (simp add: roomy_start_def rt_eval)
  then obtain p and s :: rt where p: "owner_malloc 1 4 roomy_start = Inr (p, s)" "p \<noteq> 0" by blast
  have w: "rt_wf s" "cell_at s p = Some (fresh_meta 1 4, Filled 0xAA)"
    using heap.alloc_result [OF roomy_start_wf p(1)] p(2) by auto
  have "store_int p 42 s \<noteq> Inl e" for e using store_int_cell [OF w, of 42] by simp
  then have "process_data 1 (Some ''ValidString'') roomy_start \<noteq> Inl (Undefined ''write to unmapped memory'')"
    using p store_int_cell [OF w, of 42] by (auto simp: process_data_def parse_integer_def bindE_eq_Inl Ok_def load_int_def load_byte_def split: option.splits)
  with process_data_outcome [OF roomy_start_wf, where input = "Some ''ValidString''" and self = 1] show ?thesis by auto
qed

lemma demo_result_run:
  assumes "rt_wf st" and "room 1 84 st"
  shows "\<exists>st'. demo_result self st = Inr ([42, 42, 2], st') \<and> rt_wf st' \<and> cell_at st' = cell_at st"
proof -
  have r: "room (Suc 0) 84 st" "unat (4 :: size_t) + 80 \<le> 84" using assms(2) by simp_all
  obtain p s where p: "owner_malloc self 4 st = Inr (p, s)" "p \<noteq> 0"
    and a: "rt_wf s" "cell_at st p = None" "cell_at s = (cell_at st)(p \<mapsto> (fresh_meta self 4, Filled 0xAA))"
    by (rule room_object [OF assms(1) r, of self])
  have c: "cell_at s p = Some (fresh_meta self 4, Filled 0xAA)" using a(3) by simp
  let ?s = "put p (int_payload 42) s"
  have v: "store_int p 42 s = Inr ?s" by (rule store_int_cell [OF a(1) c]) simp
  note w = heap.store_result [OF a(1) c, of "int_payload 42"]
  have y: "cell_at ?s p = Some (fresh_meta self 4, int_payload 42)" using w by simp
  have l: "load_int ?s p = Inr 42" by (rule load_int_cell [OF _ y]) (use w in simp_all)
  obtain st' where f: "owner_free self p ?s = Inr st'" "rt_wf st'" "cell_at st' = (cell_at ?s)(p := None)"
    by (rule heap.release_obtain [OF conjunct1 [OF w] y fresh_meta_simps(1)])
  have "demo_result self st = Inr ([42, 42, 2], st')"
    using p v l f(1) by (simp add: demo_result_def process_data_def parse_integer_def Ok_def Err_def)
  moreover have "cell_at st' = cell_at st" using f(3) w a(2,3) by (auto simp: fun_eq_iff)
  ultimately show ?thesis using f(2) by blast
qed

subsection \<open>Files and sockets: \<open>demo_file.c\<close> and \<open>demo_socket.c\<close>\<close>

text \<open>Writing to a stream that is not open is undefined; what is written is not kept.\<close>

definition fprintf :: "addr \<Rightarrow> 'x os_rt_scheme \<Rightarrow> failure + 'x os_rt_scheme" where
  "fprintf h st = (if open_files st h = None then Inl (Undefined ''write to a closed stream'') else Inr st)"

definition read_file_safely :: "tid \<Rightarrow> 'x os_rt_scheme \<Rightarrow> failure + 'x os_rt_scheme" where
  "read_file_safely self st =
     bindE (safe_fopen self ''test_owned_file.txt'' ''w'' st) (\<lambda>(f, st).
       if f = 0 then cleanup_safe_file self f st
       else bindE (safe_file_get f st) (\<lambda>raw_file.
            bindE (if raw_file \<noteq> 0 then fprintf raw_file st else Inr st) (\<lambda>st.
            cleanup_safe_file self f st)))"

text \<open>\<open>af\<close> and \<open>ty\<close> are \<open>AF_INET\<close> and \<open>SOCK_STREAM\<close>; the result is what is printed.\<close>

definition connect_to_server_safely ::
    "int \<Rightarrow> int \<Rightarrow> tid \<Rightarrow> bool \<Rightarrow> 'x os_rt_scheme \<Rightarrow> failure + (int list \<times> 'x os_rt_scheme)" where
  "connect_to_server_safely af ty self simulate_error st =
     bindE (safe_socket_create self af ty 0 st) (\<lambda>(sock, st).
       if sock = 0 then bindE (cleanup_safe_socket self sock st) (\<lambda>st. Inr ([], st))
       else bindE (safe_socket_get sock st) (\<lambda>fd.
            if simulate_error then bindE (cleanup_safe_socket self sock st) (\<lambda>st. Inr ([fd], st))
            else bindE (cleanup_safe_socket self sock st) (\<lambda>st. Inr ([fd], st))))"

definition demo_socket ::
    "int \<Rightarrow> int \<Rightarrow> tid \<Rightarrow> 'x os_rt_scheme \<Rightarrow> failure + (int list \<times> 'x os_rt_scheme)" where
  "demo_socket af ty self st =
     bindE (connect_to_server_safely af ty self False st) (\<lambda>(out1, st).
     bindE (connect_to_server_safely af ty self True st) (\<lambda>(out2, st). Inr (out1 @ out2, st)))"

lemma read_file_rep:
  assumes "rt_wf st"
  shows "\<exists>st'. read_file_safely self st = Inr st' \<and> rt_wf st' \<and>
    dom (open_files st') = dom (open_files st) \<and> cell_at st' = cell_at st"
proof -
  obtain w s where s: "safe_fopen self ''test_owned_file.txt'' ''w'' st = Inr (w, s)" "rt_wf s"
    "if w = 0 then dom (open_files s) = dom (open_files st) \<and> cell_at s = cell_at st
     else \<exists>h c. file_wraps self s w h \<and> h \<notin> dom (open_files st) \<and>
       dom (open_files s) = insert h (dom (open_files st)) \<and> cell_at st w = None \<and> cell_at s = (cell_at st)(w \<mapsto> c)"
    using safe_fopen_rep [OF assms, of self "''test_owned_file.txt''" "''w''"] by blast
  show ?thesis
  proof (cases "w = 0")
    case True
    then show ?thesis using s by (simp add: read_file_safely_def cleanup_safe_file_def)
  next
    case False
    then obtain h c where h: "file_wraps self s w h" "h \<notin> dom (open_files st)"
      "dom (open_files s) = insert h (dom (open_files st))" "cell_at st w = None" "cell_at s = (cell_at st)(w \<mapsto> c)"
      using s(3) by auto
    then obtain m where m: "h \<noteq> 0" "h \<in> dom (open_files s)"
      "cell_at s w = Some (m, File \<lparr>file_handle = h, file_is_closed = False\<rparr>)" by (auto simp: file_wraps_def)
    have g: "safe_file_get w s = Inr h" "fprintf h s = Inr s"
      using False field_cell [OF s(2) m(3), of file_of] m(2) by (auto simp: safe_file_get_def fprintf_def)
    obtain st' where c: "cleanup_safe_file self w s = Inr st'" "rt_wf st'"
      "dom (open_files st') = dom (open_files s) - {h}" "cell_at st' = (cell_at s)(w := None)"
      using cleanup_safe_file_rep [OF s(2) h(1)] by blast
    have "read_file_safely self st = Inr st'" using s(1) False g m(1) c(1) by (simp add: read_file_safely_def)
    moreover have "cell_at st' = cell_at st" using c(4) h(4,5) by (auto simp: fun_eq_iff)
    moreover have "dom (open_files st') = dom (open_files st)" using c(3) h(2,3) by simp
    ultimately show ?thesis using c(2) by blast
  qed
qed

lemma connect_rep:
  assumes "rt_wf st"
  shows "\<exists>fds st'. connect_to_server_safely af ty self e st = Inr (fds, st') \<and> rt_wf st' \<and>
    dom (open_socks st') = dom (open_socks st) \<and> cell_at st' = cell_at st \<and>
    (\<forall>fd \<in> set fds. 0 \<le> fd \<and> fd \<notin> dom (open_socks st))"
proof -
  obtain w s where s: "safe_socket_create self af ty 0 st = Inr (w, s)" "rt_wf s"
    "if w = 0 then dom (open_socks s) = dom (open_socks st) \<and> cell_at s = cell_at st
     else \<exists>d c. sock_wraps self s w d \<and> d \<notin> dom (open_socks st) \<and>
       dom (open_socks s) = insert d (dom (open_socks st)) \<and> cell_at st w = None \<and> cell_at s = (cell_at st)(w \<mapsto> c)"
    using safe_socket_create_rep [OF assms, of self af ty 0] by blast
  show ?thesis
  proof (cases "w = 0")
    case True
    then show ?thesis using s by (simp add: connect_to_server_safely_def cleanup_safe_socket_def)
  next
    case False
    then obtain d c where h: "sock_wraps self s w d" "d \<notin> dom (open_socks st)"
      "dom (open_socks s) = insert d (dom (open_socks st))" "cell_at st w = None" "cell_at s = (cell_at st)(w \<mapsto> c)"
      using s(3) by auto
    then obtain m where m: "0 \<le> d" "cell_at s w = Some (m, Sock \<lparr>sock_fd = d, sock_is_closed = False\<rparr>)"
      by (auto simp: sock_wraps_def)
    have g: "safe_socket_get w s = Inr d"
      using False field_cell [OF s(2) m(2), of sock_of] by (simp add: safe_socket_get_def)
    obtain st' where c: "cleanup_safe_socket self w s = Inr st'" "rt_wf st'"
      "dom (open_socks st') = dom (open_socks s) - {d}" "cell_at st' = (cell_at s)(w := None)"
      using cleanup_safe_socket_rep [OF s(2) h(1)] by blast
    have "connect_to_server_safely af ty self e st = Inr ([d], st')"
      using s(1) False g c(1) by (simp add: connect_to_server_safely_def)
    moreover have "cell_at st' = cell_at st" using c(4) h(4,5) by (auto simp: fun_eq_iff)
    moreover have "dom (open_socks st') = dom (open_socks st)" using c(3) h(2,3) by simp
    ultimately show ?thesis using c(2) m(1) h(2) by auto
  qed
qed

text \<open>The file program and the socket program, with its early return, end whatever the system and the allocator do;
  every descriptor they used was a new one, and no stream, descriptor or object of theirs is left.\<close>

theorem early_returns_clean:
  assumes "rt_wf st"
  shows "(\<exists>st'. read_file_safely self st = Inr st' \<and> dom (open_files st') = dom (open_files st) \<and> cell_at st' = cell_at st) \<and>
    (\<exists>fds st'. demo_socket af ty self st = Inr (fds, st') \<and> dom (open_socks st') = dom (open_socks st) \<and>
       cell_at st' = cell_at st \<and> (\<forall>fd \<in> set fds. 0 \<le> fd \<and> fd \<notin> dom (open_socks st)))"
proof
  show "\<exists>st'. read_file_safely self st = Inr st' \<and> dom (open_files st') = dom (open_files st) \<and> cell_at st' = cell_at st"
    using read_file_rep [OF assms] by blast
  obtain f1 s1 where s1: "connect_to_server_safely af ty self False st = Inr (f1, s1)" "rt_wf s1"
    "dom (open_socks s1) = dom (open_socks st)" "cell_at s1 = cell_at st" "\<forall>fd \<in> set f1. 0 \<le> fd \<and> fd \<notin> dom (open_socks st)"
    using connect_rep [OF assms, of af ty self False] by (elim exE conjE)
  obtain f2 s2 where s2: "connect_to_server_safely af ty self True s1 = Inr (f2, s2)"
    "dom (open_socks s2) = dom (open_socks s1)" "cell_at s2 = cell_at s1" "\<forall>fd \<in> set f2. 0 \<le> fd \<and> fd \<notin> dom (open_socks s1)"
    using connect_rep [OF s1(2), of af ty self True] by (elim exE conjE)
  have "demo_socket af ty self st = Inr (f1 @ f2, s2)" using s1(1) s2(1) by (simp add: demo_socket_def)
  with s1(3-5) s2(2-4) show "\<exists>fds st'. demo_socket af ty self st = Inr (fds, st') \<and>
      dom (open_socks st') = dom (open_socks st) \<and> cell_at st' = cell_at st \<and>
      (\<forall>fd \<in> set fds. 0 \<le> fd \<and> fd \<notin> dom (open_socks st))" by auto
qed

theorem early_returns_clean_witness: "\<exists>fds (st' :: os_rt). demo_socket 2 1 1 os_start = Inr (fds, st') \<and> dom (open_socks st') = {}"
  using early_returns_clean [OF os_start_wf, of 1 2 1] by (auto simp: os_start_def rt.extend_def os_rt.fields_def)

end
