(* ===== verification/Showcase.thy ===== *)
theory Showcase
  imports Server Vector
begin

text \<open>
  Programs under \<open>examples/\<close> that put several parts of the library together: \<open>demo_raii.c\<close>, \<open>demo_threads.c\<close>,
  \<open>demo_vector.c\<close> and \<open>demo_full_showcase.c\<close>.  The last two keep a vector in a variable declared \<open>OWNED\<close>, whose
  cleanup handler is \<open>owner_free_cleanup\<close>: it frees the struct of the vector but not its buffer, which is reported as
  a leak when the program ends.  Objects on the stack are addresses outside the heap, \<open>stack\<close> is what they hold.
\<close>

subsection \<open>The programs\<close>

text \<open>\<open>demo_raii.c\<close>: \<open>do_work\<close> and \<open>main\<close>.\<close>

definition do_work :: "tid \<Rightarrow> 'x rt_scheme \<Rightarrow> failure + 'x rt_scheme" where
  "do_work self st = bindE (owner_malloc self 1024 st) (\<lambda>(buffer, st). owner_free_cleanup self buffer st)"

definition demo_raii :: "tid \<Rightarrow> 'x rt_scheme \<Rightarrow> failure + 'x rt_scheme" where
  "demo_raii self st = bindE (do_work self st) ownership_stats"

text \<open>\<open>demo_threads.c\<close>: the worker \<open>t\<close> runs between \<open>pthread_create\<close> and \<open>pthread_join\<close>.\<close>

definition thread_worker :: "tid \<Rightarrow> addr \<Rightarrow> 'x rt_scheme \<Rightarrow> failure + 'x rt_scheme" where
  "thread_worker t shared_data st = bindE (ownership_borrow t shared_data st) (ownership_release shared_data)"

definition demo_threads :: "tid \<Rightarrow> tid \<Rightarrow> 'x rt_scheme \<Rightarrow> failure + 'x rt_scheme" where
  "demo_threads t self st =
     bindE (owner_malloc self 128 st) (\<lambda>(data, st).
     bindE (ownership_share self data st) (\<lambda>st.
     bindE (thread_worker t data st) (owner_free_cleanup self data)))"

text \<open>\<open>demo_vector.c\<close>: the loop that prints the elements, and \<open>main\<close>.\<close>

definition stack_read :: "(addr \<Rightarrow> int) \<Rightarrow> addr \<Rightarrow> failure + int" where
  "stack_read stack p = (if p = 0 then Inl (Undefined ''read of unmapped memory'') else Inr (stack p))"

definition print_elements :: "(addr \<Rightarrow> int) \<Rightarrow> addr \<Rightarrow> 'x rt_scheme \<Rightarrow> failure + int list" where
  "print_elements stack vec st =
     (if vec = 0 then Inl (Undefined ''read of unmapped memory'')
      else bindE (field vec_of st vec) (\<lambda>v.
           foldE (\<lambda>i out. bindE (safe_vector_get vec (of_nat i) st) (\<lambda>val.
                          bindE (stack_read stack val) (\<lambda>x. Inr (out @ [x]))))
             [0..<unat (vec_length v)] []))"

definition demo_vector ::
    "tid \<Rightarrow> (addr \<Rightarrow> int) \<Rightarrow> addr \<Rightarrow> addr \<Rightarrow> addr \<Rightarrow> 'x rt_scheme \<Rightarrow> failure + (int list \<times> 'x rt_scheme)" where
  "demo_vector self stack a b c st =
     bindE (safe_vector_create self 2 st) (\<lambda>(vec, st).
     bindE (safe_vector_push self vec a st) (\<lambda>st.
     bindE (safe_vector_push self vec b st) (\<lambda>st.
     bindE (safe_vector_push self vec c st) (\<lambda>st.
     bindE (print_elements stack vec st) (\<lambda>printed.
     bindE (owner_free_cleanup self vec st) (\<lambda>st. Inr (printed, st)))))))"

text \<open>\<open>demo_full_showcase.c\<close>: the cleanup handlers run in the reverse order of the declarations.\<close>

definition demo_full_showcase ::
    "tid \<Rightarrow> tid \<Rightarrow> (addr \<Rightarrow> int) \<Rightarrow> addr \<Rightarrow> 'x rt_scheme \<Rightarrow> failure + (int \<times> 'x rt_scheme)" where
  "demo_full_showcase t self stack a st =
     bindE (do_work self st) (\<lambda>st.
     bindE (safe_vector_create self 5 st) (\<lambda>(vec, st).
     bindE (safe_vector_push self vec a st) (\<lambda>st.
     bindE (safe_vector_get vec 0 st) (\<lambda>val.
     bindE (stack_read stack val) (\<lambda>x.
     bindE (safe_region_create self 4096 st) (\<lambda>(region, st).
     bindE (safe_region_alloc self region 64 st) (\<lambda>(entity1, st).
     bindE (safe_region_alloc self region 128 st) (\<lambda>(entity2, st).
     bindE (safe_region_free self region st) (\<lambda>st.
     bindE (owner_malloc self 256 st) (\<lambda>(cross_thread_data, st).
     bindE (ownership_share self cross_thread_data st) (\<lambda>st.
     bindE (thread_worker t cross_thread_data st) (\<lambda>st.
     bindE (ownership_stats st) (\<lambda>st.
     bindE (owner_free_cleanup self cross_thread_data st) (\<lambda>st.
     bindE (owner_free_cleanup self vec st) (\<lambda>st. Inr (x, st))))))))))))))))"

subsection \<open>Single steps\<close>

definition room_kept :: "'x rt_scheme \<Rightarrow> 'x rt_scheme \<Rightarrow> bool" where
  "room_kept st st' \<longleftrightarrow> (\<forall>k D. room k D st \<longrightarrow> room k D st')"

lemma room_keptD: "room_kept st st' \<Longrightarrow> room k D st \<Longrightarrow> room k D st'"
  by (simp add: room_kept_def)

lemma stats_step:
  assumes "rt_wf st"
  obtains st' where "ownership_stats st = Inr st'" and "rt_wf st'" and "moves {} {} st st'" and "room_kept st st'"
proof -
  obtain L where L: "rt_rep st L" using rt_wf_rep [OF assms] by blast
  obtain e where e: "ownership_stats st = Inr (emit e st)" using ownership_stats_rep [OF L] by blast
  have "rt_rep (emit e st) L" using L by simp
  then have "rt_inv (emit e st)" by (auto simp: rt_inv_def)
  moreover have "ring_of (emit e st) = ring_of st" by (simp add: ring_of_def emit_def)
  ultimately have "rt_wf (emit e st)" using assms by (simp add: rt_wf_def)
  moreover have "moves {} {} st (emit e st)"
    by (simp add: emit_def moves_same cell_at_def live_def obj_at_def get_meta_def fun_eq_iff)
  moreover have "room_kept st (emit e st)" by (simp add: room_kept_def room_def emit_def)
  ultimately show thesis using that [OF e] by simp
qed

text \<open>An object of the caller's that nobody else has is released.\<close>

lemma cleanup_step:
  assumes "rt_wf st" and "cell_at st p = Some (m, x)" and "free_ok self m"
  obtains st' where "owner_free_cleanup self p st = Inr st'" and "rt_wf st'" and "moves {p} {} st st'"
    and "cell_at st' = (cell_at st)(p := None)" and "room_kept st st'"
proof -
  obtain st' where s: "owner_free self p st = Inr st'" "rt_wf st'" "rt.more st' = rt.more st"
    "cell_at st' = (cell_at st)(p := None)" by (rule heap.release_obtain [OF assms])
  have "moves {p} {} st st'" using s(3,4) by (auto simp: moves_def restrict_map_def fun_eq_iff)
  then show thesis using that [of st'] s free_room [OF s(1)] cell_at_nonnull [OF assms(2)]
    by (simp add: owner_free_cleanup_def room_kept_def)
qed

text \<open>An object of the caller's that is shared, used by another thread, and released.\<close>

definition share_and_use :: "tid \<Rightarrow> tid \<Rightarrow> addr \<Rightarrow> 'x rt_scheme \<Rightarrow> failure + 'x rt_scheme" where
  "share_and_use t self p st = bindE (ownership_share self p st) (thread_worker t p)"

lemma share_step:
  assumes "rt_wf st" and "cell_at st p = Some (fresh_meta self n, x)"
  obtains m st' where "share_and_use t self p st = Inr st'" and "rt_wf st'" and "moves {p} {p} st st'"
    and "cell_at st' p = Some (m, x)" and "free_ok self m" and "room_kept st st'"
proof -
  have m: "m_owner_thread (fresh_meta self n) = self" by (simp add: fresh_meta_def new_meta_def bare_def)
  obtain s1 where s1: "ownership_share self p st = Inr s1" "rt_wf s1" "rt.more s1 = rt.more st"
    "cell_at s1 = (cell_at st)(p \<mapsto> (shared_meta (fresh_meta self n), x))"
    by (rule ownership_share_cells [OF assms m])
  let ?m1 = "shared_meta (fresh_meta self n)"
  have c1: "cell_at s1 p = Some (?m1, x)" "m_state ?m1 = SHARED \<or> m_owner_thread ?m1 = t" "m_borrow_count ?m1 < INT_MAX"
    using s1(4) by (simp_all add: shared_meta_def fresh_meta_def new_meta_def bare_def INT_MAX_def)
  obtain s2 where s2: "ownership_borrow t p s1 = Inr s2" "rt_wf s2" "rt.more s2 = rt.more s1"
    "cell_at s2 = (cell_at s1)(p \<mapsto> (borrowed_meta ?m1, x))"
    by (rule ownership_borrow_cells [OF s1(2) c1])
  let ?m2 = "borrowed_meta ?m1"
  have c2: "cell_at s2 p = Some (?m2, x)" "m_borrow_count ?m2 > 0"
    using s2(4) by (simp_all add: borrowed_meta_def shared_meta_def fresh_meta_def new_meta_def bare_def)
  obtain s3 where s3: "ownership_release p s2 = Inr s3" "rt_wf s3" "rt.more s3 = rt.more s2"
    "cell_at s3 = (cell_at s2)(p \<mapsto> (released_meta ?m2, x))"
    by (rule ownership_release_cells [OF s2(2) c2])
  have "free_ok self (released_meta ?m2)"
    by (simp add: free_ok_def released_meta_def borrowed_meta_def shared_meta_def fresh_meta_def new_meta_def bare_def)
  moreover have "share_and_use t self p st = Inr s3" using s1(1) s2(1) s3(1) by (simp add: share_and_use_def thread_worker_def)
  moreover have "moves {p} {p} st s3" using s1(3,4) s2(3,4) s3(3,4) by (auto simp: moves_def restrict_map_def fun_eq_iff)
  moreover have "room_kept st s3"
    using uses_ownership(3) [OF s1(1)] uses_ownership(1) [OF s2(1)] uses_ownership(2) [OF s3(1)]
    by (simp add: uses_def room_kept_def)
  ultimately show thesis using that s3(2,4) by auto
qed

lemma object_step:
  assumes "rt_wf st" and "room (Suc k) D st" and "unat n + 80 \<le> D"
  obtains p st' where "owner_malloc self n st = Inr (p, st')" and "p \<noteq> 0" and "rt_wf st'" and "room k D st'"
    and "moves {} {p} st st'" and "cell_at st p = None" and "cell_at st' p = Some (fresh_meta self n, Filled 0xAA)"
    and "cell_at st' = (cell_at st)(p \<mapsto> (fresh_meta self n, Filled 0xAA))"
proof -
  obtain p st' where s: "owner_malloc self n st = Inr (p, st')" "p \<noteq> 0" "room k D st'" "rt_wf st'"
    "rt.more st' = rt.more st" "cell_at st p = None" "cell_at st' = (cell_at st)(p \<mapsto> (fresh_meta self n, Filled 0xAA))"
    by (rule room_object [OF assms])
  have "moves {} {p} st st'" using s(5-7) by (auto simp: moves_def restrict_map_def fun_eq_iff)
  then show thesis using that [OF s(1,2,4,3)] s(6,7) by simp
qed

lemma work_step:
  assumes "rt_wf st" and "room (Suc k) D st" and "1104 \<le> D"
  obtains st' where "do_work self st = Inr st'" and "rt_wf st'" and "moves {} {} st st'" and "room k D st'"
proof -
  have D: "unat (1024 :: size_t) + 80 \<le> D" using assms(3) by simp
  obtain p s where s: "owner_malloc self 1024 st = Inr (p, s)" "rt_wf s" "room k D s" "moves {} {p} st s"
    "cell_at s p = Some (fresh_meta self 1024, Filled 0xAA)"
    by (rule object_step [OF assms(1,2) D, of self])
  obtain st' where c: "owner_free_cleanup self p s = Inr st'" "rt_wf st'" "moves {p} {} s st'" "room_kept s st'"
    by (rule cleanup_step [OF s(2,5) fresh_meta_simps(1)])
  show thesis using that [of st'] s(1) c moves_trans [OF s(4) c(3)] room_keptD [OF c(4) s(3)] by (simp add: do_work_def)
qed

text \<open>A vector: its creation, and a push, which moves the buffer or not.\<close>

lemma vector_create_step:
  assumes "rt_wf st" and "room (Suc (Suc k)) D st" and "cap \<noteq> 0" and "unat cap * 8 + 80 \<le> D" and "104 \<le> D"
  obtains vec data st' where "safe_vector_create self cap st = Inr (vec, st')" and "rt_wf st'" and "vec \<noteq> 0"
    and "vec_rep self st' vec data (unat cap) []" and "moves {} {vec, data} st st'" and "room k D st'"
    and "cell_at st data = None"
proof -
  have D: "D < 2 ^ 64" by (rule room_bound [OF assms(2)])
  have n24: "unat (24 :: size_t) + 80 \<le> D" using assms(5) by simp
  have "unat (cap * 8) = unat cap * 8" using assms(4) D by (intro unat_mult_no_overflow [of cap 8, simplified]) simp
  then have n: "unat (cap * 8) + 80 \<le> D" using assms(4) by simp
  obtain v s where v: "owner_malloc self 24 st = Inr (v, s)" "v \<noteq> 0" "rt_wf s" "room (Suc k) D s" "cell_at st v = None"
    by (rule object_step [OF assms(1,2) n24, of self])
  obtain d s2 where d: "owner_malloc self (cap * 8) s = Inr (d, s2)" "d \<noteq> 0" "rt_wf s2" "room k D s2"
    by (rule object_step [OF v(3,4) n, of self])
  let ?s = "put v (Vec \<lparr>vec_data = d, vec_length = 0, vec_capacity = cap\<rparr>) s2"
  have run: "safe_vector_create self cap st = Inr (v, ?s)" using v(1,2) d(1,2) assms(3) by (simp add: safe_vector_create_def)
  have c: "unat cap * 8 + 80 < 2 ^ 64" using assms(4) D by simp
  from safe_vector_create_rep [OF assms(1) c, of self] obtain data where r: "rt_wf ?s" "keeps {} st ?s"
    "vec_rep self ?s v data (unat cap) []" "cell_at st data = None" "cell_at ?s |` (- {v, data}) = cell_at st"
    using run v(2) assms(3) by auto
  have "moves {} {v, data} st ?s" using r(2,5) by (simp add: moves_def keeps_def restrict_map_def)
  with that [OF run r(1) v(2) r(3) _ _ r(4)] d(4) show thesis by simp
qed

lemma store_slot_room: "store_slot p i v st = Inr st' \<Longrightarrow> room k D st \<Longrightarrow> room k D st'"
  by (auto simp: store_slot_def split: option.splits if_splits)

lemma vector_push_step:
  assumes "rt_wf st" and "vec_rep self st vec data cap xs" and "room (Suc k) D st" and "16 * cap + 80 \<le> D"
  obtains data' st' where "safe_vector_push self vec x st = Inr st'" and "rt_wf st'"
    and "vec_rep self st' vec data' (if length xs < cap then cap else 2 * cap) (xs @ [x])"
    and "moves {vec, data} {vec, data'} st st'" and "room k D st'"
  using assms(2)
proof (rule vec_repE, goal_cases)
  case (1 m v md y)
  have D: "D < 2 ^ 64" by (rule room_bound [OF assms(3)])
  have f: "field vec_of st vec = Inr v" by (rule field_cell [OF assms(1) 1(2)]) simp
  have b: "cap * 16 + 80 < 2 ^ 64" using assms(4) D by simp
  have keep: "room k D st'" if "bindE (store_slot p i x s) (\<lambda>st. Inr (put vec w st)) = Inr st'" "room k D s" for p i w s st'
    using that by (auto simp: bindE_eq_Inr dest!: store_slot_room)
  have weak: "room k D st" by (rule room_less [OF assms(3)]) simp
  show thesis
  proof (cases "vec_capacity v \<le> vec_length v")
    case False
    have run: "safe_vector_push self vec x st = bindE (store_slot data (unat (vec_length v)) x st)
        (\<lambda>st. Inr (put vec (Vec (v\<lparr>vec_length := vec_length v + 1\<rparr>)) st))"
      using f 1 False by (simp add: safe_vector_push_def)
    have l: "length xs < cap" using False 1 by (simp add: word_le_nat_alt)
    from safe_vector_push_rep [OF assms(1,2) b, of x] l obtain st' data' where e: "safe_vector_push self vec x st = Inr st'"
      "rt_wf st'" "vec_rep self st' vec data' (if length xs < cap then cap else 2 * cap) (xs @ [x])"
      "moves {vec, data} {vec, data'} st st'" by auto
    show thesis by (rule 1(1) [OF e keep [OF trans [OF run [symmetric] e(1)] weak]])
  next
    case True
    let ?cap = "vec_capacity v * 2"
    have c2: "unat ?cap = 2 * cap" using unat_mult_no_overflow [of "vec_capacity v" 2] b 1 by simp
    have c8: "unat (?cap * 8) = 16 * cap" using unat_mult_no_overflow [of ?cap 8] b c2 by simp
    have nz: "?cap * 8 \<noteq> 0" using c8 1(10) by (metis mult_is_0 neq0_conv unsigned_0 zero_neq_numeral)
    have n: "unat (?cap * 8) + 80 \<le> D" using c8 assms(4) by simp
    obtain q s where q: "owner_realloc self data (?cap * 8) st = Inr (q, s)" "q \<noteq> 0" "room k D s"
      by (rule realloc_room [OF assms(1) 1(5) free_ok_realloc_ok [OF 1(6)] nz assms(3) n])
    let ?v = "v\<lparr>vec_data := q, vec_capacity := ?cap\<rparr>"
    have run: "safe_vector_push self vec x st = bindE (store_slot q (unat (vec_length v)) x (put vec (Vec ?v) s))
        (\<lambda>st. Inr (put vec (Vec (?v\<lparr>vec_length := vec_length v + 1\<rparr>)) st))"
      using f 1 True q(1,2) by (simp add: safe_vector_push_def Let_def)
    have "safe_vector_push self vec x st \<noteq> Inl (Fatal ''Failed to reallocate safe_vector'' vec (Some ''src/collections.c'') 31)"
      unfolding run by (auto simp: bindE_eq_Inl store_slot_def split: option.splits if_splits)
    with safe_vector_push_rep [OF assms(1,2) b, of x] obtain st' data' where e: "safe_vector_push self vec x st = Inr st'"
      "rt_wf st'" "vec_rep self st' vec data' (if length xs < cap then cap else 2 * cap) (xs @ [x])"
      "moves {vec, data} {vec, data'} st st'" by auto
    have "room k D (put vec (Vec ?v) s)" using q(3) by simp
    from keep [OF trans [OF run [symmetric] e(1)] this] show thesis by (rule 1(1) [OF e])
  qed
qed

text \<open>Freeing the struct of a vector only.\<close>

lemma vector_dropped:
  assumes "rt_wf st" and "vec_rep self st vec data cap xs"
  obtains m y st' where "owner_free_cleanup self vec st = Inr st'" and "rt_wf st'" and "moves {vec, data} {data} st st'"
    and "cell_at st' data = Some (m, y)" and "unat (m_size m) = 8 * cap" and "free_ok self m"
  using assms(2)
proof (rule vec_repE, goal_cases)
  case (1 m v md y)
  obtain st' where s: "owner_free_cleanup self vec st = Inr st'" "rt_wf st'" "moves {vec} {} st st'"
    "cell_at st' = (cell_at st)(vec := None)"
    by (rule cleanup_step [OF assms(1) 1(2,3)])
  have "moves {vec, data} {data} st st'" using moves_frame [OF s(3), of "{data}"] by (simp add: insert_commute)
  moreover have "cell_at st' data = Some (md, y)" using s(4) 1(5,13) by simp
  ultimately show thesis using 1(1) s(1,2) 1(6,11) by blast
qed

lemma print_elements_rep:
  assumes "rt_wf st" and "vec_rep self st vec data cap xs" and "0 \<notin> set xs"
  shows "print_elements stack vec st = Inr (map stack xs)"
  using assms(2)
proof (rule vec_repE, goal_cases)
  case (1 m v md y)
  have f: "field vec_of st vec = Inr v" by (rule field_cell [OF assms(1) 1(1)]) simp
  have l: "length xs < 2 ^ 64" using 1(6) unat_lt_2p64 [of "vec_length v"] by simp
  have "foldE (\<lambda>i out. bindE (safe_vector_get vec (of_nat i) st) (\<lambda>val.
      bindE (stack_read stack val) (\<lambda>x. Inr (out @ [x])))) [0..<n] [] = Inr (map stack (take n xs))" if "n \<le> length xs" for n
    using that
  proof (induction n)
    case 0
    then show ?case by simp
  next
    case (Suc n)
    have "unat (of_nat n :: size_t) = n" using Suc.prems l by (intro unat_of_nat_lt) simp
    then have g: "safe_vector_get vec (of_nat n) st = Inr (xs ! n)"
      using safe_vector_get_rep [OF assms(1,2), of "of_nat n"] Suc.prems by simp
    have "xs ! n \<noteq> 0" using assms(3) Suc.prems by (metis nth_mem Suc_le_lessD)
    with Suc g show ?case by (simp add: foldE_append stack_read_def take_Suc_conv_app_nth)
  qed
  from this [of "length xs"] f 1(6,13) show ?case by (simp add: print_elements_def)
qed

text \<open>A request to a region that may be null, with whatever memory there is.\<close>

lemma region_alloc_step:
  assumes "rt_wf st" and "arena_ok self st arena R" and "n \<noteq> 0" and "bump_fits n"
  obtains p R' st' where "safe_region_alloc self arena n st = Inr (p, st')" and "rt_wf st'"
    and "arena_ok self st' arena R'" and "moves R R' st st'"
proof (cases "arena = 0")
  case True
  then show thesis using that [of 0 st R] assms(1,2) by (simp add: safe_region_alloc_def)
next
  case False
  then obtain cs where rep: "region_rep self st arena cs" and R: "R = region_objects arena cs"
    using assms(2) by (auto simp: arena_ok_def)
  obtain a u c cs1 where cs: "cs = (a, u, c) # cs1" using rep by (cases cs) (auto simp: region_rep_def)
  from assms(1) rep [unfolded cs] assms(3,4) show thesis
  proof (cases rule: safe_region_alloc_rep)
    case (bump st')
    have e: "{a} \<union> R = R" by (auto simp: R cs region_objects_def)
    have "moves R R st st'" using moves_frame [OF bump(5), of R] unfolding e .
    moreover have "R = region_objects arena ((a, u + unat (align8 n), c) # cs1)" by (auto simp: R cs region_objects_def)
    then have "arena_ok self st' arena R" using bump(4) unfolding arena_ok_def by blast
    ultimately show thesis using that [OF bump(2,3)] by blast
  next
    case (oom st')
    have "region_rep self st' arena cs" using region_rep_same [OF rep oom(3)] .
    then have "arena_ok self st' arena R" using R by (auto simp: arena_ok_def)
    moreover have "moves R R st st'" using oom(3,4) by (simp add: moves_def)
    ultimately show thesis using that [OF oom(1,2)] by blast
  next
    case (new b k st')
    have e: "{arena} \<union> R = R" "{arena, b} \<union> R = insert b R" by (auto simp: R region_objects_def)
    have "moves R (insert b R) st st'" using moves_frame [OF new(6), of R] unfolding e .
    moreover have "insert b R = region_objects arena ((b, unat (align8 n), k) # cs)" by (auto simp: R region_objects_def)
    then have "arena_ok self st' arena (insert b R)" using new(3) cs unfolding arena_ok_def by blast
    ultimately show thesis using that [OF new(1,2)] by blast
  qed
qed

lemma region_create_step:
  assumes "rt_wf st" and "unat n \<le> 2 ^ 63"
  obtains arena R st' where "safe_region_create self n st = Inr (arena, st')" and "rt_wf st'"
    and "arena_ok self st' arena R" and "moves {} R st st'"
proof -
  obtain arena st' where c: "safe_region_create self n st = Inr (arena, st')" "rt_wf st'" "rt.more st' = rt.more st"
    "if arena = 0 then cell_at st' = cell_at st
     else \<exists>a c. region_rep self st' arena [(a, 0, c)] \<and> cell_at st arena = None \<and>
       cell_at st a = None \<and> cell_at st' |` (- {arena, a}) = cell_at st"
    using safe_region_create_rep [OF assms, of self] by blast
  show thesis
  proof (cases "arena = 0")
    case True
    then have "arena_ok self st' arena {}" "moves {} {} st st'" using c(3,4) by (simp_all add: arena_ok_def moves_same)
    then show thesis using that [OF c(1,2)] by blast
  next
    case False
    then obtain a k where a: "region_rep self st' arena [(a, 0, k)]" "cell_at st' |` (- {arena, a}) = cell_at st"
      using c(4) by auto
    have "region_objects arena [(a, 0, k)] = {arena, a}" by (simp add: region_objects_def)
    then have "arena_ok self st' arena {arena, a}" using a(1) unfolding arena_ok_def by metis
    then show thesis using that [OF c(1,2)] moves_new [OF c(3) a(2)] by blast
  qed
qed

text \<open>An object, if there is memory for it, that is shared and used by the worker; then it is released.\<close>

lemma shared_object_step:
  assumes "rt_wf st" and "unat n + 80 < 2 ^ 64"
  obtains p s0 s1 s2 where "owner_malloc self n st = Inr (p, s0)" and "ownership_share self p s0 = Inr s1"
    and "thread_worker t p s1 = Inr s2" and "rt_wf s2"
    and "\<forall>s3. rt_wf s3 \<and> moves {} {} s2 s3 \<longrightarrow> (\<exists>s4. owner_free_cleanup self p s3 = Inr s4 \<and> rt_wf s4 \<and> moves {} {} st s4)"
proof -
  from assms show thesis
  proof (cases rule: heap.alloc_cases [where self = self])
    case (null s)
    have "moves {} {} st s" using null(3,4) by (simp add: moves_same)
    then show thesis
      using that [OF null(1), of s s] null(2) by (simp add: ownership_share_def thread_worker_def ownership_borrow_def
          ownership_release_def owner_free_cleanup_def moves_same)
  next
    case (object p s)
    have c: "cell_at s p = Some (fresh_meta self n, Filled 0xAA)" using object(6) by simp
    obtain m s2 where s2: "share_and_use t self p s = Inr s2" "rt_wf s2" "moves {p} {p} s s2"
      "cell_at s2 p = Some (m, Filled 0xAA)" "free_ok self m"
      by (rule share_step [OF object(3) c])
    have new: "moves {} {p} st s" using object(4-6) by (auto simp: moves_def restrict_map_def fun_eq_iff)
    obtain s1 where s1: "ownership_share self p s = Inr s1" "thread_worker t p s1 = Inr s2"
      using s2(1) by (auto simp: share_and_use_def bindE_eq_Inr)
    have "\<exists>s4. owner_free_cleanup self p s3 = Inr s4 \<and> rt_wf s4 \<and> moves {} {} st s4"
      if w: "rt_wf s3" and e: "moves {} {} s2 s3" for s3
    proof -
      have c3: "cell_at s3 p = Some (m, Filled 0xAA)" using e s2(4) by (simp add: moves_same)
      obtain s4 where s4: "owner_free_cleanup self p s3 = Inr s4" "rt_wf s4" "moves {p} {} s3 s4"
        by (rule cleanup_step [OF w c3 s2(5)])
      have "moves {p} {p} s2 s3" using moves_frame [OF e, of "{p}"] by simp
      then have "moves {} {} st s4" using new s2(3) s4(3) moves_trans by blast
      then show ?thesis using s4(1,2) by blast
    qed
    then show thesis using that [OF object(1) s1 s2(2)] by blast
  qed
qed

subsection \<open>What a program leaves behind\<close>

text \<open>An object that could be released and is not is reported when the program ends.\<close>

lemma leak_reported:
  assumes "rt_wf st" and "cell_at st p = Some (m, x)" and "free_ok self m"
  obtains st' fl ln where "check_leaks st = Inr (Some 1, st')" and "EvLeak p (m_size m) fl ln \<in> set (out st')"
proof -
  obtain L where L: "rt_rep st L" using rt_wf_rep [OF assms(1)] by blast
  have o: "obj_at st p = Some m" "m_state m \<noteq> FREED" "live st p"
    using assms(2) by (auto simp: cell_at_Some live_def)
  then have p: "p \<in> set (objects L)" using objects_live(1) [OF L] by simp
  have m: "live_meta m" using object_meta [OF L p] o(1) by simp
  have "leaked st p" using m assms(3) o(1) by (auto simp: leaked_def live_meta_def free_ok_def)
  then have "p \<in> set (filter (leaked st) (objects L))" using p by simp
  then have ne: "filter (leaked st) (objects L) \<noteq> []" and "leak_event st p \<in> set (map (leak_event st) (filter (leaked st) (objects L)))"
    by (metis empty_iff list.set(1), simp)
  moreover have "leak_event st p = EvLeak p (m_size m) (m_alloc_file m) (m_alloc_line m)"
    using o(1) by (simp add: leak_event_def obj_def)
  ultimately have e: "EvLeak p (m_size m) (m_alloc_file m) (m_alloc_line m) \<in> set (map (leak_event st) (filter (leaked st) (objects L)))"
    by metis
  obtain st' where c: "check_leaks st = Inr (if filter (leaked st) (objects L) = [] then None else Some 1, st')"
    and "out st' = out st @ map (leak_event st) (filter (leaked st) (objects L)) @
      map EvRelease (filter (\<lambda>a. a \<noteq> 0) (quarantine st)) @
      (if filter (leaked st) (objects L) = [] then [] else [EvLeakTotal (length (filter (leaked st) (objects L)))])"
    by (rule check_leaks_rep [OF L])
  with e have "EvLeak p (m_size m) (m_alloc_file m) (m_alloc_line m) \<in> set (out st')" by (metis Un_iff set_append)
  with c ne show thesis by (intro that [of st']) simp_all
qed

definition leaves_buffer :: "tid \<Rightarrow> nat \<Rightarrow> 'x rt_scheme \<Rightarrow> 'x rt_scheme \<Rightarrow> bool" where
  "leaves_buffer self n st st' \<longleftrightarrow> rt_wf st' \<and>
     (\<exists>data m x. cell_at st data = None \<and> cell_at st' = (cell_at st)(data \<mapsto> (m, x)) \<and> free_ok self m \<and> unat (m_size m) = n)"

lemma leaves_bufferI:
  assumes "rt_wf st'" and "moves {} {data} st st'" and "cell_at st' data = Some (m, x)"
    and "free_ok self m" and "unat (m_size m) = n"
  shows "leaves_buffer self n st st'"
proof -
  have e: "cell_at st' |` (- {data}) = cell_at st"
    using assms(2) by (simp add: moves_def) (simp add: restrict_map_def)
  have "cell_at st data = None" using fun_cong [OF e, of data] by simp
  moreover have "cell_at st' q = cell_at st q" if "q \<noteq> data" for q using fun_cong [OF e, of q] that by simp
  then have "cell_at st' = (cell_at st)(data \<mapsto> (m, x))" using assms(3) by (auto simp: fun_eq_iff)
  ultimately show ?thesis using assms(1,4,5) unfolding leaves_buffer_def by blast
qed

text \<open>What the exit handler makes of it: one new object of \<open>n\<close> bytes, reported, and the status 1.\<close>

definition leaks_at_exit :: "nat \<Rightarrow> 'x rt_scheme \<Rightarrow> 'x rt_scheme \<Rightarrow> bool" where
  "leaks_at_exit n st st' \<longleftrightarrow>
     (\<exists>data sz fl ln st''. cell_at st data = None \<and> cell_at st' data \<noteq> None \<and> cell_at st' |` (- {data}) = cell_at st \<and>
        check_leaks st' = Inr (Some 1, st'') \<and> EvLeak data sz fl ln \<in> set (out st'') \<and> unat sz = n)"

lemma leaves_buffer_reported: "leaves_buffer self n st st' \<Longrightarrow> leaks_at_exit n st st'"
proof -
  assume "leaves_buffer self n st st'"
  then obtain data m x where d: "rt_wf st'" "cell_at st data = None" "cell_at st' = (cell_at st)(data \<mapsto> (m, x))"
    "free_ok self m" "unat (m_size m) = n"
    unfolding leaves_buffer_def by blast
  have c: "cell_at st' data = Some (m, x)" using d(3) by simp
  obtain st'' fl ln where e: "check_leaks st' = Inr (Some 1, st'')" "EvLeak data (m_size m) fl ln \<in> set (out st'')"
    by (rule leak_reported [OF d(1) c d(4)])
  have "cell_at st' |` (- {data}) = cell_at st" using d(2,3) by (auto simp: restrict_map_def fun_eq_iff)
  moreover have "cell_at st' data \<noteq> None" using c by simp
  ultimately show "leaks_at_exit n st st'" unfolding leaks_at_exit_def using d(2,5) e by blast
qed

text \<open>A vector for two elements that three are pushed to.\<close>

lemma three_pushes:
  assumes "rt_wf st" and "room 5 D st" and "112 \<le> D"
  obtains vec d s0 s1 s2 s3 where "safe_vector_create self 2 st = Inr (vec, s0)" and "vec \<noteq> 0"
    and "safe_vector_push self vec a s0 = Inr s1" and "safe_vector_push self vec b s1 = Inr s2"
    and "safe_vector_push self vec c s2 = Inr s3" and "rt_wf s3" and "vec_rep self s3 vec d 4 [a, b, c]"
    and "moves {} {vec, d} st s3"
proof -
  have r: "room (Suc (Suc 3)) D st" using assms(2) by (simp add: numeral_eq_Suc)
  obtain vec d s0 where s0: "safe_vector_create self 2 st = Inr (vec, s0)" "rt_wf s0" "vec \<noteq> 0"
    "vec_rep self s0 vec d (unat (2 :: size_t)) []" "moves {} {vec, d} st s0" "room 3 D s0" "cell_at st d = None"
    by (rule vector_create_step [OF assms(1) r, of 2]) (use assms(3) in simp_all)
  have r0: "room (Suc 2) D s0" using s0(6) by (simp add: numeral_eq_Suc)
  obtain d1 s1 where s1: "safe_vector_push self vec a s0 = Inr s1" "rt_wf s1" "vec_rep self s1 vec d1 2 [a]"
    "moves {vec, d} {vec, d1} s0 s1" "room 2 D s1"
    by (rule vector_push_step [OF s0(2,4) r0, of a]) (use assms(3) in simp_all)
  have r1: "room (Suc 1) D s1" using s1(5) by (simp add: numeral_eq_Suc)
  obtain d2 s2 where s2: "safe_vector_push self vec b s1 = Inr s2" "rt_wf s2" "vec_rep self s2 vec d2 2 [a, b]"
    "moves {vec, d1} {vec, d2} s1 s2" "room 1 D s2"
    by (rule vector_push_step [OF s1(2,3) r1, of b]) (use assms(3) in simp_all)
  have r2: "room (Suc 0) D s2" using s2(5) by simp
  obtain d3 s3 where s3: "safe_vector_push self vec c s2 = Inr s3" "rt_wf s3" "vec_rep self s3 vec d3 4 [a, b, c]"
    "moves {vec, d2} {vec, d3} s2 s3"
    by (rule vector_push_step [OF s2(2,3) r2, of c]) (use assms(3) in simp_all)
  have "moves {} {vec, d3} st s3" using s0(5) s1(4) s2(4) s3(4) moves_trans by blast
  then show thesis by (rule that [OF s0(1,3) s1(1) s2(1) s3(1-3)])
qed

lemma demo_vector_run:
  assumes "rt_wf st" and "room 5 D st" and "112 \<le> D" and "a \<noteq> 0" and "b \<noteq> 0" and "c \<noteq> 0"
  obtains st' where "demo_vector self stack a b c st = Inr ([stack a, stack b, stack c], st')"
    and "leaves_buffer self 32 st st'"
proof -
  obtain vec d s0 s1 s2 s3 where v: "safe_vector_create self 2 st = Inr (vec, s0)" "vec \<noteq> 0"
    "safe_vector_push self vec a s0 = Inr s1" "safe_vector_push self vec b s1 = Inr s2"
    "safe_vector_push self vec c s2 = Inr s3" "rt_wf s3" "vec_rep self s3 vec d 4 [a, b, c]" "moves {} {vec, d} st s3"
    by (rule three_pushes [OF assms(1-3)])
  have p: "print_elements stack vec s3 = Inr [stack a, stack b, stack c]"
    using print_elements_rep [OF v(6,7), of stack] assms(4-6) by simp
  obtain m y st' where e: "owner_free_cleanup self vec s3 = Inr st'" "rt_wf st'" "moves {vec, d} {d} s3 st'"
    "cell_at st' d = Some (m, y)" "unat (m_size m) = 8 * 4" "free_ok self m"
    by (rule vector_dropped [OF v(6,7)])
  have "leaves_buffer self 32 st st'" using leaves_bufferI [OF e(2) moves_trans [OF v(8) e(3)] e(4,6)] e(5) by simp
  then show thesis using that [of st'] v(1,3-5) p e(1) by (simp add: demo_vector_def)
qed

lemma vec_rep_cong: "cell_at st' = cell_at st \<Longrightarrow> vec_rep self st' vec data cap xs = vec_rep self st vec data cap xs"
  by (simp add: vec_rep_def)

text \<open>The part of the showcase after the vector: what it allocates it releases.\<close>

definition showcase_middle :: "tid \<Rightarrow> tid \<Rightarrow> 'x rt_scheme \<Rightarrow> failure + 'x rt_scheme" where
  "showcase_middle t self st =
     bindE (safe_region_create self 4096 st) (\<lambda>(region, st).
     bindE (safe_region_alloc self region 64 st) (\<lambda>(entity1, st).
     bindE (safe_region_alloc self region 128 st) (\<lambda>(entity2, st).
     bindE (safe_region_free self region st) (\<lambda>st.
     bindE (owner_malloc self 256 st) (\<lambda>(cross_thread_data, st).
     bindE (ownership_share self cross_thread_data st) (\<lambda>st.
     bindE (thread_worker t cross_thread_data st) (\<lambda>st.
     bindE (ownership_stats st) (owner_free_cleanup self cross_thread_data))))))))"

lemma showcase_middle_run:
  assumes "rt_wf st"
  obtains st' where "showcase_middle t self st = Inr st'" and "rt_wf st'" and "moves {} {} st st'"
proof -
  obtain arena R s0 where s0: "safe_region_create self 4096 st = Inr (arena, s0)" "rt_wf s0" "arena_ok self s0 arena R"
    "moves {} R st s0"
    by (rule region_create_step [OF assms, of 4096]) simp_all
  obtain p1 R1 s1 where s1: "safe_region_alloc self arena 64 s0 = Inr (p1, s1)" "rt_wf s1" "arena_ok self s1 arena R1"
    "moves R R1 s0 s1"
    by (rule region_alloc_step [OF s0(2,3), of 64]) (simp_all add: bump_fits_def)
  obtain p2 R2 s2 where s2: "safe_region_alloc self arena 128 s1 = Inr (p2, s2)" "rt_wf s2" "arena_ok self s2 arena R2"
    "moves R1 R2 s1 s2"
    by (rule region_alloc_step [OF s1(2,3), of 128]) (simp_all add: bump_fits_def)
  obtain s3 where s3: "safe_region_free self arena s2 = Inr s3" "rt_wf s3" "moves R2 {} s2 s3"
    by (rule arena_free [OF s2(2,3)])
  have n: "unat (256 :: size_t) + 80 < 2 ^ 64" by simp
  obtain p s4 s5 s6 where o: "owner_malloc self 256 s3 = Inr (p, s4)" "ownership_share self p s4 = Inr s5"
    "thread_worker t p s5 = Inr s6" "rt_wf s6" 
    "\<forall>s7. rt_wf s7 \<and> moves {} {} s6 s7 \<longrightarrow> (\<exists>s8. owner_free_cleanup self p s7 = Inr s8 \<and> rt_wf s8 \<and> moves {} {} s3 s8)"
    by (rule shared_object_step [OF s3(2) n, of self t])
  obtain s7 where s7: "ownership_stats s6 = Inr s7" "rt_wf s7" "moves {} {} s6 s7" by (rule stats_step [OF o(4)])
  obtain s8 where s8: "owner_free_cleanup self p s7 = Inr s8" "rt_wf s8" "moves {} {} s3 s8" using o(5) s7(2,3) by blast
  have "moves {} {} st s8" using s0(4) s1(4) s2(4) s3(3) s8(3) moves_trans by blast
  then show thesis using that [of s8] s0(1) s1(1) s2(1) s3(1) o(1-3) s7(1) s8(1,2) by (simp add: showcase_middle_def)
qed

lemma demo_full_showcase_run:
  assumes "rt_wf st" and "room 4 D st" and "1104 \<le> D" and "a \<noteq> 0"
  obtains st' where "demo_full_showcase t self stack a st = Inr (stack a, st')" and "leaves_buffer self 40 st st'"
proof -
  have r: "room (Suc 3) D st" using assms(2) by (simp add: numeral_eq_Suc)
  obtain s where w: "do_work self st = Inr s" "rt_wf s" "moves {} {} st s" "room 3 D s"
    by (rule work_step [OF assms(1) r assms(3), of self])
  have r: "room (Suc (Suc 1)) D s" using w(4) by (simp add: numeral_eq_Suc)
  obtain vec d s0 where s0: "safe_vector_create self 5 s = Inr (vec, s0)" "rt_wf s0" "vec \<noteq> 0"
    "vec_rep self s0 vec d (unat (5 :: size_t)) []" "moves {} {vec, d} s s0" "room 1 D s0" "cell_at s d = None"
    by (rule vector_create_step [OF w(2) r, of 5]) (use assms(3) in simp_all)
  have r0: "room (Suc 0) D s0" using s0(6) by simp
  obtain d1 s1 where s1: "safe_vector_push self vec a s0 = Inr s1" "rt_wf s1" "vec_rep self s1 vec d1 5 [a]"
    "moves {vec, d} {vec, d1} s0 s1"
    by (rule vector_push_step [OF s0(2,4) r0, of a]) (use assms(3) in simp_all)
  have g: "safe_vector_get vec 0 s1 = Inr a" using safe_vector_get_rep [OF s1(2,3), of 0] by simp
  have x: "stack_read stack a = Inr (stack a)" using assms(4) by (simp add: stack_read_def)
  obtain s2 where s2: "showcase_middle t self s1 = Inr s2" "rt_wf s2" "moves {} {} s1 s2"
    by (rule showcase_middle_run [OF s1(2)])
  have v: "vec_rep self s2 vec d1 5 [a]" using s1(3) s2(3) by (simp add: moves_same vec_rep_cong [of s2 s1])
  obtain m y st' where e: "owner_free_cleanup self vec s2 = Inr st'" "rt_wf st'" "moves {vec, d1} {d1} s2 st'"
    "cell_at st' d1 = Some (m, y)" "unat (m_size m) = 8 * 5" "free_ok self m"
    by (rule vector_dropped [OF s2(2) v])
  have "moves {vec, d1} {vec, d1} s1 s2" using moves_frame [OF s2(3), of "{vec, d1}"] by simp
  then have "moves {} {d1} st st'" using w(3) s0(5) s1(4) e(3) moves_trans by blast
  then have l: "leaves_buffer self 40 st st'" using leaves_bufferI [OF e(2) _ e(4,6)] e(5) by simp
  have "demo_full_showcase t self stack a st =
      bindE (showcase_middle t self s1) (\<lambda>st. bindE (owner_free_cleanup self vec st) (\<lambda>st. Inr (stack a, st)))"
    using w(1) s0(1) s1(1) g x unfolding demo_full_showcase_def showcase_middle_def
    by (simp add: bindE_assoc split_def)
  then show thesis using that [OF _ l] s2(1) e(1) by simp
qed

text \<open>The other two leave the heap as they found it.\<close>

lemma demo_raii_run:
  assumes "rt_wf st" and "room 1 D st" and "1104 \<le> D"
  obtains st' where "demo_raii self st = Inr st'" and "rt_wf st'" and "cell_at st' = cell_at st"
proof -
  have r: "room (Suc 0) D st" using assms(2) by simp
  obtain s where w: "do_work self st = Inr s" "rt_wf s" "moves {} {} st s"
    by (rule work_step [OF assms(1) r assms(3), of self])
  obtain s' where s': "ownership_stats s = Inr s'" "rt_wf s'" "moves {} {} s s'" by (rule stats_step [OF w(2)])
  then show thesis using that [of s'] w by (simp add: demo_raii_def moves_same)
qed

lemma demo_threads_run:
  assumes "rt_wf st"
  obtains st' where "demo_threads t self st = Inr st'" and "rt_wf st'" and "cell_at st' = cell_at st"
proof -
  have n: "unat (128 :: size_t) + 80 < 2 ^ 64" by simp
  obtain p s0 s1 s2 where o: "owner_malloc self 128 st = Inr (p, s0)" "ownership_share self p s0 = Inr s1"
    "thread_worker t p s1 = Inr s2" "rt_wf s2"
    "\<forall>s3. rt_wf s3 \<and> moves {} {} s2 s3 \<longrightarrow> (\<exists>s4. owner_free_cleanup self p s3 = Inr s4 \<and> rt_wf s4 \<and> moves {} {} st s4)"
    by (rule shared_object_step [OF assms n, of self t])
  obtain s4 where "owner_free_cleanup self p s2 = Inr s4" "rt_wf s4" "moves {} {} st s4" using o(4,5) moves_refl by blast
  then show thesis using that [of s4] o(1-3) by (simp add: demo_threads_def moves_same)
qed

subsection \<open>The outcome of the programs\<close>

text \<open>C38: with memory for what they allocate, \<open>demo_raii.c\<close> and \<open>demo_threads.c\<close> leave the heap as they found
  it.  \<open>demo_vector.c\<close> and \<open>demo_full_showcase.c\<close> print what was pushed, in the order of the pushes, and everything
  they allocate is released but the buffer of their vector: 32 and 40 bytes, which the leak check reports when they
  end, with the exit status 1.\<close>

theorem programs_leave_behind:
  assumes "rt_wf st" and "room 5 1104 st" and "a \<noteq> 0" and "b \<noteq> 0" and "c \<noteq> 0"
  shows "(\<exists>st'. demo_raii self st = Inr st' \<and> cell_at st' = cell_at st) \<and>
    (\<exists>st'. demo_threads t self st = Inr st' \<and> cell_at st' = cell_at st) \<and>
    (\<exists>st'. demo_vector self stack a b c st = Inr ([stack a, stack b, stack c], st') \<and> leaks_at_exit 32 st st') \<and>
    (\<exists>st'. demo_full_showcase t self stack a st = Inr (stack a, st') \<and> leaks_at_exit 40 st st')"
proof (intro conjI)
  have r1: "room 1 1104 st" and r4: "room 4 1104 st" using room_less [OF assms(2)] by simp_all
  show "\<exists>st'. demo_raii self st = Inr st' \<and> cell_at st' = cell_at st"
    by (rule demo_raii_run [OF assms(1) r1]) auto
  show "\<exists>st'. demo_threads t self st = Inr st' \<and> cell_at st' = cell_at st"
    by (rule demo_threads_run [OF assms(1)]) auto
  show "\<exists>st'. demo_vector self stack a b c st = Inr ([stack a, stack b, stack c], st') \<and> leaks_at_exit 32 st st'"
    by (rule demo_vector_run [OF assms(1,2) _ assms(3-5)]) (auto dest: leaves_buffer_reported)
  show "\<exists>st'. demo_full_showcase t self stack a st = Inr (stack a, st') \<and> leaks_at_exit 40 st st'"
    by (rule demo_full_showcase_run [OF assms(1) r4 _ assms(3)]) (auto dest: leaves_buffer_reported)
qed

definition showcase_state :: rt where
  "showcase_state = rt_init (map (\<lambda>i. of_nat (0x1000 * Suc i)) [0..<8]) 1 2 3"

theorem programs_leave_behind_witness:
  "\<exists>st'. demo_vector 1 (\<lambda>p. if p = 0x7FF0 then 10 else if p = 0x7FF4 then 20 else 30) 0x7FF0 0x7FF4 0x7FF8 showcase_state =
     Inr ([10, 20, 30], st') \<and> leaks_at_exit 32 showcase_state st'"
proof -
  have "rt_wf showcase_state" unfolding showcase_state_def by (rule rt_wf_init)
  moreover have "room 5 1104 showcase_state"
    by (rule room_spaced [where g = "0x1000" and n = 8]) (simp_all add: showcase_state_def rt_init_def)
  ultimately show ?thesis
    using programs_leave_behind [of showcase_state "0x7FF0" "0x7FF4" "0x7FF8" 1 2
        "\<lambda>p. if p = 0x7FF0 then 10 else if p = 0x7FF4 then 20 else 30"] by simp
qed

end
