(* ===== verification/Tests.thy ===== *)
theory Tests
  imports Showcase
begin

text \<open>
  The programs under \<open>tests/\<close>.  Some misuse an object and expect to be stopped with a report, one expects the leak
  check to stop it, the others expect to end with the status 0.  A pointer to an object of \<open>n\<close> bytes is passed to
  \<open>memset\<close> as in \<open>test_malloc.c\<close>; \<open>memset\<close> is the loop over the bytes.
\<close>

subsection \<open>The programs\<close>

text \<open>The end of \<open>main\<close>: the handler registered with \<open>atexit\<close> runs, and its \<open>exit(1)\<close> replaces the status.\<close>

definition exits :: "failure + (int \<times> 'x rt_scheme) \<Rightarrow> failure + (int \<times> 'x rt_scheme)" where
  "exits r = bindE r (\<lambda>(status, st).
     bindE (check_leaks st) (\<lambda>(e, st). Inr (case e of None \<Rightarrow> status | Some s \<Rightarrow> s, st)))"

text \<open>\<open>test_doublefree.c\<close>, \<open>test_uaf.c\<close>, \<open>test_borrow.c\<close> and \<open>test_leaks.c\<close>.\<close>

definition test_doublefree :: "tid \<Rightarrow> 'x rt_scheme \<Rightarrow> failure + (int \<times> 'x rt_scheme)" where
  "test_doublefree self st =
     exits (bindE (owner_malloc self 100 st) (\<lambda>(ptr, st).
       if ptr = 0 then Inr (1, st)
       else bindE (owner_free self ptr st) (\<lambda>st.
            bindE (owner_free self ptr st) (\<lambda>st. Inr (0, st)))))"

definition test_uaf :: "tid \<Rightarrow> 'x rt_scheme \<Rightarrow> failure + (int \<times> 'x rt_scheme)" where
  "test_uaf self st =
     exits (bindE (owner_malloc self 100 st) (\<lambda>(ptr, st).
       if ptr = 0 then Inr (1, st)
       else bindE (owner_free self ptr st) (\<lambda>st.
            bindE (owner_realloc self ptr 200 st) (\<lambda>(unused, st). Inr (0, st)))))"

definition test_borrow :: "tid \<Rightarrow> 'x rt_scheme \<Rightarrow> failure + (int \<times> 'x rt_scheme)" where
  "test_borrow self st =
     exits (bindE (owner_malloc self 100 st) (\<lambda>(ptr, st).
       if ptr = 0 then Inr (1, st)
       else bindE (ownership_borrow self ptr st) (\<lambda>st.
            bindE (owner_free self ptr st) (\<lambda>st. Inr (0, st)))))"

definition test_leaks :: "tid \<Rightarrow> 'x rt_scheme \<Rightarrow> failure + (int \<times> 'x rt_scheme)" where
  "test_leaks self st =
     exits (bindE (owner_malloc self 100 st) (\<lambda>(ptr, st).
       if ptr = 0 then Inr (1, st) else Inr (0, st)))"

text \<open>\<open>test_thread_violation.c\<close>: the thread \<open>t\<close> runs between \<open>pthread_create\<close> and \<open>pthread_join\<close>.\<close>

definition test_thread_violation :: "tid \<Rightarrow> tid \<Rightarrow> 'x rt_scheme \<Rightarrow> failure + (int \<times> 'x rt_scheme)" where
  "test_thread_violation t self st =
     exits (bindE (owner_malloc self 100 st) (\<lambda>(ptr, st).
       bindE (owner_free t ptr st) (\<lambda>st. Inr (0, st))))"

text \<open>\<open>test_malloc.c\<close>, \<open>test_hybrid_compile.c\<close>, \<open>test_raii.c\<close>, \<open>test_region.c\<close> and \<open>test_vector.c\<close>.\<close>

definition memset :: "addr \<Rightarrow> byte \<Rightarrow> nat \<Rightarrow> 'x rt_scheme \<Rightarrow> failure + 'x rt_scheme" where
  "memset p c n st = foldE (\<lambda>i st. store_byte p i c st) [0..<n] st"

definition test_malloc :: "tid \<Rightarrow> 'x rt_scheme \<Rightarrow> failure + (int \<times> 'x rt_scheme)" where
  "test_malloc self st =
     exits (bindE (owner_malloc self 100 st) (\<lambda>(ptr, st).
       if ptr = 0 then Inr (1, st)
       else bindE (memset ptr 65 100 st) (\<lambda>st.
            bindE (owner_calloc self 10 4 st) (\<lambda>(ptr2, st).
              if ptr2 = 0 then Inr (1, st)
              else bindE (owner_realloc self ptr 200 st) (\<lambda>(ptr3, st).
                   if ptr3 = 0 then Inr (1, st)
                   else bindE (owner_free self ptr2 st) (\<lambda>st.
                        bindE (owner_free self ptr3 st) (\<lambda>st. Inr (0, st))))))))"

definition test_hybrid_compile :: "tid \<Rightarrow> 'x rt_scheme \<Rightarrow> failure + (int \<times> 'x rt_scheme)" where
  "test_hybrid_compile self st =
     exits (bindE (owner_malloc self 10 st) (\<lambda>(ptr, st).
       bindE (owner_free self ptr st) (\<lambda>st. Inr (0, st))))"

definition test_raii :: "tid \<Rightarrow> 'x rt_scheme \<Rightarrow> failure + (int \<times> 'x rt_scheme)" where
  "test_raii self st =
     exits (bindE (owner_malloc self 128 st) (\<lambda>(ptr, st).
       bindE (owner_free_cleanup self ptr st) (\<lambda>st.
       bindE (ownership_stats st) (\<lambda>st. Inr (0, st)))))"

definition test_region :: "tid \<Rightarrow> 'x rt_scheme \<Rightarrow> failure + (int \<times> 'x rt_scheme)" where
  "test_region self st =
     exits (bindE (safe_region_create self 1024 st) (\<lambda>(region, st).
       if region = 0 then Inr (1, st)
       else bindE (safe_region_alloc self region 100 st) (\<lambda>(ptr1, st).
            bindE (safe_region_alloc self region 2000 st) (\<lambda>(ptr2, st).
              if ptr1 = 0 \<or> ptr2 = 0 then Inr (1, st)
              else bindE (ownership_stats st) (\<lambda>st.
                   bindE (safe_region_free self region st) (\<lambda>st. Inr (0, st)))))))"

definition test_vector :: "tid \<Rightarrow> addr \<Rightarrow> addr \<Rightarrow> addr \<Rightarrow> 'x rt_scheme \<Rightarrow> failure + (int \<times> 'x rt_scheme)" where
  "test_vector self a b c st =
     exits (bindE (safe_vector_create self 2 st) (\<lambda>(vec, st).
       if vec = 0 then Inr (1, st)
       else bindE (safe_vector_push self vec a st) (\<lambda>st.
            bindE (safe_vector_push self vec b st) (\<lambda>st.
            bindE (safe_vector_push self vec c st) (\<lambda>st.
            bindE (safe_vector_get vec 5 st) (\<lambda>item. Inr (0, st)))))))"

text \<open>\<open>test_threads.c\<close>: where a thread is, its next call, and the calls of two threads in the order of a schedule.\<close>

datatype thread_at = TStart | TInspect addr | TFree addr | TEnd

fun thread_func :: "tid \<Rightarrow> thread_at \<Rightarrow> 'x rt_scheme \<Rightarrow> failure + (thread_at \<times> 'x rt_scheme)" where
  "thread_func t TStart st = bindE (owner_malloc t 50 st) (\<lambda>(ptr, st). Inr (TInspect ptr, st))"
| "thread_func t (TInspect ptr) st = bindE (ownership_inspect ptr st) (\<lambda>st. Inr (TFree ptr, st))"
| "thread_func t (TFree ptr) st = bindE (owner_free t ptr st) (\<lambda>st. Inr (TEnd, st))"
| "thread_func t TEnd st = Inr (TEnd, st)"

fun thread_turn ::
    "tid \<Rightarrow> tid \<Rightarrow> bool \<Rightarrow> thread_at \<times> thread_at \<times> 'x rt_scheme \<Rightarrow> failure + (thread_at \<times> thread_at \<times> 'x rt_scheme)" where
  "thread_turn t1 t2 True (w1, w2, st) = bindE (thread_func t1 w1 st) (\<lambda>(w1, st). Inr (w1, w2, st))"
| "thread_turn t1 t2 False (w1, w2, st) = bindE (thread_func t2 w2 st) (\<lambda>(w2, st). Inr (w1, w2, st))"

text \<open>\<open>main\<close> waits for both threads: \<open>Blocked\<close> when the schedule stops before they have ended.\<close>

definition test_threads :: "tid \<Rightarrow> tid \<Rightarrow> bool list \<Rightarrow> 'x rt_scheme \<Rightarrow> failure + (int \<times> 'x rt_scheme)" where
  "test_threads t1 t2 sched st =
     exits (bindE (foldE (thread_turn t1 t2) sched (TStart, TStart, st)) (\<lambda>(w1, w2, st).
       if w1 = TEnd \<and> w2 = TEnd then Inr (0, st) else Inl Blocked))"

subsection \<open>Misuse of an object\<close>

text \<open>What the next call finds of an object that was just freed.\<close>

lemma freed_found:
  assumes "rt_wf st" and "cell_at st p = Some (m, x)" and "free_ok self m" and "owner_free self p st = Inr st'"
  obtains k where "get_meta st' p = Inr (Some k)" and "m_state k = FREED"
proof -
  obtain L where L: "rt_rep st L" using rt_wf_rep [OF assms(1)] by blast
  obtain m' where m': "get_meta st p = Inr (Some m')" "m = bare m'" using assms(2) by (rule cell_at_meta)
  have "free_ok self m'" using assms(3) m'(2) by simp
  note v = owner_free_internal_view(1) [OF L m'(1) this assms(4) [unfolded owner_free_def]]
  then have "obj_at st' p = Some (bare (freed_meta None 0 m'))" by simp
  then obtain k where k: "get_meta st' p = Inr (Some k)" "bare k = bare (freed_meta None 0 m')"
    by (auto simp: obj_at_Some)
  have "m_state k = FREED" using arg_cong [OF k(2), of m_state] by (simp add: bare_def)
  then show thesis by (rule that [OF k(1)])
qed

lemma exits_failure [simp]: "exits (Inl f) = Inl f"
  by (simp add: exits_def)

text \<open>With nothing alive the status stays as it is.\<close>

definition ends_with :: "int \<Rightarrow> failure + (int \<times> 'x rt_scheme) \<Rightarrow> bool" where
  "ends_with k r \<longleftrightarrow> (\<exists>st'. r = Inr (k, st') \<and> cell_at st' = Map.empty)"

lemma exits_clean:
  assumes "rt_wf st" and "cell_at st = Map.empty"
  shows "ends_with k (exits (Inr (k, st)))"
proof -
  obtain L where L: "rt_rep st L" using rt_wf_rep [OF assms(1)] by blast
  have dead: "\<not> live st p" for p using fun_cong [OF assms(2), of p] by (simp add: cell_at_None)
  then have "\<not> leaked st p" for p using leaked_live by blast
  then have none: "filter (leaked st) (objects L) = []" by simp
  obtain st' where c: "check_leaks st = Inr (if filter (leaked st) (objects L) = [] then None else Some 1, st')"
    and l: "\<forall>p. live st' p = live st p \<and> (live st p \<longrightarrow> obj_at st' p = obj_at st p)"
    by (rule check_leaks_rep [OF L])
  have "cell_at st' = Map.empty" using l dead by (auto simp: fun_eq_iff cell_at_def)
  then show ?thesis using c none by (simp add: exits_def ends_with_def)
qed

lemma exits_leak:
  assumes "rt_wf st" and "cell_at st p = Some (m, x)" and "free_ok self m"
  shows "\<exists>st' fl ln. exits (Inr (k, st)) = Inr (1, st') \<and> EvLeak p (m_size m) fl ln \<in> set (out st')"
proof -
  obtain st' fl ln where "check_leaks st = Inr (Some 1, st')" "EvLeak p (m_size m) fl ln \<in> set (out st')"
    by (rule leak_reported [OF assms])
  then show ?thesis by (auto simp: exits_def)
qed

text \<open>An object of 100 bytes, and each of the ways to misuse it.\<close>

lemma misuse_outcomes:
  assumes "rt_wf st" and "cell_at st p = Some (fresh_meta self n, x)"
  shows "bindE (owner_free self p st) (owner_free self p) = Inl (Fatal ''Double-free'' p None 0)"
    and "sz \<noteq> 0 \<Longrightarrow> bindE (owner_free self p st) (owner_realloc self p sz) =
      Inl (Fatal ''Use-after-free (Realloc on freed pointer)'' p None 0)"
    and "bindE (ownership_borrow self p st) (owner_free self p) = Inl (Fatal ''Freeing borrowed object'' p None 0)"
    and "t \<noteq> self \<Longrightarrow> owner_free t p st = Inl (Fatal ''Thread Ownership Violation (Free)'' p None 0)"
proof -
  have p0: "p \<noteq> 0" by (rule cell_at_nonnull [OF assms(2)])
  obtain s where s: "owner_free self p st = Inr s"
    by (rule heap.release_obtain [OF assms fresh_meta_simps(1)])
  obtain k where k: "get_meta s p = Inr (Some k)" "m_state k = FREED"
    by (rule freed_found [OF assms fresh_meta_simps(1) s])
  show "bindE (owner_free self p st) (owner_free self p) = Inl (Fatal ''Double-free'' p None 0)"
    using s k p0 by (simp add: owner_free_def owner_free_internal_def)
  show "bindE (owner_free self p st) (owner_realloc self p sz) =
      Inl (Fatal ''Use-after-free (Realloc on freed pointer)'' p None 0)" if "sz \<noteq> 0"
    using s k p0 that by (simp add: owner_realloc_def owner_realloc_internal_def)
  have f: "m_state (fresh_meta self n) = OWNED" "m_owner_thread (fresh_meta self n) = self"
    "m_borrow_count (fresh_meta self n) = 0"
    by (simp_all add: fresh_meta_def new_meta_def bare_def)
  have b: "m_state (fresh_meta self n) = SHARED \<or> m_owner_thread (fresh_meta self n) = self"
    "m_borrow_count (fresh_meta self n) < INT_MAX" using f by (simp_all add: INT_MAX_def)
  obtain s1 where s1: "ownership_borrow self p st = Inr s1" "rt_wf s1" "rt.more s1 = rt.more st"
    "cell_at s1 = (cell_at st)(p \<mapsto> (borrowed_meta (fresh_meta self n), x))"
    by (rule ownership_borrow_cells [OF assms b])
  have "cell_at s1 p = Some (borrowed_meta (fresh_meta self n), x)" using s1(4) by simp
  then obtain m' where m': "get_meta s1 p = Inr (Some m')" "borrowed_meta (fresh_meta self n) = bare m'" "m_state m' \<noteq> FREED"
    by (rule cell_at_meta)
  have "m_borrow_count m' = 1"
    using arg_cong [OF m'(2), of m_borrow_count] f by (simp add: bare_def borrowed_meta_def)
  then show "bindE (ownership_borrow self p st) (owner_free self p) = Inl (Fatal ''Freeing borrowed object'' p None 0)"
    using s1(1) m' p0 by (simp add: owner_free_def owner_free_internal_def)
  obtain m where m: "get_meta st p = Inr (Some m)" "fresh_meta self n = bare m" "m_state m \<noteq> FREED"
    using assms(2) by (rule cell_at_meta)
  have "m_owner_thread m = self" "m_state m = OWNED" "m_borrow_count m = 0"
    using arg_cong [OF m(2), of m_owner_thread] arg_cong [OF m(2), of m_state] arg_cong [OF m(2), of m_borrow_count] f
    by (simp_all add: bare_def)
  then show "owner_free t p st = Inl (Fatal ''Thread Ownership Violation (Free)'' p None 0)" if "t \<noteq> self"
    using m(1) p0 that by (simp add: owner_free_def owner_free_internal_def)
qed

text \<open>C34: the tests that misuse an object are stopped, whatever memory there is.  They begin with nothing alive and ask
  for 100 bytes.  When they get an object, freeing it twice, resizing it after it was freed, freeing it while it is
  borrowed and freeing it on another thread end in the report of exactly that; when it is not freed, the leak check
  reports it with its size and the status is 1.  Without memory nothing is reported: the status is 1, and 0 for the
  test with two threads, which does not look at the pointer.\<close>

theorem misuse_tests_stop:
  assumes "rt_wf st" and "cell_at st = Map.empty" and "t \<noteq> self"
  shows "\<exists>p s. owner_malloc self 100 st = Inr (p, s) \<and>
    (p \<noteq> 0 \<longrightarrow>
       test_doublefree self st = Inl (Fatal ''Double-free'' p None 0) \<and>
       test_uaf self st = Inl (Fatal ''Use-after-free (Realloc on freed pointer)'' p None 0) \<and>
       test_borrow self st = Inl (Fatal ''Freeing borrowed object'' p None 0) \<and>
       test_thread_violation t self st = Inl (Fatal ''Thread Ownership Violation (Free)'' p None 0) \<and>
       (\<exists>st' fl ln. test_leaks self st = Inr (1, st') \<and> EvLeak p 100 fl ln \<in> set (out st'))) \<and>
    (p = 0 \<longrightarrow>
       ends_with 1 (test_doublefree self st) \<and> ends_with 1 (test_uaf self st) \<and> ends_with 1 (test_borrow self st) \<and>
       ends_with 1 (test_leaks self st) \<and> ends_with 0 (test_thread_violation t self st))"
proof -
  have n: "unat (100 :: size_t) + 80 < 2 ^ 64" by simp
  from assms(1) n show ?thesis
  proof (cases rule: heap.alloc_cases [where self = self])
    case (null s)
    have "ends_with k (exits (Inr (k, s)))" for k using exits_clean [OF null(2)] null(4) assms(2) by simp
    then show ?thesis
      using null(1) by (simp add: test_doublefree_def test_uaf_def test_borrow_def test_leaks_def test_thread_violation_def
          owner_free_def owner_free_internal_def)
  next
    case (object p s)
    have c: "cell_at s p = Some (fresh_meta self 100, Filled 0xAA)" using object(6) by simp
    note o = misuse_outcomes [OF object(3) c]
    have "test_doublefree self st = Inl (Fatal ''Double-free'' p None 0)"
      using object(1,2) o(1) by (simp add: test_doublefree_def flip: bindE_assoc)
    moreover have "test_uaf self st = Inl (Fatal ''Use-after-free (Realloc on freed pointer)'' p None 0)"
      using object(1,2) o(2) [of 200] by (simp add: test_uaf_def flip: bindE_assoc)
    moreover have "test_borrow self st = Inl (Fatal ''Freeing borrowed object'' p None 0)"
      using object(1,2) o(3) by (simp add: test_borrow_def flip: bindE_assoc)
    moreover have "test_thread_violation t self st = Inl (Fatal ''Thread Ownership Violation (Free)'' p None 0)"
      using object(1) o(4) [OF assms(3)] by (simp add: test_thread_violation_def)
    moreover have "\<exists>st' fl ln. test_leaks self st = Inr (1, st') \<and> EvLeak p 100 fl ln \<in> set (out st')"
      using exits_leak [OF object(3) c fresh_meta_simps(1), of 0] object(1,2) by (simp add: test_leaks_def)
    ultimately show ?thesis using object(1,2) by blast
  qed
qed

subsection \<open>Two threads\<close>

fun held :: "thread_at \<Rightarrow> addr set" where
  "held (TInspect p) = {p} - {0}"
| "held (TFree p) = {p} - {0}"
| "held _ = {}"

fun calls_made :: "thread_at \<Rightarrow> nat" where
  "calls_made TStart = 0"
| "calls_made (TInspect _) = 1"
| "calls_made (TFree _) = 2"
| "calls_made TEnd = 3"

definition thread_ok :: "tid \<Rightarrow> thread_at \<Rightarrow> 'x rt_scheme \<Rightarrow> bool" where
  "thread_ok t w st \<longleftrightarrow> (\<forall>p \<in> held w. cell_at st p = Some (fresh_meta t 50, Filled 0xAA))"

lemma inspect_step:
  assumes "rt_wf st" and "p = 0 \<or> cell_at st p = Some (m, x)"
  obtains st' where "ownership_inspect p st = Inr st'" and "rt_wf st'" and "cell_at st' = cell_at st" and "rt.more st' = rt.more st"
proof -
  obtain e where e: "ownership_inspect p st = Inr (emit e st)"
  proof (cases "p = 0")
    case True
    then show thesis using that by (simp add: ownership_inspect_def get_meta_def)
  next
    case False
    then obtain k where "get_meta st p = Inr (Some k)" using assms(2) cell_at_meta by metis
    then show thesis using that by (simp add: ownership_inspect_def)
  qed
  obtain L where "rt_rep st L" using rt_wf_rep [OF assms(1)] by blast
  then have "rt_inv (emit e st)" by (auto simp: rt_inv_def)
  moreover have "ring_of (emit e st) = ring_of st" by (simp add: ring_of_def emit_def)
  ultimately have "rt_wf (emit e st)" using assms(1) by (simp add: rt_wf_def)
  moreover have "cell_at (emit e st) = cell_at st" "rt.more (emit e st) = rt.more st"
    by (simp_all add: emit_def cell_at_def live_def obj_at_def get_meta_def fun_eq_iff)
  ultimately show thesis by (rule that [OF e])
qed

text \<open>A thread moves its own object only.\<close>

lemma thread_step:
  assumes "rt_wf st" and "thread_ok t w st"
  obtains w' st' where "thread_func t w st = Inr (w', st')" and "rt_wf st'" and "thread_ok t w' st'"
    and "moves (held w) (held w') st st'" and "calls_made w' = min 3 (Suc (calls_made w))"
proof (cases w)
  case TStart
  have n: "unat (50 :: size_t) + 80 < 2 ^ 64" by simp
  from assms(1) n show thesis
  proof (cases rule: heap.alloc_cases [where self = t])
    case (null s)
    then show thesis using that [of "TInspect 0" s] TStart by (simp add: moves_same thread_ok_def)
  next
    case (object p s)
    have "moves {} {p} st s" using object(4-6) by (auto simp: moves_def restrict_map_def fun_eq_iff)
    then show thesis using that [of "TInspect p" s] TStart object by (simp add: thread_ok_def)
  qed
next
  case (TInspect p)
  then have "p = 0 \<or> cell_at st p = Some (fresh_meta t 50, Filled 0xAA)" using assms(2) by (auto simp: thread_ok_def)
  with assms(1) obtain s where "ownership_inspect p st = Inr s" "rt_wf s" "cell_at s = cell_at st" "rt.more s = rt.more st"
    by (rule inspect_step)
  then show thesis using that [of "TFree p" s] TInspect assms(2) by (simp add: thread_ok_def moves_def)
next
  case (TFree p)
  show thesis
  proof (cases "p = 0")
    case True
    then show thesis using that [of TEnd st] TFree assms(1)
      by (simp add: owner_free_def owner_free_internal_def thread_ok_def)
  next
    case False
    then have c: "cell_at st p = Some (fresh_meta t 50, Filled 0xAA)" using TFree assms(2) by (simp add: thread_ok_def)
    obtain s where "owner_free_cleanup t p st = Inr s" "rt_wf s" "moves {p} {} st s"
      by (rule cleanup_step [OF assms(1) c fresh_meta_simps(1)])
    then show thesis using that [of TEnd s] TFree False by (simp add: owner_free_cleanup_def thread_ok_def)
  qed
next
  case TEnd
  then show thesis using that [of TEnd st] assms(1) by (simp add: thread_ok_def)
qed

definition threads_inv ::
    "tid \<Rightarrow> tid \<Rightarrow> 'x rt_scheme \<Rightarrow> thread_at \<times> thread_at \<times> 'x rt_scheme \<Rightarrow> bool" where
  "threads_inv t1 t2 st0 = (\<lambda>(w1, w2, st). rt_wf st \<and> thread_ok t1 w1 st \<and> thread_ok t2 w2 st \<and>
     held w1 \<inter> held w2 = {} \<and> moves {} (held w1 \<union> held w2) st0 st)"

text \<open>One thread's step, with what the other one has in its frame.\<close>

lemma thread_beside:
  assumes "rt_wf st" and "thread_ok t w st" and "thread_ok u v st" and "held w \<inter> held v = {}"
    and "moves {} (held w \<union> held v) st0 st"
  obtains w' st' where "thread_func t w st = Inr (w', st')" and "rt_wf st'" and "thread_ok t w' st'"
    and "thread_ok u v st'" and "held w' \<inter> held v = {}" and "moves {} (held w' \<union> held v) st0 st'"
    and "calls_made w' = min 3 (Suc (calls_made w))"
proof -
  obtain w' st' where s: "thread_func t w st = Inr (w', st')" "rt_wf st'" "thread_ok t w' st'"
    "moves (held w) (held w') st st'" "calls_made w' = min 3 (Suc (calls_made w))"
    by (rule thread_step [OF assms(1,2)])
  have k: "cell_at st' q = Some (fresh_meta u 50, Filled 0xAA) \<and> q \<notin> held w'" if "q \<in> held v" for q
    using moves_cell [OF s(4), of q] assms(3,4) that by (auto simp: thread_ok_def)
  then have "thread_ok u v st'" "held w' \<inter> held v = {}" by (auto simp: thread_ok_def)
  then show thesis using that s moves_trans [OF assms(5) moves_frame [OF s(4)]] by blast
qed

lemma thread_turn_step:
  assumes "threads_inv t1 t2 st0 (w1, w2, st)"
  obtains w1' w2' st' where "thread_turn t1 t2 b (w1, w2, st) = Inr (w1', w2', st')"
    and "threads_inv t1 t2 st0 (w1', w2', st')"
    and "calls_made w1' = (if b then min 3 (Suc (calls_made w1)) else calls_made w1)"
    and "calls_made w2' = (if b then calls_made w2 else min 3 (Suc (calls_made w2)))"
proof -
  have i: "rt_wf st" "thread_ok t1 w1 st" "thread_ok t2 w2 st" "held w1 \<inter> held w2 = {}" "moves {} (held w1 \<union> held w2) st0 st"
    using assms by (simp_all add: threads_inv_def)
  show thesis
  proof (cases b)
    case True
    obtain w st' where s: "thread_func t1 w1 st = Inr (w, st')" "rt_wf st'" "thread_ok t1 w st'" "thread_ok t2 w2 st'"
      "held w \<inter> held w2 = {}" "moves {} (held w \<union> held w2) st0 st'" "calls_made w = min 3 (Suc (calls_made w1))"
      by (rule thread_beside [OF i])
    then show thesis using that [of w w2 st'] True by (simp add: threads_inv_def)
  next
    case False
    have i': "held w2 \<inter> held w1 = {}" "moves {} (held w2 \<union> held w1) st0 st" using i(4,5) by (auto simp: Un_commute)
    obtain w st' where s: "thread_func t2 w2 st = Inr (w, st')" "rt_wf st'" "thread_ok t2 w st'" "thread_ok t1 w1 st'"
      "held w \<inter> held w1 = {}" "moves {} (held w \<union> held w1) st0 st'" "calls_made w = min 3 (Suc (calls_made w2))"
      by (rule thread_beside [OF i(1,3,2) i'])
    then show thesis using that [of w1 w st'] False by (simp add: threads_inv_def Un_commute Int_commute)
  qed
qed

lemma thread_turns_run:
  assumes "threads_inv t1 t2 st0 (w1, w2, st)"
  shows "\<exists>w1' w2' st'. foldE (thread_turn t1 t2) sched (w1, w2, st) = Inr (w1', w2', st') \<and>
    threads_inv t1 t2 st0 (w1', w2', st') \<and>
    calls_made w1' = min 3 (calls_made w1 + length (filter id sched)) \<and>
    calls_made w2' = min 3 (calls_made w2 + length (filter Not sched))"
  using assms
proof (induction sched arbitrary: w1 w2 st)
  case Nil
  have "calls_made w \<le> 3" for w by (cases w) simp_all
  then show ?case using Nil by (simp add: min_absorb2)
next
  case (Cons b sched)
  obtain v1 v2 s where s: "thread_turn t1 t2 b (w1, w2, st) = Inr (v1, v2, s)" "threads_inv t1 t2 st0 (v1, v2, s)"
    "calls_made v1 = (if b then min 3 (Suc (calls_made w1)) else calls_made w1)"
    "calls_made v2 = (if b then calls_made w2 else min 3 (Suc (calls_made w2)))"
    by (rule thread_turn_step [OF Cons.prems])
  from Cons.IH [OF s(2)] show ?case using s(1,3,4) by (auto split: if_splits)
qed

lemma all_calls: "calls_made w = 3 \<Longrightarrow> w = TEnd"
  by (cases w) simp_all

lemma test_threads_run:
  assumes "rt_wf st" and "cell_at st = Map.empty"
  shows "if 3 \<le> length (filter id sched) \<and> 3 \<le> length (filter Not sched) then ends_with 0 (test_threads t1 t2 sched st)
    else test_threads t1 t2 sched st = Inl Blocked"
proof -
  have "threads_inv t1 t2 st (TStart, TStart, st)" using assms(1) by (simp add: threads_inv_def thread_ok_def)
  from thread_turns_run [OF this, of sched] obtain w1 w2 st' where
    f: "foldE (thread_turn t1 t2) sched (TStart, TStart, st) = Inr (w1, w2, st')" and i: "threads_inv t1 t2 st (w1, w2, st')"
    and c: "calls_made w1 = min 3 (length (filter id sched))" "calls_made w2 = min 3 (length (filter Not sched))"
    by auto
  show ?thesis
  proof (cases "3 \<le> length (filter id sched) \<and> 3 \<le> length (filter Not sched)")
    case True
    then have "calls_made w1 = 3" "calls_made w2 = 3" using c by simp_all
    then have w: "w1 = TEnd" "w2 = TEnd" using all_calls by blast+
    have "rt_wf st'" "cell_at st' = Map.empty" using i w assms(2) by (simp_all add: threads_inv_def moves_same)
    then show ?thesis using exits_clean [of st' 0] f w True by (simp add: test_threads_def)
  next
    case False
    then have "w1 \<noteq> TEnd \<or> w2 \<noteq> TEnd" using c by auto
    then have "test_threads t1 t2 sched st = Inl Blocked" using f by (auto simp: test_threads_def)
    then show ?thesis by (simp only: if_not_P [OF False])
  qed
qed

subsection \<open>The tests that end well\<close>

lemma memset_cell:
  assumes "rt_wf st" and "cell_at st p = Some (m, x)" and "n \<le> unat (m_size m)"
  obtains y st' where "memset p c n st = Inr st'" and "rt_wf st'" and "rt.more st' = rt.more st"
    and "cell_at st' = (cell_at st)(p \<mapsto> (m, y))" and "\<forall>k D. room k D st \<longrightarrow> room k D st'"
proof -
  have "\<exists>y st'. memset p c k st = Inr st' \<and> rt_wf st' \<and> rt.more st' = rt.more st \<and>
      cell_at st' = (cell_at st)(p \<mapsto> (m, y)) \<and> (\<forall>k D. room k D st \<longrightarrow> room k D st')" if "k \<le> n" for k
    using that
  proof (induction k)
    case 0
    have "cell_at st = (cell_at st)(p \<mapsto> (m, x))" using assms(2) by auto
    then have "memset p c 0 st = Inr st \<and> rt_wf st \<and> rt.more st = rt.more st \<and> cell_at st = (cell_at st)(p \<mapsto> (m, x)) \<and>
        (\<forall>k D. room k D st \<longrightarrow> room k D st)" using assms(1) by (simp add: memset_def)
    then show ?case by blast
  next
    case (Suc k)
    then obtain y s where s: "memset p c k st = Inr s" "rt_wf s" "rt.more s = rt.more st"
      "cell_at s = (cell_at st)(p \<mapsto> (m, y))" "\<forall>k D. room k D st \<longrightarrow> room k D s"
      using Suc_leD by blast
    have b: "store_byte p k c s = Inr (put p (Bytes ((byte_view y)(k \<mapsto> c))) s)"
      by (rule store_byte_cell [OF s(2), of _ m]) (use s(4) Suc.prems assms(3) in auto)
    have c: "cell_at s p = Some (m, y)" using s(4) by simp
    note w = heap.store_result [OF s(2) c, of "Bytes ((byte_view y)(k \<mapsto> c))"]
    have "memset p c (Suc k) st = Inr (put p (Bytes ((byte_view y)(k \<mapsto> c))) s)"
      using s(1) b by (simp add: memset_def foldE_append)
    then show ?case using w s(3-5) by (intro exI) auto
  qed
  then show thesis using that by blast
qed

lemma calloc_object_step:
  assumes "rt_wf st" and "room (Suc k) D st" and "unat i * unat j + 80 \<le> D"
  obtains p st' where "owner_calloc self i j st = Inr (p, st')" and "p \<noteq> 0" and "rt_wf st'" and "room k D st'"
    and "cell_at st p = None" and "cell_at st' = (cell_at st)(p \<mapsto> (fresh_meta self (i * j), Filled 0))"
proof -
  have D: "D < 2 ^ 64" by (rule room_bound [OF assms(2)])
  have u: "unat (i * j) = unat i * unat j" using assms(3) D by (intro unat_mult_no_overflow) simp
  have n: "unat (i * j) + 80 \<le> D" using u assms(3) by simp
  obtain p s where s: "owner_malloc self (i * j) st = Inr (p, s)" "p \<noteq> 0" "rt_wf s" "room k D s" "cell_at st p = None"
    "cell_at s = (cell_at st)(p \<mapsto> (fresh_meta self (i * j), Filled 0xAA))"
    by (rule object_step [OF assms(1,2) n, of self])
  have c: "cell_at s p = Some (fresh_meta self (i * j), Filled 0xAA)" using s(6) by simp
  have "owner_calloc self i j st = Inr (p, put p (Filled 0) s)"
    using s(1,2) by (simp add: owner_calloc_def owner_malloc_def)
  then show thesis
    using that [of p "put p (Filled 0) s"] heap.store_result [OF s(3) c, of "Filled 0"] s by simp
qed

lemma test_malloc_run:
  assumes "rt_wf st" and "room 3 D st" and "280 \<le> D" and "cell_at st = Map.empty"
  shows "ends_with 0 (test_malloc self st)"
proof -
  have r: "room (Suc 2) D st" "unat (100 :: size_t) + 80 \<le> D" using assms(2,3) by simp_all
  obtain p s where s: "owner_malloc self 100 st = Inr (p, s)" "p \<noteq> 0" "rt_wf s" "room 2 D s"
    "cell_at s = (cell_at st)(p \<mapsto> (fresh_meta self 100, Filled 0xAA))"
    by (rule object_step [OF assms(1) r, of self])
  have c: "cell_at s p = Some (fresh_meta self 100, Filled 0xAA)" "100 \<le> unat (m_size (fresh_meta self 100))"
    using s(5) by simp_all
  obtain y s1 where m: "memset p 65 100 s = Inr s1" "rt_wf s1" "cell_at s1 = (cell_at s)(p \<mapsto> (fresh_meta self 100, y))"
    "\<forall>k D. room k D s \<longrightarrow> room k D s1"
    by (rule memset_cell [OF s(3) c])
  have r1: "room (Suc 1) D s1" using m(4) s(4) by (simp add: numeral_2_eq_2)
  have n10: "unat (10 :: size_t) * unat (4 :: size_t) + 80 \<le> D" using assms(3) by simp
  obtain p2 s2 where c2: "owner_calloc self 10 4 s1 = Inr (p2, s2)" "p2 \<noteq> 0" "rt_wf s2" "room 1 D s2" "cell_at s1 p2 = None"
    "cell_at s2 = (cell_at s1)(p2 \<mapsto> (fresh_meta self (10 * 4), Filled 0))"
    by (rule calloc_object_step [OF m(2) r1 n10, of self])
  have ne: "p2 \<noteq> p" using c2(5) m(3) by auto
  have cp: "cell_at s2 p = Some (fresh_meta self 100, y)" using c2(6) m(3) ne by simp
  have r2: "room (Suc 0) D s2" "unat (200 :: size_t) + 80 \<le> D" using c2(4) assms(3) by simp_all
  have ok: "realloc_ok self (fresh_meta self 100)" by (simp add: free_ok_realloc_ok)
  obtain p3 s3 where q: "owner_realloc self p 200 s2 = Inr (p3, s3)" "p3 \<noteq> 0"
    by (rule realloc_room [OF c2(3) cp ok _ r2]) simp
  have n200: "(200 :: size_t) \<noteq> 0" "unat (200 :: size_t) + 80 < 2 ^ 64" by simp_all
  obtain z where q3: "rt_wf s3" "p3 = p \<or> cell_at s2 p3 = None"
    "cell_at s3 = ((cell_at s2)(p := None))(p3 \<mapsto> ((fresh_meta self 100)\<lparr>m_size := 200\<rparr>, z))"
    using c2(3) cp ok n200
  proof (cases rule: heap.resize_cases)
    case (null s')
    then show ?thesis using q by simp
  next
    case (object q' s')
    then show ?thesis using q that by simp
  qed
  have ne3: "p3 \<noteq> p2" using q3(2) ne c2(6) by auto
  have f2: "cell_at s3 p2 = Some (fresh_meta self (10 * 4), Filled 0)" using q3(3) c2(6) ne ne3 by simp
  obtain s4 where s4: "owner_free_cleanup self p2 s3 = Inr s4" "rt_wf s4" "cell_at s4 = (cell_at s3)(p2 := None)"
    by (rule cleanup_step [OF q3(1) f2 fresh_meta_simps(1)])
  have f3: "cell_at s4 p3 = Some ((fresh_meta self 100)\<lparr>m_size := 200\<rparr>, z)" using s4(3) q3(3) ne3 by simp
  have ok3: "free_ok self ((fresh_meta self 100)\<lparr>m_size := 200\<rparr>)" by simp
  obtain s5 where s5: "owner_free_cleanup self p3 s4 = Inr s5" "rt_wf s5" "cell_at s5 = (cell_at s4)(p3 := None)"
    by (rule cleanup_step [OF s4(2) f3 ok3])
  have "cell_at s5 = Map.empty"
    using s5(3) s4(3) q3(3) c2(6) m(3) s(5) assms(4) by (auto simp: fun_eq_iff)
  from exits_clean [OF s5(2) this, of 0] show ?thesis
    using s(1,2) m(1) c2(1,2) q s4(1) s5(1) by (simp add: test_malloc_def owner_free_cleanup_def)
qed

lemma test_hybrid_compile_run:
  assumes "rt_wf st" and "cell_at st = Map.empty"
  shows "ends_with 0 (test_hybrid_compile self st)"
proof -
  have n: "unat (10 :: size_t) + 80 < 2 ^ 64" by simp
  from assms(1) n show ?thesis
  proof (cases rule: heap.alloc_cases [where self = self])
    case (null s)
    then show ?thesis using exits_clean [of s 0] assms(2)
      by (simp add: test_hybrid_compile_def owner_free_def owner_free_internal_def)
  next
    case (object p s)
    have c: "cell_at s p = Some (fresh_meta self 10, Filled 0xAA)" using object(6) by simp
    obtain s' where s': "owner_free self p s = Inr s'" "rt_wf s'" "cell_at s' = (cell_at s)(p := None)"
      by (rule heap.release_obtain [OF object(3) c fresh_meta_simps(1)])
    have "cell_at s' = Map.empty" using s'(3) object(6) assms(2) by auto
    from exits_clean [OF s'(2) this, of 0] show ?thesis using object(1) s'(1) by (simp add: test_hybrid_compile_def)
  qed
qed

lemma test_raii_run:
  assumes "rt_wf st" and "cell_at st = Map.empty"
  shows "ends_with 0 (test_raii self st)"
proof -
  obtain p s s1 where s: "owner_malloc self 128 st = Inr (p, s)" "owner_free_cleanup self p s = Inr s1" "rt_wf s1"
    "cell_at s1 = Map.empty"
  proof -
    have n: "unat (128 :: size_t) + 80 < 2 ^ 64" by simp
    from assms(1) n show thesis
    proof (cases rule: heap.alloc_cases [where self = self])
      case (null s)
      then show thesis using that [of 0 s s] assms(2) by (simp add: owner_free_cleanup_def)
    next
      case (object p s)
      have c: "cell_at s p = Some (fresh_meta self 128, Filled 0xAA)" using object(6) by simp
      obtain s' where s': "owner_free_cleanup self p s = Inr s'" "rt_wf s'" "cell_at s' = (cell_at s)(p := None)"
        by (rule cleanup_step [OF object(3) c fresh_meta_simps(1)])
      have "cell_at s' = Map.empty" using s'(3) object(6) assms(2) by auto
      then show thesis using that object(1) s'(1,2) by blast
    qed
  qed
  obtain s2 where s2: "ownership_stats s1 = Inr s2" "rt_wf s2" "moves {} {} s1 s2" by (rule stats_step [OF s(3)])
  have "cell_at s2 = Map.empty" using s2(3) s(4) by (simp add: moves_same)
  from exits_clean [OF s2(2) this, of 0] show ?thesis using s(1,2) s2(1) by (simp add: test_raii_def)
qed

text \<open>The first chunk of a region has the size that was asked for.\<close>

lemma first_chunk_capacity:
  assumes "rt_wf st'" and "safe_region_create self n st = Inr (region, st')" and "n \<noteq> 0" and "region \<noteq> 0"
    and "region_rep self st' region [(a, 0, k)]"
  obtains r nx where "k = unat n" and "field region_of st' region = Inr r" and "reg_current_chunk r = a"
    and "field region_view st' a = Inr (0, n, nx)"
proof -
  obtain f s2 where f: "st' = put region (Region \<lparr>reg_current_chunk = f, reg_chunk_size = n\<rparr>)
      (put f (RChunk \<lparr>ck_used = 0, ck_capacity = n, ck_next = 0\<rparr>) s2)"
    using assms(2-4) by (auto simp: safe_region_create_def bindE_eq_Inr split: if_splits)
  obtain m r where r: "cell_at st' region = Some (m, Region r)" "chain region_view self st' (reg_current_chunk r) [(a, 0, k)]"
    using assms(5) by (rule region_repE)
  obtain nx where nx: "chunk_cell region_view self st' a 0 k nx" "reg_current_chunk r = a"
    using r(2) by (rule chain_ConsE)
  obtain mc x u c where c: "cell_at st' a = Some (mc, x)" "region_view x = Some (u, c, nx)" "unat u = 0" "unat c = k"
    using nx(1) by (rule chunk_cellE)
  have fr: "field region_of st' region = Inr r" by (rule field_cell [OF assms(1) r(1)]) simp
  have fa: "field region_view st' a = Inr (u, c, nx)"
    by (rule field_cell [where sel = region_view, OF assms(1) c(1)]) (rule c(2))
  have "r = \<lparr>reg_current_chunk = f, reg_chunk_size = n\<rparr>" using cell_payload [OF assms(1) r(1)] f by simp
  then have af: "a = f" using nx(2) by simp
  have "a \<noteq> region" using r(1) c(1,2) by auto
  then have "c = n" "u = 0" using cell_payload [OF assms(1) c(1)] c(2) f af by auto
  then show thesis using that [OF _ fr nx(2)] fa c(4) by simp
qed

lemma moves_outside: "moves A B st st' \<Longrightarrow> q \<notin> A \<Longrightarrow> q \<notin> B \<Longrightarrow> cell_at st' q = cell_at st q"
  unfolding moves_def by (metis ComplI restrict_in)

lemma test_region_run:
  assumes "rt_wf st" and "room 4 D st" and "2104 \<le> D" and "cell_at st = Map.empty"
  shows "ends_with 0 (test_region self st)"
proof -
  have r4: "room (Suc 3) D st" using assms(2) by (simp add: numeral_eq_Suc)
  have D: "D < 2 ^ 64" by (rule room_bound [OF r4])
  have c0: "(1024 :: size_t) \<noteq> 0" "unat (1024 :: size_t) + 104 \<le> D" using assms(3) by simp_all
  have n63: "unat (1024 :: size_t) \<le> 2 ^ 63" by simp
  obtain region s where s: "safe_region_create self 1024 st = Inr (region, s)" "rt_wf s" "rt.more s = rt.more st"
    "if region = 0 then cell_at s = cell_at st
     else \<exists>a c. region_rep self s region [(a, 0, c)] \<and> cell_at st region = None \<and>
       cell_at st a = None \<and> cell_at s |` (- {region, a}) = cell_at st"
    using safe_region_create_rep [OF assms(1) n63, of self] by blast
  note sup = region_create_supply [OF assms(1) c0 D, of self]
  have nz: "region \<noteq> 0" using sup(1) s(1) assms(2) room_less [of 4 D st 2] by (auto simp: short_def)
  have "uses D 2 st s" by (rule sup(2) [OF s(1)])
  then have r2: "room 2 D s" using assms(2) unfolding uses_def by (metis numeral_Bit0)
  obtain a k where rep: "region_rep self s region [(a, 0, k)]" and new: "cell_at s |` (- {region, a}) = cell_at st"
    using s(4) nz by auto
  obtain r nx where r: "k = unat (1024 :: size_t)" "field region_of s region = Inr r" "reg_current_chunk r = a"
    "field region_view s a = Inr (0, 1024, nx)"
    by (rule first_chunk_capacity [OF s(2,1) c0(1) nz rep])
  have al: "align8 100 = 104" "align8 2000 = 2000" by (simp_all add: align8_def)
  have "0 + unat (104 :: size_t) \<le> k" "unat (104 :: size_t) mod 8 = 0" using r(1) by simp_all
  from region_bump_rep [OF s(2) rep this] obtain s1 where s1: "region_bump a 104 s = Inr (a + 24, s1)" "rt_wf s1"
    "rt.more s1 = rt.more s" "region_rep self s1 region [(a, 104, 1024)]" "moves {a} {a} s s1"
    using r(1) by auto
  have a1: "safe_region_alloc self region 100 s = Inr (a + 24, s1)"
    using r s1(1) nz by (simp add: safe_region_alloc_def al)
  obtain m ra where ra: "cell_at s region = Some (m, Region ra)" "region \<notin> fst ` set [(a, 0 :: nat, k)]"
    using rep by (rule region_repE)
  obtain r0 where r0: "payload s region = Some (Region r0)" "reg_chunk_size r0 = 1024" using sup(3) [OF s(1) nz] by blast
  then have ra2: "reg_chunk_size ra = 1024" "payload s region = Some (Region ra)"
    using cell_payload [OF s(2) ra(1)] by simp_all
  have n1: "(100 :: size_t) \<noteq> 0" "unat (align8 100) + 104 \<le> D" "unat (reg_chunk_size ra) + 104 \<le> D"
    using assms(3) al ra2(1) by simp_all
  note u1 = region_alloc_supply [OF s(2) rep ra2(2) n1 D a1]
  have p1: "a + 24 \<noteq> 0" using u1(2) r2 room_less [of 2 D s 1] by (auto simp: short_def)
  have r1: "room 1 D s1" using u1(1) r2 unfolding uses_def by (metis one_add_one)
  have "cell_at s1 region = Some (m, Region ra)" using moves_cell(1) [OF s1(5) ra(1)] ra(2) by simp
  from cell_payload [OF s1(2) this] have ps1: "payload s1 region = Some (Region ra)" .
  have n2: "(2000 :: size_t) \<noteq> 0" "unat (align8 2000) + 104 \<le> D" "unat (reg_chunk_size ra) + 104 \<le> D"
    using assms(3) al ra2(1) by simp_all
  have f2: "bump_fits 2000" by (simp add: bump_fits_def)
  have nz2: "p \<noteq> 0" if "safe_region_alloc self region 2000 s1 = Inr (p, s2)" for p s2
    using region_alloc_supply(2) [OF s1(2,4) ps1 n2 D that] r1 by (auto simp: short_def)
  obtain p2 b k2 s2 where a2: "safe_region_alloc self region 2000 s1 = Inr (p2, s2)" "rt_wf s2"
    "region_rep self s2 region [(b, 2000, k2), (a, 104, 1024)]" "moves {region} {region, b} s1 s2"
    using s1(2,4) n2(1) f2
  proof (cases rule: safe_region_alloc_rep)
    case (bump st')
    then show thesis using al by simp
  next
    case (oom st')
    then show thesis using nz2 by blast
  next
    case (new b k st')
    then show thesis using that al by simp
  qed
  obtain s3 where s3: "ownership_stats s2 = Inr s3" "rt_wf s3" "moves {} {} s2 s3" by (rule stats_step [OF a2(2)])
  have "cell_at s3 = cell_at s2" using s3(3) by (simp add: moves_same)
  from region_rep_same [OF a2(3) this] have rep3: "region_rep self s3 region [(b, 2000, k2), (a, 104, 1024)]" .
  from safe_region_free_rep [OF s3(2) this] obtain s4 where s4: "safe_region_free self region s3 = Inr s4" "rt_wf s4"
    "cell_at s4 = cell_at s3 |` (- insert region (fst ` set [(b, 2000 :: nat, k2), (a, 104, 1024)]))" by blast
  have "cell_at s4 q = None" for q
  proof (cases "q \<in> {region, a, b}")
    case True
    then show ?thesis using s4(3) by auto
  next
    case False
    have "cell_at s3 q = cell_at s2 q" using s3(3) by (simp add: moves_same)
    also have "\<dots> = cell_at s1 q"
      by (rule moves_outside [OF a2(4)]) (use False in auto)
    also have "\<dots> = cell_at s q"
      by (rule moves_outside [OF s1(5)]) (use False in auto)
    also have "\<dots> = None" using fun_cong [OF new, of q] assms(4) False by simp
    finally show ?thesis using s4(3) by (simp add: restrict_map_def)
  qed
  then have "cell_at s4 = Map.empty" by (simp add: fun_eq_iff)
  from exits_clean [OF s4(2) this, of 0] show ?thesis
    using s(1) nz a1 p1 a2(1) nz2 [OF a2(1)] s3(1) s4(1) by (simp add: test_region_def)
qed

lemma test_vector_run:
  assumes "rt_wf st" and "room 5 D st" and "112 \<le> D"
  shows "\<exists>vec. test_vector self a b c st = Inl (Fatal ''Out-of-bounds safe_vector access'' vec (Some ''src/collections.c'') 45)"
proof -
  obtain vec d s0 s1 s2 s3 where v: "safe_vector_create self 2 st = Inr (vec, s0)" "vec \<noteq> 0"
    "safe_vector_push self vec a s0 = Inr s1" "safe_vector_push self vec b s1 = Inr s2"
    "safe_vector_push self vec c s2 = Inr s3" "rt_wf s3" "vec_rep self s3 vec d 4 [a, b, c]"
    by (rule three_pushes [OF assms, of self a b c])
  have "safe_vector_get vec 5 s3 = Inl (Fatal ''Out-of-bounds safe_vector access'' vec (Some ''src/collections.c'') 45)"
    using safe_vector_get_rep [OF v(6,7), of 5] by simp
  then show ?thesis using v(1-5) by (simp add: test_vector_def)
qed

text \<open>C35: with nothing alive at the start and memory for what they ask for (three blocks of 280 bytes for the objects, four
  of 2104 for the region, five of 112 for the vector), the tests that are to succeed end with the status 0 and leave
  nothing alive; the one that reads past the end of a vector is stopped with the report of that.  The calls of the two
  threads may come in any order; \<open>main\<close> waits until each of them has made its three calls.\<close>

theorem passing_tests_pass:
  assumes "rt_wf st" and "cell_at st = Map.empty" and "room 5 2104 st"
  shows "ends_with 0 (test_malloc self st) \<and> ends_with 0 (test_hybrid_compile self st) \<and> ends_with 0 (test_raii self st) \<and>
    ends_with 0 (test_region self st) \<and>
    (if 3 \<le> length (filter id sched) \<and> 3 \<le> length (filter Not sched) then ends_with 0 (test_threads t1 t2 sched st)
     else test_threads t1 t2 sched st = Inl Blocked) \<and>
    (\<exists>vec. test_vector self a b c st =
       Inl (Fatal ''Out-of-bounds safe_vector access'' vec (Some ''src/collections.c'') 45))"
proof (intro conjI)
  have r: "room 3 2104 st" "room 4 2104 st" using room_less [OF assms(3)] by simp_all
  show "ends_with 0 (test_malloc self st)" by (rule test_malloc_run [OF assms(1) r(1) _ assms(2)]) simp
  show "ends_with 0 (test_hybrid_compile self st)" by (rule test_hybrid_compile_run [OF assms(1,2)])
  show "ends_with 0 (test_raii self st)" by (rule test_raii_run [OF assms(1,2)])
  show "ends_with 0 (test_region self st)" by (rule test_region_run [OF assms(1) r(2) _ assms(2)]) simp
  show "if 3 \<le> length (filter id sched) \<and> 3 \<le> length (filter Not sched) then ends_with 0 (test_threads t1 t2 sched st)
     else test_threads t1 t2 sched st = Inl Blocked" by (rule test_threads_run [OF assms(1,2)])
  show "\<exists>vec. test_vector self a b c st =
       Inl (Fatal ''Out-of-bounds safe_vector access'' vec (Some ''src/collections.c'') 45)"
    by (rule test_vector_run [OF assms(1,3)]) simp
qed

subsection \<open>Runs\<close>

lemma showcase_state_ok: "rt_wf showcase_state" "cell_at showcase_state = Map.empty" "room 5 2104 showcase_state"
proof -
  show "rt_wf showcase_state" unfolding showcase_state_def by (rule rt_wf_init)
  show "cell_at showcase_state = Map.empty"
    by (simp add: showcase_state_def rt_init_def cell_at_def live_def obj_at_def get_meta_def fun_eq_iff)
  show "room 5 2104 showcase_state"
    by (rule room_spaced [where g = "0x1000" and n = 8]) (simp_all add: showcase_state_def rt_init_def)
qed

theorem misuse_tests_stop_witness:
  "\<exists>p s. owner_malloc 1 100 showcase_state = Inr (p, s) \<and> p \<noteq> 0 \<and>
     test_doublefree 1 showcase_state = Inl (Fatal ''Double-free'' p None 0) \<and>
     test_thread_violation 2 1 showcase_state = Inl (Fatal ''Thread Ownership Violation (Free)'' p None 0)"
proof -
  have t: "(2 :: tid) \<noteq> 1" by simp
  have n: "unat (100 :: size_t) + 80 \<le> 2104" by simp
  have r: "room (Suc 4) 2104 showcase_state" using showcase_state_ok(3) by (simp add: numeral_eq_Suc)
  obtain p s where "owner_malloc 1 100 showcase_state = Inr (p, s)" "p \<noteq> 0"
    by (rule object_step [OF showcase_state_ok(1) r n, of 1])
  with misuse_tests_stop [OF showcase_state_ok(1,2) t] show ?thesis by auto
qed

theorem passing_tests_pass_witness:
  "ends_with 0 (test_malloc 1 showcase_state) \<and>
   ends_with 0 (test_threads 2 3 [True, False, False, True, True, False] showcase_state)"
  using passing_tests_pass [OF showcase_state_ok, of 1 "[True, False, False, True, True, False]" 2 3] by simp

end
