(* ===== verification/Texts.thy ===== *)
theory Texts
  imports Tests OArray
begin

text \<open>
  The programs with strings: \<open>examples/demo_string.c\<close> and \<open>examples/demo_array.c\<close>.  What is printed with \<open>%s\<close> is read
  from the memory, up to the zero byte.  The clean-up of the array in the second program frees the structs of the
  strings it holds and not their buffers.
\<close>

subsection \<open>The programs\<close>

definition print_text :: "'x rt_scheme \<Rightarrow> cstr \<Rightarrow> failure + byte list" where
  "print_text st c = bindE (strlen_from st c 0) (\<lambda>n. cstr_bytes st c 0 n)"

definition print_string :: "addr \<Rightarrow> 'x rt_scheme \<Rightarrow> failure + byte list" where
  "print_string str st = bindE (safe_string_cstr str st) (print_text st)"

definition print_length :: "addr \<Rightarrow> 'x rt_scheme \<Rightarrow> failure + size_t" where
  "print_length str st =
     (if str = 0 then Inl (Undefined ''read of unmapped memory'')
      else bindE (field str_of st str) (\<lambda>s. Inr (str_length s)))"

text \<open>\<open>process_string\<close>: the texts, the lengths and the character it prints.\<close>

definition process_string ::
    "tid \<Rightarrow> 'x rt_scheme \<Rightarrow> failure + ((byte list list \<times> size_t list \<times> byte) \<times> 'x rt_scheme)" where
  "process_string self st =
     bindE (safe_string_new self (Lit (ascii ''Hello'')) st) (\<lambda>(str, st).
     bindE (print_string str st) (\<lambda>t1.
     bindE (print_length str st) (\<lambda>l1.
     bindE (safe_string_append self str (Lit (ascii '', OwnedC '')) st) (\<lambda>st.
     bindE (print_string str st) (\<lambda>t2.
     bindE (safe_string_new self (Lit (ascii ''World!'')) st) (\<lambda>(suffix, st).
     bindE (safe_string_append_safe self str suffix st) (\<lambda>st.
     bindE (print_string str st) (\<lambda>t3.
     bindE (print_length str st) (\<lambda>l2.
     bindE (safe_string_push_char self str (of_char CHR '' '') st) (\<lambda>st.
     bindE (safe_string_push_char self str (of_char CHR '':'') st) (\<lambda>st.
     bindE (safe_string_push_char self str (of_char CHR '')'') st) (\<lambda>st.
     bindE (print_string str st) (\<lambda>t4.
     bindE (safe_string_char_at str 7 st) (\<lambda>c.
     bindE (cleanup_safe_string_free self suffix st) (\<lambda>st.
     bindE (cleanup_safe_string_free self str st) (\<lambda>st.
       Inr (([t1, t2, t3, t4], [l1, l2], c), st)))))))))))))))))"

text \<open>\<open>build_and_process_array\<close>: the three items it prints.\<close>

definition print_item :: "addr \<Rightarrow> size_t \<Rightarrow> 'x rt_scheme \<Rightarrow> failure + byte list" where
  "print_item arr i st = bindE (owned_array_get arr i st) (\<lambda>s. print_string s st)"

definition build_and_process_array :: "tid \<Rightarrow> 'x rt_scheme \<Rightarrow> failure + (byte list list \<times> 'x rt_scheme)" where
  "build_and_process_array self st =
     bindE (owned_array_new self 3 st) (\<lambda>(arr, st).
     bindE (safe_string_new self (Lit (ascii ''Apple'')) st) (\<lambda>(str1, st).
     bindE (safe_string_new self (Lit (ascii ''Banana'')) st) (\<lambda>(str2, st).
     bindE (safe_string_new self (Lit (ascii ''Cherry'')) st) (\<lambda>(str3, st).
     bindE (owned_array_set self arr 0 str1 st) (\<lambda>st.
     bindE (owned_array_set self arr 1 str2 st) (\<lambda>st.
     bindE (owned_array_set self arr 2 str3 st) (\<lambda>st.
     bindE (print_item arr 0 st) (\<lambda>t1.
     bindE (print_item arr 1 st) (\<lambda>t2.
     bindE (print_item arr 2 st) (\<lambda>t3.
     bindE (cleanup_owned_array_free self arr st) (\<lambda>st. Inr ([t1, t2, t3], st))))))))))))"

definition demo_array :: "tid \<Rightarrow> 'x rt_scheme \<Rightarrow> failure + (int \<times> 'x rt_scheme)" where
  "demo_array self st = exits (bindE (build_and_process_array self st) (\<lambda>(printed, st). Inr (0, st)))"

subsection \<open>Strings and what becomes of them\<close>

lemma print_text_holds:
  assumes "holds st c bs"
  shows "print_text st c = Inr bs"
proof -
  have "cstr_bytes st c 0 (length bs) = Inr bs"
    by (rule cstr_bytes_result) (use assms in \<open>simp add: holds_def\<close>)
  then show ?thesis using strlen_holds [OF assms] by (simp add: print_text_def)
qed

lemma print_string_rep:
  assumes "rt_wf st" and "str_rep self st str data cap bs" and "0 \<notin> set bs"
  shows "print_string str st = Inr bs" and "safe_string_cstr str st = Inr (At data)"
    and "print_length str st = Inr (of_nat (length bs))"
proof -
  obtain m s where r: "cell_at st str = Some (m, Str s)" "str_data s = data" "unat (str_length s) = length bs" "str \<noteq> 0" "data \<noteq> 0"
    using assms(2) by (rule str_repE)
  have f: "field str_of st str = Inr s" by (rule field_cell [OF assms(1) r(1)]) simp
  show c: "safe_string_cstr str st = Inr (At data)" using f r by (simp add: safe_string_cstr_def)
  show "print_string str st = Inr bs"
    using print_text_holds [OF holds_At [OF assms]] c by (simp add: print_string_def)
  show "print_length str st = Inr (of_nat (length bs))" using f r by (simp add: print_length_def flip: r(3))
qed

lemma str_rep_moves:
  assumes "str_rep self st str data cap bs" and "moves A B st st'" and "str \<notin> A" and "data \<notin> A"
  shows "str_rep self st' str data cap bs" and "str \<notin> B" and "data \<notin> B"
proof -
  obtain m s md y where r: "cell_at st str = Some (m, Str s)" "cell_at st data = Some (md, y)"
    using assms(1) by (rule str_repE)
  note c = moves_cell [OF assms(2) r(1) assms(3)] moves_cell [OF assms(2) r(2) assms(4)]
  show "str \<notin> B" "data \<notin> B" using c(2,4) .
  show "str_rep self st' str data cap bs" using assms(1) c(1,3) r unfolding str_rep_def by simp
qed

lemma string_step:
  assumes "rt_wf st" and "room (Suc (Suc k)) D st" and "0 \<notin> set bs" and "length bs + 97 \<le> D" and "104 \<le> D"
  obtains str data cap st' where "safe_string_new self (Lit bs) st = Inr (str, st')" and "rt_wf st'"
    and "str_rep self st' str data cap bs" and "cap \<le> max 16 (length bs + 1)" and "moves {} {str, data} st st'" and "room k D st'"
proof -
  have D: "D < 2 ^ 64" by (rule room_bound [OF assms(2)])
  note u = new_supply [OF assms(1,3-5) D, of self]
  have ns: "\<not> short D 2 st" using assms(2) room_less [of "Suc (Suc k)" D st 2] by (simp add: short_def)
  have h: "holds s (Lit bs) bs" for s :: "'a rt_scheme" by (rule holds_Lit [OF assms(3)])
  have nn: "\<not> cstr_null (Lit bs)" by (simp add: cstr_null_def)
  have l: "length bs + 97 < 2 ^ 64" using assms(4) D by simp
  have nf: "safe_string_new self (Lit bs) st \<noteq> Inl e" for e using u(1) ns by blast
  from safe_string_new_rep [OF assms(1) nn h l, of self] nf obtain str s where s:
    "safe_string_new self (Lit bs) st = Inr (str, s)" "rt_wf s" "rt.more s = rt.more st"
    "if str = 0 then cell_at s = cell_at st
     else \<exists>data cap. str_rep self s str data cap bs \<and> cap \<le> max 16 (length bs + 1) \<and>
       cell_at st str = None \<and> cell_at st data = None \<and> cell_at s |` (- {str, data}) = cell_at st" by blast
  have nz: "str \<noteq> 0" using u(2) [of s] s(1) ns by blast
  have "uses D (Suc (Suc 0)) st s" using u(3) [OF s(1)] by (simp add: numeral_2_eq_2)
  then have r: "room k D s" using assms(2) by (simp add: uses_def)
  obtain data cap where "str_rep self s str data cap bs" "cap \<le> max 16 (length bs + 1)" "cell_at s |` (- {str, data}) = cell_at st"
    using s(4) nz by auto
  then show thesis using that [OF s(1,2)] moves_new [OF s(3)] r by blast
qed

text \<open>Appending the bytes of a literal or of another string, or a character.\<close>

lemma append_step:
  assumes "rt_wf st" and "str_rep self st str data cap bs" and "\<not> cstr_null c"
    and "\<And>s. rt_wf s \<Longrightarrow> keeps {str, data} st s \<Longrightarrow> holds s c suf" and "room (Suc k) D st"
    and "2 * cap + 80 \<le> D" and "length bs + length suf + 81 \<le> D"
  obtains data' cap' st' where "safe_string_append self str c st = Inr st'" and "rt_wf st'"
    and "str_rep self st' str data' cap' (bs @ suf)" and "cap' \<le> max cap (2 * (length bs + length suf + 1))"
    and "moves {str, data} {str, data'} st st'" and "room k D st'"
proof -
  have D: "D < 2 ^ 64" by (rule room_bound [OF assms(5)])
  have u: "short D 1 st" if "safe_string_append self str c st = Inl e" for e
    using assms(1-3) assms(4) assms(6,7) D that by (rule append_cstr_supply(1))
  have v: "uses D 1 st s" if "safe_string_append self str c st = Inr s" for s
    using assms(1-3) assms(4) assms(6,7) D that by (rule append_cstr_supply(2))
  have ns: "\<not> short D 1 st" using assms(5) room_less [of "Suc k" D st 1] by (simp add: short_def)
  have b: "2 * cap + 80 < 2 ^ 64" "length bs + length suf + 81 < 2 ^ 64" using assms(6,7) D by simp_all
  have nf: "safe_string_append self str c st \<noteq> Inl e" for e using u ns by blast
  note a = safe_string_append_rep [of st self str data cap bs c suf, OF assms(1-3) _ b]
  from a assms(4) nf obtain st' data' cap' where
    "safe_string_append self str c st = Inr st'" "rt_wf st'" "str_rep self st' str data' cap' (bs @ suf)"
    "cap' \<le> max cap (2 * (length bs + length suf + 1))" "moves {str, data} {str, data'} st st'" by blast
  moreover from this(1) have "uses D 1 st st'" by (rule v)
  then have "room k D st'" using assms(5) by (simp add: uses_def)
  ultimately show thesis by (rule that)
qed

lemma push_step:
  assumes "rt_wf st" and "str_rep self st str data cap bs" and "room (Suc k) D st"
    and "2 * cap + 80 \<le> D" and "length bs + 82 \<le> D"
  obtains data' cap' st' where "safe_string_push_char self str c st = Inr st'" and "rt_wf st'"
    and "str_rep self st' str data' cap' (bs @ [c])" and "cap' \<le> max cap (2 * (length bs + 2))"
    and "moves {str, data} {str, data'} st st'" and "room k D st'"
proof -
  have D: "D < 2 ^ 64" by (rule room_bound [OF assms(3)])
  note u = push_supply [OF assms(1,2,4,5) D, of c]
  have ns: "\<not> short D 1 st" using assms(3) room_less [of "Suc k" D st 1] by (simp add: short_def)
  have b: "2 * cap + 80 < 2 ^ 64" "length bs + 82 < 2 ^ 64" using assms(4,5) D by simp_all
  have nf: "safe_string_push_char self str c st \<noteq> Inl e" for e using u(1) ns by blast
  from safe_string_push_char_rep [OF assms(1,2) b, of c] nf obtain st' data' cap' where
    "safe_string_push_char self str c st = Inr st'" "rt_wf st'" "str_rep self st' str data' cap' (bs @ [c])"
    "cap' \<le> max cap (2 * (length bs + 2))" "moves {str, data} {str, data'} st st'" by blast
  moreover from this(1) have "uses D 1 st st'" by (rule u(2))
  then have "room k D st'" using assms(3) by (simp add: uses_def)
  ultimately show thesis by (rule that)
qed

lemma string_drop:
  assumes "rt_wf st" and "str_rep self st str data cap bs"
  obtains st' where "cleanup_safe_string_free self str st = Inr st'" and "rt_wf st'" and "moves {str, data} {} st st'"
proof -
  have "str \<noteq> 0" using assms(2) by (rule str_repE)
  moreover obtain st' where "safe_string_free self str st = Inr st'" "rt_wf st'" "rt.more st' = rt.more st"
    "cell_at st' = cell_at st |` (- {str, data})" using safe_string_free_rep [OF assms] by blast
  moreover from this(3,4) have "moves {str, data} {} st st'" by (simp add: moves_def restrict_map_def)
  ultimately show thesis using that by (simp add: cleanup_safe_string_free_def)
qed

text \<open>What another string does in its own objects leaves a string as it is, and apart from it.\<close>

lemma string_aside:
  assumes "str_rep self st str data cap bs" and "moves A B st st'" and "{str, data} \<inter> A = {}"
  shows "str_rep self st' str data cap bs \<and> {str, data} \<inter> B = {}"
  using str_rep_moves [OF assms(1,2)] assms(3) by auto

subsection \<open>\<open>demo_string.c\<close>\<close>

lemma plain_texts:
  "0 \<notin> set (ascii ''Hello'')" "0 \<notin> set (ascii '', OwnedC '')" "0 \<notin> set (ascii ''World!'')" "0 \<notin> set (ascii '' :)'')"
  "0 \<notin> set (ascii ''Apple'')" "0 \<notin> set (ascii ''Banana'')" "0 \<notin> set (ascii ''Cherry'')"
  by (simp_all add: ascii_def)

lemma ascii_append: "ascii (s @ t) = ascii s @ ascii t"
  by (simp add: ascii_def)

lemma ascii_length [simp]: "length (ascii s) = length s"
  by (simp add: ascii_def)

lemma process_string_run:
  assumes "rt_wf st" and "room 9 D st" and "200 \<le> D"
  obtains st' where "process_string self st =
      Inr (([ascii ''Hello'', ascii ''Hello, OwnedC '', ascii ''Hello, OwnedC World!'', ascii ''Hello, OwnedC World! :)''],
            [5, 20], of_char CHR ''O''), st')"
    and "rt_wf st'" and "cell_at st' = cell_at st"
proof -
  have r: "room (Suc (Suc 7)) D st" using assms(2) by (simp add: numeral_eq_Suc)
  obtain str d cap s0 where s0: "safe_string_new self (Lit (ascii ''Hello'')) st = Inr (str, s0)" "rt_wf s0"
    "str_rep self s0 str d cap (ascii ''Hello'')" "cap \<le> max 16 (length (ascii ''Hello'') + 1)" "moves {} {str, d} st s0" "room 7 D s0"
    by (rule string_step [OF assms(1) r plain_texts(1)]) (use assms(3) in simp_all)
  have r0: "room (Suc 6) D s0" using s0(6) by (simp add: numeral_eq_Suc)
  have n: "\<not> cstr_null (Lit bs)" for bs by (simp add: cstr_null_def)
  obtain d1 cap1 s1 where s1: "safe_string_append self str (Lit (ascii '', OwnedC '')) s0 = Inr s1" "rt_wf s1"
    "str_rep self s1 str d1 cap1 (ascii ''Hello'' @ ascii '', OwnedC '')"
    "cap1 \<le> max cap (2 * (length (ascii ''Hello'') + length (ascii '', OwnedC '') + 1))" "moves {str, d} {str, d1} s0 s1" "room 6 D s1"
    by (rule append_step [OF s0(2,3) n holds_Lit [OF plain_texts(2)] r0]) (use assms(3) s0(4) in simp_all)
  have r1: "room (Suc (Suc 4)) D s1" using s1(6) by (simp add: numeral_eq_Suc)
  obtain suf e capx s2 where s2: "safe_string_new self (Lit (ascii ''World!'')) s1 = Inr (suf, s2)" "rt_wf s2"
    "str_rep self s2 suf e capx (ascii ''World!'')" "moves {} {suf, e} s1 s2" "room 4 D s2"
    by (rule string_step [OF s1(2) r1 plain_texts(3)]) (use assms(3) in simp_all)
  have v2: "str_rep self s2 str d1 cap1 (ascii ''Hello'' @ ascii '', OwnedC '')" "{str, d1} \<inter> {suf, e} = {}"
    using string_aside [OF s1(3) s2(4)] by simp_all
  have h: "holds s (At e) (ascii ''World!'')" if "rt_wf s" "keeps {str, d1} s2 s" for s
  proof (rule holds_At [OF that(1) _ plain_texts(3)])
    show "str_rep self s suf e capx (ascii ''World!'')"
      using s2(3) that(2) v2(2) unfolding str_rep_def keeps_def by fastforce
  qed
  have ne: "\<not> cstr_null (At e)" "suf \<noteq> 0" "str \<noteq> 0" using s2(3) v2(1) by (auto simp: cstr_null_def elim!: str_repE)
  have r2: "room (Suc 3) D s2" using s2(5) by (simp add: numeral_eq_Suc)
  obtain d3 cap3 s3 where s3: "safe_string_append self str (At e) s2 = Inr s3" "rt_wf s3"
    "str_rep self s3 str d3 cap3 ((ascii ''Hello'' @ ascii '', OwnedC '') @ ascii ''World!'')"
    "cap3 \<le> max cap1 (2 * (length (ascii ''Hello'' @ ascii '', OwnedC '') + length (ascii ''World!'') + 1))"
    "moves {str, d1} {str, d3} s2 s3" "room 3 D s3"
    by (rule append_step [OF s2(2) v2(1) ne(1) h r2]) (use assms(3) s0(4) s1(4) in simp_all)
  have a3: "safe_string_append_safe self str suf s2 = Inr s3"
    using s3(1) ne(2,3) print_string_rep(2) [OF s2(2,3) plain_texts(3)] by (simp add: safe_string_append_safe_def)
  have x3: "str_rep self s3 suf e capx (ascii ''World!'')" "{suf, e} \<inter> {str, d3} = {}"
    using string_aside [OF s2(3) s3(5)] v2(2) by auto
  let ?t = "(ascii ''Hello'' @ ascii '', OwnedC '') @ ascii ''World!''"
  have c3: "cap3 \<le> 42" using s0(4) s1(4) s3(4) by simp
  have r3: "room (Suc 2) D s3" using s3(6) by (simp add: numeral_eq_Suc)
  obtain d4 cap4 s4 where s4: "safe_string_push_char self str (of_char CHR '' '') s3 = Inr s4" "rt_wf s4"
    "str_rep self s4 str d4 cap4 (?t @ [of_char CHR '' ''])" "cap4 \<le> max cap3 (2 * (length ?t + 2))"
    "moves {str, d3} {str, d4} s3 s4" "room 2 D s4"
    by (rule push_step [OF s3(2,3) r3]) (use assms(3) c3 in simp_all)
  have c4: "cap4 \<le> 44" using s4(4) c3 by simp
  have r4: "room (Suc 1) D s4" using s4(6) by (simp add: numeral_eq_Suc)
  obtain d5 cap5 s5 where s5: "safe_string_push_char self str (of_char CHR '':'') s4 = Inr s5" "rt_wf s5"
    "str_rep self s5 str d5 cap5 ((?t @ [of_char CHR '' '']) @ [of_char CHR '':''])"
    "cap5 \<le> max cap4 (2 * (length (?t @ [of_char CHR '' '']) + 2))" "moves {str, d4} {str, d5} s4 s5" "room 1 D s5"
    by (rule push_step [OF s4(2,3) r4]) (use assms(3) c4 in simp_all)
  have c5: "cap5 \<le> 46" using s5(4) c4 by simp
  have r5: "room (Suc 0) D s5" using s5(6) by simp
  obtain d6 cap6 s6 where s6: "safe_string_push_char self str (of_char CHR '')'') s5 = Inr s6" "rt_wf s6"
    "str_rep self s6 str d6 cap6 (((?t @ [of_char CHR '' '']) @ [of_char CHR '':'']) @ [of_char CHR '')''])"
    "moves {str, d5} {str, d6} s5 s6"
    by (rule push_step [OF s5(2,3) r5]) (use assms(3) c5 in simp_all)
  have x4: "str_rep self s4 suf e capx (ascii ''World!'') \<and> {suf, e} \<inter> {str, d4} = {}" by (rule string_aside [OF x3(1) s4(5) x3(2)])
  have x5: "str_rep self s5 suf e capx (ascii ''World!'') \<and> {suf, e} \<inter> {str, d5} = {}"
    by (rule string_aside [OF conjunct1 [OF x4] s5(5) conjunct2 [OF x4]])
  have x6: "str_rep self s6 suf e capx (ascii ''World!'') \<and> {suf, e} \<inter> {str, d6} = {}"
    by (rule string_aside [OF conjunct1 [OF x5] s6(4) conjunct2 [OF x5]])
  have t6: "((?t @ [of_char CHR '' '']) @ [of_char CHR '':'']) @ [of_char CHR '')''] = ascii ''Hello, OwnedC World! :)''"
    "?t = ascii ''Hello, OwnedC World!''" "ascii ''Hello'' @ ascii '', OwnedC '' = ascii ''Hello, OwnedC ''"
    by (simp_all add: ascii_def)
  have z: "0 \<notin> set (ascii ''Hello, OwnedC World! :)'')" "0 \<notin> set (ascii ''Hello, OwnedC World!'')" "0 \<notin> set (ascii ''Hello, OwnedC '')"
    by (simp_all add: ascii_def)
  have p: "print_string str s0 = Inr (ascii ''Hello'')" "print_length str s0 = Inr 5"
    "print_string str s1 = Inr (ascii ''Hello, OwnedC '')" "print_string str s3 = Inr (ascii ''Hello, OwnedC World!'')"
    "print_length str s3 = Inr 20" "print_string str s6 = Inr (ascii ''Hello, OwnedC World! :)'')"
    using print_string_rep(1,3) [OF s0(2,3) plain_texts(1)] print_string_rep(1) [OF s1(2) s1(3) [unfolded t6(3)] z(3)]
      print_string_rep(1,3) [OF s3(2) s3(3) [unfolded t6(2)] z(2)] print_string_rep(1) [OF s6(2) s6(3) [unfolded t6(1)] z(1)]
    by simp_all
  have c: "safe_string_char_at str 7 s6 = Inr (of_char CHR ''O'')"
    using safe_string_char_at_rep [OF s6(2) s6(3) [unfolded t6(1)], of 7] by (simp add: ascii_def)
  obtain s7 where s7: "cleanup_safe_string_free self suf s6 = Inr s7" "rt_wf s7" "moves {suf, e} {} s6 s7"
    by (rule string_drop [OF s6(2) conjunct1 [OF x6]])
  have v7: "str_rep self s7 str d6 cap6 (((?t @ [of_char CHR '' '']) @ [of_char CHR '':'']) @ [of_char CHR '')''])"
    using string_aside [OF s6(3) s7(3)] x6 by auto
  obtain s8 where s8: "cleanup_safe_string_free self str s7 = Inr s8" "rt_wf s8" "moves {str, d6} {} s7 s8"
    by (rule string_drop [OF s7(2) v7])
  have "moves {} {str, d1} st s1" using s0(5) s1(5) moves_trans by blast
  then have "moves {} ({str, d1} \<union> {suf, e}) st s2"
    using moves_trans [OF _ moves_frame [OF s2(4), of "{str, d1}"]] by (simp add: Un_commute)
  then have "moves {} ({str, d6} \<union> {suf, e}) st s6"
    using moves_frame [OF s3(5), of "{suf, e}"] moves_frame [OF s4(5), of "{suf, e}"] moves_frame [OF s5(5), of "{suf, e}"]
      moves_frame [OF s6(4), of "{suf, e}"] moves_trans by blast
  then have "moves {} {str, d6} st s7"
    using moves_trans [OF _ moves_frame [OF s7(3), of "{str, d6}"]] by (simp add: Un_commute)
  then have "moves {} {} st s8" using s8(3) moves_trans by blast
  then have "cell_at s8 = cell_at st" by (simp add: moves_same)
  then show thesis
    using that [of s8] s0(1) s1(1) s2(1) a3 s4(1) s5(1) s6(1) s7(1) s8(1,2) p c by (simp add: process_string_def)
qed

subsection \<open>\<open>demo_array.c\<close>\<close>

lemma array_create_step:
  assumes "rt_wf st" and "room (Suc (Suc k)) D st" and "cap > 0" and "unat cap * 8 + 80 \<le> D" and "96 \<le> D"
  obtains arr data st' where "owned_array_new self cap st = Inr (arr, st')" and "rt_wf st'" and "arr \<noteq> 0"
    and "arr_rep self st' arr data (replicate (unat cap) 0)" and "moves {} {arr, data} st st'" and "room k D st'"
proof -
  have D: "D < 2 ^ 64" by (rule room_bound [OF assms(2)])
  have n16: "unat (16 :: size_t) + 80 \<le> D" using assms(5) by simp
  have n8: "unat cap * unat (8 :: size_t) + 80 \<le> D" using assms(4) by simp
  obtain a s where a: "owner_malloc self 16 st = Inr (a, s)" "a \<noteq> 0" "rt_wf s" "room (Suc k) D s" "moves {} {a} st s"
    by (rule object_step [OF assms(1,2) n16, of self])
  obtain d s2 where d: "owner_calloc self cap 8 s = Inr (d, s2)" "d \<noteq> 0" "rt_wf s2" "room k D s2"
    by (rule calloc_object_step [OF a(3,4) n8, of self])
  let ?s = "put a (OArr \<lparr>arr_data = d, arr_capacity = cap\<rparr>) s2"
  have run: "owned_array_new self cap st = Inr (a, ?s)" using a(1,2) d(1,2) assms(3) by (simp add: owned_array_new_def)
  have c: "unat cap * 8 + 80 < 2 ^ 64" using assms(4) D by simp
  from owned_array_new_rep [OF assms(1) c assms(3), of self] run a(2) obtain data where r: "rt_wf ?s"
    "arr_rep self ?s a data (replicate (unat cap) 0)" "cell_at ?s |` (- {a, data}) = cell_at st" by auto
  obtain s1 where s1: "owner_malloc self (cap * 8) s = Inr (d, s1)" "s2 = put d (Filled 0) s1"
    using d(1,2) by (auto simp: owner_calloc_def owner_malloc_def bindE_eq_Inr)
  have "rt.more ?s = rt.more st"
    using owner_malloc_cells [OF a(3) s1(1)] a(5) s1(2) by (simp add: moves_def)
  from that [OF run r(1) a(2) r(2) moves_new [OF this r(3)]] d(4) show thesis by simp
qed

text \<open>Filling an empty slot.\<close>

lemma array_set_step:
  assumes "rt_wf st" and "arr_rep self st arr data xs" and "owns_elements self st arr data xs" and "unat i < length xs"
    and "xs ! unat i = 0" and "cell_at st p = Some (m, y)" and "free_ok self m" and "p \<notin> set xs" and "p \<notin> {arr, data}"
  obtains st' where "owned_array_set self arr i p st = Inr st'" and "rt_wf st'" and "arr_rep self st' arr data (xs[unat i := p])"
    and "owns_elements self st' arr data (xs[unat i := p])" and "moves {data} {data} st st'"
proof -
  from owned_array_set_rep [OF assms(1-4), of p] obtain st' where s: "owned_array_set self arr i p st = Inr st'" "rt_wf st'"
    "rt.more st' = rt.more st" "arr_rep self st' arr data (xs[unat i := p])" "\<forall>q. q \<noteq> data \<longrightarrow> cell_at st' q = cell_at st q"
    using assms(5) by auto
  have m: "moves {data} {data} st st'" using s(3,5) by (auto simp: moves_def restrict_map_def fun_eq_iff)
  have e: "distinct (filter (\<lambda>x. x \<noteq> 0) xs)" "arr \<notin> set xs" "data \<notin> set xs"
    "\<And>x. x \<in> set xs \<Longrightarrow> x \<noteq> 0 \<Longrightarrow> \<exists>m y. cell_at st x = Some (m, y) \<and> free_ok self m"
    using assms(3) by (auto simp: owns_elements_def)
  have sub: "set (xs[unat i := p]) \<subseteq> insert p (set xs)" by (rule set_update_subset_insert)
  have "distinct (filter (\<lambda>x. x \<noteq> 0) (xs[unat i := p]))"
  proof -
    have t: "xs = take (unat i) xs @ 0 # drop (Suc (unat i)) xs" using assms(4,5) id_take_nth_drop by metis
    have u: "xs[unat i := p] = take (unat i) xs @ p # drop (Suc (unat i)) xs" using assms(4) by (rule upd_conv_take_nth_drop)
    have d: "distinct (filter (\<lambda>x. x \<noteq> 0) (take (unat i) xs) @ filter (\<lambda>x. x \<noteq> 0) (drop (Suc (unat i)) xs))"
      using e(1) by (subst (asm) t) simp
    have "p \<notin> set (take (unat i) xs)" "p \<notin> set (drop (Suc (unat i)) xs)"
      using assms(8) by (auto dest: in_set_takeD in_set_dropD)
    with d show ?thesis by (simp add: u)
  qed
  moreover have "arr \<notin> set (xs[unat i := p])" "data \<notin> set (xs[unat i := p])" using sub e(2,3) assms(9) by auto
  moreover have "\<exists>m y. cell_at st' x = Some (m, y) \<and> free_ok self m" if "x \<in> set (xs[unat i := p])" "x \<noteq> 0" for x
  proof (cases "x = p")
    case True
    then show ?thesis using assms(6,7,9) s(5) by auto
  next
    case False
    then have "x \<in> set xs" using sub that(1) by auto
    then show ?thesis using e(3) e(4) [of x] s(5) that(2) by metis
  qed
  ultimately have "owns_elements self st' arr data (xs[unat i := p])" unfolding owns_elements_def by blast
  then show thesis using that s m by blast
qed

lemma print_item_rep:
  assumes "rt_wf st" and "arr_rep self st arr data xs" and "unat i < length xs"
    and "str_rep self st (xs ! unat i) d cap bs" and "0 \<notin> set bs"
  shows "print_item arr i st = Inr bs"
  using owned_array_get_rep [OF assms(1,2), of i] print_string_rep(1) [OF assms(1,4,5)] assms(3) by (simp add: print_item_def)

lemma array_aside:
  assumes "arr_rep self st arr data xs" and "moves A B st st'" and "{arr, data} \<inter> A = {}"
  shows "arr_rep self st' arr data xs \<and> {arr, data} \<inter> B = {}"
proof -
  obtain m a md y where r: "cell_at st arr = Some (m, OArr a)" "cell_at st data = Some (md, y)"
    using assms(1) by (rule arr_repE)
  have n: "arr \<notin> A" "data \<notin> A" using assms(3) by auto
  note c = moves_cell [OF assms(2) r(1) n(1)] moves_cell [OF assms(2) r(2) n(2)]
  show ?thesis using assms(1) c r unfolding arr_rep_def by simp
qed

lemma three_empty: "replicate (unat (3 :: size_t)) (0 :: addr) = [0, 0, 0]"
proof -
  have "unat (3 :: size_t) = 3" by simp
  moreover have "replicate 3 (0 :: addr) = [0, 0, 0]" by (simp add: numeral_3_eq_3)
  ultimately show ?thesis by simp
qed

text \<open>The struct of a string is an object of the caller's.\<close>

lemma string_objects:
  assumes "str_rep self st str data cap bs"
  obtains m y md yd where "cell_at st str = Some (m, y)" and "free_ok self m" and "cell_at st data = Some (md, yd)"
    and "free_ok self md" and "str \<noteq> data" and "str \<noteq> 0" and "data \<noteq> 0"
  using assms by (rule str_repE) (rule that; simp)

lemma build_and_process_array_run:
  assumes "rt_wf st" and "room 8 D st" and "104 \<le> D"
  obtains p1 p2 p3 st' where
    "build_and_process_array self st = Inr ([ascii ''Apple'', ascii ''Banana'', ascii ''Cherry''], st')" and "rt_wf st'"
    and "distinct [p1, p2, p3]" and "moves {} {p1, p2, p3} st st'"
    and "\<forall>p \<in> {p1, p2, p3}. \<exists>m x. cell_at st' p = Some (m, x) \<and> free_ok self m"
proof -
  have r: "room (Suc (Suc 6)) D st" using assms(2) by (simp add: numeral_eq_Suc)
  obtain arr data s0 where s0: "owned_array_new self 3 st = Inr (arr, s0)" "rt_wf s0" "arr \<noteq> 0"
    "arr_rep self s0 arr data (replicate (unat (3 :: size_t)) 0)" "moves {} {arr, data} st s0" "room 6 D s0"
    by (rule array_create_step [OF assms(1) r, of 3]) (use assms(3) in simp_all)
  have a0: "arr_rep self s0 arr data [0, 0, 0]" using s0(4) unfolding three_empty .
  have r0: "room (Suc (Suc 4)) D s0" using s0(6) by (simp add: numeral_eq_Suc)
  obtain x1 d1 k1 s1 where s1: "safe_string_new self (Lit (ascii ''Apple'')) s0 = Inr (x1, s1)" "rt_wf s1"
    "str_rep self s1 x1 d1 k1 (ascii ''Apple'')" "moves {} {x1, d1} s0 s1" "room 4 D s1"
    by (rule string_step [OF s0(2) r0 plain_texts(5)]) (use assms(3) in simp_all)
  have r1: "room (Suc (Suc 2)) D s1" using s1(5) by (simp add: numeral_eq_Suc)
  obtain x2 d2 k2 s2 where s2: "safe_string_new self (Lit (ascii ''Banana'')) s1 = Inr (x2, s2)" "rt_wf s2"
    "str_rep self s2 x2 d2 k2 (ascii ''Banana'')" "moves {} {x2, d2} s1 s2" "room 2 D s2"
    by (rule string_step [OF s1(2) r1 plain_texts(6)]) (use assms(3) in simp_all)
  have r2: "room (Suc (Suc 0)) D s2" using s2(5) by (simp add: numeral_eq_Suc)
  obtain x3 d3 k3 s3 where s3: "safe_string_new self (Lit (ascii ''Cherry'')) s2 = Inr (x3, s3)" "rt_wf s3"
    "str_rep self s3 x3 d3 k3 (ascii ''Cherry'')" "moves {} {x3, d3} s2 s3"
    by (rule string_step [OF s2(2) r2 plain_texts(7)]) (use assms(3) in simp_all)
  let ?F0 = "{arr, data}" and ?F1 = "{x1, d1}" and ?F2 = "{x2, d2}" and ?F3 = "{x3, d3}"
  have b1: "arr_rep self s1 arr data [0, 0, 0]" "?F0 \<inter> ?F1 = {}" using array_aside [OF a0 s1(4)] by simp_all
  have b2: "arr_rep self s2 arr data [0, 0, 0]" "?F0 \<inter> ?F2 = {}" using array_aside [OF b1(1) s2(4)] by simp_all
  have b3: "arr_rep self s3 arr data [0, 0, 0]" "?F0 \<inter> ?F3 = {}" using array_aside [OF b2(1) s3(4)] by simp_all
  have e2: "str_rep self s2 x1 d1 k1 (ascii ''Apple'')" "?F1 \<inter> ?F2 = {}" using string_aside [OF s1(3) s2(4)] by simp_all
  have e3: "str_rep self s3 x1 d1 k1 (ascii ''Apple'')" "?F1 \<inter> ?F3 = {}" using string_aside [OF e2(1) s3(4)] by simp_all
  have g3: "str_rep self s3 x2 d2 k2 (ascii ''Banana'')" "?F2 \<inter> ?F3 = {}" using string_aside [OF s2(3) s3(4)] by simp_all
  have nz: "data \<noteq> 0" using a0 by (rule arr_repE)
  have own: "owns_elements self s3 arr data [0, 0, 0]" using s0(3) nz by (simp add: owns_elements_def)
  obtain m1 y1 where o1: "cell_at s3 x1 = Some (m1, y1)" "free_ok self m1" "x1 \<noteq> d1" "x1 \<noteq> 0" using e3(1) by (rule string_objects)
  have i: "unat (0 :: size_t) < length [0, 0, 0 :: addr]" "[0, 0, 0 :: addr] ! unat (0 :: size_t) = 0"
    "x1 \<notin> set [0, 0, 0]" "x1 \<notin> {arr, data}" using o1(4) b1(2) by auto
  obtain s4 where s4: "owned_array_set self arr 0 x1 s3 = Inr s4" "rt_wf s4" "arr_rep self s4 arr data [x1, 0, 0]"
    "owns_elements self s4 arr data [x1, 0, 0]" "moves {data} {data} s3 s4"
    using array_set_step [OF s3(2) b3(1) own i(1,2) o1(1,2) i(3,4)] by auto
  have D: "?F1 \<inter> {data} = {}" "?F2 \<inter> {data} = {}" "?F3 \<inter> {data} = {}" using b1(2) b2(2) b3(2) by auto
  have t4: "str_rep self s4 x1 d1 k1 (ascii ''Apple'')" "str_rep self s4 x2 d2 k2 (ascii ''Banana'')"
    "str_rep self s4 x3 d3 k3 (ascii ''Cherry'')"
    using string_aside [OF e3(1) s4(5) D(1)] string_aside [OF g3(1) s4(5) D(2)] string_aside [OF s3(3) s4(5) D(3)] by simp_all
  obtain m2 y2 where o2: "cell_at s4 x2 = Some (m2, y2)" "free_ok self m2" "x2 \<noteq> d2" "x2 \<noteq> 0" using t4(2) by (rule string_objects)
  have i: "unat (1 :: size_t) < length [x1, 0, 0 :: addr]" "[x1, 0, 0 :: addr] ! unat (1 :: size_t) = 0"
    "x2 \<notin> set [x1, 0, 0]" "x2 \<notin> {arr, data}" using o2(4) b2(2) e2(2) by auto
  obtain s5 where s5: "owned_array_set self arr 1 x2 s4 = Inr s5" "rt_wf s5" "arr_rep self s5 arr data [x1, x2, 0]"
    "owns_elements self s5 arr data [x1, x2, 0]" "moves {data} {data} s4 s5"
    using array_set_step [OF s4(2-4) i(1,2) o2(1,2) i(3,4)] by auto
  have t5: "str_rep self s5 x1 d1 k1 (ascii ''Apple'')" "str_rep self s5 x2 d2 k2 (ascii ''Banana'')"
    "str_rep self s5 x3 d3 k3 (ascii ''Cherry'')"
    using string_aside [OF t4(1) s5(5) D(1)] string_aside [OF t4(2) s5(5) D(2)] string_aside [OF t4(3) s5(5) D(3)] by simp_all
  obtain m3 y3 where o3: "cell_at s5 x3 = Some (m3, y3)" "free_ok self m3" "x3 \<noteq> d3" "x3 \<noteq> 0" using t5(3) by (rule string_objects)
  have i: "unat (2 :: size_t) < length [x1, x2, 0 :: addr]" "[x1, x2, 0 :: addr] ! unat (2 :: size_t) = 0"
    "x3 \<notin> set [x1, x2, 0]" "x3 \<notin> {arr, data}" using o3(4) b3(2) e3(2) g3(2) by auto
  have u: "[x1, x2, 0][unat (2 :: size_t) := x3] = [x1, x2, x3]" by simp
  obtain s6 where s6: "owned_array_set self arr 2 x3 s5 = Inr s6" "rt_wf s6" "arr_rep self s6 arr data [x1, x2, x3]"
    "owns_elements self s6 arr data [x1, x2, x3]" "moves {data} {data} s5 s6"
    using array_set_step [OF s5(2-4) i(1,2) o3(1,2) i(3,4)] unfolding u by auto
  have t6: "str_rep self s6 x1 d1 k1 (ascii ''Apple'')" "str_rep self s6 x2 d2 k2 (ascii ''Banana'')"
    "str_rep self s6 x3 d3 k3 (ascii ''Cherry'')"
    using string_aside [OF t5(1) s6(5) D(1)] string_aside [OF t5(2) s6(5) D(2)] string_aside [OF t5(3) s6(5) D(3)] by simp_all
  have p: "print_item arr 0 s6 = Inr (ascii ''Apple'')" "print_item arr 1 s6 = Inr (ascii ''Banana'')"
    "print_item arr 2 s6 = Inr (ascii ''Cherry'')"
    by (rule print_item_rep [OF s6(2,3)]; use t6 plain_texts(5-7) in simp)+
  obtain s7 where s7: "owned_array_free self arr s6 = Inr s7" "rt_wf s7" "rt.more s7 = rt.more s6"
    "cell_at s7 = cell_at s6 |` (- ({arr, data} \<union> set [x1, x2, x3]))"
    using owned_array_free_rep [OF s6(2-4)] by blast
  let ?A = "?F3 \<union> (?F2 \<union> (?F1 \<union> ?F0))"
  have sets: "{data} \<union> ?A = ?A" by auto
  have "moves {} ?A st s3"
    using s0(5) moves_frame [OF s1(4), of ?F0] moves_frame [OF s2(4), of "?F1 \<union> ?F0"]
      moves_frame [OF s3(4), of "?F2 \<union> (?F1 \<union> ?F0)"] moves_trans unfolding Un_empty_left by blast
  then have "moves {} ?A st s6"
    using moves_frame [OF s4(5), of ?A] moves_frame [OF s5(5), of ?A] moves_frame [OF s6(5), of ?A] moves_trans
    unfolding sets by blast
  moreover have "moves ?A {d1, d2, d3} s6 s7"
    using s7(3,4) o1(3) o2(3) o3(3) by (auto simp: moves_def restrict_map_def fun_eq_iff)
  ultimately have m: "moves {} {d1, d2, d3} st s7" by (rule moves_trans)
  have k: "\<exists>m x. cell_at s7 q = Some (m, x) \<and> free_ok self m" if "q \<in> {d1, d2, d3}" for q
  proof -
    have "\<exists>m x. cell_at s6 q = Some (m, x) \<and> free_ok self m" using that t6 by (auto elim!: string_objects)
    moreover have "q \<notin> {arr, data} \<union> set [x1, x2, x3]"
      using that b1(2) b2(2) b3(2) e2(2) e3(2) g3(2) o1(3) o2(3) o3(3) by auto
    ultimately show ?thesis using s7(4) by simp
  qed
  have dis: "distinct [d1, d2, d3]" using e2(2) e3(2) g3(2) by auto
  have "build_and_process_array self st = Inr ([ascii ''Apple'', ascii ''Banana'', ascii ''Cherry''], s7)"
    using s0(1,3) s1(1) s2(1) s3(1) s4(1) s5(1) s6(1) p s7(1)
    by (simp add: build_and_process_array_def cleanup_owned_array_free_def)
  then show thesis using that [OF _ s7(2) dis m] k by blast
qed

subsection \<open>The outcome\<close>

text \<open>C36: with memory for nine blocks of 200 bytes, \<open>demo_string.c\<close> prints the string after every change, its lengths
  and the character it asks for, and leaves the heap as it found it.  \<open>demo_array.c\<close> prints its three strings, but what
  it leaves behind are their three buffers: freeing the array frees the structs of the strings only.  All three are
  reported when the program ends, with the exit status 1.\<close>

theorem string_programs:
  assumes "rt_wf st" and "room 9 200 st"
  shows "(\<exists>st'. process_string self st =
      Inr (([ascii ''Hello'', ascii ''Hello, OwnedC '', ascii ''Hello, OwnedC World!'', ascii ''Hello, OwnedC World! :)''],
            [5, 20], of_char CHR ''O''), st') \<and> cell_at st' = cell_at st) \<and>
    (\<exists>p1 p2 p3 st' st''.
      build_and_process_array self st = Inr ([ascii ''Apple'', ascii ''Banana'', ascii ''Cherry''], st') \<and>
      distinct [p1, p2, p3] \<and> dom (cell_at st') = dom (cell_at st) \<union> {p1, p2, p3} \<and>
      cell_at st' |` (- {p1, p2, p3}) = cell_at st \<and> demo_array self st = Inr (1, st'') \<and>
      (\<forall>p \<in> {p1, p2, p3}. \<exists>sz fl ln. EvLeak p sz fl ln \<in> set (out st'')))"
proof (rule conjI)
  have D: "(200 :: nat) \<le> 200" "(104 :: nat) \<le> 200" by simp_all
  have r8: "room 8 200 st" by (rule room_less [OF assms(2)]) simp
  show "\<exists>st'. process_string self st =
      Inr (([ascii ''Hello'', ascii ''Hello, OwnedC '', ascii ''Hello, OwnedC World!'', ascii ''Hello, OwnedC World! :)''],
            [5, 20], of_char CHR ''O''), st') \<and> cell_at st' = cell_at st"
    by (rule process_string_run [OF assms D(1), of self]) blast
  obtain p1 p2 p3 st' where b:
    "build_and_process_array self st = Inr ([ascii ''Apple'', ascii ''Banana'', ascii ''Cherry''], st')" "rt_wf st'"
    "distinct [p1, p2, p3]" "moves {} {p1, p2, p3} st st'"
    "\<forall>p \<in> {p1, p2, p3}. \<exists>m x. cell_at st' p = Some (m, x) \<and> free_ok self m"
    by (rule build_and_process_array_run [OF assms(1) r8 D(2), of self])
  have leak: "\<exists>st'' sz fl ln. check_leaks st' = Inr (Some 1, st'') \<and> EvLeak p sz fl ln \<in> set (out st'')"
    if "p \<in> {p1, p2, p3}" for p
  proof -
    obtain m x where "cell_at st' p = Some (m, x)" "free_ok self m" using b(5) \<open>p \<in> {p1, p2, p3}\<close> by blast
    then obtain st'' fl ln where "check_leaks st' = Inr (Some 1, st'')" "EvLeak p (m_size m) fl ln \<in> set (out st'')"
      by (rule leak_reported [OF b(2)])
    then show ?thesis by blast
  qed
  then obtain st'' where c: "check_leaks st' = Inr (Some 1, st'')" by blast
  have "\<forall>p \<in> {p1, p2, p3}. \<exists>sz fl ln. EvLeak p sz fl ln \<in> set (out st'')" using leak c by fastforce
  moreover have "demo_array self st = Inr (1, st'')" using b(1) c by (simp add: demo_array_def exits_def)
  moreover have e: "cell_at st' |` (- {p1, p2, p3}) = cell_at st" using b(4) by (simp add: moves_def restrict_map_def)
  moreover have "dom (cell_at st') = dom (cell_at st) \<union> {p1, p2, p3}"
    using b(5) by (auto simp flip: e simp: restrict_map_def split: if_splits)
  ultimately show "\<exists>p1 p2 p3 st' st''.
      build_and_process_array self st = Inr ([ascii ''Apple'', ascii ''Banana'', ascii ''Cherry''], st') \<and>
      distinct [p1, p2, p3] \<and> dom (cell_at st') = dom (cell_at st) \<union> {p1, p2, p3} \<and>
      cell_at st' |` (- {p1, p2, p3}) = cell_at st \<and> demo_array self st = Inr (1, st'') \<and>
      (\<forall>p \<in> {p1, p2, p3}. \<exists>sz fl ln. EvLeak p sz fl ln \<in> set (out st''))"
    using b(1,3) by blast
qed

definition texts_state :: rt where
  "texts_state = rt_init (map (\<lambda>i. of_nat (0x1000 * Suc i)) [0..<12]) 1 2 3"

theorem string_programs_witness:
  "\<exists>st'. demo_array 1 texts_state = Inr (1, st')"
proof -
  have "rt_wf texts_state" unfolding texts_state_def by (rule rt_wf_init)
  moreover have "room 9 200 texts_state"
    by (rule room_spaced [where g = "0x1000" and n = 12]) (simp_all add: texts_state_def rt_init_def)
  ultimately show ?thesis using string_programs [of texts_state 1] by blast
qed

end
