(* ===== verification/Cycles.thy ===== *)
theory Cycles
  imports Collect Tests Scalars
begin

text \<open>
  \<open>examples/demo_rc_cycle.c\<close>: two reference-counted objects that refer to each other, dropped by the program and
  found by the collector; and \<open>examples/demo.c\<close>, which asks the runtime about a pointer it does not know.
\<close>

subsection \<open>The cycle\<close>

text \<open>\<open>simulate_memory_leak_cycle\<close>, which returns nothing, and \<open>main\<close>, with the number it prints.\<close>

definition simulate_memory_leak_cycle :: "tid \<Rightarrow> 'x gc_rt_scheme \<Rightarrow> failure + 'x gc_rt_scheme" where
  "simulate_memory_leak_cycle self st =
     bindE (owner_malloc self 4 st) (\<lambda>(dataA, st).
     bindE (owner_malloc self 4 st) (\<lambda>(dataB, st).
     bindE (store_int dataA 1 st) (\<lambda>st.
     bindE (store_int dataB 2 st) (\<lambda>st.
     bindE (owned_rc_new self dataA st) (\<lambda>(rcA, st).
     bindE (owned_rc_new self dataB st) (\<lambda>(rcB, st).
     bindE (owned_rc_register_child rcA rcB st) (\<lambda>st.
     bindE (owned_rc_clone rcB st) (\<lambda>(_, st).
     bindE (owned_rc_register_child rcB rcA st) (\<lambda>st.
     bindE (owned_rc_clone rcA st) (\<lambda>(_, st).
     bindE (owned_rc_drop self rcA st) (\<lambda>st.
     owned_rc_drop self rcB st)))))))))))"

definition demo_rc_cycle :: "tid \<Rightarrow> 'x gc_rt_scheme \<Rightarrow> failure + (32 word \<times> 'x gc_rt_scheme)" where
  "demo_rc_cycle self st = bindE (simulate_memory_leak_cycle self st) (owned_rc_collect_cycles self)"

lemma rc_new_step:
  fixes st :: "'x gc_rt_scheme"
  assumes "gc_inv self C st as R" and "guards self C as p" and "room (Suc k) D st" and "160 \<le> D"
  obtains rc r st' where "owned_rc_new self p st = Inr (rc, st')" and "gc_inv self C st' (rc # as) (R(rc := r))"
    and "rc_ptr r = p" and "rc_ref_count r = 1" and "rc_child_count r = 0" and "length (rc_children r) = MAX_RC_CHILDREN"
    and "C rc = None" and "rc \<notin> set as" and "rc \<noteq> 0" and "room k D st'"
proof -
  have wf: "rt_wf st" using assms(1) by (simp add: gc_inv_def rcs_def)
  have n: "unat (80 :: size_t) + 80 \<le> D" using assms(4) by simp
  obtain rc s where s: "owner_malloc self 80 st = Inr (rc, s)" "rc \<noteq> 0" "rt_wf s" "room k D s"
    "cell_at s rc = Some (fresh_meta self 80, Filled 0xAA)"
    by (rule object_step [OF wf assms(3) n, of self])
  from owned_rc_new_rep [OF assms(1,2)] obtain rc' st' where e: "owned_rc_new self p st = Inr (rc', st')"
    "if rc' = 0 then gc_inv self (C(p := None)) st' as R
     else \<exists>r. gc_inv self C st' (rc' # as) (R(rc' := r)) \<and> rc_ptr r = p \<and> rc_ref_count r = 1 \<and>
       rc_child_count r = 0 \<and> length (rc_children r) = MAX_RC_CHILDREN \<and> C rc' = None \<and> rc' \<notin> set as" by blast
  have rr: "rc' = rc" "room k D st'"
    using e(1) s(1,2,4)
    by (auto simp: owned_rc_new_def register_in_gc_def upd_rc_def bindE_eq_Inr room_def)
  then have nz: "rc' \<noteq> 0" using s(2) by simp
  then obtain r where "gc_inv self C st' (rc' # as) (R(rc' := r))" "rc_ptr r = p" "rc_ref_count r = 1"
    "rc_child_count r = 0" "length (rc_children r) = MAX_RC_CHILDREN" "C rc' = None" "rc' \<notin> set as"
    using e(2) by auto
  then show thesis using that e(1) nz rr(2) by blast
qed

text \<open>Two wrappers of the list, and what they hold.\<close>

definition pair :: "(addr \<Rightarrow> owned_rc) \<Rightarrow> addr \<Rightarrow> addr \<Rightarrow> owned_rc \<Rightarrow> owned_rc \<Rightarrow> addr \<Rightarrow> owned_rc" where
  "pair R a b x y = R(a := x, b := y)"

lemma pair_simps:
  assumes "a \<noteq> b"
  shows "pair R a b x y a = x" and "pair R a b x y b = y" and "(pair R a b x y)(a := z) = pair R a b z y"
    and "(pair R a b x y)(b := z) = pair R a b x z"
  using assms by (auto simp: pair_def fun_eq_iff)

text \<open>Registering the first child, cloning, and dropping a reference that is not the last, of either of them.\<close>

definition with_child :: "addr \<Rightarrow> owned_rc \<Rightarrow> owned_rc" where
  "with_child c r = r\<lparr>rc_children := (rc_children r)[0 := c], rc_child_count := 1\<rparr>"

definition counted :: "size_t \<Rightarrow> owned_rc \<Rightarrow> owned_rc" where
  "counted n r = r\<lparr>rc_ref_count := n\<rparr>"

lemma cycle_fields [simp]:
  "rc_ptr (with_child c r) = rc_ptr r" "rc_ref_count (with_child c r) = rc_ref_count r"
  "rc_children (with_child c r) = (rc_children r)[0 := c]" "rc_child_count (with_child c r) = 1"
  "rc_ptr (counted n r) = rc_ptr r" "rc_ref_count (counted n r) = n"
  "rc_children (counted n r) = rc_children r" "rc_child_count (counted n r) = rc_child_count r"
  by (simp_all add: with_child_def counted_def)

lemma child_step:
  assumes "gc_inv self C st as R" and "a \<in> set as" and "c \<noteq> 0" and "rc_child_count (R a) = 0"
  obtains st' where "owned_rc_register_child a c st = Inr st'" and "gc_inv self C st' as (R(a := with_child c (R a)))"
  by (rule owned_rc_register_child_rep [OF assms(1-3)]) (use assms(4) that in \<open>simp_all add: MAX_RC_CHILDREN_def with_child_def\<close>)

lemma clone_step:
  assumes "gc_inv self C st as R" and "a \<in> set as"
  obtains st' where "owned_rc_clone a st = Inr (a, st')" and "gc_inv self C st' as (R(a := counted (rc_ref_count (R a) + 1) (R a)))"
  by (rule owned_rc_clone_rep [OF assms]) (use that in \<open>simp add: counted_def\<close>)

lemma drop_step:
  assumes "gc_inv self C st as R" and "a \<in> set as" and "rc_ref_count (R a) = 2"
  obtains st' where "owned_rc_drop self a st = Inr st'" and "gc_inv self C st' as (R(a := counted 1 (R a)))"
proof -
  have "1 < unat (rc_ref_count (R a))" using assms(3) by simp
  from owned_rc_drop_more [OF assms(1,2) this] obtain st' where "owned_rc_drop self a st = Inr st'"
    "gc_inv self C st' as (R(a := (R a)\<lparr>rc_ref_count := rc_ref_count (R a) - 1\<rparr>))" by blast
  then show thesis using that assms(3) by (simp add: counted_def)
qed

text \<open>From the two new wrappers to the cycle nobody refers to.\<close>

lemma cycle_built:
  assumes "gc_inv self C st [b, a] (pair R a b x y)" and "a \<noteq> b" and "a \<noteq> 0" and "b \<noteq> 0"
    and "rc_child_count x = 0" and "rc_child_count y = 0" and "rc_ref_count x = 1" and "rc_ref_count y = 1"
  obtains s1 s2 s3 s4 s5 s6 where "owned_rc_register_child a b st = Inr s1" and "owned_rc_clone b s1 = Inr (b, s2)"
    and "owned_rc_register_child b a s2 = Inr s3" and "owned_rc_clone a s3 = Inr (a, s4)"
    and "owned_rc_drop self a s4 = Inr s5" and "owned_rc_drop self b s5 = Inr s6"
    and "gc_inv self C s6 [b, a] (pair R a b (counted 1 (counted 2 (with_child b x))) (counted 1 (with_child a (counted 2 y))))"
proof -
  note p = pair_simps [OF assms(2)]
  have m: "a \<in> set [b, a]" "b \<in> set [b, a]" by simp_all
  obtain s1 where s1: "owned_rc_register_child a b st = Inr s1" "gc_inv self C s1 [b, a] (pair R a b (with_child b x) y)"
    by (rule child_step [OF assms(1) m(1) assms(4)]) (use assms(5) in \<open>simp_all add: p\<close>)
  obtain s2 where s2: "owned_rc_clone b s1 = Inr (b, s2)" "gc_inv self C s2 [b, a] (pair R a b (with_child b x) (counted 2 y))"
    by (rule clone_step [OF s1(2) m(2)]) (use assms(8) in \<open>simp_all add: p\<close>)
  obtain s3 where s3: "owned_rc_register_child b a s2 = Inr s3"
    "gc_inv self C s3 [b, a] (pair R a b (with_child b x) (with_child a (counted 2 y)))"
    by (rule child_step [OF s2(2) m(2) assms(3)]) (use assms(6) in \<open>simp_all add: p\<close>)
  obtain s4 where s4: "owned_rc_clone a s3 = Inr (a, s4)"
    "gc_inv self C s4 [b, a] (pair R a b (counted 2 (with_child b x)) (with_child a (counted 2 y)))"
    by (rule clone_step [OF s3(2) m(1)]) (use assms(7) in \<open>simp_all add: p\<close>)
  obtain s5 where s5: "owned_rc_drop self a s4 = Inr s5"
    "gc_inv self C s5 [b, a] (pair R a b (counted 1 (counted 2 (with_child b x))) (with_child a (counted 2 y)))"
    by (rule drop_step [OF s4(2) m(1)]) (simp_all add: p)
  obtain s6 where s6: "owned_rc_drop self b s5 = Inr s6"
    "gc_inv self C s6 [b, a] (pair R a b (counted 1 (counted 2 (with_child b x))) (counted 1 (with_child a (counted 2 y))))"
    by (rule drop_step [OF s5(2) m(2)]) (simp_all add: p)
  show thesis by (rule that [OF s1(1) s2(1) s3(1) s4(1) s5(1) s6])
qed

text \<open>The collector frees both, and what they guard.\<close>

lemma cycle_collected:
  assumes "gc_inv self C st [b, a] R" and "a \<noteq> b" and "kids R a = [b]" and "kids R b = [a]"
    and "rc_ref_count (R a) = 1" and "rc_ref_count (R b) = 1" and "rc_child_count (R a) = 1" and "rc_child_count (R b) = 1"
    and "length (rc_children (R a)) = MAX_RC_CHILDREN" and "length (rc_children (R b)) = MAX_RC_CHILDREN"
    and "guards self C [b, a] (rc_ptr (R a))" and "guards self C [b, a] (rc_ptr (R b))" and "rc_ptr (R a) \<noteq> rc_ptr (R b)"
  obtains st' where "owned_rc_collect_cycles self st = Inr (2, st')" and "rt_wf st'"
    and "cell_at st' = without {a, b, rc_ptr (R a), rc_ptr (R b)} C"
proof -
  have g: "rc_graph self C [b, a] R" using assms by (auto simp: rc_graph_def MAX_RC_CHILDREN_def)
  have dead: "\<not> alive R [b, a] c" for c
  proof
    assume "alive R [b, a] c"
    then show False by induction (use assms(2-6) in \<open>auto simp: inner_refs_def\<close>)
  qed
  have h: "holdings R {c \<in> set [b, a]. \<not> alive R [b, a] c} = {a, b, rc_ptr (R a), rc_ptr (R b)}"
    by (auto simp: holdings_def dead)
  from collect_cycles_rep [OF assms(1) g] obtain st' R' where
    "owned_rc_collect_cycles self st = Inr (2, st')" "gc_inv self (without {a, b, rc_ptr (R a), rc_ptr (R b)} C) st' [] R'"
    unfolding h by (auto simp: dead)
  then show thesis using that by (auto simp: gc_inv_def rcs_def fun_eq_iff)
qed

text \<open>C37: the cycle of \<open>demo_rc_cycle.c\<close> is found: with memory for its four objects, the two wrappers that refer to each
  other outlive the references the program drops, the collector frees both, and it says so with the number 2.  Nothing
  of what was allocated is left, the integers they guard included, and nothing else was touched.\<close>

theorem demo_rc_cycle_collected:
  fixes st :: "'x gc_rt_scheme"
  assumes "rt_wf st" and "gc_head st = 0" and "room 4 160 st"
  shows "\<exists>s st'. simulate_memory_leak_cycle self st = Inr s \<and> cell_at s \<noteq> cell_at st \<and>
    demo_rc_cycle self st = Inr (2, st') \<and> rt_wf st' \<and> cell_at st' = cell_at st"
proof -
  have n4: "unat (4 :: size_t) + 80 \<le> 160" by simp
  have r: "room (Suc 3) 160 st" using assms(3) by (simp add: numeral_eq_Suc)
  obtain p s1 where s1: "owner_malloc self 4 st = Inr (p, s1)" "p \<noteq> 0" "rt_wf s1" "room 3 160 s1" "moves {} {p} st s1"
    "cell_at st p = None" "cell_at s1 = (cell_at st)(p \<mapsto> (fresh_meta self 4, Filled 0xAA))"
    by (rule object_step [OF assms(1) r n4, of self])
  have r: "room (Suc 2) 160 s1" using s1(4) by (simp add: numeral_eq_Suc)
  obtain q s2 where s2: "owner_malloc self 4 s1 = Inr (q, s2)" "q \<noteq> 0" "rt_wf s2" "room 2 160 s2" "moves {} {q} s1 s2"
    "cell_at s1 q = None" "cell_at s2 = (cell_at s1)(q \<mapsto> (fresh_meta self 4, Filled 0xAA))"
    by (rule object_step [OF s1(3) r n4, of self])
  have pq: "p \<noteq> q" using s2(6) s1(7) by auto
  have cp: "cell_at s2 p = Some (fresh_meta self 4, Filled 0xAA)" using s1(7) s2(7) pq by simp
  have sz: "4 \<le> unat (m_size (fresh_meta self 4))" by simp
  let ?s3 = "put p (int_payload 1) s2" and ?m = "fresh_meta self 4"
  have i3: "store_int p 1 s2 = Inr ?s3" by (rule store_int_cell [OF s2(3) cp sz])
  note w3 = heap.store_result [OF s2(3) cp, of "int_payload 1"]
  have cq: "cell_at ?s3 q = Some (?m, Filled 0xAA)" using w3 s2(7) pq by simp
  let ?s4 = "put q (int_payload 2) ?s3"
  have i4: "store_int q 2 ?s3 = Inr ?s4" by (rule store_int_cell [OF conjunct1 [OF w3] cq sz])
  note w4 = heap.store_result [OF conjunct1 [OF w3] cq, of "int_payload 2"]
  let ?C = "(cell_at st)(p \<mapsto> (?m, int_payload 1), q \<mapsto> (?m, int_payload 2))"
  have C: "cell_at ?s4 = ?C" using w4 w3 s1(7) s2(7) pq by auto
  have more: "rt.more ?s4 = rt.more st" using w3 w4 s1(5) s2(5) by (simp add: moves_def)
  have i: "gc_inv self ?C ?s4 [] (\<lambda>_. undefined)"
    using w4 C gc_head_more [OF more] assms(2) by (simp add: gc_inv_def rcs_def)
  have gp: "guards self ?C [] p" using pq by (simp add: guards_def)
  have r4: "room (Suc 1) 160 ?s4" using s2(4) by (simp add: numeral_2_eq_2)
  obtain a x s5 where s5: "owned_rc_new self p ?s4 = Inr (a, s5)" "gc_inv self ?C s5 [a] ((\<lambda>_. undefined)(a := x))"
    "rc_ptr x = p" "rc_ref_count x = 1" "rc_child_count x = 0" "length (rc_children x) = MAX_RC_CHILDREN" "?C a = None"
    "a \<noteq> 0" "room 1 160 s5"
    by (rule rc_new_step [OF i gp r4 order.refl])
  have gq: "guards self ?C [a] q" using s5(7) by (auto simp: guards_def split: if_splits)
  have r5: "room (Suc 0) 160 s5" using s5(9) by simp
  obtain b y s6 where s6: "owned_rc_new self q s5 = Inr (b, s6)" "gc_inv self ?C s6 [b, a] ((\<lambda>_. undefined)(a := x, b := y))"
    "rc_ptr y = q" "rc_ref_count y = 1" "rc_child_count y = 0" "length (rc_children y) = MAX_RC_CHILDREN" "?C b = None"
    "b \<notin> set [a]" "b \<noteq> 0"
    by (rule rc_new_step [OF s5(2) gq r5 order.refl])
  have ab: "a \<noteq> b" using s6(8) by auto
  note pr = pair_simps [OF ab]
  have i6: "gc_inv self ?C s6 [b, a] (pair (\<lambda>_. undefined) a b x y)" using s6(2) by (simp add: pair_def)
  let ?x = "counted 1 (counted 2 (with_child b x))" and ?y = "counted 1 (with_child a (counted 2 y))"
  obtain t1 t2 t3 t4 t5 t6 where t: "owned_rc_register_child a b s6 = Inr t1" "owned_rc_clone b t1 = Inr (b, t2)"
    "owned_rc_register_child b a t2 = Inr t3" "owned_rc_clone a t3 = Inr (a, t4)"
    "owned_rc_drop self a t4 = Inr t5" "owned_rc_drop self b t5 = Inr t6"
    "gc_inv self ?C t6 [b, a] (pair (\<lambda>_. undefined) a b ?x ?y)"
    by (rule cycle_built [OF i6 ab s5(8) s6(9) s5(5) s6(5) s5(4) s6(4)])
  have k: "take (Suc 0) (zs[0 := z]) = [z]" if "length zs = MAX_RC_CHILDREN" for zs :: "addr list" and z
    using that by (cases zs) (simp_all add: MAX_RC_CHILDREN_def)
  have ne: "a \<noteq> p" "a \<noteq> q" "b \<noteq> p" "b \<noteq> q" using s5(7) s6(7) by (auto split: if_splits)
  obtain st' where c: "owned_rc_collect_cycles self t6 = Inr (2, st')" "rt_wf st'" "cell_at st' = without {a, b, p, q} ?C"
    by (rule cycle_collected [OF t(7) ab])
      (use s5(3,6) s6(3,6) k pq ne in \<open>simp_all add: pr kids_def guards_def\<close>)
  have none: "cell_at st a = None" "cell_at st b = None" "cell_at st p = None" "cell_at st q = None"
    using s5(7) s6(7) ne s1(6) s2(6) s1(7) by (auto split: if_splits)
  have same: "cell_at st' = cell_at st" using c(3) none by (auto simp: without_def fun_eq_iff)
  have run: "simulate_memory_leak_cycle self st = Inr t6"
    using s1(1) s2(1) i3 i4 s5(1) s6(1) t(1-6) by (simp add: simulate_memory_leak_cycle_def)
  have "cell_at t6 a \<noteq> None" using t(7) by (auto simp: gc_inv_def rcs_def)
  then have "cell_at t6 \<noteq> cell_at st" using none(1) by auto
  then show ?thesis using run c(1,2) same by (simp add: demo_rc_cycle_def)
qed

definition cycle_state :: gc_rt where
  "cycle_state = rt.extend (rt_init (map (\<lambda>i. of_nat (0x1000 * Suc i)) [0..<6]) 1 2 3) (gc_rt.fields 0)"

theorem demo_rc_cycle_collected_witness:
  "\<exists>st'. demo_rc_cycle 1 cycle_state = Inr (2, st') \<and> cell_at st' = cell_at cycle_state"
proof -
  have "rt_wf (rt_init (map (\<lambda>i. of_nat (0x1000 * Suc i)) [0..<6]) 1 2 3)" by (rule rt_wf_init)
  then have "rt_wf cycle_state"
    by (auto simp: cycle_state_def rt.defs gc_rt.defs rt_wf_def rt_inv_def rt_rep_def ring_of_def)
  moreover have "gc_head cycle_state = 0" by (simp add: cycle_state_def rt.defs gc_rt.defs)
  moreover have "room 4 160 cycle_state"
    by (rule room_spaced [where g = "0x1000" and n = 6]) (simp_all add: cycle_state_def rt.defs gc_rt.defs rt_init_def)
  ultimately show ?thesis using demo_rc_cycle_collected [of cycle_state 1] by blast
qed

subsection \<open>Asking about a pointer of the C library\<close>

text \<open>\<open>demo.c\<close>: \<open>legacy\<close> comes from \<open>malloc\<close>.\<close>

definition demo_main :: "tid \<Rightarrow> 'x rt_scheme \<Rightarrow> failure + (int \<times> 'x rt_scheme)" where
  "demo_main self st =
     bindE (owner_malloc self 256 st) (\<lambda>(buffer, st).
       if buffer = 0 then Inr (1, st)
       else bindE (ownership_inspect buffer st) (\<lambda>st.
            let (legacy, st) = sys_malloc 100 st
            in bindE (ownership_inspect legacy st) (\<lambda>st.
               bindE (if legacy \<noteq> 0 then sys_free legacy st else Inr st) (\<lambda>st.
               bindE (ownership_stats st) (\<lambda>st.
               bindE (owner_free self buffer st) (\<lambda>st.
               bindE (ownership_stats st) (\<lambda>st. Inr (0, st))))))))"

text \<open>\<open>ownership_inspect\<close> looks for the magic number 80 bytes before the block, where nothing of the program's is.\<close>

lemma demo_main_reads_outside:
  "demo_main 1 showcase_state = Inl (Undefined ''read of an unmapped header'')"
  by (simp add: demo_main_def showcase_state_def rt_eval upt_conv_Cons ownership_inspect_def emit_def)

end
