(* ===== verification/Spec2Isabelle.thy ===== *)
theory Spec2Isabelle
  imports Diagnostics Vector OArray SString Region Arena Collect Channel Future Resources Lint JsonSpec SmartPtr Support Server Adapters Overlap
    Pipeline Kernel Demos Tests Texts Cycles
begin

text \<open>
  OwnedC is a C library that tracks the ownership of heap objects at run time.  Every object allocated with
  \<open>owner_malloc\<close> has a header (\<open>alloc_meta_t\<close>) that records its owner, its state and its borrows; the headers are
  registered in 64 lists; misuse (a double free, a free while borrowed, an access from the wrong thread) ends the
  program with a report; freed blocks stay in a quarantine of 1024 before they go back to the allocator.  On top of
  that there are containers, allocators, reference counting, channels, futures, wrappers for system resources, a JSON
  parser and a C++ wrapper.  A separate tool checks C sources.

  \<^bold>\<open>Conventions.\<close>  A C function is a definition of the same name that takes the calling thread (where it matters) and
  the state and returns \<open>failure + result\<close>: \<open>Fatal\<close> is a report of \<open>ownedc_diagnostics_fatal\<close>, \<open>Aborted\<close> and
  \<open>Exited\<close> the end of the process, \<open>Diverged\<close> a loop that does not end, \<open>Blocked\<close> a wait that is never over, and
  \<open>Undefined\<close> what C leaves undefined: access to memory that is not mapped or past a block, the use of a value nobody
  wrote, overflow of a signed integer.  \<open>size_t\<close> and addresses are 64-bit words that wrap, \<open>int\<close> is \<open>int\<close> with its
  bound where it is counted.  The state \<open>rt\<close> is extensible; components with static variables of their own extend it
  (\<open>gc_rt\<close>, \<open>fut_rt\<close>, \<open>os_rt\<close>).  The answers of \<open>malloc\<close> are a list \<open>replies\<close> in the state, used up in order; an answer
  that overlaps a block, or none, is a failed allocation, so that every theorem holds for every behaviour of the allocator.

  \<^bold>\<open>The runtime.\<close>
  \<^item> \<open>Prelude\<close>: failures, \<open>bindE\<close> and \<open>foldE\<close>, arithmetic of words, lists.
  \<^item> \<open>Memory\<close>: headers, payloads and the state (\<open>runtime.c\<close> lines 22 to 78, \<open>ownedc.h\<close>), the C allocator, access to
    slots and bytes of an object.
  \<^item> \<open>Registry\<close>: the lists of headers, \<open>insert_meta\<close>, \<open>remove_meta\<close>, the walks; linked lists as \<open>dseg\<close> and \<open>dll\<close>.
  \<^item> \<open>Runtime\<close>: \<open>owner_malloc\<close>, \<open>owner_calloc\<close>, \<open>owner_realloc\<close>, \<open>owner_free\<close>, claim, borrow, release, share.
  \<^item> \<open>RuntimeInv\<close>, \<open>RuntimeOps\<close>, \<open>RuntimeResize\<close>: the invariant (\<open>rt_rep\<close>) that ties blocks, headers, registry and
    quarantine together, and that every operation keeps it.
  \<^item> \<open>Quarantine\<close>: the ring as a bounded queue (locale \<open>bounded_fifo\<close>).
  \<^item> \<open>Calls\<close>, \<open>Safety\<close>: runs of the API by any threads, reachable states, and the guarantees: objects do not overlap,
    what \<open>owner_free\<close> decides, double frees are reported while the block is in quarantine, the borrowing protocol.
  \<^item> \<open>Diagnostics\<close>: leak report, statistics and dumps (\<open>diagnostics.c\<close>, end of \<open>runtime.c\<close>) against the live objects.
  \<^item> \<open>Heap\<close>: what the other components know of the runtime, as the locale \<open>owner_heap\<close> over the map of live objects
    (\<open>cell_at\<close>); it is interpreted on the runtime.

  \<^item> \<open>Interleave\<close>, \<open>Overlap\<close>: the calls cut at the points where they take or leave a lock (\<open>enter\<close>, \<open>resume\<close>), run by
    any number of threads; a simulation (\<open>shadows\<close>, \<open>follows\<close>) shows that they reach what whole calls reach, so that
    the guarantees of \<open>Safety\<close> hold for threads that run at the same time.

  \<^bold>\<open>Containers and allocators.\<close>
  \<^item> \<open>Vector\<close> (\<open>collections.c\<close>) refines lists, \<open>OArray\<close> (\<open>ownedc_array.c\<close>) owns what it holds, \<open>SString\<close>
    (\<open>ownedc_string.c\<close>) refines byte strings that end in zero.
  \<^item> \<open>Bump\<close>, \<open>Region\<close> (\<open>region.c\<close>), \<open>Arena\<close> (\<open>ownedc_arena.c\<close>): memory handed out is aligned, inside the blocks and
    disjoint (locale \<open>bump_allocator\<close>, interpreted on both).
  \<^item> \<open>RefCount\<close>, \<open>Collect\<close> (\<open>ownedc_rc.c\<close>): counts balance; a collection frees exactly the wrappers that no outside
    reference reaches.

  \<^bold>\<open>Threads and resources.\<close>
  \<^item> \<open>Handover\<close>, \<open>Channel\<close> (\<open>ownedc_channel.c\<close>): sending moves ownership, in order (locale \<open>handover_channel\<close>).
  \<^item> \<open>Future\<close> (\<open>ownedc_future.c\<close>): the steps of spawning, working and awaiting as a transition relation; progress.
  \<^item> \<open>Resources\<close> (\<open>ownedc_file.c\<close>, \<open>ownedc_socket.c\<close>, \<open>ownedc_mutex.c\<close>, \<open>ownedc_thread.c\<close>): scopes close what they
    opened (locale \<open>raii_resource\<close>); the operating system is a table of open descriptors, locks and threads.

  \<^bold>\<open>JSON\<close> (\<open>owned_json.c\<close>).
  \<^item> \<open>JsonText\<close>: white space, numbers as \<open>strtod\<close> reads them, the reference parser \<open>ref_value\<close> on strings;
    \<open>JsonGrammar\<close>: the grammar of RFC 8259 and that the reference parser accepts it.
  \<^item> \<open>Json\<close>: the parser, the release and the accessors of the C code.  \<open>parse_value\<close> and its companions are total: every
    loop moves forward in the text.
  \<^item> \<open>JsonRep\<close>, \<open>JsonFree\<close>: trees in the heap (\<open>jrep\<close>), what releasing and reading them does.
  \<^item> \<open>Room\<close>: enough memory; four answers for each character of the text, each with room for sixteen bytes for each
    character and 144 more, is enough, since a character accounts for at most a node and the growth of two buffers.
  \<^item> \<open>JsonNodes\<close>, \<open>JsonArrays\<close>, \<open>JsonObjects\<close>, \<open>JsonParse\<close>: the parser refines the reference parser and leaves nothing
    behind when it fails; \<open>JsonSpec\<close>: the properties.

  \<^bold>\<open>Other parts.\<close>
  \<^item> \<open>SmartPtr\<close> (\<open>ownedc.hpp\<close>): \<open>owned_ptr\<close> and \<open>borrowed_ptr\<close> as operations on variables; the class is a parameter.
  \<^item> \<open>Support\<close>: \<open>ownedc_result.h\<close>, \<open>ownedc_env.h\<close>, \<open>ownedc_cheri.h\<close>, the typed vectors of \<open>ownedc_generics.h\<close>.
  \<^item> \<open>Lint\<close> (\<open>tools/ownedc_lint.c\<close>): the checker line by line; its table of variables refines an ownership automaton,
    and it reports exactly the double frees and leaks of that automaton.

  \<^bold>\<open>Clients.\<close>
  \<^item> \<open>Server\<close> (\<open>examples/owned_http_server.c\<close>): the accepting thread and its workers as one program over the runtime,
    regions and strings.  Its frame is \<open>moves\<close> (\<open>Heap\<close>): the objects \<open>A\<close> became the objects \<open>B\<close> and nothing else
    changed.  \<open>Supply\<close> counts the allocations of strings and regions; a client takes at most 18 (context 1, region 2,
    buffer 1, request line 1, string 2, eleven appends), none above 32 KB.
  \<^item> \<open>Adapters\<close> (\<open>examples/sqlite_ownedc.c\<close>, \<open>examples/real_libs_ownedc.c\<close>): the memory methods for SQLite meet its
    contract (locale \<open>mem_methods\<close>, interpreted on them), and the hooks for libxml2 and OpenSSL.
  \<^item> \<open>Scalars\<close>: an \<open>int\<close> in the bytes of an object.  \<open>Pipeline\<close> (\<open>examples/demo_channel.c\<close>): the producer and the consumer
    as steps that a schedule interleaves.  Every schedule is safe, and 25 fair rounds are enough to end: six messages
    are made, sent, received and freed, and three more steps join, free the channel and end.
  \<^item> \<open>Kernel\<close> (\<open>examples/demo_kernel.c\<close>): the static heap of 64 KB and its allocator, and the runtime installed on it.
  \<^item> \<open>Demos\<close> (\<open>demo_mutex.c\<close>, \<open>demo_result.c\<close>, \<open>demo_file.c\<close>, \<open>demo_socket.c\<close>) and \<open>Showcase\<close> (\<open>demo_raii.c\<close>,
    \<open>demo_threads.c\<close>, \<open>demo_vector.c\<close>, \<open>demo_full_showcase.c\<close>): whole programs, with what they leave behind.
  \<^item> \<open>Tests\<close> (\<open>tests/\<close>): the test programs with the leak check at their exit.  Those that misuse an object are
    stopped with the report they expect, the others end with the status 0.
  \<^item> \<open>Texts\<close> (\<open>demo_string.c\<close>, \<open>demo_array.c\<close>): what the programs with strings print and leave behind.  \<open>Cycles\<close>
    (\<open>demo_rc_cycle.c\<close>, \<open>demo.c\<close>): a cycle that is built, dropped and collected; an unknown pointer that is inspected.

  \<^bold>\<open>Defects.\<close>  Where the code does not do what it means to, a theorem shows a run: a claim that defeats the detection of
  double frees (\<open>Safety\<close>), sizes that wrap (\<open>Safety\<close>, \<open>Vector\<close>, \<open>Region\<close>), appending a string to itself
  (\<open>SString\<close>), an arena without a block (\<open>Arena\<close>), a dropped child (\<open>Collect\<close>), sending without memory and freeing a
  channel that holds messages (\<open>Channel\<close>), a future without a thread (\<open>Future\<close>), closing early and again in the
  clean-up (\<open>Resources\<close>), growing an object when one of two allocations fails (\<open>JsonSpec\<close>), two reads outside a line
  (\<open>Lint\<close>), resizing a shared object while another thread frees it (\<open>Overlap\<close>), requests near the largest size that the kernel's
  allocator grants (\<open>Kernel\<close>), a vector in an \<open>OWNED\<close> variable, which leaks its buffer (\<open>Showcase\<close>), an
  array of strings, which leaks theirs (\<open>Texts\<close>), asking about a pointer of the C library (\<open>Cycles\<close>).

  \<^bold>\<open>Not modelled.\<close>  Interleaving inside a call of the channel, which holds its lock from the beginning to the end, and of the
  future (the worker is two steps); the calls of the runtime do overlap, at their locks, but for two uses that the
  theorems exclude and the code does not protect: resizing a shared object, and claiming an object while another thread
  works on it.  The text of printed reports beyond their reason and object.  The contents of
  floating-point numbers: a number is the characters it was read from.  JSON texts contain no zero character, since a C
  string ends there.  Exceptions of C++ constructors.  In the server, the bytes of region memory (the copy of the request
  line is the value that was copied), the set-up of the listening socket, and workers that run at the same time.  The
  Clang plugin, a stub over a library that is not in the repository.  The other programs under \<open>examples/\<close>
  and the benchmark, which are clients of the library that keep no state of it; \<open>test_lint.c\<close> and
  \<open>test_static_analysis.c\<close>, which are inputs of the linter.
\<close>

end
